(* ===== verification/Prelude.thy ===== *)
theory Prelude
  imports Complex_Main "HOL-Library.Word" "HOL-Library.AList" "HOL-Library.Sublist"
begin

text \<open>
  The shared prelude of the development.

  A Python method that may raise is modelled as a function from the object's state and the
  argument to a pair: the outcome (\<open>Inl\<close> the exception, \<open>Inr\<close> the returned value) and the
  state the object is left in.  The state is returned on the raising paths too, because a
  caller that catches the exception keeps using the same object.

  The prelude holds these result types, the generic runner of a method over a list of
  arguments, the model of the Python library operations the components share
  (\<open>bytes.find\<close>/\<open>str.find\<close>, slices with negative bounds, insertion-ordered dictionaries), and
  the two interfaces most components implement: \<open>invariant_object\<close> (every call keeps an
  invariant) and \<open>lossless_stream\<close> (a buffering stage neither loses, invents nor reorders
  elements).
\<close>

named_theorems py_simps \<open>unfolding rules for the modelled Python library operations\<close>

section \<open>Outcomes of calls\<close>

type_synonym byte = "8 word"

type_synonym ('e, 'o, 's) outcome = "('e + 'o) \<times> 's"

fun run :: "('s \<Rightarrow> 'i \<Rightarrow> ('e, 'o, 's) outcome) \<Rightarrow> 's \<Rightarrow> 'i list \<Rightarrow> ('e + 'o) list \<times> 's" where
  "run f s [] = ([], s)"
| "run f s (x # xs) =
     (let (r, s') = f s x; (rs, s'') = run f s' xs in (r # rs, s''))"

fun oks :: "('e + 'o) list \<Rightarrow> 'o list" where
  "oks [] = []"
| "oks (Inl _ # rs) = oks rs"
| "oks (Inr v # rs) = v # oks rs"

definition all_ok :: "('e + 'o) list \<Rightarrow> bool" where
  "all_ok rs \<longleftrightarrow> list_all (\<lambda>r. \<not> isl r) rs"

lemma all_ok_simps [simp]:
  "all_ok []" "all_ok (Inr v # rs) = all_ok rs" "\<not> all_ok (Inl e # rs)"
  by (simp_all add: all_ok_def)

lemma oks_append [simp]: "oks (xs @ ys) = oks xs @ oks ys"
  by (induction xs rule: oks.induct) simp_all

lemma all_ok_append [simp]: "all_ok (xs @ ys) \<longleftrightarrow> all_ok xs \<and> all_ok ys"
  by (simp add: all_ok_def)

lemma run_Cons_split:
  "run f s (x # xs) =
     (fst (f s x) # fst (run f (snd (f s x)) xs), snd (run f (snd (f s x)) xs))"
  by (simp add: case_prod_beta)

lemma run_append:
  "run f s (xs @ ys) =
     (fst (run f s xs) @ fst (run f (snd (run f s xs)) ys), snd (run f (snd (run f s xs)) ys))"
  by (induction xs arbitrary: s) (simp_all add: case_prod_beta)

lemma length_run [simp]: "length (fst (run f s xs)) = length xs"
  by (induction xs arbitrary: s) (simp_all add: case_prod_beta)

section \<open>Python values\<close>

text \<open>
  The dynamically typed values the shape validators inspect.  A float is the rational it
  denotes; \<open>bool\<close> is a subclass of \<open>int\<close>, so \<open>isinstance(True, int)\<close> holds and \<open>True\<close>
  is the integer 1.  Dictionary keys are strings, as in every payload the components accept.
\<close>

datatype pyval =
    PNone
  | PBool bool
  | PInt int
  | PFloat rat
  | PStr string
  | PList "pyval list"
  | PDict "(string \<times> pyval) list"

fun py_as_int :: "pyval \<Rightarrow> int option" where
  "py_as_int (PInt i) = Some i"
| "py_as_int (PBool b) = Some (of_bool b)"
| "py_as_int _ = None"

fun py_as_str :: "pyval \<Rightarrow> string option" where
  "py_as_str (PStr s) = Some s"
| "py_as_str _ = None"

fun py_as_bool :: "pyval \<Rightarrow> bool option" where
  "py_as_bool (PBool b) = Some b"
| "py_as_bool _ = None"

fun py_is_str :: "pyval \<Rightarrow> bool" where
  "py_is_str (PStr _) = True"
| "py_is_str _ = False"

text \<open>\<open>d.get(k)\<close>: a missing key gives \<open>None\<close>, like a key bound to \<open>None\<close>.\<close>

fun py_get :: "pyval \<Rightarrow> string \<Rightarrow> pyval" where
  "py_get (PDict d) k = (case map_of d k of None \<Rightarrow> PNone | Some v \<Rightarrow> v)"
| "py_get _ k = PNone"

text \<open>The characters \<open>str.strip()\<close> removes, among the 256 characters of the model.\<close>

definition py_space :: "char \<Rightarrow> bool" where
  "py_space c \<longleftrightarrow> (of_char c :: nat) \<in> {9, 10, 11, 12, 13, 28, 29, 30, 31, 32, 133, 160}"

definition py_strip :: "string \<Rightarrow> string" where
  "py_strip s = rev (dropWhile py_space (rev (dropWhile py_space s)))"

text \<open>\<open>str.lower()\<close> on the ASCII letters.\<close>

definition ascii_lower :: "string \<Rightarrow> string" where
  "ascii_lower = map (\<lambda>c. if 65 \<le> (of_char c :: nat) \<and> (of_char c :: nat) \<le> 90 then char_of ((of_char c :: nat) + 32) else c)"

subsection \<open>Rounding\<close>

text \<open>Python's \<open>round(x, n)\<close>: to the nearest multiple of \<open>10 ^ -n\<close>, halves to the even one.\<close>

definition half_even :: "rat \<Rightarrow> int" where
  "half_even x =
     (let f = \<lfloor>x\<rfloor>; d = x - of_int f in
      if d < 1 / 2 then f else if d > 1 / 2 then f + 1 else if even f then f else f + 1)"

definition py_round :: "nat \<Rightarrow> rat \<Rightarrow> rat" where
  "py_round n x = of_int (half_even (x * 10 ^ n)) / 10 ^ n"

section \<open>Interfaces\<close>

subsection \<open>Objects with an invariant\<close>

text \<open>
  Every call, whether it returns or raises, leaves the object in a state that satisfies the
  invariant.  The client's lemma is that a whole session does.
\<close>

locale invariant_object =
  fixes step :: "'s \<Rightarrow> 'i \<Rightarrow> ('e, 'o, 's) outcome"
    and inv :: "'s \<Rightarrow> bool"
  assumes step_inv: "inv s \<Longrightarrow> inv (snd (step s x))"
begin

lemma run_inv: "inv s \<Longrightarrow> inv (snd (run step s xs))"
  by (induction xs arbitrary: s) (simp_all add: case_prod_beta step_inv)

end

subsection \<open>Lossless stream stages\<close>

text \<open>
  A stage holds back some elements (\<open>pend\<close>), is fed chunks (\<open>inp\<close> reads the elements of a
  chunk) and returns outputs (\<open>outp\<close> reads the elements of an output).  The contract of a call
  that returns: what it hands out followed by what it still holds is what it held followed by
  what it was fed.
\<close>

locale lossless_stream = invariant_object step inv
  for step :: "'s \<Rightarrow> 'i \<Rightarrow> ('e, 'o, 's) outcome" and inv :: "'s \<Rightarrow> bool" +
  fixes pend :: "'s \<Rightarrow> 'a list"
    and inp :: "'i \<Rightarrow> 'a list"
    and outp :: "'o \<Rightarrow> 'a list"
  assumes conserve:
    "inv s \<Longrightarrow> step s x = (Inr y, s') \<Longrightarrow> outp y @ pend s' = pend s @ inp x"
begin

lemma run_conserve:
  assumes "inv s" and "run step s xs = (rs, s')" and "all_ok rs"
  shows "concat (map outp (oks rs)) @ pend s' = pend s @ concat (map inp xs)"
  using assms
proof (induction xs arbitrary: s rs)
  case Nil
  then show ?case by simp
next
  case (Cons x xs)
  obtain r s1 where st: "step s x = (r, s1)" by (cases "step s x")
  obtain rs1 where rn: "run step s1 xs = (rs1, s')" and rs: "rs = r # rs1"
    using Cons.prems(2) st by (auto split: prod.splits)
  obtain y where r: "r = Inr y" and ok: "all_ok rs1"
    using Cons.prems(3) rs by (cases r) auto
  have "inv s1" using step_inv [OF Cons.prems(1), of x] st by simp
  then have "concat (map outp (oks rs1)) @ pend s' = pend s1 @ concat (map inp xs)"
    using Cons.IH rn ok by blast
  moreover have "outp y @ pend s1 = pend s @ inp x"
    using conserve Cons.prems(1) st r by blast
  ultimately show ?case using rs r by (simp flip: append_assoc) (simp add: append_assoc)
qed

end

section \<open>Python sequences\<close>

text \<open>\<open>haystack.find(needle)\<close>: the least index at which the needle starts, \<open>None\<close> for \<open>-1\<close>.\<close>

fun find_sub :: "'a list \<Rightarrow> 'a list \<Rightarrow> nat option" where
  "find_sub d [] = (if d = [] then Some 0 else None)"
| "find_sub d (x # xs) =
     (if prefix d (x # xs) then Some 0 else map_option Suc (find_sub d xs))"

lemma prefix_iff_take: "prefix d xs \<longleftrightarrow> take (length d) xs = d"
  by (metis append_eq_conv_conj prefix_def take_is_prefix)

lemma prefix_append_fit: "length d \<le> length xs \<Longrightarrow> prefix d (xs @ ys) \<longleftrightarrow> prefix d xs"
  by (simp add: prefix_iff_take)

lemma find_sub_Some_prefix: "find_sub d xs = Some i \<Longrightarrow> prefix d (drop i xs)"
  by (induction d xs arbitrary: i rule: find_sub.induct) (auto split: if_splits)

lemma find_sub_Some_le: "find_sub d xs = Some i \<Longrightarrow> i + length d \<le> length xs"
  by (induction d xs arbitrary: i rule: find_sub.induct)
     (auto split: if_splits dest: prefix_length_le)

lemma find_sub_drop_less:
  assumes "find_sub d xs = Some i" and "d \<noteq> []"
  shows "length (drop (i + length d) xs) < length xs"
  using find_sub_Some_le [OF assms(1)] assms(2) by (cases d) auto

lemma find_sub_Some_decomp:
  assumes "find_sub d xs = Some i"
  shows "xs = take i xs @ d @ drop (i + length d) xs"
proof -
  from find_sub_Some_prefix [OF assms] obtain zs where "drop i xs = d @ zs"
    by (auto simp: prefix_def)
  moreover from this have "drop (i + length d) xs = zs"
    by (metis append_eq_conv_conj drop_drop add.commute)
  ultimately show ?thesis by (metis append_take_drop_id)
qed

lemma find_sub_least: "find_sub d xs = Some i \<Longrightarrow> j < i \<Longrightarrow> \<not> prefix d (drop j xs)"
  by (induction d xs arbitrary: i j rule: find_sub.induct)
     (auto split: if_splits simp: less_Suc_eq_0_disj)

lemma find_sub_None_iff: "find_sub d xs = None \<longleftrightarrow> \<not> sublist d xs"
  by (induction d xs rule: find_sub.induct) (auto simp: sublist_Cons_right)

lemma find_sub_None_drop: "find_sub d xs = None \<Longrightarrow> d \<noteq> [] \<Longrightarrow> \<not> prefix d (drop j xs)"
proof (rule notI)
  assume "find_sub d xs = None" and "prefix d (drop j xs)"
  moreover from this(2) have "sublist d xs"
    by (meson sublist_drop prefix_imp_sublist sublist_order.order_trans)
  ultimately show False by (simp add: find_sub_None_iff)
qed

lemma find_subI:
  assumes "prefix d (drop i xs)" and "d \<noteq> []" and "\<And>j. j < i \<Longrightarrow> \<not> prefix d (drop j xs)"
  shows "find_sub d xs = Some i"
proof (cases "find_sub d xs")
  case None
  with assms show ?thesis using find_sub_None_drop by blast
next
  case (Some k)
  then have "\<not> k < i" using assms(3) find_sub_Some_prefix by blast
  moreover have "\<not> i < k" using find_sub_least [OF Some] assms(1) by blast
  ultimately show ?thesis using Some by simp
qed

text \<open>A match found in a prefix of the text is the match found in the whole text.\<close>

lemma find_sub_append_Some:
  assumes "find_sub d xs = Some i"
  shows "find_sub d (xs @ ys) = Some i"
  using assms
proof (induction d xs arbitrary: i rule: find_sub.induct)
  case (1 d)
  then show ?case by (cases ys) (auto split: if_splits)
next
  case (2 d x xs)
  have "prefix d (x # xs @ ys)" if "prefix d (x # xs)"
    using that by (metis append_Cons prefix_prefix)
  moreover have "\<not> prefix d (x # xs @ ys)" if "\<not> prefix d (x # xs)" "find_sub d xs = Some k" for k
  proof -
    have "length d \<le> length xs" using find_sub_Some_le [OF that(2)] by simp
    then show ?thesis using that(1) prefix_append_fit [of d "x # xs" ys] by simp
  qed
  ultimately show ?case using 2 by (auto split: if_splits)
qed

text \<open>Conversely, a match in the longer text that already fits into the prefix is found there.\<close>

lemma find_sub_append_fit:
  assumes "find_sub d (xs @ ys) = Some i" and "i + length d \<le> length xs"
  shows "find_sub d xs = Some i"
proof (cases "d = []")
  case True
  then have "i = 0" using assms(1) by (cases "xs @ ys") auto
  with True show ?thesis by (cases xs) auto
next
  case False
  have fits: "prefix d (drop j xs) \<longleftrightarrow> prefix d (drop j (xs @ ys))" if "j \<le> i" for j
  proof -
    have "length d \<le> length (drop j xs)" using assms(2) that by simp
    then have "prefix d (drop j xs @ ys) \<longleftrightarrow> prefix d (drop j xs)" by (rule prefix_append_fit)
    then show ?thesis using assms(2) that by simp
  qed
  show ?thesis
    using find_subI [OF _ False, of i xs] fits find_sub_Some_prefix [OF assms(1)]
      find_sub_least [OF assms(1)] by simp
qed

text \<open>
  Slices with a negative bound: \<open>xs[:-n]\<close> and \<open>xs[-n:]\<close> for a positive \<open>n\<close>.
\<close>

definition slice_to_neg :: "'a list \<Rightarrow> nat \<Rightarrow> 'a list" where
  "slice_to_neg xs n = take (length xs - n) xs"

definition slice_from_neg :: "'a list \<Rightarrow> nat \<Rightarrow> 'a list" where
  "slice_from_neg xs n = drop (length xs - n) xs"

lemma slice_neg_append [simp]: "slice_to_neg xs n @ slice_from_neg xs n = xs"
  by (simp add: slice_to_neg_def slice_from_neg_def)

lemma length_slice_from_neg [simp]: "length (slice_from_neg xs n) = min n (length xs)"
  by (simp add: slice_from_neg_def)

lemma length_slice_to_neg [simp]: "length (slice_to_neg xs n) = length xs - n"
  by (simp add: slice_to_neg_def)

section \<open>Python dictionaries\<close>

text \<open>
  A \<open>dict\<close> keeps its insertion order: assigning to a present key keeps its place, assigning
  to a new key appends.  \<open>AList.update\<close> does exactly that, \<open>AList.delete\<close> is \<open>del d[k]\<close>
  (and \<open>d.pop(k)\<close>), \<open>map_of\<close> is \<open>d.get(k)\<close>.
\<close>

type_synonym ('k, 'v) dict = "('k \<times> 'v) list"

abbreviation dict_get :: "('k, 'v) dict \<Rightarrow> 'k \<Rightarrow> 'v option" where
  "dict_get d k \<equiv> map_of d k"

abbreviation dict_set :: "'k \<Rightarrow> 'v \<Rightarrow> ('k, 'v) dict \<Rightarrow> ('k, 'v) dict" where
  "dict_set k v d \<equiv> AList.update k v d"

abbreviation dict_del :: "'k \<Rightarrow> ('k, 'v) dict \<Rightarrow> ('k, 'v) dict" where
  "dict_del k d \<equiv> AList.delete k d"

definition dict_wf :: "('k, 'v) dict \<Rightarrow> bool" where
  "dict_wf d \<longleftrightarrow> distinct (map fst d)"

lemma length_dict_del_le: "length (dict_del k d) \<le> length d"
  by (induction d) auto

lemma length_dict_del_less: "dict_get d k = Some v \<Longrightarrow> length (dict_del k d) < length d"
  by (induction d) (auto simp: length_dict_del_le less_Suc_eq_le split: if_splits)

lemma dict_wf_simps [simp]: "dict_wf []"
  by (simp add: dict_wf_def)

lemma dict_wf_set [simp]: "dict_wf d \<Longrightarrow> dict_wf (dict_set k v d)"
  by (simp add: dict_wf_def distinct_update)

lemma dict_wf_del [simp]: "dict_wf d \<Longrightarrow> dict_wf (dict_del k d)"
  by (simp add: dict_wf_def distinct_delete)

lemma dict_get_set [simp]: "dict_get (dict_set k v d) = (dict_get d)(k \<mapsto> v)"
  by (rule update_conv')

lemma dict_get_del [simp]: "dict_get (dict_del k d) = (dict_get d)(k := None)"
  by (rule delete_conv')

lemma dict_keys_set [simp]:
  "fst ` set (dict_set k v d) = insert k (fst ` set d)"
  by (simp add: dom_update)

lemma dict_set_new: "dict_get d k = None \<Longrightarrow> dict_set k v d = d @ [(k, v)]"
  by (induction d) (auto split: if_splits)

lemma length_dict_set_present: "dict_get d k \<noteq> None \<Longrightarrow> length (dict_set k v d) = length d"
  by (induction d) (auto split: if_splits)

lemma dict_del_filter: "dict_del k d = filter (\<lambda>(k', v). k' \<noteq> k) d"
  by (induction d) auto

lemma length_dict_del_present:
  "dict_wf d \<Longrightarrow> dict_get d k = Some v \<Longrightarrow> Suc (length (dict_del k d)) = length d"
proof (induction d)
  case (Cons p d)
  have "k \<notin> fst ` set d \<Longrightarrow> dict_del k d = d" by (simp add: delete_id)
  then show ?case using Cons by (auto simp: dict_wf_def split: if_splits)
qed simp

lemma dict_wf_filter: "dict_wf d \<Longrightarrow> dict_wf (filter P d)"
  by (induction d) (auto simp: dict_wf_def)

lemma dict_wf_drop: "dict_wf d \<Longrightarrow> dict_wf (drop n d)"
  by (simp add: dict_wf_def drop_map [symmetric])

lemma dict_get_sub:
  assumes "dict_wf d" "set d' \<subseteq> set d" "dict_get d' k = Some v"
  shows "dict_get d k = Some v"
  using assms by (meson dict_wf_def map_of_SomeD map_of_is_SomeI subsetD)

lemma fold_dict_del: "fold dict_del ks d = filter (\<lambda>(k, v). k \<notin> set ks) d"
proof (induction ks arbitrary: d)
  case (Cons k ks)
  then show ?case by (auto simp: dict_del_filter intro!: filter_cong)
qed simp

end
