(* ===== verification/Reassembler.thy ===== *)
theory Reassembler
  imports Prelude
begin

text \<open>
  The streaming chunk reassembler (\<open>streaming-chunk-reassembler/reassembler.py\<close>): chunks
  arrive out of order, duplicated or with gaps; \<open>accept\<close> hands out the chunks that became
  deliverable.  The theory has the object's state, \<open>accept\<close> with its shape validation and the
  draining loop, \<open>gap_seqs\<close>, \<open>is_complete\<close> and \<open>state\<close>; its invariant; and the delivery
  theorems (strict order, at most once, and completeness for every arrival order).
\<close>

section \<open>State and operations\<close>

record chunk =
  seq :: int
  data :: string
  is_final :: bool

record reassembler =
  next_expected :: int
  buffer :: "(int, chunk) dict"
  seen :: "(int, string) dict"
  final_seq :: "int option"
  delivered_count :: int

datatype shape_error =
    NotADict
  | MissingField string
  | BadSeq
  | BadData
  | BadIsFinal

datatype reassembler_error =
    BadShape shape_error
  | DifferentPayload int
  | FinalMoved int int
  | BelowExpected int int

definition init_reassembler :: reassembler where
  "init_reassembler =
     \<lparr>next_expected = 0, buffer = [], seen = [], final_seq = None, delivered_count = 0\<rparr>"

text \<open>The type checks come in the order of the source; the first failing one is reported.\<close>

definition validate_shape :: "pyval \<Rightarrow> shape_error + chunk" where
  "validate_shape v =
     (case v of
        PDict d \<Rightarrow>
          (case dict_get d ''seq'' of
             None \<Rightarrow> Inl (MissingField ''seq'')
           | Some sv \<Rightarrow>
          (case dict_get d ''data'' of
             None \<Rightarrow> Inl (MissingField ''data'')
           | Some dv \<Rightarrow>
          (case dict_get d ''is_final'' of
             None \<Rightarrow> Inl (MissingField ''is_final'')
           | Some fv \<Rightarrow>
          (case py_as_int sv of
             None \<Rightarrow> Inl BadSeq
           | Some n \<Rightarrow>
               if n < 0 then Inl BadSeq
               else (case py_as_str dv of
                       None \<Rightarrow> Inl BadData
                     | Some t \<Rightarrow>
                         (case py_as_bool fv of
                            None \<Rightarrow> Inl BadIsFinal
                          | Some b \<Rightarrow> Inr \<lparr>seq = n, data = t, is_final = b\<rparr>))))))
      | _ \<Rightarrow> Inl NotADict)"

function drain :: "reassembler \<Rightarrow> chunk list \<times> reassembler" where
  "drain s =
     (case dict_get (buffer s) (next_expected s) of
        None \<Rightarrow> ([], s)
      | Some ch \<Rightarrow>
          (let (out, s') = drain (s\<lparr>buffer := dict_del (next_expected s) (buffer s),
                                   next_expected := next_expected s + 1,
                                   delivered_count := delivered_count s + 1\<rparr>)
           in (ch # out, s')))"
  by pat_completeness auto
termination
proof (relation "measure (\<lambda>s. length (buffer s))")
  show "wf (measure (\<lambda>s. length (buffer s)))" by simp
next
  fix s ch
  assume "dict_get (buffer s) (next_expected s) = Some ch"
  then have "length (dict_del (next_expected s) (buffer s)) < length (buffer s)"
    by (rule length_dict_del_less)
  then show "(s\<lparr>buffer := dict_del (next_expected s) (buffer s),
                next_expected := next_expected s + 1,
                delivered_count := delivered_count s + 1\<rparr>, s)
             \<in> measure (\<lambda>s. length (buffer s))" by simp
qed

declare drain.simps [simp del]

definition accept_chunk ::
  "reassembler \<Rightarrow> chunk \<Rightarrow> (reassembler_error, chunk list, reassembler) outcome" where
  "accept_chunk s c =
     (case dict_get (seen s) (seq c) of
        Some d \<Rightarrow> if d \<noteq> data c then (Inl (DifferentPayload (seq c)), s) else (Inr [], s)
      | None \<Rightarrow>
          if is_final c \<and> final_seq s \<noteq> None \<and> final_seq s \<noteq> Some (seq c)
          then (Inl (FinalMoved (the (final_seq s)) (seq c)), s)
          else
            (let s1 = (if is_final c then s\<lparr>final_seq := Some (seq c)\<rparr> else s);
                 s2 = s1\<lparr>seen := dict_set (seq c) (data c) (seen s1)\<rparr>
             in if seq c < next_expected s2
                then (Inl (BelowExpected (seq c) (next_expected s2)), s2)
                else (let (out, s3) = drain (s2\<lparr>buffer := dict_set (seq c) c (buffer s2)\<rparr>)
                      in (Inr out, s3))))"

definition accept :: "reassembler \<Rightarrow> pyval \<Rightarrow> (reassembler_error, chunk list, reassembler) outcome"
  where
  "accept s v =
     (case validate_shape v of
        Inl e \<Rightarrow> (Inl (BadShape e), s)
      | Inr c \<Rightarrow> accept_chunk s c)"

definition gap_seqs :: "reassembler \<Rightarrow> int list" where
  "gap_seqs s =
     (if buffer s = [] then []
      else (let highest = Max (set (map fst (buffer s)))
            in [k \<leftarrow> [next_expected s .. highest - 1]. dict_get (buffer s) k = None]))"

definition is_complete :: "reassembler \<Rightarrow> bool" where
  "is_complete s = (case final_seq s of None \<Rightarrow> False | Some f \<Rightarrow> next_expected s > f)"

record reassembler_snapshot =
  snap_next_expected_seq :: int
  snap_delivered_count :: int
  snap_buffered_seqs :: "int list"
  snap_gap_seqs :: "int list"
  snap_final_seq :: "int option"
  snap_is_complete :: bool

definition reassembler_state :: "reassembler \<Rightarrow> reassembler_snapshot" where
  "reassembler_state s =
     \<lparr>snap_next_expected_seq = next_expected s,
      snap_delivered_count = delivered_count s,
      snap_buffered_seqs = sort (map fst (buffer s)),
      snap_gap_seqs = gap_seqs s,
      snap_final_seq = final_seq s,
      snap_is_complete = is_complete s\<rparr>"

section \<open>The invariant\<close>

text \<open>
  What holds between the fields at every moment: the buffer holds only chunks at or above
  \<open>next_expected\<close>, filed under their own \<open>seq\<close> and with the payload recorded in \<open>seen\<close>; a
  \<open>seq\<close> has been seen exactly when it was delivered or is buffered.  Between two calls the
  buffer is also drained.
\<close>

definition buffer_inv :: "reassembler \<Rightarrow> bool" where
  "buffer_inv s \<longleftrightarrow>
     0 \<le> next_expected s \<and> delivered_count s = next_expected s \<and>
     (\<forall>k ch. dict_get (buffer s) k = Some ch \<longrightarrow>
        next_expected s \<le> k \<and> seq ch = k \<and> dict_get (seen s) k = Some (data ch)) \<and>
     (\<forall>k. dict_get (seen s) k \<noteq> None \<longleftrightarrow>
        (0 \<le> k \<and> k < next_expected s) \<or> dict_get (buffer s) k \<noteq> None)"

definition reassembler_inv :: "reassembler \<Rightarrow> bool" where
  "reassembler_inv s \<longleftrightarrow> buffer_inv s \<and> dict_get (buffer s) (next_expected s) = None"

lemma reassembler_inv_init [simp]: "reassembler_inv init_reassembler"
  by (simp add: reassembler_inv_def buffer_inv_def init_reassembler_def)

text \<open>One round of the draining loop moves one chunk from the buffer to the delivered part.\<close>

abbreviation pop_next :: "reassembler \<Rightarrow> reassembler" where
  "pop_next s \<equiv> s\<lparr>buffer := dict_del (next_expected s) (buffer s),
                   next_expected := next_expected s + 1,
                   delivered_count := delivered_count s + 1\<rparr>"

lemma pop_next_inv:
  assumes "buffer_inv s" and "dict_get (buffer s) (next_expected s) = Some ch"
  shows "buffer_inv (pop_next s)"
proof -
  have filed: "next_expected s \<le> k \<and> seq ch = k \<and> dict_get (seen s) k = Some (data ch)"
    if "dict_get (buffer s) k = Some ch" for k ch
    using assms(1) that by (simp add: buffer_inv_def)
  have known: "dict_get (seen s) k \<noteq> None \<longleftrightarrow>
      (0 \<le> k \<and> k < next_expected s) \<or> dict_get (buffer s) k \<noteq> None" for k
    using assms(1) by (simp add: buffer_inv_def)
  have pos: "0 \<le> next_expected s" and cnt: "delivered_count s = next_expected s"
    using assms(1) by (simp_all add: buffer_inv_def)
  have known': "dict_get (seen s) k \<noteq> None \<longleftrightarrow>
      (0 \<le> k \<and> k < next_expected s + 1) \<or> ((dict_get (buffer s))(next_expected s := None)) k \<noteq> None"
    for k
    using known [of k] assms(2) pos by (cases "k = next_expected s") auto
  show ?thesis
    unfolding buffer_inv_def
    using pos cnt known' by (auto dest: filed simp: order_less_le split: if_splits)
qed

lemma drain_frame:
  "seen (snd (drain s)) = seen s" "final_seq (snd (drain s)) = final_seq s"
  "next_expected s \<le> next_expected (snd (drain s))"
proof (induction s rule: drain.induct)
  case (1 s)
  {
    case 1
    then show ?case
      using "1.IH"(1) by (cases "dict_get (buffer s) (next_expected s)")
        (simp_all add: drain.simps [of s] case_prod_beta)
  next
    case 2
    then show ?case
      using "1.IH"(2) by (cases "dict_get (buffer s) (next_expected s)")
        (simp_all add: drain.simps [of s] case_prod_beta)
  next
    case 3
    then show ?case
      using "1.IH"(3) by (cases "dict_get (buffer s) (next_expected s)")
        (fastforce simp: drain.simps [of s] case_prod_beta)+
  }
qed

lemma drain_inv: "buffer_inv s \<Longrightarrow> reassembler_inv (snd (drain s))"
proof (induction s rule: drain.induct)
  case (1 s)
  show ?case
  proof (cases "dict_get (buffer s) (next_expected s)")
    case None
    then show ?thesis using 1 by (simp add: drain.simps [of s] reassembler_inv_def)
  next
    case (Some ch)
    then have "reassembler_inv (snd (drain (pop_next s)))"
      using "1.IH" pop_next_inv "1.prems" by blast
    with Some show ?thesis by (simp add: drain.simps [of s] case_prod_beta)
  qed
qed

lemma drain_seqs:
  "buffer_inv s \<Longrightarrow> map seq (fst (drain s)) = [next_expected s .. next_expected (snd (drain s)) - 1]"
proof (induction s rule: drain.induct)
  case (1 s)
  show ?case
  proof (cases "dict_get (buffer s) (next_expected s)")
    case None
    then show ?thesis by (simp add: drain.simps [of s])
  next
    case (Some ch)
    then have "map seq (fst (drain (pop_next s)))
               = [next_expected s + 1 .. next_expected (snd (drain (pop_next s))) - 1]"
      using "1.IH" pop_next_inv "1.prems" by fastforce
    moreover have "seq ch = next_expected s"
      using "1.prems" Some by (auto simp: buffer_inv_def)
    moreover have "next_expected s + 1 \<le> next_expected (snd (drain (pop_next s)))"
      using drain_frame(3) [of "pop_next s"] by simp
    ultimately show ?thesis using Some
      by (simp add: drain.simps [of s] case_prod_beta upto_rec1)
  qed
qed

lemma drain_data:
  "buffer_inv s \<Longrightarrow> ch \<in> set (fst (drain s)) \<Longrightarrow> dict_get (seen s) (seq ch) = Some (data ch)"
proof (induction s arbitrary: ch rule: drain.induct)
  case (1 s)
  show ?case
  proof (cases "dict_get (buffer s) (next_expected s)")
    case None
    then show ?thesis using "1.prems" by (simp add: drain.simps [of s])
  next
    case (Some c)
    then have "ch = c \<or> ch \<in> set (fst (drain (pop_next s)))"
      using "1.prems" by (simp add: drain.simps [of s] case_prod_beta)
    then show ?thesis
    proof
      assume "ch = c"
      then show ?thesis using "1.prems"(1) Some by (auto simp: buffer_inv_def)
    next
      assume "ch \<in> set (fst (drain (pop_next s)))"
      then show ?thesis using "1.IH" Some pop_next_inv [OF "1.prems"(1) Some] by fastforce
    qed
  qed
qed

lemmas drain_facts = drain_frame drain_inv drain_seqs drain_data

section \<open>One call\<close>

text \<open>The state in which a fresh chunk enters the draining loop.\<close>

definition filed :: "reassembler \<Rightarrow> chunk \<Rightarrow> reassembler" where
  "filed s c =
     s\<lparr>final_seq := (if is_final c then Some (seq c) else final_seq s),
       seen := dict_set (seq c) (data c) (seen s),
       buffer := dict_set (seq c) c (buffer s)\<rparr>"

lemma filed_inv:
  assumes "reassembler_inv s" and "dict_get (seen s) (seq c) = None" and "0 \<le> seq c"
  shows "buffer_inv (filed s c)" and "next_expected s \<le> seq c"
proof -
  show ge: "next_expected s \<le> seq c"
    using assms unfolding reassembler_inv_def buffer_inv_def by (metis not_le)
  show "buffer_inv (filed s c)"
    using assms ge unfolding reassembler_inv_def buffer_inv_def filed_def
    by (auto split: if_splits)
qed

lemma accept_chunk_fresh:
  assumes "reassembler_inv s" and "dict_get (seen s) (seq c) = None" and "0 \<le> seq c"
    and "\<not> (is_final c \<and> final_seq s \<noteq> None \<and> final_seq s \<noteq> Some (seq c))"
  shows "accept_chunk s c = (Inr (fst (drain (filed s c))), snd (drain (filed s c)))"
proof -
  have "s\<lparr>final_seq := if is_final c then Some (seq c) else final_seq s\<rparr>
        = (if is_final c then s\<lparr>final_seq := Some (seq c)\<rparr> else s)" by simp
  then show ?thesis
    using assms(2,4) filed_inv(2) [OF assms(1-3)]
    by (auto simp: accept_chunk_def filed_def Let_def case_prod_beta)
qed

text \<open>
  The three ways a call on a well-shaped chunk can end: absorbed or rejected without any
  change of the state, or filed and drained.  In particular the branch for a fresh chunk
  below \<open>next_expected\<close> is never taken.
\<close>

lemma accept_chunk_cases [consumes 2, case_names same rejected fresh]:
  assumes "reassembler_inv s" and "0 \<le> seq c"
  obtains
    (same) "dict_get (seen s) (seq c) = Some (data c)" "accept_chunk s c = (Inr [], s)"
  | (rejected) e where "accept_chunk s c = (Inl e, s)" "e = DifferentPayload (seq c) \<and> dict_get (seen s) (seq c) \<noteq> None \<or>
      (\<exists>f. e = FinalMoved f (seq c) \<and> final_seq s = Some f \<and> is_final c \<and> f \<noteq> seq c)"
      "dict_get (seen s) (seq c) \<noteq> Some (data c)"
  | (fresh) "dict_get (seen s) (seq c) = None"
      "accept_chunk s c = (Inr (fst (drain (filed s c))), snd (drain (filed s c)))"
proof (cases "dict_get (seen s) (seq c)")
  case (Some d)
  then show ?thesis
    using same rejected by (cases "d = data c") (auto simp: accept_chunk_def)
next
  case None
  show ?thesis
  proof (cases "is_final c \<and> final_seq s \<noteq> None \<and> final_seq s \<noteq> Some (seq c)")
    case True
    then show ?thesis using None rejected by (auto simp: accept_chunk_def)
  next
    case False
    then show ?thesis using fresh None accept_chunk_fresh assms by blast
  qed
qed

lemma validate_shape_nonneg: "validate_shape v = Inr c \<Longrightarrow> 0 \<le> seq c"
  by (auto simp: validate_shape_def split: pyval.splits option.splits if_splits)

lemma accept_inv:
  assumes "reassembler_inv s"
  shows "reassembler_inv (snd (accept s v))"
proof (cases "validate_shape v")
  case (Inl e)
  then show ?thesis using assms by (simp add: accept_def)
next
  case (Inr c)
  then have pos: "0 \<le> seq c" by (rule validate_shape_nonneg)
  show ?thesis
    using assms pos
    by (cases rule: accept_chunk_cases)
       (use assms pos in \<open>simp_all add: accept_def Inr drain_inv filed_inv(1)\<close>)
qed

interpretation reasm: invariant_object accept reassembler_inv
  by unfold_locales (rule accept_inv)

text \<open>The chunks one call hands out continue the sequence where the previous call stopped.\<close>

lemma accept_seqs:
  assumes "reassembler_inv s" and "accept s v = (Inr out, s')"
  shows "map seq out = [next_expected s .. next_expected s' - 1]"
    and "next_expected s \<le> next_expected s'"
proof -
  obtain c where v: "validate_shape v = Inr c" and a: "accept_chunk s c = (Inr out, s')"
    using assms(2) by (auto simp: accept_def split: sum.splits)
  have pos: "0 \<le> seq c" using v by (rule validate_shape_nonneg)
  have "map seq out = [next_expected s .. next_expected s' - 1] \<and>
        next_expected s \<le> next_expected s'"
    using assms(1) pos
  proof (cases rule: accept_chunk_cases)
    case same
    then show ?thesis using a by simp
  next
    case (rejected e)
    then show ?thesis using a by simp
  next
    case fresh
    have nx: "next_expected (filed s c) = next_expected s" by (simp add: filed_def)
    from fresh a have "out = fst (drain (filed s c))" "s' = snd (drain (filed s c))" by auto
    then show ?thesis
      using drain_seqs [OF filed_inv(1) [OF assms(1) fresh(1) pos]]
        drain_frame(3) [of "filed s c"] nx by simp
  qed
  then show "map seq out = [next_expected s .. next_expected s' - 1]"
    and "next_expected s \<le> next_expected s'" by auto
qed

lemma accept_error_state:
  assumes "reassembler_inv s" and "accept s v = (Inl e, s')"
  shows "s' = s"
proof (cases "validate_shape v")
  case (Inl e)
  then show ?thesis using assms by (simp add: accept_def)
next
  case (Inr c)
  then have pos: "0 \<le> seq c" by (rule validate_shape_nonneg)
  show ?thesis
    using assms(1) pos
    by (cases rule: accept_chunk_cases) (use assms(2) Inr in \<open>auto simp: accept_def\<close>)
qed

section \<open>Whole sessions\<close>

lemma upto_split_at:
  "(i::int) \<le> j \<Longrightarrow> j \<le> k \<Longrightarrow> [i .. j - 1] @ [j .. k - 1] = [i .. k - 1]"
  using upto_split1 [of i j "k - 1"] by (cases "j = k") simp_all

lemma run_accept_seqs:
  "reassembler_inv s \<Longrightarrow>
   map seq (concat (oks (fst (run accept s vs)))) =
     [next_expected s .. next_expected (snd (run accept s vs)) - 1] \<and>
   next_expected s \<le> next_expected (snd (run accept s vs))"
proof (induction vs arbitrary: s)
  case Nil
  then show ?case by simp
next
  case (Cons v vs)
  obtain r s1 where st: "accept s v = (r, s1)" by (cases "accept s v")
  have inv1: "reassembler_inv s1" using accept_inv [OF Cons.prems, of v] st by simp
  note IH = Cons.IH [OF inv1]
  show ?case
  proof (cases r)
    case (Inl e)
    then have "s1 = s" using accept_error_state Cons.prems st by blast
    then show ?thesis using IH st Inl by (simp add: case_prod_beta)
  next
    case (Inr out)
    then have "map seq out = [next_expected s .. next_expected s1 - 1]"
      and "next_expected s \<le> next_expected s1"
      using accept_seqs Cons.prems st by blast+
    then show ?thesis
      using IH st Inr by (simp add: case_prod_beta upto_split_at)
  qed
qed

subsection \<open>A source and its arrivals\<close>

text \<open>
  The sender splits a stream into the payloads \<open>ds\<close>, numbers them from 0 and marks the last
  one final; \<open>wire\<close> is the dictionary that travels.
\<close>

definition source_chunk :: "string list \<Rightarrow> nat \<Rightarrow> chunk" where
  "source_chunk ds i = \<lparr>seq = int i, data = ds ! i, is_final = (Suc i = length ds)\<rparr>"

definition wire :: "chunk \<Rightarrow> pyval" where
  "wire c = PDict [(''seq'', PInt (seq c)), (''data'', PStr (data c)),
                   (''is_final'', PBool (is_final c))]"

lemma validate_shape_wire: "0 \<le> seq c \<Longrightarrow> validate_shape (wire c) = Inr c"
  by (simp add: validate_shape_def wire_def)

definition src_inv :: "string list \<Rightarrow> reassembler \<Rightarrow> bool" where
  "src_inv ds s \<longleftrightarrow> reassembler_inv s \<and>
     (\<forall>k d. dict_get (seen s) k = Some d \<longrightarrow> 0 \<le> k \<and> nat k < length ds \<and> d = ds ! nat k) \<and>
     (\<forall>f. final_seq s = Some f \<longrightarrow> f = int (length ds) - 1) \<and>
     (dict_get (seen s) (int (length ds) - 1) \<noteq> None \<longrightarrow> final_seq s \<noteq> None)"

lemma accept_source:
  assumes "src_inv ds s" and "i < length ds"
  shows "\<exists>out s'. accept s (wire (source_chunk ds i)) = (Inr out, s') \<and> src_inv ds s' \<and>
    fst ` set (seen s') = insert (int i) (fst ` set (seen s)) \<and>
    (\<forall>ch \<in> set out. data ch = ds ! nat (seq ch))"
proof -
  let ?c = "source_chunk ds i"
  have inv: "reassembler_inv s" and pos: "0 \<le> seq ?c"
    using assms(1) by (simp_all add: src_inv_def source_chunk_def)
  have acc: "accept s (wire ?c) = accept_chunk s ?c"
    by (simp add: accept_def validate_shape_wire [OF pos])
  have src: "0 \<le> k \<and> nat k < length ds \<and> d = ds ! nat k"
    if "dict_get (seen s) k = Some d" for k d
    using assms(1) that by (simp add: src_inv_def)
  show ?thesis
    using inv pos
  proof (cases rule: accept_chunk_cases)
    case same
    have "int i \<in> fst ` set (seen s)"
      using same(1) by (force simp: source_chunk_def dest: map_of_SomeD)
    with same show ?thesis using acc assms(1) by auto
  next
    case (rejected e)
    have "dict_get (seen s) (int i) = None"
      using rejected(3) src [of "int i"] by (cases "dict_get (seen s) (int i)")
        (auto simp: source_chunk_def)
    then have False
      using rejected(2) assms by (auto simp: src_inv_def source_chunk_def)
    then show ?thesis ..
  next
    case fresh
    let ?s' = "snd (drain (filed s ?c))"
    have fl: "buffer_inv (filed s ?c)" using filed_inv(1) inv fresh(1) pos by blast
    have sn: "seen ?s' = dict_set (int i) (ds ! i) (seen s)"
      by (simp add: drain_frame filed_def source_chunk_def)
    have fin: "final_seq ?s' = (if Suc i = length ds then Some (int i) else final_seq s)"
      by (simp add: drain_frame filed_def source_chunk_def)
    have "src_inv ds ?s'"
      using assms drain_inv [OF fl] by (auto simp: src_inv_def sn fin split: if_splits)
    moreover have "data ch = ds ! nat (seq ch)" if "ch \<in> set (fst (drain (filed s ?c)))" for ch
      using drain_data [OF fl that] assms(2)
      by (auto simp: filed_def source_chunk_def split: if_splits dest: src)
    ultimately show ?thesis using fresh(2) acc by (simp add: sn)
  qed
qed

lemma run_source:
  assumes "src_inv ds s" and "set ks \<subseteq> {..<length ds}"
  shows "\<exists>rs s'. run accept s (map (\<lambda>i. wire (source_chunk ds i)) ks) = (rs, s') \<and>
    all_ok rs \<and> src_inv ds s' \<and> fst ` set (seen s') = int ` set ks \<union> fst ` set (seen s) \<and>
    (\<forall>ch \<in> set (concat (oks rs)). data ch = ds ! nat (seq ch))"
  using assms
proof (induction ks arbitrary: s)
  case Nil
  then show ?case by simp
next
  case (Cons i ks)
  then obtain out s1 where
      1: "accept s (wire (source_chunk ds i)) = (Inr out, s1)" "src_inv ds s1"
         "fst ` set (seen s1) = insert (int i) (fst ` set (seen s))"
         "\<forall>ch \<in> set out. data ch = ds ! nat (seq ch)"
    using accept_source [of ds s i] by auto
  moreover obtain rs s' where
      "run accept s1 (map (\<lambda>i. wire (source_chunk ds i)) ks) = (rs, s')"
      "all_ok rs" "src_inv ds s'" "fst ` set (seen s') = int ` set ks \<union> fst ` set (seen s1)"
      "\<forall>ch \<in> set (concat (oks rs)). data ch = ds ! nat (seq ch)"
    using Cons.IH [OF 1(2)] Cons.prems(2) by auto
  ultimately show ?case by auto
qed

lemma image_int_lessThan: "int ` {..<n} = {0..<int n}"
  by (simp add: lessThan_atLeast0 image_int_atLeastLessThan)

text \<open>When everything has been seen, the cursor has passed the last chunk.\<close>

lemma all_seen_next:
  assumes "src_inv ds s" and "fst ` set (seen s) = int ` {..<length ds}"
  shows "next_expected s = int (length ds)"
proof -
  have inv: "buffer_inv s" and free: "dict_get (buffer s) (next_expected s) = None"
    using assms(1) by (auto simp: src_inv_def reassembler_inv_def)
  have pos: "0 \<le> next_expected s" using inv by (simp add: buffer_inv_def)
  have known: "dict_get (seen s) k \<noteq> None \<longleftrightarrow> 0 \<le> k \<and> k < int (length ds)" for k
    using assms(2) by (simp add: map_of_eq_None_iff image_int_lessThan)
  have "dict_get (seen s) (next_expected s) = None"
    using inv free by (auto simp: buffer_inv_def)
  then have "int (length ds) \<le> next_expected s" using known pos by (meson not_le)
  moreover have "next_expected s \<le> int (length ds)"
  proof (rule ccontr)
    assume "\<not> ?thesis"
    then have "dict_get (seen s) (int (length ds)) \<noteq> None" using inv pos
      by (auto simp: buffer_inv_def)
    then show False using known by simp
  qed
  ultimately show ?thesis by simp
qed

text \<open>
  C12.  Whatever arrives (chunks in any order, duplicates, contradictions, malformed values),
  the chunks handed out over a whole session carry the sequence numbers \<open>0, 1, 2, \<dots>\<close> up to
  the reassembler's cursor, each exactly once and in this order.
\<close>

theorem delivery_in_order_at_most_once:
  "map seq (concat (oks (fst (run accept init_reassembler vs)))) =
     [0 .. next_expected (snd (run accept init_reassembler vs)) - 1]"
  using run_accept_seqs [OF reassembler_inv_init, of vs]
  by (simp add: init_reassembler_def)

text \<open>
  C11.  If every chunk of a source arrives at least once, in any order and with any number of
  repetitions, no call raises, the payloads handed out are the source's payloads in their
  order, and (for a non-empty source) the stream is reported complete.
\<close>

theorem delivery_complete:
  assumes "set ks = {..<length ds}"
  shows "let (rs, s) = run accept init_reassembler (map (\<lambda>i. wire (source_chunk ds i)) ks)
         in all_ok rs \<and> map data (concat (oks rs)) = ds \<and> (ds \<noteq> [] \<longrightarrow> is_complete s)"
proof -
  have "src_inv ds init_reassembler"
    by (simp add: src_inv_def) (simp add: init_reassembler_def)
  then obtain rs s where r: "run accept init_reassembler (map (\<lambda>i. wire (source_chunk ds i)) ks) = (rs, s)"
    and ok: "all_ok rs" and src: "src_inv ds s" and sn: "fst ` set (seen s) = int ` {..<length ds}"
    and dt: "\<forall>ch \<in> set (concat (oks rs)). data ch = ds ! nat (seq ch)"
    using run_source [of ds init_reassembler ks] assms by (auto simp: init_reassembler_def)
  have nx: "next_expected s = int (length ds)" using all_seen_next src sn .
  have "map data (concat (oks rs)) = map (\<lambda>k. ds ! nat k) (map seq (concat (oks rs)))"
    using dt by simp
  also have "\<dots> = map (\<lambda>k. ds ! nat k) [0 .. int (length ds) - 1]"
    using run_accept_seqs [OF reassembler_inv_init] r nx
    by (metis fst_conv init_reassembler_def reassembler.select_convs(1) snd_conv)
  also have "\<dots> = ds" by (rule nth_equalityI) simp_all
  finally have "map data (concat (oks rs)) = ds" .
  moreover have "is_complete s" if "ds \<noteq> []"
  proof -
    have "int (length ds) - 1 \<in> fst ` set (seen s)"
      using sn that by (simp add: image_int_lessThan Suc_le_eq)
    then have "dict_get (seen s) (int (length ds) - 1) \<noteq> None" by (simp add: map_of_eq_None_iff)
    then have "final_seq s = Some (int (length ds) - 1)"
      using src by (auto simp: src_inv_def)
    then show ?thesis using nx by (simp add: is_complete_def)
  qed
  ultimately show ?thesis using r ok by simp
qed

theorem delivery_complete_witness:
  "set [2, 0, 2, 1] = {..<length [''Th'', ''e '', ''fox'']} \<and>
   (let (rs, s) = run accept init_reassembler
          (map (\<lambda>i. wire (source_chunk [''Th'', ''e '', ''fox''] i)) [2, 0, 2, 1])
    in all_ok rs \<and> map data (concat (oks rs)) = [''Th'', ''e '', ''fox''] \<and>
       ([''Th'', ''e '', ''fox''] \<noteq> [] \<longrightarrow> is_complete s))"
proof -
  have "set [2, 0, 2, 1 :: nat] = {..<length [''Th'', ''e '', ''fox'']}" by auto
  then show ?thesis using delivery_complete [of "[2, 0, 2, 1]" "[''Th'', ''e '', ''fox'']"] by blast
qed

text \<open>
  In every reachable state a call that raises leaves the object unchanged, never for the
  reason that an unseen chunk lies below the cursor (the branch the source calls a caller bug
  cannot be taken), and a call that returned is idempotent: repeating it delivers nothing and
  changes nothing.
\<close>

theorem accept_raise_frame_and_idempotent:
  assumes "accept (snd (run accept init_reassembler vs)) v = (r, s')"
  shows "(case r of
            Inl e \<Rightarrow> s' = snd (run accept init_reassembler vs) \<and> (\<forall>a b. e \<noteq> BelowExpected a b)
          | Inr out \<Rightarrow> accept s' v = (Inr [], s'))"
proof -
  let ?s = "snd (run accept init_reassembler vs)"
  have inv: "reassembler_inv ?s" by (rule reasm.run_inv) simp
  show ?thesis
  proof (cases "validate_shape v")
    case (Inl e)
    then show ?thesis using assms by (auto simp: accept_def)
  next
    case (Inr c)
    then have pos: "0 \<le> seq c" by (rule validate_shape_nonneg)
    show ?thesis
      using inv pos
      by (cases rule: accept_chunk_cases)
         (use assms Inr in \<open>auto simp: accept_def accept_chunk_def drain_frame filed_def\<close>)
  qed
qed

theorem accept_raise_frame_and_idempotent_witness:
  "accept (snd (run accept init_reassembler [])) (wire (source_chunk [''a'', ''b''] 0)) =
     (Inr [source_chunk [''a'', ''b''] 0], snd (accept init_reassembler (wire (source_chunk [''a'', ''b''] 0)))) \<and>
   accept (snd (accept init_reassembler (wire (source_chunk [''a'', ''b''] 0))))
       (wire (source_chunk [''a'', ''b''] 0)) =
     (Inr [], snd (accept init_reassembler (wire (source_chunk [''a'', ''b''] 0))))"
proof -
  have "accept (snd (run accept init_reassembler [])) (wire (source_chunk [''a'', ''b''] 0)) =
     (Inr [source_chunk [''a'', ''b''] 0], snd (accept init_reassembler (wire (source_chunk [''a'', ''b''] 0))))"
    by (simp add: accept_def accept_chunk_def validate_shape_def wire_def source_chunk_def
        init_reassembler_def drain.simps)
  then show ?thesis using accept_raise_frame_and_idempotent by fastforce
qed

lemma gap_seqs_set:
  assumes "reassembler_inv s"
  shows "set (gap_seqs s) =
      {k. 0 \<le> k \<and> dict_get (seen s) k = None \<and> (\<exists>j > k. dict_get (buffer s) j \<noteq> None)}"
proof -
  have pos: "0 \<le> next_expected s"
    using assms by (auto simp: reassembler_inv_def buffer_inv_def)
  have known: "dict_get (seen s) k = None \<longleftrightarrow>
      \<not> (0 \<le> k \<and> k < next_expected s) \<and> dict_get (buffer s) k = None" for k
    using assms unfolding reassembler_inv_def buffer_inv_def by blast
  let ?m = "Max (set (map fst (buffer s)))"
  have mx: "(\<exists>j > k. dict_get (buffer s) j \<noteq> None) \<longleftrightarrow> buffer s \<noteq> [] \<and> k < ?m" for k
  proof (cases "buffer s = []")
    case False
    then have "k < ?m \<longleftrightarrow> (\<exists>j \<in> set (map fst (buffer s)). k < j)"
      by (subst Max_gr_iff) auto
    then show ?thesis using False by (auto simp: map_of_eq_None_iff)
  qed simp
  have member: "k \<in> set (gap_seqs s) \<longleftrightarrow>
      buffer s \<noteq> [] \<and> next_expected s \<le> k \<and> k < ?m \<and> dict_get (buffer s) k = None" for k
    by (auto simp: gap_seqs_def Let_def)
  have unseen: "0 \<le> k \<and> dict_get (seen s) k = None \<longleftrightarrow>
      next_expected s \<le> k \<and> dict_get (buffer s) k = None" for k
    using known [of k] pos by linarith
  have "set (gap_seqs s) = {k. 0 \<le> k \<and> dict_get (seen s) k = None \<and> buffer s \<noteq> [] \<and> k < ?m}"
    using member unseen by blast
  then show ?thesis by (simp only: mx)
qed

lemma buffered_above_cursor:
  assumes "reassembler_inv s" and "dict_get (buffer s) j = Some ch"
  shows "next_expected s < j"
proof -
  have "next_expected s \<le> j"
    using assms unfolding reassembler_inv_def buffer_inv_def by blast
  moreover have "j \<noteq> next_expected s"
    using assms by (auto simp: reassembler_inv_def)
  ultimately show ?thesis by simp
qed

lemma cursor_is_gap:
  assumes "reassembler_inv s" and "buffer s \<noteq> []"
  shows "next_expected s \<in> set (gap_seqs s)"
proof -
  obtain j ch where j: "dict_get (buffer s) j = Some ch"
    using assms(2) by (metis (no_types) list.set_intros(1) map_of_eq_None_iff image_eqI neq_Nil_conv
        option.exhaust)
  have "0 \<le> next_expected s" "dict_get (seen s) (next_expected s) = None"
    using assms(1) by (auto simp: reassembler_inv_def buffer_inv_def)
  then show ?thesis
    using gap_seqs_set [OF assms(1)] buffered_above_cursor [OF assms(1) j] j by blast
qed

text \<open>
  In every reachable state \<open>gap_seqs\<close> lists, in increasing order, exactly the sequence
  numbers that have never been seen and lie below some buffered chunk; it is empty only when
  nothing is buffered.
\<close>

theorem gap_seqs_exact:
  assumes "s = snd (run accept init_reassembler vs)"
  shows "set (gap_seqs s) =
      {k. 0 \<le> k \<and> dict_get (seen s) k = None \<and> (\<exists>j > k. dict_get (buffer s) j \<noteq> None)}
    \<and> sorted_wrt (<) (gap_seqs s) \<and> (gap_seqs s = [] \<longleftrightarrow> buffer s = [])"
proof -
  have inv: "reassembler_inv s" unfolding assms by (rule reasm.run_inv) simp
  have "gap_seqs s = [] \<longleftrightarrow> buffer s = []"
    using cursor_is_gap [OF inv] by (metis gap_seqs_def empty_iff list.set(1))
  moreover have "sorted_wrt (<) (gap_seqs s)"
    by (simp add: gap_seqs_def Let_def sorted_wrt_filter)
  ultimately show ?thesis using gap_seqs_set [OF inv] by blast
qed

theorem gap_seqs_exact_witness:
  "set (gap_seqs (snd (run accept init_reassembler [wire (source_chunk [''a'', ''b'', ''c''] 2)]))) = {0, 1}"
proof -
  let ?s = "snd (run accept init_reassembler [wire (source_chunk [''a'', ''b'', ''c''] 2)])"
  have st: "?s = \<lparr>next_expected = 0, buffer = [(2, source_chunk [''a'', ''b'', ''c''] 2)],
      seen = [(2, ''c'')], final_seq = Some 2, delivered_count = 0\<rparr>"
    by (simp add: accept_def accept_chunk_def validate_shape_def wire_def source_chunk_def
        init_reassembler_def drain.simps Let_def)
  then have "set (gap_seqs ?s) =
      {k. 0 \<le> k \<and> dict_get (seen ?s) k = None \<and> (\<exists>j > k. dict_get (buffer ?s) j \<noteq> None)}"
    using gap_seqs_exact [OF refl, of "[wire (source_chunk [''a'', ''b'', ''c''] 2)]"] by blast
  then show ?thesis unfolding st by auto
qed

text \<open>
  The final marker of a repeated chunk is not examined: after a final chunk at 1, the
  chunk 0 arriving again with \<open>is_final\<close> set is absorbed silently, although the module's
  fourth invariant announces an \<open>InconsistentChunk\<close> for a second final position.
\<close>

lemma duplicate_final_marker_absorbed:
  "fst (run accept init_reassembler
      (map wire [\<lparr>seq = 0, data = ''a'', is_final = False\<rparr>, \<lparr>seq = 1, data = ''b'', is_final = True\<rparr>,
                 \<lparr>seq = 0, data = ''a'', is_final = True\<rparr>])) =
    [Inr [\<lparr>seq = 0, data = ''a'', is_final = False\<rparr>], Inr [\<lparr>seq = 1, data = ''b'', is_final = True\<rparr>],
     Inr []]"
  by (simp add: accept_def accept_chunk_def validate_shape_def wire_def
      init_reassembler_def drain.simps Let_def)

end
