(* ===== verification/Line_Buffer.thy ===== *)
theory Line_Buffer
  imports Prelude
begin

text \<open>
  The line-delimited stream buffer (\<open>streaming-line-delimiter-buffer/line_buffer.py\<close>): bytes
  arrive in arbitrary chunks, \<open>feed\<close> returns the complete lines, \<open>close\<close> ends the stream.
  The theory has the object, its constructor checks, \<open>feed\<close>, \<open>close\<close> and the draining loop
  with the line-length cap; the reference splitting of a whole byte string into lines; the
  theorem that the chunk boundaries are invisible; and two behaviours of the cap that depend
  on the chunk boundaries.
\<close>

section \<open>State and operations\<close>

record line_buffer =
  delimiter :: "byte list"
  max_line_bytes :: int
  strict_trailing :: bool
  lbuf :: "byte list"
  closed :: bool

datatype line_buffer_error =
    LineTooLong int int
  | UnterminatedTrailingLine int
  | BufferClosed string
  | LineBufferValueError string

definition new_line_buffer :: "byte list \<Rightarrow> int \<Rightarrow> bool \<Rightarrow> line_buffer_error + line_buffer" where
  "new_line_buffer d m strict =
     (if d = [] then Inl (LineBufferValueError ''delimiter must be non-empty'')
      else if m < 1 then Inl (LineBufferValueError ''max_line_bytes must be >= 1'')
      else Inr \<lparr>delimiter = d, max_line_bytes = m, strict_trailing = strict, lbuf = [], closed = False\<rparr>)"

text \<open>
  The draining loop, with the list \<open>out\<close> of lines found so far.  An empty delimiter is refused
  by the constructor (the loop would not end); the first equation only makes the function
  total.
\<close>

function lb_drain ::
  "line_buffer \<Rightarrow> byte list list \<Rightarrow> (line_buffer_error, byte list list, line_buffer) outcome" where
  "lb_drain s out =
     (if delimiter s = [] then (Inr out, s)
      else
       (case find_sub (delimiter s) (lbuf s) of
          None \<Rightarrow>
            if int (length (lbuf s)) > max_line_bytes s
            then (Inl (LineTooLong (int (length (lbuf s))) (max_line_bytes s)), s\<lparr>lbuf := []\<rparr>)
            else (Inr out, s)
        | Some idx \<Rightarrow>
            (let line = take idx (lbuf s);
                 s' = s\<lparr>lbuf := drop (idx + length (delimiter s)) (lbuf s)\<rparr>
             in if int (length line) > max_line_bytes s
                then (Inl (LineTooLong (int (length line)) (max_line_bytes s)), s')
                else lb_drain s' (out @ [line]))))"
  by pat_completeness auto
termination
proof (relation "measure (\<lambda>(s, out). length (lbuf s))", goal_cases)
  case (2 s out idx line s')
  then show ?case using find_sub_drop_less [of "delimiter s" "lbuf s" idx] by simp
qed simp

declare lb_drain.simps [simp del]

definition lb_feed ::
  "line_buffer \<Rightarrow> byte list \<Rightarrow> (line_buffer_error, byte list list, line_buffer) outcome" where
  "lb_feed s chunk =
     (if closed s then (Inl (BufferClosed ''feed() after close()''), s)
      else if chunk = [] then (Inr [], s)
      else lb_drain (s\<lparr>lbuf := lbuf s @ chunk\<rparr>) [])"

definition lb_close ::
  "line_buffer \<Rightarrow> (line_buffer_error, byte list list, line_buffer) outcome" where
  "lb_close s =
     (if closed s then (Inl (BufferClosed ''close() called twice''), s)
      else
       (case lb_drain (s\<lparr>closed := True\<rparr>) [] of
          (Inl e, s') \<Rightarrow> (Inl e, s')
        | (Inr out, s') \<Rightarrow>
            if lbuf s' \<noteq> [] then
              (let tail = lbuf s'; s'' = s'\<lparr>lbuf := []\<rparr>
               in if strict_trailing s'' then (Inl (UnterminatedTrailingLine (int (length tail))), s'')
                  else (Inr (out @ [tail]), s''))
            else (Inr out, s')))"

definition lb_pending_bytes :: "line_buffer \<Rightarrow> nat" where
  "lb_pending_bytes s = length (lbuf s)"

section \<open>The reference: splitting a whole byte string\<close>

function split_lines :: "'a list \<Rightarrow> 'a list \<Rightarrow> 'a list list \<times> 'a list" where
  "split_lines d xs =
     (if d = [] then ([], xs)
      else (case find_sub d xs of
              None \<Rightarrow> ([], xs)
            | Some i \<Rightarrow> (let (ls, r) = split_lines d (drop (i + length d) xs)
                        in (take i xs # ls, r))))"
  by pat_completeness auto
termination
proof (relation "measure (\<lambda>(d, xs). length xs)", goal_cases)
  case (2 d xs i)
  then show ?case using find_sub_drop_less [of d xs i] by simp
qed simp

declare split_lines.simps [simp del]

abbreviation lines_of :: "'a list \<Rightarrow> 'a list \<Rightarrow> 'a list list" where
  "lines_of d xs \<equiv> fst (split_lines d xs)"

abbreviation tail_of :: "'a list \<Rightarrow> 'a list \<Rightarrow> 'a list" where
  "tail_of d xs \<equiv> snd (split_lines d xs)"

lemma split_lines_None [simp]:
  "find_sub d xs = None \<Longrightarrow> split_lines d xs = ([], xs)"
  by (simp add: split_lines.simps)

lemma split_lines_Some:
  "find_sub d xs = Some i \<Longrightarrow> d \<noteq> [] \<Longrightarrow>
   split_lines d xs = (take i xs # lines_of d (drop (i + length d) xs), tail_of d (drop (i + length d) xs))"
  by (simp add: split_lines.simps [of d xs] case_prod_beta)

lemma split_lines_induct [consumes 1, case_names rest line]:
  assumes "d \<noteq> []"
    and "\<And>xs. d \<noteq> [] \<Longrightarrow> find_sub d xs = None \<Longrightarrow> P xs"
    and "\<And>xs i. d \<noteq> [] \<Longrightarrow> find_sub d xs = Some i \<Longrightarrow> P (drop (i + length d) xs) \<Longrightarrow> P xs"
  shows "P xs"
proof (induction xs rule: length_induct)
  case (1 xs)
  show ?case
  proof (cases "find_sub d xs")
    case (Some i)
    then have "length (drop (i + length d) xs) < length xs"
      using assms(1) by (rule find_sub_drop_less)
    then show ?thesis using 1 assms(1,3) Some by blast
  qed (use assms in blast)
qed

lemma find_sub_tail_of: "d \<noteq> [] \<Longrightarrow> find_sub d (tail_of d xs) = None"
  by (induction xs rule: split_lines_induct) (simp_all add: split_lines_Some)

lemma split_lines_join:
  "d \<noteq> [] \<Longrightarrow> concat (map (\<lambda>l. l @ d) (lines_of d xs)) @ tail_of d xs = xs"
proof (induction xs rule: split_lines_induct)
  case (line xs i)
  then show ?case
    using find_sub_Some_decomp [OF line(2)] by (simp add: split_lines_Some)
qed simp

text \<open>
  Splitting a text in two steps: split the first part, then split what is left of it together
  with the second part.
\<close>

lemma split_lines_append:
  "d \<noteq> [] \<Longrightarrow> split_lines d (xs @ ys) =
     (lines_of d xs @ lines_of d (tail_of d xs @ ys), tail_of d (tail_of d xs @ ys))"
proof (induction xs rule: split_lines_induct)
  case (line xs i)
  have le: "i + length d \<le> length xs" using find_sub_Some_le [OF line(2)] .
  show ?case
    using line.IH find_sub_append_Some [OF line(2), of ys] le line(1,2)
    by (simp add: split_lines_Some)
qed simp

section \<open>The loop computes the reference\<close>

definition within_cap :: "line_buffer \<Rightarrow> byte list \<Rightarrow> bool" where
  "within_cap s xs \<longleftrightarrow>
     (\<forall>l \<in> set (lines_of (delimiter s) xs). int (length l) \<le> max_line_bytes s) \<and>
     int (length (tail_of (delimiter s) xs)) \<le> max_line_bytes s"

lemma lb_drain_frame:
  "delimiter (snd (lb_drain s out)) = delimiter s \<and>
   max_line_bytes (snd (lb_drain s out)) = max_line_bytes s \<and>
   strict_trailing (snd (lb_drain s out)) = strict_trailing s \<and>
   closed (snd (lb_drain s out)) = closed s"
proof (induction s out rule: lb_drain.induct)
  case (1 s out)
  then show ?case
    by (subst (1 2 3 4) lb_drain.simps) (auto simp: Let_def split: option.splits)
qed

lemma lb_drain_ok:
  "delimiter s \<noteq> [] \<Longrightarrow> within_cap s (lbuf s) \<Longrightarrow>
   lb_drain s out =
     (Inr (out @ lines_of (delimiter s) (lbuf s)), s\<lparr>lbuf := tail_of (delimiter s) (lbuf s)\<rparr>)"
proof (induction s out rule: lb_drain.induct)
  case (1 s out)
  show ?case
  proof (cases "find_sub (delimiter s) (lbuf s)")
    case None
    then show ?thesis using "1.prems" by (simp add: lb_drain.simps [of s] within_cap_def)
  next
    case (Some i)
    then show ?thesis
      using "1.IH" [OF "1.prems"(1) Some refl refl] "1.prems"
      by (simp add: lb_drain.simps [of s out] within_cap_def split_lines_Some)
  qed
qed

lemma lb_drain_raises:
  "delimiter s \<noteq> [] \<Longrightarrow> \<not> within_cap s (lbuf s) \<Longrightarrow>
   \<exists>n s'. lb_drain s out = (Inl (LineTooLong n (max_line_bytes s)), s') \<and> n > max_line_bytes s"
proof (induction s out rule: lb_drain.induct)
  case (1 s out)
  show ?case
  proof (cases "find_sub (delimiter s) (lbuf s)")
    case None
    then show ?thesis using "1.prems" by (simp add: lb_drain.simps [of s] within_cap_def)
  next
    case (Some i)
    then show ?thesis
      using "1.IH" [OF "1.prems"(1) Some refl refl] "1.prems"
      by (cases "int (length (take i (lbuf s))) > max_line_bytes s")
         (simp_all add: lb_drain.simps [of s out] within_cap_def split_lines_Some)
  qed
qed

lemma lb_drain_isl_iff:
  "delimiter s \<noteq> [] \<Longrightarrow> isl (fst (lb_drain s out)) \<longleftrightarrow> \<not> within_cap s (lbuf s)"
  by (cases "within_cap s (lbuf s)") (auto simp: lb_drain_ok dest: lb_drain_raises [of s out])

section \<open>Sessions of feed calls\<close>

lemma lb_feed_ok:
  assumes "lb_feed s chunk = (Inr out, s')" and "delimiter s \<noteq> []"
    and "find_sub (delimiter s) (lbuf s) = None"
  shows "out = lines_of (delimiter s) (lbuf s @ chunk)"
    and "s' = s\<lparr>lbuf := tail_of (delimiter s) (lbuf s @ chunk)\<rparr>"
proof -
  let ?s = "s\<lparr>lbuf := lbuf s @ chunk\<rparr>"
  have "out = lines_of (delimiter s) (lbuf s @ chunk) \<and>
        s' = s\<lparr>lbuf := tail_of (delimiter s) (lbuf s @ chunk)\<rparr>"
  proof (cases "closed s \<or> chunk = []")
    case True
    then show ?thesis using assms by (auto simp: lb_feed_def split: if_splits)
  next
    case False
    then have dr: "lb_drain ?s [] = (Inr out, s')" using assms(1) by (simp add: lb_feed_def)
    then have "within_cap ?s (lbuf ?s)" using lb_drain_isl_iff [of ?s "[]"] assms(2) by simp
    then show ?thesis using lb_drain_ok [of ?s "[]"] dr assms(2) by simp
  qed
  then show "out = lines_of (delimiter s) (lbuf s @ chunk)"
    and "s' = s\<lparr>lbuf := tail_of (delimiter s) (lbuf s @ chunk)\<rparr>" by auto
qed

text \<open>Between two calls the buffer holds no complete line.\<close>

definition lb_inv :: "byte list \<Rightarrow> line_buffer \<Rightarrow> bool" where
  "lb_inv d s \<longleftrightarrow> d \<noteq> [] \<and> delimiter s = d \<and> find_sub d (lbuf s) = None"

lemma lb_drain_inv:
  "delimiter s = d \<Longrightarrow> d \<noteq> [] \<Longrightarrow> \<not> isl (fst (lb_drain s out)) \<Longrightarrow>
   lb_inv d (snd (lb_drain s out))"
  by (simp add: lb_drain_isl_iff lb_drain_ok lb_inv_def find_sub_tail_of)

lemma lb_feed_inv:
  "lb_inv d s \<Longrightarrow> lb_feed s chunk = (Inr out, s') \<Longrightarrow> lb_inv d s'"
  using lb_feed_ok(2) by (fastforce simp: lb_inv_def find_sub_tail_of)

lemma lb_feed_frame:
  "delimiter (snd (lb_feed s chunk)) = delimiter s \<and>
   max_line_bytes (snd (lb_feed s chunk)) = max_line_bytes s \<and>
   strict_trailing (snd (lb_feed s chunk)) = strict_trailing s \<and>
   closed (snd (lb_feed s chunk)) = closed s"
  using lb_drain_frame [of "s\<lparr>lbuf := lbuf s @ chunk\<rparr>" "[]"] by (simp add: lb_feed_def)

lemma run_lb_feed_frame:
  "max_line_bytes (snd (run lb_feed s cs)) = max_line_bytes s \<and>
   strict_trailing (snd (run lb_feed s cs)) = strict_trailing s \<and>
   closed (snd (run lb_feed s cs)) = closed s"
  by (induction cs arbitrary: s) (simp_all add: case_prod_beta lb_feed_frame)

lemma lb_feed_conserve:
  assumes "delimiter s = d" and "d \<noteq> []" and "lb_feed s chunk = (Inr out, s')"
  shows "concat (map (\<lambda>l. l @ d) out) @ lbuf s' = lbuf s @ chunk"
proof (cases "closed s \<or> chunk = []")
  case True
  then show ?thesis using assms(3) by (auto simp: lb_feed_def split: if_splits)
next
  case False
  let ?s = "s\<lparr>lbuf := lbuf s @ chunk\<rparr>"
  have dr: "lb_drain ?s [] = (Inr out, s')" using False assms(3) by (simp add: lb_feed_def)
  then have "within_cap ?s (lbuf ?s)" using lb_drain_isl_iff [of ?s "[]"] assms(1,2) by simp
  then show ?thesis
    using lb_drain_ok [of ?s "[]"] dr assms(1,2) split_lines_join [OF assms(2), of "lbuf s @ chunk"]
    by auto
qed

text \<open>Every \<open>feed\<close> that returns is lossless: lines, their delimiters and the held-back bytes.\<close>

interpretation lb: lossless_stream lb_feed "\<lambda>s. delimiter s = d \<and> d \<noteq> []" lbuf "\<lambda>c. c"
  "\<lambda>ls. concat (map (\<lambda>l. l @ d) ls)" for d
  by unfold_locales (auto simp: lb_feed_frame intro: lb_feed_conserve)

lemma run_lb_feed_split:
  assumes "lb_inv d s" and "run lb_feed s chunks = (rs, s')" and "all_ok rs"
  shows "lb_inv d s' \<and> concat (oks rs) = lines_of d (lbuf s @ concat chunks) \<and>
         lbuf s' = tail_of d (lbuf s @ concat chunks)"
  using assms
proof (induction chunks arbitrary: s rs)
  case Nil
  then show ?case by (simp add: lb_inv_def)
next
  case (Cons c cs)
  obtain r s1 rs1 where st: "lb_feed s c = (r, s1)" and rn: "run lb_feed s1 cs = (rs1, s')"
    and rs: "rs = r # rs1" using Cons.prems(2) by (auto split: prod.splits)
  then obtain out where r: "r = Inr out" and ok: "all_ok rs1"
    using Cons.prems(3) by (cases r) auto
  have d: "d \<noteq> []" using Cons.prems(1) by (simp add: lb_inv_def)
  have inv1: "lb_inv d s1" using lb_feed_inv Cons.prems(1) st r by blast
  have out: "out = lines_of d (lbuf s @ c)" and b1: "lbuf s1 = tail_of d (lbuf s @ c)"
    using lb_feed_ok [of s c out s1] Cons.prems(1) st r by (auto simp: lb_inv_def)
  show ?case
    using Cons.IH [OF inv1 rn ok] split_lines_append [OF d, of "lbuf s @ c" "concat cs"]
    by (simp add: rs r out b1)
qed

text \<open>
  No call raises when every line leaves room for a torn delimiter: the bytes held back are a
  piece of the first line still to come plus at most a proper part of its delimiter.
\<close>

lemma tail_of_prefix_bound:
  assumes "d \<noteq> []" and "\<forall>l \<in> set (lines_of d (xs @ ys)). int (length l) + int (length d) - 1 \<le> m"
    and "int (length (tail_of d (xs @ ys))) \<le> m"
  shows "int (length (tail_of d xs)) \<le> m"
proof -
  let ?r = "tail_of d xs"
  show ?thesis
  proof (cases "find_sub d (?r @ ys)")
    case None
    then have "tail_of d (xs @ ys) = ?r @ ys" using split_lines_append [OF assms(1), of xs ys] by simp
    then show ?thesis using assms(3) by simp
  next
    case (Some i)
    have "\<not> i + length d \<le> length ?r"
      using find_sub_append_fit [OF Some] find_sub_tail_of [OF assms(1)] by auto
    moreover have "take i (?r @ ys) \<in> set (lines_of d (xs @ ys))"
      using split_lines_append [OF assms(1), of xs ys] split_lines_Some [OF Some assms(1)] by simp
    then have "int (length (take i (?r @ ys))) + int (length d) - 1 \<le> m" using assms(2) by blast
    moreover have "i \<le> length (?r @ ys)" using find_sub_Some_le [OF Some] by simp
    ultimately show ?thesis by (simp add: min_def split: if_splits)
  qed
qed

lemma run_lb_feed_ok:
  assumes "lb_inv d s" and "\<not> closed s"
    and "\<forall>l \<in> set (lines_of d (lbuf s @ concat chunks)).
           int (length l) + int (length d) - 1 \<le> max_line_bytes s"
    and "int (length (tail_of d (lbuf s @ concat chunks))) \<le> max_line_bytes s"
  shows "all_ok (fst (run lb_feed s chunks))"
  using assms
proof (induction chunks arbitrary: s)
  case Nil
  then show ?case by simp
next
  case (Cons c cs)
  let ?x = "lbuf s @ c"
  have d: "d \<noteq> []" and dl: "delimiter s = d" using Cons.prems(1) by (auto simp: lb_inv_def)
  have sp: "split_lines d (?x @ concat cs) =
      (lines_of d ?x @ lines_of d (tail_of d ?x @ concat cs), tail_of d (tail_of d ?x @ concat cs))"
    using split_lines_append [OF d] .
  have cap: "int (length (tail_of d ?x)) \<le> max_line_bytes s"
    using tail_of_prefix_bound [OF d, of ?x "concat cs" "max_line_bytes s"] Cons.prems(3,4) by simp
  have "int (length l) \<le> max_line_bytes s" if "l \<in> set (lines_of d ?x)" for l
  proof -
    have "int (length l) + int (length d) - 1 \<le> max_line_bytes s"
      using Cons.prems(3) sp that by simp
    then show ?thesis using d by (cases d) auto
  qed
  then have "within_cap (s\<lparr>lbuf := ?x\<rparr>) ?x"
    using cap dl by (simp add: within_cap_def)
  then have st: "lb_feed s c = (Inr (if c = [] then [] else lines_of d ?x), s\<lparr>lbuf := tail_of d ?x\<rparr>)"
    using Cons.prems(1,2) d dl lb_drain_ok [of "s\<lparr>lbuf := ?x\<rparr>" "[]"]
    by (auto simp: lb_feed_def lb_inv_def)
  have "all_ok (fst (run lb_feed (s\<lparr>lbuf := tail_of d ?x\<rparr>) cs))"
    by (rule Cons.IH) (use Cons.prems sp d dl in \<open>auto simp: lb_inv_def find_sub_tail_of\<close>)
  then show ?case using st by (simp add: case_prod_beta)
qed

text \<open>
  C32.  Chunk boundaries are invisible: for every way of cutting a byte string into chunks, if
  every line of it is at least \<open>len(delimiter) - 1\<close> bytes below the cap and the unterminated
  rest is within the cap, then no \<open>feed\<close> raises, the lines returned over all calls are the lines
  of the whole byte string, and the buffer holds its unterminated rest.
\<close>

theorem feed_chunking_invisible:
  assumes "new_line_buffer d m strict = Inr s"
    and "\<forall>l \<in> set (lines_of d (concat chunks)). int (length l) + int (length d) - 1 \<le> m"
    and "int (length (tail_of d (concat chunks))) \<le> m"
  shows "let (rs, s') = run lb_feed s chunks
         in all_ok rs \<and> concat (oks rs) = lines_of d (concat chunks) \<and>
            lbuf s' = tail_of d (concat chunks)"
proof -
  have s: "s = \<lparr>delimiter = d, max_line_bytes = m, strict_trailing = strict, lbuf = [], closed = False\<rparr>"
    and d: "d \<noteq> []" using assms(1) by (auto simp: new_line_buffer_def split: if_splits)
  have inv: "lb_inv d s" using d by (cases d) (simp_all add: lb_inv_def s)
  obtain rs s' where r: "run lb_feed s chunks = (rs, s')" by (cases "run lb_feed s chunks")
  have "all_ok rs" using run_lb_feed_ok [OF inv, of chunks] assms r by (simp add: s)
  then show ?thesis using run_lb_feed_split [OF inv r] r by (simp add: s)
qed

theorem feed_chunking_invisible_witness:
  "let (rs, s') = run lb_feed \<lparr>delimiter = [13, 10], max_line_bytes = 4, strict_trailing = False,
                               lbuf = [], closed = False\<rparr> [[97, 98, 13], [10, 99], [13, 10], [100]]
   in all_ok rs \<and> concat (oks rs) = lines_of [13, 10] [97, 98, 13, 10, 99, 13, 10, 100] \<and>
      lbuf s' = tail_of [13, 10] [97, 98, 13, 10, 99, 13, 10, 100]"
proof -
  have sp: "split_lines [13, 10] (concat [[97, 98, 13], [10, 99], [13, 10], [100 :: byte]])
      = ([[97, 98], [99]], [100])"
    by (simp add: split_lines.simps)
  have "new_line_buffer [13, 10] 4 False = Inr \<lparr>delimiter = [13, 10], max_line_bytes = 4,
      strict_trailing = False, lbuf = [], closed = False\<rparr>"
    by (simp add: new_line_buffer_def)
  from feed_chunking_invisible [OF this, of "[[97, 98, 13], [10, 99], [13, 10], [100]]"] sp
  show ?thesis by simp
qed

text \<open>
  Nothing is lost, invented or reordered while no call raises: over any session of \<open>feed\<close>
  calls, the returned lines, each followed by its delimiter, and the bytes still held back are
  the bytes that were fed, whatever the cap and the chunk boundaries.
\<close>

theorem feed_lossless:
  assumes "new_line_buffer d m strict = Inr s" and "all_ok (fst (run lb_feed s chunks))"
  shows "concat (map (\<lambda>l. l @ d) (concat (oks (fst (run lb_feed s chunks))))) @
         lbuf (snd (run lb_feed s chunks)) = concat chunks"
proof -
  have s: "delimiter s = d \<and> d \<noteq> []" "lbuf s = []"
    using assms(1) by (auto simp: new_line_buffer_def split: if_splits)
  have "concat (map (\<lambda>l. l @ d) (concat ys)) = concat (map (\<lambda>ls. concat (map (\<lambda>l. l @ d) ls)) ys)"
    for ys by (induction ys) simp_all
  then show ?thesis
    using lb.run_conserve [OF s(1) surjective_pairing assms(2)] s(2) by simp
qed

theorem feed_lossless_witness:
  "concat (map (\<lambda>l. l @ [10]) (concat (oks (fst (run lb_feed
       \<lparr>delimiter = [10], max_line_bytes = 3, strict_trailing = True, lbuf = [], closed = False\<rparr>
       [[97, 10, 98], [99, 10, 100]]))))) @
     lbuf (snd (run lb_feed
       \<lparr>delimiter = [10], max_line_bytes = 3, strict_trailing = True, lbuf = [], closed = False\<rparr>
       [[97, 10, 98], [99, 10, 100]])) = [97, 10, 98, 99, 10, 100]"
proof -
  have n: "new_line_buffer [10] 3 True =
      Inr \<lparr>delimiter = [10], max_line_bytes = 3, strict_trailing = True, lbuf = [], closed = False\<rparr>"
    by (simp add: new_line_buffer_def)
  have "all_ok (fst (run lb_feed
       \<lparr>delimiter = [10], max_line_bytes = 3, strict_trailing = True, lbuf = [], closed = False\<rparr>
       [[97, 10, 98], [99, 10, 100]]))"
    by (simp add: lb_feed_def lb_drain.simps)
  from feed_lossless [OF n this] show ?thesis by simp
qed

text \<open>The buffer after a draining loop that returned within the cap.\<close>

lemma lb_close_open:
  assumes "lb_inv d s" and "\<not> closed s" and "int (length (lbuf s)) \<le> max_line_bytes s"
  shows "lb_close s =
    (if lbuf s = [] then (Inr [], s\<lparr>closed := True\<rparr>)
     else if strict_trailing s
     then (Inl (UnterminatedTrailingLine (int (length (lbuf s)))), s\<lparr>closed := True, lbuf := []\<rparr>)
     else (Inr [lbuf s], s\<lparr>closed := True, lbuf := []\<rparr>))"
  using assms by (simp add: lb_close_def lb_drain.simps lb_inv_def)

lemma lb_close_closes: "closed (snd (lb_close s))"
  using lb_drain_frame [of "s\<lparr>closed := True\<rparr>" "[]"]
  by (auto simp: lb_close_def Let_def split: prod.splits sum.splits)

lemma close_after_feeds:
  assumes "new_line_buffer d m strict = Inr s"
    and "\<forall>l \<in> set (lines_of d (concat chunks)). int (length l) + int (length d) - 1 \<le> m"
    and "int (length (tail_of d (concat chunks))) \<le> m"
  shows "fst (lb_close (snd (run lb_feed s chunks))) =
      (if tail_of d (concat chunks) = [] then Inr []
       else if strict then Inl (UnterminatedTrailingLine (int (length (tail_of d (concat chunks)))))
       else Inr [tail_of d (concat chunks)])"
proof -
  have s: "s = \<lparr>delimiter = d, max_line_bytes = m, strict_trailing = strict, lbuf = [], closed = False\<rparr>"
    and d: "d \<noteq> []" using assms(1) by (auto simp: new_line_buffer_def split: if_splits)
  have inv: "lb_inv d s" using d by (cases d) (simp_all add: lb_inv_def s)
  obtain rs s' where r: "run lb_feed s chunks = (rs, s')" by (cases "run lb_feed s chunks")
  have ok: "all_ok rs" using run_lb_feed_ok [OF inv, of chunks] assms r by (simp add: s)
  have fr: "max_line_bytes s' = m \<and> strict_trailing s' = strict \<and> \<not> closed s'"
    using run_lb_feed_frame [of s chunks] r by (simp add: s)
  have b: "lb_inv d s'" "lbuf s' = tail_of d (concat chunks)"
    using run_lb_feed_split [OF inv r ok] by (auto simp: s)
  have cl: "lb_close s' =
      (if lbuf s' = [] then (Inr [], s'\<lparr>closed := True\<rparr>)
       else if strict
       then (Inl (UnterminatedTrailingLine (int (length (lbuf s')))), s'\<lparr>closed := True, lbuf := []\<rparr>)
       else (Inr [lbuf s'], s'\<lparr>closed := True, lbuf := []\<rparr>))"
    using lb_close_open [OF b(1)] fr b(2) assms(3) by simp
  show ?thesis using cl b(2) r by auto
qed

lemma closed_refuses:
  "closed s \<Longrightarrow> \<exists>m1 m2. lb_feed s chunk = (Inl (BufferClosed m1), s) \<and> lb_close s = (Inl (BufferClosed m2), s)"
  by (simp add: lb_feed_def lb_close_def)

text \<open>
  The end of the stream: after any session of \<open>feed\<close> calls within the cap, \<open>close\<close> returns
  the unterminated rest of the input as the last line (nothing when there is none), or raises
  \<open>UnterminatedTrailingLine\<close> under \<open>strict_trailing\<close>; and whatever \<open>close\<close> did, every later
  \<open>feed\<close> or \<open>close\<close> raises \<open>BufferClosed\<close> and changes nothing.
\<close>

theorem close_ends_stream:
  assumes "new_line_buffer d m strict = Inr s"
    and "\<forall>l \<in> set (lines_of d (concat chunks)). int (length l) + int (length d) - 1 \<le> m"
    and "int (length (tail_of d (concat chunks))) \<le> m"
  shows "fst (lb_close (snd (run lb_feed s chunks))) =
      (if tail_of d (concat chunks) = [] then Inr []
       else if strict then Inl (UnterminatedTrailingLine (int (length (tail_of d (concat chunks)))))
       else Inr [tail_of d (concat chunks)])
    \<and> (\<exists>m1 m2. lb_feed (snd (lb_close (snd (run lb_feed s chunks)))) chunk
        = (Inl (BufferClosed m1), snd (lb_close (snd (run lb_feed s chunks)))) \<and>
      lb_close (snd (lb_close (snd (run lb_feed s chunks))))
        = (Inl (BufferClosed m2), snd (lb_close (snd (run lb_feed s chunks)))))"
  using close_after_feeds [OF assms] closed_refuses [OF lb_close_closes] by blast

theorem close_ends_stream_witness:
  "fst (lb_close (snd (run lb_feed
       \<lparr>delimiter = [10], max_line_bytes = 3, strict_trailing = True, lbuf = [], closed = False\<rparr>
       [[97, 10, 98], [99]]))) = Inl (UnterminatedTrailingLine 2)"
proof -
  have n: "new_line_buffer [10] 3 True =
      Inr \<lparr>delimiter = [10], max_line_bytes = 3, strict_trailing = True, lbuf = [], closed = False\<rparr>"
    by (simp add: new_line_buffer_def)
  have sp: "split_lines [10] (concat [[97, 10, 98], [99 :: byte]]) = ([[97]], [98, 99])"
    by (simp add: split_lines.simps)
  from close_ends_stream [OF n, of "[[97, 10, 98], [99]]"] sp show ?thesis by simp
qed

section \<open>Where the cap sees the chunk boundaries\<close>

text \<open>
  The cap is applied to the held-back bytes including a torn delimiter: with a two-byte
  delimiter and a cap of 2, the two-byte line \<open>ab\<close> is returned when it arrives with its
  delimiter, and rejected as over-long when the delimiter is split over two chunks, although
  the line itself does not exceed the cap.
\<close>

lemma cap_rejects_line_with_torn_delimiter:
  "let s = \<lparr>delimiter = [13, 10], max_line_bytes = 2, strict_trailing = False, lbuf = [], closed = False\<rparr>
   in fst (run lb_feed s [[97, 98, 13, 10]]) = [Inr [[97, 98]]] \<and>
      fst (run lb_feed s [[97, 98, 13], [10]]) = [Inl (LineTooLong 3 2), Inr []]"
  by (simp add: lb_feed_def lb_drain.simps)

text \<open>
  When an over-long line raises, the complete lines found before it in the same call are
  gone: they have left the buffer and are not returned by this or by any later call.
\<close>

lemma cap_raise_drops_completed_lines:
  "run lb_feed \<lparr>delimiter = [10], max_line_bytes = 3, strict_trailing = False, lbuf = [], closed = False\<rparr>
     [[97, 10, 98, 98, 98, 98, 10, 99], [10]] =
   ([Inl (LineTooLong 4 3), Inr [[99]]],
    \<lparr>delimiter = [10], max_line_bytes = 3, strict_trailing = False, lbuf = [], closed = False\<rparr>)"
  by (simp add: lb_feed_def lb_drain.simps)

end
