(* ===== verification/Utf8_Buffer.thy ===== *)
theory Utf8_Buffer
  imports Prelude
begin

unbundle bit_operations_syntax

text \<open>
  The UTF-8 boundary buffer
  (\<open>streaming-utf8-boundary-buffer/utf8_boundary_buffer.py\<close>): \<open>feed\<close> decodes the complete
  part of the bytes seen so far and holds back a torn code point.  The theory has the strict
  decoder that \<open>bytes.decode\<close> runs (RFC 3629: no overlong forms, no surrogates, nothing above
  U+10FFFF), the trailing-byte scan, \<open>feed\<close> and \<open>flush\<close>; the encoder as the reference; and the
  theorems that any chunking of an encoded text is decoded to that text, and that the stage
  never alters the byte stream.  A decoded text is the list of its code points.
\<close>

section \<open>Bytes\<close>

lemma nat_and_window: "(n::nat) AND push_bit k (mask j) = 2 ^ k * (n div 2 ^ k mod 2 ^ j)"
proof -
  have "n AND push_bit k (mask j) = push_bit k (take_bit j (drop_bit k n))"
    by (rule bit_eqI) (auto simp: bit_simps)
  then show ?thesis by (simp add: push_bit_eq_mult take_bit_eq_mod drop_bit_eq_div mult.commute)
qed

lemma byte_and_iff: "(b::byte) AND m = v \<longleftrightarrow> unat b AND unat m = unat v"
  by (simp add: word_unat_eq_iff unsigned_and_eq)

lemma unat_byte_less [simp]: "unat (b::byte) < 256"
  using unsigned_less [of b] by simp

lemma byte_masks:
  "(b::byte) AND 0xC0 = 0x80 \<longleftrightarrow> unat b div 64 = 2"
  "(b::byte) AND 0x80 = 0x00 \<longleftrightarrow> unat b < 128"
  "(b::byte) AND 0xE0 = 0xC0 \<longleftrightarrow> unat b div 32 = 6"
  "(b::byte) AND 0xF0 = 0xE0 \<longleftrightarrow> unat b div 16 = 14"
  "(b::byte) AND 0xF8 = 0xF0 \<longleftrightarrow> unat b div 8 = 30"
proof -
  note lt = unat_byte_less [of b]
  note w = push_bit_eq_mult mask_eq_exp_minus_1
  have "unat b AND 192 = 64 * (unat b div 64 mod 4)"
    using nat_and_window [of "unat b" 6 2] by (simp add: w)
  then show "b AND 0xC0 = 0x80 \<longleftrightarrow> unat b div 64 = 2" using lt by (auto simp: byte_and_iff)
  have "unat b AND 128 = 128 * (unat b div 128 mod 2)"
    using nat_and_window [of "unat b" 7 1] by (simp add: w)
  then show "b AND 0x80 = 0x00 \<longleftrightarrow> unat b < 128"
    using lt by (auto simp: byte_and_iff)
  have "unat b AND 224 = 32 * (unat b div 32 mod 8)"
    using nat_and_window [of "unat b" 5 3] by (simp add: w)
  then show "b AND 0xE0 = 0xC0 \<longleftrightarrow> unat b div 32 = 6" using lt by (auto simp: byte_and_iff)
  have "unat b AND 240 = 16 * (unat b div 16 mod 16)"
    using nat_and_window [of "unat b" 4 4] by (simp add: w)
  then show "b AND 0xF0 = 0xE0 \<longleftrightarrow> unat b div 16 = 14" using lt by (auto simp: byte_and_iff)
  have "unat b AND 248 = 8 * (unat b div 8 mod 32)"
    using nat_and_window [of "unat b" 3 5] by (simp add: w)
  then show "b AND 0xF8 = 0xF0 \<longleftrightarrow> unat b div 8 = 30" using lt by (auto simp: byte_and_iff)
qed

definition is_cont :: "byte \<Rightarrow> bool" where
  "is_cont b \<longleftrightarrow> b AND 0xC0 = 0x80"

section \<open>The strict decoder\<close>

text \<open>\<open>bytes.decode("utf-8")\<close>; \<open>None\<close> is a \<open>UnicodeDecodeError\<close>.\<close>

fun utf8_decode :: "byte list \<Rightarrow> nat list option" where
  "utf8_decode [] = Some []"
| "utf8_decode (b0 # bs) =
     (let c0 = unat b0 in
      if c0 < 0x80 then map_option ((#) c0) (utf8_decode bs)
      else if c0 < 0xC2 then None
      else if c0 < 0xE0 then
        (case bs of
           b1 # bs' \<Rightarrow>
             if is_cont b1
             then map_option ((#) ((c0 mod 32) * 64 + unat b1 mod 64)) (utf8_decode bs')
             else None
         | _ \<Rightarrow> None)
      else if c0 < 0xF0 then
        (case bs of
           b1 # b2 # bs' \<Rightarrow>
             (let v = (c0 mod 16) * 4096 + (unat b1 mod 64) * 64 + unat b2 mod 64
              in if is_cont b1 \<and> is_cont b2 \<and> 0x800 \<le> v \<and> \<not> (0xD800 \<le> v \<and> v < 0xE000)
                 then map_option ((#) v) (utf8_decode bs') else None)
         | _ \<Rightarrow> None)
      else if c0 < 0xF5 then
        (case bs of
           b1 # b2 # b3 # bs' \<Rightarrow>
             (let v = (c0 mod 8) * 262144 + (unat b1 mod 64) * 4096 + (unat b2 mod 64) * 64
                      + unat b3 mod 64
              in if is_cont b1 \<and> is_cont b2 \<and> is_cont b3 \<and> 0x10000 \<le> v \<and> v < 0x110000
                 then map_option ((#) v) (utf8_decode bs') else None)
         | _ \<Rightarrow> None)
      else None)"

section \<open>State and operations\<close>

record utf8_buffer =
  ubuf :: "byte list"
  total_emitted_chars :: int
  total_fed_bytes :: int

datatype utf8_error =
    UnicodeDecodeError
  | Utf8BoundaryError int

definition init_utf8 :: utf8_buffer where
  "init_utf8 = \<lparr>ubuf = [], total_emitted_chars = 0, total_fed_bytes = 0\<rparr>"

text \<open>The length a lead byte announces; \<open>None\<close> for a byte that cannot lead a sequence.\<close>

definition expected_len :: "byte \<Rightarrow> nat option" where
  "expected_len b =
     (if b AND 0x80 = 0x00 then Some 1
      else if b AND 0xE0 = 0xC0 then Some 2
      else if b AND 0xF0 = 0xE0 then Some 3
      else if b AND 0xF8 = 0xF0 then Some 4
      else None)"

text \<open>The loop \<open>for back in range(1, min(4, n) + 1)\<close> of the scan from the end of the buffer.\<close>

function trailing_loop :: "byte list \<Rightarrow> nat \<Rightarrow> nat" where
  "trailing_loop buf back =
     (if back > min 4 (length buf) then 0
      else
        (let b = buf ! (length buf - back) in
         if b AND 0xC0 = 0x80 then trailing_loop buf (Suc back)
         else (case expected_len b of
                 None \<Rightarrow> 0
               | Some expected \<Rightarrow> if back \<ge> expected then 0 else back)))"
  by pat_completeness auto
termination
  by (relation "measure (\<lambda>(buf, back). 5 - back)") auto

declare trailing_loop.simps [simp del]

definition trailing_partial_len :: "byte list \<Rightarrow> nat" where
  "trailing_partial_len buf = trailing_loop buf 1"

definition utf8_feed :: "utf8_buffer \<Rightarrow> byte list \<Rightarrow> (utf8_error, nat list, utf8_buffer) outcome" where
  "utf8_feed s chunk =
     (let s1 = s\<lparr>total_fed_bytes := total_fed_bytes s + int (length chunk), ubuf := ubuf s @ chunk\<rparr>;
          hold = trailing_partial_len (ubuf s1);
          emit = (if hold = 0 then ubuf s1 else slice_to_neg (ubuf s1) hold);
          s2 = s1\<lparr>ubuf := (if hold = 0 then [] else slice_from_neg (ubuf s1) hold)\<rparr>
      in case utf8_decode emit of
           None \<Rightarrow> (Inl UnicodeDecodeError, s2)
         | Some text \<Rightarrow>
             (Inr text, s2\<lparr>total_emitted_chars := total_emitted_chars s2 + int (length text)\<rparr>))"

definition utf8_flush :: "utf8_buffer \<Rightarrow> (utf8_error, nat list, utf8_buffer) outcome" where
  "utf8_flush s =
     (if ubuf s = [] then (Inr [], s)
      else (case utf8_decode (ubuf s) of
              None \<Rightarrow> (Inl (Utf8BoundaryError (int (length (ubuf s)))), s\<lparr>ubuf := []\<rparr>)
            | Some text \<Rightarrow>
                (Inr text, s\<lparr>ubuf := [],
                             total_emitted_chars := total_emitted_chars s + int (length text)\<rparr>)))"

definition utf8_pending_bytes :: "utf8_buffer \<Rightarrow> nat" where
  "utf8_pending_bytes s = length (ubuf s)"

section \<open>The reference encoder\<close>

definition valid_cp :: "nat \<Rightarrow> bool" where
  "valid_cp c \<longleftrightarrow> c < 0x110000 \<and> \<not> (0xD800 \<le> c \<and> c < 0xE000)"

definition byte_of :: "nat \<Rightarrow> byte" where
  "byte_of n = word_of_nat n"

definition encode_cp :: "nat \<Rightarrow> byte list" where
  "encode_cp c =
     (if c < 0x80 then [byte_of c]
      else if c < 0x800 then [byte_of (0xC0 + c div 64), byte_of (0x80 + c mod 64)]
      else if c < 0x10000 then
        [byte_of (0xE0 + c div 4096), byte_of (0x80 + c div 64 mod 64), byte_of (0x80 + c mod 64)]
      else
        [byte_of (0xF0 + c div 262144), byte_of (0x80 + c div 4096 mod 64),
         byte_of (0x80 + c div 64 mod 64), byte_of (0x80 + c mod 64)])"

definition utf8_encode :: "nat list \<Rightarrow> byte list" where
  "utf8_encode cs = concat (map encode_cp cs)"

lemma utf8_encode_simps [simp]:
  "utf8_encode [] = []" "utf8_encode (c # cs) = encode_cp c @ utf8_encode cs"
  "utf8_encode (cs @ ds) = utf8_encode cs @ utf8_encode ds"
  by (simp_all add: utf8_encode_def)

lemma unat_byte_of: "n < 256 \<Longrightarrow> unat (byte_of n) = n"
  by (simp add: byte_of_def unat_of_nat)

lemma is_cont_iff: "is_cont b \<longleftrightarrow> unat b div 64 = 2"
  by (simp add: is_cont_def byte_masks)

lemma is_cont_byte_of: "n < 64 \<Longrightarrow> is_cont (byte_of (128 + n))"
  by (simp add: is_cont_iff unat_byte_of)

text \<open>The four shapes of an encoded code point.\<close>

lemma encode_cp_cases [consumes 1, case_names one two three four]:
  assumes "valid_cp c"
  obtains "c < 0x80" "encode_cp c = [byte_of c]"
  | "0x80 \<le> c" "c < 0x800" "encode_cp c = [byte_of (0xC0 + c div 64), byte_of (0x80 + c mod 64)]"
      "0xC2 \<le> 0xC0 + c div 64" "0xC0 + c div 64 < 0xE0"
  | "0x800 \<le> c" "c < 0x10000" "\<not> (0xD800 \<le> c \<and> c < 0xE000)"
      "encode_cp c = [byte_of (0xE0 + c div 4096), byte_of (0x80 + c div 64 mod 64), byte_of (0x80 + c mod 64)]"
      "0xE0 + c div 4096 < 0xF0"
  | "0x10000 \<le> c" "c < 0x110000"
      "encode_cp c = [byte_of (0xF0 + c div 262144), byte_of (0x80 + c div 4096 mod 64),
                      byte_of (0x80 + c div 64 mod 64), byte_of (0x80 + c mod 64)]"
      "0xF0 + c div 262144 < 0xF5"
proof -
  have "c < 0x110000" "\<not> (0xD800 \<le> c \<and> c < 0xE000)" using assms by (auto simp: valid_cp_def)
  then consider "c < 0x80" | "0x80 \<le> c" "c < 0x800" | "0x800 \<le> c" "c < 0x10000"
    | "0x10000 \<le> c" by linarith
  then show ?thesis
  proof cases
    case 1
    then show ?thesis by (intro that(1)) (auto simp: encode_cp_def)
  next
    case 2
    moreover have "2 \<le> c div 64" "c div 64 < 32" using 2 by auto
    ultimately show ?thesis by (intro that(2)) (auto simp: encode_cp_def)
  next
    case 3
    moreover have "c div 4096 < 16" using 3 by auto
    ultimately show ?thesis
      using \<open>\<not> (0xD800 \<le> c \<and> c < 0xE000)\<close> by (intro that(3)) (auto simp: encode_cp_def)
  next
    case 4
    moreover have "c div 262144 < 5" using \<open>c < 0x110000\<close> by auto
    ultimately show ?thesis
      using \<open>c < 0x110000\<close> by (intro that(4)) (auto simp: encode_cp_def)
  qed
qed

text \<open>Base-64 digits of a code point.\<close>

lemma div64_chain: "(c::nat) div 64 div 64 = c div 4096" "c div 4096 div 64 = c div 262144"
  by (simp_all flip: div_mult2_eq)

lemma digits_join:
  "(c::nat) div 64 * 64 + c mod 64 = c"
  "(c::nat) div 4096 * 4096 + c div 64 mod 64 * 64 + c mod 64 = c"
  "(c::nat) div 262144 * 262144 + c div 4096 mod 64 * 4096 + c div 64 mod 64 * 64 + c mod 64 = c"
  using div_mult_mod_eq [of c 64] div_mult_mod_eq [of "c div 64" 64]
    div_mult_mod_eq [of "c div 4096" 64] div64_chain [of c] by linarith+

lemma digits_split2:
  "(l::nat) < 64 \<Longrightarrow> (h * 64 + l) div 64 = h" "(l::nat) < 64 \<Longrightarrow> (h * 64 + l) mod 64 = l"
  by simp_all

lemma digits_split3:
  assumes "(m::nat) < 64" and "l < 64"
  shows "(h * 4096 + m * 64 + l) div 4096 = h" "(h * 4096 + m * 64 + l) div 64 mod 64 = m"
    "(h * 4096 + m * 64 + l) mod 64 = l"
proof -
  have v: "h * 4096 + m * 64 + l = (h * 64 + m) * 64 + l" by simp
  have "((h * 64 + m) * 64 + l) div 64 = h * 64 + m" using assms(2) by (rule digits_split2)
  then show "(h * 4096 + m * 64 + l) div 4096 = h" "(h * 4096 + m * 64 + l) div 64 mod 64 = m"
    unfolding v using assms(1) by (simp_all flip: div64_chain(1))
  show "(h * 4096 + m * 64 + l) mod 64 = l" unfolding v using assms(2) by (rule digits_split2)
qed

lemma digits_split4:
  assumes "(n::nat) < 64" and "m < 64" and "l < 64"
  shows "(h * 262144 + n * 4096 + m * 64 + l) div 262144 = h"
    "(h * 262144 + n * 4096 + m * 64 + l) div 4096 mod 64 = n"
    "(h * 262144 + n * 4096 + m * 64 + l) div 64 mod 64 = m"
    "(h * 262144 + n * 4096 + m * 64 + l) mod 64 = l"
proof -
  have v: "h * 262144 + n * 4096 + m * 64 + l = (h * 64 + n) * 4096 + m * 64 + l" by simp
  note sp = digits_split3 [OF assms(2,3), of "h * 64 + n"]
  show "(h * 262144 + n * 4096 + m * 64 + l) div 262144 = h"
    "(h * 262144 + n * 4096 + m * 64 + l) div 4096 mod 64 = n"
    unfolding v using sp(1) assms(1) by (simp_all flip: div64_chain(2))
  show "(h * 262144 + n * 4096 + m * 64 + l) div 64 mod 64 = m"
    "(h * 262144 + n * 4096 + m * 64 + l) mod 64 = l"
    unfolding v by (rule sp)+
qed

lemma lead_mod: "(d::nat) dvd m \<Longrightarrow> k < d \<Longrightarrow> (m + k) mod d = k"
  by (metis add.commute mod_less mod_mult_self1 dvd_def mult.commute)

lemma lead_split:
  assumes "(d::nat) * q \<le> c" and "c < d * q + d"
  shows "d * q + c mod d = c"
proof -
  obtain k where "c = d * q + k" using assms(1) le_Suc_ex by blast
  then show ?thesis using assms(2) lead_mod [of d "d * q" k] by simp
qed

lemma cont_split: "is_cont b \<Longrightarrow> 128 + unat b mod 64 = unat b"
  using div_mult_mod_eq [of "unat b" 64] by (simp add: is_cont_iff)

lemma is_contI: "unat b = 128 + z \<Longrightarrow> z < 64 \<Longrightarrow> is_cont b"
  by (simp add: is_cont_iff)

text \<open>One step of the decoder on a sequence of each length.\<close>

lemma utf8_decode_step1:
  "unat b0 < 0x80 \<Longrightarrow> utf8_decode (b0 # bs) = map_option ((#) (unat b0)) (utf8_decode bs)"
  by simp

lemma utf8_decode_step2:
  assumes "unat b0 = 192 + x" and "2 \<le> x" and "x < 32" and "unat b1 = 128 + z" and "z < 64"
  shows "utf8_decode (b0 # b1 # bs) = map_option ((#) (x * 64 + z)) (utf8_decode bs)"
proof -
  have "unat b0 mod 32 = x" "unat b1 mod 64 = z"
    using assms lead_mod [of 32 192 x] lead_mod [of 64 128 z] by simp_all
  moreover have "is_cont b1" using assms(4,5) by (rule is_contI)
  moreover have "\<not> unat b0 < 0x80" "\<not> unat b0 < 0xC2" "unat b0 < 0xE0"
    using assms(1-3) by simp_all
  ultimately show ?thesis by (simp add: Let_def)
qed

lemma utf8_decode_step3:
  assumes "unat b0 = 224 + x" and "x < 16" and "unat b1 = 128 + y" and "y < 64"
    and "unat b2 = 128 + z" and "z < 64" and "v = x * 4096 + y * 64 + z"
    and "0x800 \<le> v" and "\<not> (0xD800 \<le> v \<and> v < 0xE000)"
  shows "utf8_decode (b0 # b1 # b2 # bs) = map_option ((#) v) (utf8_decode bs)"
proof -
  have "unat b0 mod 16 = x" "unat b1 mod 64 = y" "unat b2 mod 64 = z"
    using assms(1-6) lead_mod [of 16 224 x] lead_mod [of 64 128 y] lead_mod [of 64 128 z] by simp_all
  moreover have "is_cont b1" "is_cont b2" using assms(3-6) is_contI by blast+
  moreover have "\<not> unat b0 < 0x80" "\<not> unat b0 < 0xC2" "\<not> unat b0 < 0xE0" "unat b0 < 0xF0"
    using assms(1,2) by simp_all
  ultimately show ?thesis using assms(7-9) by (simp add: Let_def)
qed

lemma utf8_decode_step4:
  assumes "unat b0 = 240 + x" and "x < 5" and "unat b1 = 128 + w" and "w < 64"
    and "unat b2 = 128 + y" and "y < 64" and "unat b3 = 128 + z" and "z < 64"
    and "v = x * 262144 + w * 4096 + y * 64 + z" and "0x10000 \<le> v" and "v < 0x110000"
  shows "utf8_decode (b0 # b1 # b2 # b3 # bs) = map_option ((#) v) (utf8_decode bs)"
proof -
  have "unat b0 mod 8 = x" "unat b1 mod 64 = w" "unat b2 mod 64 = y" "unat b3 mod 64 = z"
    using assms(1-8) lead_mod [of 8 240 x] lead_mod [of 64 128 w] lead_mod [of 64 128 y]
      lead_mod [of 64 128 z] by simp_all
  moreover have "is_cont b1" "is_cont b2" "is_cont b3" using assms(3-8) is_contI by blast+
  moreover have "\<not> unat b0 < 0x80" "\<not> unat b0 < 0xC2" "\<not> unat b0 < 0xE0" "\<not> unat b0 < 0xF0"
    "unat b0 < 0xF5"
    using assms(1,2) by simp_all
  ultimately show ?thesis using assms(9-11) by (simp add: Let_def)
qed

lemma utf8_decode_encode_cp:
  assumes "valid_cp c"
  shows "utf8_decode (encode_cp c @ bs) = map_option ((#) c) (utf8_decode bs)"
  using assms
proof (cases rule: encode_cp_cases)
  case one
  then show ?thesis by (simp add: unat_byte_of)
next
  case two
  have "utf8_decode (byte_of (192 + c div 64) # byte_of (128 + c mod 64) # bs)
        = map_option ((#) (c div 64 * 64 + c mod 64)) (utf8_decode bs)"
    by (rule utf8_decode_step2) (use two in \<open>auto intro!: unat_byte_of\<close>)
  then show ?thesis using two(3) digits_join(1) [of c] by simp
next
  case three
  have "utf8_decode (byte_of (224 + c div 4096) # byte_of (128 + c div 64 mod 64)
          # byte_of (128 + c mod 64) # bs) = map_option ((#) c) (utf8_decode bs)"
  proof (rule utf8_decode_step3)
    show "c = c div 4096 * 4096 + c div 64 mod 64 * 64 + c mod 64" by (rule digits_join(2) [symmetric])
  qed (use three(1-3,5) in \<open>auto intro!: unat_byte_of\<close>)
  then show ?thesis using three(4) by simp
next
  case four
  have "utf8_decode (byte_of (240 + c div 262144) # byte_of (128 + c div 4096 mod 64)
          # byte_of (128 + c div 64 mod 64) # byte_of (128 + c mod 64) # bs)
        = map_option ((#) c) (utf8_decode bs)"
  proof (rule utf8_decode_step4)
    show "c = c div 262144 * 262144 + c div 4096 mod 64 * 4096 + c div 64 mod 64 * 64 + c mod 64"
      by (rule digits_join(3) [symmetric])
  qed (use four(1,2,4) in \<open>auto intro!: unat_byte_of\<close>)
  then show ?thesis using four(3) by simp
qed

lemma utf8_decode_encode:
  "list_all valid_cp cs \<Longrightarrow> utf8_decode (utf8_encode cs) = Some cs"
  by (induction cs) (simp_all add: utf8_decode_encode_cp)

lemma byte_of_unat: "n = unat b \<Longrightarrow> byte_of n = b"
  by (simp add: byte_of_def)

text \<open>The strict decoder accepts nothing but encodings.\<close>

lemma utf8_encode_decode:
  "utf8_decode bs = Some cs \<Longrightarrow> utf8_encode cs = bs \<and> list_all valid_cp cs"
proof (induction bs arbitrary: cs rule: utf8_decode.induct)
  case 1
  then show ?case by simp
next
  case (2 b0 bs)
  let ?c0 = "unat b0"
  consider (one) "?c0 < 0x80" | (two) "0xC2 \<le> ?c0" "?c0 < 0xE0" | (three) "0xE0 \<le> ?c0" "?c0 < 0xF0"
    | (four) "0xF0 \<le> ?c0" "?c0 < 0xF5"
    using "2.prems" by (fastforce simp: Let_def split: if_splits)
  then show ?case
  proof cases
    case one
    then show ?thesis using 2
      by (auto simp: encode_cp_def valid_cp_def byte_of_def)
  next
    case two
    then obtain b1 bs' cs' where bs: "bs = b1 # bs'" and k: "is_cont b1"
      and rest: "utf8_decode bs' = Some cs'"
      and cs: "cs = ((?c0 mod 32) * 64 + unat b1 mod 64) # cs'"
      using "2.prems" by (auto split: list.splits if_splits)
    let ?v = "(?c0 mod 32) * 64 + unat b1 mod 64"
    have lead: "0xC0 + ?c0 mod 32 = ?c0" using lead_split [of 32 6 ?c0] two by simp
    have v: "0x80 \<le> ?v" "?v < 0x800" "0xC0 + ?v div 64 = ?c0" "0x80 + ?v mod 64 = unat b1"
      using lead two cont_split [OF k] by simp_all
    have "utf8_encode cs' = bs' \<and> list_all valid_cp cs'"
      using "2.IH"(2) two bs rest k by simp
    moreover have "valid_cp ?v" using v by (simp add: valid_cp_def)
    moreover have "encode_cp ?v = [b0, b1]"
      using v by (simp add: encode_cp_def byte_of_unat)
    ultimately show ?thesis by (simp add: cs bs)
  next
    case three
    then obtain b1 b2 bs' cs' where bs: "bs = b1 # b2 # bs'" and k: "is_cont b1" "is_cont b2"
      and rest: "utf8_decode bs' = Some cs'"
      and cs: "cs = ((?c0 mod 16) * 4096 + (unat b1 mod 64) * 64 + unat b2 mod 64) # cs'"
      and lo: "0x800 \<le> (?c0 mod 16) * 4096 + (unat b1 mod 64) * 64 + unat b2 mod 64"
      and sur: "\<not> (0xD800 \<le> (?c0 mod 16) * 4096 + (unat b1 mod 64) * 64 + unat b2 mod 64 \<and>
        (?c0 mod 16) * 4096 + (unat b1 mod 64) * 64 + unat b2 mod 64 < 0xE000)"
      using "2.prems" by (auto simp: Let_def split: list.splits if_splits)
    define v where "v = (?c0 mod 16) * 4096 + (unat b1 mod 64) * 64 + unat b2 mod 64"
    have lead: "0xE0 + ?c0 mod 16 = ?c0" using lead_split [of 16 14 ?c0] three by simp
    have d: "unat b1 mod 64 < 64" "unat b2 mod 64 < 64" "?c0 mod 16 < 16" by simp_all
    have v: "0xE0 + v div 4096 = ?c0" "0x80 + v div 64 mod 64 = unat b1"
      "0x80 + v mod 64 = unat b2"
      unfolding v_def digits_split3 [OF d(1,2)] by (simp_all add: lead cont_split k)
    have hi: "v < 0x10000" using d unfolding v_def by linarith
    have "utf8_encode cs' = bs' \<and> list_all valid_cp cs'"
      using "2.IH"(3) three bs rest k lo sur by (simp add: Let_def)
    moreover have bd: "0x800 \<le> v" "\<not> (0xD800 \<le> v \<and> v < 0xE000)"
      unfolding v_def by (fact lo, fact sur)
    moreover have "encode_cp v =
        [byte_of (0xE0 + v div 4096), byte_of (0x80 + v div 64 mod 64), byte_of (0x80 + v mod 64)]"
      unfolding encode_cp_def using bd hi by simp
    then have "encode_cp v = [b0, b1, b2]" by (simp only: v byte_of_unat [OF refl])
    ultimately show ?thesis using hi by (simp add: cs bs v_def [symmetric] valid_cp_def [of v])
  next
    case four
    then obtain b1 b2 b3 bs' cs' where bs: "bs = b1 # b2 # b3 # bs'"
      and k: "is_cont b1" "is_cont b2" "is_cont b3" and rest: "utf8_decode bs' = Some cs'"
      and cs: "cs = ((?c0 mod 8) * 262144 + (unat b1 mod 64) * 4096 + (unat b2 mod 64) * 64
                     + unat b3 mod 64) # cs'"
      and lo: "0x10000 \<le> (?c0 mod 8) * 262144 + (unat b1 mod 64) * 4096 + (unat b2 mod 64) * 64
                     + unat b3 mod 64"
      and hi: "(?c0 mod 8) * 262144 + (unat b1 mod 64) * 4096 + (unat b2 mod 64) * 64
                     + unat b3 mod 64 < 0x110000"
      using "2.prems" by (auto simp: Let_def split: list.splits if_splits)
    define v where "v = (?c0 mod 8) * 262144 + (unat b1 mod 64) * 4096 + (unat b2 mod 64) * 64
                     + unat b3 mod 64"
    have lead: "0xF0 + ?c0 mod 8 = ?c0" using lead_split [of 8 30 ?c0] four by simp
    have d: "unat b1 mod 64 < 64" "unat b2 mod 64 < 64" "unat b3 mod 64 < 64" by simp_all
    have v: "0xF0 + v div 262144 = ?c0" "0x80 + v div 4096 mod 64 = unat b1"
      "0x80 + v div 64 mod 64 = unat b2" "0x80 + v mod 64 = unat b3"
      unfolding v_def digits_split4 [OF d] by (simp_all add: lead cont_split k)
    have "utf8_encode cs' = bs' \<and> list_all valid_cp cs'"
      using "2.IH"(4) four bs rest k lo hi by (simp add: Let_def)
    moreover have bd: "0x10000 \<le> v" "v < 0x110000" unfolding v_def by (fact lo, fact hi)
    moreover have "encode_cp v =
        [byte_of (0xF0 + v div 262144), byte_of (0x80 + v div 4096 mod 64),
         byte_of (0x80 + v div 64 mod 64), byte_of (0x80 + v mod 64)]"
      unfolding encode_cp_def using bd by simp
    then have "encode_cp v = [b0, b1, b2, b3]" by (simp only: v byte_of_unat [OF refl])
    ultimately show ?thesis by (simp add: cs bs v_def [symmetric] valid_cp_def [of v])
  qed
qed

section \<open>The scan finds the torn code point\<close>

lemma expected_len_lead:
  "unat b < 128 \<Longrightarrow> expected_len b = Some 1"
  "unat b div 32 = 6 \<Longrightarrow> expected_len b = Some 2"
  "unat b div 16 = 14 \<Longrightarrow> expected_len b = Some 3"
  "unat b div 8 = 30 \<Longrightarrow> expected_len b = Some 4"
  unfolding expected_len_def byte_masks by auto

text \<open>
  An encoded code point is a lead byte that announces its length, followed by continuation
  bytes; lead bytes are not continuation bytes.
\<close>

lemma encode_cp_shape:
  assumes "valid_cp c"
  shows "\<exists>b0 ks. encode_cp c = b0 # ks \<and> list_all is_cont ks \<and> \<not> is_cont b0 \<and>
    expected_len b0 = Some (Suc (length ks)) \<and> length ks \<le> 3"
  using assms
proof (cases rule: encode_cp_cases)
  case one
  then have u: "unat (byte_of c) < 128" by (simp add: unat_byte_of)
  then show ?thesis using one by (simp add: expected_len_lead is_cont_iff)
next
  case two
  then have u: "unat (byte_of (192 + c div 64)) = 192 + c div 64" by (intro unat_byte_of) simp
  then have "unat (byte_of (192 + c div 64)) div 32 = 6" "unat (byte_of (192 + c div 64)) div 64 = 3"
    using two by (simp_all add: div_nat_eqI)
  then show ?thesis using two(3) by (simp add: expected_len_lead is_cont_iff is_cont_byte_of [unfolded is_cont_iff])
next
  case three
  then have u: "unat (byte_of (224 + c div 4096)) = 224 + c div 4096" by (intro unat_byte_of) simp
  then have "unat (byte_of (224 + c div 4096)) div 16 = 14" "unat (byte_of (224 + c div 4096)) div 64 = 3"
    using three(5) by (simp_all add: div_nat_eqI)
  then show ?thesis using three(4) by (simp add: expected_len_lead is_cont_iff is_cont_byte_of [unfolded is_cont_iff])
next
  case four
  then have u: "unat (byte_of (240 + c div 262144)) = 240 + c div 262144" by (intro unat_byte_of) simp
  then have "unat (byte_of (240 + c div 262144)) div 8 = 30" "unat (byte_of (240 + c div 262144)) div 64 = 3"
    using four(4) by (simp_all add: div_nat_eqI)
  then show ?thesis using four(3) by (simp add: expected_len_lead is_cont_iff is_cont_byte_of [unfolded is_cont_iff])
qed

text \<open>
  The scan walks back over the continuation bytes \<open>ks\<close> to the lead byte \<open>b\<close> and compares the
  length found with the one announced.
\<close>

lemma trailing_loop_walk:
  assumes "list_all is_cont ks" and "\<not> is_cont b" and "length ks \<le> 3" and "k \<le> length ks"
  shows "trailing_loop (xs @ b # ks) (Suc (length ks - k)) =
    (case expected_len b of None \<Rightarrow> 0
     | Some e \<Rightarrow> if Suc (length ks) \<ge> e then 0 else Suc (length ks))"
  using assms(4)
proof (induction k)
  case 0
  then show ?case
    using assms(2,3)
    by (simp add: trailing_loop.simps [of _ "Suc (length ks)"] is_cont_def nth_append min_less_iff_disj)
next
  case (Suc k)
  let ?bk = "Suc (length ks - Suc k)"
  have bk: "?bk \<le> length ks" "Suc ?bk = Suc (length ks - k)" using Suc.prems by auto
  have "(xs @ b # ks) ! (length (xs @ b # ks) - ?bk) = ks ! (length ks - ?bk)"
    using bk by (simp add: nth_append nth_Cons')
  moreover have in_range: "(min 4 (length (xs @ b # ks)) < ?bk) = False"
    using bk(1) assms(3) by (simp add: min_less_iff_disj)
  moreover have "is_cont (ks ! (length ks - ?bk))"
    using assms(1) bk by (simp add: list_all_length)
  ultimately have "trailing_loop (xs @ b # ks) ?bk = trailing_loop (xs @ b # ks) (Suc ?bk)"
    using bk assms(3) in_range by (subst trailing_loop.simps) (simp only: is_cont_def Let_def if_False if_True refl)
  then show ?case using Suc bk by simp
qed

lemma trailing_partial_len_walk:
  assumes "list_all is_cont ks" and "\<not> is_cont b" and "length ks \<le> 3"
  shows "trailing_partial_len (xs @ b # ks) =
    (case expected_len b of None \<Rightarrow> 0
     | Some e \<Rightarrow> if Suc (length ks) \<ge> e then 0 else Suc (length ks))"
  using trailing_loop_walk [OF assms, of "length ks" xs] by (simp add: trailing_partial_len_def)

lemma trailing_partial_len_encode:
  assumes "list_all valid_cp cs"
  shows "trailing_partial_len (utf8_encode cs) = 0"
proof (cases cs rule: rev_cases)
  case Nil
  then show ?thesis by (simp add: trailing_partial_len_def trailing_loop.simps)
next
  case (snoc ds c)
  then obtain b0 ks where "encode_cp c = b0 # ks" "list_all is_cont ks" "\<not> is_cont b0"
    "expected_len b0 = Some (Suc (length ks))" "length ks \<le> 3"
    using encode_cp_shape [of c] assms by auto
  then show ?thesis using trailing_partial_len_walk [of ks b0 "utf8_encode ds"] snoc by simp
qed

lemma trailing_partial_len_torn:
  assumes "valid_cp c" and "strict_prefix p (encode_cp c)" and "list_all valid_cp cs"
  shows "trailing_partial_len (utf8_encode cs @ p) = length p"
proof (cases p)
  case Nil
  then show ?thesis using trailing_partial_len_encode assms(3) by simp
next
  case (Cons b qs)
  obtain b0 ks where e: "encode_cp c = b0 # ks" "list_all is_cont ks" "\<not> is_cont b0"
    "expected_len b0 = Some (Suc (length ks))" "length ks \<le> 3"
    using encode_cp_shape [OF assms(1)] by blast
  then have "b = b0" and qs: "strict_prefix qs ks" using assms(2) Cons by auto
  have "length qs < length ks" using qs by (rule prefix_length_less)
  moreover have "list_all is_cont qs"
    using qs e(2) by (auto simp: strict_prefix_def prefix_def)
  ultimately show ?thesis
    using trailing_partial_len_walk [of qs b0 "utf8_encode cs"] e Cons \<open>b = b0\<close> by simp
qed

text \<open>A prefix of an encoded text is some whole code points and a torn one.\<close>

lemma utf8_prefix_decomp:
  assumes "prefix xs (utf8_encode cs)"
  shows "\<exists>ds es p. cs = ds @ es \<and> xs = utf8_encode ds @ p \<and>
    (p = [] \<or> (\<exists>e es'. es = e # es' \<and> strict_prefix p (encode_cp e)))"
  using assms
proof (induction cs arbitrary: xs)
  case Nil
  then show ?case by simp
next
  case (Cons c cs)
  show ?case
  proof (cases "length (encode_cp c) \<le> length xs")
    case True
    have "prefix (encode_cp c) xs"
      using Cons.prems True by (rule prefix_length_prefix [rotated]) simp
    then obtain ys where xs: "xs = encode_cp c @ ys" by (auto simp: prefix_def)
    then have "prefix ys (utf8_encode cs)" using Cons.prems by simp
    then obtain ds es p where "cs = ds @ es" "ys = utf8_encode ds @ p"
      "p = [] \<or> (\<exists>e es'. es = e # es' \<and> strict_prefix p (encode_cp e))"
      using Cons.IH by blast
    then have "c # cs = (c # ds) @ es" "xs = utf8_encode (c # ds) @ p" by (simp_all add: xs)
    then show ?thesis using \<open>p = [] \<or> _\<close> by blast
  next
    case False
    then have "prefix xs (encode_cp c)"
      using Cons.prems prefix_append_fit [of xs "encode_cp c" "utf8_encode cs"] by simp
    then have "strict_prefix xs (encode_cp c)" using False by (auto simp: strict_prefix_def)
    then show ?thesis by (intro exI [of _ "[]"] exI [of _ "c # cs"] exI [of _ xs]) simp
  qed
qed

section \<open>Sessions\<close>

text \<open>What may be held back when the code points \<open>es\<close> are still to come.\<close>

definition torn :: "byte list \<Rightarrow> nat list \<Rightarrow> bool" where
  "torn p es \<longleftrightarrow> p = [] \<or> (\<exists>e es'. es = e # es' \<and> strict_prefix p (encode_cp e))"

lemma utf8_feed_prefix:
  assumes "list_all valid_cp cs" and "prefix (ubuf s @ chunk) (utf8_encode cs)"
  shows "\<exists>ds es s'. cs = ds @ es \<and> utf8_feed s chunk = (Inr ds, s') \<and>
    utf8_encode ds @ ubuf s' = ubuf s @ chunk \<and> torn (ubuf s') es"
proof -
  obtain ds es p where cs: "cs = ds @ es" and xs: "ubuf s @ chunk = utf8_encode ds @ p"
    and p: "torn p es"
    using utf8_prefix_decomp [OF assms(2)] by (auto simp: torn_def)
  have ds: "list_all valid_cp ds" using assms(1) cs by simp
  have hold: "trailing_partial_len (ubuf s @ chunk) = length p"
    using p trailing_partial_len_torn [OF _ _ ds] trailing_partial_len_encode [OF ds] xs cs assms(1)
    by (auto simp: torn_def)
  then have "utf8_feed s chunk =
      (Inr ds, s\<lparr>total_fed_bytes := total_fed_bytes s + int (length chunk), ubuf := p,
                 total_emitted_chars := total_emitted_chars s + int (length ds)\<rparr>)"
    using xs utf8_decode_encode [OF ds]
    by (cases "p = []") (simp_all add: utf8_feed_def Let_def slice_to_neg_def slice_from_neg_def)
  then show ?thesis using cs xs p by simp
qed

lemma run_utf8_feed:
  assumes "list_all valid_cp cs" and "prefix (ubuf s @ concat chunks) (utf8_encode cs)"
    and "torn (ubuf s) cs"
  shows "\<exists>ds es rs s'. cs = ds @ es \<and> run utf8_feed s chunks = (rs, s') \<and> all_ok rs \<and>
    concat (oks rs) = ds \<and> utf8_encode ds @ ubuf s' = ubuf s @ concat chunks \<and> torn (ubuf s') es"
  using assms
proof (induction chunks arbitrary: s cs)
  case Nil
  then show ?case by simp
next
  case (Cons c chunks)
  have "prefix (ubuf s @ c) (utf8_encode cs)"
    using Cons.prems(2) by (auto simp: prefix_def)
  then obtain ds es s1 where 1: "cs = ds @ es" "utf8_feed s c = (Inr ds, s1)"
    "utf8_encode ds @ ubuf s1 = ubuf s @ c" "torn (ubuf s1) es"
    using utf8_feed_prefix [OF Cons.prems(1), of s c] by blast
  have "prefix (utf8_encode ds @ ubuf s1 @ concat chunks) (utf8_encode (ds @ es))"
    using Cons.prems(2) 1(1,3) by (metis append.assoc concat.simps(2))
  then have "prefix (ubuf s1 @ concat chunks) (utf8_encode es)" by simp
  moreover have "list_all valid_cp es" using Cons.prems(1) 1(1) by simp
  ultimately obtain ds' es' rs s' where 2: "es = ds' @ es'" "run utf8_feed s1 chunks = (rs, s')"
    "all_ok rs" "concat (oks rs) = ds'" "utf8_encode ds' @ ubuf s' = ubuf s1 @ concat chunks"
    "torn (ubuf s') es'"
    using Cons.IH 1(4) by meson
  have "utf8_encode (ds @ ds') @ ubuf s' = ubuf s @ concat (c # chunks)"
    using 2(5) 1(3) by (metis append.assoc concat.simps(2) utf8_encode_simps(3))
  then show ?case
    using 1(1,2) 2 by (intro exI [of _ "ds @ ds'"] exI [of _ es']) (auto simp: case_prod_beta)
qed

text \<open>The pieces of an encoded text fix how it was cut.\<close>

lemma encode_cp_nonempty [simp]: "encode_cp c \<noteq> []"
  by (simp add: encode_cp_def)

lemma utf8_encode_Nil_iff [simp]: "utf8_encode cs = [] \<longleftrightarrow> cs = []"
  by (cases cs) simp_all

lemma torn_encode:
  assumes "torn p es" and "p = utf8_encode es"
  shows "es = []"
  using assms by (cases es) (auto simp: torn_def strict_prefix_def prefix_def)

lemma encode_cp_length:
  assumes "valid_cp c" and "valid_cp c'" and "hd (encode_cp c) = hd (encode_cp c')"
  shows "length (encode_cp c) = length (encode_cp c')"
  using encode_cp_shape [OF assms(1)] encode_cp_shape [OF assms(2)] assms(3) by force

lemma decode_torn_None:
  assumes "valid_cp e" and "strict_prefix p (encode_cp e)" and "p \<noteq> []"
  shows "utf8_decode p = None"
proof (rule ccontr)
  assume "utf8_decode p \<noteq> None"
  then obtain cs where "utf8_decode p = Some cs" by blast
  then have enc: "utf8_encode cs = p" and val: "list_all valid_cp cs"
    using utf8_encode_decode by blast+
  then obtain c cs' where cs: "cs = c # cs'" using assms(3) by (cases cs) auto
  have "hd (encode_cp c) = hd p" using enc cs by (metis encode_cp_nonempty hd_append2 utf8_encode_simps(2))
  also have "hd p = hd (encode_cp e)"
    using assms(2,3) by (auto simp: strict_prefix_def prefix_def)
  finally have "length (encode_cp c) = length (encode_cp e)"
    using val cs assms(1) by (intro encode_cp_length) simp_all
  moreover have "length (encode_cp c) \<le> length p" using enc cs by auto
  ultimately show False using prefix_length_less [OF assms(2)] by simp
qed

text \<open>
  C31.  Any way of cutting the encoding of a text into chunks is harmless: every \<open>feed\<close> returns,
  the texts they return add up to the text, nothing stays behind, and \<open>flush\<close> returns the empty
  text.
\<close>

theorem utf8_chunking_roundtrip:
  assumes "list_all valid_cp cs" and "concat chunks = utf8_encode cs"
  shows "let (rs, s) = run utf8_feed init_utf8 chunks
         in all_ok rs \<and> concat (oks rs) = cs \<and> ubuf s = [] \<and> utf8_flush s = (Inr [], s)"
proof -
  obtain ds es rs s where r: "cs = ds @ es" "run utf8_feed init_utf8 chunks = (rs, s)" "all_ok rs"
    "concat (oks rs) = ds" "utf8_encode ds @ ubuf s = concat chunks" "torn (ubuf s) es"
    using run_utf8_feed [OF assms(1), of init_utf8 chunks] assms(2)
    by (auto simp: init_utf8_def torn_def)
  then have "ubuf s = utf8_encode es" using assms(2) by simp
  then have "es = []" using torn_encode r(6) by blast
  then show ?thesis using r \<open>ubuf s = utf8_encode es\<close> by (simp add: utf8_flush_def)
qed

theorem utf8_chunking_roundtrip_witness:
  "list_all valid_cp [0x68, 0x4E2D, 0x1F600] \<and>
   (let (rs, s) = run utf8_feed init_utf8 [[0x68, 0xE4, 0xB8], [0xAD, 0xF0, 0x9F], [], [0x98, 0x80]]
    in all_ok rs \<and> concat (oks rs) = [0x68, 0x4E2D, 0x1F600] \<and> ubuf s = [] \<and> utf8_flush s = (Inr [], s))"
proof -
  have v: "list_all valid_cp [0x68, 0x4E2D, 0x1F600]" by (simp add: valid_cp_def)
  have "concat [[0x68, 0xE4, 0xB8], [0xAD, 0xF0, 0x9F], [], [0x98, 0x80]]
        = utf8_encode [0x68, 0x4E2D, 0x1F600]"
    by (simp add: encode_cp_def byte_of_def)
  from utf8_chunking_roundtrip [OF v this] v show ?thesis by blast
qed

text \<open>
  A stream that ends inside a code point is reported: if the bytes fed are the encoding of
  \<open>ds\<close> followed by a non-empty proper part \<open>p\<close> of another code point, the \<open>feed\<close> calls return
  exactly \<open>ds\<close>, and \<open>flush\<close> raises \<open>Utf8BoundaryError\<close> with the number of bytes held back.
\<close>

theorem utf8_torn_stream_detected:
  assumes "list_all valid_cp ds" and "valid_cp e" and "strict_prefix p (encode_cp e)" and "p \<noteq> []"
    and "concat chunks = utf8_encode ds @ p"
  shows "let (rs, s) = run utf8_feed init_utf8 chunks
         in all_ok rs \<and> concat (oks rs) = ds \<and>
            fst (utf8_flush s) = Inl (Utf8BoundaryError (int (length p)))"
proof -
  have "prefix (concat chunks) (utf8_encode (ds @ [e]))"
    using assms(3,5) by (auto simp: strict_prefix_def)
  then obtain ds' es rs s where r: "ds @ [e] = ds' @ es" "run utf8_feed init_utf8 chunks = (rs, s)"
    "all_ok rs" "concat (oks rs) = ds'" "utf8_encode ds' @ ubuf s = utf8_encode ds @ p"
    "torn (ubuf s) es"
    using run_utf8_feed [of "ds @ [e]" init_utf8 chunks] assms
    by (auto simp: init_utf8_def torn_def)
  have es: "es \<noteq> []"
  proof
    assume "es = []"
    then have "utf8_encode (ds @ [e]) = utf8_encode ds @ p" using r(1,5,6) by (simp add: torn_def)
    then show False using assms(3) by (simp add: strict_prefix_def)
  qed
  then obtain fs where es': "es = fs @ [e]" and ds: "ds = ds' @ fs"
    using r(1) by (metis append_assoc append_eq_append_conv2 append_self_conv butlast_append
        butlast_snoc last_appendR last_snoc append_butlast_last_id)
  have "ubuf s = utf8_encode fs @ p" using r(5) ds by simp
  then have "fs = []" using r(6) es' assms(4)
    by (cases fs) (auto simp: torn_def strict_prefix_def prefix_def)
  then have "ubuf s = p" "ds' = ds" using \<open>ubuf s = utf8_encode fs @ p\<close> ds by auto
  then show ?thesis
    using r(2-4) assms(4) decode_torn_None [OF assms(2-4)] by (simp add: utf8_flush_def)
qed

theorem utf8_torn_stream_detected_witness:
  "let (rs, s) = run utf8_feed init_utf8 [[0x68, 0xE4], [0xB8]]
   in all_ok rs \<and> concat (oks rs) = [0x68] \<and> fst (utf8_flush s) = Inl (Utf8BoundaryError 2)"
proof -
  have e: "encode_cp 0x4E2D = [0xE4, 0xB8, 0xAD]" by (simp add: encode_cp_def byte_of_def)
  have "strict_prefix [0xE4, 0xB8] (encode_cp 0x4E2D)" by (simp add: e)
  moreover have "concat [[0x68, 0xE4], [0xB8]] = utf8_encode [0x68] @ [0xE4, 0xB8]"
    by (simp add: encode_cp_def byte_of_def)
  moreover have "list_all valid_cp [0x68]" "valid_cp 0x4E2D" by (simp_all add: valid_cp_def)
  ultimately show ?thesis
    using utf8_torn_stream_detected [of "[0x68]" "0x4E2D" "[0xE4, 0xB8]" "[[0x68, 0xE4], [0xB8]]"] by simp
qed

subsection \<open>Arbitrary bytes\<close>

lemma trailing_loop_le3: "trailing_loop buf n \<le> 3"
proof (induction buf n rule: trailing_loop.induct)
  case (1 buf n)
  then show ?case
    by (subst trailing_loop.simps) (auto simp: Let_def expected_len_def)
qed

lemma utf8_feed_bound: "length (ubuf (snd (utf8_feed s chunk))) \<le> 3"
  using trailing_loop_le3 [of "ubuf s @ chunk" 1]
  by (auto simp: utf8_feed_def Let_def trailing_partial_len_def min_def split: option.splits)

lemma utf8_feed_conserve:
  "utf8_feed s chunk = (Inr text, s') \<Longrightarrow> utf8_encode text @ ubuf s' = ubuf s @ chunk"
  by (auto simp: utf8_feed_def Let_def split: option.splits if_splits dest: utf8_encode_decode)

interpretation utf8: lossless_stream utf8_feed "\<lambda>s. length (ubuf s) \<le> 3" ubuf "\<lambda>c. c" utf8_encode
  by unfold_locales (auto simp: utf8_feed_bound intro: utf8_feed_conserve)

text \<open>
  For arbitrary bytes, well-formed or not: after every session at most three bytes are held
  back, and as long as no call has raised, encoding the returned texts and appending the bytes
  held back gives back exactly the bytes fed.
\<close>

theorem utf8_bytes_preserved:
  "utf8_pending_bytes (snd (run utf8_feed init_utf8 chunks)) \<le> 3 \<and>
   (all_ok (fst (run utf8_feed init_utf8 chunks)) \<longrightarrow>
    concat (map utf8_encode (oks (fst (run utf8_feed init_utf8 chunks)))) @
      ubuf (snd (run utf8_feed init_utf8 chunks)) = concat chunks)"
proof -
  have "length (ubuf init_utf8) \<le> 3" "ubuf init_utf8 = []" by (simp_all add: init_utf8_def)
  then show ?thesis
    using utf8.run_inv [of init_utf8 chunks]
      utf8.run_conserve [OF _ surjective_pairing, of init_utf8 chunks]
    by (simp add: utf8_pending_bytes_def)
qed

theorem utf8_bytes_preserved_witness:
  "all_ok (fst (run utf8_feed init_utf8 [[0x61, 0xC3], [0xA9]])) \<and>
   concat (map utf8_encode (oks (fst (run utf8_feed init_utf8 [[0x61, 0xC3], [0xA9]])))) @
      ubuf (snd (run utf8_feed init_utf8 [[0x61, 0xC3], [0xA9]])) = [0x61, 0xC3, 0xA9]"
proof -
  have "all_ok (fst (run utf8_feed init_utf8 [[0x61, 0xC3], [0xA9]]))"
    by (simp add: utf8_feed_def init_utf8_def trailing_partial_len_def trailing_loop.simps
        expected_len_def slice_to_neg_def slice_from_neg_def is_cont_def Let_def)
  then show ?thesis using utf8_bytes_preserved [of "[[0x61, 0xC3], [0xA9]]"] by simp
qed

end
