(* ===== verification/Stop_Detector.thy ===== *)
theory Stop_Detector
  imports Prelude
begin

text \<open>
  The streaming stop-sequence detector (\<open>streaming-stop-sequence-detector/template.py\<close>): text
  arrives in chunks; \<open>feed\<close> passes on what cannot belong to a stop sequence any more and reports
  the first stop sequence it finds.  The theory has the constructor, \<open>feed\<close> with its search for
  the earliest hit, \<open>flush\<close>; and the theorems that no stop sequence is missed, none is ever
  passed on, and nothing but the stop sequence is swallowed.
\<close>

section \<open>State and operations\<close>

record stop_detector =
  stops :: "string list"
  sbuf :: string
  stop_done :: bool

datatype stop_error = NoStops | EmptyStop

definition new_stop_detector :: "string list \<Rightarrow> stop_error + stop_detector" where
  "new_stop_detector ss =
     (if ss = [] then Inl NoStops
      else if [] \<in> set ss then Inl EmptyStop
      else Inr \<lparr>stops = ss, sbuf = [], stop_done = False\<rparr>)"

definition max_len :: "stop_detector \<Rightarrow> nat" where
  "max_len s = Max (set (map length (stops s)))"

text \<open>The loop over the stop sequences, with the best hit so far.\<close>

fun earliest_hit :: "string \<Rightarrow> string list \<Rightarrow> (nat \<times> string) option \<Rightarrow> (nat \<times> string) option" where
  "earliest_hit combined [] best = best"
| "earliest_hit combined (t # ts) best =
     (case find_sub t combined of
        None \<Rightarrow> earliest_hit combined ts best
      | Some i \<Rightarrow>
          (case best of
             None \<Rightarrow> earliest_hit combined ts (Some (i, t))
           | Some (j, u) \<Rightarrow>
               if i < j then earliest_hit combined ts (Some (i, t))
               else earliest_hit combined ts (Some (j, u))))"

definition stop_feed ::
  "stop_detector \<Rightarrow> string \<Rightarrow> (stop_error, string \<times> (string \<times> nat) option, stop_detector) outcome"
  where
  "stop_feed s chunk =
     (if stop_done s then (Inr ([], None), s)
      else
        (let combined = sbuf s @ chunk in
         case earliest_hit combined (stops s) None of
           Some (idx, t) \<Rightarrow>
             (Inr (take idx combined, Some (t, idx)), s\<lparr>sbuf := [], stop_done := True\<rparr>)
         | None \<Rightarrow>
             (let keep = max_len s - 1 in
              if keep \<le> 0 \<or> length combined \<le> keep
              then (Inr ([], None), s\<lparr>sbuf := combined\<rparr>)
              else (Inr (slice_to_neg combined keep, None), s\<lparr>sbuf := slice_from_neg combined keep\<rparr>))))"

definition stop_flush :: "stop_detector \<Rightarrow> string \<times> stop_detector" where
  "stop_flush s =
     (if stop_done s then ([], s) else (sbuf s, s\<lparr>sbuf := [], stop_done := True\<rparr>))"

section \<open>The earliest hit\<close>

lemma earliest_hit_None:
  "earliest_hit c ts best = None \<longleftrightarrow> best = None \<and> (\<forall>t \<in> set ts. find_sub t c = None)"
  by (induction c ts best rule: earliest_hit.induct) (auto split: option.splits)

lemma earliest_hit_Some:
  assumes "earliest_hit c ts best = Some (i, t)"
    and "\<And>j u. best = Some (j, u) \<Longrightarrow> find_sub u c = Some j"
  shows "find_sub t c = Some i \<and> (t \<in> set ts \<or> best = Some (i, t)) \<and>
    (\<forall>u \<in> set ts. \<forall>j. find_sub u c = Some j \<longrightarrow> i \<le> j) \<and> (\<forall>j u. best = Some (j, u) \<longrightarrow> i \<le> j)"
  using assms
proof (induction c ts best rule: earliest_hit.induct)
  case (1 combined best)
  then show ?case by simp
next
  case (2 combined v vs best)
  show ?case
  proof (cases "find_sub v combined")
    case None
    then show ?thesis using 2 by auto
  next
    case (Some k)
    show ?thesis
    proof (cases "best = None \<or> (\<exists>j u. best = Some (j, u) \<and> k < j)")
      case True
      then have "earliest_hit combined vs (Some (k, v)) = Some (i, t)"
        using "2.prems"(1) Some by (auto split: if_splits)
      moreover have "find_sub t combined = Some i \<and> (t \<in> set vs \<or> (k, v) = (i, t)) \<and>
          (\<forall>u \<in> set vs. \<forall>j. find_sub u combined = Some j \<longrightarrow> i \<le> j) \<and> i \<le> k"
        using "2.IH"(2,3) True Some calculation by auto
      ultimately show ?thesis using True Some by auto
    next
      case False
      then obtain j u where b: "best = Some (j, u)" and "\<not> k < j" by (cases best) auto
      then have "find_sub t combined = Some i \<and> (t \<in> set vs \<or> (j, u) = (i, t)) \<and>
          (\<forall>w \<in> set vs. \<forall>j. find_sub w combined = Some j \<longrightarrow> i \<le> j) \<and> i \<le> j"
        using "2.IH"(4) "2.prems" Some by auto
      then show ?thesis using b Some \<open>\<not> k < j\<close> by auto
    qed
  qed
qed

section \<open>The invariant\<close>

text \<open>
  While no hit has been reported, everything fed so far is what was passed on (\<open>e\<close>) and what is
  held back; no stop sequence occurs in it; and what is held back is long enough to contain the
  beginning of any stop sequence that the next chunk may complete.
\<close>

definition stop_wf :: "stop_detector \<Rightarrow> bool" where
  "stop_wf s \<longleftrightarrow> stops s \<noteq> [] \<and> [] \<notin> set (stops s)"

definition scanning :: "stop_detector \<Rightarrow> string \<Rightarrow> bool" where
  "scanning s e \<longleftrightarrow> \<not> stop_done s \<and> (\<forall>t \<in> set (stops s). \<not> sublist t (e @ sbuf s)) \<and>
     (e = [] \<or> max_len s - 1 \<le> length (sbuf s))"

lemma length_le_max_len: "t \<in> set (stops s) \<Longrightarrow> length t \<le> max_len s"
  by (simp add: max_len_def)

text \<open>
  An occurrence that was not there before the chunk arrived lies in the held-back part and the
  chunk.
\<close>

lemma sublist_straddle:
  assumes "sublist t (e @ b @ c)" and "\<not> sublist t (e @ b)" and "e = [] \<or> length t \<le> Suc (length b)"
  shows "sublist t (b @ c)"
proof -
  obtain ps ss where eq: "e @ b @ c = ps @ t @ ss" using assms(1) by (auto simp: sublist_def)
  show ?thesis
  proof (cases "length e \<le> length ps")
    case True
    then have "b @ c = drop (length e) ps @ t @ ss"
      using eq by (metis append_eq_append_conv_if append_eq_conv_conj)
    then show ?thesis by (auto simp: sublist_def)
  next
    case False
    then have len: "length ps + length t \<le> length (e @ b)" using assms(3) by auto
    have "take (length ps + length t) ((e @ b) @ c) = ps @ t" using eq by simp
    then have "take (length ps + length t) (e @ b) = ps @ t" using len by simp
    then have "e @ b = ps @ t @ drop (length ps + length t) (e @ b)"
      by (metis append.assoc append_take_drop_id)
    then have "sublist t (e @ b)" unfolding sublist_def by blast
    with assms(2) show ?thesis ..
  qed
qed

lemma find_sub_Some_sublist: "sublist t c \<longleftrightarrow> find_sub t c \<noteq> None"
  by (metis find_sub_None_iff)

lemma find_sub_prefix_hit:
  assumes "find_sub t c = Some i"
  shows "prefix (take i c @ t) c"
  using find_sub_Some_decomp [OF assms] by (metis append.assoc prefixI)

lemma no_sublist_before_hit:
  assumes "u \<noteq> []" and "\<And>j. find_sub u c = Some j \<Longrightarrow> i \<le> j"
  shows "\<not> sublist u (take i c)"
proof
  assume "sublist u (take i c)"
  then obtain j where j: "find_sub u (take i c) = Some j" by (auto simp: find_sub_Some_sublist)
  then have "j + length u \<le> length (take i c)" by (rule find_sub_Some_le)
  then have "j < i" using assms(1) by (cases u) auto
  moreover have "find_sub u (take i c @ drop i c) = Some j" using j by (rule find_sub_append_Some)
  ultimately show False using assms(2) [of j] by simp
qed

lemma scanning_no_hit:
  assumes "scanning s e" and "earliest_hit (sbuf s @ chunk) (stops s) None = None"
  shows "\<forall>t \<in> set (stops s). \<not> sublist t (e @ sbuf s @ chunk)"
proof
  fix t
  assume t: "t \<in> set (stops s)"
  have "\<not> sublist t (sbuf s @ chunk)"
    using assms(2) t by (simp add: earliest_hit_None find_sub_None_iff)
  moreover have "e = [] \<or> length t \<le> Suc (length (sbuf s))"
    using assms(1) length_le_max_len [OF t] by (auto simp: scanning_def)
  ultimately show "\<not> sublist t (e @ sbuf s @ chunk)"
    using sublist_straddle [of t e "sbuf s" chunk] assms(1) t by (auto simp: scanning_def)
qed

lemma scanning_hit:
  assumes "scanning s e" and "stop_wf s"
    and "earliest_hit (sbuf s @ chunk) (stops s) None = Some (i, t)"
  shows "t \<in> set (stops s)" and "prefix (e @ take i (sbuf s @ chunk) @ t) (e @ sbuf s @ chunk)"
    and "\<forall>u \<in> set (stops s). \<not> sublist u (e @ take i (sbuf s @ chunk))"
proof -
  let ?c = "sbuf s @ chunk"
  have hit: "find_sub t ?c = Some i" "t \<in> set (stops s)"
    and least: "\<And>u j. u \<in> set (stops s) \<Longrightarrow> find_sub u ?c = Some j \<Longrightarrow> i \<le> j"
    using earliest_hit_Some [OF assms(3)] by auto
  show "t \<in> set (stops s)" by (rule hit)
  show "prefix (e @ take i ?c @ t) (e @ sbuf s @ chunk)"
    using find_sub_prefix_hit [OF hit(1)] by (simp only: same_prefix_prefix)
  show "\<forall>u \<in> set (stops s). \<not> sublist u (e @ take i ?c)"
  proof (intro ballI notI)
    fix u
    assume u: "u \<in> set (stops s)" and sub: "sublist u (e @ take i ?c)"
    have old: "\<not> sublist u (e @ sbuf s)" using assms(1) u by (simp add: scanning_def)
    have no: "\<not> sublist u (take i ?c)"
      using no_sublist_before_hit [of u ?c i] least u assms(2) by (auto simp: stop_wf_def)
    show False
    proof (cases "i \<le> length (sbuf s)")
      case True
      then have "prefix (e @ take i ?c) (e @ sbuf s)" by (simp add: take_is_prefix)
      then have "sublist u (e @ sbuf s)"
        using sub by (meson prefix_imp_sublist sublist_order.order_trans)
      with old show False ..
    next
      case False
      then have "take i ?c = sbuf s @ take (i - length (sbuf s)) chunk" by simp
      moreover have "e = [] \<or> length u \<le> Suc (length (sbuf s))"
        using assms(1) length_le_max_len [OF u] by (auto simp: scanning_def)
      ultimately show False
        using sublist_straddle [of u e "sbuf s" "take (i - length (sbuf s)) chunk"] sub old no by simp
    qed
  qed
qed

lemma stop_feed_frame: "stops (snd (stop_feed s c)) = stops s"
  by (simp add: stop_feed_def Let_def split: option.splits prod.splits)

lemma stop_feed_done: "stop_done s \<Longrightarrow> stop_feed s c = (Inr ([], None), s)"
  by (simp add: stop_feed_def)

lemma run_stop_done:
  "stop_done s \<Longrightarrow> run stop_feed s cs = (replicate (length cs) (Inr ([], None)), s)"
  by (induction cs) (simp_all add: stop_feed_done)

lemma stop_feed_scan:
  assumes "scanning s e" and "earliest_hit (sbuf s @ chunk) (stops s) None = None"
  obtains em s' where "stop_feed s chunk = (Inr (em, None), s')" "scanning s' (e @ em)"
    "em @ sbuf s' = sbuf s @ chunk" "stops s' = stops s"
proof -
  let ?c = "sbuf s @ chunk" and ?keep = "max_len s - 1"
  have clean: "\<forall>t \<in> set (stops s). \<not> sublist t (e @ ?c)" by (rule scanning_no_hit [OF assms])
  have nd: "\<not> stop_done s" using assms(1) by (simp add: scanning_def)
  have mx: "max_len (s\<lparr>sbuf := x\<rparr>) = max_len s" for x by (simp add: max_len_def)
  show thesis
  proof (cases "?keep \<le> 0 \<or> length ?c \<le> ?keep")
    case True
    then have f: "stop_feed s chunk = (Inr ([], None), s\<lparr>sbuf := ?c\<rparr>)"
      using nd assms(2) by (auto simp: stop_feed_def Let_def)
    show thesis
      by (rule that [OF f]) (use clean nd assms(1) in \<open>auto simp: scanning_def mx\<close>)
  next
    case False
    then have f: "stop_feed s chunk
        = (Inr (slice_to_neg ?c ?keep, None), s\<lparr>sbuf := slice_from_neg ?c ?keep\<rparr>)"
      using nd assms(2) by (auto simp: stop_feed_def Let_def)
    show thesis
      by (rule that [OF f]) (use False clean nd in \<open>auto simp: scanning_def mx\<close>)
  qed
qed

text \<open>What a session has done: still scanning, or one hit and nothing after it.\<close>

definition passed_on :: "(stop_error + string \<times> (string \<times> nat) option) list \<Rightarrow> string" where
  "passed_on rs = concat (map fst (oks rs))"

definition hits :: "(stop_error + string \<times> (string \<times> nat) option) list \<Rightarrow> string list" where
  "hits rs = map fst (List.map_filter snd (oks rs))"

lemma passed_on_simps [simp]:
  "passed_on [] = []" "passed_on (Inr (em, h) # rs) = em @ passed_on rs"
  "passed_on (replicate n (Inr ([], None))) = []"
  by (induction n) (simp_all add: passed_on_def)

lemma hits_simps [simp]:
  "hits [] = []" "hits (Inr (em, None) # rs) = hits rs" "hits (Inr (em, Some (t, i)) # rs) = t # hits rs"
  "hits (replicate n (Inr ([], None))) = []"
  by (induction n) (simp_all add: hits_def List.map_filter_def)

lemma run_stop_scan:
  assumes "scanning s e" and "stop_wf s" and "run stop_feed s chunks = (rs, s')"
  shows "(hits rs = [] \<and> scanning s' (e @ passed_on rs) \<and> stops s' = stops s \<and>
          passed_on rs @ sbuf s' = sbuf s @ concat chunks) \<or>
    (\<exists>t. hits rs = [t] \<and> t \<in> set (stops s) \<and> stop_done s' \<and>
       prefix (e @ passed_on rs @ t) (e @ sbuf s @ concat chunks) \<and>
       (\<forall>u \<in> set (stops s). \<not> sublist u (e @ passed_on rs)))"
  using assms
proof (induction chunks arbitrary: s e rs)
  case Nil
  then show ?case by simp
next
  case (Cons c cs)
  show ?case
  proof (cases "earliest_hit (sbuf s @ c) (stops s) None")
    case None
    from stop_feed_scan [OF Cons.prems(1) None] obtain em s1 where
      1: "stop_feed s c = (Inr (em, None), s1)" "scanning s1 (e @ em)"
        "em @ sbuf s1 = sbuf s @ c" "stops s1 = stops s" by blast
    obtain rs1 where r: "run stop_feed s1 cs = (rs1, s')" "rs = Inr (em, None) # rs1"
      using Cons.prems(3) 1(1) by (auto split: prod.splits)
    have wf: "stop_wf s1" using Cons.prems(2) 1(4) by (simp add: stop_wf_def)
    have eq: "(e @ em) @ sbuf s1 @ concat cs = e @ sbuf s @ concat (c # cs)"
      using arg_cong [OF 1(3), of "\<lambda>x. e @ x @ concat cs"] by simp
    have eq': "em @ sbuf s1 @ concat cs = sbuf s @ concat (c # cs)"
      using arg_cong [OF 1(3), of "\<lambda>x. x @ concat cs"] by simp
    show ?thesis
      using Cons.IH [OF 1(2) wf r(1)] unfolding eq by (auto simp: r(2) 1(3,4) eq' [symmetric])
  next
    case (Some h)
    obtain i t where h: "h = (i, t)" by (cases h)
    let ?c = "sbuf s @ c"
    have f: "stop_feed s c = (Inr (take i ?c, Some (t, i)), s\<lparr>sbuf := [], stop_done := True\<rparr>)"
      using Some h Cons.prems(1) by (simp add: stop_feed_def Let_def scanning_def)
    have r: "rs = Inr (take i ?c, Some (t, i)) # replicate (length cs) (Inr ([], None))"
        "s' = s\<lparr>sbuf := [], stop_done := True\<rparr>"
      using Cons.prems(3) f run_stop_done [of "s\<lparr>sbuf := [], stop_done := True\<rparr>" cs]
      by (auto split: prod.splits)
    note hit = scanning_hit [OF Cons.prems(1,2) Some [unfolded h]]
    have "prefix (e @ take i ?c @ t) ((e @ ?c) @ concat cs)"
      using hit(2) by (metis append.assoc prefix_prefix)
    then show ?thesis using hit r by simp
  qed
qed

lemma scanning_init:
  "new_stop_detector ss = Inr s \<Longrightarrow> scanning s [] \<and> stop_wf s \<and> stops s = ss \<and> sbuf s = []"
  by (auto simp: new_stop_detector_def scanning_def stop_wf_def split: if_splits)

text \<open>
  C33.  For every stream and every way of cutting it into chunks: if a stop sequence occurs in
  the stream, exactly one hit is reported, of a configured stop sequence that follows
  immediately after the text passed on, and the text passed on contains no stop sequence; if
  none occurs, no hit is reported and the text passed on together with \<open>flush\<close> is the stream.
\<close>

theorem stop_never_missed:
  assumes "new_stop_detector ss = Inr s" and "run stop_feed s chunks = (rs, s')"
  shows "if \<exists>t \<in> set ss. sublist t (concat chunks)
    then \<exists>t \<in> set ss. hits rs = [t] \<and> prefix (passed_on rs @ t) (concat chunks) \<and>
           (\<forall>u \<in> set ss. \<not> sublist u (passed_on rs))
    else hits rs = [] \<and> passed_on rs @ fst (stop_flush s') = concat chunks"
proof -
  have i: "scanning s []" "stop_wf s" "stops s = ss" "sbuf s = []"
    using scanning_init [OF assms(1)] by auto
  from run_stop_scan [OF i(1,2) assms(2)] show ?thesis
  proof
    assume scan: "hits rs = [] \<and> scanning s' ([] @ passed_on rs) \<and> stops s' = stops s \<and>
          passed_on rs @ sbuf s' = sbuf s @ concat chunks"
    then have whole: "passed_on rs @ sbuf s' = concat chunks" using i by simp
    have clean: "\<not> stop_done s'" "\<forall>t \<in> set ss. \<not> sublist t (concat chunks)"
      using scan i(3) unfolding scanning_def whole [symmetric] by simp_all
    then have "\<not> (\<exists>t \<in> set ss. sublist t (concat chunks))" by blast
    then show ?thesis using scan whole clean(1) by (simp only: if_False) (simp add: stop_flush_def)
  next
    assume "\<exists>t. hits rs = [t] \<and> t \<in> set (stops s) \<and> stop_done s' \<and>
       prefix ([] @ passed_on rs @ t) ([] @ sbuf s @ concat chunks) \<and>
       (\<forall>u \<in> set (stops s). \<not> sublist u ([] @ passed_on rs))"
    then obtain t where t: "hits rs = [t]" "t \<in> set ss" "prefix (passed_on rs @ t) (concat chunks)"
      "\<forall>u \<in> set ss. \<not> sublist u (passed_on rs)" using i by auto
    from t(3) obtain zs where "concat chunks = passed_on rs @ t @ zs" by (auto simp: prefix_def)
    then have "sublist t (concat chunks)" unfolding sublist_def by blast
    then have "\<exists>t \<in> set ss. sublist t (concat chunks)" using t(2) by blast
    then show ?thesis using t by (simp only: if_True) blast
  qed
qed

theorem stop_never_missed_witness:
  "hits (fst (run stop_feed \<lparr>stops = [''</s>''], sbuf = [], stop_done = False\<rparr> [''ab</'', ''s>c''])) = [''</s>''] \<and>
   prefix (passed_on (fst (run stop_feed \<lparr>stops = [''</s>''], sbuf = [], stop_done = False\<rparr> [''ab</'', ''s>c'']))
      @ ''</s>'') ''ab</s>c''"
proof -
  have n: "new_stop_detector [''</s>''] = Inr \<lparr>stops = [''</s>''], sbuf = [], stop_done = False\<rparr>"
    by (simp add: new_stop_detector_def)
  have "sublist ''</s>'' (concat [''ab</'', ''s>c''])"
    by (simp add: sublist_Cons_right)
  with stop_never_missed [OF n surjective_pairing, of "[''ab</'', ''s>c'']"] show ?thesis by auto
qed

text \<open>
  With a stop sequence of at least two characters, less than the longest stop sequence is held
  back; with single-character stop sequences only, nothing is passed on before \<open>flush\<close>.
\<close>

lemma stop_feed_bound:
  assumes "2 \<le> max_len s" and "length (sbuf s) \<le> max_len s - 1"
  shows "length (sbuf (snd (stop_feed s c))) \<le> max_len s - 1"
  using assms by (auto simp: stop_feed_def Let_def min_def split: option.splits prod.splits)

interpretation stop: invariant_object stop_feed
  "\<lambda>s. stops s = ss \<and> (2 \<le> max_len s \<longrightarrow> length (sbuf s) \<le> max_len s - 1)" for ss
proof unfold_locales
  fix s c
  assume inv: "stops s = ss \<and> (2 \<le> max_len s \<longrightarrow> length (sbuf s) \<le> max_len s - 1)"
  have "max_len (snd (stop_feed s c)) = max_len s" by (simp add: max_len_def stop_feed_frame)
  then show "stops (snd (stop_feed s c)) = ss \<and>
      (2 \<le> max_len (snd (stop_feed s c)) \<longrightarrow>
       length (sbuf (snd (stop_feed s c))) \<le> max_len (snd (stop_feed s c)) - 1)"
    using inv stop_feed_bound [of s c] by (simp add: stop_feed_frame)
qed

text \<open>
  Memory: with some stop sequence of two or more characters, a session never holds back
  \<open>max_len\<close> or more characters.
\<close>

theorem stop_holds_back_less_than_longest:
  assumes "new_stop_detector ss = Inr s" and "2 \<le> Max (set (map length ss))"
  shows "length (sbuf (snd (run stop_feed s chunks))) < Max (set (map length ss))"
proof -
  have "stops s = ss" "sbuf s = []" using scanning_init [OF assms(1)] by auto
  then show ?thesis
    using stop.run_inv [of s ss chunks] assms(2) by (auto simp: max_len_def)
qed

theorem stop_holds_back_less_than_longest_witness:
  "length (sbuf (snd (run stop_feed \<lparr>stops = [''ab''], sbuf = [], stop_done = False\<rparr> [''xyz'', ''za'']))) < 2"
proof -
  have "new_stop_detector [''ab''] = Inr \<lparr>stops = [''ab''], sbuf = [], stop_done = False\<rparr>"
    by (simp add: new_stop_detector_def)
  from stop_holds_back_less_than_longest [OF this, of "[''xyz'', ''za'']"] show ?thesis by simp
qed

text \<open>
  With single-character stop sequences the held-back part grows with the stream: \<open>keep\<close> is 0,
  and the branch for it holds back everything instead of nothing.
\<close>

lemma single_char_stop_holds_everything:
  "run stop_feed \<lparr>stops = [''!''], sbuf = [], stop_done = False\<rparr> [''abc'', ''def''] =
   ([Inr ([], None), Inr ([], None)], \<lparr>stops = [''!''], sbuf = ''abcdef'', stop_done = False\<rparr>)"
  by (simp add: stop_feed_def max_len_def)

text \<open>Which stop sequence is reported can depend on the cutting when one contains another.\<close>

lemma nested_stops_depend_on_chunks:
  "hits (fst (run stop_feed \<lparr>stops = [''abc'', ''b''], sbuf = [], stop_done = False\<rparr> [''abc''])) = [''abc''] \<and>
   hits (fst (run stop_feed \<lparr>stops = [''abc'', ''b''], sbuf = [], stop_done = False\<rparr> [''ab'', ''c''])) = [''b'']"
  by (simp add: stop_feed_def max_len_def Let_def)

end
