(* ===== verification/Debouncer.thy ===== *)
theory Debouncer
  imports Prelude
begin

text \<open>
  The streaming output debouncer (\<open>streaming-output-debouncer/debouncer.py\<close>): chunks are
  coalesced and flushed when the buffer reaches its size cap or the time window has elapsed.
  The injected clock is the time argument of each call; times are rationals.
\<close>

section \<open>State and operations\<close>

datatype flush_reason = Interval | Buffer | Final

record flush_event =
  flushed_at :: rat
  payload :: string
  chunks :: nat
  reason :: flush_reason

record debouncer =
  min_interval_s :: rat
  max_buffer_chars :: int
  dbuf :: "string list"
  buffer_chars :: int
  last_flush :: rat
  started :: bool

definition new_debouncer :: "rat \<Rightarrow> int \<Rightarrow> debouncer" where
  "new_debouncer iv mx =
     \<lparr>min_interval_s = iv, max_buffer_chars = mx, dbuf = [], buffer_chars = 0, last_flush = 0,
      started = False\<rparr>"

definition db_flush :: "debouncer \<Rightarrow> rat \<Rightarrow> flush_reason \<Rightarrow> flush_event \<times> debouncer" where
  "db_flush s t r =
     (\<lparr>flushed_at = t, payload = concat (dbuf s), chunks = length (dbuf s), reason = r\<rparr>,
      s\<lparr>dbuf := [], buffer_chars := 0, last_flush := t\<rparr>)"

definition db_feed ::
  "debouncer \<Rightarrow> rat \<times> string \<Rightarrow> (unit, flush_event option, debouncer) outcome" where
  "db_feed s tc =
     (let (t, chunk) = tc;
          s1 = (if \<not> started s then s\<lparr>last_flush := t, started := True\<rparr> else s);
          s2 = s1\<lparr>dbuf := dbuf s1 @ [chunk], buffer_chars := buffer_chars s1 + int (length chunk)\<rparr>
      in if buffer_chars s2 \<ge> max_buffer_chars s2
         then (let (ev, s3) = db_flush s2 t Buffer in (Inr (Some ev), s3))
         else if t - last_flush s2 \<ge> min_interval_s s2
         then (let (ev, s3) = db_flush s2 t Interval in (Inr (Some ev), s3))
         else (Inr None, s2))"

definition db_flush_final :: "debouncer \<Rightarrow> rat \<Rightarrow> flush_event option \<times> debouncer" where
  "db_flush_final s t =
     (if dbuf s = [] then (None, s) else (let (ev, s') = db_flush s t Final in (Some ev, s')))"

section \<open>The invariant\<close>

text \<open>
  The character counter is the size of the buffered text, and between calls the buffer is below
  the cap (unless the cap is not positive, when every chunk is flushed at once and the buffer
  stays empty).
\<close>

definition db_inv :: "debouncer \<Rightarrow> bool" where
  "db_inv s \<longleftrightarrow> buffer_chars s = int (length (concat (dbuf s))) \<and>
     (dbuf s = [] \<or> buffer_chars s < max_buffer_chars s)"

definition event_text :: "flush_event option \<Rightarrow> string" where
  "event_text r = (case r of None \<Rightarrow> [] | Some ev \<Rightarrow> payload ev)"

interpretation deb: lossless_stream db_feed db_inv "\<lambda>s. concat (dbuf s)" snd event_text
  by unfold_locales
     (auto simp: db_feed_def db_flush_def db_inv_def event_text_def Let_def split: if_splits)

lemma db_inv_new [simp]: "db_inv (new_debouncer iv mx)"
  by (simp add: db_inv_def new_debouncer_def)

lemma db_feed_Inr: "\<exists>v. fst (db_feed s tc) = Inr v"
  by (simp add: db_feed_def db_flush_def Let_def case_prod_beta)

lemma run_db_ok: "all_ok (fst (run db_feed s tcs))"
proof (induction tcs arbitrary: s)
  case (Cons tc tcs)
  then show ?case using db_feed_Inr [of s tc] by (auto simp: case_prod_beta)
qed simp

text \<open>
  Coalescing loses nothing: over any session, whatever the clock readings, the payloads of
  the flushes in their order followed by the payload of the final flush are the chunks in their
  order.
\<close>

theorem debouncer_lossless:
  "concat (map event_text (oks (fst (run db_feed (new_debouncer iv mx) tcs)))) @
   event_text (fst (db_flush_final (snd (run db_feed (new_debouncer iv mx) tcs)) t)) = concat (map snd tcs)"
proof -
  let ?r = "run db_feed (new_debouncer iv mx) tcs"
  have "concat (map event_text (oks (fst ?r))) @ concat (dbuf (snd ?r)) = concat (map snd tcs)"
    using deb.run_conserve [OF db_inv_new surjective_pairing run_db_ok]
    by (simp add: new_debouncer_def)
  moreover have "event_text (fst (db_flush_final (snd ?r) t)) = concat (dbuf (snd ?r))"
    by (simp add: db_flush_final_def db_flush_def event_text_def)
  ultimately show ?thesis by simp
qed

text \<open>
  Between calls the buffered text is shorter than the cap, and a call that does not flush
  leaves the time since the last flush below the window.
\<close>

theorem debouncer_bounds:
  assumes "0 < mx" and "run db_feed (new_debouncer iv mx) tcs = (rs, s)"
  shows "int (length (concat (dbuf s))) < mx \<and>
    (db_feed s (t, c) = (Inr None, s') \<longrightarrow> t - last_flush s' < iv)"
proof -
  have fr: "max_buffer_chars (snd (run db_feed s0 xs)) = max_buffer_chars s0 \<and>
      min_interval_s (snd (run db_feed s0 xs)) = min_interval_s s0" for s0 xs
    by (induction xs arbitrary: s0)
       (simp_all add: case_prod_beta db_feed_def db_flush_def Let_def)
  have "db_inv s" using deb.run_inv [OF db_inv_new, of iv mx tcs] assms(2) by simp
  moreover have "max_buffer_chars s = mx" "min_interval_s s = iv"
    using fr [of "new_debouncer iv mx" tcs] assms(2) by (simp_all add: new_debouncer_def)
  ultimately show ?thesis
    using assms(1) by (auto simp: db_inv_def db_feed_def db_flush_def Let_def split: if_splits)
qed

theorem debouncer_bounds_witness:
  "int (length (concat (dbuf (snd (run db_feed (new_debouncer 5 4) [(0, ''ab''), (1, ''c'')]))))) < 4"
  using debouncer_bounds [OF _ surjective_pairing, of 4 5 "[(0, ''ab''), (1, ''c'')]"] by simp

end
