(* ===== verification/Checksum_Finalizer.thy ===== *)
theory Checksum_Finalizer
  imports Prelude
begin

text \<open>
  The streaming checksum finalizer (\<open>streaming-checksum-finalizer/template.py\<close>).  A
  \<open>hashlib\<close> object is determined by the bytes it has been updated with; the digest function
  of an algorithm is a parameter (\<open>algos\<close> maps the names \<open>hashlib.new\<close> accepts to their
  digest functions), so the theorems hold for every algorithm.
\<close>

section \<open>State and operations\<close>

type_synonym digest_fun = "byte list \<Rightarrow> byte list"

record checksum =
  hashed :: "byte list"
  algorithm :: string
  bytes_seen :: int
  final_digest :: "byte list option"
  final_hex :: "string option"
  aborted :: bool
  cs_closed :: bool

datatype checksum_error =
    UnknownAlgorithm string
  | StreamClosedError
  | StreamAbortedError
  | ChecksumAssertionError

definition digest_digit :: "nat \<Rightarrow> char" where
  "digest_digit n = ''0123456789abcdef'' ! n"

definition digest_hex :: "byte list \<Rightarrow> string" where
  "digest_hex bs = concat (map (\<lambda>b. [digest_digit (unat b div 16), digest_digit (unat b mod 16)]) bs)"

definition new_checksum :: "(string \<rightharpoonup> digest_fun) \<Rightarrow> string \<Rightarrow> checksum_error + checksum" where
  "new_checksum algos name =
     (case algos name of
        None \<Rightarrow> Inl (UnknownAlgorithm name)
      | Some _ \<Rightarrow>
          Inr \<lparr>hashed = [], algorithm = name, bytes_seen = 0, final_digest = None, final_hex = None,
               aborted = False, cs_closed = False\<rparr>)"

definition cs_feed :: "checksum \<Rightarrow> byte list \<Rightarrow> (checksum_error, unit, checksum) outcome" where
  "cs_feed s chunk =
     (if aborted s then (Inl StreamAbortedError, s)
      else if cs_closed s then (Inl StreamClosedError, s)
      else (Inr (), s\<lparr>hashed := hashed s @ chunk, bytes_seen := bytes_seen s + int (length chunk)\<rparr>))"

definition cs_finalize :: "digest_fun \<Rightarrow> checksum \<Rightarrow> (checksum_error, string, checksum) outcome" where
  "cs_finalize H s =
     (if aborted s then (Inl StreamAbortedError, s)
      else if cs_closed s then
        (case final_hex s of None \<Rightarrow> (Inl ChecksumAssertionError, s) | Some h \<Rightarrow> (Inr h, s))
      else (let d = H (hashed s)
            in (Inr (digest_hex d), s\<lparr>final_digest := Some d, final_hex := Some (digest_hex d), cs_closed := True\<rparr>)))"

definition cs_abort :: "checksum \<Rightarrow> checksum" where
  "cs_abort s = s\<lparr>aborted := True, final_digest := None, final_hex := None\<rparr>"

section \<open>Sessions\<close>

datatype cs_op = Feed "byte list" | Finalize | Abort

fun cs_step :: "digest_fun \<Rightarrow> checksum \<Rightarrow> cs_op \<Rightarrow> (checksum_error, string, checksum) outcome" where
  "cs_step H s (Feed c) = (case cs_feed s c of (r, s') \<Rightarrow> (map_sum id (\<lambda>_. []) r, s'))"
| "cs_step H s Finalize = cs_finalize H s"
| "cs_step H s Abort = (Inr [], cs_abort s)"

text \<open>The bytes fed before the stream was first closed.\<close>

fun fed_bytes :: "cs_op list \<Rightarrow> byte list" where
  "fed_bytes [] = []"
| "fed_bytes (Feed c # ops) = c @ fed_bytes ops"
| "fed_bytes (Finalize # ops) = []"
| "fed_bytes (Abort # ops) = []"

definition cs_inv :: "digest_fun \<Rightarrow> checksum \<Rightarrow> bool" where
  "cs_inv H s \<longleftrightarrow> bytes_seen s = int (length (hashed s)) \<and>
     final_digest s = (if cs_closed s \<and> \<not> aborted s then Some (H (hashed s)) else None) \<and>
     final_hex s = map_option digest_hex (final_digest s)"

lemma cs_inv_new: "new_checksum algos name = Inr s \<Longrightarrow> cs_inv H s"
  by (auto simp: new_checksum_def cs_inv_def split: option.splits)

lemma cs_step_inv: "cs_inv H s \<Longrightarrow> cs_inv H (snd (cs_step H s p))"
  by (cases p) (auto simp: cs_inv_def cs_feed_def cs_finalize_def cs_abort_def Let_def split: option.splits)

interpretation cks: invariant_object "cs_step H" "cs_inv H" for H
  by unfold_locales (rule cs_step_inv)

text \<open>A closed or poisoned stream keeps its bytes and its state.\<close>

lemma run_cs_aborted:
  "aborted s \<Longrightarrow> aborted (snd (run (cs_step H) s ops)) \<and> hashed (snd (run (cs_step H) s ops)) = hashed s"
proof (induction ops arbitrary: s)
  case (Cons p ops)
  then show ?case by (cases p) (auto simp: case_prod_beta cs_feed_def cs_finalize_def cs_abort_def)
qed simp

lemma run_cs_closed:
  "cs_closed s \<Longrightarrow> cs_closed (snd (run (cs_step H) s ops)) \<and> hashed (snd (run (cs_step H) s ops)) = hashed s
   \<and> aborted (snd (run (cs_step H) s ops)) = (aborted s \<or> Abort \<in> set ops)"
proof (induction ops arbitrary: s)
  case (Cons p ops)
  then show ?case
    by (cases p) (auto simp: case_prod_beta cs_feed_def cs_finalize_def cs_abort_def split: option.splits)
qed simp

lemma run_cs_open:
  "\<not> cs_closed s \<Longrightarrow> \<not> aborted s \<Longrightarrow> Abort \<notin> set ops \<Longrightarrow>
   hashed (snd (run (cs_step H) s ops)) = hashed s @ fed_bytes ops \<and>
   cs_closed (snd (run (cs_step H) s ops)) = (Finalize \<in> set ops) \<and>
   \<not> aborted (snd (run (cs_step H) s ops))"
proof (induction ops arbitrary: s)
  case (Cons p ops)
  then show ?case
    using run_cs_closed [of "snd (cs_finalize H s)" H ops]
    by (cases p) (auto simp: case_prod_beta cs_feed_def cs_finalize_def Let_def)
qed simp

lemma run_cs_abort: "Abort \<in> set ops \<Longrightarrow> aborted (snd (run (cs_step H) s ops))"
proof (induction ops arbitrary: s)
  case (Cons p ops)
  then show ?case
    using run_cs_aborted [of "cs_abort s" H ops]
    by (cases p) (auto simp: case_prod_beta cs_abort_def)
qed simp

text \<open>
  A digest is visible exactly when the stream has been finalized and never aborted, in
  whatever order the calls come; it is then the digest of all bytes fed before the first
  \<open>finalize\<close>, in hexadecimal, however they were cut into chunks and whatever was attempted
  afterwards.
\<close>

theorem digest_only_when_finalized:
  assumes "new_checksum algos name = Inr s" and "algos name = Some H"
  shows "final_hex (snd (run (cs_step H) s ops)) =
    (if Finalize \<in> set ops \<and> Abort \<notin> set ops then Some (digest_hex (H (fed_bytes ops))) else None)"
proof -
  let ?t = "snd (run (cs_step H) s ops)"
  have s: "hashed s = []" "\<not> aborted s" "\<not> cs_closed s"
    using assms by (auto simp: new_checksum_def)
  have inv: "cs_inv H ?t" using cks.run_inv [OF cs_inv_new [OF assms(1)]] .
  show ?thesis
  proof (cases "Abort \<in> set ops")
    case True
    then show ?thesis using inv run_cs_abort by (auto simp: cs_inv_def)
  next
    case False
    then show ?thesis using inv run_cs_open [of s ops H] s by (auto simp: cs_inv_def)
  qed
qed

theorem digest_only_when_finalized_witness:
  "final_hex (snd (run (cs_step (\<lambda>bs. [sum_list bs]))
      \<lparr>hashed = [], algorithm = ''sum'', bytes_seen = 0, final_digest = None, final_hex = None,
       aborted = False, cs_closed = False\<rparr> [Feed [1, 2], Feed [40], Finalize, Feed [7]])) = Some ''2b''"
proof -
  let ?a = "[''sum'' \<mapsto> (\<lambda>bs :: byte list. [sum_list bs])]"
  have n: "new_checksum ?a ''sum'' = Inr \<lparr>hashed = [], algorithm = ''sum'', bytes_seen = 0,
      final_digest = None, final_hex = None, aborted = False, cs_closed = False\<rparr>"
    by (simp add: new_checksum_def)
  from digest_only_when_finalized [OF n, of "\<lambda>bs. [sum_list bs]" "[Feed [1, 2], Feed [40], Finalize, Feed [7]]"]
  show ?thesis by (simp add: digest_hex_def digest_digit_def)
qed

text \<open>
  The failing calls: after \<open>abort\<close> every \<open>feed\<close> and \<open>finalize\<close> raises, after \<open>finalize\<close> every
  \<open>feed\<close> raises, and a raising call changes nothing; the assertion inside \<open>finalize\<close> holds in
  every reachable state.
\<close>

lemma checksum_failures:
  assumes "cs_inv H s"
  shows "aborted s \<Longrightarrow> cs_feed s c = (Inl StreamAbortedError, s) \<and> cs_finalize H s = (Inl StreamAbortedError, s)"
    and "cs_closed s \<Longrightarrow> \<not> aborted s \<Longrightarrow>
      cs_feed s c = (Inl StreamClosedError, s) \<and> cs_finalize H s = (Inr (digest_hex (H (hashed s))), s)"
    and "fst (cs_finalize H s) \<noteq> Inl ChecksumAssertionError"
  using assms by (auto simp: cs_feed_def cs_finalize_def cs_inv_def Let_def split: option.splits)

end
