(* ===== verification/Cancel_Token.thy ===== *)
theory Cancel_Token
  imports Prelude "HOL-Library.Multiset"
begin

text \<open>
  The cooperative cancellation token (\<open>streaming-cancellation-token/cancel.py\<close>).  A cleanup
  callback is an element of a type \<open>'f\<close>; \<open>ex f w\<close> is what calling it in the world \<open>w\<close> does: the
  new world, and the text of the exception when it raises.  Callbacks do not call the token
  themselves.
\<close>

section \<open>State and operations\<close>

record 'f token =
  cancelled :: bool
  cancel_reason :: "string option"
  cleanups :: "(string \<times> 'f) list"
  cleanups_ran :: bool
  cleanup_errors :: "(string \<times> string) list"

datatype token_error =
    Cancelled string
  | TokenValueError string
  | TokenAssertionError

type_synonym ('f, 'w) executor = "'f \<Rightarrow> 'w \<Rightarrow> 'w \<times> string option"

definition new_token :: "'f token" where
  "new_token = \<lparr>cancelled = False, cancel_reason = None, cleanups = [], cleanups_ran = False,
                cleanup_errors = []\<rparr>"

definition raise_if_cancelled :: "'f token \<Rightarrow> token_error + unit" where
  "raise_if_cancelled s =
     (if cancelled s then
        (case cancel_reason s of None \<Rightarrow> Inl TokenAssertionError | Some r \<Rightarrow> Inl (Cancelled r))
      else Inr ())"

definition cancel :: "'f token \<Rightarrow> string \<Rightarrow> (token_error, bool, 'f token) outcome" where
  "cancel s r =
     (if cancelled s then (Inr False, s)
      else if r = [] then (Inl (TokenValueError ''cancel reason must be a non-empty string''), s)
      else (Inr True, s\<lparr>cancelled := True, cancel_reason := Some r\<rparr>))"

definition run_one ::
  "('f, 'w) executor \<Rightarrow> string \<Rightarrow> 'f \<Rightarrow> 'w \<times> 'f token \<Rightarrow> 'w \<times> 'f token" where
  "run_one ex name f ws =
     (let (w, s) = ws; (w', err) = ex f w
      in (w', case err of None \<Rightarrow> s
              | Some msg \<Rightarrow> s\<lparr>cleanup_errors := cleanup_errors s @ [(name, msg)]\<rparr>))"

definition register_cleanup ::
  "('f, 'w) executor \<Rightarrow> 'w \<times> 'f token \<Rightarrow> string \<times> 'f \<Rightarrow> (token_error, unit, 'w \<times> 'f token) outcome" where
  "register_cleanup ex ws nf =
     (let (w, s) = ws; (name, f) = nf in
      if name = [] then (Inl (TokenValueError ''cleanup name must be a non-empty string''), ws)
      else if cancelled s then (Inr (), run_one ex name f ws)
      else (Inr (), (w, s\<lparr>cleanups := cleanups s @ [(name, f)]\<rparr>)))"

text \<open>The loop \<open>while self._cleanups: pop()\<close>: the last registered callback is popped first.\<close>

function drain_cleanups :: "('f, 'w) executor \<Rightarrow> 'w \<times> 'f token \<Rightarrow> 'w \<times> 'f token" where
  "drain_cleanups ex ws =
     (if cleanups (snd ws) = [] then ws
      else (let (name, f) = last (cleanups (snd ws))
            in drain_cleanups ex
                 (run_one ex name f (fst ws, (snd ws)\<lparr>cleanups := butlast (cleanups (snd ws))\<rparr>))))"
  by pat_completeness auto
termination
  by (relation "measure (\<lambda>(ex, ws). length (cleanups (snd ws)))")
     (auto simp: run_one_def Let_def case_prod_beta split: option.splits)

declare drain_cleanups.simps [simp del]

definition run_cleanups :: "('f, 'w) executor \<Rightarrow> 'w \<times> 'f token \<Rightarrow> 'w \<times> 'f token" where
  "run_cleanups ex ws =
     (if cleanups_ran (snd ws) then ws
      else drain_cleanups ex (fst ws, (snd ws)\<lparr>cleanups_ran := True\<rparr>))"

record token_snapshot =
  snap_cancelled :: bool
  snap_cleanup_errors :: "(string \<times> string) list"
  snap_cleanups_pending :: nat
  snap_cleanups_ran :: bool
  snap_reason :: "string option"

definition token_state :: "'f token \<Rightarrow> token_snapshot" where
  "token_state s =
     \<lparr>snap_cancelled = cancelled s, snap_cleanup_errors = cleanup_errors s,
      snap_cleanups_pending = length (cleanups s), snap_cleanups_ran = cleanups_ran s,
      snap_reason = cancel_reason s\<rparr>"

section \<open>Running the cleanups\<close>

text \<open>
  The loop runs the registered callbacks from the last to the first, each in the world the
  previous one left, and goes on after one that raises.
\<close>

fun run_list :: "('f, 'w) executor \<Rightarrow> (string \<times> 'f) list \<Rightarrow> 'w \<Rightarrow> 'w \<times> (string \<times> string) list" where
  "run_list ex [] w = (w, [])"
| "run_list ex ((name, f) # cs) w =
     (let (w', err) = ex f w; (w'', errs) = run_list ex cs w'
      in (w'', (case err of None \<Rightarrow> [] | Some msg \<Rightarrow> [(name, msg)]) @ errs))"

lemma drain_cleanups_run_list:
  "drain_cleanups ex (w, s) =
     (fst (run_list ex (rev (cleanups s)) w),
      s\<lparr>cleanups := [], cleanup_errors := cleanup_errors s @ snd (run_list ex (rev (cleanups s)) w)\<rparr>)"
proof (induction "length (cleanups s)" arbitrary: w s)
  case 0
  then show ?case by (simp add: drain_cleanups.simps)
next
  case (Suc n)
  then have "cleanups s \<noteq> []" by auto
  then obtain cs name f where cs: "cleanups s = cs @ [(name, f)]"
    by (cases "cleanups s" rule: rev_cases) auto
  obtain w' err where e: "ex f w = (w', err)" by (cases "ex f w")
  let ?s = "(case err of None \<Rightarrow> s\<lparr>cleanups := cs\<rparr>
             | Some msg \<Rightarrow> s\<lparr>cleanups := cs, cleanup_errors := cleanup_errors s @ [(name, msg)]\<rparr>)"
  have step: "drain_cleanups ex (w, s) = drain_cleanups ex (w', ?s)"
    using cs e by (simp add: drain_cleanups.simps [of ex "(w, s)"] run_one_def split: option.splits)
  have "n = length (cleanups ?s)" using Suc.hyps(2) cs by (simp split: option.splits)
  from Suc.hyps(1) [OF this, of w'] show ?case
    unfolding step using cs e by (auto simp: case_prod_beta split: option.splits)
qed

lemma run_cleanups_again: "cleanups_ran (snd ws) \<Longrightarrow> run_cleanups ex ws = ws"
  by (simp add: run_cleanups_def)

text \<open>
  The first \<open>run_cleanups\<close> calls every registered callback exactly once, in the reverse
  order of registration, continuing after callbacks that raise and recording each error under
  its name; a second \<open>run_cleanups\<close> does nothing.
\<close>

theorem run_cleanups_lifo_once:
  assumes "\<not> cleanups_ran s"
  shows "run_cleanups ex (w, s) =
      (fst (run_list ex (rev (cleanups s)) w),
       s\<lparr>cleanups := [], cleanups_ran := True,
         cleanup_errors := cleanup_errors s @ snd (run_list ex (rev (cleanups s)) w)\<rparr>) \<and>
    run_cleanups ex (run_cleanups ex (w, s)) = run_cleanups ex (w, s)"
proof -
  have eq: "run_cleanups ex (w, s) =
      (fst (run_list ex (rev (cleanups s)) w),
       s\<lparr>cleanups := [], cleanups_ran := True,
         cleanup_errors := cleanup_errors s @ snd (run_list ex (rev (cleanups s)) w)\<rparr>)"
    using assms by (simp add: run_cleanups_def drain_cleanups_run_list)
  then have "cleanups_ran (snd (run_cleanups ex (w, s)))" by simp
  from run_cleanups_again [OF this] eq show ?thesis by blast
qed

definition demo_exec :: "nat \<Rightarrow> nat list \<Rightarrow> nat list \<times> string option" where
  "demo_exec f w = (w @ [f], if f = 2 then Some ''OSError: busy'' else None)"

theorem run_cleanups_lifo_once_witness:
  "run_cleanups demo_exec ([], new_token\<lparr>cleanups := [(''file'', 1), (''temp'', 2), (''flush'', 3)]\<rparr>) =
    ([3, 2, 1], new_token\<lparr>cleanups_ran := True, cleanup_errors := [(''temp'', ''OSError: busy'')]\<rparr>)"
proof -
  have "\<not> cleanups_ran (new_token\<lparr>cleanups := [(''file'', 1 :: nat), (''temp'', 2), (''flush'', 3)]\<rparr>)"
    by (simp add: new_token_def)
  from run_cleanups_lifo_once [OF this, of demo_exec "[]"] show ?thesis
    by (simp add: demo_exec_def new_token_def)
qed

section \<open>Sessions\<close>

datatype 'f token_op = Cancel string | Register string 'f | RunCleanups

fun token_step ::
  "('f, 'w) executor \<Rightarrow> 'w \<times> 'f token \<Rightarrow> 'f token_op \<Rightarrow> (token_error, bool, 'w \<times> 'f token) outcome" where
  "token_step ex (w, s) (Cancel r) = (case cancel s r of (res, s') \<Rightarrow> (res, (w, s')))"
| "token_step ex ws (Register name f) =
     (case register_cleanup ex ws (name, f) of (res, ws') \<Rightarrow> (map_sum id (\<lambda>_. True) res, ws'))"
| "token_step ex ws RunCleanups = (Inr True, run_cleanups ex ws)"

text \<open>
  The token is cancelled exactly when it has a reason, and the reason is never empty: the
  assertion in \<open>raise_if_cancelled\<close> holds.
\<close>

definition token_inv :: "'w \<times> 'f token \<Rightarrow> bool" where
  "token_inv ws \<longleftrightarrow> (case cancel_reason (snd ws) of
     None \<Rightarrow> \<not> cancelled (snd ws) | Some r \<Rightarrow> cancelled (snd ws) \<and> r \<noteq> [])"

lemma run_one_frame:
  "cancelled (snd (run_one ex n f ws)) = cancelled (snd ws)"
  "cancel_reason (snd (run_one ex n f ws)) = cancel_reason (snd ws)"
  "cleanups (snd (run_one ex n f ws)) = cleanups (snd ws)"
  "fst (run_one ex n f ws) = fst (ex f (fst ws))"
  by (simp_all add: run_one_def case_prod_beta Let_def split: option.splits)

lemma run_cleanups_frame:
  "cancelled (snd (run_cleanups ex ws)) = cancelled (snd ws)"
  "cancel_reason (snd (run_cleanups ex ws)) = cancel_reason (snd ws)"
  by (cases ws, simp add: run_cleanups_def drain_cleanups_run_list)+

lemma token_step_inv: "token_inv ws \<Longrightarrow> token_inv (snd (token_step ex ws p))"
  by (cases ws; cases p)
     (auto simp: token_inv_def cancel_def register_cleanup_def run_one_frame run_cleanups_frame
           split: option.splits)

interpretation tok: invariant_object "token_step ex" token_inv for ex
  by unfold_locales (rule token_step_inv)

lemma token_step_reason:
  "token_inv ws \<Longrightarrow> cancel_reason (snd ws) = Some r \<Longrightarrow>
   cancel_reason (snd (snd (token_step ex ws p))) = Some r"
  by (cases ws; cases p)
     (auto simp: token_inv_def cancel_def register_cleanup_def run_one_frame run_cleanups_frame)

text \<open>
  The first reason wins: once a session has cancelled the token with a reason, every
  continuation of the session keeps that reason, further \<open>cancel\<close> calls return \<open>False\<close>, and
  \<open>raise_if_cancelled\<close> raises \<open>Cancelled\<close> with it.
\<close>

theorem cancel_set_once:
  assumes "cancel_reason (snd (snd (run (token_step ex) (w, new_token) ops))) = Some r"
  shows "cancel_reason (snd (snd (run (token_step ex) (w, new_token) (ops @ ops')))) = Some r \<and>
    raise_if_cancelled (snd (snd (run (token_step ex) (w, new_token) (ops @ ops')))) = Inl (Cancelled r) \<and>
    fst (cancel (snd (snd (run (token_step ex) (w, new_token) (ops @ ops')))) r') = Inr False"
proof -
  have keep: "token_inv ws \<Longrightarrow> cancel_reason (snd ws) = Some r \<Longrightarrow>
      cancel_reason (snd (snd (run (token_step ex) ws ops'))) = Some r" for ws
    by (induction ops' arbitrary: ws) (simp_all add: case_prod_beta token_step_reason token_step_inv)
  have "token_inv (w, new_token)" by (simp add: token_inv_def new_token_def)
  note inv = tok.run_inv [OF this, of ex]
  have "cancel_reason (snd (snd (run (token_step ex) (w, new_token) (ops @ ops')))) = Some r"
    using keep [OF inv assms] by (simp add: run_append)
  then show ?thesis
    using inv [of "ops @ ops'"] by (simp add: token_inv_def raise_if_cancelled_def cancel_def)
qed

theorem cancel_set_once_witness:
  "cancel_reason (snd (snd (run (token_step demo_exec) ([], new_token) [Cancel ''a'', Cancel ''b'']))) = Some ''a''"
proof -
  have "cancel_reason (snd (snd (run (token_step demo_exec) ([], new_token) [Cancel ''a'']))) = Some ''a''"
    by (simp add: cancel_def new_token_def)
  from cancel_set_once [OF this, of "[Cancel ''b'']"] show ?thesis by simp
qed

text \<open>A callback registered after \<open>run_cleanups\<close> on a token that is not cancelled is only queued,
  and no later \<open>run_cleanups\<close> calls it.\<close>

lemma register_after_run_is_queued:
  assumes "cleanups_ran s" and "\<not> cancelled s" and "name \<noteq> []"
  shows "\<exists>s'. register_cleanup ex (w, s) (name, f) = (Inr (), (w, s')) \<and>
    cleanups s' = cleanups s @ [(name, f)] \<and> run_cleanups ex (w, s') = (w, s')"
  using assms by (simp add: register_cleanup_def run_cleanups_def)

end
