(* ===== verification/Sse_Replayer.thy ===== *)
theory Sse_Replayer
  imports Prelude
begin

text \<open>
  The producer side of a resumable event stream (\<open>sse-event-replayer/replayer.py\<close>): a log
  with bounded retention that answers \<open>since(last_event_id)\<close>.  Event identifiers are
  integers (the \<open>isinstance\<close> checks are the types); the payload is an opaque value that is
  only compared for equality.

  The specification is the unbounded log of all accepted events; the lemmas show that the
  bounded log is its tail and that a reply never silently skips an event of the unbounded
  one.
\<close>

section \<open>State and operations\<close>

record 'p event =
  ev_id :: int
  ev_event :: string
  ev_payload :: 'p

datatype verdict = DELIVER | EMPTY | TOO_OLD | FUTURE_CURSOR

record 'p replay_result =
  rr_verdict :: verdict
  rr_events :: "'p event list"
  rr_oldest_retained_id :: "int option"
  rr_latest_id :: "int option"

record replayer_stats =
  appended :: nat
  duplicate_absorbed :: nat
  deliver_calls :: nat
  empty_calls :: nat
  too_old_calls :: nat
  future_cursor_calls :: nat
  evicted :: nat

record 'p replayer =
  max_retained :: int
  rp_events :: "'p event list"
  rp_stats :: replayer_stats

datatype replayer_error =
    IdPayloadConflict int
  | NonMonotonicId int int
  | PopFromEmptyList

definition zero_stats :: replayer_stats where
  "zero_stats = \<lparr>appended = 0, duplicate_absorbed = 0, deliver_calls = 0, empty_calls = 0,
                 too_old_calls = 0, future_cursor_calls = 0, evicted = 0\<rparr>"

definition new_replayer :: "int \<Rightarrow> 'p replayer" where
  "new_replayer m = \<lparr>max_retained = m, rp_events = [], rp_stats = zero_stats\<rparr>"

text \<open>
  The loop \<open>while len(self._events) > self.max_retained: self._events.pop(0)\<close>, counting the
  evictions; popping from the empty list raises.
\<close>

fun evict_front :: "int \<Rightarrow> 'p event list \<Rightarrow> nat \<Rightarrow> 'p event list \<times> nat \<times> bool" where
  "evict_front m [] n = ([], n, 0 > m)"
| "evict_front m (e # es) n =
     (if int (length (e # es)) > m then evict_front m es (Suc n) else (e # es, n, False))"

definition store_event :: "'p replayer \<Rightarrow> 'p event \<Rightarrow> (replayer_error, unit, 'p replayer) outcome" where
  "store_event s e =
     (case evict_front (max_retained s) (rp_events s @ [e]) (evicted (rp_stats s)) of
        (es, n, bad) \<Rightarrow>
          (if bad then Inl PopFromEmptyList else Inr (),
           s\<lparr>rp_events := es,
             rp_stats := (rp_stats s)\<lparr>appended := appended (rp_stats s) + 1, evicted := n\<rparr>\<rparr>))"

definition rp_append :: "'p replayer \<Rightarrow> 'p event \<Rightarrow> (replayer_error, unit, 'p replayer) outcome" where
  "rp_append s e =
     (if rp_events s \<noteq> [] then
        (let lst = last (rp_events s); last_id = ev_id lst in
         if ev_id e = last_id then
           (if ev_payload lst \<noteq> ev_payload e \<or> ev_event lst \<noteq> ev_event e
            then (Inl (IdPayloadConflict (ev_id e)), s)
            else (Inr (), s\<lparr>rp_stats := (rp_stats s)\<lparr>duplicate_absorbed := duplicate_absorbed (rp_stats s) + 1\<rparr>\<rparr>))
         else if ev_id e < last_id then (Inl (NonMonotonicId (ev_id e) last_id), s)
         else store_event s e)
      else store_event s e)"

text \<open>\<open>extend\<close> stops at the first event that raises.\<close>

fun rp_extend :: "'p replayer \<Rightarrow> 'p event list \<Rightarrow> (replayer_error, unit, 'p replayer) outcome" where
  "rp_extend s [] = (Inr (), s)"
| "rp_extend s (e # es) =
     (case rp_append s e of (Inl x, s') \<Rightarrow> (Inl x, s') | (Inr _, s') \<Rightarrow> rp_extend s' es)"

definition since :: "'p replayer \<Rightarrow> int option \<Rightarrow> 'p replay_result \<times> 'p replayer" where
  "since s cur =
     (if rp_events s = [] then
        (\<lparr>rr_verdict = EMPTY, rr_events = [], rr_oldest_retained_id = None, rr_latest_id = None\<rparr>,
         s\<lparr>rp_stats := (rp_stats s)\<lparr>empty_calls := empty_calls (rp_stats s) + 1\<rparr>\<rparr>)
      else
        (let oldest = ev_id (hd (rp_events s)); latest = ev_id (last (rp_events s)) in
         case cur of
           None \<Rightarrow>
             (\<lparr>rr_verdict = DELIVER, rr_events = rp_events s, rr_oldest_retained_id = None, rr_latest_id = None\<rparr>,
              s\<lparr>rp_stats := (rp_stats s)\<lparr>deliver_calls := deliver_calls (rp_stats s) + 1\<rparr>\<rparr>)
         | Some c \<Rightarrow>
             if c > latest then
               (\<lparr>rr_verdict = FUTURE_CURSOR, rr_events = [], rr_oldest_retained_id = None, rr_latest_id = Some latest\<rparr>,
                s\<lparr>rp_stats := (rp_stats s)\<lparr>future_cursor_calls := future_cursor_calls (rp_stats s) + 1\<rparr>\<rparr>)
             else if c = latest then
               (\<lparr>rr_verdict = EMPTY, rr_events = [], rr_oldest_retained_id = None, rr_latest_id = None\<rparr>,
                s\<lparr>rp_stats := (rp_stats s)\<lparr>empty_calls := empty_calls (rp_stats s) + 1\<rparr>\<rparr>)
             else if c < oldest - 1 then
               (\<lparr>rr_verdict = TOO_OLD, rr_events = [], rr_oldest_retained_id = Some oldest, rr_latest_id = None\<rparr>,
                s\<lparr>rp_stats := (rp_stats s)\<lparr>too_old_calls := too_old_calls (rp_stats s) + 1\<rparr>\<rparr>)
             else
               (\<lparr>rr_verdict = DELIVER, rr_events = filter (\<lambda>e. ev_id e > c) (rp_events s),
                  rr_oldest_retained_id = None, rr_latest_id = None\<rparr>,
                s\<lparr>rp_stats := (rp_stats s)\<lparr>deliver_calls := deliver_calls (rp_stats s) + 1\<rparr>\<rparr>)))"

record replayer_snapshot =
  sn_retained :: nat
  sn_max_retained :: int
  sn_oldest_id :: "int option"
  sn_latest_id :: "int option"
  sn_stats :: replayer_stats

definition rp_snapshot :: "'p replayer \<Rightarrow> replayer_snapshot" where
  "rp_snapshot s =
     \<lparr>sn_retained = length (rp_events s), sn_max_retained = max_retained s,
      sn_oldest_id = (if rp_events s \<noteq> [] then Some (ev_id (hd (rp_events s))) else None),
      sn_latest_id = (if rp_events s \<noteq> [] then Some (ev_id (last (rp_events s))) else None),
      sn_stats = rp_stats s\<rparr>"

section \<open>The unbounded log\<close>

definition log_append :: "'p event list \<Rightarrow> 'p event \<Rightarrow> 'p event list" where
  "log_append h e = (if h = [] \<or> ev_id (last h) < ev_id e then h @ [e] else h)"

definition full_log :: "'p event list \<Rightarrow> 'p event list" where
  "full_log es = foldl log_append [] es"

definition increasing :: "'p event list \<Rightarrow> bool" where
  "increasing h \<longleftrightarrow> sorted_wrt (<) (map ev_id h)"

lemma increasing_last:
  assumes "increasing h" "e \<in> set h" "h \<noteq> []"
  shows "ev_id e \<le> ev_id (last h)"
proof (cases "e = last h")
  case False
  obtain g l where h: "h = g @ [l]" using assms(3) by (cases h rule: rev_cases) auto
  then have "e \<in> set g" using assms(2) False by auto
  then show ?thesis using assms(1) h by (auto simp: increasing_def sorted_wrt_append less_imp_le)
qed simp

lemma increasing_hd:
  assumes "increasing h" "e \<in> set h" shows "ev_id (hd h) \<le> ev_id e"
  using assms by (cases h) (auto simp: increasing_def less_imp_le)

lemma log_append_increasing: "increasing h \<Longrightarrow> increasing (log_append h e)"
proof (cases "h = [] \<or> ev_id (last h) < ev_id e")
  case True
  assume i: "increasing h"
  have "ev_id x < ev_id e" if x: "x \<in> set h" for x
    using True increasing_last [OF i x] x by fastforce
  then show ?thesis using i True by (auto simp: log_append_def increasing_def sorted_wrt_append)
qed (simp add: log_append_def)

lemma evict_front_eq:
  assumes "0 \<le> m"
  shows "evict_front m es n = (drop (length es - nat m) es, n + (length es - nat m), False)"
  using assms
proof (induction es arbitrary: n)
  case (Cons e es)
  then show ?case
    by (cases "int (length (e # es)) > m") (auto simp: Suc_diff_le nat_le_iff nat_less_iff)
qed simp

text \<open>The retained events are the last \<open>max_retained\<close> events of the unbounded log.\<close>

definition retains :: "'p replayer \<Rightarrow> 'p event list \<Rightarrow> bool" where
  "retains s h \<longleftrightarrow> increasing h \<and> max_retained s \<ge> 1 \<and>
     rp_events s = drop (length h - nat (max_retained s)) h"

lemma retains_last:
  assumes "retains s h"
  shows "rp_events s = [] \<longleftrightarrow> h = []" "h \<noteq> [] \<Longrightarrow> last (rp_events s) = last h"
proof -
  have "nat (max_retained s) \<ge> 1" using assms by (auto simp: retains_def)
  then show "rp_events s = [] \<longleftrightarrow> h = []" using assms by (cases h) (auto simp: retains_def)
  then show "h \<noteq> [] \<Longrightarrow> last (rp_events s) = last h"
    using assms by (simp add: retains_def last_drop not_le)
qed

lemma store_event_retains:
  assumes "retains s h" and "h = [] \<or> ev_id (last h) < ev_id e"
  shows "fst (store_event s e) = Inr ()" "retains (snd (store_event s e)) (log_append h e)"
proof -
  let ?m = "nat (max_retained s)"
  have m: "0 \<le> max_retained s" "?m \<ge> 1" using assms(1) by (auto simp: retains_def)
  have ev: "drop (length (rp_events s @ [e]) - ?m) (rp_events s @ [e]) =
      drop (length (h @ [e]) - ?m) (h @ [e])"
    using assms(1) m by (cases "length h < ?m") (auto simp: retains_def Suc_diff_le)
  show "fst (store_event s e) = Inr ()"
    by (simp add: store_event_def evict_front_eq [OF m(1)])
  have "increasing (log_append h e)"
    using assms(1) by (simp add: retains_def log_append_increasing)
  then show "retains (snd (store_event s e)) (log_append h e)"
    using assms ev m by (simp add: store_event_def evict_front_eq [OF m(1)] retains_def log_append_def)
qed

lemma rp_append_retains:
  assumes "retains s h"
  shows "retains (snd (rp_append s e)) (log_append h e)"
proof (cases "h = [] \<or> ev_id (last h) < ev_id e")
  case True
  then have "rp_append s e = store_event s e"
    using retains_last [OF assms] by (auto simp: rp_append_def Let_def)
  then show ?thesis using store_event_retains(2) [OF assms True] by simp
next
  case False
  then show ?thesis
    using retains_last [OF assms] assms
    by (auto simp: rp_append_def Let_def log_append_def retains_def)
qed

lemma session_retains:
  "retains s h \<Longrightarrow> retains (snd (run rp_append s es)) (foldl log_append h es)"
  by (induction es arbitrary: s h) (simp_all add: case_prod_beta rp_append_retains)

lemma new_replayer_retains: "1 \<le> m \<Longrightarrow> retains (new_replayer m) []"
  by (simp add: retains_def new_replayer_def increasing_def)

lemma rp_append_full_log:
  assumes "1 \<le> m"
  shows "retains (snd (run rp_append (new_replayer m) es)) (full_log es)"
  unfolding full_log_def by (rule session_retains [OF new_replayer_retains [OF assms]])

section \<open>Replies\<close>

lemma since_frame:
  "rp_events (snd (since s cur)) = rp_events s" "max_retained (snd (since s cur)) = max_retained s"
  by (auto simp: since_def Let_def split: option.splits)

lemma retained_after:
  assumes "retains s h" and "rp_events s \<noteq> []" and "\<not> c < ev_id (hd (rp_events s)) - 1"
  shows "filter (\<lambda>e. ev_id e > c) (rp_events s) = filter (\<lambda>e. ev_id e > c) h"
proof -
  let ?k = "length h - nat (max_retained s)"
  have d: "rp_events s = drop ?k h" using assms(1) by (simp add: retains_def)
  have "\<not> ev_id x > c" if x: "x \<in> set (take ?k h)" for x
  proof -
    have "sorted_wrt (<) (map ev_id (take ?k h @ drop ?k h))"
      using assms(1) by (simp add: retains_def increasing_def)
    moreover have "hd (rp_events s) \<in> set (drop ?k h)" using assms(2) d by (metis hd_in_set)
    ultimately have "ev_id x < ev_id (hd (rp_events s))"
      using x unfolding map_append sorted_wrt_append by auto
    then show ?thesis using assms(3) by simp
  qed
  then have "filter (\<lambda>e. ev_id e > c) (take ?k h) = []" by (simp add: filter_empty_conv)
  then have "filter (\<lambda>e. ev_id e > c) (take ?k h @ drop ?k h) = filter (\<lambda>e. ev_id e > c) (drop ?k h)"
    by (simp only: filter_append append_Nil)
  then show ?thesis using d by simp
qed

lemma since_sound:
  assumes "retains s h"
  shows "rr_verdict (fst (since s (Some c))) = DELIVER \<Longrightarrow>
      rr_events (fst (since s (Some c))) = filter (\<lambda>e. ev_id e > c) h \<and> rr_events (fst (since s (Some c))) \<noteq> []"
    and "rr_verdict (fst (since s (Some c))) = EMPTY \<Longrightarrow> filter (\<lambda>e. ev_id e > c) h = []"
    and "rr_verdict (fst (since s (Some c))) = FUTURE_CURSOR \<Longrightarrow> h \<noteq> [] \<and> ev_id (last h) < c"
    and "rr_verdict (fst (since s (Some c))) = TOO_OLD \<Longrightarrow>
      rr_oldest_retained_id (fst (since s (Some c))) = Some (ev_id (hd (rp_events s))) \<and>
      (\<exists>e\<in>set (rp_events s). ev_id e > c)"
proof -
  note e = retains_last [OF assms]
  have inc: "increasing h" using assms by (simp add: retains_def)
  show "rr_verdict (fst (since s (Some c))) = DELIVER \<Longrightarrow>
      rr_events (fst (since s (Some c))) = filter (\<lambda>e. ev_id e > c) h \<and> rr_events (fst (since s (Some c))) \<noteq> []"
    using retained_after [OF assms] last_in_set
    by (fastforce simp: since_def Let_def filter_empty_conv split: if_splits)
  show "rr_verdict (fst (since s (Some c))) = EMPTY \<Longrightarrow> filter (\<lambda>e. ev_id e > c) h = []"
    using e increasing_last [OF inc]
    by (fastforce simp: since_def Let_def filter_empty_conv split: if_splits)
  show "rr_verdict (fst (since s (Some c))) = FUTURE_CURSOR \<Longrightarrow> h \<noteq> [] \<and> ev_id (last h) < c"
    using e by (auto simp: since_def Let_def split: if_splits)
  show "rr_verdict (fst (since s (Some c))) = TOO_OLD \<Longrightarrow>
      rr_oldest_retained_id (fst (since s (Some c))) = Some (ev_id (hd (rp_events s))) \<and>
      (\<exists>e\<in>set (rp_events s). ev_id e > c)"
    by (auto simp: since_def Let_def split: if_splits intro!: bexI [of _ "hd (rp_events s)"])
qed

lemma evicted_too_old:
  assumes r: "retains s h" and x: "x \<in> set (take (length h - nat (max_retained s)) h)" and c: "ev_id x > c"
  shows "rr_verdict (fst (since s (Some c))) = TOO_OLD"
proof -
  let ?k = "length h - nat (max_retained s)"
  note s = since_sound [OF r, of c]
  have xh: "x \<in> set h" using x by (rule in_set_takeD)
  have i: "increasing h" and ev: "rp_events s = drop ?k h" using r by (simp_all add: retains_def)
  have "distinct h" using i by (simp add: increasing_def strict_sorted_iff distinct_map)
  then have new: "x \<notin> set (rp_events s)"
    using x ev set_take_disj_set_drop_if_distinct [of h ?k ?k] by auto
  show ?thesis
  proof (cases "rr_verdict (fst (since s (Some c)))")
    case DELIVER
    then have "x \<in> set (rr_events (fst (since s (Some c))))" using s(1) xh c by simp
    moreover have "set (rr_events (fst (since s (Some c)))) \<subseteq> set (rp_events s)"
      by (auto simp: since_def Let_def)
    ultimately show ?thesis using new by blast
  next
    case EMPTY
    then show ?thesis using s(2) xh c by (auto simp: filter_empty_conv)
  next
    case FUTURE_CURSOR
    then show ?thesis using s(3) increasing_last [OF i xh] c by auto
  qed
qed

lemma session_max_retained: "max_retained (snd (run rp_append s es)) = max_retained s"
proof -
  have "max_retained (snd (rp_append t e)) = max_retained t" for t :: "'a replayer" and e
    by (auto simp: rp_append_def store_event_def Let_def split: prod.splits)
  then show ?thesis by (induction es arbitrary: s) (simp_all add: case_prod_beta)
qed

text \<open>
  Over any sequence of appends, accepted or rejected, the replayer holds the last
  \<open>max_retained\<close> events of the unbounded log, and a reply to a cursor never skips an event:
  with DELIVER it is exactly the part of the unbounded log after the cursor (so nothing that
  was evicted is missing from it), with EMPTY there is no later event in the unbounded log,
  and if a later event has been evicted the verdict is TOO_OLD.
\<close>

theorem since_never_skips:
  assumes "1 \<le> m" and "s = snd (run rp_append (new_replayer m) es)" and "h = full_log es"
  shows "rp_events s = drop (length h - nat m) h \<and>
    (rr_verdict (fst (since s (Some c))) = DELIVER \<longrightarrow>
       rr_events (fst (since s (Some c))) = filter (\<lambda>e. ev_id e > c) h) \<and>
    (rr_verdict (fst (since s (Some c))) = EMPTY \<longrightarrow> (\<forall>e\<in>set h. ev_id e \<le> c)) \<and>
    ((\<exists>e\<in>set (take (length h - nat m) h). ev_id e > c) \<longrightarrow>
       rr_verdict (fst (since s (Some c))) = TOO_OLD)"
proof -
  have r: "retains s h" using rp_append_full_log [OF assms(1)] assms(2,3) by simp
  have m: "max_retained s = m" by (simp add: session_max_retained assms(2) new_replayer_def)
  have "rp_events s = drop (length h - nat m) h" using r m by (simp add: retains_def)
  then show ?thesis
    using since_sound(1,2) [OF r, of c] evicted_too_old [OF r] m by (auto simp: filter_empty_conv not_less)
qed

text \<open>An identifier that is not contiguous with its predecessor makes the test of the code
  report an eviction that never happened: only one event was ever appended, it is retained,
  and a consumer at cursor 0 is told to restart.\<close>

lemma too_old_without_eviction:
  fixes e :: "nat event"
  defines "e \<equiv> \<lparr>ev_id = 10, ev_event = ''tok'', ev_payload = 0\<rparr>"
  defines "s \<equiv> snd (rp_append (new_replayer 1024) e)"
  shows "rr_verdict (fst (since s (Some 0))) = TOO_OLD \<and> evicted (rp_stats s) = 0 \<and> rp_events s = [e]"
  by (simp add: s_def e_def rp_append_def store_event_def new_replayer_def since_def zero_stats_def)

theorem since_never_skips_witness:
  "rr_events (fst (since (snd (run rp_append (new_replayer 2)
      [\<lparr>ev_id = 1, ev_event = ''a'', ev_payload = True\<rparr>, \<lparr>ev_id = 2, ev_event = ''a'', ev_payload = True\<rparr>,
       \<lparr>ev_id = 3, ev_event = ''a'', ev_payload = False\<rparr>])) (Some 2))) =
   [\<lparr>ev_id = 3, ev_event = ''a'', ev_payload = False\<rparr>]"
  (is "rr_events (fst (since (snd (run rp_append (new_replayer 2) ?es)) (Some 2))) = _")
proof -
  have "(1 :: int) \<le> 2" by simp
  note p = since_never_skips [OF this refl refl, of ?es 2]
  have "rr_verdict (fst (since (snd (run rp_append (new_replayer 2) ?es)) (Some 2))) = DELIVER"
    by (simp add: rp_append_def store_event_def new_replayer_def since_def zero_stats_def)
  then show ?thesis using p by (simp add: full_log_def log_append_def)
qed

end
