(* ===== verification/Sse_Cursor.thy ===== *)
theory Sse_Cursor
  imports Prelude
begin

text \<open>
  The consumer side of a resumable event stream (\<open>sse-reconnect-cursor/cursor.py\<close>): which
  received events are delivered, skipped or rejected, and when the client may reconnect.  The
  injected clock is read once by \<open>consider_reconnect\<close>; its reading is the argument \<open>now\<close>.
  Times are exact rationals.
\<close>

section \<open>State and operations\<close>

datatype event_verdict = Deliver | Skip_duplicate | Reject_rewind

datatype reconnect_verdict = Go | Wait | Give_up

datatype event_reason = Forward_progress | Already_delivered | Server_rewind int int

datatype reconnect_reason =
    Attempt_budget_exhausted nat int rat
  | Cooldown_or_server_retry_after
  | Within_budget

record event_decision =
  ed_verdict :: event_verdict
  new_last_event_id :: int
  ed_reason :: event_reason

record reconnect_decision =
  rd_verdict :: reconnect_verdict
  wait_s :: rat
  attempts_used :: nat
  attempts_remaining :: int
  rd_reason :: reconnect_reason

record cursor =
  max_attempts_per_window :: int
  window_s :: rat
  min_backoff_s :: rat
  last_event_id :: int
  cur_attempts :: "rat list"
  seen_tail :: "int list"
  seen_tail_cap :: int

datatype cursor_error = CursorTypeError | CursorValueError

definition new_cursor :: "int \<Rightarrow> rat \<Rightarrow> rat \<Rightarrow> cursor" where
  "new_cursor m w b =
     \<lparr>max_attempts_per_window = m, window_s = w, min_backoff_s = b, last_event_id = -1,
      cur_attempts = [], seen_tail = [], seen_tail_cap = 1024\<rparr>"

definition record_seen :: "cursor \<Rightarrow> int \<Rightarrow> cursor" where
  "record_seen s i =
     (let tail' = seen_tail s @ [i] in
      if int (length tail') > seen_tail_cap s
      then s\<lparr>seen_tail := drop (nat (int (length tail') - seen_tail_cap s)) tail'\<rparr>
      else s\<lparr>seen_tail := tail'\<rparr>)"

definition oldest_seen_id :: "cursor \<Rightarrow> int" where
  "oldest_seen_id s = (case seen_tail s of [] \<Rightarrow> -1 | i # _ \<Rightarrow> i)"

fun consider_event :: "cursor \<Rightarrow> pyval \<Rightarrow> (cursor_error, event_decision, cursor) outcome" where
  "consider_event s (PInt i) =
     (if i > last_event_id s then
        (Inr \<lparr>ed_verdict = Deliver, new_last_event_id = i, ed_reason = Forward_progress\<rparr>,
         record_seen (s\<lparr>last_event_id := i\<rparr>) i)
      else if i \<in> set (seen_tail s) \<or> i < oldest_seen_id s then
        (Inr \<lparr>ed_verdict = Skip_duplicate, new_last_event_id = last_event_id s, ed_reason = Already_delivered\<rparr>, s)
      else
        (Inr \<lparr>ed_verdict = Reject_rewind, new_last_event_id = last_event_id s,
              ed_reason = Server_rewind i (last_event_id s)\<rparr>, s))"
| "consider_event s _ = (Inl CursorTypeError, s)"

definition evict_old_attempts :: "cursor \<Rightarrow> rat \<Rightarrow> cursor" where
  "evict_old_attempts s now =
     s\<lparr>cur_attempts := dropWhile (\<lambda>a. \<not> a \<ge> now - window_s s) (cur_attempts s)\<rparr>"

definition reconnect_wait :: "cursor \<Rightarrow> rat \<Rightarrow> rat option \<Rightarrow> rat" where
  "reconnect_wait s now hint =
     (let wait = (if cur_attempts s \<noteq> [] then max 0 (min_backoff_s s - (now - last (cur_attempts s))) else 0)
      in case hint of None \<Rightarrow> wait | Some h \<Rightarrow> max wait h)"

definition consider_reconnect ::
  "cursor \<Rightarrow> rat \<times> rat option \<Rightarrow> (cursor_error, reconnect_decision, cursor) outcome" where
  "consider_reconnect s arg =
     (let (now, hint) = arg in
      if (case hint of None \<Rightarrow> False | Some h \<Rightarrow> h < 0) then (Inl CursorValueError, s)
      else
        let s1 = evict_old_attempts s now;
            used = length (cur_attempts s1);
            remaining = max_attempts_per_window s1 - int used in
        if remaining \<le> 0 then
          (Inr \<lparr>rd_verdict = Give_up, wait_s = 0, attempts_used = used, attempts_remaining = 0,
                rd_reason = Attempt_budget_exhausted used (max_attempts_per_window s1) (window_s s1)\<rparr>, s1)
        else
          let wait = reconnect_wait s1 now hint in
          if wait > 0 then
            (Inr \<lparr>rd_verdict = Wait, wait_s = wait, attempts_used = used, attempts_remaining = remaining,
                  rd_reason = Cooldown_or_server_retry_after\<rparr>, s1)
          else
            (Inr \<lparr>rd_verdict = Go, wait_s = 0, attempts_used = used + 1, attempts_remaining = remaining - 1,
                  rd_reason = Within_budget\<rparr>,
             s1\<lparr>cur_attempts := cur_attempts s1 @ [now]\<rparr>))"

section \<open>Delivery\<close>

text \<open>The identifiers a session delivered, in order.\<close>

definition delivered :: "(cursor_error + event_decision) list \<Rightarrow> int list" where
  "delivered rs = map new_last_event_id (filter (\<lambda>d. ed_verdict d = Deliver) (oks rs))"

lemma delivered_Cons [simp]:
  "delivered [] = []" "delivered (Inl e # rs) = delivered rs"
  "delivered (Inr d # rs) = (if ed_verdict d = Deliver then [new_last_event_id d] else []) @ delivered rs"
  by (simp_all add: delivered_def)

lemma delivered_append: "delivered (rs @ rs') = delivered rs @ delivered rs'"
  by (simp add: delivered_def)

definition tracks :: "cursor \<Rightarrow> int list \<Rightarrow> bool" where
  "tracks s d \<longleftrightarrow> sorted_wrt (<) (-1 # d) \<and> last_event_id s = last (-1 # d) \<and>
     1 \<le> seen_tail_cap s \<and> seen_tail s = drop (length d - nat (seen_tail_cap s)) d"

lemma sorted_wrt_less_last:
  "sorted_wrt (<) (xs :: int list) \<Longrightarrow> x \<in> set xs \<Longrightarrow> x \<le> last xs"
  by (induction xs) (auto simp: less_imp_le)

lemma consider_event_tracks:
  assumes "tracks s d"
  shows "tracks (snd (consider_event s v)) (d @ delivered [fst (consider_event s v)])"
proof (cases "\<exists>i. v = PInt i \<and> i > last_event_id s")
  case True
  then obtain i where v: "v = PInt i" and i: "i > last_event_id s" by blast
  let ?c = "nat (seen_tail_cap s)"
  have t: "sorted_wrt (<) (-1 # d)" "last_event_id s = last (-1 # d)" "?c \<ge> 1"
    "seen_tail s = drop (length d - ?c) d" "1 \<le> seen_tail_cap s"
    using assms by (auto simp: tracks_def)
  have "x < i" if "x \<in> set (-1 # d)" for x
    using sorted_wrt_less_last [OF t(1) that] t(2) i by linarith
  then have srt: "sorted_wrt (<) (-1 # d @ [i])"
    using t(1) by (auto simp: sorted_wrt_append)
  have "seen_tail (record_seen (s\<lparr>last_event_id := i\<rparr>) i) = drop (length (d @ [i]) - ?c) (d @ [i])"
    using t(3-5) by (cases "length d < ?c") (auto simp: record_seen_def Let_def Suc_diff_le nat_diff_distrib' intro!: arg_cong2 [of _ _ _ _ drop])
  then show ?thesis
    using v i srt t(5) by (simp add: tracks_def record_seen_def Let_def)
next
  case False
  then have "snd (consider_event s v) = s" "delivered [fst (consider_event s v)] = []"
    by (cases v; simp)+
  then show ?thesis using assms by simp
qed

lemma session_tracks:
  "tracks s d \<Longrightarrow> tracks (snd (run consider_event s vs)) (d @ delivered (fst (run consider_event s vs)))"
proof (induction vs arbitrary: s d)
  case (Cons v vs)
  show ?case
    using Cons.IH [OF consider_event_tracks [OF Cons.prems, of v]]
    unfolding run_Cons_split fst_conv snd_conv append_assoc delivered_append [symmetric] append_Cons append_Nil .
qed simp

lemma new_cursor_tracks: "tracks (new_cursor m w b) []"
  by (simp add: tracks_def new_cursor_def)

lemma tracked_verdict:
  assumes "tracks s d" and "d \<noteq> []"
  shows "\<exists>e. fst (consider_event s (PInt i)) = Inr e \<and> ed_verdict e =
    (if i > last d then Deliver
     else if i \<in> set d \<or> (\<forall>x\<in>set (drop (length d - nat (seen_tail_cap s)) d). i < x) then Skip_duplicate
     else Reject_rewind)"
proof -
  let ?k = "length d - nat (seen_tail_cap s)"
  have t: "sorted_wrt (<) d" "last_event_id s = last d" "seen_tail s = drop ?k d" "1 \<le> seen_tail_cap s"
    using assms by (auto simp: tracks_def)
  have "nat (seen_tail_cap s) \<ge> 1" using t(4) by simp
  then have "drop ?k d \<noteq> []" using assms(2) by (cases d) auto
  then obtain x xs where dk: "drop ?k d = x # xs" by (cases "drop ?k d") auto
  have "sorted_wrt (<) (take ?k d @ (x # xs))" using t(1) dk by (metis append_take_drop_id)
  then have xmin: "\<forall>y\<in>set (drop ?k d). x \<le> y" and before: "\<forall>y\<in>set (take ?k d). y < x"
    unfolding dk sorted_wrt_append by (auto intro: less_imp_le)
  have "i < x \<longleftrightarrow> (\<forall>y\<in>set (drop ?k d). i < y)" using xmin dk by auto
  moreover have "i \<in> set d \<longleftrightarrow> i \<in> set (take ?k d) \<or> i \<in> set (drop ?k d)"
    by (metis Un_iff append_take_drop_id set_append)
  ultimately have "i \<in> set (seen_tail s) \<or> i < oldest_seen_id s \<longleftrightarrow>
      i \<in> set d \<or> (\<forall>y\<in>set (drop ?k d). i < y)"
    using before t(3) dk by (auto simp: oldest_seen_id_def)
  then show ?thesis using t(2) by simp
qed

text \<open>
  Over any sequence of received events, duplicated, reordered or rewound, the delivered
  identifiers are strictly increasing (no event is handed to the consumer twice), the cursor is
  the last of them, and the next event is delivered exactly when it is newer, skipped when it
  was delivered or is older than the remembered tail, and rejected as a rewind exactly when it
  falls into the remembered range without having been delivered.
\<close>

theorem cursor_at_most_once:
  assumes "run consider_event (new_cursor m w b) vs = (rs, s)" and "d = delivered rs"
  shows "sorted_wrt (<) d \<and> last_event_id s = last (-1 # d) \<and>
    (d \<noteq> [] \<longrightarrow> (\<exists>e. fst (consider_event s (PInt i)) = Inr e \<and> ed_verdict e =
      (if i > last d then Deliver
       else if i \<in> set d \<or> (\<forall>x\<in>set (drop (length d - 1024) d). i < x) then Skip_duplicate
       else Reject_rewind)))"
proof -
  have t: "tracks s d"
    using session_tracks [OF new_cursor_tracks, of m w b vs] assms by simp
  have "seen_tail_cap (snd (consider_event t v)) = seen_tail_cap t" for t v
    by (cases "(t, v)" rule: consider_event.cases) (auto simp: record_seen_def Let_def)
  then have "seen_tail_cap (snd (run consider_event t vs)) = seen_tail_cap t" for t
    by (induction vs arbitrary: t) (simp_all add: case_prod_beta)
  from this [of "new_cursor m w b"] have "seen_tail_cap s = 1024"
    using assms(1) by (simp add: new_cursor_def)
  then have v: "d \<noteq> [] \<Longrightarrow> \<exists>e. fst (consider_event s (PInt i)) = Inr e \<and> ed_verdict e =
      (if i > last d then Deliver
       else if i \<in> set d \<or> (\<forall>x\<in>set (drop (length d - 1024) d). i < x) then Skip_duplicate
       else Reject_rewind)"
    using tracked_verdict [OF t, of i] by (simp only: nat_numeral not_False_eq_True simp_thms)
  have "sorted_wrt (<) d \<and> last_event_id s = last (-1 # d)" using t by (simp add: tracks_def)
  with v show ?thesis by blast
qed

theorem cursor_at_most_once_witness:
  "ed_verdict (projr (fst (consider_event (snd (run consider_event (new_cursor 3 60 1) [PInt 1, PInt 5, PInt 1])) (PInt 3)))) =
     Reject_rewind"
proof -
  obtain rs s where r: "run consider_event (new_cursor 3 60 1) [PInt 1, PInt 5, PInt 1] = (rs, s)"
    by (rule prod.exhaust)
  then have d: "delivered rs = [1, 5]"
    by (auto simp: new_cursor_def record_seen_def oldest_seen_id_def Let_def split: if_splits)
  from cursor_at_most_once [OF r refl, of 3] show ?thesis unfolding d r by auto
qed

section \<open>Reconnecting\<close>

text \<open>The times at which a session was allowed to reconnect.\<close>

fun go_times :: "(rat \<times> rat option) list \<Rightarrow> (cursor_error + reconnect_decision) list \<Rightarrow> rat list" where
  "go_times ((now, _) # as) (Inr d # rs) = (if rd_verdict d = Go then [now] else []) @ go_times as rs"
| "go_times (_ # as) (Inl _ # rs) = go_times as rs"
| "go_times _ _ = []"

text \<open>The remembered attempts are the reconnects that are still in the window; the forgotten
  ones are older than the window, and no budget has been exceeded so far.\<close>

definition paced :: "cursor \<Rightarrow> rat list \<Rightarrow> rat \<Rightarrow> bool" where
  "paced s g t \<longleftrightarrow>
     (\<exists>k. cur_attempts s = drop k g \<and> (\<forall>j<k. j < length g \<longrightarrow> g ! j < t - window_s s)) \<and>
     (\<forall>i. i + nat (max_attempts_per_window s) < length g \<longrightarrow>
        g ! i + window_s s < g ! (i + nat (max_attempts_per_window s))) \<and>
     (\<forall>i. Suc i < length g \<longrightarrow>
        g ! Suc i - g ! i \<ge> min_backoff_s s \<or> g ! Suc i - g ! i > window_s s)"

lemma evict_old_attempts_paced:
  assumes "paced s g t" and "t \<le> now"
  shows "paced (evict_old_attempts s now) g now"
proof -
  from assms(1) obtain k where k: "cur_attempts s = drop k g"
    and old: "\<And>j. j < k \<Longrightarrow> j < length g \<Longrightarrow> g ! j < t - window_s s" by (auto simp: paced_def)
  let ?P = "\<lambda>a. \<not> a \<ge> now - window_s s"
  let ?n = "length (takeWhile ?P (drop k g))"
  have "dropWhile ?P (drop k g) = drop (?n + k) g" by (simp add: dropWhile_eq_drop)
  moreover have "g ! j < now - window_s s" if j: "j < ?n + k" "j < length g" for j
  proof (cases "j < k")
    case True
    then show ?thesis using old [OF True j(2)] assms(2) by linarith
  next
    case False
    then have "j - k < ?n" using j by linarith
    then have "?P (takeWhile ?P (drop k g) ! (j - k))" 
      by (rule set_takeWhileD [THEN conjunct2, OF nth_mem])
    then have "?P (drop k g ! (j - k))" using takeWhile_nth [OF \<open>j - k < ?n\<close>] by simp
    then show ?thesis using False j by simp
  qed
  ultimately have "cur_attempts (evict_old_attempts s now) = drop (?n + k) g \<and>
      (\<forall>j<?n + k. j < length g \<longrightarrow> g ! j < now - window_s (evict_old_attempts s now))"
    using k by (simp add: evict_old_attempts_def)
  moreover have "window_s (evict_old_attempts s now) = window_s s"
    "max_attempts_per_window (evict_old_attempts s now) = max_attempts_per_window s"
    "min_backoff_s (evict_old_attempts s now) = min_backoff_s s"
    by (simp_all add: evict_old_attempts_def)
  ultimately show ?thesis using assms(1) unfolding paced_def by metis
qed

lemma go_paced:
  assumes "paced s g now" and room: "max_attempts_per_window s - int (length (cur_attempts s)) > 0"
    and wait: "\<not> reconnect_wait s now hint > 0"
  shows "paced (s\<lparr>cur_attempts := cur_attempts s @ [now]\<rparr>) (g @ [now]) now"
proof -
  let ?m = "nat (max_attempts_per_window s)"
  from assms(1) obtain k where k: "cur_attempts s = drop k g"
    and old: "\<And>j. j < k \<Longrightarrow> j < length g \<Longrightarrow> g ! j < now - window_s s"
    and rate: "\<And>i. i + ?m < length g \<Longrightarrow> g ! i + window_s s < g ! (i + ?m)"
    and gap: "\<And>i. Suc i < length g \<Longrightarrow> g ! Suc i - g ! i \<ge> min_backoff_s s \<or> g ! Suc i - g ! i > window_s s"
    by (auto simp: paced_def)
  define k' where "k' = min k (length g)"
  have k': "cur_attempts s @ [now] = drop k' (g @ [now])" "k' \<le> length g" "length g - k' < ?m"
    using k room by (auto simp: k'_def min_def)
  have old': "g ! j < now - window_s s" if "j < k'" for j using that old by (auto simp: k'_def)
  have "(g @ [now]) ! i + window_s s < (g @ [now]) ! (i + ?m)" if i: "i + ?m < length (g @ [now])" for i
  proof (cases "i + ?m < length g")
    case False
    then have "i < k'" "i + ?m = length g" using i k'(2,3) by auto
    then show ?thesis using old' [of i] k'(2) by (simp add: nth_append)
  qed (use rate [of i] in \<open>simp add: nth_append\<close>)
  moreover have "(g @ [now]) ! Suc i - (g @ [now]) ! i \<ge> min_backoff_s s \<or>
      (g @ [now]) ! Suc i - (g @ [now]) ! i > window_s s" if i: "Suc i < length (g @ [now])" for i
  proof (cases "Suc i < length g")
    case False
    then have il: "Suc i = length g" using i by simp
    show ?thesis
    proof (cases "i < k'")
      case True
      then show ?thesis using old' [OF True] il by (simp add: nth_append)
    next
      case False
      then have "k < length g" using il by (simp add: k'_def)
      then have "drop k g \<noteq> []" "last (drop k g) = last g" by simp_all
      moreover have "last g = g ! i" using il by (metis diff_Suc_1 last_conv_nth list.size(3) nat.distinct(1))
      ultimately have "drop k g \<noteq> []" "last (drop k g) = g ! i" by simp_all
      then have "min_backoff_s s - (now - g ! i) \<le> 0"
        using wait k by (cases hint) (auto simp: reconnect_wait_def Let_def max_def split: if_splits)
      then show ?thesis using il by (simp add: nth_append)
    qed
  qed (use gap [of i] in \<open>simp add: nth_append\<close>)
  moreover have "\<forall>j<k'. j < length (g @ [now]) \<longrightarrow> (g @ [now]) ! j < now - window_s s"
    using old' k'(2) by (auto simp: nth_append)
  ultimately show ?thesis using k'(1) by (auto simp: paced_def)
qed

lemma paced_mono: "paced s g t \<Longrightarrow> t \<le> t' \<Longrightarrow> paced s g t'"
  unfolding paced_def by (meson diff_right_mono less_le_trans)

lemma consider_reconnect_paced:
  assumes "paced s g t" and "t \<le> now"
  shows "paced (snd (consider_reconnect s (now, hint)))
      (g @ go_times [(now, hint)] [fst (consider_reconnect s (now, hint))]) now"
proof -
  have p: "paced (evict_old_attempts s now) g now" by (rule evict_old_attempts_paced [OF assms])
  show ?thesis
    using p go_paced [OF p] paced_mono [OF assms]
    by (simp add: consider_reconnect_def Let_def not_less split: option.splits)
qed

lemma go_times_Cons:
  "go_times (a # as) (r # rs) = go_times [a] [r] @ go_times as rs"
  by (cases a; cases r) simp_all

lemma session_paced:
  "paced s g t \<Longrightarrow> sorted (t # map fst as) \<Longrightarrow>
   \<exists>t'. paced (snd (run consider_reconnect s as)) (g @ go_times as (fst (run consider_reconnect s as))) t'"
proof (induction as arbitrary: s g t)
  case (Cons a as)
  obtain now hint where a: "a = (now, hint)" by (cases a)
  have "t \<le> now" "sorted (now # map fst as)" using Cons.prems(2) a by auto
  from Cons.IH [OF consider_reconnect_paced [OF Cons.prems(1) this(1)] this(2)]
  show ?case by (simp add: a case_prod_beta go_times_Cons [of "(now, hint)" as])
qed auto

lemma consider_reconnect_config:
  "max_attempts_per_window (snd (run consider_reconnect s as)) = max_attempts_per_window s \<and>
   window_s (snd (run consider_reconnect s as)) = window_s s \<and>
   min_backoff_s (snd (run consider_reconnect s as)) = min_backoff_s s"
proof -
  have "max_attempts_per_window (snd (consider_reconnect s a)) = max_attempts_per_window s \<and>
      window_s (snd (consider_reconnect s a)) = window_s s \<and>
      min_backoff_s (snd (consider_reconnect s a)) = min_backoff_s s" for s a
    by (cases a) (simp add: consider_reconnect_def evict_old_attempts_def Let_def)
  then show ?thesis by (induction as arbitrary: s) (simp_all add: case_prod_beta)
qed

text \<open>
  With a monotonic clock, the client never exceeds its reconnect budget: any
  \<open>max_attempts_per_window + 1\<close> consecutive permitted reconnects span more than \<open>window_s\<close>,
  and two consecutive ones are at least \<open>min_backoff_s\<close> apart, unless the earlier one has
  already left the window.
\<close>

theorem reconnect_budget_respected:
  assumes "sorted (map fst as)" and "g = go_times as (fst (run consider_reconnect (new_cursor m w b) as))"
  shows "(\<forall>i. i + nat m < length g \<longrightarrow> g ! (i + nat m) - g ! i > w) \<and>
    (\<forall>i. Suc i < length g \<longrightarrow> g ! Suc i - g ! i \<ge> b \<or> g ! Suc i - g ! i > w)"
proof (cases as)
  case (Cons a as')
  have "paced (new_cursor m w b) [] (fst a)" by (simp add: paced_def new_cursor_def)
  moreover have "sorted (fst a # map fst as)" using assms(1) Cons by simp
  ultimately obtain t' where
    "paced (snd (run consider_reconnect (new_cursor m w b) as)) g t'"
    using session_paced [of "new_cursor m w b" "[]" "fst a" as] assms(2) by auto
  then show ?thesis
    using consider_reconnect_config [of "new_cursor m w b" as]
    by (auto simp: paced_def new_cursor_def algebra_simps)
qed (use assms in simp)

theorem reconnect_budget_respected_witness:
  "go_times [(0, None), (1, None), (2, None), (20, None)]
     (fst (run consider_reconnect (new_cursor 2 10 1) [(0, None), (1, None), (2, None), (20, None)])) = [0, 1, 20] \<and>
   (20 :: rat) - 0 > 10"
proof -
  let ?as = "[(0, None), (1, None), (2, None), (20, None)] :: (rat \<times> rat option) list"
  have "sorted (map fst ?as)" by simp
  note p = reconnect_budget_respected [OF this refl, of 2 10 1]
  have "go_times ?as (fst (run consider_reconnect (new_cursor 2 10 1) ?as)) = [0, 1, 20]"
    by (simp add: consider_reconnect_def new_cursor_def evict_old_attempts_def reconnect_wait_def)
  then show ?thesis using p by (simp add: numeral_eq_Suc)
qed

text \<open>With a window shorter than the back-off the last attempt is forgotten before its
  cooldown ends, and the next reconnect is immediate.\<close>

lemma short_window_loses_cooldown:
  "go_times [(0, None), (2, None)] (fst (run consider_reconnect (new_cursor 5 1 30) [(0, None), (2, None)])) = [0, 2]"
  by (simp add: consider_reconnect_def new_cursor_def evict_old_attempts_def reconnect_wait_def)

end
