(* ===== verification/Sse_Resume.thy ===== *)
theory Sse_Resume
  imports Sse_Replayer Sse_Cursor
begin

text \<open>
  The producer (\<open>sse-event-replayer\<close>) and the consumer (\<open>sse-reconnect-cursor\<close>) of a
  resumable event stream together.  The two contracts are locales: a source that answers a
  cursor with the exact rest of its log or refuses, and a consumer that accepts newer
  identifiers and remembers the last one.  The exactly-once theorem is proved from the
  contracts; the interpretations discharge them for the models of the two templates.
\<close>

section \<open>The contracts\<close>

text \<open>
  \<open>holds s es\<close>: the source \<open>s\<close> was built by publishing the events \<open>es\<close>; \<open>ids es\<close> are the
  identifiers of its unbounded log, and \<open>ok\<close> admits events whose identifiers a new consumer's
  position \<open>-1\<close> precedes.  A reply is exact or refused (\<open>None\<close>).
\<close>

locale resumable_source =
  fixes holds :: "'s \<Rightarrow> 'e list \<Rightarrow> bool"
    and ok :: "'e \<Rightarrow> bool"
    and ids :: "'e list \<Rightarrow> int list"
    and publish :: "'s \<Rightarrow> 'e \<Rightarrow> 's"
    and reply :: "'s \<Rightarrow> int \<Rightarrow> int list option"
    and replied :: "'s \<Rightarrow> int \<Rightarrow> 's"
  assumes ids_sorted: "list_all ok es \<Longrightarrow> sorted_wrt (<) (-1 # ids es)"
    and ids_extend: "prefix (ids es) (ids (es @ [e]))"
    and publish_holds: "holds s es \<Longrightarrow> holds (publish s e) (es @ [e])"
    and reply_exact: "holds s es \<Longrightarrow> reply s c = Some xs \<Longrightarrow> xs = filter (\<lambda>i. c < i) (ids es)"
    and replied_holds: "holds s es \<Longrightarrow> holds (replied s c) es"

text \<open>\<open>took c d\<close>: the consumer has handed on \<open>d\<close>.  It hands on a run of newer identifiers whole.\<close>

locale cursor_consumer =
  fixes took :: "'c \<Rightarrow> int list \<Rightarrow> bool"
    and take_in :: "'c \<Rightarrow> int list \<Rightarrow> int list \<times> 'c"
    and pos :: "'c \<Rightarrow> int"
  assumes pos_last: "took c d \<Longrightarrow> pos c = last (-1 # d)"
    and took_newer: "took c d \<Longrightarrow> sorted_wrt (<) (pos c # xs) \<Longrightarrow> fst (take_in c xs) = xs \<and> took (snd (take_in c xs)) (d @ xs)"

text \<open>
  A session: events are published, and the consumer connects with its position and receives
  the first \<open>n\<close> events of the reply before the connection breaks.
\<close>

datatype 'e resume_action = Publish 'e | Connect nat

fun published :: "'e resume_action list \<Rightarrow> 'e list" where
  "published [] = []"
| "published (Publish e # as) = e # published as"
| "published (Connect n # as) = published as"

locale resume_session = resumable_source holds ok ids publish reply replied + cursor_consumer took take_in pos
  for holds :: "'s \<Rightarrow> 'e list \<Rightarrow> bool" and ok :: "'e \<Rightarrow> bool" and ids :: "'e list \<Rightarrow> int list" and publish :: "'s \<Rightarrow> 'e \<Rightarrow> 's"
    and reply :: "'s \<Rightarrow> int \<Rightarrow> int list option" and replied :: "'s \<Rightarrow> int \<Rightarrow> 's"
    and took :: "'c \<Rightarrow> int list \<Rightarrow> bool" and take_in :: "'c \<Rightarrow> int list \<Rightarrow> int list \<times> 'c" and pos :: "'c \<Rightarrow> int"
begin

fun step :: "'e resume_action \<Rightarrow> 's \<times> 'c \<Rightarrow> int list \<times> 's \<times> 'c" where
  "step (Publish e) (s, c) = ([], publish s e, c)"
| "step (Connect n) (s, c) =
     (case reply s (pos c) of
        None \<Rightarrow> ([], replied s (pos c), c)
      | Some xs \<Rightarrow> (fst (take_in c (take n xs)), replied s (pos c), snd (take_in c (take n xs))))"

fun go :: "'e resume_action list \<Rightarrow> 's \<times> 'c \<Rightarrow> int list \<times> 's \<times> 'c" where
  "go [] sc = ([], sc)"
| "go (a # as) sc = (let (d, sc1) = step a sc; (ds, sc2) = go as sc1 in (d @ ds, sc2))"

definition in_step :: "'e list \<Rightarrow> int list \<Rightarrow> 's \<times> 'c \<Rightarrow> bool" where
  "in_step es d sc \<longleftrightarrow> list_all ok es \<and> holds (fst sc) es \<and> took (snd sc) d \<and> prefix d (ids es)"

lemma prefix_sorted:
  assumes "list_all ok es" "ids es = d @ r"
  shows "sorted_wrt (<) (last (-1 # d) # r)" "filter (\<lambda>i. last (-1 # d) < i) (ids es) = r"
proof -
  have s: "sorted_wrt (<) ((-1 # d) @ r)" using ids_sorted [OF assms(1)] assms(2) by simp
  show r: "sorted_wrt (<) (last (-1 # d) # r)" using s by (cases d rule: rev_cases) (auto simp: sorted_wrt_append)
  have "x \<le> last (-1 # d)" if "x \<in> set d" for x
    using s that by (cases d rule: rev_cases) (auto simp: sorted_wrt_append less_imp_le)
  then have "filter (\<lambda>i. last (-1 # d) < i) d = []" by (auto simp: filter_empty_conv not_less)
  moreover have "filter (\<lambda>i. last (-1 # d) < i) r = r" using r by (simp add: filter_id_conv)
  ultimately show "filter (\<lambda>i. last (-1 # d) < i) (ids es) = r" using assms(2) by simp
qed

lemma connect_reply:
  assumes "in_step es d (s, c)" "reply s (pos c) = Some xs"
  shows "ids es = d @ xs" "fst (take_in c (take n xs)) = take n xs" "took (snd (take_in c (take n xs))) (d @ take n xs)"
proof -
  obtain r where k: "list_all ok es" and r: "ids es = d @ r" and h: "holds s es" and t: "took c d" using assms(1) by (auto simp: in_step_def prefix_def)
  have x: "xs = r" using reply_exact [OF h assms(2)] prefix_sorted(2) [OF k r] pos_last [OF t] by simp
  then show "ids es = d @ xs" using r by simp
  have "sorted_wrt (<) (pos c # take n xs @ drop n xs)" using prefix_sorted(1) [OF k r] pos_last [OF t] x by simp
  then have "sorted_wrt (<) (pos c # take n xs)" by (simp add: sorted_wrt_append del: append_take_drop_id)
  then show "fst (take_in c (take n xs)) = take n xs" "took (snd (take_in c (take n xs))) (d @ take n xs)"
    using took_newer [OF t] by blast+
qed

lemma step_in_step:
  assumes "in_step es d sc" "step a sc = (d', sc')" "list_all ok (published [a])"
  shows "in_step (es @ published [a]) (d @ d') sc'"
proof -
  obtain s c where sc: "sc = (s, c)" by (cases sc)
  have i: "holds s es" "took c d" "prefix d (ids es)" "list_all ok es" using assms(1) sc by (simp_all add: in_step_def)
  show ?thesis
  proof (cases a)
    case (Publish e)
    then show ?thesis using assms(2,3) sc i publish_holds prefix_order.trans [OF i(3) ids_extend] by (auto simp: in_step_def)
  next
    case (Connect n)
    show ?thesis
    proof (cases "reply s (pos c)")
      case None
      then show ?thesis using assms(2) sc i Connect replied_holds by (auto simp: in_step_def)
    next
      case (Some xs)
      note c = connect_reply(1) [OF assms(1) [unfolded sc] Some] connect_reply(2,3) [OF assms(1) [unfolded sc] Some, of n]
      have "prefix (d @ take n xs) (ids es)" unfolding c(1) by (simp add: take_is_prefix)
      then show ?thesis using assms(2) sc i(1,4) Connect Some c(2,3) replied_holds by (auto simp: in_step_def)
    qed
  qed
qed

lemma go_in_step:
  "in_step es d sc \<Longrightarrow> go as sc = (ds, sc') \<Longrightarrow> list_all ok (published as) \<Longrightarrow> in_step (es @ published as) (d @ ds) sc'"
proof (induction as arbitrary: es d sc ds)
  case (Cons a as)
  obtain d1 sc1 where st: "step a sc = (d1, sc1)" by (cases "step a sc")
  obtain ds2 where g: "go as sc1 = (ds2, sc')" "ds = d1 @ ds2" using Cons.prems(2) st by (auto split: prod.splits)
  have "published (a # as) = published [a] @ published as" by (cases a) simp_all
  then show ?case using Cons.IH [OF step_in_step [OF Cons.prems(1) st] g(1)] g(2) Cons.prems(3) by simp
qed simp

end

section \<open>The two templates meet the contracts\<close>

definition log_ids :: "'p event list \<Rightarrow> int list" where
  "log_ids es = map ev_id (full_log es)"

definition id_ok :: "'p event \<Rightarrow> bool" where
  "id_ok e \<longleftrightarrow> 0 \<le> ev_id e"

text \<open>The client treats DELIVER and EMPTY as answers; TOO_OLD and FUTURE_CURSOR need a resynchronisation.\<close>

definition rp_reply :: "'p replayer \<Rightarrow> int \<Rightarrow> int list option" where
  "rp_reply s c =
     (let r = fst (since s (Some c)) in
      if rr_verdict r \<in> {DELIVER, EMPTY} then Some (map ev_id (rr_events r)) else None)"

definition receive :: "cursor \<Rightarrow> int list \<Rightarrow> int list \<times> cursor" where
  "receive c is = (let (rs, c') = run consider_event c (map PInt is) in (delivered rs, c'))"

lemma full_log_snoc: "full_log (es @ [e]) = log_append (full_log es) e"
  by (simp add: full_log_def)

lemma full_log_Nil: "full_log [] = []"
  by (simp add: full_log_def)

lemma set_full_log: "set (full_log es) \<subseteq> set es"
  by (induction es rule: rev_induct) (auto simp: full_log_snoc log_append_def full_log_def)

lemma log_ids_sorted:
  assumes "list_all id_ok es"
  shows "sorted_wrt (<) (-1 # log_ids es)"
proof -
  have "increasing (full_log es)"
  proof (induction es rule: rev_induct)
    case Nil
    show ?case by (simp add: full_log_def increasing_def)
  qed (simp add: full_log_snoc log_append_increasing)
  moreover have "\<forall>e \<in> set (full_log es). 0 \<le> ev_id e" using assms set_full_log [of es] by (auto simp: list_all_iff id_ok_def)
  ultimately show ?thesis by (fastforce simp: log_ids_def increasing_def)
qed

lemma rp_reply_exact:
  assumes "retains s (full_log es)" "rp_reply s c = Some xs"
  shows "xs = filter (\<lambda>i. c < i) (log_ids es)"
proof -
  note so = since_sound [OF assms(1), of c]
  have m: "map ev_id (filter (\<lambda>e. c < ev_id e) h) = filter (\<lambda>i. c < i) (map ev_id h)" for h :: "'a event list"
    by (simp add: filter_map comp_def)
  have e: "rr_verdict (fst (since s (Some c))) = EMPTY \<Longrightarrow> rr_events (fst (since s (Some c))) = []"
    by (auto simp: since_def Let_def split: if_splits)
  show ?thesis using assms(2) so(1,2) e m [of "full_log es"] unfolding rp_reply_def log_ids_def
    by (auto simp: Let_def split: if_splits)
qed

lemma receive_newer:
  assumes "tracks c d" "sorted_wrt (<) (last_event_id c # xs)"
  shows "fst (receive c xs) = xs \<and> tracks (snd (receive c xs)) (d @ xs)"
proof -
  have d: "delivered (fst (run consider_event c (map PInt xs))) = xs" using assms(2)
  proof (induction xs arbitrary: c)
    case (Cons x xs)
    have "last_event_id (snd (consider_event c (PInt x))) = x" "delivered [fst (consider_event c (PInt x))] = [x]"
      using Cons.prems by (simp_all add: record_seen_def Let_def)
    moreover from this(1) have "delivered (fst (run consider_event (snd (consider_event c (PInt x))) (map PInt xs))) = xs"
      using Cons.prems by (intro Cons.IH) simp
    ultimately show ?case
      unfolding list.map run_Cons_split fst_conv by (subst delivered_append [of "[_]", simplified append_Cons append_Nil]) simp
  qed simp
  then show ?thesis using session_tracks [OF assms(1), of "map PInt xs"] by (simp add: receive_def case_prod_beta)
qed

interpretation sse: resume_session
  "\<lambda>s es. retains s (full_log es)" id_ok log_ids "\<lambda>s e. snd (rp_append s e)" rp_reply "\<lambda>s c. snd (since s (Some c))"
  tracks receive last_event_id
proof unfold_locales
  show "prefix (log_ids es) (log_ids (es @ [e]))" for es and e :: "'a event"
    by (simp add: log_ids_def full_log_snoc log_append_def)
  show "retains (snd (since s (Some c))) (full_log es)" if "retains s (full_log es)" for s es c
    using that by (simp add: retains_def since_frame)
  show "retains (snd (rp_append s e)) (full_log (es @ [e]))" if "retains s (full_log es)" for s es and e :: "'a event"
    using rp_append_retains [OF that] by (simp add: full_log_snoc)
qed (rule log_ids_sorted rp_reply_exact receive_newer; assumption | simp add: tracks_def)+

section \<open>Exactly once\<close>

text \<open>The session on the two models: the identifiers handed to the application, and the final states.\<close>

fun resume_run :: "'p event resume_action list \<Rightarrow> 'p replayer \<times> cursor \<Rightarrow> int list \<times> 'p replayer \<times> cursor" where
  "resume_run [] sc = ([], sc)"
| "resume_run (Publish e # as) (s, c) = resume_run as (snd (rp_append s e), c)"
| "resume_run (Connect n # as) (s, c) =
     (let (r, s') = since s (Some (last_event_id c)) in
      if rr_verdict r \<in> {DELIVER, EMPTY} then
        (let (rs, c') = run consider_event c (map (PInt \<circ> ev_id) (take n (rr_events r))); (ds, sc) = resume_run as (s', c') in
         (delivered rs @ ds, sc))
      else resume_run as (s', c))"

lemma connect_step:
  "sse.step (Connect n) (s, c) =
     (let (r, s') = since s (Some (last_event_id c)) in
      if rr_verdict r \<in> {DELIVER, EMPTY} then
        (let (rs, c') = run consider_event c (map (PInt \<circ> ev_id) (take n (rr_events r))) in (delivered rs, s', c'))
      else ([], s', c))"
proof -
  let ?r = "fst (since s (Some (last_event_id c)))"
  show ?thesis
  proof (cases "rr_verdict ?r \<in> {DELIVER, EMPTY}")
    case True
    then have "rp_reply s (last_event_id c) = Some (map ev_id (rr_events ?r))" by (simp add: rp_reply_def Let_def)
    then show ?thesis using True by (auto simp: receive_def case_prod_beta take_map Let_def)
  next
    case False
    then have "rp_reply s (last_event_id c) = None" by (simp add: rp_reply_def Let_def)
    then show ?thesis using False by (simp add: case_prod_beta)
  qed
qed

lemma resume_run_go: "resume_run as sc = sse.go as sc"
proof (induction as arbitrary: sc)
  case (Cons a as)
  obtain s c where sc: "sc = (s, c)" by (cases sc)
  show ?case
  proof (cases a)
    case (Publish e)
    then show ?thesis using Cons sc by (simp add: case_prod_beta)
  next
    case (Connect n)
    have "sse.go (a # as) sc = (let (d, sc1) = sse.step (Connect n) (s, c); (ds, sc2) = sse.go as sc1 in (d @ ds, sc2))"
      using Connect sc by (simp only: sse.go.simps)
    then show ?thesis using Cons Connect sc by (simp add: connect_step Let_def case_prod_beta del: sse.step.simps)
  qed
qed simp

lemma resume_in_step:
  assumes "1 \<le> m" "list_all id_ok (published as)" "resume_run as (new_replayer m, new_cursor k w b) = (ds, s, c)"
  shows "sse.in_step (published as) ds (s, c)"
proof -
  have "sse.in_step [] [] (new_replayer m, new_cursor k w b)"
    using new_replayer_retains [OF assms(1)] new_cursor_tracks by (simp add: sse.in_step_def full_log_Nil)
  from sse.go_in_step [OF this _ assms(2)] assms(3) show ?thesis by (simp add: resume_run_go)
qed

text \<open>
  C1.  Exactly-once delivery across reconnects: a consumer with the cursor of
  \<open>sse-reconnect-cursor\<close> resumes from a producer with the bounded log of
  \<open>sse-event-replayer\<close>, any number of times, with events published in between and
  connections that break after any number of events.  At every moment the identifiers handed to
  the application are a prefix of the producer's unbounded log: none is missing, repeated or
  out of order.  And whenever a further connection is answered, what it delivers is exactly the
  rest of that log, as much of it as arrives.
\<close>

theorem resume_exactly_once:
  assumes "1 \<le> m" "list_all id_ok (published as)"
    and "resume_run as (new_replayer m, new_cursor k w b) = (ds, s, c)"
  shows "prefix ds (log_ids (published as)) \<and>
    (case rp_reply s (last_event_id c) of
       None \<Rightarrow> fst (resume_run [Connect n] (s, c)) = []
     | Some xs \<Rightarrow> log_ids (published as) = ds @ xs \<and> fst (resume_run [Connect n] (s, c)) = take n xs)"
proof -
  have i: "sse.in_step (published as) ds (s, c)" using resume_in_step assms .
  then have p: "prefix ds (log_ids (published as))" by (simp add: sse.in_step_def)
  have g: "fst (resume_run [Connect n] (s, c)) = fst (sse.step (Connect n) (s, c))"
    by (simp add: resume_run_go case_prod_beta)
  show ?thesis
  proof (cases "rp_reply s (last_event_id c)")
    case None
    then show ?thesis using p g by simp
  next
    case (Some xs)
    then show ?thesis using p g sse.connect_reply(1) [OF i Some] sse.connect_reply(2) [OF i Some, of n] by simp
  qed
qed

theorem resume_exactly_once_witness:
  "\<exists>ds s c. resume_run [Publish \<lparr>ev_id = 0, ev_event = ''m'', ev_payload = True\<rparr>, Connect 1, Publish \<lparr>ev_id = 1, ev_event = ''m'', ev_payload = True\<rparr>]
      (new_replayer 8, new_cursor 3 60 1) = (ds, s, c) \<and> prefix ds [0, 1]"
proof -
  let ?as = "[Publish \<lparr>ev_id = 0, ev_event = ''m'', ev_payload = True\<rparr>, Connect 1, Publish \<lparr>ev_id = 1, ev_event = ''m'', ev_payload = True\<rparr>]"
  obtain ds s c where r: "resume_run ?as (new_replayer 8, new_cursor 3 60 1) = (ds, s, c)" by (metis prod_cases3)
  have "list_all id_ok (published ?as)" by (simp add: id_ok_def)
  moreover have "(1 :: int) \<le> 8" by simp
  ultimately have "prefix ds (log_ids (published ?as))" using resume_exactly_once [OF _ _ r, of 0] by blast
  then show ?thesis using r by (simp add: log_ids_def full_log_def log_append_def)
qed

end
