(* ===== verification/Circuit_Breaker.thy ===== *)
theory Circuit_Breaker
  imports Prelude
begin

text \<open>
  The per-tool circuit breaker (\<open>tool-call-circuit-breaker/bin/circuit_breaker.py\<close>): the
  state machine closed, open, half-open over a window of recent outcomes.  \<open>decide\<close> and
  \<open>record\<close> mutate the breaker state; here they return it.  Times and rates are exact rationals.
\<close>

section \<open>State and operations\<close>

record policy =
  window_size :: int
  min_calls :: int
  failure_rate_threshold :: rat
  cooldown_seconds :: rat
  probe_max_concurrent :: int
  probe_required_successes :: int

datatype bstate = Closed | Open | Half_open

record breaker =
  b_state :: bstate
  b_window :: "string list"
  opened_at :: rat
  probes_in_flight :: int
  consecutive_probe_successes :: int

definition new_breaker :: breaker where
  "new_breaker = \<lparr>b_state = Closed, b_window = [], opened_at = 0, probes_in_flight = 0,
                  consecutive_probe_successes = 0\<rparr>"

datatype decision_kind = Allow | Allow_probe | Denied_open

record decision =
  d_decision :: decision_kind
  d_state :: bstate
  d_tool :: string
  d_reason :: string
  d_cooldown_remaining :: "rat option"
  d_probes_in_flight :: "int option"
  d_failure_rate :: rat
  d_window_size :: nat

record transition =
  t_from :: bstate
  t_to :: bstate
  t_outcome :: string
  t_probe_successes :: "int option"
  t_failure_rate :: "rat option"
  t_window_size :: "nat option"

datatype breaker_error = OutcomeValueError string | PopFromEmptyDeque

definition failure_rate :: "string list \<Rightarrow> rat" where
  "failure_rate w =
     (if w = [] then 0 else of_nat (length (filter (\<lambda>x. x = ''failure'') w)) / of_nat (length w))"

definition half_open_if_due :: "policy \<Rightarrow> breaker \<Rightarrow> rat \<Rightarrow> breaker" where
  "half_open_if_due pol st now =
     (if b_state st = Open \<and> now - opened_at st \<ge> cooldown_seconds pol
      then st\<lparr>b_state := Half_open, probes_in_flight := 0, consecutive_probe_successes := 0\<rparr>
      else st)"

definition decide :: "policy \<Rightarrow> breaker \<Rightarrow> rat \<Rightarrow> string \<Rightarrow> decision \<times> breaker" where
  "decide pol st0 now tool =
     (let st = half_open_if_due pol st0 now;
          fr = py_round 3 (failure_rate (b_window st)); n = length (b_window st) in
      if b_state st = Open then
        (\<lparr>d_decision = Denied_open, d_state = Open, d_tool = tool, d_reason = ''cooldown_active'',
          d_cooldown_remaining = Some (py_round 3 (cooldown_seconds pol - (now - opened_at st))),
          d_probes_in_flight = None, d_failure_rate = fr, d_window_size = n\<rparr>, st)
      else if b_state st = Half_open then
        (if probes_in_flight st \<ge> probe_max_concurrent pol then
           (\<lparr>d_decision = Denied_open, d_state = Half_open, d_tool = tool, d_reason = ''probe_slots_exhausted'',
             d_cooldown_remaining = None, d_probes_in_flight = Some (probes_in_flight st),
             d_failure_rate = fr, d_window_size = n\<rparr>, st)
         else
           (\<lparr>d_decision = Allow_probe, d_state = Half_open, d_tool = tool, d_reason = ''probing_recovery'',
             d_cooldown_remaining = None, d_probes_in_flight = Some (probes_in_flight st + 1),
             d_failure_rate = fr, d_window_size = n\<rparr>, st\<lparr>probes_in_flight := probes_in_flight st + 1\<rparr>))
      else
        (\<lparr>d_decision = Allow, d_state = Closed, d_tool = tool, d_reason = ''breaker_closed'',
          d_cooldown_remaining = None, d_probes_in_flight = None, d_failure_rate = fr, d_window_size = n\<rparr>, st))"

fun popleft_to :: "int \<Rightarrow> string list \<Rightarrow> string list \<times> bool" where
  "popleft_to m [] = ([], 0 > m)"
| "popleft_to m (x # xs) = (if int (length (x # xs)) > m then popleft_to m xs else (x # xs, False))"

definition record_probe :: "policy \<Rightarrow> breaker \<Rightarrow> rat \<Rightarrow> string \<Rightarrow> transition \<times> breaker" where
  "record_probe pol st now outcome =
     (let st1 = st\<lparr>probes_in_flight := max 0 (probes_in_flight st - 1)\<rparr>;
          st2 = (if outcome = ''success'' then
                   (let k = consecutive_probe_successes st1 + 1 in
                    if k \<ge> probe_required_successes pol
                    then st1\<lparr>b_state := Closed, b_window := [], consecutive_probe_successes := 0\<rparr>
                    else st1\<lparr>consecutive_probe_successes := k\<rparr>)
                 else st1\<lparr>b_state := Open, opened_at := now, consecutive_probe_successes := 0\<rparr>)
      in (\<lparr>t_from = b_state st, t_to = b_state st2, t_outcome = outcome,
           t_probe_successes = Some (consecutive_probe_successes st2),
           t_failure_rate = None, t_window_size = None\<rparr>, st2))"

definition record_window ::
  "policy \<Rightarrow> breaker \<Rightarrow> rat \<Rightarrow> string \<Rightarrow> (breaker_error, transition, breaker) outcome" where
  "record_window pol st now outcome =
     (case popleft_to (window_size pol) (b_window st @ [outcome]) of
        (w, True) \<Rightarrow> (Inl PopFromEmptyDeque, st\<lparr>b_window := w\<rparr>)
      | (w, False) \<Rightarrow>
          let st1 = st\<lparr>b_window := w\<rparr>; fr = failure_rate w in
          if b_state st1 = Closed \<and> int (length w) \<ge> min_calls pol \<and> fr \<ge> failure_rate_threshold pol then
            (Inr \<lparr>t_from = Closed, t_to = Open, t_outcome = outcome, t_probe_successes = None,
                  t_failure_rate = Some (py_round 3 fr), t_window_size = Some (length w)\<rparr>,
             st1\<lparr>b_state := Open, opened_at := now\<rparr>)
          else
            (Inr \<lparr>t_from = Closed, t_to = Closed, t_outcome = outcome, t_probe_successes = None,
                  t_failure_rate = Some (py_round 3 fr), t_window_size = Some (length w)\<rparr>, st1))"

definition record_outcome ::
  "policy \<Rightarrow> breaker \<Rightarrow> rat \<Rightarrow> string \<Rightarrow> (breaker_error, transition, breaker) outcome" where
  "record_outcome pol st now outcome =
     (if outcome \<notin> {''success'', ''failure''} then (Inl (OutcomeValueError outcome), st)
      else if b_state st = Half_open then
        (case record_probe pol st now outcome of (t, st') \<Rightarrow> (Inr t, st'))
      else record_window pol st now outcome)"

section \<open>Traces\<close>

datatype bevent = Attempt rat string | Outcome rat string

fun event_time :: "bevent \<Rightarrow> rat" where
  "event_time (Attempt t _) = t"
| "event_time (Outcome t _) = t"

fun breaker_step :: "policy \<Rightarrow> breaker \<Rightarrow> bevent \<Rightarrow> (breaker_error, decision option, breaker) outcome" where
  "breaker_step pol st (Attempt now tool) = (case decide pol st now tool of (d, st') \<Rightarrow> (Inr (Some d), st'))"
| "breaker_step pol st (Outcome now oc) =
     (case record_outcome pol st now oc of (Inl e, st') \<Rightarrow> (Inl e, st') | (Inr _, st') \<Rightarrow> (Inr None, st'))"

abbreviation after :: "policy \<Rightarrow> breaker \<Rightarrow> bevent list \<Rightarrow> breaker" where
  "after pol st es \<equiv> snd (run (breaker_step pol) st es)"

lemma after_Cons: "after pol st (e # es) = after pol (snd (breaker_step pol st e)) es"
  by (simp add: case_prod_beta)

lemma after_append: "after pol st (es @ es') = after pol (after pol st es) es'"
  by (simp add: run_append)

lemmas breaker_defs = decide_def half_open_if_due_def record_outcome_def record_probe_def
  record_window_def Let_def

lemma step_outcome_snd:
  "snd (breaker_step pol st (Outcome now oc)) = snd (record_outcome pol st now oc)"
  by (simp split: prod.splits sum.splits)

lemma step_attempt_snd:
  "snd (breaker_step pol st (Attempt now tool)) = snd (decide pol st now tool)"
  by (simp split: prod.splits)

lemma record_window_open:
  "b_state st = Open \<Longrightarrow>
   b_state (snd (record_window pol st now oc)) = Open \<and> opened_at (snd (record_window pol st now oc)) = opened_at st"
  by (simp add: record_window_def Let_def split: prod.split bool.split)

lemma open_step:
  assumes "b_state st = Open" and "event_time e - opened_at st < cooldown_seconds pol"
  shows "b_state (snd (breaker_step pol st e)) = Open"
    and "opened_at (snd (breaker_step pol st e)) = opened_at st"
    and "fst (breaker_step pol st e) = Inr (Some d) \<Longrightarrow>
       d_decision d = Denied_open \<and> d_reason d = ''cooldown_active''"
proof -
  show "b_state (snd (breaker_step pol st e)) = Open" "opened_at (snd (breaker_step pol st e)) = opened_at st"
    using assms record_window_open [OF assms(1)]
    by (cases e; auto simp: step_outcome_snd step_attempt_snd decide_def half_open_if_due_def Let_def
        record_outcome_def simp del: breaker_step.simps)+
  show "fst (breaker_step pol st e) = Inr (Some d) \<Longrightarrow>
      d_decision d = Denied_open \<and> d_reason d = ''cooldown_active''"
    using assms by (cases e) (auto simp: decide_def half_open_if_due_def Let_def split: prod.splits sum.splits)
qed

text \<open>
  C30.  Isolation: while the breaker is open and the cooldown has not elapsed, every call
  attempt is denied and no outcome that still arrives (from calls let through before the trip)
  closes the breaker or extends its cooldown.
\<close>

theorem breaker_isolates:
  assumes "b_state st = Open" and "\<forall>e\<in>set es. event_time e - opened_at st < cooldown_seconds pol"
    and "Some d \<in> set (oks (fst (run (breaker_step pol) st es)))"
  shows "d_decision d = Denied_open \<and> b_state (after pol st es) = Open \<and>
    opened_at (after pol st es) = opened_at st"
proof -
  have "b_state (after pol st es) = Open \<and> opened_at (after pol st es) = opened_at st \<and>
    (\<forall>d. Some d \<in> set (oks (fst (run (breaker_step pol) st es))) \<longrightarrow> d_decision d = Denied_open)"
    using assms(1,2)
  proof (induction es arbitrary: st)
    case (Cons e es)
    have "event_time e - opened_at st < cooldown_seconds pol" using Cons.prems(2) by simp
    note o = open_step [OF Cons.prems(1) this]
    have "\<forall>e\<in>set es. event_time e - opened_at (snd (breaker_step pol st e')) < cooldown_seconds pol"
      if "e' = e" for e' using Cons.prems(2) o(2) that by simp
    note ih = Cons.IH [OF o(1) this [OF refl]]
    show ?case using ih o unfolding run_Cons_split fst_conv snd_conv
      by (cases "fst (breaker_step pol st e)") auto
  qed simp
  then show ?thesis using assms(3) by blast
qed

theorem breaker_isolates_witness:
  "b_state (after \<lparr>window_size = 4, min_calls = 1, failure_rate_threshold = 1 / 2, cooldown_seconds = 10,
       probe_max_concurrent = 1, probe_required_successes = 1\<rparr> (new_breaker\<lparr>b_state := Open\<rparr>)
     [Outcome 1 ''success'', Attempt 5 ''search'']) = Open"
proof -
  let ?p = "\<lparr>window_size = 4, min_calls = 1, failure_rate_threshold = 1 / 2, cooldown_seconds = 10,
       probe_max_concurrent = 1, probe_required_successes = 1\<rparr> :: policy"
  let ?s = "new_breaker\<lparr>b_state := Open\<rparr>" and ?es = "[Outcome 1 ''success'', Attempt 5 ''search'']"
  have "b_state ?s = Open" "\<forall>e\<in>set ?es. event_time e - opened_at ?s < cooldown_seconds ?p"
    by (simp_all add: new_breaker_def)
  moreover have "\<exists>d. Some d \<in> set (oks (fst (run (breaker_step ?p) ?s ?es)))"
    by (simp add: new_breaker_def decide_def half_open_if_due_def record_outcome_def record_window_def Let_def)
  ultimately show ?thesis using breaker_isolates [of ?s ?es ?p] by blast
qed

section \<open>Recovery\<close>

text \<open>The outcomes recorded in a trace (the ones \<open>record\<close> rejects with ValueError do not count).\<close>

fun outcomes :: "bevent list \<Rightarrow> string list" where
  "outcomes [] = []"
| "outcomes (Outcome _ oc # es) = (if oc \<in> {''success'', ''failure''} then oc # outcomes es else outcomes es)"
| "outcomes (Attempt _ _ # es) = outcomes es"

definition probed :: "policy \<Rightarrow> int \<Rightarrow> bevent list \<Rightarrow> bool" where
  "probed pol k zs \<longleftrightarrow> outcomes zs \<noteq> [] \<and> set (outcomes zs) = {''success''} \<and>
     k + int (length (outcomes zs)) \<ge> probe_required_successes pol"

definition recovers :: "policy \<Rightarrow> breaker \<Rightarrow> bevent list \<Rightarrow> bool" where
  "recovers pol st es \<longleftrightarrow>
     (\<exists>xs now tool zs rest. es = xs @ Attempt now tool # zs @ rest \<and>
        b_state (after pol st xs) = Open \<and> now - opened_at (after pol st xs) \<ge> cooldown_seconds pol \<and>
        probed pol 0 zs)"

lemma recovers_Cons:
  assumes "recovers pol (snd (breaker_step pol st e)) es" shows "recovers pol st (e # es)"
proof -
  from assms obtain xs now tool zs rest where "es = xs @ Attempt now tool # zs @ rest"
    "b_state (after pol (snd (breaker_step pol st e)) xs) = Open"
    "now - opened_at (after pol (snd (breaker_step pol st e)) xs) \<ge> cooldown_seconds pol" "probed pol 0 zs"
    unfolding recovers_def by blast
  then show ?thesis unfolding recovers_def
    by (intro exI [of _ "e # xs"] exI [of _ now] exI [of _ tool] exI [of _ zs] exI [of _ rest])
       (simp add: case_prod_beta)
qed

lemma half_open_attempt:
  assumes "b_state st = Half_open"
  shows "b_state (snd (decide pol st now tool)) = Half_open"
    "consecutive_probe_successes (snd (decide pol st now tool)) = consecutive_probe_successes st"
  using assms by (simp_all add: decide_def half_open_if_due_def Let_def)

lemma half_open_outcome:
  assumes "b_state st = Half_open"
  shows "oc \<notin> {''success'', ''failure''} \<Longrightarrow> snd (record_outcome pol st now oc) = st"
    and "b_state (snd (record_outcome pol st now ''failure'')) = Open"
    and "consecutive_probe_successes st + 1 < probe_required_successes pol \<Longrightarrow>
      b_state (snd (record_outcome pol st now ''success'')) = Half_open \<and>
      consecutive_probe_successes (snd (record_outcome pol st now ''success'')) = consecutive_probe_successes st + 1"
  using assms by (simp_all add: record_outcome_def record_probe_def Let_def)

lemma closing_from_open:
  assumes o: "b_state st = Open"
    and ih1: "b_state (snd (breaker_step pol st e)) = Open \<Longrightarrow> recovers pol (snd (breaker_step pol st e)) es"
    and ih2: "b_state (snd (breaker_step pol st e)) = Half_open \<Longrightarrow>
      (\<exists>zs rest. es = zs @ rest \<and> probed pol (consecutive_probe_successes (snd (breaker_step pol st e))) zs) \<or>
      recovers pol (snd (breaker_step pol st e)) es"
  shows "recovers pol st (e # es)"
proof (cases "b_state (snd (breaker_step pol st e)) = Open")
  case True
  then show ?thesis using recovers_Cons ih1 by blast
next
  case False
  then obtain now tool where e: "e = Attempt now tool" and due: "now - opened_at st \<ge> cooldown_seconds pol"
    using o record_window_open [OF o]
    by (cases e) (auto simp: step_outcome_snd step_attempt_snd decide_def half_open_if_due_def Let_def
        record_outcome_def simp del: breaker_step.simps split: if_splits)
  have h: "b_state (snd (breaker_step pol st e)) = Half_open"
    "consecutive_probe_successes (snd (breaker_step pol st e)) = 0"
    using o due e by (auto simp: step_attempt_snd decide_def half_open_if_due_def Let_def simp del: breaker_step.simps)
  from ih2 [OF h(1)] show ?thesis
  proof (elim disjE exE conjE)
    fix zs rest
    assume "es = zs @ rest" "probed pol (consecutive_probe_successes (snd (breaker_step pol st e))) zs"
    then show ?thesis unfolding recovers_def
      using o due e h by (intro exI [of _ "[]"] exI [of _ now] exI [of _ tool] exI [of _ zs] exI [of _ rest]) simp
  qed (rule recovers_Cons)
qed

definition phase :: "policy \<Rightarrow> int \<Rightarrow> bevent list \<Rightarrow> bool" where
  "phase pol k es \<longleftrightarrow> (\<exists>zs rest. es = zs @ rest \<and> probed pol k zs)"

lemma phase_skip: "phase pol k es \<Longrightarrow> outcomes [e] = [] \<Longrightarrow> phase pol k (e # es)"
proof -
  assume "phase pol k es" and e: "outcomes [e] = []"
  then obtain zs rest where z: "es = zs @ rest" "probed pol k zs" unfolding phase_def by blast
  have "outcomes (e # zs) = outcomes zs" using e by (cases e) (auto split: if_splits)
  then have "e # es = (e # zs) @ rest \<and> probed pol k (e # zs)" using z by (simp add: probed_def)
  then show ?thesis unfolding phase_def by blast
qed

lemma phase_success:
  assumes "phase pol (k + 1) es \<or> k + 1 \<ge> probe_required_successes pol"
  shows "phase pol k (Outcome now ''success'' # es)"
  using assms
proof
  assume "phase pol (k + 1) es"
  then obtain zs rest where z: "es = zs @ rest" "probed pol (k + 1) zs" unfolding phase_def by blast
  then have "Outcome now ''success'' # es = (Outcome now ''success'' # zs) @ rest \<and>
      probed pol k (Outcome now ''success'' # zs)" by (auto simp: probed_def)
  then show ?thesis unfolding phase_def by blast
next
  assume "k + 1 \<ge> probe_required_successes pol"
  then have "Outcome now ''success'' # es = [Outcome now ''success''] @ es \<and>
      probed pol k [Outcome now ''success'']" by (auto simp: probed_def)
  then show ?thesis unfolding phase_def by blast
qed

lemma closing_from_half_open:
  assumes h: "b_state st = Half_open"
    and ih1: "b_state (snd (breaker_step pol st e)) = Open \<Longrightarrow> recovers pol (snd (breaker_step pol st e)) es"
    and ih2: "b_state (snd (breaker_step pol st e)) = Half_open \<Longrightarrow>
      phase pol (consecutive_probe_successes (snd (breaker_step pol st e))) es \<or>
      recovers pol (snd (breaker_step pol st e)) es"
  shows "phase pol (consecutive_probe_successes st) (e # es) \<or> recovers pol st (e # es)"
proof -
  note ho = half_open_outcome [OF h]
  consider (attempt) now tool where "e = Attempt now tool"
    | (bad) now oc where "e = Outcome now oc" "oc \<notin> {''success'', ''failure''}"
    | (fail) now where "e = Outcome now ''failure''"
    | (ok) now where "e = Outcome now ''success''"
    by (cases e) auto
  then show ?thesis
  proof cases
    case attempt
    then have "outcomes [e] = []" by simp
    moreover have "b_state (snd (breaker_step pol st e)) = Half_open"
      "consecutive_probe_successes (snd (breaker_step pol st e)) = consecutive_probe_successes st"
      using half_open_attempt [OF h] attempt step_attempt_snd by simp_all
    ultimately show ?thesis using ih2 phase_skip recovers_Cons by metis
  next
    case bad
    then have "outcomes [e] = []" by simp
    moreover have "snd (breaker_step pol st e) = st" using ho(1) [OF bad(2)] bad(1) step_outcome_snd by simp
    ultimately show ?thesis using ih2 h phase_skip recovers_Cons by metis
  next
    case fail
    then have "b_state (snd (breaker_step pol st e)) = Open" using ho(2) step_outcome_snd by simp
    then show ?thesis using ih1 recovers_Cons by blast
  next
    case ok
    show ?thesis
    proof (cases "consecutive_probe_successes st + 1 < probe_required_successes pol")
      case True
      then have "b_state (snd (breaker_step pol st e)) = Half_open"
        "consecutive_probe_successes (snd (breaker_step pol st e)) = consecutive_probe_successes st + 1"
        using ho(3) ok step_outcome_snd by simp_all
      then show ?thesis using ih2 phase_success recovers_Cons ok by metis
    qed (use phase_success ok in auto)
  qed
qed

lemma closing_trace:
  assumes "b_state (after pol st es) = Closed"
  shows "(b_state st = Open \<longrightarrow> recovers pol st es) \<and>
    (b_state st = Half_open \<longrightarrow> phase pol (consecutive_probe_successes st) es \<or> recovers pol st es)"
  using assms
proof (induction es arbitrary: st)
  case (Cons e es)
  then have "b_state (after pol (snd (breaker_step pol st e)) es) = Closed" by (simp only: after_Cons)
  note ih = Cons.IH [OF this]
  show ?case
    using closing_from_open [of st pol e es] closing_from_half_open [of st pol e es] ih
    unfolding phase_def by blast
qed simp

text \<open>
  Recovery: an open breaker that is later closed has gone through a probing phase: an
  attempt at least \<open>cooldown_seconds\<close> after the (last) trip, followed by a stretch of the
  trace in which every recorded outcome is a success and there are at least
  \<open>probe_required_successes\<close> of them (and at least one).
\<close>

theorem breaker_recovery_needs_probes:
  assumes "b_state st = Open" and "b_state (after pol st es) = Closed"
  shows "\<exists>xs now tool zs rest. es = xs @ Attempt now tool # zs @ rest \<and>
    b_state (after pol st xs) = Open \<and> now - opened_at (after pol st xs) \<ge> cooldown_seconds pol \<and>
    outcomes zs \<noteq> [] \<and> set (outcomes zs) = {''success''} \<and>
    int (length (outcomes zs)) \<ge> probe_required_successes pol"
  using closing_trace [OF assms(2)] assms(1) by (simp add: recovers_def probed_def)

theorem breaker_recovery_needs_probes_witness:
  "\<exists>xs now tool zs rest. [Attempt 12 ''search'', Outcome 13 ''success''] = xs @ Attempt now tool # zs @ rest \<and>
    outcomes zs \<noteq> []"
proof -
  let ?p = "\<lparr>window_size = 4, min_calls = 1, failure_rate_threshold = 1 / 2, cooldown_seconds = 10,
       probe_max_concurrent = 1, probe_required_successes = 1\<rparr> :: policy"
  let ?s = "new_breaker\<lparr>b_state := Open\<rparr>" and ?es = "[Attempt 12 ''search'', Outcome 13 ''success'']"
  have "b_state ?s = Open" "b_state (after ?p ?s ?es) = Closed"
    by (simp_all add: new_breaker_def decide_def half_open_if_due_def record_outcome_def record_probe_def Let_def)
  from breaker_recovery_needs_probes [OF this] show ?thesis
    by (elim exE conjE) (intro exI conjI, assumption+)
qed

text \<open>An outcome recorded while the breaker is open is reported as the transition
  closed to closed.\<close>

lemma open_record_reports_closed:
  "t_from (projr (fst (record_outcome
     \<lparr>window_size = 4, min_calls = 1, failure_rate_threshold = 1 / 2, cooldown_seconds = 10,
       probe_max_concurrent = 1, probe_required_successes = 1\<rparr> (new_breaker\<lparr>b_state := Open\<rparr>) 1 ''failure''))) = Closed"
  by (simp add: new_breaker_def record_outcome_def record_window_def Let_def)

end
