(* ===== verification/Cache_Interface.thy ===== *)
theory Cache_Interface
  imports Prelude
begin

text \<open>
  The contract the expiring caches of the repository share.  A cache is read through a view:
  \<open>view s t k\<close> is what a lookup of \<open>k\<close> at time \<open>t\<close> returns.  \<open>cache_sound\<close> says that a cache
  never invents a value; \<open>cache_fresh\<close> that it never returns a value that has been
  overwritten.  Losing an entry (expiry, eviction) is always allowed.
\<close>

datatype ('k, 'v) cache_op = Lookup rat 'k | Store rat 'k 'v

fun op_time :: "('k, 'v) cache_op \<Rightarrow> rat" where
  "op_time (Lookup t _) = t"
| "op_time (Store t _ _) = t"

fun op_values :: "('k, 'v) cache_op \<Rightarrow> 'v list" where
  "op_values (Lookup _ _) = []"
| "op_values (Store _ _ v) = [v]"

fun cache_run ::
  "('s \<Rightarrow> rat \<Rightarrow> 'k \<Rightarrow> 's) \<Rightarrow> ('s \<Rightarrow> rat \<Rightarrow> 'k \<Rightarrow> 'v \<Rightarrow> 's) \<Rightarrow> 's \<Rightarrow> ('k, 'v) cache_op list \<Rightarrow> 's" where
  "cache_run touch store s [] = s"
| "cache_run touch store s (Lookup t k # ops) = cache_run touch store (touch s t k) ops"
| "cache_run touch store s (Store t k v # ops) = cache_run touch store (store s t k v) ops"

text \<open>The values stored under a key, in order.\<close>

fun stored_under :: "'k \<Rightarrow> ('k, 'v) cache_op list \<Rightarrow> 'v list" where
  "stored_under k [] = []"
| "stored_under k (Lookup _ _ # ops) = stored_under k ops"
| "stored_under k (Store _ k' v # ops) = (if k' = k then v # stored_under k ops else stored_under k ops)"

locale cache_sound =
  fixes inv :: "'s \<Rightarrow> bool"
    and legal :: "'v \<Rightarrow> bool"
    and touch :: "'s \<Rightarrow> rat \<Rightarrow> 'k \<Rightarrow> 's"
    and store :: "'s \<Rightarrow> rat \<Rightarrow> 'k \<Rightarrow> 'v \<Rightarrow> 's"
    and view :: "'s \<Rightarrow> rat \<Rightarrow> 'k \<Rightarrow> 'v option"
  assumes touch_inv: "inv s \<Longrightarrow> inv (touch s t k)"
    and store_inv: "inv s \<Longrightarrow> legal v \<Longrightarrow> inv (store s t k v)"
    and touch_view: "inv s \<Longrightarrow> t \<le> t' \<Longrightarrow> view (touch s t k) t' k' = Some v \<Longrightarrow> view s t' k' = Some v"
    and store_other: "inv s \<Longrightarrow> legal v \<Longrightarrow> t \<le> t' \<Longrightarrow> k \<noteq> k' \<Longrightarrow>
          view (store s t k v) t' k' = Some v' \<Longrightarrow> view s t' k' = Some v'"
    and store_same: "inv s \<Longrightarrow> legal v \<Longrightarrow> t \<le> t' \<Longrightarrow>
          view (store s t k v) t' k = Some v' \<Longrightarrow> v' = v \<or> view s t' k = Some v'"
begin

lemma run_inv:
  "inv s \<Longrightarrow> \<forall>p\<in>set ops. list_all legal (op_values p) \<Longrightarrow> inv (cache_run touch store s ops)"
proof (induction ops arbitrary: s)
  case (Cons p ops)
  then show ?case by (cases p) (auto simp: touch_inv store_inv)
qed simp

text \<open>Every value a session returns for a key was stored under that key, or was there before.\<close>

lemma run_view_stored:
  assumes "inv s" and "\<forall>p\<in>set ops. op_time p \<le> t' \<and> list_all legal (op_values p)"
    and "view (cache_run touch store s ops) t' k = Some v"
  shows "v \<in> set (stored_under k ops) \<or> view s t' k = Some v"
  using assms
proof (induction ops arbitrary: s)
  case (Cons p ops)
  show ?case
  proof (cases p)
    case (Lookup t k')
    then have "v \<in> set (stored_under k ops) \<or> view (touch s t k') t' k = Some v"
      using Cons by (auto simp: touch_inv)
    then show ?thesis using Lookup Cons.prems touch_view by fastforce
  next
    case (Store t k' w)
    then have ih: "v \<in> set (stored_under k ops) \<or> view (store s t k' w) t' k = Some v"
      using Cons by (auto simp: store_inv)
    have ok: "legal w" "t \<le> t'" using Cons.prems Store by auto
    show ?thesis
      using ih Store store_other [OF Cons.prems(1) ok, of k' k v] store_same [OF Cons.prems(1) ok, of k v]
      by (cases "k' = k") auto
  qed
qed simp

end

text \<open>A cache in which storing replaces what was stored before.\<close>

locale cache_fresh = cache_sound +
  assumes store_replaces: "inv s \<Longrightarrow> legal v \<Longrightarrow> t \<le> t' \<Longrightarrow>
      view (store s t k v) t' k = Some v' \<Longrightarrow> v' = v"
begin

lemma run_view_last:
  assumes "inv s" and "\<forall>p\<in>set ops. op_time p \<le> t' \<and> list_all legal (op_values p)"
    and "view (cache_run touch store s ops) t' k = Some v"
  shows "if stored_under k ops = [] then view s t' k = Some v else v = last (stored_under k ops)"
  using assms
proof (induction ops arbitrary: s)
  case (Cons p ops)
  show ?case
  proof (cases p)
    case (Lookup t k')
    then have "if stored_under k ops = [] then view (touch s t k') t' k = Some v else v = last (stored_under k ops)"
      using Cons.IH [of "touch s t k'"] Cons.prems by (simp add: touch_inv)
    moreover have "view (touch s t k') t' k = Some v \<Longrightarrow> view s t' k = Some v"
      using touch_view Cons.prems Lookup by auto
    ultimately show ?thesis using Lookup by (auto split: if_splits)
  next
    case (Store t k' w)
    then have ih: "if stored_under k ops = [] then view (store s t k' w) t' k = Some v
        else v = last (stored_under k ops)"
      using Cons.IH [of "store s t k' w"] Cons.prems by (simp add: store_inv)
    have ok: "legal w" "t \<le> t'" using Cons.prems Store by auto
    show ?thesis
      using ih Store store_other [OF Cons.prems(1) ok, of k' k v] store_replaces [OF Cons.prems(1) ok, of k v]
      by (cases "k' = k") (auto split: if_splits)
  qed
qed simp

end

end
