(* ===== verification/Embedding_Cache.thy ===== *)
theory Embedding_Cache
  imports Cache_Interface
begin

text \<open>
  The embedding cache with LRU, TTL and a size bound
  (\<open>embedding-cache-eviction/cache.py\<close>).  The \<open>OrderedDict\<close> is an association list, least
  recently used entry first; the clock reading of a call is its argument \<open>now\<close>.
\<close>

section \<open>State and operations\<close>

record ('k, 'v) ecache =
  ec_max :: int
  ec_ttl :: "rat option"
  ec_data :: "('k, 'v \<times> rat) dict"
  ec_hits :: nat
  ec_misses :: nat
  ec_expirations :: nat
  ec_evictions :: nat

datatype ecache_error = MaxEntriesValueError | TtlValueError

definition new_ecache :: "int \<Rightarrow> rat option \<Rightarrow> ecache_error + ('k, 'v) ecache" where
  "new_ecache m ttl =
     (if m \<le> 0 then Inl MaxEntriesValueError
      else if (case ttl of None \<Rightarrow> False | Some x \<Rightarrow> x \<le> 0) then Inl TtlValueError
      else Inr \<lparr>ec_max = m, ec_ttl = ttl, ec_data = [], ec_hits = 0, ec_misses = 0,
                ec_expirations = 0, ec_evictions = 0\<rparr>)"

definition ec_expired :: "('k, 'v) ecache \<Rightarrow> rat \<Rightarrow> rat \<Rightarrow> bool" where
  "ec_expired s ts now = (case ec_ttl s of None \<Rightarrow> False | Some ttl \<Rightarrow> now - ts > ttl)"

definition sweep_expired :: "('k, 'v) ecache \<Rightarrow> rat \<Rightarrow> ('k, 'v) ecache" where
  "sweep_expired s now =
     (case ec_ttl s of None \<Rightarrow> s
      | Some _ \<Rightarrow>
          let dead = map fst (filter (\<lambda>(k, v, ts). ec_expired s ts now) (ec_data s))
          in s\<lparr>ec_data := fold dict_del dead (ec_data s), ec_expirations := ec_expirations s + length dead\<rparr>)"

definition move_to_end :: "'k \<Rightarrow> ('k, 'a) dict \<Rightarrow> ('k, 'a) dict" where
  "move_to_end k d = (case dict_get d k of None \<Rightarrow> d | Some v \<Rightarrow> dict_del k d @ [(k, v)])"

definition ec_get :: "('k, 'v) ecache \<Rightarrow> rat \<Rightarrow> 'k \<Rightarrow> 'v option \<times> ('k, 'v) ecache" where
  "ec_get s now k =
     (case dict_get (ec_data s) k of
        None \<Rightarrow> (None, s\<lparr>ec_misses := ec_misses s + 1\<rparr>)
      | Some (v, ts) \<Rightarrow>
          if ec_expired s ts now then
            (None, s\<lparr>ec_data := dict_del k (ec_data s), ec_expirations := ec_expirations s + 1,
                     ec_misses := ec_misses s + 1\<rparr>)
          else (Some v, s\<lparr>ec_data := move_to_end k (ec_data s), ec_hits := ec_hits s + 1\<rparr>))"

text \<open>\<open>while len(self._data) > self._max: self._data.popitem(last=False)\<close>; as \<open>max_entries\<close> is
  positive the loop stops before the dictionary is empty.\<close>

fun evict_lru :: "int \<Rightarrow> ('k, 'a) dict \<Rightarrow> nat \<Rightarrow> ('k, 'a) dict \<times> nat" where
  "evict_lru m [] n = ([], n)"
| "evict_lru m (x # xs) n = (if int (length (x # xs)) > m then evict_lru m xs (Suc n) else (x # xs, n))"

definition ec_put :: "('k, 'v) ecache \<Rightarrow> rat \<Rightarrow> 'k \<Rightarrow> 'v \<Rightarrow> ('k, 'v) ecache" where
  "ec_put s now k v =
     (if dict_get (ec_data s) k \<noteq> None
      then s\<lparr>ec_data := move_to_end k (dict_set k (v, now) (ec_data s))\<rparr>
      else
        let s1 = sweep_expired s now;
            (d, n) = evict_lru (ec_max s1) (dict_set k (v, now) (ec_data s1)) (ec_evictions s1)
        in s1\<lparr>ec_data := d, ec_evictions := n\<rparr>)"

definition ec_len :: "('k, 'v) ecache \<Rightarrow> nat" where
  "ec_len s = length (ec_data s)"

definition ec_hit_ratio :: "('k, 'v) ecache \<Rightarrow> rat" where
  "ec_hit_ratio s =
     (let total = ec_hits s + ec_misses s in if total \<noteq> 0 then of_nat (ec_hits s) / of_nat total else 0)"

section \<open>The contract\<close>

definition ec_inv :: "('k, 'v) ecache \<Rightarrow> bool" where
  "ec_inv s \<longleftrightarrow> 0 < ec_max s \<and> dict_wf (ec_data s) \<and> int (length (ec_data s)) \<le> ec_max s"

definition ec_view :: "('k, 'v) ecache \<Rightarrow> rat \<Rightarrow> 'k \<Rightarrow> 'v option" where
  "ec_view s t k = (case dict_get (ec_data s) k of None \<Rightarrow> None
     | Some (v, ts) \<Rightarrow> if ec_expired s ts t then None else Some v)"

lemma move_to_end_props:
  assumes "dict_wf d"
  shows "dict_wf (move_to_end k d)" "dict_get (move_to_end k d) = dict_get d"
    "length (move_to_end k d) = length d"
proof -
  note len = length_dict_del_present [OF assms, of k]
  show "dict_wf (move_to_end k d)"
  proof (cases "dict_get d k")
    case (Some v)
    have "k \<notin> fst ` set (dict_del k d)" by (auto simp: dict_del_filter)
    then show ?thesis using Some dict_wf_del [OF assms, of k] by (simp add: move_to_end_def dict_wf_def)
  qed (use assms in \<open>simp add: move_to_end_def\<close>)
  show "length (move_to_end k d) = length d"
    using len by (simp add: move_to_end_def split: option.splits)
  show "dict_get (move_to_end k d) = dict_get d"
    by (auto simp: move_to_end_def map_add_def fun_eq_iff split: option.splits)
qed

lemma evict_lru_eq:
  assumes "0 \<le> m"
  shows "evict_lru m d n = (drop (length d - nat m) d, n + (length d - nat m))"
  using assms
proof (induction d arbitrary: n)
  case (Cons x d)
  then show ?case by (cases "int (length (x # d)) > m") (auto simp: Suc_diff_le nat_le_iff nat_less_iff)
qed simp

lemma sweep_expired_props:
  assumes "dict_wf (ec_data s)"
  shows "dict_wf (ec_data (sweep_expired s t))" "set (ec_data (sweep_expired s t)) \<subseteq> set (ec_data s)"
    "length (ec_data (sweep_expired s t)) \<le> length (ec_data s)" "ec_max (sweep_expired s t) = ec_max s"
    "ec_ttl (sweep_expired s t) = ec_ttl s"
  using assms by (auto simp: sweep_expired_def Let_def fold_dict_del dict_wf_filter split: option.splits)

lemma ec_expired_ttl: "ec_ttl s = ec_ttl s' \<Longrightarrow> ec_expired s = ec_expired s'"
  by (simp add: ec_expired_def fun_eq_iff)

lemma ec_get_config: "ec_ttl (snd (ec_get s t k)) = ec_ttl s" "ec_max (snd (ec_get s t k)) = ec_max s"
  by (simp_all add: ec_get_def split: option.splits)

lemma ec_get_inv: "ec_inv s \<Longrightarrow> ec_inv (snd (ec_get s t k))"
  using length_dict_del_le [of k "ec_data s"] move_to_end_props [of "ec_data s" k]
  by (auto simp: ec_inv_def ec_get_def split: option.splits)

lemma ec_put_config: "ec_ttl (ec_put s t k v) = ec_ttl s" "ec_max (ec_put s t k v) = ec_max s"
  by (auto simp: ec_put_def sweep_expired_def Let_def split: option.splits prod.splits)

lemma ec_put_new_data:
  assumes "ec_inv s" and "dict_get (ec_data s) k = None"
  shows "ec_data (ec_put s t k v) =
    (let d = dict_set k (v, t) (ec_data (sweep_expired s t)) in drop (length d - nat (ec_max s)) d)"
proof -
  have "0 \<le> ec_max (sweep_expired s t)" "ec_max (sweep_expired s t) = ec_max s"
    using assms(1) sweep_expired_props(4) [of s t] by (auto simp: ec_inv_def)
  then show ?thesis using assms(2) by (simp add: ec_put_def Let_def evict_lru_eq)
qed

lemma ec_put_inv: "ec_inv s \<Longrightarrow> ec_inv (ec_put s t k v)"
proof (cases "dict_get (ec_data s) k")
  case None
  assume i: "ec_inv s"
  then have "dict_wf (ec_data (ec_put s t k v))"
    using sweep_expired_props(1) [of s t] by (simp add: ec_put_new_data [OF i None] Let_def dict_wf_drop ec_inv_def)
  moreover have "length (ec_data (ec_put s t k v)) \<le> nat (ec_max s)"
    by (simp add: ec_put_new_data [OF i None] Let_def)
  ultimately show ?thesis using i by (simp add: ec_inv_def ec_put_config le_nat_iff)
next
  case (Some e)
  assume i: "ec_inv s"
  then have "length (dict_set k (v, t) (ec_data s)) = length (ec_data s)"
    using Some by (simp add: length_dict_set_present)
  then show ?thesis using i Some move_to_end_props [of "dict_set k (v, t) (ec_data s)" k]
    by (simp add: ec_put_def ec_inv_def)
qed

lemma ec_get_view:
  assumes "ec_inv s" "t \<le> t'" "ec_view (snd (ec_get s t k)) t' k' = Some v"
  shows "ec_view s t' k' = Some v"
proof -
  have "ec_expired (snd (ec_get s t k)) = ec_expired s" by (intro ec_expired_ttl ec_get_config)
  moreover have "dict_get (ec_data (snd (ec_get s t k))) k' = Some e \<Longrightarrow> dict_get (ec_data s) k' = Some e" for e
    using assms(1) move_to_end_props(2) [of "ec_data s" k]
    by (auto simp: ec_get_def ec_inv_def split: option.splits if_splits)
  ultimately show ?thesis using assms(3) by (auto simp: ec_view_def split: option.splits if_splits)
qed

lemma ec_put_get_other:
  assumes "ec_inv s" "k \<noteq> k'" "dict_get (ec_data (ec_put s t k v)) k' = Some e"
  shows "dict_get (ec_data s) k' = Some e"
proof (cases "dict_get (ec_data s) k")
  case None
  let ?d = "dict_set k (v, t) (ec_data (sweep_expired s t))"
  have wf: "dict_wf (ec_data s)" using assms(1) by (simp add: ec_inv_def)
  note sw = sweep_expired_props [OF wf, of t]
  have "dict_get ?d k' = Some e"
    using dict_get_sub [OF dict_wf_set [OF sw(1)] set_drop_subset] assms(3)
    by (simp add: ec_put_new_data [OF assms(1) None] Let_def)
  then show ?thesis using dict_get_sub [OF wf sw(2)] assms(2) by simp
next
  case (Some x)
  then show ?thesis
    using assms move_to_end_props(2) [of "dict_set k (v, t) (ec_data s)" k] by (simp add: ec_put_def ec_inv_def)
qed

lemma ec_put_get_same:
  assumes "ec_inv s"
  shows "dict_get (ec_data (ec_put s t k v)) k = Some (v, t)"
proof (cases "dict_get (ec_data s) k")
  case None
  have wf: "dict_wf (ec_data s)" and m: "0 < ec_max s" using assms by (simp_all add: ec_inv_def)
  note sw = sweep_expired_props [OF wf, of t]
  have "dict_get (ec_data (sweep_expired s t)) k = None"
    using None dict_get_sub [OF wf sw(2)] by (metis not_None_eq)
  then have "dict_set k (v, t) (ec_data (sweep_expired s t)) = ec_data (sweep_expired s t) @ [(k, v, t)]"
    by (rule dict_set_new)
  moreover have "nat (ec_max s) \<ge> 1" using m by simp
  ultimately have "(k, v, t) \<in> set (ec_data (ec_put s t k v))"
    by (simp add: ec_put_new_data [OF assms None] Let_def)
  moreover have "dict_wf (ec_data (ec_put s t k v))" using ec_put_inv [OF assms] by (simp add: ec_inv_def)
  ultimately show ?thesis by (simp add: dict_wf_def)
next
  case (Some x)
  then show ?thesis
    using assms move_to_end_props(2) [of "dict_set k (v, t) (ec_data s)" k] by (simp add: ec_put_def ec_inv_def)
qed

interpretation ec: cache_fresh ec_inv "\<lambda>_. True" "\<lambda>s t k. snd (ec_get s t k)" ec_put ec_view
proof unfold_locales
  fix s :: "('k, 'v) ecache" and t t' :: rat and k k' v v'
  assume i: "ec_inv s" and le: "t \<le> t'"
  have ex: "ec_expired (ec_put s t k v) = ec_expired s" by (intro ec_expired_ttl ec_put_config)
  show "k \<noteq> k' \<Longrightarrow> ec_view (ec_put s t k v) t' k' = Some v' \<Longrightarrow> ec_view s t' k' = Some v'"
    using ec_put_get_other [OF i, of k k' t v] ex by (auto simp: ec_view_def split: option.splits if_splits)
  show same: "ec_view (ec_put s t k v) t' k = Some v' \<Longrightarrow> v' = v"
    using ec_put_get_same [OF i, of t k v] by (simp add: ec_view_def split: if_splits)
  then show "ec_view (ec_put s t k v) t' k = Some v' \<Longrightarrow> v' = v \<or> ec_view s t' k = Some v'" by blast
  show "ec_view (snd (ec_get s t k)) t' k' = Some v \<Longrightarrow> ec_view s t' k' = Some v"
    by (rule ec_get_view [OF i le])
qed (simp_all add: ec_get_inv ec_put_inv)

lemma ec_get_is_view: "fst (ec_get s t k) = ec_view s t k"
  by (simp add: ec_get_def ec_view_def split: option.splits)

section \<open>Properties\<close>

text \<open>
  Over any session with a monotonic clock, the cache never holds more than
  \<open>max_entries\<close> entries, and a lookup that hits returns the vector of the last \<open>put\<close> of that
  key.
\<close>

theorem ecache_bounded_and_fresh:
  assumes "new_ecache m ttl = Inr s0" and "\<forall>p\<in>set ops. op_time p \<le> t"
    and "s = cache_run (\<lambda>s t k. snd (ec_get s t k)) ec_put s0 ops"
  shows "int (ec_len s) \<le> m \<and>
    (\<forall>v. fst (ec_get s t k) = Some v \<longrightarrow> stored_under k ops \<noteq> [] \<and> v = last (stored_under k ops))"
proof -
  have i0: "ec_inv s0" and m0: "ec_max s0 = m" and d0: "ec_data s0 = []"
    using assms(1) by (auto simp: new_ecache_def ec_inv_def split: if_splits)
  have "ec_max (cache_run (\<lambda>s t k. snd (ec_get s t k)) ec_put s' ops) = ec_max s'" for s' :: "('a, 'b) ecache"
  proof (induction ops arbitrary: s')
    case (Cons p ops)
    then show ?case by (cases p) (simp_all add: ec_get_config ec_put_config)
  qed simp
  then have "ec_max s = m" using m0 assms(3) by simp
  moreover have "ec_inv s" using ec.run_inv [OF i0, of ops] assms(3) by (simp add: list_all_iff)
  moreover have "stored_under k ops \<noteq> [] \<and> v = last (stored_under k ops)" if "fst (ec_get s t k) = Some v" for v
    using ec.run_view_last [OF i0, of ops t k v] that assms(2,3) d0
    by (auto simp: ec_get_is_view ec_view_def list_all_iff split: if_splits)
  ultimately show ?thesis by (auto simp: ec_inv_def ec_len_def)
qed

theorem ecache_bounded_and_fresh_witness:
  "\<exists>s0 :: (nat, nat) ecache. new_ecache 1 (Some 10) = Inr s0 \<and>
     int (ec_len (cache_run (\<lambda>s t k. snd (ec_get s t k)) ec_put s0 [Store 0 7 70, Store 1 8 80])) \<le> 1"
proof -
  obtain s0 :: "(nat, nat) ecache" where s0: "new_ecache 1 (Some 10) = Inr s0" by (simp add: new_ecache_def)
  have "\<forall>p\<in>set [Store 0 7 70, Store 1 8 80 :: (nat, nat) cache_op]. op_time p \<le> 2" by simp
  from ecache_bounded_and_fresh [OF s0 this refl] s0 show ?thesis by blast
qed

section \<open>Least recently used\<close>

text \<open>
  The specification of pure LRU: an unbounded recency list of all keys ever used, in which
  \<open>put\<close> and a hit move the key to the end; the cache holds its last \<open>n\<close> keys.
\<close>

definition lastn :: "nat \<Rightarrow> 'a list \<Rightarrow> 'a list" where
  "lastn n xs = drop (length xs - n) xs"

fun lru_spec :: "nat \<Rightarrow> 'k list \<Rightarrow> ('k, 'v) cache_op \<Rightarrow> 'k list" where
  "lru_spec n r (Lookup _ k) = (if k \<in> set (lastn n r) then removeAll k r @ [k] else r)"
| "lru_spec n r (Store _ k _) = removeAll k r @ [k]"

lemma lastn_cases:
  obtains a b where "r = a @ b" "lastn n r = b" "a = [] \<and> length b \<le> n \<or> length b = n"
proof
  show "r = take (length r - n) r @ drop (length r - n) r" by simp
qed (auto simp: lastn_def)

lemma lastn_move_present:
  assumes "distinct r" "k \<in> set (lastn n r)"
  shows "lastn n (removeAll k r @ [k]) = removeAll k (lastn n r) @ [k]"
proof (rule lastn_cases [of r n])
  fix a b assume r: "r = a @ b" and b: "lastn n r = b" and len: "a = [] \<and> length b \<le> n \<or> length b = n"
  have d: "k \<notin> set a" "k \<in> set b" "distinct b" using assms unfolding b by (auto simp: r)
  have "removeAll k r = a @ removeAll k b" using r d(1) by simp
  moreover have "Suc (length (removeAll k b)) = length b"
    using d(2,3) length_pos_if_in_set [OF d(2)]
    by (simp add: distinct_remove1_removeAll [symmetric] length_remove1)
  ultimately show ?thesis unfolding b using len by (auto simp: lastn_def)
qed

lemma lastn_move_absent:
  assumes "k \<notin> set (lastn n r)" "1 \<le> n"
  shows "lastn n (removeAll k r @ [k]) = lastn n (lastn n r @ [k])"
proof (rule lastn_cases [of r n])
  fix a b assume r: "r = a @ b" and b: "lastn n r = b" and len: "a = [] \<and> length b \<le> n \<or> length b = n"
  have "removeAll k r = removeAll k a @ b" using assms(1) unfolding b by (simp add: r)
  then show ?thesis unfolding b using assms(2) len by (auto simp: lastn_def)
qed

lemma distinct_removeAll_end: "distinct r \<Longrightarrow> distinct (removeAll k r @ [k])"
  by (simp add: removeAll_filter_not_eq)

definition lru_rel :: "('k, 'v) ecache \<Rightarrow> 'k list \<Rightarrow> bool" where
  "lru_rel s r \<longleftrightarrow> ec_inv s \<and> ec_ttl s = None \<and> distinct r \<and> map fst (ec_data s) = lastn (nat (ec_max s)) r"

lemma map_fst_dict_del: "map fst (dict_del k d) = removeAll k (map fst d)"
  by (induction d) auto

lemma map_fst_move: "dict_get d k \<noteq> None \<Longrightarrow> map fst (move_to_end k d) = removeAll k (map fst d) @ [k]"
  by (auto simp: move_to_end_def map_fst_dict_del)

lemma map_fst_set_present: "dict_get d k \<noteq> None \<Longrightarrow> map fst (dict_set k v d) = map fst d"
  by (induction d) (auto split: if_splits)

lemma dict_get_keys: "dict_get d k = None \<longleftrightarrow> k \<notin> set (map fst d)"
  by (simp add: map_of_eq_None_iff)

lemma ec_get_lru:
  assumes "lru_rel s r"
  shows "lru_rel (snd (ec_get s t k)) (lru_spec (nat (ec_max s)) r (Lookup t k))"
proof (cases "k \<in> set (map fst (ec_data s))")
  case True
  have i: "ec_inv s" "ec_ttl s = None" "distinct r" and keys: "map fst (ec_data s) = lastn (nat (ec_max s)) r"
    using assms by (auto simp: lru_rel_def)
  have present: "dict_get (ec_data s) k \<noteq> None" using True by (simp only: dict_get_keys) simp
  then have "ec_data (snd (ec_get s t k)) = move_to_end k (ec_data s)"
    using i(2) by (auto simp: ec_get_def ec_expired_def)
  then have "map fst (ec_data (snd (ec_get s t k))) = lastn (nat (ec_max s)) (removeAll k r @ [k])"
    using map_fst_move [OF present] lastn_move_present [OF i(3)] True keys by simp
  then show ?thesis
    using ec_get_inv [OF i(1), of t k] ec_get_config [of s t k] i True keys distinct_removeAll_end [OF i(3), of k]
    by (simp add: lru_rel_def)
next
  case False
  then have "dict_get (ec_data s) k = None" by (simp only: dict_get_keys) simp
  then show ?thesis using assms False by (simp add: lru_rel_def ec_get_def ec_inv_def)
qed

lemma ec_put_lru:
  assumes "lru_rel s r"
  shows "lru_rel (ec_put s t k v) (lru_spec (nat (ec_max s)) r (Store t k v))"
proof -
  have i: "ec_inv s" "ec_ttl s = None" "distinct r" and keys: "map fst (ec_data s) = lastn (nat (ec_max s)) r"
    using assms by (auto simp: lru_rel_def)
  have "map fst (ec_data (ec_put s t k v)) = lastn (nat (ec_max s)) (removeAll k r @ [k])"
  proof (cases "dict_get (ec_data s) k")
    case None
    then have out: "k \<notin> set (lastn (nat (ec_max s)) r)" using keys by (simp only: dict_get_keys) simp
    have "ec_data (ec_put s t k v) = lastn (nat (ec_max s)) (ec_data s @ [(k, v, t)])"
      using i(2) None by (simp add: ec_put_new_data [OF i(1) None] sweep_expired_def dict_set_new lastn_def)
    then have "map fst (ec_data (ec_put s t k v)) = lastn (nat (ec_max s)) (map fst (ec_data s) @ [k])"
      by (simp only: lastn_def drop_map [symmetric] map_append list.map fst_conv length_map length_append list.size)
    moreover have "1 \<le> nat (ec_max s)" using i(1) by (auto simp: ec_inv_def)
    ultimately show ?thesis using lastn_move_absent [OF out] keys by simp
  next
    case (Some e)
    then have "map fst (ec_data (ec_put s t k v)) = removeAll k (map fst (ec_data s)) @ [k]"
      by (simp add: ec_put_def map_fst_move map_fst_set_present)
    moreover have "k \<in> set (map fst (ec_data s))" using Some dict_get_keys [of "ec_data s" k] by auto
    ultimately show ?thesis using lastn_move_present [OF i(3)] keys by simp
  qed
  then show ?thesis
    using ec_put_inv [OF i(1)] i distinct_removeAll_end [OF i(3), of k] by (simp add: lru_rel_def ec_put_config)
qed

text \<open>
  Without a TTL the eviction is exactly least recently used: after any session the keys in
  the cache, from the next victim to the newest, are the last \<open>max_entries\<close> keys of the
  unbounded recency list, in which a write and a hit make a key the most recent and a miss
  changes nothing.
\<close>

theorem ecache_evicts_lru:
  assumes "new_ecache m None = Inr s0"
  shows "map fst (ec_data (cache_run (\<lambda>s t k. snd (ec_get s t k)) ec_put s0 ops)) =
    lastn (nat m) (foldl (lru_spec (nat m)) [] ops)"
proof -
  have step: "lru_rel s r \<Longrightarrow> ec_max s = m \<Longrightarrow>
      lru_rel (cache_run (\<lambda>s t k. snd (ec_get s t k)) ec_put s ops) (foldl (lru_spec (nat m)) r ops) \<and>
      ec_max (cache_run (\<lambda>s t k. snd (ec_get s t k)) ec_put s ops) = m" for s r
  proof (induction ops arbitrary: s r)
    case (Cons p ops)
    show ?case
    proof (cases p)
      case (Lookup t k)
      then show ?thesis using Cons.IH [OF ec_get_lru [OF Cons.prems(1), of t k]] Cons.prems(2) by (simp add: ec_get_config)
    next
      case (Store t k v)
      then show ?thesis using Cons.IH [OF ec_put_lru [OF Cons.prems(1), of t k v]] Cons.prems(2) by (simp add: ec_put_config)
    qed
  qed simp
  have "lru_rel s0 []" "ec_max s0 = m"
    using assms by (auto simp: new_ecache_def lru_rel_def ec_inv_def lastn_def split: if_splits)
  from step [OF this] show ?thesis by (simp add: lru_rel_def)
qed

theorem ecache_evicts_lru_witness:
  "\<exists>s0 :: (nat, nat) ecache. new_ecache 2 None = Inr s0 \<and>
     map fst (ec_data (cache_run (\<lambda>s t k. snd (ec_get s t k)) ec_put s0
       [Store 0 1 10, Store 1 2 20, Lookup 2 1, Store 3 3 30])) = [1, 3]"
proof -
  let ?ops = "[Store 0 1 10, Store 1 2 20, Lookup 2 1, Store 3 3 30] :: (nat, nat) cache_op list"
  obtain s0 :: "(nat, nat) ecache" where s0: "new_ecache 2 None = Inr s0" by (simp add: new_ecache_def)
  have "lastn (nat 2) (foldl (lru_spec (nat 2)) [] ?ops) = [1, 3]" by (simp add: lastn_def)
  with ecache_evicts_lru [OF s0, of ?ops] s0 show ?thesis by metis
qed

end
