(* ===== verification/Py_Json.thy ===== *)
theory Py_Json
  imports Prelude "HOL-Library.Char_ord" "HOL-Library.List_Lexorder"
begin

text \<open>
  The part of Python's \<open>json\<close> module the components use to build content keys:
  \<open>json.dumps(v, sort_keys=True, separators=(",", ":"))\<close> on values
  without floats, with \<open>ensure_ascii=False\<close> (\<open>dumps\<close>) and with the default \<open>ensure_ascii=True\<close> (\<open>dumps_ascii\<close>).
  The main result is that the text determines the value
  (\<open>dumps_inject\<close>, \<open>dumps_ascii_inject\<close>): no two values share a serialisation, whatever quotes, commas or control
  characters their strings contain.  Characters are the 256 HOL characters.
\<close>

datatype json =
    JNull
  | JBool bool
  | JInt int
  | JStr string
  | JArr "json list"
  | JObj "(string \<times> json) list"

section \<open>Decimal numbers\<close>

definition digit :: "nat \<Rightarrow> char" where
  "digit n = char_of (48 + n)"

definition is_digit :: "char \<Rightarrow> bool" where
  "is_digit c \<longleftrightarrow> 48 \<le> (of_char c :: nat) \<and> (of_char c :: nat) \<le> 57"

fun dec :: "nat \<Rightarrow> string" where
  "dec n = (if n < 10 then [digit n] else dec (n div 10) @ [digit (n mod 10)])"

declare dec.simps [simp del]

definition py_str_int :: "int \<Rightarrow> string" where
  "py_str_int i = (if i < 0 then CHR ''-'' # dec (nat (- i)) else dec (nat i))"

definition dec_value :: "string \<Rightarrow> nat" where
  "dec_value s = foldl (\<lambda>a c. 10 * a + ((of_char c :: nat) - 48)) 0 s"

lemma of_char_digit: "n < 10 \<Longrightarrow> (of_char (digit n) :: nat) = 48 + n"
  by (simp add: digit_def)

lemma is_digit_digit: "n < 10 \<Longrightarrow> is_digit (digit n)"
  by (simp add: is_digit_def of_char_digit)

lemma dec_digits: "list_all is_digit (dec n)"
  by (induction n rule: dec.induct) (subst dec.simps, auto simp: is_digit_digit)

lemma dec_nonempty: "dec n \<noteq> []"
  by (subst dec.simps) simp

lemma dec_value_dec: "dec_value (dec n) = n"
proof (induction n rule: dec.induct)
  case (1 n)
  show ?case
  proof (cases "n < 10")
    case True
    then show ?thesis by (simp add: dec.simps [of n] dec_value_def of_char_digit)
  next
    case False
    then show ?thesis using 1 by (simp add: dec.simps [of n] dec_value_def of_char_digit)
  qed
qed

definition stops_number :: "string \<Rightarrow> bool" where
  "stops_number r \<longleftrightarrow> (case r of [] \<Rightarrow> True | c # _ \<Rightarrow> \<not> is_digit c)"

lemma dec_inject:
  assumes "dec n @ r = dec m @ r'" "stops_number r" "stops_number r'"
  shows "n = m \<and> r = r'"
proof -
  have "takeWhile is_digit (dec k @ q) = dec k" if "stops_number q" for k q
    using dec_digits [of k] that
    by (cases q) (auto simp: stops_number_def list_all_iff takeWhile_append)
  then have "dec n = dec m" using assms by metis
  then show ?thesis using assms(1) dec_value_dec by (metis same_append_eq)
qed

lemma hd_dec: "is_digit (hd (dec n))"
  using dec_digits [of n] dec_nonempty [of n] by (cases "dec n") auto

lemma sign_hd: "hd (py_str_int i @ r) = CHR ''-'' \<longleftrightarrow> i < 0"
proof (cases "i < 0")
  case False
  then have "hd (py_str_int i @ r) = hd (dec (nat i))" using dec_nonempty [of "nat i"] by (simp add: py_str_int_def)
  moreover have "hd (dec (nat i)) \<noteq> CHR ''-''"
    using hd_dec [of "nat i"] by (rule contrapos_pn) (simp add: is_digit_def)
  ultimately show ?thesis using False by simp
qed (simp add: py_str_int_def)

lemma py_str_int_inject:
  assumes "py_str_int i @ r = py_str_int j @ r'" "stops_number r" "stops_number r'"
  shows "i = j \<and> r = r'"
proof -
  have "i < 0 \<longleftrightarrow> j < 0" using assms(1) sign_hd [of i r] sign_hd [of j r'] by simp
  then consider (neg) "i < 0" "j < 0" | (pos) "\<not> i < 0" "\<not> j < 0" by blast
  then show ?thesis
  proof cases
    case neg
    then have "dec (nat (- i)) @ r = dec (nat (- j)) @ r'" using assms(1) by (simp add: py_str_int_def)
    from dec_inject [OF this assms(2,3)] neg show ?thesis by (simp add: nat_eq_iff2)
  next
    case pos
    then have "dec (nat i) @ r = dec (nat j) @ r'" using assms(1) by (simp add: py_str_int_def)
    from dec_inject [OF this assms(2,3)] pos show ?thesis by (simp add: nat_eq_iff2)
  qed
qed

section \<open>Strings\<close>

definition hex_digit :: "nat \<Rightarrow> char" where
  "hex_digit n = (if n < 10 then char_of (48 + n) else char_of (87 + n))"

definition esc :: "char \<Rightarrow> string" where
  "esc c =
     (if c = CHR 0x22 then [CHR 0x5C, CHR 0x22]
      else if c = CHR 0x5C then [CHR 0x5C, CHR 0x5C]
      else if c = CHR 0x0A then [CHR 0x5C, CHR ''n'']
      else if c = CHR 0x0D then [CHR 0x5C, CHR ''r'']
      else if c = CHR 0x09 then [CHR 0x5C, CHR ''t'']
      else if c = CHR 0x08 then [CHR 0x5C, CHR ''b'']
      else if c = CHR 0x0C then [CHR 0x5C, CHR ''f'']
      else if (of_char c :: nat) < 32 then
        [CHR 0x5C, CHR ''u'', CHR ''0'', CHR ''0'',
         hex_digit ((of_char c :: nat) div 16), hex_digit ((of_char c :: nat) mod 16)]
      else [c])"

definition quote_str :: "string \<Rightarrow> string" where
  "quote_str s = CHR 0x22 # concat (map esc s) @ [CHR 0x22]"

definition hex_value :: "char \<Rightarrow> nat" where
  "hex_value c = (if (of_char c :: nat) < 58 then of_char c - 48 else of_char c - 87)"

lemma hex_value_digit: "n < 16 \<Longrightarrow> hex_value (hex_digit n) = n"
  by (simp add: hex_value_def hex_digit_def)

text \<open>Reading one escaped character back.\<close>

fun unesc :: "string \<Rightarrow> char \<times> string" where
  "unesc [] = (CHR 0x00, [])"
| "unesc (c # r) =
     (if c \<noteq> CHR 0x5C then (c, r)
      else case r of
        [] \<Rightarrow> (c, [])
      | e # r' \<Rightarrow>
          if e = CHR ''n'' then (CHR 0x0A, r') else if e = CHR ''r'' then (CHR 0x0D, r')
          else if e = CHR ''t'' then (CHR 0x09, r') else if e = CHR ''b'' then (CHR 0x08, r')
          else if e = CHR ''f'' then (CHR 0x0C, r')
          else if e = CHR ''u'' then
            (char_of (16 * hex_value (r' ! 2) + hex_value (r' ! 3)), drop 4 r')
          else (e, r'))"

lemma unesc_control:
  "unesc (CHR 0x5C # CHR ''u'' # CHR ''0'' # CHR ''0'' # h # l # r) = (char_of (16 * hex_value h + hex_value l), r)"
  by (simp add: numeral_2_eq_2 numeral_3_eq_3 numeral_eq_Suc del: of_char_of)

lemma unesc_esc: "unesc (esc c @ r) = (c, r)"
proof -
  consider (special) "c \<in> {CHR 0x22, CHR 0x5C, CHR 0x0A, CHR 0x0D, CHR 0x09, CHR 0x08, CHR 0x0C}"
    | (control) "c \<notin> {CHR 0x22, CHR 0x5C, CHR 0x0A, CHR 0x0D, CHR 0x09, CHR 0x08, CHR 0x0C}" "(of_char c :: nat) < 32"
    | (plain) "c \<notin> {CHR 0x22, CHR 0x5C, CHR 0x0A, CHR 0x0D, CHR 0x09, CHR 0x08, CHR 0x0C}" "\<not> (of_char c :: nat) < 32"
    by blast
  then show ?thesis
  proof cases
    case special
    then show ?thesis by (elim insertE emptyE) (simp_all add: esc_def)
  next
    case control
    define n where "n = (of_char c :: nat)"
    have n: "n < 32" "char_of n = c" using control(2) by (simp_all add: n_def)
    have "esc c @ r = CHR 0x5C # CHR ''u'' # CHR ''0'' # CHR ''0'' # hex_digit (n div 16) # hex_digit (n mod 16) # r"
      using control(1) n(1) by (simp add: esc_def n_def)
    moreover have "16 * hex_value (hex_digit (n div 16)) + hex_value (hex_digit (n mod 16)) = n"
      using n(1) by (simp add: hex_value_digit)
    ultimately show ?thesis using n(2) by (simp only: unesc_control)
  next
    case plain
    then show ?thesis by (simp add: esc_def)
  qed
qed

lemma esc_inject: "esc c @ r = esc d @ r' \<Longrightarrow> c = d \<and> r = r'"
  by (metis unesc_esc prod.inject)

lemma hd_esc: "\<exists>x xs. esc c = x # xs \<and> x \<noteq> CHR 0x22"
  by (auto simp: esc_def)

lemma esc_list_inject:
  "concat (map esc s) @ CHR 0x22 # r = concat (map esc s') @ CHR 0x22 # r' \<Longrightarrow> s = s' \<and> r = r'"
proof (induction s arbitrary: s')
  case Nil
  then show ?case
  proof (cases s')
    case (Cons c cs)
    then show ?thesis using Nil hd_esc [of c] by auto
  qed simp
next
  case (Cons c cs)
  show ?case
  proof (cases s')
    case Nil
    then show ?thesis using Cons.prems hd_esc [of c] by auto
  next
    case (Cons d ds)
    then have "esc c @ (concat (map esc cs) @ CHR 0x22 # r) = esc d @ (concat (map esc ds) @ CHR 0x22 # r')"
      using Cons.prems by simp
    from esc_inject [OF this] Cons.IH [of ds] Cons show ?thesis by simp
  qed
qed

lemma quote_str_inject: "quote_str s @ r = quote_str s' @ r' \<Longrightarrow> s = s' \<and> r = r'"
  using esc_list_inject [of s r s' r'] by (simp add: quote_str_def)

section \<open>Values\<close>

text \<open>The items of an array and of an object, separated by commas.\<close>

fun dumps :: "json \<Rightarrow> string" and dump_items :: "json list \<Rightarrow> string" and dump_fields :: "(string \<times> json) list \<Rightarrow> string" where
  "dumps JNull = ''null''"
| "dumps (JBool b) = (if b then ''true'' else ''false'')"
| "dumps (JInt i) = py_str_int i"
| "dumps (JStr s) = quote_str s"
| "dumps (JArr vs) = CHR ''['' # dump_items vs"
| "dumps (JObj fs) = CHR ''{'' # dump_fields fs"
| "dump_items [] = '']''"
| "dump_items (v # vs) = (if vs = [] then dumps v @ '']'' else dumps v @ CHR '','' # dump_items vs)"
| "dump_fields [] = ''}''"
| "dump_fields ((k, v) # fs) =
     (if fs = [] then quote_str k @ CHR '':'' # dumps v @ ''}''
      else quote_str k @ CHR '':'' # dumps v @ CHR '','' # dump_fields fs)"

text \<open>The first character of a serialisation tells the kind of the value.\<close>

lemma dumps_hd:
  "dumps v = (case v of JNull \<Rightarrow> CHR ''n'' # ''ull'' | JBool b \<Rightarrow> if b then CHR ''t'' # ''rue'' else CHR ''f'' # ''alse''
     | JInt i \<Rightarrow> hd (py_str_int i) # tl (py_str_int i) | JStr s \<Rightarrow> CHR 0x22 # concat (map esc s) @ [CHR 0x22]
     | JArr vs \<Rightarrow> CHR ''['' # dump_items vs | JObj fs \<Rightarrow> CHR ''{'' # dump_fields fs)"
  using dec_nonempty by (cases v) (auto simp: quote_str_def py_str_int_def)

lemma hd_int: "hd (py_str_int i) = CHR ''-'' \<or> is_digit (hd (py_str_int i))"
  using hd_dec by (simp add: py_str_int_def)

lemma kind_chars:
  "\<not> is_digit (CHR ''n'')" "\<not> is_digit (CHR ''t'')" "\<not> is_digit (CHR ''f'')" "\<not> is_digit (CHR 0x22)"
  "\<not> is_digit (CHR ''['')" "\<not> is_digit (CHR ''{'')" "\<not> is_digit (CHR '']'')" "\<not> is_digit (CHR ''}'')"
  "\<not> is_digit (CHR '','')"
  by (simp_all add: is_digit_def)

fun kind :: "json \<Rightarrow> nat" where
  "kind JNull = 0" | "kind (JBool b) = (if b then 1 else 2)" | "kind (JInt _) = 3" | "kind (JStr _) = 4"
| "kind (JArr _) = 5" | "kind (JObj _) = 6"

definition kind_of_char :: "char \<Rightarrow> nat" where
  "kind_of_char c = (if c = CHR ''n'' then 0 else if c = CHR ''t'' then 1 else if c = CHR ''f'' then 2
     else if c = CHR 0x22 then 4 else if c = CHR ''['' then 5 else if c = CHR ''{'' then 6 else 3)"

lemma kind_hd: "kind_of_char (hd (dumps v @ r)) = kind v"
proof (cases v)
  case (JInt i)
  have "hd (py_str_int i @ r) = hd (py_str_int i)" using dec_nonempty by (simp add: py_str_int_def)
  then show ?thesis using JInt hd_int [of i] kind_chars by (auto simp: kind_of_char_def)
qed (simp_all add: kind_of_char_def quote_str_def)

lemma dumps_same_kind: "dumps v @ r = dumps w @ r' \<Longrightarrow> kind v = kind w"
  by (metis kind_hd)

lemma dump_items_hd: "hd (dumps v @ r) \<noteq> CHR '']''" "hd (dumps v @ r) \<noteq> CHR ''}''"
proof -
  have "kind_of_char (hd (dumps v @ r)) = kind v" by (rule kind_hd)
  moreover have "is_digit (hd (dumps v @ r)) \<or> hd (dumps v @ r) = CHR ''-''" if k3: "kind v = 3"
  proof -
    obtain i where v: "v = JInt i" using k3 by (cases v) (auto split: if_splits)
    have "hd (py_str_int i @ r) = hd (py_str_int i)" using dec_nonempty by (simp add: py_str_int_def)
    then show ?thesis using hd_int [of i] v by auto
  qed
  moreover have "kind_of_char (CHR '']'') = 3" "kind_of_char (CHR ''}'') = 3" by (simp_all add: kind_of_char_def)
  ultimately show "hd (dumps v @ r) \<noteq> CHR '']''" "hd (dumps v @ r) \<noteq> CHR ''}''"
    using kind_chars by fastforce+
qed

lemma stops_chars: "stops_number (CHR '','' # r)" "stops_number (CHR '']'' # r)" "stops_number (CHR ''}'' # r)" "stops_number []"
  by (simp_all add: stops_number_def kind_chars)

lemma dump_items_Cons_hd: "hd (dump_items vs @ r) = CHR '']'' \<longleftrightarrow> vs = []"
  by (cases vs) (auto simp: dump_items_hd)

lemma dump_fields_Cons_hd: "hd (dump_fields fs @ r) = CHR ''}'' \<longleftrightarrow> fs = []"
  by (cases fs) (auto simp: quote_str_def split: if_splits)

lemma kindE:
  "kind w = 0 \<Longrightarrow> w = JNull" "kind w = 3 \<Longrightarrow> \<exists>i. w = JInt i" "kind w = 4 \<Longrightarrow> \<exists>s. w = JStr s"
  "kind w = 5 \<Longrightarrow> \<exists>vs. w = JArr vs" "kind w = 6 \<Longrightarrow> \<exists>fs. w = JObj fs"
  "kind w = (if b then 1 else 2) \<Longrightarrow> w = JBool b"
  by (cases w; simp split: if_splits)+

lemma dump_items_Cons:
  "dump_items (v # vs) @ r = dumps v @ (if vs = [] then CHR '']'' # r else CHR '','' # dump_items vs @ r)"
  by simp

lemma dump_fields_Cons:
  "dump_fields ((k, v) # fs) @ r =
     quote_str k @ CHR '':'' # dumps v @ (if fs = [] then CHR ''}'' # r else CHR '','' # dump_fields fs @ r)"
  by simp

lemma separator_tail:
  assumes "(if vs = [] then c # r else CHR '','' # x) = (if ws = [] then c # r' else CHR '','' # y)" and "c \<noteq> CHR '',''"
  shows "(vs = []) = (ws = [])" "vs = [] \<Longrightarrow> r = r'" "vs \<noteq> [] \<Longrightarrow> x = y"
  using assms by (auto split: if_splits)

lemma dumps_inject_rest:
  "dumps v @ r = dumps w @ r' \<Longrightarrow> stops_number r \<Longrightarrow> stops_number r' \<Longrightarrow> v = w \<and> r = r'"
  "dump_items vs @ r = dump_items ws @ r' \<Longrightarrow> vs = ws \<and> r = r'"
  "dump_fields fs @ r = dump_fields gs @ r' \<Longrightarrow> fs = gs \<and> r = r'"
proof (induction v and vs and fs arbitrary: w r r' and ws r r' and gs r r' rule: dumps_dump_items_dump_fields.induct)
  case 1
  have "w = JNull" using dumps_same_kind [OF 1(1)] kindE(1) by simp
  then show ?case using 1 by simp
next
  case (2 b)
  have "w = JBool b" using dumps_same_kind [OF 2(1)] kindE(6) by simp
  then show ?case using 2 by (simp split: if_splits)
next
  case (3 i)
  then obtain j where w: "w = JInt j" using dumps_same_kind [OF 3(1)] kindE(2) [of w] by auto
  then show ?case using py_str_int_inject [of i r j r'] 3 by simp
next
  case (4 s)
  then obtain s' where w: "w = JStr s'" using dumps_same_kind [OF 4(1)] kindE(3) [of w] by auto
  then show ?case using quote_str_inject [of s r s' r'] 4 by simp
next
  case (5 vs)
  then obtain ws where w: "w = JArr ws" using dumps_same_kind [OF 5(2)] kindE(4) [of w] by auto
  then show ?case using 5 by simp
next
  case (6 fs)
  then obtain gs where w: "w = JObj gs" using dumps_same_kind [OF 6(2)] kindE(5) [of w] by auto
  then show ?case using 6 by simp
next
  case 7
  have "hd (dump_items ws @ r') = CHR '']''" using 7 [symmetric] by simp
  then have "ws = []" by (simp only: dump_items_Cons_hd)
  then show ?case using 7 by simp
next
  case (8 v vs)
  have iv: "dumps v @ r = dumps w @ r' \<Longrightarrow> stops_number r \<Longrightarrow> stops_number r' \<Longrightarrow> v = w \<and> r = r'" for w r r'
    using 8(1,2) by (cases "vs = []") blast+
  have "hd (dump_items ws @ r') \<noteq> CHR '']''"
    unfolding "8.prems" [symmetric] dump_items_Cons_hd by simp
  then have "ws \<noteq> []" by (simp only: dump_items_Cons_hd simp_thms)
  then obtain w ws' where ws: "ws = w # ws'" by (cases ws) auto
  let ?q = "\<lambda>vs r. if vs = [] then CHR '']'' # r else CHR '','' # dump_items vs @ r"
  have q: "dumps v @ ?q vs r = dumps w @ ?q ws' r'" using "8.prems" unfolding ws dump_items_Cons .
  have st: "stops_number (?q vs r)" for vs r by (simp add: stops_chars)
  note e = iv [OF q st st, THEN conjunct1] iv [OF q st st, THEN conjunct2]
  have ne: "CHR '']'' \<noteq> CHR '',''" by simp
  note t = separator_tail [OF e(2) ne]
  have "vs = ws' \<and> r = r'"
  proof (cases "vs = []")
    case True
    then show ?thesis using t(1,2) by blast
  next
    case False
    then show ?thesis using 8(3) t(3) by blast
  qed
  then show ?case using e ws by simp
next
  case 9
  have "hd (dump_fields gs @ r') = CHR ''}''" using 9 [symmetric] by simp
  then have "gs = []" by (simp only: dump_fields_Cons_hd)
  then show ?case using 9 by simp
next
  case (10 k v fs)
  have iv: "dumps v @ r = dumps w @ r' \<Longrightarrow> stops_number r \<Longrightarrow> stops_number r' \<Longrightarrow> v = w \<and> r = r'" for w r r'
    using 10(1,2) by (cases "fs = []") blast+
  have "hd (dump_fields gs @ r') \<noteq> CHR ''}''"
    unfolding "10.prems" [symmetric] dump_fields_Cons_hd by simp
  then have "gs \<noteq> []" by (simp only: dump_fields_Cons_hd simp_thms)
  then obtain k' w gs' where gs: "gs = (k', w) # gs'" by (cases gs) auto
  let ?q = "\<lambda>vs r. if vs = [] then CHR ''}'' # r else CHR '','' # dump_fields vs @ r"
  have "quote_str k @ CHR '':'' # dumps v @ ?q fs r = quote_str k' @ CHR '':'' # dumps w @ ?q gs' r'"
    using "10.prems" unfolding gs dump_fields_Cons .
  note qi = quote_str_inject [OF this]
  have k: "k = k'" and q: "dumps v @ ?q fs r = dumps w @ ?q gs' r'"
    using qi [THEN conjunct1] qi [THEN conjunct2, unfolded list.inject, THEN conjunct2] .
  have st: "stops_number (?q vs r)" for vs r by (simp add: stops_chars)
  note e = iv [OF q st st, THEN conjunct1] iv [OF q st st, THEN conjunct2]
  have ne: "CHR ''}'' \<noteq> CHR '',''" by simp
  note t = separator_tail [OF e(2) ne]
  have "fs = gs' \<and> r = r'"
  proof (cases "fs = []")
    case True
    then show ?thesis using t(1,2) by blast
  next
    case False
    then show ?thesis using 10(3) t(3) by blast
  qed
  then show ?case using e gs k by simp
qed

text \<open>The text determines the value.\<close>

lemma dumps_inject: "dumps v = dumps w \<longleftrightarrow> v = w"
  using dumps_inject_rest(1) [of v "[]" w "[]"] by (auto simp: stops_chars)

section \<open>\<open>sort_keys=True\<close>\<close>

fun sort_json :: "json \<Rightarrow> json" where
  "sort_json (JArr vs) = JArr (map sort_json vs)"
| "sort_json (JObj fs) = JObj (sort_key fst (map (\<lambda>(k, v). (k, sort_json v)) fs))"
| "sort_json v = v"

definition dumps_sorted :: "json \<Rightarrow> string" where
  "dumps_sorted v = dumps (sort_json v)"

fun json_sorted :: "json \<Rightarrow> bool" where
  "json_sorted (JArr vs) \<longleftrightarrow> (\<forall>v\<in>set vs. json_sorted v)"
| "json_sorted (JObj fs) \<longleftrightarrow> sorted (map fst fs) \<and> (\<forall>(k, v)\<in>set fs. json_sorted v)"
| "json_sorted _ \<longleftrightarrow> True"

lemma sort_json_sorted: "json_sorted v \<Longrightarrow> sort_json v = v"
proof (induction v rule: sort_json.induct)
  case (2 fs)
  then have "map (\<lambda>(k, v). (k, sort_json v)) fs = fs" by (intro map_idI) fastforce
  then show ?case using 2(2) by (simp add: sort_key_id_if_sorted)
qed (auto intro: map_idI)

section \<open>\<open>ensure_ascii=True\<close>, the default\<close>

text \<open>Every character outside \<open>' '..'~'\<close> is escaped.\<close>

definition esc_ascii :: "char \<Rightarrow> string" where
  "esc_ascii c =
     (if (of_char c :: nat) \<ge> 127
      then [CHR 0x5C, CHR ''u'', CHR ''0'', CHR ''0'', hex_digit ((of_char c :: nat) div 16), hex_digit ((of_char c :: nat) mod 16)]
      else esc c)"

definition quote_ascii :: "string \<Rightarrow> string" where
  "quote_ascii s = CHR 0x22 # concat (map esc_ascii s) @ [CHR 0x22]"

fun dumps_ascii :: "json \<Rightarrow> string" and dump_items_ascii :: "json list \<Rightarrow> string"
  and dump_fields_ascii :: "(string \<times> json) list \<Rightarrow> string" where
  "dumps_ascii JNull = ''null''"
| "dumps_ascii (JBool b) = (if b then ''true'' else ''false'')"
| "dumps_ascii (JInt i) = py_str_int i"
| "dumps_ascii (JStr s) = quote_ascii s"
| "dumps_ascii (JArr vs) = CHR ''['' # dump_items_ascii vs"
| "dumps_ascii (JObj fs) = CHR ''{'' # dump_fields_ascii fs"
| "dump_items_ascii [] = '']''"
| "dump_items_ascii (v # vs) = (if vs = [] then dumps_ascii v @ '']'' else dumps_ascii v @ CHR '','' # dump_items_ascii vs)"
| "dump_fields_ascii [] = ''}''"
| "dump_fields_ascii ((k, v) # fs) =
     (if fs = [] then quote_ascii k @ CHR '':'' # dumps_ascii v @ ''}''
      else quote_ascii k @ CHR '':'' # dumps_ascii v @ CHR '','' # dump_fields_ascii fs)"

definition dumps_ascii_sorted :: "json \<Rightarrow> string" where
  "dumps_ascii_sorted v = dumps_ascii (sort_json v)"

text \<open>Reading the escapes of the characters from 127 on back gives the text without them, so this text too
  determines the value.\<close>

fun unascii :: "string \<Rightarrow> string" where
  "unascii [] = []"
| "unascii (c # r) =
     (if c \<noteq> CHR 0x5C then c # unascii r
      else case r of
        [] \<Rightarrow> [c]
      | e # q \<Rightarrow>
          if e = CHR ''u'' \<and> 16 * hex_value (q ! 2) + hex_value (q ! 3) \<ge> 127
          then char_of (16 * hex_value (q ! 2) + hex_value (q ! 3)) # unascii (drop 4 q)
          else c # e # unascii q)"

lemma unascii_plain: "CHR 0x5C \<notin> set s \<Longrightarrow> unascii (s @ r) = s @ unascii r"
  by (induction s) auto

lemma unascii_high:
  "16 * hex_value h + hex_value l \<ge> 127 \<Longrightarrow>
    unascii (CHR 0x5C # CHR ''u'' # CHR ''0'' # CHR ''0'' # h # l # r) = char_of (16 * hex_value h + hex_value l) # unascii r"
  by (simp add: numeral_2_eq_2 numeral_3_eq_3 numeral_eq_Suc del: of_char_of)

lemma unascii_low:
  "16 * hex_value h + hex_value l < 127 \<Longrightarrow> h \<noteq> CHR 0x5C \<Longrightarrow> l \<noteq> CHR 0x5C \<Longrightarrow>
    unascii (CHR 0x5C # CHR ''u'' # CHR ''0'' # CHR ''0'' # h # l # r) = CHR 0x5C # CHR ''u'' # CHR ''0'' # CHR ''0'' # h # l # unascii r"
  by (simp add: numeral_2_eq_2 numeral_3_eq_3 numeral_eq_Suc del: of_char_of)

lemma hex_digit_plain: "n < 16 \<Longrightarrow> hex_digit n \<noteq> CHR 0x5C"
proof -
  assume "n < 16"
  then have "(of_char (hex_digit n) :: nat) \<noteq> of_char (CHR 0x5C)" by (simp add: hex_digit_def)
  then show ?thesis by metis
qed

lemma unascii_esc: "unascii (esc_ascii c @ r) = esc c @ unascii r"
proof -
  define n where "n = (of_char c :: nat)"
  have n: "n < 256" "char_of n = c" by (simp_all add: n_def nat_of_char_less_256)
  then have d: "n div 16 < 16" by (simp add: less_mult_imp_div_less)
  have v: "16 * hex_value (hex_digit (n div 16)) + hex_value (hex_digit (n mod 16)) = n" using d by (simp add: hex_value_digit)
  consider (high) "n \<ge> 127" | (special) "c \<in> {CHR 0x22, CHR 0x5C, CHR 0x0A, CHR 0x0D, CHR 0x09, CHR 0x08, CHR 0x0C}"
    | (control) "c \<notin> {CHR 0x22, CHR 0x5C, CHR 0x0A, CHR 0x0D, CHR 0x09, CHR 0x08, CHR 0x0C}" "n < 32"
    | (plain) "c \<notin> {CHR 0x22, CHR 0x5C, CHR 0x0A, CHR 0x0D, CHR 0x09, CHR 0x08, CHR 0x0C}" "\<not> n < 32" "\<not> n \<ge> 127" by blast
  then show ?thesis
  proof cases
    case high
    have "esc_ascii c @ r = CHR 0x5C # CHR ''u'' # CHR ''0'' # CHR ''0'' # hex_digit (n div 16) # hex_digit (n mod 16) # r"
      using high by (simp add: esc_ascii_def n_def)
    moreover have "esc c = [c]"
    proof -
      have ne: "c \<noteq> d" if "(of_char d :: nat) < 127" for d using high that by (auto simp: n_def)
      have "c \<noteq> CHR 0x22" "c \<noteq> CHR 0x5C" "c \<noteq> CHR 0x0A" "c \<noteq> CHR 0x0D" "c \<noteq> CHR 0x09" "c \<noteq> CHR 0x08" "c \<noteq> CHR 0x0C"
        by (rule ne, simp)+
      then show ?thesis using high by (simp add: esc_def n_def)
    qed
    ultimately show ?thesis using high v n(2) by (simp only: unascii_high) simp
  next
    case special
    then show ?thesis by (elim insertE emptyE) (simp_all add: esc_def esc_ascii_def)
  next
    case control
    have e: "esc c = CHR 0x5C # CHR ''u'' # CHR ''0'' # CHR ''0'' # hex_digit (n div 16) # [hex_digit (n mod 16)]"
      "esc_ascii c = esc c" using control by (simp_all add: esc_def esc_ascii_def n_def)
    have "16 * hex_value (hex_digit (n div 16)) + hex_value (hex_digit (n mod 16)) < 127" using v control(2) by linarith
    from unascii_low [OF this] show ?thesis using e d by (simp add: hex_digit_plain)
  next
    case plain
    then show ?thesis by (auto simp: esc_def esc_ascii_def n_def)
  qed
qed

lemma unascii_quote: "unascii (quote_ascii s @ r) = quote_str s @ unascii r"
proof -
  have "unascii (concat (map esc_ascii s) @ r) = concat (map esc s) @ unascii r" for r
    by (induction s) (simp_all add: unascii_esc)
  then show ?thesis by (simp add: quote_ascii_def quote_str_def)
qed

lemma unascii_int: "unascii (py_str_int i @ r) = py_str_int i @ unascii r"
proof (rule unascii_plain)
  have "\<not> is_digit (CHR 0x5C)" by (simp add: is_digit_def)
  then have "CHR 0x5C \<notin> set (dec n)" for n using dec_digits [of n] by (auto simp: list_all_iff)
  then show "CHR 0x5C \<notin> set (py_str_int i)" by (simp add: py_str_int_def)
qed

lemma unascii_dumps:
  "unascii (dumps_ascii v @ r) = dumps v @ unascii r" "unascii (dump_items_ascii vs @ r) = dump_items vs @ unascii r"
  "unascii (dump_fields_ascii fs @ r) = dump_fields fs @ unascii r"
  by (induction v and vs and fs arbitrary: r and r and r rule: dumps_dump_items_dump_fields.induct)
     (auto simp: unascii_quote unascii_int)

lemma dumps_ascii_inject: "dumps_ascii v = dumps_ascii w \<longleftrightarrow> v = w"
  using unascii_dumps(1) [of v "[]"] unascii_dumps(1) [of w "[]"] dumps_inject [of v w] by auto

end
