(* ===== verification/Tool_Dedup.thy ===== *)
theory Tool_Dedup
  imports Py_Json Cache_Interface "HOL-Library.Multiset"
begin

text \<open>
  Deduplication of tool calls by a content key
  (\<open>tool-call-deduplication/dedup.py\<close>): the canonical form of the arguments, the key, and the
  cache of results within a time window.  SHA-256 is a parameter \<open>sha\<close> of the key (the
  composition of UTF-8 encoding, digest and hexadecimal form); the only thing the properties
  assume of it is that it does not collide on the two texts at hand.  The clock reading of a
  call is its argument \<open>now\<close>.
\<close>

section \<open>Canonical arguments\<close>

datatype dedup_error =
    FloatNotAllowed string rat
  | ToolNameValueError
  | CallIdValueError
  | WindowValueError

lemma size_list_sort_key [simp]: "size_list f (sort_key k xs) = size_list f xs"
proof -
  have "size_list f xs = sum_mset (image_mset f (mset xs)) + size (mset xs)" for xs
    by (induction xs) simp_all
  then show ?thesis by simp
qed

text \<open>
  \<open>_canonicalize\<close>: dictionaries are rebuilt in the order of their sorted keys, the first
  float met in that order raises with its path.
\<close>

function canonicalize :: "string \<Rightarrow> pyval \<Rightarrow> dedup_error + json"
  and canon_items :: "string \<Rightarrow> nat \<Rightarrow> pyval list \<Rightarrow> dedup_error + json list"
  and canon_fields :: "string \<Rightarrow> (string \<times> pyval) list \<Rightarrow> dedup_error + (string \<times> json) list" where
  "canonicalize path (PBool b) = Inr (JBool b)"
| "canonicalize path PNone = Inr JNull"
| "canonicalize path (PInt i) = Inr (JInt i)"
| "canonicalize path (PStr s) = Inr (JStr s)"
| "canonicalize path (PFloat r) = Inl (FloatNotAllowed path r)"
| "canonicalize path (PList vs) = map_sum id JArr (canon_items path 0 vs)"
| "canonicalize path (PDict kvs) = map_sum id JObj (canon_fields path (sort_key fst kvs))"
| "canon_items path i [] = Inr []"
| "canon_items path i (v # vs) =
     (case canonicalize (path @ ''['' @ dec i @ '']'') v of
        Inl e \<Rightarrow> Inl e
      | Inr j \<Rightarrow> map_sum id ((#) j) (canon_items path (Suc i) vs))"
| "canon_fields path [] = Inr []"
| "canon_fields path ((k, v) # kvs) =
     (case canonicalize (path @ ''.'' @ k) v of
        Inl e \<Rightarrow> Inl e
      | Inr j \<Rightarrow> map_sum id ((#) (k, j)) (canon_fields path kvs))"
  by pat_completeness auto
termination
  by (relation "measure (case_sum (\<lambda>(p, v). size v)
        (case_sum (\<lambda>(p, i, vs). size_list size vs) (\<lambda>(p, kvs). size_list (size_prod (\<lambda>_. 0) size) kvs)))")
     auto

definition identity_args :: "(string, pyval) dict \<Rightarrow> string list option \<Rightarrow> (string, pyval) dict" where
  "identity_args args ids =
     (case ids of
        None \<Rightarrow> args
      | Some fs \<Rightarrow> fold (\<lambda>k d. case dict_get args k of None \<Rightarrow> d | Some v \<Rightarrow> dict_set k v d) fs [])"

definition key_text :: "string \<Rightarrow> json \<Rightarrow> string" where
  "key_text tool args = dumps_sorted (JObj [(''tool'', JStr tool), (''args'', args)])"

definition dedup_key ::
  "(string \<Rightarrow> string) \<Rightarrow> string \<Rightarrow> (string, pyval) dict \<Rightarrow> string list option \<Rightarrow> dedup_error + string" where
  "dedup_key sha tool args ids =
     (if tool = [] then Inl ToolNameValueError
      else map_sum id (\<lambda>j. sha (key_text tool j)) (canonicalize ''$'' (PDict (identity_args args ids))))"

section \<open>The cache\<close>

record 'r dedup_entry =
  cached_at :: rat
  original_call_id :: string
  de_result :: 'r

record 'r dedup_cache =
  dc_window :: rat
  dc_store :: "(string, 'r dedup_entry) dict"
  dc_hits :: nat
  dc_misses :: nat
  dc_evictions :: nat

definition new_dedup_cache :: "rat \<Rightarrow> dedup_error + 'r dedup_cache" where
  "new_dedup_cache w =
     (if w \<le> 0 then Inl WindowValueError
      else Inr \<lparr>dc_window = w, dc_store = [], dc_hits = 0, dc_misses = 0, dc_evictions = 0\<rparr>)"

definition dc_lookup :: "'r dedup_cache \<Rightarrow> rat \<Rightarrow> string \<Rightarrow> 'r dedup_entry option \<times> 'r dedup_cache" where
  "dc_lookup s now k =
     (case dict_get (dc_store s) k of
        None \<Rightarrow> (None, s\<lparr>dc_misses := dc_misses s + 1\<rparr>)
      | Some e \<Rightarrow>
          if now - cached_at e > dc_window s then
            (None, s\<lparr>dc_store := dict_del k (dc_store s), dc_evictions := dc_evictions s + 1,
                     dc_misses := dc_misses s + 1\<rparr>)
          else (Some e, s\<lparr>dc_hits := dc_hits s + 1\<rparr>))"

definition dc_record ::
  "'r dedup_cache \<Rightarrow> rat \<Rightarrow> string \<Rightarrow> string \<Rightarrow> 'r \<Rightarrow> (dedup_error, unit, 'r dedup_cache) outcome" where
  "dc_record s now k call_id r =
     (if call_id = [] then (Inl CallIdValueError, s)
      else
        case dict_get (dc_store s) k of
          Some e \<Rightarrow>
            if original_call_id e = call_id then (Inr (), s)
            else (Inr (), s\<lparr>dc_store := dict_set k \<lparr>cached_at = now, original_call_id = call_id, de_result = r\<rparr> (dc_store s)\<rparr>)
        | None \<Rightarrow>
            (Inr (), s\<lparr>dc_store := dict_set k \<lparr>cached_at = now, original_call_id = call_id, de_result = r\<rparr> (dc_store s)\<rparr>))"

datatype 'r dedup_verdict = Execute string | Use_cached string "'r dedup_entry"

definition dc_decide ::
  "(string \<Rightarrow> string) \<Rightarrow> 'r dedup_cache \<Rightarrow> rat \<Rightarrow> string \<Rightarrow> (string, pyval) dict \<Rightarrow> string list option \<Rightarrow>
   (dedup_error, 'r dedup_verdict, 'r dedup_cache) outcome" where
  "dc_decide sha s now tool args ids =
     (case dedup_key sha tool args ids of
        Inl e \<Rightarrow> (Inl e, s)
      | Inr k \<Rightarrow>
          (case dc_lookup s now k of
             (None, s') \<Rightarrow> (Inr (Execute k), s')
           | (Some e, s') \<Rightarrow> (Inr (Use_cached k e), s')))"

record dedup_state =
  ds_entries :: nat
  ds_evictions :: nat
  ds_hits :: nat
  ds_misses :: nat
  ds_window_seconds :: rat

definition dc_state :: "'r dedup_cache \<Rightarrow> rat \<Rightarrow> dedup_state \<times> 'r dedup_cache" where
  "dc_state s now =
     (let expired = map fst (filter (\<lambda>(k, e). now - cached_at e > dc_window s) (dc_store s));
          s' = s\<lparr>dc_store := fold dict_del expired (dc_store s), dc_evictions := dc_evictions s + length expired\<rparr>
      in (\<lparr>ds_entries = length (dc_store s'), ds_evictions = dc_evictions s', ds_hits = dc_hits s',
           ds_misses = dc_misses s', ds_window_seconds = dc_window s'\<rparr>, s'))"

section \<open>Keys\<close>

lemma canonicalize_sorted:
  "canonicalize p v = Inr j \<Longrightarrow> json_sorted j"
  "canon_items p i vs = Inr js \<Longrightarrow> \<forall>j\<in>set js. json_sorted j"
  "canon_fields p kvs = Inr fs \<Longrightarrow> map fst fs = map fst kvs \<and> (\<forall>(k, j)\<in>set fs. json_sorted j)"
proof (induction p v and p i vs and p kvs arbitrary: j and js and fs rule: canonicalize_canon_items_canon_fields.induct)
  case (7 path kvs)
  then obtain fs where "canon_fields path (sort_key fst kvs) = Inr fs" "j = JObj fs"
    by (cases "canon_fields path (sort_key fst kvs)") auto
  then show ?case using 7(1) by auto
next
  case (6 path vs)
  then show ?case by (cases "canon_items path 0 vs") auto
next
  case (9 path i v vs)
  then show ?case
    by (cases "canon_items path (Suc i) vs") (auto split: sum.splits)
next
  case (11 path k v kvs)
  then show ?case by (cases "canon_fields path kvs") (fastforce split: sum.splits)+
qed auto

lemma key_text_inject:
  assumes "json_sorted a" "json_sorted b"
  shows "key_text t a = key_text u b \<longleftrightarrow> t = u \<and> a = b"
proof -
  have "key_text t a = dumps (JObj [(''args'', a), (''tool'', JStr t)])" if "json_sorted a" for t a
    using sort_json_sorted [OF that] by (simp add: key_text_def dumps_sorted_def)
  then have "key_text t a = dumps (JObj [(''args'', a), (''tool'', JStr t)])"
    "key_text u b = dumps (JObj [(''args'', b), (''tool'', JStr u)])" using assms by blast+
  then show ?thesis by (auto simp only: dumps_inject json.inject list.inject prod.inject)
qed

text \<open>The canonical form does not depend on the order in which a dictionary was built.\<close>

lemma sort_key_mset_unique:
  assumes "mset xs = mset ys" "distinct (map fst xs)"
  shows "sort_key fst xs = sort_key fst (ys :: (string \<times> 'a) list)"
  by (rule sort_key_inj_key_eq) (use assms in \<open>simp_all add: distinct_map\<close>)

lemma canonicalize_order:
  assumes "mset xs = mset ys" "distinct (map fst xs)"
  shows "canonicalize p (PDict xs) = canonicalize p (PDict ys)"
  using sort_key_mset_unique [OF assms] by simp

text \<open>
  C34.  Provided SHA-256 does not collide on the two texts that are hashed, two calls get the
  same key exactly when the tool is the same and the canonical forms of the identity
  arguments are the same; in particular the order in which the arguments were given does not
  matter.
\<close>

theorem dedup_key_identifies_calls:
  assumes "canonicalize ''$'' (PDict (identity_args args ids)) = Inr j"
    and "canonicalize ''$'' (PDict (identity_args args' ids')) = Inr j'"
    and "tool \<noteq> []" and "tool' \<noteq> []"
    and no_collision: "sha (key_text tool j) = sha (key_text tool' j') \<Longrightarrow> key_text tool j = key_text tool' j'"
  shows "(dedup_key sha tool args ids = dedup_key sha tool' args' ids' \<longleftrightarrow> tool = tool' \<and> j = j') \<and>
    (dict_wf args \<and> mset args = mset args'' \<longrightarrow> dedup_key sha tool args'' None = dedup_key sha tool args None)"
proof -
  have "json_sorted j" "json_sorted j'" using canonicalize_sorted(1) assms(1,2) by blast+
  from key_text_inject [OF this]
  have eq: "dedup_key sha tool args ids = dedup_key sha tool' args' ids' \<longleftrightarrow> tool = tool' \<and> j = j'"
    using assms by (auto simp: dedup_key_def)
  have "canonicalize ''$'' (PDict args'') = canonicalize ''$'' (PDict args)"
    if "dict_wf args" "mset args = mset args''"
    using canonicalize_order [OF that(2)] that(1) by (simp add: dict_wf_def)
  then have "dict_wf args \<and> mset args = mset args'' \<longrightarrow> dedup_key sha tool args'' None = dedup_key sha tool args None"
    by (simp add: dedup_key_def identity_args_def)
  with eq show ?thesis by blast
qed

theorem dedup_key_identifies_calls_witness:
  "dedup_key id ''read'' [(''path'', PStr ''a''), (''n'', PInt 1)] (Some [''path'']) \<noteq>
   dedup_key id ''read'' [(''path'', PStr ''b'')] (Some [''path''])"
proof -
  have "canonicalize ''$'' (PDict (identity_args [(''path'', PStr ''a''), (''n'', PInt 1)] (Some [''path'']))) =
      Inr (JObj [(''path'', JStr ''a'')])"
    "canonicalize ''$'' (PDict (identity_args [(''path'', PStr ''b'')] (Some [''path'']))) =
      Inr (JObj [(''path'', JStr ''b'')])"
    by (simp_all add: identity_args_def)
  from dedup_key_identifies_calls [OF this, of "''read''" "''read''" id] show ?thesis by simp
qed

section \<open>The cache contract\<close>

definition dc_view :: "'r dedup_cache \<Rightarrow> rat \<Rightarrow> string \<Rightarrow> (string \<times> 'r) option" where
  "dc_view s t k = (case dict_get (dc_store s) k of None \<Rightarrow> None
     | Some e \<Rightarrow> if t - cached_at e > dc_window s then None else Some (original_call_id e, de_result e))"

definition dc_put :: "'r dedup_cache \<Rightarrow> rat \<Rightarrow> string \<Rightarrow> string \<times> 'r \<Rightarrow> 'r dedup_cache" where
  "dc_put s t k v = snd (dc_record s t k (fst v) (snd v))"

lemma dc_lookup_store:
  "dc_window (snd (dc_lookup s t k)) = dc_window s"
  "dict_get (dc_store (snd (dc_lookup s t k))) k' = Some e \<Longrightarrow> dict_get (dc_store s) k' = Some e"
  by (auto simp: dc_lookup_def split: option.splits if_splits)

lemma dc_put_store:
  "dc_window (dc_put s t k v) = dc_window s"
  "dict_get (dc_store (dc_put s t k v)) k' = Some e \<Longrightarrow>
     dict_get (dc_store s) k' = Some e \<or> (k = k' \<and> original_call_id e = fst v \<and> de_result e = snd v)"
  by (auto simp: dc_put_def dc_record_def split: option.splits if_splits)

interpretation dc: cache_sound "\<lambda>_. True" "\<lambda>_. True" "\<lambda>s t k. snd (dc_lookup s t k)" dc_put dc_view
proof unfold_locales
  fix s :: "'r dedup_cache" and t t' :: rat and k k' v v'
  show "dc_view (snd (dc_lookup s t k)) t' k' = Some v \<Longrightarrow> dc_view s t' k' = Some v"
    using dc_lookup_store(2) [of s t k k'] dc_lookup_store(1) [of s t k]
    by (auto simp: dc_view_def split: option.splits if_splits)
  show "k \<noteq> k' \<Longrightarrow> dc_view (dc_put s t k v) t' k' = Some v' \<Longrightarrow> dc_view s t' k' = Some v'"
    using dc_put_store(2) [of s t k v k'] dc_put_store(1) [of s t k v]
    by (fastforce simp: dc_view_def split: option.splits if_splits)
  show "dc_view (dc_put s t k v) t' k = Some v' \<Longrightarrow> v' = v \<or> dc_view s t' k = Some v'"
    using dc_put_store(2) [of s t k v k] dc_put_store(1) [of s t k v]
    by (cases v) (fastforce simp: dc_view_def split: option.splits if_splits)
qed simp_all

lemma dc_lookup_view:
  "fst (dc_lookup s t k) = Some e \<Longrightarrow> dc_view s t k = Some (original_call_id e, de_result e)"
  by (auto simp: dc_lookup_def dc_view_def split: option.splits if_splits)

text \<open>
  Over any session of lookups and records with a monotonic clock, a call that is told to
  use a cached result gets a result that was recorded under the key of its own tool and
  arguments, by the call named in the envelope, at most \<open>window_seconds\<close> ago.
\<close>

theorem dedup_returns_recorded_result:
  assumes "new_dedup_cache w = Inr s0" and "\<forall>p\<in>set ops. op_time p \<le> now"
    and "s = cache_run (\<lambda>s t k. snd (dc_lookup s t k)) dc_put s0 ops"
    and "fst (dc_decide sha s now tool args ids) = Inr (Use_cached k e)"
  shows "dedup_key sha tool args ids = Inr k \<and>
    (original_call_id e, de_result e) \<in> set (stored_under k ops) \<and> now - cached_at e \<le> w"
proof -
  have k: "dedup_key sha tool args ids = Inr k" and l: "fst (dc_lookup s now k) = Some e"
    using assms(4) by (auto simp: dc_decide_def split: sum.splits prod.splits option.splits)
  have "dc_view s0 now k = None" using assms(1) by (auto simp: new_dedup_cache_def dc_view_def split: if_splits)
  then have stored: "(original_call_id e, de_result e) \<in> set (stored_under k ops)"
    using dc.run_view_stored [of ops now s0 k] dc_lookup_view [OF l] assms(2,3) by (auto simp: list_all_iff)
  have "dc_window (cache_run (\<lambda>s t k. snd (dc_lookup s t k)) dc_put s' ops) = dc_window s'" for s' :: "'a dedup_cache"
  proof (induction ops arbitrary: s')
    case (Cons p ops)
    then show ?case by (cases p) (simp_all add: dc_lookup_store dc_put_store)
  qed simp
  then have "dc_window s = w" using assms(1,3) by (auto simp: new_dedup_cache_def split: if_splits)
  then have "now - cached_at e \<le> w" using l by (auto simp: dc_lookup_def split: option.splits if_splits)
  with k stored show ?thesis by blast
qed

theorem dedup_returns_recorded_result_witness:
  "\<exists>s0 :: nat dedup_cache. new_dedup_cache 10 = Inr s0 \<and>
    (\<exists>k e. fst (dc_decide id (cache_run (\<lambda>s t k. snd (dc_lookup s t k)) dc_put s0
        [Store 1 (key_text ''read'' (JObj [])) (''c1'', 7)]) 5 ''read'' [] None) = Inr (Use_cached k e) \<and>
      5 - cached_at e \<le> 10)"
proof -
  let ?ops = "[Store 1 (key_text ''read'' (JObj [])) (''c1'', 7 :: nat)]"
  let ?run = "\<lambda>s0. cache_run (\<lambda>s t k. snd (dc_lookup s t k)) dc_put s0 ?ops"
  obtain s0 :: "nat dedup_cache" where s0: "new_dedup_cache 10 = Inr s0" by (simp add: new_dedup_cache_def)
  obtain k e where u: "fst (dc_decide id (?run s0) 5 ''read'' [] None) = Inr (Use_cached k e)"
    using s0 by (auto simp: new_dedup_cache_def dc_decide_def dc_put_def dc_record_def dc_lookup_def
        dedup_key_def identity_args_def sort_key_def)
  have "\<forall>p\<in>set ?ops. op_time p \<le> 5" by simp
  from dedup_returns_recorded_result [OF s0 this refl u] u s0 show ?thesis by blast
qed

text \<open>Recording again under the same call identifier is a no-op even when the entry has
  expired: the fresh result is dropped and the next lookup misses.\<close>

lemma expired_entry_not_overwritten:
  fixes s :: "nat dedup_cache"
  defines "s \<equiv> \<lparr>dc_window = 10, dc_store = [(''k'', \<lparr>cached_at = 0, original_call_id = ''c1'', de_result = 1\<rparr>)],
                dc_hits = 0, dc_misses = 0, dc_evictions = 0\<rparr>"
  shows "fst (dc_record s 50 ''k'' ''c1'' 2) = Inr () \<and>
    fst (dc_lookup (snd (dc_record s 50 ''k'' ''c1'' 2)) 51 ''k'') = None"
  by (simp add: s_def dc_record_def dc_lookup_def)

end
