(* ===== verification/Tool_Result_Cache.thy ===== *)
theory Tool_Result_Cache
  imports Tool_Dedup
begin

text \<open>
  The content-addressed result cache (\<open>tool-result-cache/cache.py\<close>): opt-in per tool, a
  time to live per entry, lazy eviction.  On the values of the model its \<open>_canonical\<close> is the
  function \<open>canonicalize\<close> of the deduplication component under another exception class.  The
  clock is read once per call and is the argument \<open>now\<close>.
\<close>

section \<open>State and operations\<close>

datatype cache_error = CacheKeyError dedup_error | UnsafeCacheError string | TtlValueError rat

definition cache_key ::
  "(string \<Rightarrow> string) \<Rightarrow> string \<Rightarrow> (string, pyval) dict \<Rightarrow> string list option \<Rightarrow> cache_error + string" where
  "cache_key sha tool args ids =
     map_sum CacheKeyError (\<lambda>j. sha (key_text tool j)) (canonicalize ''$'' (PDict (identity_args args ids)))"

record 'r tr_entry =
  tr_result :: 'r
  written_at :: rat
  expires_at :: rat
  source_call_id :: string

record 'r tr_cache =
  safe_tools :: "string list"
  tr_entries :: "(string, 'r tr_entry) dict"
  tr_hits :: nat
  tr_misses :: nat
  tr_evictions :: nat
  tr_refused :: nat

definition new_tr_cache :: "string list \<Rightarrow> 'r tr_cache" where
  "new_tr_cache ts = \<lparr>safe_tools = ts, tr_entries = [], tr_hits = 0, tr_misses = 0, tr_evictions = 0, tr_refused = 0\<rparr>"

definition evict_if_expired :: "'r tr_cache \<Rightarrow> rat \<Rightarrow> string \<Rightarrow> 'r tr_cache" where
  "evict_if_expired s now k =
     (case dict_get (tr_entries s) k of
        None \<Rightarrow> s
      | Some e \<Rightarrow>
          if now \<ge> expires_at e
          then s\<lparr>tr_entries := dict_del k (tr_entries s), tr_evictions := tr_evictions s + 1\<rparr> else s)"

definition tr_lookup :: "'r tr_cache \<Rightarrow> rat \<Rightarrow> string \<Rightarrow> 'r tr_entry option \<times> 'r tr_cache" where
  "tr_lookup s now k =
     (let s1 = evict_if_expired s now k in
      case dict_get (tr_entries s1) k of
        None \<Rightarrow> (None, s1\<lparr>tr_misses := tr_misses s1 + 1\<rparr>)
      | Some e \<Rightarrow> (Some e, s1\<lparr>tr_hits := tr_hits s1 + 1\<rparr>))"

definition tr_write ::
  "'r tr_cache \<Rightarrow> rat \<Rightarrow> string \<Rightarrow> string \<Rightarrow> 'r \<Rightarrow> rat \<Rightarrow> string \<Rightarrow> (cache_error, unit, 'r tr_cache) outcome" where
  "tr_write s now tool k r ttl cid =
     (if tool \<notin> set (safe_tools s) then (Inl (UnsafeCacheError tool), s\<lparr>tr_refused := tr_refused s + 1\<rparr>)
      else if ttl \<le> 0 then (Inl (TtlValueError ttl), s)
      else (Inr (), s\<lparr>tr_entries := dict_set k \<lparr>tr_result = r, written_at = now, expires_at = now + ttl,
                                              source_call_id = cid\<rparr> (tr_entries s)\<rparr>))"

record tr_state =
  trs_entries :: nat
  trs_hits :: nat
  trs_misses :: nat
  trs_evictions :: nat
  trs_refused_unsafe_writes :: nat
  trs_safe_tools :: "string list"

definition tr_state_of :: "'r tr_cache \<Rightarrow> tr_state" where
  "tr_state_of s =
     \<lparr>trs_entries = length (tr_entries s), trs_hits = tr_hits s, trs_misses = tr_misses s,
      trs_evictions = tr_evictions s, trs_refused_unsafe_writes = tr_refused s,
      trs_safe_tools = sort (remdups (safe_tools s))\<rparr>"

section \<open>The contract\<close>

text \<open>A stored value is a write: the tool, the result, the time to live and the call.\<close>

type_synonym 'r tr_write_args = "string \<times> 'r \<times> rat \<times> string"

fun tr_put :: "'r tr_cache \<Rightarrow> rat \<Rightarrow> string \<Rightarrow> 'r tr_write_args \<Rightarrow> 'r tr_cache" where
  "tr_put s t k (tool, r, ttl, cid) = snd (tr_write s t tool k r ttl cid)"

definition write_accepted :: "string list \<Rightarrow> rat \<Rightarrow> 'r tr_write_args \<Rightarrow> 'r tr_entry option" where
  "write_accepted ts t w = (case w of (tool, r, ttl, cid) \<Rightarrow>
     if tool \<in> set ts \<and> ttl > 0
     then Some \<lparr>tr_result = r, written_at = t, expires_at = t + ttl, source_call_id = cid\<rparr> else None)"

text \<open>The specification: an unbounded map of the last accepted write of each key.\<close>

fun last_write :: "string list \<Rightarrow> (string, 'r tr_write_args) cache_op list \<Rightarrow> string \<Rightarrow> 'r tr_entry option" where
  "last_write ts [] k = None"
| "last_write ts (p # ops) k =
     (case last_write ts ops k of
        Some e \<Rightarrow> Some e
      | None \<Rightarrow> (case p of Store t k' w \<Rightarrow> if k' = k then write_accepted ts t w else None | Lookup _ _ \<Rightarrow> None))"

definition unexpired :: "rat \<Rightarrow> 'r tr_entry option \<Rightarrow> 'r tr_entry option" where
  "unexpired t oe = (case oe of None \<Rightarrow> None | Some e \<Rightarrow> if t \<ge> expires_at e then None else Some e)"

lemma unexpired_simps [simp]:
  "unexpired t None = None"
  "unexpired t (Some e) = (if t \<ge> expires_at e then None else Some e)"
  by (simp_all add: unexpired_def)

abbreviation tr_touch :: "'r tr_cache \<Rightarrow> rat \<Rightarrow> string \<Rightarrow> 'r tr_cache" where
  "tr_touch s t k \<equiv> snd (tr_lookup s t k)"

lemma tr_lookup_unexpired: "fst (tr_lookup s t k) = unexpired t (dict_get (tr_entries s) k)"
  by (auto simp: tr_lookup_def evict_if_expired_def Let_def split: option.splits)

lemma tr_touch_entries:
  assumes "t \<le> t'"
  shows "unexpired t' (dict_get (tr_entries (tr_touch s t k)) k') = unexpired t' (dict_get (tr_entries s) k')"
  using assms by (auto simp: tr_lookup_def evict_if_expired_def Let_def split: option.splits)

lemma tr_safe: "safe_tools (tr_touch s t k) = safe_tools s" "safe_tools (tr_put s t k w) = safe_tools s"
  by (auto simp: tr_lookup_def evict_if_expired_def Let_def split: option.splits)
     (cases w, simp add: tr_write_def)

lemma tr_put_entries:
  "dict_get (tr_entries (tr_put s t k w)) k' =
     (if k = k' \<and> write_accepted (safe_tools s) t w \<noteq> None then write_accepted (safe_tools s) t w else dict_get (tr_entries s) k')"
  by (cases w) (auto simp: tr_write_def write_accepted_def)

lemma cache_run_last_write:
  assumes "\<forall>p\<in>set ops. op_time p \<le> t"
  shows "unexpired t (dict_get (tr_entries (cache_run tr_touch tr_put s ops)) k) =
    unexpired t (case last_write (safe_tools s) ops k of Some e \<Rightarrow> Some e | None \<Rightarrow> dict_get (tr_entries s) k)"
  using assms
proof (induction ops arbitrary: s)
  case (Cons p ops)
  show ?case
  proof (cases p)
    case (Lookup t0 k0)
    then show ?thesis using Cons tr_touch_entries [of t0 t s k0 k] by (auto simp: tr_safe split: option.splits)
  next
    case (Store t0 k0 w)
    then show ?thesis using Cons by (auto simp: tr_safe tr_put_entries split: option.splits)
  qed
qed simp

text \<open>Seen by one opted-in tool, the cache meets the shared contract.\<close>

definition tr_view :: "'r tr_cache \<Rightarrow> rat \<Rightarrow> string \<Rightarrow> ('r \<times> rat \<times> string) option" where
  "tr_view s t k = map_option (\<lambda>e. (tr_result e, expires_at e - written_at e, source_call_id e))
     (unexpired t (dict_get (tr_entries s) k))"

lemma tr_view_put:
  assumes "tool \<in> set (safe_tools s)" and "0 < fst (snd v)"
  shows "tr_view (tr_put s t k (tool, v)) t' k' = Some v' \<Longrightarrow> (if k = k' then v' = v else tr_view s t' k' = Some v')"
  using assms by (cases v) (auto simp: tr_view_def tr_put_entries write_accepted_def simp del: tr_put.simps split: if_splits)

interpretation tr: cache_fresh "\<lambda>s. tool \<in> set (safe_tools s)" "\<lambda>v. 0 < fst (snd v)" tr_touch
  "\<lambda>s t k v. tr_put s t k (tool, v)" tr_view for tool
proof unfold_locales
  fix s :: "'r tr_cache" and t t' :: rat and k k' v v'
  assume tool: "tool \<in> set (safe_tools s)"
  show "tool \<in> set (safe_tools (tr_touch s t k))" "tool \<in> set (safe_tools (tr_put s t k (tool, v)))"
    using tool by (simp_all add: tr_safe del: tr_put.simps)
  show "t \<le> t' \<Longrightarrow> tr_view (tr_touch s t k) t' k' = Some v \<Longrightarrow> tr_view s t' k' = Some v"
    by (simp add: tr_view_def tr_touch_entries)
  assume "0 < fst (snd v)"
  note p = tr_view_put [OF tool this]
  show "k \<noteq> k' \<Longrightarrow> tr_view (tr_put s t k (tool, v)) t' k' = Some v' \<Longrightarrow> tr_view s t' k' = Some v'"
    using p [of t k t' k'] by simp
  show "tr_view (tr_put s t k (tool, v)) t' k = Some v' \<Longrightarrow> v' = v" using p [of t k t' k] by simp
  then show "tr_view (tr_put s t k (tool, v)) t' k = Some v' \<Longrightarrow> v' = v \<or> tr_view s t' k = Some v'" by blast
qed

text \<open>
  Over any session with a monotonic clock, with lookups, accepted and refused writes of
  any tools, a lookup returns exactly the last accepted write of its key as long as that write
  has not expired, and nothing afterwards; a refused write changes no entry.
\<close>

theorem result_cache_exact:
  assumes "\<forall>p\<in>set ops. op_time p \<le> now"
  shows "fst (tr_lookup (cache_run tr_touch tr_put (new_tr_cache ts) ops) now k) =
      (case last_write ts ops k of None \<Rightarrow> None | Some e \<Rightarrow> if now \<ge> expires_at e then None else Some e) \<and>
    (\<forall>s tool r ttl cid e. fst (tr_write s now tool k r ttl cid) = Inl e \<longrightarrow>
       tr_entries (snd (tr_write s now tool k r ttl cid)) = tr_entries (s :: 'r tr_cache))"
proof -
  have "fst (tr_lookup (cache_run tr_touch tr_put (new_tr_cache ts) ops) now k) =
      unexpired now (last_write ts ops k)"
    unfolding tr_lookup_unexpired cache_run_last_write [OF assms]
    by (simp add: new_tr_cache_def split: option.splits)
  then show ?thesis by (auto simp: unexpired_def tr_write_def split: if_splits)
qed

theorem result_cache_exact_witness:
  "map_option tr_result (fst (tr_lookup (cache_run tr_touch tr_put (new_tr_cache [''read''])
     [Store 0 ''k'' (''read'', 1 :: nat, 10, ''c1''), Store 1 ''k'' (''send'', 2, 10, ''c2''), Lookup 2 ''k'']) 9 ''k'')) = Some 1"
proof -
  let ?ops = "[Store 0 ''k'' (''read'', 1 :: nat, 10, ''c1''), Store 1 ''k'' (''send'', 2, 10, ''c2''), Lookup 2 ''k'']"
  have "\<forall>p\<in>set ?ops. op_time p \<le> 9" by simp
  from result_cache_exact [OF this, of "[''read'']" "''k''", THEN conjunct1] show ?thesis by (simp add: write_accepted_def)
qed

end
