(* ===== verification/Batching_Window.thy ===== *)
theory Batching_Window
  imports Prelude
begin

text \<open>
  The batching window for tool calls (\<open>tool-call-batching-window/window.py\<close>).  The handles
  that \<open>submit\<close> returns are shared between the caller and the window, so they live in a heap:
  a handle is its index in the list of all handles created, which is the submit order.
  \<open>bulk_fn\<close> is a parameter \<open>bulk n args\<close>, its behaviour at the \<open>n\<close>-th flush: it raises,
  returns a list, or returns something else.  It does not call the window.
\<close>

section \<open>State and operations\<close>

datatype 'r bulk_outcome = Raised string | Returned_list "'r list" | Returned_other

datatype handle_error = Bulk_error string | BatchSizeMismatch

record 'r pending =
  index_in_batch :: int
  batch_id :: int
  resolved :: bool
  p_result :: "'r option"
  p_error :: "handle_error option"

datatype result_error = NotYetResolved | Reraised handle_error

definition new_pending :: "'r pending" where
  "new_pending = \<lparr>index_in_batch = -1, batch_id = -1, resolved = False, p_result = None, p_error = None\<rparr>"

definition pending_result :: "'r pending \<Rightarrow> result_error + 'r option" where
  "pending_result h =
     (if \<not> resolved h then Inl NotYetResolved
      else case p_error h of Some e \<Rightarrow> Inl (Reraised e) | None \<Rightarrow> Inr (p_result h))"

record ('a, 'r) window =
  max_wait_s :: rat
  max_batch_size :: int
  pending_args :: "'a list"
  pending_handles :: "nat list"
  first_submit_s :: "rat option"
  next_batch_id :: nat
  w_closed :: bool
  flushes :: nat
  size_trips :: nat
  deadline_trips :: nat
  manual_flushes :: nat
  heap :: "'r pending list"

datatype window_error = MaxWaitValueError | MaxBatchValueError | WindowClosed

definition new_window :: "rat \<Rightarrow> int \<Rightarrow> window_error + ('a, 'r) window" where
  "new_window mw mb =
     (if mw < 0 then Inl MaxWaitValueError
      else if mb < 1 then Inl MaxBatchValueError
      else Inr \<lparr>max_wait_s = mw, max_batch_size = mb, pending_args = [], pending_handles = [],
                first_submit_s = None, next_batch_id = 0, w_closed = False, flushes = 0, size_trips = 0,
                deadline_trips = 0, manual_flushes = 0, heap = []\<rparr>)"

text \<open>The handle at position \<open>i\<close> of the batch after the call of \<open>bulk_fn\<close>.\<close>

definition resolve :: "'r bulk_outcome \<Rightarrow> nat \<Rightarrow> nat \<Rightarrow> nat \<Rightarrow> 'r pending \<Rightarrow> 'r pending" where
  "resolve out n b i h =
     (let h1 = h\<lparr>index_in_batch := int i, batch_id := int b, resolved := True\<rparr> in
      case out of
        Raised e \<Rightarrow> h1\<lparr>p_error := Some (Bulk_error e)\<rparr>
      | Returned_other \<Rightarrow> h1\<lparr>p_error := Some BatchSizeMismatch\<rparr>
      | Returned_list rs \<Rightarrow>
          if length rs \<noteq> n then h1\<lparr>p_error := Some BatchSizeMismatch\<rparr>
          else h1\<lparr>p_result := Some (rs ! i)\<rparr>)"

fun resolve_all ::
  "'r bulk_outcome \<Rightarrow> nat \<Rightarrow> nat \<Rightarrow> nat \<Rightarrow> nat list \<Rightarrow> 'r pending list \<Rightarrow> 'r pending list" where
  "resolve_all out n b i [] hp = hp"
| "resolve_all out n b i (h # hs) hp =
     resolve_all out n b (Suc i) hs (hp[h := resolve out n b i (hp ! h)])"

definition w_flush :: "(nat \<Rightarrow> 'a list \<Rightarrow> 'r bulk_outcome) \<Rightarrow> ('a, 'r) window \<Rightarrow> ('a, 'r) window" where
  "w_flush bulk s =
     (let args = pending_args s; handles = pending_handles s; b = next_batch_id s in
      s\<lparr>next_batch_id := b + 1, pending_args := [], pending_handles := [], first_submit_s := None,
        flushes := flushes s + 1,
        heap := resolve_all (bulk b args) (length args) b 0 handles (heap s)\<rparr>)"

definition submit ::
  "(nat \<Rightarrow> 'a list \<Rightarrow> 'r bulk_outcome) \<Rightarrow> ('a, 'r) window \<Rightarrow> 'a \<Rightarrow> rat \<Rightarrow> (window_error, nat, ('a, 'r) window) outcome" where
  "submit bulk s a now =
     (if w_closed s then (Inl WindowClosed, s)
      else
        let h = length (heap s);
            s1 = s\<lparr>heap := heap s @ [new_pending], pending_args := pending_args s @ [a],
                   pending_handles := pending_handles s @ [h],
                   first_submit_s := (case first_submit_s s of None \<Rightarrow> Some now | Some t \<Rightarrow> Some t)\<rparr>
        in (Inr h,
            if int (length (pending_args s1)) \<ge> max_batch_size s1
            then w_flush bulk (s1\<lparr>size_trips := size_trips s1 + 1\<rparr>) else s1))"

definition tick :: "(nat \<Rightarrow> 'a list \<Rightarrow> 'r bulk_outcome) \<Rightarrow> ('a, 'r) window \<Rightarrow> rat \<Rightarrow> nat \<times> ('a, 'r) window" where
  "tick bulk s now =
     (case first_submit_s s of
        None \<Rightarrow> (0, s)
      | Some t0 \<Rightarrow>
          if now - t0 \<ge> max_wait_s s
          then (length (pending_args s), w_flush bulk (s\<lparr>deadline_trips := deadline_trips s + 1\<rparr>))
          else (0, s))"

definition flush :: "(nat \<Rightarrow> 'a list \<Rightarrow> 'r bulk_outcome) \<Rightarrow> ('a, 'r) window \<Rightarrow> nat \<times> ('a, 'r) window" where
  "flush bulk s =
     (case first_submit_s s of
        None \<Rightarrow> (0, s)
      | Some t0 \<Rightarrow> (length (pending_args s), w_flush bulk (s\<lparr>manual_flushes := manual_flushes s + 1\<rparr>)))"

definition close :: "(nat \<Rightarrow> 'a list \<Rightarrow> 'r bulk_outcome) \<Rightarrow> ('a, 'r) window \<Rightarrow> ('a, 'r) window" where
  "close bulk s =
     (let s1 = (if first_submit_s s \<noteq> None then snd (flush bulk s) else s) in s1\<lparr>w_closed := True\<rparr>)"

section \<open>Sessions\<close>

datatype 'a wop = Submit 'a rat | Tick rat | Flush | Close

fun window_step ::
  "(nat \<Rightarrow> 'a list \<Rightarrow> 'r bulk_outcome) \<Rightarrow> ('a, 'r) window \<Rightarrow> 'a wop \<Rightarrow> (window_error, nat, ('a, 'r) window) outcome" where
  "window_step bulk s (Submit a now) = submit bulk s a now"
| "window_step bulk s (Tick now) = (case tick bulk s now of (n, s') \<Rightarrow> (Inr n, s'))"
| "window_step bulk s Flush = (case flush bulk s of (n, s') \<Rightarrow> (Inr n, s'))"
| "window_step bulk s Close = (Inr 0, close bulk s)"

text \<open>The arguments of the accepted submits; the handle of the \<open>i\<close>-th of them is \<open>i\<close>.\<close>

fun submitted :: "(nat \<Rightarrow> 'a list \<Rightarrow> 'r bulk_outcome) \<Rightarrow> ('a, 'r) window \<Rightarrow> 'a wop list \<Rightarrow> 'a list" where
  "submitted bulk s [] = []"
| "submitted bulk s (p # ps) =
     (case p of Submit a _ \<Rightarrow> if w_closed s then [] else [a] | _ \<Rightarrow> []) @
     submitted bulk (snd (window_step bulk s p)) ps"

text \<open>
  A handle is settled when it carries what the bulk call of its batch says about its own
  argument: the batch is a stretch \<open>k\<close> long of the submitted arguments, in order, and the
  argument of handle \<open>i\<close> is at the handle's index.
\<close>

definition settled :: "(nat \<Rightarrow> 'a list \<Rightarrow> 'r bulk_outcome) \<Rightarrow> 'a list \<Rightarrow> nat \<Rightarrow> 'r pending \<Rightarrow> bool" where
  "settled bulk xs i h \<longleftrightarrow>
     (\<exists>st k b. st \<le> i \<and> i < st + k \<and> st + k \<le> length xs \<and> h = resolve (bulk b (take k (drop st xs))) k b (i - st) new_pending)"

definition window_rel :: "(nat \<Rightarrow> 'a list \<Rightarrow> 'r bulk_outcome) \<Rightarrow> 'a list \<Rightarrow> ('a, 'r) window \<Rightarrow> bool" where
  "window_rel bulk xs s \<longleftrightarrow>
     (\<exists>n \<le> length xs. pending_args s = drop n xs \<and> pending_handles s = [n..<length xs] \<and> length (heap s) = length xs \<and>
        (\<forall>i<n. settled bulk xs i (heap s ! i)) \<and> (\<forall>i. n \<le> i \<and> i < length xs \<longrightarrow> heap s ! i = new_pending)) \<and>
     (first_submit_s s = None \<longleftrightarrow> pending_args s = []) \<and>
     1 \<le> max_batch_size s \<and> int (length (pending_args s)) < max_batch_size s"

lemma resolve_all_nth:
  assumes "n + k = length hp"
  shows "resolve_all out m b i [n..<n + k] hp =
    take n hp @ map (\<lambda>j. resolve out m b (i + j) (hp ! (n + j))) [0..<k]"
  using assms
proof (induction k arbitrary: n i hp)
  case (Suc k)
  let ?hp = "hp[n := resolve out m b i (hp ! n)]"
  have n: "n < length hp" using Suc.prems by simp
  have "[n..<n + Suc k] = n # [Suc n..<Suc n + k]" by (simp add: upt_conv_Cons)
  then have "resolve_all out m b i [n..<n + Suc k] hp = resolve_all out m b (Suc i) [Suc n..<Suc n + k] ?hp"
    by simp
  also have "\<dots> = take (Suc n) ?hp @ map (\<lambda>j. resolve out m b (Suc i + j) (?hp ! (Suc n + j))) [0..<k]"
    using Suc by (intro Suc.IH) simp
  also have "take (Suc n) ?hp = take n hp @ [resolve out m b i (hp ! n)]"
    using n by (simp add: take_Suc_conv_app_nth)
  also have "map (\<lambda>j. resolve out m b (Suc i + j) (?hp ! (Suc n + j))) [0..<k] =
      map (\<lambda>j. resolve out m b (i + j) (hp ! (n + j))) [1..<Suc k]"
    by (simp add: map_Suc_upt [symmetric] del: upt_Suc)
  also have "(take n hp @ [resolve out m b i (hp ! n)]) @ \<dots> =
      take n hp @ map (\<lambda>j. resolve out m b (i + j) (hp ! (n + j))) [0..<Suc k]"
    by (simp add: upt_conv_Cons del: upt_Suc)
  finally show ?case .
qed simp

lemma w_flush_fields [simp]:
  "pending_args (w_flush bulk s) = []" "pending_handles (w_flush bulk s) = []"
  "first_submit_s (w_flush bulk s) = None" "max_batch_size (w_flush bulk s) = max_batch_size s"
  "max_wait_s (w_flush bulk s) = max_wait_s s" "w_closed (w_flush bulk s) = w_closed s"
  "heap (w_flush bulk s) =
     resolve_all (bulk (next_batch_id s) (pending_args s)) (length (pending_args s)) (next_batch_id s) 0 (pending_handles s) (heap s)"
  by (simp_all add: w_flush_def Let_def)

lemma settled_mono: "settled bulk xs i h \<Longrightarrow> settled bulk (xs @ ys) i h"
  unfolding settled_def by (elim exE conjE) (intro exI conjI, assumption+, auto)

lemma w_flush_settles:
  assumes n: "n \<le> length xs" "pending_args s = drop n xs" "pending_handles s = [n..<length xs]"
    "length (heap s) = length xs" "\<forall>i<n. settled bulk xs i (heap s ! i)"
    "\<forall>i. n \<le> i \<and> i < length xs \<longrightarrow> heap s ! i = new_pending" and m: "1 \<le> max_batch_size s"
  shows "window_rel bulk xs (w_flush bulk s)"
proof -
  let ?out = "bulk (next_batch_id s) (drop n xs)" and ?k = "length xs - n"
  have h: "heap (w_flush bulk s) =
      take n (heap s) @ map (\<lambda>j. resolve ?out ?k (next_batch_id s) j (heap s ! (n + j))) [0..<?k]"
    using resolve_all_nth [of n ?k "heap s" ?out ?k "next_batch_id s" 0] n by simp
  have "settled bulk xs i (heap (w_flush bulk s) ! i)" if i: "i < length xs" for i
  proof (cases "i < n")
    case True
    then show ?thesis using n h by (simp add: nth_append)
  next
    case False
    then have "heap (w_flush bulk s) ! i = resolve ?out ?k (next_batch_id s) (i - n) new_pending"
      using i n unfolding h by (simp add: nth_append)
    then show ?thesis unfolding settled_def using False i n(1)
      by (intro exI [of _ n] exI [of _ ?k] exI [of _ "next_batch_id s"]) simp
  qed
  moreover have "length (heap (w_flush bulk s)) = length xs" using h n by simp
  ultimately show ?thesis using m unfolding window_rel_def by (auto intro!: exI [of _ "length xs"])
qed

lemma window_rel_flush:
  assumes "window_rel bulk xs s" "heap s' = heap s" "pending_args s' = pending_args s"
    "pending_handles s' = pending_handles s" "max_batch_size s' = max_batch_size s"
  shows "window_rel bulk xs (w_flush bulk s')"
proof -
  from assms(1) obtain n where n: "n \<le> length xs" "pending_args s = drop n xs" "pending_handles s = [n..<length xs]"
    "length (heap s) = length xs" "\<forall>i<n. settled bulk xs i (heap s ! i)"
    "\<forall>i. n \<le> i \<and> i < length xs \<longrightarrow> heap s ! i = new_pending" and m: "1 \<le> max_batch_size s"
    unfolding window_rel_def by blast
  show ?thesis using n m assms(2-5) by (intro w_flush_settles [of n]) simp_all
qed

lemma submit_rel:
  assumes r: "window_rel bulk xs s" and nc: "\<not> w_closed s"
  shows "window_rel bulk (xs @ [a]) (snd (submit bulk s a now)) \<and> fst (submit bulk s a now) = Inr (length xs)"
proof -
  from r obtain n where n: "n \<le> length xs" "pending_args s = drop n xs" "pending_handles s = [n..<length xs]"
    "length (heap s) = length xs" "\<forall>i<n. settled bulk xs i (heap s ! i)"
    "\<forall>i. n \<le> i \<and> i < length xs \<longrightarrow> heap s ! i = new_pending" and m: "1 \<le> max_batch_size s"
    unfolding window_rel_def by blast
  define s1 where "s1 = s\<lparr>heap := heap s @ [new_pending], pending_args := pending_args s @ [a],
      pending_handles := pending_handles s @ [length (heap s)],
      first_submit_s := (case first_submit_s s of None \<Rightarrow> Some now | Some t \<Rightarrow> Some t)\<rparr>"
  have s1: "pending_args s1 = drop n (xs @ [a])" "pending_handles s1 = [n..<length (xs @ [a])]"
    "length (heap s1) = length (xs @ [a])" "\<forall>i<n. settled bulk (xs @ [a]) i (heap s1 ! i)"
    "\<forall>i. n \<le> i \<and> i < length (xs @ [a]) \<longrightarrow> heap s1 ! i = new_pending" "max_batch_size s1 = max_batch_size s"
    "first_submit_s s1 \<noteq> None"
    using n by (auto simp: s1_def nth_append settled_mono less_Suc_eq split: option.splits)
  have sub: "submit bulk s a now = (Inr (length xs),
      if int (length (pending_args s1)) \<ge> max_batch_size s1
      then w_flush bulk (s1\<lparr>size_trips := size_trips s1 + 1\<rparr>) else s1)"
    using nc n(4) by (simp add: submit_def s1_def Let_def)
  have "window_rel bulk (xs @ [a]) s1" if "\<not> int (length (pending_args s1)) \<ge> max_batch_size s1"
    unfolding window_rel_def using that s1 n(1) m by (auto intro!: exI [of _ n])
  moreover have "window_rel bulk (xs @ [a]) (w_flush bulk (s1\<lparr>size_trips := size_trips s1 + 1\<rparr>))"
    using s1 n(1) m by (intro w_flush_settles [of n]) simp_all
  ultimately show ?thesis unfolding sub by simp
qed

lemma window_rel_closed: "window_rel bulk xs s \<Longrightarrow> window_rel bulk xs (s\<lparr>w_closed := c\<rparr>)"
  unfolding window_rel_def by simp

lemma step_rel:
  assumes "window_rel bulk xs s"
  shows "window_rel bulk (xs @ (case p of Submit a _ \<Rightarrow> if w_closed s then [] else [a] | _ \<Rightarrow> [])) (snd (window_step bulk s p))"
proof (cases p)
  case (Submit a now)
  then show ?thesis using submit_rel [OF assms, of a now] assms by (simp add: submit_def)
next
  case (Tick now)
  then show ?thesis using assms window_rel_flush [OF assms]
    by (simp add: tick_def split: option.splits)
next
  case Flush
  then show ?thesis using assms window_rel_flush [OF assms] by (simp add: flush_def split: option.splits)
next
  case Close
  then show ?thesis using assms window_rel_flush [OF assms]
    by (auto simp: close_def flush_def Let_def intro!: window_rel_closed split: option.splits)
qed

lemma run_rel:
  "window_rel bulk xs s \<Longrightarrow> window_rel bulk (xs @ submitted bulk s ps) (snd (run (window_step bulk) s ps))"
proof (induction ps arbitrary: xs s)
  case (Cons p ps)
  from Cons.IH [OF step_rel [OF Cons.prems, of p]] show ?case by (simp add: case_prod_beta)
qed simp

lemma new_window_rel: "new_window mw mb = Inr s0 \<Longrightarrow> window_rel bulk [] s0"
  by (auto simp: new_window_def window_rel_def split: if_splits)

section \<open>Properties\<close>

text \<open>
  No misattribution: after any session every handle is either still pending, unresolved
  and queued in submit order, or settled: it belongs to a batch that is a contiguous stretch of
  the submitted arguments in submit order, sits at the index of its own argument, and carries
  the result the bulk call returned at that index (or the error of that call, the same for the
  whole batch).  Fewer than \<open>max_batch_size\<close> calls are ever waiting.
\<close>

theorem batching_attributes_results:
  assumes "new_window mw mb = Inr s0" and "s = snd (run (window_step bulk) s0 ps)" and "xs = submitted bulk s0 ps"
  shows "length (heap s) = length xs \<and>
    pending_args s = drop (length xs - length (pending_args s)) xs \<and>
    int (length (pending_args s)) < max_batch_size s \<and>
    (\<forall>i<length xs. if i < length xs - length (pending_args s)
       then \<exists>st k b. st \<le> i \<and> i < st + k \<and> st + k \<le> length xs \<and>
              heap s ! i = resolve (bulk b (take k (drop st xs))) k b (i - st) new_pending
       else heap s ! i = new_pending)"
proof -
  have "window_rel bulk xs s" using run_rel [OF new_window_rel [OF assms(1)], of bulk ps] assms(2,3) by simp
  then obtain n where n: "n \<le> length xs" "pending_args s = drop n xs" "length (heap s) = length xs"
    "\<forall>i<n. settled bulk xs i (heap s ! i)" "\<forall>i. n \<le> i \<and> i < length xs \<longrightarrow> heap s ! i = new_pending"
    and m: "int (length (pending_args s)) < max_batch_size s"
    unfolding window_rel_def by blast
  have "length xs - length (pending_args s) = n" using n(1,2) by simp
  then show ?thesis using n m by (simp add: settled_def)
qed

definition demo_bulk :: "nat \<Rightarrow> nat list \<Rightarrow> nat bulk_outcome" where
  "demo_bulk n args = Returned_list (map Suc args)"

theorem batching_attributes_results_witness:
  "\<exists>s0. new_window 1 2 = Inr s0 \<and>
    length (heap (snd (run (window_step demo_bulk) s0 [Submit 1 0, Submit 5 0, Submit 7 0]))) = 3"
proof -
  obtain s0 :: "(nat, nat) window" where s0: "new_window 1 2 = Inr s0" by (simp add: new_window_def)
  then have c: "\<not> w_closed s0" by (auto simp: new_window_def)
  have "w_closed (snd (submit demo_bulk t a now)) = w_closed t" for t a now
    by (simp add: submit_def Let_def)
  then have "submitted demo_bulk s0 [Submit 1 0, Submit 5 0, Submit 7 0] = [1, 5, 7]" using c by simp
  with batching_attributes_results [OF s0 refl refl, of demo_bulk "[Submit 1 0, Submit 5 0, Submit 7 0]", THEN conjunct1] s0
  show ?thesis by (metis length_Cons list.size(3) numeral_3_eq_3)
qed

text \<open>
  No starvation: the deadline counts from the first waiting call, so after a \<open>tick\<close> at
  time \<open>now\<close> no call is waiting whose batch was opened \<open>max_wait_s\<close> or more before \<open>now\<close>, and
  \<open>flush\<close> and \<open>close\<close> leave nothing waiting.
\<close>

theorem batching_deadline:
  assumes "new_window mw mb = Inr s0" and "s = snd (run (window_step bulk) s0 ps)"
  shows "(\<forall>t0. first_submit_s (snd (tick bulk s now)) = Some t0 \<longrightarrow> now - t0 < mw) \<and>
    (first_submit_s (snd (tick bulk s now)) = None \<longrightarrow> pending_args (snd (tick bulk s now)) = []) \<and>
    pending_args (snd (flush bulk s)) = [] \<and> pending_args (close bulk s) = [] \<and>
    fst (submit bulk (close bulk s) a now) = Inl WindowClosed"
proof -
  have "window_rel bulk (submitted bulk s0 ps) s" using run_rel [OF new_window_rel [OF assms(1)], of bulk ps] assms(2) by simp
  then have e: "first_submit_s s = None \<longleftrightarrow> pending_args s = []" unfolding window_rel_def by blast
  have "max_wait_s (snd (window_step bulk t p)) = max_wait_s t" for t p
    by (cases p) (auto simp: submit_def tick_def flush_def close_def Let_def split: option.splits)
  then have "max_wait_s (snd (run (window_step bulk) t ps)) = max_wait_s t" for t
    by (induction ps arbitrary: t) (simp_all add: case_prod_beta)
  then have "max_wait_s s = mw" using assms by (auto simp: new_window_def split: if_splits)
  then show ?thesis using e
    by (auto simp: tick_def flush_def close_def submit_def Let_def split: option.splits)
qed

theorem batching_deadline_witness:
  "\<exists>s0 :: (nat, nat) window. new_window 1 2 = Inr s0 \<and>
    pending_args (close (\<lambda>_ _. Returned_other) (snd (run (window_step (\<lambda>_ _. Returned_other)) s0 [Submit 3 0]))) = []"
proof -
  obtain s0 :: "(nat, nat) window" where s0: "new_window 1 2 = Inr s0" by (simp add: new_window_def)
  from batching_deadline [OF s0 refl] s0 show ?thesis by blast
qed

end
