(* ===== verification/Role_Validator.thy ===== *)
theory Role_Validator
  imports Prelude "HOL-Library.Multiset"
begin

text \<open>
  The validator of the role sequence of a chat prompt
  (\<open>prompt-message-role-sequence-validator/validator.py\<close>).  Messages are arbitrary Python
  values.  An issue is its code and the index it is anchored at; the human-readable detail is
  left out.
\<close>

section \<open>The validator\<close>

record issue =
  is_code :: string
  is_index :: int

record validation_result =
  vr_ok :: bool
  vr_errors :: "issue list"
  vr_warnings :: "issue list"

definition known_roles :: "string list" where
  "known_roles = [''system'', ''user'', ''assistant'', ''tool'']"

fun msg_role :: "pyval \<Rightarrow> string option" where
  "msg_role (PDict d) = (case map_of d ''role'' of Some (PStr r) \<Rightarrow> Some r | _ \<Rightarrow> None)"
| "msg_role _ = None"

definition tool_call_ids :: "pyval \<Rightarrow> string list" where
  "tool_call_ids msg =
     (case py_get msg ''tool_calls'' of
        PList calls \<Rightarrow>
          concat (map (\<lambda>c. case c of PDict d \<Rightarrow> (case py_get c ''id'' of PStr i \<Rightarrow> [i] | _ \<Rightarrow> []) | _ \<Rightarrow> []) calls)
      | _ \<Rightarrow> [])"

definition issue_at :: "string \<Rightarrow> int \<Rightarrow> issue" where
  "issue_at c i = \<lparr>is_code = c, is_index = i\<rparr>"

definition known :: "string option \<Rightarrow> bool" where
  "known r \<longleftrightarrow> (case r of None \<Rightarrow> False | Some x \<Rightarrow> x \<in> set known_roles)"

text \<open>The check of the first message (R2, and R8 at position 0).\<close>

definition first_issues :: "bool \<Rightarrow> string option \<Rightarrow> issue list" where
  "first_issues require_system r =
     (if \<not> known r then [issue_at ''unknown_role'' 0]
      else if require_system \<and> r \<noteq> Some ''system'' then [issue_at ''bad_first_role'' 0]
      else if \<not> require_system \<and> r \<noteq> Some ''system'' \<and> r \<noteq> Some ''user'' then [issue_at ''bad_first_role'' 0]
      else [])"

definition system_indices :: "pyval list \<Rightarrow> nat list" where
  "system_indices msgs = filter (\<lambda>i. msg_role (msgs ! i) = Some ''system'') [0..<length msgs]"

definition system_issues :: "nat list \<Rightarrow> issue list" where
  "system_issues idx =
     (if length idx > 1 then map (\<lambda>i. issue_at ''duplicate_system'' (int i)) (tl idx)
      else if length idx = 1 \<and> hd idx \<noteq> 0 then [issue_at ''duplicate_system'' (int (hd idx))]
      else [])"

definition content_is_empty :: "pyval \<Rightarrow> bool" where
  "content_is_empty c \<longleftrightarrow> (case c of PNone \<Rightarrow> True | PStr s \<Rightarrow> py_strip s = [] | _ \<Rightarrow> False)"

definition anchor :: "nat option \<Rightarrow> nat \<Rightarrow> int" where
  "anchor a i = int (case a of Some j \<Rightarrow> j | None \<Rightarrow> i)"

text \<open>
  One position of the walk: the issues found, the open tool-call ids and the index of the
  assistant that opened them.  \<open>prev\<close> is the role of the previous message.
\<close>

definition walk_step ::
  "nat \<Rightarrow> string option \<Rightarrow> string list \<Rightarrow> nat option \<Rightarrow> pyval \<Rightarrow> issue list \<times> string list \<times> nat option" where
  "walk_step i prev pend pidx msg =
     (let role = msg_role msg in
      if \<not> known role then (if i \<noteq> 0 then [issue_at ''unknown_role'' (int i)] else [], pend, pidx)
      else if role = Some ''assistant'' then
        (let calls = tool_call_ids msg;
             e1 = (if i > 0 \<and> prev = Some ''assistant'' then [issue_at ''consecutive_assistant'' (int i)] else []);
             e2 = (if content_is_empty (py_get msg ''content'') \<and> calls = []
                   then [issue_at ''empty_content_non_tool_call'' (int i)] else []);
             e3 = (if pend \<noteq> [] then [issue_at ''unanswered_tool_call'' (anchor pidx i)] else []);
             (pend1, pidx1) = (if pend \<noteq> [] then ([], None) else (pend, pidx));
             (pend2, pidx2) = (if calls \<noteq> [] then (calls, Some i) else (pend1, pidx1))
         in (e1 @ e2 @ e3, pend2, pidx2))
      else if role = Some ''user'' then
        (let e1 = (if i > 0 \<and> prev = Some ''user'' then [issue_at ''consecutive_user'' (int i)] else []);
             e2 = (if pend \<noteq> [] then [issue_at ''unanswered_tool_call'' (anchor pidx i)] else []);
             (pend1, pidx1) = (if pend \<noteq> [] then ([], None) else (pend, pidx))
         in (e1 @ e2, pend1, pidx1))
      else if role = Some ''tool'' then
        (case py_get msg ''tool_call_id'' of
           PStr tid \<Rightarrow>
             if tid = [] \<or> tid \<notin> set pend then ([issue_at ''tool_without_call'' (int i)], pend, pidx)
             else (let pend1 = remove1 tid pend in ([], pend1, if pend1 = [] then None else pidx))
         | _ \<Rightarrow> ([issue_at ''tool_without_call'' (int i)], pend, pidx))
      else ([], pend, pidx))"

fun walk ::
  "nat \<Rightarrow> string option \<Rightarrow> string list \<Rightarrow> nat option \<Rightarrow> pyval list \<Rightarrow> issue list \<times> string list \<times> nat option" where
  "walk i prev pend pidx [] = ([], pend, pidx)"
| "walk i prev pend pidx (m # ms) =
     (let (e, pend1, pidx1) = walk_step i prev pend pidx m;
          (es, r) = walk (Suc i) (msg_role m) pend1 pidx1 ms
      in (e @ es, r))"

definition validate :: "bool \<Rightarrow> pyval list \<Rightarrow> validation_result" where
  "validate require_system msgs =
     (if msgs = [] then \<lparr>vr_ok = False, vr_errors = [issue_at ''empty_messages'' (-1)], vr_warnings = []\<rparr>
      else
        let e1 = first_issues require_system (msg_role (hd msgs));
            e2 = system_issues (system_indices msgs);
            (e3, pend, pidx) = walk 0 None [] None msgs;
            e4 = (if pend \<noteq> []
                  then [issue_at ''trailing_assistant_with_open_tool_calls'' (anchor pidx (length msgs - 1))] else []);
            errors = e1 @ e2 @ e3 @ e4
        in \<lparr>vr_ok = (errors = []), vr_errors = errors, vr_warnings = []\<rparr>)"

section \<open>The specification\<close>

definition is_tool :: "pyval \<Rightarrow> bool" where
  "is_tool m \<longleftrightarrow> msg_role m = Some ''tool''"

definition reply_id :: "pyval \<Rightarrow> string option" where
  "reply_id m = (case py_get m ''tool_call_id'' of PStr t \<Rightarrow> if t = [] then None else Some t | _ \<Rightarrow> None)"

definition declared :: "pyval \<Rightarrow> string list" where
  "declared m = (if msg_role m = Some ''assistant'' then tool_call_ids m else [])"

definition noop_turn :: "pyval \<Rightarrow> bool" where
  "noop_turn m \<longleftrightarrow> msg_role m = Some ''assistant'' \<and> content_is_empty (py_get m ''content'') \<and> tool_call_ids m = []"

text \<open>
  A message that is not a tool reply is followed directly by exactly the replies to the calls
  it declares, each answered once, in any order.
\<close>

definition tool_answered :: "pyval list \<Rightarrow> bool" where
  "tool_answered msgs \<longleftrightarrow> (\<forall>i<length msgs. \<not> is_tool (msgs ! i) \<longrightarrow>
     mset (map reply_id (takeWhile is_tool (drop (Suc i) msgs))) = mset (map Some (declared (msgs ! i))))"

definition alternates :: "pyval list \<Rightarrow> bool" where
  "alternates msgs \<longleftrightarrow> (\<forall>i. Suc i < length msgs \<longrightarrow> (\<forall>r\<in>{''assistant'', ''user''}.
     \<not> (msg_role (msgs ! i) = Some r \<and> msg_role (msgs ! Suc i) = Some r)))"

definition well_formed :: "bool \<Rightarrow> pyval list \<Rightarrow> bool" where
  "well_formed require_system msgs \<longleftrightarrow>
     msgs \<noteq> [] \<and>
     (msg_role (hd msgs) = Some ''system'' \<or> \<not> require_system \<and> msg_role (hd msgs) = Some ''user'') \<and>
     (\<forall>m\<in>set msgs. known (msg_role m) \<and> \<not> noop_turn m) \<and>
     (\<forall>m\<in>set (tl msgs). msg_role m \<noteq> Some ''system'') \<and>
     alternates msgs \<and> tool_answered msgs"

section \<open>Proof\<close>

lemma role_cases:
  assumes "known (msg_role m)"
  obtains "msg_role m = Some ''system''" | "msg_role m = Some ''user''" | "msg_role m = Some ''assistant''"
    | "msg_role m = Some ''tool''"
  using assms by (auto simp: known_def known_roles_def split: option.splits)

lemma answered_Cons:
  "tool_answered (m # ms) \<longleftrightarrow>
     (\<not> is_tool m \<longrightarrow> mset (map reply_id (takeWhile is_tool ms)) = mset (map Some (declared m))) \<and> tool_answered ms"
  unfolding tool_answered_def by (auto simp: less_Suc_eq_0_disj)

lemma alternates_Cons:
  "alternates (m # ms) \<longleftrightarrow> (ms \<noteq> [] \<longrightarrow> (\<forall>r\<in>{''assistant'', ''user''}.
     \<not> (msg_role m = Some r \<and> msg_role (hd ms) = Some r))) \<and> alternates ms"
  unfolding alternates_def by (cases ms) (auto simp: less_Suc_eq_0_disj)

definition follows :: "string option \<Rightarrow> pyval list \<Rightarrow> bool" where
  "follows prev ms \<longleftrightarrow> (ms \<noteq> [] \<longrightarrow> (\<forall>r\<in>{''assistant'', ''user''}. \<not> (prev = Some r \<and> msg_role (hd ms) = Some r)))"

lemma tool_step:
  assumes "msg_role m = Some ''tool''"
  shows "walk_step i prev pend pidx m =
    (case reply_id m of
       Some t \<Rightarrow> if t \<in> set pend then ([], remove1 t pend, if remove1 t pend = [] then None else pidx)
                 else ([issue_at ''tool_without_call'' (int i)], pend, pidx)
     | None \<Rightarrow> ([issue_at ''tool_without_call'' (int i)], pend, pidx))"
  using assms by (auto simp: walk_step_def known_def known_roles_def reply_id_def Let_def split: pyval.splits)

lemma mset_reply:
  "mset (r # rs) = mset (map Some p) \<longleftrightarrow>
     (\<exists>t. r = Some t \<and> t \<in> set p \<and> mset rs = mset (map Some (remove1 t p)))"
proof
  assume eq: "mset (r # rs) = mset (map Some p)"
  then have "r \<in> set (map Some p)" by (metis list.set_intros(1) mset_eq_setD)
  then obtain t where t: "r = Some t" "t \<in> set p" by auto
  have "mset (map Some p) = add_mset (Some t) (mset (map Some (remove1 t p)))"
    using t(2) by (simp add: image_mset_Diff)
  then show "\<exists>t. r = Some t \<and> t \<in> set p \<and> mset rs = mset (map Some (remove1 t p))" using eq t by auto
next
  assume "\<exists>t. r = Some t \<and> t \<in> set p \<and> mset rs = mset (map Some (remove1 t p))"
  then obtain t where t: "r = Some t" "t \<in> set p" "mset rs = mset (map Some (remove1 t p))" by blast
  have "mset (map Some p) = add_mset (Some t) (mset (map Some (remove1 t p)))"
    using t(2) by (simp add: image_mset_Diff)
  then show "mset (r # rs) = mset (map Some p)" using t by simp
qed

lemma walk_clean:
  assumes "\<forall>m\<in>set ms. msg_role m \<noteq> Some ''system''" and "0 < i"
  shows "fst (walk i prev pend pidx ms) = [] \<and> fst (snd (walk i prev pend pidx ms)) = [] \<longleftrightarrow>
    (\<forall>m\<in>set ms. known (msg_role m) \<and> \<not> noop_turn m) \<and> follows prev ms \<and> alternates ms \<and>
    mset (map reply_id (takeWhile is_tool ms)) = mset (map Some pend) \<and> tool_answered ms"
  using assms
proof (induction ms arbitrary: i prev pend pidx)
  case Nil
  then show ?case by (auto simp: follows_def alternates_def tool_answered_def)
next
  case (Cons m ms)
  have ih: "fst (walk (Suc i) prev' pend' pidx' ms) = [] \<and> fst (snd (walk (Suc i) prev' pend' pidx' ms)) = [] \<longleftrightarrow>
    (\<forall>m\<in>set ms. known (msg_role m) \<and> \<not> noop_turn m) \<and> follows prev' ms \<and> alternates ms \<and>
    mset (map reply_id (takeWhile is_tool ms)) = mset (map Some pend') \<and> tool_answered ms" for prev' pend' pidx'
    using Cons.IH Cons.prems by simp
  have alt: "alternates (m # ms) \<longleftrightarrow> follows (msg_role m) ms \<and> alternates ms"
    by (simp add: alternates_Cons follows_def)
  show ?case
  proof (cases "known (msg_role m)")
    case False
    then show ?thesis using Cons.prems(2) by (simp add: walk_step_def Let_def case_prod_beta)
  next
    case True
    then show ?thesis
    proof (cases rule: role_cases)
      case 1
      then show ?thesis using Cons.prems(1) by simp
    next
      case 2
      then have "walk i prev pend pidx (m # ms) =
          (let r = walk (Suc i) (msg_role m) [] (if pend \<noteq> [] then None else pidx) ms in
           ((if prev = Some ''user'' then [issue_at ''consecutive_user'' (int i)] else []) @
            (if pend \<noteq> [] then [issue_at ''unanswered_tool_call'' (anchor pidx i)] else []) @ fst r, snd r))"
        using True Cons.prems(2) by (simp add: walk_step_def Let_def case_prod_beta)
      then show ?thesis
        using 2 True ih [of "msg_role m" "[]"]
        by (auto simp: Let_def alt answered_Cons declared_def is_tool_def noop_turn_def follows_def)
    next
      case 3
      then have "walk i prev pend pidx (m # ms) =
          (let calls = tool_call_ids m;
               r = walk (Suc i) (msg_role m) calls (if calls \<noteq> [] then Some i else if pend \<noteq> [] then None else pidx) ms in
           ((if prev = Some ''assistant'' then [issue_at ''consecutive_assistant'' (int i)] else []) @
            (if content_is_empty (py_get m ''content'') \<and> calls = []
             then [issue_at ''empty_content_non_tool_call'' (int i)] else []) @
            (if pend \<noteq> [] then [issue_at ''unanswered_tool_call'' (anchor pidx i)] else []) @ fst r, snd r))"
        using True Cons.prems(2) by (simp add: walk_step_def Let_def case_prod_beta)
      then show ?thesis
        using 3 True ih [of "msg_role m" "tool_call_ids m"]
        by (auto simp: Let_def alt answered_Cons declared_def is_tool_def noop_turn_def follows_def)
    next
      case 4
      show ?thesis
      proof (cases "\<exists>t. reply_id m = Some t \<and> t \<in> set pend")
        case t: True
        then obtain t where t: "reply_id m = Some t" "t \<in> set pend" by blast
        then have "walk i prev pend pidx (m # ms) =
            walk (Suc i) (msg_role m) (remove1 t pend) (if remove1 t pend = [] then None else pidx) ms"
          using tool_step [OF 4, of i prev pend pidx] by (simp add: case_prod_beta)
        moreover have "mset (map reply_id (takeWhile is_tool (m # ms))) = mset (map Some pend) \<longleftrightarrow>
            mset (map reply_id (takeWhile is_tool ms)) = mset (map Some (remove1 t pend))"
          using t 4 mset_reply [of "reply_id m" "map reply_id (takeWhile is_tool ms)" pend] by (simp add: is_tool_def)
        moreover have "\<not> noop_turn m" "follows prev (m # ms)" "tool_answered (m # ms) = tool_answered ms"
          using 4 by (auto simp: noop_turn_def follows_def answered_Cons is_tool_def)
        ultimately show ?thesis
          using True ih [of "msg_role m" "remove1 t pend"] alt by (simp only: list.set ball_simps) blast
      next
        case False
        then have "fst (walk_step i prev pend pidx m) \<noteq> []"
          using tool_step [OF 4, of i prev pend pidx] by (auto split: option.splits)
        then have "fst (walk i prev pend pidx (m # ms)) \<noteq> []" by (simp add: Let_def case_prod_beta)
        moreover have "mset (map reply_id (takeWhile is_tool (m # ms))) \<noteq> mset (map Some pend)"
          using False 4 mset_reply [of "reply_id m" "map reply_id (takeWhile is_tool ms)" pend] by (auto simp: is_tool_def)
        ultimately show ?thesis by blast
      qed
    qed
  qed
qed

lemma system_issues_empty:
  "system_issues (system_indices msgs) = [] \<longleftrightarrow> (\<forall>i<length msgs. msg_role (msgs ! i) = Some ''system'' \<longrightarrow> i = 0)"
proof -
  have d: "distinct (system_indices msgs)" by (simp add: system_indices_def)
  have s: "set (system_indices msgs) = {i. i < length msgs \<and> msg_role (msgs ! i) = Some ''system''}"
    by (auto simp: system_indices_def)
  have all0: "(\<forall>i<length msgs. msg_role (msgs ! i) = Some ''system'' \<longrightarrow> i = 0) \<longleftrightarrow> (\<forall>i\<in>set (system_indices msgs). i = 0)"
    unfolding s by blast
  show ?thesis unfolding all0 using d
    by (cases "system_indices msgs" rule: remdups_adj.cases) (auto simp: system_issues_def)
qed

lemma tl_system:
  assumes "msgs \<noteq> []"
  shows "(\<forall>i<length msgs. msg_role (msgs ! i) = Some ''system'' \<longrightarrow> i = 0) \<longleftrightarrow>
    (\<forall>m\<in>set (tl msgs). msg_role m \<noteq> Some ''system'')"
  using assms by (cases msgs) (simp_all add: all_set_conv_all_nth All_less_Suc2)

lemma first_issues_empty:
  "first_issues rs r = [] \<longleftrightarrow> r = Some ''system'' \<or> \<not> rs \<and> r = Some ''user''"
  by (auto simp: first_issues_def known_def known_roles_def split: option.splits)

lemma validate_ok_parts:
  assumes "msgs = m # ms"
  shows "vr_ok (validate rs msgs) \<longleftrightarrow>
    first_issues rs (msg_role m) = [] \<and> system_issues (system_indices msgs) = [] \<and>
    fst (walk 0 None [] None msgs) = [] \<and> fst (snd (walk 0 None [] None msgs)) = []"
  using assms by (simp add: validate_def Let_def case_prod_beta del: walk.simps)

text \<open>
  The validator accepts exactly the well-formed conversations: non-empty, with an allowed
  first role, only known roles, \<open>system\<close> only at position 0, no two user and no two assistant
  turns in a row, no empty assistant turn, and every turn followed directly by exactly one
  reply to each tool call it declares and by no other reply.
\<close>

theorem validate_accepts_exactly:
  "vr_ok (validate require_system msgs) \<longleftrightarrow> well_formed require_system msgs"
proof (cases msgs)
  case Nil
  then show ?thesis by (simp add: validate_def well_formed_def)
next
  case (Cons m ms)
  note parts = validate_ok_parts [OF Cons, of require_system]
  let ?first = "msg_role m = Some ''system'' \<or> \<not> require_system \<and> msg_role m = Some ''user''"
  let ?nosys = "\<forall>m\<in>set ms. msg_role m \<noteq> Some ''system''"
  have sys: "system_issues (system_indices msgs) = [] \<longleftrightarrow> ?nosys"
    using tl_system [of msgs] Cons by (simp add: system_issues_empty)
  have "fst (walk 0 None [] None msgs) = [] \<and> fst (snd (walk 0 None [] None msgs)) = [] \<longleftrightarrow>
      (\<forall>m\<in>set ms. known (msg_role m) \<and> \<not> noop_turn m) \<and> alternates msgs \<and> tool_answered msgs"
    if f: ?first and n: ?nosys
  proof -
    have k: "known (msg_role m)" "\<not> is_tool m" "declared m = []" "msg_role m \<noteq> Some ''assistant''"
      using f by (auto simp: known_def known_roles_def is_tool_def declared_def)
    have "walk 0 None [] None msgs = walk (Suc 0) (msg_role m) [] None ms"
      using f Cons k by (auto simp: walk_step_def Let_def case_prod_beta)
    then show ?thesis
      using walk_clean [OF n, of "Suc 0" "msg_role m" "[]" None] k Cons
      by (auto simp: answered_Cons alternates_Cons follows_def)
  qed
  moreover have "?first \<Longrightarrow> known (msg_role m) \<and> \<not> noop_turn m"
    by (auto simp: known_def known_roles_def noop_turn_def)
  ultimately show ?thesis
    unfolding parts well_formed_def first_issues_empty sys using Cons by (auto simp del: walk.simps)
qed

end
