(* ===== verification/Span_Detector.thy ===== *)
theory Span_Detector
  imports Prelude "HOL-Library.Char_ord" "HOL-Library.List_Lexorder" "HOL-Library.Product_Lexorder"
begin

text \<open>
  The structural check of execution traces
  (\<open>agent-trace-span-orphan-detector/detector.py\<close>).  Spans arrive as arbitrary Python values;
  after validation they are records.  A finding is its kind and span id, with the data of the
  detail message.
\<close>

section \<open>Validation\<close>

datatype trace_error =
    NotADict nat
  | MissingField nat string
  | BadSpanId nat
  | BadParent nat
  | BadTraceId nat
  | BadStartedAt nat
  | DuplicateSpanId nat string

definition required_fields :: "string list" where
  "required_fields = [''span_id'', ''parent_span_id'', ''trace_id'', ''name'', ''started_at'']"

fun non_empty_str :: "pyval \<Rightarrow> bool" where
  "non_empty_str (PStr s) = (s \<noteq> [])"
| "non_empty_str _ = False"

fun py_number :: "pyval \<Rightarrow> rat option" where
  "py_number (PInt i) = Some (of_int i)"
| "py_number (PBool b) = Some (of_bool b)"
| "py_number (PFloat r) = Some r"
| "py_number _ = None"

fun validate_span :: "pyval \<Rightarrow> nat \<Rightarrow> trace_error option" where
  "validate_span (PDict d) i =
     (case filter (\<lambda>f. map_of d f = None) required_fields of
        f # _ \<Rightarrow> Some (MissingField i f)
      | [] \<Rightarrow>
          if \<not> non_empty_str (py_get (PDict d) ''span_id'') then Some (BadSpanId i)
          else if py_get (PDict d) ''parent_span_id'' \<noteq> PNone \<and> \<not> non_empty_str (py_get (PDict d) ''parent_span_id'')
          then Some (BadParent i)
          else if \<not> non_empty_str (py_get (PDict d) ''trace_id'') then Some (BadTraceId i)
          else if py_number (py_get (PDict d) ''started_at'') = None then Some (BadStartedAt i)
          else None)"
| "validate_span _ i = Some (NotADict i)"

record span =
  sp_id :: string
  sp_parent :: "string option"
  sp_trace :: string
  sp_started :: rat
  sp_open :: bool

text \<open>The fields \<open>detect\<close> reads of a validated span; \<open>sp_open\<close> is \<open>finished_at is None\<close>.\<close>

definition str_of :: "pyval \<Rightarrow> string" where
  "str_of v = (case v of PStr s \<Rightarrow> s | _ \<Rightarrow> [])"

definition read_span :: "pyval \<Rightarrow> span" where
  "read_span v =
     \<lparr>sp_id = str_of (py_get v ''span_id''),
      sp_parent = (case py_get v ''parent_span_id'' of PStr s \<Rightarrow> Some s | _ \<Rightarrow> None),
      sp_trace = str_of (py_get v ''trace_id''),
      sp_started = (case py_number (py_get v ''started_at'') of Some t \<Rightarrow> t | None \<Rightarrow> 0),
      sp_open = (py_get v ''finished_at'' = PNone)\<rparr>"

fun check_spans :: "nat \<Rightarrow> pyval list \<Rightarrow> trace_error option" where
  "check_spans i [] = None"
| "check_spans i (v # vs) = (case validate_span v i of Some e \<Rightarrow> Some e | None \<Rightarrow> check_spans (Suc i) vs)"

fun check_unique :: "nat \<Rightarrow> string list \<Rightarrow> span list \<Rightarrow> trace_error option" where
  "check_unique i seen [] = None"
| "check_unique i seen (s # ss) =
     (if sp_id s \<in> set seen then Some (DuplicateSpanId i (sp_id s)) else check_unique (Suc i) (sp_id s # seen) ss)"

section \<open>Detection\<close>

datatype finding_kind = Cross_trace | Cycle | Dangling_open | Multiple_roots | Orphan

text \<open>The order of the kinds is the order of their names in the code.\<close>

fun kind_name :: "finding_kind \<Rightarrow> string" where
  "kind_name Cross_trace = ''cross_trace''"
| "kind_name Cycle = ''cycle''"
| "kind_name Dangling_open = ''dangling_open''"
| "kind_name Multiple_roots = ''multiple_roots''"
| "kind_name Orphan = ''orphan''"

datatype finding_detail =
    Roots_of string nat
  | Parent_absent string
  | Parent_trace string string string
  | Loops_at string
  | Exceeded
  | Not_latest

record finding =
  fi_kind :: finding_kind
  fi_span :: string
  fi_detail :: finding_detail

record trace_report =
  tr_ok :: bool
  span_count :: nat
  root_count :: nat
  tr_findings :: "finding list"

definition by_id :: "span list \<Rightarrow> string \<Rightarrow> span option" where
  "by_id ss = map_of (map (\<lambda>s. (sp_id s, s)) ss)"

definition roots :: "span list \<Rightarrow> span list" where
  "roots ss = filter (\<lambda>s. sp_parent s = None) ss"

definition roots_by_trace :: "span list \<Rightarrow> (string, span list) dict" where
  "roots_by_trace rs =
     foldl (\<lambda>d r. dict_set (sp_trace r) ((case dict_get d (sp_trace r) of None \<Rightarrow> [] | Some xs \<Rightarrow> xs) @ [r]) d) [] rs"

definition root_findings :: "span list \<Rightarrow> finding list" where
  "root_findings ss =
     concat (map (\<lambda>(tid, rs). if length rs > 1
       then map (\<lambda>r. \<lparr>fi_kind = Multiple_roots, fi_span = sp_id r, fi_detail = Roots_of tid (length rs)\<rparr>) rs else [])
       (roots_by_trace (roots ss)))"

text \<open>
  The walk along the parent chain: \<open>fuel\<close> is \<open>len(spans) - steps\<close>, so that the branch for
  \<open>steps > len(spans)\<close> is taken when it runs out.
\<close>

fun walk_up :: "span list \<Rightarrow> nat \<Rightarrow> string list \<Rightarrow> span \<Rightarrow> finding_detail option" where
  "walk_up ss fuel seen cur =
     (if sp_id cur \<in> set seen then Some (Loops_at (sp_id cur))
      else case sp_parent cur of
        None \<Rightarrow> None
      | Some p \<Rightarrow>
          (case fuel of
             0 \<Rightarrow> Some Exceeded
           | Suc n \<Rightarrow> (case by_id ss p of None \<Rightarrow> None | Some par \<Rightarrow> walk_up ss n (sp_id cur # seen) par)))"

declare walk_up.simps [simp del]

definition parent_findings :: "span list \<Rightarrow> span \<Rightarrow> finding list" where
  "parent_findings ss s =
     (case sp_parent s of
        None \<Rightarrow> []
      | Some pid \<Rightarrow>
          (case by_id ss pid of
             None \<Rightarrow> [\<lparr>fi_kind = Orphan, fi_span = sp_id s, fi_detail = Parent_absent pid\<rparr>]
           | Some par \<Rightarrow>
               (if sp_trace par \<noteq> sp_trace s
                then [\<lparr>fi_kind = Cross_trace, fi_span = sp_id s, fi_detail = Parent_trace (sp_trace s) pid (sp_trace par)\<rparr>]
                else []) @
               (case walk_up ss (length ss) [] s of
                  None \<Rightarrow> [] | Some d \<Rightarrow> [\<lparr>fi_kind = Cycle, fi_span = sp_id s, fi_detail = d\<rparr>])))"

definition open_findings :: "span list \<Rightarrow> finding list" where
  "open_findings ss =
     (if ss = [] then []
      else
        let latest = Max (set (map sp_started ss)) in
        map (\<lambda>s. \<lparr>fi_kind = Dangling_open, fi_span = sp_id s, fi_detail = Not_latest\<rparr>)
          (filter (\<lambda>s. sp_open s \<and> sp_started s \<noteq> latest) ss))"

definition detect_spans :: "span list \<Rightarrow> trace_report" where
  "detect_spans ss =
     (let fs = root_findings ss @ concat (map (parent_findings ss) ss) @ open_findings ss in
      \<lparr>tr_ok = (length fs = 0), span_count = length ss, root_count = length (roots ss),
       tr_findings = sort_key (\<lambda>f. (kind_name (fi_kind f), fi_span f)) fs\<rparr>)"

definition detect :: "pyval list \<Rightarrow> trace_error + trace_report" where
  "detect vs =
     (case check_spans 0 vs of
        Some e \<Rightarrow> Inl e
      | None \<Rightarrow>
          let ss = map read_span vs in
          (case check_unique 0 [] ss of Some e \<Rightarrow> Inl e | None \<Rightarrow> Inr (detect_spans ss)))"

section \<open>Ancestry\<close>

text \<open>\<open>reaches_root ss s r\<close>: following parents from \<open>s\<close> inside the trace ends at the root \<open>r\<close>.\<close>

inductive reaches_root :: "span list \<Rightarrow> span \<Rightarrow> span \<Rightarrow> bool" for ss where
  root: "sp_parent s = None \<Longrightarrow> reaches_root ss s s"
| up: "sp_parent s = Some p \<Longrightarrow> by_id ss p = Some par \<Longrightarrow> sp_trace par = sp_trace s \<Longrightarrow>
       reaches_root ss par r \<Longrightarrow> reaches_root ss s r"

inductive_cases reaches_root_upE: "reaches_root ss s r"

definition parent :: "span list \<Rightarrow> span \<Rightarrow> span option" where
  "parent ss s = (case sp_parent s of None \<Rightarrow> None | Some p \<Rightarrow> by_id ss p)"

lemma by_id_Some: "by_id ss p = Some s \<Longrightarrow> s \<in> set ss \<and> sp_id s = p"
  unfolding by_id_def by (induction ss) (auto split: if_splits)

lemma by_id_self:
  "distinct (map sp_id ss) \<Longrightarrow> s \<in> set ss \<Longrightarrow> by_id ss (sp_id s) = Some s"
  unfolding by_id_def by (induction ss) (auto simp: image_iff)

text \<open>The walk never runs out of fuel: the ids seen are distinct ids of the trace.\<close>

lemma walk_up_fuel:
  assumes "set seen \<subseteq> sp_id ` set ss" "distinct seen" "cur \<in> set ss" "distinct (map sp_id ss)"
    "length ss \<le> fuel + length seen"
  shows "walk_up ss fuel seen cur \<noteq> Some Exceeded"
  using assms
proof (induction fuel arbitrary: seen cur)
  case 0
  have "card (set seen) = length seen" using 0 distinct_card by blast
  moreover have "card (sp_id ` set ss) = length ss" using 0(4) by (metis distinct_card length_map set_map)
  ultimately have "set seen = sp_id ` set ss" using 0 by (intro card_seteq) auto
  then show ?case using 0 by (subst walk_up.simps) auto
next
  case (Suc n)
  show ?case
    by (subst walk_up.simps, insert Suc.prems Suc.IH [of "sp_id cur # seen"])
       (auto split: option.splits dest: by_id_Some)
qed

lemma walk_up_None:
  assumes "walk_up ss fuel seen s = None" and "\<forall>x\<in>set ss. parent_findings ss x = []" and "s \<in> set ss"
  shows "\<exists>r\<in>set ss. reaches_root ss s r"
  using assms
proof (induction fuel arbitrary: seen s)
  case 0
  then have "sp_parent s = None" by (subst (asm) walk_up.simps) (auto split: if_splits option.splits)
  then show ?case using 0 reaches_root.root by blast
next
  case (Suc n)
  show ?case
  proof (cases "sp_parent s")
    case None
    then show ?thesis using Suc.prems reaches_root.root by blast
  next
    case (Some p)
    have "parent_findings ss s = []" using Suc.prems by blast
    then obtain par where par: "by_id ss p = Some par" "sp_trace par = sp_trace s"
      using Some by (auto simp: parent_findings_def split: option.splits if_splits)
    have "walk_up ss n (sp_id s # seen) par = None"
      using Suc.prems(1) Some par by (subst (asm) walk_up.simps) (auto split: if_splits)
    then obtain r where "r \<in> set ss" "reaches_root ss par r" using Suc by_id_Some [OF par(1)] by blast
    then show ?thesis using reaches_root.up [OF Some par] by blast
  qed
qed

text \<open>The distance to the root, to show that a span that reaches a root is on no cycle.\<close>

inductive depth :: "span list \<Rightarrow> span \<Rightarrow> nat \<Rightarrow> bool" for ss where
  zero: "sp_parent s = None \<Longrightarrow> depth ss s 0"
| suc: "sp_parent s = Some p \<Longrightarrow> by_id ss p = Some par \<Longrightarrow> depth ss par n \<Longrightarrow> depth ss s (Suc n)"

inductive_cases depthE: "depth ss s n"

lemma depth_unique: "depth ss s n \<Longrightarrow> depth ss s m \<Longrightarrow> n = m"
proof (induction arbitrary: m rule: depth.induct)
  case (zero s)
  then show ?case by (auto elim: depthE)
next
  case (suc s p par n)
  from suc.prems obtain k where "m = Suc k" "depth ss par k"
    using suc.hyps by (cases rule: depthE) auto
  then show ?case using suc.IH by simp
qed

lemma reaches_depth: "reaches_root ss s r \<Longrightarrow> \<exists>n. depth ss s n"
  by (induction rule: reaches_root.induct) (blast intro: depth.intros)+

lemma depth_walk:
  assumes "depth ss s n" "distinct (map sp_id ss)" "s \<in> set ss"
    "\<forall>x\<in>set seen. \<exists>sx m. by_id ss x = Some sx \<and> depth ss sx m \<and> n < m"
  shows "walk_up ss fuel seen s \<in> {None, Some Exceeded}"
  using assms
proof (induction arbitrary: seen fuel rule: depth.induct)
  case (zero s)
  have "sp_id s \<notin> set seen" using zero by_id_self [OF zero.prems(1,2)] depth_unique [OF depth.zero [OF zero.hyps]] by fastforce
  then show ?case using zero.hyps by (subst walk_up.simps) simp
next
  case (suc s p par n)
  have d: "depth ss s (Suc n)" by (rule depth.suc [OF suc.hyps])
  have self: "by_id ss (sp_id s) = Some s" by (rule by_id_self [OF suc.prems(1,2)])
  have new: "sp_id s \<notin> set seen" using suc.prems(3) self depth_unique [OF d] by fastforce
  have "\<forall>x\<in>set (sp_id s # seen). \<exists>sx m. by_id ss x = Some sx \<and> depth ss sx m \<and> n < m"
    using suc.prems(3) self d by (metis Suc_lessD insert_iff lessI list.simps(15))
  then have "walk_up ss k (sp_id s # seen) par \<in> {None, Some Exceeded}" for k
    using suc.IH suc.prems(1) by_id_Some [OF suc.hyps(2)] by blast
  then show ?case using new suc.hyps by (subst walk_up.simps) (auto split: nat.splits)
qed

lemma reaches_walk:
  assumes "reaches_root ss s r" "distinct (map sp_id ss)" "s \<in> set ss"
  shows "walk_up ss (length ss) [] s = None"
proof -
  from reaches_depth [OF assms(1)] obtain n where "depth ss s n" by blast
  from depth_walk [OF this assms(2,3), of "[]" "length ss"] walk_up_fuel [of "[]" ss s "length ss"] assms(2,3)
  show ?thesis by auto
qed

lemma reaches_parent_findings:
  assumes "reaches_root ss s r" "distinct (map sp_id ss)" "s \<in> set ss"
  shows "parent_findings ss s = []"
  using assms(1)
proof (cases rule: reaches_root.cases)
  case (up p par)
  then show ?thesis using reaches_walk [OF assms] by (simp add: parent_findings_def)
qed (simp add: parent_findings_def)

lemma parent_findings_empty:
  assumes "distinct (map sp_id ss)"
  shows "(\<forall>s\<in>set ss. parent_findings ss s = []) \<longleftrightarrow> (\<forall>s\<in>set ss. \<exists>r. reaches_root ss s r)"
proof
  assume all: "\<forall>s\<in>set ss. parent_findings ss s = []"
  have "\<exists>r. reaches_root ss s r" if s: "s \<in> set ss" for s
  proof (cases "sp_parent s")
    case None
    then show ?thesis using reaches_root.root by blast
  next
    case (Some p)
    then have "walk_up ss (length ss) [] s = None"
      using all s by (fastforce simp: parent_findings_def split: option.splits if_splits)
    from walk_up_None [OF this all s] show ?thesis by blast
  qed
  then show "\<forall>s\<in>set ss. \<exists>r. reaches_root ss s r" by blast
qed (use reaches_parent_findings [OF _ assms] in blast)

section \<open>Roots\<close>

lemma roots_by_trace_snoc:
  "roots_by_trace (rs @ [r]) =
     dict_set (sp_trace r) ((case dict_get (roots_by_trace rs) (sp_trace r) of None \<Rightarrow> [] | Some xs \<Rightarrow> xs) @ [r]) (roots_by_trace rs)"
  by (simp add: roots_by_trace_def)

lemma roots_by_trace_get:
  "dict_wf (roots_by_trace rs) \<and> dict_get (roots_by_trace rs) t =
     (let f = filter (\<lambda>r. sp_trace r = t) rs in if f = [] then None else Some f)"
proof (induction rs arbitrary: t rule: rev_induct)
  case Nil
  then show ?case by (simp add: roots_by_trace_def)
next
  case (snoc r rs)
  then show ?case by (auto simp: roots_by_trace_snoc Let_def)
qed

lemma root_findings_empty:
  "root_findings ss = [] \<longleftrightarrow> (\<forall>t. length (filter (\<lambda>r. sp_trace r = t) (roots ss)) \<le> 1)"
proof -
  let ?d = "roots_by_trace (roots ss)"
  have e: "root_findings ss = [] \<longleftrightarrow> (\<forall>(t, rs)\<in>set ?d. length rs \<le> 1)"
    by (auto simp: root_findings_def split: if_splits)
  have wf: "dict_wf ?d" using roots_by_trace_get by blast
  have mem: "(t, rs) \<in> set ?d \<longleftrightarrow> dict_get ?d t = Some rs" for t rs
    using wf by (simp add: dict_wf_def)
  show ?thesis unfolding e using roots_by_trace_get [of "roots ss"] mem
    by (auto simp: Let_def split: if_splits) (metis le0 list.size(3) prod.case)
qed

lemma at_most_one_root:
  assumes "distinct ss"
  shows "(\<forall>t. length (filter (\<lambda>r. sp_trace r = t) (roots ss)) \<le> 1) \<longleftrightarrow>
    (\<forall>r\<in>set (roots ss). \<forall>r'\<in>set (roots ss). sp_trace r = sp_trace r' \<longrightarrow> r = r')"
proof -
  have card: "length (filter (\<lambda>r. sp_trace r = t) (roots ss)) = card {r \<in> set (roots ss). sp_trace r = t}" for t
    using assms by (simp add: roots_def distinct_card [symmetric] distinct_length_filter)
  show ?thesis unfolding card by (auto simp: card_le_Suc0_iff_eq)
qed

section \<open>The property\<close>

lemma check_unique_distinct: "check_unique i seen ss = None \<longleftrightarrow> distinct (map sp_id ss) \<and> sp_id ` set ss \<inter> set seen = {}"
  by (induction ss arbitrary: i seen) auto

lemma reaches_root_trace: "reaches_root ss s r \<Longrightarrow> s \<in> set ss \<Longrightarrow> r \<in> set (roots ss) \<and> sp_trace r = sp_trace s"
  by (induction rule: reaches_root.induct) (auto simp: roots_def dest: by_id_Some)

lemma open_findings_empty:
  "open_findings ss = [] \<longleftrightarrow> (\<forall>s\<in>set ss. sp_open s \<longrightarrow> (\<forall>s'\<in>set ss. sp_started s' \<le> sp_started s))"
proof (cases "ss = []")
  case False
  let ?m = "Max (set (map sp_started ss))"
  have "sp_started s = ?m \<longleftrightarrow> (\<forall>s'\<in>set ss. sp_started s' \<le> sp_started s)" if "s \<in> set ss" for s
  proof
    assume all: "\<forall>s'\<in>set ss. sp_started s' \<le> sp_started s"
    have "?m = sp_started s" by (rule Max_eqI) (use all that in auto)
    then show "sp_started s = ?m" by simp
  next
    assume "sp_started s = ?m"
    then show "\<forall>s'\<in>set ss. sp_started s' \<le> sp_started s" by simp
  qed
  then show ?thesis using False unfolding open_findings_def Let_def by (simp add: filter_empty_conv)
qed (simp add: open_findings_def)

text \<open>
  C36.  A list of spans that passes the validation is reported as structurally sound exactly when
  it is a forest with one tree per trace id and no span was left open before the latest
  activity: following parents from every span, without leaving its trace id, ends at a root;
  no trace id has two roots; and a span without an end time is one of those that started last.
  In particular the cycle check is exact, and its safety net is never needed.
\<close>

theorem detect_ok_iff_forest:
  assumes "detect vs = Inr rep" and "ss = map read_span vs"
  shows "(tr_ok rep \<longleftrightarrow>
      (\<forall>s\<in>set ss. \<exists>r. reaches_root ss s r) \<and>
      (\<forall>r\<in>set (roots ss). \<forall>r'\<in>set (roots ss). sp_trace r = sp_trace r' \<longrightarrow> r = r') \<and>
      (\<forall>s\<in>set ss. sp_open s \<longrightarrow> (\<forall>s'\<in>set ss. sp_started s' \<le> sp_started s))) \<and>
    (\<forall>f\<in>set (tr_findings rep). fi_detail f \<noteq> Exceeded)"
proof -
  have d: "distinct (map sp_id ss)" and rep: "rep = detect_spans ss"
    using assms by (auto simp: detect_def check_unique_distinct Let_def split: option.splits)
  have dss: "distinct ss" using d by (simp add: distinct_map)
  have "fi_detail f \<noteq> Exceeded" if f: "f \<in> set (tr_findings rep)" for f
    using f walk_up_fuel [of "[]" ss _ "length ss"] d unfolding rep
    by (auto simp: detect_spans_def Let_def root_findings_def open_findings_def parent_findings_def
        split: if_splits option.splits)
  moreover have "tr_ok rep \<longleftrightarrow> root_findings ss = [] \<and> (\<forall>s\<in>set ss. parent_findings ss s = []) \<and> open_findings ss = []"
    unfolding rep by (simp add: detect_spans_def Let_def)
  ultimately show ?thesis
    using parent_findings_empty [OF d] root_findings_empty at_most_one_root [OF dss] open_findings_empty by blast
qed

theorem detect_ok_iff_forest_witness:
  "\<exists>rep. detect [PDict [(''span_id'', PStr ''a''), (''parent_span_id'', PStr ''b''), (''trace_id'', PStr ''t''),
       (''name'', PStr ''x''), (''started_at'', PInt 1), (''finished_at'', PInt 2)]] = Inr rep \<and>
     (\<forall>f\<in>set (tr_findings rep). fi_detail f \<noteq> Exceeded)"
  (is "\<exists>rep. detect ?vs = Inr rep \<and> _")
proof -
  have "\<exists>rep. detect ?vs = Inr rep" by (simp add: detect_def required_fields_def Let_def)
  then obtain rep where r: "detect ?vs = Inr rep" by blast
  from detect_ok_iff_forest [OF r refl] r show ?thesis by blast
qed

end
