(* ===== verification/Budget_Allocator.thy ===== *)
theory Budget_Allocator
  imports Prelude "HOL-Library.Multiset"
begin

text \<open>
  The allocator of a token budget over prompt sections
  (\<open>prompt-token-budget-allocator/allocator.py\<close>): the floor pass and the top-up pass in
  priority order, then the final statuses.  The dictionaries keyed by section name are
  functions; the texts of reasons and log lines are constructors with the same data.
\<close>

section \<open>Sections and results\<close>

record prompt_section =
  s_name :: string
  s_priority :: int
  min_tokens :: int
  ideal_tokens :: int
  current_tokens :: int

datatype alloc_error =
    TokenCountValueError string
  | PriorityValueError string
  | MinAboveIdeal string
  | BudgetValueError int
  | DuplicateName string
  | BudgetTooSmall string int int

definition new_section :: "prompt_section \<Rightarrow> alloc_error + prompt_section" where
  "new_section s =
     (if min_tokens s < 0 \<or> ideal_tokens s < 0 \<or> current_tokens s < 0 then Inl (TokenCountValueError (s_name s))
      else if s_priority s < 0 then Inl (PriorityValueError (s_name s))
      else if min_tokens s > ideal_tokens s then Inl (MinAboveIdeal (s_name s))
      else Inr s)"

definition section_ok :: "prompt_section \<Rightarrow> bool" where
  "section_ok s \<longleftrightarrow> new_section s = Inr s"

lemma section_ok_min: "section_ok s \<Longrightarrow> 0 \<le> min_tokens s"
  by (simp add: section_ok_def new_section_def split: if_splits)

datatype status = Intact | Truncated | Dropped | Skipped_empty

datatype reason =
    No_reason
  | No_content
  | Floor_did_not_fit int int
  | No_headroom_after_floors
  | Allocated_of_ideal int int
  | Allocated_of_current int int int

datatype log_line =
    Log_skip string
  | Log_floor string int int int
  | Log_drop string int int int
  | Log_topup string int int int int int

record allocation =
  a_section_name :: string
  a_allocated :: int
  a_status :: status
  a_reason :: reason

record allocation_result =
  allocations :: "allocation list"
  ar_budget :: int
  budget_used :: int
  budget_headroom :: int
  decisions :: "log_line list"

section \<open>The algorithm\<close>

record work =
  wk_alloc :: "string \<Rightarrow> int"
  wk_status :: "string \<rightharpoonup> status \<times> reason"
  wk_headroom :: int
  wk_log :: "log_line list"

fun first_duplicate :: "string list \<Rightarrow> prompt_section list \<Rightarrow> string option" where
  "first_duplicate seen [] = None"
| "first_duplicate seen (s # ss) =
     (if s_name s \<in> set seen then Some (s_name s) else first_duplicate (s_name s # seen) ss)"

definition skip_empty :: "prompt_section list \<Rightarrow> work \<Rightarrow> work" where
  "skip_empty ss w =
     fold (\<lambda>s w. if current_tokens s = 0
        then w\<lparr>wk_status := (wk_status w)(s_name s \<mapsto> (Skipped_empty, No_content)), wk_log := wk_log w @ [Log_skip (s_name s)]\<rparr>
        else w) ss w"

definition workable :: "prompt_section list \<Rightarrow> prompt_section list" where
  "workable ss = filter (\<lambda>s. current_tokens s \<noteq> 0) ss"

definition floor_step :: "prompt_section \<Rightarrow> work \<Rightarrow> alloc_error + work" where
  "floor_step s w =
     (let fl = min_tokens s in
      if fl = 0 then Inr w
      else if fl \<le> wk_headroom w then
        Inr (w\<lparr>wk_alloc := (wk_alloc w)(s_name s := fl), wk_headroom := wk_headroom w - fl,
               wk_log := wk_log w @ [Log_floor (s_name s) (s_priority s) fl (wk_headroom w - fl)]\<rparr>)
      else if s_priority s = 0 then Inl (BudgetTooSmall (s_name s) fl (wk_headroom w))
      else Inr (w\<lparr>wk_status := (wk_status w)(s_name s \<mapsto> (Dropped, Floor_did_not_fit fl (wk_headroom w))),
                  wk_log := wk_log w @ [Log_drop (s_name s) (s_priority s) fl (wk_headroom w)]\<rparr>))"

fun floor_pass :: "prompt_section list \<Rightarrow> work \<Rightarrow> alloc_error + work" where
  "floor_pass [] w = Inr w"
| "floor_pass (s # ss) w = (case floor_step s w of Inl e \<Rightarrow> Inl e | Inr w' \<Rightarrow> floor_pass ss w')"

definition is_dropped :: "work \<Rightarrow> string \<Rightarrow> bool" where
  "is_dropped w n \<longleftrightarrow> (case wk_status w n of Some (Dropped, _) \<Rightarrow> True | _ \<Rightarrow> False)"

definition target :: "prompt_section \<Rightarrow> int" where
  "target s = min (ideal_tokens s) (current_tokens s)"

definition topup_step :: "prompt_section \<Rightarrow> work \<Rightarrow> work" where
  "topup_step s w =
     (if is_dropped w (s_name s) then w
      else
        let already = wk_alloc w (s_name s);
            want_more = max 0 (target s - already);
            give = min want_more (wk_headroom w) in
        if want_more = 0 then w
        else if give > 0 then
          w\<lparr>wk_alloc := (wk_alloc w)(s_name s := already + give), wk_headroom := wk_headroom w - give,
            wk_log := wk_log w @ [Log_topup (s_name s) (s_priority s) give (already + give) (target s) (wk_headroom w - give)]\<rparr>
        else w)"

definition topup_pass :: "prompt_section list \<Rightarrow> work \<Rightarrow> work" where
  "topup_pass ss w = fold topup_step ss w"

definition finalize_step :: "prompt_section \<Rightarrow> work \<Rightarrow> work" where
  "finalize_step s w =
     (if is_dropped w (s_name s) then w
      else
        let a = wk_alloc w (s_name s); t = target s;
            st = (if a = 0 then (Dropped, No_headroom_after_floors)
                  else if a < t then (Truncated, Allocated_of_ideal a t)
                  else if a \<ge> current_tokens s then (Intact, No_reason)
                  else (Truncated, Allocated_of_current a (current_tokens s) t))
        in w\<lparr>wk_status := (wk_status w)(s_name s \<mapsto> st)\<rparr>)"

definition out_row :: "work \<Rightarrow> prompt_section \<Rightarrow> allocation" where
  "out_row w s =
     (let (st, r) = (case wk_status w (s_name s) of Some p \<Rightarrow> p | None \<Rightarrow> (Intact, No_reason)) in
      \<lparr>a_section_name = s_name s, a_allocated = wk_alloc w (s_name s), a_status = st, a_reason = r\<rparr>)"

definition initial :: "int \<Rightarrow> work" where
  "initial budget = \<lparr>wk_alloc = (\<lambda>_. 0), wk_status = Map.empty, wk_headroom = budget, wk_log = []\<rparr>"

definition allocate :: "prompt_section list \<Rightarrow> int \<Rightarrow> alloc_error + allocation_result" where
  "allocate sections budget =
     (if budget < 0 then Inl (BudgetValueError budget)
      else case first_duplicate [] sections of
        Some n \<Rightarrow> Inl (DuplicateName n)
      | None \<Rightarrow>
          let indexed = sort_key s_priority (workable sections) in
          (case floor_pass indexed (skip_empty sections (initial budget)) of
             Inl e \<Rightarrow> Inl e
           | Inr w1 \<Rightarrow>
               let w2 = topup_pass indexed w1;
                   w3 = fold finalize_step (workable sections) w2 in
               Inr \<lparr>allocations = map (out_row w3) sections, ar_budget = budget,
                    budget_used = budget - wk_headroom w2, budget_headroom = wk_headroom w2,
                    decisions = wk_log w3\<rparr>))"

section \<open>Invariants of the passes\<close>

abbreviation total :: "prompt_section list \<Rightarrow> work \<Rightarrow> int" where
  "total ss w \<equiv> sum_list (map (\<lambda>s. wk_alloc w (s_name s)) ss)"

lemma sum_list_update:
  assumes "distinct (map s_name ss)" "s \<in> set ss"
  shows "sum_list (map (\<lambda>x. (f(s_name s := v)) (s_name x)) ss) = sum_list (map (\<lambda>x. f (s_name x)) ss) - f (s_name s) + (v :: int)"
  using assms
proof (induction ss)
  case (Cons x ss)
  show ?case
  proof (cases "s = x")
    case True
    then have "s_name y \<noteq> s_name s" if "y \<in> set ss" for y using Cons.prems that by (metis distinct.simps(2) imageI list.simps(9) set_map)
    then have "map (\<lambda>y. (f(s_name s := v)) (s_name y)) ss = map (\<lambda>y. f (s_name y)) ss"
      by (intro map_cong) auto
    then have "sum_list (map (\<lambda>y. (f(s_name s := v)) (s_name y)) ss) = sum_list (map (\<lambda>y. f (s_name y)) ss)"
      by (rule arg_cong)
    then show ?thesis using True by simp
  next
    case False
    then have "s_name s \<noteq> s_name x" using Cons.prems by (auto simp: image_iff)
    then show ?thesis using Cons False by simp
  qed
qed simp

lemma first_duplicate_None: "first_duplicate seen ss = None \<longleftrightarrow> distinct (map s_name ss) \<and> s_name ` set ss \<inter> set seen = {}"
  by (induction ss arbitrary: seen) auto

lemma skip_empty_fields:
  "wk_alloc (skip_empty ss w) = wk_alloc w" "wk_headroom (skip_empty ss w) = wk_headroom w"
  "is_dropped w n = False \<Longrightarrow> is_dropped (skip_empty ss w) n = False"
  unfolding skip_empty_def
  by (induction ss arbitrary: w) (auto simp: is_dropped_def split: option.splits)

text \<open>
  After the floors of \<open>dn\<close>: the budget is split between the sections and the headroom, a
  section of \<open>dn\<close> is dropped without tokens or holds its floor, the others hold nothing.
\<close>

definition floored :: "prompt_section list \<Rightarrow> prompt_section list \<Rightarrow> int \<Rightarrow> work \<Rightarrow> bool" where
  "floored ss dn b w \<longleftrightarrow> wk_headroom w \<ge> 0 \<and> total ss w + wk_headroom w = b \<and>
     (\<forall>s\<in>set ss. if s \<in> set dn \<and> \<not> is_dropped w (s_name s) then wk_alloc w (s_name s) = min_tokens s
                 else wk_alloc w (s_name s) = 0) \<and>
     (\<forall>s\<in>set ss. is_dropped w (s_name s) \<longrightarrow> s \<in> set dn \<and> s_priority s \<noteq> 0 \<and> min_tokens s > 0)"

lemma floor_step_floored:
  assumes "floored ss dn b w" "floor_step s w = Inr w'" "s \<in> set ss" "s \<notin> set dn"
    "distinct (map s_name ss)" "section_ok s"
  shows "floored ss (s # dn) b w'"
proof -
  have nm: "s_name x = s_name s \<longleftrightarrow> x = s" if "x \<in> set ss" for x
    using assms(3,5) that by (auto simp: distinct_map inj_on_def)
  have m: "min_tokens s \<ge> 0" using assms(6) by (rule section_ok_min)
  have nd: "\<not> is_dropped w (s_name s)" "wk_alloc w (s_name s) = 0"
    using assms(1,3,4) by (auto simp: floored_def)
  consider (zero) "min_tokens s = 0" "w' = w" | (fit) "min_tokens s \<noteq> 0" "min_tokens s \<le> wk_headroom w"
      "w' = w\<lparr>wk_alloc := (wk_alloc w)(s_name s := min_tokens s), wk_headroom := wk_headroom w - min_tokens s,
              wk_log := wk_log w @ [Log_floor (s_name s) (s_priority s) (min_tokens s) (wk_headroom w - min_tokens s)]\<rparr>"
    | (drop) "min_tokens s \<noteq> 0" "s_priority s \<noteq> 0"
      "w' = w\<lparr>wk_status := (wk_status w)(s_name s \<mapsto> (Dropped, Floor_did_not_fit (min_tokens s) (wk_headroom w))),
              wk_log := wk_log w @ [Log_drop (s_name s) (s_priority s) (min_tokens s) (wk_headroom w)]\<rparr>"
    using assms(2) by (auto simp: floor_step_def Let_def split: if_splits)
  then show ?thesis
  proof cases
    case zero
    then show ?thesis using assms(1,3) nd by (auto simp: floored_def)
  next
    case fit
    have "total ss w' = total ss w + min_tokens s"
      unfolding fit(3) using sum_list_update [OF assms(5,3), of "wk_alloc w" "min_tokens s"] nd(2) by simp
    then show ?thesis using assms(1) fit nd nm by (auto simp: floored_def is_dropped_def)
  next
    case drop
    then show ?thesis using assms(1,3) nd nm m by (auto simp: floored_def is_dropped_def)
  qed
qed

lemma floor_pass_floored:
  assumes "floored ss dn b w" "floor_pass todo w = Inr w'" "set todo \<subseteq> set ss" "distinct todo"
    "set todo \<inter> set dn = {}" "distinct (map s_name ss)" "\<forall>s\<in>set ss. section_ok s"
  shows "floored ss (rev todo @ dn) b w'"
  using assms
proof (induction todo arbitrary: w dn)
  case (Cons s todo)
  then obtain w1 where w1: "floor_step s w = Inr w1" "floor_pass todo w1 = Inr w'" by (auto split: sum.splits)
  have "floored ss (s # dn) b w1" using Cons.prems w1 by (intro floor_step_floored) auto
  from Cons.IH [OF this w1(2)] show ?case using Cons.prems by auto
qed simp

section \<open>The top-up pass\<close>

text \<open>What a section holds before its top-up.\<close>

definition base :: "work \<Rightarrow> prompt_section \<Rightarrow> int" where
  "base w s = (if is_dropped w (s_name s) then 0 else min_tokens s)"

lemma topup_step_fields:
  "wk_status (topup_step s w) = wk_status w" "is_dropped (topup_step s w) = is_dropped w"
  "n \<noteq> s_name s \<Longrightarrow> wk_alloc (topup_step s w) n = wk_alloc w n"
  "wk_headroom w \<ge> 0 \<Longrightarrow> wk_headroom (topup_step s w) \<ge> 0"
  by (auto simp: topup_step_def Let_def is_dropped_def fun_eq_iff)

lemma topup_step_alloc:
  assumes "wk_headroom w \<ge> 0"
  shows "wk_alloc (topup_step s w) (s_name s) + wk_headroom (topup_step s w) = wk_alloc w (s_name s) + wk_headroom w"
    and "wk_alloc w (s_name s) \<le> wk_alloc (topup_step s w) (s_name s)"
    and "wk_alloc (topup_step s w) (s_name s) \<le> max (wk_alloc w (s_name s)) (target s)"
    and "\<not> is_dropped w (s_name s) \<Longrightarrow> wk_alloc (topup_step s w) (s_name s) < target s \<Longrightarrow> wk_headroom (topup_step s w) = 0"
    and "is_dropped w (s_name s) \<Longrightarrow> wk_alloc (topup_step s w) (s_name s) = wk_alloc w (s_name s)"
  using assms by (auto simp: topup_step_def Let_def max_def min_def split: if_splits)

lemma topup_exhausted: "wk_headroom w = 0 \<Longrightarrow> topup_pass ss w = w"
proof (induction ss arbitrary: w)
  case (Cons s ss)
  have "topup_step s w = w" using Cons.prems by (auto simp: topup_step_def Let_def)
  then show ?case using Cons by (simp add: topup_pass_def)
qed (simp add: topup_pass_def)

lemma topup_pass_fields:
  "wk_status (topup_pass todo w) = wk_status w" "is_dropped (topup_pass todo w) = is_dropped w"
  "n \<notin> s_name ` set todo \<Longrightarrow> wk_alloc (topup_pass todo w) n = wk_alloc w n"
  "wk_headroom w \<ge> 0 \<Longrightarrow> wk_headroom (topup_pass todo w) \<ge> 0"
  unfolding topup_pass_def by (induction todo arbitrary: w) (auto simp: topup_step_fields)

lemma topup_pass_total:
  assumes "distinct (map s_name ss)" "set todo \<subseteq> set ss" "wk_headroom w \<ge> 0"
  shows "total ss (topup_pass todo w) + wk_headroom (topup_pass todo w) = total ss w + wk_headroom w"
  using assms
proof (induction todo arbitrary: w)
  case (Cons s todo)
  let ?w = "topup_step s w"
  have "wk_alloc ?w = (wk_alloc w)(s_name s := wk_alloc ?w (s_name s))" using topup_step_fields(3) by fastforce
  then have "total ss ?w = total ss w - wk_alloc w (s_name s) + wk_alloc ?w (s_name s)"
    using sum_list_update [of ss s "wk_alloc w" "wk_alloc ?w (s_name s)"] Cons.prems by simp
  then show ?case
    using Cons.IH [of ?w] Cons.prems topup_step_alloc(1) [of w s] topup_step_fields(4)
    by (simp add: topup_pass_def)
qed (simp add: topup_pass_def)

lemma topup_pass_alloc:
  assumes "distinct (map s_name todo)" "s \<in> set todo" "wk_headroom w \<ge> 0"
  shows "wk_alloc w (s_name s) \<le> wk_alloc (topup_pass todo w) (s_name s) \<and>
    wk_alloc (topup_pass todo w) (s_name s) \<le> max (wk_alloc w (s_name s)) (target s) \<and>
    (is_dropped w (s_name s) \<longrightarrow> wk_alloc (topup_pass todo w) (s_name s) = wk_alloc w (s_name s))"
  using assms
proof (induction todo arbitrary: w)
  case (Cons x todo)
  let ?w = "topup_step x w"
  have p: "topup_pass (x # todo) w = topup_pass todo ?w" by (simp add: topup_pass_def)
  show ?case
  proof (cases "s = x")
    case True
    then have "wk_alloc (topup_pass (x # todo) w) (s_name s) = wk_alloc ?w (s_name s)"
      unfolding p using Cons.prems by (intro topup_pass_fields(3)) auto
    then show ?thesis using True topup_step_alloc [OF Cons.prems(3), of x] by simp
  next
    case False
    then have "s_name s \<noteq> s_name x" using Cons.prems by (auto simp: image_iff)
    then have "wk_alloc ?w (s_name s) = wk_alloc w (s_name s)" by (rule topup_step_fields(3))
    then show ?thesis
      using Cons.IH [of ?w] Cons.prems False p by (auto simp: topup_step_fields)
  qed
qed simp

text \<open>Greedy: once a section is left short of its target, later sections get no top-up.\<close>

lemma topup_pass_greedy:
  assumes "distinct (map s_name (xs @ s # ys))" "wk_headroom w \<ge> 0" "\<not> is_dropped w (s_name s)"
    "wk_alloc (topup_pass (xs @ s # ys) w) (s_name s) < target s" "s' \<in> set ys"
  shows "wk_alloc (topup_pass (xs @ s # ys) w) (s_name s') = wk_alloc w (s_name s')"
proof -
  let ?w1 = "topup_pass xs w" and ?w2 = "topup_step s (topup_pass xs w)"
  have p: "topup_pass (xs @ s # ys) w = topup_pass ys ?w2" by (simp add: topup_pass_def)
  have h: "wk_headroom ?w1 \<ge> 0" by (rule topup_pass_fields(4) [OF assms(2)])
  have "wk_alloc (topup_pass ys ?w2) (s_name s) = wk_alloc ?w2 (s_name s)"
    using assms(1) by (intro topup_pass_fields(3)) auto
  then have "wk_headroom ?w2 = 0"
    using topup_step_alloc(4) [OF h, of s] assms(3,4) p by (simp add: topup_pass_fields)
  then have "topup_pass (xs @ s # ys) w = ?w2" unfolding p by (rule topup_exhausted)
  moreover have "s_name s' \<noteq> s_name s" "s_name s' \<notin> s_name ` set xs" using assms(1,5) by (auto simp: image_iff)
  ultimately show ?thesis by (simp add: topup_step_fields topup_pass_fields)
qed

section \<open>Final statuses\<close>

lemma finalize_alloc: "wk_alloc (fold finalize_step ss w) = wk_alloc w"
  by (induction ss arbitrary: w) (auto simp: finalize_step_def Let_def)

lemma finalize_other: "n \<notin> s_name ` set ss \<Longrightarrow> wk_status (fold finalize_step ss w) n = wk_status w n"
  by (induction ss arbitrary: w) (auto simp: finalize_step_def Let_def)

lemma finalize_status:
  assumes "distinct (map s_name ss)" "s \<in> set ss"
  shows "wk_status (fold finalize_step ss w) (s_name s) = wk_status (finalize_step s w) (s_name s)"
  using assms
proof (induction ss arbitrary: w)
  case (Cons x ss)
  show ?case
  proof (cases "s = x")
    case True
    then have "s_name s \<notin> s_name ` set ss" using Cons.prems by auto
    then show ?thesis using True finalize_other by simp
  next
    case False
    then have ne: "s_name s \<noteq> s_name x" using Cons.prems by (auto simp: image_iff)
    have "wk_status (finalize_step x w) (s_name s) = wk_status w (s_name s)" "wk_alloc (finalize_step x w) = wk_alloc w"
      using ne by (simp_all add: finalize_step_def Let_def)
    then have "wk_status (finalize_step s (finalize_step x w)) (s_name s) = wk_status (finalize_step s w) (s_name s)"
      by (simp add: finalize_step_def is_dropped_def Let_def)
    then show ?thesis using Cons False by simp
  qed
qed simp

section \<open>Properties\<close>

lemma allocate_phases:
  assumes "allocate ss b = Inr r"
  obtains w1 where "distinct (map s_name ss)" "0 \<le> b"
    "floor_pass (sort_key s_priority (workable ss)) (skip_empty ss (initial b)) = Inr w1"
    "allocations r = map (out_row (fold finalize_step (workable ss) (topup_pass (sort_key s_priority (workable ss)) w1))) ss"
    "budget_headroom r = wk_headroom (topup_pass (sort_key s_priority (workable ss)) w1)"
    "budget_used r = b - budget_headroom r"
  using assms first_duplicate_None [of "[]" ss]
  by (auto simp: allocate_def Let_def split: if_splits option.splits sum.splits)

lemma initial_floored: "0 \<le> b \<Longrightarrow> floored ss [] b (skip_empty ss (initial b))"
proof -
  assume "0 \<le> b"
  moreover have "is_dropped (skip_empty ss (initial b)) n = False" for n
    by (rule skip_empty_fields(3)) (simp add: initial_def is_dropped_def)
  ultimately show ?thesis by (simp add: floored_def skip_empty_fields) (simp add: initial_def)
qed

lemma allocate_floored:
  assumes "distinct (map s_name ss)" "0 \<le> b" "\<forall>s\<in>set ss. section_ok s"
    "floor_pass (sort_key s_priority (workable ss)) (skip_empty ss (initial b)) = Inr w1"
  shows "floored ss (rev (sort_key s_priority (workable ss))) b w1"
proof -
  have "distinct ss" using assms(1) by (simp add: distinct_map)
  then show ?thesis
    using floor_pass_floored [OF initial_floored [OF assms(2)] assms(4) _ _ _ assms(1,3)]
    by (auto simp: workable_def)
qed

lemma workable_distinct: "distinct (map s_name ss) \<Longrightarrow> distinct (map s_name (sort_key s_priority (workable ss)))"
  by (auto simp: workable_def distinct_map inj_on_def)

lemma row_bounds:
  assumes "distinct (map s_name ss)" "\<forall>s\<in>set ss. section_ok s"
    and fl: "floored ss (rev (sort_key s_priority (workable ss))) b w1" and s: "s \<in> set ss"
  shows "let a = out_row (fold finalize_step (workable ss) (topup_pass (sort_key s_priority (workable ss)) w1)) s in
     a_section_name a = s_name s \<and> (a_status a = Dropped \<longrightarrow> a_allocated a = 0) \<and>
     (a_status a \<noteq> Dropped \<and> current_tokens s \<noteq> 0 \<longrightarrow>
        min_tokens s \<le> a_allocated a \<and> a_allocated a \<le> max (min_tokens s) (target s)) \<and>
     (s_priority s = 0 \<and> min_tokens s > 0 \<and> current_tokens s \<noteq> 0 \<longrightarrow> a_status a \<noteq> Dropped)"
proof -
  let ?q = "sort_key s_priority (workable ss)"
  let ?w2 = "topup_pass ?q w1"
  let ?w3 = "fold finalize_step (workable ss) ?w2"
  have h1: "wk_headroom w1 \<ge> 0" using fl by (simp add: floored_def)
  have drop2: "is_dropped ?w2 = is_dropped w1" by (rule topup_pass_fields)
  have nm: "s_name s \<in> s_name ` set (workable ss) \<longleftrightarrow> s \<in> set (workable ss)"
    using assms(1) s by (auto simp: workable_def distinct_map inj_on_def)
  show ?thesis
  proof (cases "s \<in> set (workable ss)")
    case True
    have dw: "distinct (map s_name (workable ss))" using assms(1) by (auto simp: workable_def distinct_map inj_on_def)
    have st: "wk_status ?w3 (s_name s) = wk_status (finalize_step s ?w2) (s_name s)"
      by (rule finalize_status [OF dw True])
    have al: "wk_alloc ?w3 = wk_alloc ?w2" by (rule finalize_alloc)
    have b: "wk_alloc w1 (s_name s) \<le> wk_alloc ?w2 (s_name s)"
      "wk_alloc ?w2 (s_name s) \<le> max (wk_alloc w1 (s_name s)) (target s)"
      "is_dropped w1 (s_name s) \<longrightarrow> wk_alloc ?w2 (s_name s) = wk_alloc w1 (s_name s)"
      using topup_pass_alloc [OF workable_distinct [OF assms(1)] _ h1, of s] True by simp_all
    have f: "wk_alloc w1 (s_name s) = (if is_dropped w1 (s_name s) then 0 else min_tokens s)"
      "is_dropped w1 (s_name s) \<Longrightarrow> s_priority s \<noteq> 0"
      using fl s True by (auto simp: floored_def)
    show ?thesis
    proof (cases "is_dropped w1 (s_name s)")
      case d: True
      then have "wk_status ?w3 (s_name s) = wk_status w1 (s_name s)"
        using st drop2 by (simp add: finalize_step_def topup_pass_fields)
      then show ?thesis using d b f al by (auto simp: out_row_def is_dropped_def Let_def split: option.splits status.splits)
    next
      case nd: False
      then have "wk_status ?w3 (s_name s) = Some (if wk_alloc ?w2 (s_name s) = 0 then (Dropped, No_headroom_after_floors)
          else if wk_alloc ?w2 (s_name s) < target s then (Truncated, Allocated_of_ideal (wk_alloc ?w2 (s_name s)) (target s))
          else if wk_alloc ?w2 (s_name s) \<ge> current_tokens s then (Intact, No_reason)
          else (Truncated, Allocated_of_current (wk_alloc ?w2 (s_name s)) (current_tokens s) (target s)))"
        using st drop2 by (simp add: finalize_step_def Let_def)
      then show ?thesis using nd b f al by (simp add: out_row_def Let_def)
    qed
  next
    case False
    then have z: "current_tokens s = 0" using s by (simp add: workable_def)
    have "wk_alloc ?w3 (s_name s) = wk_alloc w1 (s_name s)"
      using False nm topup_pass_fields(3) [of "s_name s" ?q w1] by (simp add: finalize_alloc)
    moreover have "wk_alloc w1 (s_name s) = 0" using fl s False by (auto simp: floored_def)
    ultimately show ?thesis using z by (simp add: out_row_def case_prod_beta Let_def)
  qed
qed

text \<open>
  When \<open>allocate\<close> returns, the allocations add up to \<open>budget_used\<close>, which with the
  non-negative headroom is the budget; a dropped section gets nothing, every other section
  with content gets at least its floor and at most the larger of its floor and its target, and
  a mandatory section with a floor is never dropped.
\<close>

theorem allocate_respects_budget:
  assumes "allocate ss b = Inr r" and ok: "\<forall>s\<in>set ss. section_ok s"
  shows "sum_list (map a_allocated (allocations r)) = budget_used r \<and>
    budget_used r + budget_headroom r = b \<and> 0 \<le> budget_headroom r \<and>
    (\<forall>i<length ss. let s = ss ! i; a = allocations r ! i in
       a_section_name a = s_name s \<and>
       (a_status a = Dropped \<longrightarrow> a_allocated a = 0) \<and>
       (a_status a \<noteq> Dropped \<and> current_tokens s \<noteq> 0 \<longrightarrow>
          min_tokens s \<le> a_allocated a \<and> a_allocated a \<le> max (min_tokens s) (target s)) \<and>
       (s_priority s = 0 \<and> min_tokens s > 0 \<and> current_tokens s \<noteq> 0 \<longrightarrow> a_status a \<noteq> Dropped))"
proof -
  let ?q = "sort_key s_priority (workable ss)"
  obtain w1 where w: "distinct (map s_name ss)" "0 \<le> b" "floor_pass ?q (skip_empty ss (initial b)) = Inr w1"
    and rows: "allocations r = map (out_row (fold finalize_step (workable ss) (topup_pass ?q w1))) ss"
    and h: "budget_headroom r = wk_headroom (topup_pass ?q w1)" "budget_used r = b - budget_headroom r"
    by (rule allocate_phases [OF assms(1)])
  note fl = allocate_floored [OF w(1,2) ok w(3)]
  have h1: "wk_headroom w1 \<ge> 0" and t1: "total ss w1 + wk_headroom w1 = b" using fl by (simp_all add: floored_def)
  have "sum_list (map a_allocated (allocations r)) = total ss (topup_pass ?q w1)"
    unfolding rows by (simp add: out_row_def finalize_alloc case_prod_beta Let_def o_def)
  moreover have "total ss (topup_pass ?q w1) + wk_headroom (topup_pass ?q w1) = b"
    using topup_pass_total [OF w(1) _ h1, of ?q] t1 by (auto simp: workable_def)
  moreover have "0 \<le> budget_headroom r" using h topup_pass_fields(4) [OF h1] by simp
  moreover have "let a = out_row (fold finalize_step (workable ss) (topup_pass ?q w1)) s in
       a_section_name a = s_name s \<and> (a_status a = Dropped \<longrightarrow> a_allocated a = 0) \<and>
       (a_status a \<noteq> Dropped \<and> current_tokens s \<noteq> 0 \<longrightarrow>
          min_tokens s \<le> a_allocated a \<and> a_allocated a \<le> max (min_tokens s) (target s)) \<and>
       (s_priority s = 0 \<and> min_tokens s > 0 \<and> current_tokens s \<noteq> 0 \<longrightarrow> a_status a \<noteq> Dropped)" if s: "s \<in> set ss" for s
    by (rule row_bounds [OF w(1) ok fl s])
  ultimately show ?thesis using h unfolding rows by (auto simp: Let_def)
qed

definition demo_sections :: "prompt_section list" where
  "demo_sections =
     [\<lparr>s_name = ''docs'', s_priority = 2, min_tokens = 0, ideal_tokens = 50, current_tokens = 80\<rparr>,
      \<lparr>s_name = ''system'', s_priority = 0, min_tokens = 10, ideal_tokens = 20, current_tokens = 20\<rparr>]"

lemma demo_sections_ok: "\<forall>s\<in>set demo_sections. section_ok s"
  by (simp add: demo_sections_def section_ok_def new_section_def)

lemma demo_allocate: "\<exists>r. allocate demo_sections 40 = Inr r \<and> map a_allocated (allocations r) = [20, 20]"
  by (simp add: allocate_def demo_sections_def workable_def floor_step_def skip_empty_def initial_def topup_pass_def
      topup_step_def finalize_step_def out_row_def is_dropped_def target_def Let_def)

theorem allocate_respects_budget_witness:
  "\<exists>r. allocate demo_sections 40 = Inr r \<and> budget_used r + budget_headroom r = 40"
  using demo_allocate allocate_respects_budget [OF _ demo_sections_ok] by blast

text \<open>
  Priority order is respected: if a section is left below its target although its floor
  was not refused, then every section after it in priority order (later in the input among
  equal priorities) holds no more than its floor.
\<close>

theorem allocate_priority_greedy:
  assumes "allocate ss b = Inr r" and ok: "\<forall>s\<in>set ss. section_ok s"
    and order: "sort_key s_priority (workable ss) = xs @ s # ys" and s': "s' \<in> set ys"
    and i: "i < length ss" "ss ! i = s" and j: "j < length ss" "ss ! j = s'"
    and short: "a_allocated (allocations r ! i) < target s" and kept: "a_status (allocations r ! i) \<noteq> Dropped"
  shows "a_allocated (allocations r ! j) \<le> min_tokens s'"
proof -
  let ?q = "sort_key s_priority (workable ss)"
  obtain w1 where w: "distinct (map s_name ss)" "0 \<le> b" "floor_pass ?q (skip_empty ss (initial b)) = Inr w1"
    and rows: "allocations r = map (out_row (fold finalize_step (workable ss) (topup_pass ?q w1))) ss"
    by (rule allocate_phases [OF assms(1)])
  note fl = allocate_floored [OF w(1,2) ok w(3)]
  have h1: "wk_headroom w1 \<ge> 0" using fl by (simp add: floored_def)
  have al: "a_allocated (allocations r ! k) = wk_alloc (topup_pass ?q w1) (s_name (ss ! k))" if "k < length ss" for k
    using that unfolding rows by (simp add: out_row_def finalize_alloc case_prod_beta Let_def)
  have sw: "s \<in> set (workable ss)" "s' \<in> set ss"
    using arg_cong [OF order, of set] j by auto
  have "\<not> is_dropped w1 (s_name s)"
  proof
    assume d: "is_dropped w1 (s_name s)"
    have "wk_status (fold finalize_step (workable ss) (topup_pass ?q w1)) (s_name s) = wk_status w1 (s_name s)"
      using finalize_status [of "workable ss" s "topup_pass ?q w1"] w(1) sw(1) d
      by (auto simp: workable_def distinct_map inj_on_def finalize_step_def topup_pass_fields)
    then show False using kept d i unfolding rows
      by (auto simp: out_row_def is_dropped_def Let_def split: option.splits status.splits)
  qed
  moreover have "wk_alloc (topup_pass ?q w1) (s_name s) < target s" using short al [OF i(1)] i(2) by simp
  ultimately have "wk_alloc (topup_pass ?q w1) (s_name s') = wk_alloc w1 (s_name s')"
    using topup_pass_greedy [OF _ h1 _ _ s', of xs s] workable_distinct [OF w(1)] unfolding order by blast
  moreover have "wk_alloc w1 (s_name s') \<le> min_tokens s'"
    using fl sw(2) ok section_ok_min by (auto simp: floored_def split: if_splits)
  ultimately show ?thesis using al [OF j(1)] j(2) by simp
qed

theorem allocate_priority_greedy_witness:
  "\<exists>r. allocate demo_sections 15 = Inr r \<and> a_allocated (allocations r ! 0) \<le> 0"
proof -
  have r: "\<exists>r. allocate demo_sections 15 = Inr r \<and> a_allocated (allocations r ! 1) = 15 \<and> a_status (allocations r ! 1) \<noteq> Dropped"
    by (simp add: allocate_def demo_sections_def workable_def floor_step_def skip_empty_def initial_def topup_pass_def
        topup_step_def finalize_step_def out_row_def is_dropped_def target_def Let_def)
  then obtain r where r: "allocate demo_sections 15 = Inr r" "a_allocated (allocations r ! 1) = 15"
    "a_status (allocations r ! 1) \<noteq> Dropped" by blast
  have "sort_key s_priority (workable demo_sections) = [] @ demo_sections ! 1 # [demo_sections ! 0]"
    by (simp add: demo_sections_def workable_def)
  from allocate_priority_greedy [OF r(1) demo_sections_ok this, of "demo_sections ! 0" 1 0] r
  show ?thesis by (simp add: demo_sections_def target_def)
qed

text \<open>A floor above the actual content is accepted, and then more tokens are allocated than the
  section has.\<close>

lemma floor_above_content_overallocates:
  fixes s :: prompt_section
  defines "s \<equiv> \<lparr>s_name = ''a'', s_priority = 1, min_tokens = 50, ideal_tokens = 60, current_tokens = 10\<rparr>"
  shows "section_ok s \<and> (\<exists>r. allocate [s] 100 = Inr r \<and> map a_allocated (allocations r) = [50])"
  by (simp add: s_def section_ok_def new_section_def allocate_def workable_def floor_step_def skip_empty_def initial_def
      topup_pass_def topup_step_def finalize_step_def out_row_def is_dropped_def target_def Let_def)

end
