(* ===== verification/Cost_Fence.thy ===== *)
theory Cost_Fence
  imports Prelude "HOL-Library.List_Lexorder" "HOL-Library.Char_ord"
begin

text \<open>
  The running cost ledger with warn rungs and refunds
  (\<open>cost-budget-soft-fence/fence.py\<close>).  Amounts are exact rationals, so the running total is
  exactly the sum of what is committed; the tolerance of the budget check is the code's 1e-12.
  The sets of the code are lists used as sets.  The last section is the persisted dictionary.
\<close>

section \<open>State and operations\<close>

datatype fence_error =
    EmptyRungs
  | RungsNotAscending
  | RungsOutOfRange
  | BadCallId
  | NegativeAmount rat
  | BudgetNotPositive rat
  | DuplicateCallId string
  | MissingBudget

definition validate_rungs :: "rat list \<Rightarrow> fence_error option" where
  "validate_rungs rs =
     (if rs = [] then Some EmptyRungs
      else if rs \<noteq> sort rs then Some RungsNotAscending
      else if hd rs \<le> 0 \<or> last rs \<ge> 1 then Some RungsOutOfRange
      else None)"

record spend =
  call_id :: string
  amount_usd :: rat
  sp_note :: string

definition new_spend :: "string \<Rightarrow> rat \<Rightarrow> string \<Rightarrow> fence_error + spend" where
  "new_spend c a n =
     (if c = [] then Inl BadCallId
      else if a < 0 then Inl (NegativeAmount a)
      else Inr \<lparr>call_id = c, amount_usd = a, sp_note = n\<rparr>)"

datatype fence_status = Ok | Warn | Hard_stop

record fence_verdict =
  fv_status :: fence_status
  spent_after_usd :: rat
  fraction_after :: rat
  headroom_usd :: rat
  fv_rung :: "rat option"
  fv_next_rung :: "rat option"
  fv_reason :: "(rat \<times> rat \<times> rat) option"

record ledger =
  budget_usd :: rat
  warn_rungs :: "rat list"
  spent_usd :: rat
  warned_rungs :: "rat list"
  committed :: "(string, rat) dict"
  refunded :: "string list"

definition new_ledger :: "rat \<Rightarrow> rat list \<Rightarrow> fence_error + ledger" where
  "new_ledger b rs =
     (if b \<le> 0 then Inl (BudgetNotPositive b)
      else case validate_rungs rs of
        Some e \<Rightarrow> Inl e
      | None \<Rightarrow> Inr \<lparr>budget_usd = b, warn_rungs = rs, spent_usd = 0, warned_rungs = [], committed = [], refunded = []\<rparr>)"

definition tolerance :: rat where
  "tolerance = 1 / 10 ^ 12"

definition charge :: "ledger \<Rightarrow> spend \<Rightarrow> (fence_error, fence_verdict, ledger) outcome" where
  "charge s sp =
     (if dict_get (committed s) (call_id sp) \<noteq> None \<or> call_id sp \<in> set (refunded s)
      then (Inl (DuplicateCallId (call_id sp)), s)
      else
        let projected = spent_usd s + amount_usd sp in
        if projected > budget_usd s + tolerance then
          (Inr \<lparr>fv_status = Hard_stop, spent_after_usd = spent_usd s, fraction_after = spent_usd s / budget_usd s,
                headroom_usd = max 0 (budget_usd s - spent_usd s), fv_rung = None, fv_next_rung = None,
                fv_reason = Some (amount_usd sp, spent_usd s, budget_usd s)\<rparr>, s)
        else
          let s1 = s\<lparr>spent_usd := projected, committed := dict_set (call_id sp) (amount_usd sp) (committed s)\<rparr>;
              fraction = projected / budget_usd s;
              crossed = filter (\<lambda>r. fraction \<ge> r \<and> r \<notin> set (warned_rungs s)) (warn_rungs s) in
          if crossed \<noteq> [] then
            (let rung = last crossed; higher = filter (\<lambda>r. r > rung) (warn_rungs s) in
             (Inr \<lparr>fv_status = Warn, spent_after_usd = projected, fraction_after = fraction,
                   headroom_usd = budget_usd s - projected, fv_rung = Some rung,
                   fv_next_rung = (case higher of [] \<Rightarrow> None | r # _ \<Rightarrow> Some r), fv_reason = None\<rparr>,
              s1\<lparr>warned_rungs := warned_rungs s @ remdups (filter (\<lambda>r. r \<le> rung \<and> r \<notin> set (warned_rungs s)) (warn_rungs s))\<rparr>))
          else
            (Inr \<lparr>fv_status = Ok, spent_after_usd = projected, fraction_after = fraction,
                  headroom_usd = budget_usd s - projected, fv_rung = None, fv_next_rung = None, fv_reason = None\<rparr>, s1))"

datatype refund_result =
    Already_refunded string rat
  | Unknown_call string
  | Refunded string rat rat rat "rat list"

definition refund :: "ledger \<Rightarrow> string \<Rightarrow> refund_result \<times> ledger" where
  "refund s c =
     (if c \<in> set (refunded s) then (Already_refunded c (py_round 6 (spent_usd s)), s)
      else case dict_get (committed s) c of
        None \<Rightarrow> (Unknown_call c, s)
      | Some amount \<Rightarrow>
          let spent = max 0 (spent_usd s - amount);
              fraction = spent / budget_usd s;
              rearmed = sort (filter (\<lambda>r. fraction < r) (warned_rungs s)) in
          (Refunded c (py_round 6 amount) (py_round 6 spent) (py_round 6 fraction) rearmed,
           s\<lparr>committed := dict_del c (committed s), refunded := refunded s @ [c], spent_usd := spent,
             warned_rungs := filter (\<lambda>r. r \<notin> set rearmed) (warned_rungs s)\<rparr>))"

section \<open>Sessions\<close>

datatype fence_op = Charge spend | Refund string

fun fence_step :: "ledger \<Rightarrow> fence_op \<Rightarrow> (fence_error, unit, ledger) outcome" where
  "fence_step s (Charge sp) = (case charge s sp of (r, s') \<Rightarrow> (map_sum id (\<lambda>_. ()) r, s'))"
| "fence_step s (Refund c) = (Inr (), snd (refund s c))"

text \<open>
  The total is the sum of what is committed, within the budget; a call is never both committed
  and refunded; and the rungs marked as warned are exactly the rungs at or below the spent
  fraction.
\<close>

definition ledger_inv :: "ledger \<Rightarrow> bool" where
  "ledger_inv s \<longleftrightarrow> budget_usd s > 0 \<and> sorted (warn_rungs s) \<and> (\<forall>r\<in>set (warn_rungs s). 0 < r) \<and>
     dict_wf (committed s) \<and> (\<forall>(c, a)\<in>set (committed s). a \<ge> 0) \<and>
     spent_usd s = sum_list (map snd (committed s)) \<and> spent_usd s \<le> budget_usd s + tolerance \<and>
     (\<forall>c\<in>set (refunded s). dict_get (committed s) c = None) \<and>
     set (warned_rungs s) = {r \<in> set (warn_rungs s). r \<le> spent_usd s / budget_usd s}"

lemma sum_dict_set_new:
  "dict_get d k = None \<Longrightarrow> sum_list (map snd (dict_set k v d)) = sum_list (map snd d) + (v :: rat)"
  by (simp add: dict_set_new)

lemma sum_dict_del:
  "dict_wf d \<Longrightarrow> dict_get d k = Some v \<Longrightarrow> sum_list (map snd (dict_del k d)) = sum_list (map snd d) - (v :: rat)"
proof (induction d)
  case (Cons p d)
  have "k \<notin> fst ` set d \<Longrightarrow> dict_del k d = d" by (simp add: delete_id)
  then show ?case using Cons by (cases p) (auto simp: dict_wf_def split: if_splits)
qed simp

lemma sum_nonneg: "(\<forall>(c, a)\<in>set d. a \<ge> 0) \<Longrightarrow> sum_list (map snd d) \<ge> (0 :: rat)"
  by (induction d) auto

lemma sorted_last: "sorted (xs :: rat list) \<Longrightarrow> x \<in> set xs \<Longrightarrow> x \<le> last xs"
  by (induction xs) auto

lemma last_filter_le:
  assumes "sorted (rs :: rat list)" "filter P rs \<noteq> []" "r \<in> set rs" "P r"
  shows "r \<le> last (filter P rs)"
proof -
  have "sorted (filter P rs)" "r \<in> set (filter P rs)" using assms by (simp_all add: sorted_wrt_filter)
  then show ?thesis by (rule sorted_last)
qed

lemma warned_after_charge:
  assumes "sorted rs" "W = {r \<in> set rs. r \<le> f0}" "f0 \<le> f"
    "crossed = filter (\<lambda>r. f \<ge> r \<and> r \<notin> W) rs" "crossed \<noteq> []"
  shows "W \<union> {r \<in> set rs. r \<le> last crossed \<and> r \<notin> W} = {r \<in> set rs. r \<le> (f :: rat)}"
    and "f0 < last crossed" "last crossed \<le> f" "\<forall>r\<in>set rs. r \<le> f \<longrightarrow> r \<le> last crossed"
proof -
  have l: "last crossed \<in> set crossed" using assms(5) by simp
  then show le: "last crossed \<le> f" and gt: "f0 < last crossed" using assms(2,4) by auto
  show up: "\<forall>r\<in>set rs. r \<le> f \<longrightarrow> r \<le> last crossed"
  proof (intro ballI impI)
    fix r assume r: "r \<in> set rs" "r \<le> f"
    show "r \<le> last crossed"
    proof (cases "r \<in> W")
      case True
      then show ?thesis using assms(2) gt by auto
    next
      case False
      then show ?thesis using last_filter_le [OF assms(1), of "\<lambda>r. f \<ge> r \<and> r \<notin> W" r] r assms(4,5) by simp
    qed
  qed
  show "W \<union> {r \<in> set rs. r \<le> last crossed \<and> r \<notin> W} = {r \<in> set rs. r \<le> f}"
    using up le assms(2,3) by auto
qed

lemma charge_inv:
  assumes "ledger_inv s" "amount_usd sp \<ge> 0"
  shows "ledger_inv (snd (charge s sp))"
proof (cases "dict_get (committed s) (call_id sp) \<noteq> None \<or> call_id sp \<in> set (refunded s) \<or>
    spent_usd s + amount_usd sp > budget_usd s + tolerance")
  case True
  then have "snd (charge s sp) = s" by (auto simp: charge_def Let_def)
  then show ?thesis using assms by simp
next
  case False
  define f where "f = (spent_usd s + amount_usd sp) / budget_usd s"
  define crossed where "crossed = filter (\<lambda>r. f \<ge> r \<and> r \<notin> set (warned_rungs s)) (warn_rungs s)"
  have b: "budget_usd s > 0" and srt: "sorted (warn_rungs s)"
    and W: "set (warned_rungs s) = {r \<in> set (warn_rungs s). r \<le> spent_usd s / budget_usd s}"
    using assms by (simp_all add: ledger_inv_def)
  have le: "spent_usd s / budget_usd s \<le> f" using b assms(2) by (simp add: f_def divide_right_mono)
  have new: "dict_get (committed s) (call_id sp) = None" using False by auto
  have s': "snd (charge s sp) = s\<lparr>spent_usd := spent_usd s + amount_usd sp,
      committed := dict_set (call_id sp) (amount_usd sp) (committed s),
      warned_rungs := (if crossed = [] then warned_rungs s
        else warned_rungs s @ remdups (filter (\<lambda>r. r \<le> last crossed \<and> r \<notin> set (warned_rungs s)) (warn_rungs s)))\<rparr>"
    using False by (simp add: charge_def Let_def f_def crossed_def)
  have warned: "set (warned_rungs (snd (charge s sp))) = {r \<in> set (warn_rungs s). r \<le> f}"
  proof (cases "crossed = []")
    case True
    then have "\<forall>r\<in>set (warn_rungs s). r \<le> f \<longrightarrow> r \<in> set (warned_rungs s)" by (auto simp: crossed_def filter_empty_conv)
    then show ?thesis using True s' W le by auto
  next
    case False
    then show ?thesis using warned_after_charge(1) [OF srt W le crossed_def] s' by auto
  qed
  have refs: "\<forall>c\<in>set (refunded s). dict_get (dict_set (call_id sp) (amount_usd sp) (committed s)) c = None"
    using assms(1) False by (auto simp: ledger_inv_def)
  have pos: "\<forall>(c, a)\<in>set (dict_set (call_id sp) (amount_usd sp) (committed s)). a \<ge> 0"
    using assms new by (auto simp: ledger_inv_def dict_set_new)
  show ?thesis
    using assms(1) False warned refs pos sum_dict_set_new [OF new, of "amount_usd sp"] unfolding s'
    by (simp add: ledger_inv_def f_def)
qed

lemma refund_inv:
  assumes "ledger_inv s" shows "ledger_inv (snd (refund s c))"
proof (cases "c \<in> set (refunded s) \<or> dict_get (committed s) c = None")
  case True
  then show ?thesis using assms by (auto simp: refund_def)
next
  case False
  then obtain a where a: "dict_get (committed s) c = Some a" by auto
  have wf: "dict_wf (committed s)" and b: "budget_usd s > 0" using assms by (simp_all add: ledger_inv_def)
  have pos: "\<forall>(c, a)\<in>set (dict_del c (committed s)). a \<ge> 0"
    using assms by (auto simp: ledger_inv_def dict_del_filter)
  have sum: "sum_list (map snd (dict_del c (committed s))) = spent_usd s - a"
    using sum_dict_del [OF wf a] assms by (simp add: ledger_inv_def)
  have ge: "spent_usd s - a \<ge> 0" using sum sum_nonneg [OF pos] by simp
  have a0: "a \<ge> 0" using assms map_of_SomeD [OF a] by (auto simp: ledger_inv_def)
  have le: "(spent_usd s - a) / budget_usd s \<le> spent_usd s / budget_usd s" using b a0 by (simp add: divide_right_mono)
  have s': "snd (refund s c) = s\<lparr>committed := dict_del c (committed s), refunded := refunded s @ [c],
      spent_usd := spent_usd s - a,
      warned_rungs := filter (\<lambda>r. \<not> (spent_usd s - a) / budget_usd s < r) (warned_rungs s)\<rparr>"
  proof -
    have "filter (\<lambda>r. r \<in> set xs \<longrightarrow> \<not> P r) xs = filter (\<lambda>r. \<not> P r) xs" for P and xs :: "rat list"
      by (auto intro: filter_cong)
    then show ?thesis using False a ge by (simp add: refund_def Let_def max_def)
  qed
  show ?thesis
    using assms sum wf pos a0 le unfolding s' by (auto simp: ledger_inv_def not_less)
qed

lemma fence_step_inv: "ledger_inv s \<Longrightarrow> (\<And>sp. p = Charge sp \<Longrightarrow> amount_usd sp \<ge> 0) \<Longrightarrow> ledger_inv (snd (fence_step s p))"
  by (cases p) (simp_all add: charge_inv refund_inv case_prod_beta)

lemma run_fence_inv:
  "ledger_inv s \<Longrightarrow> \<forall>sp. Charge sp \<in> set ps \<longrightarrow> amount_usd sp \<ge> 0 \<Longrightarrow> ledger_inv (snd (run fence_step s ps))"
  by (induction ps arbitrary: s) (simp_all add: case_prod_beta fence_step_inv)

lemma new_ledger_inv: "new_ledger b rs = Inr s \<Longrightarrow> ledger_inv s"
proof -
  assume n: "new_ledger b rs = Inr s"
  then have v: "validate_rungs rs = None" "b > 0" and s: "s = \<lparr>budget_usd = b, warn_rungs = rs, spent_usd = 0,
      warned_rungs = [], committed = [], refunded = []\<rparr>" by (auto simp: new_ledger_def split: if_splits option.splits)
  then have srt: "sorted rs" and hd: "0 < hd rs" "rs \<noteq> []"
    by (auto simp: validate_rungs_def split: if_splits) (metis sorted_sort)
  then have "0 < r" if "r \<in> set rs" for r using that by (cases rs) auto
  then show ?thesis using s v srt by (fastforce simp: ledger_inv_def tolerance_def)
qed

section \<open>Properties\<close>

text \<open>
  After any sequence of charges and refunds the running total is exactly the sum of the
  committed, not refunded amounts and never exceeds the budget (by more than the tolerance); a
  hard stop changes nothing; and a refunded call can neither be refunded again nor charged
  again.
\<close>

theorem ledger_conserves_and_caps:
  assumes "new_ledger b rs = Inr s0" and "\<forall>sp. Charge sp \<in> set ps \<longrightarrow> amount_usd sp \<ge> 0"
    and "s = snd (run fence_step s0 ps)"
  shows "spent_usd s = sum_list (map snd (committed s)) \<and> spent_usd s \<le> budget_usd s + tolerance \<and>
    (\<forall>sp v. fst (charge s sp) = Inr v \<and> fv_status v = Hard_stop \<longrightarrow> snd (charge s sp) = s) \<and>
    (\<forall>c\<in>set (refunded s). snd (refund s c) = s \<and> (\<forall>sp. call_id sp = c \<longrightarrow> fst (charge s sp) = Inl (DuplicateCallId c)))"
proof -
  have "ledger_inv s" using run_fence_inv [OF new_ledger_inv [OF assms(1)] assms(2)] assms(3) by simp
  then show ?thesis
    by (auto simp: ledger_inv_def charge_def refund_def Let_def split: if_splits)
qed

theorem ledger_conserves_and_caps_witness:
  "\<exists>s0. new_ledger 10 [6 / 10] = Inr s0 \<and>
     spent_usd (snd (run fence_step s0 [Charge \<lparr>call_id = ''a'', amount_usd = 7, sp_note = []\<rparr>, Refund ''a''])) \<le> 10 + tolerance"
proof -
  obtain s0 where s0: "new_ledger 10 [6 / 10] = Inr s0" by (simp add: new_ledger_def validate_rungs_def)
  let ?ps = "[Charge \<lparr>call_id = ''a'', amount_usd = 7, sp_note = []\<rparr>, Refund ''a'']"
  have pos: "\<forall>sp. Charge sp \<in> set ?ps \<longrightarrow> amount_usd sp \<ge> 0" by simp
  have "budget_usd (snd (run fence_step s0 ?ps)) = 10"
    using s0 by (auto simp: new_ledger_def validate_rungs_def charge_def refund_def Let_def split: if_splits option.splits)
  with ledger_conserves_and_caps [OF s0 pos refl] s0 show ?thesis by (metis (no_types, lifting))
qed

text \<open>
  Warnings are exact: an accepted charge warns if and only if it takes the spent fraction
  from below some rung to that rung or above (a refund re-arms rungs, so a second crossing
  warns again), and the rung it names is the highest one reached.
\<close>

theorem warn_iff_rung_crossed:
  assumes "new_ledger b rs = Inr s0" and "\<forall>sp. Charge sp \<in> set ps \<longrightarrow> amount_usd sp \<ge> 0"
    and "s = snd (run fence_step s0 ps)" and "amount_usd sp \<ge> 0"
    and "fst (charge s sp) = Inr v" and "fv_status v \<noteq> Hard_stop"
  shows "(fv_status v = Warn \<longleftrightarrow>
      (\<exists>r\<in>set (warn_rungs s). spent_usd s / budget_usd s < r \<and> r \<le> (spent_usd s + amount_usd sp) / budget_usd s)) \<and>
    (\<forall>r. fv_rung v = Some r \<longrightarrow> r \<in> set (warn_rungs s) \<and> r \<le> fraction_after v \<and>
       (\<forall>r'\<in>set (warn_rungs s). r' \<le> fraction_after v \<longrightarrow> r' \<le> r))"
proof -
  define f where "f = (spent_usd s + amount_usd sp) / budget_usd s"
  define crossed where "crossed = filter (\<lambda>r. f \<ge> r \<and> r \<notin> set (warned_rungs s)) (warn_rungs s)"
  have inv: "ledger_inv s" using run_fence_inv [OF new_ledger_inv [OF assms(1)] assms(2)] assms(3) by simp
  then have srt: "sorted (warn_rungs s)" and b: "budget_usd s > 0"
    and W: "set (warned_rungs s) = {r \<in> set (warn_rungs s). r \<le> spent_usd s / budget_usd s}"
    by (simp_all add: ledger_inv_def)
  have le: "spent_usd s / budget_usd s \<le> f" using b assms(4) by (simp add: f_def divide_right_mono)
  have v: "fv_status v = (if crossed = [] then Ok else Warn)" "fv_rung v = (if crossed = [] then None else Some (last crossed))"
    "fraction_after v = f"
    using assms(5,6) by (auto simp: charge_def Let_def f_def crossed_def split: if_splits)
  have "crossed \<noteq> [] \<longleftrightarrow> (\<exists>r\<in>set (warn_rungs s). spent_usd s / budget_usd s < r \<and> r \<le> f)"
  proof -
    have "crossed \<noteq> [] \<longleftrightarrow> (\<exists>r\<in>set (warn_rungs s). f \<ge> r \<and> r \<notin> set (warned_rungs s))"
      unfolding crossed_def filter_empty_conv by blast
    also have "\<dots> \<longleftrightarrow> (\<exists>r\<in>set (warn_rungs s). spent_usd s / budget_usd s < r \<and> r \<le> f)"
      by (rule bex_cong) (auto simp: W not_le)
    finally show ?thesis .
  qed
  moreover have "last crossed \<in> set (warn_rungs s)" if "crossed \<noteq> []"
    using last_in_set [OF that] by (simp add: crossed_def)
  ultimately show ?thesis
    using v warned_after_charge(3,4) [OF srt W le crossed_def] unfolding f_def [symmetric] by (auto split: if_splits)
qed

theorem warn_iff_rung_crossed_witness:
  "\<exists>s0 v. new_ledger 10 [6 / 10] = Inr s0 \<and> fst (charge s0 \<lparr>call_id = ''a'', amount_usd = 7, sp_note = []\<rparr>) = Inr v \<and>
     fv_status v = Warn"
proof -
  let ?sp = "\<lparr>call_id = ''a'', amount_usd = 7, sp_note = []\<rparr>"
  obtain s0 where s0: "new_ledger 10 [6 / 10] = Inr s0" by (simp add: new_ledger_def validate_rungs_def)
  then have e: "s0 = \<lparr>budget_usd = 10, warn_rungs = [6 / 10], spent_usd = 0, warned_rungs = [], committed = [], refunded = []\<rparr>"
    by (simp add: new_ledger_def validate_rungs_def)
  obtain v where v: "fst (charge s0 ?sp) = Inr v" "fv_status v \<noteq> Hard_stop"
    by (simp add: e charge_def Let_def tolerance_def)
  have "\<forall>sp. Charge sp \<in> set [] \<longrightarrow> amount_usd sp \<ge> 0" by simp
  from warn_iff_rung_crossed [OF s0 this refl _ _ v(2), of ?sp] v(1) have "fv_status v = Warn \<longleftrightarrow> (\<exists>r\<in>set [6 / 10 :: rat]. 0 < r \<and> r \<le> 7 / 10)" by (simp add: e)
  moreover have "\<exists>r\<in>set [6 / 10 :: rat]. 0 < r \<and> r \<le> 7 / 10" by (intro bexI [of _ "6 / 10"]) simp_all
  ultimately have "fv_status v = Warn" by blast
  then show ?thesis using s0 v by blast
qed

section \<open>Views and persistence\<close>

definition default_warn_rungs :: "rat list" where
  "default_warn_rungs = [60 / 100, 85 / 100, 95 / 100]"

definition fence_verdict_to_dict :: "fence_verdict \<Rightarrow> fence_verdict" where
  "fence_verdict_to_dict v =
     v\<lparr>spent_after_usd := py_round 6 (spent_after_usd v), fraction_after := py_round 6 (fraction_after v),
       headroom_usd := py_round 6 (headroom_usd v)\<rparr>"

text \<open>The persisted dictionary; \<open>None\<close> is a missing key.\<close>

record ledger_dict =
  ld_budget :: "rat option"
  ld_warn_rungs :: "rat list option"
  ld_spent :: "rat option"
  ld_warned :: "rat list option"
  ld_committed :: "(string, rat) dict option"
  ld_refunded :: "string list option"

definition ledger_to_dict :: "ledger \<Rightarrow> ledger_dict" where
  "ledger_to_dict s =
     \<lparr>ld_budget = Some (budget_usd s), ld_warn_rungs = Some (warn_rungs s), ld_spent = Some (py_round 6 (spent_usd s)),
      ld_warned = Some (sort (warned_rungs s)), ld_committed = Some (sort_key fst (committed s)),
      ld_refunded = Some (sort (refunded s))\<rparr>"

definition or_default :: "'a list option \<Rightarrow> 'a list \<Rightarrow> 'a list" where
  "or_default x d = (case x of None \<Rightarrow> d | Some xs \<Rightarrow> if xs = [] then d else xs)"

definition ledger_from_dict :: "ledger_dict \<Rightarrow> fence_error + ledger" where
  "ledger_from_dict d =
     (case ld_budget d of
        None \<Rightarrow> Inl MissingBudget
      | Some b \<Rightarrow>
          let rs = or_default (ld_warn_rungs d) default_warn_rungs in
          if b \<le> 0 then Inl (BudgetNotPositive b)
          else case validate_rungs rs of
            Some e \<Rightarrow> Inl e
          | None \<Rightarrow> Inr \<lparr>budget_usd = b, warn_rungs = rs, spent_usd = (case ld_spent d of None \<Rightarrow> 0 | Some x \<Rightarrow> x),
              warned_rungs = remdups (or_default (ld_warned d) []), committed = or_default (ld_committed d) [],
              refunded = remdups (or_default (ld_refunded d) [])\<rparr>)"

datatype fence_reply = Charged fence_verdict | Refund_reply refund_result

fun fence_call :: "ledger \<Rightarrow> fence_op \<Rightarrow> (fence_error, fence_reply, ledger) outcome" where
  "fence_call s (Charge sp) = (case charge s sp of (r, s') \<Rightarrow> (map_sum id Charged r, s'))"
| "fence_call s (Refund c) = (case refund s c of (r, s') \<Rightarrow> (Inr (Refund_reply r), s'))"

text \<open>Ledgers that differ only in the order of their sets and dictionaries.\<close>

definition same_ledger :: "ledger \<Rightarrow> ledger \<Rightarrow> bool" where
  "same_ledger s s' \<longleftrightarrow> budget_usd s = budget_usd s' \<and> warn_rungs s = warn_rungs s' \<and> spent_usd s = spent_usd s' \<and>
     set (warned_rungs s) = set (warned_rungs s') \<and> distinct (warned_rungs s) \<and> distinct (warned_rungs s') \<and>
     dict_get (committed s) = dict_get (committed s') \<and> set (refunded s) = set (refunded s')"

lemma sort_same_set: "set xs = set ys \<Longrightarrow> distinct xs \<Longrightarrow> distinct ys \<Longrightarrow> sort xs = sort (ys :: rat list)"
  by (metis distinct_sort set_sort sorted_distinct_set_unique sorted_sort)

lemma charge_same:
  assumes "same_ledger s s'"
  shows "fst (charge s sp) = fst (charge s' sp) \<and> same_ledger (snd (charge s sp)) (snd (charge s' sp))"
proof -
  have m: "r \<in> set (warned_rungs s) \<longleftrightarrow> r \<in> set (warned_rungs s')" for r using assms by (auto simp: same_ledger_def)
  show ?thesis using assms by (auto simp: same_ledger_def charge_def Let_def m)
qed

lemma refund_same:
  assumes "same_ledger s s'"
  shows "fst (refund s c) = fst (refund s' c) \<and> same_ledger (snd (refund s c)) (snd (refund s' c))"
proof -
  have srt: "sort (filter P (warned_rungs s)) = sort (filter P (warned_rungs s'))" for P
    using assms by (intro sort_same_set) (auto simp: same_ledger_def)
  show ?thesis using assms by (auto simp: same_ledger_def refund_def Let_def srt split: option.splits)
qed

lemma fence_call_same:
  "same_ledger s s' \<Longrightarrow> fst (fence_call s p) = fst (fence_call s' p) \<and> same_ledger (snd (fence_call s p)) (snd (fence_call s' p))"
  using charge_same [of s s'] refund_same [of s s'] by (cases p) (auto simp: case_prod_beta)

lemma run_same: "same_ledger s s' \<Longrightarrow> fst (run fence_call s ps) = fst (run fence_call s' ps)"
  using fence_call_same by (induction ps arbitrary: s s') (simp_all add: case_prod_beta)

text \<open>Reachable ledgers list every warned rung once, and their configuration is valid.\<close>

definition ledger_shape :: "ledger \<Rightarrow> bool" where
  "ledger_shape s \<longleftrightarrow> 0 < budget_usd s \<and> validate_rungs (warn_rungs s) = None \<and> warn_rungs s \<noteq> [] \<and>
     distinct (warned_rungs s) \<and> dict_wf (committed s)"

lemma fence_call_shape:
  assumes "ledger_shape s" shows "ledger_shape (snd (fence_call s p))"
proof (cases p)
  case (Charge sp)
  then show ?thesis using assms by (auto simp: charge_def Let_def ledger_shape_def case_prod_beta)
next
  case (Refund c)
  then show ?thesis using assms by (auto simp: refund_def Let_def ledger_shape_def case_prod_beta split: option.splits)
qed

interpretation fence: invariant_object fence_call ledger_shape
  by unfold_locales (rule fence_call_shape)

lemma dict_get_sort: "dict_wf d \<Longrightarrow> dict_get (sort_key fst d) = dict_get d"
  by (subst map_of_inject_set) (simp_all add: dict_wf_def distinct_map)

lemma or_default_Some [simp]: "or_default (Some xs) [] = xs"
  by (simp add: or_default_def)

text \<open>
  A ledger that is written out between two processes and read back answers every further
  session exactly as the original would have, as long as the total it had reached is a whole
  number of millionths (\<open>to_dict\<close> rounds it to six digits).
\<close>

theorem ledger_persistence_transparent:
  assumes "new_ledger b rs = Inr s0" "s = snd (run fence_call s0 ps)" "py_round 6 (spent_usd s) = spent_usd s"
  shows "case ledger_from_dict (ledger_to_dict s) of Inl e \<Rightarrow> False
    | Inr s' \<Rightarrow> fst (run fence_call s' qs) = fst (run fence_call s qs)"
proof -
  have "ledger_shape s0" using assms(1) by (auto simp: new_ledger_def ledger_shape_def validate_rungs_def split: if_splits option.splits)
  then have k: "ledger_shape s" unfolding assms(2) by (rule fence.run_inv)
  then obtain s' where s': "ledger_from_dict (ledger_to_dict s) = Inr s'" "same_ledger s' s"
    using assms(3) by (auto simp: ledger_from_dict_def ledger_to_dict_def or_default_def ledger_shape_def same_ledger_def dict_get_sort)
  then show ?thesis using run_same by simp
qed

theorem ledger_persistence_transparent_witness:
  "\<exists>s0. new_ledger 10 [6 / 10] = Inr s0 \<and>
     (let s = snd (run fence_call s0 [Charge \<lparr>call_id = ''b'', amount_usd = 7, sp_note = []\<rparr>]) in
      case ledger_from_dict (ledger_to_dict s) of Inl e \<Rightarrow> False
      | Inr s' \<Rightarrow> fst (run fence_call s' [Refund ''b'']) = fst (run fence_call s [Refund ''b'']))"
proof -
  obtain s0 where s0: "new_ledger 10 [6 / 10] = Inr s0" by (simp add: new_ledger_def validate_rungs_def)
  then have e: "s0 = \<lparr>budget_usd = 10, warn_rungs = [6 / 10], spent_usd = 0, warned_rungs = [], committed = [], refunded = []\<rparr>"
    by (simp add: new_ledger_def validate_rungs_def)
  have "spent_usd (snd (run fence_call s0 [Charge \<lparr>call_id = ''b'', amount_usd = 7, sp_note = []\<rparr>])) = 7"
    by (simp add: e charge_def Let_def tolerance_def)
  moreover have "py_round 6 7 = 7" by (simp add: py_round_def half_even_def Let_def)
  ultimately show ?thesis unfolding Let_def
    by (intro exI [of _ s0] conjI s0 ledger_persistence_transparent [OF s0 refl]) simp
qed

text \<open>
  Without that condition money is lost: a charge of 0.0000004 is committed, and after one
  \<open>to_dict\<close>/\<open>from_dict\<close> the total is zero again, so a program that persists between small charges
  never reaches its budget.
\<close>

lemma persistence_forgets_small_charges:
  assumes "s0 = \<lparr>budget_usd = 1 / 1000000, warn_rungs = [6 / 10], spent_usd = 0, warned_rungs = [], committed = [], refunded = []\<rparr>"
    and "s = snd (charge s0 \<lparr>call_id = ''a'', amount_usd = 4 / 10000000, sp_note = []\<rparr>)"
  shows "spent_usd s = 4 / 10000000 \<and>
    ledger_from_dict (ledger_to_dict s) = Inr (s\<lparr>spent_usd := 0\<rparr>)"
proof -
  have "s = s0\<lparr>spent_usd := 4 / 10000000, committed := [(''a'', 4 / 10000000)]\<rparr>"
    unfolding assms(2) by (simp add: assms(1) charge_def tolerance_def Let_def)
  moreover have "\<lfloor>2 / 5 :: rat\<rfloor> = 0" by (simp add: floor_eq_iff)
  then have "py_round 6 (4 / 10000000) = 0" by (simp add: py_round_def half_even_def Let_def)
  ultimately show ?thesis
    by (simp add: assms(1) ledger_from_dict_def ledger_to_dict_def or_default_def validate_rungs_def)
qed

end
