(* ===== verification/Turn_Pruner.thy ===== *)
theory Turn_Pruner
  imports Prelude "HOL-Library.Multiset"
begin

text \<open>
  The pruning of a long conversation
  (\<open>agent-conversation-turn-pruner/turn_pruner.py\<close>): head and tail bands, pinned turns, the
  elision marker, and the ceilings on turns and tokens.  The lines of the decision log are
  constructors with the data of the texts.
\<close>

section \<open>Data\<close>

record turn =
  t_role :: string
  t_content :: string
  pinned :: bool
  t_tokens :: "int option"

record prune_policy =
  keep_first :: int
  keep_last :: int
  max_total_turns :: "int option"
  max_total_tokens :: "int option"
  token_count_fn :: "(turn \<Rightarrow> int) option"
  elision_marker :: "string option"

datatype prune_decision =
    Split nat nat
  | No_middle
  | Middle nat nat nat
  | Inserted_marker nat
  | Turn_ceiling int nat
  | Token_breach int int
  | Token_ceiling int int

record prune_result =
  kept :: "turn list"
  dropped :: "turn list"
  marker_inserted :: bool
  kept_token_count :: int
  dropped_token_count :: int
  pr_decisions :: "prune_decision list"

datatype prune_error = KeepValueError | MaxTurnsValueError | MaxTokensValueError

section \<open>Operations\<close>

text \<open>\<open>len(s.split())\<close>: the number of maximal runs of non-space characters.\<close>

fun word_count :: "bool \<Rightarrow> string \<Rightarrow> nat" where
  "word_count inside [] = 0"
| "word_count inside (c # s) =
     (if py_space c then word_count False s else (if inside then 0 else 1) + word_count True s)"

definition default_token_count :: "turn \<Rightarrow> int" where
  "default_token_count t = (case t_tokens t of Some n \<Rightarrow> n | None \<Rightarrow> int (word_count False (t_content t)) + 2)"

definition count_tokens :: "prune_policy \<Rightarrow> turn \<Rightarrow> int" where
  "count_tokens pol t = (case token_count_fn pol of Some f \<Rightarrow> f t | None \<Rightarrow> default_token_count t)"

definition total_tokens :: "prune_policy \<Rightarrow> turn list \<Rightarrow> int" where
  "total_tokens pol ts = sum_list (map (count_tokens pol) ts)"

definition is_system :: "turn \<Rightarrow> bool" where
  "is_system t \<longleftrightarrow> t_role t = ''system''"

text \<open>Step 2: the turns kept by the bands, and the unpinned middle.\<close>

definition head_size :: "prune_policy \<Rightarrow> nat \<Rightarrow> nat" where
  "head_size pol n = nat (min (keep_first pol) (int n))"

definition tail_size :: "prune_policy \<Rightarrow> nat \<Rightarrow> nat" where
  "tail_size pol n = nat (min (keep_last pol) (int (n - head_size pol n)))"

definition bands :: "prune_policy \<Rightarrow> turn list \<Rightarrow> turn list \<times> turn list \<times> prune_decision" where
  "bands pol convo =
     (let n = length convo;
          head_n = head_size pol n;
          tail_n = tail_size pol n in
      if head_n + tail_n \<ge> n then (convo, [], No_middle)
      else
        let hd_band = take head_n convo;
            tl_band = (if tail_n > 0 then drop (n - tail_n) convo else []);
            middle = take (n - tail_n - head_n) (drop head_n convo);
            pinned_middle = filter pinned middle;
            unpinned_middle = filter (\<lambda>t. \<not> pinned t) middle in
        (hd_band @ pinned_middle @ tl_band, unpinned_middle,
         Middle (length middle) (length pinned_middle) (length unpinned_middle)))"

definition marker_turn :: "string \<Rightarrow> turn" where
  "marker_turn m = \<lparr>t_role = ''system'', t_content = m, pinned = False, t_tokens = None\<rparr>"

text \<open>Step 3: the marker, with the position the code computes.\<close>

definition marker_split :: "prune_policy \<Rightarrow> turn list \<Rightarrow> turn list \<Rightarrow> nat" where
  "marker_split pol convo kc =
     (let head_n = head_size pol (length convo)
      in head_n + length (filter pinned (drop head_n kc)))"

definition insert_marker ::
  "prune_policy \<Rightarrow> turn list \<Rightarrow> turn list \<Rightarrow> turn list \<Rightarrow> turn list \<times> bool \<times> prune_decision list" where
  "insert_marker pol convo kc middle_dropped =
     (case elision_marker pol of
        Some m \<Rightarrow>
          if middle_dropped \<noteq> [] \<and> m \<noteq> [] then
            (let k = marker_split pol convo kc in (take k kc @ [marker_turn m] @ drop k kc, True, [Inserted_marker k]))
          else (kc, False, [])
      | None \<Rightarrow> (kc, False, []))"

text \<open>\<open>further_dropped.append(kept_convo[i]); del kept_convo[i]\<close>\<close>

definition drop_at :: "nat \<Rightarrow> turn list \<times> turn list \<Rightarrow> turn list \<times> turn list" where
  "drop_at i p = (case p of (kc, fd) \<Rightarrow> (take i kc @ drop (Suc i) kc, fd @ [kc ! i]))"

text \<open>Step 4: the ceiling on the number of turns.\<close>

definition turn_ceiling ::
  "prune_policy \<Rightarrow> turn list \<Rightarrow> turn list \<Rightarrow> turn list \<times> turn list \<times> prune_decision list" where
  "turn_ceiling pol sys kc =
     (case max_total_turns pol of
        None \<Rightarrow> (kc, [], [])
      | Some m \<Rightarrow>
          if int (length (sys @ kc)) > m then
            (let excess = nat (int (length (sys @ kc)) - m);
                 eligible = filter (\<lambda>i. \<not> pinned (kc ! i) \<and> \<not> is_system (kc ! i)) [0..<length kc];
                 to_drop = take excess eligible;
                 (kc', fd) = fold drop_at (rev to_drop) (kc, [])
             in (kc', fd, [Turn_ceiling m (length fd)]))
          else (kc, [], []))"

text \<open>Step 5: the loop of the ceiling on tokens.\<close>

definition token_eligible :: "prune_policy \<Rightarrow> turn \<Rightarrow> bool" where
  "token_eligible pol t \<longleftrightarrow> \<not> (pinned t \<or> is_system t) \<and>
     \<not> (case elision_marker pol of Some m \<Rightarrow> t_content t = m | None \<Rightarrow> False)"

definition first_eligible :: "prune_policy \<Rightarrow> turn list \<Rightarrow> nat option" where
  "first_eligible pol kc = (case filter (\<lambda>i. token_eligible pol (kc ! i)) [0..<length kc] of [] \<Rightarrow> None | i # _ \<Rightarrow> Some i)"

lemma first_eligible_less: "first_eligible pol kc = Some i \<Longrightarrow> i < length kc \<and> token_eligible pol (kc ! i)"
proof -
  assume "first_eligible pol kc = Some i"
  then obtain js where "filter (\<lambda>i. token_eligible pol (kc ! i)) [0..<length kc] = i # js"
    by (auto simp: first_eligible_def split: list.splits)
  then have "i \<in> set (filter (\<lambda>i. token_eligible pol (kc ! i)) [0..<length kc])" by (metis list.set_intros(1))
  then show ?thesis by auto
qed

function token_loop ::
  "prune_policy \<Rightarrow> int \<Rightarrow> turn list \<Rightarrow> turn list \<times> turn list \<Rightarrow> (turn list \<times> turn list) \<times> prune_decision" where
  "token_loop pol b sys p =
     (if total_tokens pol (sys @ fst p) > b then
        (case first_eligible pol (fst p) of
           None \<Rightarrow> (p, Token_breach b (total_tokens pol (sys @ fst p)))
         | Some i \<Rightarrow> token_loop pol b sys (drop_at i p))
      else (p, Token_ceiling b (total_tokens pol (sys @ fst p))))"
  by pat_completeness auto
termination
  by (relation "measure (\<lambda>(pol, b, sys, p). length (fst p))")
     (auto simp: drop_at_def split: prod.splits dest!: first_eligible_less)

declare token_loop.simps [simp del]

definition token_phase ::
  "prune_policy \<Rightarrow> turn list \<Rightarrow> turn list \<times> turn list \<Rightarrow> (turn list \<times> turn list) \<times> prune_decision list" where
  "token_phase pol sys p =
     (case max_total_tokens pol of
        None \<Rightarrow> (p, [])
      | Some b \<Rightarrow> (case token_loop pol b sys p of (p', d) \<Rightarrow> (p', [d])))"

definition prune :: "turn list \<Rightarrow> prune_policy \<Rightarrow> prune_error + prune_result" where
  "prune turns pol =
     (if keep_first pol < 0 \<or> keep_last pol < 0 then Inl KeepValueError
      else if (case max_total_turns pol of Some m \<Rightarrow> m < 0 | None \<Rightarrow> False) then Inl MaxTurnsValueError
      else if (case max_total_tokens pol of Some m \<Rightarrow> m < 0 | None \<Rightarrow> False) then Inl MaxTokensValueError
      else
        let sys = filter is_system turns;
            convo = filter (\<lambda>t. \<not> is_system t) turns;
            (kc0, md, d1) = bands pol convo;
            (kc1, marked, d2) = insert_marker pol convo kc0 md;
            (kc2, fd, d3) = turn_ceiling pol sys kc1;
            ((kc3, fd'), d4) = token_phase pol sys (kc2, fd);
            all_dropped = md @ fd' in
        Inr \<lparr>kept = sys @ kc3, dropped = all_dropped, marker_inserted = marked,
             kept_token_count = total_tokens pol (sys @ kc3), dropped_token_count = total_tokens pol all_dropped,
             pr_decisions = Split (length sys) (length convo) # d1 # d2 @ d3 @ d4\<rparr>)"

section \<open>Conservation\<close>

text \<open>Nothing is lost: a step moves turns between the kept and the dropped list.\<close>

abbreviation parts :: "turn list \<times> turn list \<Rightarrow> turn multiset" where
  "parts p \<equiv> mset (fst p) + mset (snd p)"

definition droppable :: "turn list \<Rightarrow> bool" where
  "droppable ts \<longleftrightarrow> (\<forall>t\<in>set ts. \<not> pinned t \<and> \<not> is_system t)"

lemma drop_at_parts: "i < length (fst p) \<Longrightarrow> parts (drop_at i p) = parts p"
proof -
  assume i: "i < length (fst p)"
  have "mset (fst p) = mset (take i (fst p) @ fst p ! i # drop (Suc i) (fst p))"
    using i by (simp add: id_take_nth_drop [symmetric])
  then show ?thesis by (cases p) (simp add: drop_at_def)
qed

lemma drop_at_droppable:
  "droppable (snd p) \<Longrightarrow> \<not> pinned (fst p ! i) \<Longrightarrow> \<not> is_system (fst p ! i) \<Longrightarrow> droppable (snd (drop_at i p))"
  by (cases p) (auto simp: drop_at_def droppable_def)

lemma bands_conserve:
  assumes "bands pol convo = (kc, md, d)"
  shows "mset kc + mset md = mset convo" "\<forall>t\<in>set md. \<not> pinned t" "set md \<subseteq> set convo"
proof -
  let ?n = "length convo"
  let ?h = "head_size pol ?n"
  let ?t = "tail_size pol ?n"
  have "mset kc + mset md = mset convo \<and> (\<forall>t\<in>set md. \<not> pinned t) \<and> set md \<subseteq> set convo"
  proof (cases "?h + ?t \<ge> ?n")
    case True
    then show ?thesis using assms by (simp add: bands_def Let_def)
  next
    case False
    define m where "m = take (?n - ?t - ?h) (drop ?h convo)"
    have tl: "(if t > 0 then drop (?n - t) convo else []) = drop (?n - t) convo" for t by simp
    have c: "convo = take ?h convo @ m @ drop (?n - ?t) convo"
    proof -
      have "drop (?n - ?t) convo = drop (?n - ?t - ?h) (drop ?h convo)" using False by simp
      then show ?thesis unfolding m_def by (metis append_take_drop_id)
    qed
    have k: "kc = take ?h convo @ filter pinned m @ drop (?n - ?t) convo" "md = filter (\<lambda>t. \<not> pinned t) m"
      using assms False unfolding bands_def Let_def tl m_def by simp_all
    have "mset m = mset (filter pinned m) + mset (filter (\<lambda>t. \<not> pinned t) m)" by simp
    then have "mset (take ?h convo @ m @ drop (?n - ?t) convo) = mset kc + mset md" unfolding k by simp
    moreover have "set m \<subseteq> set convo" using c by (metis Un_upper1 Un_upper2 set_append subset_trans)
    ultimately show ?thesis using k c by auto
  qed
  then show "mset kc + mset md = mset convo" "\<forall>t\<in>set md. \<not> pinned t" "set md \<subseteq> set convo" by auto
qed

lemma insert_marker_conserve:
  assumes "insert_marker pol convo kc md = (kc', marked, d)"
  shows "mset kc' = mset kc + (if marked then {#marker_turn (the (elision_marker pol))#} else {#})"
proof -
  have "mset (take k kc @ [x] @ drop k kc) = add_mset x (mset kc)" for k x
    by (metis append_take_drop_id mset_append union_mset_add_mset_left union_mset_add_mset_right append_Cons append_Nil mset.simps(2))
  then show ?thesis using assms by (auto simp: insert_marker_def Let_def split: option.splits if_splits)
qed

lemma fold_drop_at:
  assumes "sorted_wrt (>) is" "\<forall>i\<in>set is. i < length (fst p) \<and> \<not> pinned (fst p ! i) \<and> \<not> is_system (fst p ! i)"
    "droppable (snd p)"
  shows "parts (fold drop_at is p) = parts p \<and> droppable (snd (fold drop_at is p))"
  using assms
proof (induction "is" arbitrary: p)
  case (Cons i js)
  have i: "i < length (fst p)" "\<not> pinned (fst p ! i)" "\<not> is_system (fst p ! i)" using Cons.prems(2) by auto
  have "\<forall>j\<in>set js. j < length (fst (drop_at i p)) \<and> \<not> pinned (fst (drop_at i p) ! j) \<and> \<not> is_system (fst (drop_at i p) ! j)"
  proof
    fix j assume j: "j \<in> set js"
    then have ji: "j < i" using Cons.prems(1) by simp
    then have "fst (drop_at i p) ! j = fst p ! j" "j < length (fst (drop_at i p))"
      using i(1) by (cases p; auto simp: drop_at_def nth_append)+
    then show "j < length (fst (drop_at i p)) \<and> \<not> pinned (fst (drop_at i p) ! j) \<and> \<not> is_system (fst (drop_at i p) ! j)"
      using Cons.prems(2) j by simp
  qed
  then show ?case
    using Cons.IH [of "drop_at i p"] Cons.prems drop_at_parts [OF i(1)] drop_at_droppable [OF Cons.prems(3) i(2,3)] by simp
qed simp

lemma turn_ceiling_conserve:
  assumes "turn_ceiling pol sys kc = (kc', fd, d)"
  shows "mset kc' + mset fd = mset kc" "droppable fd"
proof -
  have "mset kc' + mset fd = mset kc \<and> droppable fd"
  proof (cases "\<exists>m. max_total_turns pol = Some m \<and> int (length (sys @ kc)) > m")
    case True
    then obtain m where m: "max_total_turns pol = Some m" "int (length (sys @ kc)) > m" by blast
    let ?e = "filter (\<lambda>i. \<not> pinned (kc ! i) \<and> \<not> is_system (kc ! i)) [0..<length kc]"
    let ?is = "rev (take (nat (int (length (sys @ kc)) - m)) ?e)"
    have "sorted_wrt (<) ?e" by (simp add: sorted_wrt_filter)
    then have srt: "sorted_wrt (>) ?is" by (simp add: sorted_wrt_rev sorted_wrt_take)
    have el: "\<forall>i\<in>set ?is. i < length (fst (kc, [])) \<and> \<not> pinned (fst (kc, []) ! i) \<and> \<not> is_system (fst (kc, []) ! i)"
      by (auto dest: in_set_takeD)
    have "(kc', fd) = fold drop_at ?is (kc, [])"
      using assms m by (auto simp: turn_ceiling_def Let_def split: prod.splits)
    then show ?thesis using fold_drop_at [OF srt el] by (metis (no_types) add.right_neutral droppable_def empty_iff fst_conv list.set(1) mset.simps(1) snd_conv)
  next
    case False
    then have "kc' = kc \<and> fd = []" using assms by (auto simp: turn_ceiling_def Let_def split: option.splits if_splits)
    then show ?thesis by (simp add: droppable_def)
  qed
  then show "mset kc' + mset fd = mset kc" "droppable fd" by auto
qed

lemma token_loop_conserve:
  "droppable (snd p) \<Longrightarrow> parts (fst (token_loop pol b sys p)) = parts p \<and> droppable (snd (fst (token_loop pol b sys p))) \<and>
   (total_tokens pol (sys @ fst (fst (token_loop pol b sys p))) \<le> b \<or>
    (\<forall>t\<in>set (fst (fst (token_loop pol b sys p))). \<not> token_eligible pol t))"
proof (induction pol b sys p rule: token_loop.induct)
  case (1 pol b sys p)
  show ?case
  proof (cases "total_tokens pol (sys @ fst p) > b")
    case False
    then show ?thesis using 1(2) by (simp add: token_loop.simps [of pol b sys p])
  next
    case True
    show ?thesis
    proof (cases "first_eligible pol (fst p)")
      case None
      then have "\<forall>i<length (fst p). \<not> token_eligible pol (fst p ! i)"
        by (auto simp: first_eligible_def filter_empty_conv split: list.splits)
      then have "\<forall>t\<in>set (fst p). \<not> token_eligible pol t" by (metis in_set_conv_nth)
      then show ?thesis using 1(2) True None by (simp add: token_loop.simps [of pol b sys p])
    next
      case (Some i)
      have i: "i < length (fst p)" "token_eligible pol (fst p ! i)" using first_eligible_less [OF Some] by auto
      then have "droppable (snd (drop_at i p))" using drop_at_droppable [OF 1(2)] by (simp add: token_eligible_def)
      from 1(1) [OF True Some this] show ?thesis
        using drop_at_parts [OF i(1)] True Some by (simp add: token_loop.simps [of pol b sys p])
    qed
  qed
qed

lemma token_phase_conserve:
  assumes "droppable (snd p)" and "token_phase pol sys p = (p', d)"
  shows "parts p' = parts p" "droppable (snd p')"
    "max_total_tokens pol = Some b \<Longrightarrow>
       total_tokens pol (sys @ fst p') \<le> b \<or> (\<forall>t\<in>set (fst p'). \<not> token_eligible pol t)"
proof -
  have "parts p' = parts p \<and> droppable (snd p') \<and> (\<forall>b. max_total_tokens pol = Some b \<longrightarrow>
      total_tokens pol (sys @ fst p') \<le> b \<or> (\<forall>t\<in>set (fst p'). \<not> token_eligible pol t))"
  proof (cases "max_total_tokens pol")
    case None
    then show ?thesis using assms by (simp add: token_phase_def)
  next
    case (Some b)
    then have "p' = fst (token_loop pol b sys p)" using assms(2) by (auto simp: token_phase_def split: prod.splits)
    then show ?thesis using token_loop_conserve [OF assms(1), of pol b sys] Some by simp
  qed
  then show "parts p' = parts p" "droppable (snd p')"
    "max_total_tokens pol = Some b \<Longrightarrow>
       total_tokens pol (sys @ fst p') \<le> b \<or> (\<forall>t\<in>set (fst p'). \<not> token_eligible pol t)" by blast+
qed

section \<open>Properties\<close>

lemma mset_split_system: "mset ts = mset (filter is_system ts) + mset (filter (\<lambda>t. \<not> is_system t) ts)"
  by simp

text \<open>
  Pruning loses nothing and never drops a protected turn: the kept turns (less the one
  elision marker, if it was inserted) and the dropped turns are together exactly the input,
  no system turn and no pinned turn is dropped, and with a token ceiling either the kept turns
  fit under it or everything that may be dropped has been dropped.
\<close>

theorem prune_conserves_and_protects:
  assumes "prune turns pol = Inr r"
  shows "mset (kept r) + mset (dropped r) =
      mset turns + (if marker_inserted r then {#marker_turn (the (elision_marker pol))#} else {#}) \<and>
    (\<forall>t\<in>set (dropped r). \<not> pinned t \<and> \<not> is_system t) \<and>
    (\<forall>b. max_total_tokens pol = Some b \<longrightarrow>
       kept_token_count r \<le> b \<or> (\<forall>t\<in>set (kept r). \<not> token_eligible pol t))"
proof -
  let ?sys = "filter is_system turns" and ?convo = "filter (\<lambda>t. \<not> is_system t) turns"
  obtain kc0 md d1 where b: "bands pol ?convo = (kc0, md, d1)" by (cases "bands pol ?convo") auto
  obtain kc1 mk d2 where m: "insert_marker pol ?convo kc0 md = (kc1, mk, d2)"
    by (cases "insert_marker pol ?convo kc0 md") auto
  obtain kc2 fd d3 where c: "turn_ceiling pol ?sys kc1 = (kc2, fd, d3)" by (cases "turn_ceiling pol ?sys kc1") auto
  obtain p d4 where ph: "token_phase pol ?sys (kc2, fd) = (p, d4)" by (cases "token_phase pol ?sys (kc2, fd)")
  have r: "kept r = ?sys @ fst p" "dropped r = md @ snd p" "marker_inserted r = mk"
      "kept_token_count r = total_tokens pol (?sys @ fst p)"
    using assms by (cases p; auto simp: prune_def b m c ph Let_def split: if_splits)+
  note bc = bands_conserve [OF b]
  note tc = turn_ceiling_conserve [OF c]
  have pp: "parts p = mset kc2 + mset fd" "droppable (snd p)"
    and cap: "\<And>b. max_total_tokens pol = Some b \<Longrightarrow>
      total_tokens pol (?sys @ fst p) \<le> b \<or> (\<forall>t\<in>set (fst p). \<not> token_eligible pol t)"
    using token_phase_conserve [OF _ ph] tc(2) by simp_all
  have "mset (kept r) + mset (dropped r) = mset ?sys + (parts p + mset md)" by (simp add: r)
  also have "parts p + mset md = mset kc1 + mset md" using pp(1) tc(1) by simp
  also have "\<dots> = mset ?convo + (if mk then {#marker_turn (the (elision_marker pol))#} else {#})"
    using insert_marker_conserve [OF m] bc(1) by (auto simp: algebra_simps)
  finally have "mset (kept r) + mset (dropped r) =
      mset turns + (if marker_inserted r then {#marker_turn (the (elision_marker pol))#} else {#})"
    unfolding r(3) mset_split_system [of turns] by (simp only: add.assoc)
  moreover have "\<forall>t\<in>set (dropped r). \<not> pinned t \<and> \<not> is_system t"
    using r(2) bc(2,3) pp(2) by (auto simp: droppable_def)
  moreover have "\<forall>t\<in>set ?sys. \<not> token_eligible pol t" by (simp add: token_eligible_def)
  ultimately show ?thesis using cap r(1,4) by auto
qed

definition demo_turn :: "string \<Rightarrow> bool \<Rightarrow> turn" where
  "demo_turn c p = \<lparr>t_role = ''user'', t_content = c, pinned = p, t_tokens = Some 1\<rparr>"

definition demo_prune_policy :: prune_policy where
  "demo_prune_policy = \<lparr>keep_first = 1, keep_last = 2, max_total_turns = None, max_total_tokens = None,
     token_count_fn = None, elision_marker = Some ''...''\<rparr>"

lemma demo_prune:
  "\<exists>r. prune [demo_turn ''a'' False, demo_turn ''b'' False, demo_turn ''c'' False, demo_turn ''d'' True] demo_prune_policy = Inr r \<and>
     map t_content (kept r) = [''a'', ''c'', ''...'', ''d''] \<and> map t_content (dropped r) = [''b'']"
  by (simp add: prune_def demo_prune_policy_def demo_turn_def bands_def head_size_def tail_size_def token_phase_def insert_marker_def marker_split_def marker_turn_def
      turn_ceiling_def is_system_def Let_def)

theorem prune_conserves_and_protects_witness:
  "\<exists>r. prune [demo_turn ''a'' False, demo_turn ''b'' False, demo_turn ''c'' False, demo_turn ''d'' True] demo_prune_policy = Inr r \<and>
     (\<forall>t\<in>set (dropped r). \<not> pinned t)"
  using demo_prune prune_conserves_and_protects by blast

text \<open>The code counts pinned turns of the tail when it places the marker: in \<open>demo_prune\<close> the
  elided turn \<open>b\<close> stood before \<open>c\<close>, and the marker is put after \<open>c\<close>, inside the tail.\<close>

lemma marker_inside_tail:
  "marker_split demo_prune_policy [demo_turn ''a'' False, demo_turn ''b'' False, demo_turn ''c'' False, demo_turn ''d'' True]
     [demo_turn ''a'' False, demo_turn ''c'' False, demo_turn ''d'' True] = 2"
  by (simp add: marker_split_def head_size_def demo_prune_policy_def demo_turn_def)

end
