(* ===== verification/Tool_Call_Buffer.thy ===== *)
theory Tool_Call_Buffer
  imports Py_Json
begin

text \<open>
  The buffer that assembles streamed tool calls (\<open>streaming-tool-call-buffer/buffer.py\<close>).
  The two callbacks are modelled by the list of events a call produces.  \<open>json.loads\<close> is a
  parameter \<open>loads\<close> (\<open>None\<close> for JSONDecodeError); nothing is assumed of it.
\<close>

section \<open>State and operations\<close>

record partial_call =
  pc_index :: int
  pc_call_id :: "string option"
  pc_name :: "string option"
  args_buf :: string
  finalized :: bool
  emitted :: bool

definition new_partial :: "int \<Rightarrow> partial_call" where
  "new_partial i = \<lparr>pc_index = i, pc_call_id = None, pc_name = None, args_buf = [], finalized = False, emitted = False\<rparr>"

datatype call_event =
    Completed int "string option" string "(string \<times> json) list"
  | Malformed int "string option" "string option" string string

fun event_index :: "call_event \<Rightarrow> int" where
  "event_index (Completed i _ _ _) = i"
| "event_index (Malformed i _ _ _ _) = i"

record delta =
  d_index :: "int option"
  d_id :: "string option"
  d_name :: "string option"
  d_arguments :: "string option"
  d_finalize :: bool

record call_buffer =
  cb_calls :: "(int, partial_call) dict"
  highest_seen_index :: int

definition new_call_buffer :: call_buffer where
  "new_call_buffer = \<lparr>cb_calls = [], highest_seen_index = -1\<rparr>"

definition truthy :: "string option \<Rightarrow> bool" where
  "truthy s \<longleftrightarrow> s \<noteq> None \<and> s \<noteq> Some []"

definition try_emit ::
  "(string \<Rightarrow> json option) \<Rightarrow> partial_call \<Rightarrow> bool \<Rightarrow> bool \<Rightarrow> call_event list \<times> partial_call" where
  "try_emit loads call implicit eos =
     (if emitted call then ([], call)
      else if \<not> truthy (pc_name call) then
        (if eos then
           ([Malformed (pc_index call) (pc_call_id call) None (args_buf call) ''missing tool name at end of stream''],
            call\<lparr>emitted := True\<rparr>)
         else ([], call))
      else
        let raw = py_strip (args_buf call); name = the (pc_name call) in
        if raw = [] then
          (if finalized call \<or> eos \<or> implicit
           then ([Completed (pc_index call) (pc_call_id call) name []], call\<lparr>emitted := True\<rparr>)
           else ([], call))
        else
          case loads raw of
            None \<Rightarrow>
              if finalized call \<or> eos
              then ([Malformed (pc_index call) (pc_call_id call) (pc_name call) raw ''invalid JSON''], call\<lparr>emitted := True\<rparr>)
              else ([], call)
          | Some (JObj fs) \<Rightarrow> ([Completed (pc_index call) (pc_call_id call) name fs], call\<lparr>emitted := True\<rparr>)
          | Some _ \<Rightarrow>
              ([Malformed (pc_index call) (pc_call_id call) (pc_name call) raw ''arguments must be a JSON object''],
               call\<lparr>emitted := True\<rparr>))"

text \<open>The loops over \<open>self._calls\<close>: \<open>try_emit\<close> on the selected calls, in dictionary order.\<close>

fun emit_where ::
  "(string \<Rightarrow> json option) \<Rightarrow> (int \<Rightarrow> bool) \<Rightarrow> bool \<Rightarrow> (int, partial_call) dict \<Rightarrow>
   call_event list \<times> (int, partial_call) dict" where
  "emit_where loads sel eos [] = ([], [])"
| "emit_where loads sel eos ((k, c) # d) =
     (let (ev, c') = (if sel k \<and> \<not> emitted c then try_emit loads c True eos else ([], c));
          (evs, d') = emit_where loads sel eos d
      in (ev @ evs, (k, c') # d'))"

definition apply_delta :: "delta \<Rightarrow> partial_call \<Rightarrow> partial_call" where
  "apply_delta dl c =
     (let c1 = (if truthy (d_id dl) then c\<lparr>pc_call_id := d_id dl\<rparr> else c);
          c2 = (if truthy (d_name dl) then c1\<lparr>pc_name := d_name dl\<rparr> else c1);
          c3 = (if truthy (d_arguments dl) then c2\<lparr>args_buf := args_buf c2 @ the (d_arguments dl)\<rparr> else c2)
      in if d_finalize dl then c3\<lparr>finalized := True\<rparr> else c3)"

definition cb_feed :: "(string \<Rightarrow> json option) \<Rightarrow> call_buffer \<Rightarrow> delta \<Rightarrow> call_event list \<times> call_buffer" where
  "cb_feed loads s dl =
     (let idx = (case d_index dl of None \<Rightarrow> 0 | Some i \<Rightarrow> i);
          call0 = (case dict_get (cb_calls s) idx of None \<Rightarrow> new_partial idx | Some c \<Rightarrow> c);
          call = apply_delta dl call0;
          calls1 = dict_set idx call (cb_calls s);
          (ev1, calls2, hi) =
            (if idx > highest_seen_index s
             then (let (ev, d) = emit_where loads (\<lambda>k. k < idx) False calls1 in (ev, d, idx))
             else ([], calls1, highest_seen_index s));
          (ev2, calls3) =
            (if finalized call
             then (let (ev, c') = try_emit loads call False False in (ev, dict_set idx c' calls2))
             else ([], calls2))
      in (ev1 @ ev2, s\<lparr>cb_calls := calls3, highest_seen_index := hi\<rparr>))"

definition cb_finish :: "(string \<Rightarrow> json option) \<Rightarrow> call_buffer \<Rightarrow> call_event list \<times> call_buffer" where
  "cb_finish loads s = (let (ev, d) = emit_where loads (\<lambda>k. True) True (cb_calls s) in (ev, s\<lparr>cb_calls := d\<rparr>))"

fun cb_stream :: "(string \<Rightarrow> json option) \<Rightarrow> call_buffer \<Rightarrow> delta list \<Rightarrow> call_event list \<times> call_buffer" where
  "cb_stream loads s [] = cb_finish loads s"
| "cb_stream loads s (dl # dls) =
     (let (ev, s') = cb_feed loads s dl; (evs, s'') = cb_stream loads s' dls in (ev @ evs, s''))"

section \<open>Exactly once\<close>

definition idx_of :: "delta \<Rightarrow> int" where
  "idx_of dl = (case d_index dl of None \<Rightarrow> 0 | Some i \<Rightarrow> i)"

abbreviation count_events :: "int \<Rightarrow> call_event list \<Rightarrow> nat" where
  "count_events k evs \<equiv> length (filter (\<lambda>e. event_index e = k) evs)"

definition emitted_at :: "(int, partial_call) dict \<Rightarrow> int \<Rightarrow> bool" where
  "emitted_at d k \<longleftrightarrow> (\<exists>c. dict_get d k = Some c \<and> emitted c)"

definition cb_inv :: "(int, partial_call) dict \<Rightarrow> bool" where
  "cb_inv d \<longleftrightarrow> dict_wf d \<and> (\<forall>(k, c)\<in>set d. pc_index c = k)"

lemma try_emit_cases:
  "(\<exists>e. try_emit loads c im eos = ([e], c\<lparr>emitted := True\<rparr>) \<and> event_index e = pc_index c \<and> \<not> emitted c) \<or>
   try_emit loads c im eos = ([], c)"
  by (auto simp: try_emit_def Let_def split: option.split json.split)

lemma try_emit_eos: "emitted (snd (try_emit loads c True True))"
  by (auto simp: try_emit_def Let_def split: option.split json.split)

lemma emit_where_keys: "map fst (snd (emit_where loads sel eos d)) = map fst d"
  by (induction d) (auto simp: Let_def case_prod_beta)

lemma emit_where_index:
  "(\<forall>(k, c)\<in>set d. pc_index c = k) \<Longrightarrow> (\<forall>(k, c)\<in>set (snd (emit_where loads sel eos d)). pc_index c = k)"
proof (induction d)
  case (Cons p d)
  obtain k c where p: "p = (k, c)" by (cases p)
  have "pc_index (snd (try_emit loads c True eos)) = pc_index c" using try_emit_cases [of loads c True eos] by auto
  then show ?case using Cons p by (auto simp: Let_def case_prod_beta)
qed simp

lemma emit_where_count:
  assumes "cb_inv d"
  shows "count_events k (fst (emit_where loads sel eos d)) + of_bool (emitted_at d k) =
    of_bool (emitted_at (snd (emit_where loads sel eos d)) k)"
  using assms
proof (induction d)
  case (Cons p d)
  obtain k0 c where p: "p = (k0, c)" by (cases p)
  let ?r = "emit_where loads sel eos d"
  let ?t = "if sel k0 \<and> \<not> emitted c then try_emit loads c True eos else ([], c)"
  have inv: "cb_inv d" and idx: "pc_index c = k0" and new: "dict_get d k0 = None"
    using Cons.prems p by (auto simp: cb_inv_def dict_wf_def map_of_eq_None_iff)
  have r: "emit_where loads sel eos (p # d) = (fst ?t @ fst ?r, (k0, snd ?t) # snd ?r)"
    by (simp add: p Let_def case_prod_beta)
  have newr: "dict_get (snd ?r) k0 = None"
    using new emit_where_keys [of loads sel eos d] by (metis map_of_eq_None_iff set_map)
  have t: "count_events k (fst ?t) + of_bool (k = k0 \<and> emitted c) = of_bool (k = k0 \<and> emitted (snd ?t))"
    using try_emit_cases [of loads c True eos] idx by auto
  have "emitted_at (p # d) k \<longleftrightarrow> (if k = k0 then emitted c else emitted_at d k)"
    "emitted_at ((k0, snd ?t) # snd ?r) k \<longleftrightarrow> (if k = k0 then emitted (snd ?t) else emitted_at (snd ?r) k)"
    "\<not> emitted_at d k0" "\<not> emitted_at (snd ?r) k0"
    using new newr by (auto simp: emitted_at_def p)
  then show ?case using Cons.IH [OF inv] t unfolding r by (cases "k = k0") simp_all
qed (simp add: emitted_at_def)

lemma emit_where_inv: "cb_inv d \<Longrightarrow> cb_inv (snd (emit_where loads sel eos d))"
  using emit_where_index [of d loads sel eos] by (simp add: cb_inv_def dict_wf_def emit_where_keys)

lemma emit_where_all: "(k, c) \<in> set (snd (emit_where loads (\<lambda>k. True) True d)) \<Longrightarrow> emitted c"
  by (induction d) (auto simp: Let_def case_prod_beta try_emit_eos split: if_splits)

lemma cb_inv_set: "cb_inv d \<Longrightarrow> pc_index c = k \<Longrightarrow> cb_inv (dict_set k c d)"
  by (auto simp: cb_inv_def dict_wf_def distinct_update dest!: update_Some_unfold [THEN iffD1] intro: ballI)
     (metis (mono_tags, lifting) case_prodD dict_wf_def dict_wf_set fun_upd_apply map_of_SomeD map_of_is_SomeI option.inject update_conv')

lemma emitted_at_set: "emitted_at (dict_set k c d) k' \<longleftrightarrow> (if k = k' then emitted c else emitted_at d k')"
  by (auto simp: emitted_at_def)

lemma apply_delta_frame: "emitted (apply_delta dl c) = emitted c" "pc_index (apply_delta dl c) = pc_index c"
  by (simp_all add: apply_delta_def Let_def)

lemma emit_where_unselected: "\<not> sel k \<Longrightarrow> dict_get (snd (emit_where loads sel eos d)) k = dict_get d k"
  by (induction d) (auto simp: Let_def case_prod_beta)

lemma cb_feed_step:
  assumes "cb_inv (cb_calls s)"
  shows "cb_inv (cb_calls (snd (cb_feed loads s dl)))"
    and "count_events k (fst (cb_feed loads s dl)) + of_bool (emitted_at (cb_calls s) k) =
      of_bool (emitted_at (cb_calls (snd (cb_feed loads s dl))) k)"
    and "fst ` set (cb_calls (snd (cb_feed loads s dl))) = insert (idx_of dl) (fst ` set (cb_calls s))"
proof -
  define idx where "idx = idx_of dl"
  define call0 where "call0 = (case dict_get (cb_calls s) idx of None \<Rightarrow> new_partial idx | Some c \<Rightarrow> c)"
  define call where "call = apply_delta dl call0"
  define calls1 where "calls1 = dict_set idx call (cb_calls s)"
  define p2 where "p2 = (if idx > highest_seen_index s then emit_where loads (\<lambda>k. k < idx) False calls1 else ([], calls1))"
  define p3 where "p3 = (if finalized call then try_emit loads call False False else ([], call))"
  have call_idx: "pc_index call = idx"
    using assms by (auto simp: call_def apply_delta_frame call0_def new_partial_def cb_inv_def split: option.splits dest: map_of_SomeD)
  have i1: "cb_inv calls1" using cb_inv_set [OF assms call_idx] by (simp add: calls1_def)
  have e1: "emitted_at calls1 k \<longleftrightarrow> emitted_at (cb_calls s) k"
    unfolding calls1_def emitted_at_set call_def apply_delta_frame
    by (auto simp: call0_def emitted_at_def new_partial_def split: option.splits)
  have i2: "cb_inv (snd p2)" using emit_where_inv [OF i1] i1 by (simp add: p2_def)
  have c2: "count_events k (fst p2) + of_bool (emitted_at calls1 k) = of_bool (emitted_at (snd p2) k)"
    using emit_where_count [OF i1, of k] by (simp add: p2_def)
  have g2: "dict_get (snd p2) idx = Some call"
    using emit_where_unselected [of "\<lambda>k. k < idx" idx loads False calls1] by (simp add: p2_def calls1_def)
  have c3: "count_events k (fst p3) + of_bool (k = idx \<and> emitted call) = of_bool (k = idx \<and> emitted (snd p3))"
    "pc_index (snd p3) = idx"
    using try_emit_cases [of loads call False False] call_idx by (auto simp: p3_def)
  have same: "finalized call \<or> snd p3 = call" by (simp add: p3_def)
  have feed: "fst (cb_feed loads s dl) = fst p2 @ fst p3"
    "cb_calls (snd (cb_feed loads s dl)) = (if finalized call then dict_set idx (snd p3) (snd p2) else snd p2)"
    unfolding cb_feed_def Let_def p2_def p3_def calls1_def call_def call0_def idx_def idx_of_def
    by (simp_all add: case_prod_beta)
  have f: "emitted_at (cb_calls (snd (cb_feed loads s dl))) k \<longleftrightarrow> (if k = idx then emitted (snd p3) else emitted_at (snd p2) k)"
    using g2 same unfolding feed by (auto simp: emitted_at_set emitted_at_def)
  have at: "emitted_at (snd p2) idx = emitted call" using g2 by (simp add: emitted_at_def)
  show "cb_inv (cb_calls (snd (cb_feed loads s dl)))"
    unfolding feed using i2 cb_inv_set [OF i2 c3(2)] by simp
  show "count_events k (fst (cb_feed loads s dl)) + of_bool (emitted_at (cb_calls s) k) =
      of_bool (emitted_at (cb_calls (snd (cb_feed loads s dl))) k)"
    unfolding f unfolding feed using c2 c3(1) e1 at by (cases "k = idx") auto
  have "fst ` set (snd p2) = fst ` set calls1"
    using arg_cong [OF emit_where_keys [of loads "\<lambda>k. k < idx" False calls1], of set] by (simp add: p2_def)
  then show "fst ` set (cb_calls (snd (cb_feed loads s dl))) = insert (idx_of dl) (fst ` set (cb_calls s))"
    unfolding feed by (auto simp: calls1_def idx_def)
qed

lemma cb_finish_count:
  assumes "cb_inv (cb_calls s)"
  shows "count_events k (fst (cb_finish loads s)) + of_bool (emitted_at (cb_calls s) k) = of_bool (k \<in> fst ` set (cb_calls s))"
proof -
  let ?r = "emit_where loads (\<lambda>k. True) True (cb_calls s)"
  have "emitted_at (snd ?r) k \<longleftrightarrow> k \<in> fst ` set (cb_calls s)"
  proof -
    have "k \<in> fst ` set (cb_calls s) \<longleftrightarrow> dict_get (snd ?r) k \<noteq> None"
      using emit_where_keys [of loads "\<lambda>k. True" True "cb_calls s"] by (metis map_of_eq_None_iff set_map)
    moreover have "emitted c" if "dict_get (snd ?r) k = Some c" for c
      by (rule emit_where_all [OF map_of_SomeD [OF that]])
    ultimately show ?thesis unfolding emitted_at_def by (cases "dict_get (snd ?r) k") simp_all
  qed
  then show ?thesis using emit_where_count [OF assms, of k] by (simp add: cb_finish_def case_prod_beta)
qed

lemma cb_stream_count:
  "cb_inv (cb_calls s) \<Longrightarrow>
   count_events k (fst (cb_stream loads s dls)) + of_bool (emitted_at (cb_calls s) k) =
     of_bool (k \<in> fst ` set (cb_calls s) \<union> idx_of ` set dls)"
proof (induction dls arbitrary: s)
  case Nil
  then show ?case using cb_finish_count by simp
next
  case (Cons dl dls)
  note st = cb_feed_step [OF Cons.prems, where dl = dl]
  have e1: "count_events k (fst (cb_stream loads s (dl # dls))) =
      count_events k (fst (cb_feed loads s dl)) + count_events k (fst (cb_stream loads (snd (cb_feed loads s dl)) dls))"
    by (simp add: case_prod_beta Let_def)
  have e2: "k \<in> fst ` set (cb_calls s) \<union> idx_of ` set (dl # dls) \<longleftrightarrow>
      k \<in> fst ` set (cb_calls (snd (cb_feed loads s dl))) \<union> idx_of ` set dls"
    unfolding st(3) by auto
  show ?case unfolding e1 e2 using Cons.IH [OF st(1) [where loads = loads]] st(2) [where loads = loads and k = k] by linarith
qed

text \<open>
  C39.  Exactly once: for every sequence of deltas, interleaved in any way, and whatever the
  JSON parser answers, feeding them and finishing the stream produces exactly one event, a
  completed or a malformed call, for every call index that occurred, and none for any other.
\<close>

theorem each_call_emitted_exactly_once:
  "count_events k (fst (cb_stream loads new_call_buffer dls)) = (if k \<in> idx_of ` set dls then 1 else 0)"
  using cb_stream_count [of new_call_buffer k loads dls]
  by (simp add: new_call_buffer_def cb_inv_def emitted_at_def)

text \<open>
  When the deltas of two calls are interleaved, the step to a higher index completes the
  earlier call as soon as its buffer happens to be empty or to parse: here call 0 is emitted
  without arguments, and the fragment that arrives afterwards is never emitted.
\<close>

lemma interleaved_arguments_lost:
  "fst (cb_stream loads new_call_buffer
     [\<lparr>d_index = Some 0, d_id = None, d_name = Some ''read'', d_arguments = None, d_finalize = False\<rparr>,
      \<lparr>d_index = Some 1, d_id = None, d_name = Some ''stat'', d_arguments = None, d_finalize = False\<rparr>,
      \<lparr>d_index = Some 0, d_id = None, d_name = None, d_arguments = Some ''{}'', d_finalize = True\<rparr>]) =
   [Completed 0 None ''read'' [], Completed 1 None ''stat'' []]"
  by (simp add: cb_feed_def cb_finish_def new_call_buffer_def new_partial_def apply_delta_def truthy_def try_emit_def
      py_strip_def Let_def)

end
