(* ===== verification/Iteration_Cap.thy ===== *)
theory Iteration_Cap
  imports Prelude
begin

text \<open>
  The defensive cap on agent loops (\<open>agent-loop-iteration-cap/iteration_cap.py\<close>).  The
  injected callables act on a world \<open>'w\<close> and may raise an exception \<open>'x\<close>: \<open>step w s\<close> returns a
  step result, or \<open>None\<close> when something else is returned; \<open>fingerprint w s\<close> returns a string, or
  \<open>None\<close> for something else; \<open>now w\<close> reads the clock and \<open>sleep d w\<close> waits.  All of them are
  arbitrary.  The cooldown settings are floats, so that \<open>base_cooldown_s * 2 ** n\<close> raises an
  \<open>OverflowError\<close> from \<open>n = 1024\<close> on.
\<close>

section \<open>The loop\<close>

record cap_config =
  max_iterations :: int
  deadline_at :: "rat option"
  stuck_threshold :: int
  cooldown_after :: int
  base_cooldown_s :: rat
  max_cooldown_s :: rat

datatype 'x loop_error =
    MaxIterationsError
  | StuckThresholdError
  | NegativeCooldown
  | CooldownOrder
  | StepTypeError
  | FingerprintRaised nat 'x
  | FingerprintTypeError
  | CooldownOverflow
  | Propagated 'x

datatype loop_verdict = Done | Stuck | Exhausted | Expired

record 's loop_outcome =
  lo_outcome :: loop_verdict
  lo_iterations :: nat
  final_state :: 's
  cooldowns_applied :: nat
  total_cooldown_s :: rat
  stuck_fingerprint :: "string option"
  fingerprints :: "string list"

record ('w, 's, 'x) callables =
  step_fn :: "'w \<Rightarrow> 's \<Rightarrow> ('x + ('s \<times> bool) option) \<times> 'w"
  fingerprint_fn :: "'w \<Rightarrow> 's \<Rightarrow> ('x + string option) \<times> 'w"
  now_fn :: "'w \<Rightarrow> ('x + rat) \<times> 'w"
  sleep_fn :: "rat \<Rightarrow> 'w \<Rightarrow> 'x option \<times> 'w"

definition check_config :: "cap_config \<Rightarrow> 'x loop_error option" where
  "check_config c =
     (if max_iterations c < 0 then Some MaxIterationsError
      else if stuck_threshold c < 2 then Some StuckThresholdError
      else if base_cooldown_s c < 0 \<or> max_cooldown_s c < 0 then Some NegativeCooldown
      else if max_cooldown_s c < base_cooldown_s c then Some CooldownOrder
      else None)"

text \<open>\<open>len(fps) >= k and len(set(fps[-k:])) == 1\<close>\<close>

definition is_stuck :: "int \<Rightarrow> string list \<Rightarrow> bool" where
  "is_stuck k fps \<longleftrightarrow> int (length fps) \<ge> k \<and> card (set (drop (length fps - nat k) fps)) = 1"

definition no_progress :: "string list \<Rightarrow> bool" where
  "no_progress fps \<longleftrightarrow> length fps \<ge> 2 \<and> last fps = fps ! (length fps - 2)"

text \<open>The deadline check: the clock is only read when there is a deadline.\<close>

definition expired :: "cap_config \<Rightarrow> ('w, 's, 'x) callables \<Rightarrow> 'w \<Rightarrow> ('x loop_error, bool, 'w) outcome" where
  "expired c f w =
     (case deadline_at c of
        None \<Rightarrow> (Inr False, w)
      | Some d \<Rightarrow> (case now_fn f w of (Inl x, w') \<Rightarrow> (Inl (Propagated x), w') | (Inr t, w') \<Rightarrow> (Inr (t \<ge> d), w')))"

text \<open>The sleep before a step, and the two counters after it.\<close>

definition cooldown ::
  "cap_config \<Rightarrow> ('w, 's, 'x) callables \<Rightarrow> int \<Rightarrow> nat \<Rightarrow> rat \<Rightarrow> 'w \<Rightarrow> ('x loop_error, nat \<times> rat, 'w) outcome" where
  "cooldown c f stalled cds tot w =
     (if stalled \<ge> cooldown_after c \<and> base_cooldown_s c > 0 then
        let n = nat (stalled - cooldown_after c); d = min (base_cooldown_s c * 2 ^ n) (max_cooldown_s c) in
        if 1024 \<le> n then (Inl CooldownOverflow, w)
        else (case sleep_fn f d w of
            (Some x, w') \<Rightarrow> (Inl (Propagated x), w')
          | (None, w') \<Rightarrow> (Inr (cds + 1, tot + d), w'))
      else (Inr (cds, tot), w))"

definition take_step :: "('w, 's, 'x) callables \<Rightarrow> 's \<Rightarrow> 'w \<Rightarrow> ('x loop_error, 's \<times> bool, 'w) outcome" where
  "take_step f s w =
     (case step_fn f w s of
        (Inl x, w') \<Rightarrow> (Inl (Propagated x), w')
      | (Inr None, w') \<Rightarrow> (Inl StepTypeError, w')
      | (Inr (Some r), w') \<Rightarrow> (Inr r, w'))"

definition take_fingerprint :: "('w, 's, 'x) callables \<Rightarrow> nat \<Rightarrow> 's \<Rightarrow> 'w \<Rightarrow> ('x loop_error, string, 'w) outcome" where
  "take_fingerprint f i s w =
     (case fingerprint_fn f w s of
        (Inl x, w') \<Rightarrow> (Inl (FingerprintRaised i x), w')
      | (Inr None, w') \<Rightarrow> (Inl FingerprintTypeError, w')
      | (Inr (Some p), w') \<Rightarrow> (Inr p, w'))"

text \<open>The \<open>for\<close> loop from iteration \<open>i\<close>, with \<open>fuel\<close> iterations left.\<close>

fun cap_loop ::
  "cap_config \<Rightarrow> ('w, 's, 'x) callables \<Rightarrow> nat \<Rightarrow> nat \<Rightarrow> 's \<Rightarrow> string list \<Rightarrow> int \<Rightarrow> nat \<Rightarrow> rat \<Rightarrow> 'w \<Rightarrow>
   ('x loop_error, 's loop_outcome, 'w) outcome" where
  "cap_loop c f 0 i s fps stalled cds tot w =
     (Inr \<lparr>lo_outcome = Exhausted, lo_iterations = i - 1, final_state = s, cooldowns_applied = cds,
           total_cooldown_s = tot, stuck_fingerprint = None, fingerprints = fps\<rparr>, w)"
| "cap_loop c f (Suc fuel) i s fps stalled cds tot w =
     (case expired c f w of
        (Inl e, w1) \<Rightarrow> (Inl e, w1)
      | (Inr True, w1) \<Rightarrow>
          (Inr \<lparr>lo_outcome = Expired, lo_iterations = i - 1, final_state = s, cooldowns_applied = cds,
                total_cooldown_s = tot, stuck_fingerprint = None, fingerprints = fps\<rparr>, w1)
      | (Inr False, w1) \<Rightarrow>
      (case cooldown c f stalled cds tot w1 of
        (Inl e, w2) \<Rightarrow> (Inl e, w2)
      | (Inr (cds1, tot1), w2) \<Rightarrow>
      (case take_step f s w2 of
        (Inl e, w3) \<Rightarrow> (Inl e, w3)
      | (Inr (s1, True), w3) \<Rightarrow>
          (Inr \<lparr>lo_outcome = Done, lo_iterations = i, final_state = s1, cooldowns_applied = cds1,
                total_cooldown_s = tot1, stuck_fingerprint = None, fingerprints = fps\<rparr>, w3)
      | (Inr (s1, False), w3) \<Rightarrow>
      (case take_fingerprint f i s1 w3 of
        (Inl e, w4) \<Rightarrow> (Inl e, w4)
      | (Inr p, w4) \<Rightarrow>
          let fps1 = fps @ [p] in
          if is_stuck (stuck_threshold c) fps1 then
            (Inr \<lparr>lo_outcome = Stuck, lo_iterations = i, final_state = s1, cooldowns_applied = cds1,
                  total_cooldown_s = tot1, stuck_fingerprint = Some p, fingerprints = fps1\<rparr>, w4)
          else
            cap_loop c f fuel (Suc i) s1 fps1 (if no_progress fps1 then stalled + 1 else 0) cds1 tot1 w4))))"

definition run_with_cap ::
  "cap_config \<Rightarrow> ('w, 's, 'x) callables \<Rightarrow> 's \<Rightarrow> 'w \<Rightarrow> ('x loop_error, 's loop_outcome, 'w) outcome" where
  "run_with_cap c f s w =
     (case check_config c of
        Some e \<Rightarrow> (Inl e, w)
      | None \<Rightarrow>
          if max_iterations c = 0 then
            (Inr \<lparr>lo_outcome = Exhausted, lo_iterations = 0, final_state = s, cooldowns_applied = 0,
                  total_cooldown_s = 0, stuck_fingerprint = None, fingerprints = []\<rparr>, w)
          else cap_loop c f (nat (max_iterations c)) 1 s [] 0 0 0 w)"

section \<open>What the callables see\<close>

text \<open>The same callables, in a world that also counts the steps and keeps the durations slept.\<close>

definition traced :: "('w, 's, 'x) callables \<Rightarrow> ('w \<times> nat \<times> rat list, 's, 'x) callables" where
  "traced f =
     \<lparr>step_fn = (\<lambda>(w, n, ds) s. (fst (step_fn f w s), (snd (step_fn f w s), Suc n, ds))),
      fingerprint_fn = (\<lambda>(w, n, ds) s. (fst (fingerprint_fn f w s), (snd (fingerprint_fn f w s), n, ds))),
      now_fn = (\<lambda>(w, n, ds). (fst (now_fn f w), (snd (now_fn f w), n, ds))),
      sleep_fn = (\<lambda>d (w, n, ds). (fst (sleep_fn f d w), (snd (sleep_fn f d w), n, ds @ [d])))\<rparr>"

lemma expired_traced: "expired c (traced f) (w, n, ds) = (fst (expired c f w), (snd (expired c f w), n, ds))"
  by (cases "now_fn f w") (auto simp: expired_def traced_def split: option.splits sum.splits)

lemma take_step_traced: "take_step (traced f) s (w, n, ds) = (fst (take_step f s w), (snd (take_step f s w), Suc n, ds))"
  by (cases "step_fn f w s") (auto simp: take_step_def traced_def split: option.splits sum.splits)

lemma take_fingerprint_traced:
  "take_fingerprint (traced f) i s (w, n, ds) = (fst (take_fingerprint f i s w), (snd (take_fingerprint f i s w), n, ds))"
  by (cases "fingerprint_fn f w s") (auto simp: take_fingerprint_def traced_def split: option.splits sum.splits)

lemma cooldown_traced:
  "\<exists>ds'. cooldown c (traced f) stalled cds tot (w, n, ds) =
     (fst (cooldown c f stalled cds tot w), (snd (cooldown c f stalled cds tot w), n, ds'))"
  by (cases "sleep_fn f (min (base_cooldown_s c * 2 ^ nat (stalled - cooldown_after c)) (max_cooldown_s c)) w")
     (auto simp: cooldown_def traced_def Let_def split: option.splits)

lemma cap_loop_traced:
  "\<exists>n' ds'. cap_loop c (traced f) fuel i s fps stalled cds tot (w, n, ds) =
     (fst (cap_loop c f fuel i s fps stalled cds tot w), (snd (cap_loop c f fuel i s fps stalled cds tot w), n', ds'))"
proof (induction fuel arbitrary: i s fps stalled cds tot w n ds)
  case (Suc fuel)
  obtain late w1 where e: "expired c f w = (late, w1)" by (cases "expired c f w")
  obtain r w2 where k: "cooldown c f stalled cds tot w1 = (r, w2)" by (cases "cooldown c f stalled cds tot w1")
  obtain ds2 where k': "cooldown c (traced f) stalled cds tot (w1, n, ds) = (r, w2, n, ds2)"
    using cooldown_traced [of c f stalled cds tot w1 n ds] k by auto
  obtain q w3 where t: "take_step f s w2 = (q, w3)" by (cases "take_step f s w2")
  note x = e k k' t expired_traced take_step_traced take_fingerprint_traced
  show ?case
  proof (cases "late = Inr False \<and> (\<exists>a s1. r = Inr a \<and> q = Inr (s1, False))")
    case True
    then obtain cds1 tot1 s1 where c: "late = Inr False" "r = Inr (cds1, tot1)" "q = Inr (s1, False)" by fastforce
    obtain u w4 where p: "take_fingerprint f i s1 w3 = (u, w4)" by (cases "take_fingerprint f i s1 w3")
    show ?thesis using c p Suc.IH by (cases u) (simp_all add: x Let_def)
  next
    case False
    then show ?thesis by (auto simp: x split: sum.splits bool.splits prod.splits)
  qed
qed simp

section \<open>The contract\<close>

text \<open>The last \<open>k\<close> fingerprints are one and the same.\<close>

definition repeats :: "int \<Rightarrow> string list \<Rightarrow> bool" where
  "repeats k fps \<longleftrightarrow> (\<exists>p xs. fps = xs @ replicate (nat k) p)"

definition never_repeats :: "int \<Rightarrow> string list \<Rightarrow> bool" where
  "never_repeats k fps \<longleftrightarrow> (\<forall>n \<le> length fps. \<not> repeats k (take n fps))"

lemma is_stuck_repeats:
  assumes "2 \<le> k"
  shows "is_stuck k fps \<longleftrightarrow> repeats k fps"
proof
  assume st: "is_stuck k fps"
  let ?ys = "drop (length fps - nat k) fps"
  have len: "length ?ys = nat k" using st assms by (auto simp: is_stuck_def)
  obtain p where "set ?ys = {p}" using st by (auto simp: is_stuck_def card_1_singleton_iff)
  then have "replicate (length ?ys) p = ?ys" by (intro replicate_length_same) simp
  then have "?ys = replicate (nat k) p" by (simp only: len)
  then show "repeats k fps" unfolding repeats_def by (metis append_take_drop_id)
next
  assume "repeats k fps"
  then obtain p xs where fps: "fps = xs @ replicate (nat k) p" by (auto simp: repeats_def)
  have "0 < nat k" "k \<le> int (length fps)" using assms by (simp_all add: fps)
  then show "is_stuck k fps" by (simp add: is_stuck_def fps set_replicate_conv_if)
qed

lemma never_repeats_snoc: "never_repeats k fps \<Longrightarrow> \<not> repeats k (fps @ [p]) \<Longrightarrow> never_repeats k (fps @ [p])"
  unfolding never_repeats_def by (auto simp: le_Suc_eq)

text \<open>
  What each verdict says about the run, given the number of steps that were taken and the
  durations that were slept.
\<close>

definition sound_outcome :: "cap_config \<Rightarrow> ('w, 's, 'x) callables \<Rightarrow> nat \<Rightarrow> rat list \<Rightarrow> 's loop_outcome \<Rightarrow> bool" where
  "sound_outcome c f steps sleeps out \<longleftrightarrow>
     lo_iterations out = steps \<and> cooldowns_applied out = length sleeps \<and> total_cooldown_s out = sum_list sleeps \<and>
     length (fingerprints out) = (if lo_outcome out = Done then steps - 1 else steps) \<and>
     (case lo_outcome out of
        Done \<Rightarrow> never_repeats (stuck_threshold c) (fingerprints out) \<and>
          (\<exists>w s. fst (step_fn f w s) = Inr (Some (final_state out, True)))
      | Stuck \<Rightarrow> repeats (stuck_threshold c) (fingerprints out) \<and>
          never_repeats (stuck_threshold c) (butlast (fingerprints out)) \<and>
          stuck_fingerprint out = Some (last (fingerprints out))
      | Exhausted \<Rightarrow> never_repeats (stuck_threshold c) (fingerprints out) \<and> steps = nat (max_iterations c)
      | Expired \<Rightarrow> never_repeats (stuck_threshold c) (fingerprints out) \<and>
          (\<exists>d t w. deadline_at c = Some d \<and> fst (now_fn f w) = Inr t \<and> d \<le> t))"

definition sound_error :: "cap_config \<Rightarrow> ('w, 's, 'x) callables \<Rightarrow> 'x loop_error \<Rightarrow> bool" where
  "sound_error c f e \<longleftrightarrow>
     (case e of
        MaxIterationsError \<Rightarrow> max_iterations c < 0
      | StuckThresholdError \<Rightarrow> stuck_threshold c < 2
      | NegativeCooldown \<Rightarrow> False
      | CooldownOrder \<Rightarrow> max_cooldown_s c < base_cooldown_s c
      | StepTypeError \<Rightarrow> \<exists>w s. fst (step_fn f w s) = Inr None
      | FingerprintRaised i x \<Rightarrow> 1 \<le> i \<and> i \<le> nat (max_iterations c) \<and> (\<exists>w s. fst (fingerprint_fn f w s) = Inl x)
      | FingerprintTypeError \<Rightarrow> \<exists>w s. fst (fingerprint_fn f w s) = Inr None
      | CooldownOverflow \<Rightarrow> 1024 + cooldown_after c < max_iterations c
      | Propagated x \<Rightarrow> (\<exists>w. fst (now_fn f w) = Inl x) \<or> (\<exists>d w. fst (sleep_fn f d w) = Some x) \<or>
          (\<exists>w s. fst (step_fn f w s) = Inl x))"

definition sound_end ::
  "cap_config \<Rightarrow> ('w, 's, 'x) callables \<Rightarrow> ('x loop_error, 's loop_outcome, 'w \<times> nat \<times> rat list) outcome \<Rightarrow> bool" where
  "sound_end c f z \<longleftrightarrow>
     (case z of (r, w', steps, sleeps) \<Rightarrow>
        steps \<le> nat (max_iterations c) \<and> length sleeps \<le> Suc steps \<and> length sleeps \<le> nat (max_iterations c) \<and>
        (\<forall>d\<in>set sleeps. 0 < d \<and> d \<le> max_cooldown_s c) \<and>
        (case r of Inr out \<Rightarrow> sound_outcome c f steps sleeps out | Inl e \<Rightarrow> sound_error c f e))"

lemma expired_sound:
  "fst (expired c f w) = Inl e \<Longrightarrow> sound_error c f e"
  "fst (expired c f w) = Inr True \<Longrightarrow> \<exists>d t w. deadline_at c = Some d \<and> fst (now_fn f w) = Inr t \<and> d \<le> t"
proof -
  obtain r w' where n: "now_fn f w = (r, w')" by (cases "now_fn f w")
  then have x: "\<exists>v. fst (now_fn f v) = r" by (metis fst_conv)
  show "fst (expired c f w) = Inl e \<Longrightarrow> sound_error c f e" using n x
    by (auto simp: expired_def sound_error_def split: option.splits sum.splits)
  show "fst (expired c f w) = Inr True \<Longrightarrow> \<exists>d t w. deadline_at c = Some d \<and> fst (now_fn f w) = Inr t \<and> d \<le> t" using n x
    by (auto simp: expired_def split: option.splits sum.splits)
qed

lemma take_step_sound:
  "fst (take_step f s w) = Inl e \<Longrightarrow> sound_error c f e"
  "fst (take_step f s w) = Inr r \<Longrightarrow> fst (step_fn f w s) = Inr (Some r)"
proof -
  obtain r w' where n: "step_fn f w s = (r, w')" by (cases "step_fn f w s")
  then have x: "\<exists>v s. fst (step_fn f v s) = r" by (metis fst_conv)
  show "fst (take_step f s w) = Inl e \<Longrightarrow> sound_error c f e" using n x
    by (auto simp: take_step_def sound_error_def split: option.splits sum.splits)
  show "fst (take_step f s w) = Inr r \<Longrightarrow> fst (step_fn f w s) = Inr (Some r)" for r using n
    by (auto simp: take_step_def split: option.splits sum.splits)
qed

lemma take_fingerprint_sound:
  assumes "fst (take_fingerprint f i s w) = Inl e" "1 \<le> i" "i \<le> nat (max_iterations c)"
  shows "sound_error c f e"
proof -
  obtain r w' where n: "fingerprint_fn f w s = (r, w')" by (cases "fingerprint_fn f w s")
  then have x: "\<exists>v s. fst (fingerprint_fn f v s) = r" by (metis fst_conv)
  show ?thesis using assms n x by (auto simp: take_fingerprint_def sound_error_def split: option.splits sum.splits) blast
qed

text \<open>A cooldown sleeps at most once, and not longer than the limit.\<close>

lemma cooldown_sound:
  assumes "cooldown c (traced f) stalled (length ds) (sum_list ds) (w, n, ds) = (r, w2, n', ds')"
    and "base_cooldown_s c \<le> max_cooldown_s c" "stalled < int i" "1 \<le> i" "i \<le> nat (max_iterations c)"
  shows "n' = n \<and> (ds' = ds \<or> (\<exists>d. ds' = ds @ [d] \<and> 0 < d \<and> d \<le> max_cooldown_s c)) \<and>
    (case r of Inr (cds, tot) \<Rightarrow> cds = length ds' \<and> tot = sum_list ds' | Inl e \<Rightarrow> sound_error c f e)"
proof (cases "stalled \<ge> cooldown_after c \<and> base_cooldown_s c > 0")
  case True
  let ?n = "nat (stalled - cooldown_after c)"
  let ?d = "min (base_cooldown_s c * 2 ^ ?n) (max_cooldown_s c)"
  have d: "0 < ?d" "?d \<le> max_cooldown_s c" using True assms(2) by simp_all
  show ?thesis
  proof (cases "1024 \<le> ?n")
    case True
    then have "sound_error c f CooldownOverflow" using assms(3-5) by (simp add: sound_error_def)
    then show ?thesis using assms(1) \<open>stalled \<ge> cooldown_after c \<and> _\<close> True by (auto simp: cooldown_def Let_def)
  next
    case False
    obtain b v where s: "sleep_fn f ?d w = (b, v)" by (cases "sleep_fn f ?d w")
    then have "\<exists>d u. fst (sleep_fn f d u) = b" by (metis fst_conv)
    then show ?thesis using assms(1) True False s d
      by (cases b) (auto simp: cooldown_def Let_def traced_def sound_error_def, blast)
  qed
qed (use assms(1) in \<open>auto simp: cooldown_def\<close>)

lemma cap_loop_sound:
  assumes "1 \<le> i" "fuel + i = nat (max_iterations c) + 1" "length fps = i - 1" "length ds \<le> i - 1" "stalled < int i"
    and "\<forall>d\<in>set ds. 0 < d \<and> d \<le> max_cooldown_s c" "never_repeats (stuck_threshold c) fps"
    and "base_cooldown_s c \<le> max_cooldown_s c" "2 \<le> stuck_threshold c"
  shows "sound_end c f (cap_loop c (traced f) fuel i s fps stalled (length ds) (sum_list ds) (w, i - 1, ds))"
  using assms
proof (induction fuel arbitrary: i s fps stalled ds w)
  case 0
  then show ?case by (simp add: sound_end_def sound_outcome_def)
next
  case (Suc fuel)
  have i: "i \<le> nat (max_iterations c)" "Suc (i - Suc 0) = i" using Suc.prems(1,2) by simp_all
  note stuck = is_stuck_repeats [OF Suc.prems(9)]
  obtain late w1 where l: "expired c f w = (late, w1)" by (cases "expired c f w")
  note ls = expired_sound [where c = c and f = f and w = w, unfolded l fst_conv]
  obtain r w2 n2 ds2 where k: "cooldown c (traced f) stalled (length ds) (sum_list ds) (w1, i - Suc 0, ds) = (r, w2, n2, ds2)"
    by (meson prod_cases4)
  note ks = cooldown_sound [OF k Suc.prems(8,5,1) i(1)]
  have ds2: "n2 = i - Suc 0" "length ds2 \<le> i" "\<forall>d\<in>set ds2. 0 < d \<and> d \<le> max_cooldown_s c"
    using ks Suc.prems(4,6) i(2) by auto
  obtain q w3 where t: "take_step f s w2 = (q, w3)" by (cases "take_step f s w2")
  note ts = take_step_sound [where f = f and s = s and w = w2, unfolded t fst_conv]
  note facts = l k t ds2(1) expired_traced take_step_traced take_fingerprint_traced
  show ?case
  proof (cases "late = Inr False \<and> (\<exists>a s1. r = Inr a \<and> q = Inr (s1, False))")
    case True
    then obtain s1 where c: "late = Inr False" "r = Inr (length ds2, sum_list ds2)" "q = Inr (s1, False)" using ks by fastforce
    obtain u w4 where p: "take_fingerprint f i s1 w3 = (u, w4)" by (cases "take_fingerprint f i s1 w3")
    show ?thesis
    proof (cases u)
      case (Inl e)
      have "sound_error c f e" by (rule take_fingerprint_sound [of f i s1 w3]) (use p Inl Suc.prems(1) i in auto)
      then show ?thesis using c p Inl ds2 i by (simp add: facts sound_end_def)
    next
      case (Inr fp)
      show ?thesis
      proof (cases "repeats (stuck_threshold c) (fps @ [fp])")
        case True
        then show ?thesis using c p Inr ds2 i Suc.prems(3,7) by (simp add: facts sound_end_def sound_outcome_def stuck Let_def)
      next
        case False
        have "sound_end c f (cap_loop c (traced f) fuel (Suc i) s1 (fps @ [fp]) (if no_progress (fps @ [fp]) then stalled + 1 else 0)
            (length ds2) (sum_list ds2) (w4, Suc i - 1, ds2))"
          by (rule Suc.IH) (use Suc.prems ds2 False never_repeats_snoc in auto)
        then show ?thesis using c p Inr False i by (simp add: facts stuck Let_def)
      qed
    qed
  next
    case False
    consider (late) "late \<noteq> Inr False" | (cool) e where "late = Inr False" "r = Inl e"
      | (step) "late = Inr False" "\<exists>e. q = Inl e" "r = Inr (length ds2, sum_list ds2)"
      | (fin) s1 where "late = Inr False" "q = Inr (s1, True)" "r = Inr (length ds2, sum_list ds2)"
      using False ks by (cases r; cases q) fastforce+
    then show ?thesis
    proof cases
      case late
      then show ?thesis using ls Suc.prems(1-4,6,7) i
        by (cases late) (auto simp: facts sound_end_def sound_outcome_def)
    next
      case cool
      then show ?thesis using ks ds2 i by (simp add: facts sound_end_def)
    next
      case step
      then show ?thesis using ts(1) ds2 i by (auto simp: facts sound_end_def)
    next
      case fin
      then show ?thesis using ts(2) ds2 i Suc.prems(3,7) by (auto simp: facts sound_end_def sound_outcome_def)
    qed
  qed
qed

lemma run_with_cap_traced:
  "\<exists>n' ds'. run_with_cap c (traced f) s (w, n, ds) = (fst (run_with_cap c f s w), (snd (run_with_cap c f s w), n', ds'))"
  unfolding run_with_cap_def using cap_loop_traced [of c f "nat (max_iterations c)" 1 s "[]" 0 0 0 w n ds]
  by (simp split: option.split)

text \<open>
  C38.  With settings that are not negative, and whatever the injected step, fingerprint, clock and
  sleep do, raise or return, the loop ends.  At most \<open>max_iterations\<close> steps are
  taken and as many sleeps made, of at most \<open>max_cooldown_s\<close> each.  If it returns, the
  outcome counts the steps and the sleeps that were made; \<open>stuck\<close> is reported at the first moment at
  which the last \<open>stuck_threshold\<close> fingerprints agree, and never otherwise; \<open>exhausted\<close> means that
  all steps were taken, \<open>expired\<close> that the clock was read at or after the deadline, \<open>done\<close> that a
  step said so of the final state.  If it raises, then \<open>max_iterations\<close>, \<open>stuck_threshold\<close>
  or the order of the cooldowns is invalid, or a callable raised or returned a wrong type, or a
  cooldown after 1024 doublings overflowed.
\<close>

theorem run_with_cap_sound:
  fixes f :: "('w, 's, 'x) callables"
  assumes "0 \<le> base_cooldown_s c" "0 \<le> max_cooldown_s c" and "run_with_cap c (traced f) s (w, 0, []) = (r, w', steps, sleeps)"
  shows "run_with_cap c f s w = (r, w') \<and>
    steps \<le> nat (max_iterations c) \<and> length sleeps \<le> nat (max_iterations c) \<and>
    (\<forall>d\<in>set sleeps. 0 < d \<and> d \<le> max_cooldown_s c) \<and>
    (case r of Inr out \<Rightarrow> sound_outcome c f steps sleeps out | Inl e \<Rightarrow> sound_error c f e)"
proof -
  have same: "run_with_cap c f s w = (r, w')"
    using run_with_cap_traced [of c f s w 0 "[]"] assms(3) by (cases "run_with_cap c f s w") simp
  have "sound_end c f (run_with_cap c (traced f) s (w, 0, []))"
  proof (cases "check_config c :: 'x loop_error option")
    case None
    then have ok: "2 \<le> stuck_threshold c" "base_cooldown_s c \<le> max_cooldown_s c" "0 \<le> max_iterations c"
      by (auto simp: check_config_def split: if_splits)
    then have z: "never_repeats (stuck_threshold c) []" by (simp add: never_repeats_def repeats_def)
    have "sound_end c f (cap_loop c (traced f) (nat (max_iterations c)) 1 s [] 0 (length ([] :: rat list)) (sum_list []) (w, 1 - 1, []))"
      by (rule cap_loop_sound) (use ok z in simp_all)
    then show ?thesis using None z by (simp add: run_with_cap_def sound_end_def sound_outcome_def)
  next
    case (Some e)
    then have "sound_error c f e" using assms(1,2) by (auto simp: check_config_def sound_error_def split: if_splits)
    then show ?thesis using Some by (simp add: run_with_cap_def sound_end_def)
  qed
  then show ?thesis using same assms(3) by (simp add: sound_end_def)
qed

text \<open>A step that never changes the state: the second fingerprint is the first one again.\<close>

definition spinning :: "(nat, string, string) callables" where
  "spinning =
     \<lparr>step_fn = (\<lambda>w s. (Inr (Some (s, False)), w)), fingerprint_fn = (\<lambda>w s. (Inr (Some s), w)),
      now_fn = (\<lambda>w. (Inr (of_nat w), Suc w)), sleep_fn = (\<lambda>d w. (None, w))\<rparr>"

definition demo_cap :: cap_config where
  "demo_cap = \<lparr>max_iterations = 20, deadline_at = Some 9, stuck_threshold = 3, cooldown_after = 1, base_cooldown_s = 1, max_cooldown_s = 30\<rparr>"

lemma spinning_run:
  "run_with_cap demo_cap (traced spinning) ''s'' (0, 0, []) =
     (Inr \<lparr>lo_outcome = Stuck, lo_iterations = 3, final_state = ''s'', cooldowns_applied = 1, total_cooldown_s = 1,
           stuck_fingerprint = Some ''s'', fingerprints = [''s'', ''s'', ''s'']\<rparr>, 3, 3, [1])"
  by (simp add: run_with_cap_def demo_cap_def check_config_def traced_def spinning_def eval_nat_numeral expired_def cooldown_def
    take_step_def take_fingerprint_def is_stuck_def no_progress_def Let_def)

theorem run_with_cap_sound_witness:
  "run_with_cap demo_cap spinning ''s'' 0 =
     (Inr \<lparr>lo_outcome = Stuck, lo_iterations = 3, final_state = ''s'', cooldowns_applied = 1, total_cooldown_s = 1,
           stuck_fingerprint = Some ''s'', fingerprints = [''s'', ''s'', ''s'']\<rparr>, 3) \<and>
   repeats 3 [''s'', ''s'', ''s'']"
  using run_with_cap_sound [OF _ _ spinning_run] by (simp add: demo_cap_def sound_outcome_def)

section \<open>Where the code leaves its documents\<close>

text \<open>Negative cooldowns are said to be clamped; they are refused.\<close>

lemma negative_cooldown_refused:
  "fst (run_with_cap (demo_cap\<lparr>base_cooldown_s := - 1\<rparr>) f s w) = Inl NegativeCooldown"
  by (simp add: run_with_cap_def check_config_def demo_cap_def)

text \<open>The cap on the exponential cooldown does not prevent the overflow of the exponential.\<close>

lemma cooldown_overflows:
  "0 < base_cooldown_s c \<Longrightarrow> cooldown c f (cooldown_after c + 1024) cds tot w = (Inl CooldownOverflow, w)"
  by (simp add: cooldown_def)

end
