(* ===== verification/Grant_Engine.thy ===== *)
theory Grant_Engine
  imports Prelude "HOL-Library.List_Lexorder" "HOL-Library.Char_ord"
begin

text \<open>
  The tool-permission grant engine (\<open>tool-permission-grant-envelope/grant_engine.py\<close>): the
  pure decision function, the caller's protocol around it (increment the usage counter and log
  the call when it is allowed) and the replay of the log.
\<close>

section \<open>Grants, requests and decisions\<close>

record grant =
  grant_id :: string
  g_agent :: string
  g_tool :: string
  scopes :: "string list"
  max_calls :: int
  expires_at :: int
  arg_allow :: "(string, pyval list) dict"
  revoked :: bool

record call_request =
  r_agent :: string
  r_tool :: string
  required_scopes :: "string list"
  args :: "(string, pyval) dict"
  r_now :: int

datatype grant_reason =
    NoGrant
  | ToolNotInGrant string
  | Revoked
  | ExpiredGrant int int
  | ScopeNotGranted "string list"
  | ArgumentNotAllowed string pyval
  | QuotaExhausted int int
  | Granted int

record grant_decision =
  allowed :: bool
  grant_reason :: grant_reason
  d_grant :: "string option"

fun reason_text :: "grant_reason \<Rightarrow> string" where
  "reason_text NoGrant = ''no_grant''"
| "reason_text (ToolNotInGrant _) = ''tool_not_in_grant''"
| "reason_text Revoked = ''revoked''"
| "reason_text (ExpiredGrant _ _) = ''expired''"
| "reason_text (ScopeNotGranted _) = ''scope_not_granted''"
| "reason_text (ArgumentNotAllowed _ _) = ''argument_not_allowed''"
| "reason_text (QuotaExhausted _ _) = ''call_quota_exhausted''"
| "reason_text (Granted _) = ''ok''"

fun reason_detail :: "grant_reason \<Rightarrow> (string, pyval) dict" where
  "reason_detail NoGrant = []"
| "reason_detail (ToolNotInGrant t) = [(''tool'', PStr t)]"
| "reason_detail Revoked = []"
| "reason_detail (ExpiredGrant e n) = [(''expires_at'', PInt e), (''now'', PInt n)]"
| "reason_detail (ScopeNotGranted m) = [(''missing'', PList (map PStr m))]"
| "reason_detail (ArgumentNotAllowed f v) = [(''field'', PStr f), (''value'', v)]"
| "reason_detail (QuotaExhausted u m) = [(''used'', PInt u), (''max'', PInt m)]"
| "reason_detail (Granted r) = [(''remaining'', PInt r)]"

definition decision_to_dict :: "grant_decision \<Rightarrow> (string, pyval) dict" where
  "decision_to_dict d =
     [(''allowed'', PBool (allowed d)), (''reason'', PStr (reason_text (grant_reason d)))]
     @ (case d_grant d of None \<Rightarrow> [] | Some g \<Rightarrow> [(''grant_id'', PStr g)])
     @ (if reason_detail (grant_reason d) = [] then [] else [(''detail'', PDict (reason_detail (grant_reason d)))])"

section \<open>The grant_decision\<close>

text \<open>
  Python's \<open>==\<close> on JSON values: numbers are compared by value across \<open>bool\<close>, \<open>int\<close> and
  \<open>float\<close>, dictionaries without their order.
\<close>

fun py_norm :: "pyval \<Rightarrow> pyval" where
  "py_norm (PBool b) = PFloat (of_bool b)"
| "py_norm (PInt i) = PFloat (of_int i)"
| "py_norm (PList xs) = PList (map py_norm xs)"
| "py_norm (PDict d) = PDict (sort_key fst (map (\<lambda>(k, v). (k, py_norm v)) d))"
| "py_norm v = v"

definition py_eq :: "pyval \<Rightarrow> pyval \<Rightarrow> bool" where
  "py_eq a b \<longleftrightarrow> py_norm a = py_norm b"

definition candidate_grants :: "grant list \<Rightarrow> call_request \<Rightarrow> grant list" where
  "candidate_grants gs r = sort_key grant_id (filter (\<lambda>g. g_agent g = r_agent r) gs)"

fun check_args_of :: "(string, pyval list) dict \<Rightarrow> (string, pyval) dict \<Rightarrow> (string \<times> pyval) option" where
  "check_args_of [] a = None"
| "check_args_of ((f, vs) # rest) a =
     (case dict_get a f of
        None \<Rightarrow> Some (f, PNone)
      | Some v \<Rightarrow> if \<not> list_ex (py_eq v) vs then Some (f, v) else check_args_of rest a)"

definition check_args :: "grant \<Rightarrow> call_request \<Rightarrow> (string \<times> pyval) option" where
  "check_args g r = check_args_of (arg_allow g) (args r)"

definition is_expired :: "grant \<Rightarrow> call_request \<Rightarrow> bool" where
  "is_expired g r \<longleftrightarrow> expires_at g \<noteq> 0 \<and> r_now r \<ge> expires_at g"

definition missing_scopes :: "grant \<Rightarrow> call_request \<Rightarrow> string list" where
  "missing_scopes g r = filter (\<lambda>s. s \<notin> set (scopes g)) (required_scopes r)"

definition calls_used :: "(string, int) dict \<Rightarrow> string \<Rightarrow> int" where
  "calls_used u g = (case dict_get u g of None \<Rightarrow> 0 | Some n \<Rightarrow> n)"

text \<open>The body of the loop: the specific reason of one grant, quota last.\<close>

definition examine :: "(string, int) dict \<Rightarrow> call_request \<Rightarrow> grant \<Rightarrow> grant_decision" where
  "examine u r g =
     (if revoked g then \<lparr>allowed = False, grant_reason = Revoked, d_grant = Some (grant_id g)\<rparr>
      else if is_expired g r then
        \<lparr>allowed = False, grant_reason = ExpiredGrant (expires_at g) (r_now r), d_grant = Some (grant_id g)\<rparr>
      else if missing_scopes g r \<noteq> [] then
        \<lparr>allowed = False, grant_reason = ScopeNotGranted (missing_scopes g r), d_grant = Some (grant_id g)\<rparr>
      else case check_args g r of
        Some (f, v) \<Rightarrow> \<lparr>allowed = False, grant_reason = ArgumentNotAllowed f v, d_grant = Some (grant_id g)\<rparr>
      | None \<Rightarrow>
          let used = calls_used u (grant_id g) in
          if used \<ge> max_calls g then
            \<lparr>allowed = False, grant_reason = QuotaExhausted used (max_calls g), d_grant = Some (grant_id g)\<rparr>
          else \<lparr>allowed = True, grant_reason = Granted (max_calls g - used - 1), d_grant = Some (grant_id g)\<rparr>)"

fun scan_grants :: "(string, int) dict \<Rightarrow> call_request \<Rightarrow> grant_decision option \<Rightarrow> grant list \<Rightarrow> grant_decision option" where
  "scan_grants u r acc [] = acc"
| "scan_grants u r acc (g # gs) =
     (if allowed (examine u r g) then Some (examine u r g) else scan_grants u r (Some (examine u r g)) gs)"

datatype grant_error = AssertionFailed | LogLineError

definition grant_decide :: "grant list \<Rightarrow> (string, int) dict \<Rightarrow> call_request \<Rightarrow> grant_error + grant_decision" where
  "grant_decide gs u r =
     (let cands = candidate_grants gs r; tm = filter (\<lambda>g. g_tool g = r_tool r) cands in
      if cands = [] then Inr \<lparr>allowed = False, grant_reason = NoGrant, d_grant = None\<rparr>
      else if tm = [] then Inr \<lparr>allowed = False, grant_reason = ToolNotInGrant (r_tool r), d_grant = None\<rparr>
      else case scan_grants u r None tm of None \<Rightarrow> Inl AssertionFailed | Some d \<Rightarrow> Inr d)"

section \<open>Usage and the event log\<close>

text \<open>
  The replay; \<open>loads\<close> is \<open>json.loads\<close>, with \<open>None\<close> when it raises.  An event that is no
  dictionary has no \<open>get\<close>, and a list or dictionary as grant id is not hashable.
\<close>

definition count_call :: "string \<Rightarrow> (string, int) dict \<Rightarrow> (string, int) dict" where
  "count_call g u = dict_set g (calls_used u g + 1) u"

fun replay_lines ::
  "(string \<Rightarrow> pyval option) \<Rightarrow> string list \<Rightarrow> string list \<Rightarrow> (string, int) dict \<Rightarrow> grant_error + (string, int) dict" where
  "replay_lines loads known [] u = Inr u"
| "replay_lines loads known (l # ls) u =
     (if py_strip l = [] then replay_lines loads known ls u
      else case loads (py_strip l) of
        Some (PDict d) \<Rightarrow>
          (case py_get (PDict d) ''grant_id'' of
             PStr g \<Rightarrow> replay_lines loads known ls (if g \<in> set known then count_call g u else u)
           | PList _ \<Rightarrow> Inl LogLineError
           | PDict _ \<Rightarrow> Inl LogLineError
           | _ \<Rightarrow> replay_lines loads known ls u)
      | _ \<Rightarrow> Inl LogLineError)"

definition replay_log :: "(string \<Rightarrow> pyval option) \<Rightarrow> grant list \<Rightarrow> string list \<Rightarrow> grant_error + (string, int) dict" where
  "replay_log loads gs ls = replay_lines loads (map grant_id gs) ls []"

text \<open>
  The protocol \<open>decide\<close> documents for its caller: on an allowed call the counter of the named
  grant is incremented and the event is logged.  \<open>session\<close> returns the usage, the grant ids
  logged and the decisions.
\<close>

definition granted_id :: "grant_error + grant_decision \<Rightarrow> string option" where
  "granted_id x = (case x of Inl e \<Rightarrow> None | Inr d \<Rightarrow> if allowed d then d_grant d else None)"

fun session :: "grant list \<Rightarrow> (string, int) dict \<Rightarrow> call_request list \<Rightarrow>
    (string, int) dict \<times> string list \<times> (grant_error + grant_decision) list" where
  "session gs u [] = (u, [], [])"
| "session gs u (r # rs) =
     (let d = grant_decide gs u r in
      case granted_id d of
        None \<Rightarrow> (let (u', lg, ds) = session gs u rs in (u', lg, d # ds))
      | Some g \<Rightarrow> (let (u', lg, ds) = session gs (count_call g u) rs in (u', g # lg, d # ds)))"

section \<open>Correctness of the grant_decision\<close>

definition authorises :: "(string, int) dict \<Rightarrow> call_request \<Rightarrow> grant \<Rightarrow> bool" where
  "authorises u r g \<longleftrightarrow>
     g_agent g = r_agent r \<and> g_tool g = r_tool r \<and> \<not> revoked g \<and> (expires_at g = 0 \<or> r_now r < expires_at g) \<and>
     set (required_scopes r) \<subseteq> set (scopes g) \<and>
     (\<forall>(f, vs) \<in> set (arg_allow g). \<exists>v. dict_get (args r) f = Some v \<and> (\<exists>w \<in> set vs. py_eq v w)) \<and>
     calls_used u (grant_id g) < max_calls g"

lemma check_args_of_None:
  "check_args_of al a = None \<longleftrightarrow> (\<forall>(f, vs) \<in> set al. \<exists>v. dict_get a f = Some v \<and> (\<exists>w \<in> set vs. py_eq v w))"
  by (induction al a rule: check_args_of.induct) (auto simp: list_ex_iff split: option.splits)

lemma missing_scopes_empty: "missing_scopes g r = [] \<longleftrightarrow> set (required_scopes r) \<subseteq> set (scopes g)"
  by (auto simp: missing_scopes_def filter_empty_conv)

lemma authorises_iff:
  "authorises u r g \<longleftrightarrow>
     g_agent g = r_agent r \<and> g_tool g = r_tool r \<and> \<not> revoked g \<and> \<not> is_expired g r \<and>
     missing_scopes g r = [] \<and> check_args g r = None \<and> calls_used u (grant_id g) < max_calls g"
  unfolding authorises_def missing_scopes_empty check_args_def check_args_of_None is_expired_def by auto

lemma examine_allowed:
  assumes "g_agent g = r_agent r" "g_tool g = r_tool r"
  shows "allowed (examine u r g) \<longleftrightarrow> authorises u r g"
proof (cases "check_args g r")
  case None
  then show ?thesis using assms by (simp add: examine_def authorises_iff Let_def)
next
  case (Some p)
  then show ?thesis by (cases p) (simp add: examine_def authorises_iff)
qed

lemma examine_grant [simp]: "d_grant (examine u r g) = Some (grant_id g)"
  by (simp add: examine_def Let_def split: option.splits)

lemma examine_granted:
  assumes "allowed (examine u r g)"
  shows "grant_reason (examine u r g) = Granted (max_calls g - calls_used u (grant_id g) - 1)"
proof (cases "check_args g r")
  case None
  then show ?thesis using assms by (simp add: examine_def Let_def split: if_splits)
next
  case (Some p)
  then show ?thesis using assms by (cases p) (simp add: examine_def split: if_splits)
qed

lemma scan_grants_first:
  "scan_grants u r acc gs =
     (case List.find (\<lambda>g. allowed (examine u r g)) gs of
        Some g \<Rightarrow> Some (examine u r g)
      | None \<Rightarrow> if gs = [] then acc else Some (examine u r (last gs)))"
  by (induction gs arbitrary: acc) (auto split: option.splits)

definition tool_grants :: "grant list \<Rightarrow> call_request \<Rightarrow> grant list" where
  "tool_grants gs r = filter (\<lambda>g. g_tool g = r_tool r) (candidate_grants gs r)"

lemma sorted_tool_grants: "sorted (map grant_id (tool_grants gs r))"
  unfolding tool_grants_def candidate_grants_def by (simp add: sorted_filter)

lemma set_tool_grants: "set (tool_grants gs r) = {g \<in> set gs. g_agent g = r_agent r \<and> g_tool g = r_tool r}"
  by (auto simp: tool_grants_def candidate_grants_def)

lemma sorted_last_greatest: "sorted (map k xs) \<Longrightarrow> xs \<noteq> [] \<Longrightarrow> x \<in> set xs \<Longrightarrow> k x \<le> k (last xs)"
  by (induction xs rule: rev_induct) (auto simp: sorted_append)

lemma find_sorted_least:
  assumes "List.find P xs = Some x" "sorted (map k xs)"
  shows "x \<in> set xs \<and> P x \<and> (\<forall>y \<in> set xs. P y \<longrightarrow> k x \<le> k y)"
  using assms
proof (induction xs)
  case (Cons a xs)
  show ?case
  proof (cases "P a")
    case True
    then show ?thesis using Cons.prems by auto
  next
    case False
    then show ?thesis using Cons by auto
  qed
qed simp

lemma find_tool_grants:
  assumes "List.find (\<lambda>g. allowed (examine u r g)) (tool_grants gs r) = Some g"
  shows "g \<in> set gs \<and> authorises u r g \<and> (\<forall>h \<in> set gs. authorises u r h \<longrightarrow> grant_id g \<le> grant_id h)"
proof -
  have f: "g \<in> set (tool_grants gs r)" "allowed (examine u r g)"
    "\<And>h. h \<in> set (tool_grants gs r) \<Longrightarrow> allowed (examine u r h) \<Longrightarrow> grant_id g \<le> grant_id h"
    using find_sorted_least [OF assms sorted_tool_grants] by auto
  have "grant_id g \<le> grant_id h" if "h \<in> set gs" "authorises u r h" for h
  proof -
    have "h \<in> set (tool_grants gs r)" "g_agent h = r_agent r" "g_tool h = r_tool r"
      using that by (auto simp: set_tool_grants authorises_def)
    then show ?thesis using f(3) that(2) by (simp add: examine_allowed)
  qed
  then show ?thesis using f(1,2) by (auto simp: set_tool_grants examine_allowed)
qed

lemma find_tool_grants_None:
  assumes "List.find (\<lambda>g. allowed (examine u r g)) (tool_grants gs r) = None" "g \<in> set gs"
  shows "\<not> authorises u r g"
proof
  assume a: "authorises u r g"
  then have "g \<in> set (tool_grants gs r)" "allowed (examine u r g)"
    using assms(2) by (auto simp: set_tool_grants authorises_def examine_allowed)
  then show False using assms(1) by (auto simp: find_None_iff)
qed

text \<open>The reason a grant gives for refusing a call, by the precedence of the README: revoked, expired, a missing scope, the
  first restricted argument that is not admitted, and the quota last.\<close>

definition admits :: "call_request \<Rightarrow> string \<times> pyval list \<Rightarrow> bool" where
  "admits r fv \<longleftrightarrow> (\<exists>v. dict_get (args r) (fst fv) = Some v \<and> (\<exists>w \<in> set (snd fv). py_eq v w))"

definition live_grant :: "call_request \<Rightarrow> grant \<Rightarrow> bool" where
  "live_grant r g \<longleftrightarrow> \<not> revoked g \<and> (expires_at g = 0 \<or> r_now r < expires_at g)"

fun refused_for :: "(string, int) dict \<Rightarrow> call_request \<Rightarrow> grant \<Rightarrow> grant_reason \<Rightarrow> bool" where
  "refused_for u r g Revoked \<longleftrightarrow> revoked g"
| "refused_for u r g (ExpiredGrant e n) \<longleftrightarrow> \<not> revoked g \<and> \<not> live_grant r g \<and> e = expires_at g \<and> n = r_now r"
| "refused_for u r g (ScopeNotGranted m) \<longleftrightarrow> live_grant r g \<and> m \<noteq> [] \<and> m = filter (\<lambda>s. s \<notin> set (scopes g)) (required_scopes r)"
| "refused_for u r g (ArgumentNotAllowed f v) \<longleftrightarrow> live_grant r g \<and> set (required_scopes r) \<subseteq> set (scopes g) \<and>
     (\<exists>pre vs post. arg_allow g = pre @ (f, vs) # post \<and> (\<forall>x \<in> set pre. admits r x) \<and> \<not> admits r (f, vs)) \<and>
     v = (case dict_get (args r) f of None \<Rightarrow> PNone | Some v \<Rightarrow> v)"
| "refused_for u r g (QuotaExhausted n m) \<longleftrightarrow> live_grant r g \<and> set (required_scopes r) \<subseteq> set (scopes g) \<and>
     (\<forall>x \<in> set (arg_allow g). admits r x) \<and> n = calls_used u (grant_id g) \<and> m = max_calls g \<and> m \<le> n"
| "refused_for u r g _ \<longleftrightarrow> False"

lemma live_grant_iff: "live_grant r g \<longleftrightarrow> \<not> revoked g \<and> \<not> is_expired g r"
  by (auto simp: live_grant_def is_expired_def)

lemma check_args_of_Some:
  "check_args_of al a = Some (f, v) \<Longrightarrow> args r = a \<Longrightarrow>
    (\<exists>pre vs post. al = pre @ (f, vs) # post \<and> (\<forall>x \<in> set pre. admits r x) \<and> \<not> admits r (f, vs)) \<and>
     v = (case dict_get a f of None \<Rightarrow> PNone | Some v \<Rightarrow> v)"
proof (induction al)
  case (Cons x al)
  obtain g vs where x: "x = (g, vs)" by (cases x)
  show ?case
  proof (cases "admits r x")
    case True
    then have "check_args_of al a = Some (f, v)" using Cons.prems by (auto simp: x admits_def list_ex_iff split: if_splits)
    from Cons.IH [OF this Cons.prems(2)] obtain pre ws post where "al = pre @ (f, ws) # post" "\<forall>y \<in> set pre. admits r y"
      "\<not> admits r (f, ws)" and v: "v = (case dict_get a f of None \<Rightarrow> PNone | Some v \<Rightarrow> v)" by blast
    then have "x # al = (x # pre) @ (f, ws) # post \<and> (\<forall>y \<in> set (x # pre). admits r y) \<and> \<not> admits r (f, ws)" using True by simp
    then show ?thesis using v by blast
  next
    case False
    then have "g = f" "v = (case dict_get a f of None \<Rightarrow> PNone | Some v \<Rightarrow> v)"
      using Cons.prems by (auto simp: x admits_def list_ex_iff split: option.splits if_splits)
    moreover have "x # al = [] @ (g, vs) # al \<and> (\<forall>y \<in> set []. admits r y) \<and> \<not> admits r (g, vs)" using False by (simp add: x)
    ultimately show ?thesis by blast
  qed
qed simp

lemma examine_refused:
  assumes "\<not> allowed (examine u r g)"
  shows "refused_for u r g (grant_reason (examine u r g))"
proof (cases "live_grant r g \<and> missing_scopes g r = []")
  case True
  then have ok: "\<not> revoked g" "\<not> is_expired g r" "missing_scopes g r = []" "live_grant r g" "set (required_scopes r) \<subseteq> set (scopes g)"
    by (auto simp: live_grant_iff missing_scopes_empty)
  show ?thesis
  proof (cases "check_args g r")
    case None
    then have "\<forall>x \<in> set (arg_allow g). admits r x" unfolding check_args_def check_args_of_None by (auto simp: admits_def)
    then show ?thesis using assms ok None by (auto simp: examine_def Let_def split: if_splits)
  next
    case (Some p)
    then show ?thesis using ok check_args_of_Some [of "arg_allow g" "args r" "fst p" "snd p" r]
      by (cases p) (simp add: examine_def check_args_def)
  qed
next
  case False
  then show ?thesis by (auto simp: examine_def live_grant_iff missing_scopes_def)
qed

lemma candidate_grants_empty: "candidate_grants gs r = [] \<longleftrightarrow> (\<forall>g \<in> set gs. g_agent g \<noteq> r_agent r)"
proof -
  have "candidate_grants gs r = [] \<longleftrightarrow> set (candidate_grants gs r) = {}" by simp
  then show ?thesis by (auto simp: candidate_grants_def simp del: set_empty)
qed

lemma grant_decide_cases:
  obtains (grant) g where "g \<in> set gs" "authorises u r g" "grant_decide gs u r = Inr (examine u r g)"
      "allowed (examine u r g)" "\<forall>h \<in> set gs. authorises u r h \<longrightarrow> grant_id g \<le> grant_id h"
  | (deny) d where "\<forall>g \<in> set gs. \<not> authorises u r g" "grant_decide gs u r = Inr d" "\<not> allowed d"
      "(\<forall>g \<in> set gs. g_agent g \<noteq> r_agent r) \<longrightarrow> grant_reason d = NoGrant \<and> d_grant d = None"
      "(\<exists>g \<in> set gs. g_agent g = r_agent r) \<and> tool_grants gs r = [] \<longrightarrow> grant_reason d = ToolNotInGrant (r_tool r) \<and> d_grant d = None"
      "tool_grants gs r \<noteq> [] \<longrightarrow> d = examine u r (last (tool_grants gs r))"
proof (cases "tool_grants gs r = []")
  case True
  then have "\<forall>g \<in> set gs. \<not> authorises u r g"
    using find_tool_grants_None [of u r gs] by simp
  moreover define d where "d = \<lparr>allowed = False, grant_reason = if \<forall>g \<in> set gs. g_agent g \<noteq> r_agent r then NoGrant else ToolNotInGrant (r_tool r),
    d_grant = None\<rparr>"
  moreover have "grant_decide gs u r = Inr d"
    using True by (simp add: d_def grant_decide_def Let_def candidate_grants_empty flip: tool_grants_def)
  ultimately show thesis using True by (intro deny [of d]) auto
next
  case False
  then have ne: "candidate_grants gs r \<noteq> []" by (auto simp: tool_grants_def)
  show thesis
  proof (cases "List.find (\<lambda>g. allowed (examine u r g)) (tool_grants gs r)")
    case None
    have "\<not> allowed (examine u r (last (tool_grants gs r)))" using None False by (simp add: find_None_iff)
    moreover have "grant_decide gs u r = Inr (examine u r (last (tool_grants gs r)))"
      using None False ne by (simp add: grant_decide_def Let_def scan_grants_first flip: tool_grants_def)
    moreover have "\<not> (\<forall>g \<in> set gs. g_agent g \<noteq> r_agent r)" using ne by (simp flip: candidate_grants_empty)
    ultimately show ?thesis using deny [of "examine u r (last (tool_grants gs r))"] find_tool_grants_None [OF None] False by blast
  next
    case (Some g)
    have "grant_decide gs u r = Inr (examine u r g)"
      using Some False ne by (simp add: grant_decide_def Let_def scan_grants_first flip: tool_grants_def)
    moreover have "allowed (examine u r g)" using Some by (auto simp: find_Some_iff)
    ultimately show ?thesis using grant find_tool_grants [OF Some] by blast
  qed
qed

text \<open>
  C19.  The engine always decides (its assertion never fails).  It allows a call exactly when
  some grant authorises it: the agent's own, for this tool, neither revoked nor expired,
  covering every required scope, admitting every restricted argument, and with calls left.
  The grant charged is one of those with the least id, and the remaining count is exact.
  A refusal gives the reason of the README's precedence: no grant of the agent at all; none for the tool (claimed when
  the agent has a grant that is neither revoked nor expired, as the module ranks those two first); or the reason of the
  tool-matching grant with the greatest id, in which revocation comes before expiry, that before the scopes missing, that before
  the first argument not admitted, and the quota comes last.
\<close>

theorem grant_decide_exact:
  "\<exists>d. grant_decide gs u r = Inr d \<and> (allowed d \<longleftrightarrow> (\<exists>g \<in> set gs. authorises u r g)) \<and>
     (if allowed d
      then \<exists>g \<in> set gs. authorises u r g \<and> d_grant d = Some (grant_id g) \<and>
             grant_reason d = Granted (max_calls g - calls_used u (grant_id g) - 1) \<and>
             list_all (\<lambda>h. if authorises u r h then grant_id g \<le> grant_id h else True) gs
      else let mine = filter (\<lambda>g. g_agent g = r_agent r) gs; fit = filter (\<lambda>g. g_tool g = r_tool r) mine in
        if mine = [] then grant_reason d = NoGrant \<and> d_grant d = None
        else if fit = [] then (if list_ex (live_grant r) mine then grant_reason d = ToolNotInGrant (r_tool r) \<and> d_grant d = None else True)
        else \<exists>g \<in> set fit. list_all (\<lambda>h. grant_id h \<le> grant_id g) fit \<and> d_grant d = Some (grant_id g) \<and> refused_for u r g (grant_reason d))"
proof (cases rule: grant_decide_cases [of gs u r])
  case (grant g)
  then have "list_all (\<lambda>h. if authorises u r h then grant_id g \<le> grant_id h else True) gs" by (simp add: list_all_iff)
  then have "\<exists>g' \<in> set gs. authorises u r g' \<and> d_grant (examine u r g) = Some (grant_id g') \<and>
      grant_reason (examine u r g) = Granted (max_calls g' - calls_used u (grant_id g') - 1) \<and>
      list_all (\<lambda>h. if authorises u r h then grant_id g' \<le> grant_id h else True) gs"
    using grant examine_granted [OF grant(4)] by (intro bexI [of _ g]) simp_all
  then show ?thesis using grant(1-4) by (intro exI [of _ "examine u r g"]) auto
next
  case (deny d)
  let ?mine = "filter (\<lambda>g. g_agent g = r_agent r) gs"
  let ?fit = "filter (\<lambda>g. g_tool g = r_tool r) ?mine"
  have fit: "set ?fit = set (tool_grants gs r)" by (auto simp: set_tool_grants)
  have none: "?mine = [] \<longleftrightarrow> (\<forall>g \<in> set gs. g_agent g \<noteq> r_agent r)" by (auto simp: filter_empty_conv)
  have reason: "\<exists>g \<in> set ?fit. list_all (\<lambda>h. grant_id h \<le> grant_id g) ?fit \<and> d_grant d = Some (grant_id g) \<and> refused_for u r g (grant_reason d)"
    if "?fit \<noteq> []"
  proof -
    have ne: "tool_grants gs r \<noteq> []" using that fit by (metis set_empty)
    let ?g = "last (tool_grants gs r)"
    have d: "d = examine u r ?g" using deny(6) ne by blast
    have "grant_id h \<le> grant_id ?g" if "h \<in> set (tool_grants gs r)" for h
      using sorted_last_greatest [OF sorted_tool_grants ne that] .
    then have "list_all (\<lambda>h. grant_id h \<le> grant_id ?g) ?fit" unfolding list_all_iff fit by blast
    moreover have "?g \<in> set ?fit" unfolding fit using ne by simp
    ultimately show ?thesis using examine_refused [of u r ?g] deny(3) unfolding d by (intro bexI [of _ ?g]) simp_all
  qed
  have "?fit = [] \<longleftrightarrow> tool_grants gs r = []" using fit by (metis set_empty)
  then show ?thesis using deny reason none unfolding Let_def by (intro exI [of _ d]) (auto simp del: filter_filter)
qed

text \<open>The module ranks a revoked or expired grant before the match of the tool; the code looks at the tool first.\<close>

lemma tool_checked_before_revocation:
  assumes "g_agent g = r_agent r" "g_tool g \<noteq> r_tool r" "revoked g"
  shows "map_sum id grant_reason (grant_decide [g] u r) = Inr (ToolNotInGrant (r_tool r))"
  using assms by (simp add: grant_decide_def candidate_grants_def Let_def)

section \<open>Quotas and replay\<close>

lemma calls_used_count [simp]:
  "calls_used (count_call g u) h = calls_used u h + of_bool (h = g)"
  by (simp add: count_call_def calls_used_def)

lemma calls_used_Nil [simp]: "calls_used [] h = 0"
  by (simp add: calls_used_def)

lemma granted_id_SomeD:
  assumes "granted_id (grant_decide gs u r) = Some i"
  obtains g where "g \<in> set gs" "grant_id g = i" "calls_used u i < max_calls g"
  using assms
  by (cases rule: grant_decide_cases [of gs u r]) (auto simp: granted_id_def authorises_def)

text \<open>The quota is respected: a counter is zero or within the quota of some grant of that id.\<close>

definition within_quota :: "grant list \<Rightarrow> (string, int) dict \<Rightarrow> bool" where
  "within_quota gs u \<longleftrightarrow> (\<forall>i. calls_used u i = 0 \<or> (\<exists>g \<in> set gs. grant_id g = i \<and> calls_used u i \<le> max_calls g))"

lemma within_quota_count:
  assumes "within_quota gs u" "granted_id (grant_decide gs u r) = Some i"
  shows "within_quota gs (count_call i u)"
proof -
  obtain g where "g \<in> set gs" "grant_id g = i" "calls_used u i < max_calls g" using granted_id_SomeD [OF assms(2)] .
  then show ?thesis using assms(1) unfolding within_quota_def by fastforce
qed

lemma session_invariant:
  assumes "session gs u rs = (u', lg, ds)" "within_quota gs u"
  shows "within_quota gs u' \<and> u' = fold count_call lg u \<and> set lg \<subseteq> grant_id ` set gs \<and>
         lg = List.map_filter granted_id ds"
  using assms
proof (induction rs arbitrary: u lg ds)
  case Nil
  then show ?case by (simp add: map_filter_simps)
next
  case (Cons r rs)
  show ?case
  proof (cases "granted_id (grant_decide gs u r)")
    case None
    obtain ds1 where s: "session gs u rs = (u', lg, ds1)" "ds = grant_decide gs u r # ds1"
      using Cons.prems(1) None by (auto simp: Let_def split: prod.splits)
    show ?thesis using Cons.IH [OF s(1) Cons.prems(2)] unfolding s(2) map_filter_simps None by auto
  next
    case (Some i)
    obtain lg1 ds1 where s: "session gs (count_call i u) rs = (u', lg1, ds1)" "lg = i # lg1" "ds = grant_decide gs u r # ds1"
      using Cons.prems(1) Some by (auto simp: Let_def split: prod.splits)
    have "i \<in> grant_id ` set gs" using granted_id_SomeD [OF Some] by blast
    then show ?thesis
      using Cons.IH [OF s(1) within_quota_count [OF Cons.prems(2) Some]] unfolding s(2,3) map_filter_simps Some by auto
  qed
qed

lemma calls_used_fold: "calls_used (fold count_call lg u) i = calls_used u i + int (count_list lg i)"
  by (induction lg arbitrary: u) auto

text \<open>A logger writes one JSON object per line, with the grant id in its field.\<close>

definition logs_grant :: "(string \<Rightarrow> pyval option) \<Rightarrow> (string \<Rightarrow> string) \<Rightarrow> bool" where
  "logs_grant loads render \<longleftrightarrow>
     (\<forall>g. py_strip (render g) \<noteq> [] \<and>
          (\<exists>d. loads (py_strip (render g)) = Some (PDict d) \<and> dict_get d ''grant_id'' = Some (PStr g)))"

lemma replay_lines_rendered:
  assumes "logs_grant loads render" "set lg \<subseteq> set known"
  shows "replay_lines loads known (map render lg) u = Inr (fold count_call lg u)"
  using assms(2)
proof (induction lg arbitrary: u)
  case (Cons g lg)
  obtain d where "py_strip (render g) \<noteq> []" "loads (py_strip (render g)) = Some (PDict d)" "dict_get d ''grant_id'' = Some (PStr g)"
    using assms(1) by (auto simp: logs_grant_def)
  then show ?case using Cons by simp
qed simp

text \<open>
  C20.  A caller that counts and logs every allowed call, over any sequence of requests: the
  counters are exactly the numbers of calls allowed under each id, no id is charged beyond the
  quota of a grant that carries it, and replaying the log after a restart rebuilds exactly
  the usage the caller had in memory.
\<close>

theorem grant_quota_survives_restart:
  assumes "session gs [] rs = (u, lg, ds)" "logs_grant loads render"
  shows "(\<forall>i. calls_used u i = int (count_list (List.map_filter granted_id ds) i)) \<and>
         (\<forall>i. calls_used u i = 0 \<or> (\<exists>g \<in> set gs. grant_id g = i \<and> calls_used u i \<le> max_calls g)) \<and>
         replay_log loads gs (map render lg) = Inr u"
proof -
  have "within_quota gs []" by (simp add: within_quota_def)
  note inv = session_invariant [OF assms(1) this]
  have "replay_log loads gs (map render lg) = Inr (fold count_call lg [])"
    unfolding replay_log_def using inv by (intro replay_lines_rendered assms(2)) auto
  then show ?thesis using inv calls_used_fold [of lg "[]"] by (auto simp: within_quota_def)
qed

definition demo_grant :: grant where
  "demo_grant = \<lparr>grant_id = ''g1'', g_agent = ''a'', g_tool = ''read'', scopes = [''fs''], max_calls = 1,
     expires_at = 0, arg_allow = [(''mode'', [PStr ''r''])], revoked = False\<rparr>"

definition demo_request :: call_request where
  "demo_request = \<lparr>r_agent = ''a'', r_tool = ''read'', required_scopes = [''fs''], args = [(''mode'', PStr ''r'')], r_now = 5\<rparr>"

lemma demo_logger:
  "logs_grant (\<lambda>s. Some (PDict [(''grant_id'', PStr (butlast (tl s)))])) (\<lambda>g. CHR ''x'' # g @ [CHR ''x''])"
  by (simp add: logs_grant_def py_strip_def py_space_def)

theorem grant_quota_survives_restart_witness:
  "\<exists>u lg ds. session [demo_grant] [] [demo_request, demo_request] = (u, lg, ds) \<and> calls_used u ''g1'' = 1 \<and>
     replay_log (\<lambda>s. Some (PDict [(''grant_id'', PStr (butlast (tl s)))])) [demo_grant]
       (map (\<lambda>g. CHR ''x'' # g @ [CHR ''x'']) lg) = Inr u"
proof -
  obtain u lg ds where s: "session [demo_grant] [] [demo_request, demo_request] = (u, lg, ds)"
    by (metis prod_cases3)
  have "u = [(''g1'', 1)]"
    using s by (simp add: demo_grant_def demo_request_def grant_decide_def candidate_grants_def examine_def is_expired_def
        missing_scopes_def check_args_def py_eq_def calls_used_def count_call_def granted_id_def Let_def)
  then show ?thesis
    using s grant_quota_survives_restart [OF s demo_logger] by (auto simp: calls_used_def)
qed

end
