(* ===== verification/Coalescer.thy ===== *)
theory Coalescer
  imports Prelude "HOL-Library.List_Lexorder" "HOL-Library.Char_ord"
begin

text \<open>
  The in-flight request coalescer (\<open>request-coalescer/coalescer.py\<close>) under arbitrary
  interleavings of its callers.  Each caller is a thread with a program point; the blocks under
  \<open>self._lock\<close> are single steps, and everything else that touches shared state is a step of
  its own, \<open>self.stats.errors += 1\<close> (which is outside the lock) being two: a read and a write.
  The slots live in a heap, because a caller keeps its slot after it has left the dictionary.
\<close>

section \<open>Slots, the shared object and the callers\<close>

record ('v, 'e) slot =
  event :: bool
  s_result :: "'v option"
  s_error :: "'e option"
  waiters :: nat

record ('k, 'v, 'e) coalescer =
  inflight :: "('k, nat) dict"
  slots :: "('v, 'e) slot list"
  leaders :: nat
  followers :: nat
  errors :: nat

datatype ('v, 'e) call_outcome = Returned "'v option" | Raised 'e | NotDeclaredSafe

datatype ('k, 'v, 'e) pc =
    Calling 'k
  | Leading 'k nat
  | ErrorRead 'k nat
  | ErrorWrite 'k nat nat
  | Signalling 'k nat
  | Releasing 'k nat
  | Waiting 'k nat
  | Reading 'k nat
  | Finished 'k "('v, 'e) call_outcome"

definition new_coalescer :: "('k, 'v, 'e) coalescer" where
  "new_coalescer = \<lparr>inflight = [], slots = [], leaders = 0, followers = 0, errors = 0\<rparr>"

definition upd_slot :: "nat \<Rightarrow> (('v, 'e) slot \<Rightarrow> ('v, 'e) slot) \<Rightarrow> ('k, 'v, 'e) coalescer \<Rightarrow> ('k, 'v, 'e) coalescer" where
  "upd_slot s f c = c\<lparr>slots := (slots c)[s := f (slots c ! s)]\<rparr>"

text \<open>The first block under the lock.\<close>

definition attach :: "'k \<Rightarrow> ('k, 'v, 'e) coalescer \<Rightarrow> ('k, 'v, 'e) pc \<times> ('k, 'v, 'e) coalescer" where
  "attach k c =
     (case dict_get (inflight c) k of
        None \<Rightarrow>
          (Leading k (length (slots c)),
           c\<lparr>slots := slots c @ [\<lparr>event = False, s_result = None, s_error = None, waiters = 1\<rparr>],
             inflight := dict_set k (length (slots c)) (inflight c), leaders := leaders c + 1\<rparr>)
      | Some s \<Rightarrow> (Waiting k s, (upd_slot s (\<lambda>x. x\<lparr>waiters := waiters x + 1\<rparr>) c)\<lparr>followers := followers c + 1\<rparr>))"

definition slot_outcome :: "('v, 'e) slot \<Rightarrow> ('v, 'e) call_outcome" where
  "slot_outcome x = (case s_error x of Some e \<Rightarrow> Raised e | None \<Rightarrow> Returned (s_result x))"

text \<open>
  One step of a caller; \<open>ans\<close> is what the upstream call does when the step is its completion.
  \<open>None\<close>: the caller is blocked on the event, or has finished.
\<close>

fun thread_step ::
  "bool \<Rightarrow> 'e + 'v \<Rightarrow> ('k, 'v, 'e) pc \<Rightarrow> ('k, 'v, 'e) coalescer \<Rightarrow> (('k, 'v, 'e) pc \<times> ('k, 'v, 'e) coalescer) option" where
  "thread_step safe ans (Calling k) c = Some (if \<not> safe then (Finished k NotDeclaredSafe, c) else attach k c)"
| "thread_step safe ans (Leading k s) c =
     (case ans of
        Inr v \<Rightarrow> Some (Signalling k s, upd_slot s (\<lambda>x. x\<lparr>s_result := Some v\<rparr>) c)
      | Inl e \<Rightarrow> Some (ErrorRead k s, upd_slot s (\<lambda>x. x\<lparr>s_error := Some e\<rparr>) c))"
| "thread_step safe ans (ErrorRead k s) c = Some (ErrorWrite k s (errors c), c)"
| "thread_step safe ans (ErrorWrite k s n) c = Some (Signalling k s, c\<lparr>errors := n + 1\<rparr>)"
| "thread_step safe ans (Signalling k s) c = Some (Releasing k s, upd_slot s (\<lambda>x. x\<lparr>event := True\<rparr>) c)"
| "thread_step safe ans (Releasing k s) c = Some (Reading k s, c\<lparr>inflight := dict_del k (inflight c)\<rparr>)"
| "thread_step safe ans (Waiting k s) c = (if event (slots c ! s) then Some (Reading k s, c) else None)"
| "thread_step safe ans (Reading k s) c = Some (Finished k (slot_outcome (slots c ! s)), c)"
| "thread_step safe ans (Finished k out) c = None"

definition coalescer_state :: "('k \<Rightarrow> string) \<Rightarrow> ('k, 'v, 'e) coalescer \<Rightarrow> string list \<times> nat \<times> nat \<times> nat" where
  "coalescer_state str c = (sort (map (str \<circ> fst) (inflight c)), leaders c, followers c, errors c)"

section \<open>Interleavings\<close>

text \<open>
  A label records the thread, its program point before and after the step, and the upstream
  answer.  \<open>runs safe keys tr ts c\<close>: the callers with the given keys can reach the
  program points \<open>ts\<close> and the shared state \<open>c\<close> by the steps \<open>tr\<close> (latest first).
\<close>

type_synonym ('k, 'v, 'e) label = "nat \<times> ('k, 'v, 'e) pc \<times> ('e + 'v) \<times> ('k, 'v, 'e) pc"

inductive runs ::
  "bool \<Rightarrow> 'k list \<Rightarrow> ('k, 'v, 'e) label list \<Rightarrow> ('k, 'v, 'e) pc list \<Rightarrow> ('k, 'v, 'e) coalescer \<Rightarrow> bool"
  for safe keys where
  runs_init: "runs safe keys [] (map Calling keys) new_coalescer"
| runs_step: "runs safe keys tr ts c \<Longrightarrow> i < length ts \<Longrightarrow> thread_step safe ans (ts ! i) c = Some (p, c') \<Longrightarrow>
    runs safe keys ((i, ts ! i, ans, p) # tr) (ts[i := p]) c'"

inductive_cases runs_ConsE: "runs safe keys (l # tr) ts c"

fun pc_key :: "('k, 'v, 'e) pc \<Rightarrow> 'k" where
  "pc_key (Calling k) = k" | "pc_key (Leading k _) = k" | "pc_key (ErrorRead k _) = k"
| "pc_key (ErrorWrite k _ _) = k" | "pc_key (Signalling k _) = k" | "pc_key (Releasing k _) = k"
| "pc_key (Waiting k _) = k" | "pc_key (Reading k _) = k" | "pc_key (Finished k _) = k"

text \<open>The slot whose upstream call this thread is responsible for.\<close>

fun owns :: "('k, 'v, 'e) pc \<Rightarrow> nat option" where
  "owns (Leading _ s) = Some s" | "owns (ErrorRead _ s) = Some s" | "owns (ErrorWrite _ s _) = Some s"
| "owns (Signalling _ s) = Some s" | "owns (Releasing _ s) = Some s" | "owns _ = None"

fun holds :: "('k, 'v, 'e) pc \<Rightarrow> nat option" where
  "holds (Waiting _ s) = Some s" | "holds (Reading _ s) = Some s" | "holds p = owns p"

fun before_event :: "('k, 'v, 'e) pc \<Rightarrow> bool" where
  "before_event (Releasing _ _) = False"
| "before_event p = (owns p \<noteq> None)"

fun is_leading :: "('k, 'v, 'e) pc \<Rightarrow> bool" where
  "is_leading (Leading _ _) = True" | "is_leading _ = False"

fun is_finished :: "('k, 'v, 'e) pc \<Rightarrow> bool" where
  "is_finished (Finished _ _) = True" | "is_finished _ = False"

fun is_reading :: "('k, 'v, 'e) pc \<Rightarrow> bool" where
  "is_reading (Reading _ _) = True" | "is_reading _ = False"

fun outcome_of :: "'e + 'v \<Rightarrow> ('v, 'e) call_outcome" where
  "outcome_of (Inr v) = Returned (Some v)" | "outcome_of (Inl e) = Raised e"

text \<open>
  What justifies an outcome \<open>out\<close> returned to caller \<open>i\<close>: a caller \<open>j\<close> with the same key
  completed the upstream call of a slot with that outcome, and \<open>i\<close> is \<open>j\<close> or attached to
  that slot.
\<close>

definition served_by :: "'k list \<Rightarrow> ('k, 'v, 'e) label list \<Rightarrow> nat \<Rightarrow> nat \<Rightarrow> nat \<Rightarrow> bool" where
  "served_by keys tr s j i \<longleftrightarrow>
     j < length keys \<and> keys ! j = keys ! i \<and> (j = i \<or> (\<exists>ans. (i, Calling (keys ! i), ans, Waiting (keys ! i) s) \<in> set tr))"

definition answered :: "('k, 'v, 'e) label list \<Rightarrow> 'k \<Rightarrow> nat \<Rightarrow> nat \<Rightarrow> ('v, 'e) call_outcome \<Rightarrow> bool" where
  "answered tr k s j out \<longleftrightarrow> (\<exists>ans p. (j, Leading k s, ans, p) \<in> set tr \<and> out = outcome_of ans)"

definition slot_ok :: "('k, 'v, 'e) label list \<Rightarrow> ('k, 'v, 'e) pc \<Rightarrow> 'k \<Rightarrow> nat \<Rightarrow> nat \<Rightarrow> ('v, 'e) slot \<Rightarrow> bool" where
  "slot_ok tr p k s j x \<longleftrightarrow>
     (event x \<longleftrightarrow> \<not> (before_event p \<and> owns p = Some s)) \<and>
     (if is_leading p \<and> owns p = Some s then s_result x = None \<and> s_error x = None
      else answered tr k s j (slot_outcome x))"

text \<open>The invariant; \<open>own ! s\<close> is the caller that created slot \<open>s\<close>.\<close>

definition cinv :: "'k list \<Rightarrow> ('k, 'v, 'e) label list \<Rightarrow> nat list \<Rightarrow> ('k, 'v, 'e) pc list \<Rightarrow> ('k, 'v, 'e) coalescer \<Rightarrow> bool" where
  "cinv keys tr own ts c \<longleftrightarrow>
     map pc_key ts = keys \<and> length own = length (slots c) \<and> set own \<subseteq> {..<length keys} \<and>
     (\<forall>i < length ts. \<forall>s. owns (ts ! i) = Some s \<longrightarrow> s < length own \<and> own ! s = i \<and> dict_get (inflight c) (keys ! i) = Some s) \<and>
     (\<forall>k s. dict_get (inflight c) k = Some s \<longrightarrow> s < length own \<and> keys ! (own ! s) = k \<and> owns (ts ! (own ! s)) = Some s) \<and>
     (\<forall>i < length ts. \<forall>s. holds (ts ! i) = Some s \<longrightarrow> s < length own \<and> served_by keys tr s (own ! s) i) \<and>
     (\<forall>i < length ts. \<forall>s. holds (ts ! i) = Some s \<and> is_reading (ts ! i) \<longrightarrow> event (slots c ! s)) \<and>
     (\<forall>s < length own. slot_ok tr (ts ! (own ! s)) (keys ! (own ! s)) s (own ! s) (slots c ! s)) \<and>
     (\<forall>i < length ts. \<forall>k out. ts ! i = Finished k out \<and> out \<noteq> NotDeclaredSafe \<longrightarrow>
        (\<exists>j s. served_by keys tr s j i \<and> answered tr k s j out))"

lemma served_by_mono: "served_by keys tr s j i \<Longrightarrow> served_by keys (l # tr) s j i"
  unfolding served_by_def by auto

lemma answered_mono: "answered tr k s j out \<Longrightarrow> answered (l # tr) k s j out"
  unfolding answered_def by auto

lemma slot_ok_mono: "slot_ok tr p k s j x \<Longrightarrow> slot_ok (l # tr) p k s j x"
  unfolding slot_ok_def by (simp add: answered_mono split: if_splits)

lemma cinvD:
  assumes "cinv keys tr own ts c"
  shows "map pc_key ts = keys" "length own = length (slots c)" "set own \<subseteq> {..<length keys}"
    "\<And>i s. i < length ts \<Longrightarrow> owns (ts ! i) = Some s \<Longrightarrow> s < length own \<and> own ! s = i \<and> dict_get (inflight c) (keys ! i) = Some s"
    "\<And>k s. dict_get (inflight c) k = Some s \<Longrightarrow> s < length own \<and> keys ! (own ! s) = k \<and> owns (ts ! (own ! s)) = Some s"
    "\<And>i s. i < length ts \<Longrightarrow> holds (ts ! i) = Some s \<Longrightarrow> s < length own \<and> served_by keys tr s (own ! s) i"
    "\<And>i s. i < length ts \<Longrightarrow> holds (ts ! i) = Some s \<Longrightarrow> is_reading (ts ! i) \<Longrightarrow> event (slots c ! s)"
    "\<And>s. s < length own \<Longrightarrow> slot_ok tr (ts ! (own ! s)) (keys ! (own ! s)) s (own ! s) (slots c ! s)"
    "\<And>i k out. i < length ts \<Longrightarrow> ts ! i = Finished k out \<Longrightarrow> out \<noteq> NotDeclaredSafe \<Longrightarrow>
        \<exists>j s. served_by keys tr s j i \<and> answered tr k s j out"
  using assms unfolding cinv_def by blast+

lemma cinv_key: "cinv keys tr own ts c \<Longrightarrow> i < length ts \<Longrightarrow> keys ! i = pc_key (ts ! i)"
  using cinvD(1) by fastforce

lemma cinv_length: "cinv keys tr own ts c \<Longrightarrow> length ts = length keys"
  using cinvD(1) by (metis length_map)

lemma cinv_init: "cinv keys [] [] (map Calling keys) new_coalescer"
  by (auto simp: cinv_def new_coalescer_def intro: nth_equalityI)

lemma map_pc_key_update:
  "map pc_key ts = keys \<Longrightarrow> i < length ts \<Longrightarrow> pc_key p = pc_key (ts ! i) \<Longrightarrow> map pc_key (ts[i := p]) = keys"
  by (simp add: map_update) (metis list_update_id nth_map)

lemmas cinv_mono = served_by_mono answered_mono slot_ok_mono

text \<open>
  What a step of caller \<open>i\<close> has to establish: only its own program point, the slots and the
  dictionary change.
\<close>

lemma cinv_step:
  assumes inv: "cinv keys tr own ts c" and i: "i < length ts" and k: "pc_key p = pc_key (ts ! i)"
    and own': "length own' = length (slots c')" "set own' \<subseteq> {..<length keys}" "length own \<le> length own'"
      "\<And>s. s < length own \<Longrightarrow> own' ! s = own ! s"
    and mine: "\<And>s. owns p = Some s \<Longrightarrow> s < length own' \<and> own' ! s = i \<and> dict_get (inflight c') (keys ! i) = Some s"
    and others: "\<And>j s. j < length ts \<Longrightarrow> j \<noteq> i \<Longrightarrow> owns (ts ! j) = Some s \<Longrightarrow> dict_get (inflight c') (keys ! j) = Some s"
    and infl: "\<And>k s. dict_get (inflight c') k = Some s \<Longrightarrow>
      dict_get (inflight c) k = Some s \<and> own ! s \<noteq> i \<or> s < length own' \<and> own' ! s = i \<and> keys ! i = k \<and> owns p = Some s"
    and held: "\<And>s. holds p = Some s \<Longrightarrow> s < length own' \<and> served_by keys (l # tr) s (own' ! s) i"
      "\<And>s. holds p = Some s \<Longrightarrow> is_reading p \<Longrightarrow> event (slots c' ! s)"
    and ev: "\<And>s. s < length own \<Longrightarrow> event (slots c ! s) \<Longrightarrow> event (slots c' ! s)"
    and ok: "\<And>s. s < length own' \<Longrightarrow> slot_ok (l # tr) (ts[i := p] ! (own' ! s)) (keys ! (own' ! s)) s (own' ! s) (slots c' ! s)"
    and fin: "\<And>k out. p = Finished k out \<Longrightarrow> out \<noteq> NotDeclaredSafe \<Longrightarrow> \<exists>j s. served_by keys (l # tr) s j i \<and> answered (l # tr) k s j out"
  shows "cinv keys (l # tr) own' (ts[i := p]) c'"
proof -
  note D = cinvD [OF inv]
  have upd: "j < length ts \<Longrightarrow> ts[i := p] ! j = (if j = i then p else ts ! j)" for j by simp
  show ?thesis
    unfolding cinv_def
  proof (intro conjI allI impI; (elim conjE)?; (simp only: length_list_update)?)
    show "map pc_key (ts[i := p]) = keys" using D(1) i k by (rule map_pc_key_update)
    show "length own' = length (slots c')" "set own' \<subseteq> {..<length keys}" by (rule own')+
  next
    fix j s assume j: "j < length ts" and ow: "owns (ts[i := p] ! j) = Some s"
    have "s < length own' \<and> own' ! s = j \<and> dict_get (inflight c') (keys ! j) = Some s"
    proof (cases "j = i")
      case True
      then show ?thesis using mine ow j upd by simp
    next
      case False
      then have "owns (ts ! j) = Some s" using ow j upd by simp
      then show ?thesis using D(4) [OF j] others [OF j False] own'(3,4) by fastforce
    qed
    then show "s < length own'" "own' ! s = j" "dict_get (inflight c') (keys ! j) = Some s" by auto
  next
    fix k s assume "dict_get (inflight c') k = Some s"
    from infl [OF this] have "s < length own' \<and> keys ! (own' ! s) = k \<and> owns (ts[i := p] ! (own' ! s)) = Some s"
      using D(5) [of k s] own'(3,4) i by auto
    then show "s < length own'" "keys ! (own' ! s) = k" "owns (ts[i := p] ! (own' ! s)) = Some s" by auto
  next
    fix j s assume j: "j < length ts" and h: "holds (ts[i := p] ! j) = Some s"
    have "s < length own' \<and> served_by keys (l # tr) s (own' ! s) j"
    proof (cases "j = i")
      case True
      then show ?thesis using held(1) h j upd by simp
    next
      case False
      then have "holds (ts ! j) = Some s" using h j upd by simp
      then show ?thesis using D(6) [OF j] own'(3,4) served_by_mono by fastforce
    qed
    then show "s < length own'" "served_by keys (l # tr) s (own' ! s) j" by auto
  next
    fix j s assume j: "j < length ts" and h: "holds (ts[i := p] ! j) = Some s" and r: "is_reading (ts[i := p] ! j)"
    show "event (slots c' ! s)"
      using held(2) [of s] h r j D(6,7) [OF j, of s] ev [of s] by (cases "j = i") (auto simp: upd)
  next
    fix s assume "s < length own'"
    then show "slot_ok (l # tr) (ts[i := p] ! (own' ! s)) (keys ! (own' ! s)) s (own' ! s) (slots c' ! s)" by (rule ok)
  next
    fix j k out assume j: "j < length ts" and f: "ts[i := p] ! j = Finished k out" and n: "out \<noteq> NotDeclaredSafe"
    show "\<exists>j' s. served_by keys (l # tr) s j' j \<and> answered (l # tr) k s j' out"
    proof (cases "j = i")
      case True
      then show ?thesis using fin [of k out] f n j upd by simp
    next
      case False
      then show ?thesis using D(9) [OF j _ n] f cinv_mono(1,2) upd [OF j] by metis
    qed
  qed
qed

definition slot_same :: "('v, 'e) slot \<Rightarrow> ('v, 'e) slot \<Rightarrow> bool" where
  "slot_same x y \<longleftrightarrow> event y = event x \<and> s_result y = s_result x \<and> s_error y = s_error x"

lemma slot_same_refl [simp]: "slot_same x x"
  by (simp add: slot_same_def)

lemma slot_ok_not_owner:
  "owns p \<noteq> Some s \<Longrightarrow> slot_ok tr p k s j x \<longleftrightarrow> event x \<and> answered tr k s j (slot_outcome x)"
  by (simp add: slot_ok_def)

lemma slot_ok_same: "slot_ok tr p k s j x \<Longrightarrow> slot_same x y \<Longrightarrow> slot_ok tr p k s j y"
  by (auto simp: slot_ok_def slot_same_def slot_outcome_def cong: option.case_cong)

lemma slot_ok_frame:
  assumes "slot_ok tr (ts ! j) k s j x" "slot_same x y" "i < length ts"
    "j = i \<Longrightarrow> owns p \<noteq> Some s \<and> owns (ts ! i) \<noteq> Some s"
  shows "slot_ok (l # tr) (ts[i := p] ! j) k s j y"
proof -
  have "slot_ok (l # tr) (ts ! j) k s j y" by (rule slot_ok_mono [OF slot_ok_same [OF assms(1,2)]])
  then show ?thesis using assms(3,4) by (cases "j = i") (simp_all add: slot_ok_not_owner)
qed

text \<open>A leader moves on: it keeps its slot, which it may fill or signal.\<close>

lemma cinv_owner_step:
  assumes inv: "cinv keys tr own ts c" and i: "i < length ts" and ow: "owns (ts ! i) = Some s" "owns p = Some s"
    and k: "pc_key p = pc_key (ts ! i)" and c: "inflight c' = inflight c" "slots c' = (slots c)[s := x]"
    and x: "event (slots c ! s) \<Longrightarrow> event x" "slot_ok (l # tr) p (keys ! i) s i x"
  shows "cinv keys (l # tr) own (ts[i := p]) c'"
proof (rule cinv_step [OF inv i k])
  note D = cinvD [OF inv]
  have s: "s < length own" "own ! s = i" "dict_get (inflight c) (keys ! i) = Some s" "holds (ts ! i) = Some s"
    using D(4) [OF i ow(1)] ow(1) by (cases "ts ! i"; simp)+
  have p: "holds p = Some s" "\<not> is_reading p" "\<And>k out. p \<noteq> Finished k out" using ow(2) by (cases p; simp)+
  show "length own = length (slots c')" "set own \<subseteq> {..<length keys}" using D(2,3) c by simp_all
  show "s' < length own \<and> own ! s' = i \<and> dict_get (inflight c') (keys ! i) = Some s'" if "owns p = Some s'" for s'
    using that s ow c by simp
  show "dict_get (inflight c') (keys ! j) = Some s'" if "j < length ts" "owns (ts ! j) = Some s'" for j s'
    using D(4) that c by simp
  show "dict_get (inflight c) k' = Some s' \<and> own ! s' \<noteq> i \<or> s' < length own \<and> own ! s' = i \<and> keys ! i = k' \<and> owns p = Some s'"
    if "dict_get (inflight c') k' = Some s'" for k' s'
    using D(5) [of k' s'] that c(1) s(2) ow by (cases "own ! s' = i") simp_all
  show "s' < length own \<and> served_by keys (l # tr) s' (own ! s') i" if "holds p = Some s'" for s'
    using D(6) [OF i s(4)] that p(1) by (simp add: served_by_mono)
  show "event (slots c' ! s')" if "event (slots c ! s')" for s'
    using that x(1) c s(1) D(2) by (cases "s' = s") auto
  show "slot_ok (l # tr) (ts[i := p] ! (own ! s')) (keys ! (own ! s')) s' (own ! s') (slots c' ! s')" if "s' < length own" for s'
  proof (cases "s' = s")
    case True
    then show ?thesis using s i x(2) c D(2) by simp
  next
    case False
    then show ?thesis using c ow i by (intro slot_ok_frame [OF D(8) [OF that]]) simp_all
  qed
qed (use ow(2) in \<open>cases p; simp\<close>)+

text \<open>A caller that leads no call moves on; slots only change their number of waiters.\<close>

lemma cinv_bystander_step:
  assumes inv: "cinv keys tr own ts c" and i: "i < length ts" and ow: "owns (ts ! i) = None" "owns p = None"
    and k: "pc_key p = pc_key (ts ! i)" and c: "inflight c' = inflight c" "length (slots c') = length (slots c)"
      "\<And>s. s < length (slots c) \<Longrightarrow> slot_same (slots c ! s) (slots c' ! s)"
    and held: "\<And>s. holds p = Some s \<Longrightarrow> s < length own \<and> served_by keys (l # tr) s (own ! s) i"
      "\<And>s. holds p = Some s \<Longrightarrow> is_reading p \<Longrightarrow> event (slots c' ! s)"
    and fin: "\<And>k out. p = Finished k out \<Longrightarrow> out \<noteq> NotDeclaredSafe \<Longrightarrow> \<exists>j s. served_by keys (l # tr) s j i \<and> answered (l # tr) k s j out"
  shows "cinv keys (l # tr) own (ts[i := p]) c'"
proof (rule cinv_step [OF inv i k _ _ _ _ _ _ _ held _ _ fin])
  note D = cinvD [OF inv]
  show "length own = length (slots c')" "set own \<subseteq> {..<length keys}" using D(2,3) c by simp_all
  show "dict_get (inflight c') (keys ! j) = Some s'" if "j < length ts" "owns (ts ! j) = Some s'" for j s'
    using D(4) that c by simp
  show "dict_get (inflight c) k' = Some s' \<and> own ! s' \<noteq> i \<or> s' < length own \<and> own ! s' = i \<and> keys ! i = k' \<and> owns p = Some s'"
    if "dict_get (inflight c') k' = Some s'" for k' s'
    using D(5) [of k' s'] that c ow by auto
  show "event (slots c' ! s')" if "s' < length own" "event (slots c ! s')" for s'
    using that c(3) [of s'] D(2) by (simp add: slot_same_def)
  show "slot_ok (l # tr) (ts[i := p] ! (own ! s')) (keys ! (own ! s')) s' (own ! s') (slots c' ! s')" if "s' < length own" for s'
    using that c ow D(2) i by (intro slot_ok_frame [OF D(8) [OF that]]) simp_all
qed (use ow in simp_all)

text \<open>The leader leaves the dictionary.\<close>

lemma cinv_release:
  assumes inv: "cinv keys tr own ts c" and i: "i < length ts" and ti: "ts ! i = Releasing k s"
    and c: "inflight c' = dict_del k (inflight c)" "slots c' = slots c"
  shows "cinv keys (l # tr) own (ts[i := Reading k s]) c'"
proof (rule cinv_step [OF inv i])
  note D = cinvD [OF inv]
  have s: "s < length own" "own ! s = i" "keys ! i = k" using D(4) [OF i] ti cinv_key [OF inv i] by auto
  show "length own = length (slots c')" "set own \<subseteq> {..<length keys}" using D(2,3) c by simp_all
  show "dict_get (inflight c') (keys ! j) = Some s'" if "j < length ts" "j \<noteq> i" "owns (ts ! j) = Some s'" for j s'
    using D(4) [OF that(1,3)] D(4) [OF i, of s] that(2) ti s c by auto
  show "dict_get (inflight c) k' = Some s' \<and> own ! s' \<noteq> i \<or>
      s' < length own \<and> own ! s' = i \<and> keys ! i = k' \<and> owns (Reading k s) = Some s'"
    if "dict_get (inflight c') k' = Some s'" for k' s'
    using D(5) [of k' s'] that c s by (auto split: if_splits)
  show "s' < length own \<and> served_by keys (l # tr) s' (own ! s') i" if "holds (Reading k s) = Some s'" for s'
    using D(6) [OF i, of s] that ti by (simp add: served_by_mono)
  have e: "event (slots c ! s)" using D(8) [OF s(1)] s(2) ti by (simp add: slot_ok_def)
  then show "event (slots c' ! s')" if "holds (Reading k s) = Some s'" for s' using that c by simp
  show "slot_ok (l # tr) (ts[i := Reading k s] ! (own ! s')) (keys ! (own ! s')) s' (own ! s') (slots c' ! s')" if "s' < length own" for s'
  proof (cases "s' = s")
    case True
    then show ?thesis using slot_ok_mono [OF D(8) [OF that], of l] s i ti c by (simp add: slot_ok_def)
  next
    case False
    then show ?thesis using c ti i by (intro slot_ok_frame [OF D(8) [OF that]]) simp_all
  qed
qed (use ti c in simp_all)

text \<open>A caller becomes the leader of a new slot.\<close>

lemma cinv_lead:
  assumes inv: "cinv keys tr own ts c" and i: "i < length ts" and ti: "ts ! i = Calling k"
    and none: "dict_get (inflight c) k = None"
    and c: "inflight c' = dict_set k (length (slots c)) (inflight c)"
      "slots c' = slots c @ [\<lparr>event = False, s_result = None, s_error = None, waiters = 1\<rparr>]"
  shows "cinv keys (l # tr) (own @ [i]) (ts[i := Leading k (length (slots c))]) c'"
proof (rule cinv_step [OF inv i])
  note D = cinvD [OF inv]
  have k: "keys ! i = k" "i < length keys" using ti cinv_key [OF inv i] i cinv_length [OF inv] by auto
  show "length (own @ [i]) = length (slots c')" "set (own @ [i]) \<subseteq> {..<length keys}" using D(2,3) c k by simp_all
  show "(own @ [i]) ! s = own ! s" if "s < length own" for s using that by (simp add: nth_append)
  show "s < length (own @ [i]) \<and> (own @ [i]) ! s = i \<and> dict_get (inflight c') (keys ! i) = Some s"
    if "owns (Leading k (length (slots c)) :: ('a, 'b, 'c) pc) = Some s" for s
    using that D(2) [symmetric] c k by (simp add: nth_append)
  show "dict_get (inflight c') (keys ! j) = Some s'" if "j < length ts" "owns (ts ! j) = Some s'" for j s'
    using D(4) [OF that] none c by auto
  show "dict_get (inflight c) k' = Some s' \<and> own ! s' \<noteq> i \<or> s' < length (own @ [i]) \<and> (own @ [i]) ! s' = i \<and>
      keys ! i = k' \<and> owns (Leading k (length (slots c)) :: ('a, 'b, 'c) pc) = Some s'"
    if "dict_get (inflight c') k' = Some s'" for k' s'
    using D(2) D(5) [of k' s'] that c k ti by (auto split: if_splits)
  show "s < length (own @ [i]) \<and> served_by keys (l # tr) s ((own @ [i]) ! s) i"
    if "holds (Leading k (length (slots c)) :: ('a, 'b, 'c) pc) = Some s" for s
    using that D(2) [symmetric] k by (simp add: served_by_def nth_append)
  show "event (slots c' ! s)" if "s < length own" "event (slots c ! s)" for s
    using that c D(2) by (simp add: nth_append)
  show "slot_ok (l # tr) (ts[i := Leading k (length (slots c))] ! ((own @ [i]) ! s)) (keys ! ((own @ [i]) ! s)) s ((own @ [i]) ! s) (slots c' ! s)"
    if "s < length (own @ [i])" for s
  proof (cases "s < length own")
    case True
    then show ?thesis using slot_ok_frame [OF D(8) [OF True] slot_same_refl i] ti D(2) c by (simp add: nth_append)
  next
    case False
    then have "s = length (slots c)" "(own @ [i]) ! s = i" using that D(2) by (simp_all add: nth_append)
    then show ?thesis using i c by (simp add: slot_ok_def)
  qed
qed (use ti in simp_all)

lemma cinv_complete:
  assumes inv: "cinv keys tr own ts c" and i: "i < length ts" and ti: "ts ! i = Leading k s"
    and st: "thread_step safe ans (Leading k s) c = Some (p, c')"
  shows "cinv keys ((i, Leading k s, ans, p) # tr) own (ts[i := p]) c'"
proof -
  have s: "s < length own" "own ! s = i" "keys ! i = k" using cinvD(4) [OF inv i] ti cinv_key [OF inv i] by auto
  have x: "\<not> event (slots c ! s)" "s_result (slots c ! s) = None" "s_error (slots c ! s) = None"
    using cinvD(8) [OF inv s(1)] s(2) ti by (simp_all add: slot_ok_def)
  define x' where "x' = (case ans of Inr v \<Rightarrow> (slots c ! s)\<lparr>s_result := Some v\<rparr> | Inl e \<Rightarrow> (slots c ! s)\<lparr>s_error := Some e\<rparr>)"
  have p: "owns p = Some s" "pc_key p = k" "\<not> is_leading p" "before_event p"
    and c: "inflight c' = inflight c" "slots c' = (slots c)[s := x']"
    using st by (auto simp: upd_slot_def x'_def split: sum.splits)
  have "slot_outcome x' = outcome_of ans" "\<not> event x'"
    using x by (auto simp: x'_def slot_outcome_def split: sum.splits)
  then have "slot_ok ((i, Leading k s, ans, p) # tr) p (keys ! i) s i x'"
    using p s(3) by (auto simp: slot_ok_def answered_def)
  then show ?thesis using cinv_owner_step [OF inv i _ p(1) _ c] x(1) ti p(2) by simp
qed

lemma cinv_attach:
  assumes inv: "cinv keys tr own ts c" and i: "i < length ts" and ti: "ts ! i = Calling k" and st: "attach k c = (p, c')"
  shows "\<exists>own'. cinv keys ((i, Calling k, ans, p) # tr) own' (ts[i := p]) c'"
proof (cases "dict_get (inflight c) k")
  case None
  then have "p = Leading k (length (slots c))" "inflight c' = dict_set k (length (slots c)) (inflight c)"
    "slots c' = slots c @ [\<lparr>event = False, s_result = None, s_error = None, waiters = 1\<rparr>]"
    using st by (auto simp: attach_def)
  then show ?thesis using cinv_lead [OF inv i ti None] by blast
next
  case (Some s)
  have s: "s < length own" "keys ! (own ! s) = k" "own ! s < length keys"
    using cinvD(5) [OF inv Some] cinvD(3) [OF inv] nth_mem by blast+
  have p: "p = Waiting k s" "inflight c' = inflight c"
    "slots c' = (slots c)[s := (slots c ! s)\<lparr>waiters := waiters (slots c ! s) + 1\<rparr>]"
    using st Some by (auto simp: attach_def upd_slot_def)
  have "served_by keys ((i, Calling k, ans, p) # tr) s (own ! s) i"
    using s p ti cinv_key [OF inv i] by (auto simp: served_by_def)
  moreover have "slot_same (slots c ! s') (slots c' ! s')" if "s' < length (slots c)" for s'
    using that p(3) by (cases "s' = s") (simp_all add: slot_same_def)
  ultimately have "cinv keys ((i, Calling k, ans, p) # tr) own (ts[i := p]) c'"
    using s(1) ti p by (intro cinv_bystander_step [OF inv i]) auto
  then show ?thesis by blast
qed

lemma cinv_read:
  assumes inv: "cinv keys tr own ts c" and i: "i < length ts" and ti: "ts ! i = Reading k s"
  shows "cinv keys (l # tr) own (ts[i := Finished k (slot_outcome (slots c ! s))]) c"
proof (rule cinv_bystander_step [OF inv i])
  have s: "s < length own" "served_by keys tr s (own ! s) i" "event (slots c ! s)" "keys ! i = k"
    using cinvD(6,7) [OF inv i, of s] ti cinv_key [OF inv i] by simp_all
  have "answered tr k s (own ! s) (slot_outcome (slots c ! s))"
    using cinvD(8) [OF inv s(1)] s unfolding slot_ok_def served_by_def
    by (cases "ts ! (own ! s)") (auto split: if_splits)
  then show "\<exists>j s. served_by keys (l # tr) s j i \<and> answered (l # tr) k' s j out"
    if "Finished k (slot_outcome (slots c ! s)) = Finished k' out" for k' out
    using that s(2) by (metis pc.inject(9) served_by_mono answered_mono)
qed (use ti in simp_all)

lemma slot_outcome_event [simp]: "slot_outcome (x\<lparr>event := b\<rparr>) = slot_outcome x"
  by (simp add: slot_outcome_def split: option.splits)

lemma cinv_advance:
  assumes inv: "cinv keys tr own ts c" and i: "i < length ts" and ow: "owns (ts ! i) = Some s" "owns p = Some s"
    and nl: "\<not> is_leading (ts ! i)" "\<not> is_leading p" and k: "pc_key p = pc_key (ts ! i)"
    and c: "inflight c' = inflight c" "slots c' = (slots c)[s := (slots c ! s)\<lparr>event := \<not> before_event p\<rparr>]"
    and ev: "event (slots c ! s) \<Longrightarrow> \<not> before_event p"
  shows "cinv keys (l # tr) own (ts[i := p]) c'"
proof (rule cinv_owner_step [OF inv i ow k c])
  have s: "s < length own" "own ! s = i" using cinvD(4) [OF inv i ow(1)] by simp_all
  have "answered (l # tr) (keys ! i) s i (slot_outcome (slots c ! s))"
    using cinvD(8) [OF inv s(1)] s(2) nl(1) by (simp add: slot_ok_def answered_mono)
  then show "slot_ok (l # tr) p (keys ! i) s i ((slots c ! s)\<lparr>event := \<not> before_event p\<rparr>)"
    using ow(2) nl(2) by (simp add: slot_ok_def)
qed (use ev in simp)

lemma cinv_event:
  assumes "cinv keys tr own ts c" "i < length ts" "owns (ts ! i) = Some s" "before_event (ts ! i)"
  shows "(slots c)[s := (slots c ! s)\<lparr>event := False\<rparr>] = slots c" "\<not> event (slots c ! s)"
proof -
  have "s < length own" "own ! s = i" using cinvD(4) [OF assms(1-3)] by simp_all
  then show e: "\<not> event (slots c ! s)" using cinvD(8) [OF assms(1), of s] assms(3,4) by (simp add: slot_ok_def)
  then have "(slots c ! s)\<lparr>event := False\<rparr> = slots c ! s" by (cases "slots c ! s") simp
  then show "(slots c)[s := (slots c ! s)\<lparr>event := False\<rparr>] = slots c" by simp
qed

lemma runs_cinv: "runs safe keys tr ts c \<Longrightarrow> \<exists>own. cinv keys tr own ts c"
proof (induction rule: runs.induct)
  case runs_init
  then show ?case using cinv_init by blast
next
  case (runs_step tr ts c i ans p c')
  obtain own where inv: "cinv keys tr own ts c" using runs_step.IH by blast
  note i = runs_step.hyps(2) and st = runs_step.hyps(3)
  note D = cinvD [OF inv]
  show ?case
  proof (cases "ts ! i")
    case (Calling k)
    show ?thesis
    proof (cases safe)
      case True
      then show ?thesis using cinv_attach [OF inv i Calling, of p c' ans] st Calling by simp
    next
      case False
      then have "p = Finished k NotDeclaredSafe" "c' = c" using st Calling by simp_all
      then show ?thesis using cinv_bystander_step [OF inv i, of p c "(i, ts ! i, ans, p)"] Calling by auto
    qed
  next
    case (Leading k s)
    then show ?thesis using cinv_complete [OF inv i Leading, of safe ans p c'] st by auto
  next
    case (ErrorRead k s)
    then show ?thesis using st cinv_event [OF inv i, of s]
      cinv_advance [OF inv i, of s p c' "(i, ts ! i, ans, p)"] by auto
  next
    case (ErrorWrite k s n)
    then show ?thesis using st cinv_event [OF inv i, of s]
      cinv_advance [OF inv i, of s p c' "(i, ts ! i, ans, p)"] by auto
  next
    case (Signalling k s)
    then show ?thesis using st
      cinv_advance [OF inv i, of s p c' "(i, ts ! i, ans, p)"] by (auto simp: upd_slot_def)
  next
    case (Releasing k s)
    then show ?thesis using cinv_release [OF inv i Releasing, of c' "(i, ts ! i, ans, p)"] st by auto
  next
    case (Waiting k s)
    then have p: "p = Reading k s" "c' = c" "event (slots c ! s)" using st by (auto split: if_splits)
    then show ?thesis using cinv_bystander_step [OF inv i, of p c "(i, ts ! i, ans, p)"] D(6) [OF i, of s] Waiting
      by (auto intro: served_by_mono)
  next
    case (Reading k s)
    then show ?thesis using cinv_read [OF inv i Reading, of "(i, ts ! i, ans, p)"] st by auto
  next
    case (Finished k out)
    then show ?thesis using st by simp
  qed
qed

section \<open>Schedules\<close>

text \<open>A schedule names the caller of each step and what the upstream call does if it is its completion.\<close>

fun play ::
  "bool \<Rightarrow> (nat \<times> ('e + 'v)) list \<Rightarrow> ('k, 'v, 'e) label list \<times> ('k, 'v, 'e) pc list \<times> ('k, 'v, 'e) coalescer \<Rightarrow>
   (('k, 'v, 'e) label list \<times> ('k, 'v, 'e) pc list \<times> ('k, 'v, 'e) coalescer) option" where
  "play safe [] st = Some st"
| "play safe ((i, ans) # sch) (tr, ts, c) =
     (if i < length ts then
        (case thread_step safe ans (ts ! i) c of
           None \<Rightarrow> None
         | Some (p, c') \<Rightarrow> play safe sch ((i, ts ! i, ans, p) # tr, ts[i := p], c'))
      else None)"

lemma play_runs:
  "runs safe keys tr ts c \<Longrightarrow> play safe sch (tr, ts, c) = Some (tr', ts', c') \<Longrightarrow> runs safe keys tr' ts' c'"
proof (induction sch arbitrary: tr ts c)
  case (Cons a sch)
  obtain i ans where a: "a = (i, ans)" by (cases a)
  obtain p c1 where i: "i < length ts" "thread_step safe ans (ts ! i) c = Some (p, c1)"
    and pl: "play safe sch ((i, ts ! i, ans, p) # tr, ts[i := p], c1) = Some (tr', ts', c')"
    using Cons.prems(2) a by (auto split: if_splits option.splits)
  show ?case by (rule Cons.IH [OF runs_step [OF Cons.prems(1) i] pl])
qed simp

lemmas play_runs_init = play_runs [OF runs_init]

text \<open>
  Two leaders fail at the same time: both read the error counter before either writes it, and
  one of the two errors is not counted.
\<close>

definition racing_errors :: "(nat \<times> (string + nat)) list" where
  "racing_errors = map (\<lambda>i. (i, Inl ''boom'')) [0, 1, 0, 1, 0, 1, 0, 1, 0, 0, 0, 1, 1, 1]"

lemma error_counter_loses_update:
  "\<exists>tr ts c. runs True [0 :: nat, 1] tr ts (c :: (nat, nat, string) coalescer) \<and> ts = [Finished 0 (Raised ''boom''), Finished 1 (Raised ''boom'')] \<and> errors c = 1"
proof -
  obtain tr ts c where p: "play True racing_errors ([], map Calling [0, 1], new_coalescer) = Some (tr, ts, c :: (nat, nat, string) coalescer)"
    "ts = [Finished 0 (Raised ''boom''), Finished 1 (Raised ''boom'')]" "errors c = 1"
    by (simp add: racing_errors_def new_coalescer_def attach_def upd_slot_def slot_outcome_def)
  then show ?thesis using play_runs_init [OF p(1)] by blast
qed

text \<open>
  A caller that arrives between \<open>event.set()\<close> and the removal of the slot attaches to a call
  that has already completed: caller 1 joins after the upstream call of caller 0 returned 7.
\<close>

definition late_join :: "(nat \<times> (string + nat)) list" where
  "late_join = map (\<lambda>i. (i, Inr 7)) [0, 0, 0, 1, 1, 1]"

lemma attaches_to_completed_call:
  "\<exists>tr c. runs True [5 :: nat, 5] tr [Releasing 5 0, Finished 5 (Returned (Some 7))] (c :: (nat, nat, string) coalescer) \<and>
     tr ! 2 = (1, Calling 5, Inr 7, Waiting 5 0) \<and> tr ! 4 = (0, Leading 5 0, Inr 7, Signalling 5 0)"
proof -
  obtain tr c where p: "play True late_join ([], map Calling [5, 5], new_coalescer) =
      Some (tr, [Releasing 5 0, Finished 5 (Returned (Some 7))], c :: (nat, nat, string) coalescer)"
    "tr ! 2 = (1, Calling 5, Inr 7, Waiting 5 0)" "tr ! 4 = (0, Leading 5 0, Inr 7, Signalling 5 0)"
    by (simp add: late_join_def new_coalescer_def attach_def upd_slot_def slot_outcome_def)
  then show ?thesis using play_runs_init [OF p(1)] by blast
qed

section \<open>What the callers get\<close>

lemma runs_unsafe:
  "runs safe keys tr ts c \<Longrightarrow> \<not> safe \<Longrightarrow> c = new_coalescer \<and> (\<forall>p \<in> set ts. \<exists>k. p = Calling k \<or> p = Finished k NotDeclaredSafe)"
proof (induction rule: runs.induct)
  case (runs_step tr ts c i ans p c')
  then obtain k where "ts ! i = Calling k \<or> ts ! i = Finished k NotDeclaredSafe" using nth_mem by blast
  then have "p = Finished k NotDeclaredSafe" "c' = c" using runs_step.hyps(3) runs_step.prems by auto
  then show ?case using runs_step.IH runs_step.prems set_update_subset_insert [of ts i p] by blast
qed auto

lemma runs_safe: "runs safe keys tr ts c \<Longrightarrow> safe \<Longrightarrow> Finished k NotDeclaredSafe \<notin> set ts"
proof (induction rule: runs.induct)
  case (runs_step tr ts c i ans p c')
  have "p \<noteq> Finished k NotDeclaredSafe"
    using runs_step.hyps(3) runs_step.prems
    by (cases "ts ! i") (auto simp: attach_def slot_outcome_def split: option.splits sum.splits if_splits)
  then show ?case using runs_step.IH runs_step.prems set_update_subset_insert [of ts i p] by blast
qed auto

text \<open>
  C3.  Under every interleaving of the callers, and whatever the upstream calls do: a caller
  that finishes got the outcome, result or exception, of an upstream call that completed for
  its own key, made by itself or by the leader of the slot it attached to; at no moment are two
  upstream calls in flight for one key; and without the explicit safety declaration every
  caller gets the misuse error and nothing is called.
\<close>

theorem coalescer_serves_callers:
  assumes "runs safe keys tr ts c"
  shows "(\<forall>i k out. i < length ts \<and> ts ! i = Finished k out \<longrightarrow> k = keys ! i \<and>
            (if safe then \<exists>j s ans p. j < length keys \<and> keys ! j = k \<and> (j, Leading k s, ans, p) \<in> set tr \<and> out = outcome_of ans \<and>
               (j = i \<or> (\<exists>a. (i, Calling k, a, Waiting k s) \<in> set tr))
             else out = NotDeclaredSafe)) \<and>
         (\<forall>i j. i < length ts \<and> j < length ts \<and> owns (ts ! i) \<noteq> None \<and> owns (ts ! j) \<noteq> None \<and>
            pc_key (ts ! i) = pc_key (ts ! j) \<longrightarrow> i = j)"
proof (intro conjI allI impI)
  obtain own where inv: "cinv keys tr own ts c" using runs_cinv [OF assms] by blast
  fix i k out assume a: "i < length ts \<and> ts ! i = Finished k out"
  show k: "k = keys ! i" using cinv_key [OF inv, of i] a by simp
  have m: "Finished k out \<in> set ts" using a nth_mem by metis
  show "if safe then \<exists>j s ans p. j < length keys \<and> keys ! j = k \<and> (j, Leading k s, ans, p) \<in> set tr \<and> out = outcome_of ans \<and>
               (j = i \<or> (\<exists>a. (i, Calling k, a, Waiting k s) \<in> set tr))
             else out = NotDeclaredSafe"
  proof (cases safe)
    case True
    then have "out \<noteq> NotDeclaredSafe" using runs_safe [OF assms] m by blast
    then obtain j s where "served_by keys tr s j i" "answered tr k s j out" using cinvD(9) [OF inv, of i k out] a by blast
    then show ?thesis using k True unfolding served_by_def answered_def by (auto; blast)
  next
    case False
    then show ?thesis using runs_unsafe [OF assms False] m by auto
  qed
next
  obtain own where inv: "cinv keys tr own ts c" using runs_cinv [OF assms] by blast
  fix i j assume a: "i < length ts \<and> j < length ts \<and> owns (ts ! i) \<noteq> None \<and> owns (ts ! j) \<noteq> None \<and> pc_key (ts ! i) = pc_key (ts ! j)"
  then obtain s s' where "owns (ts ! i) = Some s" "owns (ts ! j) = Some s'" by blast
  then show "i = j" using cinvD(4) [OF inv, of i s] cinvD(4) [OF inv, of j s'] a cinv_key [OF inv, of i] cinv_key [OF inv, of j] by auto
qed

theorem coalescer_serves_callers_witness:
  "\<exists>tr ts c. runs True [5 :: nat, 5] tr ts (c :: (nat, nat, string) coalescer) \<and> ts ! 1 = Finished 5 (Returned (Some 7)) \<and>
     (\<exists>j s ans p. (j, Leading 5 s, ans, p) \<in> set tr \<and> Returned (Some 7) = outcome_of ans)"
proof -
  obtain tr c where r: "runs True [5 :: nat, 5] tr [Releasing 5 0, Finished 5 (Returned (Some 7))] (c :: (nat, nat, string) coalescer)"
    using attaches_to_completed_call by blast
  from coalescer_serves_callers [OF r, THEN conjunct1, rule_format, of 1 5 "Returned (Some 7)"] have
    "\<exists>j s ans p. (j, Leading 5 s, ans, p) \<in> set tr \<and> Returned (Some 7) = outcome_of ans" by fastforce
  then show ?thesis using r by fastforce
qed

section \<open>No caller is left waiting\<close>

fun rank :: "('k, 'v, 'e) pc \<Rightarrow> nat" where
  "rank (Calling _) = 7" | "rank (Leading _ _) = 6" | "rank (ErrorRead _ _) = 5" | "rank (ErrorWrite _ _ _) = 4"
| "rank (Signalling _ _) = 3" | "rank (Releasing _ _) = 2" | "rank (Waiting _ _) = 2" | "rank (Reading _ _) = 1" | "rank (Finished _ _) = 0"

lemma thread_step_rank: "thread_step safe ans p c = Some (p', c') \<Longrightarrow> rank p' < rank p"
  by (cases p) (auto simp: attach_def split: option.splits sum.splits if_splits)

lemma runs_bounded: "runs safe keys tr ts c \<Longrightarrow> length tr + sum_list (map rank ts) \<le> 7 * length keys"
proof (induction rule: runs.induct)
  case (runs_step tr ts c i ans p c')
  have "sum_list (map rank (ts[i := p])) + rank (ts ! i) = sum_list (map rank ts) + rank p"
    using sum_list_update [of i "map rank ts" "rank p"] elem_le_sum_list [of i "map rank ts"] runs_step.hyps(2) by (simp add: map_update)
  then show ?case using runs_step.IH thread_step_rank [OF runs_step.hyps(3)] by simp
qed (simp add: comp_def sum_list_triv)

text \<open>
  C26.  There is no deadlock and no lost wake-up: while some caller has not finished, some caller
  can take a step (when the upstream calls in progress return), and every run has at most seven
  steps per caller, so every maximal run ends with all callers finished.
\<close>

theorem coalescer_never_stuck:
  assumes "runs safe keys tr ts c"
  shows "length tr \<le> 7 * length keys \<and>
         (list_all is_finished ts \<or> (\<exists>i < length ts. \<forall>ans. thread_step safe ans (ts ! i) c \<noteq> None))"
proof (intro conjI)
  show "length tr \<le> 7 * length keys" using runs_bounded [OF assms] by simp
  obtain own where inv: "cinv keys tr own ts c" using runs_cinv [OF assms] by blast
  have run: "thread_step safe ans p c \<noteq> None" if "\<not> is_finished p" "\<And>k s. p \<noteq> Waiting k s" for p ans
    using that by (cases p) (auto split: sum.splits)
  show "list_all is_finished ts \<or> (\<exists>i < length ts. \<forall>ans. thread_step safe ans (ts ! i) c \<noteq> None)"
  proof (cases "list_all is_finished ts")
    case False
    then obtain i where i: "i < length ts" "\<not> is_finished (ts ! i)" by (auto simp: list_all_length)
    show ?thesis
    proof (cases "\<exists>k s. ts ! i = Waiting k s \<and> \<not> event (slots c ! s)")
      case True
      then obtain k s where w: "ts ! i = Waiting k s" "\<not> event (slots c ! s)" by blast
      then have s: "s < length own" "served_by keys tr s (own ! s) i" using cinvD(6) [OF inv i(1), of s] by simp_all
      then have "own ! s < length ts" "before_event (ts ! (own ! s))"
        using cinvD(8) [OF inv s(1)] w(2) cinv_length [OF inv] by (simp_all add: slot_ok_def served_by_def)
      moreover from this(2) have "thread_step safe ans (ts ! (own ! s)) c \<noteq> None" for ans
        by (intro run) (cases "ts ! (own ! s)"; simp)+
      ultimately show ?thesis by blast
    next
      case nw: False
      have "thread_step safe ans (ts ! i) c \<noteq> None" for ans
        using run [OF i(2)] nw by (cases "ts ! i") auto
      then show ?thesis using i(1) by blast
    qed
  qed simp
qed

theorem coalescer_never_stuck_witness:
  "\<exists>tr ts c. runs True [5 :: nat, 5] tr ts (c :: (nat, nat, string) coalescer) \<and>
     (\<exists>i < length ts. \<forall>ans. thread_step True ans (ts ! i) c \<noteq> None)"
proof -
  obtain tr c where r: "runs True [5 :: nat, 5] tr [Releasing 5 0, Finished 5 (Returned (Some 7))] (c :: (nat, nat, string) coalescer)"
    using attaches_to_completed_call by blast
  from coalescer_never_stuck [OF r] have
    "\<exists>i < length [Releasing 5 0, Finished 5 (Returned (Some 7)) :: (nat, nat, string) pc].
       \<forall>ans. thread_step True ans ([Releasing 5 0, Finished 5 (Returned (Some 7))] ! i) c \<noteq> None" by simp
  then show ?thesis using r by blast
qed

end
