(* ===== verification/Dedupe_Window.thy ===== *)
theory Dedupe_Window
  imports Prelude
begin

text \<open>
  The sliding-window request deduplicator (\<open>request-dedupe-window/template.py\<close>).  The clock
  reading and the result of \<open>key_fn\<close> (\<open>None\<close> when it is no string) are arguments of the
  operations; the clock is \<open>time.monotonic\<close>, so readings do not decrease.
\<close>

section \<open>The window\<close>

record dw_entry =
  first_seen_at :: rat
  suppressed_count :: int

record dedupe_window =
  window_seconds :: rat
  dw_entries :: "(string, dw_entry) dict"

datatype dw_verdict = Forward | Suppress

record dedupe_decision =
  verdict :: dw_verdict
  d_key :: string
  d_first_seen_at :: rat
  age_s :: rat
  d_suppressed_count :: int

datatype dw_error = WindowNotPositive | BadKey

definition new_dedupe_window :: "rat \<Rightarrow> dw_error + dedupe_window" where
  "new_dedupe_window w = (if w \<le> 0 then Inl WindowNotPositive else Inr \<lparr>window_seconds = w, dw_entries = []\<rparr>)"

definition dw_submit ::
  "dedupe_window \<Rightarrow> string option \<Rightarrow> rat \<Rightarrow> (dw_error, dedupe_decision, dedupe_window) outcome" where
  "dw_submit s key now =
     (case key of
        None \<Rightarrow> (Inl BadKey, s)
      | Some k \<Rightarrow>
          if k = [] then (Inl BadKey, s)
          else
            let fresh = (Inr \<lparr>verdict = Forward, d_key = k, d_first_seen_at = now, age_s = 0, d_suppressed_count = 0\<rparr>,
                         s\<lparr>dw_entries := dict_set k \<lparr>first_seen_at = now, suppressed_count = 0\<rparr> (dw_entries s)\<rparr>) in
            case dict_get (dw_entries s) k of
              None \<Rightarrow> fresh
            | Some e \<Rightarrow>
                if now - first_seen_at e \<ge> window_seconds s then fresh
                else
                  let e' = e\<lparr>suppressed_count := suppressed_count e + 1\<rparr> in
                  (Inr \<lparr>verdict = Suppress, d_key = k, d_first_seen_at = first_seen_at e,
                        age_s = now - first_seen_at e, d_suppressed_count = suppressed_count e'\<rparr>,
                   s\<lparr>dw_entries := dict_set k e' (dw_entries s)\<rparr>))"

definition dw_stale :: "dedupe_window \<Rightarrow> rat \<Rightarrow> string list" where
  "dw_stale s now = map fst (filter (\<lambda>(k, e). now - first_seen_at e \<ge> window_seconds s) (dw_entries s))"

definition dw_sweep :: "dedupe_window \<Rightarrow> rat \<Rightarrow> nat \<times> dedupe_window" where
  "dw_sweep s now = (length (dw_stale s now), s\<lparr>dw_entries := fold dict_del (dw_stale s now) (dw_entries s)\<rparr>)"

definition active_keys :: "dedupe_window \<Rightarrow> nat" where
  "active_keys s = length (dw_entries s)"

record dw_stats =
  active_keys_live :: nat
  active_keys_total :: nat
  total_suppressed :: int
  st_window_seconds :: rat

definition dw_stats_of :: "dedupe_window \<Rightarrow> rat \<Rightarrow> dw_stats" where
  "dw_stats_of s now =
     \<lparr>active_keys_live = length (filter (\<lambda>(k, e). now - first_seen_at e < window_seconds s) (dw_entries s)),
      active_keys_total = length (dw_entries s),
      total_suppressed = sum_list (map (\<lambda>(k, e). suppressed_count e) (dw_entries s)),
      st_window_seconds = window_seconds s\<rparr>"

section \<open>The specification: decisions from the whole history\<close>

datatype dw_op = Submit "string option" rat | Sweep rat

fun dw_op_time :: "dw_op \<Rightarrow> rat" where
  "dw_op_time (Submit _ t) = t"
| "dw_op_time (Sweep t) = t"

datatype dw_reply = Decided dedupe_decision | Swept nat

fun dw_apply :: "dedupe_window \<Rightarrow> dw_op \<Rightarrow> (dw_error, dw_reply, dedupe_window) outcome" where
  "dw_apply s (Submit k t) = (let (r, s') = dw_submit s k t in (map_sum id Decided r, s'))"
| "dw_apply s (Sweep t) = (let (n, s') = dw_sweep s t in (Inr (Swept n), s'))"

text \<open>
  The history of a key: the submissions with their verdicts, latest first.  The last forwarded
  one decides; nothing is ever forgotten.
\<close>

type_synonym history = "(string \<times> rat \<times> dw_verdict) list"

definition key_history :: "string \<Rightarrow> history \<Rightarrow> history" where
  "key_history k h = filter (\<lambda>(k', t, v). k' = k) h"

definition since_forward :: "string \<Rightarrow> history \<Rightarrow> nat" where
  "since_forward k h = length (takeWhile (\<lambda>(k', t, v). v = Suppress) (key_history k h))"

definition last_forward :: "string \<Rightarrow> history \<Rightarrow> rat option" where
  "last_forward k h = (case dropWhile (\<lambda>(k', t, v). v = Suppress) (key_history k h) of [] \<Rightarrow> None | (_, t, _) # _ \<Rightarrow> Some t)"

definition spec_decision :: "rat \<Rightarrow> history \<Rightarrow> string \<Rightarrow> rat \<Rightarrow> dedupe_decision" where
  "spec_decision w h k t =
     (case last_forward k h of
        Some f \<Rightarrow>
          if t < f + w then
            \<lparr>verdict = Suppress, d_key = k, d_first_seen_at = f, age_s = t - f, d_suppressed_count = int (since_forward k h) + 1\<rparr>
          else \<lparr>verdict = Forward, d_key = k, d_first_seen_at = t, age_s = 0, d_suppressed_count = 0\<rparr>
      | None \<Rightarrow> \<lparr>verdict = Forward, d_key = k, d_first_seen_at = t, age_s = 0, d_suppressed_count = 0\<rparr>)"

fun spec_decisions :: "rat \<Rightarrow> history \<Rightarrow> dw_op list \<Rightarrow> dedupe_decision list" where
  "spec_decisions w h [] = []"
| "spec_decisions w h (Submit (Some k) t # ops) =
     (if k = [] then spec_decisions w h ops
      else spec_decision w h k t # spec_decisions w ((k, t, verdict (spec_decision w h k t)) # h) ops)"
| "spec_decisions w h (Submit None t # ops) = spec_decisions w h ops"
| "spec_decisions w h (Sweep t # ops) = spec_decisions w h ops"

fun decisions :: "(dw_error + dw_reply) list \<Rightarrow> dedupe_decision list" where
  "decisions [] = []"
| "decisions (Inr (Decided d) # rs) = d # decisions rs"
| "decisions (_ # rs) = decisions rs"

section \<open>Refinement\<close>

lemma key_history_Cons [simp]:
  "key_history k ((k', t, v) # h) = (if k' = k then (k', t, v) # key_history k h else key_history k h)"
  by (simp add: key_history_def)

lemma history_simps [simp]:
  "last_forward k [] = None" "since_forward k [] = 0"
  "last_forward k ((k', t, v) # h) = (if k' = k \<and> v = Forward then Some t else last_forward k h)"
  "since_forward k ((k', t, v) # h) = (if k' = k then if v = Forward then 0 else Suc (since_forward k h) else since_forward k h)"
  by (cases v; simp add: last_forward_def since_forward_def key_history_def)+

text \<open>
  The relation between the entries and the history at time \<open>now\<close>: an entry is the last
  forwarded submission of its key with the number of submissions suppressed since; a key
  without entry was last forwarded at least a window ago, or never.
\<close>

definition dw_rel :: "rat \<Rightarrow> history \<Rightarrow> rat \<Rightarrow> dedupe_window \<Rightarrow> bool" where
  "dw_rel w h now s \<longleftrightarrow>
     window_seconds s = w \<and> dict_wf (dw_entries s) \<and>
     (\<forall>k e. dict_get (dw_entries s) k = Some e \<longrightarrow>
        last_forward k h = Some (first_seen_at e) \<and> suppressed_count e = int (since_forward k h)) \<and>
     (\<forall>k f. dict_get (dw_entries s) k = None \<and> last_forward k h = Some f \<longrightarrow> f + w \<le> now)"

lemma dw_rel_later: "dw_rel w h now s \<Longrightarrow> now \<le> t \<Longrightarrow> dw_rel w h t s"
  unfolding dw_rel_def by fastforce

lemma dw_submit_refines:
  assumes "dw_rel w h now s" "now \<le> t" "k \<noteq> []"
  shows "fst (dw_submit s (Some k) t) = Inr (spec_decision w h k t) \<and>
         dw_rel w ((k, t, verdict (spec_decision w h k t)) # h) t (snd (dw_submit s (Some k) t))"
proof -
  have r: "dw_rel w h t s" using dw_rel_later assms(1,2) .
  then have k: "\<And>e. dict_get (dw_entries s) k = Some e \<Longrightarrow> last_forward k h = Some (first_seen_at e) \<and> suppressed_count e = int (since_forward k h)"
      "\<And>f. dict_get (dw_entries s) k = None \<Longrightarrow> last_forward k h = Some f \<Longrightarrow> f + w \<le> t"
    and w: "window_seconds s = w"
    by (auto simp: dw_rel_def)
  show ?thesis
  proof (cases "dict_get (dw_entries s) k")
    case None
    then have "spec_decision w h k t = \<lparr>verdict = Forward, d_key = k, d_first_seen_at = t, age_s = 0, d_suppressed_count = 0\<rparr>"
      using k(2) by (auto simp: spec_decision_def split: option.splits)
    then show ?thesis using None r assms(3) by (auto simp: dw_submit_def dw_rel_def)
  next
    case (Some e)
    then have e: "last_forward k h = Some (first_seen_at e)" "suppressed_count e = int (since_forward k h)" using k(1) by simp_all
    show ?thesis
    proof (cases "t - first_seen_at e \<ge> w")
      case True
      then have "spec_decision w h k t = \<lparr>verdict = Forward, d_key = k, d_first_seen_at = t, age_s = 0, d_suppressed_count = 0\<rparr>"
        using e by (auto simp: spec_decision_def)
      then show ?thesis using Some True r w assms(3) by (auto simp: dw_submit_def dw_rel_def)
    next
      case False
      then have "spec_decision w h k t = \<lparr>verdict = Suppress, d_key = k, d_first_seen_at = first_seen_at e, age_s = t - first_seen_at e,
          d_suppressed_count = int (since_forward k h) + 1\<rparr>"
        using e by (auto simp: spec_decision_def)
      then show ?thesis using Some False r w e assms(3) by (auto simp: dw_submit_def dw_rel_def Let_def)
    qed
  qed
qed

lemma dict_get_filter_keys: "dict_get (filter (\<lambda>(k, e). k \<notin> A) d) k = (if k \<in> A then None else dict_get d k)"
  by (induction d) auto

lemma dw_stale_iff:
  "dict_wf (dw_entries s) \<Longrightarrow>
   k \<in> set (dw_stale s t) \<longleftrightarrow> (\<exists>e. dict_get (dw_entries s) k = Some e \<and> t - first_seen_at e \<ge> window_seconds s)"
  by (force simp: dw_stale_def dict_wf_def)

lemma dw_sweep_entries:
  "dict_get (dw_entries (snd (dw_sweep s t))) k = (if k \<in> set (dw_stale s t) then None else dict_get (dw_entries s) k)"
  by (simp add: dw_sweep_def fold_dict_del dict_get_filter_keys)

lemma dw_sweep_refines:
  assumes "dw_rel w h now s" "now \<le> t"
  shows "dw_rel w h t (snd (dw_sweep s t))"
proof -
  have r: "dw_rel w h t s" using dw_rel_later assms .
  then have wf: "dict_wf (dw_entries s)" and w: "window_seconds s = w"
    and e: "\<And>k e. dict_get (dw_entries s) k = Some e \<Longrightarrow> last_forward k h = Some (first_seen_at e) \<and> suppressed_count e = int (since_forward k h)"
    and n: "\<And>k f. dict_get (dw_entries s) k = None \<Longrightarrow> last_forward k h = Some f \<Longrightarrow> f + w \<le> t"
    by (auto simp: dw_rel_def)
  let ?d = "dw_entries (snd (dw_sweep s t))"
  have "dict_wf ?d" "window_seconds (snd (dw_sweep s t)) = w"
    using wf w by (simp_all add: dw_sweep_def fold_dict_del dict_wf_filter)
  moreover have "last_forward k h = Some (first_seen_at x) \<and> suppressed_count x = int (since_forward k h)" if "dict_get ?d k = Some x" for k x
    using that e by (simp add: dw_sweep_entries split: if_splits)
  moreover have "f + w \<le> t" if none: "dict_get ?d k = None" and f: "last_forward k h = Some f" for k f
  proof (cases "k \<in> set (dw_stale s t)")
    case True
    then obtain x where "dict_get (dw_entries s) k = Some x" "t - first_seen_at x \<ge> window_seconds s"
      using dw_stale_iff [OF wf] by blast
    then show ?thesis using e f w by auto
  next
    case False
    then show ?thesis using none f n by (simp add: dw_sweep_entries)
  qed
  ultimately show ?thesis unfolding dw_rel_def by blast
qed

lemma run_refines:
  assumes "dw_rel w h now s" "sorted (now # map dw_op_time ops)"
  shows "decisions (fst (run dw_apply s ops)) = spec_decisions w h ops"
  using assms
proof (induction w h ops arbitrary: now s rule: spec_decisions.induct)
  case (2 w h k t ops)
  then have t: "now \<le> t" "sorted (t # map dw_op_time ops)" by simp_all
  show ?case
  proof (cases "k = []")
    case True
    have "sorted (now # map dw_op_time ops)" using t by auto
    then show ?thesis using 2 True by (simp add: dw_submit_def case_prod_beta)
  next
    case False
    note f = dw_submit_refines [OF "2.prems"(1) t(1) False]
    show ?thesis using "2.IH"(2) [OF False _ t(2)] f False by (simp add: case_prod_beta)
  qed
next
  case (3 w h t ops)
  have "sorted (now # map dw_op_time ops)" using "3.prems"(2) by auto
  then show ?case using 3 by (simp add: dw_submit_def case_prod_beta)
next
  case (4 w h t ops)
  have "decisions (fst (run dw_apply (snd (dw_sweep s t)) ops)) = spec_decisions w h ops"
    using dw_sweep_refines [OF "4.prems"(1), of t] "4.prems"(2) by (intro "4.IH") auto
  then show ?case by (simp add: case_prod_beta)
qed simp

text \<open>
  Over any session of submissions and sweeps with a non-decreasing clock, every decision
  is the one computed from the whole submission history: a request is forwarded exactly when
  its key was never forwarded or was last forwarded at least a window ago; a suppressed request
  names the forwarded one, its age, and the exact number of suppressions since.  Expiry and
  sweeping only save memory, they never change a decision.
\<close>

theorem dedupe_window_exact:
  assumes "new_dedupe_window w = Inr s" "sorted (map dw_op_time ops)"
  shows "decisions (fst (run dw_apply s ops)) = spec_decisions w [] ops"
proof (cases ops)
  case (Cons op ops')
  have "dw_rel w [] (dw_op_time op) s"
    using assms(1) by (auto simp: dw_rel_def new_dedupe_window_def split: if_splits)
  then show ?thesis using run_refines [of w "[]" "dw_op_time op" s ops] assms(2) Cons by simp
qed simp

theorem dedupe_window_exact_witness:
  "\<exists>s. new_dedupe_window 10 = Inr s \<and>
     map verdict (decisions (fst (run dw_apply s [Submit (Some ''k'') 0, Submit (Some ''k'') 9, Sweep 10, Submit (Some ''k'') 11])))
       = [Forward, Suppress, Forward]"
proof -
  have n: "new_dedupe_window 10 = Inr \<lparr>window_seconds = 10, dw_entries = []\<rparr>" by (simp add: new_dedupe_window_def)
  have "sorted (map dw_op_time [Submit (Some ''k'') 0, Submit (Some ''k'') 9, Sweep 10, Submit (Some ''k'') 11])" by simp
  from dedupe_window_exact [OF n this] show ?thesis using n by (simp add: spec_decision_def)
qed

end
