(* ===== verification/Trace_Context.thy ===== *)
theory Trace_Context
  imports Prelude
begin

unbundle bit_operations_syntax

text \<open>
  Trace contexts and their wire format (\<open>tool-call-trace-id-propagator/trace.py\<close>, first half):
  the header, its parser, and the allocation of root and child contexts.  The random generator
  is a parameter: \<open>getrandbits n r\<close> gives a number and the next generator state.
\<close>

section \<open>Hexadecimal numbers\<close>

definition hex_digits :: string where
  "hex_digits = ''0123456789abcdef''"

definition is_hex :: "char \<Rightarrow> bool" where
  "is_hex c \<longleftrightarrow> c \<in> set hex_digits"

fun hex_nat :: "nat \<Rightarrow> string" where
  "hex_nat n = (if n < 16 then [hex_digits ! n] else hex_nat (n div 16) @ [hex_digits ! (n mod 16)])"

declare hex_nat.simps [simp del]

definition zero_pad :: "nat \<Rightarrow> string \<Rightarrow> string" where
  "zero_pad w s = replicate (w - length s) CHR ''0'' @ s"

text \<open>\<open>f"{i:0wx}"\<close>: the sign counts for the width.\<close>

definition format_hex :: "nat \<Rightarrow> int \<Rightarrow> string" where
  "format_hex w i = (if i < 0 then CHR ''-'' # zero_pad (w - 1) (hex_nat (nat (- i))) else zero_pad w (hex_nat (nat i)))"

text \<open>\<open>int(s, 16)\<close> on a string of lower-case hexadecimal digits.\<close>

fun hex_digit_val :: "string \<Rightarrow> char \<Rightarrow> nat" where
  "hex_digit_val [] c = 0"
| "hex_digit_val (d # ds) c = (if d = c then 0 else Suc (hex_digit_val ds c))"

definition int_hex :: "string \<Rightarrow> int" where
  "int_hex s = foldl (\<lambda>n c. 16 * n + int (hex_digit_val hex_digits c)) 0 s"

section \<open>Contexts\<close>

definition ZERO_SPAN :: string where
  "ZERO_SPAN = replicate 16 CHR ''0''"

record trace_context =
  trace_id :: string
  span_id :: string
  parent_span_id :: string
  flags :: int

datatype context_error = NotAString | MalformedHeader | ZeroSpan | SelfParent

definition header :: "trace_context \<Rightarrow> string" where
  "header c = ''v=1;trace='' @ trace_id c @ '';span='' @ span_id c @ '';parent='' @ parent_span_id c
     @ '';flags='' @ format_hex 2 (flags c)"

definition sampled :: "trace_context \<Rightarrow> bool" where
  "sampled c \<longleftrightarrow> flags c AND 1 \<noteq> 0"

definition synthetic :: "trace_context \<Rightarrow> bool" where
  "synthetic c \<longleftrightarrow> flags c AND 2 \<noteq> 0"

text \<open>
  The regular expression: literal pieces and runs of \<open>n\<close> hexadecimal digits, from left to
  right.  Its \<open>$\<close> also matches before a final line feed.
\<close>

definition literal :: "string \<Rightarrow> string \<Rightarrow> string option" where
  "literal p s = (if prefix p s then Some (drop (length p) s) else None)"

definition hex_run :: "nat \<Rightarrow> string \<Rightarrow> (string \<times> string) option" where
  "hex_run n s = (if n \<le> length s \<and> list_all is_hex (take n s) then Some (take n s, drop n s) else None)"

definition field_re :: "string \<Rightarrow> nat \<Rightarrow> string \<Rightarrow> (string \<times> string) option" where
  "field_re p n s = Option.bind (literal p s) (hex_run n)"

definition header_re :: "string \<Rightarrow> (string \<times> string \<times> string \<times> string) option" where
  "header_re s =
     Option.bind (field_re ''v=1;trace='' 32 s) (\<lambda>(t, s1).
     Option.bind (field_re '';span='' 16 s1) (\<lambda>(sp, s2).
     Option.bind (field_re '';parent='' 16 s2) (\<lambda>(pa, s3).
     Option.bind (field_re '';flags='' 2 s3) (\<lambda>(fl, s4).
       if s4 = [] \<or> s4 = [CHR 0x0A] then Some (t, sp, pa, fl) else None))))"

fun parse :: "pyval \<Rightarrow> context_error + trace_context" where
  "parse (PStr s) =
     (case header_re s of
        None \<Rightarrow> Inl MalformedHeader
      | Some (t, sp, pa, fl) \<Rightarrow>
          if sp = ZERO_SPAN then Inl ZeroSpan
          else if sp = pa then Inl SelfParent
          else Inr \<lparr>trace_id = t, span_id = sp, parent_span_id = pa, flags = int_hex fl\<rparr>)"
| "parse _ = Inl NotAString"

definition rng_hex :: "(nat \<Rightarrow> 'r \<Rightarrow> nat \<times> 'r) \<Rightarrow> 'r \<Rightarrow> nat \<Rightarrow> string \<times> 'r" where
  "rng_hex getrandbits r nbits = (let (x, r') = getrandbits nbits r in (format_hex (nbits div 4) (int x), r'))"

definition new_root :: "(nat \<Rightarrow> 'r \<Rightarrow> nat \<times> 'r) \<Rightarrow> 'r \<Rightarrow> bool \<Rightarrow> trace_context \<times> 'r" where
  "new_root getrandbits r smp =
     (let (t, r1) = rng_hex getrandbits r 128; (s, r2) = rng_hex getrandbits r1 64 in
      (\<lparr>trace_id = t, span_id = s, parent_span_id = ZERO_SPAN, flags = (if smp then 1 else 0)\<rparr>, r2))"

definition child_context :: "(nat \<Rightarrow> 'r \<Rightarrow> nat \<times> 'r) \<Rightarrow> trace_context \<Rightarrow> 'r \<Rightarrow> bool \<Rightarrow> trace_context \<times> 'r" where
  "child_context getrandbits parent r synth =
     (let fl = flags parent AND 1; fl' = (if synth then fl OR 2 else fl);
          (s, r1) = rng_hex getrandbits r 64 in
      (\<lparr>trace_id = trace_id parent, span_id = s, parent_span_id = span_id parent, flags = fl'\<rparr>, r1))"

section \<open>The wire format\<close>

definition hex_text :: "nat \<Rightarrow> string \<Rightarrow> bool" where
  "hex_text n s \<longleftrightarrow> length s = n \<and> list_all is_hex s"

definition valid_context :: "trace_context \<Rightarrow> bool" where
  "valid_context c \<longleftrightarrow>
     hex_text 32 (trace_id c) \<and> hex_text 16 (span_id c) \<and> hex_text 16 (parent_span_id c) \<and>
     0 \<le> flags c \<and> flags c < 256 \<and> span_id c \<noteq> ZERO_SPAN \<and> span_id c \<noteq> parent_span_id c"

lemma hex_digit_val_nth:
  "distinct ds \<Longrightarrow> i < length ds \<Longrightarrow> hex_digit_val ds (ds ! i) = i"
  by (induction ds arbitrary: i) (auto simp: nth_Cons split: nat.splits)

lemma nth_hex_digit_val: "c \<in> set ds \<Longrightarrow> hex_digit_val ds c < length ds \<and> ds ! hex_digit_val ds c = c"
  by (induction ds) auto

lemma hex_digits_facts [simp]: "distinct hex_digits" "length hex_digits = 16"
  by (simp_all add: hex_digits_def)

lemma is_hex_nth [simp]: "i < 16 \<Longrightarrow> is_hex (hex_digits ! i)"
  by (simp add: is_hex_def)

lemma is_hex_zero [simp]: "is_hex CHR ''0''"
  by (simp add: is_hex_def hex_digits_def)

text \<open>Two hexadecimal digits and the numbers below 256.\<close>

lemma int_hex_two: "int_hex [a, b] = 16 * int (hex_digit_val hex_digits a) + int (hex_digit_val hex_digits b)"
  by (simp add: int_hex_def)

lemma format_hex_two:
  assumes "0 \<le> i" "i < 256"
  shows "format_hex 2 i = [hex_digits ! (nat i div 16), hex_digits ! (nat i mod 16)]"
proof (cases "i < 16")
  case True
  then have "hex_nat (nat i) = [hex_digits ! nat i]" by (subst hex_nat.simps) simp
  then show ?thesis using True assms by (simp add: format_hex_def zero_pad_def) (simp add: hex_digits_def)
next
  case False
  have "nat i div 16 < 16" using assms by (simp add: less_mult_imp_div_less)
  then have "hex_nat (nat i div 16) = [hex_digits ! (nat i div 16)]" by (subst hex_nat.simps) simp
  then have "hex_nat (nat i) = [hex_digits ! (nat i div 16), hex_digits ! (nat i mod 16)]"
    using False by (subst hex_nat.simps) simp
  then show ?thesis using assms by (simp add: format_hex_def zero_pad_def)
qed

lemma flags_round_trip: "0 \<le> i \<Longrightarrow> i < 256 \<Longrightarrow> int_hex (format_hex 2 i) = i"
proof -
  assume i: "0 \<le> i" "i < 256"
  have "nat i div 16 < 16" using i by (simp add: less_mult_imp_div_less)
  then have "int_hex (format_hex 2 i) = 16 * int (nat i div 16) + int (nat i mod 16)"
    using i by (simp add: format_hex_two int_hex_two hex_digit_val_nth)
  also have "\<dots> = i" using i(1) by (simp add: zdiv_int zmod_int)
  finally show ?thesis .
qed

lemma format_flags: "hex_text 2 f \<Longrightarrow> format_hex 2 (int_hex f) = f \<and> 0 \<le> int_hex f \<and> int_hex f < 256"
proof -
  assume "hex_text 2 f"
  then obtain a b where f: "f = [a, b]" "is_hex a" "is_hex b"
    by (auto simp: hex_text_def length_Suc_conv numeral_2_eq_2)
  define x y where "x = hex_digit_val hex_digits a" and "y = hex_digit_val hex_digits b"
  have x: "x < 16" "hex_digits ! x = a" and y: "y < 16" "hex_digits ! y = b"
    using nth_hex_digit_val [of _ hex_digits] f by (auto simp: x_def y_def is_hex_def)
  have v: "int_hex f = 16 * int x + int y" using f int_hex_two by (simp add: x_def y_def)
  have "nat (16 * int x + int y) = 16 * x + y" by simp
  moreover have "(16 * x + y) div 16 = x" "(16 * x + y) mod 16 = y" using y(1) by simp_all
  ultimately show ?thesis using format_hex_two [of "int_hex f"] v x y f(1) by simp
qed

lemma literal_append [simp]: "literal p (p @ s) = Some s"
  by (simp add: literal_def)

lemma hex_run_append: "hex_text n x \<Longrightarrow> hex_run n (x @ s) = Some (x, s)"
  by (simp add: hex_run_def hex_text_def)

lemma field_re_append: "hex_text n x \<Longrightarrow> field_re p n (p @ x @ s) = Some (x, s)"
  by (simp add: field_re_def hex_run_append)

lemma field_re_SomeD: "field_re p n s = Some (x, s') \<Longrightarrow> s = p @ x @ s' \<and> hex_text n x"
  by (auto simp: field_re_def literal_def hex_run_def hex_text_def prefix_def split: if_splits)

lemma header_re_complete:
  assumes "hex_text 32 t" "hex_text 16 sp" "hex_text 16 pa" "hex_text 2 fl" "e = [] \<or> e = [CHR 0x0A]"
  shows "header_re (''v=1;trace='' @ t @ '';span='' @ sp @ '';parent='' @ pa @ '';flags='' @ fl @ e) = Some (t, sp, pa, fl)"
  using assms(5) unfolding header_re_def
  by (simp only: field_re_append [OF assms(1)] field_re_append [OF assms(2)] field_re_append [OF assms(3)]
      field_re_append [OF assms(4)] bind.simps prod.case if_True)

lemma header_re_sound:
  assumes "header_re s = Some (t, sp, pa, fl)"
  shows "hex_text 32 t \<and> hex_text 16 sp \<and> hex_text 16 pa \<and> hex_text 2 fl \<and>
    (\<exists>e. (e = [] \<or> e = [CHR 0x0A]) \<and> s = ''v=1;trace='' @ t @ '';span='' @ sp @ '';parent='' @ pa @ '';flags='' @ fl @ e)"
proof -
  obtain s1 s2 s3 s4 where f: "field_re ''v=1;trace='' 32 s = Some (t, s1)" "field_re '';span='' 16 s1 = Some (sp, s2)"
      "field_re '';parent='' 16 s2 = Some (pa, s3)" "field_re '';flags='' 2 s3 = Some (fl, s4)"
    and e: "s4 = [] \<or> s4 = [CHR 0x0A]"
    using assms unfolding header_re_def by (auto simp: bind_eq_Some_conv split: if_splits)
  note d = f [THEN field_re_SomeD]
  have "s = ''v=1;trace='' @ t @ '';span='' @ sp @ '';parent='' @ pa @ '';flags='' @ fl @ s4"
    using d by simp
  then show ?thesis using d e by blast
qed

lemma parse_header_iff:
  "parse (PStr s) = Inr c \<longleftrightarrow> valid_context c \<and> (s = header c \<or> s = header c @ [CHR 0x0A])"
proof
  assume "parse (PStr s) = Inr c"
  then obtain t sp pa fl where h: "header_re s = Some (t, sp, pa, fl)" "sp \<noteq> ZERO_SPAN" "sp \<noteq> pa"
    "c = \<lparr>trace_id = t, span_id = sp, parent_span_id = pa, flags = int_hex fl\<rparr>"
    by (auto split: option.splits if_splits)
  from header_re_sound [OF h(1)] format_flags [of fl] h(2-4)
  show "valid_context c \<and> (s = header c \<or> s = header c @ [CHR 0x0A])"
    by (auto simp: valid_context_def header_def)
next
  assume a: "valid_context c \<and> (s = header c \<or> s = header c @ [CHR 0x0A])"
  then have f: "0 \<le> flags c" "flags c < 256" by (simp_all add: valid_context_def)
  have "int_hex (format_hex 2 (flags c)) = flags c" using f by (rule flags_round_trip)
  moreover have "hex_text 2 (format_hex 2 (flags c))"
    using f by (simp add: format_hex_two hex_text_def less_mult_imp_div_less nat_less_iff)
  moreover from this a have "header_re s = Some (trace_id c, span_id c, parent_span_id c, format_hex 2 (flags c))"
    using header_re_complete [of "trace_id c" "span_id c" "parent_span_id c" "format_hex 2 (flags c)" "[]"]
      header_re_complete [of "trace_id c" "span_id c" "parent_span_id c" "format_hex 2 (flags c)" "[CHR 0x0A]"]
    by (auto simp: valid_context_def header_def)
  ultimately show "parse (PStr s) = Inr c" using a by (auto simp: valid_context_def)
qed

text \<open>
  The parser accepts exactly the headers of well-formed contexts (lower-case hexadecimal
  ids of the fixed lengths, flags of one byte, a span that is neither zero nor its own parent),
  each with or without one trailing line feed, and returns that context; so every well-formed
  context survives the wire unchanged.
\<close>

theorem parse_header_exact:
  "parse (PStr s) = Inr c \<longleftrightarrow> valid_context c \<and> (s = header c \<or> s = header c @ [CHR 0x0A])"
  by (rule parse_header_iff)

section \<open>Allocation\<close>

text \<open>The generator draws \<open>nbits\<close> random bits.\<close>

definition draws_bits :: "(nat \<Rightarrow> 'r \<Rightarrow> nat \<times> 'r) \<Rightarrow> bool" where
  "draws_bits getrandbits \<longleftrightarrow> (\<forall>n r. fst (getrandbits n r) < 2 ^ n)"

lemma hex_nat_is_hex: "list_all is_hex (hex_nat n)"
  by (induction n rule: hex_nat.induct) (subst hex_nat.simps, auto)

lemma length_hex_nat: "0 < w \<Longrightarrow> n < 16 ^ w \<Longrightarrow> length (hex_nat n) \<le> w"
proof (induction n arbitrary: w rule: hex_nat.induct)
  case (1 n)
  show ?case
  proof (cases "n < 16")
    case False
    then obtain w' where w: "w = Suc w'" "0 < w'" using 1 by (cases w; cases "w - 1") auto
    then have "n div 16 < 16 ^ w'" using 1 by (simp add: less_mult_imp_div_less)
    then show ?thesis using 1 False w by (subst hex_nat.simps) simp
  qed (use 1 in \<open>subst hex_nat.simps; simp\<close>)
qed

lemma hex_string_rng:
  assumes "draws_bits getrandbits" "0 < w" "rng_hex getrandbits r (4 * w) = (s, r')"
  shows "hex_text w s"
proof -
  obtain x where x: "getrandbits (4 * w) r = (x, r')" "s = zero_pad w (hex_nat x)"
    using assms(3) by (auto simp: rng_hex_def format_hex_def split: prod.splits)
  have "x < 2 ^ (4 * w)" using assms(1) x(1) by (metis draws_bits_def fst_conv)
  then have "x < 16 ^ w" by (simp add: power_mult)
  then have "length (hex_nat x) \<le> w" using assms(2) by (rule length_hex_nat [rotated])
  then show ?thesis using x(2) hex_nat_is_hex [of x] by (auto simp: hex_text_def zero_pad_def list_all_iff)
qed

lemma and_1_cases: "(i :: int) AND 1 = 0 \<or> i AND 1 = 1"
  by (simp add: and_one_eq odd_iff_mod_2_eq_one) (metis mod_2_eq_odd of_bool_def)

text \<open>
  Propagation: a child stays in its parent's trace, names the parent's span, inherits
  exactly the sampled bit and is marked synthetic exactly on request.  Unless the generator
  repeats the parent's span id or draws zero, the child of a well-formed context is
  well-formed, and so its header reaches the callee intact.
\<close>

theorem child_propagates:
  assumes "draws_bits getrandbits" "valid_context p" "child_context getrandbits p r synth = (c, r')"
  shows "trace_id c = trace_id p \<and> parent_span_id c = span_id p \<and> sampled c = sampled p \<and> synthetic c = synth \<and>
         (span_id c = ZERO_SPAN \<or> span_id c = span_id p \<or> parse (PStr (header c)) = Inr c)"
proof -
  obtain s where s: "rng_hex getrandbits r (4 * 16) = (s, r')"
    and c: "c = \<lparr>trace_id = trace_id p, span_id = s, parent_span_id = span_id p,
      flags = (if synth then (flags p AND 1) OR 2 else flags p AND 1)\<rparr>"
    using assms(3) by (auto simp: child_context_def Let_def split: prod.splits)
  have hs: "hex_text 16 s" using hex_string_rng [OF assms(1) _ s] by simp
  have fl: "0 \<le> flags c" "flags c < 256" "sampled c = sampled p" "synthetic c = synth"
    using and_1_cases [of "flags p"] c by (auto simp: sampled_def synthetic_def)
  then have "valid_context c" if "s \<noteq> ZERO_SPAN" "s \<noteq> span_id p"
    using assms(2) c hs that by (auto simp: valid_context_def)
  then have "parse (PStr (header c)) = Inr c" if "s \<noteq> ZERO_SPAN" "s \<noteq> span_id p"
    using that parse_header_iff by blast
  moreover have "trace_id c = trace_id p" "parent_span_id c = span_id p" "span_id c = s" using c by simp_all
  ultimately show ?thesis using fl(3,4) by metis
qed

definition demo_context :: trace_context where
  "demo_context = \<lparr>trace_id = replicate 32 CHR ''a'', span_id = replicate 16 CHR ''b'', parent_span_id = ZERO_SPAN, flags = 1\<rparr>"

lemma demo_context_valid: "valid_context demo_context"
  by (simp add: valid_context_def demo_context_def hex_text_def is_hex_def hex_digits_def ZERO_SPAN_def numeral_eq_Suc)

theorem child_propagates_witness:
  "trace_id (fst (child_context (\<lambda>n r. (2 ^ n - 1, r)) demo_context () True)) = trace_id demo_context \<and>
   synthetic (fst (child_context (\<lambda>n r. (2 ^ n - 1, r)) demo_context () True)) \<and>
   sampled (fst (child_context (\<lambda>n r. (2 ^ n - 1, r)) demo_context () True))"
proof -
  have d: "draws_bits (\<lambda>n (r :: unit). (2 ^ n - 1, r))" by (simp add: draws_bits_def)
  obtain c r' where c: "child_context (\<lambda>n r. (2 ^ n - 1, r)) demo_context () True = (c, r')" by (metis surj_pair)
  have "sampled demo_context" by (simp add: sampled_def demo_context_def)
  then show ?thesis using child_propagates [OF d demo_context_valid c] c by simp
qed

end
