(* ===== verification/Span_Recorder.thy ===== *)
theory Span_Recorder
  imports Trace_Context Py_Json "HOL-Library.Product_Lexorder"
begin

text \<open>
  The span recorder (\<open>tool-call-trace-id-propagator/trace.py\<close>, second half): spans, the
  recorder with its tree view, the validation of a batch of records and the text rendering.
  The spans are shared with the caller, who finishes them, so the recorder is their heap and a
  span is an index into it.
\<close>

section \<open>Spans and the recorder\<close>

record rspan =
  rs_ctx :: trace_context
  rs_name :: string
  started_ms :: int
  ended_ms :: "int option"
  rs_status :: string
  rs_attrs :: "(string, pyval) dict"

record span_record =
  sr_trace :: string
  sr_span :: string
  sr_parent :: string
  sr_name :: string
  sr_status :: string
  sr_started :: int
  sr_ended :: "int option"
  sr_duration :: "int option"
  sr_synthetic :: bool
  sr_attrs :: "(string, pyval) dict"

datatype span_error = BadStatus

type_synonym recorder = "rspan list"

definition span_finish :: "rspan \<Rightarrow> string \<Rightarrow> int \<Rightarrow> (string, pyval) dict \<Rightarrow> (span_error, unit, rspan) outcome" where
  "span_finish s st e attrs =
     (if st \<notin> {''ok'', ''error''} then (Inl BadStatus, s)
      else (Inr (), s\<lparr>rs_status := st, ended_ms := Some e, rs_attrs := fold (\<lambda>(k, v). dict_set k v) attrs (rs_attrs s)\<rparr>))"

definition to_record :: "rspan \<Rightarrow> span_record" where
  "to_record s =
     \<lparr>sr_trace = trace_id (rs_ctx s), sr_span = span_id (rs_ctx s), sr_parent = parent_span_id (rs_ctx s),
      sr_name = rs_name s, sr_status = rs_status s, sr_started = started_ms s, sr_ended = ended_ms s,
      sr_duration = map_option (\<lambda>e. e - started_ms s) (ended_ms s), sr_synthetic = synthetic (rs_ctx s),
      sr_attrs = sort_key fst (rs_attrs s)\<rparr>"

definition recorder_open :: "recorder \<Rightarrow> trace_context \<Rightarrow> string \<Rightarrow> int \<Rightarrow> nat \<times> recorder" where
  "recorder_open r c name t =
     (length r, r @ [\<lparr>rs_ctx = c, rs_name = name, started_ms = t, ended_ms = None, rs_status = ''in_progress'', rs_attrs = []\<rparr>])"

definition recorder_finish :: "recorder \<Rightarrow> nat \<Rightarrow> string \<Rightarrow> int \<Rightarrow> (string, pyval) dict \<Rightarrow> (span_error, unit, recorder) outcome" where
  "recorder_finish r i st e attrs = (let (x, s) = span_finish (r ! i) st e attrs in (x, r[i := s]))"

definition records :: "recorder \<Rightarrow> span_record list" where
  "records r = map to_record r"

section \<open>The tree view\<close>

text \<open>
  Spans whose parent is zero or unknown are roots; the others are grouped under their parent.
  \<open>walk\<close> recurses into the children; the recursion of the code need not end (a span can be
  its own ancestor when span ids are repeated), so there is a recursion limit \<open>fuel\<close> and
  \<open>None\<close> stands for the exhausted stack.
\<close>

definition span_order :: "span_record \<Rightarrow> int \<times> string" where
  "span_order r = (sr_started r, sr_span r)"

definition is_root :: "span_record list \<Rightarrow> span_record \<Rightarrow> bool" where
  "is_root rs r \<longleftrightarrow> sr_parent r = ZERO_SPAN \<or> sr_parent r \<notin> sr_span ` set rs"

definition tree_roots :: "span_record list \<Rightarrow> span_record list" where
  "tree_roots rs = sort_key span_order (filter (is_root rs) rs)"

definition by_parent :: "span_record list \<Rightarrow> string \<Rightarrow> span_record list" where
  "by_parent rs p = sort_key span_order (filter (\<lambda>r. \<not> is_root rs r \<and> sr_parent r = p) rs)"

fun tree_walk :: "nat \<Rightarrow> span_record list \<Rightarrow> span_record \<Rightarrow> nat \<Rightarrow> (span_record \<times> nat) list option" where
  "tree_walk 0 rs r d = None"
| "tree_walk (Suc fuel) rs r d =
     map_option (\<lambda>xss. (r, d) # concat xss) (those (map (\<lambda>c. tree_walk fuel rs c (d + 1)) (by_parent rs (sr_span r))))"

definition tree :: "nat \<Rightarrow> recorder \<Rightarrow> string \<Rightarrow> (span_record \<times> nat) list option" where
  "tree fuel r t =
     (let rs = filter (\<lambda>x. sr_trace x = t) (records r) in
      map_option concat (those (map (\<lambda>x. tree_walk fuel rs x 0) (tree_roots rs))))"

section \<open>Validation\<close>

datatype record_issue =
    DuplicateSpanId string "string list"
  | WrongRootCount string nat
  | SelfParentSpan string string
  | OrphanSpan string string string
  | MissingDuration string string

definition by_trace :: "span_record list \<Rightarrow> (string, span_record list) dict" where
  "by_trace rs =
     fold (\<lambda>r d. dict_set (sr_trace r) ((case dict_get d (sr_trace r) of None \<Rightarrow> [] | Some l \<Rightarrow> l) @ [r]) d) rs []"

definition record_issues :: "string \<Rightarrow> string set \<Rightarrow> span_record \<Rightarrow> record_issue list" where
  "record_issues t ids r =
     (if sr_span r = sr_parent r then [SelfParentSpan t (sr_span r)] else [])
     @ (if sr_parent r \<noteq> ZERO_SPAN \<and> sr_parent r \<notin> ids then [OrphanSpan t (sr_span r) (sr_parent r)] else [])
     @ (if sr_status r \<noteq> ''in_progress'' \<and> sr_duration r = None then [MissingDuration t (sr_span r)] else [])"

definition trace_issues :: "string \<times> span_record list \<Rightarrow> record_issue list" where
  "trace_issues p =
     (let (t, rs) = p; ids = map sr_span rs; rts = filter (\<lambda>r. sr_parent r = ZERO_SPAN) rs in
      (if card (set ids) \<noteq> length ids then [DuplicateSpanId t (sort (remdups (filter (\<lambda>s. count_list ids s > 1) ids)))] else [])
      @ (if length rts \<noteq> 1 then [WrongRootCount t (length rts)] else [])
      @ concat (map (record_issues t (set ids)) rs))"

record records_report =
  rr_ok :: bool
  rr_trace_count :: nat
  rr_errors :: "record_issue list"

definition validate_records :: "span_record list \<Rightarrow> records_report" where
  "validate_records rs =
     (let es = concat (map trace_issues (by_trace rs)) in
      \<lparr>rr_ok = (es = []), rr_trace_count = length (by_trace rs), rr_errors = es\<rparr>)"

section \<open>Rendering\<close>

definition join_lines :: "string list \<Rightarrow> string" where
  "join_lines ls = concat (case ls of [] \<Rightarrow> [] | l # rest \<Rightarrow> l # map (\<lambda>x. CHR 0x0A # x) rest)"

definition render_row :: "span_record \<times> nat \<Rightarrow> string" where
  "render_row p =
     (let (r, d) = p in
      concat (replicate d ''  '') @ (if d \<noteq> 0 then ''- '' else ''* '') @ sr_name r @ '' ['' @ sr_status r @ '', ''
      @ (case sr_duration r of None \<Rightarrow> ''None'' | Some n \<Rightarrow> py_str_int n) @ ''ms''
      @ (if sr_synthetic r then '', synthetic'' else []) @ ''] span='' @ take 8 (sr_span r))"

definition render_tree :: "(span_record \<times> nat) list \<Rightarrow> string" where
  "render_tree tr = join_lines (map render_row tr)"

section \<open>Paths to the root\<close>

text \<open>\<open>rpath rs p\<close>: the list \<open>p\<close> of spans leads from its head, parent by parent, to a root.\<close>

fun rpath :: "span_record list \<Rightarrow> span_record list \<Rightarrow> bool" where
  "rpath rs [] = False"
| "rpath rs [r] \<longleftrightarrow> r \<in> set rs \<and> is_root rs r"
| "rpath rs (c # r # p) \<longleftrightarrow> c \<in> set rs \<and> \<not> is_root rs c \<and> sr_parent c = sr_span r \<and> rpath rs (r # p)"

lemma rpath_not_Nil: "rpath rs p \<Longrightarrow> p \<noteq> []"
  by auto

lemma rpath_subset: "rpath rs p \<Longrightarrow> set p \<subseteq> set rs"
  by (induction rs p rule: rpath.induct) auto

lemma rpath_suffix: "rpath rs (u @ r # p) \<Longrightarrow> rpath rs (r # p)"
proof (induction u)
  case (Cons a u)
  then show ?case by (cases u) auto
qed simp

lemma rpath_unique:
  assumes "distinct (map sr_span rs)"
  shows "rpath rs (r # p) \<Longrightarrow> rpath rs (r # q) \<Longrightarrow> p = q"
proof (induction p arbitrary: r q)
  case Nil
  then show ?case by (cases q) auto
next
  case (Cons a p)
  then obtain b q' where q: "q = b # q'" by (cases q) auto
  have "a \<in> set rs" "b \<in> set rs" "sr_span a = sr_span b"
    using Cons.prems q rpath_subset [of rs "a # p"] rpath_subset [of rs "b # q'"] by auto
  then have "a = b" using assms by (simp add: distinct_map inj_on_def)
  then show ?case using Cons q by auto
qed

lemma rpath_distinct: "distinct (map sr_span rs) \<Longrightarrow> rpath rs p \<Longrightarrow> distinct p"
proof (induction p)
  case (Cons r p)
  have "r \<notin> set p"
  proof
    assume "r \<in> set p"
    then obtain u v where p: "p = u @ r # v" by (auto simp: in_set_conv_decomp)
    then have "rpath rs (r # v)" using Cons.prems(2) rpath_suffix [of rs "r # u" r v] by simp
    then have "p = v" using rpath_unique [OF Cons.prems(1,2)] by simp
    then show False using p by simp
  qed
  moreover have "distinct p" using Cons by (cases p) auto
  ultimately show ?case by simp
qed simp

lemma rpath_length: "distinct (map sr_span rs) \<Longrightarrow> rpath rs p \<Longrightarrow> length p \<le> length rs"
  by (metis rpath_distinct rpath_subset distinct_card card_length card_mono finite_set le_trans)

section \<open>The walk\<close>

lemma those_map_Some: "(\<And>c. c \<in> set cs \<Longrightarrow> f c = Some (g c)) \<Longrightarrow> those (map f cs) = Some (map g cs)"
  by (induction cs) auto

lemma distinct_concat_map:
  assumes "distinct cs" "\<And>c. c \<in> set cs \<Longrightarrow> distinct (g c)"
    "\<And>c e x. c \<in> set cs \<Longrightarrow> e \<in> set cs \<Longrightarrow> x \<in> set (g c) \<Longrightarrow> x \<in> set (g e) \<Longrightarrow> c = e"
  shows "distinct (concat (map g cs))"
  using assms
proof (induction cs)
  case (Cons c cs)
  have "distinct (concat (map g cs))" using Cons.prems by (intro Cons.IH) auto
  moreover have "set (g c) \<inter> set (concat (map g cs)) = {}"
    using Cons.prems(1,3) by fastforce
  ultimately show ?case using Cons.prems(2) by simp
qed simp

lemma set_by_parent: "set (by_parent rs s) = {c \<in> set rs. \<not> is_root rs c \<and> sr_parent c = s}"
  by (auto simp: by_parent_def)

lemma distinct_by_parent: "distinct (map sr_span rs) \<Longrightarrow> distinct (by_parent rs s)"
  by (simp add: by_parent_def distinct_map)

text \<open>Rows below \<open>r\<close>, whose own path is \<open>r # p\<close>.\<close>

definition rows_below :: "span_record list \<Rightarrow> span_record list \<Rightarrow> nat \<Rightarrow> (span_record \<times> nat) set" where
  "rows_below rs rp d = {(hd (u @ rp), d + length u) | u. rpath rs (u @ rp)}"

lemma rows_below_unfold:
  assumes "rpath rs (r # p)"
  shows "rows_below rs (r # p) d = insert (r, d) (\<Union>c \<in> set (by_parent rs (sr_span r)). rows_below rs (c # r # p) (d + 1))"
proof (intro set_eqI iffI)
  fix x assume "x \<in> rows_below rs (r # p) d"
  then obtain u where u: "x = (hd (u @ r # p), d + length u)" "rpath rs (u @ r # p)" by (auto simp: rows_below_def)
  show "x \<in> insert (r, d) (\<Union>c \<in> set (by_parent rs (sr_span r)). rows_below rs (c # r # p) (d + 1))"
  proof (cases u rule: rev_cases)
    case (snoc u' c)
    then have "c \<in> set (by_parent rs (sr_span r))" "x \<in> rows_below rs (c # r # p) (d + 1)"
      using u rpath_suffix [of rs u' c "r # p"] by (auto simp: set_by_parent rows_below_def)
    then show ?thesis by blast
  qed (use u in simp)
next
  fix x assume "x \<in> insert (r, d) (\<Union>c \<in> set (by_parent rs (sr_span r)). rows_below rs (c # r # p) (d + 1))"
  then consider "x = (r, d)" | c u where "x = (hd (u @ c # r # p), d + 1 + length u)" "rpath rs (u @ c # r # p)"
    by (auto simp: rows_below_def)
  then show "x \<in> rows_below rs (r # p) d"
  proof cases
    case 1
    then show ?thesis using assms by (force simp: rows_below_def)
  next
    case (2 c u)
    then show ?thesis unfolding rows_below_def by (intro CollectI exI [of _ "u @ [c]"]) simp
  qed
qed

lemma rows_below_path: "(x, d') \<in> rows_below rs (r # p) d \<Longrightarrow> \<exists>u q. rpath rs (x # q) \<and> x # q = u @ r # p"
  unfolding rows_below_def by (clarsimp) (metis append_is_Nil_conv list.collapse list.distinct(1))

text \<open>Every row that is no root comes after the row of its parent.\<close>

fun parents_first :: "span_record list \<Rightarrow> span_record set \<Rightarrow> span_record list \<Rightarrow> bool" where
  "parents_first rs seen [] \<longleftrightarrow> True"
| "parents_first rs seen (y # ys) \<longleftrightarrow>
     (is_root rs y \<or> (\<exists>x \<in> seen. sr_span x = sr_parent y)) \<and> parents_first rs (insert y seen) ys"

lemma parents_first_mono: "parents_first rs A ys \<Longrightarrow> A \<subseteq> B \<Longrightarrow> parents_first rs B ys"
proof (induction ys arbitrary: A B)
  case (Cons y ys)
  then have "parents_first rs (insert y B) ys" by (metis insert_mono parents_first.simps(2))
  then show ?case using Cons.prems by auto
qed simp

lemma parents_first_append:
  "parents_first rs A (xs @ ys) \<longleftrightarrow> parents_first rs A xs \<and> parents_first rs (A \<union> set xs) ys"
  by (induction xs arbitrary: A) auto

lemma parents_first_concat:
  "(\<And>c. c \<in> set cs \<Longrightarrow> parents_first rs A (g c)) \<Longrightarrow> parents_first rs A (concat (map g cs))"
  by (induction cs) (auto simp: parents_first_append intro: parents_first_mono)

definition walk_ok :: "span_record list \<Rightarrow> span_record list \<Rightarrow> nat \<Rightarrow> (span_record \<times> nat) list \<Rightarrow> bool" where
  "walk_ok rs rp d xs \<longleftrightarrow>
     set xs = rows_below rs rp d \<and> distinct (map fst xs) \<and>
     (\<forall>A. is_root rs (hd rp) \<or> (\<exists>x \<in> A. sr_span x = sr_parent (hd rp)) \<longrightarrow> parents_first rs A (map fst xs))"

lemma siblings_disjoint:
  assumes "distinct (map sr_span rs)" "(x, d1) \<in> rows_below rs (c1 # p) d" "(x, d2) \<in> rows_below rs (c2 # p) d"
  shows "c1 = c2"
proof -
  obtain u1 q1 where 1: "rpath rs (x # q1)" "x # q1 = u1 @ c1 # p" using rows_below_path [OF assms(2)] by blast
  obtain u2 q2 where 2: "rpath rs (x # q2)" "x # q2 = u2 @ c2 # p" using rows_below_path [OF assms(3)] by blast
  have "u1 @ c1 # p = u2 @ c2 # p" using rpath_unique [OF assms(1) 1(1) 2(1)] 1(2) 2(2) by simp
  then have "(u1 @ [c1]) @ p = (u2 @ [c2]) @ p" by simp
  then show ?thesis by (metis append_same_eq last_snoc)
qed

lemma not_below_itself:
  assumes "distinct (map sr_span rs)" "rpath rs (r # p)" "c \<in> set (by_parent rs (sr_span r))" "(r, d') \<in> rows_below rs (c # r # p) d"
  shows False
proof -
  obtain u q where "rpath rs (r # q)" "r # q = u @ c # r # p" using rows_below_path [OF assms(4)] by blast
  then have "r # p = u @ c # r # p" using rpath_unique [OF assms(1,2)] by metis
  then have "length (r # p) = length (u @ c # r # p)" by (rule arg_cong)
  then show False by simp
qed

text \<open>One level of the walk, given that the walks of the children are right.\<close>

lemma walk_ok_node:
  assumes d: "distinct (map sr_span rs)" and r: "rpath rs (r # p)"
    and g: "\<And>c. c \<in> set (by_parent rs (sr_span r)) \<Longrightarrow> walk_ok rs (c # r # p) (d + 1) (g c)"
  shows "walk_ok rs (r # p) d ((r, d) # concat (map g (by_parent rs (sr_span r))))"
proof -
  let ?cs = "by_parent rs (sr_span r)"
  have gs: "set (g c) = rows_below rs (c # r # p) (d + 1)" "distinct (map fst (g c))" if "c \<in> set ?cs" for c
    using g [OF that] by (simp_all add: walk_ok_def)
  have s: "set ((r, d) # concat (map g ?cs)) = rows_below rs (r # p) d"
    unfolding rows_below_unfold [OF r] using gs(1) by auto
  have "distinct (concat (map (\<lambda>c. map fst (g c)) ?cs))"
  proof (rule distinct_concat_map [OF distinct_by_parent [OF d]])
    fix c e x assume "c \<in> set ?cs" "e \<in> set ?cs" "x \<in> set (map fst (g c))" "x \<in> set (map fst (g e))"
    then obtain d1 d2 where "(x, d1) \<in> rows_below rs (c # r # p) (d + 1)" "(x, d2) \<in> rows_below rs (e # r # p) (d + 1)"
      using gs(1) by (auto simp: image_iff)
    then show "c = e" by (rule siblings_disjoint [OF d])
  qed (rule gs(2))
  moreover have "r \<notin> set (concat (map (\<lambda>c. map fst (g c)) ?cs))"
  proof
    assume "r \<in> set (concat (map (\<lambda>c. map fst (g c)) ?cs))"
    then obtain c x where c: "c \<in> set ?cs" "x \<in> set (g c)" "fst x = r" by auto
    then have "(r, snd x) \<in> rows_below rs (c # r # p) (d + 1)" using gs(1) [OF c(1)] by (metis prod.collapse)
    then show False using not_below_itself [OF d r c(1)] by blast
  qed
  ultimately have di: "distinct (map fst ((r, d) # concat (map g ?cs)))" by (simp add: map_concat comp_def)
  have "parents_first rs A (map fst ((r, d) # concat (map g ?cs)))"
    if "is_root rs r \<or> (\<exists>x \<in> A. sr_span x = sr_parent r)" for A
  proof -
    have "parents_first rs (insert r A) (map fst (g c))" if "c \<in> set ?cs" for c
      using g [OF that] that by (auto simp: walk_ok_def set_by_parent)
    then have "parents_first rs (insert r A) (concat (map (\<lambda>c. map fst (g c)) ?cs))" by (rule parents_first_concat)
    then show ?thesis using that by (simp add: map_concat comp_def)
  qed
  then show ?thesis using s di unfolding walk_ok_def by simp
qed

lemma tree_walk_ok:
  assumes "distinct (map sr_span rs)"
  shows "rpath rs (r # p) \<Longrightarrow> length rs \<le> fuel + length p \<Longrightarrow> \<exists>xs. tree_walk fuel rs r d = Some xs \<and> walk_ok rs (r # p) d xs"
proof (induction fuel arbitrary: r p d)
  case 0
  then show ?case using rpath_length [OF assms 0(1)] by simp
next
  case (Suc fuel)
  let ?cs = "by_parent rs (sr_span r)"
  have "\<exists>xs. tree_walk fuel rs c (d + 1) = Some xs \<and> walk_ok rs (c # r # p) (d + 1) xs" if "c \<in> set ?cs" for c
    using that Suc.prems by (intro Suc.IH) (auto simp: set_by_parent)
  then obtain g where g: "\<And>c. c \<in> set ?cs \<Longrightarrow> tree_walk fuel rs c (d + 1) = Some (g c) \<and> walk_ok rs (c # r # p) (d + 1) (g c)"
    by metis
  then have "those (map (\<lambda>c. tree_walk fuel rs c (d + 1)) ?cs) = Some (map g ?cs)" by (intro those_map_Some) simp
  moreover have "walk_ok rs (r # p) d ((r, d) # concat (map g ?cs))" using walk_ok_node [OF assms Suc.prems(1)] g by blast
  ultimately show ?case by simp
qed

lemma tree_roots_ok: "set (tree_roots rs) = {r \<in> set rs. is_root rs r}" "distinct (map sr_span rs) \<Longrightarrow> distinct (tree_roots rs)"
  by (auto simp: tree_roots_def distinct_map)

lemma rows_of_roots:
  "(\<Union>r \<in> set (tree_roots rs). rows_below rs [r] 0) = {(hd q, length q - 1) | q. rpath rs q}"
proof (intro set_eqI iffI)
  fix x assume "x \<in> (\<Union>r \<in> set (tree_roots rs). rows_below rs [r] 0)"
  then obtain r u where "x = (hd (u @ [r]), length u)" "rpath rs (u @ [r])" by (auto simp: rows_below_def)
  then show "x \<in> {(hd q, length q - 1) | q. rpath rs q}" by (intro CollectI exI [of _ "u @ [r]"]) simp
next
  fix x assume "x \<in> {(hd q, length q - 1) | q. rpath rs q}"
  then obtain q where q: "x = (hd q, length q - 1)" "rpath rs q" by blast
  then obtain u r where u: "q = u @ [r]" using rpath_not_Nil by (cases q rule: rev_cases) auto
  then have "r \<in> set (tree_roots rs)" using q(2) rpath_suffix [of rs u r "[]"] by (simp add: tree_roots_ok)
  then show "x \<in> (\<Union>r \<in> set (tree_roots rs). rows_below rs [r] 0)" using q u by (auto simp: rows_below_def)
qed

definition in_trace :: "recorder \<Rightarrow> string \<Rightarrow> span_record list" where
  "in_trace r t = filter (\<lambda>x. sr_trace x = t) (records r)"

text \<open>
  C40.  For a trace without repeated span ids, and a recursion limit of at least the number of
  its spans, the tree view returns (the recursion ends): every span from which parents lead to
  a root is listed exactly once, at the depth of its path to the root, and after its parent.
\<close>

theorem trace_tree_exact:
  assumes "distinct (map sr_span (in_trace r t))" "length (in_trace r t) \<le> fuel"
  shows "\<exists>xs. tree fuel r t = Some xs \<and> distinct (map fst xs) \<and>
    set xs = {(hd q, length q - 1) | q. rpath (in_trace r t) q} \<and> parents_first (in_trace r t) {} (map fst xs)"
proof -
  let ?rs = "in_trace r t" and ?cs = "tree_roots (in_trace r t)"
  have "\<exists>xs. tree_walk fuel ?rs c 0 = Some xs \<and> walk_ok ?rs [c] 0 xs" if "c \<in> set ?cs" for c
    using that assms by (intro tree_walk_ok) (auto simp: tree_roots_ok)
  then obtain g where g: "\<And>c. c \<in> set ?cs \<Longrightarrow> tree_walk fuel ?rs c 0 = Some (g c) \<and> walk_ok ?rs [c] 0 (g c)" by metis
  then have gs: "set (g c) = rows_below ?rs [c] 0" "distinct (map fst (g c))" "parents_first ?rs {} (map fst (g c))"
    if "c \<in> set ?cs" for c
    using that by (auto simp: walk_ok_def tree_roots_ok)
  have "those (map (\<lambda>c. tree_walk fuel ?rs c 0) ?cs) = Some (map g ?cs)" using g by (intro those_map_Some) simp
  then have "tree fuel r t = Some (concat (map g ?cs))" by (simp add: tree_def in_trace_def)
  moreover have "distinct (concat (map (\<lambda>c. map fst (g c)) ?cs))"
  proof (rule distinct_concat_map [OF tree_roots_ok(2) [OF assms(1)]])
    fix c e x assume "c \<in> set ?cs" "e \<in> set ?cs" "x \<in> set (map fst (g c))" "x \<in> set (map fst (g e))"
    then obtain d1 d2 where "(x, d1) \<in> rows_below ?rs [c] 0" "(x, d2) \<in> rows_below ?rs [e] 0" using gs(1) by (auto simp: image_iff)
    then show "c = e" by (rule siblings_disjoint [OF assms(1)])
  qed (rule gs(2))
  moreover have "parents_first ?rs {} (concat (map (\<lambda>c. map fst (g c)) ?cs))" using gs(3) by (rule parents_first_concat)
  moreover have "set (concat (map g ?cs)) = {(hd q, length q - 1) | q. rpath ?rs q}"
    unfolding rows_of_roots [symmetric] using gs(1) by simp
  ultimately show ?thesis by (simp add: map_concat comp_def)
qed

definition demo_span :: "string \<Rightarrow> string \<Rightarrow> rspan" where
  "demo_span s p = \<lparr>rs_ctx = \<lparr>trace_id = ''t'', span_id = s, parent_span_id = p, flags = 1\<rparr>, rs_name = ''call'', started_ms = 0,
     ended_ms = Some 1, rs_status = ''ok'', rs_attrs = []\<rparr>"

lemmas demo_simps = demo_span_def tree_def tree_roots_def by_parent_def is_root_def records_def to_record_def in_trace_def
  ZERO_SPAN_def validate_records_def by_trace_def trace_issues_def record_issues_def span_order_def synthetic_def

theorem trace_tree_exact_witness:
  "\<exists>xs. tree 2 [demo_span ''b'' ''a'', demo_span ''a'' ZERO_SPAN] ''t'' = Some xs \<and>
     (to_record (demo_span ''a'' ZERO_SPAN), 0) \<in> set xs"
proof -
  let ?r = "[demo_span ''b'' ''a'', demo_span ''a'' ZERO_SPAN]"
  have "distinct (map sr_span (in_trace ?r ''t''))" "length (in_trace ?r ''t'') \<le> 2" by (simp_all add: demo_simps)
  from trace_tree_exact [OF this] obtain xs where xs: "tree 2 ?r ''t'' = Some xs"
    "set xs = {(hd q, length q - 1) | q. rpath (in_trace ?r ''t'') q}" by blast
  have "rpath (in_trace ?r ''t'') [to_record (demo_span ''a'' ZERO_SPAN)]" by (simp add: demo_simps)
  then have "(to_record (demo_span ''a'' ZERO_SPAN), 0) \<in> set xs"
    unfolding xs(2) by (intro CollectI exI [of _ "[to_record (demo_span ''a'' ZERO_SPAN)]"]) simp
  then show ?thesis using xs(1) by blast
qed

text \<open>
  Two spans that are each other's parent pass the validation, but the tree view drops them; and
  a repeated span id can send the recursion round in circles, whatever the recursion limit.
\<close>

lemma cyclic_spans_vanish:
  "rr_ok (validate_records (records [demo_span ''r'' ZERO_SPAN, demo_span ''a'' ''b'', demo_span ''b'' ''a''])) \<and>
   map_option length (tree 3 [demo_span ''r'' ZERO_SPAN, demo_span ''a'' ''b'', demo_span ''b'' ''a''] ''t'') = Some 1"
  by (simp add: demo_simps numeral_eq_Suc)

lemma repeated_id_recurses_forever:
  "tree fuel [demo_span ''a'' ZERO_SPAN, demo_span ''a'' ''a''] ''t'' = None"
proof -
  let ?rs = "[to_record (demo_span ''a'' ZERO_SPAN), to_record (demo_span ''a'' ''a'')]"
  have k: "by_parent ?rs ''a'' = [to_record (demo_span ''a'' ''a'')]" by (simp add: demo_simps numeral_eq_Suc)
  have w: "tree_walk n ?rs (to_record (demo_span ''a'' ''a'')) d = None" for n d
  proof (induction n arbitrary: d)
    case (Suc n)
    have "sr_span (to_record (demo_span ''a'' ''a'')) = ''a''" by (simp add: demo_simps)
    then show ?case using Suc k by simp
  qed simp
  have "tree_walk fuel ?rs (to_record (demo_span ''a'' ZERO_SPAN)) 0 = None"
  proof (cases fuel)
    case (Suc n)
    have "sr_span (to_record (demo_span ''a'' ZERO_SPAN)) = ''a''" by (simp add: demo_simps)
    then show ?thesis using Suc k w by simp
  qed simp
  moreover have "tree_roots ?rs = [to_record (demo_span ''a'' ZERO_SPAN)]" by (simp add: demo_simps numeral_eq_Suc)
  moreover have "filter (\<lambda>x. sr_trace x = ''t'') (records [demo_span ''a'' ZERO_SPAN, demo_span ''a'' ''a'']) = ?rs"
    by (simp add: demo_simps)
  ultimately show ?thesis by (simp add: tree_def)
qed

section \<open>What validation guarantees\<close>

lemma by_trace_snoc:
  "by_trace (rs @ [r]) = dict_set (sr_trace r) ((case dict_get (by_trace rs) (sr_trace r) of None \<Rightarrow> [] | Some l \<Rightarrow> l) @ [r]) (by_trace rs)"
  by (simp add: by_trace_def)

lemma dict_wf_by_trace: "dict_wf (by_trace rs)"
  by (induction rs rule: rev_induct) (simp_all add: by_trace_def)

lemma by_trace_get:
  "dict_get (by_trace rs) t = (if t \<in> sr_trace ` set rs then Some (filter (\<lambda>r. sr_trace r = t) rs) else None)"
proof (induction rs rule: rev_induct)
  case (snoc r rs)
  have "filter (\<lambda>x. sr_trace x = sr_trace r) rs = []" if "sr_trace r \<notin> sr_trace ` set rs"
    using that by (auto simp: filter_empty_conv image_iff)
  then show ?case using snoc by (auto simp: by_trace_snoc)
qed (simp add: by_trace_def)

lemma set_by_trace: "set (by_trace rs) = {(t, filter (\<lambda>r. sr_trace r = t) rs) | t. t \<in> sr_trace ` set rs}"
proof -
  have "(t, l) \<in> set (by_trace rs) \<longleftrightarrow> dict_get (by_trace rs) t = Some l" for t l
    using dict_wf_by_trace [of rs] by (simp add: dict_wf_def)
  then show ?thesis by (auto simp: by_trace_get split: if_splits)
qed

definition trace_ok :: "span_record list \<Rightarrow> bool" where
  "trace_ok l \<longleftrightarrow>
     distinct (map sr_span l) \<and> length (filter (\<lambda>r. sr_parent r = ZERO_SPAN) l) = 1 \<and>
     (\<forall>r \<in> set l. sr_span r \<noteq> sr_parent r \<and> (sr_parent r = ZERO_SPAN \<or> sr_parent r \<in> sr_span ` set l) \<and>
        (sr_status r = ''in_progress'' \<or> sr_duration r \<noteq> None))"

lemma trace_issues_empty: "trace_issues (t, l) = [] \<longleftrightarrow> trace_ok l"
proof -
  have "card (set (map sr_span l)) = length (map sr_span l) \<longleftrightarrow> distinct (map sr_span l)"
    using card_distinct distinct_card by blast
  moreover have "record_issues t ids r = [] \<longleftrightarrow> sr_span r \<noteq> sr_parent r \<and>
      (sr_parent r = ZERO_SPAN \<or> sr_parent r \<in> ids) \<and> (sr_status r = ''in_progress'' \<or> sr_duration r \<noteq> None)" for ids r
    by (auto simp: record_issues_def)
  ultimately show ?thesis by (simp add: trace_issues_def trace_ok_def Let_def)
qed

text \<open>
  A batch is reported sound exactly when in every trace the span ids are unique, there is
  exactly one root, no span is its own parent, every other parent is present in the same trace,
  and every finished span has a duration.
\<close>

theorem validate_records_exact:
  "rr_ok (validate_records rs) \<longleftrightarrow> list_all (\<lambda>r. trace_ok (filter (\<lambda>x. sr_trace x = sr_trace r) rs)) rs"
proof -
  have "rr_ok (validate_records rs) \<longleftrightarrow> (\<forall>p \<in> set (by_trace rs). trace_issues p = [])"
    by (simp add: validate_records_def Let_def)
  also have "\<dots> \<longleftrightarrow> list_all (\<lambda>r. trace_ok (filter (\<lambda>x. sr_trace x = sr_trace r) rs)) rs"
    by (auto simp: set_by_trace trace_issues_empty list_all_iff)
  finally show ?thesis .
qed

end
