(* ===== verification/Merkle_Log.thy ===== *)
theory Merkle_Log
  imports Py_Json
begin

text \<open>
  The hash-chained audit log (\<open>audit-trail-merkle-chain/bin/merkle_log.py\<close>).  A file is its
  text, or \<open>None\<close> when it does not exist; SHA-256 and \<open>json.loads\<close> are parameters (\<open>sha\<close>
  on texts, \<open>loads\<close> with \<open>None\<close> for a decoding error).  JSON numbers are integers.
\<close>

section \<open>Text files\<close>

text \<open>Reading in text mode translates the line ends; iterating yields the lines with their line feeds.\<close>

fun universal_newlines :: "string \<Rightarrow> string" where
  "universal_newlines [] = []"
| "universal_newlines (c # s) =
     (if c = CHR 0x0D then CHR 0x0A # (case s of [] \<Rightarrow> [] | d # r \<Rightarrow> if d = CHR 0x0A then universal_newlines r else universal_newlines s)
      else c # universal_newlines s)"

fun keep_lines :: "string \<Rightarrow> string list" where
  "keep_lines [] = []"
| "keep_lines (c # s) =
     (if c = CHR 0x0A then [c] # keep_lines s
      else case keep_lines s of [] \<Rightarrow> [[c]] | l # ls \<Rightarrow> (c # l) # ls)"

definition text_lines :: "string \<Rightarrow> string list" where
  "text_lines s = keep_lines (universal_newlines s)"

definition is_blank :: "string \<Rightarrow> bool" where
  "is_blank l \<longleftrightarrow> py_strip l = []"

definition rstrip_nl :: "string \<Rightarrow> string" where
  "rstrip_nl l = rev (dropWhile (\<lambda>c. c = CHR 0x0A) (rev l))"

section \<open>Entries\<close>

definition GENESIS_PREV :: string where
  "GENESIS_PREV = replicate 64 CHR ''0''"

type_synonym entry = "(string, json) dict"

definition canonical :: "entry \<Rightarrow> string" where
  "canonical e = dumps_sorted (JObj e)"

definition hash_entry :: "(string \<Rightarrow> string) \<Rightarrow> entry \<Rightarrow> string" where
  "hash_entry sha e = sha (canonical e)"

definition entry_get :: "entry \<Rightarrow> string \<Rightarrow> json" where
  "entry_get e k = (case dict_get e k of None \<Rightarrow> JNull | Some v \<Rightarrow> v)"

datatype log_error = JsonDecodeError | NotAnObject | MissingKey string | BadIndex json

text \<open>\<open>int(x)\<close>: integers, booleans, and decimal texts with a sign and underscores between digits.\<close>

fun decimal_digits :: "string \<Rightarrow> string option" where
  "decimal_digits [] = None"
| "decimal_digits [c] = (if is_digit c then Some [c] else None)"
| "decimal_digits (c # d # s) =
     (if \<not> is_digit c then None
      else if d = CHR ''_'' then map_option ((#) c) (decimal_digits s)
      else map_option ((#) c) (decimal_digits (d # s)))"

definition int_text :: "string \<Rightarrow> int option" where
  "int_text s =
     (let t = py_strip s in
      case t of
        [] \<Rightarrow> None
      | c # r \<Rightarrow>
          if c = CHR ''-'' then map_option (\<lambda>d. - int (dec_value d)) (decimal_digits r)
          else if c = CHR ''+'' then map_option (\<lambda>d. int (dec_value d)) (decimal_digits r)
          else map_option (\<lambda>d. int (dec_value d)) (decimal_digits t))"

fun py_int :: "json \<Rightarrow> int option" where
  "py_int (JInt i) = Some i"
| "py_int (JBool b) = Some (of_bool b)"
| "py_int (JStr s) = int_text s"
| "py_int _ = None"

section \<open>The log\<close>

text \<open>\<open>_read_last\<close>: the last non-blank line, decoded.\<close>

definition read_last :: "(string \<Rightarrow> json option) \<Rightarrow> string option \<Rightarrow> log_error + json option" where
  "read_last loads file =
     (case file of
        None \<Rightarrow> Inr None
      | Some s \<Rightarrow>
          let ls = filter (\<lambda>l. \<not> is_blank l) (text_lines s) in
          if ls = [] then Inr None
          else case loads (last ls) of None \<Rightarrow> Inl JsonDecodeError | Some v \<Rightarrow> Inr (Some v))"

record append_result =
  ar_index :: int
  ar_entry_hash :: string

definition append_entry :: "int \<Rightarrow> string \<Rightarrow> json \<Rightarrow> json \<Rightarrow> entry" where
  "append_entry i ts prev payload = [(''index'', JInt i), (''ts'', JStr ts), (''prev_hash'', prev), (''payload'', payload)]"

definition write_entry ::
  "(string \<Rightarrow> string) \<Rightarrow> string option \<Rightarrow> int \<Rightarrow> json \<Rightarrow> string \<Rightarrow> json \<Rightarrow> (log_error, append_result, string option) outcome" where
  "write_entry sha file i prev ts payload =
     (let body = append_entry i ts prev payload; eh = hash_entry sha body; full = dict_set ''entry_hash'' (JStr eh) body in
      (Inr \<lparr>ar_index = i, ar_entry_hash = eh\<rparr>,
       Some ((case file of None \<Rightarrow> [] | Some s \<Rightarrow> s) @ canonical full @ [CHR 0x0A])))"

definition ml_append ::
  "(string \<Rightarrow> string) \<Rightarrow> (string \<Rightarrow> json option) \<Rightarrow> string option \<Rightarrow> string \<times> json \<Rightarrow> (log_error, append_result, string option) outcome" where
  "ml_append sha loads file tp =
     (let (ts, payload) = tp in
      case read_last loads file of
        Inl e \<Rightarrow> (Inl e, file)
      | Inr None \<Rightarrow> write_entry sha file 0 (JStr GENESIS_PREV) ts payload
      | Inr (Some (JObj e)) \<Rightarrow>
          (case dict_get e ''index'' of
             None \<Rightarrow> (Inl (MissingKey ''index''), file)
           | Some iv \<Rightarrow>
               (case py_int iv of
                  None \<Rightarrow> (Inl (BadIndex iv), file)
                | Some i \<Rightarrow>
                    (case dict_get e ''entry_hash'' of
                       None \<Rightarrow> (Inl (MissingKey ''entry_hash''), file)
                     | Some h \<Rightarrow> write_entry sha file (i + 1) h ts payload)))
      | Inr (Some _) \<Rightarrow> (Inl NotAnObject, file))"

text \<open>\<open>head_hash\<close>: an empty object is falsy and counts as no entry.\<close>

definition head_hash :: "(string \<Rightarrow> json option) \<Rightarrow> string option \<Rightarrow> log_error + json option" where
  "head_hash loads file =
     (case read_last loads file of
        Inl e \<Rightarrow> Inl e
      | Inr None \<Rightarrow> Inr None
      | Inr (Some (JObj e)) \<Rightarrow>
          if e = [] then Inr None
          else (case dict_get e ''entry_hash'' of None \<Rightarrow> Inl (MissingKey ''entry_hash'') | Some h \<Rightarrow> Inr (Some h))
      | Inr (Some v) \<Rightarrow> if v \<in> {JNull, JBool False, JInt 0, JStr [], JArr []} then Inr None else Inl NotAnObject)"

section \<open>Verification\<close>

datatype break_reason =
    MissingFile
  | ParseFailure
  | IndexGap int json
  | PrevHashMismatch string json
  | EntryHashMismatch json string
  | HeadMismatch string "string option"

datatype verify_report =
    Verified nat string
  | Broken int break_reason
  | VerifyRaised log_error

text \<open>\<open>x == i\<close> for a JSON value and an integer: \<open>True\<close> is 1.\<close>

fun json_eq_int :: "json \<Rightarrow> int \<Rightarrow> bool" where
  "json_eq_int (JInt j) i \<longleftrightarrow> j = i"
| "json_eq_int (JBool b) i \<longleftrightarrow> of_bool b = i"
| "json_eq_int _ i \<longleftrightarrow> False"

definition body_of :: "entry \<Rightarrow> entry" where
  "body_of e = filter (\<lambda>(k, v). k \<noteq> ''entry_hash'') e"

text \<open>The checks on the entry of line \<open>i\<close>; \<open>None\<close> when it is accepted.\<close>

definition entry_fault :: "(string \<Rightarrow> string) \<Rightarrow> nat \<Rightarrow> string \<Rightarrow> entry \<Rightarrow> break_reason option" where
  "entry_fault sha i prev e =
     (if \<not> json_eq_int (entry_get e ''index'') (int i) then Some (IndexGap (int i) (entry_get e ''index''))
      else if entry_get e ''prev_hash'' \<noteq> JStr prev then Some (PrevHashMismatch prev (entry_get e ''prev_hash''))
      else if JStr (hash_entry sha (body_of e)) \<noteq> entry_get e ''entry_hash'' then
        Some (EntryHashMismatch (entry_get e ''entry_hash'') (hash_entry sha (body_of e)))
      else None)"

text \<open>
  The loop: line number, expected previous hash, number of entries and hash of the last one.
  The stored hash of an accepted entry is the recomputed one.
\<close>

fun verify_loop ::
  "(string \<Rightarrow> string) \<Rightarrow> (string \<Rightarrow> json option) \<Rightarrow> string list \<Rightarrow> nat \<Rightarrow> string \<Rightarrow> nat \<Rightarrow> string option \<Rightarrow>
   verify_report + (nat \<times> string option)" where
  "verify_loop sha loads [] i prev n lst = Inr (n, lst)"
| "verify_loop sha loads (raw # ls) i prev n lst =
     (if is_blank (rstrip_nl raw) then verify_loop sha loads ls (Suc i) prev n lst
      else case loads (rstrip_nl raw) of
        None \<Rightarrow> Inl (Broken (int i) ParseFailure)
      | Some (JObj e) \<Rightarrow>
          (case entry_fault sha i prev e of
             Some f \<Rightarrow> Inl (Broken (int i) f)
           | None \<Rightarrow>
               let h = hash_entry sha (body_of e) in verify_loop sha loads ls (Suc i) h (Suc n) (Some h))
      | Some _ \<Rightarrow> Inl (VerifyRaised NotAnObject))"

definition verify :: "(string \<Rightarrow> string) \<Rightarrow> (string \<Rightarrow> json option) \<Rightarrow> string option \<Rightarrow> string option \<Rightarrow> verify_report" where
  "verify sha loads file expected =
     (case file of
        None \<Rightarrow> Broken 0 MissingFile
      | Some s \<Rightarrow>
          (case verify_loop sha loads (text_lines s) 0 GENESIS_PREV 0 None of
             Inl r \<Rightarrow> r
           | Inr (n, lst) \<Rightarrow>
               if expected \<noteq> None \<and> lst \<noteq> expected
               then Broken (if n \<noteq> 0 then int n - 1 else 0) (HeadMismatch (the expected) lst)
               else Verified n (case lst of None \<Rightarrow> GENESIS_PREV | Some h \<Rightarrow> if h = [] then GENESIS_PREV else h)))"

section \<open>Tamper evidence\<close>

text \<open>The entries of a file: its non-blank lines that decode to an object.\<close>

fun entries_of :: "(string \<Rightarrow> json option) \<Rightarrow> string list \<Rightarrow> entry list" where
  "entries_of loads [] = []"
| "entries_of loads (raw # ls) =
     (if is_blank (rstrip_nl raw) then entries_of loads ls
      else case loads (rstrip_nl raw) of Some (JObj e) \<Rightarrow> e # entries_of loads ls | _ \<Rightarrow> entries_of loads ls)"

definition entry_text :: "entry \<Rightarrow> string" where
  "entry_text e = canonical (body_of e)"

fun linked :: "(string \<Rightarrow> string) \<Rightarrow> string \<Rightarrow> entry list \<Rightarrow> bool" where
  "linked sha prev [] \<longleftrightarrow> True"
| "linked sha prev (e # es) \<longleftrightarrow> entry_get e ''prev_hash'' = JStr prev \<and> linked sha (sha (entry_text e)) es"

fun head_of :: "(string \<Rightarrow> string) \<Rightarrow> string \<Rightarrow> entry list \<Rightarrow> string" where
  "head_of sha prev [] = prev"
| "head_of sha prev (e # es) = head_of sha (sha (entry_text e)) es"

lemma linked_snoc: "linked sha prev (es @ [e]) \<longleftrightarrow> linked sha prev es \<and> entry_get e ''prev_hash'' = JStr (head_of sha prev es)"
  by (induction es arbitrary: prev) auto

lemma head_of_snoc [simp]: "head_of sha prev (es @ [e]) = sha (entry_text e)"
  by (induction es arbitrary: prev) auto

lemma verify_loop_linked:
  "verify_loop sha loads ls i prev n lst = Inr (n', lst') \<Longrightarrow>
   linked sha prev (entries_of loads ls) \<and> n' = n + length (entries_of loads ls) \<and>
   lst' = (if entries_of loads ls = [] then lst else Some (head_of sha prev (entries_of loads ls)))"
proof (induction ls arbitrary: i prev n lst)
  case (Cons raw ls)
  show ?case
  proof (cases "is_blank (rstrip_nl raw)")
    case True
    then have "verify_loop sha loads ls (Suc i) prev n lst = Inr (n', lst')" using Cons.prems by simp
    from Cons.IH [OF this] show ?thesis using True by auto
  next
    case False
    obtain e where e: "loads (rstrip_nl raw) = Some (JObj e)" "entry_fault sha i prev e = None"
      and v: "verify_loop sha loads ls (Suc i) (hash_entry sha (body_of e)) (Suc n) (Some (hash_entry sha (body_of e))) = Inr (n', lst')"
      using Cons.prems False by (auto simp: Let_def split: option.splits json.splits)
    have "entry_get e ''prev_hash'' = JStr prev" using e(2) by (auto simp: entry_fault_def split: if_splits)
    then show ?thesis using Cons.IH [OF v] e(1) False by (auto simp: hash_entry_def entry_text_def)
  qed
qed simp

lemma verify_loop_Inl: "verify_loop sha loads ls i prev n lst = Inl r \<Longrightarrow> r \<noteq> Verified m x"
proof (induction ls arbitrary: i prev n lst)
  case (Cons raw ls)
  then show ?case by (auto simp: Let_def split: if_splits option.splits json.splits)
qed simp

lemma map_of_sort_key: "map_of (sort_key fst d) k = map_of d k" for d :: "(string \<times> 'a) list"
proof -
  have h: "map_of d k = (case filter (\<lambda>p. fst p = k) d of [] \<Rightarrow> None | p # _ \<Rightarrow> Some (snd p))" for d :: "(string \<times> 'a) list"
    by (induction d) auto
  have "filter (\<lambda>p. fst p = k) (sort_key fst d) = filter (\<lambda>p. fst p = k) d"
    using sort_key_stable [of fst k d] by (simp add: eq_commute)
  then show ?thesis using h [of d] h [of "sort_key fst d"] by simp
qed

lemma sort_json_JStr: "sort_json v = JStr s \<longleftrightarrow> v = JStr s"
  by (cases v) auto

lemma canonical_get:
  assumes "canonical b = canonical b'" "entry_get b k = JStr s"
  shows "entry_get b' k = JStr s"
proof -
  have "sort_json (JObj b) = sort_json (JObj b')" using assms(1) by (simp only: canonical_def dumps_sorted_def dumps_inject)
  then have "sort_key fst (map (\<lambda>(k, v). (k, sort_json v)) b) = sort_key fst (map (\<lambda>(k, v). (k, sort_json v)) b')" by simp
  then have "map_of (sort_key fst (map (\<lambda>(k, v). (k, sort_json v)) b)) k = map_of (sort_key fst (map (\<lambda>(k, v). (k, sort_json v)) b')) k"
    by (rule arg_cong)
  then have m: "map_option sort_json (dict_get b k) = map_option sort_json (dict_get b' k)"
    by (simp add: map_of_sort_key map_of_map)
  have "dict_get b k = Some (JStr s)" using assms(2) by (auto simp: entry_get_def split: option.splits)
  then have "map_option sort_json (dict_get b' k) = Some (JStr s)" using m by simp
  then have "dict_get b' k = Some (JStr s)" by (auto simp: sort_json_JStr)
  then show ?thesis by (simp add: entry_get_def)
qed

lemma entry_get_body: "k \<noteq> ''entry_hash'' \<Longrightarrow> entry_get (body_of e) k = entry_get e k"
proof -
  assume k: "k \<noteq> ''entry_hash''"
  have "dict_get (filter (\<lambda>(k, v). k \<noteq> ''entry_hash'') d) k = dict_get d k" for d :: entry
    using k by (induction d) auto
  then show ?thesis by (simp add: entry_get_def body_of_def)
qed

text \<open>
  Two chains with the same head hash: a collision is a pair of different texts, one of each
  chain, with the same hash, or a text whose hash is the genesis value.
\<close>

definition hash_break :: "(string \<Rightarrow> string) \<Rightarrow> string list \<Rightarrow> string list \<Rightarrow> bool" where
  "hash_break sha xs ys \<longleftrightarrow>
     (\<exists>x \<in> set xs. \<exists>y \<in> set ys. x \<noteq> y \<and> sha x = sha y) \<or> (\<exists>x \<in> set xs \<union> set ys. sha x = GENESIS_PREV)"

lemma hash_break_mono: "hash_break sha xs ys \<Longrightarrow> set xs \<subseteq> set xs' \<Longrightarrow> set ys \<subseteq> set ys' \<Longrightarrow> hash_break sha xs' ys'"
  unfolding hash_break_def by blast

lemma chains_agree:
  assumes "linked sha GENESIS_PREV es" "linked sha GENESIS_PREV fs"
    "head_of sha GENESIS_PREV es = head_of sha GENESIS_PREV fs"
  shows "map entry_text es = map entry_text fs \<or> hash_break sha (map entry_text es) (map entry_text fs)"
  using assms
proof (induction es arbitrary: fs rule: rev_induct)
  case Nil
  then show ?case by (cases fs rule: rev_cases) (auto simp: hash_break_def)
next
  case (snoc a es)
  show ?case
  proof (cases fs rule: rev_cases)
    case Nil
    then show ?thesis using snoc.prems(3) by (auto simp: hash_break_def)
  next
    case fs: (snoc gs b)
    have h: "sha (entry_text a) = sha (entry_text b)" using snoc.prems(3) fs by simp
    show ?thesis
    proof (cases "entry_text a = entry_text b")
      case False
      then show ?thesis using h fs by (auto simp: hash_break_def)
    next
      case True
      have pa: "entry_get (body_of a) ''prev_hash'' = JStr (head_of sha GENESIS_PREV es)"
        and pb: "entry_get (body_of b) ''prev_hash'' = JStr (head_of sha GENESIS_PREV gs)"
        using snoc.prems(1,2) fs by (simp_all add: linked_snoc entry_get_body)
      have "JStr (head_of sha GENESIS_PREV es) = JStr (head_of sha GENESIS_PREV gs)"
        using canonical_get [OF True [unfolded entry_text_def] pa] pb by simp
      then have "map entry_text es = map entry_text gs \<or> hash_break sha (map entry_text es) (map entry_text gs)"
        using snoc.IH [of gs] snoc.prems(1,2) fs by (simp add: linked_snoc)
      then show ?thesis using True fs by (auto intro: hash_break_mono)
    qed
  qed
qed

text \<open>
  C4.  Tamper evidence: two files that both verify against the same recorded head hash hold the
  same entries, text by text and in the same order, unless two different entry texts of the
  two files have the same SHA-256 (or an entry text hashes to the genesis value).  So any
  change, insertion, deletion or reordering of entries of an anchored log is detected, however
  the JSON decoder reads the lines.
\<close>

theorem verify_tamper_evident:
  assumes "verify sha loads (Some f) (Some h) = Verified n x" "verify sha loads (Some g) (Some h) = Verified m y"
  shows "map entry_text (entries_of loads (text_lines f)) = map entry_text (entries_of loads (text_lines g)) \<or>
         hash_break sha (map entry_text (entries_of loads (text_lines f))) (map entry_text (entries_of loads (text_lines g)))"
proof -
  have "linked sha GENESIS_PREV (entries_of loads (text_lines s)) \<and> head_of sha GENESIS_PREV (entries_of loads (text_lines s)) = h"
    if v: "verify sha loads (Some s) (Some h) = Verified k z" for s k z
  proof -
    obtain j lst where l: "verify_loop sha loads (text_lines s) 0 GENESIS_PREV 0 None = Inr (j, lst)" "lst = Some h"
      using v by (auto simp: verify_def dest: verify_loop_Inl split: sum.splits if_splits)
    then show ?thesis using verify_loop_linked [OF l(1)] by (auto split: if_splits)
  qed
  from chains_agree [OF conjunct1 [OF this [OF assms(1)]] conjunct1 [OF this [OF assms(2)]]] this [OF assms(1)] this [OF assms(2)]
  show ?thesis by simp
qed

section \<open>Written logs verify\<close>

definition line_char :: "char \<Rightarrow> bool" where
  "line_char c \<longleftrightarrow> c \<noteq> CHR 0x0A \<and> c \<noteq> CHR 0x0D"

lemma line_charI: "14 \<le> (of_char c :: nat) \<Longrightarrow> line_char c"
  by (auto simp: line_char_def)

lemma line_char_digit: "is_digit c \<Longrightarrow> line_char c"
  by (rule line_charI) (simp add: is_digit_def)

lemma line_char_hex: "n < 16 \<Longrightarrow> line_char (hex_digit n)"
  by (rule line_charI) (simp add: hex_digit_def)

lemma line_char_esc: "list_all line_char (esc c)"
proof -
  have "(of_char c :: nat) < 32 \<Longrightarrow> line_char (hex_digit ((of_char c :: nat) div 16)) \<and> line_char (hex_digit ((of_char c :: nat) mod 16))"
    by (simp add: line_char_hex)
  then show ?thesis by (auto simp: esc_def line_char_def)
qed

lemma line_char_quote: "list_all line_char (quote_str s)"
  using line_char_esc by (auto simp: quote_str_def list_all_iff line_char_def)

lemma line_char_int: "list_all line_char (py_str_int i)"
  using dec_digits line_char_digit by (auto simp: py_str_int_def list_all_iff line_char_def)

lemma line_char_dumps:
  "list_all line_char (dumps v)" "list_all line_char (dump_items vs)" "list_all line_char (dump_fields fs)"
  by (induction v and vs and fs rule: dumps_dump_items_dump_fields.induct)
     (simp_all add: line_char_quote line_char_int, simp_all add: line_char_def)

lemma universal_newlines_id: "CHR 0x0D \<notin> set s \<Longrightarrow> universal_newlines s = s"
  by (induction s rule: universal_newlines.induct) auto

lemma keep_lines_line: "CHR 0x0A \<notin> set l \<Longrightarrow> keep_lines (l @ CHR 0x0A # s) = (l @ [CHR 0x0A]) # keep_lines s"
  by (induction l) auto

lemma keep_lines_written:
  "list_all (list_all line_char) ls \<Longrightarrow> keep_lines (concat (map (\<lambda>l. l @ [CHR 0x0A]) ls)) = map (\<lambda>l. l @ [CHR 0x0A]) ls"
proof (induction ls)
  case (Cons l ls)
  have "CHR 0x0A \<notin> set l" using Cons.prems by (auto simp: list_all_iff line_char_def)
  then show ?case using Cons keep_lines_line [of l "concat (map (\<lambda>l. l @ [CHR 0x0A]) ls)"] by simp
qed simp

lemma text_lines_written:
  assumes "list_all (list_all line_char) ls"
  shows "text_lines (concat (map (\<lambda>l. l @ [CHR 0x0A]) ls)) = map (\<lambda>l. l @ [CHR 0x0A]) ls"
proof -
  have "CHR 0x0D \<notin> set l" if "l \<in> set ls" for l using assms that by (auto simp: list_all_iff line_char_def)
  then have "CHR 0x0D \<notin> set (concat (map (\<lambda>l. l @ [CHR 0x0A]) ls))" by auto
  from universal_newlines_id [OF this] keep_lines_written [OF assms] show ?thesis unfolding text_lines_def by (rule ssubst)
qed

lemma is_blank_iff: "is_blank s \<longleftrightarrow> list_all py_space s"
proof -
  have "py_strip s = [] \<longleftrightarrow> dropWhile py_space s = []"
  proof
    assume "py_strip s = []"
    then have "\<forall>c \<in> set (dropWhile py_space s). py_space c" by (simp add: py_strip_def dropWhile_eq_Nil_conv)
    then show "dropWhile py_space s = []" by (metis dropWhile_eq_Nil_conv hd_dropWhile hd_in_set)
  qed (auto simp: py_strip_def dest: set_dropWhileD)
  then show ?thesis by (simp add: is_blank_def dropWhile_eq_Nil_conv list_all_iff)
qed

lemma object_line:
  "\<not> is_blank (dumps (JObj e) @ [CHR 0x0A])" "\<not> is_blank (dumps (JObj e))" "rstrip_nl (dumps (JObj e) @ [CHR 0x0A]) = dumps (JObj e)"
proof -
  have "\<not> py_space CHR ''{''" by (simp add: py_space_def)
  then show "\<not> is_blank (dumps (JObj e) @ [CHR 0x0A])" "\<not> is_blank (dumps (JObj e))" by (simp_all add: is_blank_iff)
  have "dropWhile (\<lambda>c. c = CHR 0x0A) (rev l) = rev l" if "list_all line_char l" for l
    using that by (cases l rule: rev_cases) (auto simp: line_char_def)
  then show "rstrip_nl (dumps (JObj e) @ [CHR 0x0A]) = dumps (JObj e)"
    using line_char_dumps(1) [of "JObj e"] by (simp add: rstrip_nl_def del: dumps.simps)
qed

text \<open>
  What the log relies on: \<open>json.loads\<close> reads back what \<open>json.dumps\<close> wrote, also with a final
  line feed, when no object has a repeated key.
\<close>

fun unique_keys :: "json \<Rightarrow> bool" where
  "unique_keys (JArr vs) \<longleftrightarrow> (\<forall>v \<in> set vs. unique_keys v)"
| "unique_keys (JObj fs) \<longleftrightarrow> distinct (map fst fs) \<and> (\<forall>(k, v) \<in> set fs. unique_keys v)"
| "unique_keys _ \<longleftrightarrow> True"

definition reads_json :: "(string \<Rightarrow> json option) \<Rightarrow> bool" where
  "reads_json loads \<longleftrightarrow> (\<forall>v. unique_keys v \<longrightarrow> loads (dumps v) = Some v \<and> loads (dumps v @ [CHR 0x0A]) = Some v)"

lemma unique_keys_sort: "unique_keys v \<Longrightarrow> unique_keys (sort_json v)"
proof (induction v rule: sort_json.induct)
  case (2 fs)
  have "map fst (map (\<lambda>(k, v). (k, sort_json v)) gs) = map fst gs" for gs by (induction gs) auto
  then have "distinct (map fst (map (\<lambda>(k, v). (k, sort_json v)) fs))" using 2(2) by (metis unique_keys.simps(2))
  then have "distinct (map fst (sort_key fst (map (\<lambda>(k, v). (k, sort_json v)) fs)))"
    by (simp only: distinct_map set_sort distinct_sort)
  then show ?case using 2 by auto
qed auto

lemma json_sorted_sort: "json_sorted (sort_json v)"
  by (induction v rule: sort_json.induct) auto

text \<open>The entry as it is read back.\<close>

definition stored_entry :: "(string \<Rightarrow> string) \<Rightarrow> int \<Rightarrow> string \<Rightarrow> string \<times> json \<Rightarrow> entry" where
  "stored_entry sha i prev tp =
     [(''entry_hash'', JStr (hash_entry sha (append_entry i (fst tp) (JStr prev) (snd tp)))), (''index'', JInt i),
      (''payload'', sort_json (snd tp)), (''prev_hash'', JStr prev), (''ts'', JStr (fst tp))]"

lemma append_entry_sorted:
  "sort_json (JObj (append_entry i ts (JStr prev) p)) = JObj [(''index'', JInt i), (''payload'', sort_json p), (''prev_hash'', JStr prev), (''ts'', JStr ts)]"
  by (simp add: append_entry_def less_list_code)

lemma canonical_stored:
  "canonical (dict_set ''entry_hash'' (JStr (hash_entry sha (append_entry i (fst tp) (JStr prev) (snd tp))))
     (append_entry i (fst tp) (JStr prev) (snd tp))) = dumps (JObj (stored_entry sha i prev tp))"
proof -
  have "sort_json (JObj (dict_set ''entry_hash'' (JStr h) (append_entry i ts (JStr prev) p))) =
    JObj [(''entry_hash'', JStr h), (''index'', JInt i), (''payload'', sort_json p), (''prev_hash'', JStr prev), (''ts'', JStr ts)]" for h ts p
    by (simp add: append_entry_def less_list_code)
  then show ?thesis by (simp only: canonical_def dumps_sorted_def stored_entry_def)
qed

lemma stored_body_text: "canonical (body_of (stored_entry sha i prev tp)) = canonical (append_entry i (fst tp) (JStr prev) (snd tp))"
proof -
  have "sort_json (JObj (body_of (stored_entry sha i prev tp))) = sort_json (JObj (append_entry i (fst tp) (JStr prev) (snd tp)))"
    unfolding append_entry_sorted by (simp add: body_of_def stored_entry_def less_list_code sort_json_sorted json_sorted_sort)
  then show ?thesis by (simp only: canonical_def dumps_sorted_def)
qed

definition stored_hash :: "(string \<Rightarrow> string) \<Rightarrow> int \<Rightarrow> string \<Rightarrow> string \<times> json \<Rightarrow> string" where
  "stored_hash sha i prev tp = hash_entry sha (append_entry i (fst tp) (JStr prev) (snd tp))"

fun stored_chain :: "(string \<Rightarrow> string) \<Rightarrow> int \<Rightarrow> string \<Rightarrow> (string \<times> json) list \<Rightarrow> entry list" where
  "stored_chain sha i prev [] = []"
| "stored_chain sha i prev (tp # tps) = stored_entry sha i prev tp # stored_chain sha (i + 1) (stored_hash sha i prev tp) tps"

fun chain_head :: "(string \<Rightarrow> string) \<Rightarrow> int \<Rightarrow> string \<Rightarrow> (string \<times> json) list \<Rightarrow> string" where
  "chain_head sha i prev [] = prev"
| "chain_head sha i prev (tp # tps) = chain_head sha (i + 1) (stored_hash sha i prev tp) tps"

definition log_lines :: "entry list \<Rightarrow> string list" where
  "log_lines es = map (\<lambda>e. dumps (JObj e) @ [CHR 0x0A]) es"

lemma stored_chain_snoc:
  "stored_chain sha i prev (tps @ [tp]) = stored_chain sha i prev tps @ [stored_entry sha (i + int (length tps)) (chain_head sha i prev tps) tp]"
  by (induction tps arbitrary: i prev) (auto simp: algebra_simps)

lemma chain_head_snoc:
  "chain_head sha i prev (tps @ [tp]) = stored_hash sha (i + int (length tps)) (chain_head sha i prev tps) tp"
  by (induction tps arbitrary: i prev) (auto simp: algebra_simps)

lemma text_lines_log: "text_lines (concat (log_lines es)) = log_lines es"
proof -
  have "list_all (list_all line_char) (map (\<lambda>e. dumps (JObj e)) es)"
    by (simp add: list.pred_map comp_def line_char_dumps(1) list.pred_True del: dumps.simps)
  from text_lines_written [OF this] show ?thesis by (simp add: log_lines_def comp_def)
qed

lemma loads_stored:
  assumes "reads_json loads" "unique_keys (snd tp)"
  shows "loads (dumps (JObj (stored_entry sha i prev tp))) = Some (JObj (stored_entry sha i prev tp))"
    "loads (dumps (JObj (stored_entry sha i prev tp)) @ [CHR 0x0A]) = Some (JObj (stored_entry sha i prev tp))"
proof -
  have "unique_keys (JObj (stored_entry sha i prev tp))" using assms(2) by (simp add: stored_entry_def unique_keys_sort)
  then show "loads (dumps (JObj (stored_entry sha i prev tp))) = Some (JObj (stored_entry sha i prev tp))"
    "loads (dumps (JObj (stored_entry sha i prev tp)) @ [CHR 0x0A]) = Some (JObj (stored_entry sha i prev tp))"
    using assms(1) unfolding reads_json_def by blast+
qed

lemma stored_entry_accepted:
  "entry_fault sha i prev (stored_entry sha (int i) prev tp) = None"
  "hash_entry sha (body_of (stored_entry sha i' prev tp)) = stored_hash sha i' prev tp"
  by (simp_all add: entry_fault_def hash_entry_def stored_body_text stored_hash_def)
     (simp add: stored_entry_def entry_get_def hash_entry_def)

lemma verify_stored:
  assumes "reads_json loads" "list_all (\<lambda>tp. unique_keys (snd tp)) tps"
  shows "verify_loop sha loads (log_lines (stored_chain sha (int i) prev tps)) i prev n lst =
    Inr (n + length tps, if tps = [] then lst else Some (chain_head sha (int i) prev tps))"
  using assms(2)
proof (induction tps arbitrary: i prev n lst)
  case (Cons tp tps)
  have l: "loads (dumps (JObj (stored_entry sha (int i) prev tp))) = Some (JObj (stored_entry sha (int i) prev tp))"
    using loads_stored(1) [OF assms(1)] Cons.prems by simp
  have "verify_loop sha loads (log_lines (stored_chain sha (int i) prev (tp # tps))) i prev n lst =
    verify_loop sha loads (log_lines (stored_chain sha (int (Suc i)) (stored_hash sha (int i) prev tp) tps)) (Suc i)
      (stored_hash sha (int i) prev tp) (Suc n) (Some (stored_hash sha (int i) prev tp))"
    by (simp add: log_lines_def object_line l stored_entry_accepted Let_def add.commute del: dumps.simps)
  also have "\<dots> = Inr (Suc n + length tps,
      if tps = [] then Some (stored_hash sha (int i) prev tp) else Some (chain_head sha (int (Suc i)) (stored_hash sha (int i) prev tp) tps))"
    using Cons.prems by (intro Cons.IH) simp
  finally show ?case by (simp add: add.commute)
qed (simp add: log_lines_def)

definition log_file :: "(string \<Rightarrow> string) \<Rightarrow> (string \<times> json) list \<Rightarrow> string option" where
  "log_file sha tps = (if tps = [] then None else Some (concat (log_lines (stored_chain sha 0 GENESIS_PREV tps))))"

lemma read_last_stored:
  assumes "reads_json loads" "list_all (\<lambda>tp. unique_keys (snd tp)) (tps @ [tp])"
  shows "read_last loads (log_file sha (tps @ [tp])) =
    Inr (Some (JObj (stored_entry sha (int (length tps)) (chain_head sha 0 GENESIS_PREV tps) tp)))"
proof -
  have "filter (\<lambda>l. \<not> is_blank l) (log_lines es) = log_lines es" for es
    by (simp add: log_lines_def filter_map comp_def object_line del: dumps.simps)
  then have "read_last loads (log_file sha (tps @ [tp])) =
      (case loads (last (log_lines (stored_chain sha 0 GENESIS_PREV (tps @ [tp])))) of None \<Rightarrow> Inl JsonDecodeError | Some v \<Rightarrow> Inr (Some v))"
    by (simp add: read_last_def log_file_def text_lines_log Let_def) (simp add: log_lines_def stored_chain_snoc)
  then show ?thesis
    using loads_stored(2) [OF assms(1), of tp] assms(2) by (simp add: stored_chain_snoc log_lines_def del: dumps.simps)
qed

lemma write_stored:
  "write_entry sha (log_file sha tps) (int (length tps)) (JStr (chain_head sha 0 GENESIS_PREV tps)) (fst tp) (snd tp) =
    (Inr \<lparr>ar_index = int (length tps), ar_entry_hash = chain_head sha 0 GENESIS_PREV (tps @ [tp])\<rparr>, log_file sha (tps @ [tp]))"
  using canonical_stored [of sha "int (length tps)" tp "chain_head sha 0 GENESIS_PREV tps"]
  by (simp add: write_entry_def Let_def log_file_def stored_chain_snoc chain_head_snoc stored_hash_def log_lines_def del: dumps.simps)

lemma append_stored:
  assumes "reads_json loads" "list_all (\<lambda>tp. unique_keys (snd tp)) tps"
  shows "ml_append sha loads (log_file sha tps) tp =
    (Inr \<lparr>ar_index = int (length tps), ar_entry_hash = chain_head sha 0 GENESIS_PREV (tps @ [tp])\<rparr>, log_file sha (tps @ [tp]))"
proof (cases tps rule: rev_cases)
  case Nil
  then show ?thesis using write_stored [of sha "[]" tp] by (simp add: ml_append_def read_last_def log_file_def case_prod_beta)
next
  case (snoc us u)
  have "dict_get (stored_entry sha i p u) ''index'' = Some (JInt i)"
    "dict_get (stored_entry sha i p u) ''entry_hash'' = Some (JStr (stored_hash sha i p u))" for i p
    by (simp_all add: stored_entry_def stored_hash_def)
  then show ?thesis using read_last_stored [OF assms(1), of us u sha] assms(2) snoc write_stored [of sha tps tp]
    by (simp add: ml_append_def chain_head_snoc case_prod_beta add.commute)
qed

lemma run_stored:
  assumes "reads_json loads" "list_all (\<lambda>tp. unique_keys (snd tp)) tps"
  shows "run (ml_append sha loads) None tps =
    (map (\<lambda>n. Inr \<lparr>ar_index = int n, ar_entry_hash = chain_head sha 0 GENESIS_PREV (take (Suc n) tps)\<rparr>) [0..<length tps], log_file sha tps)"
  using assms(2)
proof (induction tps rule: rev_induct)
  case (snoc tp tps)
  have "take (Suc n) (tps @ [tp]) = take (Suc n) tps" if "n < length tps" for n using that by simp
  then show ?case using snoc append_stored [OF assms(1), of tps sha tp] by (auto simp: run_append)
qed (simp add: log_file_def)

text \<open>
  C37.  Completeness of the chain: whatever is appended to a new log (each append re-reads the
  file, so restarts in between change nothing), no append fails, the indices are consecutive
  from 0, and the file verifies against the hash the last append returned, with the number
  of appended entries.
\<close>

theorem appended_log_verifies:
  assumes "reads_json loads" "list_all (\<lambda>tp. unique_keys (snd tp)) tps" "\<forall>x. sha x \<noteq> []" "tps \<noteq> []"
    "run (ml_append sha loads) None tps = (rs, file)"
  shows "all_ok rs \<and> map ar_index (oks rs) = map int [0..<length tps] \<and>
         verify sha loads file (Some (ar_entry_hash (last (oks rs)))) = Verified (length tps) (ar_entry_hash (last (oks rs)))"
proof -
  have r: "rs = map (\<lambda>n. Inr \<lparr>ar_index = int n, ar_entry_hash = chain_head sha 0 GENESIS_PREV (take (Suc n) tps)\<rparr>) [0..<length tps]"
    and f: "file = log_file sha tps"
    using run_stored [OF assms(1,2), of sha] assms(5) by simp_all
  have ok: "oks (map (\<lambda>n. Inr (g n)) ns) = map g ns" "all_ok (map (\<lambda>n. Inr (g n)) ns)" for g :: "nat \<Rightarrow> append_result" and ns
    by (induction ns) auto
  let ?h = "chain_head sha 0 GENESIS_PREV tps"
  have h: "ar_entry_hash (last (oks rs)) = ?h" using assms(4) by (simp add: r ok last_map)
  have ne: "?h \<noteq> []"
    using assms(3,4) by (cases tps rule: rev_cases) (simp_all add: chain_head_snoc stored_hash_def hash_entry_def)
  have "verify_loop sha loads (text_lines (concat (log_lines (stored_chain sha 0 GENESIS_PREV tps)))) 0 GENESIS_PREV 0 None = Inr (length tps, Some ?h)"
    using verify_stored [OF assms(1,2), of sha 0] assms(4) by (simp add: text_lines_log)
  then have "verify sha loads file (Some ?h) = Verified (length tps) ?h"
    using ne f assms(4) by (simp add: verify_def log_file_def)
  then show ?thesis using h by (simp add: r ok comp_def)
qed

section \<open>Instances\<close>

text \<open>A decoder for the texts the log writes: serialisation is injective.\<close>

definition decode :: "string \<Rightarrow> json option" where
  "decode s =
     (let t = rstrip_nl s in if t \<in> range dumps then Some (inv dumps t) else None)"

lemma decode_reads_json: "reads_json decode"
proof -
  have i: "inj dumps" by (rule injI) (simp add: dumps_inject)
  have "dropWhile (\<lambda>c. c = CHR 0x0A) (rev l) = rev l" if "list_all line_char l" for l
    using that by (cases l rule: rev_cases) (auto simp: line_char_def)
  then have "rstrip_nl (dumps v) = dumps v" "rstrip_nl (dumps v @ [CHR 0x0A]) = dumps v" for v
    using line_char_dumps(1) [of v] by (simp_all add: rstrip_nl_def)
  then show ?thesis using i by (simp add: reads_json_def decode_def inv_f_f)
qed

theorem appended_log_verifies_witness:
  "\<exists>rs file. run (ml_append (\<lambda>x. ''h'') decode) None [(''t0'', JNull), (''t1'', JInt 3)] = (rs, file) \<and>
     verify (\<lambda>x. ''h'') decode file (Some (ar_entry_hash (last (oks rs)))) = Verified 2 (ar_entry_hash (last (oks rs)))"
proof -
  obtain rs fl where r: "run (ml_append (\<lambda>x. ''h'') decode) None [(''t0'', JNull), (''t1'', JInt 3)] = (rs, fl)" by (metis surj_pair)
  from appended_log_verifies [OF decode_reads_json _ _ _ r] show ?thesis using r by (simp add: numeral_2_eq_2)
qed

definition demo_entry :: entry where
  "demo_entry = stored_entry (\<lambda>x. ''h'') 0 GENESIS_PREV (''t'', JNull)"

lemma demo_verifies: "verify (\<lambda>x. ''h'') (\<lambda>s. Some (JObj demo_entry)) (Some ''x'') (Some ''h'') = Verified 1 ''h''"
proof -
  have "text_lines ''x'' = [''x'']" "\<not> is_blank (rstrip_nl ''x'')"
    by (simp_all add: text_lines_def is_blank_iff rstrip_nl_def py_space_def)
  then show ?thesis
    using stored_entry_accepted(1) [of "\<lambda>x. ''h''" 0 GENESIS_PREV "(''t'', JNull)"]
    by (simp add: verify_def demo_entry_def hash_entry_def)
qed

theorem verify_tamper_evident_witness:
  "verify (\<lambda>x. ''h'') (\<lambda>s. Some (JObj demo_entry)) (Some ''x'') (Some ''h'') = Verified 1 ''h'' \<and>
   (map entry_text (entries_of (\<lambda>s. Some (JObj demo_entry)) (text_lines ''x'')) =
      map entry_text (entries_of (\<lambda>s. Some (JObj demo_entry)) (text_lines ''x'')) \<or>
    hash_break (\<lambda>x. ''h'') (map entry_text (entries_of (\<lambda>s. Some (JObj demo_entry)) (text_lines ''x'')))
      (map entry_text (entries_of (\<lambda>s. Some (JObj demo_entry)) (text_lines ''x''))))"
  using demo_verifies verify_tamper_evident [OF demo_verifies demo_verifies] by blast

text \<open>
  Blank lines: \<open>append\<close> skips them, but the line counter of \<open>verify\<close> counts them, so a log
  with a blank line between two entries, to which \<open>append\<close> goes on adding, does not verify.
\<close>

lemma blank_line_breaks_verify:
  "verify sha (\<lambda>s. Some (JObj (stored_entry sha 0 GENESIS_PREV (''t'', JNull)))) (Some [CHR 0x0A, CHR ''x'']) None =
   Broken 1 (IndexGap 1 (JInt 0))"
proof -
  have "text_lines [CHR 0x0A, CHR ''x''] = [[CHR 0x0A], ''x'']" "\<not> is_blank (rstrip_nl ''x'')" "is_blank (rstrip_nl [CHR 0x0A])"
    by (simp_all add: text_lines_def is_blank_iff rstrip_nl_def py_space_def)
  then show ?thesis by (simp add: verify_def entry_fault_def entry_get_def stored_entry_def)
qed

end
