(* ===== verification/Checkpointer.thy ===== *)
theory Checkpointer
  imports Py_Json
begin

text \<open>
  The partial-output checkpointer (\<open>partial-output-checkpointer/checkpointer.py\<close>): buffering and
  flushing, the durable sink and the checkpoint log, and recovery from a log that was cut off
  at any byte.  The clock readings are arguments of the operations (\<open>t_check\<close> is read when
  the policy looks at the clock, \<open>t_flush\<close> when a flush happens).  SHA-256, \<open>json.loads\<close> and
  the text Python prints for a float are parameters.
\<close>

section \<open>Policy and state\<close>

record flush_policy =
  every_bytes :: int
  every_seconds :: rat

datatype checkpoint_error =
    EveryBytesNotPositive
  | EverySecondsNotPositive
  | AppendAfterFinalize
  | AlreadyFinalized
  | TornRecord nat
  | StreamIdMismatch nat
  | NonDenseSeqs
  | BadRecord

definition new_policy :: "int \<Rightarrow> rat \<Rightarrow> checkpoint_error + flush_policy" where
  "new_policy b s =
     (if b \<le> 0 then Inl EveryBytesNotPositive
      else if s \<le> 0 then Inl EverySecondsNotPositive
      else Inr \<lparr>every_bytes = b, every_seconds = s\<rparr>)"

record ck_record =
  k_stream :: string
  k_seq :: nat
  k_committed :: nat
  k_chunk :: nat
  k_sha :: string
  k_flushed_at :: rat
  k_reason :: string

text \<open>\<open>hashed\<close> are the bytes the running hash has seen; \<open>sink\<close> and \<open>ck_log\<close> are what the injected writers received.\<close>

record checkpointer =
  stream_id :: string
  ck_policy :: flush_policy
  ck_buf :: "byte list"
  bytes_committed :: nat
  hashed :: "byte list"
  last_flush_at :: rat
  ck_seq :: nat
  finalized :: bool
  sink :: "byte list"
  ck_log :: "ck_record list"

definition new_checkpointer :: "string \<Rightarrow> flush_policy \<Rightarrow> rat \<Rightarrow> checkpointer" where
  "new_checkpointer sid p now =
     \<lparr>stream_id = sid, ck_policy = p, ck_buf = [], bytes_committed = 0, hashed = [], last_flush_at = now, ck_seq = 0,
      finalized = False, sink = [], ck_log = []\<rparr>"

section \<open>Operations\<close>

definition should_flush :: "checkpointer \<Rightarrow> rat \<Rightarrow> bool" where
  "should_flush c t =
     (if int (length (ck_buf c)) \<ge> every_bytes (ck_policy c) then True
      else if t - last_flush_at c \<ge> every_seconds (ck_policy c) then length (ck_buf c) > 0
      else False)"

definition ck_flush :: "(byte list \<Rightarrow> string) \<Rightarrow> checkpointer \<Rightarrow> string \<Rightarrow> rat \<Rightarrow> checkpointer" where
  "ck_flush sha c reason t =
     (if ck_buf c = [] \<and> reason \<noteq> ''finalize'' then c
      else
        let payload = ck_buf c; h = hashed c @ payload; n = bytes_committed c + length payload;
            r = \<lparr>k_stream = stream_id c, k_seq = ck_seq c, k_committed = n, k_chunk = length payload, k_sha = sha h,
                 k_flushed_at = py_round 6 t, k_reason = reason\<rparr> in
        c\<lparr>sink := sink c @ payload, hashed := h, bytes_committed := n, ck_buf := [], last_flush_at := t,
          ck_log := ck_log c @ [r], ck_seq := ck_seq c + 1\<rparr>)"

definition ck_append ::
  "(byte list \<Rightarrow> string) \<Rightarrow> checkpointer \<Rightarrow> byte list \<Rightarrow> rat \<Rightarrow> rat \<Rightarrow> (checkpoint_error, nat, checkpointer) outcome" where
  "ck_append sha c chunk t_check t_flush =
     (if finalized c then (Inl AppendAfterFinalize, c)
      else
        let c1 = c\<lparr>ck_buf := ck_buf c @ chunk\<rparr> in
        if should_flush c1 t_check then (Inr 1, ck_flush sha c1 ''policy'' t_flush) else (Inr 0, c1))"

record final_report =
  f_stream :: string
  f_committed :: nat
  f_sha :: string
  f_checkpoints :: nat

definition ck_finalize :: "(byte list \<Rightarrow> string) \<Rightarrow> checkpointer \<Rightarrow> rat \<Rightarrow> (checkpoint_error, final_report, checkpointer) outcome" where
  "ck_finalize sha c t =
     (if finalized c then (Inl AlreadyFinalized, c)
      else
        let c1 = (ck_flush sha c ''finalize'' t)\<lparr>finalized := True\<rparr> in
        (Inr \<lparr>f_stream = stream_id c1, f_committed = bytes_committed c1, f_sha = sha (hashed c1), f_checkpoints = ck_seq c1\<rparr>, c1))"

record ck_state =
  cs_stream :: string
  cs_buffered :: nat
  cs_committed :: nat
  cs_checkpoints :: nat
  cs_finalized :: bool

definition ck_state_of :: "checkpointer \<Rightarrow> ck_state" where
  "ck_state_of c = \<lparr>cs_stream = stream_id c, cs_buffered = length (ck_buf c), cs_committed = bytes_committed c,
     cs_checkpoints = ck_seq c, cs_finalized = finalized c\<rparr>"

section \<open>The log text\<close>

definition json_field :: "string \<Rightarrow> string \<Rightarrow> string" where
  "json_field k v = quote_ascii k @ '':'' @ v"

definition record_line :: "(rat \<Rightarrow> string) \<Rightarrow> ck_record \<Rightarrow> string" where
  "record_line float_repr r =
     ''{'' @ json_field ''bytes_committed'' (py_str_int (int (k_committed r)))
     @ '','' @ json_field ''chunk_bytes'' (py_str_int (int (k_chunk r)))
     @ '','' @ json_field ''flushed_at'' (float_repr (k_flushed_at r))
     @ '','' @ json_field ''reason'' (quote_ascii (k_reason r))
     @ '','' @ json_field ''running_sha256'' (quote_ascii (k_sha r))
     @ '','' @ json_field ''seq'' (py_str_int (int (k_seq r)))
     @ '','' @ json_field ''stream_id'' (quote_ascii (k_stream r)) @ ''}''"

definition record_dict :: "ck_record \<Rightarrow> (string, pyval) dict" where
  "record_dict r =
     [(''bytes_committed'', PInt (int (k_committed r))), (''chunk_bytes'', PInt (int (k_chunk r))),
      (''flushed_at'', PFloat (k_flushed_at r)), (''reason'', PStr (k_reason r)), (''running_sha256'', PStr (k_sha r)),
      (''seq'', PInt (int (k_seq r))), (''stream_id'', PStr (k_stream r))]"

definition log_text :: "(rat \<Rightarrow> string) \<Rightarrow> ck_record list \<Rightarrow> string" where
  "log_text float_repr rs = concat (map (\<lambda>r. record_line float_repr r @ [CHR 0x0A]) rs)"

section \<open>Recovery\<close>

text \<open>\<open>str.splitlines()\<close>: the line boundaries among the characters of the model; \<open>\\r\\n\<close> is one.\<close>

definition line_break :: "char \<Rightarrow> bool" where
  "line_break c \<longleftrightarrow> (of_char c :: nat) \<in> {10, 11, 12, 13, 28, 29, 30, 133}"

fun py_splitlines :: "string \<Rightarrow> string list" where
  "py_splitlines [] = []"
| "py_splitlines (c # s) =
     (if line_break c then
        [] # (case s of [] \<Rightarrow> [] | d # r \<Rightarrow> if c = CHR 0x0D \<and> d = CHR 0x0A then py_splitlines r else py_splitlines s)
      else case s of
        [] \<Rightarrow> [[c]]
      | _ \<Rightarrow> (case py_splitlines s of [] \<Rightarrow> [[c]] | l # ls \<Rightarrow> (c # l) # ls))"

record recovery_plan =
  rp_stream :: pyval
  rp_committed :: pyval
  rp_sha :: pyval
  intact_records :: nat
  torn_trailing :: bool

text \<open>The loop over the numbered lines, of which there are \<open>n\<close>; it returns the intact records and the torn flag.\<close>

fun recover_loop ::
  "(string \<Rightarrow> pyval option) \<Rightarrow> string option \<Rightarrow> nat \<Rightarrow> (nat \<times> string) list \<Rightarrow> pyval list \<Rightarrow> bool \<Rightarrow> checkpoint_error + (pyval list \<times> bool)" where
  "recover_loop loads expected n [] intact torn = Inr (intact, torn)"
| "recover_loop loads expected n ((i, l) # ls) intact torn =
     (if py_strip l = [] then recover_loop loads expected n ls intact torn
      else case loads l of
        None \<Rightarrow> if i = n - 1 then recover_loop loads expected n ls intact True else Inl (TornRecord i)
      | Some rec \<Rightarrow>
          (case expected of
             None \<Rightarrow> recover_loop loads expected n ls (intact @ [rec]) torn
           | Some sid \<Rightarrow>
               (case rec of
                  PDict d \<Rightarrow>
                    if py_get rec ''stream_id'' \<noteq> PStr sid then Inl (StreamIdMismatch i)
                    else recover_loop loads expected n ls (intact @ [rec]) torn
                | _ \<Rightarrow> Inl BadRecord)))"

definition item :: "pyval \<Rightarrow> string \<Rightarrow> pyval option" where
  "item v k = (case v of PDict d \<Rightarrow> dict_get d k | _ \<Rightarrow> None)"

fun equals_nat :: "pyval \<Rightarrow> nat \<Rightarrow> bool" where
  "equals_nat (PInt i) n \<longleftrightarrow> i = int n"
| "equals_nat (PBool b) n \<longleftrightarrow> of_bool b = n"
| "equals_nat (PFloat r) n \<longleftrightarrow> r = of_nat n"
| "equals_nat _ n \<longleftrightarrow> False"

definition recover :: "(string \<Rightarrow> pyval option) \<Rightarrow> string \<Rightarrow> string option \<Rightarrow> checkpoint_error + recovery_plan" where
  "recover loads txt expected =
     (let lines = py_splitlines txt in
      case recover_loop loads expected (length lines) (zip [0..<length lines] lines) [] False of
        Inl e \<Rightarrow> Inl e
      | Inr (intact, torn) \<Rightarrow>
          if intact = [] then
            Inr \<lparr>rp_stream = (case expected of None \<Rightarrow> PNone | Some s \<Rightarrow> PStr s), rp_committed = PInt 0, rp_sha = PNone,
                 intact_records = 0, torn_trailing = torn\<rparr>
          else
            (case those (map (\<lambda>r. item r ''seq'') intact) of
               None \<Rightarrow> Inl BadRecord
             | Some seqs \<Rightarrow>
                 if \<not> list_all2 equals_nat seqs [0..<length intact] then Inl NonDenseSeqs
                 else
                   (case (item (last intact) ''stream_id'', item (last intact) ''bytes_committed'', item (last intact) ''running_sha256'') of
                      (Some s, Some b, Some h) \<Rightarrow>
                        Inr \<lparr>rp_stream = s, rp_committed = b, rp_sha = h, intact_records = length intact, torn_trailing = torn\<rparr>
                    | _ \<Rightarrow> Inl BadRecord)))"

definition plan_to_dict :: "recovery_plan \<Rightarrow> (string, pyval) dict" where
  "plan_to_dict p = [(''stream_id'', rp_stream p), (''bytes_committed'', rp_committed p), (''last_running_sha256'', rp_sha p),
     (''intact_records'', PInt (int (intact_records p))), (''torn_trailing_record'', PBool (torn_trailing p))]"

section \<open>Lines of the log\<close>

definition printable :: "char \<Rightarrow> bool" where
  "printable c \<longleftrightarrow> 32 \<le> (of_char c :: nat) \<and> (of_char c :: nat) \<le> 126"

lemma printable_no_break: "printable c \<Longrightarrow> \<not> line_break c"
  by (auto simp: printable_def line_break_def)

lemma printable_hex: "n < 16 \<Longrightarrow> printable (hex_digit n)"
  by (simp add: printable_def hex_digit_def)

lemma printable_esc_ascii: "list_all printable (esc_ascii c)"
proof (cases "(of_char c :: nat) \<ge> 127")
  case True
  have "(of_char c :: nat) < 256" by (rule nat_of_char_less_256)
  then have "(of_char c :: nat) div 16 < 16" by (intro less_mult_imp_div_less) simp
  then show ?thesis using True by (simp add: esc_ascii_def printable_hex) (simp add: printable_def)
next
  case False
  have "(of_char c :: nat) < 32 \<Longrightarrow> printable (hex_digit ((of_char c :: nat) div 16)) \<and> printable (hex_digit ((of_char c :: nat) mod 16))"
    by (simp add: printable_hex)
  then show ?thesis using False by (auto simp: esc_ascii_def esc_def printable_def)
qed

lemma printable_quote: "list_all printable (quote_ascii s)"
  using printable_esc_ascii by (auto simp: quote_ascii_def list_all_iff printable_def)

lemma printable_int: "list_all printable (py_str_int i)"
proof -
  have "is_digit c \<Longrightarrow> printable c" for c by (simp add: is_digit_def printable_def)
  then have "list_all printable (dec n)" for n using dec_digits [of n] by (simp add: list_all_iff)
  then show ?thesis by (simp add: py_str_int_def printable_def)
qed

lemma printable_line:
  assumes "\<And>x. list_all printable (float_repr x)"
  shows "list_all printable (record_line float_repr r)"
  using assms by (simp add: record_line_def json_field_def printable_quote printable_int) (simp add: printable_def)

lemma record_line_hd: "\<exists>s. record_line float_repr r = CHR ''{'' # s"
  by (simp add: record_line_def)

lemma splitlines_line:
  "list_all printable l \<Longrightarrow> py_splitlines (l @ CHR 0x0A # s) = l # py_splitlines s"
proof (induction l)
  case Nil
  have "line_break CHR 0x0A" by (simp add: line_break_def)
  then show ?case by (cases s) simp_all
next
  case (Cons c l)
  then have "\<not> line_break c" by (simp add: printable_no_break)
  then show ?case using Cons by (cases "l @ CHR 0x0A # s") auto
qed

lemma splitlines_rest: "list_all printable l \<Longrightarrow> l \<noteq> [] \<Longrightarrow> py_splitlines l = [l]"
proof (induction l)
  case (Cons c l)
  then have "\<not> line_break c" by (simp add: printable_no_break)
  then show ?case using Cons by (cases l) auto
qed simp

lemma splitlines_log:
  assumes "\<And>x. list_all printable (float_repr x)" "list_all printable t"
  shows "py_splitlines (log_text float_repr rs @ t) = map (record_line float_repr) rs @ (if t = [] then [] else [t])"
proof (induction rs)
  case Nil
  then show ?case using assms(2) by (simp add: log_text_def splitlines_rest)
next
  case (Cons r rs)
  have "log_text float_repr (r # rs) @ t = record_line float_repr r @ CHR 0x0A # (log_text float_repr rs @ t)"
    by (simp add: log_text_def)
  then show ?case using Cons splitlines_line [OF printable_line [OF assms(1)]] by simp
qed

text \<open>Where a cut can fall: after \<open>n\<close> whole lines and \<open>k\<close> characters of the next one.\<close>

lemma log_prefix_cases:
  assumes "prefix p (log_text float_repr rs)"
  shows "\<exists>n k. n \<le> length rs \<and> (n = length rs \<longrightarrow> k = 0) \<and> (n < length rs \<longrightarrow> k \<le> length (record_line float_repr (rs ! n))) \<and>
    p = log_text float_repr (take n rs) @ (if n < length rs then take k (record_line float_repr (rs ! n)) else [])"
  using assms
proof (induction rs arbitrary: p)
  case Nil
  then show ?case by (simp add: log_text_def)
next
  case (Cons r rs)
  let ?l = "record_line float_repr r"
  have t: "log_text float_repr (r # rs) = (?l @ [CHR 0x0A]) @ log_text float_repr rs" by (simp add: log_text_def)
  consider (part) "prefix p ?l" | (whole) q where "p = (?l @ [CHR 0x0A]) @ q" "prefix q (log_text float_repr rs)"
  proof (cases "length p \<le> length ?l")
    case True
    then have "prefix p ?l" using Cons.prems t prefix_append_fit [of p "?l" "[CHR 0x0A] @ log_text float_repr rs"] by simp
    then show thesis by (rule part)
  next
    case False
    then have "prefix (?l @ [CHR 0x0A]) p"
      using Cons.prems t by (metis prefix_same_cases prefix_prefix prefix_def length_append_singleton not_less_eq_eq prefix_length_le prefix_order.order_refl prefix_length_prefix Suc_leI not_le)
    then obtain q where "p = (?l @ [CHR 0x0A]) @ q" by (auto simp: prefix_def)
    then show thesis using Cons.prems t whole by (metis same_prefix_prefix)
  qed
  then show ?case
  proof cases
    case part
    then obtain k where "k \<le> length ?l" "p = take k ?l" by (metis prefix_iff_take prefix_length_le)
    then show ?thesis by (intro exI [of _ 0] exI [of _ k]) (simp add: log_text_def)
  next
    case (whole q)
    obtain n k where nk: "n \<le> length rs" "n = length rs \<longrightarrow> k = 0" "n < length rs \<longrightarrow> k \<le> length (record_line float_repr (rs ! n))"
      "q = log_text float_repr (take n rs) @ (if n < length rs then take k (record_line float_repr (rs ! n)) else [])"
      using Cons.IH [OF whole(2)] by blast
    then show ?thesis using whole(1) by (intro exI [of _ "Suc n"] exI [of _ k]) (simp add: log_text_def)
  qed
qed

section \<open>Recovery from a cut log\<close>

text \<open>
  What recovery relies on: the decoder reads every line that was written, and refuses every
  proper prefix of one.
\<close>

definition reads_log :: "(string \<Rightarrow> pyval option) \<Rightarrow> (rat \<Rightarrow> string) \<Rightarrow> ck_record list \<Rightarrow> bool" where
  "reads_log loads float_repr rs \<longleftrightarrow>
     (\<forall>r \<in> set rs. loads (record_line float_repr r) = Some (PDict (record_dict r)) \<and>
        (\<forall>k. 0 < k \<and> k < length (record_line float_repr r) \<longrightarrow> loads (take k (record_line float_repr r)) = None))"

lemma line_not_blank:
  assumes "0 < k"
  shows "py_strip (take k (record_line float_repr r)) \<noteq> []"
proof
  obtain s where s: "record_line float_repr r = CHR ''{'' # s" using record_line_hd by blast
  obtain j where "k = Suc j" using assms by (cases k) auto
  then have t: "take k (record_line float_repr r) = CHR ''{'' # take j s" using s by simp
  have "\<not> py_space CHR ''{''" by (simp add: py_space_def)
  moreover assume "py_strip (take k (record_line float_repr r)) = []"
  ultimately show False unfolding t py_strip_def by (auto simp: dropWhile_eq_Nil_conv)
qed

lemma recover_loop_lines:
  assumes "reads_log loads float_repr rs" "\<forall>r \<in> set rs. k_stream r = sid"
  shows "recover_loop loads (Some sid) n (zip [i..<i + length rs] (map (record_line float_repr) rs) @ rest) acc torn =
    recover_loop loads (Some sid) n rest (acc @ map (PDict \<circ> record_dict) rs) torn"
  using assms
proof (induction rs arbitrary: i acc)
  case (Cons r rs)
  have l: "loads (record_line float_repr r) = Some (PDict (record_dict r))" "k_stream r = sid"
    using Cons.prems by (auto simp: reads_log_def)
  have b: "py_strip (record_line float_repr r) \<noteq> []"
    using line_not_blank [of "length (record_line float_repr r)" float_repr r] record_line_hd [of float_repr r] by fastforce
  have g: "py_get (PDict (record_dict r)) ''stream_id'' = PStr sid" using l(2) by (simp add: record_dict_def)
  have "[i..<i + length (r # rs)] = i # [Suc i..<Suc i + length rs]"
    using upt_conv_Cons [of i "i + Suc (length rs)"] by simp
  then have "recover_loop loads (Some sid) n (zip [i..<i + length (r # rs)] (map (record_line float_repr) (r # rs)) @ rest) acc torn =
      recover_loop loads (Some sid) n (zip [Suc i..<Suc i + length rs] (map (record_line float_repr) rs) @ rest) (acc @ [PDict (record_dict r)]) torn"
    using l(1) b g by simp
  then show ?case using Cons.IH [of "Suc i" "acc @ [PDict (record_dict r)]"] Cons.prems by (simp add: reads_log_def)
qed simp

definition plan_of :: "string \<Rightarrow> ck_record list \<Rightarrow> bool \<Rightarrow> recovery_plan" where
  "plan_of sid rs torn =
     (if rs = [] then \<lparr>rp_stream = PStr sid, rp_committed = PInt 0, rp_sha = PNone, intact_records = 0, torn_trailing = torn\<rparr>
      else \<lparr>rp_stream = PStr sid, rp_committed = PInt (int (k_committed (last rs))), rp_sha = PStr (k_sha (last rs)),
            intact_records = length rs, torn_trailing = torn\<rparr>)"

lemma recover_from_loop:
  assumes "recover_loop loads (Some sid) (length (py_splitlines txt)) (zip [0..<length (py_splitlines txt)] (py_splitlines txt)) [] False =
      Inr (map (PDict \<circ> record_dict) rs, torn)"
    and "\<forall>i < length rs. k_seq (rs ! i) = i \<and> k_stream (rs ! i) = sid"
  shows "recover loads txt (Some sid) = Inr (plan_of sid rs torn)"
proof (cases "rs = []")
  case True
  then show ?thesis using assms(1) by (simp add: recover_def plan_of_def)
next
  case False
  have "those (map (\<lambda>r. item r ''seq'') (map (PDict \<circ> record_dict) xs)) = Some (map (\<lambda>r. PInt (int (k_seq r))) xs)" for xs
    by (induction xs) (simp_all add: item_def record_dict_def)
  moreover have "list_all2 equals_nat (map (\<lambda>r. PInt (int (k_seq r))) rs) [0..<length rs]"
    using assms(2) by (simp add: list_all2_conv_all_nth)
  moreover have "k_stream (last rs) = sid" using assms(2) False by (simp add: last_conv_nth)
  moreover have "last (map (PDict \<circ> record_dict) rs) = PDict (record_dict (last rs))" using False by (simp add: last_map)
  ultimately show ?thesis using assms(1) False
    by (simp add: recover_def plan_of_def item_def record_dict_def del: map_map)
qed

lemma log_text_Suc:
  "n < length rs \<Longrightarrow> log_text float_repr (take (Suc n) rs) = log_text float_repr (take n rs) @ record_line float_repr (rs ! n) @ [CHR 0x0A]"
  by (simp add: log_text_def take_Suc_conv_app_nth)

text \<open>The outcome of recovery for a cut in the middle of line \<open>n\<close>.\<close>

lemma recover_lines:
  assumes rl: "reads_log loads float_repr rs" and pr: "\<And>x. list_all printable (float_repr x)"
    and ok: "\<forall>i < length rs. k_seq (rs ! i) = i \<and> k_stream (rs ! i) = sid" and n: "n \<le> length rs"
  shows "recover loads (log_text float_repr (take n rs)) (Some sid) = Inr (plan_of sid (take n rs) False)"
    and "n < length rs \<Longrightarrow> 0 < k \<Longrightarrow> k < length (record_line float_repr (rs ! n)) \<Longrightarrow>
      recover loads (log_text float_repr (take n rs) @ take k (record_line float_repr (rs ! n))) (Some sid) = Inr (plan_of sid (take n rs) True)"
    and "n < length rs \<Longrightarrow>
      recover loads (log_text float_repr (take n rs) @ record_line float_repr (rs ! n)) (Some sid) = Inr (plan_of sid (take (Suc n) rs) False)"
proof -
  have rl': "reads_log loads float_repr (take m rs)" "\<forall>r \<in> set (take m rs). k_stream r = sid"
    "\<forall>i < length (take m rs). k_seq (take m rs ! i) = i \<and> k_stream (take m rs ! i) = sid" for m
    using rl ok by (auto simp: reads_log_def dest!: in_set_takeD) (metis in_set_conv_nth)
  have split: "py_splitlines (log_text float_repr (take m rs) @ t) = map (record_line float_repr) (take m rs) @ (if t = [] then [] else [t])"
    if "list_all printable t" for m t
    using splitlines_log [OF pr that] .
  have loop: "recover_loop loads (Some sid) N (zip [0..<length (take m rs)] (map (record_line float_repr) (take m rs)) @ rest) [] False =
      recover_loop loads (Some sid) N rest (map (PDict \<circ> record_dict) (take m rs)) False" for N m rest
    using recover_loop_lines [OF rl'(1,2), of N 0 m rest "[]" False] by simp
  show "recover loads (log_text float_repr (take n rs)) (Some sid) = Inr (plan_of sid (take n rs) False)"
    by (rule recover_from_loop [OF _ rl'(3)]) (use split [of "[]" n] loop [of _ n "[]"] in simp)
  let ?l = "record_line float_repr (rs ! n)"
  { assume less: "n < length rs" and k: "0 < k" "k < length ?l"
    have t: "list_all printable (take k ?l)" "take k ?l \<noteq> []" "loads (take k ?l) = None" "py_strip (take k ?l) \<noteq> []"
      using printable_line [where float_repr = float_repr and r = "rs ! n", OF pr] k rl less line_not_blank [OF k(1)]
      by (auto simp: list_all_iff reads_log_def dest: in_set_takeD)
    show "recover loads (log_text float_repr (take n rs) @ take k ?l) (Some sid) = Inr (plan_of sid (take n rs) True)"
      by (rule recover_from_loop [OF _ rl'(3)]) (use split [OF t(1), of n] loop [of _ n "[(n, take k ?l)]"] t less in simp) }
  assume less: "n < length rs"
  have sp: "py_splitlines (log_text float_repr (take n rs) @ ?l) = map (record_line float_repr) (take (Suc n) rs)"
    using split [OF printable_line [where float_repr = float_repr and r = "rs ! n", OF pr], of n] less record_line_hd [of float_repr "rs ! n"]
    by (auto simp: take_Suc_conv_app_nth)
  show "recover loads (log_text float_repr (take n rs) @ ?l) (Some sid) = Inr (plan_of sid (take (Suc n) rs) False)"
    by (rule recover_from_loop [OF _ rl'(3)]) (use sp loop [of _ "Suc n" "[]"] in simp)
qed

lemma recover_cut:
  assumes rl: "reads_log loads float_repr rs" and pr: "\<And>x. list_all printable (float_repr x)"
    and ok: "\<forall>i < length rs. k_seq (rs ! i) = i \<and> k_stream (rs ! i) = sid" and p: "prefix p (log_text float_repr rs)"
  shows "\<exists>n torn. n \<le> length rs \<and> recover loads p (Some sid) = Inr (plan_of sid (take n rs) torn) \<and>
    length (log_text float_repr (take n rs)) \<le> length p + 1 \<and>
    (n < length rs \<longrightarrow> length p < length (log_text float_repr (take (Suc n) rs)))"
proof -
  note rec = recover_lines [OF rl pr ok]
  obtain n k where n: "n \<le> length rs" and nk: "n = length rs \<longrightarrow> k = 0" "n < length rs \<longrightarrow> k \<le> length (record_line float_repr (rs ! n))"
    and pe: "p = log_text float_repr (take n rs) @ (if n < length rs then take k (record_line float_repr (rs ! n)) else [])"
    using log_prefix_cases [OF p] by blast
  let ?l = "record_line float_repr (rs ! n)"
  consider (none) "p = log_text float_repr (take n rs)" | (part) "n < length rs" "0 < k" "k < length ?l" | (full) "n < length rs" "k = length ?l"
    using pe nk by fastforce
  then show ?thesis
  proof cases
    case none
    then show ?thesis using rec(1) [OF n] n by (intro exI [of _ n] exI [of _ False]) (auto simp: log_text_Suc)
  next
    case part
    then show ?thesis using rec(2) [OF n part] n pe by (intro exI [of _ n] exI [of _ True]) (auto simp: log_text_Suc)
  next
    case full
    have "length p < length (log_text float_repr (take (Suc (Suc n)) rs))" if "Suc n < length rs"
      using that full pe by (simp add: log_text_Suc)
    then show ?thesis using rec(3) [OF n full(1)] full pe
      by (intro exI [of _ "Suc n"] exI [of _ False]) (auto simp: log_text_Suc)
  qed
qed

section \<open>Sessions\<close>

datatype ck_op = Append "byte list" rat rat | Finalize rat

fun ck_step :: "(byte list \<Rightarrow> string) \<Rightarrow> checkpointer \<Rightarrow> ck_op \<Rightarrow> (checkpoint_error, unit, checkpointer) outcome" where
  "ck_step sha c (Append chunk t_check t_flush) = (let (r, c') = ck_append sha c chunk t_check t_flush in (map_sum id (\<lambda>_. ()) r, c'))"
| "ck_step sha c (Finalize t) = (let (r, c') = ck_finalize sha c t in (map_sum id (\<lambda>_. ()) r, c'))"

text \<open>The bytes of the chunks that were accepted.\<close>

fun accepted :: "ck_op list \<Rightarrow> (checkpoint_error + unit) list \<Rightarrow> byte list" where
  "accepted (Append chunk _ _ # ops) (Inr _ # rs) = chunk @ accepted ops rs"
| "accepted (_ # ops) (_ # rs) = accepted ops rs"
| "accepted _ _ = []"

definition records_ok :: "(byte list \<Rightarrow> string) \<Rightarrow> string \<Rightarrow> byte list \<Rightarrow> ck_record list \<Rightarrow> bool" where
  "records_ok sha sid bs rs \<longleftrightarrow>
     (\<forall>i < length rs. k_seq (rs ! i) = i \<and> k_stream (rs ! i) = sid \<and>
        k_committed (rs ! i) \<le> length bs \<and> k_sha (rs ! i) = sha (take (k_committed (rs ! i)) bs)) \<and>
     (if rs = [] then bs = [] else k_committed (last rs) = length bs)"

definition ck_inv :: "(byte list \<Rightarrow> string) \<Rightarrow> string \<Rightarrow> byte list \<Rightarrow> checkpointer \<Rightarrow> bool" where
  "ck_inv sha sid fed c \<longleftrightarrow>
     stream_id c = sid \<and> bytes_committed c = length (sink c) \<and> hashed c = sink c \<and> ck_seq c = length (ck_log c) \<and>
     sink c @ ck_buf c = fed \<and> records_ok sha sid (sink c) (ck_log c) \<and> (finalized c \<longrightarrow> ck_buf c = [])"

lemma records_ok_snoc:
  assumes "records_ok sha sid bs rs" "k_seq r = length rs" "k_stream r = sid" "k_committed r = length (bs @ xs)" "k_sha r = sha (bs @ xs)"
  shows "records_ok sha sid (bs @ xs) (rs @ [r])"
  using assms unfolding records_ok_def by (auto simp: nth_append less_Suc_eq)

lemma ck_flush_inv:
  assumes "ck_inv sha sid fed c"
  shows "ck_inv sha sid fed (ck_flush sha c why t)" "finalized (ck_flush sha c why t) = finalized c" "ck_buf (ck_flush sha c why t) = []"
proof -
  show "ck_inv sha sid fed (ck_flush sha c why t)"
  proof (cases "ck_buf c = [] \<and> why \<noteq> ''finalize''")
    case False
    have "records_ok sha sid (sink c @ ck_buf c) (ck_log c @
      [\<lparr>k_stream = stream_id c, k_seq = ck_seq c, k_committed = bytes_committed c + length (ck_buf c), k_chunk = length (ck_buf c),
        k_sha = sha (hashed c @ ck_buf c), k_flushed_at = py_round 6 t, k_reason = why\<rparr>])"
      using assms by (intro records_ok_snoc) (auto simp: ck_inv_def)
    then show ?thesis using assms False by (auto simp: ck_inv_def ck_flush_def Let_def)
  qed (use assms in \<open>simp add: ck_flush_def\<close>)
qed (simp_all add: ck_flush_def Let_def)

lemma ck_step_inv:
  assumes "ck_inv sha sid fed c"
  shows "ck_inv sha sid (fed @ accepted [op] [fst (ck_step sha c op)]) (snd (ck_step sha c op))"
proof (cases "finalized c")
  case True
  then show ?thesis using assms by (cases op) (simp_all add: ck_append_def ck_finalize_def)
next
  case False
  show ?thesis
  proof (cases op)
    case (Append chunk t t')
    have "ck_inv sha sid (fed @ chunk) (c\<lparr>ck_buf := ck_buf c @ chunk\<rparr>)" using assms False by (auto simp: ck_inv_def)
    then show ?thesis using Append False ck_flush_inv(1) by (simp add: ck_append_def Let_def)
  next
    case (Finalize t)
    have "ck_inv sha sid fed ((ck_flush sha c ''finalize'' t)\<lparr>finalized := True\<rparr>)"
      using ck_flush_inv [OF assms, of "''finalize''" t] by (auto simp: ck_inv_def)
    then show ?thesis using Finalize False by (simp add: ck_finalize_def Let_def)
  qed
qed

lemma accepted_Cons: "accepted (op # ops) (r # rs) = accepted [op] [r] @ accepted ops rs"
  by (cases op; cases r) simp_all

lemma run_ck_inv:
  "ck_inv sha sid fed c \<Longrightarrow> ck_inv sha sid (fed @ accepted ops (fst (run (ck_step sha) c ops))) (snd (run (ck_step sha) c ops))"
proof (induction ops arbitrary: fed c)
  case (Cons op ops)
  have "ck_inv sha sid ((fed @ accepted [op] [fst (ck_step sha c op)]) @ accepted ops (fst (run (ck_step sha) (snd (ck_step sha c op)) ops)))
      (snd (run (ck_step sha) (snd (ck_step sha c op)) ops))"
    by (rule Cons.IH [OF ck_step_inv [OF Cons.prems]])
  then show ?case unfolding run_Cons_split fst_conv snd_conv by (subst accepted_Cons) (simp only: append_assoc)
qed simp

text \<open>
  C7.  Crash recovery: run any session of appends and finalization, and let a crash cut the
  checkpoint log at any character.  Recovery succeeds and returns the last record whose whole
  line survived: an offset the durable sink has reached, together with the hash of exactly the
  sink's bytes up to it; with no complete record it returns offset 0.  No record that survived
  whole is ignored, and with an uncut log the offset is the full length of the sink.  The sink
  followed by the buffer is always the accepted input, so resuming at the offset loses
  nothing and repeats nothing.
\<close>

theorem checkpoint_recovery:
  assumes "run (ck_step sha) (new_checkpointer sid p t) ops = (rs, c)" "reads_log loads float_repr (ck_log c)"
    "\<forall>x. list_all printable (float_repr x)" "prefix kept (log_text float_repr (ck_log c))"
  shows "sink c @ ck_buf c = accepted ops rs \<and>
    (\<exists>n b plan. recover loads kept (Some sid) = Inr plan \<and> intact_records plan = n \<and> rp_committed plan = PInt (int b) \<and>
       n \<le> length (ck_log c) \<and> b \<le> length (sink c) \<and>
       (if n = 0 then b = 0 else rp_sha plan = PStr (sha (take b (sink c)))) \<and>
       (if n = length (ck_log c) then b = length (sink c) else length kept < length (log_text float_repr (take (Suc n) (ck_log c)))))"
proof -
  have "ck_inv sha sid [] (new_checkpointer sid p t)" by (simp add: ck_inv_def new_checkpointer_def records_ok_def)
  from run_ck_inv [OF this, of ops] assms(1) have inv: "ck_inv sha sid (accepted ops rs) c" by simp
  then have ok: "records_ok sha sid (sink c) (ck_log c)" by (simp add: ck_inv_def)
  then have "\<forall>i < length (ck_log c). k_seq (ck_log c ! i) = i \<and> k_stream (ck_log c ! i) = sid" by (simp add: records_ok_def)
  from recover_cut [OF assms(2) _ this assms(4)] assms(3) obtain n torn where n: "n \<le> length (ck_log c)"
    and r: "recover loads kept (Some sid) = Inr (plan_of sid (take n (ck_log c)) torn)"
    and l: "n < length (ck_log c) \<longrightarrow> length kept < length (log_text float_repr (take (Suc n) (ck_log c)))" by blast
  define b where "b = (if n = 0 then 0 else k_committed (ck_log c ! (n - 1)))"
  have b0: "n = 0 \<Longrightarrow> b = 0" by (simp add: b_def)
  have la: "last (take n (ck_log c)) = ck_log c ! (n - 1)" "take n (ck_log c) \<noteq> []" if "n \<noteq> 0"
    using that n by (cases n; simp add: last_conv_nth take_Suc_conv_app_nth)+
  have b: "b \<le> length (sink c)" "n \<noteq> 0 \<Longrightarrow> k_sha (ck_log c ! (n - 1)) = sha (take b (sink c))"
    using ok n unfolding records_ok_def b_def by (auto simp: Suc_le_eq)
  have "b = length (sink c)" if "n = length (ck_log c)"
    using ok that unfolding records_ok_def b_def by (auto simp: last_conv_nth)
  moreover have "intact_records (plan_of sid (take n (ck_log c)) torn) = n" "rp_committed (plan_of sid (take n (ck_log c)) torn) = PInt (int b)"
    "n \<noteq> 0 \<Longrightarrow> rp_sha (plan_of sid (take n (ck_log c)) torn) = PStr (sha (take b (sink c)))"
    using la n b(2) by (auto simp: plan_of_def b_def)
  ultimately have "intact_records (plan_of sid (take n (ck_log c)) torn) = n \<and> rp_committed (plan_of sid (take n (ck_log c)) torn) = PInt (int b) \<and>
       n \<le> length (ck_log c) \<and> b \<le> length (sink c) \<and>
       (if n = 0 then b = 0 else rp_sha (plan_of sid (take n (ck_log c)) torn) = PStr (sha (take b (sink c)))) \<and>
       (if n = length (ck_log c) then b = length (sink c) else length kept < length (log_text float_repr (take (Suc n) (ck_log c))))"
    using n b(1) l b0 by (cases "n = 0"; cases "n = length (ck_log c)") simp_all
  then show ?thesis using r inv unfolding ck_inv_def by blast
qed

definition demo_policy :: flush_policy where
  "demo_policy = \<lparr>every_bytes = 1, every_seconds = 5\<rparr>"

definition demo_record :: ck_record where
  "demo_record = \<lparr>k_stream = ''s'', k_seq = 0, k_committed = 2, k_chunk = 2, k_sha = ''h'', k_flushed_at = py_round 6 1, k_reason = ''policy''\<rparr>"

definition demo_loads :: "string \<Rightarrow> pyval option" where
  "demo_loads s = (if s = record_line (\<lambda>x. ''0.0'') demo_record then Some (PDict (record_dict demo_record)) else None)"

lemma demo_reads_log: "reads_log demo_loads (\<lambda>x. ''0.0'') [demo_record]"
proof -
  have "take k l \<noteq> l" if "k < length l" for k and l :: string using that by (metis length_take less_irrefl min.absorb4)
  then show ?thesis by (simp add: reads_log_def demo_loads_def)
qed

theorem checkpoint_recovery_witness:
  "\<exists>rs c n plan. run (ck_step (\<lambda>x. ''h'')) (new_checkpointer ''s'' demo_policy 0) [Append [1, 2] 0 1] = (rs, c) \<and> ck_log c = [demo_record] \<and>
     recover demo_loads (take 5 (log_text (\<lambda>x. ''0.0'') (ck_log c))) (Some ''s'') = Inr plan \<and> intact_records plan = n \<and> n \<le> 1"
proof -
  obtain rs c where r: "run (ck_step (\<lambda>x. ''h'')) (new_checkpointer ''s'' demo_policy 0) [Append [1, 2] 0 1] = (rs, c)" by (metis surj_pair)
  then have l: "ck_log c = [demo_record]"
    by (auto simp: new_checkpointer_def demo_policy_def ck_append_def should_flush_def ck_flush_def demo_record_def Let_def)
  have p: "\<forall>x :: rat. list_all printable ''0.0''" by (simp add: printable_def)
  from checkpoint_recovery [OF r demo_reads_log [folded l] p take_is_prefix, of 5] show ?thesis using r l by fastforce
qed

end
