(* ===== verification/Token_Bucket.thy ===== *)
theory Token_Bucket
  imports Prelude
begin

text \<open>
  What the token buckets of the catalogue promise, stated once.

  A bucket is asked at given times and grants some amount on every request (nothing when it
  refuses).  It holds at most its capacity, and what it holds grows by its rate between two time
  stamps.  From these laws alone the client gets the two forms of the rate limit: over a
  session, and over any window of it, no more is granted than the capacity and what flowed in.
  The interpretations are in \<open>Shared_Bucket\<close>, \<open>Backpressure_Limiter\<close>, \<open>Retry_Budget\<close> and \<open>Stream_Limiter\<close>.
\<close>

fun final :: "('s \<Rightarrow> 'r \<Rightarrow> 's) \<Rightarrow> 's \<Rightarrow> 'r list \<Rightarrow> 's" where
  "final f s [] = s"
| "final f s (r # rs) = final f (f s r) rs"

fun granted_total :: "('s \<Rightarrow> 'r \<Rightarrow> 's) \<Rightarrow> ('s \<Rightarrow> 'r \<Rightarrow> rat) \<Rightarrow> 's \<Rightarrow> 'r list \<Rightarrow> rat" where
  "granted_total f g s [] = 0"
| "granted_total f g s (r # rs) = g s r + granted_total f g (f s r) rs"

lemma final_append: "final f s (xs @ ys) = final f (final f s xs) ys"
  by (induction xs arbitrary: s) simp_all

text \<open>
  A refused request for \<open>n\<close> that the bucket can hold is granted exactly from the time the
  code computes for it.
\<close>

lemma refill_reaches:
  fixes x :: rat
  assumes "0 < rate" "n \<le> cap"
  shows "n \<le> min cap (x + (u - t) * rate) \<longleftrightarrow> t + (n - x) / rate \<le> u"
proof -
  have "t + (n - x) / rate \<le> u \<longleftrightarrow> (n - x) / rate \<le> u - t" by linarith
  also have "\<dots> \<longleftrightarrow> n - x \<le> (u - t) * rate" using assms(1) by (simp add: pos_divide_le_eq)
  finally show ?thesis using assms(2) by auto
qed

locale token_bucket =
  fixes ask :: "'s \<Rightarrow> 'r \<Rightarrow> 's"
    and granted :: "'s \<Rightarrow> 'r \<Rightarrow> rat"
    and sane :: "'r \<Rightarrow> bool"
    and asked_at :: "'r \<Rightarrow> rat"
    and ok :: "'s \<Rightarrow> bool"
    and level :: "'s \<Rightarrow> rat"
    and stamp :: "'s \<Rightarrow> rat"
    and inflow :: "'s \<Rightarrow> rat"
    and limit :: "'s \<Rightarrow> rat"
  assumes ok_bounds: "ok s \<Longrightarrow> 0 \<le> level s \<and> level s \<le> limit s \<and> 0 \<le> inflow s"
    and ask_ok: "ok s \<Longrightarrow> sane r \<Longrightarrow> stamp s \<le> asked_at r \<Longrightarrow> ok (ask s r)"
    and ask_frame: "inflow (ask s r) = inflow s" "limit (ask s r) = limit s"
    and ask_stamp: "ok s \<Longrightarrow> sane r \<Longrightarrow> stamp s \<le> asked_at r \<Longrightarrow>
      stamp s \<le> stamp (ask s r) \<and> stamp (ask s r) \<le> asked_at r \<and>
      (granted s r \<noteq> 0 \<longrightarrow> stamp (ask s r) = asked_at r)"
    and ask_level: "ok s \<Longrightarrow> sane r \<Longrightarrow> stamp s \<le> asked_at r \<Longrightarrow>
      level (ask s r) + granted s r \<le> level s + (stamp (ask s r) - stamp s) * inflow s"
    and ask_limit: "ok s \<Longrightarrow> sane r \<Longrightarrow> stamp s \<le> asked_at r \<Longrightarrow> level (ask s r) + granted s r \<le> limit s"
begin

lemma session_keeps:
  assumes "ok s" "list_all sane rs" "sorted (stamp s # map asked_at rs)"
  shows "ok (final ask s rs) \<and> stamp s \<le> stamp (final ask s rs) \<and> stamp (final ask s rs) \<le> last (stamp s # map asked_at rs)
    \<and> inflow (final ask s rs) = inflow s \<and> limit (final ask s rs) = limit s
    \<and> level (final ask s rs) + granted_total ask granted s rs
        \<le> level s + (stamp (final ask s rs) - stamp s) * inflow s"
  using assms
proof (induction rs arbitrary: s)
  case (Cons r rs)
  let ?s = "ask s r"
  have le: "stamp s \<le> asked_at r" using Cons.prems by simp
  have r: "ok ?s" "stamp s \<le> stamp ?s" "stamp ?s \<le> asked_at r"
      "level ?s + granted s r \<le> level s + (stamp ?s - stamp s) * inflow s"
    using Cons.prems le ask_ok ask_stamp ask_level by simp_all
  then have "sorted (stamp ?s # map asked_at rs)" using Cons.prems(3) by auto
  note ih = Cons.IH [OF r(1) _ this]
  have "last (stamp ?s # map asked_at rs) \<le> last (stamp s # map asked_at (r # rs))" using r(3) by simp
  then show ?case using ih Cons.prems(2) r ask_frame [of s r] by (auto simp: algebra_simps)
qed simp

lemma session_grants:
  assumes "ok s" "list_all sane rs" "sorted (stamp s # map asked_at rs)"
  shows "granted_total ask granted s rs \<le> level s + (last (stamp s # map asked_at rs) - stamp s) * inflow s"
proof -
  let ?e = "final ask s rs" and ?l = "last (stamp s # map asked_at rs)"
  note k = session_keeps [OF assms]
  have "(stamp ?e - stamp s) * inflow s \<le> (?l - stamp s) * inflow s"
    using k ok_bounds [OF assms(1)] by (intro mult_right_mono) auto
  moreover have "0 \<le> level ?e" using k ok_bounds by blast
  ultimately show ?thesis using k by linarith
qed

text \<open>The sliding-window form: it does not matter what happened before the window.\<close>

lemma window_grants:
  assumes "ok s" "list_all sane (r # rs)" "sorted (stamp s # map asked_at (r # rs))"
  shows "granted_total ask granted s (r # rs) \<le> limit s + (last (map asked_at (r # rs)) - asked_at r) * inflow s"
  using assms
proof (induction rs arbitrary: s r)
  case Nil
  then show ?case using ask_limit [of s r] ok_bounds [OF ask_ok [of s r]] by simp
next
  case (Cons q rs)
  let ?s = "ask s r" and ?l = "last (map asked_at (q # rs))"
  have le: "stamp s \<le> asked_at r" "asked_at r \<le> asked_at q" using Cons.prems by simp_all
  have r: "ok ?s" "stamp ?s \<le> asked_at r" "level ?s + granted s r \<le> limit s"
      "granted s r \<noteq> 0 \<longrightarrow> stamp ?s = asked_at r"
    using Cons.prems le ask_ok ask_stamp ask_limit by simp_all
  have srt: "sorted (stamp ?s # map asked_at (q # rs))" using Cons.prems(3) r(2) by auto
  have sn: "list_all sane (q # rs)" using Cons.prems(2) by simp
  show ?case
  proof (cases "granted s r = 0")
    case True
    have "(?l - asked_at q) * inflow s \<le> (?l - asked_at r) * inflow s"
      using le(2) ok_bounds [OF Cons.prems(1)] by (intro mult_right_mono) auto
    then show ?thesis using Cons.IH [OF r(1) sn srt] True ask_frame [of s r] by simp
  next
    case False
    then show ?thesis using session_grants [OF r(1) sn srt] r ask_frame [of s r] by simp
  qed
qed

lemma windowed_session:
  assumes "ok s" "list_all sane (before @ r # rs)" "sorted (stamp s # map asked_at (before @ r # rs))"
  shows "granted_total ask granted (final ask s before) (r # rs)
    \<le> limit s + (last (map asked_at (r # rs)) - asked_at r) * inflow s"
proof -
  have p: "list_all sane before" "list_all sane (r # rs)" "sorted (stamp s # map asked_at before)"
    "sorted (map asked_at (r # rs))" "last (stamp s # map asked_at before) \<le> asked_at r"
    using assms by (auto simp: sorted_append last_conv_nth)
  note k = session_keeps [OF assms(1) p(1,3)]
  then have "sorted (stamp (final ask s before) # map asked_at (r # rs))" using p(4,5) by auto
  then show ?thesis using window_grants [OF _ p(2), of "final ask s before"] k by auto
qed

end

end
