(* ===== verification/Shared_Bucket.thy ===== *)
theory Shared_Bucket
  imports Token_Bucket
begin

text \<open>
  The token bucket shared through a state file
  (\<open>rate-limit-token-bucket-shared/bucket.py\<close>).  First the operations on the file's content,
  as one process sees them; then the processes, each a sequence of the system calls the code
  makes, on a file system with inodes, because \<open>acquire\<close> locks the inode it opened and
  \<open>_write_state_atomic\<close> puts a new inode under the path.
\<close>

section \<open>The operations\<close>

record bucket =
  capacity :: int
  refill_per_sec :: rat
  tokens :: rat
  last_refill_ns :: int

definition init_bucket :: "int \<Rightarrow> rat \<Rightarrow> int \<Rightarrow> bucket" where
  "init_bucket cap rate now_ns =
     \<lparr>capacity = cap, refill_per_sec = rate, tokens = of_int cap, last_refill_ns = now_ns\<rparr>"

definition refill :: "bucket \<Rightarrow> int \<Rightarrow> bucket" where
  "refill st now_ns =
     (let elapsed_s = max 0 (of_int (now_ns - last_refill_ns st) / 10 ^ 9) in
      st\<lparr>tokens := min (of_int (capacity st)) (tokens st + elapsed_s * refill_per_sec st),
        last_refill_ns := now_ns\<rparr>)"

datatype bucket_error = ZeroDivisionError | FileNotFoundError

text \<open>The decision of \<open>acquire\<close> on the state it has read: the reply and the state to write.\<close>

definition acquire_state :: "bucket \<Rightarrow> rat \<Rightarrow> int \<Rightarrow> bucket_error + bool \<times> rat \<times> bucket" where
  "acquire_state st0 n now_ns =
     (let st = refill st0 now_ns in
      if tokens st \<ge> n then Inr (True, 0, st\<lparr>tokens := tokens st - n\<rparr>)
      else if refill_per_sec st = 0 then Inl ZeroDivisionError
      else Inr (False, (n - tokens st) / refill_per_sec st, st))"

text \<open>\<open>acquire\<close> of a process that is alone: the reply and the content of the file afterwards.\<close>

definition acquire :: "bucket \<Rightarrow> rat \<times> int \<Rightarrow> (bucket_error, bool \<times> rat \<times> bucket, bucket) outcome" where
  "acquire st r =
     (case acquire_state st (fst r) (snd r) of
        Inl e \<Rightarrow> (Inl e, st)
      | Inr (ok, wait_s, st') \<Rightarrow> (Inr (ok, wait_s, st'), st'))"

definition peek :: "bucket \<Rightarrow> int \<Rightarrow> bucket" where
  "peek st now_ns = refill st now_ns"

section \<open>The processes\<close>

text \<open>
  \<open>contents\<close> are the inodes, \<open>path_ino\<close> the one the state path names, \<open>tmp_ino\<close> the one
  \<open>path + ".tmp"\<close> names, \<open>locks\<close> the process that holds the \<open>flock\<close> of an inode.
\<close>

record bucket_fs =
  contents :: "bucket list"
  path_ino :: nat
  tmp_ino :: "nat option"
  locks :: "(nat, nat) dict"

datatype bucket_pc =
    Starting
  | Opened nat
  | Locked nat
  | Decided nat "bool \<times> rat \<times> bucket"
  | Written nat "bool \<times> rat \<times> bucket"
  | Leaving nat "bucket_error + bool \<times> rat \<times> bucket"
  | Exited "bucket_error + bool \<times> rat \<times> bucket"

definition write_tmp :: "bucket \<Rightarrow> bucket_fs \<Rightarrow> bucket_fs" where
  "write_tmp st fs =
     (case tmp_ino fs of
        Some k \<Rightarrow> fs\<lparr>contents := (contents fs)[k := st]\<rparr>
      | None \<Rightarrow> fs\<lparr>contents := contents fs @ [st], tmp_ino := Some (length (contents fs))\<rparr>)"

text \<open>One system call of process \<open>i\<close> with request \<open>(n, now_ns)\<close>; \<open>None\<close>: blocked or gone.\<close>

fun proc_step :: "nat \<Rightarrow> rat \<times> int \<Rightarrow> bucket_pc \<Rightarrow> bucket_fs \<Rightarrow> (bucket_pc \<times> bucket_fs) option" where
  "proc_step i r Starting fs = Some (Opened (path_ino fs), fs)"
| "proc_step i r (Opened ino) fs =
     (if dict_get (locks fs) ino = None then Some (Locked ino, fs\<lparr>locks := dict_set ino i (locks fs)\<rparr>) else None)"
| "proc_step i r (Locked ino) fs =
     (case acquire_state (contents fs ! ino) (fst r) (snd r) of
        Inl e \<Rightarrow> Some (Leaving ino (Inl e), fs)
      | Inr res \<Rightarrow> Some (Decided ino res, fs))"
| "proc_step i r (Decided ino res) fs = Some (Written ino res, write_tmp (snd (snd res)) fs)"
| "proc_step i r (Written ino res) fs =
     (case tmp_ino fs of
        None \<Rightarrow> Some (Leaving ino (Inl FileNotFoundError), fs)
      | Some k \<Rightarrow> Some (Leaving ino (Inr res), fs\<lparr>path_ino := k, tmp_ino := None\<rparr>))"
| "proc_step i r (Leaving ino out) fs = Some (Exited out, fs\<lparr>locks := dict_del ino (locks fs)\<rparr>)"
| "proc_step i r (Exited out) fs = None"

definition fs_with :: "bucket \<Rightarrow> bucket_fs" where
  "fs_with st = \<lparr>contents = [st], path_ino = 0, tmp_ino = None, locks = []\<rparr>"

text \<open>
  \<open>commits p q\<close>: the step takes the effect of the call (or makes it fail).  \<open>stale\<close>: the
  process is about to lock an inode that the path no longer names.
\<close>

fun commits :: "bucket_pc \<Rightarrow> bucket_pc \<Rightarrow> bool" where
  "commits (Locked _) (Leaving _ _) = True"
| "commits (Written _ _) (Leaving _ _) = True"
| "commits _ _ = False"

fun stale :: "bucket_pc \<Rightarrow> bucket_fs \<Rightarrow> bool" where
  "stale (Opened ino) fs = (ino \<noteq> path_ino fs)"
| "stale _ _ = False"

text \<open>
  The reachable configurations of processes with requests \<open>rs\<close> on a file with content \<open>st\<close>;
  \<open>h\<close> lists the processes in the order in which their calls took effect.  With \<open>timely\<close>, only
  the runs in which nobody locks a stale inode.
\<close>

inductive proc_runs :: "bool \<Rightarrow> (rat \<times> int) list \<Rightarrow> bucket \<Rightarrow> nat list \<Rightarrow> bucket_pc list \<Rightarrow> bucket_fs \<Rightarrow> bool"
  for timely rs st where
  proc_init: "proc_runs timely rs st [] (replicate (length rs) Starting) (fs_with st)"
| proc_move: "proc_runs timely rs st h ps fs \<Longrightarrow> i < length ps \<Longrightarrow> proc_step i (rs ! i) (ps ! i) fs = Some (p, fs') \<Longrightarrow>
    \<not> (timely \<and> stale (ps ! i) fs) \<Longrightarrow>
    proc_runs timely rs st (if commits (ps ! i) p then h @ [i] else h) (ps[i := p]) fs'"

text \<open>Running a given schedule; \<open>None\<close> when a scheduled process is blocked or gone.\<close>

fun run_schedule ::
  "bool \<Rightarrow> (rat \<times> int) list \<Rightarrow> nat list \<times> bucket_pc list \<times> bucket_fs \<Rightarrow> nat list \<Rightarrow> (nat list \<times> bucket_pc list \<times> bucket_fs) option" where
  "run_schedule timely rs c [] = Some c"
| "run_schedule timely rs (h, ps, fs) (i # is) =
     (if i < length ps \<and> \<not> (timely \<and> stale (ps ! i) fs) then
        (case proc_step i (rs ! i) (ps ! i) fs of
           None \<Rightarrow> None
         | Some (p, fs') \<Rightarrow> run_schedule timely rs (if commits (ps ! i) p then h @ [i] else h, ps[i := p], fs') is)
      else None)"

lemma run_schedule_reaches:
  assumes "run_schedule timely rs (h, ps, fs) is = Some (h', ps', fs')" "proc_runs timely rs st h ps fs"
  shows "proc_runs timely rs st h' ps' fs'"
  using assms
proof (induction "is" arbitrary: h ps fs)
  case (Cons i "is")
  then obtain p fs1 where s: "i < length ps" "\<not> (timely \<and> stale (ps ! i) fs)"
      "proc_step i (rs ! i) (ps ! i) fs = Some (p, fs1)"
      "run_schedule timely rs (if commits (ps ! i) p then h @ [i] else h, ps[i := p], fs1) is = Some (h', ps', fs')"
    by (auto split: if_splits option.splits)
  show ?case using Cons.IH [OF s(4)] proc_move [OF Cons.prems(2) s(1,3,2)] by blast
qed simp

lemmas schedule_run = run_schedule_reaches [OF _ proc_init]

section \<open>One process\<close>

definition bucket_ok :: "bucket \<Rightarrow> bool" where
  "bucket_ok st \<longleftrightarrow> 0 \<le> tokens st \<and> tokens st \<le> of_int (capacity st) \<and> 0 < refill_per_sec st"

definition secs :: "int \<Rightarrow> rat" where
  "secs ns = of_int ns / 10 ^ 9"

lemma secs_mono [simp]: "secs a \<le> secs b \<longleftrightarrow> a \<le> b"
  by (simp add: secs_def divide_le_cancel)

lemma refill_frame [simp]:
  "capacity (refill st t) = capacity st" "refill_per_sec (refill st t) = refill_per_sec st"
  "last_refill_ns (refill st t) = t"
  by (simp_all add: refill_def Let_def)

lemma refill_tokens:
  "last_refill_ns st \<le> t \<Longrightarrow>
     tokens (refill st t) = min (of_int (capacity st)) (tokens st + (secs t - secs (last_refill_ns st)) * refill_per_sec st)"
  by (simp add: refill_def Let_def secs_def max_def diff_divide_distrib)

lemma refill_ok:
  assumes "bucket_ok st" shows "bucket_ok (refill st t)"
proof -
  have "0 \<le> max 0 (of_int (t - last_refill_ns st) / 10 ^ 9) * refill_per_sec st"
    using assms by (intro mult_nonneg_nonneg) (auto simp: bucket_ok_def)
  then show ?thesis using assms by (auto simp: bucket_ok_def refill_def Let_def)
qed

lemma acquire_state_ok:
  assumes "bucket_ok st" "0 \<le> n"
  obtains g w st' where "acquire_state st n t = Inr (g, w, st')" "bucket_ok st'"
    "capacity st' = capacity st" "refill_per_sec st' = refill_per_sec st" "last_refill_ns st' = t"
    "g \<longleftrightarrow> n \<le> tokens (refill st t)" "tokens st' = tokens (refill st t) - (if g then n else 0)"
    "w = (if g then 0 else (n - tokens (refill st t)) / refill_per_sec st)"
proof -
  let ?s = "refill st t"
  have k: "bucket_ok ?s" using assms(1) by (rule refill_ok)
  show ?thesis
  proof (cases "n \<le> tokens ?s")
    case True
    show ?thesis
      by (rule that [of True 0 "?s\<lparr>tokens := tokens ?s - n\<rparr>"])
         (use True k assms(2) in \<open>simp_all add: acquire_state_def bucket_ok_def Let_def\<close>)
  next
    case False
    show ?thesis
      by (rule that [of False "(n - tokens ?s) / refill_per_sec st" ?s])
         (use False k in \<open>simp_all add: acquire_state_def bucket_ok_def Let_def\<close>)
  qed
qed

definition bucket_granted :: "bucket \<Rightarrow> rat \<times> int \<Rightarrow> rat" where
  "bucket_granted st r = (case fst (acquire st r) of Inr (True, _) \<Rightarrow> fst r | _ \<Rightarrow> 0)"

interpretation sb: token_bucket "\<lambda>st r. snd (acquire st r)" bucket_granted "\<lambda>r. 0 \<le> fst r" "\<lambda>r. secs (snd r)"
  bucket_ok tokens "\<lambda>st. secs (last_refill_ns st)" refill_per_sec "\<lambda>st. of_int (capacity st)"
proof unfold_locales
  fix st and r :: "rat \<times> int"
  show "refill_per_sec (snd (acquire st r)) = refill_per_sec st"
    "rat_of_int (capacity (snd (acquire st r))) = of_int (capacity st)"
    by (auto simp: acquire_def acquire_state_def Let_def)
  assume "bucket_ok st"
  then show "0 \<le> tokens st \<and> tokens st \<le> of_int (capacity st) \<and> 0 \<le> refill_per_sec st"
    by (simp add: bucket_ok_def)
next
  fix st and r :: "rat \<times> int"
  assume a: "bucket_ok st" "0 \<le> fst r" "secs (last_refill_ns st) \<le> secs (snd r)"
  obtain g w st' where q: "acquire_state st (fst r) (snd r) = Inr (g, w, st')" "bucket_ok st'"
      "capacity st' = capacity st" "refill_per_sec st' = refill_per_sec st" "last_refill_ns st' = snd r"
      "g \<longleftrightarrow> fst r \<le> tokens (refill st (snd r))" "tokens st' = tokens (refill st (snd r)) - (if g then fst r else 0)"
      "w = (if g then 0 else (fst r - tokens (refill st (snd r))) / refill_per_sec st)"
    by (rule acquire_state_ok [OF a(1,2)])
  have r: "snd (acquire st r) = st'" "bucket_granted st r = (if g then fst r else 0)"
    using q(1) by (simp_all add: acquire_def bucket_granted_def)
  show "bucket_ok (snd (acquire st r))"
    "tokens (snd (acquire st r)) + bucket_granted st r \<le> of_int (capacity st)"
    "tokens (snd (acquire st r)) + bucket_granted st r
      \<le> tokens st + (secs (last_refill_ns (snd (acquire st r))) - secs (last_refill_ns st)) * refill_per_sec st"
    "secs (last_refill_ns st) \<le> secs (last_refill_ns (snd (acquire st r))) \<and>
      secs (last_refill_ns (snd (acquire st r))) \<le> secs (snd r) \<and>
      (bucket_granted st r \<noteq> 0 \<longrightarrow> secs (last_refill_ns (snd (acquire st r))) = secs (snd r))"
    using a q r refill_tokens [of st "snd r"] by simp_all
qed

definition acquired :: "bucket_error + bool \<times> rat \<times> bucket \<Rightarrow> bool" where
  "acquired out = (case out of Inr (g, _) \<Rightarrow> g | Inl _ \<Rightarrow> False)"

lemma wait_exact:
  assumes "bucket_ok st" "0 \<le> n" "n \<le> of_int (capacity st)" "fst (acquire st (n, t)) = Inr (False, w, st')" "t \<le> u"
  shows "acquired (fst (acquire st' (n, u))) \<longleftrightarrow> secs t + w \<le> secs u"
proof -
  obtain g w0 s where q: "acquire_state st n t = Inr (g, w0, s)" "bucket_ok s" "capacity s = capacity st"
      "refill_per_sec s = refill_per_sec st" "last_refill_ns s = t" "g \<longleftrightarrow> n \<le> tokens (refill st t)"
      "tokens s = tokens (refill st t) - (if g then n else 0)"
      "w0 = (if g then 0 else (n - tokens (refill st t)) / refill_per_sec st)"
    by (rule acquire_state_ok [OF assms(1,2)])
  have e: "g = False" "w0 = w" "s = st'" using assms(4) q(1) by (simp_all add: acquire_def)
  obtain g1 w1 s1 where q1: "acquire_state s n u = Inr (g1, w1, s1)" "bucket_ok s1" "capacity s1 = capacity s"
      "refill_per_sec s1 = refill_per_sec s" "last_refill_ns s1 = u" "g1 \<longleftrightarrow> n \<le> tokens (refill s u)"
      "tokens s1 = tokens (refill s u) - (if g1 then n else 0)"
      "w1 = (if g1 then 0 else (n - tokens (refill s u)) / refill_per_sec s)"
    by (rule acquire_state_ok [OF q(2) assms(2)])
  have "n \<le> tokens (refill s u) \<longleftrightarrow> secs t + (n - tokens s) / refill_per_sec st \<le> secs u"
    using refill_reaches [of "refill_per_sec st" n "of_int (capacity st)" "tokens s" "secs u" "secs t"]
      refill_tokens [of s u] q assms by (simp add: bucket_ok_def)
  then show ?thesis using q q1 e by (simp add: acquire_def acquired_def)
qed

lemma sorted_secs [simp]: "sorted (map secs xs) \<longleftrightarrow> sorted xs"
  by (simp add: sorted_wrt_map)

lemma sorted_secs_snd: "sorted (secs a # map (\<lambda>r. secs (snd r)) rs) \<longleftrightarrow> sorted (a # map snd rs)"
  using sorted_secs [of "a # map snd rs"] by (simp add: comp_def del: sorted_secs)

lemma final_acquire: "final (\<lambda>st r. snd (acquire st r)) s xs = snd (run acquire s xs)"
  by (induction xs arbitrary: s) (simp_all add: run_Cons_split del: run.simps(2))

lemma session_ok:
  assumes "bucket_ok st" "list_all (\<lambda>r. 0 \<le> fst r) rs" "sorted (last_refill_ns st # map snd rs)"
  shows "bucket_ok (snd (run acquire st rs)) \<and> capacity (snd (run acquire st rs)) = capacity st"
  using sb.session_keeps [OF assms(1,2)] assms(3) by (simp only: final_acquire sorted_secs_snd) simp

lemma reply_exact:
  assumes "bucket_ok st" "0 \<le> n"
  shows "case acquire st (n, t) of
        (Inl e, _) \<Rightarrow> False
      | (Inr (g, w, st'), st'') \<Rightarrow> st'' = st' \<and> bucket_ok st' \<and>
          (if \<not> g \<and> n \<le> of_int (capacity st) \<and> t \<le> u then acquired (fst (acquire st' (n, u))) \<longleftrightarrow> secs t + w \<le> secs u else True)"
proof -
  obtain g w s where q: "acquire_state st n t = Inr (g, w, s)" "bucket_ok s" "capacity s = capacity st"
      "refill_per_sec s = refill_per_sec st" "last_refill_ns s = t" "g \<longleftrightarrow> n \<le> tokens (refill st t)"
      "tokens s = tokens (refill st t) - (if g then n else 0)"
      "w = (if g then 0 else (n - tokens (refill st t)) / refill_per_sec st)"
    by (rule acquire_state_ok [OF assms])
  have "acquire st (n, t) = (Inr (g, w, s), s)" using q(1) by (simp add: acquire_def)
  then show ?thesis using wait_exact [OF assms, of t w s u] q(2) by auto
qed

text \<open>
  C28.  The rate limit for processes that take turns.  With time readings that do not go
  backwards and requests for non-negative amounts, the amount granted during any window of the
  session is at most the capacity plus what the rate supplies between the first and the last
  request of the window, whatever happened before it.  And a refused request gets the exact
  waiting time: asked again by itself it is granted from then on, and not before (if the bucket
  can hold that much at all).
\<close>

theorem shared_bucket_rate_limit:
  assumes "bucket_ok st" "list_all (\<lambda>r. 0 \<le> fst r) (before @ (n, t) # rs)"
    and "sorted (last_refill_ns st # map snd (before @ (n, t) # rs))"
  shows "granted_total (\<lambda>st r. snd (acquire st r)) bucket_granted (snd (run acquire st before)) ((n, t) # rs)
      \<le> of_int (capacity st) + (secs (last (map snd ((n, t) # rs))) - secs t) * refill_per_sec st \<and>
    (case acquire (snd (run acquire st before)) (n, t) of
        (Inl e, _) \<Rightarrow> False
      | (Inr (g, w, st'), st'') \<Rightarrow> st'' = st' \<and> bucket_ok st' \<and>
          (if \<not> g \<and> n \<le> of_int (capacity st) \<and> t \<le> u then acquired (fst (acquire st' (n, u))) \<longleftrightarrow> secs t + w \<le> secs u else True))"
proof -
  have "bucket_ok (snd (run acquire st before)) \<and> capacity (snd (run acquire st before)) = capacity st"
    using assms by (intro session_ok) (auto simp: sorted_append)
  moreover have "last (map (\<lambda>r. secs (snd r)) ((n, t) # rs)) = secs (last (map snd ((n, t) # rs)))"
    by (subst (1 2) last_map) simp_all
  ultimately show ?thesis
    using sb.windowed_session [OF assms(1,2)] assms(2,3) reply_exact [of "snd (run acquire st before)" n t u]
    by (simp only: final_acquire sorted_secs_snd) (simp del: granted_total.simps last.simps)
qed

theorem shared_bucket_rate_limit_witness:
  "granted_total (\<lambda>st r. snd (acquire st r)) bucket_granted (snd (run acquire (init_bucket 5 2 0) [(4, 0)])) [(3, 10 ^ 9), (2, 2 * 10 ^ 9)]
     \<le> 5 + (secs (2 * 10 ^ 9) - secs (10 ^ 9)) * 2
   \<and> granted_total (\<lambda>st r. snd (acquire st r)) bucket_granted (snd (run acquire (init_bucket 5 2 0) [(4, 0)])) [(3, 10 ^ 9), (2, 2 * 10 ^ 9)] = 5"
  using shared_bucket_rate_limit [of "init_bucket 5 2 0" "[(4, 0)]" 3 "10 ^ 9" "[(2, 2 * 10 ^ 9)]"]
  by (simp add: init_bucket_def bucket_ok_def acquire_def acquire_state_def refill_def bucket_granted_def secs_def Let_def)

section \<open>All interleavings\<close>

fun holds_lock :: "bucket_pc \<Rightarrow> nat option" where
  "holds_lock (Locked ino) = Some ino" | "holds_lock (Decided ino _) = Some ino"
| "holds_lock (Written ino _) = Some ino" | "holds_lock (Leaving ino _) = Some ino" | "holds_lock _ = None"

fun exited :: "bucket_pc \<Rightarrow> bool" where
  "exited (Exited _) = True" | "exited _ = False"

text \<open>A state with the configuration of \<open>st\<close> that is in range; the same of every state in flight.\<close>

definition like :: "bucket \<Rightarrow> bucket \<Rightarrow> bool" where
  "like st s \<longleftrightarrow> bucket_ok s \<and> capacity s = capacity st \<and> refill_per_sec s = refill_per_sec st"

fun pc_like :: "bucket \<Rightarrow> nat \<Rightarrow> bucket_pc \<Rightarrow> bool" where
  "pc_like st k Starting = True" | "pc_like st k (Exited _) = True" | "pc_like st k (Leaving _ _) = True"
| "pc_like st k (Opened ino) = (ino < k)" | "pc_like st k (Locked ino) = (ino < k)"
| "pc_like st k (Decided _ res) = like st (snd (snd res))" | "pc_like st k (Written _ res) = like st (snd (snd res))"

definition fs_like :: "bucket \<Rightarrow> bucket_fs \<Rightarrow> bool" where
  "fs_like st fs \<longleftrightarrow> list_all (like st) (contents fs) \<and> path_ino fs < length (contents fs) \<and>
     (case tmp_ino fs of None \<Rightarrow> True | Some k \<Rightarrow> k < length (contents fs))"

lemma acquire_state_like:
  assumes "like st s" "0 \<le> n" "acquire_state s n t = Inr res"
  shows "like st (snd (snd res))"
proof -
  have k: "bucket_ok s" using assms(1) by (simp add: like_def)
  obtain g w s' where q: "acquire_state s n t = Inr (g, w, s')" "bucket_ok s'" "capacity s' = capacity s"
      "refill_per_sec s' = refill_per_sec s" "last_refill_ns s' = t" "g \<longleftrightarrow> n \<le> tokens (refill s t)"
      "tokens s' = tokens (refill s t) - (if g then n else 0)"
      "w = (if g then 0 else (n - tokens (refill s t)) / refill_per_sec s)"
    by (rule acquire_state_ok [OF k assms(2)])
  then show ?thesis using assms by (auto simp: like_def)
qed

lemma pc_like_mono: "pc_like st k p \<Longrightarrow> k \<le> k' \<Longrightarrow> pc_like st k' p"
  by (cases p) auto

lemma proc_step_like:
  assumes "proc_step i r p fs = Some (p', fs')" "fs_like st fs" "pc_like st (length (contents fs)) p" "0 \<le> fst r"
  shows "fs_like st fs' \<and> pc_like st (length (contents fs')) p' \<and> length (contents fs) \<le> length (contents fs')"
proof (cases p)
  case (Locked ino)
  then have "like st (contents fs ! ino)" using assms(2,3) by (simp add: fs_like_def list_all_length)
  then show ?thesis using assms Locked acquire_state_like [of st _ "fst r" "snd r"] by (auto split: sum.splits)
next
  case (Decided ino res)
  then show ?thesis
    using assms by (auto simp: write_tmp_def fs_like_def list_all_iff split: option.splits dest!: set_update_subset_insert [THEN subsetD])
qed (use assms in \<open>auto simp: fs_like_def split: if_splits option.splits\<close>)

lemma runs_like:
  assumes "proc_runs timely rs st h ps fs" "bucket_ok st" "list_all (\<lambda>r. 0 \<le> fst r) rs"
  shows "length ps = length rs \<and> fs_like st fs \<and> list_all (pc_like st (length (contents fs))) ps"
  using assms
proof (induction rule: proc_runs.induct)
  case proc_init
  then show ?case by (auto simp: fs_like_def fs_with_def like_def list_all_iff)
next
  case (proc_move h ps fs i p fs')
  have "fs_like st fs' \<and> pc_like st (length (contents fs')) p \<and> length (contents fs) \<le> length (contents fs')"
    using proc_move by (intro proc_step_like) (auto simp: list_all_length)
  then show ?case using proc_move
    by (auto simp: list_all_length nth_list_update intro: pc_like_mono)
qed

text \<open>Who holds a lock is at a program point that gives it back.\<close>

definition locks_held :: "bucket_pc list \<Rightarrow> bucket_fs \<Rightarrow> bool" where
  "locks_held ps fs \<longleftrightarrow>
     (\<forall>ino j. dict_get (locks fs) ino = Some j \<longleftrightarrow> j < length ps \<and> holds_lock (ps ! j) = Some ino)"

lemma locks_heldD: "locks_held ps fs \<Longrightarrow> j < length ps \<Longrightarrow> holds_lock (ps ! j) = Some ino \<Longrightarrow> dict_get (locks fs) ino = Some j"
  unfolding locks_held_def by blast

lemma proc_step_lock_frame:
  assumes "proc_step i r p fs = Some (p', fs')"
  shows "(\<exists>ino. p = Opened ino) \<or> (\<exists>ino out. p = Leaving ino out) \<or> locks fs' = locks fs \<and> holds_lock p' = holds_lock p"
  using assms by (cases p) (auto simp: write_tmp_def split: sum.splits option.splits)

lemma proc_step_locks:
  assumes "proc_step i r (ps ! i) fs = Some (p, fs')" "locks_held ps fs" "i < length ps"
  shows "locks_held (ps[i := p]) fs'"
  using proc_step_lock_frame [OF assms(1)]
proof (elim disjE exE)
  fix ino assume Opened: "ps ! i = Opened ino"
  then have n: "dict_get (locks fs) ino = None" using assms(1) by (simp split: if_splits)
  then have "holds_lock (ps ! j) \<noteq> Some ino" if "j < length ps" for j
    using locks_heldD [OF assms(2) that, of ino] n by auto
  then show ?thesis using assms Opened n by (auto simp: locks_held_def nth_list_update split: if_splits)
next
  fix ino out assume Leaving: "ps ! i = Leaving ino out"
  then have g: "dict_get (locks fs) ino = Some i" using locks_heldD [OF assms(2,3), of ino] by simp
  then have "holds_lock (ps ! j) \<noteq> Some ino" if "j < length ps" "j \<noteq> i" for j
    using locks_heldD [OF assms(2) that(1), of ino] that(2) by auto
  then show ?thesis using assms Leaving g by (auto simp: locks_held_def nth_list_update split: if_splits)
qed (use assms(2,3) in \<open>auto simp: locks_held_def nth_list_update\<close>)

lemma runs_locks: "proc_runs timely rs st h ps fs \<Longrightarrow> locks_held ps fs"
proof (induction rule: proc_runs.induct)
  case proc_init
  then show ?case by (auto simp: locks_held_def fs_with_def)
next
  case (proc_move h ps fs i p fs')
  then show ?case by (intro proc_step_locks)
qed

fun steps_left :: "bucket_pc \<Rightarrow> nat" where
  "steps_left Starting = 6" | "steps_left (Opened _) = 5" | "steps_left (Locked _) = 4"
| "steps_left (Decided _ _) = 3" | "steps_left (Written _ _) = 2" | "steps_left (Leaving _ _) = 1" | "steps_left (Exited _) = 0"

lemma proc_step_decreases: "proc_step i r p fs = Some (p', fs') \<Longrightarrow> steps_left p' < steps_left p"
  by (cases p) (auto split: if_splits sum.splits option.splits)

lemma proc_step_None: "proc_step i r p fs = None \<longleftrightarrow> exited p \<or> (\<exists>ino. p = Opened ino \<and> dict_get (locks fs) ino \<noteq> None)"
  by (cases p) (auto split: sum.splits option.splits)

lemma some_process_moves:
  assumes "locks_held ps fs" "i < length ps" "\<not> exited (ps ! i)"
  shows "\<exists>j < length ps. proc_step j (rs ! j) (ps ! j) fs \<noteq> None"
proof (cases "proc_step i (rs ! i) (ps ! i) fs")
  case None
  then obtain ino j where "dict_get (locks fs) ino = Some j" using assms(3) by (auto simp: proc_step_None)
  then have "j < length ps" "holds_lock (ps ! j) = Some ino" using assms(1) by (auto simp: locks_held_def)
  then show ?thesis by (intro exI [of _ j]) (auto simp: proc_step_None elim!: exited.elims)
qed (use assms in blast)

lemma sum_list_update_less:
  fixes f :: "'a \<Rightarrow> nat"
  assumes "i < length xs" "f y < f (xs ! i)"
  shows "sum_list (map f (xs[i := y])) < sum_list (map f xs)"
proof -
  have s: "xs = take i xs @ xs ! i # drop (Suc i) xs" using assms(1) by (rule id_take_nth_drop)
  have "sum_list (map f (xs[i := y])) = sum_list (map f (take i xs)) + f y + sum_list (map f (drop (Suc i) xs))"
    using assms(1) by (simp add: upd_conv_take_nth_drop)
  moreover have "sum_list (map f xs) = sum_list (map f (take i xs)) + f (xs ! i) + sum_list (map f (drop (Suc i) xs))"
    by (subst s) simp
  ultimately show ?thesis using assms(2) by simp
qed

text \<open>
  Whatever the interleaving, stale locks included: every inode, and so the state file,
  holds a bucket in range with the configured capacity and rate; two processes never hold the
  same inode's lock; some process can move until all have exited; and every move leaves less to
  do, so all of them exit after at most six moves each.
\<close>

theorem shared_bucket_processes_safe:
  assumes "proc_runs timely rs st h ps fs" "bucket_ok st" "list_all (\<lambda>r. 0 \<le> fst r) rs"
  shows "list_all (like st) (contents fs) \<and> path_ino fs < length (contents fs)
    \<and> (\<forall>i < length ps. \<forall>j < length ps. holds_lock (ps ! i) \<noteq> None \<and> holds_lock (ps ! i) = holds_lock (ps ! j) \<longrightarrow> i = j)
    \<and> (list_all exited ps \<or> (\<exists>i < length ps. proc_step i (rs ! i) (ps ! i) fs \<noteq> None))
    \<and> (\<forall>i < length ps. case proc_step i (rs ! i) (ps ! i) fs of None \<Rightarrow> True
         | Some (p, _) \<Rightarrow> sum_list (map steps_left (ps[i := p])) < sum_list (map steps_left ps))"
proof (intro conjI allI impI)
  note l = runs_locks [OF assms(1)] and k = runs_like [OF assms]
  show "list_all (like st) (contents fs)" "path_ino fs < length (contents fs)" using k by (simp_all add: fs_like_def)
  show "list_all exited ps \<or> (\<exists>i < length ps. proc_step i (rs ! i) (ps ! i) fs \<noteq> None)"
    using some_process_moves [OF l] by (auto simp: list_all_length)
  fix i assume i: "i < length ps"
  show "case proc_step i (rs ! i) (ps ! i) fs of None \<Rightarrow> True
         | Some (p, _) \<Rightarrow> sum_list (map steps_left (ps[i := p])) < sum_list (map steps_left ps)"
    using i proc_step_decreases [of i "rs ! i" "ps ! i" fs] by (auto split: option.splits intro: sum_list_update_less)
  fix j assume "j < length ps" "holds_lock (ps ! i) \<noteq> None \<and> holds_lock (ps ! i) = holds_lock (ps ! j)"
  then obtain ino where j: "j < length ps" "holds_lock (ps ! i) = Some ino" "holds_lock (ps ! j) = Some ino" by (metis option.exhaust)
  then show "i = j" using locks_heldD [OF l i j(2)] locks_heldD [OF l j(1,3)] by simp
qed

section \<open>Runs without stale locks are sequential\<close>

text \<open>
  \<open>D\<close> pairs each process whose call has taken effect with the outcome it has in the sequential
  run, \<open>cur\<close> is the state that run has reached.
\<close>

fun pc_lin :: "nat \<Rightarrow> rat \<times> int \<Rightarrow> bucket \<Rightarrow> (nat \<times> (bucket_error + bool \<times> rat \<times> bucket)) set \<Rightarrow> bucket_fs \<Rightarrow> bucket_pc \<Rightarrow> bool" where
  "pc_lin i r cur D fs Starting = (i \<notin> fst ` D)"
| "pc_lin i r cur D fs (Opened ino) = (i \<notin> fst ` D)"
| "pc_lin i r cur D fs (Locked ino) = (i \<notin> fst ` D \<and> ino = path_ino fs)"
| "pc_lin i r cur D fs (Decided ino res) =
     (i \<notin> fst ` D \<and> ino = path_ino fs \<and> acquire_state cur (fst r) (snd r) = Inr res)"
| "pc_lin i r cur D fs (Written ino res) =
     (i \<notin> fst ` D \<and> ino = path_ino fs \<and> acquire_state cur (fst r) (snd r) = Inr res \<and>
      (\<exists>k. tmp_ino fs = Some k \<and> contents fs ! k = snd (snd res)))"
| "pc_lin i r cur D fs (Leaving ino out) = ((i, out) \<in> D)"
| "pc_lin i r cur D fs (Exited out) = ((i, out) \<in> D)"

fun critical :: "bucket_pc \<Rightarrow> bool" where
  "critical (Locked _) = True" | "critical (Decided _ _) = True" | "critical (Written _ _) = True" | "critical _ = False"

definition fs_lin :: "bucket \<Rightarrow> bucket_fs \<Rightarrow> bool" where
  "fs_lin cur fs \<longleftrightarrow> path_ino fs < length (contents fs) \<and> contents fs ! path_ino fs = cur \<and>
     (case tmp_ino fs of None \<Rightarrow> True | Some k \<Rightarrow> k < length (contents fs) \<and> k \<noteq> path_ino fs)"

lemma critical_holds: "pc_lin i r cur D fs p \<Longrightarrow> critical p \<Longrightarrow> holds_lock p = Some (path_ino fs)"
  by (cases p) auto

lemma pc_lin_other:
  "pc_lin j r cur D fs p \<Longrightarrow> \<not> critical p \<Longrightarrow> j \<noteq> i \<Longrightarrow> D' = D \<or> D' = insert (i, out) D \<Longrightarrow> pc_lin j r cur' D' fs' p"
  by (cases p) auto

lemma pc_lin_frame:
  "path_ino fs' = path_ino fs \<and> tmp_ino fs' = tmp_ino fs \<and> contents fs' = contents fs \<Longrightarrow>
     pc_lin i r cur D fs' p = pc_lin i r cur D fs p"
  by (cases p) auto

text \<open>A step that does not take effect.\<close>

lemma lin_quiet:
  assumes "proc_step i r p fs = Some (p', fs')" "\<not> stale p fs" "\<not> commits p p'" "pc_lin i r cur D fs p" "fs_lin cur fs"
  shows "fs_lin cur fs' \<and> pc_lin i r cur D fs' p' \<and>
    (critical p \<or> path_ino fs' = path_ino fs \<and> tmp_ino fs' = tmp_ino fs \<and> contents fs' = contents fs)"
proof (cases p)
  case (Decided ino res)
  then show ?thesis
    using assms by (auto simp: write_tmp_def fs_lin_def nth_append split: option.splits)
next
  case (Locked ino)
  then show ?thesis using assms by (auto simp: fs_lin_def split: sum.splits)
qed (use assms in \<open>auto simp: fs_lin_def split: if_splits option.splits\<close>)

text \<open>A step that does: the sequential run makes the same call.\<close>

lemma lin_commit:
  assumes "proc_step i r p fs = Some (p', fs')" "commits p p'" "pc_lin i r cur D fs p" "fs_lin cur fs"
  shows "critical p \<and> fs_lin (snd (acquire cur r)) fs' \<and> (\<exists>ino. p' = Leaving ino (fst (acquire cur r)))"
proof (cases p)
  case (Locked ino)
  then show ?thesis using assms by (auto simp: acquire_def fs_lin_def split: sum.splits)
next
  case (Written ino res)
  then show ?thesis using assms by (cases res) (auto simp: acquire_def fs_lin_def)
qed (use assms in \<open>auto split: if_splits sum.splits option.splits\<close>)

definition lin :: "(rat \<times> int) list \<Rightarrow> bucket \<Rightarrow> nat list \<Rightarrow> bucket_pc list \<Rightarrow> bucket_fs \<Rightarrow> bool" where
  "lin rs st h ps fs \<longleftrightarrow>
     (let (outs, cur) = run acquire st (map ((!) rs) h) in
      distinct h \<and> fs_lin cur fs \<and> (\<forall>j < length ps. pc_lin j (rs ! j) cur (set (zip h outs)) fs (ps ! j)))"

lemma lin_step:
  assumes "lin rs st h ps fs" "locks_held ps fs" "i < length ps"
    and "proc_step i (rs ! i) (ps ! i) fs = Some (p, fs')" "\<not> stale (ps ! i) fs"
  shows "lin rs st (if commits (ps ! i) p then h @ [i] else h) (ps[i := p]) fs'"
proof -
  obtain outs cur where run: "run acquire st (map ((!) rs) h) = (outs, cur)" by (cases "run acquire st (map ((!) rs) h)")
  let ?D = "set (zip h outs)"
  have l: "distinct h" "fs_lin cur fs" "\<And>j. j < length ps \<Longrightarrow> pc_lin j (rs ! j) cur ?D fs (ps ! j)"
    using assms(1) run by (auto simp: lin_def)
  have len: "length outs = length h" using run by (metis fst_conv length_map length_run)
  have alone: "\<not> critical (ps ! j)" if "j < length ps" "j \<noteq> i" "critical (ps ! i)" for j
    using critical_holds [OF l(3) [OF that(1)]] critical_holds [OF l(3) [OF assms(3)]] that
      locks_heldD [OF assms(2)] assms(3) by (metis option.inject)
  show ?thesis
  proof (cases "commits (ps ! i) p")
    case False
    note q = lin_quiet [OF assms(4,5) False l(3) [OF assms(3)] l(2)]
    have "pc_lin j (rs ! j) cur ?D fs' (ps[i := p] ! j)" if "j < length ps" for j
      using that q l(3) [OF that] pc_lin_other [OF l(3) [OF that], of i ?D] alone [OF that] pc_lin_frame [of fs' fs j "rs ! j" cur ?D "ps ! j"]
      by (cases "j = i") auto
    then show ?thesis using False l q run by (simp add: lin_def)
  next
    case True
    let ?o = "fst (acquire cur (rs ! i))"
    note q = lin_commit [OF assms(4) True l(3) [OF assms(3)] l(2)]
    have run': "run acquire st (map ((!) rs) (h @ [i])) = (outs @ [?o], snd (acquire cur (rs ! i)))"
      using run by (simp add: run_append case_prod_beta)
    have D': "set (zip (h @ [i]) (outs @ [?o])) = insert (i, ?o) ?D" using len by simp
    have "i \<notin> fst ` ?D" using q l(3) [OF assms(3)] by (cases "ps ! i") auto
    moreover have "fst ` ?D = set h" using len by (metis list.set_map map_fst_zip)
    ultimately have "i \<notin> set h" by simp
    moreover have "pc_lin j (rs ! j) (snd (acquire cur (rs ! i))) (insert (i, ?o) ?D) fs' (ps[i := p] ! j)" if "j < length ps" for j
      using that q pc_lin_other [OF l(3) [OF that], of i "insert (i, ?o) ?D" ?o] alone [OF that]
      by (cases "j = i") auto
    ultimately show ?thesis using True l q run' D' by (simp add: lin_def)
  qed
qed

lemma timely_lin: "proc_runs True rs st h ps fs \<Longrightarrow> lin rs st h ps fs"
proof (induction rule: proc_runs.induct)
  case proc_init
  then show ?case by (auto simp: lin_def fs_lin_def fs_with_def)
next
  case (proc_move h ps fs i p fs')
  then show ?case using runs_locks by (intro lin_step) auto
qed

lemma acquire_never_misses_file:
  "out \<in> set (fst (run acquire st rs)) \<Longrightarrow> out \<noteq> Inl FileNotFoundError"
proof (induction rs arbitrary: st)
  case (Cons r rs)
  have "fst (acquire st r) \<noteq> Inl FileNotFoundError"
    by (auto simp: acquire_def acquire_state_def Let_def)
  then show ?case using Cons by (auto simp: run_Cons_split simp del: run.simps(2))
qed simp

text \<open>
  C27.  The file lock does its work as long as no process locks an inode that has been replaced
  after it opened the file: the calls then behave as if they were made one after the other, in
  the order \<open>h\<close> in which they take effect.  The state file holds the state of that
  sequential run, every process that has finished got the reply it has in that run, no process
  takes effect twice, and nobody fails to find the temporary file.
\<close>

theorem timely_processes_sequential:
  assumes "proc_runs True rs st h ps fs"
  shows "distinct h \<and> contents fs ! path_ino fs = snd (run acquire st (map ((!) rs) h))
    \<and> (\<forall>i < length ps. case ps ! i of
         Exited out \<Rightarrow> (i, out) \<in> set (zip h (fst (run acquire st (map ((!) rs) h)))) \<and> out \<noteq> Inl FileNotFoundError
       | _ \<Rightarrow> True)"
proof -
  obtain outs cur where run: "run acquire st (map ((!) rs) h) = (outs, cur)" by (cases "run acquire st (map ((!) rs) h)")
  have l: "distinct h" "fs_lin cur fs" "\<And>j. j < length ps \<Longrightarrow> pc_lin j (rs ! j) cur (set (zip h outs)) fs (ps ! j)"
    using timely_lin [OF assms] run by (auto simp: lin_def)
  have "out \<noteq> Inl FileNotFoundError" if "(i, out) \<in> set (zip h outs)" for i out
    using set_zip_rightD [OF that] acquire_never_misses_file [of out st] run by (metis fst_conv)
  then have "case ps ! i of Exited out \<Rightarrow> (i, out) \<in> set (zip h outs) \<and> out \<noteq> Inl FileNotFoundError | _ \<Rightarrow> True"
    if "i < length ps" for i using l(3) [OF that] by (cases "ps ! i") auto
  then show ?thesis unfolding run fst_conv snd_conv using l(1,2) by (simp add: fs_lin_def)
qed

text \<open>Concrete runs: two processes that each want the only token.\<close>

definition two_requests :: "(rat \<times> int) list" where
  "two_requests = [(1, 0), (1, 0)]"

definition timely_order :: "nat list" where
  "timely_order = [0, 0, 0, 0, 0, 1, 0, 1, 1, 1, 1, 1]"

definition overlapping_order :: "nat list" where
  "overlapping_order = [0, 1, 0, 0, 0, 0, 0, 1, 1, 1, 1, 1]"

lemmas demo_defs = two_requests_def timely_order_def overlapping_order_def init_bucket_def fs_with_def
  acquire_state_def refill_def write_tmp_def Let_def numeral_eq_Suc

lemma timely_demo:
  "run_schedule True two_requests ([], replicate 2 Starting, fs_with (init_bucket 1 1 0)) timely_order =
     Some ([0, 1],
       [Exited (Inr (True, 0, (init_bucket 1 1 0)\<lparr>tokens := 0\<rparr>)), Exited (Inr (False, 1, (init_bucket 1 1 0)\<lparr>tokens := 0\<rparr>))],
       \<lparr>contents = [init_bucket 1 1 0, (init_bucket 1 1 0)\<lparr>tokens := 0\<rparr>, (init_bucket 1 1 0)\<lparr>tokens := 0\<rparr>],
        path_ino = 2, tmp_ino = None, locks = []\<rparr>)"
  by (simp add: demo_defs)

theorem timely_processes_sequential_witness:
  "let (h, ps, fs) = the (run_schedule True two_requests ([], replicate 2 Starting, fs_with (init_bucket 1 1 0)) timely_order) in
     list_all exited ps \<and> contents fs ! path_ino fs = snd (run acquire (init_bucket 1 1 0) (map ((!) two_requests) h))"
proof -
  have "proc_runs True two_requests (init_bucket 1 1 0) [] (replicate 2 Starting) (fs_with (init_bucket 1 1 0))"
    using proc_init [of True two_requests "init_bucket 1 1 0"] by (simp add: two_requests_def numeral_2_eq_2)
  from timely_processes_sequential [OF run_schedule_reaches [OF timely_demo this]]
  show ?thesis by (simp add: timely_demo)
qed

theorem shared_bucket_processes_safe_witness:
  "let (h, ps, fs) = the (run_schedule True two_requests ([], replicate 2 Starting, fs_with (init_bucket 1 1 0)) timely_order) in
     list_all (like (init_bucket 1 1 0)) (contents fs) \<and> path_ino fs < length (contents fs)"
proof -
  have "proc_runs True two_requests (init_bucket 1 1 0) [] (replicate 2 Starting) (fs_with (init_bucket 1 1 0))"
    using proc_init [of True two_requests "init_bucket 1 1 0"] by (simp add: two_requests_def numeral_2_eq_2)
  moreover have "bucket_ok (init_bucket 1 1 0)" "list_all (\<lambda>r. 0 \<le> fst r) two_requests"
    by (simp_all add: bucket_ok_def init_bucket_def two_requests_def)
  ultimately show ?thesis
    unfolding timely_demo using shared_bucket_processes_safe [OF run_schedule_reaches [OF timely_demo]] by simp
qed

section \<open>Findings\<close>

text \<open>
  The module promises one bucket for all processes.  When the second process opens the file
  before the first has replaced it, it waits for the lock of the replaced inode, reads the old
  state from it, and gets the same token again: a bucket of capacity one grants two at once.
\<close>

lemma stale_lock_grants_twice:
  "\<exists>h fs out0 out1. proc_runs False two_requests (init_bucket 1 1 0) h [Exited out0, Exited out1] fs
     \<and> acquired out0 \<and> acquired out1"
proof -
  have "proc_runs False two_requests (init_bucket 1 1 0) [] (replicate 2 Starting) (fs_with (init_bucket 1 1 0))"
    using proc_init [of False two_requests "init_bucket 1 1 0"] by (simp add: two_requests_def numeral_2_eq_2)
  moreover have "\<exists>h fs. run_schedule False two_requests ([], replicate 2 Starting, fs_with (init_bucket 1 1 0)) overlapping_order
      = Some (h, [Exited (Inr (True, 0, (init_bucket 1 1 0)\<lparr>tokens := 0\<rparr>)), Exited (Inr (True, 0, (init_bucket 1 1 0)\<lparr>tokens := 0\<rparr>))], fs)"
    by (simp add: demo_defs)
  ultimately show ?thesis using run_schedule_reaches by (fastforce simp: acquired_def)
qed

text \<open>
  \<open>main\<close> reads the clock before it takes the lock, so a process can present an older time than
  the one in the file.  \<open>_refill\<close> then moves \<open>last_refill_ns\<close> back, and the interval is
  credited a second time: with rate one, two tokens are granted within one second of an empty
  bucket.
\<close>

lemma older_reading_is_credited_twice:
  "oks (fst (run acquire \<lparr>capacity = 5, refill_per_sec = 1, tokens = 0, last_refill_ns = 0\<rparr>
      [(1, 10 ^ 9), (0, 0), (1, 10 ^ 9)])) =
   [(True, 0, \<lparr>capacity = 5, refill_per_sec = 1, tokens = 0, last_refill_ns = 10 ^ 9\<rparr>),
    (True, 0, \<lparr>capacity = 5, refill_per_sec = 1, tokens = 0, last_refill_ns = 0\<rparr>),
    (True, 0, \<lparr>capacity = 5, refill_per_sec = 1, tokens = 0, last_refill_ns = 10 ^ 9\<rparr>)]"
  by (simp add: acquire_def acquire_state_def refill_def Let_def)

text \<open>
  A request for more than the capacity is told a waiting time although no waiting helps.
\<close>

lemma oversized_request_never_granted:
  assumes "bucket_ok st" "of_int (capacity st) < n"
  shows "\<not> acquired (fst (acquire st (n, t)))"
proof -
  have "tokens (refill st t) < n" using refill_ok [OF assms(1), of t] assms(2) by (simp add: bucket_ok_def)
  then show ?thesis by (simp add: acquire_def acquire_state_def acquired_def Let_def)
qed

end
