(* ===== verification/Backpressure_Limiter.thy ===== *)
theory Backpressure_Limiter
  imports Token_Bucket
begin

text \<open>
  The rate limiter with a bounded queue (\<open>tool-call-rate-limit-backpressure/limiter.py\<close>).
  Readings of \<open>now_fn\<close> are arguments: \<open>submit\<close> makes one for the refill and, when it
  admits, a second one for \<open>enqueued_at\<close>.
\<close>

section \<open>The limiter\<close>

datatype lim_verdict =
    Admitted int rat nat
  | Throttled rat nat
  | Rejected nat int

datatype lim_error = BadRate | BadBurst | BadQueueCapacity | UnknownTicket int

record limiter =
  rate_per_sec :: rat
  burst :: int
  queue_capacity :: int
  l_tokens :: rat
  l_last_refill :: rat
  queue :: "int list"
  next_id :: int
  admitted_count :: nat
  throttled_count :: nat
  rejected_count :: nat
  completed_count :: nat

definition new_limiter :: "rat \<Rightarrow> int \<Rightarrow> int \<Rightarrow> rat \<Rightarrow> lim_error + limiter" where
  "new_limiter rate b qc now =
     (if rate \<le> 0 then Inl BadRate
      else if b < 1 then Inl BadBurst
      else if qc < 1 then Inl BadQueueCapacity
      else Inr \<lparr>rate_per_sec = rate, burst = b, queue_capacity = qc, l_tokens = of_int b, l_last_refill = now,
        queue = [], next_id = 1, admitted_count = 0, throttled_count = 0, rejected_count = 0, completed_count = 0\<rparr>)"

definition lim_refill :: "limiter \<Rightarrow> rat \<Rightarrow> limiter" where
  "lim_refill s now =
     (let elapsed = now - l_last_refill s in
      if elapsed \<le> 0 then s
      else s\<lparr>l_tokens := min (of_int (burst s)) (l_tokens s + elapsed * rate_per_sec s), l_last_refill := now\<rparr>)"

definition lim_submit :: "limiter \<Rightarrow> rat \<Rightarrow> rat \<Rightarrow> lim_verdict \<times> limiter" where
  "lim_submit s0 now enqueued_at =
     (let s = lim_refill s0 now; depth = length (queue s) in
      if int depth \<ge> queue_capacity s then
        (Rejected depth (queue_capacity s), s\<lparr>rejected_count := rejected_count s + 1\<rparr>)
      else if l_tokens s < 1 then
        (Throttled ((1 - l_tokens s) / rate_per_sec s) depth, s\<lparr>throttled_count := throttled_count s + 1\<rparr>)
      else
        (Admitted (next_id s) enqueued_at (length (queue s @ [next_id s])),
         s\<lparr>l_tokens := l_tokens s - 1, next_id := next_id s + 1, queue := queue s @ [next_id s],
           admitted_count := admitted_count s + 1\<rparr>))"

definition complete :: "limiter \<Rightarrow> int \<Rightarrow> (lim_error, unit, limiter) outcome" where
  "complete s i =
     (if i \<in> set (queue s) then (Inr (), s\<lparr>queue := remove1 i (queue s), completed_count := completed_count s + 1\<rparr>)
      else (Inl (UnknownTicket i), s))"

definition queue_depth :: "limiter \<Rightarrow> nat" where
  "queue_depth s = length (queue s)"

definition tokens_available :: "limiter \<Rightarrow> rat \<Rightarrow> rat \<times> limiter" where
  "tokens_available s now = (let s' = lim_refill s now in (l_tokens s', s'))"

text \<open>A session: calls with the time at which they are made.\<close>

datatype lim_call = Submit rat | Complete int | TokensAvailable

datatype lim_reply = Verdict lim_verdict | Completed | Available rat

fun lim_step :: "limiter \<Rightarrow> rat \<times> lim_call \<Rightarrow> (lim_error, lim_reply, limiter) outcome" where
  "lim_step s (t, Submit t2) = (let (v, s') = lim_submit s t t2 in (Inr (Verdict v), s'))"
| "lim_step s (t, Complete i) = (case complete s i of (Inl e, s') \<Rightarrow> (Inl e, s') | (Inr _, s') \<Rightarrow> (Inr Completed, s'))"
| "lim_step s (t, TokensAvailable) = (let (x, s') = tokens_available s t in (Inr (Available x), s'))"

section \<open>The rate\<close>

definition lim_ok :: "limiter \<Rightarrow> bool" where
  "lim_ok s \<longleftrightarrow> 0 \<le> l_tokens s \<and> l_tokens s \<le> of_int (burst s) \<and> 0 < rate_per_sec s"

lemma lim_refill_frame [simp]:
  "rate_per_sec (lim_refill s t) = rate_per_sec s" "burst (lim_refill s t) = burst s"
  "queue_capacity (lim_refill s t) = queue_capacity s" "queue (lim_refill s t) = queue s"
  "next_id (lim_refill s t) = next_id s" "admitted_count (lim_refill s t) = admitted_count s"
  "throttled_count (lim_refill s t) = throttled_count s" "rejected_count (lim_refill s t) = rejected_count s"
  "completed_count (lim_refill s t) = completed_count s"
  by (simp_all add: lim_refill_def Let_def)

lemma lim_refill_tokens:
  assumes "lim_ok s" "l_last_refill s \<le> t"
  shows "l_last_refill (lim_refill s t) = t \<and>
    l_tokens (lim_refill s t) = min (of_int (burst s)) (l_tokens s + (t - l_last_refill s) * rate_per_sec s)"
  using assms by (auto simp: lim_refill_def lim_ok_def Let_def)

lemma lim_refill_ok:
  assumes "lim_ok s"
  shows "lim_ok (lim_refill s t)"
proof (cases "t - l_last_refill s \<le> 0")
  case False
  then have "0 \<le> (t - l_last_refill s) * rate_per_sec s" using assms by (simp add: lim_ok_def)
  then show ?thesis using assms False by (auto simp: lim_refill_def lim_ok_def Let_def)
qed (use assms in \<open>simp add: lim_refill_def\<close>)

definition lim_granted :: "limiter \<Rightarrow> rat \<times> lim_call \<Rightarrow> rat" where
  "lim_granted s c = (case fst (lim_step s c) of Inr (Verdict (Admitted _ _ _)) \<Rightarrow> 1 | _ \<Rightarrow> 0)"

lemmas lim_step_defs = lim_submit_def complete_def tokens_available_def Let_def

text \<open>What a call does to the bucket.\<close>

lemma lim_step_bucket:
  assumes "lim_ok s" "snd (lim_step s c) = s'"
  shows "lim_ok s' \<and> rate_per_sec s' = rate_per_sec s \<and> burst s' = burst s \<and>
    (lim_granted s c = 0 \<and> l_tokens s' = l_tokens s \<and> l_last_refill s' = l_last_refill s \<or>
     l_last_refill s' = l_last_refill (lim_refill s (fst c)) \<and> l_tokens s' = l_tokens (lim_refill s (fst c)) - lim_granted s c)"
  using assms lim_refill_ok [OF assms(1), of "fst c"]
  by (cases "(s, c)" rule: lim_step.cases) (auto simp: lim_step_defs lim_granted_def lim_ok_def split: if_splits)

interpretation lim: token_bucket "\<lambda>s c. snd (lim_step s c)" lim_granted "\<lambda>c. True" fst
  lim_ok l_tokens l_last_refill rate_per_sec "\<lambda>s. of_int (burst s)"
proof unfold_locales
  fix s and c :: "rat \<times> lim_call"
  show "rate_per_sec (snd (lim_step s c)) = rate_per_sec s"
    "rat_of_int (burst (snd (lim_step s c))) = of_int (burst s)"
    by (cases "(s, c)" rule: lim_step.cases, auto simp: lim_step_defs)+
  assume "lim_ok s"
  then show "0 \<le> l_tokens s \<and> l_tokens s \<le> of_int (burst s) \<and> 0 \<le> rate_per_sec s" by (simp add: lim_ok_def)
next
  fix s and c :: "rat \<times> lim_call"
  let ?s = "snd (lim_step s c)"
  assume a: "lim_ok s" "l_last_refill s \<le> fst c"
  note b = lim_step_bucket [OF a(1) refl, of c] and r = lim_refill_tokens [OF a]
  show "lim_ok ?s" using b by blast
  show "l_last_refill s \<le> l_last_refill ?s \<and> l_last_refill ?s \<le> fst c \<and> (lim_granted s c \<noteq> 0 \<longrightarrow> l_last_refill ?s = fst c)"
    using b r a(2) by auto
  show "l_tokens ?s + lim_granted s c \<le> of_int (burst s)"
    using b r a(1) by (auto simp: lim_ok_def)
  show "l_tokens ?s + lim_granted s c \<le> l_tokens s + (l_last_refill ?s - l_last_refill s) * rate_per_sec s"
    using b r by auto
qed

section \<open>The queue and the tickets\<close>

text \<open>What a session did: the tickets handed out, and those given back, in order.\<close>

fun admitted_tickets :: "(lim_error + lim_reply) list \<Rightarrow> int list" where
  "admitted_tickets [] = []"
| "admitted_tickets (Inr (Verdict (Admitted i _ _)) # os) = i # admitted_tickets os"
| "admitted_tickets (_ # os) = admitted_tickets os"

fun completed_tickets :: "(rat \<times> lim_call) list \<Rightarrow> (lim_error + lim_reply) list \<Rightarrow> int list" where
  "completed_tickets ((_, Complete i) # cs) (Inr r # os) = i # completed_tickets cs os"
| "completed_tickets (_ # cs) (_ # os) = completed_tickets cs os"
| "completed_tickets _ _ = []"

fun throttles :: "lim_error + lim_reply \<Rightarrow> bool" where
  "throttles (Inr (Verdict (Throttled _ _))) = True" | "throttles _ = False"

fun rejects :: "lim_error + lim_reply \<Rightarrow> bool" where
  "rejects (Inr (Verdict (Rejected _ _))) = True" | "rejects _ = False"

lemma admitted_tickets_append [simp]: "admitted_tickets (xs @ ys) = admitted_tickets xs @ admitted_tickets ys"
  by (induction xs rule: admitted_tickets.induct) simp_all

lemma completed_tickets_append:
  "length cs = length os \<Longrightarrow> completed_tickets (cs @ cs') (os @ os') = completed_tickets cs os @ completed_tickets cs' os'"
  by (induction cs os rule: completed_tickets.induct) auto

text \<open>The state a limiter is in after it handed out the tickets \<open>a\<close> and got back the tickets \<open>d\<close>.\<close>

definition queue_inv :: "int list \<Rightarrow> int list \<Rightarrow> limiter \<Rightarrow> bool" where
  "queue_inv a d s \<longleftrightarrow> a = map int [1..<Suc (length a)] \<and> next_id s = int (length a) + 1 \<and> distinct d \<and> set d \<subseteq> set a \<and>
     queue s = filter (\<lambda>i. i \<notin> set d) a \<and> int (length (queue s)) \<le> queue_capacity s \<and>
     admitted_count s = length a \<and> completed_count s = length d"

lemma queue_inv_admit:
  assumes "queue_inv a d s" "int (length (queue s)) < queue_capacity s"
  shows "queue_inv (a @ [next_id s]) d (s\<lparr>l_tokens := x, next_id := next_id s + 1, queue := queue s @ [next_id s],
    admitted_count := admitted_count s + 1\<rparr>)"
proof -
  have "next_id s \<notin> set a" using assms(1) unfolding queue_inv_def by (metis (no_types, lifting) add.commute atLeastLessThan_iff imageE less_irrefl list.set_map of_nat_Suc of_nat_eq_iff set_upt)
  then have "next_id s \<notin> set d" using assms(1) by (auto simp: queue_inv_def)
  moreover have "a @ [next_id s] = map int [1..<Suc (Suc (length a))]"
    using assms(1) by (simp add: queue_inv_def)
  ultimately show ?thesis using assms by (auto simp: queue_inv_def)
qed

lemma queue_inv_complete:
  assumes "queue_inv a d s" "i \<in> set (queue s)"
  shows "queue_inv a (d @ [i]) (s\<lparr>queue := remove1 i (queue s), completed_count := completed_count s + 1\<rparr>)"
proof -
  have q: "queue s = filter (\<lambda>i. i \<notin> set d) a" "distinct a" using assms(1) unfolding queue_inv_def
    by (simp, metis distinct_map distinct_upt inj_on_of_nat)
  then have "remove1 i (queue s) = filter (\<lambda>j. j \<notin> set (d @ [i])) a"
    by (auto simp: distinct_remove1_removeAll removeAll_filter_not_eq intro: filter_cong)
  moreover have "length (remove1 i (queue s)) \<le> length (queue s)" by (simp add: length_remove1)
  ultimately show ?thesis using assms q(1) by (auto simp: queue_inv_def)
qed

lemma queue_inv_refill [simp]: "queue_inv a d (lim_refill s t) = queue_inv a d s"
  by (simp add: queue_inv_def)

lemma queue_inv_counters [simp]:
  "queue_inv a d (s\<lparr>rejected_count := x\<rparr>) = queue_inv a d s" "queue_inv a d (s\<lparr>throttled_count := x\<rparr>) = queue_inv a d s"
  by (simp_all add: queue_inv_def)

definition lim_tracks :: "(rat \<times> lim_call) list \<Rightarrow> (lim_error + lim_reply) list \<Rightarrow> limiter \<Rightarrow> bool" where
  "lim_tracks cs os s \<longleftrightarrow> queue_inv (admitted_tickets os) (completed_tickets cs os) s \<and>
     throttled_count s = length (filter throttles os) \<and> rejected_count s = length (filter rejects os)"

lemma lim_tracks_step:
  assumes "lim_tracks cs os s" "length cs = length os"
  shows "lim_tracks (cs @ [c]) (os @ [fst (lim_step s c)]) (snd (lim_step s c))"
proof (cases "(s, c)" rule: lim_step.cases)
  case (1 s0 t t2)
  then show ?thesis using assms queue_inv_admit [of "admitted_tickets os" "completed_tickets cs os" "lim_refill s t"]
    by (auto simp: lim_tracks_def completed_tickets_append lim_submit_def Let_def)
next
  case (2 s0 t i)
  then show ?thesis using assms queue_inv_complete [of "admitted_tickets os" "completed_tickets cs os" s i]
    by (auto simp: lim_tracks_def completed_tickets_append complete_def)
qed (use assms in \<open>auto simp: lim_tracks_def completed_tickets_append tokens_available_def Let_def\<close>)

lemma lim_tracks_session:
  assumes "lim_tracks [] [] s0"
  shows "lim_tracks cs (fst (run lim_step s0 cs)) (snd (run lim_step s0 cs))"
proof (induction cs rule: rev_induct)
  case (snoc c cs)
  from lim_tracks_step [OF this, of c] show ?case by (simp add: run_append case_prod_beta)
qed (simp add: assms)

lemma final_lim: "final (\<lambda>s c. snd (lim_step s c)) s cs = snd (run lim_step s cs)"
  by (induction cs arbitrary: s) (simp_all add: run_Cons_split del: run.simps(2))

section \<open>The verdicts\<close>

definition verdict_exact :: "limiter \<Rightarrow> rat \<Rightarrow> rat \<Rightarrow> bool" where
  "verdict_exact s t u \<longleftrightarrow>
     (case lim_submit s t t of
        (Rejected depth cap, s') \<Rightarrow> int (length (queue s)) \<ge> queue_capacity s \<and> depth = length (queue s) \<and> cap = queue_capacity s \<and> queue s' = queue s
      | (Throttled retry_after depth, s') \<Rightarrow>
          int (length (queue s)) < queue_capacity s \<and> depth = length (queue s) \<and> queue s' = queue s \<and> 0 < retry_after \<and>
          (if t \<le> u then (\<exists>i e k s''. lim_submit s' u u = (Admitted i e k, s'')) \<longleftrightarrow> t + retry_after \<le> u else True)
      | (Admitted i _ depth, s') \<Rightarrow> int (length (queue s)) < queue_capacity s \<and> i = next_id s \<and> depth = Suc (length (queue s)) \<and> queue s' = queue s @ [i])"

lemma lim_submit_exact:
  assumes "lim_ok s" "1 \<le> burst s" "l_last_refill s \<le> t"
  shows "verdict_exact s t u"
proof -
  let ?r = "lim_refill s t"
  note r = lim_refill_tokens [OF assms(1,3)] and k = lim_refill_ok [OF assms(1), of t]
  consider (rej) "int (length (queue s)) \<ge> queue_capacity s" | (thr) "int (length (queue s)) < queue_capacity s" "l_tokens ?r < 1"
    | (adm) "int (length (queue s)) < queue_capacity s" "\<not> l_tokens ?r < 1" by linarith
  then show ?thesis
  proof cases
    case thr
    let ?s = "?r\<lparr>throttled_count := throttled_count s + 1\<rparr>"
    have s: "lim_submit s t t = (Throttled ((1 - l_tokens ?r) / rate_per_sec s) (length (queue s)), ?s)"
      using thr by (simp add: lim_submit_def Let_def)
    have "(\<exists>i e k s''. lim_submit ?s u u = (Admitted i e k, s'')) \<longleftrightarrow> t + (1 - l_tokens ?r) / rate_per_sec s \<le> u" if "t \<le> u"
    proof -
      have "lim_ok ?s" "l_last_refill ?s \<le> u" using k r that by (simp_all add: lim_ok_def)
      note r' = lim_refill_tokens [OF this]
      have "1 \<le> l_tokens (lim_refill ?s u) \<longleftrightarrow> t + (1 - l_tokens ?r) / rate_per_sec s \<le> u"
        using r r' refill_reaches [of "rate_per_sec s" 1 "of_int (burst s)" "l_tokens ?r" u t] assms(1,2)
        by (simp add: lim_ok_def)
      moreover have "(\<exists>i e k s''. lim_submit ?s u u = (Admitted i e k, s'')) \<longleftrightarrow> 1 \<le> l_tokens (lim_refill ?s u)"
        using thr(1) by (auto simp: lim_submit_def Let_def)
      ultimately show ?thesis by simp
    qed
    then show ?thesis using thr s assms(1) by (simp add: verdict_exact_def lim_ok_def)
  qed (simp_all add: verdict_exact_def lim_submit_def Let_def)
qed

lemma new_limiter_ok:
  assumes "new_limiter rate b qc now = Inr s"
  shows "lim_ok s \<and> 1 \<le> burst s \<and> lim_tracks [] [] s \<and> l_last_refill s = now \<and> burst s = b \<and> rate_per_sec s = rate \<and> queue_capacity s = qc"
  using assms by (auto simp: new_limiter_def lim_ok_def lim_tracks_def queue_inv_def split: if_splits)

lemma run_queue_capacity [simp]: "queue_capacity (snd (run lim_step s cs)) = queue_capacity s"
proof (induction cs arbitrary: s)
  case (Cons c cs)
  have "queue_capacity (snd (lim_step s c)) = queue_capacity s"
    by (cases "(s, c)" rule: lim_step.cases) (auto simp: lim_step_defs)
  then show ?case using Cons by (simp add: run_Cons_split del: run.simps(2))
qed simp

text \<open>
  A limiter under any sequence of calls with a clock that does not go back.  The tickets
  handed out are \<open>1, 2, 3, ...\<close>; the queue holds exactly the tickets that were handed out and not
  given back, in the order of admission, and never more than \<open>queue_capacity\<close>; a ticket is
  given back at most once; the four counters count the verdicts.  Over any window of the session
  at most \<open>burst\<close> plus rate times its duration calls are admitted.  And the verdict of a
  submit is the documented one: rejected exactly when the queue is full, otherwise throttled
  exactly when there is no token, with the exact time after which the same call is admitted.
\<close>

theorem limiter_bounds_admissions:
  assumes "new_limiter rate b qc now = Inr s0" "sorted (now # map fst (cs @ (t, c) # ws))"
  shows "let (os, s) = run lim_step s0 cs; a = admitted_tickets os; d = completed_tickets cs os in
    a = map int [1..<Suc (length a)] \<and> distinct d \<and> set d \<subseteq> set a \<and>
    queue s = filter (\<lambda>i. i \<notin> set d) a \<and> int (length (queue s)) \<le> qc \<and>
    admitted_count s = length a \<and> completed_count s = length d \<and>
    throttled_count s = length (filter throttles os) \<and> rejected_count s = length (filter rejects os) \<and>
    granted_total (\<lambda>s c. snd (lim_step s c)) lim_granted s ((t, c) # ws) \<le> of_int b + (last (map fst ((t, c) # ws)) - t) * rate \<and>
    verdict_exact s t u"
proof -
  obtain os s where r: "run lim_step s0 cs = (os, s)" by (cases "run lim_step s0 cs")
  note n = new_limiter_ok [OF assms(1)]
  have tr: "lim_tracks cs os s" using lim_tracks_session [of s0 cs] n r by simp
  have srt: "sorted (l_last_refill s0 # map fst (cs @ (t, c) # ws))" using assms(2) n by simp
  have w: "granted_total (\<lambda>s c. snd (lim_step s c)) lim_granted s ((t, c) # ws) \<le> of_int b + (last (map fst ((t, c) # ws)) - t) * rate"
    using lim.windowed_session [OF _ _ srt] n r by (simp add: final_lim list_all_iff del: granted_total.simps)
  have "sorted (l_last_refill s0 # map fst cs)" "last (l_last_refill s0 # map fst cs) \<le> t"
    using srt by (auto simp: sorted_append last_conv_nth)
  then have "lim_ok s \<and> l_last_refill s \<le> t \<and> 1 \<le> burst s"
    using lim.session_keeps [of s0 cs] n r by (simp add: final_lim list_all_iff)
  then have v: "verdict_exact s t u" by (intro lim_submit_exact) auto
  have "queue_capacity s = qc" using run_queue_capacity [of s0 cs] r n by simp
  note tr [unfolded lim_tracks_def queue_inv_def this]
  then show ?thesis unfolding r Let_def prod.case using v w by (elim conjE) (intro conjI; assumption)
qed

theorem limiter_bounds_admissions_witness:
  "let s0 = projr (new_limiter 2 1 2 0);
       (os, s) = run lim_step s0 [(0, Submit 0), (0, Submit 0), (1 / 2, Submit (1 / 2)), (1, Submit 1), (1, Complete 1)] in
   os = [Inr (Verdict (Admitted 1 0 1)), Inr (Verdict (Throttled (1 / 2) 1)), Inr (Verdict (Admitted 2 (1 / 2) 2)),
         Inr (Verdict (Rejected 2 2)), Inr Completed] \<and>
   queue s = [2] \<and> verdict_exact s 1 2"
  using limiter_bounds_admissions [of 2 1 2 0 "projr (new_limiter 2 1 2 0)"
    "[(0, Submit 0), (0, Submit 0), (1 / 2, Submit (1 / 2)), (1, Submit 1), (1, Complete 1)]" 1 TokensAvailable "[]" 2]
  by (simp add: new_limiter_def lim_submit_def complete_def lim_refill_def Let_def)

end
