(* ===== verification/Retry_Budget.thy ===== *)
theory Retry_Budget
  imports Token_Bucket
begin

text \<open>
  The shared retry budget (\<open>retry-budget-tracker/retry_budget.py\<close>).  The wrapped callable and
  \<open>sleep\<close> act on a world; \<open>time.monotonic()\<close> reads it.  Each \<open>try_consume\<close> holds the lock
  from its clock reading to its last write, so concurrent callers make a sequence of whole
  \<open>try_consume\<close> calls, and the rate limit for every such sequence is the interpretation below.
\<close>

section \<open>The budget\<close>

record retry_budget =
  b_capacity :: rat
  b_refill_per_sec :: rat
  b_tokens :: rat
  b_last_refill :: rat

definition new_retry_budget :: "rat \<Rightarrow> rat \<Rightarrow> rat \<Rightarrow> retry_budget" where
  "new_retry_budget cap rate now =
     \<lparr>b_capacity = cap, b_refill_per_sec = rate, b_tokens = cap, b_last_refill = now\<rparr>"

definition rb_refill :: "retry_budget \<Rightarrow> rat \<Rightarrow> retry_budget" where
  "rb_refill b now =
     (let elapsed = now - b_last_refill b in
      if elapsed > 0
      then b\<lparr>b_tokens := min (b_capacity b) (b_tokens b + elapsed * b_refill_per_sec b), b_last_refill := now\<rparr>
      else b)"

definition try_consume :: "retry_budget \<Rightarrow> rat \<Rightarrow> rat \<Rightarrow> bool \<times> retry_budget" where
  "try_consume b0 now n =
     (let b = rb_refill b0 now in
      if b_tokens b \<ge> n then (True, b\<lparr>b_tokens := b_tokens b - n\<rparr>) else (False, b))"

definition rb_available :: "retry_budget \<Rightarrow> rat \<Rightarrow> rat \<times> retry_budget" where
  "rb_available b now = (let b' = rb_refill b now in (b_tokens b', b'))"

section \<open>The wrapped call\<close>

record retry_stats =
  attempts :: nat
  retries_used :: nat
  retries_denied :: nat
  successes :: nat
  failures :: nat

datatype 'e retry_error = Reraised 'e | BudgetExhausted int 'e

record ('w, 'e, 'v) retry_env =
  fn :: "'w \<Rightarrow> ('e + 'v) \<times> 'w"
  monotonic :: "'w \<Rightarrow> rat"
  sleep :: "rat \<Rightarrow> 'w \<Rightarrow> 'w"

function retry_loop ::
  "('w, 'e, 'v) retry_env \<Rightarrow> int \<Rightarrow> rat \<Rightarrow> int \<Rightarrow> retry_budget \<Rightarrow> retry_stats \<Rightarrow> 'w \<Rightarrow>
   ('e retry_error + 'v) \<times> retry_budget \<times> retry_stats \<times> 'w" where
  "retry_loop f per_call_max base attempt b st w =
     (case fn f w of
        (Inr v, w1) \<Rightarrow> (Inr v, b, st\<lparr>successes := successes st + 1\<rparr>, w1)
      | (Inl e, w1) \<Rightarrow>
          if attempt \<ge> per_call_max then (Inl (Reraised e), b, st\<lparr>failures := failures st + 1\<rparr>, w1)
          else (case try_consume b (monotonic f w1) 1 of
              (False, b1) \<Rightarrow>
                (Inl (BudgetExhausted attempt e), b1,
                 st\<lparr>retries_denied := retries_denied st + 1, failures := failures st + 1\<rparr>, w1)
            | (True, b1) \<Rightarrow>
                retry_loop f per_call_max base (attempt + 1) b1 (st\<lparr>retries_used := retries_used st + 1\<rparr>)
                  (if base > 0 then sleep f (base * 2 ^ nat attempt) w1 else w1)))"
  by pat_completeness auto
termination
  by (relation "measure (\<lambda>(f, m, base, a, b, st, w). nat (m - a))") auto

declare retry_loop.simps [simp del]

definition call_with_budget ::
  "('w, 'e, 'v) retry_env \<Rightarrow> int \<Rightarrow> rat \<Rightarrow> retry_budget \<Rightarrow> retry_stats \<Rightarrow> 'w \<Rightarrow>
   ('e retry_error + 'v) \<times> retry_budget \<times> retry_stats \<times> 'w" where
  "call_with_budget f per_call_max base b st w =
     retry_loop f per_call_max base 0 b (st\<lparr>attempts := attempts st + 1\<rparr>) w"

definition no_stats :: retry_stats where
  "no_stats = \<lparr>attempts = 0, retries_used = 0, retries_denied = 0, successes = 0, failures = 0\<rparr>"

text \<open>Calls one after the other that share the budget and the statistics.\<close>

fun run_calls ::
  "('w, 'e, 'v) retry_env \<Rightarrow> (int \<times> rat) list \<Rightarrow> retry_budget \<times> retry_stats \<times> 'w \<Rightarrow> retry_budget \<times> retry_stats \<times> 'w" where
  "run_calls f [] s = s"
| "run_calls f ((m, base) # cs) (b, st, w) = run_calls f cs (snd (call_with_budget f m base b st w))"

section \<open>The rate of retries\<close>

definition rb_ok :: "retry_budget \<Rightarrow> bool" where
  "rb_ok b \<longleftrightarrow> 0 \<le> b_tokens b \<and> b_tokens b \<le> b_capacity b \<and> 0 \<le> b_refill_per_sec b"

lemma rb_refill_tokens:
  assumes "rb_ok b" "b_last_refill b \<le> t"
  shows "b_last_refill (rb_refill b t) = t \<and> b_capacity (rb_refill b t) = b_capacity b
    \<and> b_refill_per_sec (rb_refill b t) = b_refill_per_sec b \<and> rb_ok (rb_refill b t)
    \<and> b_tokens (rb_refill b t) = min (b_capacity b) (b_tokens b + (t - b_last_refill b) * b_refill_per_sec b)"
proof -
  have "0 \<le> (t - b_last_refill b) * b_refill_per_sec b" using assms by (simp add: rb_ok_def)
  then show ?thesis using assms by (auto simp: rb_refill_def rb_ok_def Let_def)
qed

definition rb_granted :: "retry_budget \<Rightarrow> rat \<times> rat \<Rightarrow> rat" where
  "rb_granted b r = (if fst (try_consume b (fst r) (snd r)) then snd r else 0)"

interpretation rb: token_bucket "\<lambda>b r. snd (try_consume b (fst r) (snd r))" rb_granted "\<lambda>r. 0 \<le> snd r" fst
  rb_ok b_tokens b_last_refill b_refill_per_sec b_capacity
proof unfold_locales
  fix b and r :: "rat \<times> rat"
  show "b_refill_per_sec (snd (try_consume b (fst r) (snd r))) = b_refill_per_sec b"
    "b_capacity (snd (try_consume b (fst r) (snd r))) = b_capacity b"
    by (simp_all add: try_consume_def rb_refill_def Let_def)
  assume "rb_ok b"
  then show "0 \<le> b_tokens b \<and> b_tokens b \<le> b_capacity b \<and> 0 \<le> b_refill_per_sec b" by (simp add: rb_ok_def)
next
  fix b and r :: "rat \<times> rat"
  let ?b = "snd (try_consume b (fst r) (snd r))"
  assume a: "rb_ok b" "0 \<le> snd r" "b_last_refill b \<le> fst r"
  note r = rb_refill_tokens [OF a(1,3)]
  then have k: "0 \<le> b_tokens (rb_refill b (fst r))" "b_tokens (rb_refill b (fst r)) \<le> b_capacity b"
    unfolding rb_ok_def by metis+
  have q: "b_tokens ?b = b_tokens (rb_refill b (fst r)) - rb_granted b r" "b_last_refill ?b = fst r"
    using r by (simp_all add: try_consume_def rb_granted_def Let_def)
  show "rb_ok ?b" using a r by (simp add: try_consume_def rb_ok_def Let_def)
  show "b_last_refill b \<le> b_last_refill ?b \<and> b_last_refill ?b \<le> fst r \<and> (rb_granted b r \<noteq> 0 \<longrightarrow> b_last_refill ?b = fst r)"
    using q a by simp
  show "b_tokens ?b + rb_granted b r \<le> b_capacity b" using q k by simp
  show "b_tokens ?b + rb_granted b r \<le> b_tokens b + (b_last_refill ?b - b_last_refill b) * b_refill_per_sec b"
    using q r by simp
qed

section \<open>The loop\<close>

text \<open>
  \<open>ticks f n\<close>: \<open>n\<close> counts the calls of \<open>fn\<close>, and the clock does not go back.
\<close>

definition ticks :: "('w, 'e, 'v) retry_env \<Rightarrow> ('w \<Rightarrow> nat) \<Rightarrow> bool" where
  "ticks f n \<longleftrightarrow> (\<forall>w. n (snd (fn f w)) = n w + 1 \<and> monotonic f w \<le> monotonic f (snd (fn f w))) \<and>
     (\<forall>d w. n (sleep f d w) = n w \<and> monotonic f w \<le> monotonic f (sleep f d w))"

text \<open>How a call may end, given the statistics before and after it and the number of calls of \<open>fn\<close>.\<close>

definition call_exact :: "int \<Rightarrow> retry_stats \<Rightarrow> nat \<Rightarrow> 'e retry_error + 'v \<Rightarrow> retry_stats \<Rightarrow> bool" where
  "call_exact m st k out st' \<longleftrightarrow>
     attempts st' = attempts st + 1 \<and> retries_used st' + 1 = retries_used st + k \<and> k \<le> nat m + 1 \<and>
     (case out of
        Inr v \<Rightarrow> successes st' = successes st + 1 \<and> failures st' = failures st \<and> retries_denied st' = retries_denied st
      | Inl (Reraised e) \<Rightarrow> successes st' = successes st \<and> failures st' = failures st + 1 \<and> retries_denied st' = retries_denied st
          \<and> k = nat m + 1
      | Inl (BudgetExhausted j e) \<Rightarrow> successes st' = successes st \<and> failures st' = failures st + 1 \<and>
          retries_denied st' = retries_denied st + 1 \<and> j + 1 = int k \<and> j < m)"

lemma ticksD:
  assumes "ticks f n"
  shows "n (snd (fn f w)) = n w + 1" "monotonic f w \<le> monotonic f (snd (fn f w))"
    "n (sleep f d w) = n w" "monotonic f w \<le> monotonic f (sleep f d w)"
  using assms by (simp_all add: ticks_def)

text \<open>The three ways through the loop's body.\<close>

lemma retry_loop_cases:
  obtains (ret) v w1 where "fn f w = (Inr v, w1)"
      "retry_loop f m base a b st w = (Inr v, b, st\<lparr>successes := successes st + 1\<rparr>, w1)"
  | (capped) e w1 where "fn f w = (Inl e, w1)" "a \<ge> m"
      "retry_loop f m base a b st w = (Inl (Reraised e), b, st\<lparr>failures := failures st + 1\<rparr>, w1)"
  | (denied) e w1 b1 where "fn f w = (Inl e, w1)" "a < m" "try_consume b (monotonic f w1) 1 = (False, b1)"
      "retry_loop f m base a b st w = (Inl (BudgetExhausted a e), b1,
         st\<lparr>retries_denied := retries_denied st + 1, failures := failures st + 1\<rparr>, w1)"
  | (retry) e w1 b1 w2 where "fn f w = (Inl e, w1)" "a < m" "try_consume b (monotonic f w1) 1 = (True, b1)"
      "w2 = (if base > 0 then sleep f (base * 2 ^ nat a) w1 else w1)"
      "retry_loop f m base a b st w = retry_loop f m base (a + 1) b1 (st\<lparr>retries_used := retries_used st + 1\<rparr>) w2"
proof -
  obtain r w1 where f: "fn f w = (r, w1)" by (cases "fn f w")
  obtain ok b1 where c: "try_consume b (monotonic f w1) 1 = (ok, b1)" by (cases "try_consume b (monotonic f w1) 1")
  note s = retry_loop.simps [of f m base a b st w]
  show ?thesis
  proof (cases r)
    case (Inr v)
    then show ?thesis using f s by (intro ret) auto
  next
    case (Inl e)
    consider "a \<ge> m" | "a < m" "\<not> ok" | "a < m" "ok" by fastforce
    then show ?thesis
    proof cases
      case 1
      then show ?thesis using f s Inl by (intro capped) auto
    next
      case 2
      then show ?thesis using f s Inl c by (intro denied) auto
    next
      case 3
      then show ?thesis using f s Inl c by (intro retry [OF _ _ _ refl]) auto
    qed
  qed
qed

text \<open>The statistics and the number of calls.\<close>

definition loop_exact :: "int \<Rightarrow> int \<Rightarrow> retry_stats \<Rightarrow> nat \<Rightarrow> 'e retry_error + 'v \<Rightarrow> retry_stats \<Rightarrow> bool" where
  "loop_exact m a st k out st' \<longleftrightarrow>
     call_exact (m - a) (st\<lparr>attempts := attempts st - 1\<rparr>) k (case out of Inl (BudgetExhausted j e) \<Rightarrow> Inl (BudgetExhausted (j - a) e) | _ \<Rightarrow> out) st'"

lemma loop_exact_retry:
  assumes "loop_exact m (a + 1) (st\<lparr>retries_used := retries_used st + 1\<rparr>) k out st'" "a < m"
  shows "loop_exact m a st (Suc k) out st'"
proof -
  have m: "nat (m - a) = Suc (nat (m - (a + 1)))" using assms(2) by simp
  show ?thesis
  proof (cases out)
    case (Inl e)
    then show ?thesis using assms(1) by (cases e) (simp_all add: loop_exact_def call_exact_def m)
  qed (use assms(1) in \<open>simp add: loop_exact_def call_exact_def m\<close>)
qed

lemma retry_loop_exact:
  assumes "ticks f n" "0 < attempts st" "retry_loop f m base a b st w = (out, b', st', w')"
  shows "n w \<le> n w' \<and> loop_exact m a st (n w' - n w) out st'"
  using assms
proof (induction f m base a b st w rule: retry_loop.induct)
  case (1 f m base a b st w)
  note n = ticksD [OF 1(2)]
  show ?case
  proof (cases rule: retry_loop_cases [of f w m base a b st])
    case (ret v w1)
    then show ?thesis using 1 n(1) [of w] by (auto simp: loop_exact_def call_exact_def)
  next
    case (capped e w1)
    then show ?thesis using 1 n(1) [of w] by (auto simp: loop_exact_def call_exact_def)
  next
    case (denied e w1 b1)
    then show ?thesis using 1 n(1) [of w] by (auto simp: loop_exact_def call_exact_def)
  next
    case (retry e w1 b1 w2)
    have w2: "n w2 = n w + 1" using n(1) [of w] unfolding retry(1,4) by (simp add: n(3))
    have "n w2 \<le> n w' \<and> loop_exact m (a + 1) (st\<lparr>retries_used := retries_used st + 1\<rparr>) (n w' - n w2) out st'"
      using 1(1) [OF retry(1) [symmetric] refl _ retry(3) [symmetric]] 1(2-) retry by simp
    then have "loop_exact m a st (Suc (n w' - n w2)) out st'" using loop_exact_retry retry(2) by blast
    moreover have "Suc (n w' - n w2) = n w' - n w" using \<open>n w2 \<le> n w' \<and> _\<close> w2 by linarith
    ultimately show ?thesis using \<open>n w2 \<le> n w' \<and> _\<close> w2 by simp
  qed
qed

text \<open>The budget: every retry has been paid for.\<close>

definition paid :: "retry_budget \<Rightarrow> nat \<Rightarrow> retry_budget \<Rightarrow> rat \<Rightarrow> bool" where
  "paid b k b' t \<longleftrightarrow> rb_ok b' \<and> b_capacity b' = b_capacity b \<and> b_refill_per_sec b' = b_refill_per_sec b \<and>
     b_last_refill b \<le> b_last_refill b' \<and> b_last_refill b' \<le> t \<and>
     b_tokens b' + of_nat k \<le> b_tokens b + (b_last_refill b' - b_last_refill b) * b_refill_per_sec b"

lemma paid_trans: "paid b j b1 t1 \<Longrightarrow> paid b1 k b2 t2 \<Longrightarrow> paid b (j + k) b2 t2"
  by (auto simp: paid_def algebra_simps)

lemma paid_later: "paid b k b' t \<Longrightarrow> t \<le> t' \<Longrightarrow> paid b k b' t'"
  by (auto simp: paid_def)

lemma try_consume_paid:
  assumes "rb_ok b" "b_last_refill b \<le> t" "try_consume b t 1 = (ok, b')"
  shows "paid b (of_bool ok) b' t"
  using rb.ask_ok [of b "(t, 1)"] rb.ask_frame [of b "(t, 1)"] rb.ask_stamp [of b "(t, 1)"] rb.ask_level [of b "(t, 1)"] assms
  by (simp add: paid_def rb_granted_def of_bool_def split: if_splits)

lemma retry_loop_paid:
  assumes "ticks f n" "rb_ok b" "b_last_refill b \<le> monotonic f w" "retry_loop f m base a b st w = (out, b', st', w')"
  shows "retries_used st \<le> retries_used st' \<and> paid b (retries_used st' - retries_used st) b' (monotonic f w')"
  using assms
proof (induction f m base a b st w rule: retry_loop.induct)
  case (1 f m base a b st w)
  note n = ticksD [OF 1(2)]
  have w1: "b_last_refill b \<le> monotonic f (snd (fn f w))" using n(2) [of w] 1(4) by simp
  have free: "paid b 0 b (monotonic f (snd (fn f w)))" using 1(3) w1 by (simp add: paid_def)
  show ?case
  proof (cases rule: retry_loop_cases [of f w m base a b st])
    case (denied e w1 b1)
    then show ?thesis using try_consume_paid [OF 1(3) _ denied(3)] w1 1(5) by auto
  next
    case (retry e w1 b1 w2)
    have p: "paid b 1 b1 (monotonic f w1)" using try_consume_paid [OF 1(3) _ retry(3)] w1 retry(1) by simp
    have "monotonic f w1 \<le> monotonic f w2" using retry(4) n(4) by simp
    then have q: "rb_ok b1" "b_last_refill b1 \<le> monotonic f w2" using p by (auto simp: paid_def)
    have i: "retries_used st + 1 \<le> retries_used st' \<and> paid b1 (retries_used st' - (retries_used st + 1)) b' (monotonic f w')"
      using 1(1) [OF retry(1) [symmetric] refl _ retry(3) [symmetric]] 1(2,5) retry q by simp
    then have "1 + (retries_used st' - (retries_used st + 1)) = retries_used st' - retries_used st" by linarith
    then show ?thesis using paid_trans [OF p, of _ b' "monotonic f w'"] i by (metis Suc_eq_plus1 Suc_leD)
  qed (use 1(5) free in auto)
qed

lemma call_with_budget_sound:
  assumes "ticks f n" "rb_ok b" "b_last_refill b \<le> monotonic f w" "call_with_budget f m base b st w = (out, b', st', w')"
  shows "n w \<le> n w'" "call_exact m st (n w' - n w) out st'"
    "retries_used st \<le> retries_used st'" "paid b (retries_used st' - retries_used st) b' (monotonic f w')"
  using retry_loop_exact [OF assms(1) _ assms(4) [unfolded call_with_budget_def]]
    retry_loop_paid [OF assms(1-3) assms(4) [unfolded call_with_budget_def]]
  by (auto simp: loop_exact_def call_exact_def split: sum.splits retry_error.splits)

text \<open>Sessions of calls.\<close>

definition books_balance :: "retry_stats \<Rightarrow> nat \<Rightarrow> bool" where
  "books_balance st k \<longleftrightarrow> attempts st = successes st + failures st \<and> retries_denied st \<le> failures st \<and> k = attempts st + retries_used st"

lemma call_exact_books:
  "call_exact m st k out st' \<Longrightarrow> books_balance st j \<Longrightarrow> books_balance st' (j + k)"
  by (auto simp: call_exact_def books_balance_def split: sum.splits retry_error.splits)

lemma run_calls_sound:
  assumes "ticks f n" "rb_ok b" "b_last_refill b \<le> monotonic f w" "books_balance st j"
    and "run_calls f cs (b, st, w) = (b', st', w')"
  shows "n w \<le> n w' \<and> books_balance st' (j + (n w' - n w)) \<and> attempts st' = attempts st + length cs \<and>
    retries_used st \<le> retries_used st' \<and> paid b (retries_used st' - retries_used st) b' (monotonic f w')"
  using assms(2-5)
proof (induction cs arbitrary: b st w j)
  case Nil
  then show ?case by (simp add: paid_def)
next
  case (Cons c cs)
  obtain m base where c: "c = (m, base)" by (cases c)
  obtain out b1 st1 w1 where call: "call_with_budget f m base b st w = (out, b1, st1, w1)" by (metis prod_cases4)
  note s = call_with_budget_sound [OF assms(1) Cons.prems(1,2) call]
  have p: "rb_ok b1" "b_last_refill b1 \<le> monotonic f w1" using s(4) by (auto simp: paid_def)
  have a: "attempts st1 = attempts st + 1" using s(2) by (simp add: call_exact_def)
  have "run_calls f cs (b1, st1, w1) = (b', st', w')" using Cons.prems(4) c call by simp
  note ih = Cons.IH [OF p call_exact_books [OF s(2) Cons.prems(3)] this]
  then show ?case using s paid_trans [OF s(4)] a by fastforce
qed

text \<open>
  Whatever the wrapped callable does, with a clock that does not go back: after any number
  of calls that share a budget, each first try has ended as one success or one failure, the
  callable has run once per first try and once per retry used, and the number of retries
  is at most the budget's capacity plus what the refill rate has supplied since the budget was
  made.  The next call runs the callable at most \<open>per_call_max + 1\<close> times (once when the cap is
  not positive); it re-raises the callable's error only when it has made all of these, and
  raises \<open>BudgetExhausted\<close> with the number of retries it made only before that.
\<close>

theorem retry_budget_bounds_retries:
  assumes "ticks f n" "0 \<le> cap" "0 \<le> rate"
    and "run_calls f cs (new_retry_budget cap rate (monotonic f w0), no_stats, w0) = (b, st, w)"
    and "call_with_budget f m base b st w = (out, b', st', w')"
  shows "n w = n w0 + attempts st + retries_used st \<and> attempts st = length cs \<and> attempts st = successes st + failures st
    \<and> of_nat (retries_used st) \<le> cap + (monotonic f w - monotonic f w0) * rate
    \<and> call_exact m st (n w' - n w) out st' \<and> of_nat (retries_used st') \<le> cap + (monotonic f w' - monotonic f w0) * rate"
proof -
  let ?b = "new_retry_budget cap rate (monotonic f w0)"
  have ok: "rb_ok ?b" "b_last_refill ?b \<le> monotonic f w0" "books_balance no_stats 0"
    using assms(2,3) by (simp_all add: rb_ok_def new_retry_budget_def no_stats_def books_balance_def)
  have budget: "of_nat k \<le> cap + (t - monotonic f w0) * rate" if "paid ?b k b2 t" for k b2 t
  proof -
    have p: "0 \<le> b_tokens b2" "b_last_refill b2 \<le> t"
      "b_tokens b2 + of_nat k \<le> cap + (b_last_refill b2 - monotonic f w0) * rate"
      using that by (simp_all add: paid_def rb_ok_def new_retry_budget_def)
    have "(b_last_refill b2 - monotonic f w0) * rate \<le> (t - monotonic f w0) * rate"
      using p(2) assms(3) by (intro mult_right_mono) auto
    then show ?thesis using p by linarith
  qed
  note s = run_calls_sound [OF assms(1) ok assms(4)]
  have p: "paid ?b (retries_used st) b (monotonic f w)" using s by (simp add: no_stats_def)
  then have b: "rb_ok b" "b_last_refill b \<le> monotonic f w" by (auto simp: paid_def)
  note c = call_with_budget_sound [OF assms(1) b assms(5)]
  have "paid ?b (retries_used st') b' (monotonic f w')" using paid_trans [OF p c(4)] c(3) by simp
  then show ?thesis using budget [OF p] budget s c by (auto simp: books_balance_def no_stats_def)
qed

text \<open>A callable that fails four times and then works, at ten calls a second; the world counts its calls.\<close>

definition flaky :: "(nat, string, string) retry_env" where
  "flaky = \<lparr>fn = (\<lambda>w. (if w < 4 then Inl ''down'' else Inr ''ok'', w + 1)), monotonic = (\<lambda>w. of_nat w / 10), sleep = (\<lambda>d w. w)\<rparr>"

theorem retry_budget_bounds_retries_witness:
  "let (b, st, w) = run_calls flaky [(2, 0)] (new_retry_budget 3 0 0, no_stats, 0);
       (out, b', st', w') = call_with_budget flaky 5 0 b st w in
   st = \<lparr>attempts = 1, retries_used = 2, retries_denied = 0, successes = 0, failures = 1\<rparr> \<and> w = 3 \<and>
   out = Inr ''ok'' \<and> retries_used st' = 3 \<and> of_nat (retries_used st') \<le> (3 :: rat) + (monotonic flaky w' - monotonic flaky 0) * 0"
proof -
  have t: "ticks flaky (\<lambda>w. w)" by (simp add: ticks_def flaky_def)
  show ?thesis
    using retry_budget_bounds_retries [OF t, of 3 0 "[(2, 0)]" 0 _ _ _ 5 0]
    by (simp add: flaky_def call_with_budget_def retry_loop.simps try_consume_def rb_refill_def new_retry_budget_def no_stats_def Let_def)
qed

end
