(* ===== verification/Deadline_Chain.thy ===== *)
theory Deadline_Chain
  imports Prelude
begin

text \<open>
  Deadline propagation (\<open>deadline-propagation/deadline.py\<close>).  A deadline is its \<open>expires_at\<close>;
  the readings of the injected clock are arguments.
\<close>

datatype deadline = Deadline (expires_at: rat)

datatype deadline_error = NegativeBudget | NegativeReserve | DeadlineExceeded string | DeadlineRequired string

definition in_ms :: "int \<Rightarrow> rat \<Rightarrow> deadline_error + deadline" where
  "in_ms budget_ms now = (if budget_ms < 0 then Inl NegativeBudget else Inr (Deadline (now + of_int budget_ms / 1000)))"

text \<open>\<open>int(x)\<close> of a float cuts towards zero.\<close>

definition py_trunc :: "rat \<Rightarrow> int" where
  "py_trunc x = (if x < 0 then \<lceil>x\<rceil> else \<lfloor>x\<rfloor>)"

definition remaining_ms :: "deadline \<Rightarrow> rat \<Rightarrow> int" where
  "remaining_ms d now = max 0 (py_trunc ((expires_at d - now) * 1000))"

definition dl_expired :: "deadline \<Rightarrow> rat \<Rightarrow> bool" where
  "dl_expired d now \<longleftrightarrow> now \<ge> expires_at d"

definition dl_check :: "deadline \<Rightarrow> string \<Rightarrow> rat \<Rightarrow> deadline_error + unit" where
  "dl_check d op now = (if dl_expired d now then Inl (DeadlineExceeded op) else Inr ())"

definition child :: "deadline \<Rightarrow> int \<Rightarrow> rat \<Rightarrow> deadline_error + deadline" where
  "child d reserve_ms now =
     (if reserve_ms < 0 then Inl NegativeReserve
      else Inr (Deadline (max (expires_at d - of_int reserve_ms / 1000) now)))"

definition with_deadline :: "deadline option \<Rightarrow> string \<Rightarrow> rat \<Rightarrow> deadline_error + deadline" where
  "with_deadline d op now =
     (case d of
        None \<Rightarrow> Inl (DeadlineRequired op)
      | Some d \<Rightarrow> (case dl_check d op now of Inl e \<Rightarrow> Inl e | Inr _ \<Rightarrow> Inr d))"

text \<open>A chain of frames: each makes a child with its reserve at some time and passes it down.\<close>

fun descend :: "deadline \<Rightarrow> (int \<times> rat) list \<Rightarrow> deadline_error + deadline" where
  "descend d [] = Inr d"
| "descend d ((r, t) # fs) = (case child d r t of Inl e \<Rightarrow> Inl e | Inr d' \<Rightarrow> descend d' fs)"

definition reserves :: "(int \<times> rat) list \<Rightarrow> rat" where
  "reserves fs = of_int (sum_list (map fst fs)) / 1000"

lemma reserves_simps [simp]: "reserves [] = 0" "reserves (f # fs) = of_int (fst f) / 1000 + reserves fs"
  by (simp_all add: reserves_def add_divide_distrib)

lemma reserves_nonneg: "list_all (\<lambda>f. 0 \<le> fst f) fs \<Longrightarrow> 0 \<le> reserves fs"
  by (induction fs) simp_all

text \<open>
  A chain gives the root's deadline less all reserves, or the time at which some frame ran out,
  which is then the time of the last frame.
\<close>

lemma descend_exact:
  assumes "list_all (\<lambda>f. 0 \<le> fst f) fs" "sorted (map snd fs)"
  shows "\<exists>d'. descend d fs = Inr d' \<and>
    expires_at d' = (if fs = [] then expires_at d else max (expires_at d - reserves fs) (snd (last fs)))"
  using assms
proof (induction fs arbitrary: d)
  case (Cons f fs)
  obtain r t where f: "f = (r, t)" by (cases f)
  let ?d = "Deadline (max (expires_at d - of_int r / 1000) t)"
  obtain d' where d': "descend ?d fs = Inr d'"
      "expires_at d' = (if fs = [] then expires_at ?d else max (expires_at ?d - reserves fs) (snd (last fs)))"
    using Cons.IH [of ?d] Cons.prems by (metis list.pred_inject(2) list.simps(9) sorted_simps(2))
  have "t \<le> snd (last fs)" if "fs \<noteq> []" using Cons.prems(2) that f by auto
  moreover have "0 \<le> reserves fs" using Cons.prems(1) by (simp add: reserves_nonneg)
  ultimately have "expires_at d' = max (expires_at d - reserves (f # fs)) (snd (last (f # fs)))"
    using d'(2) f by (cases "fs = []") (simp_all add: max_def)
  then show ?case using d'(1) Cons.prems(1) f by (simp add: child_def)
qed simp

text \<open>
  Through any chain of frames with non-negative reserves and a clock that does not go back,
  every frame gets a deadline, and at any time \<open>t\<close> from then on the entry guard of the last
  frame lets it work exactly when the root's budget less all the reserves above it is not yet
  used up; its deadline is then exactly that, so every frame on the way keeps its reserve.
\<close>

theorem deadline_chain_keeps_reserves:
  assumes "in_ms budget now0 = Inr d0" "list_all (\<lambda>f. 0 \<le> fst f) fs" "sorted (map snd fs @ [t])"
  shows "case descend d0 fs of Inl e \<Rightarrow> False
    | Inr d \<Rightarrow> with_deadline (Some d) op t =
        (if t < now0 + of_int budget / 1000 - reserves fs then Inr (Deadline (now0 + of_int budget / 1000 - reserves fs))
         else Inl (DeadlineExceeded op))"
proof -
  have srt: "sorted (map snd fs)" "fs = [] \<or> snd (last fs) \<le> t"
    using assms(3) by (cases fs rule: rev_cases; auto simp: sorted_append)+
  have d0: "expires_at d0 = now0 + of_int budget / 1000" using assms(1) by (auto simp: in_ms_def split: if_splits)
  obtain d where d: "descend d0 fs = Inr d"
      "expires_at d = (if fs = [] then expires_at d0 else max (expires_at d0 - reserves fs) (snd (last fs)))"
    using descend_exact [OF assms(2) srt(1)] by blast
  have "dl_expired d t \<longleftrightarrow> \<not> t < now0 + of_int budget / 1000 - reserves fs"
    using d(2) srt(2) d0 by (auto simp: dl_expired_def)
  moreover have "d = Deadline (now0 + of_int budget / 1000 - reserves fs)" if "\<not> dl_expired d t"
    using d(2) srt(2) d0 that by (cases d) (auto simp: dl_expired_def split: if_splits)
  ultimately show ?thesis using d(1) by (simp add: with_deadline_def dl_check_def)
qed

theorem deadline_chain_keeps_reserves_witness:
  "in_ms 1000 0 = Inr (Deadline 1) \<and>
   (case descend (Deadline 1) [(50, 1 / 10), (100, 2 / 10)] of Inl e \<Rightarrow> False
    | Inr d \<Rightarrow> with_deadline (Some d) ''fetch'' (1 / 2) = Inr (Deadline (85 / 100)))"
  using deadline_chain_keeps_reserves [of 1000 0 "Deadline 1" "[(50, 1 / 10), (100, 2 / 10)]" "1 / 2" "''fetch''"]
  by (simp add: in_ms_def child_def)

text \<open>
  The module says that a call is refused when \<open>remaining_ms()\<close> is zero; the guard compares the
  times themselves, and within the last millisecond it lets the call through.
\<close>

lemma guard_passes_with_zero_remaining:
  "remaining_ms (Deadline 1) (9995 / 10000) = 0 \<and> with_deadline (Some (Deadline 1)) ''fetch'' (9995 / 10000) = Inr (Deadline 1)"
  by (simp add: remaining_ms_def py_trunc_def with_deadline_def dl_check_def dl_expired_def)

lemma remaining_ms_positive_passes: "0 < remaining_ms d t \<Longrightarrow> with_deadline (Some d) op t = Inr d"
  by (auto simp: remaining_ms_def py_trunc_def with_deadline_def dl_check_def dl_expired_def split: if_splits)

end
