(* ===== verification/Keepalive_Detector.thy ===== *)
theory Keepalive_Detector
  imports Prelude
begin

text \<open>
  The liveness detector of event streams (\<open>sse-keepalive-detector/detector.py\<close>).  The default
  \<open>now = now_fn()\<close> is resolved by the caller of the model: \<open>ka_verdict\<close> takes the time.
\<close>

datatype event_kind = Real | Keepalive | OtherKind string

datatype liveness = HEALTHY | IDLE_BUT_ALIVE | STALLED | DEAD

datatype ka_error = BadRealIdle rat | BadKeepaliveIdle rat | KeepaliveAboveReal rat rat | BadKind string

record ka_detector =
  real_event_idle_s :: rat
  keepalive_idle_s :: rat
  constructed_at :: rat
  last_real_at :: "rat option"
  last_keepalive_at :: "rat option"
  real_event_count :: nat
  keepalive_count :: nat

record ka_snapshot =
  snap_now :: rat
  snap_constructed_at :: rat
  snap_last_real_at :: "rat option"
  snap_last_keepalive_at :: "rat option"
  snap_real_event_count :: nat
  snap_keepalive_count :: nat
  seconds_since_last_real :: "rat option"
  seconds_since_last_keepalive :: "rat option"
  snap_verdict :: liveness

definition new_detector :: "rat \<Rightarrow> rat \<Rightarrow> rat \<Rightarrow> ka_error + ka_detector" where
  "new_detector real_idle ka_idle now =
     (if real_idle \<le> 0 then Inl (BadRealIdle real_idle)
      else if ka_idle \<le> 0 then Inl (BadKeepaliveIdle ka_idle)
      else if ka_idle > real_idle then Inl (KeepaliveAboveReal ka_idle real_idle)
      else Inr \<lparr>real_event_idle_s = real_idle, keepalive_idle_s = ka_idle, constructed_at = now, last_real_at = None,
        last_keepalive_at = None, real_event_count = 0, keepalive_count = 0\<rparr>)"

fun ka_observe :: "ka_detector \<Rightarrow> rat \<times> event_kind \<Rightarrow> (ka_error, unit, ka_detector) outcome" where
  "ka_observe s (now, Real) =
     (Inr (), s\<lparr>last_real_at := Some now,
        last_keepalive_at := (case last_keepalive_at s of
            None \<Rightarrow> Some now
          | Some k \<Rightarrow> if now > k then Some now else Some k),
        real_event_count := real_event_count s + 1\<rparr>)"
| "ka_observe s (now, Keepalive) =
     (Inr (), s\<lparr>last_keepalive_at := Some now, keepalive_count := keepalive_count s + 1\<rparr>)"
| "ka_observe s (now, OtherKind k) = (Inl (BadKind k), s)"

definition within_idle :: "rat \<Rightarrow> rat \<Rightarrow> rat option \<Rightarrow> bool" where
  "within_idle now idle last_at = (case last_at of None \<Rightarrow> False | Some t \<Rightarrow> now - t \<le> idle)"

definition ka_verdict :: "ka_detector \<Rightarrow> rat \<Rightarrow> liveness" where
  "ka_verdict s now =
     (if last_real_at s = None \<and> last_keepalive_at s = None then
        (if now - constructed_at s > keepalive_idle_s s then DEAD else IDLE_BUT_ALIVE)
      else if within_idle now (real_event_idle_s s) (last_real_at s) then HEALTHY
      else if within_idle now (keepalive_idle_s s) (last_keepalive_at s) then IDLE_BUT_ALIVE
      else STALLED)"

definition ka_snapshot_of :: "ka_detector \<Rightarrow> rat \<Rightarrow> ka_snapshot" where
  "ka_snapshot_of s now =
     \<lparr>snap_now = now, snap_constructed_at = constructed_at s, snap_last_real_at = last_real_at s,
      snap_last_keepalive_at = last_keepalive_at s, snap_real_event_count = real_event_count s,
      snap_keepalive_count = keepalive_count s, seconds_since_last_real = map_option (\<lambda>t. now - t) (last_real_at s),
      seconds_since_last_keepalive = map_option (\<lambda>t. now - t) (last_keepalive_at s), snap_verdict = ka_verdict s now\<rparr>"

section \<open>The verdict from the history\<close>

fun is_event :: "rat \<times> event_kind \<Rightarrow> bool" where
  "is_event (_, OtherKind _) = False" | "is_event _ = True"

definition real_times :: "(rat \<times> event_kind) list \<Rightarrow> rat list" where
  "real_times h = [t. (t, k) \<leftarrow> h, k = Real]"

definition event_times :: "(rat \<times> event_kind) list \<Rightarrow> rat list" where
  "event_times h = map fst (filter is_event h)"

text \<open>The rules of the module's documentation, over everything that was observed.\<close>

definition liveness_spec :: "rat \<Rightarrow> rat \<Rightarrow> rat \<Rightarrow> (rat \<times> event_kind) list \<Rightarrow> rat \<Rightarrow> liveness" where
  "liveness_spec real_idle ka_idle start h now =
     (if event_times h = [] then (if now - start > ka_idle then DEAD else IDLE_BUT_ALIVE)
      else if list_ex (\<lambda>t. now - t \<le> real_idle) (real_times h) then HEALTHY
      else if list_ex (\<lambda>t. now - t \<le> ka_idle) (event_times h) then IDLE_BUT_ALIVE
      else STALLED)"

definition last_of :: "rat list \<Rightarrow> rat option" where
  "last_of xs = (if xs = [] then None else Some (last xs))"

definition ka_tracks :: "(rat \<times> event_kind) list \<Rightarrow> ka_detector \<Rightarrow> bool" where
  "ka_tracks h s \<longleftrightarrow> last_real_at s = last_of (real_times h) \<and> last_keepalive_at s = last_of (event_times h) \<and>
     real_event_count s = length (real_times h) \<and> real_event_count s + keepalive_count s = length (event_times h)"

lemma times_append [simp]:
  "real_times (h @ h') = real_times h @ real_times h'" "event_times (h @ h') = event_times h @ event_times h'"
  by (simp_all add: real_times_def event_times_def)

lemma last_of_snoc [simp]: "last_of (xs @ [x]) = Some x"
  by (simp add: last_of_def)

lemma ka_tracks_step:
  assumes "ka_tracks h s" "sorted (event_times (h @ [e]))"
  shows "ka_tracks (h @ [e]) (snd (ka_observe s e))"
proof -
  have one: "real_times [(t, k)] = (if k = Real then [t] else [])" "event_times [(t, k)] = (if is_event (t, k) then [t] else [])" for t k
    by (simp_all add: real_times_def event_times_def)
  have le: "k \<le> fst e" if "last_of (event_times h) = Some k" "is_event e" for k
    using assms(2) that by (cases e) (auto simp: one last_of_def sorted_append split: if_splits)
  show ?thesis
  proof (cases "(s, e)" rule: ka_observe.cases)
    case (1 s' t)
    then show ?thesis using assms(1) le by (fastforce simp: ka_tracks_def one split: option.splits)
  qed (use assms(1) in \<open>auto simp: ka_tracks_def one\<close>)
qed

lemma ka_tracks_session:
  assumes "ka_tracks [] s" "sorted (event_times h)"
  shows "ka_tracks h (snd (run ka_observe s h))"
  using assms(2)
proof (induction h rule: rev_induct)
  case (snoc e h)
  then have "ka_tracks h (snd (run ka_observe s h))" by (simp add: sorted_append)
  from ka_tracks_step [OF this snoc.prems] show ?case by (simp add: run_append case_prod_beta)
qed (simp add: assms(1))

lemma ka_frame:
  "real_event_idle_s (snd (run ka_observe s h)) = real_event_idle_s s \<and> keepalive_idle_s (snd (run ka_observe s h)) = keepalive_idle_s s
   \<and> constructed_at (snd (run ka_observe s h)) = constructed_at s"
proof (induction h arbitrary: s)
  case (Cons e h)
  have "real_event_idle_s (snd (ka_observe s e)) = real_event_idle_s s \<and> keepalive_idle_s (snd (ka_observe s e)) = keepalive_idle_s s
    \<and> constructed_at (snd (ka_observe s e)) = constructed_at s"
    by (cases "(s, e)" rule: ka_observe.cases) auto
  then show ?case using Cons by (simp add: run_Cons_split del: run.simps(2))
qed simp

text \<open>Among times in order, some is recent exactly when the last one is.\<close>

lemma recent_iff_last:
  "sorted xs \<Longrightarrow> list_ex (\<lambda>t. now - t \<le> idle) xs \<longleftrightarrow> within_idle now idle (last_of xs)"
proof (cases xs rule: rev_cases)
  case (snoc ys y)
  assume "sorted xs"
  then have "t \<le> y" if "t \<in> set ys" for t using snoc that by (auto simp: sorted_append)
  then show ?thesis using snoc by (force simp: within_idle_def list_ex_iff)
qed (simp add: within_idle_def last_of_def)

lemma sorted_real_times: "sorted (event_times h) \<Longrightarrow> sorted (real_times h)"
proof -
  have "real_times h = map fst (filter (\<lambda>e. snd e = Real) (filter is_event h))"
  proof (induction h)
    case (Cons e h)
    then show ?case by (cases e; cases "snd e") (auto simp: real_times_def)
  qed (simp add: real_times_def)
  then show "sorted (event_times h) \<Longrightarrow> sorted (real_times h)"
    by (simp add: event_times_def sorted_map sorted_wrt_filter del: filter_filter)
qed

lemma real_times_event: "event_times h = [] \<Longrightarrow> real_times h = []"
proof (induction h)
  case (Cons e h)
  then show ?case by (cases e; cases "snd e") (auto simp: real_times_def event_times_def)
qed (simp add: real_times_def)

text \<open>
  The verdict of a detector after any session whose events arrive in the order of their
  times (observations of unknown kinds raise and change nothing) is the one the documented
  rules give for the whole history, with real events counting as proof of life; the counters of
  the snapshot count the history.
\<close>

theorem keepalive_verdict_exact:
  assumes "new_detector real_idle ka_idle start = Inr s0" "sorted (event_times h)"
  shows "let s = snd (run ka_observe s0 h); p = ka_snapshot_of s now in
    snap_verdict p = liveness_spec real_idle ka_idle start h now \<and>
    snap_real_event_count p = length (real_times h) \<and>
    snap_real_event_count p + snap_keepalive_count p = length (event_times h)"
proof -
  let ?s = "snd (run ka_observe s0 h)"
  have s0: "ka_tracks [] s0" "real_event_idle_s s0 = real_idle" "keepalive_idle_s s0 = ka_idle" "constructed_at s0 = start"
    using assms(1) by (auto simp: new_detector_def ka_tracks_def last_of_def real_times_def event_times_def split: if_splits)
  have t: "ka_tracks h ?s" using ka_tracks_session [OF s0(1) assms(2)] .
  have e: "last_of xs = None \<longleftrightarrow> xs = []" for xs by (simp add: last_of_def)
  have "ka_verdict ?s now = liveness_spec real_idle ka_idle start h now"
    using t ka_frame [of s0 h] s0 recent_iff_last [OF assms(2)] recent_iff_last [OF sorted_real_times [OF assms(2)]]
      real_times_event [of h]
    by (auto simp: ka_verdict_def liveness_spec_def ka_tracks_def e)
  then show ?thesis using t by (simp add: ka_snapshot_of_def ka_tracks_def Let_def)
qed

theorem keepalive_verdict_exact_witness:
  "let h = [(1, Keepalive), (2, Real), (3, OtherKind ''ping''), (9, Keepalive)];
       s = snd (run ka_observe (projr (new_detector 5 3 0)) h) in
   snap_verdict (ka_snapshot_of s 10) = IDLE_BUT_ALIVE \<and> snap_verdict (ka_snapshot_of s 10) = liveness_spec 5 3 0 h 10"
  using keepalive_verdict_exact [of 5 3 0 "projr (new_detector 5 3 0)" "[(1, Keepalive), (2, Real), (3, OtherKind ''ping''), (9, Keepalive)]" 10]
  by (simp add: new_detector_def ka_snapshot_of_def ka_verdict_def within_idle_def event_times_def)

end
