(* ===== verification/Timeout_Ladder.thy ===== *)
theory Timeout_Ladder
  imports Prelude
begin

text \<open>
  The laddered timeout of a tool call (\<open>tool-call-timeout-laddered/ladder.py\<close>), as the
  orchestrating thread sees it.  The tool runs in a thread of its own, so the world that the
  orchestrator's operations act on changes under it: reading the clock, waiting for the done
  event and setting the soft event are operations of the environment, and \<open>tool_state\<close> reads
  the dictionary shared with the tool's thread.  The loops end only if time passes; they are
  \<open>partial_function\<close>s, and that they return is proved from what \<open>Event.wait\<close> guarantees.
\<close>

section \<open>Results and configuration\<close>

datatype ladder_outcome = LadderOk | SoftTimeout | HardTimeout | Killed | ToolError

datatype 'e ladder_message = ToolRaised 'e | NotHonored

record ('v, 'e) ladder_result =
  outcome_of :: ladder_outcome
  r_value :: "'v option"
  r_partial :: "'v option"
  elapsed_s :: rat
  r_error :: "'e ladder_message option"

definition ladder_to_dict :: "('v, 'e) ladder_result \<Rightarrow> ladder_outcome \<times> 'v option \<times> 'v option \<times> rat \<times> 'e ladder_message option" where
  "ladder_to_dict r = (outcome_of r, r_value r, r_partial r, py_round 4 (elapsed_s r), r_error r)"

record ladder_config =
  soft_s :: rat
  hard_s :: rat
  kill_s :: rat

definition new_ladder_config :: "rat \<Rightarrow> rat \<Rightarrow> rat \<Rightarrow> (rat \<times> rat \<times> rat) + ladder_config" where
  "new_ladder_config soft hard kill =
     (if \<not> (0 < soft \<and> soft < hard \<and> hard < kill) then Inl (soft, hard, kill)
      else Inr \<lparr>soft_s = soft, hard_s = hard, kill_s = kill\<rparr>)"

section \<open>The tool's thread\<close>

record ('v, 'e) tool_dict =
  t_value :: "'v option"
  t_partial :: "'v option"
  t_error :: "'e option"
  t_done :: bool

definition fresh_dict :: "('v, 'e) tool_dict" where
  "fresh_dict = \<lparr>t_value = None, t_partial = None, t_error = None, t_done = False\<rparr>"

definition publish :: "'v \<Rightarrow> ('v, 'e) tool_dict \<Rightarrow> ('v, 'e) tool_dict" where
  "publish x s = s\<lparr>t_partial := Some x\<rparr>"

text \<open>What the end of the tool writes: its value or its exception, and \<open>done\<close> in any case.\<close>

definition runner_ends :: "'e + 'v \<Rightarrow> ('v, 'e) tool_dict \<Rightarrow> ('v, 'e) tool_dict" where
  "runner_ends r s =
     (case r of Inr v \<Rightarrow> s\<lparr>t_value := Some v, t_done := True\<rparr> | Inl e \<Rightarrow> s\<lparr>t_error := Some e, t_done := True\<rparr>)"

section \<open>The orchestrator\<close>

record ('w, 'v, 'e) ladder_env =
  now_fn :: "'w \<Rightarrow> rat \<times> 'w"
  start_tool :: "'w \<Rightarrow> 'w"
  wait_done :: "rat \<Rightarrow> 'w \<Rightarrow> bool \<times> 'w"
  set_soft :: "'w \<Rightarrow> 'w"
  tool_state :: "'w \<Rightarrow> ('v, 'e) tool_dict"

text \<open>The loop of stages 1 and 2: \<open>True\<close> when the done event was seen before the deadline.\<close>

partial_function (option) wait_until :: "('w, 'v, 'e) ladder_env \<Rightarrow> rat \<Rightarrow> 'w \<Rightarrow> (bool \<times> 'w) option" where
  "wait_until f deadline w =
     (if deadline - fst (now_fn f w) \<le> 0 then Some (False, snd (now_fn f w))
      else if fst (wait_done f (min (deadline - fst (now_fn f w)) (1 / 20)) (snd (now_fn f w)))
      then Some (True, snd (wait_done f (min (deadline - fst (now_fn f w)) (1 / 20)) (snd (now_fn f w))))
      else wait_until f deadline (snd (wait_done f (min (deadline - fst (now_fn f w)) (1 / 20)) (snd (now_fn f w)))))"

text \<open>The loop of stage 3.\<close>

partial_function (option) wait_kill :: "('w, 'v, 'e) ladder_env \<Rightarrow> rat \<Rightarrow> 'w \<Rightarrow> 'w option" where
  "wait_kill f deadline w =
     (if \<not> fst (now_fn f w) < deadline then Some (snd (now_fn f w))
      else if fst (wait_done f (1 / 20) (snd (now_fn f w))) then Some (snd (wait_done f (1 / 20) (snd (now_fn f w))))
      else wait_kill f deadline (snd (wait_done f (1 / 20) (snd (now_fn f w)))))"

definition ladder_result_at ::
  "('w, 'v, 'e) ladder_env \<Rightarrow> (rat \<Rightarrow> ladder_outcome) \<Rightarrow> rat \<Rightarrow> 'w \<Rightarrow> ('v, 'e) ladder_result \<times> 'w" where
  "ladder_result_at f finished started w =
     (let (t, w') = now_fn f w; elapsed = t - started; s = tool_state f w' in
      case t_error s of
        Some e \<Rightarrow> (\<lparr>outcome_of = ToolError, r_value = None, r_partial = t_partial s, elapsed_s = elapsed, r_error = Some (ToolRaised e)\<rparr>, w')
      | None \<Rightarrow> (\<lparr>outcome_of = finished elapsed, r_value = t_value s, r_partial = t_partial s, elapsed_s = elapsed, r_error = None\<rparr>, w'))"

definition ladder_give_up :: "('w, 'v, 'e) ladder_env \<Rightarrow> rat \<Rightarrow> 'w \<Rightarrow> ('v, 'e) ladder_result \<times> 'w" where
  "ladder_give_up f started w =
     (let (t, w') = now_fn f w; elapsed = t - started; s = tool_state f w' in
      if t_done s then
        (\<lparr>outcome_of = HardTimeout, r_value = t_value s, r_partial = t_partial s, elapsed_s = elapsed, r_error = map_option ToolRaised (t_error s)\<rparr>, w')
      else
        (\<lparr>outcome_of = Killed, r_value = None, r_partial = t_partial s, elapsed_s = elapsed, r_error = Some NotHonored\<rparr>, w'))"

definition run_with_ladder :: "('w, 'v, 'e) ladder_env \<Rightarrow> ladder_config \<Rightarrow> 'w \<Rightarrow> (('v, 'e) ladder_result \<times> 'w) option" where
  "run_with_ladder f cfg w0 =
     (let (started, w1) = now_fn f w0; w2 = start_tool f w1 in
      case wait_until f (started + soft_s cfg) w2 of
        None \<Rightarrow> None
      | Some (True, w3) \<Rightarrow> Some (ladder_result_at f (\<lambda>elapsed. LadderOk) started w3)
      | Some (False, w3) \<Rightarrow>
          (case wait_until f (started + hard_s cfg) (set_soft f w3) of
             None \<Rightarrow> None
           | Some (True, w4) \<Rightarrow>
               Some (ladder_result_at f (\<lambda>elapsed. if elapsed > soft_s cfg then SoftTimeout else LadderOk) started w4)
           | Some (False, w4) \<Rightarrow>
               (case wait_kill f (started + kill_s cfg) w4 of
                  None \<Rightarrow> None
                | Some w5 \<Rightarrow> Some (ladder_give_up f started w5))))"

section \<open>An environment in which time passes\<close>

text \<open>
  \<open>clk\<close> is the time at a point of the run.  A reading of the clock lies within its own
  duration; \<open>wait\<close> returns \<open>False\<close> only after the whole timeout and overstays it by at
  most \<open>eps\<close>; it returns \<open>True\<close> only when the tool has ended, and what the tool has written by
  its end stays.
\<close>

definition punctual :: "('w, 'v, 'e) ladder_env \<Rightarrow> ('w \<Rightarrow> rat) \<Rightarrow> rat \<Rightarrow> bool" where
  "punctual f clk eps \<longleftrightarrow>
     (\<forall>w. clk w \<le> fst (now_fn f w) \<and> fst (now_fn f w) \<le> clk (snd (now_fn f w)) \<and> clk (snd (now_fn f w)) \<le> clk w + eps) \<and>
     (\<forall>d w. 0 < d \<longrightarrow> clk w \<le> clk (snd (wait_done f d w)) \<and> clk (snd (wait_done f d w)) \<le> clk w + d + eps \<and>
        (if fst (wait_done f d w) then t_done (tool_state f (snd (wait_done f d w))) else clk w + d \<le> clk (snd (wait_done f d w)))) \<and>
     (\<forall>w. clk w \<le> clk (start_tool f w) \<and> clk (start_tool f w) \<le> clk w + eps) \<and>
     (\<forall>w. clk w \<le> clk (set_soft f w) \<and> clk (set_soft f w) \<le> clk w + eps) \<and>
     (\<forall>w. t_done (tool_state f w) \<longrightarrow> tool_state f (snd (now_fn f w)) = tool_state f w)"

lemma now_punctual:
  assumes "punctual f clk eps"
  shows "clk w \<le> fst (now_fn f w)" "fst (now_fn f w) \<le> clk (snd (now_fn f w))" "clk (snd (now_fn f w)) \<le> clk w + eps"
    "t_done (tool_state f w) \<Longrightarrow> tool_state f (snd (now_fn f w)) = tool_state f w"
    "clk w \<le> clk (start_tool f w)" "clk (start_tool f w) \<le> clk w + eps"
    "clk w \<le> clk (set_soft f w)" "clk (set_soft f w) \<le> clk w + eps"
  using assms unfolding punctual_def by blast+

lemma wait_punctual:
  assumes "punctual f clk eps" "0 < d"
  shows "clk w \<le> clk (snd (wait_done f d w))" "clk (snd (wait_done f d w)) \<le> clk w + d + eps"
    "fst (wait_done f d w) \<Longrightarrow> t_done (tool_state f (snd (wait_done f d w)))"
    "\<not> fst (wait_done f d w) \<Longrightarrow> clk w + d \<le> clk (snd (wait_done f d w))"
  using assms unfolding punctual_def by (metis (full_types))+

lemma wait_until_step:
  "deadline - fst (now_fn f w) \<le> 0 \<Longrightarrow> wait_until f deadline w = Some (False, snd (now_fn f w))"
  "\<not> deadline - fst (now_fn f w) \<le> 0 \<Longrightarrow> x = wait_done f (min (deadline - fst (now_fn f w)) (1 / 20)) (snd (now_fn f w)) \<Longrightarrow>
     wait_until f deadline w = (if fst x then Some (True, snd x) else wait_until f deadline (snd x))"
  by (subst wait_until.simps, simp)+

lemma wait_kill_step:
  "\<not> fst (now_fn f w) < deadline \<Longrightarrow> wait_kill f deadline w = Some (snd (now_fn f w))"
  "fst (now_fn f w) < deadline \<Longrightarrow> x = wait_done f (1 / 20) (snd (now_fn f w)) \<Longrightarrow>
     wait_kill f deadline w = (if fst x then Some (snd x) else wait_kill f deadline (snd x))"
  by (subst wait_kill.simps, simp)+

text \<open>How the loops may end, when they are entered at time \<open>c\<close>.\<close>

definition waited :: "('w, 'v, 'e) ladder_env \<Rightarrow> ('w \<Rightarrow> rat) \<Rightarrow> rat \<Rightarrow> rat \<Rightarrow> rat \<Rightarrow> bool \<Rightarrow> 'w \<Rightarrow> bool" where
  "waited f clk eps deadline c d w \<longleftrightarrow> c \<le> clk w \<and>
     (if d then t_done (tool_state f w) \<and> clk w \<le> deadline + 2 * eps
      else deadline \<le> clk w \<and> clk w \<le> max (c + eps) (deadline + 3 * eps))"

lemma waited_later:
  assumes "waited f clk eps deadline c' d w" "c \<le> c'" "c' \<le> deadline + 2 * eps"
  shows "waited f clk eps deadline c d w"
  using assms by (auto simp: waited_def max_def split: if_splits)

lemma waited_at_once:
  assumes "punctual f clk eps" "deadline - fst (now_fn f w) \<le> 0"
  shows "\<exists>d w'. wait_until f deadline w = Some (d, w') \<and> waited f clk eps deadline (clk w) d w'"
proof -
  note n = now_punctual [OF assms(1), where w = w]
  have "deadline \<le> clk (snd (now_fn f w))" "clk w \<le> clk (snd (now_fn f w))" using n(1,2) assms(2) by linarith+
  then have "waited f clk eps deadline (clk w) False (snd (now_fn f w))"
    unfolding waited_def using n(3) by (simp add: le_max_iff_disj)
  then show ?thesis using wait_until_step(1) [OF assms(2)] by blast
qed

lemma wait_until_returns:
  assumes "punctual f clk eps" "deadline - clk w \<le> of_nat k / 20"
  shows "\<exists>d w'. wait_until f deadline w = Some (d, w') \<and> waited f clk eps deadline (clk w) d w'"
  using assms(2)
proof (induction k arbitrary: w)
  case 0
  have "deadline - fst (now_fn f w) \<le> 0" using 0 now_punctual(1) [OF assms(1), of w] by simp
  then show ?case by (rule waited_at_once [OF assms(1)])
next
  case (Suc k)
  let ?t = "fst (now_fn f w)" and ?w1 = "snd (now_fn f w)"
  let ?d = "min (deadline - ?t) (1 / 20)"
  define x where "x = wait_done f ?d ?w1"
  note n = now_punctual [OF assms(1), where w = w]
  show ?case
  proof (cases "deadline - ?t \<le> 0")
    case True
    then show ?thesis by (rule waited_at_once [OF assms(1)])
  next
    case False
    note s = wait_until_step(2) [OF False x_def]
    have "0 < ?d" using False by simp
    note m = wait_punctual [OF assms(1) this, where w = ?w1, folded x_def]
    have late: "clk (snd x) \<le> deadline + 2 * eps" "clk w \<le> clk (snd x)" using n(1-3) m(1,2) by linarith+
    show ?thesis
    proof (cases "fst x")
      case True
      then show ?thesis using late m(3) s by (auto simp: waited_def)
    next
      case nd: False
      have "deadline - clk (snd x) \<le> of_nat k / 20"
        using Suc.prems m(4) [OF nd] n(1,2) by (auto simp: min_def add_divide_distrib split: if_splits)
      then obtain d w' where "wait_until f deadline (snd x) = Some (d, w')" "waited f clk eps deadline (clk (snd x)) d w'"
        using Suc.IH by blast
      then show ?thesis using s nd waited_later late by (metis (no_types, lifting))
    qed
  qed
qed

lemma wait_kill_returns:
  assumes "punctual f clk eps" "deadline - clk w \<le> of_nat k / 20"
  shows "\<exists>w'. wait_kill f deadline w = Some w' \<and> clk w \<le> clk w' \<and> (t_done (tool_state f w') \<or> deadline \<le> clk w') \<and>
    clk w' \<le> max (clk w + eps) (deadline + 1 / 20 + 3 * eps)"
  using assms(2)
proof (induction k arbitrary: w)
  case 0
  note n = now_punctual [OF assms(1), where w = w]
  have "\<not> fst (now_fn f w) < deadline" using 0 n(1) by simp
  moreover have "clk w \<le> clk (snd (now_fn f w))" "deadline \<le> clk (snd (now_fn f w))" using 0 n(1,2) by simp_all
  ultimately show ?case using n(3) by (simp add: wait_kill_step(1) le_max_iff_disj)
next
  case (Suc k)
  define x where "x = wait_done f (1 / 20) (snd (now_fn f w))"
  note n = now_punctual [OF assms(1), where w = w] and m = wait_punctual [OF assms(1), where w = "snd (now_fn f w)" and d = "1 / 20", simplified, folded x_def]
  show ?case
  proof (cases "fst (now_fn f w) < deadline")
    case False
    moreover have "clk w \<le> clk (snd (now_fn f w))" "deadline \<le> clk (snd (now_fn f w))" using False n(1,2) by linarith+
    ultimately show ?thesis using n(3) by (simp add: wait_kill_step(1) le_max_iff_disj)
  next
    case True
    note s = wait_kill_step(2) [OF True x_def]
    have late: "clk (snd x) \<le> deadline + 1 / 20 + 2 * eps" "clk w \<le> clk (snd x)" "0 \<le> eps" using True n(1-3) m(1,2) by linarith+
    show ?thesis
    proof (cases "fst x")
      case True
      then show ?thesis using late m(3) s by (simp add: le_max_iff_disj)
    next
      case False
      have "deadline - clk (snd x) \<le> of_nat k / 20" using Suc.prems m(4) [OF False] n(1,2) by (simp add: add_divide_distrib)
      then obtain w' where w': "wait_kill f deadline (snd x) = Some w'" "clk (snd x) \<le> clk w'"
          "t_done (tool_state f w') \<or> deadline \<le> clk w'" "clk w' \<le> max (clk (snd x) + eps) (deadline + 1 / 20 + 3 * eps)"
        using Suc.IH by blast
      have "clk w' \<le> deadline + 1 / 20 + 3 * eps" using w'(4) late(1) by simp
      then show ?thesis using w'(1-3) late(2) s False by (simp add: le_max_iff_disj)
    qed
  qed
qed

lemma steps_enough: "\<exists>k. (x :: rat) \<le> of_nat k / 20"
  using reals_Archimedean2 [of "x * 20"] by (metis le_divide_eq_numeral1(1) less_imp_le)

text \<open>What a result says about the tool, whose dictionary at the return is \<open>s\<close>.\<close>

definition ladder_sound :: "ladder_config \<Rightarrow> rat \<Rightarrow> ('v, 'e) tool_dict \<Rightarrow> ('v, 'e) ladder_result \<Rightarrow> bool" where
  "ladder_sound cfg eps s r \<longleftrightarrow> r_partial r = t_partial s \<and>
     (case outcome_of r of
        LadderOk \<Rightarrow> t_done s \<and> t_error s = None \<and> r_value r = t_value s \<and> r_error r = None \<and> elapsed_s r \<le> soft_s cfg + 3 * eps
      | SoftTimeout \<Rightarrow> t_done s \<and> t_error s = None \<and> r_value r = t_value s \<and> r_error r = None \<and>
          soft_s cfg < elapsed_s r \<and> elapsed_s r \<le> hard_s cfg + 3 * eps
      | ToolError \<Rightarrow> t_done s \<and> r_error r = map_option ToolRaised (t_error s) \<and> r_error r \<noteq> None \<and> elapsed_s r \<le> hard_s cfg + 3 * eps
      | HardTimeout \<Rightarrow> t_done s \<and> r_value r = t_value s \<and> hard_s cfg \<le> elapsed_s r \<and> elapsed_s r \<le> kill_s cfg + 1 / 20 + 7 * eps
      | Killed \<Rightarrow> \<not> t_done s \<and> kill_s cfg \<le> elapsed_s r \<and> elapsed_s r \<le> kill_s cfg + 1 / 20 + 7 * eps)"

lemma ladder_result_sound:
  assumes "punctual f clk eps" "t_done (tool_state f w)" "clk w \<le> started + limit + 2 * eps" "limit \<le> hard_s cfg"
    and "\<And>e. e \<le> limit + 3 * eps \<Longrightarrow> finished e = LadderOk \<and> e \<le> soft_s cfg + 3 * eps \<or> finished e = SoftTimeout \<and> soft_s cfg < e"
  shows "case ladder_result_at f finished started w of (r, w') \<Rightarrow> ladder_sound cfg eps (tool_state f w') r"
proof -
  note n = now_punctual [OF assms(1), where w = w]
  let ?e = "fst (now_fn f w) - started"
  have e: "?e \<le> limit + 3 * eps" using n(2,3) assms(3) by linarith
  then have "?e \<le> hard_s cfg + 3 * eps" using assms(4) by linarith
  then show ?thesis using n(4) [OF assms(2)] assms(2) assms(5) [OF e]
    by (cases "t_error (tool_state f w)") (auto simp: ladder_result_at_def ladder_sound_def case_prod_beta Let_def)
qed

lemma ladder_give_up_sound:
  assumes "punctual f clk eps" "t_done (tool_state f w) \<or> started + kill_s cfg \<le> clk w" "started + hard_s cfg \<le> clk w"
    and "clk w \<le> started + kill_s cfg + 1 / 20 + 6 * eps"
  shows "case ladder_give_up f started w of (r, w') \<Rightarrow> ladder_sound cfg eps (tool_state f w') r"
proof -
  note n = now_punctual [OF assms(1), where w = w]
  have "hard_s cfg \<le> fst (now_fn f w) - started" "fst (now_fn f w) - started \<le> kill_s cfg + 1 / 20 + 7 * eps"
    using n(1-3) assms(3,4) by linarith+
  moreover have "kill_s cfg \<le> fst (now_fn f w) - started" if "\<not> t_done (tool_state f (snd (now_fn f w)))"
  proof -
    have "\<not> t_done (tool_state f w)" using that n(4) by auto
    then show ?thesis using assms(2) n(1) by auto
  qed
  ultimately show ?thesis by (auto simp: ladder_give_up_def ladder_sound_def case_prod_beta Let_def)
qed

text \<open>What the run ends with, in full; what it is worth as a promise follows below.\<close>

lemma ladder_run_sound:
  assumes "punctual f clk eps" "new_ladder_config soft hard kill = Inr cfg"
  shows "\<exists>r w'. run_with_ladder f cfg w = Some (r, w') \<and> ladder_sound cfg eps (tool_state f w') r"
proof -
  obtain started w1 where st: "now_fn f w = (started, w1)" by (cases "now_fn f w")
  let ?w2 = "start_tool f w1"
  note n = now_punctual [OF assms(1)]
  have c: "0 < soft_s cfg" "soft_s cfg < hard_s cfg" "hard_s cfg < kill_s cfg"
    using assms(2) by (auto simp: new_ladder_config_def split: if_splits)
  have w2: "clk ?w2 \<le> started + 2 * eps" "0 \<le> eps" using n(1,2,3) [where w = w] n(6) [where w = w1] st by simp_all
  obtain d3 w3 where s1: "wait_until f (started + soft_s cfg) ?w2 = Some (d3, w3)"
      "waited f clk eps (started + soft_s cfg) (clk ?w2) d3 w3"
    using wait_until_returns [OF assms(1)] steps_enough by meson
  show ?thesis
  proof (cases d3)
    case True
    have "case ladder_result_at f (\<lambda>elapsed. LadderOk) started w3 of (r, w') \<Rightarrow> ladder_sound cfg eps (tool_state f w') r"
      by (rule ladder_result_sound [OF assms(1), where limit = "soft_s cfg"]) (use s1 True c in \<open>simp_all add: waited_def\<close>)
    then show ?thesis using st s1 True by (auto simp: run_with_ladder_def split: prod.splits)
  next
    case F3: False
    have w3: "clk w3 \<le> started + soft_s cfg + 3 * eps" using s1 F3 w2 c by (auto simp: waited_def max_def split: if_splits)
    let ?w3 = "set_soft f w3"
    obtain d4 w4 where s2: "wait_until f (started + hard_s cfg) ?w3 = Some (d4, w4)"
        "waited f clk eps (started + hard_s cfg) (clk ?w3) d4 w4"
      using wait_until_returns [OF assms(1)] steps_enough by meson
    show ?thesis
    proof (cases d4)
      case True
      have "case ladder_result_at f (\<lambda>elapsed. if elapsed > soft_s cfg then SoftTimeout else LadderOk) started w4 of
          (r, w') \<Rightarrow> ladder_sound cfg eps (tool_state f w') r"
        by (rule ladder_result_sound [OF assms(1), where limit = "hard_s cfg"]) (use s2 True w2(2) in \<open>auto simp: waited_def\<close>)
      then show ?thesis using st s1 s2 F3 True by (auto simp: run_with_ladder_def split: prod.splits)
    next
      case F4: False
      have w4: "started + hard_s cfg \<le> clk w4" "clk w4 \<le> started + hard_s cfg + 5 * eps"
        using s2 F4 w2 w3 c n(8) [where w = w3] by (auto simp: waited_def max_def split: if_splits)
      obtain w5 where s3: "wait_kill f (started + kill_s cfg) w4 = Some w5" "clk w4 \<le> clk w5"
          "t_done (tool_state f w5) \<or> started + kill_s cfg \<le> clk w5" "clk w5 \<le> max (clk w4 + eps) (started + kill_s cfg + 1 / 20 + 3 * eps)"
        using wait_kill_returns [OF assms(1)] steps_enough by meson
      have "case ladder_give_up f started w5 of (r, w') \<Rightarrow> ladder_sound cfg eps (tool_state f w') r"
        by (rule ladder_give_up_sound [OF assms(1)]) (use s3 w4 w2(2) c in \<open>auto simp: max_def split: if_splits\<close>)
      then show ?thesis using st s1 s2 s3 F3 F4 by (auto simp: run_with_ladder_def split: prod.splits)
    qed
  qed
qed

lemma run_with_ladder_elapsed:
  assumes "run_with_ladder f cfg w = Some (r, w')"
  shows "\<exists>v. elapsed_s r = fst (now_fn f v) - fst (now_fn f w) \<and> w' = snd (now_fn f v)"
proof -
  have at: "\<exists>v. elapsed_s q = fst (now_fn f v) - started \<and> u' = snd (now_fn f v)"
    if "ladder_result_at f fin started u = (q, u')" for fin started u q u'
    using that by (auto simp: ladder_result_at_def Let_def case_prod_beta split: option.splits intro!: exI [of _ u])
  have up: "\<exists>v. elapsed_s q = fst (now_fn f v) - started \<and> u' = snd (now_fn f v)"
    if "ladder_give_up f started u = (q, u')" for started u q u'
    using that by (auto simp: ladder_give_up_def Let_def case_prod_beta split: if_splits intro!: exI [of _ u])
  show ?thesis using assms at up
    by (cases "now_fn f w") (auto simp: run_with_ladder_def split: option.splits prod.splits bool.splits)
qed

text \<open>
  The promise to the orchestrator.  Of \<open>hard_timeout\<close> it says only that the hard deadline has
  passed: when it is returned, the code and its documents disagree (below).
\<close>

definition ladder_promise :: "ladder_config \<Rightarrow> rat \<Rightarrow> rat \<Rightarrow> ('v, 'e) tool_dict \<Rightarrow> ('v, 'e) ladder_result \<Rightarrow> bool" where
  "ladder_promise cfg eps passed s r \<longleftrightarrow>
     r_partial r = t_partial s \<and> elapsed_s r \<le> passed \<and> passed \<le> elapsed_s r + 2 * eps \<and> passed \<le> kill_s cfg + 1 / 20 + 9 * eps \<and>
     (case outcome_of r of
        LadderOk \<Rightarrow> t_done s \<and> t_error s = None \<and> r_value r = t_value s \<and> r_error r = None \<and> elapsed_s r \<le> soft_s cfg + 3 * eps
      | SoftTimeout \<Rightarrow> t_done s \<and> t_error s = None \<and> r_value r = t_value s \<and> r_error r = None \<and>
          soft_s cfg < elapsed_s r \<and> elapsed_s r \<le> hard_s cfg + 3 * eps
      | ToolError \<Rightarrow> t_done s \<and> r_error r = map_option ToolRaised (t_error s) \<and> r_error r \<noteq> None \<and> elapsed_s r \<le> hard_s cfg + 3 * eps
      | HardTimeout \<Rightarrow> hard_s cfg \<le> elapsed_s r
      | Killed \<Rightarrow> \<not> t_done s \<and> kill_s cfg \<le> elapsed_s r)"

lemma ladder_sound_promise:
  assumes "ladder_sound cfg eps s r" "soft_s cfg < hard_s cfg" "hard_s cfg < kill_s cfg" "0 \<le> eps"
    and "elapsed_s r \<le> passed" "passed \<le> elapsed_s r + 2 * eps"
  shows "ladder_promise cfg eps passed s r"
  using assms by (cases "t_error s") (auto simp: ladder_sound_def ladder_promise_def split: ladder_outcome.splits)

text \<open>
  C29.  The orchestrator never wedges.  For a valid configuration and an environment in which
  clock readings and waits behave as documented (a wait that times out takes at least its timeout
  and at most \<open>eps\<close> more, a wait that succeeds means that the tool has ended), the call returns,
  whatever the tool does, not later than \<open>kill_s\<close> plus one polling interval and a few \<open>eps\<close> after
  it was made, and reports the time it took.  The outcome is true of the tool: \<open>ok\<close> and
  \<open>soft_timeout\<close> only with the value of a tool that has returned one (within \<open>soft_s\<close>, or after it and
  before \<open>hard_s\<close>), \<open>error\<close> only for one that raised before \<open>hard_s\<close>, \<open>hard_timeout\<close> only after \<open>hard_s\<close>, and \<open>killed\<close>
  only for one still running at \<open>kill_s\<close>; the last published partial is always reported.  That a
  tool still running at \<open>hard_s\<close> gets \<open>hard_timeout\<close> then is documented, but not so.
\<close>

theorem ladder_returns_in_time:
  assumes "punctual f clk eps" "new_ladder_config soft hard kill = Inr cfg"
  shows "\<exists>r w'. run_with_ladder f cfg w = Some (r, w') \<and> ladder_promise cfg eps (clk w' - clk w) (tool_state f w') r"
proof -
  obtain r w' where run: "run_with_ladder f cfg w = Some (r, w')" "ladder_sound cfg eps (tool_state f w') r"
    using ladder_run_sound [OF assms] by blast
  obtain v where v: "elapsed_s r = fst (now_fn f v) - fst (now_fn f w)" "w' = snd (now_fn f v)"
    using run_with_ladder_elapsed [OF run(1)] by blast
  note n = now_punctual(1-3) [OF assms(1)]
  have "soft_s cfg < hard_s cfg" "hard_s cfg < kill_s cfg" using assms(2) by (auto simp: new_ladder_config_def split: if_splits)
  moreover have "0 \<le> eps" "elapsed_s r \<le> clk w' - clk w" "clk w' - clk w \<le> elapsed_s r + 2 * eps"
    using n [where w = w] n [where w = v] unfolding v by linarith+
  ultimately show ?thesis using run ladder_sound_promise by blast
qed

text \<open>A tool that ends after 0.15 seconds, in a world that is just the time.\<close>

definition slow_tool :: "(rat, string, string) ladder_env" where
  "slow_tool =
     \<lparr>now_fn = (\<lambda>w. (w, w)), start_tool = (\<lambda>w. w),
      wait_done = (\<lambda>d w. if 3 / 20 \<le> w + d then (True, max w (3 / 20)) else (False, w + d)), set_soft = (\<lambda>w. w),
      tool_state = (\<lambda>w. if 3 / 20 \<le> w then runner_ends (Inr ''answer'') (publish ''step 1'' fresh_dict) else publish ''step 1'' fresh_dict)\<rparr>"

lemma slow_tool_punctual: "punctual slow_tool (\<lambda>w. w) 0"
  by (auto simp: punctual_def slow_tool_def runner_ends_def)

theorem ladder_returns_in_time_witness:
  "(\<exists>r w'. run_with_ladder slow_tool (projr (new_ladder_config (1 / 10) (2 / 10) (3 / 10))) 0 = Some (r, w')
      \<and> ladder_promise (projr (new_ladder_config (1 / 10) (2 / 10) (3 / 10))) 0 (w' - 0) (tool_state slow_tool w') r)
   \<and> map_option (outcome_of \<circ> fst) (run_with_ladder slow_tool (projr (new_ladder_config (1 / 10) (2 / 10) (3 / 10))) 0) = Some SoftTimeout"
proof
  show "\<exists>r w'. run_with_ladder slow_tool (projr (new_ladder_config (1 / 10) (2 / 10) (3 / 10))) 0 = Some (r, w')
      \<and> ladder_promise (projr (new_ladder_config (1 / 10) (2 / 10) (3 / 10))) 0 (w' - 0) (tool_state slow_tool w') r"
    by (rule ladder_returns_in_time [OF slow_tool_punctual, of "1 / 10" "2 / 10" "3 / 10"]) (simp add: new_ladder_config_def)
  show "map_option (outcome_of \<circ> fst) (run_with_ladder slow_tool (projr (new_ladder_config (1 / 10) (2 / 10) (3 / 10))) 0) = Some SoftTimeout"
    by (simp add: run_with_ladder_def new_ladder_config_def slow_tool_def wait_until.simps ladder_result_at_def runner_ends_def
      publish_def fresh_dict_def)
qed

section \<open>Where the code leaves its documents\<close>

text \<open>
  At \<open>hard_s\<close> the tool is said to be no longer awaited and the call to return \<open>hard_timeout\<close>.  The
  code waits on until the tool ends or \<open>kill_s\<close>: \<open>hard_timeout\<close> is never returned for a tool that
  is still running, which gets \<open>killed\<close> at \<open>kill_s\<close>.
\<close>

lemma hard_timeout_only_when_ended:
  assumes "punctual f clk eps" "new_ladder_config soft hard kill = Inr cfg" "run_with_ladder f cfg w = Some (r, w')"
    and "outcome_of r = HardTimeout"
  shows "t_done (tool_state f w')"
  using ladder_run_sound [OF assms(1,2), of w] assms(3,4) by (simp add: ladder_sound_def)

definition stuck_tool :: "(rat, string, string) ladder_env" where
  "stuck_tool =
     \<lparr>now_fn = (\<lambda>w. (w, w)), start_tool = (\<lambda>w. w), wait_done = (\<lambda>d w. (False, w + d)), set_soft = (\<lambda>w. w),
      tool_state = (\<lambda>w. publish ''step 1'' fresh_dict)\<rparr>"

lemma stuck_tool_awaited_past_hard:
  "map_option (\<lambda>(r, w'). (outcome_of r, r_partial r, w')) (run_with_ladder stuck_tool (projr (new_ladder_config (1 / 10) (2 / 10) (9 / 10))) 0) =
     Some (Killed, Some ''step 1'', 9 / 10)"
  by (simp add: run_with_ladder_def new_ladder_config_def stuck_tool_def wait_until.simps wait_kill.simps ladder_give_up_def
    publish_def fresh_dict_def)

end
