(* ===== verification/Repair_Loop.thy ===== *)
theory Repair_Loop
  imports Prelude Py_Json
begin

text \<open>
  The repair loop for structured output (\<open>structured-output-repair-loop/bin\<close>): the mini-schema
  validator and the loop of \<open>repair_loop.py\<close>, the error fingerprint of \<open>error_fingerprint.py\<close> and
  the hint of \<open>render_hint.py\<close>.  Validation is a type check: \<open>conforms\<close> is the declarative typing
  relation of the schemas, and the checker decides it.  Parameters: the model, the clock,
  \<open>json.loads\<close>, \<open>re.search\<close>, and the digest of a fingerprint.  The \<open>expected\<close> texts of errors are
  constructors with the data of the text.
\<close>

section \<open>Schemas and validation errors\<close>

datatype schema =
    SObject "string list" bool "(string \<times> schema) list"
  | SString "string option" "pyval list option"
  | SInteger
  | SNumber
  | SBoolean
  | SArray schema
  | SOther

datatype expectation =
    ExpType string
  | ExpPresent
  | ExpOneOf "string list"
  | ExpMatching string
  | ExpEnum "pyval list"
  | ExpValidJson

datatype error_class = JSONDecodeError | TypeMismatch | MissingField | ExtraField | EnumViolation | SchemaValidationError

datatype got_value = GotTypeName pyval | GotValue pyval | GotParserText string

record validation_error =
  v_class :: error_class
  v_pointer :: string
  v_expected :: expectation
  v_got :: got_value

definition verr :: "error_class \<Rightarrow> string \<Rightarrow> expectation \<Rightarrow> got_value \<Rightarrow> validation_error" where
  "verr c p e g = \<lparr>v_class = c, v_pointer = p, v_expected = e, v_got = g\<rparr>"

definition or_root :: "string \<Rightarrow> string" where
  "or_root p = (if p = [] then ''/'' else p)"

definition under :: "string \<Rightarrow> string \<Rightarrow> string" where
  "under p k = p @ ''/'' @ k"

definition mismatch :: "string \<Rightarrow> string \<Rightarrow> pyval \<Rightarrow> validation_error option" where
  "mismatch p t v = Some (verr TypeMismatch (or_root p) (ExpType t) (GotTypeName v))"

section \<open>The validator\<close>

text \<open>The two loops over the keys of an object that come before its properties.\<close>

fun first_missing :: "string \<Rightarrow> (string, pyval) dict \<Rightarrow> string list \<Rightarrow> validation_error option" where
  "first_missing p d [] = None"
| "first_missing p d (r # rs) =
     (if dict_get d r = None then Some (verr MissingField (under p r) ExpPresent (GotValue PNone)) else first_missing p d rs)"

fun first_extra :: "string \<Rightarrow> string list \<Rightarrow> (string, pyval) dict \<Rightarrow> validation_error option" where
  "first_extra p allowed [] = None"
| "first_extra p allowed ((k, v) # d) =
     (if k \<notin> set allowed then Some (verr ExtraField (under p k) (ExpOneOf (sort (remdups allowed))) (GotValue (PStr k)))
      else first_extra p allowed d)"

definition check_enum :: "string \<Rightarrow> pyval list option \<Rightarrow> string \<Rightarrow> validation_error option" where
  "check_enum p en s =
     (case en of
        None \<Rightarrow> None
      | Some vs \<Rightarrow> if PStr s \<notin> set vs then Some (verr EnumViolation (or_root p) (ExpEnum vs) (GotValue (PStr s))) else None)"

fun validate_string :: "(string \<Rightarrow> string \<Rightarrow> bool) \<Rightarrow> string \<Rightarrow> string option \<Rightarrow> pyval list option \<Rightarrow> pyval \<Rightarrow> validation_error option" where
  "validate_string search p pat en (PStr s) =
     (case pat of
        None \<Rightarrow> check_enum p en s
      | Some r \<Rightarrow>
          if r \<noteq> [] \<and> \<not> search r s then Some (verr SchemaValidationError (or_root p) (ExpMatching r) (GotValue (PStr s)))
          else check_enum p en s)"
| "validate_string search p pat en v = mismatch p ''string'' v"

function
  validate_value :: "(string \<Rightarrow> string \<Rightarrow> bool) \<Rightarrow> schema \<Rightarrow> string \<Rightarrow> pyval \<Rightarrow> validation_error option" and
  validate_props :: "(string \<Rightarrow> string \<Rightarrow> bool) \<Rightarrow> (string \<times> schema) list \<Rightarrow> string \<Rightarrow> (string, pyval) dict \<Rightarrow> validation_error option" and
  validate_items :: "(string \<Rightarrow> string \<Rightarrow> bool) \<Rightarrow> schema \<Rightarrow> string \<Rightarrow> nat \<Rightarrow> pyval list \<Rightarrow> validation_error option" where
  "validate_value search (SObject req extra props) p v =
     (case v of
        PDict d \<Rightarrow>
          (case first_missing p d req of
             Some e \<Rightarrow> Some e
           | None \<Rightarrow>
               (case (if extra then None else first_extra p (map fst props) d) of
                  Some e \<Rightarrow> Some e
                | None \<Rightarrow> validate_props search props p d))
      | _ \<Rightarrow> mismatch p ''object'' v)"
| "validate_value search (SString pat en) p v = validate_string search p pat en v"
| "validate_value search SInteger p v = (case v of PInt _ \<Rightarrow> None | _ \<Rightarrow> mismatch p ''integer'' v)"
| "validate_value search SNumber p v = (case v of PInt _ \<Rightarrow> None | PFloat _ \<Rightarrow> None | _ \<Rightarrow> mismatch p ''number'' v)"
| "validate_value search SBoolean p v = (case v of PBool _ \<Rightarrow> None | _ \<Rightarrow> mismatch p ''boolean'' v)"
| "validate_value search (SArray s) p v = (case v of PList xs \<Rightarrow> validate_items search s p 0 xs | _ \<Rightarrow> mismatch p ''array'' v)"
| "validate_value search SOther p v = None"
| "validate_props search [] p d = None"
| "validate_props search ((k, s) # props) p d =
     (case dict_get d k of
        None \<Rightarrow> validate_props search props p d
      | Some v \<Rightarrow> (case validate_value search s (under p k) v of Some e \<Rightarrow> Some e | None \<Rightarrow> validate_props search props p d))"
| "validate_items search s p i [] = None"
| "validate_items search s p i (v # vs) =
     (case validate_value search s (under p (dec i)) v of Some e \<Rightarrow> Some e | None \<Rightarrow> validate_items search s p (i + 1) vs)"
  by pat_completeness auto
termination
  by (relation "measures [\<lambda>x. case x of Inl (_, s, _, _) \<Rightarrow> 2 * size s | Inr (Inl (_, ps, _, _)) \<Rightarrow> 2 * size_list (size_prod (\<lambda>_. 0) size) ps
        | Inr (Inr (_, s, _, _, _)) \<Rightarrow> 2 * size s + 1,
      \<lambda>x. case x of Inl _ \<Rightarrow> 0 | Inr (Inl (_, ps, _, _)) \<Rightarrow> 0 | Inr (Inr (_, _, _, _, vs)) \<Rightarrow> length vs]") auto

section \<open>The typing relation\<close>

inductive conforms :: "(string \<Rightarrow> string \<Rightarrow> bool) \<Rightarrow> pyval \<Rightarrow> schema \<Rightarrow> bool" for search where
  conf_object: "(\<And>r. r \<in> set req \<Longrightarrow> dict_get d r \<noteq> None) \<Longrightarrow> (\<not> extra \<Longrightarrow> fst ` set d \<subseteq> fst ` set props) \<Longrightarrow>
     (\<And>k s v. (k, s) \<in> set props \<Longrightarrow> dict_get d k = Some v \<Longrightarrow> conforms search v s) \<Longrightarrow>
     conforms search (PDict d) (SObject req extra props)"
| conf_string: "(\<And>r. pat = Some r \<Longrightarrow> r \<noteq> [] \<Longrightarrow> search r s) \<Longrightarrow> (\<And>vs. en = Some vs \<Longrightarrow> PStr s \<in> set vs) \<Longrightarrow>
     conforms search (PStr s) (SString pat en)"
| conf_integer: "conforms search (PInt i) SInteger"
| conf_number_int: "conforms search (PInt i) SNumber"
| conf_number: "conforms search (PFloat x) SNumber"
| conf_boolean: "conforms search (PBool b) SBoolean"
| conf_array: "(\<And>v. v \<in> set xs \<Longrightarrow> conforms search v s) \<Longrightarrow> conforms search (PList xs) (SArray s)"
| conf_other: "conforms search v SOther"

inductive_simps conforms_simps:
  "conforms search v (SObject req extra props)" "conforms search v (SString pat en)" "conforms search v SInteger"
  "conforms search v SNumber" "conforms search v SBoolean" "conforms search v (SArray s)" "conforms search v SOther"

lemma first_missing_None: "first_missing p d rs = None \<longleftrightarrow> (\<forall>r \<in> set rs. dict_get d r \<noteq> None)"
  by (induction rs) auto

lemma first_extra_None: "first_extra p allowed d = None \<longleftrightarrow> fst ` set d \<subseteq> set allowed"
  by (induction p allowed d rule: first_extra.induct) auto

lemma validate_string_None: "validate_string search p pat en v = None \<longleftrightarrow> conforms search v (SString pat en)"
  by (cases v) (auto simp: conforms_simps check_enum_def mismatch_def split: option.splits)

text \<open>The first error of two checks in sequence.\<close>

lemma seq_None: "(case x of None \<Rightarrow> y | Some e \<Rightarrow> Some e) = None \<longleftrightarrow> x = None \<and> y = None"
  by (cases x) auto

lemma if_None: "(if b then None else x) = None \<longleftrightarrow> (\<not> b \<longrightarrow> x = None)"
  by simp

lemma validate_conforms:
  "validate_value search s p v = None \<longleftrightarrow> conforms search v s"
  "validate_props search props p d = None \<longleftrightarrow> (\<forall>(k, s) \<in> set props. \<forall>v. dict_get d k = Some v \<longrightarrow> conforms search v s)"
  "validate_items search s p i vs = None \<longleftrightarrow> (\<forall>v \<in> set vs. conforms search v s)"
proof (induction search s p v and search props p d and search s p i vs
    rule: validate_value_validate_props_validate_items.induct)
  case (1 search req extra props p v)
  show ?case
  proof (cases v)
    case (PDict d)
    have "validate_value search (SObject req extra props) p v = None \<longleftrightarrow>
        first_missing p d req = None \<and> (\<not> extra \<longrightarrow> first_extra p (map fst props) d = None) \<and> validate_props search props p d = None"
      using PDict by (simp add: seq_None if_None)
    also have "\<dots> \<longleftrightarrow> (\<forall>r \<in> set req. dict_get d r \<noteq> None) \<and> (\<not> extra \<longrightarrow> fst ` set d \<subseteq> fst ` set props) \<and>
        (\<forall>(k, s) \<in> set props. \<forall>v. dict_get d k = Some v \<longrightarrow> conforms search v s)"
      using 1 [OF PDict] by (cases extra) (simp_all add: first_missing_None first_extra_None cong: conj_cong)
    finally show ?thesis using PDict by (auto simp: conforms_simps)
  qed (auto simp: conforms_simps mismatch_def)
next
  case (2 search pat en p v)
  show ?case by (simp add: validate_string_None)
next
  case (9 search k s props p d)
  then show ?case by (cases "dict_get d k") (auto simp: seq_None)
next
  case (11 search s p i v vs)
  then show ?case by (auto simp: seq_None)
qed (auto simp: conforms_simps mismatch_def split: pyval.splits)

section \<open>Fingerprints and hints\<close>

text \<open>\<open>re.sub(r"/\d+(?=/|$)", "/*", ptr)\<close>; \<open>$\<close> also matches before a final line feed.\<close>

definition at_segment_end :: "string \<Rightarrow> bool" where
  "at_segment_end r \<longleftrightarrow> r = [] \<or> r = [CHR 0x0A] \<or> hd r = CHR ''/''"

function normalise_pointer :: "string \<Rightarrow> string" where
  "normalise_pointer [] = []"
| "normalise_pointer (c # cs) =
     (if c = CHR ''/'' \<and> takeWhile is_digit cs \<noteq> [] \<and> at_segment_end (dropWhile is_digit cs)
      then ''/*'' @ normalise_pointer (dropWhile is_digit cs)
      else c # normalise_pointer cs)"
  by pat_completeness auto
termination
  by (relation "measure length") (auto simp: le_imp_less_Suc length_dropWhile_le)

definition fingerprint :: "(error_class \<times> string \<times> expectation \<Rightarrow> string) \<Rightarrow> validation_error \<Rightarrow> string" where
  "fingerprint digest e = take 16 (digest (v_class e, normalise_pointer (v_pointer e), v_expected e))"

datatype fix_hint =
    ReplaceWithOneOf string expectation
  | AddRequired string expectation
  | RemoveField string
  | ChangeType string expectation
  | SingleJsonObject
  | ReplaceToMatch string expectation

definition suggest_fix :: "validation_error \<Rightarrow> fix_hint" where
  "suggest_fix e =
     (case v_class e of
        EnumViolation \<Rightarrow> ReplaceWithOneOf (v_pointer e) (v_expected e)
      | MissingField \<Rightarrow> AddRequired (v_pointer e) (v_expected e)
      | ExtraField \<Rightarrow> RemoveField (v_pointer e)
      | TypeMismatch \<Rightarrow> ChangeType (v_pointer e) (v_expected e)
      | JSONDecodeError \<Rightarrow> SingleJsonObject
      | _ \<Rightarrow> ReplaceToMatch (v_pointer e) (v_expected e))"

record repair_hint =
  hint_pointer :: string
  hint_expected :: expectation
  hint_got :: got_value
  hint_fix :: fix_hint

definition render_hint :: "validation_error \<Rightarrow> repair_hint" where
  "render_hint e = \<lparr>hint_pointer = v_pointer e, hint_expected = v_expected e, hint_got = v_got e, hint_fix = suggest_fix e\<rparr>"

section \<open>The loop\<close>

datatype repair_prompt = Original string | Repair string string repair_hint

definition build_repair_prompt :: "string \<Rightarrow> string \<Rightarrow> validation_error \<Rightarrow> repair_prompt" where
  "build_repair_prompt original prev_output e = Repair original prev_output (render_hint e)"

datatype repair_status = Parsed | Stuck | Exhausted | Expired

record repair_result =
  status :: repair_status
  attempts_made :: int
  fingerprints_seen :: "string list"
  parsed_value :: "pyval option"
  last_error :: "validation_error option"
  last_raw_output :: "string option"

text \<open>The environment: the model, the clock in seconds, the parser, the regular expressions, the digest.\<close>

record 'w repair_env =
  complete_fn :: "repair_prompt \<Rightarrow> 'w \<Rightarrow> string \<times> 'w"
  clock_fn :: "'w \<Rightarrow> rat"
  loads_fn :: "string \<Rightarrow> string + pyval"
  search_fn :: "string \<Rightarrow> string \<Rightarrow> bool"
  digest_fn :: "error_class \<times> string \<times> expectation \<Rightarrow> string"

text \<open>What is wrong with an output: the parser's error, or the first validation error.\<close>

definition output_error :: "'w repair_env \<Rightarrow> schema \<Rightarrow> string \<Rightarrow> validation_error option" where
  "output_error f sch raw =
     (case loads_fn f raw of
        Inl e \<Rightarrow> Some (verr JSONDecodeError ''/'' ExpValidJson (GotParserText e))
      | Inr v \<Rightarrow> validate_value (search_fn f) sch [] v)"

function repair_attempts ::
  "'w repair_env \<Rightarrow> string \<Rightarrow> schema \<Rightarrow> int \<Rightarrow> rat \<Rightarrow> rat \<Rightarrow> int \<Rightarrow> string list \<Rightarrow> repair_prompt \<Rightarrow>
   validation_error option \<Rightarrow> string option \<Rightarrow> 'w \<Rightarrow> repair_result \<times> 'w" where
  "repair_attempts f prompt sch max_attempts deadline_ms started attempt seen cur last_e last_raw w =
     (if attempt > max_attempts then
        (\<lparr>status = Exhausted, attempts_made = max_attempts, fingerprints_seen = seen, parsed_value = None,
          last_error = last_e, last_raw_output = last_raw\<rparr>, w)
      else if (clock_fn f w - started) * 1000 > deadline_ms then
        (\<lparr>status = Expired, attempts_made = attempt - 1, fingerprints_seen = seen, parsed_value = None,
          last_error = last_e, last_raw_output = last_raw\<rparr>, w)
      else
        (let (raw, w1) = complete_fn f cur w in
         case output_error f sch raw of
           None \<Rightarrow>
             (\<lparr>status = Parsed, attempts_made = attempt, fingerprints_seen = seen, parsed_value = Some (projr (loads_fn f raw)),
               last_error = None, last_raw_output = Some raw\<rparr>, w1)
         | Some e \<Rightarrow>
             if fingerprint (digest_fn f) e \<in> set seen then
               (\<lparr>status = Stuck, attempts_made = attempt, fingerprints_seen = seen, parsed_value = None,
                 last_error = Some e, last_raw_output = Some raw\<rparr>, w1)
             else repair_attempts f prompt sch max_attempts deadline_ms started (attempt + 1)
               (seen @ [fingerprint (digest_fn f) e]) (build_repair_prompt prompt raw e) (Some e) (Some raw) w1))"
  by pat_completeness auto
termination
  by (relation "measure (\<lambda>(f, prompt, sch, m, d, st, a, seen, cur, e, raw, w). nat (m + 1 - a))") auto

declare repair_attempts.simps [simp del]

definition run_repair_loop :: "'w repair_env \<Rightarrow> string \<Rightarrow> schema \<Rightarrow> int \<Rightarrow> rat \<Rightarrow> 'w \<Rightarrow> repair_result \<times> 'w" where
  "run_repair_loop f prompt sch max_attempts deadline_ms w =
     repair_attempts f prompt sch max_attempts deadline_ms (clock_fn f w) 1 [] (Original prompt) None None w"

text \<open>The scripted model of the reference implementation, as an environment whose world is the scripted output.\<close>

definition mock_complete :: "string list \<Rightarrow> repair_prompt \<Rightarrow> nat \<Rightarrow> string \<times> nat" where
  "mock_complete outputs p i =
     (if i \<ge> length outputs then ((if outputs = [] then ''{}'' else last outputs), i) else (outputs ! i, i + 1))"

lemma output_error_None:
  "output_error f sch raw = None \<longleftrightarrow> (\<exists>v. loads_fn f raw = Inr v \<and> conforms (search_fn f) v sch)"
  by (simp add: output_error_def validate_conforms split: sum.splits)

text \<open>What a result says, when the model has been called \<open>k\<close> times.\<close>

definition repair_sound :: "'w repair_env \<Rightarrow> schema \<Rightarrow> int \<Rightarrow> nat \<Rightarrow> repair_result \<Rightarrow> bool" where
  "repair_sound f sch m k r \<longleftrightarrow> int k \<le> max 0 m \<and> distinct (fingerprints_seen r) \<and>
     (case status r of
        Parsed \<Rightarrow> attempts_made r = int k \<and> length (fingerprints_seen r) + 1 = k \<and>
          (\<exists>raw v. last_raw_output r = Some raw \<and> loads_fn f raw = Inr v \<and> parsed_value r = Some v \<and> conforms (search_fn f) v sch)
      | Stuck \<Rightarrow> attempts_made r = int k \<and> length (fingerprints_seen r) + 1 = k \<and> parsed_value r = None \<and>
          (\<exists>raw e. last_raw_output r = Some raw \<and> output_error f sch raw = Some e \<and> last_error r = Some e \<and>
             fingerprint (digest_fn f) e \<in> set (fingerprints_seen r))
      | Exhausted \<Rightarrow> attempts_made r = m \<and> int k = max 0 m \<and> length (fingerprints_seen r) = k \<and> parsed_value r = None
      | Expired \<Rightarrow> attempts_made r = int k \<and> int k < m \<and> length (fingerprints_seen r) = k \<and> parsed_value r = None)"

lemma repair_attempts_sound:
  assumes "\<And>p w. n (snd (complete_fn f p w)) = n w + 1" "1 \<le> a" "int (length seen) = a - 1" "distinct seen" "a \<le> max 0 m + 1"
  shows "n w \<le> n (snd (repair_attempts f prompt sch m d st a seen cur e raw w)) \<and>
    repair_sound f sch m (length seen + (n (snd (repair_attempts f prompt sch m d st a seen cur e raw w)) - n w))
      (fst (repair_attempts f prompt sch m d st a seen cur e raw w))"
  using assms
proof (induction f prompt sch m d st a seen cur e raw w rule: repair_attempts.induct)
  case (1 f prompt sch m d st a seen cur e raw w)
  note step = repair_attempts.simps [of f prompt sch m d st a seen cur e raw w]
  consider (over) "a > m" | (late) "\<not> a > m" "(clock_fn f w - st) * 1000 > d" | (go) "\<not> a > m" "\<not> (clock_fn f w - st) * 1000 > d" by blast
  then show ?case
  proof cases
    case over
    then show ?thesis using 1(3-) step by (auto simp: repair_sound_def)
  next
    case late
    then show ?thesis using 1(3-) step by (auto simp: repair_sound_def)
  next
    case go
    obtain raw1 w1 where c: "complete_fn f cur w = (raw1, w1)" by (cases "complete_fn f cur w")
    have n1: "n w1 = n w + 1" using 1(2) [of cur w] c by simp
    show ?thesis
    proof (cases "output_error f sch raw1")
      case None
      then have eq: "repair_attempts f prompt sch m d st a seen cur e raw w =
          (\<lparr>status = Parsed, attempts_made = a, fingerprints_seen = seen, parsed_value = Some (projr (loads_fn f raw1)),
            last_error = None, last_raw_output = Some raw1\<rparr>, w1)" using go step c by simp
      obtain v where "loads_fn f raw1 = Inr v" "conforms (search_fn f) v sch" using None by (auto simp: output_error_None)
      then show ?thesis unfolding eq using 1(3-) go n1 by (auto simp: repair_sound_def)
    next
      case (Some e1)
      show ?thesis
      proof (cases "fingerprint (digest_fn f) e1 \<in> set seen")
        case True
        then show ?thesis using 1(3-) go step c n1 Some by (auto simp: repair_sound_def)
      next
        case False
        let ?r = "repair_attempts f prompt sch m d st (a + 1) (seen @ [fingerprint (digest_fn f) e1]) (build_repair_prompt prompt raw1 e1) (Some e1) (Some raw1) w1"
        have eq: "repair_attempts f prompt sch m d st a seen cur e raw w = ?r" using step go c Some False by simp
        have ih: "n w1 \<le> n (snd ?r) \<and>
            repair_sound f sch m (length (seen @ [fingerprint (digest_fn f) e1]) + (n (snd ?r) - n w1)) (fst ?r)"
          by (rule 1(1) [OF go c [symmetric] refl Some False 1(2)]) (use 1(3-) go False in auto)
        have "length (seen @ [fingerprint (digest_fn f) e1]) + (n (snd ?r) - n w1) = length seen + (n (snd ?r) - n w)"
          using n1 conjunct1 [OF ih] by simp
        then show ?thesis unfolding eq using n1 conjunct1 [OF ih] conjunct2 [OF ih] by simp
      qed
    qed
  qed
qed

text \<open>
  C25.  The checker is exact: a value is accepted exactly when it has the schema's type, the
  typing relation \<open>conforms\<close> being the reading of the schema rule by rule (a bool is no integer,
  an object may not lack a required field nor have a field outside a closed schema).
\<close>

theorem validate_value_decides_type:
  "validate_value search s p v = None \<longleftrightarrow> conforms search v s"
  by (rule validate_conforms(1))

text \<open>
  C23.  The loop against any model, clock and parser (\<open>n\<close> counts the calls of the model).  It
  ends after at most \<open>max_attempts\<close> calls.  A parsed result holds the value of the last output,
  which has the schema's type; \<open>stuck\<close> is returned exactly when the last error has the
  fingerprint of an earlier one, and no two earlier errors share a fingerprint; \<open>exhausted\<close>
  only after \<open>max_attempts\<close> different errors.
\<close>

theorem run_repair_loop_sound:
  assumes "\<forall>p w. n (snd (complete_fn f p w)) = n w + 1"
  shows "case run_repair_loop f prompt sch m d w of (r, w') \<Rightarrow> n w \<le> n w' \<and> repair_sound f sch m (n w' - n w) r"
  using repair_attempts_sound [of n f 1 "[]" m] assms by (simp add: run_repair_loop_def case_prod_beta)

text \<open>A model that first answers with a string for the integer field and then repairs it.\<close>

definition demo_env :: "nat repair_env" where
  "demo_env =
     \<lparr>complete_fn = (\<lambda>p i. (if i = 0 then ''a'' else ''b'', i + 1)), clock_fn = (\<lambda>w. 0),
      loads_fn = (\<lambda>raw. Inr (PDict [(''n'', if raw = ''a'' then PStr ''3'' else PInt 3)])),
      search_fn = (\<lambda>p s. True), digest_fn = (\<lambda>(c, p, e). p)\<rparr>"

theorem run_repair_loop_sound_witness:
  "case run_repair_loop demo_env ''go'' (SObject [''n''] False [(''n'', SInteger)]) 4 1000 0 of
     (r, w') \<Rightarrow> 0 \<le> w' \<and> repair_sound demo_env (SObject [''n''] False [(''n'', SInteger)]) 4 (w' - 0) r"
proof -
  have "\<forall>p w. snd (complete_fn demo_env p w) = w + 1" by (simp add: demo_env_def)
  from run_repair_loop_sound [of "\<lambda>w. w", OF this] show ?thesis .
qed

lemma demo_run:
  "fst (run_repair_loop demo_env ''go'' (SObject [''n''] False [(''n'', SInteger)]) 4 1000 0) =
     \<lparr>status = Parsed, attempts_made = 2, fingerprints_seen = [''/n''], parsed_value = Some (PDict [(''n'', PInt 3)]),
      last_error = None, last_raw_output = Some ''b''\<rparr>"
  by (simp add: run_repair_loop_def repair_attempts.simps demo_env_def output_error_def mismatch_def verr_def under_def or_root_def
    fingerprint_def at_segment_end_def is_digit_def)

text \<open>
  The same mistake on two elements of an array has one fingerprint, as the module intends; but so
  do mistakes on different fields of an object whose names are numbers.
\<close>

lemma numeric_keys_share_fingerprint:
  "normalise_pointer ''/users/0/email'' = ''/users/*/email'' \<and> normalise_pointer ''/ports/80'' = normalise_pointer ''/ports/443''"
  by (simp add: at_segment_end_def is_digit_def)

end
