(* ===== verification/Budget_Envelope.thy ===== *)
theory Budget_Envelope
  imports Prelude
begin

text \<open>
  The cost budget envelope of an agent (\<open>agent-cost-budget-envelope/bin/budget_envelope.py\<close>): a
  request is projected at its tier and run through the per-call, per-session and per-day caps,
  each of which may degrade it to another tier or deny it.  \<open>utc_day\<close>, the UTC date of a time
  stamp, is a parameter; the properties hold for every such function.
\<close>

section \<open>Policy\<close>

record tier =
  input_per_1k :: rat
  output_per_1k :: rat

record cap =
  cap_usd :: rat
  on_trip :: string
  degrade_to :: "string option"

record budget_policy =
  bp_version :: int
  tiers :: "(string, tier) dict"
  per_call :: cap
  per_session :: cap
  per_day :: cap
  kill_switch_usd_remaining :: "rat option"

datatype policy_error =
    UnsupportedVersion int
  | NoDefaultTier
  | CapsNotOrdered
  | BadOnTrip string
  | NeedsDegradeTo string
  | UnknownDegradeTier string string

definition cap_error :: "(string, tier) dict \<Rightarrow> string \<Rightarrow> cap \<Rightarrow> policy_error option" where
  "cap_error ts name c =
     (if on_trip c \<noteq> ''degrade'' \<and> on_trip c \<noteq> ''kill'' then Some (BadOnTrip name)
      else if on_trip c = ''degrade'' then
        (case degrade_to c of
           None \<Rightarrow> Some (NeedsDegradeTo name)
         | Some t \<Rightarrow> if dict_get ts t = None then Some (UnknownDegradeTier name t) else None)
      else None)"

text \<open>The checks of \<open>load_policy\<close> on the parsed file; the caps are visited in the given order.\<close>

fun caps_error :: "(string, tier) dict \<Rightarrow> (string \<times> cap) list \<Rightarrow> policy_error option" where
  "caps_error ts [] = None"
| "caps_error ts ((name, c) # cs) = (case cap_error ts name c of Some e \<Rightarrow> Some e | None \<Rightarrow> caps_error ts cs)"

definition load_policy :: "budget_policy \<Rightarrow> policy_error + budget_policy" where
  "load_policy p =
     (if bp_version p \<noteq> 1 then Inl (UnsupportedVersion (bp_version p))
      else if dict_get (tiers p) ''default'' = None then Inl NoDefaultTier
      else if \<not> (cap_usd (per_day p) \<ge> cap_usd (per_session p) \<and> cap_usd (per_session p) \<ge> cap_usd (per_call p)) then Inl CapsNotOrdered
      else case caps_error (tiers p) [(''per_call'', per_call p), (''per_session'', per_session p), (''per_day'', per_day p)] of
          Some e \<Rightarrow> Inl e
        | None \<Rightarrow> Inr p)"

definition project_usd :: "budget_policy \<Rightarrow> string \<Rightarrow> int \<Rightarrow> int \<Rightarrow> rat option" where
  "project_usd p t in_tok out_tok =
     (case dict_get (tiers p) t of
        None \<Rightarrow> None
      | Some r \<Rightarrow> Some (py_round 6 (of_int in_tok / 1000 * input_per_1k r + of_int out_tok / 1000 * output_per_1k r)))"

section \<open>Ledger\<close>

record row =
  row_ts :: string
  row_session :: string
  row_tier :: string
  row_input :: int
  row_output :: int
  row_usd :: rat
  row_reason :: string

definition session_total_usd :: "row list \<Rightarrow> string \<Rightarrow> rat" where
  "session_total_usd rows s = py_round 6 (sum_list (map row_usd (filter (\<lambda>r. row_session r = s) rows)))"

definition day_total_usd :: "(string \<Rightarrow> string) \<Rightarrow> row list \<Rightarrow> string \<Rightarrow> rat" where
  "day_total_usd utc_day rows ts = py_round 6 (sum_list (map row_usd (filter (\<lambda>r. utc_day (row_ts r) = utc_day ts) rows)))"

section \<open>The check\<close>

record budget_request =
  rq_session :: string
  rq_tier :: string
  rq_input :: int
  rq_output :: int
  rq_ts :: string

datatype budget_verdict = Allow | AllowDegraded | Deny

record budget_decision =
  bd_decision :: budget_verdict
  bd_tier :: string
  bd_projected :: rat
  bd_reason :: string
  bd_headroom :: "rat option"

text \<open>\<open>None\<close> is the \<open>KeyError\<close> of a tier that the policy does not have.\<close>

definition check_one_cap ::
  "cap \<Rightarrow> rat \<Rightarrow> rat \<Rightarrow> string \<Rightarrow> budget_policy \<Rightarrow> int \<Rightarrow> int \<Rightarrow> string \<Rightarrow> budget_decision option" where
  "check_one_cap c rollup proj t p in_tok out_tok reason =
     (let headroom = py_round 6 (cap_usd c - rollup) in
      if rollup + proj \<le> cap_usd c then
        Some \<lparr>bd_decision = Allow, bd_tier = t, bd_projected = proj, bd_reason = ''ok'', bd_headroom = None\<rparr>
      else if on_trip c = ''degrade'' then
        (case degrade_to c of
           None \<Rightarrow> None
         | Some t' \<Rightarrow>
             (case project_usd p t' in_tok out_tok of
                None \<Rightarrow> None
              | Some proj' \<Rightarrow>
                  Some \<lparr>bd_decision = (if rollup + proj' \<le> cap_usd c then AllowDegraded else Deny), bd_tier = t',
                    bd_projected = proj', bd_reason = reason, bd_headroom = Some headroom\<rparr>))
      else Some \<lparr>bd_decision = Deny, bd_tier = t, bd_projected = proj, bd_reason = reason, bd_headroom = Some headroom\<rparr>)"

text \<open>The three stages; \<open>degraded\<close> holds the reason and headroom of the last degradation.\<close>

fun check_caps ::
  "budget_policy \<Rightarrow> int \<Rightarrow> int \<Rightarrow> (cap \<times> rat \<times> string) list \<Rightarrow> string \<Rightarrow> rat \<Rightarrow> (string \<times> rat option) option \<Rightarrow> budget_decision option" where
  "check_caps p in_tok out_tok [] t proj degraded =
     (case degraded of
        Some (reason, headroom) \<Rightarrow>
          Some \<lparr>bd_decision = AllowDegraded, bd_tier = t, bd_projected = proj, bd_reason = reason, bd_headroom = headroom\<rparr>
      | None \<Rightarrow> Some \<lparr>bd_decision = Allow, bd_tier = t, bd_projected = proj, bd_reason = ''ok'', bd_headroom = None\<rparr>)"
| "check_caps p in_tok out_tok ((c, rollup, reason) # stages) t proj degraded =
     (case check_one_cap c rollup proj t p in_tok out_tok reason of
        None \<Rightarrow> None
      | Some d \<Rightarrow>
          if bd_decision d = Deny then Some d
          else check_caps p in_tok out_tok stages (bd_tier d) (bd_projected d)
            (if bd_decision d = AllowDegraded then Some (bd_reason d, bd_headroom d) else degraded))"

definition check_budget :: "(string \<Rightarrow> string) \<Rightarrow> budget_policy \<Rightarrow> row list \<Rightarrow> budget_request \<Rightarrow> budget_decision option" where
  "check_budget utc_day p rows rq =
     (if (case kill_switch_usd_remaining p of None \<Rightarrow> False | Some k \<Rightarrow> k \<le> 0) then
        Some \<lparr>bd_decision = Deny, bd_tier = rq_tier rq, bd_projected = 0, bd_reason = ''kill_switch_engaged'', bd_headroom = Some 0\<rparr>
      else case project_usd p (rq_tier rq) (rq_input rq) (rq_output rq) of
        None \<Rightarrow> Some \<lparr>bd_decision = Deny, bd_tier = rq_tier rq, bd_projected = 0, bd_reason = ''unknown_tier'', bd_headroom = None\<rparr>
      | Some proj \<Rightarrow>
          check_caps p (rq_input rq) (rq_output rq)
            [(per_call p, 0, ''per_call_cap_exceeded''),
             (per_session p, session_total_usd rows (rq_session rq), ''per_session_cap_exceeded''),
             (per_day p, day_total_usd utc_day rows (rq_ts rq), ''per_day_cap_exceeded'')]
            (rq_tier rq) proj None)"

text \<open>\<open>record\<close> for a response, and the module's own use of both (\<open>_demo\<close>), with the actual cost.\<close>

definition record_usage :: "row list \<Rightarrow> row \<Rightarrow> rat \<Rightarrow> row list" where
  "record_usage rows r usd_actual = rows @ [r\<lparr>row_usd := py_round 6 usd_actual\<rparr>]"

definition envelope_step ::
  "(string \<Rightarrow> string) \<Rightarrow> budget_policy \<Rightarrow> (budget_request \<Rightarrow> budget_decision \<Rightarrow> rat) \<Rightarrow> budget_request \<Rightarrow> row list \<Rightarrow> row list" where
  "envelope_step utc_day p actual rq rows =
     (case check_budget utc_day p rows rq of
        None \<Rightarrow> rows
      | Some d \<Rightarrow>
          if bd_decision d = Deny then rows
          else record_usage rows \<lparr>row_ts = rq_ts rq, row_session = rq_session rq, row_tier = bd_tier d,
            row_input = rq_input rq, row_output = rq_output rq, row_usd = 0, row_reason = bd_reason d\<rparr> (actual rq d))"

section \<open>Rounding to millionths\<close>

definition micro :: "rat \<Rightarrow> bool" where
  "micro x \<longleftrightarrow> (\<exists>k :: int. x = of_int k / 10 ^ 6)"

lemma half_even_int [simp]: "half_even (of_int k) = k"
  by (simp add: half_even_def Let_def)

lemma micro_round: "micro (py_round 6 x)"
  by (auto simp: micro_def py_round_def)

lemma round_micro: "micro x \<Longrightarrow> py_round 6 x = x"
  by (auto simp: micro_def py_round_def)

lemma micro_add: "micro x \<Longrightarrow> micro y \<Longrightarrow> micro (x + y)"
  unfolding micro_def by (metis add_divide_distrib of_int_add)

lemma micro_sum: "list_all micro xs \<Longrightarrow> micro (sum_list xs)"
proof (induction xs)
  case Nil
  have "(0 :: rat) = of_int 0 / 10 ^ 6" by simp
  then show ?case unfolding micro_def sum_list.Nil by blast
qed (auto intro: micro_add)

lemma half_even_mono:
  assumes "x \<le> y" shows "half_even x \<le> half_even y"
proof (cases "\<lfloor>x\<rfloor> = \<lfloor>y\<rfloor>")
  case True
  then show ?thesis using assms by (auto simp: half_even_def Let_def)
next
  case False
  then have "\<lfloor>x\<rfloor> + 1 \<le> \<lfloor>y\<rfloor>" using floor_mono [OF assms] by simp
  moreover have "half_even x \<le> \<lfloor>x\<rfloor> + 1" "\<lfloor>y\<rfloor> \<le> half_even y" by (auto simp: half_even_def Let_def)
  ultimately show ?thesis by linarith
qed

lemma py_round_mono: "x \<le> y \<Longrightarrow> py_round n x \<le> py_round n y"
  unfolding py_round_def by (intro divide_right_mono) (simp_all add: half_even_mono mult_right_mono)

section \<open>What an allowed request satisfies\<close>

definition fits :: "rat \<Rightarrow> cap \<times> rat \<times> string \<Rightarrow> bool" where
  "fits proj s \<longleftrightarrow> fst (snd s) + proj \<le> cap_usd (fst s)"

lemma check_one_cap_cases:
  assumes "check_one_cap c rollup proj t p i o' reason = Some d"
  shows "bd_decision d = Allow \<and> rollup + proj \<le> cap_usd c \<and> bd_tier d = t \<and> bd_projected d = proj \<or>
    bd_decision d = AllowDegraded \<and> \<not> rollup + proj \<le> cap_usd c \<and> rollup + bd_projected d \<le> cap_usd c \<and>
      project_usd p (bd_tier d) i o' = Some (bd_projected d) \<or>
    bd_decision d = Deny \<and> \<not> rollup + proj \<le> cap_usd c"
  using assms by (auto simp: check_one_cap_def Let_def split: if_splits option.splits)

text \<open>A degradation never makes the call dearer, so the stages that were passed stay passed.\<close>

lemma check_caps_fits:
  assumes "check_caps p i o' stages t proj deg = Some d" "bd_decision d \<noteq> Deny" "project_usd p t i o' = Some proj"
  shows "bd_projected d \<le> proj \<and> list_all (fits (bd_projected d)) stages \<and> project_usd p (bd_tier d) i o' = Some (bd_projected d)"
  using assms
proof (induction stages arbitrary: t proj deg)
  case Nil
  then show ?case by (auto split: option.splits)
next
  case (Cons s stages)
  obtain c rollup reason where s: "s = (c, rollup, reason)" by (cases s)
  obtain d1 where d1: "check_one_cap c rollup proj t p i o' reason = Some d1"
    using Cons.prems(1) s by (auto split: option.splits)
  note cs = check_one_cap_cases [OF d1]
  have nd: "bd_decision d1 \<noteq> Deny" using Cons.prems(1,2) s d1 by auto
  have step: "check_caps p i o' stages (bd_tier d1) (bd_projected d1)
      (if bd_decision d1 = AllowDegraded then Some (bd_reason d1, bd_headroom d1) else deg) = Some d"
    using Cons.prems(1) s d1 nd by simp
  have p1: "project_usd p (bd_tier d1) i o' = Some (bd_projected d1)" "bd_projected d1 \<le> proj" "rollup + bd_projected d1 \<le> cap_usd c"
    using cs nd Cons.prems(3) by auto
  from Cons.IH [OF step Cons.prems(2) p1(1)] show ?case using p1 s by (auto simp: fits_def)
qed

lemma check_caps_allow:
  assumes "check_caps p i o' stages t proj deg = Some d"
  shows "bd_decision d = Allow \<longleftrightarrow> deg = None \<and> list_all (fits proj) stages"
  using assms
proof (induction stages arbitrary: t proj deg)
  case Nil
  then show ?case by (auto split: option.splits)
next
  case (Cons s stages)
  obtain c rollup reason where s: "s = (c, rollup, reason)" by (cases s)
  obtain d1 where d1: "check_one_cap c rollup proj t p i o' reason = Some d1"
    using Cons.prems s by (auto split: option.splits)
  note cs = check_one_cap_cases [OF d1]
  show ?case
  proof (cases "bd_decision d1 = Deny")
    case True
    then show ?thesis using Cons.prems s d1 cs by (auto simp: fits_def)
  next
    case False
    have "check_caps p i o' stages (bd_tier d1) (bd_projected d1)
        (if bd_decision d1 = AllowDegraded then Some (bd_reason d1, bd_headroom d1) else deg) = Some d"
      using Cons.prems s d1 False by simp
    from Cons.IH [OF this] show ?thesis using cs False s by (auto simp: fits_def)
  qed
qed

lemma project_usd_micro: "project_usd p t i o' = Some x \<Longrightarrow> micro x"
  by (auto simp: project_usd_def micro_round split: option.splits)

lemma check_budget_fits:
  assumes "check_budget utc_day p rows rq = Some d" "bd_decision d \<noteq> Deny"
  shows "bd_projected d \<le> cap_usd (per_call p) \<and> session_total_usd rows (rq_session rq) + bd_projected d \<le> cap_usd (per_session p) \<and>
    day_total_usd utc_day rows (rq_ts rq) + bd_projected d \<le> cap_usd (per_day p) \<and> micro (bd_projected d)"
proof -
  obtain proj where pr: "project_usd p (rq_tier rq) (rq_input rq) (rq_output rq) = Some proj"
    using assms by (auto simp: check_budget_def split: if_splits option.splits)
  have "check_caps p (rq_input rq) (rq_output rq)
      [(per_call p, 0, ''per_call_cap_exceeded''),
       (per_session p, session_total_usd rows (rq_session rq), ''per_session_cap_exceeded''),
       (per_day p, day_total_usd utc_day rows (rq_ts rq), ''per_day_cap_exceeded'')] (rq_tier rq) proj None = Some d"
    using assms pr by (auto simp: check_budget_def simp del: check_caps.simps split: if_splits option.splits)
  from check_caps_fits [OF this assms(2) pr] show ?thesis using project_usd_micro by (auto simp: fits_def)
qed

text \<open>The ledger: whole millionths, and every total that has an entry is within its cap.\<close>

definition within_caps :: "(string \<Rightarrow> string) \<Rightarrow> budget_policy \<Rightarrow> row list \<Rightarrow> bool" where
  "within_caps utc_day p rows \<longleftrightarrow> list_all (\<lambda>r. micro (row_usd r) \<and> row_usd r \<le> cap_usd (per_call p)) rows \<and>
     (\<forall>s. session_total_usd rows s \<le> max 0 (cap_usd (per_session p))) \<and>
     (\<forall>ts. day_total_usd utc_day rows ts \<le> max 0 (cap_usd (per_day p)))"

lemma micro_filter: "list_all (\<lambda>r. micro (row_usd r)) rows \<Longrightarrow> micro (sum_list (map row_usd (filter P rows)))"
  by (rule micro_sum) (auto simp: list_all_iff)

lemma totals_snoc:
  assumes "list_all (\<lambda>r. micro (row_usd r)) (rows @ [r])"
  shows "session_total_usd (rows @ [r]) s = session_total_usd rows s + (if row_session r = s then row_usd r else 0)"
    "day_total_usd f (rows @ [r]) ts = day_total_usd f rows ts + (if f (row_ts r) = f ts then row_usd r else 0)"
  using assms by (auto simp: session_total_usd_def day_total_usd_def round_micro micro_filter micro_add)

lemma envelope_step_within:
  assumes "within_caps utc_day p rows" "\<And>d. actual rq d \<le> bd_projected d"
  shows "within_caps utc_day p (envelope_step utc_day p actual rq rows)"
proof (cases "\<exists>d. check_budget utc_day p rows rq = Some d \<and> bd_decision d \<noteq> Deny")
  case False
  then show ?thesis using assms(1) by (auto simp: envelope_step_def split: option.splits)
next
  case True
  then obtain d where d: "check_budget utc_day p rows rq = Some d" "bd_decision d \<noteq> Deny" by blast
  define r where "r = \<lparr>row_ts = rq_ts rq, row_session = rq_session rq, row_tier = bd_tier d, row_input = rq_input rq,
    row_output = rq_output rq, row_usd = py_round 6 (actual rq d), row_reason = bd_reason d\<rparr>"
  have step: "envelope_step utc_day p actual rq rows = rows @ [r]"
    using d by (simp add: envelope_step_def record_usage_def r_def)
  note fit = check_budget_fits [OF d]
  have le: "row_usd r \<le> bd_projected d"
    using py_round_mono [OF assms(2) [of d], of 6] fit by (simp add: r_def round_micro)
  have m: "list_all (\<lambda>r. micro (row_usd r)) (rows @ [r])"
    using assms(1) by (auto simp: within_caps_def list_all_iff r_def micro_round)
  have r: "row_session r = rq_session rq" "row_ts r = rq_ts rq" by (simp_all add: r_def)
  have old: "session_total_usd rows s \<le> max 0 (cap_usd (per_session p))" "day_total_usd utc_day rows ts \<le> max 0 (cap_usd (per_day p))"
    "list_all (\<lambda>r. micro (row_usd r) \<and> row_usd r \<le> cap_usd (per_call p)) rows" for s ts
    using assms(1) by (simp_all add: within_caps_def)
  have "session_total_usd (rows @ [r]) s \<le> max 0 (cap_usd (per_session p))" for s
  proof (cases "rq_session rq = s")
    case True
    then have "session_total_usd rows s + row_usd r \<le> cap_usd (per_session p)" using fit le by auto
    then show ?thesis using True by (simp add: totals_snoc(1) [OF m] r)
  next
    case False
    then show ?thesis using old(1) [of s] by (simp add: totals_snoc(1) [OF m] r)
  qed
  moreover have "day_total_usd utc_day (rows @ [r]) ts \<le> max 0 (cap_usd (per_day p))" for ts
  proof (cases "utc_day (rq_ts rq) = utc_day ts")
    case True
    then have "day_total_usd utc_day rows ts = day_total_usd utc_day rows (rq_ts rq)" by (simp add: day_total_usd_def)
    then have "day_total_usd utc_day rows ts + row_usd r \<le> cap_usd (per_day p)" using fit le by linarith
    then show ?thesis using True by (simp add: totals_snoc(2) [OF m] r)
  next
    case False
    then show ?thesis using old(2) [of ts] by (simp add: totals_snoc(2) [OF m] r)
  qed
  moreover have "list_all (\<lambda>r. micro (row_usd r) \<and> row_usd r \<le> cap_usd (per_call p)) (rows @ [r])"
    using old(3) m fit le by simp
  ultimately show ?thesis unfolding step within_caps_def by blast
qed

lemma envelope_session_within:
  assumes "\<And>rq d. actual rq d \<le> bd_projected d"
  shows "within_caps utc_day p (fold (envelope_step utc_day p actual) rqs [])"
proof -
  have "(0 :: rat) = of_int 0 / 10 ^ 6" by simp
  then have z: "micro 0" unfolding micro_def by blast
  have "within_caps utc_day p (fold (envelope_step utc_day p actual) rqs rows)" if "within_caps utc_day p rows" for rows
    using that by (induction rqs arbitrary: rows) (auto intro: envelope_step_within assms)
  then show ?thesis by (simp add: within_caps_def session_total_usd_def day_total_usd_def round_micro [OF z])
qed

lemma cap_error_None:
  "cap_error ts name c = None \<Longrightarrow> on_trip c = ''degrade'' \<Longrightarrow> \<exists>t. degrade_to c = Some t \<and> dict_get ts t \<noteq> None"
  by (auto simp: cap_error_def split: if_splits option.splits)

lemma check_caps_total:
  "\<forall>(c, r, s) \<in> set stages. on_trip c = ''degrade'' \<longrightarrow> (\<exists>t. degrade_to c = Some t \<and> dict_get (tiers p) t \<noteq> None) \<Longrightarrow>
     check_caps p i o' stages t proj deg \<noteq> None"
  by (induction stages arbitrary: t proj deg)
     (auto simp: check_one_cap_def project_usd_def Let_def split: option.splits)

lemma check_budget_killed:
  "kill_switch_usd_remaining p = Some k \<Longrightarrow> k \<le> 0 \<Longrightarrow>
     check_budget utc_day p rows rq =
       Some \<lparr>bd_decision = Deny, bd_tier = rq_tier rq, bd_projected = 0, bd_reason = ''kill_switch_engaged'', bd_headroom = Some 0\<rparr>"
  by (simp add: check_budget_def)

lemma killed_records_nothing:
  "kill_switch_usd_remaining p = Some k \<Longrightarrow> k \<le> 0 \<Longrightarrow> fold (envelope_step utc_day p actual) rqs [] = []"
  by (induction rqs) (simp_all add: envelope_step_def check_budget_killed)

text \<open>
  C22.  The caps hold over any session: with a policy that \<open>load_policy\<close> accepts, and under the
  hypothesis that every actual cost is at most the projected one of its decision, the recorded
  cost of every session and every day stays within its cap (or 0, for a negative cap) and no call
  exceeds the per-call cap, degradations included.  The check always decides (no tier is missing).
  With the kill switch off (\<open>null\<close>) it allows a call at its own tier exactly when the tier is known
  and the projected cost fits all three caps; with the kill switch at or below 0 it denies every
  call for that reason and nothing is ever recorded.  Of a positive kill switch, which the document
  of the envelope calls a soft cap, only the caps are claimed (see \<open>soft_cap_not_enforced\<close>).
\<close>

theorem budget_envelope_holds:
  assumes "load_policy p = Inr p'" "\<forall>rq d. actual rq d \<le> bd_projected d"
    and "rows = fold (envelope_step utc_day p' actual) rqs []"
  shows "(\<forall>s. session_total_usd rows s \<le> max 0 (cap_usd (per_session p'))) \<and>
    (\<forall>ts. day_total_usd utc_day rows ts \<le> max 0 (cap_usd (per_day p'))) \<and>
    list_all (\<lambda>r. row_usd r \<le> cap_usd (per_call p')) rows \<and>
    (case check_budget utc_day p' rows rq of
       None \<Rightarrow> False
     | Some d \<Rightarrow>
         (case kill_switch_usd_remaining p' of
            None \<Rightarrow> bd_decision d = Allow \<longleftrightarrow>
              (case project_usd p' (rq_tier rq) (rq_input rq) (rq_output rq) of
                 None \<Rightarrow> False
               | Some proj \<Rightarrow> proj \<le> cap_usd (per_call p') \<and> session_total_usd rows (rq_session rq) + proj \<le> cap_usd (per_session p') \<and>
                   day_total_usd utc_day rows (rq_ts rq) + proj \<le> cap_usd (per_day p'))
          | Some k \<Rightarrow> k \<le> 0 \<longrightarrow> bd_decision d = Deny \<and> bd_reason d = ''kill_switch_engaged'' \<and> rows = []))"
proof -
  have p': "p' = p" and caps: "caps_error (tiers p) [(''per_call'', per_call p), (''per_session'', per_session p), (''per_day'', per_day p)] = None"
    using assms(1) by (auto simp: load_policy_def simp del: caps_error.simps split: if_splits option.splits)
  have w: "within_caps utc_day p' rows" using envelope_session_within assms(2,3) by blast
  let ?st = "[(per_call p, 0, ''per_call_cap_exceeded''),
       (per_session p, session_total_usd rows (rq_session rq), ''per_session_cap_exceeded''),
       (per_day p, day_total_usd utc_day rows (rq_ts rq), ''per_day_cap_exceeded'')]"
  have tot: "check_caps p i o' ?st t proj deg \<noteq> None" for i o' t proj deg
  proof (rule check_caps_total)
    have "cap_error (tiers p) ''per_call'' (per_call p) = None" "cap_error (tiers p) ''per_session'' (per_session p) = None"
      "cap_error (tiers p) ''per_day'' (per_day p) = None" using caps by (auto split: option.splits)
    then show "\<forall>(c, r, s) \<in> set ?st. on_trip c = ''degrade'' \<longrightarrow> (\<exists>t. degrade_to c = Some t \<and> dict_get (tiers p) t \<noteq> None)"
      using cap_error_None by auto
  qed
  have "case check_budget utc_day p rows rq of None \<Rightarrow> False
     | Some d \<Rightarrow> bd_decision d = Allow \<longleftrightarrow>
         (case kill_switch_usd_remaining p of None \<Rightarrow> True | Some k \<Rightarrow> 0 < k) \<and>
         (case project_usd p (rq_tier rq) (rq_input rq) (rq_output rq) of
            None \<Rightarrow> False | Some proj \<Rightarrow> list_all (fits proj) ?st)"
  proof -
    consider (off) "case kill_switch_usd_remaining p of None \<Rightarrow> False | Some k \<Rightarrow> k \<le> 0"
      | (unknown) "\<not> (case kill_switch_usd_remaining p of None \<Rightarrow> False | Some k \<Rightarrow> k \<le> 0)"
          "project_usd p (rq_tier rq) (rq_input rq) (rq_output rq) = None"
      | (run) proj where "\<not> (case kill_switch_usd_remaining p of None \<Rightarrow> False | Some k \<Rightarrow> k \<le> 0)"
          "project_usd p (rq_tier rq) (rq_input rq) (rq_output rq) = Some proj" by fastforce
    then show ?thesis
    proof cases
      case run
      obtain d where d: "check_caps p (rq_input rq) (rq_output rq) ?st (rq_tier rq) proj None = Some d" using tot by blast
      then have "check_budget utc_day p rows rq = Some d" unfolding check_budget_def using run by (simp del: check_caps.simps)
      then show ?thesis using run check_caps_allow [OF d] by (auto simp: not_le split: option.splits)
    qed (auto simp: check_budget_def not_less split: option.splits)
  qed
  then have decides: "case check_budget utc_day p rows rq of None \<Rightarrow> False
     | Some d \<Rightarrow>
         (case kill_switch_usd_remaining p of
            None \<Rightarrow> bd_decision d = Allow \<longleftrightarrow>
              (case project_usd p (rq_tier rq) (rq_input rq) (rq_output rq) of
                 None \<Rightarrow> False | Some proj \<Rightarrow> list_all (fits proj) ?st)
          | Some k \<Rightarrow> k \<le> 0 \<longrightarrow> bd_decision d = Deny \<and> bd_reason d = ''kill_switch_engaged'' \<and> rows = [])"
    using killed_records_nothing assms(3) unfolding p' by (auto simp: check_budget_killed split: option.splits)
  show ?thesis using w decides unfolding p' by (simp add: within_caps_def fits_def list_all_iff split: option.splits)
qed

definition demo_budget :: budget_policy where
  "demo_budget =
     \<lparr>bp_version = 1, tiers = [(''default'', \<lparr>input_per_1k = 1, output_per_1k = 2\<rparr>), (''small'', \<lparr>input_per_1k = 1 / 10, output_per_1k = 2 / 10\<rparr>)],
      per_call = \<lparr>cap_usd = 3, on_trip = ''kill'', degrade_to = None\<rparr>,
      per_session = \<lparr>cap_usd = 4, on_trip = ''degrade'', degrade_to = Some ''small''\<rparr>,
      per_day = \<lparr>cap_usd = 5, on_trip = ''kill'', degrade_to = None\<rparr>, kill_switch_usd_remaining = None\<rparr>"

definition demo_budget_request :: budget_request where
  "demo_budget_request = \<lparr>rq_session = ''s'', rq_tier = ''default'', rq_input = 1000, rq_output = 1000, rq_ts = ''2025-01-01''\<rparr>"

lemma demo_round: "py_round 6 3 = 3" "py_round 6 (3 / 10) = 3 / 10" "py_round 6 0 = 0" "py_round 6 1 = 1" "py_round 6 4 = 4"
proof -
  have "micro (of_int k / 10 ^ 6)" for k by (auto simp: micro_def)
  from round_micro [OF this, of 3000000] round_micro [OF this, of 300000] round_micro [OF this, of 0]
    round_micro [OF this, of 1000000] round_micro [OF this, of 4000000]
  show "py_round 6 3 = 3" "py_round 6 (3 / 10) = 3 / 10" "py_round 6 0 = 0" "py_round 6 1 = 1" "py_round 6 4 = 4" by simp_all
qed

theorem budget_envelope_holds_witness:
  "let rows = fold (envelope_step (\<lambda>ts. ts) demo_budget (\<lambda>rq d. bd_projected d)) [demo_budget_request, demo_budget_request] [] in
     map row_usd rows = [3, 3 / 10] \<and> session_total_usd rows ''s'' \<le> max 0 (cap_usd (per_session demo_budget))"
proof -
  have l: "load_policy demo_budget = Inr demo_budget"
    by (simp add: load_policy_def demo_budget_def cap_error_def)
  have "map row_usd (fold (envelope_step (\<lambda>ts. ts) demo_budget (\<lambda>rq d. bd_projected d)) [demo_budget_request, demo_budget_request] []) = [3, 3 / 10]"
    by (simp add: envelope_step_def check_budget_def demo_budget_def demo_budget_request_def project_usd_def check_one_cap_def
      session_total_usd_def day_total_usd_def record_usage_def demo_round Let_def)
  then show ?thesis
    using budget_envelope_holds [OF l _ refl, of "\<lambda>rq d. bd_projected d" "\<lambda>ts. ts" "[demo_budget_request, demo_budget_request]" demo_budget_request]
    unfolding Let_def by blast
qed

text \<open>
  The document calls a positive kill switch a soft cap on the cumulative spend, which each call
  decrements and which denies when it is insufficient; the code only compares it with 0.
\<close>

lemma soft_cap_not_enforced:
  "let p = demo_budget\<lparr>kill_switch_usd_remaining := Some (1 / 2)\<rparr> in
     map_option (\<lambda>d. (bd_decision d, bd_projected d)) (check_budget (\<lambda>ts. ts) p [] demo_budget_request) = Some (Allow, 3)"
  by (simp add: check_budget_def demo_budget_def demo_budget_request_def project_usd_def check_one_cap_def
    session_total_usd_def day_total_usd_def demo_round Let_def)

end
