(* ===== verification/Step_Checkpoint.thy ===== *)
theory Step_Checkpoint
  imports Prelude
begin

text \<open>
  Checkpoint and resume of an agent's steps (\<open>agent-checkpoint-resume/checkpoint.py\<close>).  The log
  is \<open>None\<close> while the file does not exist, else the list of its lines: \<open>Some\<close> event, or \<open>None\<close> for a line that
  \<open>json.loads\<close> rejects (a write that was cut by a crash).  Blank lines are skipped by the code and left out here.
  Loading a log that does not exist raises, appending to it creates it.
\<close>

section \<open>Events, records, plans\<close>

record step_begin =
  sb_index :: int
  sb_input_hash :: string
  sb_tools_planned :: "string list"
  sb_ts :: int

record step_end =
  se_index :: int
  se_output_hash :: "string option"
  se_tools_called :: "string list"
  se_exit_state :: "string option"
  se_ts :: int

datatype ckpt_event = StepBegin string step_begin | StepEnd string step_end

record step_record =
  sr_step_id :: string
  sr_step_index :: int
  sr_input_hash :: string
  sr_output_hash :: "string option"
  sr_tools_planned :: "string list"
  sr_tools_called :: "string list"
  sr_exit_state :: "string option"
  sr_begin_ts :: int
  sr_end_ts :: "int option"

definition step_committed :: "step_record \<Rightarrow> bool" where
  "step_committed r \<longleftrightarrow> sr_output_hash r \<noteq> None \<and> sr_exit_state r \<noteq> None"

datatype plan_state = Fresh | Resume | Invalidated | Complete

datatype plan_detail = NoDetail | UncommittedStep string | PlannerTruncated | InputHashDrift string string | TailResume

record resume_plan =
  plan_state_of :: plan_state
  next_step_index :: int
  committed_steps :: "step_record list"
  invalidated_step_id :: "string option"
  plan_detail_of :: plan_detail

record plan_dict =
  pd_state :: plan_state
  pd_next_step_index :: int
  pd_committed_count :: nat
  pd_invalidated_step_id :: "string option"
  pd_detail :: plan_detail

definition resume_plan_to_dict :: "resume_plan \<Rightarrow> plan_dict" where
  "resume_plan_to_dict p =
     \<lparr>pd_state = plan_state_of p, pd_next_step_index = next_step_index p, pd_committed_count = length (committed_steps p),
      pd_invalidated_step_id = invalidated_step_id p, pd_detail = plan_detail_of p\<rparr>"

section \<open>Loading\<close>

type_synonym step_slot = "step_begin option \<times> step_end option"

fun slot_put :: "ckpt_event \<Rightarrow> (string, step_slot) dict \<Rightarrow> (string, step_slot) dict" where
  "slot_put (StepBegin sid b) d = dict_set sid (Some b, (case dict_get d sid of None \<Rightarrow> None | Some (_, e) \<Rightarrow> e)) d"
| "slot_put (StepEnd sid e) d = dict_set sid ((case dict_get d sid of None \<Rightarrow> None | Some (b, _) \<Rightarrow> b), Some e) d"

type_synonym ckpt_file = "ckpt_event option list option"

datatype load_failure = BadJsonLine nat | NoLogFile

fun read_events :: "nat \<Rightarrow> ckpt_event option list \<Rightarrow> (string, step_slot) dict \<Rightarrow> load_failure + (string, step_slot) dict" where
  "read_events i [] d = Inr d"
| "read_events i (None # ls) d = Inl (BadJsonLine i)"
| "read_events i (Some ev # ls) d = read_events (i + 1) ls (slot_put ev d)"

definition slot_record :: "string \<Rightarrow> step_begin \<Rightarrow> step_end option \<Rightarrow> step_record" where
  "slot_record sid b e =
     \<lparr>sr_step_id = sid, sr_step_index = sb_index b, sr_input_hash = sb_input_hash b,
      sr_output_hash = (case e of None \<Rightarrow> None | Some e \<Rightarrow> se_output_hash e), sr_tools_planned = sb_tools_planned b,
      sr_tools_called = (case e of None \<Rightarrow> [] | Some e \<Rightarrow> se_tools_called e),
      sr_exit_state = (case e of None \<Rightarrow> None | Some e \<Rightarrow> se_exit_state e), sr_begin_ts = sb_ts b,
      sr_end_ts = map_option se_ts e\<rparr>"

fun slot_records :: "(string, step_slot) dict \<Rightarrow> step_record list" where
  "slot_records [] = []"
| "slot_records ((sid, None, e) # d) = slot_records d"
| "slot_records ((sid, Some b, e) # d) = slot_record sid b e # slot_records d"

definition load_checkpoint :: "ckpt_file \<Rightarrow> load_failure + step_record list" where
  "load_checkpoint file =
     (case file of
        None \<Rightarrow> Inl NoLogFile
      | Some ls \<Rightarrow>
          (case read_events 0 ls [] of
             Inl e \<Rightarrow> Inl e
           | Inr d \<Rightarrow> Inr (sort_key sr_step_index (slot_records d))))"

definition append_event :: "ckpt_event \<Rightarrow> ckpt_file \<Rightarrow> ckpt_file" where
  "append_event ev file = Some ((case file of None \<Rightarrow> [] | Some ls \<Rightarrow> ls) @ [Some ev])"

definition append_begin :: "string \<Rightarrow> step_begin \<Rightarrow> ckpt_file \<Rightarrow> ckpt_file" where
  "append_begin sid b file = append_event (StepBegin sid b) file"

definition append_end :: "string \<Rightarrow> step_end \<Rightarrow> ckpt_file \<Rightarrow> ckpt_file" where
  "append_end sid e file = append_event (StepEnd sid e) file"

section \<open>Planning\<close>

fun plan_loop :: "(int \<Rightarrow> string option) \<Rightarrow> step_record list \<Rightarrow> step_record list \<Rightarrow> resume_plan" where
  "plan_loop expected [] committed =
     \<lparr>plan_state_of = Resume, next_step_index = sr_step_index (last committed) + 1, committed_steps = committed,
      invalidated_step_id = None, plan_detail_of = TailResume\<rparr>"
| "plan_loop expected (r # rs) committed =
     (if \<not> step_committed r then
        \<lparr>plan_state_of = Resume, next_step_index = sr_step_index r, committed_steps = committed,
         invalidated_step_id = None, plan_detail_of = UncommittedStep (sr_step_id r)\<rparr>
      else case expected (sr_step_index r) of
        None \<Rightarrow>
          \<lparr>plan_state_of = Invalidated, next_step_index = sr_step_index r, committed_steps = committed,
           invalidated_step_id = Some (sr_step_id r), plan_detail_of = PlannerTruncated\<rparr>
      | Some h \<Rightarrow>
          if h \<noteq> sr_input_hash r then
            \<lparr>plan_state_of = Invalidated, next_step_index = sr_step_index r, committed_steps = committed,
             invalidated_step_id = Some (sr_step_id r), plan_detail_of = InputHashDrift h (sr_input_hash r)\<rparr>
          else if sr_exit_state r = Some ''done'' then
            \<lparr>plan_state_of = Complete, next_step_index = sr_step_index r + 1, committed_steps = committed @ [r],
             invalidated_step_id = None, plan_detail_of = NoDetail\<rparr>
          else plan_loop expected rs (committed @ [r]))"

definition plan_resume :: "step_record list \<Rightarrow> (int \<Rightarrow> string option) \<Rightarrow> resume_plan" where
  "plan_resume rs expected =
     (if rs = [] then
        \<lparr>plan_state_of = Fresh, next_step_index = 0, committed_steps = [], invalidated_step_id = None, plan_detail_of = NoDetail\<rparr>
      else plan_loop expected rs [])"

section \<open>What a plan may reuse\<close>

text \<open>A step whose outcome may be reused: committed, and its input is what the planner expects now.\<close>

definition reusable :: "(int \<Rightarrow> string option) \<Rightarrow> step_record \<Rightarrow> bool" where
  "reusable expected r \<longleftrightarrow> step_committed r \<and> expected (sr_step_index r) = Some (sr_input_hash r)"

definition final_step :: "step_record \<Rightarrow> bool" where
  "final_step r \<longleftrightarrow> sr_exit_state r = Some ''done''"

text \<open>The steps up to and including the first final one.\<close>

fun upto_final :: "step_record list \<Rightarrow> step_record list" where
  "upto_final [] = []"
| "upto_final (r # rs) = (if final_step r then [r] else r # upto_final rs)"

text \<open>What a plan must say: \<open>acc\<close> and then the longest reusable prefix is committed; the step to run next
  is the one after it, and the state says why it stops there.\<close>

definition plan_from :: "(int \<Rightarrow> string option) \<Rightarrow> step_record list \<Rightarrow> step_record list \<Rightarrow> resume_plan \<Rightarrow> bool" where
  "plan_from expected rs acc p \<longleftrightarrow>
     (let ok = takeWhile (reusable expected) rs; rest = dropWhile (reusable expected) rs in
      committed_steps p = acc @ upto_final ok \<and>
      (if list_ex final_step ok then plan_state_of p = Complete \<and> next_step_index p = sr_step_index (last (upto_final ok)) + 1
       else if rest = [] then plan_state_of p = Resume \<and> next_step_index p = sr_step_index (last (acc @ rs)) + 1
       else next_step_index p = sr_step_index (hd rest) \<and>
         (if step_committed (hd rest) then plan_state_of p = Invalidated \<and> invalidated_step_id p = Some (sr_step_id (hd rest))
          else plan_state_of p = Resume \<and> plan_detail_of p = UncommittedStep (sr_step_id (hd rest)))))"

definition plan_exact :: "(int \<Rightarrow> string option) \<Rightarrow> step_record list \<Rightarrow> resume_plan \<Rightarrow> bool" where
  "plan_exact expected rs p \<longleftrightarrow>
     (if rs = [] then plan_state_of p = Fresh \<and> next_step_index p = 0 \<and> committed_steps p = []
      else plan_from expected rs [] p)"

lemma upto_final_none: "\<not> list_ex final_step rs \<Longrightarrow> upto_final rs = rs"
  by (induction rs) auto

lemma upto_final_nonempty [simp]: "upto_final rs = [] \<longleftrightarrow> rs = []"
  by (cases rs) auto

lemma plan_loop_reuse:
  assumes "reusable expected r" "\<not> final_step r"
  shows "plan_loop expected (r # rs) acc = plan_loop expected rs (acc @ [r])"
  using assms by (simp add: reusable_def final_step_def)

lemma plan_loop_final:
  assumes "reusable expected r" "final_step r"
  shows "plan_loop expected (r # rs) acc =
    \<lparr>plan_state_of = Complete, next_step_index = sr_step_index r + 1, committed_steps = acc @ [r],
     invalidated_step_id = None, plan_detail_of = NoDetail\<rparr>"
  using assms by (simp add: reusable_def final_step_def)

lemma plan_loop_blocked:
  assumes "\<not> reusable expected r"
  shows "committed_steps (plan_loop expected (r # rs) acc) = acc"
    "next_step_index (plan_loop expected (r # rs) acc) = sr_step_index r"
    "\<not> step_committed r \<Longrightarrow> plan_state_of (plan_loop expected (r # rs) acc) = Resume"
    "\<not> step_committed r \<Longrightarrow> plan_detail_of (plan_loop expected (r # rs) acc) = UncommittedStep (sr_step_id r)"
    "step_committed r \<Longrightarrow> plan_state_of (plan_loop expected (r # rs) acc) = Invalidated"
    "step_committed r \<Longrightarrow> invalidated_step_id (plan_loop expected (r # rs) acc) = Some (sr_step_id r)"
  using assms by (auto simp: reusable_def split: option.split)

declare plan_loop.simps(2) [simp del]

lemma plan_from_reuse:
  assumes r: "reusable expected r" "\<not> final_step r"
  shows "plan_from expected (r # rs) acc p = plan_from expected rs (acc @ [r]) p"
proof (cases "list_ex final_step (takeWhile (reusable expected) rs)")
  case True
  then have "takeWhile (reusable expected) rs \<noteq> []" by auto
  then show ?thesis using True r unfolding plan_from_def Let_def by simp
next
  case False
  then show ?thesis using r unfolding plan_from_def Let_def by (cases "rs = []") simp_all
qed

lemma plan_loop_exact: "plan_from expected rs acc (plan_loop expected rs acc)"
proof (induction rs arbitrary: acc)
  case (Cons r rs)
  consider "reusable expected r" "\<not> final_step r" | "reusable expected r" "final_step r" | "\<not> reusable expected r" by blast
  then show ?case
  proof cases
    case 1
    then show ?thesis using Cons.IH by (simp add: plan_from_reuse plan_loop_reuse)
  next
    case 2
    then show ?thesis by (simp add: plan_from_def plan_loop_final)
  next
    case 3
    then show ?thesis by (simp add: plan_from_def plan_loop_blocked)
  qed
qed (simp add: plan_from_def)

lemma plan_resume_exact: "plan_exact expected rs (plan_resume rs expected)"
proof (cases "rs = []")
  case False
  then show ?thesis by (simp add: plan_exact_def plan_resume_def plan_loop_exact)
qed (simp add: plan_exact_def plan_resume_def)

section \<open>A mission that crashes and resumes\<close>

text \<open>
  A planned step: its id, what its \<open>step_begin\<close> says and what its \<open>step_end\<close> says.  One session
  loads the log, makes a plan and runs the planned steps from \<open>next_step_index\<close>; it is cut after
  \<open>k\<close> appends.  The next session finds the log it left.
\<close>

type_synonym planned_step = "string \<times> step_begin \<times> step_end"

fun run_appends :: "planned_step list \<Rightarrow> nat \<Rightarrow> ckpt_file \<Rightarrow> ckpt_file" where
  "run_appends [] k ls = ls"
| "run_appends ((sid, b, e) # ps) 0 ls = ls"
| "run_appends ((sid, b, e) # ps) (Suc 0) ls = append_begin sid b ls"
| "run_appends ((sid, b, e) # ps) (Suc (Suc k)) ls = run_appends ps k (append_end sid e (append_begin sid b ls))"

definition planned_hashes :: "planned_step list \<Rightarrow> int \<Rightarrow> string option" where
  "planned_hashes ps i = (if 0 \<le> i \<and> i < int (length ps) then Some (sb_input_hash (fst (snd (ps ! nat i)))) else None)"

definition run_session :: "planned_step list \<Rightarrow> ckpt_file \<Rightarrow> nat \<Rightarrow> load_failure + ckpt_file" where
  "run_session ps ls k =
     (case load_checkpoint ls of
        Inl e \<Rightarrow> Inl e
      | Inr rs \<Rightarrow>
          let p = plan_resume rs (planned_hashes ps) in
          if plan_state_of p \<in> {Fresh, Resume} then Inr (run_appends (drop (nat (next_step_index p)) ps) k ls) else Inr ls)"

fun run_sessions :: "planned_step list \<Rightarrow> ckpt_file \<Rightarrow> nat list \<Rightarrow> load_failure + ckpt_file" where
  "run_sessions ps ls [] = Inr ls"
| "run_sessions ps ls (k # ks) = (case run_session ps ls k of Inl e \<Rightarrow> Inl e | Inr ls' \<Rightarrow> run_sessions ps ls' ks)"

fun ended_ids :: "ckpt_event option list \<Rightarrow> string list" where
  "ended_ids [] = []"
| "ended_ids (Some (StepEnd sid e) # ls) = sid # ended_ids ls"
| "ended_ids (_ # ls) = ended_ids ls"

text \<open>Planned steps as the agent makes them: step \<open>i\<close> has index \<open>i\<close>, ids are distinct, every outcome is
  recorded and none but the last may be \<open>done\<close>.\<close>

definition planned_ok :: "planned_step list \<Rightarrow> bool" where
  "planned_ok ps \<longleftrightarrow> distinct (map fst ps) \<and> map (\<lambda>(s, b, e). sb_index b) ps = map int [0..<length ps] \<and>
     list_all (\<lambda>(s, b, e). se_output_hash e \<noteq> None \<and> se_exit_state e \<noteq> None) ps \<and>
     list_all (\<lambda>(s, b, e). se_exit_state e \<noteq> Some ''done'') (butlast ps)"

text \<open>What loading sees after \<open>c\<close> committed steps, with the next one begun when \<open>b\<close>.\<close>

definition slots_of :: "planned_step list \<Rightarrow> nat \<Rightarrow> bool \<Rightarrow> (string, step_slot) dict" where
  "slots_of ps c b = map (\<lambda>(s, b, e). (s, Some b, Some e)) (take c ps) @
     (if b then [(fst (ps ! c), Some (fst (snd (ps ! c))), None)] else [])"

lemma read_events_append:
  "read_events i (ls @ ms) d = (case read_events i ls d of Inl e \<Rightarrow> Inl e | Inr d' \<Rightarrow> read_events (i + length ls) ms d')"
  by (induction i ls d rule: read_events.induct) (auto split: sum.split)

lemma ended_ids_append: "ended_ids (ls @ ms) = ended_ids ls @ ended_ids ms"
  by (induction ls rule: ended_ids.induct) auto

lemma slots_get_new:
  assumes "distinct (map fst ps)" "c < length ps"
  shows "dict_get (map (\<lambda>(s, b, e). (s, Some b, Some e)) (take c ps)) (fst (ps ! c)) = None"
proof -
  have "map fst (take c ps) @ [fst (ps ! c)] = take (Suc c) (map fst ps)"
    using assms(2) by (simp add: take_Suc_conv_app_nth take_map)
  then have "distinct (map fst (take c ps) @ [fst (ps ! c)])" using assms(1) by simp
  then have "fst (ps ! c) \<notin> fst ` set (take c ps)" by simp
  then show ?thesis by (simp add: map_of_eq_None_iff image_image split_beta)
qed

lemma dict_set_append: "dict_get d k = None \<Longrightarrow> dict_set k v (d @ d') = d @ dict_set k v d'"
  by (induction d) (auto split: if_splits)

lemma slots_begin:
  assumes "distinct (map fst ps)" "c < length ps" "ps ! c = (sid, b, e)"
  shows "slot_put (StepBegin sid b) (slots_of ps c x) = slots_of ps c True"
  using slots_get_new [OF assms(1,2)] assms(3) by (simp add: slots_of_def dict_set_append map_add_def)

lemma slots_end:
  assumes "distinct (map fst ps)" "c < length ps" "ps ! c = (sid, b, e)"
  shows "slot_put (StepEnd sid e) (slots_of ps c True) = slots_of ps (Suc c) False"
  using slots_get_new [OF assms(1,2)] assms(3) assms(2)
  by (simp add: slots_of_def dict_set_append take_Suc_conv_app_nth map_add_def)

lemma read_events_snoc:
  "read_events i ls d = Inr d' \<Longrightarrow> read_events i (ls @ [Some ev]) d = Inr (slot_put ev d')"
  by (simp add: read_events_append)

lemma slot_records_append: "slot_records (xs @ ys) = slot_records xs @ slot_records ys"
  by (induction xs rule: slot_records.induct) auto

lemma slot_records_complete:
  "slot_records (map (\<lambda>(s, b, e). (s, Some b, Some e)) ps) = map (\<lambda>(s, b, e). slot_record s b (Some e)) ps"
  by (induction ps) auto

definition records_of :: "planned_step list \<Rightarrow> nat \<Rightarrow> bool \<Rightarrow> step_record list" where
  "records_of ps c b = map (\<lambda>(s, b, e). slot_record s b (Some e)) (take c ps) @
     (if b then [slot_record (fst (ps ! c)) (fst (snd (ps ! c))) None] else [])"

lemma slot_records_of: "slot_records (slots_of ps c b) = records_of ps c b"
  by (simp add: slots_of_def records_of_def slot_records_append slot_records_complete)

lemma planned_nth:
  assumes "planned_ok ps" "i < length ps"
  shows "sb_index (fst (snd (ps ! i))) = int i"
    and "se_output_hash (snd (snd (ps ! i))) \<noteq> None \<and> se_exit_state (snd (snd (ps ! i))) \<noteq> None"
    and "Suc i < length ps \<Longrightarrow> se_exit_state (snd (snd (ps ! i))) \<noteq> Some ''done''"
proof -
  have "map (\<lambda>(s, b, e). sb_index b) ps ! i = map int [0..<length ps] ! i" using assms(1) by (simp add: planned_ok_def)
  then show "sb_index (fst (snd (ps ! i))) = int i" using assms(2) by (simp add: case_prod_unfold)
  show "se_output_hash (snd (snd (ps ! i))) \<noteq> None \<and> se_exit_state (snd (snd (ps ! i))) \<noteq> None"
    using assms by (simp add: planned_ok_def list_all_length case_prod_unfold)
  show "se_exit_state (snd (snd (ps ! i))) \<noteq> Some ''done''" if "Suc i < length ps"
    using assms(1) that by (simp add: planned_ok_def list_all_length case_prod_unfold nth_butlast)
qed

definition planned_record :: "planned_step \<Rightarrow> step_record" where
  "planned_record q = slot_record (fst q) (fst (snd q)) (Some (snd (snd q)))"

lemma records_of_done: "records_of ps c False = map planned_record (take c ps)"
  by (simp add: records_of_def planned_record_def case_prod_unfold)

lemma planned_record_nth:
  assumes "planned_ok ps" "i < length ps"
  shows "sr_step_index (planned_record (ps ! i)) = int i"
    and "reusable (planned_hashes ps) (planned_record (ps ! i))"
    and "Suc i < length ps \<Longrightarrow> \<not> final_step (planned_record (ps ! i))"
  using planned_nth [OF assms] assms(2)
  by (simp_all add: planned_record_def slot_record_def reusable_def step_committed_def planned_hashes_def final_step_def)

lemma records_split:
  "records_of ps c b = records_of ps c False @ (if b then [slot_record (fst (ps ! c)) (fst (snd (ps ! c))) None] else [])"
  by (simp add: records_of_def)

lemma records_indices:
  assumes "planned_ok ps" "c + (if b then 1 else 0) \<le> length ps"
  shows "map sr_step_index (records_of ps c b) = map int [0..<c + (if b then 1 else 0)]"
proof -
  have c: "c \<le> length ps" using assms(2) by (simp split: if_splits)
  have "map sr_step_index (records_of ps c False) = map int [0..<c]"
    using planned_record_nth(1) [OF assms(1)] c by (auto simp: records_of_done intro!: nth_equalityI)
  moreover have "sr_step_index (slot_record (fst (ps ! c)) (fst (snd (ps ! c))) None) = int c" if b
    using planned_nth(1) [OF assms(1), of c] assms(2) that by (simp add: slot_record_def)
  ultimately show ?thesis by (subst records_split) simp
qed

lemma load_slots:
  assumes "planned_ok ps" "c + (if b then 1 else 0) \<le> length ps" "read_events 0 ls [] = Inr (slots_of ps c b)"
  shows "load_checkpoint (Some ls) = Inr (records_of ps c b)"
proof -
  have "sorted (map sr_step_index (records_of ps c b))"
    using records_indices [OF assms(1,2)] by (simp add: sorted_map del: upt_Suc)
  then show ?thesis using assms(3) by (simp add: load_checkpoint_def slot_records_of sort_key_id_if_sorted)
qed

lemma upto_final_butlast: "list_all (\<lambda>r. \<not> final_step r) (butlast rs) \<Longrightarrow> upto_final rs = rs"
  by (induction rs) (auto split: if_splits)

lemma records_reusable:
  assumes "planned_ok ps" "c \<le> length ps"
  shows "list_all (reusable (planned_hashes ps)) (records_of ps c False)"
  using planned_record_nth(2) [OF assms(1)] assms(2) by (simp add: records_of_done list_all_length)

lemma records_final:
  assumes "planned_ok ps" "c \<le> length ps"
  shows "upto_final (records_of ps c False) = records_of ps c False"
    and "list_ex final_step (records_of ps c False) \<Longrightarrow> c = length ps"
proof -
  note late = planned_record_nth(3) [OF assms(1)]
  have "list_all (\<lambda>r. \<not> final_step r) (butlast (records_of ps c False))"
    using assms(2) late by (simp add: records_of_done list_all_length nth_butlast)
  then show "upto_final (records_of ps c False) = records_of ps c False" by (rule upto_final_butlast)
  show "c = length ps" if fs: "list_ex final_step (records_of ps c False)"
  proof -
    obtain q where q: "q \<in> set (take c ps)" "final_step (planned_record q)"
      using fs by (auto simp: records_of_done list_ex_iff)
    then obtain i where i: "i < c" "final_step (planned_record (ps ! i))"
      using assms(2) by (auto simp: in_set_conv_nth)
    then have "\<not> Suc i < length ps" using late assms(2) by fastforce
    then show ?thesis using i assms(2) by linarith
  qed
qed

lemma uncommitted_slot: "\<not> step_committed (slot_record s b None)" "\<not> reusable h (slot_record s b None)"
  by (simp_all add: step_committed_def reusable_def slot_record_def)

lemma plan_of_records:
  assumes ok: "planned_ok ps" "c + (if b then 1 else 0) \<le> length ps"
  defines "p \<equiv> plan_resume (records_of ps c b) (planned_hashes ps)"
  shows "next_step_index p = int c \<and> committed_steps p = records_of ps c False \<and>
    (plan_state_of p \<in> {Fresh, Resume} \<or> c = length ps)"
proof -
  let ?P = "reusable (planned_hashes ps)" and ?done = "records_of ps c False"
  have c: "c \<le> length ps" using ok(2) by (simp split: if_splits)
  have all: "\<forall>r\<in>set ?done. ?P r" using records_reusable [OF ok(1) c] by (simp add: list_all_iff)
  have tw: "takeWhile ?P (records_of ps c b) = ?done"
    using all by (subst records_split) (simp add: takeWhile_append2 uncommitted_slot)
  have dw: "dropWhile ?P (records_of ps c b) = (if b then [slot_record (fst (ps ! c)) (fst (snd (ps ! c))) None] else [])"
    using all by (subst records_split) (simp add: dropWhile_append2 uncommitted_slot)
  have ix: "map sr_step_index ?done = map int [0..<c]" using records_indices [OF ok(1), of c False] c by simp
  have lst: "sr_step_index (last ?done) + 1 = int c" if "?done \<noteq> []"
    using that arg_cong [OF ix, of last] by (cases c) (auto simp: last_map records_of_def)
  have at: "sr_step_index (slot_record (fst (ps ! c)) (fst (snd (ps ! c))) None) = int c" if b
    using planned_nth(1) [OF ok(1), of c] ok(2) that by (simp add: slot_record_def)
  have "plan_exact (planned_hashes ps) (records_of ps c b) p"
    unfolding p_def by (rule plan_resume_exact)
  then have ex: "(if records_of ps c b = [] then plan_state_of p = Fresh \<and> next_step_index p = 0 \<and> committed_steps p = []
      else plan_from (planned_hashes ps) (records_of ps c b) [] p)" by (simp only: plan_exact_def)
  show ?thesis
  proof (cases "records_of ps c b = []")
    case True
    then have "c = 0" using c by (auto simp: records_of_def split: if_splits)
    then show ?thesis using ex True by (simp add: records_of_done)
  next
    case False
    have fin: "sr_step_index (last ?done) + 1 = int c" if "list_ex final_step ?done" using that lst by (cases ?done) auto
    show ?thesis using ex False unfolding plan_from_def Let_def tw dw records_final(1) [OF ok(1) c]
      using records_final(2) [OF ok(1) c] lst fin at c
      by (cases b) (auto simp: records_split [of ps c True] uncommitted_slot split: if_splits)
  qed
qed

lemma ended_ids_snoc:
  "ended_ids (ls @ [Some (StepBegin s b)]) = ended_ids ls" "ended_ids (ls @ [Some (StepEnd s e)]) = ended_ids ls @ [s]"
  by (simp_all add: ended_ids_append)

text \<open>A log after \<open>c\<close> committed steps: what it loads to, and which steps it says have ended.\<close>

definition log_at :: "planned_step list \<Rightarrow> nat \<Rightarrow> bool \<Rightarrow> ckpt_file \<Rightarrow> bool" where
  "log_at ps c b file \<longleftrightarrow> (\<exists>ls. file = Some ls \<and> c + (if b then 1 else 0) \<le> length ps \<and>
     read_events 0 ls [] = Inr (slots_of ps c b) \<and> ended_ids ls = map fst (take c ps))"

lemma log_at_le: "log_at ps c x f \<Longrightarrow> c + (if x then 1 else 0) \<le> length ps"
  by (auto simp: log_at_def)

lemma log_at_begin:
  assumes "distinct (map fst ps)" "log_at ps c x f" "c < length ps" "ps ! c = (sid, b, e)"
  shows "log_at ps c True (append_begin sid b f)"
proof -
  obtain ls where ls: "f = Some ls" "read_events 0 ls [] = Inr (slots_of ps c x)" "ended_ids ls = map fst (take c ps)"
    using assms(2) by (auto simp: log_at_def)
  then show ?thesis using slots_begin [OF assms(1,3,4), of x] assms(3) read_events_snoc [OF ls(2), of "StepBegin sid b"]
    by (simp add: log_at_def append_begin_def append_event_def ended_ids_snoc)
qed

lemma log_at_end:
  assumes "distinct (map fst ps)" "log_at ps c True f" "ps ! c = (sid, b, e)"
  shows "log_at ps (Suc c) False (append_end sid e f)"
proof -
  obtain ls where ls: "f = Some ls" "read_events 0 ls [] = Inr (slots_of ps c True)" "ended_ids ls = map fst (take c ps)"
    and c: "c < length ps" using assms(2) by (auto simp: log_at_def)
  then show ?thesis using slots_end [OF assms(1) c assms(3)] assms(3) read_events_snoc [OF ls(2), of "StepEnd sid e"]
    by (simp add: log_at_def append_end_def append_event_def ended_ids_snoc take_Suc_conv_app_nth)
qed

lemma run_appends_log:
  assumes "distinct (map fst ps)" "log_at ps c x ls"
  shows "\<exists>c' x'. log_at ps c' x' (run_appends (drop c ps) k ls) \<and> c' = min (length ps) (c + k div 2)"
  using assms(2)
proof (induction k arbitrary: c x ls rule: less_induct)
  case (less k)
  show ?case
  proof (cases "c < length ps")
    case False
    then have "c = length ps" using log_at_le [OF less.prems] by (simp split: if_splits)
    then show ?thesis using less.prems by (intro exI [of _ c] exI [of _ x]) simp
  next
    case c: True
    obtain sid b e where p: "ps ! c = (sid, b, e)" by (cases "ps ! c")
    have d: "drop c ps = (sid, b, e) # drop (Suc c) ps" using c p by (metis Cons_nth_drop_Suc)
    note bg = log_at_begin [OF assms(1) less.prems c p]
    note en = log_at_end [OF assms(1) bg p]
    consider "k = 0" | "k = 1" | m where "k = Suc (Suc m)" by (metis One_nat_def not0_implies_Suc)
    then show ?thesis
    proof cases
      case 1 then show ?thesis using less.prems c d by auto
    next
      case 2 then show ?thesis using bg c d by auto
    next
      case 3
      then show ?thesis using less.IH [OF _ en, of m] d c by auto
    qed
  qed
qed

lemma run_session_log:
  assumes "planned_ok ps" "log_at ps c x ls"
  shows "\<exists>ls' c' x'. run_session ps ls k = Inr ls' \<and> log_at ps c' x' ls' \<and> c' = min (length ps) (c + k div 2)"
proof -
  have l: "load_checkpoint ls = Inr (records_of ps c x)" and c: "c + (if x then 1 else 0) \<le> length ps"
    using assms load_slots [OF assms(1)] by (auto simp: log_at_def)
  note p = plan_of_records [OF assms(1) c]
  obtain c' x' where r: "log_at ps c' x' (run_appends (drop c ps) k ls)" "c' = min (length ps) (c + k div 2)"
    using run_appends_log [OF _ assms(2), of k] assms(1) by (auto simp: planned_ok_def)
  have "run_session ps ls k = Inr (run_appends (drop c ps) k ls)"
    using p l by (auto simp: run_session_def Let_def)
  then show ?thesis using r by blast
qed

lemma run_sessions_log:
  assumes "planned_ok ps"
  shows "log_at ps c x ls \<Longrightarrow> \<exists>ls' c' x'. run_sessions ps ls ks = Inr ls' \<and> log_at ps c' x' ls' \<and>
    c' = min (length ps) (c + sum_list (map (\<lambda>k. k div 2) ks))"
proof (induction ks arbitrary: c x ls)
  case (Cons k ks)
  obtain ls1 c1 x1 where s: "run_session ps ls k = Inr ls1" "log_at ps c1 x1 ls1" "c1 = min (length ps) (c + k div 2)"
    using run_session_log [OF assms Cons.prems, of k] by blast
  have m: "min (length ps) (c1 + n) = min (length ps) (c + (k div 2 + n))" for n using s(3) by (simp add: min_def)
  obtain ls' c' x' where "run_sessions ps ls1 ks = Inr ls'" "log_at ps c' x' ls'"
    "c' = min (length ps) (c1 + sum_list (map (\<lambda>k. k div 2) ks))" using Cons.IH [OF s(2)] by blast
  then show ?case using s(1) m by auto
next
  case Nil
  then have "c = min (length ps) c" using log_at_le [OF Nil] by (simp split: if_splits)
  with Nil show ?case by (intro exI [of _ ls] exI [of _ c] exI [of _ x]) simp
qed

section \<open>Properties\<close>

text \<open>The plan is exact for every list of records: with no records it is fresh at step 0; otherwise the
  committed steps are the longest prefix of records that are committed and whose input hash is what the
  planner expects (cut after the first \<open>done\<close> step), the state is \<open>complete\<close> exactly when such a \<open>done\<close> step
  is met, \<open>invalidated\<close> with the offending step when a committed step no longer matches, and \<open>resume\<close> at the
  first uncommitted step, or after the last one, otherwise.  It never fast-forwards past a mismatch.\<close>

theorem plan_resume_decides: "plan_exact expected rs (plan_resume rs expected)"
  by (rule plan_resume_exact)

text \<open>C8. Crash safety: a mission of planned steps is run in any number of sessions on a log file that exists
  (empty at first), each cut after any whole number of log appends and each starting from the plan made of the log the
  previous one left.  While the file does not exist, loading raises and no session starts, although a mission without a
  checkpoint is documented as a fresh one.  On the existing file no session
  fails to load or to plan, the steps that ended are exactly a prefix of the mission, each once and in order
  (no committed step is run again, none is skipped), two appends make a step of progress, and the next plan
  resumes right after that prefix.\<close>

theorem mission_crash_safe:
  assumes "planned_ok ps" "c = min (length ps) (sum_list (map (\<lambda>k. k div 2) ks))"
  shows "(\<exists>ls rs. run_sessions ps (Some []) ks = Inr (Some ls) \<and> ended_ids ls = map fst (take c ps) \<and>
    load_checkpoint (Some ls) = Inr rs \<and> next_step_index (plan_resume rs (planned_hashes ps)) = int c \<and>
    map sr_step_id (committed_steps (plan_resume rs (planned_hashes ps))) = map fst (take c ps)) \<and>
    (\<forall>k. run_session ps None k = Inl NoLogFile)"
proof -
  have "log_at ps 0 False (Some [])" by (simp add: log_at_def slots_of_def)
  from run_sessions_log [OF assms(1) this, of ks] obtain lf x
    where f: "run_sessions ps (Some []) ks = Inr lf" "log_at ps c x lf" using assms(2) by auto
  then obtain ls where ls: "run_sessions ps (Some []) ks = Inr (Some ls)"
    and le: "c + (if x then 1 else 0) \<le> length ps" and rd: "read_events 0 ls [] = Inr (slots_of ps c x)"
    and en: "ended_ids ls = map fst (take c ps)" by (auto simp: log_at_def)
  have none: "run_session ps None k = Inl NoLogFile" for k by (simp add: run_session_def load_checkpoint_def)
  have "map sr_step_id (records_of ps c False) = map fst (take c ps)"
    by (simp add: records_of_done planned_record_def slot_record_def)
  then show ?thesis using ls en load_slots [OF assms(1) le rd] plan_of_records [OF assms(1) le] none by auto
qed

definition demo_mission :: "planned_step list" where
  "demo_mission =
     [(''s0'', \<lparr>sb_index = 0, sb_input_hash = ''h0'', sb_tools_planned = [''tool_a''], sb_ts = 1700000000\<rparr>,
       \<lparr>se_index = 0, se_output_hash = Some ''o0'', se_tools_called = [''tool_a''], se_exit_state = Some ''continue'', se_ts = 1700000005\<rparr>),
      (''s1'', \<lparr>sb_index = 1, sb_input_hash = ''h1'', sb_tools_planned = [''tool_a''], sb_ts = 1700000010\<rparr>,
       \<lparr>se_index = 1, se_output_hash = Some ''o1'', se_tools_called = [''tool_a''], se_exit_state = Some ''continue'', se_ts = 1700000015\<rparr>),
      (''s2'', \<lparr>sb_index = 2, sb_input_hash = ''h2'', sb_tools_planned = [''tool_b''], sb_ts = 1700000020\<rparr>,
       \<lparr>se_index = 2, se_output_hash = Some ''o2'', se_tools_called = [''tool_b''], se_exit_state = Some ''done'', se_ts = 1700000025\<rparr>)]"

lemma demo_mission_ok: "planned_ok demo_mission"
  by (simp add: planned_ok_def demo_mission_def upt_rec)

text \<open>The crash of the first worked example: two steps commit, the third is begun; the next session ends it.\<close>

theorem mission_crash_safe_witness:
  "\<exists>ls rs. run_sessions demo_mission (Some []) [5, 0, 2] = Inr (Some ls) \<and> ended_ids ls = [''s0'', ''s1'', ''s2''] \<and>
    load_checkpoint (Some ls) = Inr rs \<and> next_step_index (plan_resume rs (planned_hashes demo_mission)) = 3"
proof -
  have "length demo_mission = 3" "map fst demo_mission = [''s0'', ''s1'', ''s2'']" by (simp_all add: demo_mission_def)
  then show ?thesis using mission_crash_safe [OF demo_mission_ok refl, of "[5, 0, 2]"] by auto
qed

section \<open>Where the log is not enough\<close>

text \<open>A line cut by a crash makes loading raise, whatever was committed before it: nothing can be resumed.\<close>

lemma torn_line_blocks_resume: "\<exists>i. load_checkpoint (Some (ls @ None # ls')) = Inl (BadJsonLine i)"
proof -
  have "\<exists>j. read_events i (ls @ None # ls') d = Inl (BadJsonLine j)" for i d
  proof (induction ls arbitrary: i d)
    case (Cons l ls) then show ?case by (cases l) auto
  qed simp
  then obtain j where "read_events 0 (ls @ None # ls') [] = Inl (BadJsonLine j)" by blast
  then show ?thesis by (simp add: load_checkpoint_def)
qed

text \<open>A mission that was never started is documented to be \<open>fresh\<close>; without its file loading raises instead.  A file
  that exists and is empty is planned as fresh.\<close>

lemma missing_log_not_fresh:
  "load_checkpoint None = Inl NoLogFile" "load_checkpoint (Some []) = Inr []" "plan_state_of (plan_resume [] h) = Fresh"
  by (simp_all add: load_checkpoint_def plan_resume_def)

text \<open>A step that committed and is begun again under its id is still seen as committed: the new \<open>step_begin\<close>
  pairs with the old \<open>step_end\<close>.  After an invalidated plan the rerun of the drifted step is then never noticed
  as unfinished, although its outcome belongs to the old input.\<close>

definition drifted_rerun :: ckpt_file where
  "drifted_rerun = append_begin ''s0'' \<lparr>sb_index = 0, sb_input_hash = ''new'', sb_tools_planned = [], sb_ts = 9\<rparr>
     (append_end ''s0'' \<lparr>se_index = 0, se_output_hash = Some ''o'', se_tools_called = [], se_exit_state = Some ''continue'', se_ts = 5\<rparr>
       (append_begin ''s0'' \<lparr>sb_index = 0, sb_input_hash = ''old'', sb_tools_planned = [], sb_ts = 1\<rparr> None))"

lemma rerun_pairs_with_old_end:
  "\<exists>rs. load_checkpoint drifted_rerun = Inr rs \<and>
     next_step_index (plan_resume rs (\<lambda>i. if i = 0 then Some ''new'' else None)) = 1"
  by (simp add: drifted_rerun_def load_checkpoint_def append_begin_def append_end_def append_event_def slot_record_def plan_resume_def
        plan_loop_reuse reusable_def step_committed_def final_step_def)

text \<open>A crashed step that is rerun under a fresh id leaves its old \<open>step_begin\<close> behind, and every later plan
  resumes there although the step has committed.\<close>

definition fresh_id_retry :: ckpt_file where
  "fresh_id_retry = append_end ''b'' \<lparr>se_index = 0, se_output_hash = Some ''o'', se_tools_called = [], se_exit_state = Some ''continue'', se_ts = 5\<rparr>
     (append_begin ''b'' \<lparr>sb_index = 0, sb_input_hash = ''h'', sb_tools_planned = [], sb_ts = 4\<rparr>
       (append_begin ''a'' \<lparr>sb_index = 0, sb_input_hash = ''h'', sb_tools_planned = [], sb_ts = 1\<rparr> None))"

lemma fresh_id_retry_never_resumes:
  "\<exists>rs. load_checkpoint fresh_id_retry = Inr rs \<and> next_step_index (plan_resume rs (\<lambda>i. Some ''h'')) = 0 \<and>
     committed_steps (plan_resume rs (\<lambda>i. Some ''h'')) = []"
  by (simp add: fresh_id_retry_def load_checkpoint_def append_begin_def append_end_def append_event_def slot_record_def plan_resume_def
        plan_loop_blocked reusable_def step_committed_def)

end
