(* ===== verification/Once_Per_Key.thy ===== *)
theory Once_Per_Key
  imports Prelude
begin

text \<open>
  The contract of a wrapper that runs a call at most once per key, shared by the idempotency
  store, the idempotency cache and the dedup table.  A call carries a key and a start time;
  \<open>executed\<close> tells from its outcome whether the tool ran, \<open>answer\<close> what the caller was
  given.  \<open>guarded s k t\<close> says that the state answers the key at time \<open>t\<close> without running the
  tool, \<open>kept s k\<close> is the answer it holds; \<open>window c t\<close> says that an execution of \<open>c\<close> must
  still be remembered at \<open>t\<close>; \<open>inv\<close> is the state's invariant and \<open>room\<close> the condition under which nothing is forgotten early.
\<close>

text \<open>A list of calls one after the other: their outcomes and the state left.\<close>

fun call_session :: "('c \<Rightarrow> 's \<Rightarrow> 'o \<times> 's) \<Rightarrow> 'c list \<Rightarrow> 's \<Rightarrow> 'o list \<times> 's" where
  "call_session call [] s = ([], s)"
| "call_session call (c # cs) s =
     (fst (call c s) # fst (call_session call cs (snd (call c s))), snd (call_session call cs (snd (call c s))))"

fun room_along :: "('c \<Rightarrow> 's \<Rightarrow> 'o \<times> 's) \<Rightarrow> ('s \<Rightarrow> bool) \<Rightarrow> 'c list \<Rightarrow> 's \<Rightarrow> bool" where
  "room_along call room [] s = True"
| "room_along call room (c # cs) s = (room s \<and> room_along call room cs (snd (call c s)))"

lemma length_call_session [simp]: "length (fst (call_session call cs s)) = length cs"
  by (induction cs arbitrary: s) auto

lemma room_along_trivial [simp]: "room_along call (\<lambda>s. True) cs s"
  by (induction cs arbitrary: s) auto

lemma call_session_nth:
  "j < length cs \<Longrightarrow> fst (call_session call cs s) ! j = fst (call (cs ! j) (snd (call_session call (take j cs) s)))"
proof (induction cs arbitrary: j s)
  case (Cons c cs)
  then show ?case by (cases j) auto
qed simp

lemma call_session_append:
  "snd (call_session call (cs @ ds) s) = snd (call_session call ds (snd (call_session call cs s)))"
  by (induction cs arbitrary: s) auto

text \<open>The same calls with their outcomes paired with something known of the call.\<close>

definition tagged :: "('c \<Rightarrow> 'a) \<Rightarrow> ('c \<Rightarrow> 's \<Rightarrow> 'o \<times> 's) \<Rightarrow> 'c \<Rightarrow> 's \<Rightarrow> ('a \<times> 'o) \<times> 's" where
  "tagged f call c s = ((f c, fst (call c s)), snd (call c s))"

lemma tagged_simps [simp]: "fst (tagged f call c s) = (f c, fst (call c s))" "snd (tagged f call c s) = snd (call c s)"
  by (simp_all add: tagged_def)

lemma call_session_tagged:
  "fst (call_session (tagged f call) cs s) = zip (map f cs) (fst (call_session call cs s))"
  by (induction cs arbitrary: s) auto

locale once_per_key =
  fixes call :: "'c \<Rightarrow> 's \<Rightarrow> 'o \<times> 's"
    and key :: "'c \<Rightarrow> 'k"
    and start :: "'c \<Rightarrow> 'n::linorder"
    and window :: "'c \<Rightarrow> 'n \<Rightarrow> bool"
    and executed :: "'o \<Rightarrow> bool"
    and answer :: "'o \<Rightarrow> 'r option"
    and inv :: "'s \<Rightarrow> bool"
    and room :: "'s \<Rightarrow> bool"
    and guarded :: "'s \<Rightarrow> 'k \<Rightarrow> 'n \<Rightarrow> bool"
    and kept :: "'s \<Rightarrow> 'k \<Rightarrow> 'r option"
  assumes inv_call: "inv s \<Longrightarrow> inv (snd (call c s))"
    and guard_skips: "inv s \<Longrightarrow> room s \<Longrightarrow> guarded s (key c) (start c) \<Longrightarrow> \<not> executed (fst (call c s))"
    and executed_guards: "inv s \<Longrightarrow> executed (fst (call c s)) \<Longrightarrow> start c \<le> t \<Longrightarrow> window c t \<Longrightarrow> guarded (snd (call c s)) (key c) t"
    and guard_stays: "inv s \<Longrightarrow> room s \<Longrightarrow> guarded s k t \<Longrightarrow> start c \<le> t \<Longrightarrow> guarded (snd (call c s)) k t"
    and executed_keeps: "inv s \<Longrightarrow> executed (fst (call c s)) \<Longrightarrow> kept (snd (call c s)) (key c) = answer (fst (call c s))"
    and replay_keeps: "inv s \<Longrightarrow> \<not> executed (fst (call c s)) \<Longrightarrow> answer (fst (call c s)) = Some r \<Longrightarrow> kept s (key c) = Some r"
    and kept_origin: "inv s \<Longrightarrow> kept (snd (call c s)) k = Some r \<Longrightarrow> kept s k = Some r \<or> k = key c \<and> executed (fst (call c s))"
begin

lemma call_session_guarded:
  assumes "inv s" "room_along call room cs s" "guarded s k t" "\<forall>c\<in>set cs. start c \<le> t"
  shows "guarded (snd (call_session call cs s)) k t"
  using assms by (induction cs arbitrary: s) (auto intro: guard_stays inv_call)

lemma guarded_not_executed:
  assumes "inv s" "room_along call room cs s" "j < length cs" "guarded s (key (cs ! j)) (start (cs ! j))" "sorted (map start cs)"
  shows "\<not> executed (fst (call_session call cs s) ! j)"
  using assms
proof (induction cs arbitrary: s j)
  case (Cons c cs)
  show ?case
  proof (cases j)
    case 0
    then show ?thesis using Cons.prems guard_skips by simp
  next
    case (Suc i)
    then have "start c \<le> start (cs ! i)" using Cons.prems by (auto simp: nth_mem)
    then show ?thesis using Suc Cons.prems Cons.IH [of "snd (call c s)" i] guard_stays inv_call by auto
  qed
qed simp

text \<open>Two executions of one key: the second starts outside the window of the first.\<close>

lemma once:
  assumes "inv s" "room_along call room cs s" "sorted (map start cs)" "i < j" "j < length cs" "key (cs ! i) = key (cs ! j)"
    "executed (fst (call_session call cs s) ! i)" "executed (fst (call_session call cs s) ! j)"
  shows "\<not> window (cs ! i) (start (cs ! j))"
  using assms
proof (induction cs arbitrary: s i j)
  case (Cons c cs)
  obtain j' where j: "j = Suc j'" using Cons.prems(4) by (cases j) auto
  show ?case
  proof (cases i)
    case 0
    show ?thesis
    proof
      assume w: "window ((c # cs) ! i) (start ((c # cs) ! j))"
      have "start c \<le> start (cs ! j')" using Cons.prems j by (auto simp: nth_mem)
      then have "guarded (snd (call c s)) (key (cs ! j')) (start (cs ! j'))"
        using Cons.prems 0 j w executed_guards [of s c] by simp
      then have "\<not> executed (fst (call_session call cs (snd (call c s))) ! j')"
        using Cons.prems j by (intro guarded_not_executed) (auto intro: inv_call)
      then show False using Cons.prems(8) j by simp
    qed
  next
    case (Suc i')
    then show ?thesis using Cons.prems j Cons.IH [of "snd (call c s)" i' j'] inv_call by simp
  qed
qed simp

text \<open>What a call that did not run the tool answers is what an earlier execution of its key answered.\<close>

lemma replay_origin:
  assumes "inv s" "j < length cs" "\<not> executed (fst (call_session call cs s) ! j)" "answer (fst (call_session call cs s) ! j) = Some r"
  shows "kept s (key (cs ! j)) = Some r \<or>
    (\<exists>i<j. key (cs ! i) = key (cs ! j) \<and> executed (fst (call_session call cs s) ! i) \<and> answer (fst (call_session call cs s) ! i) = Some r)"
  using assms
proof (induction cs arbitrary: s j)
  case (Cons c cs)
  show ?case
  proof (cases j)
    case 0
    then show ?thesis using Cons.prems replay_keeps [of s c r] by simp
  next
    case (Suc j')
    from Cons.IH [of "snd (call c s)" j'] Cons.prems inv_call Suc
    have "kept (snd (call c s)) (key (cs ! j')) = Some r \<or>
      (\<exists>i<j'. key (cs ! i) = key (cs ! j') \<and> executed (fst (call_session call cs (snd (call c s))) ! i) \<and>
        answer (fst (call_session call cs (snd (call c s))) ! i) = Some r)" by simp
    then show ?thesis
    proof
      assume k: "kept (snd (call c s)) (key (cs ! j')) = Some r"
      show ?thesis
      proof (cases "key c = key (cs ! j') \<and> executed (fst (call c s))")
        case True
        then have "answer (fst (call c s)) = Some r" using k executed_keeps [of s c] Cons.prems(1) by simp
        then show ?thesis using True Suc by (intro disjI2 exI [of _ 0]) simp
      next
        case False
        then show ?thesis using kept_origin [OF Cons.prems(1) k] Suc by auto
      qed
    next
      assume "\<exists>i<j'. key (cs ! i) = key (cs ! j') \<and> executed (fst (call_session call cs (snd (call c s))) ! i) \<and>
        answer (fst (call_session call cs (snd (call c s))) ! i) = Some r"
      then obtain i where "i < j'" "key (cs ! i) = key (cs ! j')" "executed (fst (call_session call cs (snd (call c s))) ! i)"
        "answer (fst (call_session call cs (snd (call c s))) ! i) = Some r" by blast
      then show ?thesis using Suc by (intro disjI2 exI [of _ "Suc i"]) simp
    qed
  qed
qed simp

end

end
