(* ===== verification/Idempotency_Store.thy ===== *)
theory Idempotency_Store
  imports Once_Per_Key
begin

text \<open>
  The reference store of the idempotency-key protocol
  (\<open>idempotency-key-protocol/bin/idempotency_store.py\<close>).  The state file is the map from keys
  to entries that \<open>_load\<close> reads and \<open>_save\<close> replaces (JSON responses read back as written; the
  order of the keys is never looked at).  The tool acts on a world and may raise, and writing the
  file after it may fail, as the call says; the request hash is a parameter.
\<close>

section \<open>Entries and calls\<close>

record ('h, 'r) idem_entry =
  ie_request_hash :: 'h
  ie_response :: 'r
  ie_stored_at :: rat
  ie_ttl_seconds :: int

definition ie_live :: "('h, 'r) idem_entry \<Rightarrow> rat \<Rightarrow> bool" where
  "ie_live e now \<longleftrightarrow> now - ie_stored_at e < of_int (ie_ttl_seconds e)"

datatype idem_status = IdFresh | IdReplayed

record 'r idem_envelope =
  env_key :: string
  env_status :: idem_status
  env_response :: 'r
  env_stored_at :: rat

datatype ('e, 'h) idem_error = BadIdempotencyKey | IdempotencyConflict 'h 'h rat | ExecuteRaised 'e | SaveFailed

record 'q idem_call =
  ic_key :: string
  ic_request :: 'q
  ic_ttl :: int
  ic_now :: rat
  ic_save :: bool

type_synonym ('h, 'r) idem_file = "string \<rightharpoonup> ('h, 'r) idem_entry"

definition idem_call_store ::
  "('q \<Rightarrow> 'h) \<Rightarrow> ('q \<Rightarrow> 'w \<Rightarrow> ('e + 'r) \<times> 'w) \<Rightarrow> 'q idem_call \<Rightarrow> ('h, 'r) idem_file \<times> 'w \<Rightarrow>
   (('e, 'h) idem_error + 'r idem_envelope) \<times> ('h, 'r) idem_file \<times> 'w" where
  "idem_call_store request_hash execute c s =
     (let (file, w) = s; key = ic_key c; now = ic_now c in
      if key = [] \<or> \<not> (1 \<le> length key \<and> length key \<le> 128) then (Inl BadIdempotencyKey, s)
      else
        (let rhash = request_hash (ic_request c);
             fresh = (case execute (ic_request c) w of
                 (Inl e, w') \<Rightarrow> (Inl (ExecuteRaised e), (file, w'))
               | (Inr r, w') \<Rightarrow>
                   if \<not> ic_save c then (Inl SaveFailed, (file, w'))
                   else
                     (Inr \<lparr>env_key = key, env_status = IdFresh, env_response = r, env_stored_at = now\<rparr>,
                      (file(key \<mapsto> \<lparr>ie_request_hash = rhash, ie_response = r, ie_stored_at = now, ie_ttl_seconds = ic_ttl c\<rparr>), w'))) in
         case file key of
           None \<Rightarrow> fresh
         | Some e \<Rightarrow>
             if ie_live e now then
               if ie_request_hash e = rhash then
                 (Inr \<lparr>env_key = key, env_status = IdReplayed, env_response = ie_response e, env_stored_at = ie_stored_at e\<rparr>, s)
               else (Inl (IdempotencyConflict (ie_request_hash e) rhash (ie_stored_at e)), s)
             else fresh))"

text \<open>\<open>ic_save\<close>: \<open>_save\<close> succeeds.  When it raises (a response that is no JSON value, a full disk), the tool has run and the file
  is as before, as it is replaced in one step at the end.\<close>

text \<open>The envelope check; a field the check cannot use is a value of another type.\<close>

datatype envelope_problem = MissingEnvelopeFields "string list" | BadEnvelopeKey | BadEnvelopeTtl

definition validate_envelope :: "(string, pyval) dict \<Rightarrow> envelope_problem option" where
  "validate_envelope env =
     (let missing = filter (\<lambda>k. dict_get env k = None) [''idempotency_key'', ''issued_at'', ''request'', ''ttl_seconds''] in
      if missing \<noteq> [] then Some (MissingEnvelopeFields missing)
      else if (case py_as_str (py_get (PDict env) ''idempotency_key'') of None \<Rightarrow> True | Some k \<Rightarrow> \<not> (1 \<le> length k \<and> length k \<le> 128))
        then Some BadEnvelopeKey
      else if (case py_as_int (py_get (PDict env) ''ttl_seconds'') of None \<Rightarrow> True | Some i \<Rightarrow> i \<le> 0) then Some BadEnvelopeTtl
      else None)"

section \<open>At most once\<close>

definition idem_executed :: "'h \<times> (('e, 'h) idem_error + 'r idem_envelope) \<Rightarrow> bool" where
  "idem_executed r = (case snd r of Inl _ \<Rightarrow> False | Inr v \<Rightarrow> env_status v = IdFresh)"

definition idem_answer :: "'h \<times> (('e, 'h) idem_error + 'r idem_envelope) \<Rightarrow> ('h \<times> 'r \<times> rat) option" where
  "idem_answer r = (case snd r of Inl _ \<Rightarrow> None | Inr v \<Rightarrow> Some (fst r, env_response v, env_stored_at v))"

definition idem_window :: "'q idem_call \<Rightarrow> rat \<Rightarrow> bool" where
  "idem_window c t \<longleftrightarrow> t - ic_now c < of_int (ic_ttl c)"

definition idem_guarded :: "('h, 'r) idem_file \<times> 'w \<Rightarrow> string \<Rightarrow> rat \<Rightarrow> bool" where
  "idem_guarded s k t = (case fst s k of None \<Rightarrow> False | Some e \<Rightarrow> ie_live e t)"

definition idem_kept :: "('h, 'r) idem_file \<times> 'w \<Rightarrow> string \<Rightarrow> ('h \<times> 'r \<times> rat) option" where
  "idem_kept s k = map_option (\<lambda>e. (ie_request_hash e, ie_response e, ie_stored_at e)) (fst s k)"

definition idem_step ::
  "('q \<Rightarrow> 'h) \<Rightarrow> ('q \<Rightarrow> 'w \<Rightarrow> ('e + 'r) \<times> 'w) \<Rightarrow> 'q idem_call \<Rightarrow> ('h, 'r) idem_file \<times> 'w \<Rightarrow>
   ('h \<times> (('e, 'h) idem_error + 'r idem_envelope)) \<times> ('h, 'r) idem_file \<times> 'w" where
  "idem_step H ex = tagged (\<lambda>c. H (ic_request c)) (idem_call_store H ex)"

lemma ie_live_mono: "ie_live e t \<Longrightarrow> t' \<le> t \<Longrightarrow> ie_live e t'"
  by (simp add: ie_live_def)

lemmas idem_defs = idem_executed_def idem_answer_def idem_window_def idem_guarded_def idem_kept_def

text \<open>Every call either leaves the file, or has executed the tool and stored the entry of its key.\<close>

lemma idem_call_cases:
  obtains (kept) "fst (snd (idem_step H ex c s)) = fst s" "\<not> idem_executed (fst (idem_step H ex c s))"
      "\<And>a. idem_answer (fst (idem_step H ex c s)) = Some a \<Longrightarrow> idem_kept s (ic_key c) = Some a"
    | (ran) r where "\<not> idem_guarded s (ic_key c) (ic_now c)" "idem_executed (fst (idem_step H ex c s))"
      "idem_answer (fst (idem_step H ex c s)) = Some (H (ic_request c), r, ic_now c)"
      "fst (snd (idem_step H ex c s)) = (fst s)(ic_key c \<mapsto>
         \<lparr>ie_request_hash = H (ic_request c), ie_response = r, ie_stored_at = ic_now c, ie_ttl_seconds = ic_ttl c\<rparr>)"
proof -
  obtain m w where s: "s = (m, w)" by (cases s)
  let ?ok = "ic_key c \<noteq> [] \<and> length (ic_key c) \<le> 128"
  note unf = s idem_step_def idem_call_store_def Let_def
  consider (bad) "\<not> ?ok" | (live) e where ?ok "m (ic_key c) = Some e" "ie_live e (ic_now c)"
    | (free) ?ok "\<not> idem_guarded s (ic_key c) (ic_now c)"
    unfolding s idem_guarded_def by (cases "m (ic_key c)") auto
  then show ?thesis
  proof cases
    case bad
    then have "idem_call_store H ex c s = (Inl BadIdempotencyKey, s)" by (auto simp: idem_call_store_def Let_def s)
    then show ?thesis by (intro that(1)) (simp_all add: idem_step_def idem_defs)
  next
    case live
    then show ?thesis
      by (intro that(1)) (auto simp: unf idem_defs Suc_le_eq split: if_splits)
  next
    case free
    have call: "idem_call_store H ex c s = (case ex (ic_request c) w of
        (Inl e, w') \<Rightarrow> (Inl (ExecuteRaised e), (m, w'))
      | (Inr r, w') \<Rightarrow> if \<not> ic_save c then (Inl SaveFailed, (m, w')) else
          (Inr \<lparr>env_key = ic_key c, env_status = IdFresh, env_response = r, env_stored_at = ic_now c\<rparr>,
          (m(ic_key c \<mapsto> \<lparr>ie_request_hash = H (ic_request c), ie_response = r, ie_stored_at = ic_now c, ie_ttl_seconds = ic_ttl c\<rparr>), w')))"
      using free unfolding s idem_guarded_def by (cases "m (ic_key c)") (auto simp: idem_call_store_def Let_def Suc_le_eq)
    obtain o' w' where x: "ex (ic_request c) w = (o', w')" by (cases "ex (ic_request c) w")
    consider (raised) e where "o' = Inl e" | (unsaved) r where "o' = Inr r" "\<not> ic_save c" | (saved) r where "o' = Inr r" "ic_save c"
      by (cases o') auto
    then show ?thesis
    proof cases
      case raised
      then show ?thesis using x call by (intro that(1)) (simp_all add: idem_step_def idem_defs s)
    next
      case unsaved
      then show ?thesis using x call by (intro that(1)) (simp_all add: idem_step_def idem_defs s)
    next
      case saved
      then show ?thesis using x call free(2) by (intro that(2) [of r]) (simp_all add: idem_step_def idem_defs s)
    qed
  qed
qed

interpretation idem: once_per_key "idem_step H ex" ic_key ic_now idem_window idem_executed idem_answer "\<lambda>s. True" "\<lambda>s. True" idem_guarded idem_kept
  for H :: "'q \<Rightarrow> 'h" and ex :: "'q \<Rightarrow> 'w \<Rightarrow> ('e + 'r) \<times> 'w"
proof
  fix c :: "'q idem_call" and s :: "('h, 'r) idem_file \<times> 'w" and k t a
  show "\<not> idem_executed (fst (idem_step H ex c s))" if "idem_guarded s (ic_key c) (ic_now c)"
    using that by (cases rule: idem_call_cases [of H ex c s]) auto
  show "idem_guarded (snd (idem_step H ex c s)) (ic_key c) t"
    if "idem_executed (fst (idem_step H ex c s))" "ic_now c \<le> t" "idem_window c t"
    using that by (cases rule: idem_call_cases [of H ex c s]) (auto simp: idem_guarded_def idem_window_def ie_live_def)
  show "idem_guarded (snd (idem_step H ex c s)) k t" if g: "idem_guarded s k t" "ic_now c \<le> t"
  proof (cases rule: idem_call_cases [of H ex c s])
    case kept
    then show ?thesis using g by (simp add: idem_guarded_def)
  next
    case (ran r)
    then have "k \<noteq> ic_key c" using g(1) by (auto simp: idem_guarded_def dest: ie_live_mono [OF _ g(2)] split: option.splits)
    then show ?thesis using ran g by (simp add: idem_guarded_def)
  qed
  show "idem_kept (snd (idem_step H ex c s)) (ic_key c) = idem_answer (fst (idem_step H ex c s))"
    if "idem_executed (fst (idem_step H ex c s))"
    using that by (cases rule: idem_call_cases [of H ex c s]) (auto simp: idem_kept_def)
  show "idem_kept s (ic_key c) = Some a"
    if "\<not> idem_executed (fst (idem_step H ex c s))" "idem_answer (fst (idem_step H ex c s)) = Some a"
    using that by (cases rule: idem_call_cases [of H ex c s]) auto
  show "idem_kept s k = Some a \<or> k = ic_key c \<and> idem_executed (fst (idem_step H ex c s))"
    if "idem_kept (snd (idem_step H ex c s)) k = Some a"
    using that by (cases rule: idem_call_cases [of H ex c s]) (auto simp: idem_kept_def split: if_splits)
qed

section \<open>Properties\<close>

lemma idem_session_nth:
  assumes "i < length cs"
  shows "fst (call_session (idem_step H ex) cs s) ! i = (H (ic_request (cs ! i)), fst (call_session (idem_call_store H ex) cs s) ! i)"
  using assms by (simp add: idem_step_def call_session_tagged)

lemma idem_call_key: "fst (idem_call_store H ex c s) = Inr u \<Longrightarrow> env_key u = ic_key c"
  by (auto simp: idem_call_store_def Let_def split: if_splits option.splits prod.splits sum.splits)

lemma idem_session_key:
  "n < length cs \<Longrightarrow> fst (call_session (idem_call_store H ex) cs s) ! n = Inr u \<Longrightarrow> env_key u = ic_key (cs ! n)"
proof (induction cs arbitrary: n s)
  case (Cons c cs)
  then show ?case using idem_call_key [of H ex c s u] by (cases n) auto
qed simp

text \<open>The tool ran: whether it returned or raised, and whether its response could be saved.\<close>

definition idem_ran :: "('e, 'h) idem_error + 'r idem_envelope \<Rightarrow> bool" where
  "idem_ran r = (case r of Inl (ExecuteRaised e) \<Rightarrow> True | Inl SaveFailed \<Rightarrow> True | Inl _ \<Rightarrow> False | Inr v \<Rightarrow> env_status v = IdFresh)"

definition idem_stored :: "('e, 'h) idem_error + 'r idem_envelope \<Rightarrow> bool" where
  "idem_stored r = (case r of Inl _ \<Rightarrow> False | Inr v \<Rightarrow> env_status v = IdFresh)"

lemma idem_executed_stored: "idem_executed (h, r) = idem_stored r"
  by (simp add: idem_executed_def idem_stored_def)

lemma idem_call_outcome:
  obtains (bad) "ic_key c = [] \<or> length (ic_key c) > 128" "fst (idem_call_store H ex c s) = Inl BadIdempotencyKey"
    | (hit) e where "\<not> (ic_key c = [] \<or> length (ic_key c) > 128)" "fst s (ic_key c) = Some e" "ie_live e (ic_now c)"
      "fst (idem_call_store H ex c s) = (if ie_request_hash e = H (ic_request c)
        then Inr \<lparr>env_key = ic_key c, env_status = IdReplayed, env_response = ie_response e, env_stored_at = ie_stored_at e\<rparr>
        else Inl (IdempotencyConflict (ie_request_hash e) (H (ic_request c)) (ie_stored_at e)))"
    | (run) "\<not> (ic_key c = [] \<or> length (ic_key c) > 128)" "\<not> idem_guarded s (ic_key c) (ic_now c)" "idem_ran (fst (idem_call_store H ex c s))"
proof -
  obtain m w where s: "s = (m, w)" by (cases s)
  consider "ic_key c = [] \<or> length (ic_key c) > 128" | (found) e where "\<not> (ic_key c = [] \<or> length (ic_key c) > 128)" "m (ic_key c) = Some e" "ie_live e (ic_now c)"
    | "\<not> (ic_key c = [] \<or> length (ic_key c) > 128)" "\<not> idem_guarded s (ic_key c) (ic_now c)"
    unfolding s idem_guarded_def by (cases "m (ic_key c)") auto
  then show ?thesis
  proof cases
    case 1
    then show ?thesis by (intro that(1)) (auto simp: idem_call_store_def Let_def s)
  next
    case found
    then show ?thesis by (intro that(2) [of e]) (auto simp: idem_call_store_def Let_def s Suc_le_eq)
  next
    case 3
    then show ?thesis unfolding s
      by (intro that(3) [unfolded s]) (auto simp: idem_guarded_def idem_call_store_def Let_def Suc_le_eq idem_ran_def split: option.splits sum.splits prod.splits)
  qed
qed

lemma idem_step_state: "snd (idem_step H ex c s) = snd (idem_call_store H ex c s)"
  by (simp add: idem_step_def)

lemma idem_session_state: "snd (call_session (idem_step H ex) cs s) = snd (call_session (idem_call_store H ex) cs s)"
  by (induction cs arbitrary: s) (simp_all add: idem_step_state)

text \<open>An entry of the file is that of an earlier stored run.\<close>

lemma idem_entry_origin:
  assumes none: "fst s = Map.empty" and rs: "rs = fst (call_session (idem_call_store H ex) cs s)"
  shows "n \<le> length cs \<Longrightarrow> fst (snd (call_session (idem_call_store H ex) (take n cs) s)) k = Some e \<Longrightarrow>
    \<exists>i<n. ic_key (cs ! i) = k \<and> rs ! i = Inr \<lparr>env_key = k, env_status = IdFresh, env_response = ie_response e, env_stored_at = ie_stored_at e\<rparr> \<and>
      ie_request_hash e = H (ic_request (cs ! i)) \<and> ie_stored_at e = ic_now (cs ! i) \<and> ie_ttl_seconds e = ic_ttl (cs ! i)"
proof (induction n)
  case 0
  then show ?case using none by simp
next
  case (Suc n)
  let ?call = "idem_call_store H ex" and ?c = "cs ! n"
  let ?s = "snd (call_session ?call (take n cs) s)"
  have n: "n < length cs" using Suc.prems(1) by simp
  have st: "snd (call_session ?call (take (Suc n) cs) s) = snd (?call ?c ?s)"
    using n by (simp add: take_Suc_conv_app_nth call_session_append)
  have r: "rs ! n = fst (?call ?c ?s)" using call_session_nth [OF n, of ?call s] rs by simp
  have old: ?case if "fst ?s k = Some e" using Suc.IH [OF less_imp_le [OF n] that] less_SucI by blast
  show ?case
  proof (cases rule: idem_call_cases [of H ex ?c ?s, case_names kept ran])
    case kept
    then show ?thesis using Suc.prems(2) by (intro old) (simp add: st idem_step_state)
  next
    case (ran x)
    have e: "((fst ?s)(ic_key ?c \<mapsto> \<lparr>ie_request_hash = H (ic_request ?c), ie_response = x, ie_stored_at = ic_now ?c, ie_ttl_seconds = ic_ttl ?c\<rparr>)) k = Some e"
      using Suc.prems(2) ran(4) by (simp add: st idem_step_state)
    show ?thesis
    proof (cases "k = ic_key ?c")
      case True
      obtain v where v: "rs ! n = Inr v" "env_status v = IdFresh" "env_response v = x" "env_stored_at v = ic_now ?c"
        using ran(2,3) by (auto simp: r idem_step_def idem_executed_def idem_answer_def split: sum.splits)
      have "env_key v = k" using idem_call_key [of H ex ?c ?s v] v(1) r True by simp
      then have "rs ! n = Inr \<lparr>env_key = k, env_status = IdFresh, env_response = x, env_stored_at = ic_now ?c\<rparr>" using v by simp
      then show ?thesis using True e by auto
    next
      case False
      then show ?thesis using e by (intro old) simp
    qed
  qed
qed

text \<open>A stored run guards its key for its time to live.\<close>

lemma idem_run_guards:
  fixes H :: "'q \<Rightarrow> 'h" and ex :: "'q \<Rightarrow> 'w \<Rightarrow> ('e + 'r) \<times> 'w"
  assumes "sorted (map ic_now cs)" "rs = fst (call_session (idem_call_store H ex) cs s)" "i < j" "j < length cs" "ic_key (cs ! i) = ic_key (cs ! j)"
    "idem_stored (rs ! i)" "ic_now (cs ! j) - ic_now (cs ! i) < of_int (ic_ttl (cs ! i))"
  shows "idem_guarded (snd (call_session (idem_call_store H ex) (take j cs) s)) (ic_key (cs ! j)) (ic_now (cs ! j))"
proof -
  let ?step = "idem_step H ex" and ?t = "ic_now (cs ! j)"
  let ?S = "\<lambda>n. snd (call_session ?step (take n cs) s)"
  have i: "i < length cs" using assms(3,4) by simp
  have le: "ic_now (cs ! n) \<le> ?t" if "n < j" for n using sorted_nth_mono [OF assms(1), of n j] that assms(4) by simp
  have "idem_executed (fst (?step (cs ! i) (?S i)))"
    unfolding call_session_nth [OF i, symmetric] idem_session_nth [OF i] idem_executed_stored using assms(2,6) by simp
  then have g: "idem_guarded (?S (Suc i)) (ic_key (cs ! j)) ?t"
    using idem.executed_guards [where s = "?S i" and H = H and ex = ex and c = "cs ! i" and t = ?t] le [OF assms(3)] assms(5,7) i
    by (simp add: take_Suc_conv_app_nth call_session_append idem_window_def)
  have "take j cs = take (Suc i) cs @ drop (Suc i) (take j cs)" using assms(3,4) by (metis Suc_leI append_take_drop_id min.absorb1 take_take)
  then have Sj: "?S j = snd (call_session ?step (drop (Suc i) (take j cs)) (?S (Suc i)))" by (metis call_session_append)
  have "ic_now c \<le> ?t" if "c \<in> set (drop (Suc i) (take j cs))" for c
    using in_set_dropD [OF that] le by (auto simp: in_set_conv_nth)
  then show ?thesis using idem.call_session_guarded [where s = "?S (Suc i)" and H = H and ex = ex and cs = "drop (Suc i) (take j cs)" and k = "ic_key (cs ! j)" and t = ?t] g
    unfolding idem_session_state [symmetric] Sj by simp
qed

text \<open>C21. What every call of a session on a store that starts empty gets, with a clock that does not go back, whatever the
  tool does and whether saving its response succeeds or not.  A run is live for a later call of its key when its response was
  stored and the call comes within its time to live.  A call with a bad key is refused.  Any other runs the tool exactly
  when its key has no live run: also right after a run that raised, or whose response could not be saved, as these
  leave no entry.  When there is a live run, the call gets its envelope, marked as replayed, if the request has the same
  hash, and a conflict with both hashes and the time of the run if not.\<close>

theorem idem_store_at_most_once:
  fixes H :: "'q \<Rightarrow> 'h" and ex :: "'q \<Rightarrow> 'w \<Rightarrow> ('e + 'r) \<times> 'w"
  assumes srt: "sorted (map ic_now cs)" and rs: "rs = fst (call_session (idem_call_store H ex) cs (Map.empty, w))"
    and live: "live = (\<lambda>i j. i < j \<and> ic_key (cs ! i) = ic_key (cs ! j) \<and> idem_stored (rs ! i) \<and>
      ic_now (cs ! j) - ic_now (cs ! i) < of_int (ic_ttl (cs ! i)))"
    and j: "j < length cs"
  shows "if ic_key (cs ! j) = [] \<or> length (ic_key (cs ! j)) > 128 then rs ! j = Inl BadIdempotencyKey
    else (idem_ran (rs ! j) \<longleftrightarrow> \<not> (\<exists>i. live i j)) \<and>
      (\<forall>i. live i j \<longrightarrow> rs ! j = (if H (ic_request (cs ! i)) = H (ic_request (cs ! j)) then Inr ((projr (rs ! i))\<lparr>env_status := IdReplayed\<rparr>)
        else Inl (IdempotencyConflict (H (ic_request (cs ! i))) (H (ic_request (cs ! j))) (ic_now (cs ! i)))))"
proof -
  let ?s = "(Map.empty :: ('h, 'r) idem_file, w)" and ?call = "idem_call_store H ex"
  let ?t = "snd (call_session ?call (take j cs) ?s)"
  have nth: "fst (call_session (idem_step H ex) cs ?s) ! n = (H (ic_request (cs ! n)), rs ! n)" if "n < length cs" for n
    using that rs by (simp add: idem_session_nth)
  have apart: "ic_now (cs ! n) - ic_now (cs ! i) \<ge> of_int (ic_ttl (cs ! i))"
    if "i < n" "n < length cs" "ic_key (cs ! i) = ic_key (cs ! n)" "idem_stored (rs ! i)" "idem_stored (rs ! n)" for i n
    using idem.once [where H = H and ex = ex and cs = cs and s = ?s and i = i and j = n] srt that
    by (simp add: nth idem_executed_stored idem_window_def)
  have late: False if "i < i'" "live i j" "live i' j" for i i'
    using apart [of i i'] that j sorted_nth_mono [OF srt, of i' j] by (auto simp: live)
  have same: "i = i'" if "live i j" "live i' j" for i i' using late [of i i'] late [of i' i] that by (meson linorder_neqE_nat)
  have r: "rs ! j = fst (?call (cs ! j) ?t)" using call_session_nth [OF j, of ?call ?s] rs by simp
  have guards: "idem_guarded ?t (ic_key (cs ! j)) (ic_now (cs ! j))" if "live i j" for i
    using idem_run_guards [OF srt rs, of i j] that j by (simp add: live)
  show ?thesis
  proof (cases rule: idem_call_outcome [of "cs ! j" H ex ?t, case_names bad hit run])
    case (hit e)
    obtain i where i: "i < j" "ic_key (cs ! i) = ic_key (cs ! j)"
      "rs ! i = Inr \<lparr>env_key = ic_key (cs ! j), env_status = IdFresh, env_response = ie_response e, env_stored_at = ie_stored_at e\<rparr>"
      "ie_request_hash e = H (ic_request (cs ! i))" "ie_stored_at e = ic_now (cs ! i)" "ie_ttl_seconds e = ic_ttl (cs ! i)"
      using idem_entry_origin [OF _ rs _ hit(2)] j by auto
    then have lv: "live i j" using hit(3) by (simp add: live idem_stored_def ie_live_def)
    have eq: "rs ! j = (if H (ic_request (cs ! i)) = H (ic_request (cs ! j)) then Inr ((projr (rs ! i))\<lparr>env_status := IdReplayed\<rparr>)
        else Inl (IdempotencyConflict (H (ic_request (cs ! i))) (H (ic_request (cs ! j))) (ic_now (cs ! i))))"
      using hit(4) i by (simp add: r)
    show ?thesis unfolding if_not_P [OF hit(1)]
    proof (intro conjI allI impI)
      show "idem_ran (rs ! j) \<longleftrightarrow> \<not> (\<exists>i. live i j)" using lv by (auto simp: eq idem_ran_def)
      fix i' assume "live i' j"
      then have "i' = i" using same [OF _ lv] by blast
      then show "rs ! j = (if H (ic_request (cs ! i')) = H (ic_request (cs ! j)) then Inr ((projr (rs ! i'))\<lparr>env_status := IdReplayed\<rparr>)
        else Inl (IdempotencyConflict (H (ic_request (cs ! i'))) (H (ic_request (cs ! j))) (ic_now (cs ! i'))))" using eq by simp
    qed
  qed (use guards r in \<open>auto\<close>)
qed

text \<open>A retry inside the time to live is replayed, a later one runs again.\<close>

definition demo_idem_calls :: "nat idem_call list" where
  "demo_idem_calls =
     [\<lparr>ic_key = ''k'', ic_request = 7, ic_ttl = 10, ic_now = 0, ic_save = True\<rparr>, \<lparr>ic_key = ''k'', ic_request = 7, ic_ttl = 10, ic_now = 4, ic_save = True\<rparr>,
      \<lparr>ic_key = ''k'', ic_request = 7, ic_ttl = 10, ic_now = 12, ic_save = True\<rparr>]"

definition demo_execute :: "nat \<Rightarrow> nat \<Rightarrow> (unit + nat) \<times> nat" where
  "demo_execute q w = (Inr (q + w), w + 1)"

theorem idem_store_at_most_once_witness:
  "let rs = fst (call_session (idem_call_store (\<lambda>q. q) demo_execute) demo_idem_calls (Map.empty, 0)) in
   rs = [Inr \<lparr>env_key = ''k'', env_status = IdFresh, env_response = 7, env_stored_at = 0\<rparr>,
     Inr \<lparr>env_key = ''k'', env_status = IdReplayed, env_response = 7, env_stored_at = 0\<rparr>,
     Inr \<lparr>env_key = ''k'', env_status = IdFresh, env_response = 8, env_stored_at = 12\<rparr>] \<and>
   rs ! 1 = Inr ((projr (rs ! 0))\<lparr>env_status := IdReplayed\<rparr>)"
proof -
  let ?rs = "fst (call_session (idem_call_store (\<lambda>q. q) demo_execute) demo_idem_calls (Map.empty, 0))"
  have rs: "?rs = [Inr \<lparr>env_key = ''k'', env_status = IdFresh, env_response = 7, env_stored_at = 0\<rparr>,
     Inr \<lparr>env_key = ''k'', env_status = IdReplayed, env_response = 7, env_stored_at = 0\<rparr>,
     Inr \<lparr>env_key = ''k'', env_status = IdFresh, env_response = 8, env_stored_at = 12\<rparr>]"
    by (simp add: demo_idem_calls_def idem_call_store_def Let_def demo_execute_def ie_live_def)
  have "sorted (map ic_now demo_idem_calls)" by (simp add: demo_idem_calls_def)
  from idem_store_at_most_once [OF this refl refl, of 1 "\<lambda>q. q" demo_execute 0]
  have "?rs ! 1 = Inr ((projr (?rs ! 0))\<lparr>env_status := IdReplayed\<rparr>)"
    unfolding rs by (auto simp: demo_idem_calls_def idem_stored_def)
  then show ?thesis unfolding Let_def using rs by blast
qed

end
