(* ===== verification/Idempotency_Cache.thy ===== *)
theory Idempotency_Cache
  imports Once_Per_Key
begin

text \<open>
  The in-process idempotency cache (\<open>tool-call-idempotency-key/template.py\<close>): a bounded table of
  entries that are in flight or completed, and the wrapper that replays a completed call.  The
  tool acts on the cache and the world (it may call the wrapper again), and its exceptions are
  cached like its results.  The three clock readings of a call are its arguments.
\<close>

section \<open>The cache\<close>

record ('h, 'e, 'r) ik_entry =
  ik_args_hash :: 'h
  ik_started_at :: rat
  ik_completed_at :: "rat option"
  ik_outcome :: "('e + 'r) option"

definition ik_in_flight :: "('h, 'e, 'r) ik_entry \<Rightarrow> bool" where
  "ik_in_flight e \<longleftrightarrow> ik_completed_at e = None"

record ('h, 'e, 'r) ik_cache =
  ik_ttl :: rat
  ik_max :: int
  ik_entries :: "(string, ('h, 'e, 'r) ik_entry) dict"

datatype ik_config_error = TtlNotPositive | MaxEntriesNotPositive

definition new_ik_cache :: "rat \<Rightarrow> int \<Rightarrow> ik_config_error + ('h, 'e, 'r) ik_cache" where
  "new_ik_cache ttl m =
     (if ttl \<le> 0 then Inl TtlNotPositive
      else if m \<le> 0 then Inl MaxEntriesNotPositive
      else Inr \<lparr>ik_ttl = ttl, ik_max = m, ik_entries = []\<rparr>)"

definition ik_dead :: "rat \<Rightarrow> rat \<Rightarrow> ('h, 'e, 'r) ik_entry \<Rightarrow> bool" where
  "ik_dead ttl now e = (case ik_completed_at e of None \<Rightarrow> False | Some t \<Rightarrow> now - t > ttl)"

definition ik_gc :: "rat \<Rightarrow> ('h, 'e, 'r) ik_cache \<Rightarrow> ('h, 'e, 'r) ik_cache" where
  "ik_gc now c =
     (let d = filter (\<lambda>(k, e). \<not> ik_dead (ik_ttl c) now e) (ik_entries c) in
      if int (length d) > ik_max c then
        (let completed = sort_key (\<lambda>(k, e). the (ik_completed_at e)) (filter (\<lambda>(k, e). \<not> ik_in_flight e) d) in
         c\<lparr>ik_entries := fold (\<lambda>(k, e). dict_del k) (take (length d - nat (ik_max c)) completed) d\<rparr>)
      else c\<lparr>ik_entries := d\<rparr>)"

datatype ('e, 'r) ik_lookup = IkMiss | IkHit "'e + 'r" | IkInFlight

datatype ik_error = BadIkKey | IkConflict | IkStillInFlight

definition ik_get :: "string \<Rightarrow> 'h \<Rightarrow> rat \<Rightarrow> ('h, 'e, 'r) ik_cache \<Rightarrow> (ik_error + ('e, 'r) ik_lookup) \<times> ('h, 'e, 'r) ik_cache" where
  "ik_get key h now c =
     (let c = ik_gc now c in
      (case dict_get (ik_entries c) key of
         None \<Rightarrow> Inr IkMiss
       | Some e \<Rightarrow>
           if ik_args_hash e \<noteq> h then Inl IkConflict
           else if ik_in_flight e then Inr IkInFlight
           else Inr (IkHit (the (ik_outcome e))), c))"

definition ik_reserve :: "string \<Rightarrow> 'h \<Rightarrow> rat \<Rightarrow> ('h, 'e, 'r) ik_cache \<Rightarrow> ('h, 'e, 'r) ik_cache" where
  "ik_reserve key h now c =
     c\<lparr>ik_entries := dict_set key \<lparr>ik_args_hash = h, ik_started_at = now, ik_completed_at = None, ik_outcome = None\<rparr> (ik_entries c)\<rparr>"

definition ik_complete :: "string \<Rightarrow> 'e + 'r \<Rightarrow> rat \<Rightarrow> ('h, 'e, 'r) ik_cache \<Rightarrow> ('h, 'e, 'r) ik_cache" where
  "ik_complete key out now c =
     (case dict_get (ik_entries c) key of
        None \<Rightarrow> c
      | Some e \<Rightarrow> c\<lparr>ik_entries := dict_set key (e\<lparr>ik_outcome := Some out, ik_completed_at := Some now\<rparr>) (ik_entries c)\<rparr>)"

record 'a ik_call =
  kc_key :: string
  kc_args :: 'a
  kc_got_at :: rat
  kc_reserved_at :: rat
  kc_completed_at :: rat

datatype 'e ik_failure = IkUsage "ik_error" | IkReraised 'e | IkFirstRaised 'e

text \<open>The wrapper.  The code only returns the value or raises; the model also tells whether the tool ran:
  \<open>(True, r)\<close> is its own result and \<open>(False, r)\<close> a replayed one, \<open>IkFirstRaised\<close> its own exception and
  \<open>IkReraised\<close> a cached one.\<close>

definition with_idempotency ::
  "('a \<Rightarrow> 'h) \<Rightarrow> ('a \<Rightarrow> ('h, 'e, 'r) ik_cache \<times> 'w \<Rightarrow> ('e + 'r) \<times> ('h, 'e, 'r) ik_cache \<times> 'w) \<Rightarrow> 'a ik_call \<Rightarrow>
   ('h, 'e, 'r) ik_cache \<times> 'w \<Rightarrow> ('e ik_failure + bool \<times> 'r) \<times> ('h, 'e, 'r) ik_cache \<times> 'w" where
  "with_idempotency args_hash tool c s =
     (let (cache, w) = s; key = kc_key c; h = args_hash (kc_args c) in
      if key = [] then (Inl (IkUsage BadIkKey), s)
      else
        (let (found, cache1) = ik_get key h (kc_got_at c) cache in
         case found of
           Inl e \<Rightarrow> (Inl (IkUsage e), (cache1, w))
         | Inr (IkHit out) \<Rightarrow> ((case out of Inl e \<Rightarrow> Inl (IkReraised e) | Inr r \<Rightarrow> Inr (False, r)), (cache1, w))
         | Inr IkInFlight \<Rightarrow> (Inl (IkUsage IkStillInFlight), (cache1, w))
         | Inr IkMiss \<Rightarrow>
             (let (out, cache2, w2) = tool (kc_args c) (ik_reserve key h (kc_reserved_at c) cache1, w) in
              ((case out of Inl e \<Rightarrow> Inl (IkFirstRaised e) | Inr r \<Rightarrow> Inr (True, r)),
               (ik_complete key out (kc_completed_at c) cache2, w2)))))"

section \<open>A tool that leaves the cache alone\<close>

definition quiet_tool :: "('a \<Rightarrow> 'w \<Rightarrow> ('e + 'r) \<times> 'w) \<Rightarrow> 'a \<Rightarrow> 'c \<times> 'w \<Rightarrow> ('e + 'r) \<times> 'c \<times> 'w" where
  "quiet_tool g a s = (fst (g a (snd s)), fst s, snd (g a (snd s)))"

definition ik_settled :: "('h, 'e, 'r) ik_entry \<Rightarrow> bool" where
  "ik_settled e \<longleftrightarrow> ik_completed_at e \<noteq> None \<and> ik_outcome e \<noteq> None"

definition ik_inv :: "rat \<Rightarrow> int \<Rightarrow> ('h, 'e, 'r) ik_cache \<times> 'w \<Rightarrow> bool" where
  "ik_inv ttl m s \<longleftrightarrow> dict_wf (ik_entries (fst s)) \<and> list_all (\<lambda>(k, e). ik_settled e) (ik_entries (fst s)) \<and>
     ik_ttl (fst s) = ttl \<and> ik_max (fst s) = m"

definition ik_room :: "('h, 'e, 'r) ik_cache \<times> 'w \<Rightarrow> bool" where
  "ik_room s \<longleftrightarrow> int (length (ik_entries (fst s))) \<le> ik_max (fst s)"

definition ik_guarded :: "rat \<Rightarrow> ('h, 'e, 'r) ik_cache \<times> 'w \<Rightarrow> string \<Rightarrow> rat \<Rightarrow> bool" where
  "ik_guarded ttl s k t = (case dict_get (ik_entries (fst s)) k of None \<Rightarrow> False | Some e \<Rightarrow> \<not> ik_dead ttl t e)"

definition ik_kept :: "('h, 'e, 'r) ik_cache \<times> 'w \<Rightarrow> string \<Rightarrow> ('h \<times> ('e + 'r)) option" where
  "ik_kept s k = (case dict_get (ik_entries (fst s)) k of None \<Rightarrow> None | Some e \<Rightarrow> map_option (Pair (ik_args_hash e)) (ik_outcome e))"

definition ik_executed :: "'h \<times> ('e ik_failure + bool \<times> 'r) \<Rightarrow> bool" where
  "ik_executed r = (case snd r of Inl (IkFirstRaised e) \<Rightarrow> True | Inr (b, v) \<Rightarrow> b | _ \<Rightarrow> False)"

definition ik_answer :: "'h \<times> ('e ik_failure + bool \<times> 'r) \<Rightarrow> ('h \<times> ('e + 'r)) option" where
  "ik_answer r =
     (case snd r of
        Inl (IkFirstRaised e) \<Rightarrow> Some (fst r, Inl e)
      | Inl (IkReraised e) \<Rightarrow> Some (fst r, Inl e)
      | Inl (IkUsage e) \<Rightarrow> None
      | Inr (b, v) \<Rightarrow> Some (fst r, Inr v))"

definition ik_window :: "rat \<Rightarrow> 'a ik_call \<Rightarrow> rat \<Rightarrow> bool" where
  "ik_window ttl c t \<longleftrightarrow> t - kc_completed_at c \<le> ttl"

lemmas ik_outcome_defs = ik_executed_def ik_answer_def ik_kept_def

text \<open>Collection only removes entries; with room it removes the dead ones only.\<close>

lemma fold_dict_del_pairs: "fold (\<lambda>(k, e). dict_del k) kes d = fold dict_del (map fst kes) d"
  by (induction kes arbitrary: d) auto

lemma ik_gc_fields [simp]: "ik_ttl (ik_gc now c) = ik_ttl c" "ik_max (ik_gc now c) = ik_max c"
  by (simp_all add: ik_gc_def Let_def)

lemma ik_gc_filter: "\<exists>P. ik_entries (ik_gc now c) = filter P (ik_entries c) \<and>
    (int (length (ik_entries c)) \<le> ik_max c \<longrightarrow> (\<forall>k e. P (k, e) \<longleftrightarrow> \<not> ik_dead (ik_ttl c) now e))"
proof (cases "int (length (filter (\<lambda>(k, e). \<not> ik_dead (ik_ttl c) now e) (ik_entries c))) > ik_max c")
  case True
  moreover have "length (filter (\<lambda>(k, e). \<not> ik_dead (ik_ttl c) now e) (ik_entries c)) \<le> length (ik_entries c)" by simp
  ultimately have "\<not> int (length (ik_entries c)) \<le> ik_max c" by linarith
  then show ?thesis using True by (auto simp: ik_gc_def Let_def fold_dict_del_pairs fold_dict_del)
next
  case False
  then show ?thesis by (intro exI [of _ "\<lambda>(k, e). \<not> ik_dead (ik_ttl c) now e"]) (simp add: ik_gc_def Let_def)
qed

lemma dict_get_filter:
  "dict_wf d \<Longrightarrow> dict_get (filter P d) k = (case dict_get d k of None \<Rightarrow> None | Some e \<Rightarrow> if P (k, e) then Some e else None)"
  by (induction d) (auto simp: dict_wf_def map_of_eq_None_iff split: option.splits)

lemma ik_gc_dead:
  assumes "dict_wf (ik_entries c)" "dict_get (ik_entries (ik_gc now c)) k = Some e"
  shows "dict_get (ik_entries c) k = Some e"
proof -
  obtain P where "ik_entries (ik_gc now c) = filter P (ik_entries c)" using ik_gc_filter [of now c] by blast
  then show ?thesis using assms by (auto simp: dict_get_filter split: option.splits if_splits)
qed

lemma ik_gc_live:
  assumes "dict_wf (ik_entries c)" "int (length (ik_entries c)) \<le> ik_max c" "dict_get (ik_entries c) k = Some e" "\<not> ik_dead (ik_ttl c) now e"
  shows "dict_get (ik_entries (ik_gc now c)) k = Some e"
proof -
  obtain P where "ik_entries (ik_gc now c) = filter P (ik_entries c)" "\<forall>k e. P (k, e) \<longleftrightarrow> \<not> ik_dead (ik_ttl c) now e"
    using ik_gc_filter [of now c] assms(2) by blast
  then show ?thesis using assms by (auto simp: dict_get_filter)
qed

lemma ik_gc_kept:
  assumes "dict_wf (ik_entries c)" "dict_get (ik_entries (ik_gc now c)) k = Some e"
  shows "\<not> ik_dead (ik_ttl c) now e"
proof -
  have "set (ik_entries (ik_gc now c)) \<subseteq> set (filter (\<lambda>(k, e). \<not> ik_dead (ik_ttl c) now e) (ik_entries c))"
    by (auto simp: ik_gc_def Let_def fold_dict_del_pairs fold_dict_del)
  then show ?thesis using map_of_SomeD [OF assms(2)] by auto
qed

section \<open>At most once\<close>

definition ik_step ::
  "('a \<Rightarrow> 'h) \<Rightarrow> ('a \<Rightarrow> 'w \<Rightarrow> ('e + 'r) \<times> 'w) \<Rightarrow> 'a ik_call \<Rightarrow> ('h, 'e, 'r) ik_cache \<times> 'w \<Rightarrow>
   ('h \<times> ('e ik_failure + bool \<times> 'r)) \<times> ('h, 'e, 'r) ik_cache \<times> 'w" where
  "ik_step H g = tagged (\<lambda>c. H (kc_args c)) (with_idempotency H (quiet_tool g))"

definition ik_new_entry :: "'h \<Rightarrow> 'a ik_call \<Rightarrow> 'e + 'r \<Rightarrow> ('h, 'e, 'r) ik_entry" where
  "ik_new_entry h c out = \<lparr>ik_args_hash = h, ik_started_at = kc_reserved_at c, ik_completed_at = Some (kc_completed_at c), ik_outcome = Some out\<rparr>"

lemma set_dict_set: "set (dict_set k v d) \<subseteq> insert (k, v) (set d)"
  by (induction d) auto

lemma ik_run_miss:
  assumes "kc_key c \<noteq> []" "dict_get (ik_entries (ik_gc (kc_got_at c) cache)) (kc_key c) = None" "g (kc_args c) w = (out, w')"
  shows "with_idempotency H (quiet_tool g) c (cache, w) =
    ((case out of Inl e \<Rightarrow> Inl (IkFirstRaised e) | Inr r \<Rightarrow> Inr (True, r)),
     ((ik_gc (kc_got_at c) cache)\<lparr>ik_entries := dict_set (kc_key c) (ik_new_entry (H (kc_args c)) c out) (ik_entries (ik_gc (kc_got_at c) cache))\<rparr>, w'))"
  using assms by (simp add: with_idempotency_def Let_def ik_get_def quiet_tool_def ik_reserve_def ik_complete_def ik_new_entry_def)

lemma ik_call_cases:
  assumes "ik_inv ttl m s"
  obtains (kept) "\<exists>P. ik_entries (fst (snd (ik_step H g c s))) = filter P (ik_entries (fst s))"
      "fst (snd (ik_step H g c s)) \<in> {fst s, ik_gc (kc_got_at c) (fst s)}"
      "\<not> ik_executed (fst (ik_step H g c s))"
      "\<And>a. ik_answer (fst (ik_step H g c s)) = Some a \<Longrightarrow> ik_kept s (kc_key c) = Some a"
    | (ran) out where "dict_get (ik_entries (ik_gc (kc_got_at c) (fst s))) (kc_key c) = None" "ik_executed (fst (ik_step H g c s))"
      "ik_answer (fst (ik_step H g c s)) = Some (H (kc_args c), out)"
      "fst (snd (ik_step H g c s)) = (ik_gc (kc_got_at c) (fst s))\<lparr>ik_entries :=
         dict_set (kc_key c) (ik_new_entry (H (kc_args c)) c out) (ik_entries (ik_gc (kc_got_at c) (fst s)))\<rparr>"
proof -
  obtain cache w where s: "s = (cache, w)" by (cases s)
  have wf: "dict_wf (ik_entries cache)" using assms by (simp add: ik_inv_def s)
  obtain P where P: "ik_entries (ik_gc (kc_got_at c) cache) = filter P (ik_entries cache)" using ik_gc_filter by blast
  consider (bad) "kc_key c = []" | (found) e where "kc_key c \<noteq> []" "dict_get (ik_entries (ik_gc (kc_got_at c) cache)) (kc_key c) = Some e"
    | (miss) "kc_key c \<noteq> []" "dict_get (ik_entries (ik_gc (kc_got_at c) cache)) (kc_key c) = None" by (cases "kc_key c = []") auto
  then show ?thesis
  proof cases
    case bad
    then have "with_idempotency H (quiet_tool g) c s = (Inl (IkUsage BadIkKey), s)" by (simp add: with_idempotency_def s)
    then show ?thesis using s
      by (intro that(1)) (auto simp: ik_step_def ik_outcome_defs intro!: exI [of _ "\<lambda>x. True"])
  next
    case found
    have e: "dict_get (ik_entries cache) (kc_key c) = Some e" using ik_gc_dead [OF wf found(2)] .
    then have "ik_settled e" using assms by (auto simp: ik_inv_def s list_all_iff dest: map_of_SomeD)
    then obtain t out where st: "ik_completed_at e = Some t" "ik_outcome e = Some out" by (auto simp: ik_settled_def)
    show ?thesis using found P e st
      by (intro that(1)) (auto simp: s ik_step_def with_idempotency_def Let_def ik_get_def ik_outcome_defs ik_in_flight_def
          split: sum.splits if_splits)
  next
    case miss
    obtain out w' where g: "g (kc_args c) w = (out, w')" by (cases "g (kc_args c) w")
    show ?thesis using ik_run_miss [of c cache g w out w' H] miss g
      by (intro that(2) [of out]) (auto simp: s ik_step_def ik_outcome_defs split: sum.splits)
  qed
qed

lemma ik_inv_call: 
  assumes "ik_inv ttl m s"
  shows "ik_inv ttl m (snd (ik_step H g c s))"
  using assms
proof (cases rule: ik_call_cases [where H = H and g = g and c = c, consumes 1, case_names kept ran])
  case kept
  then show ?thesis using assms by (auto simp: ik_inv_def dict_wf_filter list_all_iff)
next
  case (ran out)
  obtain P where P: "ik_entries (ik_gc (kc_got_at c) (fst s)) = filter P (ik_entries (fst s))" using ik_gc_filter by blast
  have "ik_settled (ik_new_entry (H (kc_args c)) c out)" by (simp add: ik_settled_def ik_new_entry_def)
  then have "list_all (\<lambda>(k, e). ik_settled e) (dict_set (kc_key c) (ik_new_entry (H (kc_args c)) c out) (filter P (ik_entries (fst s))))"
    using assms set_dict_set [of "kc_key c" "ik_new_entry (H (kc_args c)) c out" "filter P (ik_entries (fst s))"]
    by (fastforce simp: ik_inv_def list_all_iff)
  then show ?thesis using ran assms by (simp add: ik_inv_def P dict_wf_filter)
qed

lemma ik_dead_mono: "\<not> ik_dead ttl t e \<Longrightarrow> t' \<le> t \<Longrightarrow> \<not> ik_dead ttl t' e"
  by (auto simp: ik_dead_def split: option.splits)

interpretation ik: once_per_key "ik_step H g" kc_key kc_got_at "ik_window ttl" ik_executed ik_answer
  "ik_inv ttl m" ik_room "ik_guarded ttl" ik_kept
  for H :: "'a \<Rightarrow> 'h" and g :: "'a \<Rightarrow> 'w \<Rightarrow> ('e + 'r) \<times> 'w" and ttl m
proof
  fix c :: "'a ik_call" and s :: "('h, 'e, 'r) ik_cache \<times> 'w" and k t a
  assume inv: "ik_inv ttl m s"
  note cs = ik_call_cases [OF inv, of H g c]
  have wf: "dict_wf (ik_entries (fst s))" and ttl: "ik_ttl (fst s) = ttl" using inv by (simp_all add: ik_inv_def)
  have live: "dict_get (ik_entries (ik_gc now (fst s))) k = Some e"
    if "ik_room s" "dict_get (ik_entries (fst s)) k = Some e" "\<not> ik_dead ttl now e" for k e now
    using ik_gc_live [OF wf _ that(2), of now] that ttl by (simp add: ik_room_def)
  show "ik_inv ttl m (snd (ik_step H g c s))" by (rule ik_inv_call [OF inv])
  show "\<not> ik_executed (fst (ik_step H g c s))" if "ik_room s" "ik_guarded ttl s (kc_key c) (kc_got_at c)"
    using that live [OF that(1), of "kc_key c" _ "kc_got_at c"]
    by (cases rule: cs) (auto simp: ik_guarded_def split: option.splits)
  show "ik_guarded ttl (snd (ik_step H g c s)) (kc_key c) t"
    if "ik_executed (fst (ik_step H g c s))" "kc_got_at c \<le> t" "ik_window ttl c t"
    using that by (cases rule: cs) (auto simp: ik_guarded_def ik_new_entry_def ik_dead_def ik_window_def)
  show "ik_guarded ttl (snd (ik_step H g c s)) k t" if gd: "ik_room s" "ik_guarded ttl s k t" "kc_got_at c \<le> t"
  proof -
    obtain e where e: "dict_get (ik_entries (fst s)) k = Some e" "\<not> ik_dead ttl t e"
      using gd(2) by (auto simp: ik_guarded_def split: option.splits)
    then have "dict_get (ik_entries (ik_gc (kc_got_at c) (fst s))) k = Some e"
      using live [OF gd(1) e(1)] ik_dead_mono [OF e(2) gd(3)] by simp
    then show ?thesis using e by (cases rule: cs) (auto simp: ik_guarded_def)
  qed
  show "ik_kept (snd (ik_step H g c s)) (kc_key c) = ik_answer (fst (ik_step H g c s))"
    if "ik_executed (fst (ik_step H g c s))"
    using that by (cases rule: cs) (auto simp: ik_kept_def ik_new_entry_def)
  show "ik_kept s (kc_key c) = Some a"
    if "\<not> ik_executed (fst (ik_step H g c s))" "ik_answer (fst (ik_step H g c s)) = Some a"
    using that by (cases rule: cs) auto
  show "ik_kept s k = Some a \<or> k = kc_key c \<and> ik_executed (fst (ik_step H g c s))"
    if "ik_kept (snd (ik_step H g c s)) k = Some a"
    using that ik_gc_dead [OF wf, of "kc_got_at c" k]
    by (cases rule: cs) (auto simp: ik_kept_def split: option.splits if_splits)
qed

text \<open>With at most \<open>max_entries\<close> different keys in a session nothing is evicted early.\<close>

lemma ik_keys_call:
  assumes "ik_inv ttl m s"
  shows "fst ` set (ik_entries (fst (snd (ik_step H g c s)))) \<subseteq> insert (kc_key c) (fst ` set (ik_entries (fst s)))"
  using assms
proof (cases rule: ik_call_cases [where H = H and g = g and c = c, consumes 1, case_names kept ran])
  case kept
  then show ?thesis by auto
next
  case (ran out)
  obtain P where "ik_entries (ik_gc (kc_got_at c) (fst s)) = filter P (ik_entries (fst s))" using ik_gc_filter by blast
  then show ?thesis using ran(4) by (auto simp: dict_keys_set)
qed

lemma ik_room_keys:
  assumes "ik_inv ttl m s" "fst ` set (ik_entries (fst s)) \<subseteq> K" "kc_key ` set cs \<subseteq> K" "finite K" "int (card K) \<le> m"
  shows "room_along (ik_step H g) ik_room cs s"
  using assms(1-3)
proof (induction cs arbitrary: s)
  case (Cons c cs)
  have "distinct (map fst (ik_entries (fst s)))" "ik_max (fst s) = m" using Cons.prems(1) by (simp_all add: ik_inv_def dict_wf_def)
  moreover have "card (fst ` set (ik_entries (fst s))) \<le> card K" using Cons.prems(2) assms(4) by (rule card_mono [rotated])
  ultimately have "ik_room s" using assms(5) distinct_card [of "map fst (ik_entries (fst s))"] by (simp add: ik_room_def)
  moreover have "room_along (ik_step H g) ik_room cs (snd (ik_step H g c s))"
    using Cons.prems(3) subset_trans [OF ik_keys_call [OF Cons.prems(1), of H g c], of K] Cons.prems(2)
    by (intro Cons.IH ik_inv_call [OF Cons.prems(1)]) simp_all
  ultimately show ?case by simp
qed simp

section \<open>Properties\<close>

lemma ik_session_nth:
  "n < length cs \<Longrightarrow> fst (call_session (ik_step H g) cs s) ! n = (H (kc_args (cs ! n)), fst (call_session (with_idempotency H (quiet_tool g)) cs s) ! n)"
  by (simp add: ik_step_def call_session_tagged)

text \<open>What the caller of the wrapper sees: the tool's result, or its exception.\<close>

definition ik_seen :: "('e ik_failure + bool \<times> 'r) \<Rightarrow> ('e + 'r) option" where
  "ik_seen r = (case r of Inl (IkFirstRaised e) \<Rightarrow> Some (Inl e) | Inl (IkReraised e) \<Rightarrow> Some (Inl e) | Inl (IkUsage e) \<Rightarrow> None | Inr (b, v) \<Rightarrow> Some (Inr v))"

definition ik_ran :: "('e ik_failure + bool \<times> 'r) \<Rightarrow> bool" where
  "ik_ran r = (case r of Inl (IkFirstRaised e) \<Rightarrow> True | Inr (b, v) \<Rightarrow> b | _ \<Rightarrow> False)"

text \<open>What one call answers: a bad key; what the live entry of its key says; or its own run.\<close>

definition ik_replay :: "'e + 'r \<Rightarrow> 'e ik_failure + bool \<times> 'r" where
  "ik_replay out = (case out of Inl e \<Rightarrow> Inl (IkReraised e) | Inr r \<Rightarrow> Inr (False, r))"

lemma ik_call_outcome:
  assumes "ik_inv ttl m s"
  obtains (bad) "kc_key c = []" "fst (with_idempotency H (quiet_tool g) c s) = Inl (IkUsage BadIkKey)"
    | (hit) e out where "kc_key c \<noteq> []" "dict_get (ik_entries (fst s)) (kc_key c) = Some e" "\<not> ik_dead ttl (kc_got_at c) e"
      "ik_outcome e = Some out"
      "fst (with_idempotency H (quiet_tool g) c s) = (if ik_args_hash e = H (kc_args c) then ik_replay out else Inl (IkUsage IkConflict))"
    | (run) "kc_key c \<noteq> []" "ik_ran (fst (with_idempotency H (quiet_tool g) c s))"
proof -
  obtain cache w where s: "s = (cache, w)" by (cases s)
  have wf: "dict_wf (ik_entries cache)" and ttl: "ik_ttl cache = ttl" using assms by (simp_all add: ik_inv_def s)
  let ?gc = "ik_gc (kc_got_at c) cache"
  consider "kc_key c = []" | (found) e where "kc_key c \<noteq> []" "dict_get (ik_entries ?gc) (kc_key c) = Some e"
    | "kc_key c \<noteq> []" "dict_get (ik_entries ?gc) (kc_key c) = None" by (cases "kc_key c = []") auto
  then show ?thesis
  proof cases
    case 1
    then show ?thesis by (intro that(1)) (simp_all add: with_idempotency_def s)
  next
    case found
    have e: "dict_get (ik_entries cache) (kc_key c) = Some e" using ik_gc_dead [OF wf found(2)] .
    have live: "\<not> ik_dead ttl (kc_got_at c) e"
      using ik_gc_kept [OF wf found(2)] ttl by simp
    have "ik_settled e" using assms e by (auto simp: ik_inv_def s list_all_iff dest: map_of_SomeD)
    then obtain t out where st: "ik_completed_at e = Some t" "ik_outcome e = Some out" by (auto simp: ik_settled_def)
    show ?thesis using found st e live
      by (intro that(2) [of e out]) (auto simp: s with_idempotency_def Let_def ik_get_def ik_in_flight_def ik_replay_def split: sum.split)
  next
    case 3
    then show ?thesis using ik_run_miss [of c cache g w "fst (g (kc_args c) w)" "snd (g (kc_args c) w)" H]
      by (intro that(3)) (auto simp: s ik_ran_def split: sum.split)
  qed
qed

text \<open>An entry of the table is that of an earlier run.\<close>

lemma ik_step_state: "snd (ik_step H g c s) = snd (with_idempotency H (quiet_tool g) c s)"
  by (simp add: ik_step_def)

lemma ik_session_inv: "ik_inv ttl m s \<Longrightarrow> ik_inv ttl m (snd (call_session (with_idempotency H (quiet_tool g)) cs s))"
  by (induction cs arbitrary: s) (use ik_inv_call [of ttl m _ H g] in \<open>auto simp: ik_step_state\<close>)

lemma ik_entry_origin:
  assumes inv: "ik_inv ttl m s" and none: "ik_entries (fst s) = []"
    and rs: "rs = fst (call_session (with_idempotency H (quiet_tool g)) cs s)"
  shows "n \<le> length cs \<Longrightarrow> dict_get (ik_entries (fst (snd (call_session (with_idempotency H (quiet_tool g)) (take n cs) s)))) k = Some e \<Longrightarrow>
    \<exists>i<n. kc_key (cs ! i) = k \<and> ik_ran (rs ! i) \<and> (\<exists>out. ik_seen (rs ! i) = Some out \<and> e = ik_new_entry (H (kc_args (cs ! i))) (cs ! i) out)"
proof (induction n)
  case 0
  then show ?case using none by simp
next
  case (Suc n)
  let ?call = "with_idempotency H (quiet_tool g)" and ?c = "cs ! n"
  let ?s = "snd (call_session ?call (take n cs) s)"
  have n: "n < length cs" using Suc.prems(1) by simp
  have inv': "ik_inv ttl m ?s" by (rule ik_session_inv [OF inv])
  have st: "snd (call_session ?call (take (Suc n) cs) s) = snd (?call ?c ?s)"
    using n by (simp add: take_Suc_conv_app_nth call_session_append)
  have r: "rs ! n = fst (?call ?c ?s)" using call_session_nth [OF n, of ?call s] rs by simp
  have wf: "dict_wf (ik_entries (fst ?s))" using inv' by (simp add: ik_inv_def)
  have old: ?case if "dict_get (ik_entries (fst ?s)) k = Some e"
    using Suc.IH that n by (meson less_SucI less_imp_le)
  show ?case
  proof (cases rule: ik_call_cases [OF inv', where H = H and g = g and c = ?c, case_names kept ran])
    case kept
    then have "dict_get (ik_entries (fst ?s)) k = Some e"
      using Suc.prems(2) wf by (auto simp: st ik_step_state dict_get_filter split: option.splits if_splits)
    then show ?thesis by (rule old)
  next
    case (ran out)
    have e: "dict_get (dict_set (kc_key ?c) (ik_new_entry (H (kc_args ?c)) ?c out) (ik_entries (ik_gc (kc_got_at ?c) (fst ?s)))) k = Some e"
      using Suc.prems(2) ran(4) by (simp add: st ik_step_state)
    show ?thesis
    proof (cases "k = kc_key ?c")
      case True
      then have "ik_ran (rs ! n)" "ik_seen (rs ! n) = Some out" "e = ik_new_entry (H (kc_args ?c)) ?c out"
        using ran(2,3) e by (auto simp: r ik_step_def ik_executed_def ik_answer_def ik_ran_def ik_seen_def split: sum.splits ik_failure.splits)
      then show ?thesis using True by blast
    next
      case False
      then have "dict_get (ik_entries (fst ?s)) k = Some e" using e ik_gc_dead [OF wf] by simp
      then show ?thesis by (rule old)
    qed
  qed
qed

text \<open>C10. What every call of a session gets, on a new cache, with a clock that does not go back, at most
  \<open>max_entries\<close> different keys and a tool that does not use the cache itself.  A run of the tool under a key is live
  for a later call when the call starts at most \<open>ttl\<close> after the run completed, whether it returned or raised.  A call
  with an empty key is refused.  Any other call runs the tool exactly when its key has no live run; when it has one,
  the call gets the very result, or raises the very exception, of that run if its arguments have the same hash, and
  a conflict if not.  (No call finds another one in flight.)\<close>

theorem ik_cache_at_most_once:
  fixes H :: "'a \<Rightarrow> 'h" and g :: "'a \<Rightarrow> 'w \<Rightarrow> ('e + 'r) \<times> 'w"
  assumes new: "new_ik_cache ttl m = Inr cache" and srt: "sorted (map kc_got_at cs)" and few: "int (card (kc_key ` set cs)) \<le> m"
    and rs: "rs = fst (call_session (with_idempotency H (quiet_tool g)) cs (cache, w))"
    and live: "live = (\<lambda>i j. i < j \<and> kc_key (cs ! i) = kc_key (cs ! j) \<and> ik_ran (rs ! i) \<and> kc_got_at (cs ! j) - kc_completed_at (cs ! i) \<le> ttl)"
    and j: "j < length cs"
  shows "if kc_key (cs ! j) = [] then rs ! j = Inl (IkUsage BadIkKey)
    else (ik_ran (rs ! j) \<longleftrightarrow> \<not> (\<exists>i. live i j)) \<and>
      (\<forall>i. live i j \<longrightarrow> rs ! j = (if H (kc_args (cs ! i)) = H (kc_args (cs ! j)) then ik_replay (the (ik_seen (rs ! i))) else Inl (IkUsage IkConflict)))"
proof -
  let ?s = "(cache, w)" and ?call = "with_idempotency H (quiet_tool g)"
  let ?t = "snd (call_session ?call (take j cs) ?s)"
  have c: "cache = \<lparr>ik_ttl = ttl, ik_max = m, ik_entries = []\<rparr>" using new by (simp add: new_ik_cache_def split: if_splits)
  have inv: "ik_inv ttl m ?s" by (simp add: c ik_inv_def)
  have room: "room_along (ik_step H g) ik_room cs ?s" using few by (intro ik_room_keys [OF inv]) (simp_all add: c)
  have ex: "ik_executed (fst (call_session (ik_step H g) cs ?s) ! n) = ik_ran (rs ! n)" if "n < length cs" for n
    using rs by (simp add: ik_session_nth [OF that] ik_executed_def ik_ran_def split: sum.split ik_failure.split prod.split)
  have apart: "kc_got_at (cs ! n) - kc_completed_at (cs ! i) > ttl"
    if "i < n" "n < length cs" "kc_key (cs ! i) = kc_key (cs ! n)" "ik_ran (rs ! i)" "ik_ran (rs ! n)" for i n
    using ik.once [OF inv room srt that(1,2,3)] ex [of i] ex [of n] that by (simp add: ik_window_def)
  have idle: "\<not> ik_ran (rs ! j)" if "live i j" for i using that apart [of i j] j by (force simp: live)
  have same: "i = i'" if "live i j" "live i' j" for i i'
  proof (rule ccontr)
    have late: False if "i < i'" "live i j" "live i' j" for i i'
      using apart [of i i'] that j sorted_nth_mono [OF srt, of i' j] by (auto simp: live)
    assume "i \<noteq> i'"
    then show False using late [of i i'] late [of i' i] that by linarith
  qed
  have r: "rs ! j = fst (?call (cs ! j) ?t)" using call_session_nth [OF j, of ?call ?s] rs by simp
  have inv_t: "ik_inv ttl m ?t" by (rule ik_session_inv [OF inv])
  show ?thesis
  proof (cases rule: ik_call_outcome [OF inv_t, where H = H and g = g and c = "cs ! j", case_names bad hit run])
    case (hit e out)
    obtain i o1 where i: "i < j" "kc_key (cs ! i) = kc_key (cs ! j)" "ik_ran (rs ! i)" "ik_seen (rs ! i) = Some o1"
      "e = ik_new_entry (H (kc_args (cs ! i))) (cs ! i) o1"
      using ik_entry_origin [OF inv _ rs _ hit(2)] j by (auto simp: c)
    then have lv: "live i j" using hit(3) by (simp add: live ik_dead_def ik_new_entry_def)
    have "o1 = out" "ik_args_hash e = H (kc_args (cs ! i))" using hit(4) i(5) by (simp_all add: ik_new_entry_def)
    then have eq: "rs ! j = (if H (kc_args (cs ! i)) = H (kc_args (cs ! j)) then ik_replay (the (ik_seen (rs ! i))) else Inl (IkUsage IkConflict))"
      using hit(5) i(4) by (simp add: r)
    show ?thesis unfolding if_not_P [OF hit(1)]
    proof (intro conjI allI impI)
      show "ik_ran (rs ! j) \<longleftrightarrow> \<not> (\<exists>i. live i j)" using lv idle [OF lv] by blast
      fix i' assume "live i' j"
      then have "i' = i" using same [OF _ lv] by blast
      then show "rs ! j = (if H (kc_args (cs ! i')) = H (kc_args (cs ! j)) then ik_replay (the (ik_seen (rs ! i'))) else Inl (IkUsage IkConflict))"
        using eq by simp
    qed
  qed (use idle r in \<open>auto\<close>)
qed

definition demo_ik_calls :: "nat ik_call list" where
  "demo_ik_calls =
     [\<lparr>kc_key = ''k'', kc_args = 7, kc_got_at = 0, kc_reserved_at = 0, kc_completed_at = 1\<rparr>,
      \<lparr>kc_key = ''k'', kc_args = 7, kc_got_at = 5, kc_reserved_at = 5, kc_completed_at = 5\<rparr>,
      \<lparr>kc_key = ''k'', kc_args = 8, kc_got_at = 6, kc_reserved_at = 6, kc_completed_at = 6\<rparr>]"

definition demo_charge :: "nat \<Rightarrow> nat \<Rightarrow> (string + nat) \<times> nat" where
  "demo_charge q w = (Inl ''timeout'', w + 1)"

text \<open>A tool that raised is not run again by the retry: the exception is replayed; other arguments conflict.\<close>

theorem ik_cache_at_most_once_witness:
  "let rs = fst (call_session (with_idempotency (\<lambda>a. a) (quiet_tool demo_charge)) demo_ik_calls
     (\<lparr>ik_ttl = 10, ik_max = 4, ik_entries = []\<rparr>, 0)) in
   rs = [Inl (IkFirstRaised ''timeout''), Inl (IkReraised ''timeout''), Inl (IkUsage IkConflict)] \<and>
   rs ! 1 = ik_replay (the (ik_seen (rs ! 0)))"
proof -
  let ?c = "\<lparr>ik_ttl = 10, ik_max = 4, ik_entries = []\<rparr>"
  let ?rs = "fst (call_session (with_idempotency (\<lambda>a. a) (quiet_tool demo_charge)) demo_ik_calls (?c, 0))"
  have rs: "?rs = [Inl (IkFirstRaised ''timeout''), Inl (IkReraised ''timeout''), Inl (IkUsage IkConflict)]"
    by (simp add: demo_ik_calls_def with_idempotency_def Let_def demo_charge_def ik_get_def ik_gc_def ik_dead_def ik_in_flight_def
        quiet_tool_def ik_reserve_def ik_complete_def)
  have "new_ik_cache 10 4 = Inr ?c" "sorted (map kc_got_at demo_ik_calls)" "int (card (kc_key ` set demo_ik_calls)) \<le> 4"
    by (simp_all add: new_ik_cache_def demo_ik_calls_def)
  from ik_cache_at_most_once [OF this refl refl, of 1 "\<lambda>a. a" demo_charge 0]
  have "?rs ! 1 = ik_replay (the (ik_seen (?rs ! 0)))"
    unfolding rs by (auto simp: demo_ik_calls_def ik_ran_def ik_seen_def ik_replay_def)
  then show ?thesis unfolding Let_def using rs by blast
qed

section \<open>Limits of the table\<close>

text \<open>Beyond \<open>max_entries\<close> keys the oldest completed entry goes before its time, and a retry inside the
  window runs the tool again.\<close>

definition crowded_calls :: "nat ik_call list" where
  "crowded_calls =
     [\<lparr>kc_key = ''a'', kc_args = 0, kc_got_at = 0, kc_reserved_at = 0, kc_completed_at = 0\<rparr>,
      \<lparr>kc_key = ''b'', kc_args = 0, kc_got_at = 1, kc_reserved_at = 1, kc_completed_at = 1\<rparr>,
      \<lparr>kc_key = ''a'', kc_args = 0, kc_got_at = 2, kc_reserved_at = 2, kc_completed_at = 2\<rparr>]"

lemma eviction_reruns_inside_window:
  "map ik_ran (fst (call_session (with_idempotency (\<lambda>a. a) (quiet_tool demo_charge)) crowded_calls
     (\<lparr>ik_ttl = 300, ik_max = 1, ik_entries = []\<rparr>, 0))) = [True, True, True]"
  by (simp add: crowded_calls_def with_idempotency_def Let_def demo_charge_def ik_get_def ik_gc_def ik_dead_def ik_in_flight_def
      quiet_tool_def ik_reserve_def ik_complete_def ik_ran_def)

text \<open>Collection runs before the insertion only, so the table holds one entry more than \<open>max_entries\<close>.\<close>

lemma table_exceeds_max_entries:
  "length (ik_entries (fst (snd (call_session (with_idempotency (\<lambda>a. a) (quiet_tool demo_charge)) (take 2 crowded_calls)
     (\<lparr>ik_ttl = 300, ik_max = 1, ik_entries = []\<rparr>, 0))))) = 2"
  by (simp add: crowded_calls_def with_idempotency_def Let_def demo_charge_def ik_get_def ik_gc_def ik_dead_def ik_in_flight_def
      quiet_tool_def ik_reserve_def ik_complete_def)

end
