(* ===== verification/Retry_Envelope.thy ===== *)
theory Retry_Envelope
  imports Once_Per_Key
begin

text \<open>
  The retry envelope of tool calls (\<open>tool-call-retry-envelope/bin\<close>): the key a host derives from
  a call's identity fields (\<open>derive-key.py\<close>), the host's dedup table (\<open>dedup-replay.py\<close>) and the
  agent's classification of failures (\<open>classify-retry.py\<close>).  SHA-256 of the canonical JSON of the
  payload and the canonical JSON of the identity fields are parameters.
\<close>

section \<open>Key derivation\<close>

definition identity_fields :: "(string \<times> string list) list" where
  "identity_fields =
     [(''email.send'', [''to'', ''subject_hash'', ''body_sha256'']),
      (''stripe.charges.create'', [''customer'', ''amount'', ''currency'', ''metadata.order_id'']),
      (''git.push'', [''remote_url'', ''branch'', ''commit_sha'']),
      (''db.execute'', [''statement_template'', ''param_hash'']),
      (''slack.send'', [''channel'', ''text_sha256'', ''thread_ts''])]"

text \<open>\<open>path.split(".")\<close>\<close>

fun split_dots :: "string \<Rightarrow> string list" where
  "split_dots [] = [[]]"
| "split_dots (c # cs) =
     (if c = CHR ''.'' then [] # split_dots cs
      else case split_dots cs of [] \<Rightarrow> [[c]] | p # ps \<Rightarrow> (c # p) # ps)"

fun pick_path :: "pyval \<Rightarrow> string list \<Rightarrow> pyval" where
  "pick_path v [] = v"
| "pick_path (PDict d) (p # ps) = (case dict_get d p of None \<Rightarrow> PNone | Some v \<Rightarrow> pick_path v ps)"
| "pick_path _ (p # ps) = PNone"

definition pick :: "pyval \<Rightarrow> string list \<Rightarrow> (string, pyval) dict" where
  "pick arguments paths = map (\<lambda>p. (p, pick_path arguments (split_dots p))) paths"

datatype key_error = UnknownTool string

type_synonym scope = "(string, pyval) dict"

definition derive_key ::
  "(string \<times> (string, pyval) dict \<times> scope \<Rightarrow> string) \<Rightarrow> string \<Rightarrow> pyval \<Rightarrow> scope \<Rightarrow> key_error + string" where
  "derive_key sha tool_name arguments sc =
     (case dict_get identity_fields tool_name of
        None \<Rightarrow> Inl (UnknownTool tool_name)
      | Some paths \<Rightarrow> Inr (''tcre_v1_'' @ sha (tool_name, pick arguments paths, sc)))"

section \<open>The dedup table\<close>

record tcr_request =
  tq_tool_name :: string
  tq_arguments :: pyval
  tq_key :: string
  tq_attempt :: int
  tq_max_attempts :: int
  tq_deadline :: int
  tq_side_effect_succeeds :: bool
  tq_transport_succeeds :: bool
  tq_now_ms :: int
  tq_simulated_result :: "pyval option"

record dedup_row =
  dr_tool_name :: string
  dr_identity_canonical :: string
  dr_result :: pyval
  dr_executed_at :: int
  dr_attempt_number :: int
  dr_expires_at :: int

datatype tcr_outcome =
    AssertionFailed string string
  | RejectedMaxAttempts string int
  | ExpiredDeadline string int int
  | RejectedKeyCollision string string string
  | ReplayedFromCache string int int pyval
  | SideEffectFailed string
  | ExecutedTransportDropped string int
  | ExecutedNow string int int pyval

type_synonym dedup_table = "(string, dedup_row) dict"

record dedup_env =
  sha_fn :: "string \<times> (string, pyval) dict \<times> scope \<Rightarrow> string"
  canon_fn :: "(string, pyval) dict \<Rightarrow> string"

definition request_identity :: "dedup_env \<Rightarrow> tcr_request \<Rightarrow> string" where
  "request_identity f q =
     canon_fn f (pick (tq_arguments q) (case dict_get identity_fields (tq_tool_name q) of None \<Rightarrow> [] | Some ps \<Rightarrow> ps))"

definition simulated_result :: "nat \<times> tcr_request \<Rightarrow> pyval" where
  "simulated_result c =
     (case tq_simulated_result (snd c) of
        Some r \<Rightarrow> r
      | None \<Rightarrow> PDict [(''ok'', PBool True), (''step'', PInt (int (fst c)))])"

text \<open>One request; the step number is only used by the default result.\<close>

definition dedup_step ::
  "dedup_env \<Rightarrow> scope \<Rightarrow> nat \<times> tcr_request \<Rightarrow> dedup_table \<Rightarrow> (key_error + tcr_outcome) \<times> dedup_table" where
  "dedup_step f sc c table =
     (let q = snd c; now = tq_now_ms q in
      case derive_key (sha_fn f) (tq_tool_name q) (tq_arguments q) sc of
        Inl e \<Rightarrow> (Inl e, table)
      | Inr key \<Rightarrow>
          if tq_key q \<noteq> key then (Inr (AssertionFailed (tq_key q) key), table)
          else if tq_attempt q > tq_max_attempts q then (Inr (RejectedMaxAttempts key (tq_attempt q)), table)
          else if now > tq_deadline q then (Inr (ExpiredDeadline key now (tq_deadline q)), table)
          else case dict_get table key of
            Some r \<Rightarrow>
              if dr_identity_canonical r \<noteq> request_identity f q
              then (Inr (RejectedKeyCollision key (dr_identity_canonical r) (request_identity f q)), table)
              else (Inr (ReplayedFromCache key (dr_attempt_number r) (dr_executed_at r) (dr_result r)), table)
          | None \<Rightarrow>
              if \<not> tq_side_effect_succeeds q then (Inr (SideEffectFailed key), table)
              else
                (let result = simulated_result c;
                     table' = dict_set key \<lparr>dr_tool_name = tq_tool_name q, dr_identity_canonical = request_identity f q, dr_result = result,
                       dr_executed_at = now, dr_attempt_number = tq_attempt q, dr_expires_at = now + 24 * 3600 * 1000\<rparr> table in
                 if \<not> tq_transport_succeeds q then (Inr (ExecutedTransportDropped key now), table')
                 else (Inr (ExecutedNow key now (tq_attempt q) result), table')))"

fun simulate_from ::
  "dedup_env \<Rightarrow> scope \<Rightarrow> nat \<Rightarrow> tcr_request list \<Rightarrow> dedup_table \<Rightarrow> key_error + tcr_outcome list \<times> dedup_table" where
  "simulate_from f sc i [] table = Inr ([], table)"
| "simulate_from f sc i (q # qs) table =
     (case dedup_step f sc (i, q) table of
        (Inl e, _) \<Rightarrow> Inl e
      | (Inr out, table') \<Rightarrow>
          (case simulate_from f sc (i + 1) qs table' of
             Inl e \<Rightarrow> Inl e
           | Inr (outs, table'') \<Rightarrow> Inr (out # outs, table'')))"

definition simulate_scenario :: "dedup_env \<Rightarrow> scope \<Rightarrow> tcr_request list \<Rightarrow> key_error + tcr_outcome list \<times> dedup_table" where
  "simulate_scenario f sc qs = simulate_from f sc 1 qs []"

section \<open>At most once\<close>

definition dedup_executed :: "(string \<times> pyval \<times> int \<times> int) \<times> (key_error + tcr_outcome) \<Rightarrow> bool" where
  "dedup_executed r = (case snd r of Inr (ExecutedTransportDropped _ _) \<Rightarrow> True | Inr (ExecutedNow _ _ _ _) \<Rightarrow> True | _ \<Rightarrow> False)"

text \<open>What an execution leaves for its retries: identity, result, time and attempt number.\<close>

definition dedup_facts :: "dedup_env \<Rightarrow> nat \<times> tcr_request \<Rightarrow> string \<times> pyval \<times> int \<times> int" where
  "dedup_facts f c = (request_identity f (snd c), simulated_result c, tq_now_ms (snd c), tq_attempt (snd c))"

definition dedup_answer :: "(string \<times> pyval \<times> int \<times> int) \<times> (key_error + tcr_outcome) \<Rightarrow> (string \<times> pyval \<times> int \<times> int) option" where
  "dedup_answer r =
     (case snd r of
        Inr (ReplayedFromCache _ n at' res) \<Rightarrow> Some (fst (fst r), res, at', n)
      | _ \<Rightarrow> if dedup_executed r then Some (fst r) else None)"

definition dedup_kept :: "dedup_table \<Rightarrow> string \<Rightarrow> (string \<times> pyval \<times> int \<times> int) option" where
  "dedup_kept table k =
     map_option (\<lambda>r. (dr_identity_canonical r, dr_result r, dr_executed_at r, dr_attempt_number r)) (dict_get table k)"

lemmas dedup_defs = dedup_executed_def dedup_facts_def dedup_answer_def dedup_kept_def

lemma dedup_step_cases:
  obtains (kept) "snd (dedup_step f sc c table) = table" "\<not> dedup_executed (dedup_facts f c, fst (dedup_step f sc c table))"
      "\<And>a. dedup_answer (dedup_facts f c, fst (dedup_step f sc c table)) = Some a \<Longrightarrow> dedup_kept table (tq_key (snd c)) = Some a"
    | (ran) r where "dict_get table (tq_key (snd c)) = None" "dedup_executed (dedup_facts f c, fst (dedup_step f sc c table))"
      "dedup_answer (dedup_facts f c, fst (dedup_step f sc c table)) = Some (dedup_facts f c)"
      "snd (dedup_step f sc c table) = dict_set (tq_key (snd c)) r table"
      "(dr_identity_canonical r, dr_result r, dr_executed_at r, dr_attempt_number r) = dedup_facts f c"
proof (cases "derive_key (sha_fn f) (tq_tool_name (snd c)) (tq_arguments (snd c)) sc")
  case (Inl e)
  then show ?thesis by (intro that(1)) (simp_all add: dedup_step_def Let_def dedup_defs)
next
  case (Inr key)
  note st = dedup_step_def [of f sc c table, unfolded Inr Let_def sum.case]
  consider (early) "tq_key (snd c) \<noteq> key \<or> tq_attempt (snd c) > tq_max_attempts (snd c) \<or> tq_now_ms (snd c) > tq_deadline (snd c)"
    | (hit) r where "tq_key (snd c) = key" "\<not> tq_attempt (snd c) > tq_max_attempts (snd c)" "\<not> tq_now_ms (snd c) > tq_deadline (snd c)"
      "dict_get table key = Some r"
    | (miss) "tq_key (snd c) = key" "\<not> tq_attempt (snd c) > tq_max_attempts (snd c)" "\<not> tq_now_ms (snd c) > tq_deadline (snd c)"
      "dict_get table key = None"
    by (cases "dict_get table key") auto
  then show ?thesis
  proof cases
    case early
    then show ?thesis by (intro that(1)) (auto simp: st dedup_defs split: if_splits)
  next
    case hit
    then show ?thesis by (intro that(1)) (auto simp: st dedup_defs split: if_splits)
  next
    case miss
    show ?thesis
    proof (cases "tq_side_effect_succeeds (snd c)")
      case False
      then show ?thesis using miss by (intro that(1)) (auto simp: st dedup_defs)
    next
      case True
      then show ?thesis using miss
        by (intro that(2) [of "\<lparr>dr_tool_name = tq_tool_name (snd c), dr_identity_canonical = request_identity f (snd c), dr_result = simulated_result c,
            dr_executed_at = tq_now_ms (snd c), dr_attempt_number = tq_attempt (snd c), dr_expires_at = tq_now_ms (snd c) + 24 * 3600 * 1000\<rparr>"])
          (simp_all add: st dedup_defs)
    qed
  qed
qed

interpretation dedup: once_per_key "tagged (dedup_facts f) (dedup_step f sc)" "\<lambda>c. tq_key (snd c)" "\<lambda>c. 0 :: int" "\<lambda>c t. True"
  dedup_executed dedup_answer "\<lambda>s. True" "\<lambda>s. True" "\<lambda>s k t. dict_get s k \<noteq> None" dedup_kept
  for f :: dedup_env and sc :: scope
proof
  fix c :: "nat \<times> tcr_request" and s :: dedup_table and k a
  note cs = dedup_step_cases [of f sc c s]
  let ?r = "fst (tagged (dedup_facts f) (dedup_step f sc) c s)" and ?s = "snd (tagged (dedup_facts f) (dedup_step f sc) c s)"
  show "\<not> dedup_executed ?r" if "dict_get s (tq_key (snd c)) \<noteq> None" using that by (cases rule: cs) auto
  show "dict_get ?s (tq_key (snd c)) \<noteq> None" if "dedup_executed ?r" using that by (cases rule: cs) auto
  show "dict_get ?s k \<noteq> None" if "dict_get s k \<noteq> None" using that by (cases rule: cs) auto
  show "dedup_kept ?s (tq_key (snd c)) = dedup_answer ?r" if "dedup_executed ?r"
    using that by (cases rule: cs) (auto simp: dedup_kept_def)
  show "dedup_kept s (tq_key (snd c)) = Some a" if "\<not> dedup_executed ?r" "dedup_answer ?r = Some a"
    using that by (cases rule: cs) auto
  show "dedup_kept s k = Some a \<or> k = tq_key (snd c) \<and> dedup_executed ?r" if "dedup_kept ?s k = Some a"
    using that by (cases rule: cs) (auto simp: dedup_kept_def split: if_splits)
qed auto

lemma simulate_from_session:
  "simulate_from f sc i qs table = Inr (outs, table') \<Longrightarrow>
   call_session (dedup_step f sc) (enumerate i qs) table = (map Inr outs, table')"
proof (induction qs arbitrary: i table outs)
  case (Cons q qs)
  then show ?case by (auto split: prod.splits sum.splits)
qed simp

text \<open>The table never forgets or changes a row.\<close>

lemma dedup_row_stays:
  "dict_get table k = Some r \<Longrightarrow> dict_get (snd (call_session (dedup_step f sc) cs table)) k = Some r"
proof (induction cs arbitrary: table)
  case (Cons c cs)
  have "dict_get (snd (dedup_step f sc c table)) k = Some r"
    using Cons.prems by (cases rule: dedup_step_cases [of f sc c table]) auto
  then show ?case using Cons.IH by simp
qed simp

lemma dedup_row_after:
  assumes "i < j" "j \<le> length cs" "dedup_executed (dedup_facts f (cs ! i), fst (call_session (dedup_step f sc) cs s) ! i)"
  shows "dedup_kept (snd (call_session (dedup_step f sc) (take j cs) s)) (tq_key (snd (cs ! i))) = Some (dedup_facts f (cs ! i))"
proof -
  let ?S = "\<lambda>n. snd (call_session (dedup_step f sc) (take n cs) s)"
  have i: "i < length cs" using assms by simp
  have "dedup_executed (dedup_facts f (cs ! i), fst (dedup_step f sc (cs ! i) (?S i)))"
    using assms(3) call_session_nth [OF i, of "dedup_step f sc" s] by simp
  then obtain r where r: "snd (dedup_step f sc (cs ! i) (?S i)) = dict_set (tq_key (snd (cs ! i))) r (?S i)"
    "(dr_identity_canonical r, dr_result r, dr_executed_at r, dr_attempt_number r) = dedup_facts f (cs ! i)"
    by (cases rule: dedup_step_cases [of f sc "cs ! i" "?S i"]) auto
  have s1: "?S (Suc i) = snd (dedup_step f sc (cs ! i) (?S i))"
    using i by (simp add: take_Suc_conv_app_nth call_session_append)
  have "take j cs = take (Suc i) cs @ drop (Suc i) (take j cs)"
    using assms(1,2) by (metis Suc_leI append_take_drop_id min.absorb1 take_take)
  then have "?S j = snd (call_session (dedup_step f sc) (drop (Suc i) (take j cs)) (?S (Suc i)))"
    by (metis call_session_append)
  moreover have "dict_get (?S (Suc i)) (tq_key (snd (cs ! i))) = Some r" using s1 r(1) by simp
  ultimately show ?thesis using r(2) dedup_row_stays by (simp add: dedup_kept_def)
qed

section \<open>Properties\<close>

definition tcr_ran :: "tcr_outcome \<Rightarrow> bool" where
  "tcr_ran out = (case out of ExecutedTransportDropped _ _ \<Rightarrow> True | ExecutedNow _ _ _ _ \<Rightarrow> True | _ \<Rightarrow> False)"

lemma dedup_executed_ran: "dedup_executed (x, Inr out) = tcr_ran out"
  by (simp add: dedup_executed_def tcr_ran_def split: tcr_outcome.split)

text \<open>A request that reaches the table finds the row: it is replayed, or rejected as a collision.\<close>

lemma dedup_step_hit:
  assumes "dedup_kept table (tq_key (snd c)) = Some (ident, res, at', n)" "fst (dedup_step f sc c table) = Inr out"
    "derive_key (sha_fn f) (tq_tool_name (snd c)) (tq_arguments (snd c)) sc = Inr (tq_key (snd c))"
    "tq_attempt (snd c) \<le> tq_max_attempts (snd c)" "tq_now_ms (snd c) \<le> tq_deadline (snd c)"
  shows "out = (if ident = request_identity f (snd c) then ReplayedFromCache (tq_key (snd c)) n at' res
    else RejectedKeyCollision (tq_key (snd c)) ident (request_identity f (snd c)))"
  using assms by (auto simp: dedup_kept_def dedup_step_def Let_def split: if_splits)

text \<open>C9. In any scenario, during the 24 hours for which the row of an executed side effect is documented to be kept, the
  side effect of its key does not happen again, whatever the transport loses; and every request of its key in that time
  that is within its attempts and its deadline gets exactly the first result (or is rejected as a collision when its identity fields differ), so a lost response
  is recovered by a retry.\<close>

theorem dedup_side_effect_once:
  assumes sim: "simulate_scenario f sc qs = Inr (tr, table)"
    and ij: "i < j" "j < length qs" "tq_key (qs ! i) = tq_key (qs ! j)" "tcr_ran (tr ! i)"
    and kept: "tq_now_ms (qs ! j) \<le> tq_now_ms (qs ! i) + 24 * 3600 * 1000"
  shows "\<not> tcr_ran (tr ! j) \<and>
    (derive_key (sha_fn f) (tq_tool_name (qs ! j)) (tq_arguments (qs ! j)) sc = Inr (tq_key (qs ! j)) \<and>
     tq_attempt (qs ! j) \<le> tq_max_attempts (qs ! j) \<and> tq_now_ms (qs ! j) \<le> tq_deadline (qs ! j) \<longrightarrow>
     tr ! j = (if request_identity f (qs ! i) = request_identity f (qs ! j)
       then ReplayedFromCache (tq_key (qs ! j)) (tq_attempt (qs ! i)) (tq_now_ms (qs ! i)) (simulated_result (i + 1, qs ! i))
       else RejectedKeyCollision (tq_key (qs ! j)) (request_identity f (qs ! i)) (request_identity f (qs ! j))))"
proof -
  let ?cs = "enumerate (Suc 0) qs" and ?call = "dedup_step f sc"
  have ses: "call_session ?call ?cs [] = (map Inr tr, table)"
    using simulate_from_session [of f sc "Suc 0" qs "[]"] sim by (simp add: simulate_scenario_def)
  then have len: "length tr = length qs" using length_call_session [of ?call ?cs "[]"] by simp
  have nth: "?cs ! n = (Suc n, qs ! n)" if "n < length qs" for n using that by (simp add: nth_enumerate_eq)
  have out: "fst (call_session ?call ?cs []) ! n = Inr (tr ! n)" if "n < length qs" for n using that ses len by simp
  have ran: "dedup_executed (dedup_facts f (?cs ! i), fst (call_session ?call ?cs []) ! i)"
    using ij out [of i] by (simp add: dedup_executed_ran)
  have tag: "fst (call_session (tagged (dedup_facts f) ?call) ?cs []) ! n = (dedup_facts f (?cs ! n), Inr (tr ! n))" if "n < length qs" for n
    using that out [OF that] by (simp add: call_session_tagged)
  have srt: "sorted (map (\<lambda>c. 0 :: int) xs)" for xs :: "(nat \<times> tcr_request) list" by (induction xs) auto
  have "\<not> tcr_ran (tr ! j)"
    using dedup.once [where f = f and sc = sc and cs = ?cs and s = "[]" and i = i and j = j] ij srt
    by (auto simp: tag nth dedup_executed_ran)
  moreover have k: "dedup_kept (snd (call_session ?call (take j ?cs) [])) (tq_key (snd (?cs ! j))) =
      Some (request_identity f (qs ! i), simulated_result (i + 1, qs ! i), tq_now_ms (qs ! i), tq_attempt (qs ! i))"
    using dedup_row_after [OF ij(1) _ ran] ij nth by (simp add: dedup_facts_def)
  moreover have st: "fst (?call (?cs ! j) (snd (call_session ?call (take j ?cs) []))) = Inr (tr ! j)"
    using call_session_nth [of j ?cs ?call "[]"] out [OF ij(2)] ij(2) by simp
  ultimately show ?thesis
    using dedup_step_hit [OF k st] nth [OF ij(2)] by simp
qed

definition demo_email :: tcr_request where
  "demo_email =
     \<lparr>tq_tool_name = ''email.send'', tq_arguments = PDict [(''to'', PStr ''a''), (''subject_hash'', PStr ''s''), (''body_sha256'', PStr ''b'')],
      tq_key = ''tcre_v1_email.send'', tq_attempt = 1, tq_max_attempts = 3, tq_deadline = 100, tq_side_effect_succeeds = True,
      tq_transport_succeeds = False, tq_now_ms = 10, tq_simulated_result = None\<rparr>"

definition demo_dedup_env :: dedup_env where
  "demo_dedup_env = \<lparr>sha_fn = fst, canon_fn = (\<lambda>d. concat (map fst d))\<rparr>"

lemma demo_email_key: "derive_key fst ''email.send'' a sc = Inr ''tcre_v1_email.send''"
  by (simp add: derive_key_def identity_fields_def)

text \<open>The response of the first attempt is lost; the second attempt gets it.\<close>

theorem dedup_side_effect_once_witness:
  "\<exists>tr table. simulate_scenario demo_dedup_env [] [demo_email, demo_email\<lparr>tq_attempt := 2, tq_now_ms := 50\<rparr>] = Inr (tr, table) \<and>
     tr ! 1 = ReplayedFromCache ''tcre_v1_email.send'' 1 10 (PDict [(''ok'', PBool True), (''step'', PInt 1)])"
proof -
  let ?qs = "[demo_email, demo_email\<lparr>tq_attempt := 2, tq_now_ms := 50\<rparr>]"
  obtain tr table where s: "simulate_scenario demo_dedup_env [] ?qs = Inr (tr, table)" "tcr_ran (tr ! 0)"
    by (simp add: simulate_scenario_def dedup_step_def demo_email_def demo_dedup_env_def demo_email_key Let_def tcr_ran_def request_identity_def)
  have "tr ! 1 = ReplayedFromCache ''tcre_v1_email.send'' 1 10 (PDict [(''ok'', PBool True), (''step'', PInt 1)])"
    using dedup_side_effect_once [OF s(1), of 0 1] s(2)
    by (simp add: demo_email_def demo_dedup_env_def demo_email_key simulated_result_def request_identity_def)
  then show ?thesis using s(1) by blast
qed

section \<open>Where the code leaves its documents\<close>

text \<open>The deadline is checked before the table: a side effect that happened, and whose response was lost, is
  reported as \<open>expired\<close> (documented as "nothing happened") to a retry after the deadline.\<close>

lemma expired_reported_after_execution:
  "\<exists>table. simulate_scenario demo_dedup_env [] [demo_email, demo_email\<lparr>tq_attempt := 2, tq_now_ms := 101\<rparr>] =
     Inr ([ExecutedTransportDropped ''tcre_v1_email.send'' 10, ExpiredDeadline ''tcre_v1_email.send'' 101 100], table)"
  by (simp add: simulate_scenario_def dedup_step_def demo_email_def demo_dedup_env_def demo_email_key Let_def)

text \<open>A row is replayed long after its \<open>expires_at\<close>, which the table never looks at.\<close>

lemma row_replayed_after_expiry:
  "\<exists>table r. simulate_scenario demo_dedup_env [] [demo_email, demo_email\<lparr>tq_attempt := 2, tq_now_ms := 10 ^ 9, tq_deadline := 10 ^ 9\<rparr>] =
     Inr ([ExecutedTransportDropped ''tcre_v1_email.send'' 10, ReplayedFromCache ''tcre_v1_email.send'' 1 10 r], table) \<and>
     map (dr_expires_at \<circ> snd) table = [86400010]"
  by (simp add: simulate_scenario_def dedup_step_def demo_email_def demo_dedup_env_def demo_email_key Let_def request_identity_def)

section \<open>Classifying a failure\<close>

datatype retry_class = RetrySafe | RetryUnsafe | RetryWithBackoff | DoNotRetry

datatype retry_reason =
    ModelGaveUp | HostReturned string | DeadlinePassed | HttpBackoff int int | HttpTransient int | HttpRejected int
  | HttpUnknown5xx int | HttpUnrecognised "int option" | TransportException string | UnknownException string
  | ExplicitTransport | UnknownKind

record failure =
  fl_kind :: "string option"
  fl_http_status :: "int option"
  fl_exception :: string
  fl_dedup_status :: "string option"
  fl_retry_after_ms :: "int option"
  fl_model_moved_on :: bool

definition transient_http :: "int list" where
  "transient_http = [502, 503, 504, 521, 522, 523, 524]"

definition hard_http :: "int list" where
  "hard_http = [400, 401, 403, 404, 405, 410, 422]"

definition transient_exc :: "string list" where
  "transient_exc =
     [''ConnectionResetError'', ''ConnectionAbortedError'', ''ConnectionRefusedError'', ''TimeoutError'', ''asyncio.TimeoutError'',
      ''RemoteProtocolError'', ''ProtocolError'', ''IncompleteRead'', ''BrokenPipeError'', ''EOFError'', ''ServerDisconnectedError'']"

definition classify_http :: "failure \<Rightarrow> retry_class \<times> retry_reason" where
  "classify_http x =
     (case fl_http_status x of
        None \<Rightarrow> (RetryUnsafe, HttpUnrecognised None)
      | Some st \<Rightarrow>
          if st = 429 then (RetryWithBackoff, HttpBackoff st (case fl_retry_after_ms x of None \<Rightarrow> 1000 | Some ms \<Rightarrow> ms))
          else if st \<in> set transient_http then (RetrySafe, HttpTransient st)
          else if st \<in> set hard_http then (RetryUnsafe, HttpRejected st)
          else if 500 \<le> st \<and> st < 600 then (RetryWithBackoff, HttpUnknown5xx st)
          else (RetryUnsafe, HttpUnrecognised (Some st)))"

text \<open>Some transient name occurs in the class name (\<open>any(t in exc for t in ...)\<close>).\<close>

definition classify_exception :: "string \<Rightarrow> retry_class \<times> retry_reason" where
  "classify_exception exc =
     (if list_ex (\<lambda>t. t = exc \<or> (\<exists>n\<in>set [0..<length exc + 1]. prefix t (drop n exc))) transient_exc then (RetrySafe, TransportException exc)
      else (RetryUnsafe, UnknownException exc))"

definition classify :: "failure \<Rightarrow> retry_class \<times> retry_reason" where
  "classify x =
     (if fl_kind x = Some ''model_decision'' \<and> fl_model_moved_on x then (DoNotRetry, ModelGaveUp)
      else if fl_kind x = Some ''envelope_response'' \<and> fl_dedup_status x \<in> {Some ''rejected_max_attempts'', Some ''rejected_key_collision''}
        then (RetryUnsafe, HostReturned (the (fl_dedup_status x)))
      else if fl_kind x = Some ''envelope_response'' \<and> fl_dedup_status x = Some ''expired'' then (RetryWithBackoff, DeadlinePassed)
      else if fl_kind x = Some ''http_status'' then classify_http x
      else if fl_kind x = Some ''exception'' then classify_exception (fl_exception x)
      else if fl_kind x = Some ''transport'' then (RetrySafe, ExplicitTransport)
      else (RetryUnsafe, UnknownKind))"

text \<open>A 503 with a \<open>Retry-After\<close> is documented to be retried with that back-off; the code ignores it.\<close>

lemma retry_after_of_503_ignored:
  "fl_kind x = Some ''http_status'' \<Longrightarrow> fl_http_status x = Some 503 \<Longrightarrow> fl_retry_after_ms x = Some ms \<Longrightarrow>
   classify x = (RetrySafe, HttpTransient 503)"
  by (simp add: classify_def classify_http_def transient_http_def)

text \<open>What the host answered after the table was consulted is never retried blindly.\<close>

lemma classify_backoff_iff:
  "fst (classify x) = RetryWithBackoff \<longleftrightarrow>
     fl_kind x = Some ''envelope_response'' \<and> fl_dedup_status x = Some ''expired'' \<or>
     fl_kind x = Some ''http_status'' \<and> (\<exists>st. fl_http_status x = Some st \<and>
       (st = 429 \<or> 500 \<le> st \<and> st < 600 \<and> st \<notin> set transient_http))"
  by (auto simp: classify_def classify_http_def classify_exception_def hard_http_def transient_http_def split: option.splits)

end
