(* ===== verification/Backoff.thy ===== *)
theory Backoff
  imports Prelude
begin

text \<open>
  The delay planner of \<open>exponential-backoff-with-jitter/backoff.py\<close>: the plan of all retries and its
  truncation to a budget.  A random generator is a state with \<open>random()\<close>, which returns a number in
  \<open>[0, 1)\<close>; \<open>uniform(a, b)\<close> is \<open>a + (b - a) * random()\<close>, as in the standard library.
\<close>

section \<open>Policies\<close>

datatype jitter = NoJitter | FullJitter | EqualJitter | Decorrelated

datatype backoff_error = BaseNotPositive | CapBelowBase | UnknownJitter string | AttemptsBelowOne | NegativeBudget

record backoff_policy =
  base_s :: rat
  cap_s :: rat
  jitter_of :: jitter

definition jitter_kind :: "string \<Rightarrow> jitter option" where
  "jitter_kind s =
     (if s = ''none'' then Some NoJitter else if s = ''full'' then Some FullJitter
      else if s = ''equal'' then Some EqualJitter else if s = ''decorrelated'' then Some Decorrelated else None)"

definition new_backoff_policy :: "rat \<Rightarrow> rat \<Rightarrow> string \<Rightarrow> backoff_error + backoff_policy" where
  "new_backoff_policy base cap' kind' =
     (if base \<le> 0 then Inl BaseNotPositive
      else if cap' < base then Inl CapBelowBase
      else case jitter_kind kind' of
        None \<Rightarrow> Inl (UnknownJitter kind')
      | Some j \<Rightarrow> Inr \<lparr>base_s = base, cap_s = cap', jitter_of = j\<rparr>)"

section \<open>Plans\<close>

definition uniform :: "('g \<Rightarrow> rat \<times> 'g) \<Rightarrow> rat \<Rightarrow> rat \<Rightarrow> 'g \<Rightarrow> rat \<times> 'g" where
  "uniform random a b g = (case random g of (u, g') \<Rightarrow> (a + (b - a) * u, g'))"

definition ceiling_s :: "backoff_policy \<Rightarrow> nat \<Rightarrow> rat" where
  "ceiling_s p i = min (cap_s p) (base_s p * 2 ^ i)"

definition next_delay :: "('g \<Rightarrow> rat \<times> 'g) \<Rightarrow> backoff_policy \<Rightarrow> nat \<Rightarrow> rat \<Rightarrow> 'g \<Rightarrow> rat \<times> 'g" where
  "next_delay random p i prev_delay g =
     (let c = ceiling_s p i in
      case jitter_of p of
        NoJitter \<Rightarrow> (c, g)
      | FullJitter \<Rightarrow> uniform random 0 c g
      | EqualJitter \<Rightarrow> (let half = c / 2; (d, g') = uniform random 0 half g in (half + d, g'))
      | Decorrelated \<Rightarrow> uniform random (base_s p) (min (cap_s p) (prev_delay * 3)) g)"

fun plan_from_index :: "('g \<Rightarrow> rat \<times> 'g) \<Rightarrow> backoff_policy \<Rightarrow> nat \<Rightarrow> nat \<Rightarrow> rat \<Rightarrow> 'g \<Rightarrow> (nat \<times> rat) list \<times> 'g" where
  "plan_from_index random p i 0 prev_delay g = ([], g)"
| "plan_from_index random p i (Suc n) prev_delay g =
     (let (d, g1) = next_delay random p i prev_delay g; (out, g2) = plan_from_index random p (i + 1) n d g1 in ((i, d) # out, g2))"

definition backoff_plan :: "('g \<Rightarrow> rat \<times> 'g) \<Rightarrow> backoff_policy \<Rightarrow> int \<Rightarrow> 'g \<Rightarrow> backoff_error + (nat \<times> rat) list \<times> 'g" where
  "backoff_plan random p attempts_total g =
     (if attempts_total < 1 then Inl AttemptsBelowOne
      else Inr (plan_from_index random p 0 (nat (attempts_total - 1)) (base_s p) g))"

fun truncate_loop :: "rat \<Rightarrow> rat \<Rightarrow> (nat \<times> rat) list \<Rightarrow> (nat \<times> rat) list" where
  "truncate_loop budget cumulative [] = []"
| "truncate_loop budget cumulative ((i, d) # ds) =
     (if cumulative + d > budget then [] else (i, d) # truncate_loop budget (cumulative + d) ds)"

definition truncate_to_budget :: "(nat \<times> rat) list \<Rightarrow> rat \<Rightarrow> backoff_error + (nat \<times> rat) list" where
  "truncate_to_budget schedule budget =
     (if budget < 0 then Inl NegativeBudget else Inr (truncate_loop budget 0 schedule))"

section \<open>Bounds\<close>

definition fair :: "('g \<Rightarrow> rat \<times> 'g) \<Rightarrow> bool" where
  "fair random \<longleftrightarrow> (\<forall>g. 0 \<le> fst (random g) \<and> fst (random g) < 1)"

lemma uniform_bounds:
  assumes "fair random" "a \<le> b"
  shows "a \<le> fst (uniform random a b g) \<and> fst (uniform random a b g) \<le> b"
proof -
  obtain u g' where r: "random g = (u, g')" by (cases "random g")
  then have "0 \<le> u" "u \<le> 1" using assms(1) by (auto simp: fair_def dest!: spec [of _ g])
  then have "0 \<le> (b - a) * u" "(b - a) * u \<le> (b - a) * 1" using assms(2) by (auto simp del: mult_1_right intro: mult_left_mono)
  then show ?thesis using r by (simp add: uniform_def)
qed

text \<open>The interval a strategy draws the delay of retry \<open>i\<close> from.\<close>

definition delay_range :: "backoff_policy \<Rightarrow> nat \<Rightarrow> rat \<Rightarrow> rat \<times> rat" where
  "delay_range p i prev_delay =
     (case jitter_of p of
        NoJitter \<Rightarrow> (ceiling_s p i, ceiling_s p i)
      | FullJitter \<Rightarrow> (0, ceiling_s p i)
      | EqualJitter \<Rightarrow> (ceiling_s p i / 2, ceiling_s p i)
      | Decorrelated \<Rightarrow> (base_s p, min (cap_s p) (prev_delay * 3)))"

definition policy_ok :: "backoff_policy \<Rightarrow> bool" where
  "policy_ok p \<longleftrightarrow> 0 < base_s p \<and> base_s p \<le> cap_s p"

lemma ceiling_pos: "policy_ok p \<Longrightarrow> 0 < ceiling_s p i"
  by (simp add: policy_ok_def ceiling_s_def)

lemma next_delay_range:
  assumes "fair random" "policy_ok p" "jitter_of p = Decorrelated \<Longrightarrow> base_s p \<le> prev"
  shows "fst (delay_range p i prev) \<le> fst (next_delay random p i prev g) \<and> fst (next_delay random p i prev g) \<le> snd (delay_range p i prev)"
proof -
  have c: "0 < ceiling_s p i" using ceiling_pos [OF assms(2)] .
  have b: "base_s p \<le> min (cap_s p) (prev * 3)" if "jitter_of p = Decorrelated"
    using assms(2) assms(3) [OF that] by (simp add: policy_ok_def)
  show ?thesis
    using uniform_bounds [OF assms(1), of 0 "ceiling_s p i" g] uniform_bounds [OF assms(1), of 0 "ceiling_s p i / 2" g]
      uniform_bounds [OF assms(1), of "base_s p" "min (cap_s p) (prev * 3)" g] b c
    by (cases "jitter_of p") (auto simp: next_delay_def delay_range_def Let_def case_prod_beta)
qed

text \<open>Each delay in its range, given the delay before it.\<close>

fun delays_in_range :: "backoff_policy \<Rightarrow> nat \<Rightarrow> rat \<Rightarrow> (nat \<times> rat) list \<Rightarrow> bool" where
  "delays_in_range p i prev [] = True"
| "delays_in_range p i prev ((j, d) # ds) =
     (j = i \<and> fst (delay_range p i prev) \<le> d \<and> d \<le> snd (delay_range p i prev) \<and> delays_in_range p (i + 1) d ds)"

lemma plan_in_range:
  assumes "fair random" "policy_ok p"
  shows "base_s p \<le> prev \<or> jitter_of p \<noteq> Decorrelated \<Longrightarrow>
    delays_in_range p i prev (fst (plan_from_index random p i n prev g)) \<and> length (fst (plan_from_index random p i n prev g)) = n"
proof (induction n arbitrary: i prev g)
  case (Suc n)
  have r: "fst (delay_range p i prev) \<le> fst (next_delay random p i prev g) \<and> fst (next_delay random p i prev g) \<le> snd (delay_range p i prev)"
    using Suc.prems by (intro next_delay_range [OF assms]) auto
  then have "base_s p \<le> fst (next_delay random p i prev g) \<or> jitter_of p \<noteq> Decorrelated"
    by (cases "jitter_of p") (auto simp: delay_range_def)
  then show ?case using r Suc.IH [of "fst (next_delay random p i prev g)" "i + 1" "snd (next_delay random p i prev g)"]
    by (simp add: case_prod_beta)
qed simp

lemma in_range_bounds:
  assumes "policy_ok p"
  shows "delays_in_range p i prev ds \<Longrightarrow> list_all (\<lambda>(j, d). 0 \<le> d \<and> d \<le> cap_s p) ds"
proof (induction ds arbitrary: i prev)
  case (Cons x ds)
  have "0 < ceiling_s p i" "ceiling_s p i \<le> cap_s p" "0 < base_s p" using ceiling_pos [OF assms] assms by (auto simp: ceiling_s_def policy_ok_def)
  then show ?case using Cons by (cases x; cases "jitter_of p") (auto simp: delay_range_def)
qed simp

lemma in_range_indices: "delays_in_range p i prev ds \<Longrightarrow> map fst ds = [i..<i + length ds]"
proof (induction ds arbitrary: i prev)
  case (Cons x ds)
  then have "map fst ds = [Suc i..<Suc i + length ds]" "fst x = i" by (cases x, fastforce)+
  moreover have "[i..<i + length (x # ds)] = i # [Suc i..<Suc i + length ds]" by (simp add: upt_conv_Cons del: upt_Suc)
  ultimately show ?case by simp
qed simp

definition total_delay :: "(nat \<times> rat) list \<Rightarrow> rat" where
  "total_delay ds = sum_list (map snd ds)"

lemma truncate_loop_prefix: "\<exists>k \<le> length ds. truncate_loop b cu ds = take k ds \<and> (cu \<le> b \<longrightarrow> cu + total_delay (take k ds) \<le> b) \<and>
    (k < length ds \<longrightarrow> cu + total_delay (take (Suc k) ds) > b)"
proof (induction ds arbitrary: cu)
  case (Cons x ds)
  obtain i d where x: "x = (i, d)" by (cases x)
  show ?case
  proof (cases "cu + d > b")
    case True
    then show ?thesis by (intro exI [of _ 0]) (simp add: x total_delay_def)
  next
    case False
    obtain k where "k \<le> length ds" "truncate_loop b (cu + d) ds = take k ds" "cu + d + total_delay (take k ds) \<le> b"
      "k < length ds \<longrightarrow> cu + d + total_delay (take (Suc k) ds) > b" using Cons.IH [of "cu + d"] False by auto
    then show ?thesis using False by (intro exI [of _ "Suc k"]) (simp add: x total_delay_def add.assoc)
  qed
qed (simp add: total_delay_def)

section \<open>Properties\<close>

text \<open>For every accepted policy and every random generator a plan of \<open>n\<close> attempts has exactly the
  \<open>n - 1\<close> retries in order, each delay lies in the interval its strategy promises (for \<open>decorrelated\<close>
  given the delay before it), so none is negative or above the cap; and truncation to a budget keeps the
  longest prefix whose total fits it.\<close>

theorem backoff_plan_within_policy:
  assumes "new_backoff_policy base c kind' = Inr p" "fair random" "backoff_plan random p n g = Inr (ds, g')"
    and "truncate_to_budget ds budget = Inr es"
  shows "map fst ds = [0..<nat (n - 1)] \<and> delays_in_range p 0 base ds \<and> list_all (\<lambda>(j, d). 0 \<le> d \<and> d \<le> c) ds \<and>
    (\<exists>k \<le> length ds. es = take k ds \<and> total_delay es \<le> budget \<and> (k < length ds \<longrightarrow> total_delay (take (Suc k) ds) > budget))"
proof -
  have p: "policy_ok p" "base_s p = base" "cap_s p = c" using assms(1)
    by (auto simp: new_backoff_policy_def policy_ok_def split: if_splits option.splits)
  have ds: "ds = fst (plan_from_index random p 0 (nat (n - 1)) (base_s p) g)"
    using assms(3) by (auto simp: backoff_plan_def split: if_splits)
  have r: "delays_in_range p 0 base ds" "length ds = nat (n - 1)"
    using plan_in_range [OF assms(2) p(1), of base 0 "nat (n - 1)" g] p(2) ds by simp_all
  have "budget \<ge> 0" "es = truncate_loop budget 0 ds" using assms(4) by (auto simp: truncate_to_budget_def split: if_splits)
  then show ?thesis using r in_range_indices [OF r(1)] in_range_bounds [OF p(1) r(1)] p(3) truncate_loop_prefix [of ds budget 0] by auto
qed

theorem backoff_plan_within_policy_witness:
  "backoff_plan (\<lambda>g. (1 / 2, g)) \<lparr>base_s = 1, cap_s = 5, jitter_of = EqualJitter\<rparr> 4 () =
     Inr ([(0, 3 / 4), (1, 3 / 2), (2, 3)], ()) \<and>
   truncate_to_budget [(0, 3 / 4), (1, 3 / 2), (2, 3)] 4 = Inr [(0, 3 / 4), (1, 3 / 2)] \<and>
   list_all (\<lambda>(j, d). 0 \<le> d \<and> d \<le> 5) [(0 :: nat, 3 / 4 :: rat), (1, 3 / 2), (2, 3)]"
proof -
  let ?p = "\<lparr>base_s = 1, cap_s = 5, jitter_of = EqualJitter\<rparr>" and ?ds = "[(0 :: nat, 3 / 4 :: rat), (1, 3 / 2), (2, 3)]"
  have new: "new_backoff_policy 1 5 ''equal'' = Inr ?p" by (simp add: new_backoff_policy_def jitter_kind_def)
  have fair: "fair (\<lambda>g :: unit. (1 / 2, g))" by (simp add: fair_def)
  have plan: "backoff_plan (\<lambda>g. (1 / 2, g)) ?p 4 () = Inr (?ds, ())"
    by (simp add: backoff_plan_def eval_nat_numeral next_delay_def uniform_def ceiling_s_def Let_def)
  have trunc: "truncate_to_budget ?ds 4 = Inr [(0, 3 / 4), (1, 3 / 2)]" by (simp add: truncate_to_budget_def)
  show ?thesis using plan trunc backoff_plan_within_policy [OF new fair plan trunc] by blast
qed

end
