(* ===== verification/Handoff_Store.thy ===== *)
theory Handoff_Store
  imports Prelude
begin

text \<open>
  The state envelope that successive ticks of a dispatcher hand on
  (\<open>cross-tick-state-handoff/handoff.py\<close>): a JSON file read and replaced under an \<open>flock\<close> on a sibling
  lock file.  Processes run one transaction each and are interleaved system call by system call; any of
  them may die at any point, which closes its descriptors and so frees its lock.  A JSON object reads
  back as it was written; temporary files are private to their process (\<open>mkstemp\<close>), so their content is
  kept in the program counter; \<open>os.replace\<close> is atomic.
\<close>

section \<open>Envelopes\<close>

type_synonym ho_state = "(string, pyval) dict"

datatype handoff_error = EnvelopeNotObject | VersionMismatch pyval | StateMissing | LockTimeout

definition envelope_of :: "int \<Rightarrow> pyval \<Rightarrow> ho_state \<Rightarrow> pyval" where
  "envelope_of version meta st = PDict [(''_schema'', PInt version), (''_meta'', meta), (''state'', PDict st)]"

text \<open>\<open>version != self.schema_version\<close>: a float or a bool equals the integer it denotes.\<close>

fun py_equals_int :: "pyval \<Rightarrow> int \<Rightarrow> bool" where
  "py_equals_int (PInt i) v = (i = v)"
| "py_equals_int (PBool b) v = (of_bool b = v)"
| "py_equals_int (PFloat x) v = (x = of_int v)"
| "py_equals_int _ v = False"

definition unwrap :: "int \<Rightarrow> pyval \<Rightarrow> handoff_error + ho_state" where
  "unwrap version env =
     (case env of
        PDict d \<Rightarrow>
          if \<not> py_equals_int (py_get env ''_schema'') version then Inl (VersionMismatch (py_get env ''_schema''))
          else (case py_get env ''state'' of PDict st \<Rightarrow> Inr st | _ \<Rightarrow> Inl StateMissing)
      | _ \<Rightarrow> Inl EnvelopeNotObject)"

text \<open>\<open>snapshot()\<close>, also \<open>load()\<close>: \<open>None\<close> when nothing has been committed yet.\<close>

definition snapshot :: "int \<Rightarrow> pyval option \<Rightarrow> handoff_error + ho_state option" where
  "snapshot version f = (case f of None \<Rightarrow> Inr None | Some env \<Rightarrow> map_sum id Some (unwrap version env))"

lemma unwrap_envelope [simp]: "unwrap v (envelope_of v m st) = Inr st"
  by (simp add: unwrap_def envelope_of_def)

section \<open>Transactions\<close>

datatype 'e ho_result = Committed | Refused handoff_error | BodyRaised 'e | WriteFailed

datatype 'e ho_pc =
    Idle
  | Trying rat
  | Locked
  | Editing ho_state
  | Writing ho_state
  | Replacing ho_state
  | Releasing "'e ho_result"
  | Finished "'e ho_result"
  | Dead

datatype ho_action = Go rat | Fail | Die

record 'e handoff_sys =
  hs_file :: "pyval option"
  hs_lock :: "nat option"
  hs_pc :: "nat \<Rightarrow> 'e ho_pc"
  hs_log :: "(nat \<times> ho_state) list"

record 'e handoff_cfg =
  hc_version :: int
  hc_timeout :: rat
  hc_meta :: "nat \<Rightarrow> pyval"
  hc_body :: "nat \<Rightarrow> ho_state \<Rightarrow> 'e + ho_state"

abbreviation goto :: "nat \<Rightarrow> 'e ho_pc \<Rightarrow> 'e handoff_sys \<Rightarrow> 'e handoff_sys" where
  "goto i c s \<equiv> s\<lparr>hs_pc := (hs_pc s)(i := c)\<rparr>"

definition unlock :: "nat \<Rightarrow> 'e handoff_sys \<Rightarrow> 'e handoff_sys" where
  "unlock i s = (if hs_lock s = Some i then s\<lparr>hs_lock := None\<rparr> else s)"

text \<open>\<open>Go now\<close>: the process makes its next call, the clock reading \<open>now\<close>; \<open>Fail\<close>: that call fails (disk
  full, for example); \<open>Die\<close>: the process is killed.  \<open>hs_log\<close> records the commits.\<close>

definition ho_step :: "'e handoff_cfg \<Rightarrow> nat \<Rightarrow> ho_action \<Rightarrow> 'e handoff_sys \<Rightarrow> 'e handoff_sys option" where
  "ho_step cf i a s =
     (case a of
        Die \<Rightarrow> (case hs_pc s i of Finished r \<Rightarrow> None | Dead \<Rightarrow> None | _ \<Rightarrow> Some (unlock i (goto i Dead s)))
      | Fail \<Rightarrow> (case hs_pc s i of Writing st \<Rightarrow> Some (goto i (Releasing WriteFailed) s)
          | Replacing st \<Rightarrow> Some (goto i (Releasing WriteFailed) s) | _ \<Rightarrow> None)
      | Go now \<Rightarrow>
          (case hs_pc s i of
             Idle \<Rightarrow> Some (goto i (Trying (now + hc_timeout cf)) s)
           | Trying deadline \<Rightarrow>
               if hs_lock s = None then Some (goto i Locked (s\<lparr>hs_lock := Some i\<rparr>))
               else if now \<ge> deadline then Some (goto i (Finished (Refused LockTimeout)) s)
               else Some s
           | Locked \<Rightarrow>
               (case snapshot (hc_version cf) (hs_file s) of
                  Inl e \<Rightarrow> Some (goto i (Releasing (Refused e)) s)
                | Inr None \<Rightarrow> Some (goto i (Editing []) s)
                | Inr (Some st) \<Rightarrow> Some (goto i (Editing st) s))
           | Editing st \<Rightarrow>
               (case hc_body cf i st of
                  Inl e \<Rightarrow> Some (goto i (Releasing (BodyRaised e)) s)
                | Inr st' \<Rightarrow> Some (goto i (Writing st') s))
           | Writing st \<Rightarrow> Some (goto i (Replacing st) s)
           | Replacing st \<Rightarrow>
               Some (goto i (Releasing Committed)
                 (s\<lparr>hs_file := Some (envelope_of (hc_version cf) (hc_meta cf i) st), hs_log := hs_log s @ [(i, st)]\<rparr>))
           | Releasing r \<Rightarrow> Some (unlock i (goto i (Finished r) s))
           | Finished r \<Rightarrow> None
           | Dead \<Rightarrow> None))"

inductive ho_reachable :: "'e handoff_cfg \<Rightarrow> pyval option \<Rightarrow> 'e handoff_sys \<Rightarrow> bool" for cf f0 where
  ho_start: "ho_reachable cf f0 \<lparr>hs_file = f0, hs_lock = None, hs_pc = (\<lambda>i. Idle), hs_log = []\<rparr>"
| ho_move: "ho_reachable cf f0 s \<Longrightarrow> ho_step cf i a s = Some s' \<Longrightarrow> ho_reachable cf f0 s'"

section \<open>The invariant\<close>

fun in_section :: "'e ho_pc \<Rightarrow> bool" where
  "in_section Locked = True"
| "in_section (Editing st) = True"
| "in_section (Writing st) = True"
| "in_section (Replacing st) = True"
| "in_section (Releasing r) = True"
| "in_section _ = False"

text \<open>The state a transaction starts from: what is committed, or nothing.\<close>

definition base_state :: "int \<Rightarrow> pyval option \<Rightarrow> handoff_error + ho_state" where
  "base_state v f = map_sum id (\<lambda>st. case st of None \<Rightarrow> [] | Some st \<Rightarrow> st) (snapshot v f)"

text \<open>A serial history: each transaction's body ran on exactly what the one before it had committed.\<close>

fun serial :: "(nat \<Rightarrow> ho_state \<Rightarrow> 'e + ho_state) \<Rightarrow> ho_state \<Rightarrow> (nat \<times> ho_state) list \<Rightarrow> bool" where
  "serial body st [] = True"
| "serial body st ((i, st') # hist) = (body i st = Inr st' \<and> serial body st' hist)"

definition after_log :: "ho_state \<Rightarrow> (nat \<times> ho_state) list \<Rightarrow> ho_state" where
  "after_log st hist = (if hist = [] then st else snd (last hist))"

lemma serial_snoc: "serial body st (hist @ [(i, st')]) \<longleftrightarrow> serial body st hist \<and> body i (after_log st hist) = Inr st'"
  by (induction body st hist rule: serial.induct) (auto simp: after_log_def)

definition ho_committed :: "'e ho_pc \<Rightarrow> bool" where
  "ho_committed c \<longleftrightarrow> c \<in> {Releasing Committed, Finished Committed}"

definition pc_inv :: "'e handoff_cfg \<Rightarrow> 'e handoff_sys \<Rightarrow> nat \<Rightarrow> bool" where
  "pc_inv cf s i \<longleftrightarrow>
     (hs_lock s = Some i \<longleftrightarrow> in_section (hs_pc s i)) \<and>
     (\<forall>st. hs_pc s i = Editing st \<longrightarrow> base_state (hc_version cf) (hs_file s) = Inr st) \<and>
     (\<forall>st. hs_pc s i \<in> {Writing st, Replacing st} \<longrightarrow>
        (\<exists>st0. base_state (hc_version cf) (hs_file s) = Inr st0 \<and> hc_body cf i st0 = Inr st)) \<and>
     (ho_committed (hs_pc s i) \<longrightarrow> i \<in> fst ` set (hs_log s)) \<and>
     (i \<in> fst ` set (hs_log s) \<longrightarrow> ho_committed (hs_pc s i) \<or> hs_pc s i = Dead)"

definition log_inv :: "'e handoff_cfg \<Rightarrow> pyval option \<Rightarrow> 'e handoff_sys \<Rightarrow> bool" where
  "log_inv cf f0 s \<longleftrightarrow> distinct (map fst (hs_log s)) \<and>
     (if hs_log s = [] then hs_file s = f0
      else (\<exists>st0. base_state (hc_version cf) f0 = Inr st0 \<and> serial (hc_body cf) st0 (hs_log s) \<and>
        snapshot (hc_version cf) (hs_file s) = Inr (Some (after_log st0 (hs_log s)))))"

text \<open>A step that touches neither file, log nor lock only has to keep the facts of its own process.\<close>

lemma pc_inv_local:
  assumes "\<forall>j. pc_inv cf s j" "in_section c \<longleftrightarrow> in_section (hs_pc s i)" "ho_committed c \<longleftrightarrow> ho_committed (hs_pc s i)" "hs_pc s i \<noteq> Dead"
    "\<And>st. c = Editing st \<Longrightarrow> base_state (hc_version cf) (hs_file s) = Inr st"
    "\<And>st. c \<in> {Writing st, Replacing st} \<Longrightarrow> \<exists>st0. base_state (hc_version cf) (hs_file s) = Inr st0 \<and> hc_body cf i st0 = Inr st"
  shows "\<forall>j. pc_inv cf (goto i c s) j"
proof
  fix j
  show "pc_inv cf (goto i c s) j"
    using assms(1) [rule_format, of j] assms(2-6) by (cases "j = i") (auto simp: pc_inv_def)
qed

lemma in_section_unique:
  assumes "\<forall>j. pc_inv cf s j" "in_section (hs_pc s i)" "in_section (hs_pc s j)"
  shows "i = j"
  using assms(1) [rule_format, of i] assms(1) [rule_format, of j] assms(2,3) by (simp add: pc_inv_def)

lemma acquire_inv:
  assumes "\<forall>j. pc_inv cf s j" "hs_lock s = None" "hs_pc s i = Trying d"
  shows "\<forall>j. pc_inv cf (goto i Locked (s\<lparr>hs_lock := Some i\<rparr>)) j"
proof
  fix j
  show "pc_inv cf (goto i Locked (s\<lparr>hs_lock := Some i\<rparr>)) j"
    using assms(1) [rule_format, of j] assms(2,3) by (cases "j = i") (auto simp: pc_inv_def ho_committed_def)
qed

lemma commit_inv:
  assumes inv: "\<forall>j. pc_inv cf s j" and lg: "log_inv cf f0 s" and pc: "hs_pc s i = Replacing st"
    and s': "s' = goto i (Releasing Committed) (s\<lparr>hs_file := Some (envelope_of (hc_version cf) m st), hs_log := hs_log s @ [(i, st)]\<rparr>)"
  shows "(\<forall>j. pc_inv cf s' j) \<and> log_inv cf f0 s'"
proof
  have other: "\<not> in_section (hs_pc s j)" if "j \<noteq> i" for j
    using in_section_unique [OF inv, of j i] that pc by auto
  show "\<forall>j. pc_inv cf s' j"
  proof
    fix j
    show "pc_inv cf s' j"
    proof (cases "j = i")
      case True
      then show ?thesis using inv [rule_format, of i] pc by (auto simp: pc_inv_def s' ho_committed_def)
    next
      case False
      then show ?thesis using inv [rule_format, of j] other [OF False] by (auto simp: pc_inv_def s' ho_committed_def)
    qed
  qed
  obtain st0 where st0: "base_state (hc_version cf) (hs_file s) = Inr st0" "hc_body cf i st0 = Inr st"
    using inv [rule_format, of i] pc by (auto simp: pc_inv_def)
  have new: "i \<notin> fst ` set (hs_log s)" using inv [rule_format, of i] pc by (auto simp: pc_inv_def ho_committed_def)
  have base: "snapshot (hc_version cf) (hs_file s') = Inr (Some st)" by (simp add: s' snapshot_def)
  show "log_inv cf f0 s'"
  proof (cases "hs_log s = []")
    case True
    then show ?thesis using lg st0 base new by (auto simp: log_inv_def s' after_log_def)
  next
    case False
    then obtain b where b: "base_state (hc_version cf) f0 = Inr b" "serial (hc_body cf) b (hs_log s)"
      "base_state (hc_version cf) (hs_file s) = Inr (after_log b (hs_log s))" using lg by (auto simp: log_inv_def base_state_def)
    then have "serial (hc_body cf) b (hs_log s @ [(i, st)])" using st0 by (simp add: serial_snoc)
    then show ?thesis using b(1) base new lg by (auto simp: log_inv_def s' after_log_def)
  qed
qed

lemma leave_inv:
  assumes "\<forall>j. pc_inv cf s j" "\<not> in_section c" "\<forall>st. c \<noteq> Editing st" "ho_committed c = (ho_committed (hs_pc s i) \<and> c \<noteq> Dead)" "c = Dead \<or> hs_pc s i \<noteq> Dead"
  shows "\<forall>j. pc_inv cf (unlock i (goto i c s)) j"
proof
  fix j
  have cw: "\<forall>st. c \<noteq> Writing st \<and> c \<noteq> Replacing st" using assms(2) by auto
  show "pc_inv cf (unlock i (goto i c s)) j"
    using assms(1) [rule_format, of j] assms(2-5) cw by (cases "j = i") (auto simp: pc_inv_def unlock_def)
qed

lemma unlock_fields [simp]: "hs_file (unlock i s) = hs_file s" "hs_log (unlock i s) = hs_log s" "hs_pc (unlock i s) = hs_pc s"
  by (simp_all add: unlock_def)

lemma goto_inv:
  assumes "\<forall>j. pc_inv cf s j" "log_inv cf f0 s"
    "in_section c \<longleftrightarrow> in_section (hs_pc s i)" "ho_committed c \<longleftrightarrow> ho_committed (hs_pc s i)" "hs_pc s i \<noteq> Dead"
    "\<And>st. c = Editing st \<Longrightarrow> base_state (hc_version cf) (hs_file s) = Inr st"
    "\<And>st. c \<in> {Writing st, Replacing st} \<Longrightarrow> \<exists>st0. base_state (hc_version cf) (hs_file s) = Inr st0 \<and> hc_body cf i st0 = Inr st"
  shows "(\<forall>j. pc_inv cf (goto i c s) j) \<and> log_inv cf f0 (goto i c s)"
proof
  show "\<forall>j. pc_inv cf (goto i c s) j" using assms(1,3-7) by (rule pc_inv_local)
  show "log_inv cf f0 (goto i c s)" using assms(2) by (simp add: log_inv_def)
qed

lemma go_inv:
  assumes inv: "\<forall>j. pc_inv cf s j" and lg: "log_inv cf f0 s" and st: "ho_step cf i (Go now) s = Some s'"
  shows "(\<forall>j. pc_inv cf s' j) \<and> log_inv cf f0 s'"
proof (cases "hs_pc s i")
  case Idle
  then have s': "s' = goto i (Trying (now + hc_timeout cf)) s" using st by (simp add: ho_step_def)
  show ?thesis unfolding s' by (rule goto_inv [OF inv lg]) (use Idle in \<open>auto simp: ho_committed_def\<close>)
next
  case (Trying d)
  consider (lock) "hs_lock s = None" "s' = goto i Locked (s\<lparr>hs_lock := Some i\<rparr>)"
    | (late) "s' = goto i (Finished (Refused LockTimeout)) s" | (wait) "s' = s"
    using st Trying by (auto simp: ho_step_def split: if_splits)
  then show ?thesis
  proof cases
    case lock
    then show ?thesis using acquire_inv [OF inv lock(1) Trying] lg by (simp add: log_inv_def)
  next
    case late
    show ?thesis unfolding late by (rule goto_inv [OF inv lg]) (use Trying in \<open>auto simp: ho_committed_def\<close>)
  qed (use inv lg in simp)
next
  case Locked
  consider (refused) e where "s' = goto i (Releasing (Refused e)) s"
    | (loaded) st' where "s' = goto i (Editing st') s" "base_state (hc_version cf) (hs_file s) = Inr st'"
    using st Locked by (auto simp: ho_step_def base_state_def split: sum.splits option.splits)
  then show ?thesis
  proof cases
    case refused
    show ?thesis unfolding refused by (rule goto_inv [OF inv lg]) (use Locked in \<open>auto simp: ho_committed_def\<close>)
  next
    case loaded
    show ?thesis unfolding loaded(1) by (rule goto_inv [OF inv lg]) (use Locked loaded(2) in \<open>auto simp: ho_committed_def\<close>)
  qed
next
  case (Editing st1)
  have base: "base_state (hc_version cf) (hs_file s) = Inr st1" using inv [rule_format, of i] Editing by (simp add: pc_inv_def)
  consider (raised) e where "s' = goto i (Releasing (BodyRaised e)) s"
    | (ran) st' where "s' = goto i (Writing st') s" "hc_body cf i st1 = Inr st'"
    using st Editing by (auto simp: ho_step_def split: sum.splits)
  then show ?thesis
  proof cases
    case raised
    show ?thesis unfolding raised by (rule goto_inv [OF inv lg]) (use Editing in \<open>auto simp: ho_committed_def\<close>)
  next
    case ran
    show ?thesis unfolding ran(1) by (rule goto_inv [OF inv lg]) (use Editing ran(2) base in \<open>auto simp: ho_committed_def\<close>)
  qed
next
  case (Writing st1)
  then have s': "s' = goto i (Replacing st1) s" using st by (simp add: ho_step_def)
  have "\<exists>st0. base_state (hc_version cf) (hs_file s) = Inr st0 \<and> hc_body cf i st0 = Inr st1"
    using inv [rule_format, of i] Writing by (auto simp: pc_inv_def)
  then show ?thesis unfolding s' by (intro goto_inv [OF inv lg]) (use Writing in \<open>auto simp: ho_committed_def\<close>)
next
  case (Replacing st1)
  show ?thesis by (rule commit_inv [OF inv lg Replacing, where m = "hc_meta cf i"]) (use st Replacing in \<open>simp add: ho_step_def\<close>)
next
  case (Releasing r)
  then have s': "s' = unlock i (goto i (Finished r) s)" using st by (simp add: ho_step_def)
  have "\<forall>j. pc_inv cf s' j" unfolding s' by (rule leave_inv [OF inv]) (use Releasing in \<open>auto simp: ho_committed_def\<close>)
  then show ?thesis using lg by (simp add: s' log_inv_def)
qed (use st in \<open>simp_all add: ho_step_def\<close>)

lemma ho_step_inv:
  assumes inv: "\<forall>j. pc_inv cf s j" and lg: "log_inv cf f0 s" and st: "ho_step cf i a s = Some s'"
  shows "(\<forall>j. pc_inv cf s' j) \<and> log_inv cf f0 s'"
proof (cases a)
  case (Go now)
  then show ?thesis using go_inv [OF inv lg] st by blast
next
  case Fail
  then have s': "s' = goto i (Releasing WriteFailed) s" and pc: "\<exists>st. hs_pc s i = Writing st \<or> hs_pc s i = Replacing st"
    using st by (auto simp: ho_step_def split: ho_pc.splits)
  show ?thesis unfolding s' by (rule goto_inv [OF inv lg]) (use pc in \<open>auto simp: ho_committed_def\<close>)
next
  case Die
  then have s': "s' = unlock i (goto i Dead s)" using st by (auto simp: ho_step_def split: ho_pc.splits)
  have "\<forall>j. pc_inv cf s' j" unfolding s' by (rule leave_inv [OF inv]) (auto simp: ho_committed_def)
  then show ?thesis using lg by (simp add: s' log_inv_def)
qed

lemma ho_reachable_inv: "ho_reachable cf f0 s \<Longrightarrow> (\<forall>j. pc_inv cf s j) \<and> log_inv cf f0 s"
proof (induction rule: ho_reachable.induct)
  case ho_start
  show ?case by (simp add: pc_inv_def log_inv_def ho_committed_def)
next
  case (ho_move s i a s')
  then show ?case using ho_step_inv [of cf s f0 i a s'] by blast
qed

section \<open>Properties\<close>

text \<open>How many calls a process still makes inside its critical section.\<close>

fun section_calls :: "'e ho_pc \<Rightarrow> nat" where
  "section_calls Locked = 5"
| "section_calls (Editing st) = 4"
| "section_calls (Writing st) = 3"
| "section_calls (Replacing st) = 2"
| "section_calls (Releasing r) = 1"
| "section_calls _ = 0"

lemma section_progress:
  "in_section (hs_pc s i) \<Longrightarrow> hs_lock s = Some i \<Longrightarrow>
    \<exists>s'. ho_step cf i (Go now) s = Some s' \<and> section_calls (hs_pc s' i) < section_calls (hs_pc s i) \<and>
      (in_section (hs_pc s' i) \<and> hs_lock s' = Some i \<or> hs_lock s' = None \<and> (\<exists>r. hs_pc s' i = Finished r))"
  by (cases "hs_pc s i") (auto simp: ho_step_def unlock_def split: sum.split option.split)

fun ho_run :: "'e handoff_cfg \<Rightarrow> (nat \<times> ho_action) list \<Rightarrow> 'e handoff_sys \<Rightarrow> 'e handoff_sys option" where
  "ho_run cf [] s = Some s"
| "ho_run cf ((i, a) # as) s = (case ho_step cf i a s of None \<Rightarrow> None | Some s' \<Rightarrow> ho_run cf as s')"

lemma section_leaves:
  "in_section (hs_pc s i) \<Longrightarrow> hs_lock s = Some i \<Longrightarrow>
    \<exists>n s' r. n \<le> section_calls (hs_pc s i) \<and> ho_run cf (replicate n (i, Go now)) s = Some s' \<and>
      hs_lock s' = None \<and> hs_pc s' i = Finished r"
proof (induction "section_calls (hs_pc s i)" arbitrary: s rule: less_induct)
  case less
  obtain s1 where s1: "ho_step cf i (Go now) s = Some s1" "section_calls (hs_pc s1 i) < section_calls (hs_pc s i)"
    "in_section (hs_pc s1 i) \<and> hs_lock s1 = Some i \<or> hs_lock s1 = None \<and> (\<exists>r. hs_pc s1 i = Finished r)"
    using section_progress [OF less.prems, of cf now] by blast
  from s1(3) show ?case
  proof
    assume "hs_lock s1 = None \<and> (\<exists>r. hs_pc s1 i = Finished r)"
    moreover have "ho_run cf (replicate 1 (i, Go now)) s = Some s1" using s1(1) by simp
    moreover have "1 \<le> section_calls (hs_pc s i)" using s1(2) by linarith
    ultimately show ?case by blast
  next
    assume "in_section (hs_pc s1 i) \<and> hs_lock s1 = Some i"
    then obtain n s' r where n: "n \<le> section_calls (hs_pc s1 i)" "ho_run cf (replicate n (i, Go now)) s1 = Some s'"
      "hs_lock s' = None" "hs_pc s' i = Finished r" using less.hyps [OF s1(2)] by blast
    have "ho_run cf (replicate (Suc n) (i, Go now)) s = Some s'" using s1(1) n(2) by simp
    moreover have "Suc n \<le> section_calls (hs_pc s i)" using n(1) s1(2) by simp
    ultimately show ?case using n(3,4) by blast
  qed
qed

lemma section_calls_le: "section_calls c \<le> 5"
  by (cases c) auto

lemma section_released:
  assumes "\<forall>j. pc_inv cf s j" "in_section (hs_pc s i)"
  shows "\<exists>n s' r. n \<le> 5 \<and> ho_run cf (replicate n (i, Go now)) s = Some s' \<and> hs_lock s' = None \<and> hs_pc s' i = Finished r"
proof -
  have held: "hs_lock s = Some i" using assms by (simp add: pc_inv_def)
  obtain n s' r where n: "n \<le> section_calls (hs_pc s i)" "ho_run cf (replicate n (i, Go now)) s = Some s'"
    "hs_lock s' = None" "hs_pc s' i = Finished r"
    using section_leaves [OF assms(2) held] by blast
  have "n \<le> 5" using n(1) section_calls_le [of "hs_pc s i"] by linarith
  then show ?thesis using n(2-4) by blast
qed

text \<open>C2. Under every interleaving of transactions, failures of their writes and deaths of their processes
  at any point, the committed state is what the committed transactions give when their bodies are run one after
  the other, each on exactly the state the one before it committed (no update is lost, none is applied twice,
  none is seen half written); until the first commit the file is untouched.  A transaction that returns has
  committed once, one that raises not at all.  The lock is held by exactly the process inside its critical section,
  so there is at most one, and a process that returned, raised or died holds it no more; the process inside can
  always go on, and when it does, no other call failing, after at most five calls of its own it has finished and
  the lock is free.\<close>

theorem handoff_serializable:
  assumes "ho_reachable cf f0 s"
  shows "distinct (map fst (hs_log s)) \<and>
    (if hs_log s = [] then hs_file s = f0
     else \<exists>st0. base_state (hc_version cf) f0 = Inr st0 \<and> serial (hc_body cf) st0 (hs_log s) \<and>
       snapshot (hc_version cf) (hs_file s) = Inr (Some (after_log st0 (hs_log s)))) \<and>
    (\<forall>i r. hs_pc s i = Finished r \<longrightarrow> (r = Committed \<longleftrightarrow> i \<in> fst ` set (hs_log s))) \<and>
    (\<forall>i. hs_lock s = Some i \<longleftrightarrow> in_section (hs_pc s i)) \<and>
    (\<forall>i j. in_section (hs_pc s i) \<and> in_section (hs_pc s j) \<longrightarrow> i = j) \<and>
    (\<forall>i now. in_section (hs_pc s i) \<longrightarrow>
       (\<exists>n s' r. n \<le> 5 \<and> ho_run cf (replicate n (i, Go now)) s = Some s' \<and> hs_lock s' = None \<and> hs_pc s' i = Finished r))"
proof (intro conjI)
  have inv: "\<forall>j. pc_inv cf s j" and lg: "log_inv cf f0 s" using ho_reachable_inv [OF assms] by blast+
  show "distinct (map fst (hs_log s))" using lg by (simp add: log_inv_def)
  show "if hs_log s = [] then hs_file s = f0
     else \<exists>st0. base_state (hc_version cf) f0 = Inr st0 \<and> serial (hc_body cf) st0 (hs_log s) \<and>
       snapshot (hc_version cf) (hs_file s) = Inr (Some (after_log st0 (hs_log s)))" using lg by (simp add: log_inv_def)
  show "\<forall>i r. hs_pc s i = Finished r \<longrightarrow> (r = Committed \<longleftrightarrow> i \<in> fst ` set (hs_log s))"
    using inv by (auto simp: pc_inv_def ho_committed_def)
  show "\<forall>i j. in_section (hs_pc s i) \<and> in_section (hs_pc s j) \<longrightarrow> i = j" using in_section_unique [OF inv] by blast
  show "\<forall>i. hs_lock s = Some i \<longleftrightarrow> in_section (hs_pc s i)" using inv by (auto simp: pc_inv_def)
  show "\<forall>i now. in_section (hs_pc s i) \<longrightarrow>
      (\<exists>n s' r. n \<le> 5 \<and> ho_run cf (replicate n (i, Go now)) s = Some s' \<and> hs_lock s' = None \<and> hs_pc s' i = Finished r)"
    using section_released [OF inv] by blast
qed

lemma ho_run_reachable: "ho_reachable cf f0 s \<Longrightarrow> ho_run cf as s = Some s' \<Longrightarrow> ho_reachable cf f0 s'"
proof (induction as arbitrary: s)
  case (Cons x as)
  obtain i a where x: "x = (i, a)" by (cases x)
  obtain s1 where "ho_step cf i a s = Some s1" "ho_run cf as s1 = Some s'" using Cons.prems(2) by (auto simp: x split: option.splits)
  then show ?case using Cons.IH [OF ho_move [OF Cons.prems(1)]] by blast
qed simp

text \<open>Two ticks that each add one entry; the first is killed inside its transaction, the second commits.\<close>

definition demo_tick :: "unit handoff_cfg" where
  "demo_tick = \<lparr>hc_version = 1, hc_timeout = 5, hc_meta = (\<lambda>i. PNone), hc_body = (\<lambda>i st. Inr (st @ [(''n'', PInt (int i))]))\<rparr>"

definition demo_ho_start :: "unit handoff_sys" where
  "demo_ho_start = \<lparr>hs_file = None, hs_lock = None, hs_pc = (\<lambda>i. Idle), hs_log = []\<rparr>"

definition demo_schedule :: "(nat \<times> ho_action) list" where
  "demo_schedule = [(0, Go 0), (0, Go 0), (1, Go 0), (1, Go 1), (0, Go 1), (0, Go 1), (0, Die),
     (1, Go 2), (1, Go 2), (1, Go 2), (1, Go 2), (1, Go 2), (1, Go 2)]"

theorem handoff_serializable_witness:
  "\<exists>s. ho_run demo_tick demo_schedule demo_ho_start = Some s \<and> hs_pc s 1 = Finished Committed \<and> 1 \<in> fst ` set (hs_log s) \<and>
     snapshot 1 (hs_file s) = Inr (Some [(''n'', PInt 1)])"
proof -
  have "\<exists>s. ho_run demo_tick demo_schedule demo_ho_start = Some s \<and> hs_pc s 1 = Finished Committed \<and>
      snapshot 1 (hs_file s) = Inr (Some [(''n'', PInt 1)])"
    by (simp add: demo_schedule_def demo_ho_start_def demo_tick_def ho_step_def snapshot_def unlock_def)
  then obtain s where s: "ho_run demo_tick demo_schedule demo_ho_start = Some s" "hs_pc s 1 = Finished Committed"
    "snapshot 1 (hs_file s) = Inr (Some [(''n'', PInt 1)])" by blast
  have "ho_reachable demo_tick None demo_ho_start" unfolding demo_ho_start_def by (rule ho_start)
  then have "ho_reachable demo_tick None s" using s(1) by (rule ho_run_reachable)
  from handoff_serializable [OF this] show ?thesis using s by auto
qed

end
