(* ===== verification/Arg_Coercer.thy ===== *)
theory Arg_Coercer
  imports Py_Json
begin

text \<open>
  Coercion of loosely typed tool-call arguments into a schema
  (\<open>tool-call-argument-schema-coercer/coercer.py\<close>).  A float is a finite number, an infinity or not a
  number; \<open>int(s)\<close> on strings and \<open>float(i)\<close> on integers, with its \<open>OverflowError\<close>, are written out; the
  parsing of floats and of ISO dates and the printing of floats are parameters.  Dictionary keys are
  distinct.  The interpreter's optional limit on the digits of an integer's decimal text is off.
\<close>

section \<open>Argument values\<close>

datatype pyfloat = Finite rat | PosInf | NegInf | NaN

datatype arg_value =
    ANone
  | ABool bool
  | AInt int
  | AFloat pyfloat
  | AStr string
  | AList "arg_value list"
  | ADict "(string \<times> arg_value) list"

text \<open>\<open>x < y\<close> on floats: whatever is compared with \<open>nan\<close>, the answer is no.\<close>

fun py_less :: "pyfloat \<Rightarrow> pyfloat \<Rightarrow> bool" where
  "py_less (Finite x) (Finite y) = (x < y)"
| "py_less (Finite x) PosInf = True"
| "py_less NegInf (Finite y) = True"
| "py_less NegInf PosInf = True"
| "py_less _ _ = False"

fun py_is_integer :: "pyfloat \<Rightarrow> bool" where
  "py_is_integer (Finite x) = (of_int \<lfloor>x\<rfloor> = x)"
| "py_is_integer _ = False"

fun py_int_of_float :: "pyfloat \<Rightarrow> int" where
  "py_int_of_float (Finite x) = \<lfloor>x\<rfloor>"
| "py_int_of_float _ = 0"

text \<open>\<open>float(i)\<close>: rounded to 53 significant bits, half to even; \<open>None\<close> is the \<open>OverflowError\<close>.\<close>

fun bit_count :: "nat \<Rightarrow> nat" where
  "bit_count n = (if n = 0 then 0 else Suc (bit_count (n div 2)))"

declare bit_count.simps [simp del]

definition py_float_of_int :: "int \<Rightarrow> pyfloat option" where
  "py_float_of_int i =
     (let e = bit_count (nat \<bar>i\<bar>) - 53;
          r = half_even (of_int i / 2 ^ e) * 2 ^ e in
      if 2 ^ 1024 \<le> \<bar>r\<bar> then None else Some (Finite (of_int r)))"

section \<open>Schemas and results\<close>

datatype field_type = FtInt | FtFloat | FtBool | FtStr | FtEpoch | FtUnknown string

record field_spec =
  fs_type :: field_type
  fs_required :: bool
  fs_default :: "arg_value option"
  fs_min :: "pyfloat option"
  fs_max :: "pyfloat option"

type_synonym arg_schema = "(string, field_spec) dict"

datatype coerce_reason =
    RequiredMissing | ExpectedGot field_type arg_value | NotInteger | NotNumericString field_type | NotTruthy
  | UnparseableDate | UnknownSchemaType string | BelowMin arg_value pyfloat | AboveMax arg_value pyfloat

record field_error =
  fe_field :: string
  fe_reason :: coerce_reason
  fe_got :: "arg_value option"

record coerce_result =
  cr_ok :: bool
  cr_args :: "(string, arg_value) dict"
  cr_errors :: "field_error list"
  cr_coerced :: "string list"
  cr_defaulted :: "string list"
  cr_unknown :: "string list"

section \<open>The standard library\<close>

text \<open>\<open>int(s)\<close> on a stripped string: an optional sign and digits, with single underscores between them.\<close>

fun digits_value :: "nat \<Rightarrow> string \<Rightarrow> nat option" where
  "digits_value acc [] = Some acc"
| "digits_value acc (c # cs) =
     (if is_digit c then digits_value (acc * 10 + (of_char c - 48)) cs
      else if c = CHR ''_'' \<and> cs \<noteq> [] \<and> is_digit (hd cs) then digits_value acc cs
      else None)"

definition unsigned_value :: "string \<Rightarrow> nat option" where
  "unsigned_value s = (if s \<noteq> [] \<and> is_digit (hd s) then digits_value 0 s else None)"

definition py_int_of_str :: "string \<Rightarrow> int option" where
  "py_int_of_str s =
     (case s of
        [] \<Rightarrow> None
      | c # cs \<Rightarrow>
          if c = CHR ''-'' then map_option (\<lambda>n. - int n) (unsigned_value cs)
          else if c = CHR ''+'' then map_option int (unsigned_value cs)
          else map_option int (unsigned_value s))"

record coerce_lib =
  float_of_str :: "string \<Rightarrow> pyfloat option"
  epoch_of_iso :: "string \<Rightarrow> int option"
  str_of_float :: "pyfloat \<Rightarrow> string"

section \<open>Coercion\<close>

definition truthy_words :: "string list" where
  "truthy_words = [''true'', ''t'', ''yes'', ''y'', ''1'', ''on'']"

definition falsy_words :: "string list" where
  "falsy_words = [''false'', ''f'', ''no'', ''n'', ''0'', ''off'']"

text \<open>The value and whether it was changed, the \<open>_CoerceFail\<close> with its reason, or the \<open>OverflowError\<close>.\<close>

datatype coerced = Coerced arg_value bool | Fails coerce_reason | RaisesOverflow

fun coerce_int :: "arg_value \<Rightarrow> coerced" where
  "coerce_int (AInt i) = Coerced (AInt i) False"
| "coerce_int (AFloat x) = (if py_is_integer x then Coerced (AInt (py_int_of_float x)) True else Fails NotInteger)"
| "coerce_int (AStr s) =
     (case py_int_of_str (py_strip s) of Some i \<Rightarrow> Coerced (AInt i) True | None \<Rightarrow> Fails (NotNumericString FtInt))"
| "coerce_int v = Fails (ExpectedGot FtInt v)"

fun coerce_float :: "coerce_lib \<Rightarrow> arg_value \<Rightarrow> coerced" where
  "coerce_float lib (AInt i) = (case py_float_of_int i of Some x \<Rightarrow> Coerced (AFloat x) True | None \<Rightarrow> RaisesOverflow)"
| "coerce_float lib (AFloat x) = Coerced (AFloat x) False"
| "coerce_float lib (AStr s) =
     (case float_of_str lib (py_strip s) of Some x \<Rightarrow> Coerced (AFloat x) True | None \<Rightarrow> Fails (NotNumericString FtFloat))"
| "coerce_float lib v = Fails (ExpectedGot FtFloat v)"

fun coerce_bool :: "arg_value \<Rightarrow> coerced" where
  "coerce_bool (ABool b) = Coerced (ABool b) False"
| "coerce_bool (AStr s) =
     (if ascii_lower (py_strip s) \<in> set truthy_words then Coerced (ABool True) True
      else if ascii_lower (py_strip s) \<in> set falsy_words then Coerced (ABool False) True
      else Fails NotTruthy)"
| "coerce_bool (AInt i) = (if i = 0 \<or> i = 1 then Coerced (ABool (i = 1)) True else Fails (ExpectedGot FtBool (AInt i)))"
| "coerce_bool v = Fails (ExpectedGot FtBool v)"

fun coerce_str :: "coerce_lib \<Rightarrow> arg_value \<Rightarrow> coerced" where
  "coerce_str lib (AStr s) = Coerced (AStr s) False"
| "coerce_str lib (AInt i) = Coerced (AStr (py_str_int i)) True"
| "coerce_str lib (AFloat x) = Coerced (AStr (str_of_float lib x)) True"
| "coerce_str lib (ABool b) = Coerced (AStr (if b then ''True'' else ''False'')) True"
| "coerce_str lib v = Fails (ExpectedGot FtStr v)"

fun coerce_epoch :: "coerce_lib \<Rightarrow> arg_value \<Rightarrow> coerced" where
  "coerce_epoch lib (AInt i) = Coerced (AInt i) False"
| "coerce_epoch lib (AFloat x) =
     (if py_is_integer x then Coerced (AInt (py_int_of_float x)) True else Fails (ExpectedGot FtEpoch (AFloat x)))"
| "coerce_epoch lib (AStr s) =
     (let s = py_strip s in
      case py_int_of_str s of
        Some i \<Rightarrow> Coerced (AInt i) True
      | None \<Rightarrow>
          (case epoch_of_iso lib (if s \<noteq> [] \<and> last s = CHR ''Z'' then butlast s @ ''+00:00'' else s) of
             Some i \<Rightarrow> Coerced (AInt i) True
           | None \<Rightarrow> Fails UnparseableDate))"
| "coerce_epoch lib v = Fails (ExpectedGot FtEpoch v)"

definition coerce_value :: "coerce_lib \<Rightarrow> arg_value \<Rightarrow> field_type \<Rightarrow> coerced" where
  "coerce_value lib raw t =
     (case t of
        FtInt \<Rightarrow> coerce_int raw
      | FtFloat \<Rightarrow> coerce_float lib raw
      | FtBool \<Rightarrow> coerce_bool raw
      | FtStr \<Rightarrow> coerce_str lib raw
      | FtEpoch \<Rightarrow> coerce_epoch lib raw
      | FtUnknown n \<Rightarrow> Fails (UnknownSchemaType n))"

text \<open>An integer is compared with a float by its exact value.\<close>

fun number_of :: "arg_value \<Rightarrow> pyfloat option" where
  "number_of (AInt i) = Some (Finite (of_int i))"
| "number_of (AFloat x) = Some x"
| "number_of _ = None"

definition check_bounds :: "arg_value \<Rightarrow> field_spec \<Rightarrow> coerce_reason option" where
  "check_bounds v spec =
     (case number_of v of
        None \<Rightarrow> None
      | Some x \<Rightarrow>
          if (case fs_min spec of None \<Rightarrow> False | Some m \<Rightarrow> py_less x m) then Some (BelowMin v (the (fs_min spec)))
          else if (case fs_max spec of None \<Rightarrow> False | Some m \<Rightarrow> py_less m x) then Some (AboveMax v (the (fs_max spec)))
          else None)"

datatype field_outcome = Omitted | Defaulted arg_value | Rejected coerce_reason "arg_value option" | Accepted arg_value bool | Overflowed

definition coerce_field :: "coerce_lib \<Rightarrow> field_spec \<Rightarrow> arg_value option \<Rightarrow> field_outcome" where
  "coerce_field lib spec raw =
     (if raw = None \<or> raw = Some ANone then
        (case fs_default spec of
           Some d \<Rightarrow> Defaulted d
         | None \<Rightarrow> if fs_required spec then Rejected RequiredMissing raw else Omitted)
      else
        (case coerce_value lib (the raw) (fs_type spec) of
           Fails e \<Rightarrow> Rejected e raw
         | RaisesOverflow \<Rightarrow> Overflowed
         | Coerced v changed \<Rightarrow>
             (case check_bounds v spec of Some e \<Rightarrow> Rejected e raw | None \<Rightarrow> Accepted v changed)))"

record coerce_acc =
  ca_out :: "(string, arg_value) dict"
  ca_errors :: "field_error list"
  ca_coerced :: "string list"
  ca_defaulted :: "string list"

text \<open>The loop over the fields; \<open>None\<close> is an \<open>OverflowError\<close>, which leaves it at once.\<close>

fun coerce_fields :: "coerce_lib \<Rightarrow> (string, arg_value) dict \<Rightarrow> arg_schema \<Rightarrow> coerce_acc \<Rightarrow> coerce_acc option" where
  "coerce_fields lib args [] a = Some a"
| "coerce_fields lib args ((f, spec) # fs) a =
     (case coerce_field lib spec (dict_get args f) of
        Omitted \<Rightarrow> coerce_fields lib args fs a
      | Defaulted d \<Rightarrow>
          coerce_fields lib args fs (a\<lparr>ca_out := dict_set f d (ca_out a), ca_defaulted := ca_defaulted a @ [f]\<rparr>)
      | Rejected e got \<Rightarrow>
          coerce_fields lib args fs (a\<lparr>ca_errors := ca_errors a @ [\<lparr>fe_field = f, fe_reason = e, fe_got = got\<rparr>]\<rparr>)
      | Accepted v changed \<Rightarrow>
          coerce_fields lib args fs
            (a\<lparr>ca_out := dict_set f v (ca_out a), ca_coerced := (if changed then ca_coerced a @ [f] else ca_coerced a)\<rparr>)
      | Overflowed \<Rightarrow> None)"

definition coerce_args :: "coerce_lib \<Rightarrow> arg_schema \<Rightarrow> (string, arg_value) dict \<Rightarrow> coerce_result option" where
  "coerce_args lib sch args =
     map_option (\<lambda>a.
      \<lparr>cr_ok = (ca_errors a = []), cr_args = (if ca_errors a = [] then ca_out a else []), cr_errors = ca_errors a,
       cr_coerced = ca_coerced a, cr_defaulted = ca_defaulted a,
       cr_unknown = sort (filter (\<lambda>k. k \<notin> fst ` set sch) (map fst args))\<rparr>)
     (coerce_fields lib args sch \<lparr>ca_out = [], ca_errors = [], ca_coerced = [], ca_defaulted = []\<rparr>)"

datatype repair_line = RepairField field_error | RepairUnknown "string list"

definition coerce_repair_prompt :: "coerce_result \<Rightarrow> repair_line list" where
  "coerce_repair_prompt r =
     (if cr_ok r then [] else map RepairField (cr_errors r) @ (if cr_unknown r \<noteq> [] then [RepairUnknown (cr_unknown r)] else []))"

section \<open>Types and bounds\<close>

fun has_field_type :: "field_type \<Rightarrow> arg_value \<Rightarrow> bool" where
  "has_field_type FtInt (AInt i) = True"
| "has_field_type FtEpoch (AInt i) = True"
| "has_field_type FtFloat (AFloat x) = True"
| "has_field_type FtBool (ABool b) = True"
| "has_field_type FtStr (AStr s) = True"
| "has_field_type _ _ = False"

text \<open>The order of the extended reals; \<open>nan\<close> stands in it nowhere.\<close>

definition at_most :: "pyfloat \<Rightarrow> pyfloat \<Rightarrow> bool" where
  "at_most x y \<longleftrightarrow> x \<noteq> NaN \<and> y \<noteq> NaN \<and>
     (x = NegInf \<or> y = PosInf \<or> (case (x, y) of (Finite a, Finite b) \<Rightarrow> a \<le> b | _ \<Rightarrow> False))"

text \<open>A number that is one lies between the bounds that are: \<open>nan\<close>, as a value or as a bound, is exempt.\<close>

definition within_field_bounds :: "field_spec \<Rightarrow> arg_value \<Rightarrow> bool" where
  "within_field_bounds spec v = (case number_of v of
      None \<Rightarrow> True
    | Some x \<Rightarrow> x = NaN \<or>
        (case fs_min spec of None \<Rightarrow> True | Some m \<Rightarrow> m = NaN \<or> at_most m x) \<and>
        (case fs_max spec of None \<Rightarrow> True | Some m \<Rightarrow> m = NaN \<or> at_most x m))"

definition fits_field :: "field_spec \<Rightarrow> arg_value \<Rightarrow> bool" where
  "fits_field spec v \<longleftrightarrow> has_field_type (fs_type spec) v \<and> within_field_bounds spec v"

definition not_given :: "arg_value option \<Rightarrow> bool" where
  "not_given raw \<longleftrightarrow> raw = None \<or> raw = Some ANone"

lemma py_less_at_most: "py_less x y \<longleftrightarrow> \<not> (x = NaN \<or> y = NaN \<or> at_most y x)"
  by (cases x; cases y) (auto simp: at_most_def)

lemma coerce_value_type: "coerce_value lib raw t = Coerced v c \<Longrightarrow> has_field_type t v \<and> (c \<longleftrightarrow> raw \<noteq> v)"
  by (cases t; cases raw) (auto simp: coerce_value_def Let_def split: if_splits option.splits)

lemma coerce_value_typed: "has_field_type t v \<Longrightarrow> coerce_value lib v t = Coerced v False"
  by (cases t; cases v) (auto simp: coerce_value_def)

lemma coerce_value_overflow: "coerce_value lib raw t = RaisesOverflow \<Longrightarrow> t = FtFloat \<and> (\<exists>i. raw = AInt i \<and> py_float_of_int i = None)"
  by (cases t; cases raw) (auto simp: coerce_value_def Let_def split: if_splits option.splits)

lemma check_bounds_None: "check_bounds v spec = None \<longleftrightarrow> within_field_bounds spec v"
  by (auto simp: check_bounds_def within_field_bounds_def py_less_at_most split: option.splits if_splits)

lemma coerce_field_accepted:
  "coerce_field lib spec raw = Accepted v c \<Longrightarrow> fits_field spec v \<and> \<not> not_given raw \<and> (c \<longleftrightarrow> raw \<noteq> Some v)"
  by (auto simp: coerce_field_def not_given_def fits_field_def check_bounds_None split: if_splits option.splits coerced.splits
    dest: coerce_value_type)

lemma coerce_field_fits: "fits_field spec v \<Longrightarrow> coerce_field lib spec (Some v) = Accepted v False"
proof -
  assume f: "fits_field spec v"
  then have "v \<noteq> ANone" "check_bounds v spec = None"
    by (cases "fs_type spec"; auto simp: fits_field_def check_bounds_None)+
  then show ?thesis using f by (simp add: coerce_field_def fits_field_def coerce_value_typed)
qed

lemma coerce_field_omitted: "coerce_field lib spec raw = Omitted \<Longrightarrow> fs_default spec = None \<and> \<not> fs_required spec \<and> not_given raw"
  by (auto simp: coerce_field_def not_given_def split: if_splits option.splits coerced.splits)

lemma coerce_field_defaulted: "coerce_field lib spec raw = Defaulted d \<Longrightarrow> fs_default spec = Some d \<and> not_given raw"
  by (auto simp: coerce_field_def not_given_def split: if_splits option.splits coerced.splits)

lemma coerce_field_rejected:
  "coerce_field lib spec raw = Rejected e got \<Longrightarrow>
     (if not_given raw then fs_required spec \<and> fs_default spec = None else \<not> fits_field spec (the raw))"
  using coerce_field_fits [of spec "the raw" lib]
  by (cases raw) (auto simp: coerce_field_def not_given_def split: if_splits option.splits coerced.splits)

lemma coerce_field_overflowed:
  "coerce_field lib spec raw = Overflowed \<Longrightarrow> fs_type spec = FtFloat \<and> (\<exists>i. raw = Some (AInt i) \<and> py_float_of_int i = None)"
  by (auto simp: coerce_field_def split: if_splits option.splits coerced.splits dest: coerce_value_overflow)

subsection \<open>Integers that fit a float\<close>

lemma bit_count_0 [simp]: "bit_count 0 = 0"
  by (subst bit_count.simps) simp

lemma bit_count_le: "0 < n \<Longrightarrow> 2 ^ bit_count n \<le> 2 * n"
proof (induction n rule: bit_count.induct)
  case (1 n)
  show ?case
  proof (cases "n div 2 = 0")
    case True
    then have "n = 1" using 1 by auto
    then show ?thesis by (subst bit_count.simps) simp
  next
    case False
    then have "2 ^ bit_count (n div 2) \<le> 2 * (n div 2)" using 1 by auto
    then show ?thesis using 1 by (subst bit_count.simps) auto
  qed
qed

lemma half_even_near: "\<bar>of_int (half_even x) - x\<bar> \<le> 1 / 2"
  unfolding half_even_def Let_def by (auto simp: abs_if) linarith+

lemma float_of_small_int:
  assumes "py_float_of_int i = None"
  shows "2 ^ 1023 \<le> \<bar>i\<bar>"
proof -
  define e where "e = bit_count (nat \<bar>i\<bar>) - 53"
  define r where "r = half_even (of_int i / 2 ^ e) * 2 ^ e"
  have big: "2 ^ 1024 \<le> \<bar>r\<bar>"
    using assms unfolding py_float_of_int_def Let_def e_def [symmetric] r_def [symmetric] by (simp split: if_splits)
  have "\<bar>of_int r - of_int i\<bar> \<le> (2 ^ e / 2 :: rat)"
  proof -
    have "of_int r - of_int i = (of_int (half_even (of_int i / 2 ^ e)) - of_int i / 2 ^ e) * (2 ^ e :: rat)"
      by (simp add: r_def left_diff_distrib)
    then show ?thesis using mult_right_mono [OF half_even_near [of "of_int i / 2 ^ e"], of "2 ^ e"] by (simp add: abs_mult)
  qed
  then have near: "\<bar>r - i\<bar> \<le> 2 ^ e"
  proof -
    assume h: "\<bar>of_int r - of_int i\<bar> \<le> (2 ^ e / 2 :: rat)"
    have "\<bar>of_int r - of_int i\<bar> \<le> (2 ^ e :: rat)" using h abs_ge_zero [of "of_int r - of_int i :: rat"] by linarith
    then have "of_int \<bar>r - i\<bar> \<le> (of_int (2 ^ e) :: rat)" by simp
    then show ?thesis by (simp only: of_int_le_iff)
  qed
  have "2 ^ e \<le> \<bar>i\<bar>"
  proof (cases "e = 0")
    case True
    then have "i \<noteq> 0" using big near by auto
    then show ?thesis using True by simp
  next
    case False
    have pos: "0 < nat \<bar>i\<bar>" using False by (cases "nat \<bar>i\<bar> = 0") (simp_all add: e_def)
    have "(2 :: nat) ^ Suc e \<le> 2 ^ bit_count (nat \<bar>i\<bar>)" using False by (intro power_increasing) (simp_all add: e_def)
    then have "2 ^ Suc e \<le> 2 * nat \<bar>i\<bar>" using bit_count_le [OF pos] by (rule order_trans)
    then have "2 ^ e \<le> nat \<bar>i\<bar>" unfolding power_Suc by linarith
    then have "int (2 ^ e) \<le> int (nat \<bar>i\<bar>)" by (simp only: of_nat_le_iff)
    then show ?thesis by simp
  qed
  then have "2 * 2 ^ 1023 \<le> 2 * \<bar>i\<bar>" using big near by simp
  then show ?thesis by linarith
qed

section \<open>All fields\<close>

definition field_value :: "coerce_lib \<Rightarrow> (string, arg_value) dict \<Rightarrow> string \<times> field_spec \<Rightarrow> arg_value option" where
  "field_value lib args p =
     (case coerce_field lib (snd p) (dict_get args (fst p)) of Defaulted d \<Rightarrow> Some d | Accepted v c \<Rightarrow> Some v | _ \<Rightarrow> None)"

definition field_fault :: "coerce_lib \<Rightarrow> (string, arg_value) dict \<Rightarrow> string \<times> field_spec \<Rightarrow> field_error option" where
  "field_fault lib args p =
     (case coerce_field lib (snd p) (dict_get args (fst p)) of
        Rejected e got \<Rightarrow> Some \<lparr>fe_field = fst p, fe_reason = e, fe_got = got\<rparr> | _ \<Rightarrow> None)"

definition opt_list :: "'a option \<Rightarrow> 'a list" where
  "opt_list x = (case x of None \<Rightarrow> [] | Some y \<Rightarrow> [y])"

lemma opt_list_simps [simp]: "opt_list None = []" "opt_list (Some y) = [y]" "opt_list x = [] \<longleftrightarrow> x = None"
  by (auto simp: opt_list_def split: option.splits)

lemma coerce_fields_result:
  "distinct (map fst (ca_out a) @ map fst sch) \<Longrightarrow> coerce_fields lib args sch a = Some b \<Longrightarrow>
   ca_out b = ca_out a @ concat (map (\<lambda>p. map (Pair (fst p)) (opt_list (field_value lib args p))) sch) \<and>
   ca_errors b = ca_errors a @ concat (map (\<lambda>p. opt_list (field_fault lib args p)) sch) \<and>
   ca_coerced b = ca_coerced a @
     map fst (filter (\<lambda>p. \<exists>v. coerce_field lib (snd p) (dict_get args (fst p)) = Accepted v True) sch) \<and>
   ca_defaulted b = ca_defaulted a @
     map fst (filter (\<lambda>p. \<exists>d. coerce_field lib (snd p) (dict_get args (fst p)) = Defaulted d) sch) \<and>
   list_all (\<lambda>p. coerce_field lib (snd p) (dict_get args (fst p)) \<noteq> Overflowed) sch"
proof (induction sch arbitrary: a)
  case (Cons p sch)
  obtain f spec where p: "p = (f, spec)" by (cases p)
  have new: "dict_get (ca_out a) f = None" using Cons.prems p by (auto simp: map_of_eq_None_iff)
  have d: "distinct (map fst (ca_out a @ [(f, v)]) @ map fst sch)" "distinct (map fst (ca_out a) @ map fst sch)" for v :: arg_value
    using Cons.prems p by auto
  show ?case
  proof (cases "coerce_field lib spec (dict_get args f)")
    case Omitted
    then show ?thesis using Cons.IH [OF d(2)] Cons.prems(2) by (simp add: p field_value_def field_fault_def)
  next
    case (Defaulted v)
    let ?a = "a\<lparr>ca_out := ca_out a @ [(f, v)], ca_defaulted := ca_defaulted a @ [f]\<rparr>"
    show ?thesis using Cons.IH [of ?a] Cons.prems(2) d(1) [of v] Defaulted new by (simp add: p field_value_def field_fault_def dict_set_new)
  next
    case (Rejected e got)
    let ?a = "a\<lparr>ca_errors := ca_errors a @ [\<lparr>fe_field = f, fe_reason = e, fe_got = got\<rparr>]\<rparr>"
    show ?thesis using Cons.IH [of ?a] Cons.prems(2) d(2) Rejected by (simp add: p field_value_def field_fault_def)
  next
    case (Accepted v c)
    let ?a = "a\<lparr>ca_out := ca_out a @ [(f, v)], ca_coerced := (if c then ca_coerced a @ [f] else ca_coerced a)\<rparr>"
    show ?thesis using Cons.IH [of ?a] Cons.prems(2) d(1) [of v] Accepted new
      by (cases c) (simp_all add: p field_value_def field_fault_def dict_set_new)
  next
    case Overflowed
    then show ?thesis using Cons.prems(2) by (simp add: p)
  qed
qed simp

lemma coerce_fields_raises:
  "coerce_fields lib args sch a = None \<Longrightarrow> \<exists>p \<in> set sch. coerce_field lib (snd p) (dict_get args (fst p)) = Overflowed"
proof (induction sch arbitrary: a)
  case (Cons p sch)
  obtain f spec where p: "p = (f, spec)" by (cases p)
  show ?case using Cons.prems Cons.IH p by (cases "coerce_field lib spec (dict_get args f)") auto
qed simp

lemma concat_fields_get:
  "distinct (map fst sch) \<Longrightarrow>
   dict_get (concat (map (\<lambda>p. map (Pair (fst p)) (opt_list (g p))) sch)) f =
     (case dict_get sch f of None \<Rightarrow> None | Some spec \<Rightarrow> g (f, spec))"
proof (induction sch)
  case (Cons p sch)
  obtain f' spec where p: "p = (f', spec)" by (cases p)
  then have "dict_get sch f' = None" using Cons.prems by (simp add: map_of_eq_None_iff)
  then show ?case using Cons p by (cases "g (f', spec)") (auto split: option.splits)
qed simp

lemma coerce_args_result:
  assumes "dict_wf sch" "coerce_args lib sch args = Some r"
  shows "cr_ok r \<longleftrightarrow> list_all (\<lambda>p. field_fault lib args p = None) sch"
    and "cr_ok r \<Longrightarrow> cr_args r = concat (map (\<lambda>p. map (Pair (fst p)) (opt_list (field_value lib args p))) sch)"
    and "cr_errors r = concat (map (\<lambda>p. opt_list (field_fault lib args p)) sch)"
    and "cr_coerced r = map fst (filter (\<lambda>p. \<exists>v. coerce_field lib (snd p) (dict_get args (fst p)) = Accepted v True) sch)"
    and "cr_defaulted r = map fst (filter (\<lambda>p. \<exists>d. coerce_field lib (snd p) (dict_get args (fst p)) = Defaulted d) sch)"
    and "p \<in> set sch \<Longrightarrow> coerce_field lib (snd p) (dict_get args (fst p)) \<noteq> Overflowed"
proof -
  obtain b where b: "coerce_fields lib args sch \<lparr>ca_out = [], ca_errors = [], ca_coerced = [], ca_defaulted = []\<rparr> = Some b"
    and r: "r = \<lparr>cr_ok = (ca_errors b = []), cr_args = (if ca_errors b = [] then ca_out b else []), cr_errors = ca_errors b,
       cr_coerced = ca_coerced b, cr_defaulted = ca_defaulted b,
       cr_unknown = sort (filter (\<lambda>k. k \<notin> fst ` set sch) (map fst args))\<rparr>"
    using assms(2) unfolding coerce_args_def by auto
  have "distinct (map fst sch)" using assms(1) by (simp add: dict_wf_def)
  with coerce_fields_result [OF _ b]
  show "cr_ok r \<longleftrightarrow> list_all (\<lambda>p. field_fault lib args p = None) sch"
    "cr_ok r \<Longrightarrow> cr_args r = concat (map (\<lambda>p. map (Pair (fst p)) (opt_list (field_value lib args p))) sch)"
    "cr_errors r = concat (map (\<lambda>p. opt_list (field_fault lib args p)) sch)"
    "cr_coerced r = map fst (filter (\<lambda>p. \<exists>v. coerce_field lib (snd p) (dict_get args (fst p)) = Accepted v True) sch)"
    "cr_defaulted r = map fst (filter (\<lambda>p. \<exists>d. coerce_field lib (snd p) (dict_get args (fst p)) = Defaulted d) sch)"
    "p \<in> set sch \<Longrightarrow> coerce_field lib (snd p) (dict_get args (fst p)) \<noteq> Overflowed"
    by (auto simp: r list_all_iff)
qed

lemma coerce_args_get:
  assumes "dict_wf sch" "coerce_args lib sch args = Some r" "cr_ok r"
  shows "dict_get (cr_args r) f = (case dict_get sch f of None \<Rightarrow> None | Some spec \<Rightarrow> field_value lib args (f, spec))"
  using assms concat_fields_get [of sch "field_value lib args" f] by (simp add: coerce_args_result(2) dict_wf_def)

lemma coerce_args_coerced:
  assumes "dict_wf sch" "coerce_args lib sch args = Some r" "dict_get sch f = Some spec"
  shows "f \<in> set (cr_coerced r) \<longleftrightarrow> (\<exists>v. coerce_field lib spec (dict_get args f) = Accepted v True)"
proof -
  have "\<And>x. x \<in> set sch \<longleftrightarrow> dict_get sch (fst x) = Some (snd x)" using assms(1) by (auto simp: dict_wf_def)
  then show ?thesis using assms(3) by (force simp: coerce_args_result(4) [OF assms(1,2)] image_iff)
qed

section \<open>Properties\<close>

text \<open>What a successful coercion holds of one field of the schema.\<close>

definition field_served :: "field_spec \<Rightarrow> arg_value option \<Rightarrow> arg_value option \<Rightarrow> bool \<Rightarrow> bool" where
  "field_served spec raw res changed \<longleftrightarrow>
     (if not_given raw then
        (fs_required spec \<longrightarrow> fs_default spec \<noteq> None) \<and> (\<not> fs_required spec \<longrightarrow> res = fs_default spec)
      else (case res of None \<Rightarrow> False | Some v \<Rightarrow> fits_field spec v \<and> (changed \<longleftrightarrow> raw \<noteq> Some v)))"

lemma served_field:
  assumes "dict_wf sch" "coerce_args lib sch args = Some r" "cr_ok r" "dict_get sch f = Some spec"
  shows "field_served spec (dict_get args f) (dict_get (cr_args r) f) (f \<in> set (cr_coerced r))"
proof -
  let ?raw = "dict_get args f"
  have mem: "(f, spec) \<in> set sch" using assms(1,4) by (simp add: dict_wf_def)
  have res: "dict_get (cr_args r) f = field_value lib args (f, spec)"
    using coerce_args_get [OF assms(1-3), of f] assms(4) by simp
  have ch: "f \<in> set (cr_coerced r) \<longleftrightarrow> (\<exists>v. coerce_field lib spec ?raw = Accepted v True)"
    by (rule coerce_args_coerced [OF assms(1,2,4)])
  have "field_fault lib args (f, spec) = None"
    using assms(3) mem by (simp add: coerce_args_result(1) [OF assms(1,2)] list_all_iff)
  moreover have "coerce_field lib spec ?raw \<noteq> Overflowed" using coerce_args_result(6) [OF assms(1,2) mem] by simp
  ultimately show ?thesis
  proof (cases "coerce_field lib spec ?raw")
    case Omitted
    then show ?thesis using coerce_field_omitted [OF Omitted] by (simp add: field_served_def res field_value_def)
  next
    case (Defaulted d)
    then show ?thesis using coerce_field_defaulted [OF Defaulted] by (simp add: field_served_def res field_value_def)
  next
    case (Accepted v c)
    then show ?thesis using coerce_field_accepted [OF Accepted] ch by (auto simp: field_served_def res field_value_def)
  qed (simp_all add: field_fault_def)
qed

text \<open>
  C24. What the tool is called with has the schema's types.  If coercion succeeds, then every argument
  belongs to the schema, and each field of the schema is served: a value that was given is passed
  with the type of its field and, unless it is or is compared with a \<open>nan\<close>, within the bounds of its
  field, and it is reported as coerced exactly when it differs from what was given; a missing or
  null value takes the default of an optional field, and is refused for a required field that has no
  default.  If coercion reports failure, then some given value that does not fit its field, or a
  missing required field without a default, is among the errors.  It raises only for an
  integer of at least \<open>2 ^ 1023\<close> in size given for a float field.
\<close>

theorem coerced_args_typed:
  assumes "dict_wf sch"
  shows "case coerce_args lib sch args of
      None \<Rightarrow> \<exists>f spec i. dict_get sch f = Some spec \<and> fs_type spec = FtFloat \<and> dict_get args f = Some (AInt i) \<and> 2 ^ 1023 \<le> \<bar>i\<bar>
    | Some r \<Rightarrow>
        if cr_ok r then
          \<forall>f. case dict_get sch f of
              None \<Rightarrow> dict_get (cr_args r) f = None
            | Some spec \<Rightarrow> field_served spec (dict_get args f) (dict_get (cr_args r) f) (f \<in> set (cr_coerced r))
        else
          \<exists>f spec. dict_get sch f = Some spec \<and> f \<in> fe_field ` set (cr_errors r) \<and>
            (if not_given (dict_get args f) then fs_required spec \<and> fs_default spec = None
             else \<not> fits_field spec (the (dict_get args f)))"
proof (cases "coerce_args lib sch args")
  case None
  then obtain p where p: "p \<in> set sch" "coerce_field lib (snd p) (dict_get args (fst p)) = Overflowed"
    using coerce_fields_raises unfolding coerce_args_def by fastforce
  have "dict_get sch (fst p) = Some (snd p)" using p(1) assms by (simp add: dict_wf_def)
  then show ?thesis using None coerce_field_overflowed [OF p(2)] float_of_small_int by fastforce
next
  case (Some r)
  show ?thesis
  proof (cases "cr_ok r")
    case True
    then show ?thesis using Some served_field [OF assms Some True] coerce_args_get [OF assms Some True]
      by (simp split: option.splits)
  next
    case False
    then obtain p where p: "p \<in> set sch" "field_fault lib args p \<noteq> None"
      by (auto simp: coerce_args_result(1) [OF assms Some] list_all_iff)
    then obtain e got where rej: "coerce_field lib (snd p) (dict_get args (fst p)) = Rejected e got"
      by (auto simp: field_fault_def split: field_outcome.splits)
    have "fst p \<in> fe_field ` set (cr_errors r)"
      using p(1) rej by (force simp: coerce_args_result(3) [OF assms Some] field_fault_def opt_list_def image_iff)
    moreover have "dict_get sch (fst p) = Some (snd p)" using p(1) assms by (simp add: dict_wf_def)
    ultimately have "dict_get sch (fst p) = Some (snd p) \<and> fst p \<in> fe_field ` set (cr_errors r) \<and>
        (if not_given (dict_get args (fst p)) then fs_required (snd p) \<and> fs_default (snd p) = None
         else \<not> fits_field (snd p) (the (dict_get args (fst p))))"
      using coerce_field_rejected [OF rej] by blast
    then show ?thesis unfolding Some option.case using False by (simp only: if_False) (intro exI)
  qed
qed

definition defaults_fit :: "arg_schema \<Rightarrow> bool" where
  "defaults_fit sch \<longleftrightarrow> list_all (\<lambda>p. case fs_default (snd p) of None \<Rightarrow> True | Some d \<Rightarrow> fits_field (snd p) d) sch"

lemma field_again:
  assumes "field_fault lib args p = None" "coerce_field lib (snd p) (dict_get args (fst p)) \<noteq> Overflowed"
    "case fs_default (snd p) of None \<Rightarrow> True | Some d \<Rightarrow> fits_field (snd p) d"
  shows "case field_value lib args p of
      Some v \<Rightarrow> coerce_field lib (snd p) (Some v) = Accepted v False
    | None \<Rightarrow> coerce_field lib (snd p) None = Omitted"
proof (cases "coerce_field lib (snd p) (dict_get args (fst p))")
  case Omitted
  then show ?thesis using coerce_field_omitted [OF Omitted] by (simp add: field_value_def coerce_field_def)
next
  case (Defaulted d)
  then show ?thesis using coerce_field_defaulted [OF Defaulted] assms(3) by (simp add: field_value_def coerce_field_fits)
next
  case (Rejected e got)
  then show ?thesis using assms(1) by (simp add: field_fault_def)
next
  case (Accepted v c)
  then show ?thesis using coerce_field_accepted [OF Accepted] by (simp add: field_value_def coerce_field_fits)
next
  case Overflowed
  then show ?thesis using assms(2) by simp
qed

text \<open>Coercion is idempotent when the schema's defaults fit their fields: coerced arguments pass unchanged, so
  the repair turn sees no new errors and nothing is coerced twice.\<close>

lemma coerce_args_idempotent:
  assumes wf: "dict_wf sch" and df: "defaults_fit sch" and r: "coerce_args lib sch args = Some r" and ok: "cr_ok r"
  shows "coerce_args lib sch (cr_args r) =
    Some \<lparr>cr_ok = True, cr_args = cr_args r, cr_errors = [], cr_coerced = [], cr_defaulted = [], cr_unknown = []\<rparr>"
proof -
  let ?o = "cr_args r"
  have get: "dict_get ?o (fst p) = field_value lib args p" if "p \<in> set sch" for p
    using coerce_args_get [OF wf r ok, of "fst p"] that wf by (cases p) (simp add: dict_wf_def)
  have again: "case field_value lib args p of Some v \<Rightarrow> coerce_field lib (snd p) (dict_get ?o (fst p)) = Accepted v False
      | None \<Rightarrow> coerce_field lib (snd p) (dict_get ?o (fst p)) = Omitted" if p: "p \<in> set sch" for p
  proof -
    have "field_fault lib args p = None" using ok p by (simp add: coerce_args_result(1) [OF wf r] list_all_iff)
    moreover have "case fs_default (snd p) of None \<Rightarrow> True | Some d \<Rightarrow> fits_field (snd p) d"
      using df p by (simp add: defaults_fit_def list_all_iff)
    ultimately show ?thesis using field_again [of lib args p] get [OF p] coerce_args_result(6) [OF wf r p]
      by (cases "field_value lib args p") simp_all
  qed
  have val: "field_value lib ?o p = field_value lib args p" and fault: "field_fault lib ?o p = None"
    and nc: "\<nexists>v. coerce_field lib (snd p) (dict_get ?o (fst p)) = Accepted v True"
    and nd: "\<nexists>d. coerce_field lib (snd p) (dict_get ?o (fst p)) = Defaulted d"
    and no: "coerce_field lib (snd p) (dict_get ?o (fst p)) \<noteq> Overflowed" if "p \<in> set sch" for p
    using again [OF that] by (auto simp: field_value_def [of lib ?o] field_fault_def split: option.splits)
  obtain r' where r': "coerce_args lib sch ?o = Some r'"
    using no coerce_fields_raises unfolding coerce_args_def by (cases "coerce_args lib sch ?o") (fastforce simp: coerce_args_def)+
  have ok': "cr_ok r'" using fault by (simp add: coerce_args_result(1) [OF wf r'] list_all_iff)
  have "cr_args r' = ?o" using val coerce_args_result(2) [OF wf r' ok'] coerce_args_result(2) [OF wf r ok]
    by (simp cong: map_cong)
  moreover have "cr_errors r' = []" using fault by (simp add: coerce_args_result(3) [OF wf r'])
  moreover have "cr_coerced r' = []" using nc by (simp add: coerce_args_result(4) [OF wf r'] filter_empty_conv)
  moreover have "cr_defaulted r' = []" using nd by (simp add: coerce_args_result(5) [OF wf r'] filter_empty_conv)
  moreover have "fst ` set ?o \<subseteq> fst ` set sch" by (force simp: coerce_args_result(2) [OF wf r ok] opt_list_def split: option.splits)
  then have "filter (\<lambda>k. k \<notin> fst ` set sch) (map fst ?o) = []" by (auto simp: filter_empty_conv)
  then have "cr_unknown r' = []" using r' unfolding coerce_args_def by auto
  ultimately show ?thesis using ok' r' by (simp add: coerce_result.equality)
qed

definition demo_arg_schema :: arg_schema where
  "demo_arg_schema =
     [(''limit'', \<lparr>fs_type = FtInt, fs_required = True, fs_default = None, fs_min = Some (Finite 1), fs_max = Some (Finite 100)\<rparr>),
      (''dry_run'', \<lparr>fs_type = FtBool, fs_required = False, fs_default = Some (ABool True), fs_min = None, fs_max = None\<rparr>)]"

definition demo_coerce_lib :: coerce_lib where
  "demo_coerce_lib =
     \<lparr>float_of_str = (\<lambda>s. if s = ''nan'' then Some NaN else None), epoch_of_iso = (\<lambda>s. None), str_of_float = (\<lambda>x. [])\<rparr>"

lemma demo_coerced:
  "coerce_args demo_coerce_lib demo_arg_schema [(''limit'', AStr '' 4_2''), (''note'', ANone)] =
     Some \<lparr>cr_ok = True, cr_args = [(''limit'', AInt 42), (''dry_run'', ABool True)], cr_errors = [], cr_coerced = [''limit''],
      cr_defaulted = [''dry_run''], cr_unknown = [''note'']\<rparr>"
  by (simp add: coerce_args_def demo_arg_schema_def coerce_field_def coerce_value_def check_bounds_def py_int_of_str_def
      unsigned_value_def is_digit_def py_strip_def py_space_def)

theorem coerced_args_typed_witness:
  "\<exists>r. coerce_args demo_coerce_lib demo_arg_schema [(''limit'', AStr '' 4_2''), (''note'', ANone)] = Some r \<and>
     dict_get (cr_args r) ''limit'' = Some (AInt 42) \<and>
     (case dict_get demo_arg_schema ''limit'' of None \<Rightarrow> False
      | Some spec \<Rightarrow> field_served spec (Some (AStr '' 4_2'')) (dict_get (cr_args r) ''limit'') True)"
proof -
  have "dict_wf demo_arg_schema" by (simp add: dict_wf_def demo_arg_schema_def)
  from coerced_args_typed [OF this, where lib = demo_coerce_lib and args = "[(''limit'', AStr '' 4_2''), (''note'', ANone)]"]
  have "\<forall>f. case dict_get demo_arg_schema f of
      None \<Rightarrow> dict_get [(''limit'', AInt 42), (''dry_run'', ABool True)] f = None
    | Some spec \<Rightarrow> field_served spec (dict_get [(''limit'', AStr '' 4_2''), (''note'', ANone)] f)
        (dict_get [(''limit'', AInt 42), (''dry_run'', ABool True)] f) (f \<in> set [''limit''])"
    unfolding demo_coerced option.case coerce_result.simps if_True .
  note served = this [rule_format, of "''limit''"]
  show ?thesis by (rule exI, intro conjI, rule demo_coerced, simp) (use served in \<open>simp split: option.splits\<close>)
qed

section \<open>Where the code leaves its documents\<close>

text \<open>A default is passed on as it stands, whatever its type, and also for a required field (documented:
  "used when missing/null AND not required").\<close>

definition loose_schema :: arg_schema where
  "loose_schema = [(''limit'', \<lparr>fs_type = FtInt, fs_required = True, fs_default = Some (AStr ''many''), fs_min = None, fs_max = Some (Finite 9)\<rparr>)]"

lemma default_fills_required_untyped:
  "map_option (\<lambda>r. (cr_ok r, cr_args r)) (coerce_args lib loose_schema []) = Some (True, [(''limit'', AStr ''many'')])"
  by (simp add: coerce_args_def loose_schema_def coerce_field_def)

text \<open>The string \<open>nan\<close> is a float that passes any bounds.\<close>

definition rate_schema :: arg_schema where
  "rate_schema = [(''rate'', \<lparr>fs_type = FtFloat, fs_required = True, fs_default = None, fs_min = Some (Finite 0), fs_max = Some (Finite 1)\<rparr>)]"

lemma nan_passes_bounds:
  "map_option (\<lambda>r. (cr_ok r, cr_args r)) (coerce_args demo_coerce_lib rate_schema [(''rate'', AStr ''nan'')]) =
     Some (True, [(''rate'', AFloat NaN)])"
  by (simp add: coerce_args_def rate_schema_def coerce_field_def coerce_value_def check_bounds_def demo_coerce_lib_def
      py_strip_def py_space_def)

text \<open>An integer too large for a float makes \<open>coerce\<close> raise instead of reporting a field error.\<close>

lemma bit_count_pow2: "bit_count (2 ^ n) = Suc n"
  by (induction n; subst bit_count.simps) simp_all

lemma huge_int_raises: "coerce_args lib rate_schema [(''rate'', AInt (2 ^ 1024))] = None"
proof -
  have e: "bit_count (nat \<bar>2 ^ 1024\<bar>) - 53 = 972"
    using bit_count_pow2 [of 1024] by (simp add: nat_power_eq del: power_numeral)
  have p: "of_int (2 ^ 1024) / 2 ^ 972 = (2 ^ 52 :: rat)" by simp
  have h: "half_even (2 ^ 52) * 2 ^ 972 = 2 ^ 1024" unfolding half_even_def Let_def by simp
  have "py_float_of_int (2 ^ 1024) = None"
    unfolding py_float_of_int_def Let_def e p h by (simp only: abs_power2 abs_numeral power_abs) simp
  then show ?thesis by (simp add: coerce_args_def rate_schema_def coerce_field_def coerce_value_def)
qed

end
