(* ===== verification/Batch_Coalescer.thy ===== *)
theory Batch_Coalescer
  imports Prelude
begin

text \<open>
  The batching of single embedding requests (\<open>embedding-batch-coalescer/coalescer.py\<close>): clients submit
  texts and hold futures; a worker thread collects a batch under the lock, calls the upstream function
  outside it and resolves the futures one by one.  A step is what runs between two points at which another
  thread may run; a condition wait may end at any time (timeout, notification, spurious wake-up).  Future
  \<open>i\<close> is the \<open>i\<close>-th call of \<open>submit\<close>.  The upstream function acts on a world and may raise.
\<close>

section \<open>State\<close>

datatype 'e bc_exn = UpstreamRaised 'e | WrongCount nat nat | CoalescerClosed

datatype ('e, 'v) bc_future = FutPending | FutCancelled | FutDone "'e bc_exn + 'v"

definition fut_is_done :: "('e, 'v) bc_future \<Rightarrow> bool" where
  "fut_is_done f \<longleftrightarrow> f \<noteq> FutPending"

record bc_item =
  bi_id :: nat
  bi_text :: string
  bi_submitted_at :: rat

datatype bc_flush_reason = FlushClose | FlushSize | FlushTime

datatype ('e, 'v) bc_pc =
    AwaitItem
  | InWindow rat
  | Calling "bc_item list" bc_flush_reason
  | Resolving "(nat \<times> ('e bc_exn + 'v)) list"
  | SetFuture nat "'e bc_exn + 'v" "(nat \<times> ('e bc_exn + 'v)) list"
  | WorkerExited
  | WorkerCrashed

record bc_stats =
  st_submitted :: nat
  st_batches_flushed :: nat
  st_items_in_batches :: nat
  st_upstream_calls :: nat
  st_upstream_items :: nat
  st_by_size :: nat
  st_by_time :: nat
  st_by_close :: nat
  st_errors :: nat

definition zero_bc_stats :: bc_stats where
  "zero_bc_stats = \<lparr>st_submitted = 0, st_batches_flushed = 0, st_items_in_batches = 0, st_upstream_calls = 0, st_upstream_items = 0,
     st_by_size = 0, st_by_time = 0, st_by_close = 0, st_errors = 0\<rparr>"

record ('e, 'v, 'w) bc_sys =
  bc_pending :: "bc_item list"
  bc_closed :: bool
  bc_futures :: "('e, 'v) bc_future list"
  bc_texts :: "string list"
  bc_pc_of :: "('e, 'v) bc_pc"
  bc_stats_of :: bc_stats
  bc_world :: 'w

record ('e, 'v, 'w) bc_cfg =
  bc_embed :: "string list \<Rightarrow> 'w \<Rightarrow> ('e + 'v list) \<times> 'w"
  bc_max_batch :: nat
  bc_max_wait :: rat

datatype bc_config_error = MaxBatchBelowOne | NegativeMaxWait

definition new_bc_cfg :: "(string list \<Rightarrow> 'w \<Rightarrow> ('e + 'v list) \<times> 'w) \<Rightarrow> int \<Rightarrow> rat \<Rightarrow> bc_config_error + ('e, 'v, 'w) bc_cfg" where
  "new_bc_cfg embed_fn m wait =
     (if m < 1 then Inl MaxBatchBelowOne
      else if wait < 0 then Inl NegativeMaxWait
      else Inr \<lparr>bc_embed = embed_fn, bc_max_batch = nat m, bc_max_wait = wait\<rparr>)"

definition new_bc :: "'w \<Rightarrow> ('e, 'v, 'w) bc_sys" where
  "new_bc w = \<lparr>bc_pending = [], bc_closed = False, bc_futures = [], bc_texts = [], bc_pc_of = AwaitItem, bc_stats_of = zero_bc_stats, bc_world = w\<rparr>"

section \<open>Clients\<close>

definition bc_submit :: "string \<Rightarrow> rat \<Rightarrow> ('e, 'v, 'w) bc_sys \<Rightarrow> ('e, 'v, 'w) bc_sys" where
  "bc_submit text' now s =
     (let i = length (bc_futures s) in
      if bc_closed s then s\<lparr>bc_futures := bc_futures s @ [FutDone (Inl CoalescerClosed)], bc_texts := bc_texts s @ [text']\<rparr>
      else s\<lparr>bc_futures := bc_futures s @ [FutPending], bc_texts := bc_texts s @ [text'],
             bc_pending := bc_pending s @ [\<lparr>bi_id = i, bi_text = text', bi_submitted_at = now\<rparr>],
             bc_stats_of := (bc_stats_of s)\<lparr>st_submitted := st_submitted (bc_stats_of s) + 1\<rparr>\<rparr>)"

definition bc_close :: "('e, 'v, 'w) bc_sys \<Rightarrow> ('e, 'v, 'w) bc_sys" where
  "bc_close s = s\<lparr>bc_closed := True\<rparr>"

text \<open>\<open>Future.cancel()\<close> of a future that is not running: it succeeds until the future is done.\<close>

definition bc_cancel :: "nat \<Rightarrow> ('e, 'v, 'w) bc_sys \<Rightarrow> ('e, 'v, 'w) bc_sys" where
  "bc_cancel i s = (if i < length (bc_futures s) \<and> bc_futures s ! i = FutPending then s\<lparr>bc_futures := (bc_futures s)[i := FutCancelled]\<rparr> else s)"

section \<open>The worker\<close>

definition take_batch :: "('e, 'v, 'w) bc_cfg \<Rightarrow> bc_flush_reason \<Rightarrow> ('e, 'v, 'w) bc_sys \<Rightarrow> ('e, 'v, 'w) bc_sys" where
  "take_batch cf r s =
     s\<lparr>bc_pc_of := Calling (take (bc_max_batch cf) (bc_pending s)) r, bc_pending := drop (bc_max_batch cf) (bc_pending s)\<rparr>"

definition bc_window :: "('e, 'v, 'w) bc_cfg \<Rightarrow> rat \<Rightarrow> rat \<Rightarrow> ('e, 'v, 'w) bc_sys \<Rightarrow> ('e, 'v, 'w) bc_sys" where
  "bc_window cf first now s =
     (if bc_closed s then take_batch cf FlushClose s
      else if length (bc_pending s) \<ge> bc_max_batch cf then take_batch cf FlushSize s
      else if bc_max_wait cf - (now - first) \<le> 0 then take_batch cf FlushTime s
      else s\<lparr>bc_pc_of := InWindow first\<rparr>)"

text \<open>Identical texts share one upstream slot: the texts in order of first occurrence, and the slot of a text.\<close>

fun first_texts :: "string list \<Rightarrow> bc_item list \<Rightarrow> string list" where
  "first_texts u [] = u"
| "first_texts u (p # ps) = first_texts (if bi_text p \<in> set u then u else u @ [bi_text p]) ps"

fun slot_index :: "string \<Rightarrow> string list \<Rightarrow> nat" where
  "slot_index t [] = 0"
| "slot_index t (u # us) = (if u = t then 0 else Suc (slot_index t us))"

definition flush_stats :: "bc_item list \<Rightarrow> bc_flush_reason \<Rightarrow> nat \<Rightarrow> bool \<Rightarrow> bc_stats \<Rightarrow> bc_stats" where
  "flush_stats batch r n failed st =
     st\<lparr>st_batches_flushed := st_batches_flushed st + 1, st_items_in_batches := st_items_in_batches st + length batch,
        st_by_size := st_by_size st + (if r = FlushSize then 1 else 0), st_by_time := st_by_time st + (if r = FlushTime then 1 else 0),
        st_by_close := st_by_close st + (if r = FlushClose then 1 else 0), st_upstream_calls := st_upstream_calls st + 1,
        st_upstream_items := st_upstream_items st + n, st_errors := st_errors st + (if failed then 1 else 0)\<rparr>"

definition batch_answers :: "bc_item list \<Rightarrow> string list \<Rightarrow> 'e + 'v list \<Rightarrow> (nat \<times> ('e bc_exn + 'v)) list" where
  "batch_answers batch unique answer =
     (case answer of
        Inl e \<Rightarrow> map (\<lambda>p. (bi_id p, Inl (UpstreamRaised e))) batch
      | Inr vs \<Rightarrow>
          if length vs \<noteq> length unique then map (\<lambda>p. (bi_id p, Inl (WrongCount (length vs) (length unique)))) batch
          else map (\<lambda>p. (bi_id p, Inr (vs ! slot_index (bi_text p) unique))) batch)"

definition answer_failed :: "string list \<Rightarrow> 'e + 'v list \<Rightarrow> bool" where
  "answer_failed unique answer = (case answer of Inl e \<Rightarrow> True | Inr vs \<Rightarrow> length vs \<noteq> length unique)"

definition bc_work :: "('e, 'v, 'w) bc_cfg \<Rightarrow> rat \<Rightarrow> ('e, 'v, 'w) bc_sys \<Rightarrow> ('e, 'v, 'w) bc_sys" where
  "bc_work cf now s =
     (case bc_pc_of s of
        AwaitItem \<Rightarrow>
          (case bc_pending s of
             [] \<Rightarrow> if bc_closed s then s\<lparr>bc_pc_of := WorkerExited\<rparr> else s
           | p # ps \<Rightarrow> bc_window cf (bi_submitted_at p) now s)
      | InWindow first \<Rightarrow> bc_window cf first now s
      | Calling batch r \<Rightarrow>
          if batch = [] then s\<lparr>bc_pc_of := AwaitItem\<rparr>
          else
            (let unique = first_texts [] batch; (answer, w) = bc_embed cf unique (bc_world s) in
             s\<lparr>bc_pc_of := Resolving (batch_answers batch unique answer), bc_world := w,
               bc_stats_of := flush_stats batch r (length unique) (answer_failed unique answer) (bc_stats_of s)\<rparr>)
      | Resolving [] \<Rightarrow> s\<lparr>bc_pc_of := AwaitItem\<rparr>
      | Resolving ((i, r) # todo) \<Rightarrow>
          if fut_is_done (bc_futures s ! i) then s\<lparr>bc_pc_of := Resolving todo\<rparr> else s\<lparr>bc_pc_of := SetFuture i r todo\<rparr>
      | SetFuture i r todo \<Rightarrow>
          if fut_is_done (bc_futures s ! i) then s\<lparr>bc_pc_of := WorkerCrashed\<rparr>
          else s\<lparr>bc_futures := (bc_futures s)[i := FutDone r], bc_pc_of := Resolving todo\<rparr>
      | WorkerExited \<Rightarrow> s
      | WorkerCrashed \<Rightarrow> s)"

datatype bc_action = Submit string rat | Cancel nat | CloseIt | Work rat

definition bc_step :: "('e, 'v, 'w) bc_cfg \<Rightarrow> bc_action \<Rightarrow> ('e, 'v, 'w) bc_sys \<Rightarrow> ('e, 'v, 'w) bc_sys" where
  "bc_step cf a s =
     (case a of Submit t now \<Rightarrow> bc_submit t now s | Cancel i \<Rightarrow> bc_cancel i s | CloseIt \<Rightarrow> bc_close s | Work now \<Rightarrow> bc_work cf now s)"

definition bc_run :: "('e, 'v, 'w) bc_cfg \<Rightarrow> bc_action list \<Rightarrow> ('e, 'v, 'w) bc_sys \<Rightarrow> ('e, 'v, 'w) bc_sys" where
  "bc_run cf as s = fold (bc_step cf) as s"

section \<open>The invariant\<close>

fun work_ids :: "('e, 'v) bc_pc \<Rightarrow> nat list" where
  "work_ids (Calling b r) = map bi_id b"
| "work_ids (Resolving t) = map fst t"
| "work_ids (SetFuture i r t) = i # map fst t"
| "work_ids _ = []"

fun work_answers :: "('e, 'v) bc_pc \<Rightarrow> (nat \<times> ('e bc_exn + 'v)) list" where
  "work_answers (Resolving t) = t"
| "work_answers (SetFuture i r t) = (i, r) # t"
| "work_answers _ = []"

fun work_items :: "('e, 'v) bc_pc \<Rightarrow> bc_item list" where
  "work_items (Calling b r) = b"
| "work_items _ = []"

text \<open>The futures still to be resolved, in the order they will be.\<close>

definition bc_queue :: "('e, 'v, 'w) bc_sys \<Rightarrow> nat list" where
  "bc_queue s = work_ids (bc_pc_of s) @ map bi_id (bc_pending s)"

definition honest :: "('e, 'v, 'w) bc_cfg \<Rightarrow> (string \<Rightarrow> 'v) \<Rightarrow> bool" where
  "honest cf e \<longleftrightarrow> (\<forall>us w vs. fst (bc_embed cf us w) = Inr vs \<longrightarrow> length vs = length us \<longrightarrow> vs = map e us)"

definition answer_fits :: "(string \<Rightarrow> 'v) \<Rightarrow> string list \<Rightarrow> nat \<Rightarrow> ('e bc_exn + 'v) \<Rightarrow> bool" where
  "answer_fits e ts i r = (case r of Inl x \<Rightarrow> True | Inr v \<Rightarrow> v = e (ts ! i))"

definition bc_shape :: "('e, 'v, 'w) bc_sys \<Rightarrow> bool" where
  "bc_shape s \<longleftrightarrow> length (bc_texts s) = length (bc_futures s) \<and> sorted_wrt (<) (bc_queue s) \<and>
     (\<forall>i\<in>set (bc_queue s). i < length (bc_futures s)) \<and>
     (\<forall>p\<in>set (work_items (bc_pc_of s) @ bc_pending s). bi_text p = bc_texts s ! bi_id p) \<and>
     ((\<exists>f. bc_pc_of s = InWindow f) \<longrightarrow> bc_pending s \<noteq> []) \<and>
     (bc_pc_of s = WorkerExited \<longrightarrow> bc_closed s \<and> bc_pending s = [])"

definition bc_correct :: "(string \<Rightarrow> 'v) \<Rightarrow> ('e, 'v, 'w) bc_sys \<Rightarrow> bool" where
  "bc_correct e s \<longleftrightarrow> (\<forall>(i, r)\<in>set (work_answers (bc_pc_of s)). answer_fits e (bc_texts s) i r) \<and>
     (\<forall>i<length (bc_futures s). \<forall>r. bc_futures s ! i = FutDone r \<longrightarrow> answer_fits e (bc_texts s) i r)"

definition bc_none_lost :: "('e, 'v, 'w) bc_sys \<Rightarrow> bool" where
  "bc_none_lost s \<longleftrightarrow> (\<forall>i<length (bc_futures s). bc_futures s ! i = FutPending \<longrightarrow> i \<in> set (bc_queue s) \<or> bc_pc_of s = WorkerCrashed)"

text \<open>While nobody cancels, every queued future is pending, and the worker lives.\<close>

definition bc_calm :: "('e, 'v, 'w) bc_sys \<Rightarrow> bool" where
  "bc_calm s \<longleftrightarrow> (\<forall>i\<in>set (bc_queue s). bc_futures s ! i = FutPending) \<and> bc_pc_of s \<noteq> WorkerCrashed"

lemma set_first_texts: "set (first_texts u ps) = set u \<union> bi_text ` set ps"
  by (induction u ps rule: first_texts.induct) auto

lemma slot_index_in: "t \<in> set us \<Longrightarrow> slot_index t us < length us \<and> us ! slot_index t us = t"
  by (induction us) auto

lemma batch_answers_ids: "map fst (batch_answers b u a) = map bi_id b"
  by (simp add: batch_answers_def o_def split: sum.split)

lemma length_batch_answers [simp]: "length (batch_answers b u a) = length b"
  using arg_cong [OF batch_answers_ids [of b u a], of length] by simp

lemma batch_answers_in: "(i, r) \<in> set (batch_answers b u a) \<Longrightarrow> i \<in> bi_id ` set b"
  using batch_answers_ids [of b u a] by (metis fst_conv image_eqI image_set)

lemma batch_answers_fit:
  assumes "honest cf e" "bc_embed cf (first_texts [] b) w = (a, w')" "\<forall>p\<in>set b. bi_text p = ts ! bi_id p"
    "(i, r) \<in> set (batch_answers b (first_texts [] b) a)"
  shows "answer_fits e ts i r"
proof (cases "\<exists>vs. a = Inr vs \<and> length vs = length (first_texts [] b)")
  case True
  then obtain vs where a: "a = Inr vs" "length vs = length (first_texts [] b)" by blast
  then have vs: "vs = map e (first_texts [] b)" using assms(1,2) unfolding honest_def by (metis fst_conv)
  obtain p where p: "p \<in> set b" "i = bi_id p" "r = Inr (vs ! slot_index (bi_text p) (first_texts [] b))"
    using assms(4) a by (auto simp: batch_answers_def)
  then have "bi_text p \<in> set (first_texts [] b)" by (simp add: set_first_texts)
  then have "vs ! slot_index (bi_text p) (first_texts [] b) = e (bi_text p)" using slot_index_in by (simp add: vs)
  then show ?thesis using p assms(3) by (simp add: answer_fits_def)
next
  case False
  then show ?thesis using assms(4) by (auto simp: batch_answers_def answer_fits_def split: sum.splits if_splits)
qed

section \<open>Every step keeps it\<close>

definition bc_inv :: "(string \<Rightarrow> 'v) \<Rightarrow> ('e, 'v, 'w) bc_sys \<Rightarrow> bool" where
  "bc_inv e s \<longleftrightarrow> bc_shape s \<and> bc_correct e s \<and> bc_none_lost s"

lemmas bc_inv_defs = bc_inv_def bc_shape_def bc_correct_def bc_none_lost_def bc_queue_def

lemma fits_append: "i < length ts \<Longrightarrow> answer_fits e (ts @ us) i r = answer_fits e ts i r"
  by (cases r) (simp_all add: answer_fits_def nth_append)

lemma work_answers_ids: "(i, r) \<in> set (work_answers pc) \<Longrightarrow> i \<in> set (work_ids pc)"
  by (cases pc) force+

lemma work_item_ids: "p \<in> set (work_items pc) \<Longrightarrow> bi_id p \<in> set (work_ids pc)"
  by (cases pc) auto

text \<open>A new future at the end, queued when it is pending.\<close>

lemma append_future_inv:
  assumes inv: "bc_inv e s" and s': "bc_futures s' = bc_futures s @ [f]" "bc_texts s' = bc_texts s @ [t]" "bc_pc_of s' = bc_pc_of s"
    and pend: "bc_pending s' = bc_pending s @ (if f = FutPending then [q] else [])" "bi_id q = length (bc_futures s)" "bi_text q = t"
    and cl: "bc_closed s' = bc_closed s" "f = FutPending \<longrightarrow> \<not> bc_closed s" "\<forall>r. f = FutDone r \<longrightarrow> (\<exists>x. r = Inl x)"
  shows "bc_inv e s'"
proof -
  have shape: "bc_shape s" and cor: "bc_correct e s" and nl: "bc_none_lost s" using inv by (simp_all add: bc_inv_def)
  have len: "length (bc_texts s) = length (bc_futures s)" and lt: "\<forall>i\<in>set (bc_queue s). i < length (bc_futures s)"
    using shape by (simp_all add: bc_shape_def)
  have q: "bc_queue s' = bc_queue s @ (if f = FutPending then [length (bc_futures s)] else [])" using s' pend by (simp add: bc_queue_def)
  have item: "bi_id p < length (bc_texts s)" if "p \<in> set (work_items (bc_pc_of s) @ bc_pending s)" for p
    using that lt len work_item_ids [of p "bc_pc_of s"] by (auto simp: bc_queue_def)
  have "bc_shape s'" unfolding bc_shape_def
  proof (intro conjI)
    show "length (bc_texts s') = length (bc_futures s')" using len s' by simp
    show "sorted_wrt (<) (bc_queue s')" using shape lt by (simp add: q bc_shape_def sorted_wrt_append)
    show "\<forall>i\<in>set (bc_queue s'). i < length (bc_futures s')" using lt s' by (auto simp: q)
    show "\<forall>p\<in>set (work_items (bc_pc_of s') @ bc_pending s'). bi_text p = bc_texts s' ! bi_id p"
      using shape item pend s' len by (auto simp: bc_shape_def nth_append split: if_splits)
    show "(\<exists>f. bc_pc_of s' = InWindow f) \<longrightarrow> bc_pending s' \<noteq> []" using shape s' pend by (auto simp: bc_shape_def)
    show "bc_pc_of s' = WorkerExited \<longrightarrow> bc_closed s' \<and> bc_pending s' = []" using shape s' pend cl by (auto simp: bc_shape_def)
  qed
  moreover have "bc_correct e s'" unfolding bc_correct_def
  proof (intro conjI)
    have "i < length (bc_texts s)" if "(i, r) \<in> set (work_answers (bc_pc_of s))" for i r
      using work_answers_ids [OF that] lt len by (simp add: bc_queue_def)
    then show "\<forall>(i, r)\<in>set (work_answers (bc_pc_of s')). answer_fits e (bc_texts s') i r"
      using cor by (auto simp: bc_correct_def s' fits_append)
    show "\<forall>i<length (bc_futures s'). \<forall>r. bc_futures s' ! i = FutDone r \<longrightarrow> answer_fits e (bc_texts s') i r"
    proof (intro allI impI)
      fix i r assume i: "i < length (bc_futures s')" "bc_futures s' ! i = FutDone r"
      show "answer_fits e (bc_texts s') i r"
      proof (cases "i < length (bc_futures s)")
        case True
        then show ?thesis using cor i len by (simp add: bc_correct_def s' fits_append nth_append)
      next
        case False
        then have "f = FutDone r" using i by (simp add: s' nth_append split: if_splits)
        then show ?thesis using cl(3) by (auto simp: answer_fits_def)
      qed
    qed
  qed
  moreover have "bc_none_lost s'" using nl by (auto simp: bc_none_lost_def q s' nth_append less_Suc_eq)
  ultimately show ?thesis by (simp add: bc_inv_def)
qed

lemma submit_inv: "bc_inv e s \<Longrightarrow> bc_inv e (bc_submit t now s)"
  by (cases "bc_closed s"; rule append_future_inv [where s = s and t = t and q = "\<lparr>bi_id = length (bc_futures s), bi_text = t, bi_submitted_at = now\<rparr>"])
    (auto simp: bc_submit_def Let_def)

lemma submit_calm: "bc_inv e s \<Longrightarrow> bc_calm s \<Longrightarrow> bc_calm (bc_submit t now s)"
  by (auto simp: bc_calm_def bc_inv_defs bc_submit_def Let_def nth_append)

lemma close_inv: "bc_inv e s \<Longrightarrow> bc_inv e (bc_close s)"
  by (auto simp: bc_inv_defs bc_close_def)

lemma cancel_inv: "bc_inv e s \<Longrightarrow> bc_inv e (bc_cancel i s)"
  by (auto simp: bc_inv_defs bc_cancel_def nth_list_update)

lemma take_inv:
  assumes "bc_inv e s" "work_ids (bc_pc_of s) = []" "bc_pc_of s \<noteq> WorkerCrashed"
  shows "bc_inv e (take_batch cf r s)"
proof -
  have q: "bc_queue (take_batch cf r s) = bc_queue s"
    using assms(2) by (simp add: bc_queue_def take_batch_def map_append [symmetric] del: map_append)
  have it: "set (work_items (bc_pc_of (take_batch cf r s)) @ bc_pending (take_batch cf r s)) = set (bc_pending s)"
    by (simp add: take_batch_def set_append [symmetric] del: set_append)
  show ?thesis using assms unfolding bc_inv_def bc_shape_def bc_correct_def bc_none_lost_def q it
    by (auto simp: take_batch_def)
qed

lemma window_inv:
  assumes "bc_inv e s" "work_ids (bc_pc_of s) = []" "bc_pc_of s \<noteq> WorkerCrashed" "bc_pending s \<noteq> []"
  shows "bc_inv e (bc_window cf f now s)"
proof -
  have "bc_inv e (s\<lparr>bc_pc_of := InWindow f\<rparr>)" using assms by (auto simp: bc_inv_defs)
  then show ?thesis using take_inv [OF assms(1-3)] by (simp add: bc_window_def)
qed

text \<open>The worker moves on: the queue loses a prefix of futures that are done.\<close>

lemma move_inv:
  assumes inv: "bc_inv e s" and same: "bc_futures s' = bc_futures s" "bc_texts s' = bc_texts s" "bc_pending s' = bc_pending s" "bc_closed s' = bc_closed s"
    and ids: "work_ids (bc_pc_of s) = xs @ work_ids (bc_pc_of s')"
    and lost: "\<forall>i\<in>set xs. fut_is_done (bc_futures s ! i) \<or> bc_pc_of s' = WorkerCrashed" "bc_pc_of s \<noteq> WorkerCrashed"
    and ans: "\<forall>(i, r)\<in>set (work_answers (bc_pc_of s')). answer_fits e (bc_texts s) i r"
    and items: "set (work_items (bc_pc_of s')) \<subseteq> set (work_items (bc_pc_of s))"
    and win: "\<forall>f. bc_pc_of s' \<noteq> InWindow f" "bc_pc_of s' = WorkerExited \<longrightarrow> bc_closed s \<and> bc_pending s = []"
  shows "bc_inv e s'"
proof -
  have q: "bc_queue s = xs @ bc_queue s'" using ids same by (simp add: bc_queue_def)
  have "bc_shape s'" using inv items win same by (auto simp: bc_inv_def bc_shape_def q sorted_wrt_append)
  moreover have "bc_correct e s'" using inv ans same by (simp add: bc_inv_def bc_correct_def)
  moreover have "bc_none_lost s'" using inv lost same by (auto simp: bc_inv_def bc_none_lost_def q fut_is_done_def)
  ultimately show ?thesis by (simp add: bc_inv_def)
qed

lemma resolve_inv:
  assumes inv: "bc_inv e s" and pc: "bc_pc_of s = SetFuture i r todo"
  shows "bc_inv e (s\<lparr>bc_futures := (bc_futures s)[i := FutDone r], bc_pc_of := Resolving todo\<rparr>)" (is "bc_inv e ?s'")
proof -
  have q: "bc_queue s = i # bc_queue ?s'" using pc by (simp add: bc_queue_def)
  have shape: "bc_shape s" and cor: "bc_correct e s" and nl: "bc_none_lost s" using inv by (simp_all add: bc_inv_def)
  have "bc_shape ?s'" using shape by (auto simp: bc_shape_def q pc)
  moreover have "answer_fits e (bc_texts s) j x" if "j < length (bc_futures s)" "(bc_futures s)[i := FutDone r] ! j = FutDone x" for j x
    using cor that by (cases "j = i") (auto simp: bc_correct_def pc)
  then have "bc_correct e ?s'" using cor by (auto simp: bc_correct_def pc)
  moreover have "j \<noteq> i \<and> bc_futures s ! j = FutPending" if "j < length (bc_futures s)" "(bc_futures s)[i := FutDone r] ! j = FutPending" for j
    using that by (cases "j = i") auto
  then have "bc_none_lost ?s'" using nl by (auto simp: bc_none_lost_def q pc)
  ultimately show ?thesis by (simp add: bc_inv_def)
qed

lemma call_inv:
  assumes inv: "bc_inv e s" and hon: "honest cf e" and pc: "bc_pc_of s = Calling b r"
  shows "bc_inv e (bc_work cf now s)"
proof (cases "b = []")
  case True
  then show ?thesis using pc by (intro move_inv [OF inv, where xs = "[]"]) (simp_all add: bc_work_def)
next
  case False
  obtain a w where em: "bc_embed cf (first_texts [] b) (bc_world s) = (a, w)" by (cases "bc_embed cf (first_texts [] b) (bc_world s)")
  have tx: "\<forall>p\<in>set b. bi_text p = bc_texts s ! bi_id p" using inv pc by (auto simp: bc_inv_def bc_shape_def)
  have pc': "bc_pc_of (bc_work cf now s) = Resolving (batch_answers b (first_texts [] b) a)"
    using False pc em by (simp add: bc_work_def Let_def)
  have "\<forall>(i, q)\<in>set (work_answers (bc_pc_of (bc_work cf now s))). answer_fits e (bc_texts s) i q"
    using batch_answers_fit [OF hon em tx] by (auto simp: pc')
  then show ?thesis using False pc em
    by (intro move_inv [OF inv, where xs = "[]"]) (simp_all add: pc' batch_answers_ids, simp_all add: bc_work_def Let_def)
qed

lemma work_inv:
  assumes inv: "bc_inv e s" and hon: "honest cf e"
  shows "bc_inv e (bc_work cf now s)"
proof (cases "bc_pc_of s")
  case AwaitItem
  show ?thesis
  proof (cases "bc_pending s")
    case Nil
    show ?thesis
    proof (cases "bc_closed s")
      case True
      then show ?thesis using AwaitItem Nil by (intro move_inv [OF inv, where xs = "[]"]) (simp_all add: bc_work_def)
    qed (use AwaitItem Nil inv in \<open>simp add: bc_work_def\<close>)
  next
    case (Cons p ps)
    then show ?thesis using window_inv [OF inv] AwaitItem by (simp add: bc_work_def)
  qed
next
  case (InWindow f)
  then have "bc_pending s \<noteq> []" using inv by (auto simp: bc_inv_def bc_shape_def)
  then show ?thesis using window_inv [OF inv] InWindow by (simp add: bc_work_def)
next
  case (Calling b r)
  then show ?thesis by (rule call_inv [OF inv hon])
next
  case (Resolving todo)
  have ans: "\<forall>(i, r)\<in>set todo. answer_fits e (bc_texts s) i r" using inv Resolving by (simp add: bc_inv_def bc_correct_def)
  show ?thesis
  proof (cases todo)
    case Nil
    then show ?thesis using Resolving by (intro move_inv [OF inv, where xs = "[]"]) (simp_all add: bc_work_def)
  next
    case (Cons x rest)
    obtain i r where x: "x = (i, r)" by (cases x)
    show ?thesis
    proof (cases "fut_is_done (bc_futures s ! i)")
      case True
      then show ?thesis using Resolving Cons x ans by (intro move_inv [OF inv, where xs = "[i]"]) (simp_all add: bc_work_def)
    next
      case False
      then show ?thesis using Resolving Cons x ans by (intro move_inv [OF inv, where xs = "[]"]) (simp_all add: bc_work_def)
    qed
  qed
next
  case (SetFuture i r todo)
  show ?thesis
  proof (cases "fut_is_done (bc_futures s ! i)")
    case True
    then show ?thesis using SetFuture by (intro move_inv [OF inv, where xs = "i # map fst todo"]) (simp_all add: bc_work_def)
  next
    case False
    then show ?thesis using resolve_inv [OF inv SetFuture] SetFuture by (simp add: bc_work_def)
  qed
qed (use inv in \<open>simp_all add: bc_work_def\<close>)

lemma work_calm:
  fixes s :: "('e, 'v, 'w) bc_sys"
  assumes inv: "bc_inv e s" and calm: "bc_calm s"
  shows "bc_calm (bc_work cf now s)"
proof -
  have srt: "sorted_wrt (<) (bc_queue s)" and lt: "\<forall>i\<in>set (bc_queue s). i < length (bc_futures s)"
    using inv by (simp_all add: bc_inv_def bc_shape_def)
  have pend: "\<forall>i\<in>set (bc_queue s). bc_futures s ! i = FutPending" and alive: "bc_pc_of s \<noteq> WorkerCrashed"
    using calm by (simp_all add: bc_calm_def)
  have move: "bc_calm s'" if "bc_futures s' = bc_futures s" "set (bc_queue s') \<subseteq> set (bc_queue s)" "bc_pc_of s' \<noteq> WorkerCrashed"
    for s' :: "('e, 'v, 'w) bc_sys"
    using that pend by (auto simp: bc_calm_def)
  have win: "bc_calm (bc_window cf f now s)" if "work_ids (bc_pc_of s) = []" for f
    using that by (intro move) (auto simp: bc_window_def take_batch_def bc_queue_def dest: in_set_takeD in_set_dropD)
  show ?thesis
  proof (cases "bc_pc_of s")
    case AwaitItem
    then show ?thesis using win calm
      by (cases "bc_pending s") (auto simp: bc_work_def intro!: move, auto simp: bc_queue_def)
  next
    case (InWindow f)
    then show ?thesis using win by (simp add: bc_work_def)
  next
    case (Calling b r)
    then show ?thesis
      by (intro move) (auto simp: bc_work_def Let_def bc_queue_def case_prod_beta dest: batch_answers_in)
  next
    case (Resolving todo)
    show ?thesis
    proof (cases todo)
      case Nil
      then show ?thesis using Resolving by (intro move) (auto simp: bc_work_def bc_queue_def)
    next
      case (Cons x rest)
      then show ?thesis using Resolving by (cases x) (intro move; auto simp: bc_work_def bc_queue_def)
    qed
  next
    case (SetFuture i r todo)
    then have "bc_futures s ! i = FutPending" using pend by (simp add: bc_queue_def)
    then have w: "bc_work cf now s = s\<lparr>bc_futures := (bc_futures s)[i := FutDone r], bc_pc_of := Resolving todo\<rparr>"
      using SetFuture by (simp add: bc_work_def fut_is_done_def)
    have "bc_futures (bc_work cf now s) ! j = FutPending" if j: "j \<in> set (bc_queue (bc_work cf now s))" for j
    proof -
      have "j \<noteq> i" using srt j SetFuture by (auto simp: w bc_queue_def)
      moreover have "j \<in> set (bc_queue s)" using j SetFuture by (simp add: w bc_queue_def)
      ultimately show ?thesis using pend by (simp add: w)
    qed
    then show ?thesis by (simp add: bc_calm_def w)
  qed (use calm in \<open>simp_all add: bc_work_def\<close>)
qed

lemma bc_step_inv: "bc_inv e s \<Longrightarrow> honest cf e \<Longrightarrow> bc_inv e (bc_step cf a s)"
  by (cases a) (simp_all add: bc_step_def submit_inv close_inv cancel_inv work_inv)

fun no_cancel :: "bc_action list \<Rightarrow> bool" where
  "no_cancel [] = True"
| "no_cancel (Cancel i # as) = False"
| "no_cancel (_ # as) = no_cancel as"

lemma close_calm: "bc_calm s \<Longrightarrow> bc_calm (bc_close s)"
  by (simp add: bc_calm_def bc_close_def bc_queue_def)

lemma bc_run_inv:
  assumes "honest cf e"
  shows "bc_inv e s \<Longrightarrow> bc_inv e (bc_run cf as s) \<and> (no_cancel as \<longrightarrow> bc_calm s \<longrightarrow> bc_calm (bc_run cf as s))"
proof (induction as arbitrary: s)
  case (Cons a as)
  have "bc_inv e (bc_step cf a s)" using Cons.prems assms by (rule bc_step_inv)
  moreover have "bc_calm (bc_step cf a s)" if "bc_calm s" "no_cancel (a # as)"
    using that Cons.prems submit_calm work_calm close_calm by (cases a) (auto simp: bc_step_def)
  moreover have "no_cancel (a # as) \<Longrightarrow> no_cancel as" by (cases a) auto
  ultimately show ?case using Cons.IH [of "bc_step cf a s"] by (auto simp: bc_run_def)
qed (simp add: bc_run_def)

lemma new_bc_inv: "bc_inv e (new_bc w)" "bc_calm (new_bc w)"
  by (simp_all add: new_bc_def bc_inv_defs bc_calm_def)

section \<open>After close the worker finishes\<close>

fun pc_left :: "('e, 'v) bc_pc \<Rightarrow> nat" where
  "pc_left AwaitItem = 1"
| "pc_left (InWindow f) = 2"
| "pc_left (Calling b r) = 3 * length b + 3"
| "pc_left (Resolving t) = 2 * length t + 2"
| "pc_left (SetFuture i r t) = 2 * length t + 3"
| "pc_left WorkerExited = 0"
| "pc_left WorkerCrashed = 0"

definition work_left :: "('e, 'v, 'w) bc_sys \<Rightarrow> nat" where
  "work_left s = 6 * length (bc_pending s) + pc_left (bc_pc_of s)"

lemma work_closed [simp]: "bc_closed (bc_work cf now s) = bc_closed s"
  by (simp add: bc_work_def bc_window_def take_batch_def Let_def case_prod_beta split: bc_pc.split list.split)

lemma take_left:
  assumes "bc_pending s \<noteq> []" "1 \<le> bc_max_batch cf" "1 \<le> pc_left (bc_pc_of s)"
  shows "work_left (take_batch cf r s) < work_left s"
proof -
  obtain p ps where p: "bc_pending s = p # ps" using assms(1) by (cases "bc_pending s") auto
  obtain m where m: "bc_max_batch cf = Suc m" using assms(2) by (cases "bc_max_batch cf") auto
  have "length (take m ps) + length (drop m ps) = length ps" by simp
  then show ?thesis using assms(3) by (simp add: work_left_def take_batch_def p m)
qed

lemma work_left_decreases:
  assumes "bc_inv e s" "bc_closed s" "1 \<le> bc_max_batch cf" "pc_left (bc_pc_of s) \<noteq> 0"
  shows "work_left (bc_work cf now s) < work_left s"
proof (cases "bc_pc_of s")
  case AwaitItem
  show ?thesis
  proof (cases "bc_pending s")
    case Nil
    then show ?thesis using AwaitItem assms(2) by (simp add: bc_work_def work_left_def)
  next
    case (Cons p ps)
    then show ?thesis using AwaitItem assms(2) take_left [OF _ assms(3), of s] by (simp add: bc_work_def bc_window_def)
  qed
next
  case (InWindow f)
  then have "bc_pending s \<noteq> []" using assms(1) by (auto simp: bc_inv_def bc_shape_def)
  then show ?thesis using InWindow assms(2) take_left [OF _ assms(3), of s] by (simp add: bc_work_def bc_window_def)
next
  case (Calling b r)
  then show ?thesis by (cases b) (auto simp: bc_work_def work_left_def Let_def case_prod_beta)
next
  case (Resolving todo)
  then show ?thesis by (cases todo) (auto simp: bc_work_def work_left_def)
next
  case (SetFuture i r todo)
  then show ?thesis by (auto simp: bc_work_def work_left_def)
qed (use assms(4) in simp_all)

lemma worker_exits:
  assumes "honest cf e" "1 \<le> bc_max_batch cf"
  shows "bc_inv e s \<Longrightarrow> bc_calm s \<Longrightarrow> bc_closed s \<Longrightarrow> work_left s \<le> length nows \<Longrightarrow>
    bc_pc_of (bc_run cf (map Work nows) s) = WorkerExited \<and> bc_inv e (bc_run cf (map Work nows) s) \<and>
    bc_texts (bc_run cf (map Work nows) s) = bc_texts s"
proof (induction nows arbitrary: s)
  case Nil
  then have "pc_left (bc_pc_of s) = 0" "bc_pc_of s \<noteq> WorkerCrashed" by (simp_all add: work_left_def bc_calm_def)
  then have "bc_pc_of s = WorkerExited" by (cases "bc_pc_of s") auto
  then show ?case using Nil by (simp add: bc_run_def)
next
  case (Cons now nows)
  have tx: "bc_texts (bc_work cf now s) = bc_texts s"
    by (simp add: bc_work_def bc_window_def take_batch_def Let_def case_prod_beta split: bc_pc.split list.split)
  have left: "work_left (bc_work cf now s) \<le> length nows"
  proof (cases "pc_left (bc_pc_of s) = 0")
    case True
    then have "bc_pc_of s = WorkerExited" using Cons.prems(2) by (cases "bc_pc_of s") (auto simp: bc_calm_def)
    then show ?thesis using Cons.prems(1) by (simp add: bc_work_def work_left_def bc_inv_def bc_shape_def)
  next
    case False
    then show ?thesis using work_left_decreases [OF Cons.prems(1,3) assms(2) False, of now] Cons.prems(4) by simp
  qed
  show ?case
    using Cons.IH [OF work_inv [OF Cons.prems(1) assms(1)] work_calm [OF Cons.prems(1,2)] _ left] Cons.prems(3) tx
    by (simp add: bc_run_def bc_step_def)
qed

section \<open>Properties\<close>

text \<open>C5. For every interleaving of submissions, cancellations, closing and steps of the worker, with an
  upstream function that embeds the texts it is given in order whenever it answers with the right number of
  vectors (it may raise, and may answer with another number): a future that is resolved with a vector holds the
  embedding of its own text, whatever was batched with it and however duplicates were merged; and the futures
  still pending are all queued, in the order of submission, unless the worker has crashed.  If nobody cancels
  the worker never crashes, and after \<open>close\<close> it ends within \<open>work_left\<close> steps with every future resolved.\<close>

theorem batched_futures_answered:
  assumes "honest cf e" "new_bc_cfg embed_fn m wait = Inr cf" "s = bc_run cf as (new_bc w)"
  shows "(\<forall>i<length (bc_futures s). \<forall>v. bc_futures s ! i = FutDone (Inr v) \<longrightarrow> v = e (bc_texts s ! i)) \<and>
    sorted_wrt (<) (bc_queue s) \<and>
    (\<forall>i<length (bc_futures s). bc_futures s ! i = FutPending \<longrightarrow> i \<in> set (bc_queue s) \<or> bc_pc_of s = WorkerCrashed) \<and>
    (no_cancel as \<longrightarrow> bc_pc_of s \<noteq> WorkerCrashed \<and>
      (\<forall>nows. bc_closed s \<and> work_left s \<le> length nows \<longrightarrow>
        (let s' = bc_run cf (map Work nows) s in bc_pc_of s' = WorkerExited \<and> list_all fut_is_done (bc_futures s'))))"
proof -
  have m1: "1 \<le> bc_max_batch cf" using assms(2) by (auto simp: new_bc_cfg_def split: if_splits)
  have inv: "bc_inv e s" and calm: "no_cancel as \<longrightarrow> bc_calm s"
    using bc_run_inv [OF assms(1) new_bc_inv(1), of as w] assms(3) by (simp_all add: new_bc_inv)
  have "v = e (bc_texts s ! i)" if "i < length (bc_futures s)" "bc_futures s ! i = FutDone (Inr v)" for i v
    using inv that by (force simp: bc_inv_def bc_correct_def answer_fits_def)
  moreover have "bc_pc_of (bc_run cf (map Work nows) s) = WorkerExited \<and> list_all fut_is_done (bc_futures (bc_run cf (map Work nows) s))"
    if "no_cancel as" "bc_closed s" "work_left s \<le> length nows" for nows
  proof -
    let ?s' = "bc_run cf (map Work nows) s"
    have x: "bc_pc_of ?s' = WorkerExited" "bc_inv e ?s'" using worker_exits [OF assms(1) m1 inv _ that(2,3)] calm that(1) by blast+
    then have "bc_queue ?s' = []" by (simp add: bc_inv_def bc_shape_def bc_queue_def)
    then show ?thesis using x by (simp add: bc_inv_def bc_none_lost_def list_all_length fut_is_done_def)
  qed
  ultimately show ?thesis using inv calm by (auto simp: bc_inv_def bc_shape_def bc_none_lost_def bc_calm_def Let_def)
qed

definition demo_bc :: "(string, nat, nat) bc_cfg" where
  "demo_bc = \<lparr>bc_embed = (\<lambda>us n. (Inr (map length us), n + 1)), bc_max_batch = 2, bc_max_wait = 1\<rparr>"

definition demo_bc_actions :: "bc_action list" where
  "demo_bc_actions = [Submit ''ab'' 0, Work 0, Submit ''ab'' 0, Submit ''c'' 0, Work 0, CloseIt]"

text \<open>Two equal texts in one batch, and one text left for the batch after \<open>close\<close>.\<close>

theorem batched_futures_answered_witness:
  "let s = bc_run demo_bc demo_bc_actions (new_bc 0); s' = bc_run demo_bc (map Work (replicate 15 9)) s in
   bc_closed s \<and> bc_pc_of s' = WorkerExited \<and> bc_futures s' = [FutDone (Inr 2), FutDone (Inr 2), FutDone (Inr 1)]"
proof -
  let ?s = "bc_run demo_bc demo_bc_actions (new_bc 0)"
  have h: "honest demo_bc length" by (simp add: honest_def demo_bc_def)
  have m: "new_bc_cfg (\<lambda>us n. (Inr (map length us), n + 1)) 2 1 = Inr demo_bc" by (simp add: demo_bc_def new_bc_cfg_def)
  have s: "bc_closed ?s" "work_left ?s = 15" "no_cancel demo_bc_actions"
    by (simp_all add: bc_run_def demo_bc_actions_def bc_step_def bc_submit_def new_bc_def bc_work_def bc_window_def take_batch_def demo_bc_def
        bc_close_def work_left_def zero_bc_stats_def)
  have "bc_futures (bc_run demo_bc (map Work (replicate 15 9)) ?s) = [FutDone (Inr 2), FutDone (Inr 2), FutDone (Inr 1)]"
    by (simp add: bc_run_def demo_bc_actions_def bc_step_def bc_submit_def new_bc_def bc_work_def bc_window_def take_batch_def demo_bc_def
        bc_close_def eval_nat_numeral Let_def batch_answers_def fut_is_done_def)
  moreover have "bc_pc_of (bc_run demo_bc (map Work (replicate 15 9)) ?s) = WorkerExited"
    using batched_futures_answered [OF h m refl, of demo_bc_actions 0, THEN conjunct2, THEN conjunct2, THEN conjunct2, THEN mp,
      OF s(3), THEN conjunct2, rule_format, of "replicate 15 9"] s by (simp add: Let_def)
  ultimately show ?thesis using s(1) by (simp add: Let_def)
qed

section \<open>A cancelled future\<close>

text \<open>A future that is cancelled after the worker has checked it and before it is set makes \<open>set_result\<close>
  raise in the worker, which ends the thread: the other futures are never resolved, and what is submitted
  later waits for ever.\<close>

lemma cancel_kills_worker:
  "let s = bc_run demo_bc [Submit ''a'' 0, Submit ''b'' 0, Work 0, Work 0, Work 0, Cancel 0, Work 0] (new_bc 0) in
   bc_pc_of s = WorkerCrashed \<and> bc_futures s ! 1 = FutPending"
  by (simp add: bc_run_def bc_step_def bc_submit_def bc_cancel_def new_bc_def bc_work_def bc_window_def take_batch_def demo_bc_def
      Let_def batch_answers_def fut_is_done_def)

lemma crashed_worker_stays: "bc_pc_of s = WorkerCrashed \<Longrightarrow> bc_pc_of (bc_step cf a s) = WorkerCrashed"
  by (cases a) (simp_all add: bc_step_def bc_submit_def bc_cancel_def bc_close_def bc_work_def Let_def)

end
