(* ===== verification/Shadow_Runner.thy ===== *)
theory Shadow_Runner
  imports Grant_Engine
begin

text \<open>
  Shadow execution of a candidate tool (\<open>tool-call-shadow-execution/shadow.py\<close>): the comparator, the
  classification of a run and the statistics that decide on a promotion.  What the production call and the
  shadow do (return, raise, time out) and what the marker check says are arguments.  \<open>py_eq\<close> is Python's
  \<open>==\<close> on JSON values.  \<open>concurrent.futures.TimeoutError\<close> is the built-in \<open>TimeoutError\<close>, so the
  \<open>except FutTimeout\<close> clause also catches one the shadow itself raises.
\<close>

section \<open>The comparator\<close>

text \<open>\<open>type(v)\<close>, as a number.\<close>

fun py_type :: "pyval \<Rightarrow> nat" where
  "py_type PNone = 0"
| "py_type (PBool b) = 1"
| "py_type (PInt i) = 2"
| "py_type (PFloat x) = 3"
| "py_type (PStr s) = 4"
| "py_type (PList xs) = 5"
| "py_type (PDict d) = 6"

datatype shadow_reason =
    SrEqual | ProdOnlyField | ShadowOnlyField | ValueMismatch | TypeMismatchReason
  | ProdRaised | ShadowRaised | BothRaised | ShadowTimeout | SideEffectViolation

datatype shadow_detail =
    NoDiff | TypesDiffer pyval pyval | KeysOnlyIn "string list" | KeyDelta "string list" "string list"
  | DifferAt string pyval pyval | ValuesDiffer pyval pyval | Wrote | ExceptionNames string string | ExceptionName string | Exceeded rat

definition first_difference :: "(string, pyval) dict \<Rightarrow> (string, pyval) dict \<Rightarrow> string option" where
  "first_difference p s = find (\<lambda>k. \<not> py_eq (the (dict_get p k)) (the (dict_get s k))) (sort (map fst p))"

definition compare_dicts :: "(string, pyval) dict \<Rightarrow> (string, pyval) dict \<Rightarrow> shadow_reason \<times> shadow_detail" where
  "compare_dicts p s =
     (let only_prod = sort (filter (\<lambda>k. dict_get s k = None) (map fst p));
          only_shadow = sort (filter (\<lambda>k. dict_get p k = None) (map fst s)) in
      if only_prod \<noteq> [] \<and> only_shadow = [] then (ProdOnlyField, KeysOnlyIn only_prod)
      else if only_shadow \<noteq> [] \<and> only_prod = [] then (ShadowOnlyField, KeysOnlyIn only_shadow)
      else if only_prod \<noteq> [] \<or> only_shadow \<noteq> [] then (ValueMismatch, KeyDelta only_prod only_shadow)
      else case first_difference p s of
        Some k \<Rightarrow> (ValueMismatch, DifferAt k (the (dict_get p k)) (the (dict_get s k)))
      | None \<Rightarrow> (SrEqual, NoDiff))"

definition default_comparator :: "pyval \<Rightarrow> pyval \<Rightarrow> shadow_reason \<times> shadow_detail" where
  "default_comparator p s =
     (if py_type p \<noteq> py_type s then (TypeMismatchReason, TypesDiffer p s)
      else case (p, s) of
        (PDict d, PDict e) \<Rightarrow> compare_dicts d e
      | _ \<Rightarrow> if py_eq p s then (SrEqual, NoDiff) else (ValueMismatch, ValuesDiffer p s))"

section \<open>Statistics\<close>

datatype shadow_status = ShOk | ShTimeout | ShRaised | ShSkipped | ShUnsafe

record shadow_result =
  sh_call_id :: string
  sh_tool_name :: string
  sh_prod_value :: pyval
  sh_prod_error :: "string option"
  sh_shadow_value :: pyval
  sh_shadow_error :: "string option"
  sh_status :: shadow_status
  sh_reason :: shadow_reason
  sh_detail :: shadow_detail
  sh_prod_ms :: rat
  sh_shadow_ms :: rat

record shadow_stats =
  by_reason :: "(shadow_reason, nat) dict"
  by_status :: "(shadow_status, nat) dict"
  sh_samples :: "shadow_result list"
  sample_cap :: nat

definition count_up :: "'k \<Rightarrow> ('k, nat) dict \<Rightarrow> ('k, nat) dict" where
  "count_up k d = dict_set k ((case dict_get d k of None \<Rightarrow> 0 | Some n \<Rightarrow> n) + 1) d"

definition stats_record :: "shadow_result \<Rightarrow> shadow_stats \<Rightarrow> shadow_stats" where
  "stats_record r st =
     (let st = st\<lparr>by_reason := count_up (sh_reason r) (by_reason st), by_status := count_up (sh_status r) (by_status st)\<rparr> in
      if sh_reason r \<noteq> SrEqual then
        (let samples = sh_samples st @ [r] in
         st\<lparr>sh_samples := (if length samples > sample_cap st then tl samples else samples)\<rparr>)
      else st)"

definition stats_total :: "shadow_stats \<Rightarrow> nat" where
  "stats_total st = sum_list (map snd (by_reason st))"

definition disagreement_rate :: "shadow_stats \<Rightarrow> rat" where
  "disagreement_rate st =
     (let n = stats_total st in
      if n = 0 then 0
      else (of_nat n - of_nat (case dict_get (by_reason st) SrEqual of None \<Rightarrow> 0 | Some k \<Rightarrow> k)) / of_nat n)"

definition safe_to_promote :: "nat \<Rightarrow> rat \<Rightarrow> shadow_stats \<Rightarrow> bool" where
  "safe_to_promote min_samples max_disagreement st =
     (if (case dict_get (by_status st) ShUnsafe of None \<Rightarrow> 0 | Some k \<Rightarrow> k) > 0 then False
      else if stats_total st < min_samples then False
      else disagreement_rate st \<le> max_disagreement)"

section \<open>The runner\<close>

datatype shadow_run = ShadowReturned pyval | ShadowThrew string | ShadowTimedOut

record shadow_call =
  sc_call_id :: string
  sc_tool_name :: string
  sc_prod :: "string + pyval"
  sc_shadow :: shadow_run
  sc_marker :: "bool option"
  sc_prod_ms :: rat
  sc_shadow_ms :: rat

fun shadow_outcome :: "shadow_run \<Rightarrow> pyval \<times> string option \<times> shadow_status" where
  "shadow_outcome (ShadowReturned v) = (v, None, ShOk)"
| "shadow_outcome (ShadowThrew e) = (if e = ''TimeoutError'' then (PNone, None, ShTimeout) else (PNone, Some e, ShRaised))"
| "shadow_outcome ShadowTimedOut = (PNone, None, ShTimeout)"

definition classify_run ::
  "(pyval \<Rightarrow> pyval \<Rightarrow> shadow_reason \<times> shadow_detail) \<Rightarrow> rat \<Rightarrow> pyval \<Rightarrow> string option \<Rightarrow> pyval \<times> string option \<times> shadow_status
    \<Rightarrow> shadow_reason \<times> shadow_detail" where
  "classify_run comparator timeout_s prod_value prod_error sh =
     (case sh of (shadow_value, shadow_error, status) \<Rightarrow>
        (case prod_error of
           Some p \<Rightarrow>
             (case shadow_error of Some e \<Rightarrow> (BothRaised, ExceptionNames p e) | None \<Rightarrow> (ProdRaised, ExceptionName p))
         | None \<Rightarrow>
             if status = ShTimeout then (ShadowTimeout, Exceeded timeout_s)
             else (case shadow_error of
                 Some e \<Rightarrow> (ShadowRaised, ExceptionName e)
               | None \<Rightarrow> comparator prod_value shadow_value)))"

definition shadow_observe ::
  "(pyval \<Rightarrow> pyval \<Rightarrow> shadow_reason \<times> shadow_detail) \<Rightarrow> rat \<Rightarrow> shadow_call \<Rightarrow> shadow_result" where
  "shadow_observe comparator timeout_s c =
     (let prod_value = (case sc_prod c of Inl e \<Rightarrow> PNone | Inr v \<Rightarrow> v);
          prod_error = (case sc_prod c of Inl e \<Rightarrow> Some e | Inr v \<Rightarrow> None);
          sh = shadow_outcome (sc_shadow c);
          (reason, detail) =
            (if sc_marker c = Some True then (SideEffectViolation, Wrote)
             else classify_run comparator timeout_s prod_value prod_error sh) in
      \<lparr>sh_call_id = sc_call_id c, sh_tool_name = sc_tool_name c, sh_prod_value = prod_value, sh_prod_error = prod_error,
       sh_shadow_value = fst sh, sh_shadow_error = fst (snd sh),
       sh_status = (if sc_marker c = Some True then ShUnsafe else snd (snd sh)), sh_reason = reason, sh_detail = detail,
       sh_prod_ms = sc_prod_ms c, sh_shadow_ms = sc_shadow_ms c\<rparr>)"

definition shadow_execute ::
  "(pyval \<Rightarrow> pyval \<Rightarrow> shadow_reason \<times> shadow_detail) \<Rightarrow> rat \<Rightarrow> shadow_call \<Rightarrow> shadow_stats \<Rightarrow> shadow_result \<times> shadow_stats" where
  "shadow_execute comparator timeout_s c st =
     (let r = shadow_observe comparator timeout_s c in (r, stats_record r st))"

fun shadow_session ::
  "(pyval \<Rightarrow> pyval \<Rightarrow> shadow_reason \<times> shadow_detail) \<Rightarrow> rat \<Rightarrow> shadow_call list \<Rightarrow> shadow_stats \<Rightarrow> shadow_result list \<times> shadow_stats" where
  "shadow_session comparator timeout_s [] st = ([], st)"
| "shadow_session comparator timeout_s (c # cs) st =
     (let (r, st) = shadow_execute comparator timeout_s c st; (rs, st) = shadow_session comparator timeout_s cs st in (r # rs, st))"

definition new_shadow_stats :: "nat \<Rightarrow> shadow_stats" where
  "new_shadow_stats cap = \<lparr>by_reason = [], by_status = [], sh_samples = [], sample_cap = cap\<rparr>"

fun reason_name :: "shadow_reason \<Rightarrow> string" where
  "reason_name SrEqual = ''equal''"
| "reason_name ProdOnlyField = ''prod_only_field''"
| "reason_name ShadowOnlyField = ''shadow_only_field''"
| "reason_name ValueMismatch = ''value_mismatch''"
| "reason_name TypeMismatchReason = ''type_mismatch''"
| "reason_name ProdRaised = ''prod_raised''"
| "reason_name ShadowRaised = ''shadow_raised''"
| "reason_name BothRaised = ''both_raised''"
| "reason_name ShadowTimeout = ''shadow_timeout''"
| "reason_name SideEffectViolation = ''side_effect_violation''"

fun shadow_status_name :: "shadow_status \<Rightarrow> string" where
  "shadow_status_name ShOk = ''ok''"
| "shadow_status_name ShTimeout = ''timeout''"
| "shadow_status_name ShRaised = ''raised''"
| "shadow_status_name ShSkipped = ''skipped''"
| "shadow_status_name ShUnsafe = ''unsafe''"

definition shadow_report :: "shadow_stats \<Rightarrow> (string, pyval) dict" where
  "shadow_report st =
     [(''total'', PInt (int (stats_total st))),
      (''by_reason'', PDict (sort_key fst (map (\<lambda>(r, n). (reason_name r, PInt (int n))) (by_reason st)))),
      (''by_status'', PDict (sort_key fst (map (\<lambda>(r, n). (shadow_status_name r, PInt (int n))) (by_status st)))),
      (''disagreement_rate'', PFloat (py_round 4 (disagreement_rate st))),
      (''n_samples_kept'', PInt (int (length (sh_samples st))))]"

section \<open>What is counted\<close>

definition count_of :: "'k \<Rightarrow> ('k, nat) dict \<Rightarrow> nat" where
  "count_of k d = (case dict_get d k of None \<Rightarrow> 0 | Some n \<Rightarrow> n)"

lemma count_of_up: "count_of j (count_up k d) = count_of j d + (if j = k then 1 else 0)"
  by (simp add: count_of_def count_up_def)

lemma count_up_sum: "dict_wf d \<Longrightarrow> sum_list (map snd (count_up k d)) = Suc (sum_list (map snd d))"
proof (induction d)
  case (Cons a d)
  then show ?case by (cases a) (auto simp: count_up_def dict_wf_def)
qed (simp add: count_up_def)

lemma dict_wf_count_up: "dict_wf d \<Longrightarrow> dict_wf (count_up k d)"
  by (simp add: count_up_def)

text \<open>The statistics of a list of results, read off the list.\<close>

definition last_n :: "nat \<Rightarrow> 'a list \<Rightarrow> 'a list" where
  "last_n n xs = drop (length xs - n) xs"

lemma length_last_n [simp]: "length (last_n n xs) = min n (length xs)"
  by (simp add: last_n_def)

lemma last_n_snoc:
  "(if length (last_n n xs @ [x]) > n then tl (last_n n xs @ [x]) else last_n n xs @ [x]) = last_n n (xs @ [x])"
proof (cases "length xs < n")
  case False
  have tl: "tl (drop k zs) = drop (Suc k) zs" for k and zs :: "'a list" by (metis drop_Suc tl_drop)
  have "drop (length xs - n) xs @ [x] = drop (length xs - n) (xs @ [x])" by simp
  moreover have "Suc (length xs - n) = length (xs @ [x]) - n" using False by simp
  ultimately have "tl (last_n n xs @ [x]) = last_n n (xs @ [x])" by (simp only: last_n_def tl)
  then show ?thesis using False by (simp add: last_n_def)
qed (simp add: last_n_def)

definition stats_of :: "shadow_result list \<Rightarrow> shadow_stats \<Rightarrow> bool" where
  "stats_of rs st \<longleftrightarrow> dict_wf (by_reason st) \<and> stats_total st = length rs \<and>
     (\<forall>x. count_of x (by_reason st) = length (filter (\<lambda>r. sh_reason r = x) rs)) \<and>
     (\<forall>x. count_of x (by_status st) = length (filter (\<lambda>r. sh_status r = x) rs)) \<and>
     sh_samples st = last_n (sample_cap st) (filter (\<lambda>r. sh_reason r \<noteq> SrEqual) rs)"

lemma stats_of_new: "stats_of [] (new_shadow_stats cap)"
  by (simp add: stats_of_def new_shadow_stats_def stats_total_def count_of_def last_n_def)

lemma stats_of_record: "stats_of rs st \<Longrightarrow> stats_of (rs @ [r]) (stats_record r st)"
  using last_n_snoc [of "sample_cap st" "filter (\<lambda>r. sh_reason r \<noteq> SrEqual) rs" r]
  by (simp add: stats_of_def stats_record_def stats_total_def count_of_up count_up_sum dict_wf_count_up Let_def)

lemma stats_record_cap [simp]: "sample_cap (stats_record r st) = sample_cap st"
  by (simp add: stats_record_def Let_def)

lemma shadow_session_stats:
  "stats_of rs st \<Longrightarrow> stats_of (rs @ map (shadow_observe cmp t) cs) (snd (shadow_session cmp t cs st))"
proof (induction cs arbitrary: rs st)
  case (Cons c cs)
  from Cons.IH [OF stats_of_record [OF Cons.prems, of "shadow_observe cmp t c"]]
  show ?case by (simp add: shadow_execute_def Let_def case_prod_beta)
qed simp

lemma shadow_session_results: "fst (shadow_session cmp t cs st) = map (shadow_observe cmp t) cs"
  by (induction cs arbitrary: st) (simp_all add: shadow_execute_def Let_def case_prod_beta)

lemma shadow_session_cap: "sample_cap (snd (shadow_session cmp t cs st)) = sample_cap st"
  by (induction cs arbitrary: st) (simp_all add: shadow_execute_def Let_def case_prod_beta)

section \<open>The comparator decides equality\<close>

lemma sorted_alists_eq:
  assumes "distinct (map fst d)" "distinct (map fst e)"
  shows "sort_key fst d = sort_key fst (e :: (string \<times> 'a) list) \<longleftrightarrow> set d = set e"
proof
  assume "sort_key fst d = sort_key fst e"
  then show "set d = set e" by (metis set_sort)
next
  assume s: "set d = set e"
  have i: "inj_on fst (set (sort_key fst d) \<union> set (sort_key fst e))" using assms(1) s by (simp add: distinct_map)
  have dd: "distinct (map fst (sort_key fst x))" if "distinct (map fst x)" for x :: "(string \<times> 'a) list"
    using that by (simp add: distinct_map)
  show "sort_key fst d = sort_key fst e"
    by (rule map_sorted_distinct_set_unique [OF i _ dd [OF assms(1)] _ dd [OF assms(2)]]) (simp_all add: s)
qed

lemma set_alist_eq:
  assumes "distinct (map fst d)" "distinct (map fst e)"
  shows "set d = set e \<longleftrightarrow> dict_get d = dict_get e"
  using assms map_of_inject_set by blast

lemma py_eq_dict:
  assumes "dict_wf d" "dict_wf e"
  shows "py_eq (PDict d) (PDict e) \<longleftrightarrow> map_option py_norm \<circ> dict_get d = map_option py_norm \<circ> dict_get e"
proof -
  let ?n = "map (\<lambda>(k, v). (k, py_norm v))"
  have f: "map fst (?n x) = map fst x" for x :: "(string \<times> pyval) list" by (induction x) auto
  have g: "dict_get (?n x) = map_option py_norm \<circ> dict_get x" for x :: "(string \<times> pyval) list" by (simp add: map_of_map fun_eq_iff)
  have "py_eq (PDict d) (PDict e) \<longleftrightarrow> sort_key fst (?n d) = sort_key fst (?n e)" by (simp add: py_eq_def)
  also have "\<dots> \<longleftrightarrow> dict_get (?n d) = dict_get (?n e)"
    using assms sorted_alists_eq [of "?n d" "?n e"] set_alist_eq [of "?n d" "?n e"] by (simp only: f dict_wf_def)
  finally show ?thesis by (simp only: g)
qed

lemma compare_dicts_equal:
  "fst (compare_dicts d e) = SrEqual \<longleftrightarrow> map_option py_norm \<circ> dict_get d = map_option py_norm \<circ> dict_get e"
proof -
  have k: "k \<in> fst ` set x \<longleftrightarrow> dict_get x k \<noteq> None" for k and x :: "(string, pyval) dict"
    by (metis map_of_eq_None_iff)
  have n: "sort (filter P (map fst x)) = [] \<longleftrightarrow> (\<forall>k. dict_get x k \<noteq> None \<longrightarrow> \<not> P k)" for P and x :: "(string, pyval) dict"
    by (simp only: set_empty [symmetric] set_sort) (simp only: set_empty filter_empty_conv set_map Ball_def k)
  have f: "first_difference d e = None \<longleftrightarrow> (\<forall>k. dict_get d k \<noteq> None \<longrightarrow> py_eq (the (dict_get d k)) (the (dict_get e k)))"
    unfolding first_difference_def find_None_iff by (simp only: set_sort set_map k not_not) blast
  have o: "map_option py_norm a = map_option py_norm b \<longleftrightarrow>
      (a \<noteq> None \<longrightarrow> b \<noteq> None) \<and> (b \<noteq> None \<longrightarrow> a \<noteq> None) \<and> (a \<noteq> None \<longrightarrow> py_norm (the a) = py_norm (the b))" for a b
    by (cases a; cases b) auto
  have "fst (compare_dicts d e) = SrEqual \<longleftrightarrow>
    sort (filter (\<lambda>k. dict_get e k = None) (map fst d)) = [] \<and> sort (filter (\<lambda>k. dict_get d k = None) (map fst e)) = [] \<and>
    first_difference d e = None"
    unfolding compare_dicts_def Let_def by (auto split: option.split)
  also have "\<dots> \<longleftrightarrow> (\<forall>k. map_option py_norm (dict_get d k) = map_option py_norm (dict_get e k))"
    unfolding f n py_eq_def o by blast
  finally show ?thesis by (simp add: fun_eq_iff)
qed

text \<open>Dictionaries have distinct keys, in Python as here.\<close>

fun returned_dict_wf :: "pyval \<Rightarrow> bool" where
  "returned_dict_wf (PDict d) = dict_wf d"
| "returned_dict_wf v = True"

lemma default_comparator_equal:
  assumes "returned_dict_wf p" "returned_dict_wf s"
  shows "fst (default_comparator p s) = SrEqual \<longleftrightarrow> py_type p = py_type s \<and> py_eq p s"
proof (cases "\<exists>d e. p = PDict d \<and> s = PDict e")
  case True
  then obtain d e where "p = PDict d" "s = PDict e" by blast
  then show ?thesis using assms compare_dicts_equal [of d e] py_eq_dict [of d e] by (simp add: default_comparator_def)
next
  case False
  then have "default_comparator p s =
      (if py_type p \<noteq> py_type s then (TypeMismatchReason, TypesDiffer p s)
       else if py_eq p s then (SrEqual, NoDiff) else (ValueMismatch, ValuesDiffer p s))"
    by (cases p; cases s) (simp_all add: default_comparator_def)
  then show ?thesis by simp
qed

section \<open>Promotion\<close>

text \<open>The runs that agree: nothing was written, and both sides returned equal values of one type.\<close>

definition shadow_agrees :: "shadow_call \<Rightarrow> bool" where
  "shadow_agrees c \<longleftrightarrow> sc_marker c \<noteq> Some True \<and>
     (\<exists>v w. sc_prod c = Inr v \<and> sc_shadow c = ShadowReturned w \<and> py_type v = py_type w \<and> py_eq v w)"

definition wf_shadow_call :: "shadow_call \<Rightarrow> bool" where
  "wf_shadow_call c \<longleftrightarrow> (\<forall>v. sc_prod c = Inr v \<longrightarrow> returned_dict_wf v) \<and> (\<forall>w. sc_shadow c = ShadowReturned w \<longrightarrow> returned_dict_wf w)"

lemma observe_agrees:
  assumes "wf_shadow_call c"
  shows "sh_reason (shadow_observe default_comparator t c) = SrEqual \<longleftrightarrow> shadow_agrees c"
proof (cases "sc_marker c = Some True")
  case False
  then have r: "sh_reason (shadow_observe default_comparator t c) =
      fst (classify_run default_comparator t (case sc_prod c of Inl e \<Rightarrow> PNone | Inr v \<Rightarrow> v)
        (case sc_prod c of Inl e \<Rightarrow> Some e | Inr v \<Rightarrow> None) (shadow_outcome (sc_shadow c)))"
    by (simp add: shadow_observe_def Let_def case_prod_beta)
  show ?thesis
    using assms False default_comparator_equal
    by (cases "sc_prod c"; cases "sc_shadow c") (auto simp: r classify_run_def shadow_agrees_def wf_shadow_call_def split: option.split)
qed (simp add: shadow_observe_def shadow_agrees_def Let_def)

lemma observe_unsafe: "sh_status (shadow_observe cmp t c) = ShUnsafe \<longleftrightarrow> sc_marker c = Some True"
  by (cases "sc_shadow c") (simp_all add: shadow_observe_def Let_def case_prod_beta)

lemma observe_prod: "sh_prod_value (shadow_observe cmp t c) = (case sc_prod c of Inl e \<Rightarrow> PNone | Inr v \<Rightarrow> v)"
  by (simp add: shadow_observe_def Let_def case_prod_beta)

lemma filter_reason: "(\<forall>c\<in>set cs. P (g c) \<longleftrightarrow> Q c) \<Longrightarrow> length (filter P (map g cs)) = length (filter Q cs)"
  by (induction cs) auto

text \<open>The runs whose part in the statistics is not in dispute: production returned and the shadow did not time out.\<close>

definition settled_run :: "shadow_call \<Rightarrow> bool" where
  "settled_run c \<longleftrightarrow> (\<exists>v. sc_prod c = Inr v) \<and> sc_shadow c \<noteq> ShadowTimedOut \<and> sc_shadow c \<noteq> ShadowThrew ''TimeoutError''"

text \<open>C35. After any sequence of calls through the runner with the default comparator: every result carries the
  production value, whatever the shadow did; a run is recorded as equal exactly when nothing was written and both
  sides returned equal values of one type; the kept samples are the last \<open>sample_cap\<close> runs not recorded as equal;
  \<open>safe_to_promote\<close> answers no as soon as one run wrote or there were too few runs; and if in every run production
  returned and the shadow did not time out, it answers yes exactly when no run wrote, there were enough runs, and the
  share of runs that did not agree is within the limit.  (How the other runs are counted is documented
  otherwise than the code does it, see below.)\<close>

theorem shadow_promotion_exact:
  assumes "\<forall>c\<in>set cs. wf_shadow_call c" "shadow_session default_comparator t cs (new_shadow_stats cap) = (rs, st)"
  shows "map sh_prod_value rs = map (\<lambda>c. case sc_prod c of Inl e \<Rightarrow> PNone | Inr v \<Rightarrow> v) cs \<and>
    map (\<lambda>r. sh_reason r = SrEqual) rs = map shadow_agrees cs \<and>
    sh_samples st = last_n cap (filter (\<lambda>r. sh_reason r \<noteq> SrEqual) rs) \<and>
    ((\<exists>c\<in>set cs. sc_marker c = Some True) \<or> length cs < m \<longrightarrow> \<not> safe_to_promote m x st) \<and>
    ((\<forall>c\<in>set cs. settled_run c) \<longrightarrow>
      (safe_to_promote m x st \<longleftrightarrow> (\<forall>c\<in>set cs. sc_marker c \<noteq> Some True) \<and> m \<le> length cs \<and>
        (if cs = [] then 0 else of_nat (length (filter (\<lambda>c. \<not> shadow_agrees c) cs)) / of_nat (length cs)) \<le> x))"
proof -
  have rs: "rs = map (shadow_observe default_comparator t) cs"
    using shadow_session_results [of default_comparator t cs "new_shadow_stats cap"] assms(2) by simp
  have st: "stats_of rs st" "sample_cap st = cap"
    using shadow_session_stats [OF stats_of_new, of default_comparator t cs cap] shadow_session_cap [of default_comparator t cs "new_shadow_stats cap"]
      assms(2) by (simp_all add: rs new_shadow_stats_def)
  have eq: "count_of SrEqual (by_reason st) = length (filter shadow_agrees cs)"
    using st(1) filter_reason [of cs "\<lambda>r. sh_reason r = SrEqual" "shadow_observe default_comparator t" shadow_agrees] assms(1)
    by (simp add: stats_of_def rs observe_agrees)
  have un: "count_of ShUnsafe (by_status st) = length (filter (\<lambda>c. sc_marker c = Some True) cs)"
    using st(1) filter_reason [of cs "\<lambda>r. sh_status r = ShUnsafe" "shadow_observe default_comparator t" "\<lambda>c. sc_marker c = Some True"]
    by (simp add: stats_of_def rs observe_unsafe)
  have n: "stats_total st = length cs" using st(1) by (simp add: stats_of_def rs)
  have "length cs = length (filter shadow_agrees cs) + length (filter (\<lambda>c. \<not> shadow_agrees c) cs)"
    by (simp add: sum_length_filter_compl)
  then have rate: "disagreement_rate st =
      (if cs = [] then 0 else of_nat (length (filter (\<lambda>c. \<not> shadow_agrees c) cs)) / of_nat (length cs))"
    unfolding disagreement_rate_def Let_def n count_of_def [symmetric] eq
    by (metis add_diff_cancel_left' length_0_conv of_nat_add)
  have "safe_to_promote m x st \<longleftrightarrow> (\<forall>c\<in>set cs. sc_marker c \<noteq> Some True) \<and> m \<le> length cs \<and> disagreement_rate st \<le> x"
    unfolding safe_to_promote_def count_of_def [symmetric] un n by (auto simp: filter_empty_conv)
  then show ?thesis using st assms(1) by (auto simp: rate rs observe_prod observe_agrees stats_of_def o_def)
qed

definition demo_call :: "string + pyval \<Rightarrow> shadow_run \<Rightarrow> shadow_call" where
  "demo_call p s = \<lparr>sc_call_id = ''c'', sc_tool_name = ''t'', sc_prod = p, sc_shadow = s, sc_marker = Some False, sc_prod_ms = 1, sc_shadow_ms = 1\<rparr>"

definition demo_shadow_calls :: "shadow_call list" where
  "demo_shadow_calls =
     [demo_call (Inr (PInt 1)) (ShadowReturned (PInt 1)), demo_call (Inr (PInt 1)) (ShadowReturned (PBool True)),
      demo_call (Inr (PDict [(''a'', PInt 1), (''b'', PNone)])) (ShadowReturned (PDict [(''b'', PNone), (''a'', PBool True)])),
      demo_call (Inr (PInt 1)) (ShadowThrew ''KeyError'')]"

text \<open>Two of four runs agree: \<open>1\<close> and \<open>True\<close> are of different types at the top level, and equal inside a dictionary.\<close>

lemma demo_agrees: "map shadow_agrees demo_shadow_calls = [True, False, True, False]"
  by (simp add: demo_shadow_calls_def demo_call_def shadow_agrees_def py_eq_def insort_key_def)

theorem shadow_promotion_exact_witness:
  "\<exists>rs st. shadow_session default_comparator 1 demo_shadow_calls (new_shadow_stats 1) = (rs, st) \<and>
     map sh_prod_value rs ! 3 = PInt 1 \<and> length (sh_samples st) = 1 \<and> safe_to_promote 4 (1 / 2) st \<and> \<not> safe_to_promote 4 (1 / 3) st"
proof -
  obtain rs st where r: "shadow_session default_comparator 1 demo_shadow_calls (new_shadow_stats 1) = (rs, st)"
    by (meson surj_pair)
  have w: "\<forall>c\<in>set demo_shadow_calls. wf_shadow_call c"
    by (simp add: demo_shadow_calls_def demo_call_def wf_shadow_call_def dict_wf_def)
  have f: "length (filter (\<lambda>c. \<not> shadow_agrees c) demo_shadow_calls) = 2" "length demo_shadow_calls = 4" "demo_shadow_calls \<noteq> []"
    "\<forall>c\<in>set demo_shadow_calls. sc_marker c \<noteq> Some True" "\<forall>c\<in>set demo_shadow_calls. settled_run c"
    using demo_agrees by (simp_all add: demo_shadow_calls_def) (simp_all add: demo_call_def settled_run_def)
  note p = shadow_promotion_exact [OF w r]
  have rs: "map sh_prod_value rs ! 3 = PInt 1"
    using p [THEN conjunct1] by (simp add: demo_shadow_calls_def demo_call_def)
  have "map (\<lambda>r. sh_reason r = SrEqual) rs = [True, False, True, False]" using p demo_agrees by simp
  then have "0 < length (filter (\<lambda>r. sh_reason r \<noteq> SrEqual) rs)" by (auto simp: filter_empty_conv map_eq_Cons_conv)
  then have n: "length (sh_samples st) = 1" using p [THEN conjunct2, THEN conjunct2, THEN conjunct1]
    by (simp add: min_def Suc_le_eq)
  have "safe_to_promote 4 x st \<longleftrightarrow> 1 / 2 \<le> x" for x :: rat
    using shadow_promotion_exact [OF w r, where m = 4 and x = x, THEN conjunct2, THEN conjunct2, THEN conjunct2, THEN conjunct2] f by simp
  then show ?thesis using r rs n by fastforce
qed

section \<open>What the documentation says otherwise\<close>

text \<open>A timeout is documented as never counting as a disagreement, and the shadow as skipped when production
  raised; a \<open>TimeoutError\<close> of the shadow's own is reported as having exceeded the runner's limit.\<close>

lemma timeout_counts_as_disagreement:
  "disagreement_rate (snd (shadow_session cmp t [demo_call (Inr v) ShadowTimedOut] (new_shadow_stats cap))) = 1"
  by (simp add: demo_call_def shadow_execute_def shadow_observe_def classify_run_def new_shadow_stats_def stats_record_def
      count_up_def disagreement_rate_def stats_total_def Let_def)

lemma shadow_runs_after_prod_raised:
  "sh_reason (shadow_observe cmp t (demo_call (Inl ''KeyError'') (ShadowThrew ''ValueError''))) = BothRaised"
  by (simp add: demo_call_def shadow_observe_def classify_run_def)

lemma own_timeout_error_exceeds_limit:
  "sh_detail (shadow_observe cmp t (demo_call (Inr v) (ShadowThrew ''TimeoutError''))) = Exceeded t"
  by (simp add: demo_call_def shadow_observe_def classify_run_def)

end
