(* ===== verification/Typo_Suggester.thy ===== *)
theory Typo_Suggester
  imports Prelude "HOL-Library.List_Lexorder" "HOL-Library.Char_ord" "HOL-Library.Product_Lexorder"
begin

text \<open>
  The tool-name typo suggester (\<open>tool-name-typo-suggester/suggester.py\<close>): the distance by dynamic
  programming over three rotating rows, the registry, and the verdict.  The specification of the
  distance is the least number of edits in an alignment of the two names.
\<close>

section \<open>The distance\<close>

definition dl_cell :: "'a list \<Rightarrow> 'a list \<Rightarrow> nat \<Rightarrow> nat list \<Rightarrow> nat list \<Rightarrow> nat \<Rightarrow> nat list \<Rightarrow> nat list" where
  "dl_cell a b i prev2 prev1 j cur =
     (let cost = (if a ! (i - 1) = b ! (j - 1) then 0 else 1);
          cur = cur[j := min (min (cur ! (j - 1) + 1) (prev1 ! j + 1)) (prev1 ! (j - 1) + cost)] in
      if i \<ge> 2 \<and> j \<ge> 2 \<and> a ! (i - 1) = b ! (j - 2) \<and> a ! (i - 2) = b ! (j - 1)
      then cur[j := min (cur ! j) (prev2 ! (j - 2) + 1)] else cur)"

fun dl_row :: "'a list \<Rightarrow> 'a list \<Rightarrow> nat \<Rightarrow> nat list \<times> nat list \<times> nat list \<Rightarrow> nat list \<times> nat list \<times> nat list" where
  "dl_row a b i (prev2, prev1, cur) =
     (let cur = cur[0 := i]; cur = fold (dl_cell a b i prev2 prev1) [1..<length b + 1] cur in (prev1, cur, prev2))"

definition damerau_levenshtein :: "'a list \<Rightarrow> 'a list \<Rightarrow> nat" where
  "damerau_levenshtein a b =
     (if a = b then 0
      else if length a = 0 then length b
      else if length b = 0 then length a
      else
        (let prev2 = replicate (length b + 1) 0; prev1 = [0..<length b + 1]; cur = replicate (length b + 1) 0;
             (prev2, prev1, cur) = fold (dl_row a b) [1..<length a + 1] (prev2, prev1, cur) in
         prev1 ! length b))"

section \<open>Alignments\<close>

text \<open>\<open>aligned a b n\<close>: \<open>a\<close> becomes \<open>b\<close> by \<open>n\<close> edits, each position taking part in one edit at most: a character is
  kept, replaced, inserted or deleted, or two neighbours are swapped.\<close>

inductive aligned :: "'a list \<Rightarrow> 'a list \<Rightarrow> nat \<Rightarrow> bool" where
  al_nil: "aligned [] [] 0"
| al_keep: "aligned a b n \<Longrightarrow> aligned (a @ [x]) (b @ [x]) n"
| al_replace: "aligned a b n \<Longrightarrow> aligned (a @ [x]) (b @ [y]) (Suc n)"
| al_insert: "aligned a b n \<Longrightarrow> aligned a (b @ [y]) (Suc n)"
| al_delete: "aligned a b n \<Longrightarrow> aligned (a @ [x]) b (Suc n)"
| al_swap: "aligned a b n \<Longrightarrow> aligned (a @ [x, y]) (b @ [y, x]) (Suc n)"

text \<open>The recurrence, on reversed words.\<close>

fun osa :: "'a list \<Rightarrow> 'a list \<Rightarrow> nat" where
  "osa [] ys = length ys"
| "osa xs [] = length xs"
| "osa (x # xs) (y # ys) =
     (let m = min (min (osa (x # xs) ys + 1) (osa xs (y # ys) + 1)) (osa xs ys + (if x = y then 0 else 1)) in
      if xs \<noteq> [] \<and> ys \<noteq> [] \<and> x = hd ys \<and> hd xs = y then min m (osa (tl xs) (tl ys) + 1) else m)"

lemma osa_Nil [simp]: "osa xs [] = length xs"
  by (cases xs) simp_all

declare osa.simps(3) [simp del]

definition osa_plain :: "'a \<Rightarrow> 'a list \<Rightarrow> 'a \<Rightarrow> 'a list \<Rightarrow> nat" where
  "osa_plain x xs y ys = min (min (osa (x # xs) ys + 1) (osa xs (y # ys) + 1)) (osa xs ys + (if x = y then 0 else 1))"

lemma osa_Cons:
  "osa (x # xs) (y # ys) =
     (if xs \<noteq> [] \<and> ys \<noteq> [] \<and> x = hd ys \<and> hd xs = y then min (osa_plain x xs y ys) (osa (tl xs) (tl ys) + 1)
      else osa_plain x xs y ys)"
  by (simp only: osa.simps(3) osa_plain_def Let_def)

lemma osa_le:
  "osa (x # xs) (y # ys) \<le> osa (x # xs) ys + 1" "osa (x # xs) (y # ys) \<le> osa xs (y # ys) + 1"
  "osa (x # xs) (y # ys) \<le> osa xs ys + (if x = y then 0 else 1)"
proof -
  have "osa (x # xs) (y # ys) \<le> osa_plain x xs y ys" by (simp add: osa_Cons)
  then show "osa (x # xs) (y # ys) \<le> osa (x # xs) ys + 1" "osa (x # xs) (y # ys) \<le> osa xs (y # ys) + 1"
    "osa (x # xs) (y # ys) \<le> osa xs ys + (if x = y then 0 else 1)"
    unfolding osa_plain_def by linarith+
qed

lemma osa_bounds:
  "osa (x # xs) (y # ys) \<le> Suc (osa xs ys)" "osa (x # xs) (x # ys) \<le> osa xs ys"
  "osa xs (y # ys) \<le> Suc (osa xs ys)" "osa (x # xs) ys \<le> Suc (osa xs ys)"
  "osa (y # x # xs) (x # y # ys) \<le> Suc (osa xs ys)"
proof -
  show "osa xs (y # ys) \<le> Suc (osa xs ys)" using osa_le(1) by (cases xs) auto
  show "osa (x # xs) ys \<le> Suc (osa xs ys)" using osa_le(2) by (cases ys) auto
  show "osa (x # xs) (y # ys) \<le> Suc (osa xs ys)" using osa_le(3) [of x xs y ys] by (cases "x = y") auto
  show "osa (x # xs) (x # ys) \<le> osa xs ys" using osa_le(3) [of x xs x ys] by simp
  show "osa (y # x # xs) (x # y # ys) \<le> Suc (osa xs ys)" by (simp add: osa_Cons [of y])
qed

lemma aligned_osa: "aligned a b n \<Longrightarrow> osa (rev a) (rev b) \<le> n"
proof (induction rule: aligned.induct)
  case (al_keep a b n x)
  then show ?case using osa_bounds(2) [of x "rev a" "rev b"] by simp
next
  case (al_replace a b n x y)
  then show ?case using osa_bounds(1) [of x "rev a" y "rev b"] by simp
next
  case (al_insert a b n y)
  then show ?case using osa_bounds(3) [of "rev a" y "rev b"] by simp
next
  case (al_delete a b n x)
  then show ?case using osa_bounds(4) [of x "rev a" "rev b"] by simp
next
  case (al_swap a b n x y)
  then show ?case using osa_bounds(5) [of y x "rev a" "rev b"] by simp
qed simp

lemma aligned_insert_all: "aligned [] b (length b)"
  by (induction b rule: rev_induct) (auto intro: aligned.intros)

lemma aligned_delete_all: "aligned a [] (length a)"
  by (induction a rule: rev_induct) (auto intro: aligned.intros)

lemma osa_aligned: "aligned (rev xs) (rev ys) (osa xs ys)"
proof (induction xs ys rule: osa.induct)
  case (1 ys)
  then show ?case using aligned_insert_all [of "rev ys"] by simp
next
  case (2 x xs)
  then show ?case using aligned_delete_all [of "rev (x # xs)"] by simp
next
  case (3 x xs y ys)
  note m = 3(1) [THEN al_insert, of y] 3(2) [THEN al_delete, of x] 3(3) [THEN al_replace, of x y] 3(3) [THEN al_keep, of x]
  have a: "aligned (rev (x # xs)) (rev (y # ys)) (osa_plain x xs y ys)" using m unfolding osa_plain_def min_def by auto
  show ?case
  proof (cases "xs \<noteq> [] \<and> ys \<noteq> [] \<and> x = hd ys \<and> hd xs = y")
    case True
    then obtain xs' ys' where s: "xs = y # xs'" "ys = x # ys'" by (cases xs; cases ys) auto
    have "aligned (rev xs') (rev ys') (osa xs' ys')" using 3(4) [OF refl True] s by simp
    then have "aligned (rev (x # xs)) (rev (y # ys)) (osa (tl xs) (tl ys) + 1)" using al_swap [of "rev xs'" "rev ys'" _ y x] s by simp
    then show ?thesis using a True by (simp add: osa_Cons min_def)
  next
    case False
    then show ?thesis using a by (simp only: osa_Cons if_False)
  qed
qed

section \<open>The rows\<close>

definition dl_at :: "'a list \<Rightarrow> 'a list \<Rightarrow> nat \<Rightarrow> nat \<Rightarrow> nat" where
  "dl_at a b i j = osa (rev (take i a)) (rev (take j b))"

lemma dl_at_0: "j \<le> length b \<Longrightarrow> dl_at a b 0 j = j" "i \<le> length a \<Longrightarrow> dl_at a b i 0 = i"
  by (simp_all add: dl_at_def)

lemma dl_at_Suc:
  assumes "i < length a" "j < length b"
  shows "dl_at a b (Suc i) (Suc j) =
    (let m = min (min (dl_at a b (Suc i) j + 1) (dl_at a b i (Suc j) + 1)) (dl_at a b i j + (if a ! i = b ! j then 0 else 1)) in
     if i \<ge> 1 \<and> j \<ge> 1 \<and> a ! i = b ! (j - 1) \<and> a ! (i - 1) = b ! j then min m (dl_at a b (i - 1) (j - 1) + 1) else m)"
proof -
  have r: "rev (take (Suc k) c) = c ! k # rev (take k c)" if "k < length c" for k and c :: "'a list"
    using that by (simp add: take_Suc_conv_app_nth)
  have h: "hd (rev (take k c)) = c ! (k - 1) \<and> tl (rev (take k c)) = rev (take (k - 1) c)"
    if "1 \<le> k" "k \<le> length c" for k and c :: "'a list"
    using that r [of "k - 1" c] by (cases k) simp_all
  have e: "rev (take k c) \<noteq> [] \<longleftrightarrow> 1 \<le> k" if "k < length c" for k and c :: "'a list" using that by auto
  show ?thesis
    unfolding dl_at_def r [OF assms(1)] r [OF assms(2)] osa_Cons osa_plain_def e [OF assms(1)] e [OF assms(2)] Let_def
    by (intro if_cong refl conj_cong) (simp_all only: h less_imp_le [OF assms(1)] less_imp_le [OF assms(2)])
qed

lemma dl_cell_at:
  assumes "1 \<le> i" "i \<le> length a" "1 \<le> j" "j \<le> length b" "length cur = Suc (length b)" "cur ! (j - 1) = dl_at a b i (j - 1)"
    "\<forall>k\<le>length b. prev1 ! k = dl_at a b (i - 1) k" "2 \<le> i \<longrightarrow> (\<forall>k\<le>length b. prev2 ! k = dl_at a b (i - 2) k)"
  shows "dl_cell a b i prev2 prev1 j cur = cur[j := dl_at a b i j]"
proof -
  obtain i' j' where ij: "i = Suc i'" "j = Suc j'" using assms(1,3) by (metis One_nat_def Suc_le_D)
  have "i' < length a" "j' < length b" using assms ij by simp_all
  note d = dl_at_Suc [OF this]
  show ?thesis using assms unfolding dl_cell_def Let_def ij d by (auto simp: numeral_2_eq_2)
qed

lemma dl_cells:
  assumes "1 \<le> i" "i \<le> length a" "length cur = Suc (length b)" "cur ! 0 = i"
    "\<forall>k\<le>length b. prev1 ! k = dl_at a b (i - 1) k" "2 \<le> i \<longrightarrow> (\<forall>k\<le>length b. prev2 ! k = dl_at a b (i - 2) k)"
  shows "k \<le> length b \<Longrightarrow> fold (dl_cell a b i prev2 prev1) [1..<k + 1] cur = map (dl_at a b i) [0..<k + 1] @ drop (k + 1) cur"
proof (induction k)
  case 0
  obtain c cs where c: "cur = c # cs" using assms(3) by (cases cur) auto
  then show ?case using assms(2,4) by (simp add: dl_at_0)
next
  case (Suc k)
  let ?r = "map (dl_at a b i) [0..<k + 1] @ drop (k + 1) cur"
  have l: "length ?r = Suc (length b)" using Suc.prems assms(3) by simp
  have d: "drop (k + 1) cur = cur ! (k + 1) # drop (k + 2) cur" using Suc.prems assms(3) by (simp add: Cons_nth_drop_Suc)
  have "fold (dl_cell a b i prev2 prev1) [1..<Suc k + 1] cur = dl_cell a b i prev2 prev1 (k + 1) ?r"
    using Suc.IH Suc.prems by simp
  also have "\<dots> = ?r[k + 1 := dl_at a b i (k + 1)]"
    by (rule dl_cell_at [OF assms(1,2) _ _ l _ assms(5,6)]) (use Suc.prems in \<open>simp_all add: nth_append\<close>)
  also have "\<dots> = map (dl_at a b i) [0..<Suc k + 1] @ drop (Suc k + 1) cur" unfolding d by (simp add: list_update_append)
  finally show ?case .
qed

lemma dl_row_at:
  assumes "1 \<le> i" "i \<le> length a" "length cur = Suc (length b)" "length prev2 = Suc (length b)"
    "prev1 = map (dl_at a b (i - 1)) [0..<length b + 1]" "2 \<le> i \<longrightarrow> prev2 = map (dl_at a b (i - 2)) [0..<length b + 1]"
  shows "dl_row a b i (prev2, prev1, cur) = (prev1, map (dl_at a b i) [0..<length b + 1], prev2)"
proof -
  have p: "\<forall>k\<le>length b. prev1 ! k = dl_at a b (i - 1) k" "2 \<le> i \<longrightarrow> (\<forall>k\<le>length b. prev2 ! k = dl_at a b (i - 2) k)"
    unfolding assms(5) using assms(6) by (simp_all del: upt_Suc)
  have c: "length (cur[0 := i]) = Suc (length b)" "cur[0 := i] ! 0 = i" using assms(3) by (cases cur; simp)+
  show ?thesis using dl_cells [OF assms(1,2) c p, of "length b"] c(1) by (simp del: upt_Suc add: Let_def)
qed

lemma dl_rows:
  assumes "k \<le> length a"
  shows "case fold (dl_row a b) [1..<k + 1] (replicate (length b + 1) 0, [0..<length b + 1], replicate (length b + 1) 0) of
      (prev2, prev1, cur) \<Rightarrow> prev1 = map (dl_at a b k) [0..<length b + 1] \<and> length cur = Suc (length b) \<and>
        length prev2 = Suc (length b) \<and> (1 \<le> k \<longrightarrow> prev2 = map (dl_at a b (k - 1)) [0..<length b + 1])"
  using assms
proof (induction k)
  case 0
  have "[0..<length b + 1] = map (dl_at a b 0) [0..<length b + 1]"
    by (rule map_idI [symmetric]) (auto simp: dl_at_0)
  then show ?case by simp
next
  case (Suc k)
  obtain prev2 prev1 cur where f: "fold (dl_row a b) [1..<k + 1] (replicate (length b + 1) 0, [0..<length b + 1], replicate (length b + 1) 0) = (prev2, prev1, cur)"
    by (metis prod_cases3)
  note ih = Suc.IH [unfolded f prod.case, OF Suc_leD [OF Suc.prems]]
  have "dl_row a b (k + 1) (prev2, prev1, cur) = (prev1, map (dl_at a b (k + 1)) [0..<length b + 1], prev2)"
    by (rule dl_row_at) (use ih Suc.prems in auto)
  moreover have "fold (dl_row a b) [1..<Suc k + 1] (replicate (length b + 1) 0, [0..<length b + 1], replicate (length b + 1) 0)
      = dl_row a b (k + 1) (prev2, prev1, cur)"
    using f by simp
  ultimately show ?case using ih by (simp del: dl_row.simps upt_Suc)
qed

lemma aligned_refl: "aligned a a 0"
  by (induction a rule: rev_induct) (auto intro: aligned.intros)

lemma damerau_levenshtein_osa: "damerau_levenshtein a b = osa (rev a) (rev b)"
proof (cases "a = b \<or> length a = 0 \<or> length b = 0")
  case True
  then show ?thesis using aligned_osa [OF aligned_refl [of a]] by (auto simp: damerau_levenshtein_def)
next
  case False
  then show ?thesis using dl_rows [of "length a" a b] by (auto simp: damerau_levenshtein_def dl_at_def Let_def simp del: upt_Suc split: prod.splits)
qed

lemma damerau_levenshtein_aligned: "aligned a b (damerau_levenshtein a b)" "aligned a b n \<Longrightarrow> damerau_levenshtein a b \<le> n"
  using osa_aligned [of "rev a" "rev b"] aligned_osa by (simp_all add: damerau_levenshtein_osa)

section \<open>The registry\<close>

text \<open>\<open>re.sub("[^a-z0-9_]", "", name.lower())\<close>.\<close>

definition kept_char :: "char \<Rightarrow> bool" where
  "kept_char c \<longleftrightarrow> (let n = of_char c :: nat in 97 \<le> n \<and> n \<le> 122 \<or> 48 \<le> n \<and> n \<le> 57 \<or> n = 95)"

definition normalize_name :: "string \<Rightarrow> string" where
  "normalize_name s = filter kept_char (ascii_lower s)"

datatype typo_config_error =
    MaxDistanceBelowOne | NegativeMargin | EntryNotAName pyval | EntryNormalizesToEmpty string | NormalizedCollision string string

record typo_suggester =
  ts_registry :: "(string, string) dict"
  ts_max_distance :: int
  ts_margin :: int

fun register_names :: "pyval list \<Rightarrow> (string, string) dict \<Rightarrow> typo_config_error + (string, string) dict" where
  "register_names [] seen = Inr seen"
| "register_names (PStr raw # rest) seen =
     (if raw = [] then Inl (EntryNotAName (PStr raw))
      else
        (let norm = normalize_name raw in
         if norm = [] then Inl (EntryNormalizesToEmpty raw)
         else (case dict_get seen norm of
             Some old \<Rightarrow> if old \<noteq> raw then Inl (NormalizedCollision old raw) else register_names rest (dict_set norm raw seen)
           | None \<Rightarrow> register_names rest (dict_set norm raw seen))))"
| "register_names (v # rest) seen = Inl (EntryNotAName v)"

definition new_suggester :: "pyval list \<Rightarrow> int \<Rightarrow> int \<Rightarrow> typo_config_error + typo_suggester" where
  "new_suggester registry max_distance tie_break_margin =
     (if max_distance < 1 then Inl MaxDistanceBelowOne
      else if tie_break_margin < 0 then Inl NegativeMargin
      else (case register_names registry [] of
          Inl e \<Rightarrow> Inl e
        | Inr seen \<Rightarrow> Inr \<lparr>ts_registry = seen, ts_max_distance = max_distance, ts_margin = tie_break_margin\<rparr>))"

definition known_names :: "typo_suggester \<Rightarrow> string list" where
  "known_names s = sort (map snd (ts_registry s))"

section \<open>Suggestions\<close>

datatype typo_verdict = VExact | VSuggestion | VUnknown

datatype typo_reason = ExactMatch | SingleCandidate | ClearWinner | AmbiguousNames | NoCandidate | EmptyRegistry

record typo_suggestion =
  ts_verdict :: typo_verdict
  ts_best :: "string option"
  ts_distance :: "nat option"
  ts_runners_up :: "(string \<times> nat) list"
  ts_reason :: typo_reason

definition scored_names :: "typo_suggester \<Rightarrow> string \<Rightarrow> (string \<times> nat) list" where
  "scored_names s query =
     filter (\<lambda>(n, d). int d \<le> ts_max_distance s)
       (map (\<lambda>(cand_norm, cand_orig). (cand_orig, damerau_levenshtein query cand_norm)) (ts_registry s))"

definition suggest_name :: "typo_suggester \<Rightarrow> pyval \<Rightarrow> typo_suggestion" where
  "suggest_name s v =
     (let unknown = \<lparr>ts_verdict = VUnknown, ts_best = None, ts_distance = None, ts_runners_up = [], ts_reason = NoCandidate\<rparr> in
      if ts_registry s = [] then unknown\<lparr>ts_reason := EmptyRegistry\<rparr>
      else (case v of
        PStr name \<Rightarrow>
          if name = [] then unknown
          else
            (let norm = normalize_name name in
             (case dict_get (ts_registry s) norm of
                Some orig \<Rightarrow> unknown\<lparr>ts_verdict := VExact, ts_best := Some orig, ts_distance := Some 0, ts_reason := ExactMatch\<rparr>
              | None \<Rightarrow>
                  (let scored = sort_key (\<lambda>x. (snd x, fst x)) (scored_names s norm) in
                   (case scored of
                      [] \<Rightarrow> unknown
                    | [(best, d)] \<Rightarrow> unknown\<lparr>ts_verdict := VSuggestion, ts_best := Some best, ts_distance := Some d, ts_reason := SingleCandidate\<rparr>
                    | (best, d) # (runner, rd) # rest \<Rightarrow>
                        if int rd - int d \<ge> ts_margin s \<and> ts_margin s > 0
                        then unknown\<lparr>ts_verdict := VSuggestion, ts_best := Some best, ts_distance := Some d,
                          ts_runners_up := (runner, rd) # rest, ts_reason := ClearWinner\<rparr>
                        else unknown\<lparr>ts_runners_up := scored, ts_reason := AmbiguousNames\<rparr>))))
      | _ \<Rightarrow> unknown))"

section \<open>What a registry holds\<close>

lemma register_names_sound:
  "register_names vs seen = Inr reg \<Longrightarrow> dict_wf seen \<Longrightarrow> \<forall>(n, r)\<in>set seen. r \<noteq> [] \<and> n = normalize_name r \<Longrightarrow>
   dict_wf reg \<and> (\<forall>(n, r)\<in>set reg. r \<noteq> [] \<and> n = normalize_name r) \<and> set (map snd reg) = set (map snd seen) \<union> {r. PStr r \<in> set vs}"
proof (induction vs seen rule: register_names.induct)
  case (2 raw rest seen)
  let ?n = "normalize_name raw"
  have r: "register_names rest (dict_set ?n raw seen) = Inr reg" "raw \<noteq> []" "dict_get seen ?n = None \<or> dict_get seen ?n = Some raw" "?n \<noteq> []"
    using "2.prems"(1) by (auto simp: Let_def split: if_splits option.splits)
  have up: "set (dict_set ?n raw seen) = insert (?n, raw) (set seen)"
  proof (cases "dict_get seen ?n")
    case None
    then show ?thesis by (auto simp: dict_set_new)
  next
    case (Some old)
    then have "dict_get (dict_set ?n raw seen) = dict_get seen" using r(3) by (simp add: fun_upd_idem)
    then have "set (dict_set ?n raw seen) = set seen"
      by (rule map_of_inject_set [THEN iffD1, rotated 2]) (use "2.prems"(2) dict_wf_set [of seen ?n raw] in \<open>simp_all add: dict_wf_def\<close>)
    then show ?thesis using Some r(3) by (auto dest: map_of_SomeD)
  qed
  have i: "dict_wf (dict_set ?n raw seen)" "\<forall>(n, r)\<in>set (dict_set ?n raw seen). r \<noteq> [] \<and> n = normalize_name r"
    using "2.prems"(2,3) r(2) unfolding up by auto
  have ih: "dict_wf reg \<and> (\<forall>(n, r)\<in>set reg. r \<noteq> [] \<and> n = normalize_name r) \<and>
      set (map snd reg) = set (map snd (dict_set ?n raw seen)) \<union> {r. PStr r \<in> set rest}"
    using r(3)
  proof
    assume "dict_get seen ?n = None"
    from "2.IH"(1) [OF r(2) refl r(4) this r(1) i] show ?thesis .
  next
    assume "dict_get seen ?n = Some raw"
    from "2.IH"(2) [OF r(2) refl r(4) this _ r(1) i] show ?thesis by simp
  qed
  moreover have "set (map snd (dict_set ?n raw seen)) = insert raw (set (map snd seen))" unfolding set_map up by simp
  ultimately show ?case by auto
qed auto

lemma new_suggester_registry:
  assumes "new_suggester registry md tb = Inr s"
  shows "dict_wf (ts_registry s)" "\<And>n r. (n, r) \<in> set (ts_registry s) \<Longrightarrow> n = normalize_name r"
    "set (known_names s) = {r. PStr r \<in> set registry}" "ts_max_distance s = md" "ts_margin s = tb"
proof -
  obtain reg where r: "register_names registry [] = Inr reg" "s = \<lparr>ts_registry = reg, ts_max_distance = md, ts_margin = tb\<rparr>"
    using assms by (auto simp: new_suggester_def split: if_splits sum.splits)
  note reg = register_names_sound [OF r(1), simplified]
  show "dict_wf (ts_registry s)" "set (known_names s) = {r. PStr r \<in> set registry}" "ts_max_distance s = md" "ts_margin s = tb"
    using reg r(2) by (simp_all add: known_names_def)
  show "n = normalize_name r" if "(n, r) \<in> set (ts_registry s)" for n r using reg r(2) that by auto
qed

lemma registered_iff:
  assumes "new_suggester registry md tb = Inr s"
  shows "PStr n \<in> set registry \<longleftrightarrow> (normalize_name n, n) \<in> set (ts_registry s)"
proof
  assume "PStr n \<in> set registry"
  then have "n \<in> set (known_names s)" using new_suggester_registry(3) [OF assms] by simp
  then obtain m where m: "(m, n) \<in> set (ts_registry s)" by (auto simp: known_names_def)
  then show "(normalize_name n, n) \<in> set (ts_registry s)" using new_suggester_registry(2) [OF assms m] by simp
next
  assume "(normalize_name n, n) \<in> set (ts_registry s)"
  then have "n \<in> set (known_names s)" by (force simp: known_names_def)
  then show "PStr n \<in> set registry" using new_suggester_registry(3) [OF assms] by simp
qed

lemma registered_alike:
  assumes "new_suggester registry md tb = Inr s"
  shows "(\<exists>n. PStr n \<in> set registry \<and> normalize_name n = normalize_name name) \<longleftrightarrow> dict_get (ts_registry s) (normalize_name name) \<noteq> None"
proof
  assume "\<exists>n. PStr n \<in> set registry \<and> normalize_name n = normalize_name name"
  then obtain n where "(normalize_name name, n) \<in> set (ts_registry s)" using registered_iff [OF assms] by metis
  then show "dict_get (ts_registry s) (normalize_name name) \<noteq> None" using new_suggester_registry(1) [OF assms] by (simp add: dict_wf_def)
next
  assume "dict_get (ts_registry s) (normalize_name name) \<noteq> None"
  then obtain n where n: "(normalize_name name, n) \<in> set (ts_registry s)" by (auto dest: map_of_SomeD)
  then have "normalize_name name = normalize_name n" by (rule new_suggester_registry(2) [OF assms])
  then show "\<exists>n. PStr n \<in> set registry \<and> normalize_name n = normalize_name name" using n registered_iff [OF assms] by metis
qed

section \<open>The ranking\<close>

definition edits_to :: "string \<Rightarrow> string \<Rightarrow> nat" where
  "edits_to name n = (LEAST k. aligned (normalize_name name) (normalize_name n) k)"

lemma edits_to_damerau: "edits_to name n = damerau_levenshtein (normalize_name name) (normalize_name n)"
  unfolding edits_to_def by (rule Least_equality) (simp_all add: damerau_levenshtein_aligned)

definition ranked_names :: "typo_suggester \<Rightarrow> string \<Rightarrow> (string \<times> nat) list" where
  "ranked_names s name = sort_key (\<lambda>x. (snd x, fst x)) (scored_names s (normalize_name name))"

lemma ranked_names_sound:
  assumes "new_suggester registry md tb = Inr s"
  shows "set (ranked_names s name) = {(n, edits_to name n) |n. PStr n \<in> set registry \<and> int (edits_to name n) \<le> md}"
    "sorted (map (\<lambda>x. (snd x, fst x)) (ranked_names s name))" "distinct (ranked_names s name)"
proof -
  note r = new_suggester_registry [OF assms]
  have k: "snd ` set (ts_registry s) = {n. PStr n \<in> set registry}" using r(3) by (simp add: known_names_def)
  have reg: "ts_registry s = map (\<lambda>n. (normalize_name n, n)) (map snd (ts_registry s))"
    using r(2) by (auto intro!: map_idI [symmetric])
  show "set (ranked_names s name) = {(n, edits_to name n) |n. PStr n \<in> set registry \<and> int (edits_to name n) \<le> md}"
    unfolding ranked_names_def scored_names_def set_sort by (subst reg) (use k in \<open>auto simp: r(4) edits_to_damerau image_iff\<close>)
  show "sorted (map (\<lambda>x. (snd x, fst x)) (ranked_names s name))" by (simp add: ranked_names_def)
  have "distinct (map snd (ts_registry s))" using r(1) by (subst (asm) reg) (auto simp: dict_wf_def distinct_map inj_on_def o_def)
  then show "distinct (ranked_names s name)" unfolding ranked_names_def scored_names_def
    by (subst reg) (auto simp: distinct_map inj_on_def intro!: distinct_filter)
qed

lemma suggest_name_ranked:
  assumes "ts_registry s \<noteq> []" "name \<noteq> []" "dict_get (ts_registry s) (normalize_name name) = None"
  shows "suggest_name s (PStr name) =
    (case ranked_names s name of
       [] \<Rightarrow> \<lparr>ts_verdict = VUnknown, ts_best = None, ts_distance = None, ts_runners_up = [], ts_reason = NoCandidate\<rparr>
     | [(best, d)] \<Rightarrow> \<lparr>ts_verdict = VSuggestion, ts_best = Some best, ts_distance = Some d, ts_runners_up = [], ts_reason = SingleCandidate\<rparr>
     | (best, d) # (runner, rd) # rest \<Rightarrow>
         if int rd - int d \<ge> ts_margin s \<and> ts_margin s > 0
         then \<lparr>ts_verdict = VSuggestion, ts_best = Some best, ts_distance = Some d, ts_runners_up = (runner, rd) # rest, ts_reason = ClearWinner\<rparr>
         else \<lparr>ts_verdict = VUnknown, ts_best = None, ts_distance = None, ts_runners_up = ranked_names s name, ts_reason = AmbiguousNames\<rparr>)"
  using assms by (simp add: suggest_name_def ranked_names_def Let_def split: list.split prod.split)

text \<open>The names that win: near, and ahead of every other near name by the margin.\<close>

definition clear_best :: "pyval list \<Rightarrow> int \<Rightarrow> int \<Rightarrow> string \<Rightarrow> string \<Rightarrow> bool" where
  "clear_best registry md tb name best \<longleftrightarrow> PStr best \<in> set registry \<and> int (edits_to name best) \<le> md \<and>
     (\<forall>n. PStr n \<in> set registry \<longrightarrow> n \<noteq> best \<longrightarrow> int (edits_to name n) \<le> md \<longrightarrow>
        tb > 0 \<and> int (edits_to name n) \<ge> int (edits_to name best) + tb)"

lemma ranked_clear_best:
  assumes "new_suggester registry md tb = Inr s" "ranked_names s name = (b, d) # rest"
  shows "clear_best registry md tb name best \<longleftrightarrow>
    best = b \<and> (rest = [] \<or> (int (snd (hd rest)) - int d \<ge> tb \<and> tb > 0))" "d = edits_to name b"
proof -
  note rk = ranked_names_sound [OF assms(1), of name, unfolded assms(2)]
  have mem: "(n, k) \<in> set ((b, d) # rest) \<longleftrightarrow> k = edits_to name n \<and> PStr n \<in> set registry \<and> int (edits_to name n) \<le> md" for n k
    unfolding rk(1) by auto
  show d: "d = edits_to name b" using mem [of b d] by simp
  have le: "d \<le> k \<and> (rest \<noteq> [] \<longrightarrow> snd (hd rest) \<le> k)" if "(n, k) \<in> set rest" for n k
    using that rk(2) by (cases rest) (auto simp: less_eq_prod_def)
  have near: "PStr n \<in> set registry \<and> n \<noteq> b \<and> int (edits_to name n) \<le> md \<longleftrightarrow> (n, edits_to name n) \<in> set rest" for n
    using mem [of n "edits_to name n"] rk(3) d by auto
  show "clear_best registry md tb name best \<longleftrightarrow> best = b \<and> (rest = [] \<or> (int (snd (hd rest)) - int d \<ge> tb \<and> tb > 0))" (is "_ \<longleftrightarrow> ?R")
  proof
    assume c: "clear_best registry md tb name best"
    have "best = b"
    proof (rule ccontr)
      assume "best \<noteq> b"
      then have "(best, edits_to name best) \<in> set rest" "tb > 0 \<and> int d \<ge> int (edits_to name best) + tb"
        using c near [of best] mem [of b d] d by (auto simp: clear_best_def)
      then show False using le by fastforce
    qed
    moreover have "int (snd (hd rest)) - int d \<ge> tb \<and> tb > 0" if "rest \<noteq> []"
    proof -
      obtain n k where h: "hd rest = (n, k)" by fastforce
      then have "(n, k) \<in> set rest" using that hd_in_set by metis
      moreover have "k = edits_to name n" using calculation mem [of n k] by simp
      ultimately show ?thesis using near [of n] c h d \<open>best = b\<close> by (auto simp: clear_best_def)
    qed
    ultimately show ?R by blast
  next
    assume r: ?R
    have "tb > 0 \<and> int (edits_to name n) \<ge> int d + tb" if "(n, edits_to name n) \<in> set rest" for n
      using le [OF that] r that by (cases rest) auto
    then show "clear_best registry md tb name best" using r near mem [of b d] d by (auto simp: clear_best_def)
  qed
qed

section \<open>Properties\<close>

lemma suggest_name_spec:
  assumes "new_suggester registry md tb = Inr s" "name \<noteq> []"
  shows "let r = suggest_name s (PStr name); same = (\<exists>n. PStr n \<in> set registry \<and> normalize_name n = normalize_name name) in
    (\<forall>a b :: string. damerau_levenshtein a b = (LEAST k. aligned a b k)) \<and>
    (ts_verdict r = VExact \<longleftrightarrow> same) \<and>
    (\<forall>best. ts_verdict r = VSuggestion \<and> ts_best r = Some best \<longleftrightarrow> \<not> same \<and> clear_best registry md tb name best) \<and>
    (\<forall>best. ts_verdict r = VSuggestion \<and> ts_best r = Some best \<longrightarrow> ts_distance r = Some (edits_to name best)) \<and>
    (ts_verdict r = VUnknown \<longrightarrow>
      set (ts_runners_up r) = {(n, edits_to name n) |n. PStr n \<in> set registry \<and> int (edits_to name n) \<le> md})"
proof -
  note reg = new_suggester_registry [OF assms(1)]
  let ?r = "suggest_name s (PStr name)" and ?near = "{(n, edits_to name n) |n. PStr n \<in> set registry \<and> int (edits_to name n) \<le> md}"
  have least: "damerau_levenshtein a b = (LEAST k. aligned a b k)" for a b :: string
    by (rule Least_equality [symmetric]) (simp_all add: damerau_levenshtein_aligned)
  note names = registered_iff [OF assms(1)]
  note same = registered_alike [OF assms(1), of name]
  show ?thesis
  proof (cases "dict_get (ts_registry s) (normalize_name name)")
    case (Some orig)
    then have "ts_registry s \<noteq> []" by auto
    then show ?thesis using Some assms(2) least same by (auto simp: suggest_name_def Let_def)
  next
    case None
    note rk = ranked_names_sound(1) [OF assms(1), of name]
    show ?thesis
    proof (cases "ts_registry s = []")
      case True
      then have "?near = {}" "\<And>best. \<not> clear_best registry md tb name best" using names by (auto simp: clear_best_def)
      then show ?thesis using True None least same by (simp add: suggest_name_def Let_def)
    next
      case False
      note r = suggest_name_ranked [OF False assms(2) None]
      show ?thesis
      proof (cases "ranked_names s name")
        case Nil
        then have "\<not> clear_best registry md tb name best" for best using rk by (auto simp: clear_best_def)
        then show ?thesis using Nil None least same rk by (simp add: r Let_def)
      next
        case (Cons x rest)
        obtain b d where x: "x = (b, d)" by fastforce
        note c = ranked_clear_best [OF assms(1) Cons [unfolded x]]
        let ?W = "rest = [] \<or> (int (snd (hd rest)) - int d \<ge> tb \<and> tb > 0)"
        have "?r = (if ?W
            then \<lparr>ts_verdict = VSuggestion, ts_best = Some b, ts_distance = Some d, ts_runners_up = rest,
              ts_reason = if rest = [] then SingleCandidate else ClearWinner\<rparr>
            else \<lparr>ts_verdict = VUnknown, ts_best = None, ts_distance = None, ts_runners_up = ranked_names s name, ts_reason = AmbiguousNames\<rparr>)"
          unfolding r Cons x reg(5) by (cases rest) (simp_all add: case_prod_beta)
        then show ?thesis using None least same rk c(2) unfolding c(1) Let_def by (cases ?W) auto
      qed
    qed
  qed
qed

text \<open>A name registered verbatim is its own answer.\<close>

lemma verbatim_exact:
  assumes "new_suggester registry md tb = Inr s" "name \<noteq> []" "PStr name \<in> set registry"
  shows "ts_verdict (suggest_name s (PStr name)) = VExact \<and> ts_best (suggest_name s (PStr name)) = Some name \<and>
    ts_distance (suggest_name s (PStr name)) = Some 0"
proof -
  have "(normalize_name name, name) \<in> set (ts_registry s)" using registered_iff [OF assms(1)] assms(3) by blast
  then have "dict_get (ts_registry s) (normalize_name name) = Some name" "ts_registry s \<noteq> []"
    using new_suggester_registry(1) [OF assms(1)] by (auto simp: dict_wf_def)
  then show ?thesis using assms(2) by (simp add: suggest_name_def Let_def)
qed

lemma lead_clear_best:
  assumes "tb > 0" "PStr best \<in> set registry" "int (edits_to name best) \<le> md"
    "\<forall>n. PStr n \<in> set registry \<and> n \<noteq> best \<longrightarrow> int (edits_to name n) \<ge> int (edits_to name best) + tb"
  shows "clear_best registry md tb name best"
  using assms by (auto simp: clear_best_def)

text \<open>C13. The distance computed over three rotating rows is the least number of edits - keep, replace, insert,
  delete, swap of two neighbours - in an alignment of the two names; \<open>edits_to\<close> is that number for the normalised
  names.  With a positive margin: a name registered verbatim is exact.  A name that normalises like no registered one is
  never exact; a registered name within the maximal distance that is nearer than every other registered name by at least
  the margin is suggested; a suggested name is within the distance, and no other name within the distance is nearer than
  it plus the margin; and with no suggestion, all the names within the distance are listed, each with its
  distance.  (A name that only normalises like a registered one, and a margin of 0, are left out: the code answers them
  otherwise than documented.)\<close>

theorem nearest_name_suggested:
  assumes "new_suggester registry md tb = Inr s" "name \<noteq> []" "tb > 0"
  shows "let r = suggest_name s (PStr name) in
    (\<forall>a b :: string. damerau_levenshtein a b = (LEAST k. aligned a b k)) \<and>
    (PStr name \<in> set registry \<longrightarrow> ts_verdict r = VExact \<and> ts_best r = Some name \<and> ts_distance r = Some 0) \<and>
    ((\<forall>n. PStr n \<in> set registry \<longrightarrow> normalize_name n \<noteq> normalize_name name) \<longrightarrow>
      ts_verdict r \<noteq> VExact \<and>
      (\<forall>best. PStr best \<in> set registry \<and> int (edits_to name best) \<le> md \<and>
          (\<forall>n. PStr n \<in> set registry \<and> n \<noteq> best \<longrightarrow> int (edits_to name n) \<ge> int (edits_to name best) + tb) \<longrightarrow>
        ts_verdict r = VSuggestion \<and> ts_best r = Some best) \<and>
      (\<forall>best. ts_verdict r = VSuggestion \<and> ts_best r = Some best \<longrightarrow>
        PStr best \<in> set registry \<and> int (edits_to name best) \<le> md \<and> ts_distance r = Some (edits_to name best) \<and>
        (\<forall>n. PStr n \<in> set registry \<and> n \<noteq> best \<and> int (edits_to name n) \<le> md \<longrightarrow>
          int (edits_to name n) \<ge> int (edits_to name best) + tb)) \<and>
      (ts_verdict r = VUnknown \<longrightarrow>
        set (ts_runners_up r) = {(n, edits_to name n) |n. PStr n \<in> set registry \<and> int (edits_to name n) \<le> md}))"
proof -
  note sp = suggest_name_spec [OF assms(1,2), unfolded Let_def]
  note best = sp [THEN conjunct2, THEN conjunct2, THEN conjunct1, rule_format]
  show ?thesis unfolding Let_def
  proof (intro conjI impI allI; (elim conjE)?)
    fix best assume new: "\<forall>n. PStr n \<in> set registry \<longrightarrow> normalize_name n \<noteq> normalize_name name"
      and b: "PStr best \<in> set registry" "int (edits_to name best) \<le> md"
        "\<forall>n. PStr n \<in> set registry \<and> n \<noteq> best \<longrightarrow> int (edits_to name n) \<ge> int (edits_to name best) + tb"
    show "ts_verdict (suggest_name s (PStr name)) = VSuggestion" "ts_best (suggest_name s (PStr name)) = Some best"
      using lead_clear_best [OF assms(3) b] best [of best] new by blast+
  qed (use sp verbatim_exact [OF assms(1,2)] in \<open>(auto simp: clear_best_def)\<close>)
qed

text \<open>A transposition and a missing letter, with a second name out of reach; and two names at one distance.\<close>

definition demo_registry :: "pyval list" where
  "demo_registry = map PStr [''read_file'', ''grep'', ''list'', ''lint'']"

theorem nearest_name_suggested_witness:
  "\<exists>s. new_suggester demo_registry 2 1 = Inr s \<and> ts_best (suggest_name s (PStr ''Raed_fil'')) = Some ''read_file'' \<and>
     ts_verdict (suggest_name s (PStr ''lit'')) = VUnknown"
proof -
  define s where "s = \<lparr>ts_registry = map (\<lambda>n. (n, n)) [''read_file'', ''grep'', ''list'', ''lint''], ts_max_distance = 2, ts_margin = 1\<rparr>"
  have s: "new_suggester demo_registry 2 1 = Inr s" unfolding s_def by code_simp
  have ne: "''Raed_fil'' \<noteq> []" by simp
  have names: "PStr n \<in> set demo_registry \<longleftrightarrow> n = ''read_file'' \<or> n = ''grep'' \<or> n = ''list'' \<or> n = ''lint''" for n
    unfolding demo_registry_def by auto
  have norm: "normalize_name ''read_file'' = ''read_file''" "normalize_name ''grep'' = ''grep''" "normalize_name ''list'' = ''list''"
    "normalize_name ''lint'' = ''lint''" "normalize_name ''Raed_fil'' = ''raed_fil''"
    by code_simp+
  have dist: "damerau_levenshtein ''raed_fil'' ''read_file'' = 2" "damerau_levenshtein ''raed_fil'' ''grep'' = 7"
    "damerau_levenshtein ''raed_fil'' ''list'' = 8" "damerau_levenshtein ''raed_fil'' ''lint'' = 8" by code_simp+
  have pos: "(1 :: int) > 0" by simp
  have fresh: "\<forall>n. PStr n \<in> set demo_registry \<longrightarrow> normalize_name n \<noteq> normalize_name ''Raed_fil''" unfolding names by (auto simp: norm)
  note near = nearest_name_suggested [OF s ne pos, unfolded Let_def, THEN conjunct2, THEN conjunct2, THEN mp, OF fresh,
      THEN conjunct2, THEN conjunct1, THEN spec, THEN mp, of "''read_file''"]
  have "ts_best (suggest_name s (PStr ''Raed_fil'')) = Some ''read_file''"
    by (rule near [THEN conjunct2]) (unfold names edits_to_damerau norm, auto simp: norm dist)
  moreover have "ts_verdict (suggest_name s (PStr ''lit'')) = VUnknown" unfolding s_def by code_simp
  ultimately show ?thesis using s by blast
qed

section \<open>What the documentation says otherwise\<close>

text \<open>\<open>read_file\<close> and \<open>read-file\<close>, the module's example of names that collapse, are registered together; a name that
  is not in the registry verbatim is reported as exact; and with a margin of 0 a nearest name is never suggested
  when another is within reach.\<close>

lemma hyphen_does_not_collapse:
  "new_suggester [PStr ''read_file'', PStr ''read-file''] 2 1 =
     Inr \<lparr>ts_registry = [(''read_file'', ''read_file''), (''readfile'', ''read-file'')], ts_max_distance = 2, ts_margin = 1\<rparr>"
  by code_simp

lemma exact_is_not_verbatim:
  "ts_verdict (suggest_name \<lparr>ts_registry = [(''grep'', ''grep'')], ts_max_distance = 2, ts_margin = 1\<rparr> (PStr ''G-R.E P'')) = VExact"
  by code_simp

lemma zero_margin_never_wins:
  "ts_margin s = 0 \<Longrightarrow> ts_registry s \<noteq> [] \<Longrightarrow> name \<noteq> [] \<Longrightarrow> dict_get (ts_registry s) (normalize_name name) = None \<Longrightarrow>
   length (ranked_names s name) \<ge> 2 \<Longrightarrow> ts_verdict (suggest_name s (PStr name)) = VUnknown"
  by (auto simp: suggest_name_ranked split: list.split)

end
