(* ===== verification/Replay_Log.thy ===== *)
theory Replay_Log
  imports Merkle_Log
begin

text \<open>
  The tool-call replay log (\<open>tool-call-replay-log/replay_log.py\<close>): canonical arguments, recording into a
  hash-chained file, replaying in the recorded order, and verification.  The file is its text, or \<open>None\<close>
  when it does not exist; SHA-256 and \<open>json.loads\<close> are parameters, as in \<open>Merkle_Log\<close>, whose model of text files
  is shared.  What is hashed and written is \<open>json.dumps\<close> with its default \<open>ensure_ascii=True\<close>.  Arguments are Python values; results and times are JSON values whose numbers are integers.
\<close>

section \<open>Canonical arguments\<close>

datatype canon_error = FloatNotAllowed string

fun all_right :: "('k \<times> ('e + 'v)) list \<Rightarrow> 'e + ('k \<times> 'v) list" where
  "all_right [] = Inr []"
| "all_right ((k, Inl e) # rest) = Inl e"
| "all_right ((k, Inr v) # rest) = (case all_right rest of Inl e \<Rightarrow> Inl e | Inr vs \<Rightarrow> Inr ((k, v) # vs))"

function (sequential) canon_args :: "string \<Rightarrow> pyval \<Rightarrow> canon_error + json" where
  "canon_args pointer (PFloat x) = Inl (FloatNotAllowed (if pointer = [] then ''/'' else pointer))"
| "canon_args pointer (PDict d) =
     map_sum id JObj (all_right (sort_key fst (map (\<lambda>(k, v). (k, canon_args (pointer @ ''/'' @ k) v)) d)))"
| "canon_args pointer (PList vs) =
     map_sum id (JArr \<circ> map snd) (all_right (map (\<lambda>(i, v). (i, canon_args (pointer @ ''/'' @ dec i) v)) (enumerate 0 vs)))"
| "canon_args pointer (PStr s) = Inr (JStr s)"
| "canon_args pointer (PInt i) = Inr (JInt i)"
| "canon_args pointer (PBool b) = Inr (JBool b)"
| "canon_args pointer PNone = Inr JNull"
  by pat_completeness auto
termination
proof (relation "measure (size \<circ> snd)")
  fix pointer :: string and vs :: "pyval list" and x i v
  assume "x \<in> set (enumerate 0 vs)" "(i, v) = x"
  then have "v \<in> set vs" by (metis enumerate_eq_zip in_set_zipE)
  then show "((pointer @ ''/'' @ dec i, v), pointer, PList vs) \<in> measure (size \<circ> snd)"
    using size_list_estimation' [of v vs "size v" size] by simp
next
  fix pointer :: string and d :: "(string \<times> pyval) list" and x k v
  assume "x \<in> set d" "(k, v) = x"
  then show "((pointer @ ''/'' @ k, v), pointer, PDict d) \<in> measure (size \<circ> snd)"
    using size_list_estimation' [of x d "size v" "size_prod (\<lambda>_. 0) size"] by (cases x) auto
qed simp

definition rl_identity_args :: "(string, pyval) dict \<Rightarrow> string list option \<Rightarrow> (string, pyval) dict" where
  "rl_identity_args a keep =
     (case keep of
        None \<Rightarrow> a
      | Some fs \<Rightarrow> fold (\<lambda>k d. case dict_get a k of None \<Rightarrow> d | Some v \<Rightarrow> dict_set k v d) fs [])"

definition rl_key_text :: "string \<Rightarrow> json \<Rightarrow> string" where
  "rl_key_text tool canon = dumps_ascii_sorted (JObj [(''tool'', JStr tool), (''args'', canon)])"

definition canonical_key :: "(string \<Rightarrow> string) \<Rightarrow> string \<Rightarrow> (string, pyval) dict \<Rightarrow> string list option \<Rightarrow> canon_error + string" where
  "canonical_key sha tool a keep =
     (case canon_args [] (PDict (rl_identity_args a keep)) of Inl e \<Rightarrow> Inl e | Inr canon \<Rightarrow> Inr (sha (rl_key_text tool canon)))"

section \<open>Recording\<close>

datatype rl_error =
    RlCanon canon_error | RlDecode | RlNotAnObject | RlMissingKey string | RlBadPrevHash json | RlUnhashable json
  | ReplayMissed string nat nat

definition record_hash :: "(string \<Rightarrow> string) \<Rightarrow> string \<Rightarrow> entry \<Rightarrow> string" where
  "record_hash sha prev payload = sha (prev @ [CHR 0x0A] @ dumps_ascii_sorted (JObj payload))"

definition EMPTY_SHA256 :: string where
  "EMPTY_SHA256 = ''e3b0c44298fc1c149afbf4c8996fb92427ae41e4649b934ca495991b7852b855''"

definition stripped_lines :: "string option \<Rightarrow> string list" where
  "stripped_lines file = (case file of None \<Rightarrow> [] | Some s \<Rightarrow> filter (\<lambda>l. l \<noteq> []) (map py_strip (text_lines s)))"

fun last_hash_of :: "(string \<Rightarrow> json option) \<Rightarrow> string list \<Rightarrow> json \<Rightarrow> rl_error + json" where
  "last_hash_of loads [] h = Inr h"
| "last_hash_of loads (l # ls) h =
     (case loads l of
        None \<Rightarrow> Inl RlDecode
      | Some (JObj e) \<Rightarrow>
          (case dict_get e ''record_hash'' of None \<Rightarrow> Inl (RlMissingKey ''record_hash'') | Some h' \<Rightarrow> last_hash_of loads ls h')
      | Some _ \<Rightarrow> Inl RlNotAnObject)"

definition last_hash :: "(string \<Rightarrow> json option) \<Rightarrow> string option \<Rightarrow> rl_error + json" where
  "last_hash loads file = last_hash_of loads (stripped_lines file) (JStr EMPTY_SHA256)"

definition next_seq :: "string option \<Rightarrow> nat" where
  "next_seq file = length (stripped_lines file)"

record call_record =
  cr_tool :: string
  cr_args :: "(string, pyval) dict"
  cr_result :: json
  cr_status :: string
  cr_started_at :: json
  cr_finished_at :: json
  cr_attempt_id :: string
  cr_fields :: "string list option"

record rl_log =
  rl_file :: "string option"
  rl_cursors :: "(string, nat) dict"
  rl_by_key :: "(json, entry list) dict option"

definition new_rl_log :: "string option \<Rightarrow> rl_log" where
  "new_rl_log file = \<lparr>rl_file = file, rl_cursors = [], rl_by_key = None\<rparr>"

definition call_payload :: "nat \<Rightarrow> call_record \<Rightarrow> json \<Rightarrow> string \<Rightarrow> string \<Rightarrow> entry" where
  "call_payload seq c canon ck prev =
     [(''seq'', JInt (int seq)), (''tool'', JStr (cr_tool c)), (''args'', canon), (''canonical_key'', JStr ck),
      (''result'', cr_result c), (''status'', JStr (cr_status c)), (''started_at'', cr_started_at c),
      (''finished_at'', cr_finished_at c), (''attempt_id'', JStr (cr_attempt_id c)), (''prev_hash'', JStr prev)]"

fun ascii_text :: "json \<Rightarrow> string option" where
  "ascii_text (JStr s) = (if list_all (\<lambda>c. (of_char c :: nat) < 128) s then Some s else None)"
| "ascii_text _ = None"

definition record_call ::
  "(string \<Rightarrow> string) \<Rightarrow> (string \<Rightarrow> json option) \<Rightarrow> call_record \<Rightarrow> rl_log \<Rightarrow> (rl_error, entry, rl_log) outcome" where
  "record_call sha loads c s =
     (case last_hash loads (rl_file s) of
        Inl e \<Rightarrow> (Inl e, s)
      | Inr prev \<Rightarrow>
          (case canon_args [] (PDict (cr_args c)) of
             Inl e \<Rightarrow> (Inl (RlCanon e), s)
           | Inr canon \<Rightarrow>
               (case canonical_key sha (cr_tool c) (cr_args c) (cr_fields c) of
                  Inl e \<Rightarrow> (Inl (RlCanon e), s)
                | Inr ck \<Rightarrow>
                    (case ascii_text prev of
                       None \<Rightarrow> (Inl (RlBadPrevHash prev), s)
                     | Some p \<Rightarrow>
                         (let payload = call_payload (next_seq (rl_file s)) c canon ck p;
                              record = dict_set ''record_hash'' (JStr (record_hash sha p payload)) payload;
                              line = dumps_ascii_sorted (JObj record) @ [CHR 0x0A] in
                          (Inr record,
                           s\<lparr>rl_file := Some ((case rl_file s of None \<Rightarrow> [] | Some t \<Rightarrow> t) @ line), rl_by_key := None\<rparr>))))))"

section \<open>Replaying\<close>

fun hashable_json :: "json \<Rightarrow> bool" where
  "hashable_json (JArr vs) = False"
| "hashable_json (JObj fs) = False"
| "hashable_json v = True"

fun index_lines :: "(string \<Rightarrow> json option) \<Rightarrow> string list \<Rightarrow> (json, entry list) dict \<Rightarrow> rl_error + (json, entry list) dict" where
  "index_lines loads [] ix = Inr ix"
| "index_lines loads (l # ls) ix =
     (case loads l of
        None \<Rightarrow> index_lines loads ls ix
      | Some (JObj e) \<Rightarrow>
          (case dict_get e ''canonical_key'' of
             None \<Rightarrow> Inl (RlMissingKey ''canonical_key'')
           | Some k \<Rightarrow>
               if \<not> hashable_json k then Inl (RlUnhashable k)
               else index_lines loads ls (dict_set k ((case dict_get ix k of None \<Rightarrow> [] | Some es \<Rightarrow> es) @ [e]) ix))
      | Some _ \<Rightarrow> Inl RlNotAnObject)"

definition load_index :: "(string \<Rightarrow> json option) \<Rightarrow> rl_log \<Rightarrow> rl_error + rl_log" where
  "load_index loads s =
     (case rl_by_key s of
        Some ix \<Rightarrow> Inr s
      | None \<Rightarrow>
          (case index_lines loads (stripped_lines (rl_file s)) [] of Inl e \<Rightarrow> Inl e | Inr ix \<Rightarrow> Inr (s\<lparr>rl_by_key := Some ix\<rparr>)))"

definition replay_call ::
  "(string \<Rightarrow> string) \<Rightarrow> (string \<Rightarrow> json option) \<Rightarrow> string \<Rightarrow> (string, pyval) dict \<Rightarrow> string list option \<Rightarrow> rl_log \<Rightarrow>
    (rl_error, json, rl_log) outcome" where
  "replay_call sha loads tool a keep s =
     (case load_index loads s of
        Inl e \<Rightarrow> (Inl e, s)
      | Inr s \<Rightarrow>
          (case canonical_key sha tool a keep of
             Inl e \<Rightarrow> (Inl (RlCanon e), s)
           | Inr ck \<Rightarrow>
               (let bucket = (case dict_get (the (rl_by_key s)) (JStr ck) of None \<Rightarrow> [] | Some es \<Rightarrow> es);
                    cursor = (case dict_get (rl_cursors s) ck of None \<Rightarrow> 0 | Some n \<Rightarrow> n) in
                if cursor \<ge> length bucket then (Inl (ReplayMissed ck cursor (length bucket)), s)
                else
                  (let s = s\<lparr>rl_cursors := dict_set ck (cursor + 1) (rl_cursors s)\<rparr> in
                   (case dict_get (bucket ! cursor) ''result'' of
                      None \<Rightarrow> (Inl (RlMissingKey ''result''), s)
                    | Some r \<Rightarrow> (Inr r, s))))))"

definition reset_cursors :: "rl_log \<Rightarrow> rl_log" where
  "reset_cursors s = s\<lparr>rl_cursors := []\<rparr>"

section \<open>Verification\<close>

definition record_payload :: "entry \<Rightarrow> entry" where
  "record_payload e = filter (\<lambda>(k, v). k \<noteq> ''record_hash'') e"

fun rl_verify_lines ::
  "(string \<Rightarrow> string) \<Rightarrow> (string \<Rightarrow> json option) \<Rightarrow> string list \<Rightarrow> string \<Rightarrow> nat \<Rightarrow> rl_error + nat \<times> bool \<times> json" where
  "rl_verify_lines sha loads [] prev n = Inr (n, True, JNull)"
| "rl_verify_lines sha loads (raw # ls) prev n =
     (let l = rstrip_nl raw in
      if l = [] then rl_verify_lines sha loads ls prev n
      else (case loads l of
        None \<Rightarrow> if ls = [] then Inr (n, True, JNull) else Inr (n, False, JInt (int n))
      | Some (JObj e) \<Rightarrow>
          if entry_get e ''prev_hash'' \<noteq> JStr prev then Inr (n, False, entry_get e ''seq'')
          else
            (let expected = record_hash sha prev (record_payload e) in
             if JStr expected \<noteq> entry_get e ''record_hash'' then Inr (n, False, entry_get e ''seq'')
             else rl_verify_lines sha loads ls expected (n + 1))
      | Some _ \<Rightarrow> Inl RlNotAnObject))"

definition rl_verify :: "(string \<Rightarrow> string) \<Rightarrow> (string \<Rightarrow> json option) \<Rightarrow> string option \<Rightarrow> rl_error + nat \<times> bool \<times> json" where
  "rl_verify sha loads file =
     (case file of None \<Rightarrow> Inr (0, True, JNull) | Some s \<Rightarrow> rl_verify_lines sha loads (text_lines s) EMPTY_SHA256 0)"

section \<open>Sessions and their specification\<close>

datatype rl_op = RlRecord call_record | RlReplay string "(string, pyval) dict" "string list option" | RlReset | RlVerify

datatype rl_out = OutRecorded | OutResult json | OutReset | OutVerified nat bool json

definition rl_step ::
  "(string \<Rightarrow> string) \<Rightarrow> (string \<Rightarrow> json option) \<Rightarrow> rl_log \<Rightarrow> rl_op \<Rightarrow> (rl_error, rl_out, rl_log) outcome" where
  "rl_step sha loads s op =
     (case op of
        RlRecord c \<Rightarrow> apfst (map_sum id (\<lambda>_. OutRecorded)) (record_call sha loads c s)
      | RlReplay tool a fs \<Rightarrow> apfst (map_sum id OutResult) (replay_call sha loads tool a fs s)
      | RlReset \<Rightarrow> (Inr OutReset, reset_cursors s)
      | RlVerify \<Rightarrow> (map_sum id (\<lambda>(n, ok, bad). OutVerified n ok bad) (rl_verify sha loads (rl_file s)), s))"

text \<open>The specification: the recorded results in order under their keys, and how many of each key were taken.\<close>

type_synonym rl_spec = "(string \<times> json) list \<times> (string \<Rightarrow> nat)"

definition spec_step :: "(string \<Rightarrow> string) \<Rightarrow> rl_spec \<Rightarrow> rl_op \<Rightarrow> (rl_error, rl_out, rl_spec) outcome" where
  "spec_step sha sp op =
     (case sp of (calls, taken) \<Rightarrow>
        (case op of
           RlRecord c \<Rightarrow>
             (case canon_args [] (PDict (cr_args c)) of
                Inl e \<Rightarrow> (Inl (RlCanon e), sp)
              | Inr canon \<Rightarrow>
                  (case canonical_key sha (cr_tool c) (cr_args c) (cr_fields c) of
                     Inl e \<Rightarrow> (Inl (RlCanon e), sp)
                   | Inr k \<Rightarrow> (Inr OutRecorded, calls @ [(k, sort_json (cr_result c))], taken)))
         | RlReplay tool a fs \<Rightarrow>
             (case canonical_key sha tool a fs of
                Inl e \<Rightarrow> (Inl (RlCanon e), sp)
              | Inr k \<Rightarrow>
                  (let results = map snd (filter (\<lambda>(j, r). j = k) calls) in
                   if taken k < length results then (Inr (OutResult (results ! taken k)), calls, taken(k := Suc (taken k)))
                   else (Inl (ReplayMissed k (taken k) (length results)), sp)))
         | RlReset \<Rightarrow> (Inr OutReset, calls, \<lambda>k. 0)
         | RlVerify \<Rightarrow> (Inr (OutVerified (length calls) True JNull), sp)))"

section \<open>Lines of the file\<close>

text \<open>What the log relies on: \<open>json.loads\<close> reads back what \<open>json.dumps\<close> wrote, when no object has a repeated key.\<close>

definition rl_reads :: "(string \<Rightarrow> json option) \<Rightarrow> bool" where
  "rl_reads loads \<longleftrightarrow> (\<forall>v. unique_keys v \<longrightarrow> loads (dumps_ascii v) = Some v)"

definition rl_lines :: "entry list \<Rightarrow> string list" where
  "rl_lines es = map (\<lambda>e. dumps_ascii (JObj e) @ [CHR 0x0A]) es"

lemma line_char_ascii: "list_all line_char (quote_ascii s)"
proof -
  have "list_all line_char (esc_ascii c)" for c
  proof -
    have "(of_char c :: nat) < 256" by (rule nat_of_char_less_256)
    then have "(of_char c :: nat) div 16 < 16" by (simp add: less_mult_imp_div_less)
    then show ?thesis using line_char_esc [of c] by (simp add: esc_ascii_def line_char_hex) (simp add: line_char_def)
  qed
  then show ?thesis by (auto simp: quote_ascii_def list_all_iff line_char_def)
qed

lemma line_char_dumps_ascii:
  "list_all line_char (dumps_ascii v)" "list_all line_char (dump_items_ascii vs)" "list_all line_char (dump_fields_ascii fs)"
  by (induction v and vs and fs rule: dumps_dump_items_dump_fields.induct)
     (simp_all add: line_char_ascii line_char_int, simp_all add: line_char_def)

lemma text_lines_rl: "text_lines (concat (rl_lines es)) = rl_lines es"
proof -
  have "list_all (list_all line_char) (map (\<lambda>e. dumps_ascii (JObj e)) es)"
    by (simp add: list_all_iff line_char_dumps_ascii(1) [unfolded list_all_iff] del: dumps_ascii.simps)
  from text_lines_written [OF this] show ?thesis by (simp add: rl_lines_def comp_def)
qed

lemma rl_object_line:
  "\<not> is_blank (dumps_ascii (JObj e))" "rstrip_nl (dumps_ascii (JObj e) @ [CHR 0x0A]) = dumps_ascii (JObj e)"
proof -
  have "\<not> py_space CHR ''{''" by (simp add: py_space_def)
  then show "\<not> is_blank (dumps_ascii (JObj e))" by (simp add: is_blank_iff)
  have "dropWhile (\<lambda>c. c = CHR 0x0A) (rev l) = rev l" if "list_all line_char l" for l
    using that by (cases l rule: rev_cases) (auto simp: line_char_def)
  then show "rstrip_nl (dumps_ascii (JObj e) @ [CHR 0x0A]) = dumps_ascii (JObj e)"
    using line_char_dumps_ascii(1) [of "JObj e"] by (simp add: rstrip_nl_def del: dumps_ascii.simps)
qed

lemma last_dump_fields_ascii: "last (dump_fields_ascii fs) = CHR ''}'' \<and> dump_fields_ascii fs \<noteq> []"
  by (induction fs) (auto split: if_splits)

lemma py_strip_object: "py_strip (dumps_ascii (JObj e) @ [CHR 0x0A]) = dumps_ascii (JObj e)"
proof -
  obtain l where l: "dump_fields_ascii e = l @ [CHR ''}'']" using last_dump_fields_ascii [of e] by (metis append_butlast_last_id)
  show ?thesis by (simp add: py_strip_def l py_space_def)
qed

lemma stripped_log: "stripped_lines (Some (concat (rl_lines es))) = map (\<lambda>e. dumps_ascii (JObj e)) es"
proof -
  have "map py_strip (rl_lines es) = map (\<lambda>e. dumps_ascii (JObj e)) es"
    unfolding rl_lines_def by (simp add: py_strip_object del: dumps_ascii.simps)
  moreover have "filter (\<lambda>l. l \<noteq> []) (map (\<lambda>e. dumps_ascii (JObj e)) es) = map (\<lambda>e. dumps_ascii (JObj e)) es"
    by (intro filter_True) auto
  ultimately show ?thesis by (simp only: stripped_lines_def option.case text_lines_rl)
qed

section \<open>The chain of the records\<close>

definition entry_call :: "entry \<Rightarrow> string \<times> json" where
  "entry_call e = ((case entry_get e ''canonical_key'' of JStr k \<Rightarrow> k | _ \<Rightarrow> []), entry_get e ''result'')"

definition well_recorded :: "(string \<Rightarrow> string) \<Rightarrow> string \<Rightarrow> entry \<Rightarrow> bool" where
  "well_recorded sha prev e \<longleftrightarrow> unique_keys (JObj e) \<and> dict_get e ''prev_hash'' = Some (JStr prev) \<and>
     dict_get e ''record_hash'' = Some (JStr (record_hash sha prev (record_payload e))) \<and>
     dict_get e ''canonical_key'' = Some (JStr (fst (entry_call e))) \<and> dict_get e ''result'' = Some (snd (entry_call e))"

fun rl_chain :: "(string \<Rightarrow> string) \<Rightarrow> string \<Rightarrow> entry list \<Rightarrow> bool" where
  "rl_chain sha prev [] = True"
| "rl_chain sha prev (e # es) = (well_recorded sha prev e \<and> rl_chain sha (record_hash sha prev (record_payload e)) es)"

fun rl_head :: "(string \<Rightarrow> string) \<Rightarrow> string \<Rightarrow> entry list \<Rightarrow> string" where
  "rl_head sha prev [] = prev"
| "rl_head sha prev (e # es) = rl_head sha (record_hash sha prev (record_payload e)) es"

lemma rl_chain_snoc: "rl_chain sha prev (es @ [e]) \<longleftrightarrow> rl_chain sha prev es \<and> well_recorded sha (rl_head sha prev es) e"
  by (induction es arbitrary: prev) auto

lemma rl_chain_in: "rl_chain sha prev es \<Longrightarrow> e \<in> set es \<Longrightarrow> \<exists>p. well_recorded sha p e"
  by (induction es arbitrary: prev) auto

lemma loads_recorded:
  "rl_reads loads \<Longrightarrow> well_recorded sha p e \<Longrightarrow> loads (dumps_ascii (JObj e)) = Some (JObj e)"
  unfolding rl_reads_def well_recorded_def by blast

lemma last_hash_chain:
  "rl_reads loads \<Longrightarrow> rl_chain sha prev es \<Longrightarrow>
   last_hash_of loads (map (\<lambda>e. dumps_ascii (JObj e)) es) (JStr prev) = Inr (JStr (rl_head sha prev es))"
proof (induction es arbitrary: prev)
  case (Cons e es)
  then show ?case using loads_recorded [of loads sha prev e] by (simp add: well_recorded_def del: dumps_ascii.simps)
qed simp

lemma verify_chain:
  "rl_reads loads \<Longrightarrow> rl_chain sha prev es \<Longrightarrow> rl_verify_lines sha loads (rl_lines es) prev n = Inr (n + length es, True, JNull)"
proof (induction es arbitrary: prev n)
  case (Cons e es)
  have "dumps_ascii (JObj e) \<noteq> []" by simp
  then show ?case using Cons loads_recorded [of loads sha prev e]
    by (simp add: rl_lines_def rl_object_line entry_get_def well_recorded_def Let_def del: dumps_ascii.simps)
qed (simp add: rl_lines_def)

definition bucket_of :: "(json, entry list) dict \<Rightarrow> string \<Rightarrow> entry list" where
  "bucket_of ix k = (case dict_get ix (JStr k) of None \<Rightarrow> [] | Some es \<Rightarrow> es)"

lemma index_chain:
  "rl_reads loads \<Longrightarrow> rl_chain sha prev es \<Longrightarrow>
   \<exists>ix'. index_lines loads (map (\<lambda>e. dumps_ascii (JObj e)) es) ix = Inr ix' \<and>
     (\<forall>k. bucket_of ix' k = bucket_of ix k @ filter (\<lambda>e. fst (entry_call e) = k) es)"
proof (induction es arbitrary: prev ix)
  case (Cons e es)
  let ?k = "JStr (fst (entry_call e))"
  let ?ix = "dict_set ?k ((case dict_get ix ?k of None \<Rightarrow> [] | Some es \<Rightarrow> es) @ [e]) ix"
  obtain ix' where ix': "index_lines loads (map (\<lambda>e. dumps_ascii (JObj e)) es) ?ix = Inr ix'"
    "\<forall>k. bucket_of ix' k = bucket_of ?ix k @ filter (\<lambda>e. fst (entry_call e) = k) es"
    using Cons by (metis rl_chain.simps(2))
  have "index_lines loads (map (\<lambda>e. dumps_ascii (JObj e)) (e # es)) ix = Inr ix'"
    using Cons.prems loads_recorded [of loads sha prev e] ix'(1) by (simp add: well_recorded_def del: dumps_ascii.simps)
  moreover have "bucket_of ?ix k = bucket_of ix k @ (if fst (entry_call e) = k then [e] else [])" for k
    by (simp add: bucket_of_def)
  ultimately show ?case using ix'(2) by auto
qed simp

section \<open>A record as it is read back\<close>

fun unique_pyval :: "pyval \<Rightarrow> bool" where
  "unique_pyval (PDict d) \<longleftrightarrow> distinct (map fst d) \<and> (\<forall>(k, v)\<in>set d. unique_pyval v)"
| "unique_pyval (PList vs) \<longleftrightarrow> (\<forall>v\<in>set vs. unique_pyval v)"
| "unique_pyval v \<longleftrightarrow> True"

lemma all_right_Inr: "all_right xs = Inr ys \<Longrightarrow> map fst ys = map fst xs \<and> (\<forall>(k, y)\<in>set ys. (k, Inr y) \<in> set xs)"
  by (induction xs arbitrary: ys rule: all_right.induct) (auto split: sum.splits)

lemma canon_unique: "canon_args pointer v = Inr j \<Longrightarrow> unique_pyval v \<Longrightarrow> unique_keys j"
proof (induction pointer v arbitrary: j rule: canon_args.induct)
  case (2 pointer d)
  let ?xs = "sort_key fst (map (\<lambda>(k, v). (k, canon_args (pointer @ ''/'' @ k) v)) d)"
  obtain fs where fs: "all_right ?xs = Inr fs" "j = JObj fs" using "2.prems"(1) by (cases "all_right ?xs") auto
  note r = all_right_Inr [OF fs(1)]
  have f: "map fst (map (\<lambda>(k, v). (k, canon_args (pointer @ ''/'' @ k) v)) d) = map fst d" by auto
  have "distinct (map fst (map (\<lambda>(k, v). (k, canon_args (pointer @ ''/'' @ k) v)) d))" unfolding f using "2.prems"(2) by simp
  then have "distinct (map fst ?xs)" by (simp only: distinct_map set_sort distinct_sort)
  moreover have "unique_keys y" if y: "(k, y) \<in> set fs" for k y
  proof -
    obtain v where v: "(k, v) \<in> set d" "canon_args (pointer @ ''/'' @ k) v = Inr y" using r y by fastforce
    then show ?thesis using "2.IH" [OF v(1) refl v(2)] "2.prems"(2) by auto
  qed
  ultimately show ?case using r fs(2) by auto
next
  case (3 pointer vs)
  let ?xs = "map (\<lambda>(i, v). (i, canon_args (pointer @ ''/'' @ dec i) v)) (enumerate 0 vs)"
  obtain fs where fs: "all_right ?xs = Inr fs" "j = JArr (map snd fs)" using "3.prems"(1) by (cases "all_right ?xs") auto
  note r = all_right_Inr [OF fs(1)]
  have "unique_keys y" if y: "(i, y) \<in> set fs" for i y
  proof -
    obtain v where v: "(i, v) \<in> set (enumerate 0 vs)" "canon_args (pointer @ ''/'' @ dec i) v = Inr y" using r y by fastforce
    then have "v \<in> set vs" by (metis enumerate_eq_zip in_set_zipE)
    then show ?thesis using "3.IH" [OF v(1) refl v(2)] "3.prems"(2) by auto
  qed
  then show ?case using fs(2) by auto
qed auto

definition wf_call :: "call_record \<Rightarrow> bool" where
  "wf_call c \<longleftrightarrow> unique_pyval (PDict (cr_args c)) \<and> unique_keys (cr_result c) \<and> unique_keys (cr_started_at c) \<and> unique_keys (cr_finished_at c)"

definition stored_call :: "(string \<Rightarrow> string) \<Rightarrow> nat \<Rightarrow> call_record \<Rightarrow> json \<Rightarrow> string \<Rightarrow> string \<Rightarrow> entry" where
  "stored_call sha seq c canon ck prev =
     [(''args'', sort_json canon), (''attempt_id'', JStr (cr_attempt_id c)), (''canonical_key'', JStr ck),
      (''finished_at'', sort_json (cr_finished_at c)), (''prev_hash'', JStr prev),
      (''record_hash'', JStr (record_hash sha prev (call_payload seq c canon ck prev))), (''result'', sort_json (cr_result c)),
      (''seq'', JInt (int seq)), (''started_at'', sort_json (cr_started_at c)), (''status'', JStr (cr_status c)), (''tool'', JStr (cr_tool c))]"

lemma dumps_record:
  "dumps_ascii_sorted (JObj (dict_set ''record_hash'' (JStr (record_hash sha prev (call_payload seq c canon ck prev))) (call_payload seq c canon ck prev)))
   = dumps_ascii (JObj (stored_call sha seq c canon ck prev))"
  unfolding dumps_ascii_sorted_def
  by (rule arg_cong [where f = dumps_ascii]) (simp add: stored_call_def call_payload_def less_list_code)

lemma stored_payload_text:
  "dumps_ascii_sorted (JObj (record_payload (stored_call sha seq c canon ck prev))) = dumps_ascii_sorted (JObj (call_payload seq c canon ck prev))"
  unfolding dumps_ascii_sorted_def
  by (rule arg_cong [where f = dumps_ascii])
     (simp add: stored_call_def call_payload_def record_payload_def less_list_code sort_json_sorted json_sorted_sort)

lemma stored_call_recorded:
  assumes "wf_call c" "canon_args [] (PDict (cr_args c)) = Inr canon"
  shows "well_recorded sha prev (stored_call sha seq c canon ck prev)" "entry_call (stored_call sha seq c canon ck prev) = (ck, sort_json (cr_result c))"
proof -
  have "unique_keys canon" using canon_unique [OF assms(2)] assms(1) by (simp add: wf_call_def)
  then have "unique_keys (JObj (stored_call sha seq c canon ck prev))" using assms(1)
    by (simp add: stored_call_def wf_call_def unique_keys_sort)
  moreover show e: "entry_call (stored_call sha seq c canon ck prev) = (ck, sort_json (cr_result c))"
    by (simp add: entry_call_def stored_call_def entry_get_def)
  moreover have "record_hash sha prev (record_payload (stored_call sha seq c canon ck prev)) = record_hash sha prev (call_payload seq c canon ck prev)"
    unfolding record_hash_def stored_payload_text ..
  ultimately show "well_recorded sha prev (stored_call sha seq c canon ck prev)"
    unfolding well_recorded_def by (simp add: stored_call_def)
qed

section \<open>The simulation\<close>

text \<open>\<open>hexdigest\<close> returns ASCII text.\<close>

definition ascii_hash :: "(string \<Rightarrow> string) \<Rightarrow> bool" where
  "ascii_hash sha \<longleftrightarrow> (\<forall>s. list_all (\<lambda>c. (of_char c :: nat) < 128) (sha s))"

definition rl_sim :: "(string \<Rightarrow> string) \<Rightarrow> entry list \<Rightarrow> rl_log \<Rightarrow> rl_spec \<Rightarrow> bool" where
  "rl_sim sha es s sp \<longleftrightarrow> rl_chain sha EMPTY_SHA256 es \<and> map entry_call es = fst sp \<and>
     rl_file s = (if es = [] then None else Some (concat (rl_lines es))) \<and>
     (\<forall>ix. rl_by_key s = Some ix \<longrightarrow> (\<forall>k. bucket_of ix k = filter (\<lambda>e. fst (entry_call e) = k) es)) \<and>
     (\<forall>k. (case dict_get (rl_cursors s) k of None \<Rightarrow> 0 | Some n \<Rightarrow> n) = snd sp k)"

lemma sim_lines: "rl_sim sha es s sp \<Longrightarrow> stripped_lines (rl_file s) = map (\<lambda>e. dumps_ascii (JObj e)) es"
  by (cases "es = []") (simp_all add: rl_sim_def stripped_log del: dumps_ascii.simps, simp add: stripped_lines_def)

lemma head_ascii:
  "ascii_hash sha \<Longrightarrow> ascii_text (JStr prev) = Some prev \<Longrightarrow> ascii_text (JStr (rl_head sha prev es)) = Some (rl_head sha prev es)"
proof (induction es arbitrary: prev)
  case (Cons e es)
  have "ascii_text (JStr (record_hash sha prev (record_payload e))) = Some (record_hash sha prev (record_payload e))"
    using Cons.prems(1) by (simp add: ascii_hash_def record_hash_def)
  then show ?case using Cons by simp
qed simp

lemma sim_record:
  assumes "rl_reads loads" "ascii_hash sha" "rl_sim sha es s sp" "wf_call c"
  shows "fst (rl_step sha loads s (RlRecord c)) = fst (spec_step sha sp (RlRecord c)) \<and>
    (\<exists>es'. rl_sim sha es' (snd (rl_step sha loads s (RlRecord c))) (snd (spec_step sha sp (RlRecord c))))"
proof -
  let ?p = "rl_head sha EMPTY_SHA256 es"
  have chain: "rl_chain sha EMPTY_SHA256 es" using assms(3) by (simp add: rl_sim_def)
  have last: "last_hash loads (rl_file s) = Inr (JStr ?p)"
    unfolding last_hash_def sim_lines [OF assms(3)] by (rule last_hash_chain [OF assms(1) chain])
  have asc: "ascii_text (JStr ?p) = Some ?p" by (rule head_ascii [OF assms(2)]) (simp add: EMPTY_SHA256_def)
  consider (float) e where "canon_args [] (PDict (cr_args c)) = Inl e"
    | (key) canon e where "canon_args [] (PDict (cr_args c)) = Inr canon" "canonical_key sha (cr_tool c) (cr_args c) (cr_fields c) = Inl e"
    | (written) canon k where "canon_args [] (PDict (cr_args c)) = Inr canon" "canonical_key sha (cr_tool c) (cr_args c) (cr_fields c) = Inr k"
    by (meson sum.exhaust)
  then show ?thesis
  proof cases
    case float
    then show ?thesis using assms(3) last by (cases sp) (auto simp: rl_step_def spec_step_def record_call_def)
  next
    case key
    then show ?thesis using assms(3) last by (cases sp) (auto simp: rl_step_def spec_step_def record_call_def)
  next
    case written
    let ?e = "stored_call sha (next_seq (rl_file s)) c canon k ?p"
    note st = stored_call_recorded [OF assms(4) written(1), where sha = sha and prev = ?p and seq = "next_seq (rl_file s)" and ck = k]
    have ft: "(case rl_file s of None \<Rightarrow> [] | Some t \<Rightarrow> t) = concat (rl_lines es)"
      using assms(3) by (cases "es = []") (simp_all add: rl_sim_def rl_lines_def)
    have r: "snd (record_call sha loads c s) = s\<lparr>rl_file := Some (concat (rl_lines (es @ [?e]))), rl_by_key := None\<rparr>"
      "\<exists>x. fst (record_call sha loads c s) = Inr x"
      using last written asc ft by (simp_all add: record_call_def Let_def dumps_record rl_lines_def del: dumps_ascii.simps ascii_text.simps)
    have "rl_sim sha (es @ [?e]) (snd (record_call sha loads c s)) (fst sp @ [(k, sort_json (cr_result c))], snd sp)"
      using assms(3) st unfolding r(1) rl_sim_def by (simp add: rl_chain_snoc)
    then show ?thesis using r(2) written by (cases sp) (auto simp: rl_step_def spec_step_def)
  qed
qed

lemma sim_replay:
  assumes "rl_reads loads" "rl_sim sha es s sp"
  shows "fst (rl_step sha loads s (RlReplay tool a fs)) = fst (spec_step sha sp (RlReplay tool a fs)) \<and>
    (\<exists>es'. rl_sim sha es' (snd (rl_step sha loads s (RlReplay tool a fs))) (snd (spec_step sha sp (RlReplay tool a fs))))"
proof -
  obtain calls taken where sp: "sp = (calls, taken)" by fastforce
  have chain: "rl_chain sha EMPTY_SHA256 es" using assms(2) by (simp add: rl_sim_def)
  obtain ix where ix: "index_lines loads (map (\<lambda>e. dumps_ascii (JObj e)) es) [] = Inr ix" "\<forall>k. bucket_of ix k = filter (\<lambda>e. fst (entry_call e) = k) es"
    using index_chain [OF assms(1) chain, of "[]"] by (auto simp: bucket_of_def)
  obtain s' where s': "load_index loads s = Inr s'" "rl_sim sha es s' sp" "\<exists>ix. rl_by_key s' = Some ix"
  proof (cases "rl_by_key s")
    case None
    then show ?thesis using that [of "s\<lparr>rl_by_key := Some ix\<rparr>"] assms(2) ix sim_lines [OF assms(2)]
      by (simp add: load_index_def rl_sim_def del: dumps_ascii.simps)
  next
    case (Some ix)
    then show ?thesis using that [of s] assms(2) by (simp add: load_index_def)
  qed
  then obtain ix' where ix': "rl_by_key s' = Some ix'" by blast
  show ?thesis
  proof (cases "canonical_key sha tool a fs")
    case (Inl e)
    then show ?thesis using s' by (auto simp: rl_step_def spec_step_def replay_call_def sp)
  next
    case (Inr k)
    have b: "bucket_of ix' k = filter (\<lambda>e. fst (entry_call e) = k) es" using s'(2) ix' by (simp add: rl_sim_def)
    have results: "map snd (filter (\<lambda>(j, r). j = k) calls) = map (\<lambda>e. snd (entry_call e)) (bucket_of ix' k)"
      using assms(2) sp unfolding b by (auto simp: rl_sim_def filter_map o_def case_prod_beta)
    have spec: "spec_step sha sp (RlReplay tool a fs) =
      (let rs = map (\<lambda>e. snd (entry_call e)) (bucket_of ix' k) in
       if taken k < length rs then (Inr (OutResult (rs ! taken k)), calls, taken(k := Suc (taken k)))
       else (Inl (ReplayMissed k (taken k) (length rs)), sp))"
      unfolding spec_step_def sp by (simp only: prod.case rl_op.case Inr sum.case results Let_def)
    have c: "(case dict_get (rl_cursors s') j of None \<Rightarrow> 0 | Some n \<Rightarrow> n) = taken j" for j using s'(2) sp by (simp add: rl_sim_def)
    show ?thesis
    proof (cases "taken k < length (bucket_of ix' k)")
      case True
      let ?e = "bucket_of ix' k ! taken k"
      have "?e \<in> set es" using nth_mem [OF True] unfolding b by simp
      then have res: "dict_get ?e ''result'' = Some (snd (entry_call ?e))" using rl_chain_in [OF chain, of ?e] unfolding well_recorded_def by blast
      have "replay_call sha loads tool a fs s = (Inr (snd (entry_call ?e)), s'\<lparr>rl_cursors := dict_set k (taken k + 1) (rl_cursors s')\<rparr>)"
        using True res c [of k] s'(1) Inr ix' by (simp add: replay_call_def Let_def bucket_of_def)
      moreover have "rl_sim sha es (s'\<lparr>rl_cursors := dict_set k (taken k + 1) (rl_cursors s')\<rparr>) (calls, taken(k := Suc (taken k)))"
        using s'(2) sp by (simp add: rl_sim_def)
      ultimately show ?thesis using True by (auto simp: rl_step_def spec Let_def)
    next
      case False
      have "replay_call sha loads tool a fs s = (Inl (ReplayMissed k (taken k) (length (bucket_of ix' k))), s')"
        using False c [of k] s'(1) Inr ix' by (simp add: replay_call_def Let_def bucket_of_def)
      then show ?thesis using False s'(2) by (auto simp: rl_step_def spec Let_def)
    qed
  qed
qed

fun wf_op :: "rl_op \<Rightarrow> bool" where
  "wf_op (RlRecord c) = wf_call c"
| "wf_op _ = True"

lemma sim_verify: "rl_reads loads \<Longrightarrow> rl_sim sha es s sp \<Longrightarrow> rl_verify sha loads (rl_file s) = Inr (length (fst sp), True, JNull)"
  using verify_chain [of loads sha EMPTY_SHA256 es 0]
  by (cases "es = []") (auto simp: rl_sim_def rl_verify_def text_lines_rl dest: arg_cong [where f = length])

lemma sim_step:
  assumes "rl_reads loads" "ascii_hash sha" "rl_sim sha es s sp" "wf_op op"
  shows "fst (rl_step sha loads s op) = fst (spec_step sha sp op) \<and>
    (\<exists>es'. rl_sim sha es' (snd (rl_step sha loads s op)) (snd (spec_step sha sp op)))"
proof (cases op)
  case (RlRecord c)
  then show ?thesis using sim_record [OF assms(1,2,3)] assms(4) by simp
next
  case (RlReplay tool a fs)
  then show ?thesis using sim_replay [OF assms(1,3)] by simp
next
  case RlReset
  then show ?thesis using assms(3) by (cases sp) (auto simp: rl_step_def spec_step_def reset_cursors_def rl_sim_def)
next
  case RlVerify
  then show ?thesis using sim_verify [OF assms(1,3)] assms(3) by (cases sp) (auto simp: rl_step_def spec_step_def)
qed

lemma sim_run:
  assumes "rl_reads loads" "ascii_hash sha"
  shows "rl_sim sha es s sp \<Longrightarrow> list_all wf_op ops \<Longrightarrow> fst (run (rl_step sha loads) s ops) = fst (run (spec_step sha) sp ops)"
proof (induction ops arbitrary: es s sp)
  case (Cons op ops)
  have w: "wf_op op" "list_all wf_op ops" using Cons.prems(2) by simp_all
  obtain es' where st: "fst (rl_step sha loads s op) = fst (spec_step sha sp op)"
    "rl_sim sha es' (snd (rl_step sha loads s op)) (snd (spec_step sha sp op))"
    using sim_step [OF assms Cons.prems(1) w(1)] by blast
  show ?case using Cons.IH [OF st(2) w(2)] st(1) by (simp add: case_prod_beta)
qed simp

lemma rl_key_text_inject: "rl_key_text t c = rl_key_text t' c' \<Longrightarrow> t = t' \<and> sort_json c = sort_json c'"
proof -
  assume "rl_key_text t c = rl_key_text t' c'"
  then have "sort_json (JObj [(''tool'', JStr t), (''args'', c)]) = sort_json (JObj [(''tool'', JStr t'), (''args'', c')])"
    by (simp only: rl_key_text_def dumps_ascii_sorted_def dumps_ascii_inject)
  then show "t = t' \<and> sort_json c = sort_json c'" by (simp add: less_list_code)
qed

lemma canonical_key_shared:
  assumes "canonical_key sha tool a fs = Inr k" "canon_args [] (PDict (rl_identity_args a fs)) = Inr canon"
    "canonical_key sha tool' a' fs' = Inr k" "canon_args [] (PDict (rl_identity_args a' fs')) = Inr canon'"
  shows "tool = tool' \<and> sort_json canon = sort_json canon' \<or>
      rl_key_text tool canon \<noteq> rl_key_text tool' canon' \<and> sha (rl_key_text tool canon) = sha (rl_key_text tool' canon')"
proof (cases "rl_key_text tool canon = rl_key_text tool' canon'")
  case True
  then show ?thesis using rl_key_text_inject by blast
next
  case False
  moreover have "sha (rl_key_text tool canon) = sha (rl_key_text tool' canon')"
    using assms by (simp add: canonical_key_def del: canon_args.simps)
  ultimately show ?thesis by blast
qed

section \<open>Properties\<close>

text \<open>C6. Every session of recordings, replays, resets and verifications of a new log answers like the specification,
  in which the results are kept in order under the keys of their calls: a replay returns the first result recorded
  under its key that was not taken since the last reset, raises \<open>ReplayMiss\<close> when there is none, and verification
  always accepts all records; and calls share a key only when tool and canonical identity arguments are the same
  or SHA-256 maps the two different texts it was given for them to the same hash.\<close>

theorem replay_log_refines:
  assumes "rl_reads loads" "ascii_hash sha" "list_all wf_op ops"
  shows "fst (run (rl_step sha loads) (new_rl_log None) ops) = fst (run (spec_step sha) ([], \<lambda>k. 0) ops) \<and>
    (\<forall>tool a fs tool' a' fs' k canon canon'.
      canonical_key sha tool a fs = Inr k \<and> canon_args [] (PDict (rl_identity_args a fs)) = Inr canon \<and>
      canonical_key sha tool' a' fs' = Inr k \<and> canon_args [] (PDict (rl_identity_args a' fs')) = Inr canon' \<longrightarrow>
      tool = tool' \<and> sort_json canon = sort_json canon' \<or>
      rl_key_text tool canon \<noteq> rl_key_text tool' canon' \<and> sha (rl_key_text tool canon) = sha (rl_key_text tool' canon'))"
proof -
  have "rl_sim sha [] (new_rl_log None) ([], \<lambda>k. 0)" by (simp add: rl_sim_def new_rl_log_def)
  from sim_run [OF assms(1,2) this assms(3)] show ?thesis using canonical_key_shared by blast
qed

text \<open>A decoder for the texts the log writes.\<close>

definition decode_ascii :: "string \<Rightarrow> json option" where
  "decode_ascii s = decode (unascii s)"

lemma decode_ascii_reads: "rl_reads decode_ascii"
proof -
  have "decode (unascii (dumps_ascii v)) = Some v" if "unique_keys v" for v
    using decode_reads_json that unascii_dumps(1) [of v "[]"] by (simp add: reads_json_def)
  then show ?thesis by (simp add: rl_reads_def decode_ascii_def)
qed

definition demo_call_record :: "int \<Rightarrow> call_record" where
  "demo_call_record r = \<lparr>cr_tool = ''t'', cr_args = [(''b'', PInt 1), (''a'', PList [PNone])], cr_result = JInt r, cr_status = ''ok'',
     cr_started_at = JInt 0, cr_finished_at = JInt 1, cr_attempt_id = ''x'', cr_fields = None\<rparr>"

definition demo_rl_ops :: "rl_op list" where
  "demo_rl_ops =
     [RlRecord (demo_call_record 7), RlRecord (demo_call_record 8), RlReplay ''t'' [(''a'', PList [PNone]), (''b'', PInt 1)] None, RlVerify,
      RlReplay ''t'' [(''b'', PInt 1), (''a'', PList [PNone])] None, RlReplay ''t'' [(''b'', PInt 1), (''a'', PList [PNone])] None]"

theorem replay_log_refines_witness:
  "fst (run (rl_step (\<lambda>x. ''h'') decode_ascii) (new_rl_log None) demo_rl_ops) =
     [Inr OutRecorded, Inr OutRecorded, Inr (OutResult (JInt 7)), Inr (OutVerified 2 True JNull), Inr (OutResult (JInt 8)),
      Inl (ReplayMissed ''h'' 2 2)]"
proof -
  have w: "list_all wf_op demo_rl_ops" by (simp add: demo_rl_ops_def demo_call_record_def wf_call_def)
  have h: "ascii_hash (\<lambda>x. ''h'')" by (simp add: ascii_hash_def)
  show ?thesis
    unfolding replay_log_refines [OF decode_ascii_reads h w, THEN conjunct1]
    by (simp add: demo_rl_ops_def demo_call_record_def spec_step_def canonical_key_def rl_identity_args_def less_list_code)
qed

section \<open>What the documentation says otherwise\<close>

text \<open>A log cut at the end of a record verifies: deleting the last records is not detected.\<close>

lemma truncation_not_detected:
  assumes "rl_reads loads" "rl_chain sha EMPTY_SHA256 (es @ deleted)"
  shows "rl_verify sha loads (Some (concat (rl_lines es))) = Inr (length es, True, JNull)"
proof -
  have "rl_chain sha prev (es @ deleted) \<Longrightarrow> rl_chain sha prev es" for prev by (induction es arbitrary: prev) auto
  then show ?thesis using verify_chain [OF assms(1), of sha EMPTY_SHA256 es 0] assms(2) by (simp add: rl_verify_def text_lines_rl)
qed

text \<open>A torn trailing line is neither truncated nor reported by \<open>verify\<close>, and no call can be recorded any more.\<close>

lemma torn_line_blocks_recording:
  assumes "loads ''{x'' = None"
  shows "rl_verify sha loads (Some ''{x'') = Inr (0, True, JNull)" "fst (record_call sha loads c (new_rl_log (Some ''{x''))) = Inl RlDecode"
proof -
  have t: "text_lines ''{x'' = [''{x'']" "rstrip_nl ''{x'' = ''{x''" "py_strip ''{x'' = ''{x''"
    by (simp_all add: text_lines_def rstrip_nl_def py_strip_def py_space_def)
  then show "rl_verify sha loads (Some ''{x'') = Inr (0, True, JNull)" using assms by (simp add: rl_verify_def Let_def)
  show "fst (record_call sha loads c (new_rl_log (Some ''{x''))) = Inl RlDecode"
    using assms t by (simp add: record_call_def last_hash_def stripped_lines_def new_rl_log_def)
qed

text \<open>A float in an argument that is not an identity argument makes \<open>record_call\<close> raise; the key does not.\<close>

lemma volatile_float_rejected:
  assumes "cr_args c = [(''now'', PFloat x)]" "cr_fields c = Some []"
  shows "fst (record_call sha loads c (new_rl_log None)) = Inl (RlCanon (FloatNotAllowed ''/now''))"
    "\<exists>k. canonical_key sha (cr_tool c) (cr_args c) (cr_fields c) = Inr k"
  using assms by (simp_all add: record_call_def last_hash_def stripped_lines_def new_rl_log_def canonical_key_def rl_identity_args_def)

text \<open>Two appenders that read the file before either writes give their records the same previous hash, and the log
  does not verify.\<close>

lemma concurrent_appends_break_chain:
  assumes "rl_reads loads" "well_recorded sha EMPTY_SHA256 e" "well_recorded sha EMPTY_SHA256 e'"
    "record_hash sha EMPTY_SHA256 (record_payload e) \<noteq> EMPTY_SHA256"
  shows "rl_verify sha loads (Some (concat (rl_lines [e, e']))) = Inr (1, False, entry_get e' ''seq'')"
proof -
  have "dumps_ascii (JObj d) \<noteq> []" for d by simp
  then show ?thesis
    using assms loads_recorded [OF assms(1,2)] loads_recorded [OF assms(1,3)]
    unfolding rl_verify_def option.case text_lines_rl
    by (simp add: rl_lines_def rl_object_line entry_get_def well_recorded_def Let_def del: dumps_ascii.simps)
qed

end
