(* ===== verification/Weighted_Router.thy ===== *)
theory Weighted_Router
  imports Prelude "HOL-Library.List_Lexorder" "HOL-Library.Char_ord"
begin

text \<open>
  The weighted rendezvous router (\<open>weighted-model-router/router.py\<close>).  The 64-bit hash of a key and a
  backend (BLAKE2b) and the natural logarithm are parameters.  The theorems state what rendezvous
  hashing is used for: which backends an edit of the configuration can move a key between.
\<close>

section \<open>Backends\<close>

record backend =
  be_name :: string
  be_weight :: rat

datatype router_error = WeightNotPositive string rat | DuplicateBackend string | NoBackends | NoEligibleBackend nat string

definition new_backend :: "string \<Rightarrow> rat \<Rightarrow> router_error + backend" where
  "new_backend name weight =
     (if weight \<le> 0 then Inl (WeightNotPositive name weight) else Inr \<lparr>be_name = name, be_weight = weight\<rparr>)"

fun duplicate_backend :: "backend list \<Rightarrow> string list \<Rightarrow> string option" where
  "duplicate_backend [] seen = None"
| "duplicate_backend (b # bs) seen =
     (if be_name b \<in> set seen then Some (be_name b) else duplicate_backend bs (be_name b # seen))"

definition new_router :: "backend list \<Rightarrow> router_error + backend list" where
  "new_router bs =
     (case duplicate_backend bs [] of
        Some n \<Rightarrow> Inl (DuplicateBackend n)
      | None \<Rightarrow> if bs = [] then Inl NoBackends else Inr bs)"

section \<open>Scores\<close>

record route_lib =
  hash64 :: "string \<Rightarrow> nat"
  math_log :: "rat \<Rightarrow> rat"

definition uniform_hash :: "route_lib \<Rightarrow> string \<Rightarrow> string \<Rightarrow> rat" where
  "uniform_hash lib route_key backend_name =
     (let n = hash64 lib (route_key @ [CHR 0x00] @ backend_name); u = of_nat (n + 1) / of_nat (2 ^ 64) in
      if u \<ge> 1 then 1 - 1 / 2 ^ 53 else u)"

definition backend_score :: "route_lib \<Rightarrow> string \<Rightarrow> backend \<Rightarrow> rat" where
  "backend_score lib route_key b = be_weight b / - math_log lib (uniform_hash lib route_key (be_name b))"

definition better_backend :: "route_lib \<Rightarrow> string \<Rightarrow> backend \<Rightarrow> (rat \<times> string) option \<Rightarrow> (rat \<times> string) option" where
  "better_backend lib route_key b best =
     (let score = backend_score lib route_key b in
      case best of
        None \<Rightarrow> Some (score, be_name b)
      | Some (s, n) \<Rightarrow>
          if score > s then Some (score, be_name b)
          else if score = s \<and> be_name b < n then Some (score, be_name b)
          else Some (s, n))"

record route_result =
  rr_backend :: string
  rr_score :: rat
  rr_considered :: nat
  rr_excluded :: "string list"

definition route_request :: "route_lib \<Rightarrow> backend list \<Rightarrow> string \<Rightarrow> string list \<Rightarrow> router_error + route_result" where
  "route_request lib backends route_key exclude =
     (let candidates = filter (\<lambda>b. be_name b \<notin> set exclude) backends in
      if candidates = [] then Inl (NoEligibleBackend (length backends) route_key)
      else
        (let best = the (fold (better_backend lib route_key) candidates None) in
         Inr \<lparr>rr_backend = snd best, rr_score = fst best, rr_considered = length candidates, rr_excluded = sort (remdups exclude)\<rparr>))"

section \<open>The winner\<close>

text \<open>\<open>a\<close> is at least as good as \<open>b\<close>: a higher score, or the same and a smaller name.\<close>

definition beats :: "route_lib \<Rightarrow> string \<Rightarrow> backend \<Rightarrow> backend \<Rightarrow> bool" where
  "beats lib k a b \<longleftrightarrow>
     backend_score lib k a > backend_score lib k b \<or> backend_score lib k a = backend_score lib k b \<and> be_name a \<le> be_name b"

lemma beats_refl: "beats lib k a a"
  by (simp add: beats_def)

lemma beats_trans: "beats lib k a b \<Longrightarrow> beats lib k b c \<Longrightarrow> beats lib k a c"
  by (auto simp: beats_def)

lemma beats_total: "beats lib k a b \<or> beats lib k b a"
  by (auto simp: beats_def)

lemma beats_antisym: "beats lib k a b \<Longrightarrow> beats lib k b a \<Longrightarrow> be_name a = be_name b"
  by (auto simp: beats_def)

lemma better_beats:
  "better_backend lib k b (Some (backend_score lib k a, be_name a)) =
    (if beats lib k a b then Some (backend_score lib k a, be_name a) else Some (backend_score lib k b, be_name b))"
  by (auto simp: better_backend_def beats_def Let_def)

lemma fold_better:
  "\<exists>w\<in>insert a (set bs). fold (better_backend lib k) bs (Some (backend_score lib k a, be_name a)) = Some (backend_score lib k w, be_name w) \<and>
     (\<forall>b\<in>insert a (set bs). beats lib k w b)"
proof (induction bs arbitrary: a)
  case (Cons b bs)
  let ?c = "if beats lib k a b then a else b"
  obtain w where w: "w \<in> insert ?c (set bs)" "\<forall>x\<in>insert ?c (set bs). beats lib k w x"
    "fold (better_backend lib k) bs (Some (backend_score lib k ?c, be_name ?c)) = Some (backend_score lib k w, be_name w)"
    using Cons.IH [of ?c] by blast
  have "beats lib k ?c a" "beats lib k ?c b" using beats_refl [of lib k a] beats_refl [of lib k b] beats_total [of lib k a b] by auto
  then have "\<forall>x\<in>insert a (set (b # bs)). beats lib k w x" using w(2) beats_trans by (metis insert_iff list.simps(15))
  moreover have "fold (better_backend lib k) (b # bs) (Some (backend_score lib k a, be_name a)) = Some (backend_score lib k w, be_name w)"
    using w(3) by (cases "beats lib k a b") (simp_all add: better_beats)
  moreover have "w \<in> insert a (set (b # bs))" using w(1) by (auto split: if_splits)
  ultimately show ?case by blast
qed (simp add: beats_refl)

lemma route_request_winner:
  assumes "route_request lib bs k ex = Inr r"
  shows "\<exists>w\<in>set bs. be_name w = rr_backend r \<and> be_name w \<notin> set ex \<and> (\<forall>b\<in>set bs. be_name b \<notin> set ex \<longrightarrow> beats lib k w b)"
proof -
  let ?c = "filter (\<lambda>b. be_name b \<notin> set ex) bs"
  have ne: "?c \<noteq> []" and r: "rr_backend r = snd (the (fold (better_backend lib k) ?c None))"
    using assms by (auto simp: route_request_def Let_def split: if_splits)
  obtain a cs where c: "?c = a # cs" using ne by (cases ?c) auto
  obtain w where w: "w \<in> insert a (set cs)" "\<forall>b\<in>insert a (set cs). beats lib k w b"
    "fold (better_backend lib k) cs (Some (backend_score lib k a, be_name a)) = Some (backend_score lib k w, be_name w)"
    using fold_better [of a cs lib k] by blast
  have "fold (better_backend lib k) ?c None = Some (backend_score lib k w, be_name w)"
    using w(3) by (simp add: c better_backend_def Let_def)
  moreover have "insert a (set cs) = set ?c" by (simp add: c)
  ultimately show ?thesis using w(1,2) r by auto
qed

lemma new_router_distinct: "new_router bs = Inr bs' \<Longrightarrow> bs' = bs \<and> bs \<noteq> [] \<and> distinct (map be_name bs)"
proof -
  have "duplicate_backend bs seen = None \<Longrightarrow> distinct (map be_name bs) \<and> set (map be_name bs) \<inter> set seen = {}" for seen
  proof (induction bs arbitrary: seen)
    case (Cons b bs)
    then have "be_name b \<notin> set seen" "duplicate_backend bs (be_name b # seen) = None" by (auto split: if_splits)
    then show ?case using Cons.IH [of "be_name b # seen"] by auto
  qed simp
  from this [of "[]"] show "new_router bs = Inr bs' \<Longrightarrow> bs' = bs \<and> bs \<noteq> [] \<and> distinct (map be_name bs)"
    by (auto simp: new_router_def split: option.splits if_splits)
qed

text \<open>The eligible backends of a configuration.\<close>

definition eligible :: "backend list \<Rightarrow> string list \<Rightarrow> backend set" where
  "eligible bs ex = {b \<in> set bs. be_name b \<notin> set ex}"

lemma route_request_eligible:
  assumes "distinct (map be_name bs)" "route_request lib bs k ex = Inr r"
  shows "w \<in> eligible bs ex \<and> (\<forall>b\<in>eligible bs ex. beats lib k w b) \<longleftrightarrow> w \<in> eligible bs ex \<and> be_name w = rr_backend r"
proof -
  obtain v where v: "v \<in> eligible bs ex" "be_name v = rr_backend r" "\<forall>b\<in>eligible bs ex. beats lib k v b"
    using route_request_winner [OF assms(2)] by (auto simp: eligible_def)
  have inj: "a = b" if "a \<in> eligible bs ex" "b \<in> eligible bs ex" "be_name a = be_name b" for a b
    using that assms(1) by (auto simp: eligible_def distinct_map dest: inj_onD)
  show ?thesis using v inj beats_antisym by metis
qed

lemma route_request_defined: "(\<exists>r. route_request lib bs k ex = Inr r) \<longleftrightarrow> eligible bs ex \<noteq> {}"
  by (auto simp: route_request_def eligible_def filter_empty_conv Let_def)

section \<open>Properties\<close>

text \<open>\<open>math.log\<close> is negative between 0 and 1.\<close>

definition log_negative :: "route_lib \<Rightarrow> bool" where
  "log_negative lib \<longleftrightarrow> (\<forall>u. 0 < u \<and> u < 1 \<longrightarrow> math_log lib u < 0)"

lemma uniform_hash_range: "0 < uniform_hash lib k n \<and> uniform_hash lib k n < 1"
  by (auto simp: uniform_hash_def Let_def)

lemma score_mono:
  assumes "log_negative lib" "be_name b = be_name b'" "be_weight b \<le> be_weight b'"
  shows "backend_score lib k b \<le> backend_score lib k b'"
proof -
  have "0 < - math_log lib (uniform_hash lib k (be_name b'))" using assms(1) uniform_hash_range by (simp add: log_negative_def)
  then show ?thesis unfolding backend_score_def assms(2) by (intro divide_right_mono assms(3)) simp
qed

text \<open>C14. Rendezvous routing moves as little as possible.  A key goes to an eligible backend whatever the order of the
  backends; between any two configurations a key moves only when its old backend was removed, excluded or
  reweighted or its new backend was added, readmitted or reweighted; and raising the weight of one backend moves
  keys to that backend only.\<close>

theorem rerouting_is_minimal:
  assumes "new_router bs = Inr bs" "new_router bs' = Inr bs'" "log_negative lib"
    "route_request lib bs k ex = Inr r" "route_request lib bs' k ex' = Inr r'"
  shows "(\<exists>w\<in>eligible bs ex. be_name w = rr_backend r) \<and>
    (rr_backend r' = rr_backend r \<or> (\<exists>w\<in>eligible bs ex - eligible bs' ex'. be_name w = rr_backend r) \<or>
      (\<exists>w\<in>eligible bs' ex' - eligible bs ex. be_name w = rr_backend r')) \<and>
    (\<forall>b b'. b \<in> eligible bs ex \<and> eligible bs' ex' = insert b' (eligible bs ex - {b}) \<and> be_name b' = be_name b \<and>
        be_weight b \<le> be_weight b' \<longrightarrow>
      rr_backend r' = rr_backend r \<or> rr_backend r' = be_name b)"
proof -
  have d: "distinct (map be_name bs)" "distinct (map be_name bs')" using new_router_distinct assms(1,2) by blast+
  obtain w where w: "w \<in> eligible bs ex" "be_name w = rr_backend r" "\<forall>b\<in>eligible bs ex. beats lib k w b"
    using route_request_winner [OF assms(4)] by (auto simp: eligible_def)
  obtain w' where w': "w' \<in> eligible bs' ex'" "be_name w' = rr_backend r'" "\<forall>b\<in>eligible bs' ex'. beats lib k w' b"
    using route_request_winner [OF assms(5)] by (auto simp: eligible_def)
  have same: "rr_backend r' = rr_backend r" if "w \<in> eligible bs' ex'" "w' \<in> eligible bs ex"
    using w w' that beats_antisym by metis
  have "rr_backend r' = rr_backend r \<or> rr_backend r' = be_name b"
    if b: "b \<in> eligible bs ex" "eligible bs' ex' = insert b' (eligible bs ex - {b})" "be_name b' = be_name b" "be_weight b \<le> be_weight b'" for b b'
  proof (cases "w = b")
    case True
    have "backend_score lib k b \<le> backend_score lib k b'" using score_mono assms(3) b(3,4) by metis
    moreover have "w' \<noteq> b' \<Longrightarrow> beats lib k b w'" using w(3) w'(1) b(2) True by auto
    moreover have "beats lib k w' b'" using w'(3) b(2) by auto
    ultimately have "w' \<noteq> b' \<Longrightarrow> be_name w' = be_name b" using b(3) by (auto simp: beats_def)
    then show ?thesis using w'(2) b(3) by metis
  next
    case False
    then show ?thesis using same w w' b by auto
  qed
  then show ?thesis using same w w' by blast
qed

definition demo_route_lib :: route_lib where
  "demo_route_lib = \<lparr>hash64 = length, math_log = (\<lambda>u. - 1)\<rparr>"

definition demo_backends :: "rat \<Rightarrow> backend list" where
  "demo_backends x = [\<lparr>be_name = ''a'', be_weight = 2\<rparr>, \<lparr>be_name = ''b'', be_weight = x\<rparr>, \<lparr>be_name = ''c'', be_weight = 1\<rparr>]"

text \<open>Doubling the weight of \<open>b\<close> takes the key from \<open>a\<close>; excluding \<open>c\<close> changes nothing.\<close>

theorem rerouting_is_minimal_witness:
  "\<exists>r r'. route_request demo_route_lib (demo_backends 2) ''k'' [] = Inr r \<and> rr_backend r = ''a'' \<and>
     route_request demo_route_lib (demo_backends 4) ''k'' [] = Inr r' \<and> (rr_backend r' = ''a'' \<or> rr_backend r' = ''b'')"
proof -
  have n: "new_router (demo_backends x) = Inr (demo_backends x)" for x by (simp add: new_router_def demo_backends_def)
  have l: "log_negative demo_route_lib" by (simp add: log_negative_def demo_route_lib_def)
  obtain r where r: "route_request demo_route_lib (demo_backends 2) ''k'' [] = Inr r" "rr_backend r = ''a''"
    by (simp add: route_request_def demo_backends_def better_backend_def backend_score_def demo_route_lib_def Let_def)
  obtain r' where r': "route_request demo_route_lib (demo_backends 4) ''k'' [] = Inr r'"
    by (simp add: route_request_def demo_backends_def Let_def)
  have "eligible (demo_backends 4) [] = insert \<lparr>be_name = ''b'', be_weight = 4\<rparr> (eligible (demo_backends 2) [] - {\<lparr>be_name = ''b'', be_weight = 2\<rparr>})"
    by (auto simp: eligible_def demo_backends_def)
  moreover have "\<lparr>be_name = ''b'', be_weight = 2\<rparr> \<in> eligible (demo_backends 2) []" by (simp add: eligible_def demo_backends_def)
  ultimately have "rr_backend r' = rr_backend r \<or> rr_backend r' = ''b''"
    using rerouting_is_minimal [OF n n l r(1) r', THEN conjunct2, THEN conjunct2, rule_format,
        of "\<lparr>be_name = ''b'', be_weight = 2\<rparr>" "\<lparr>be_name = ''b'', be_weight = 4\<rparr>"] by simp
  then show ?thesis using r r' by metis
qed

end
