(* ===== verification/Tail_Recovery.thy ===== *)
theory Tail_Recovery
  imports Prelude
begin

text \<open>
  Recovery of a truncated JSON text (\<open>partial-json-tail-recovery/recovery.py\<close>): the scanner, the patch and
  the classification of the keys.  \<open>json.loads\<close> is a parameter, on documents, on string literals and on bare
  tokens; a document shows its top-level keys when it is an object.  The four parallel stacks have their top
  at the head.
\<close>

section \<open>The scanner's state\<close>

datatype json_phase = ExpectKey | InKey | ExpectColon | ExpectValue | InValue | AfterValue

record scan_state =
  sc_stack :: string
  in_string :: bool
  string_quote_pos :: nat
  escape_next :: bool
  last_safe_cut :: nat
  phase_stack :: "json_phase list"
  keys_stack :: "string list list"
  pending_key_stack :: "string option list"
  top_committed_keys :: "string list"

definition new_scan :: scan_state where
  "new_scan = \<lparr>sc_stack = [], in_string = False, string_quote_pos = 0, escape_next = False, last_safe_cut = 0, phase_stack = [],
     keys_stack = [], pending_key_stack = [], top_committed_keys = []\<rparr>"

record 'v loads_lib =
  loads_doc :: "string \<Rightarrow> 'v option"
  doc_keys :: "'v \<Rightarrow> string list option"
  loads_str :: "string \<Rightarrow> string option"

datatype recover_error = PopFromEmptyList

fun set_top :: "'a \<Rightarrow> 'a list \<Rightarrow> 'a list" where
  "set_top x [] = []"
| "set_top x (y # ys) = x # ys"

text \<open>Commit the pending key of the innermost object.\<close>

definition commit_pending :: "scan_state \<Rightarrow> scan_state" where
  "commit_pending s =
     (case sc_stack s of
        [] \<Rightarrow> s
      | c # _ \<Rightarrow>
          if c = CHR ''{'' then
            (case pending_key_stack s of
               Some k # pks \<Rightarrow> s\<lparr>keys_stack := set_top (hd (keys_stack s) @ [k]) (keys_stack s), pending_key_stack := None # pks\<rparr>
             | _ \<Rightarrow> s)
          else s)"

definition open_bracket :: "char \<Rightarrow> json_phase \<Rightarrow> scan_state \<Rightarrow> scan_state" where
  "open_bracket c ph s =
     s\<lparr>sc_stack := c # sc_stack s, phase_stack := ph # phase_stack s, keys_stack := [] # keys_stack s, pending_key_stack := None # pending_key_stack s\<rparr>"

definition close_top :: "scan_state \<Rightarrow> recover_error + scan_state" where
  "close_top s =
     (case sc_stack s of
        [] \<Rightarrow> Inl PopFromEmptyList
      | opener # rest \<Rightarrow>
          (let committed = hd (keys_stack s);
               s = s\<lparr>sc_stack := rest, phase_stack := tl (phase_stack s), keys_stack := tl (keys_stack s), pending_key_stack := tl (pending_key_stack s)\<rparr>;
               s = (if rest = [] \<and> opener = CHR ''{'' then s\<lparr>top_committed_keys := committed\<rparr> else s);
               s = (if phase_stack s \<noteq> [] then commit_pending (s\<lparr>phase_stack := set_top AfterValue (phase_stack s)\<rparr>) else s) in
           Inr s))"

section \<open>One character\<close>

definition slice :: "nat \<Rightarrow> nat \<Rightarrow> 'a list \<Rightarrow> 'a list" where
  "slice i j xs = drop i (take j xs)"

definition top_phase :: "scan_state \<Rightarrow> json_phase option" where
  "top_phase s = (case phase_stack s of [] \<Rightarrow> None | p # _ \<Rightarrow> Some p)"

definition string_step :: "'v loads_lib \<Rightarrow> string \<Rightarrow> nat \<Rightarrow> scan_state \<Rightarrow> scan_state" where
  "string_step lib txt' i s =
     (if escape_next s then s\<lparr>escape_next := False\<rparr>
      else if txt' ! i = CHR 0x5C then s\<lparr>escape_next := True\<rparr>
      else if txt' ! i = CHR 0x22 then
        (let s = s\<lparr>in_string := False\<rparr> in
         if top_phase s = Some InKey then
           (let raw = slice (string_quote_pos s) (i + 1) txt';
                key_name = (case loads_str lib raw of Some k \<Rightarrow> k | None \<Rightarrow> butlast (tl raw)) in
            s\<lparr>pending_key_stack := set_top (Some key_name) (pending_key_stack s), phase_stack := set_top ExpectColon (phase_stack s)\<rparr>)
         else if top_phase s = Some InValue then
           (let s = commit_pending s in s\<lparr>phase_stack := set_top AfterValue (phase_stack s), last_safe_cut := i + 1\<rparr>)
         else s)
      else s)"

definition enter_value :: "scan_state \<Rightarrow> scan_state" where
  "enter_value s = (if top_phase s = Some ExpectValue then s\<lparr>phase_stack := set_top InValue (phase_stack s)\<rparr> else s)"

definition quote_step :: "nat \<Rightarrow> scan_state \<Rightarrow> scan_state" where
  "quote_step i s =
     (let s = s\<lparr>in_string := True, string_quote_pos := i\<rparr> in
      if top_phase s = Some ExpectKey then s\<lparr>phase_stack := set_top InKey (phase_stack s)\<rparr> else enter_value s)"

definition bare_char :: "char \<Rightarrow> bool" where
  "bare_char c \<longleftrightarrow> c \<notin> set '',]}'' \<and> c \<notin> {CHR 0x0A, CHR 0x0D, CHR 0x09} \<and> c \<notin> {CHR '' '', CHR 0x22} \<and> c \<notin> set '' :''"

definition bare_end :: "string \<Rightarrow> nat \<Rightarrow> nat" where
  "bare_end txt' i = i + length (takeWhile bare_char (drop i txt'))"

definition bare_step :: "'v loads_lib \<Rightarrow> string \<Rightarrow> nat \<Rightarrow> scan_state \<Rightarrow> scan_state" where
  "bare_step lib txt' i s =
     (let j = bare_end txt' i; token = slice i j txt' in
      if j = length txt' then s
      else if loads_doc lib token \<noteq> None then
        (let s = commit_pending s in s\<lparr>phase_stack := set_top AfterValue (phase_stack s), last_safe_cut := j\<rparr>)
      else s)"

definition comma_step :: "nat \<Rightarrow> scan_state \<Rightarrow> scan_state" where
  "comma_step i s =
     (if phase_stack s \<noteq> [] then
        s\<lparr>phase_stack := set_top (if hd (sc_stack s) = CHR ''{'' then ExpectKey else ExpectValue) (phase_stack s), last_safe_cut := i\<rparr>
      else s)"

definition scan_step :: "'v loads_lib \<Rightarrow> string \<Rightarrow> nat \<Rightarrow> scan_state \<Rightarrow> recover_error + nat \<times> scan_state" where
  "scan_step lib txt' i s =
     (let c = txt' ! i in
      if in_string s then Inr (i + 1, string_step lib txt' i s)
      else if py_space c then Inr (i + 1, s)
      else if c = CHR 0x22 then Inr (i + 1, quote_step i s)
      else if c = CHR ''{'' then Inr (i + 1, open_bracket c ExpectKey (enter_value s))
      else if c = CHR ''['' then Inr (i + 1, open_bracket c ExpectValue (enter_value s))
      else if c = CHR ''}'' \<or> c = CHR '']'' then map_sum id (\<lambda>s. (i + 1, s\<lparr>last_safe_cut := i + 1\<rparr>)) (close_top s)
      else if c = CHR '':'' then
        Inr (i + 1, if top_phase s = Some ExpectColon then s\<lparr>phase_stack := set_top ExpectValue (phase_stack s)\<rparr> else s)
      else if c = CHR '','' then Inr (i + 1, comma_step i s)
      else Inr (bare_end txt' i, bare_step lib txt' i s))"

lemma bare_end_progress:
  assumes "i < length t" "\<not> py_space (t ! i)" "t ! i \<noteq> CHR 0x22" "\<not> (t ! i = CHR ''}'' \<or> t ! i = CHR '']'')" "t ! i \<noteq> CHR '':''" "t ! i \<noteq> CHR '',''"
  shows "i < bare_end t i"
proof -
  have "\<not> py_space c \<Longrightarrow> c \<notin> {CHR 0x0A, CHR 0x0D, CHR 0x09, CHR '' ''}" for c by (auto simp: py_space_def)
  then have "bare_char (t ! i)" using assms by (auto simp: bare_char_def)
  then show ?thesis using assms(1) by (simp add: bare_end_def Cons_nth_drop_Suc [symmetric])
qed

lemma scan_step_progress: "i < length t \<Longrightarrow> scan_step lib t i s = Inr (j, s') \<Longrightarrow> i < j"
  using bare_end_progress [of i t] by (auto simp: scan_step_def Let_def split: if_splits sum.splits) (cases "close_top s"; auto)+

function scan_loop :: "'v loads_lib \<Rightarrow> string \<Rightarrow> nat \<Rightarrow> scan_state \<Rightarrow> recover_error + scan_state" where
  "scan_loop lib txt' i s =
     (if i < length txt' then (case scan_step lib txt' i s of Inl e \<Rightarrow> Inl e | Inr (j, s') \<Rightarrow> scan_loop lib txt' j s') else Inr s)"
  by pat_completeness auto
termination
proof (relation "measure (\<lambda>(lib, t, i, s). length t - i)")
  fix lib :: "'v loads_lib" and t i s b j s'
  assume "i < length t" "scan_step lib t i s = Inr b" "(j, s') = b"
  then show "((lib, t, j, s'), lib, t, i, s) \<in> measure (\<lambda>(lib, t, i, s). length t - i)"
    using scan_step_progress [of i t lib s j s'] by (cases b) auto
qed simp

declare scan_loop.simps [simp del]

section \<open>Recovery\<close>

datatype recovery_status = CleanInput | RecoveredInput | UnrecoverableInput

datatype recovery_action = DroppedTail string | AppendedClosers string | FinalParseFailed

record 'v recovery_result =
  rv_parsed :: "'v option"
  confirmed_keys :: "string list"
  heuristic_keys :: "string list"
  dropped_tail :: string
  rv_actions :: "recovery_action list"
  rv_status :: recovery_status

definition closers_of :: "string \<Rightarrow> string" where
  "closers_of stack = map (\<lambda>c. if c = CHR ''{'' then CHR ''}'' else CHR '']'') stack"

definition confirmed_of :: "scan_state \<Rightarrow> string list" where
  "confirmed_of st =
     (if sc_stack st \<noteq> [] \<and> last (sc_stack st) = CHR ''{'' then (if keys_stack st \<noteq> [] then last (keys_stack st) else [])
      else if sc_stack st = [] then top_committed_keys st
      else [])"

definition recover_json :: "'v loads_lib \<Rightarrow> string \<Rightarrow> recover_error + 'v recovery_result" where
  "recover_json lib txt' =
     (if py_strip txt' = [] then
        Inr \<lparr>rv_parsed = None, confirmed_keys = [], heuristic_keys = [], dropped_tail = txt', rv_actions = [], rv_status = UnrecoverableInput\<rparr>
      else
        (case loads_doc lib txt' of
           Some v \<Rightarrow>
             Inr \<lparr>rv_parsed = Some v, confirmed_keys = (case doc_keys lib v of Some ks \<Rightarrow> ks | None \<Rightarrow> []), heuristic_keys = [],
               dropped_tail = [], rv_actions = [], rv_status = CleanInput\<rparr>
         | None \<Rightarrow>
             (case scan_loop lib txt' 0 new_scan of
                Inl e \<Rightarrow> Inl e
              | Inr st \<Rightarrow>
                  (let cut = last_safe_cut st; dropped = drop cut txt'; confirmed = confirmed_of st; closers = closers_of (sc_stack st);
                       actions = (if dropped \<noteq> [] then [DroppedTail dropped] else []) @ (if closers \<noteq> [] then [AppendedClosers closers] else []);
                       patched = take cut txt' @ closers in
                   if py_strip patched = [] then
                     Inr \<lparr>rv_parsed = None, confirmed_keys = [], heuristic_keys = [], dropped_tail = dropped, rv_actions = actions, rv_status = UnrecoverableInput\<rparr>
                   else
                     (case loads_doc lib patched of
                        None \<Rightarrow>
                          Inr \<lparr>rv_parsed = None, confirmed_keys = confirmed, heuristic_keys = [], dropped_tail = dropped,
                            rv_actions = actions @ [FinalParseFailed], rv_status = UnrecoverableInput\<rparr>
                      | Some v \<Rightarrow>
                          Inr \<lparr>rv_parsed = Some v, confirmed_keys = confirmed,
                            heuristic_keys = (case doc_keys lib v of Some ks \<Rightarrow> filter (\<lambda>k. k \<notin> set confirmed) ks | None \<Rightarrow> []),
                            dropped_tail = dropped, rv_actions = actions, rv_status = RecoveredInput\<rparr>)))))"

section \<open>The brackets of a text\<close>

text \<open>The text after a string whose opening quote was read.\<close>

fun after_string :: "string \<Rightarrow> string" where
  "after_string [] = []"
| "after_string [c] = []"
| "after_string (c # d # cs) = (if c = CHR 0x22 then d # cs else if c = CHR 0x5C then after_string cs else after_string (d # cs))"

lemma after_string_Cons:
  "after_string (c # cs) = (if c = CHR 0x22 then cs else if c = CHR 0x5C then after_string (tl cs) else after_string cs)"
  by (cases cs) auto

lemma length_after_string: "length (after_string cs) \<le> length cs"
  by (induction cs rule: after_string.induct) auto

text \<open>The brackets outside strings and bare tokens, in order.\<close>

function brackets :: "string \<Rightarrow> string" where
  "brackets [] = []"
| "brackets (c # cs) =
     (if py_space c then brackets cs
      else if c = CHR 0x22 then brackets (after_string cs)
      else if c \<in> set ''{[}]'' then c # brackets cs
      else if c = CHR '':'' \<or> c = CHR '','' then brackets cs
      else brackets (dropWhile bare_char cs))"
  by pat_completeness auto
termination
  by (relation "measure length") (auto simp: length_dropWhile_le less_Suc_eq_le length_after_string)

text \<open>The stack of open brackets; \<open>None\<close> when a closing bracket finds it empty.\<close>

fun open_stack :: "string \<Rightarrow> string \<Rightarrow> string option" where
  "open_stack st [] = Some st"
| "open_stack st (c # cs) =
     (if c \<in> set ''{['' then open_stack (c # st) cs else (case st of [] \<Rightarrow> None | _ # r \<Rightarrow> open_stack r cs))"

section \<open>The scanner follows the brackets\<close>

definition stacks_parallel :: "scan_state \<Rightarrow> bool" where
  "stacks_parallel s \<longleftrightarrow> length (phase_stack s) = length (sc_stack s) \<and> length (keys_stack s) = length (sc_stack s) \<and>
     length (pending_key_stack s) = length (sc_stack s)"

definition scan_inv :: "nat \<Rightarrow> scan_state \<Rightarrow> bool" where
  "scan_inv i s \<longleftrightarrow> stacks_parallel s \<and> last_safe_cut s \<le> i \<and> (\<not> in_string s \<longrightarrow> \<not> escape_next s)"

definition unread :: "string \<Rightarrow> nat \<Rightarrow> scan_state \<Rightarrow> string" where
  "unread t i s = (let r = drop i t in
     if in_string s then brackets (after_string (if escape_next s then tl r else r)) else brackets r)"

lemma length_set_top [simp]: "length (set_top x ys) = length ys"
  by (cases ys) auto

lemma commit_frame:
  "sc_stack (commit_pending s) = sc_stack s" "in_string (commit_pending s) = in_string s" "escape_next (commit_pending s) = escape_next s"
  "last_safe_cut (commit_pending s) = last_safe_cut s" "phase_stack (commit_pending s) = phase_stack s"
  "length (keys_stack (commit_pending s)) = length (keys_stack s)" "length (pending_key_stack (commit_pending s)) = length (pending_key_stack s)"
  by (auto simp: commit_pending_def split: list.split option.split)

lemma close_top_Inl: "close_top s = Inl e \<longleftrightarrow> sc_stack s = []"
  by (cases e) (simp add: close_top_def Let_def split: list.split)

lemma close_top_frame:
  assumes "close_top s = Inr s'"
  shows "(\<exists>c. sc_stack s = c # sc_stack s') \<and> in_string s' = in_string s \<and> escape_next s' = escape_next s \<and>
     last_safe_cut s' = last_safe_cut s \<and> (stacks_parallel s \<longrightarrow> stacks_parallel s')"
proof -
  obtain c rest where st: "sc_stack s = c # rest" using assms by (cases "sc_stack s") (auto simp: close_top_def)
  define s0 where "s0 = s\<lparr>sc_stack := rest, phase_stack := tl (phase_stack s), keys_stack := tl (keys_stack s), pending_key_stack := tl (pending_key_stack s)\<rparr>"
  define s1 where "s1 = (if rest = [] \<and> c = CHR ''{'' then s0\<lparr>top_committed_keys := hd (keys_stack s)\<rparr> else s0)"
  have s': "s' = (if phase_stack s1 \<noteq> [] then commit_pending (s1\<lparr>phase_stack := set_top AfterValue (phase_stack s1)\<rparr>) else s1)"
    using assms unfolding close_top_def st list.case Let_def s1_def s0_def by simp
  have "sc_stack s1 = rest \<and> in_string s1 = in_string s \<and> escape_next s1 = escape_next s \<and> last_safe_cut s1 = last_safe_cut s \<and>
      (stacks_parallel s \<longrightarrow> stacks_parallel s1)"
    using st by (simp add: s1_def s0_def stacks_parallel_def)
  then show ?thesis using st unfolding s' by (auto simp: commit_frame stacks_parallel_def)
qed

text \<open>What a step leaves alone.\<close>

definition same_scan :: "scan_state \<Rightarrow> scan_state \<Rightarrow> bool" where
  "same_scan s s' \<longleftrightarrow> sc_stack s' = sc_stack s \<and> escape_next s' = escape_next s \<and> (stacks_parallel s \<longrightarrow> stacks_parallel s')"

lemma enter_value_frame: "same_scan s (enter_value s)" "in_string (enter_value s) = in_string s" "last_safe_cut (enter_value s) = last_safe_cut s"
  by (simp_all add: same_scan_def enter_value_def stacks_parallel_def)

lemma quote_step_frame: "same_scan s (quote_step i s)" "in_string (quote_step i s)" "last_safe_cut (quote_step i s) = last_safe_cut s"
proof -
  let ?s = "s\<lparr>in_string := True, string_quote_pos := i\<rparr>"
  have "same_scan s ?s" by (simp add: same_scan_def stacks_parallel_def)
  then show "same_scan s (quote_step i s)" "in_string (quote_step i s)" "last_safe_cut (quote_step i s) = last_safe_cut s"
    using enter_value_frame [of ?s] by (auto simp: quote_step_def same_scan_def stacks_parallel_def Let_def)
qed

lemma comma_step_frame: "same_scan s (comma_step i s)" "in_string (comma_step i s) = in_string s" "last_safe_cut s \<le> i \<Longrightarrow> last_safe_cut (comma_step i s) \<le> i"
  by (auto simp: same_scan_def comma_step_def stacks_parallel_def)

lemma open_bracket_frame:
  "sc_stack (open_bracket c ph s) = c # sc_stack s" "escape_next (open_bracket c ph s) = escape_next s" "in_string (open_bracket c ph s) = in_string s"
  "last_safe_cut (open_bracket c ph s) = last_safe_cut s" "stacks_parallel s \<Longrightarrow> stacks_parallel (open_bracket c ph s)"
  by (simp_all add: open_bracket_def stacks_parallel_def)

lemma drop_read: "i < length t \<Longrightarrow> drop i t = t ! i # drop (i + 1) t"
  by (simp add: Cons_nth_drop_Suc)

lemma drop_bare_end: "drop (bare_end t i) t = dropWhile bare_char (drop i t)"
  by (simp add: bare_end_def dropWhile_eq_drop add.commute)

lemma string_step_frame:
  assumes "in_string s" "i < length t" "scan_inv i s"
  shows "sc_stack (string_step lib t i s) = sc_stack s \<and> scan_inv (i + 1) (string_step lib t i s) \<and>
    unread t (i + 1) (string_step lib t i s) = unread t i s"
proof -
  consider (skip) "escape_next s" | (esc) "\<not> escape_next s" "t ! i = CHR 0x5C" | (quote) "\<not> escape_next s" "t ! i = CHR 0x22"
    | (other) "\<not> escape_next s" "t ! i \<noteq> CHR 0x5C" "t ! i \<noteq> CHR 0x22" by blast
  then show ?thesis
  proof cases
    case quote
    then have u: "unread t i s = brackets (drop (i + 1) t)"
      using assms(1,2) by (simp add: unread_def drop_read after_string_Cons)
    show ?thesis using quote assms(1,3) unfolding u
      by (auto simp: string_step_def unread_def scan_inv_def commit_frame stacks_parallel_def Let_def)
  qed (use assms in \<open>auto simp: string_step_def unread_def scan_inv_def stacks_parallel_def drop_read after_string_Cons Let_def\<close>)
qed

lemma bare_step_frame:
  "sc_stack (bare_step lib t i s) = sc_stack s" "in_string (bare_step lib t i s) = in_string s" "escape_next (bare_step lib t i s) = escape_next s"
  "stacks_parallel s \<Longrightarrow> stacks_parallel (bare_step lib t i s)" "last_safe_cut s \<le> bare_end t i \<Longrightarrow> last_safe_cut (bare_step lib t i s) \<le> bare_end t i"
  by (auto simp: bare_step_def commit_frame stacks_parallel_def Let_def)

lemma bare_end_le: "i \<le> length t \<Longrightarrow> i \<le> bare_end t i \<and> bare_end t i \<le> length t"
  using length_takeWhile_le [of bare_char "drop i t"] by (simp add: bare_end_def)

lemma scan_step_frame:
  assumes "i < length t" "scan_inv i s" "scan_step lib t i s = Inr (j, s')"
  shows "scan_inv j s' \<and> j \<le> length t \<and> open_stack (sc_stack s') (unread t j s') = open_stack (sc_stack s) (unread t i s)"
proof (cases "in_string s")
  case True
  then show ?thesis using assms string_step_frame [OF True assms(1,2), of lib] by (auto simp: scan_step_def Let_def)
next
  case False
  let ?c = "t ! i"
  have ne: "\<not> escape_next s" using assms(2) False by (simp add: scan_inv_def)
  have u: "unread t i s = brackets (?c # drop (i + 1) t)" using False assms(1) by (simp only: unread_def Let_def if_False drop_read)
  note facts = assms(1,2) False ne u
  consider (space) "py_space ?c" | (quote) "\<not> py_space ?c" "?c = CHR 0x22" | (open_it) "?c \<in> set ''{[''"
    | (close) "?c \<in> set ''}]''" | (colon) "?c = CHR '':''" | (comma) "?c = CHR '',''"
    | (bare) "\<not> py_space ?c" "?c \<noteq> CHR 0x22" "?c \<notin> set ''{[}]''" "?c \<noteq> CHR '':''" "?c \<noteq> CHR '',''" unfolding list.set by blast
  then show ?thesis
  proof cases
    case space
    then show ?thesis using assms facts by (auto simp: scan_step_def scan_inv_def unread_def Let_def)
  next
    case quote
    then have "j = i + 1 \<and> s' = quote_step i s" using assms(3) False by (simp add: scan_step_def Let_def)
    then show ?thesis using facts quote quote_step_frame [where s = s and i = i] by (auto simp: scan_inv_def unread_def same_scan_def)
  next
    case open_it
    then have n: "\<not> py_space ?c" by (auto simp: py_space_def)
    then have "j = i + 1 \<and> (\<exists>ph. s' = open_bracket ?c ph (enter_value s))" using assms(3) False open_it by (auto simp: scan_step_def Let_def)
    then show ?thesis using facts open_it n enter_value_frame [of s] by (auto simp: scan_inv_def unread_def same_scan_def open_bracket_frame)
  next
    case close
    then have "\<not> py_space ?c" by (auto simp: py_space_def)
    moreover obtain s1 where s1: "close_top s = Inr s1" "j = i + 1" "s' = s1\<lparr>last_safe_cut := i + 1\<rparr>"
      using assms(3) close False calculation by (cases "close_top s") (auto simp: scan_step_def Let_def)
    ultimately show ?thesis using facts close close_top_frame [OF s1(1)] by (auto simp: scan_inv_def unread_def stacks_parallel_def)
  next
    case colon
    then have "\<not> py_space ?c" by (simp add: py_space_def)
    then show ?thesis using assms facts colon by (auto simp: scan_step_def scan_inv_def unread_def stacks_parallel_def Let_def split: if_splits)
  next
    case comma
    then have "\<not> py_space ?c" by (simp add: py_space_def)
    then have "j = i + 1 \<and> s' = comma_step i s" using assms(3) False comma by (simp add: scan_step_def Let_def)
    then show ?thesis using facts comma \<open>\<not> py_space ?c\<close> comma_step_frame [where s = s and i = i] by (auto simp: scan_inv_def unread_def same_scan_def)
  next
    case bare
    have b: "bare_char ?c" using bare by (auto simp: bare_char_def py_space_def)
    have j: "j = bare_end t i" "s' = bare_step lib t i s" using assms(3) bare False by (auto simp: scan_step_def Let_def)
    have "brackets (?c # drop (i + 1) t) = brackets (drop (bare_end t i) t)"
      using bare b assms(1) by (simp add: drop_bare_end drop_read)
    then show ?thesis using facts j bare_end_le [of i t] bare_step_frame [where lib = lib and t = t and i = i and s = s]
      by (auto simp: scan_inv_def unread_def)
  qed
qed

lemma scan_step_Inl:
  assumes "i < length t" "scan_inv i s" "scan_step lib t i s = Inl e"
  shows "open_stack (sc_stack s) (unread t i s) = None"
proof -
  have c: "\<not> in_string s" "\<not> py_space (t ! i)" "t ! i \<in> set ''}]''" "sc_stack s = []"
    using assms(3) by (auto simp: scan_step_def Let_def close_top_Inl split: if_splits sum.splits) (cases "close_top s"; simp add: close_top_Inl)+
  then show ?thesis using assms(1) by (auto simp: unread_def drop_read)
qed

lemma scan_loop_stack:
  "i \<le> length t \<Longrightarrow> scan_inv i s \<Longrightarrow>
   (case scan_loop lib t i s of
      Inl e \<Rightarrow> open_stack (sc_stack s) (unread t i s) = None
    | Inr st \<Rightarrow> open_stack (sc_stack s) (unread t i s) = Some (sc_stack st) \<and> stacks_parallel st \<and> last_safe_cut st \<le> length t)"
proof (induction lib t i s rule: scan_loop.induct)
  case (1 lib t i s)
  show ?case
  proof (cases "i < length t")
    case True
    show ?thesis
    proof (cases "scan_step lib t i s")
      case (Inl e)
      then show ?thesis using True scan_step_Inl [OF True 1(3)] by (simp add: scan_loop.simps [of lib t i s])
    next
      case (Inr b)
      obtain j s' where b: "b = (j, s')" by fastforce
      note f = scan_step_frame [OF True 1(3) Inr [unfolded b]]
      show ?thesis using 1(1) [OF True Inr] b f True Inr by (auto simp: scan_loop.simps [of lib t i s] split: sum.splits)
    qed
  next
    case False
    then have "unread t i s = []" using 1(2) by (simp add: unread_def)
    moreover have "scan_loop lib t i s = Inr s" using False by (simp add: scan_loop.simps [of lib t i s])
    ultimately show ?thesis using 1(2,3) by (simp add: scan_inv_def)
  qed
qed

section \<open>Properties\<close>

definition patched_with :: "string \<Rightarrow> nat \<Rightarrow> string \<Rightarrow> string" where
  "patched_with t k st = take k t @ closers_of st"

text \<open>What the recovery returns when the scan ends.\<close>

lemma recover_after_scan:
  assumes "py_strip t \<noteq> []" "loads_doc lib t = None" "scan_loop lib t 0 new_scan = Inr st"
  defines "p \<equiv> patched_with t (last_safe_cut st) (sc_stack st)"
  shows "\<exists>r. recover_json lib t = Inr r \<and> dropped_tail r = drop (last_safe_cut st) t \<and>
    rv_parsed r = (if py_strip p = [] then None else loads_doc lib p) \<and>
    rv_status r = (if rv_parsed r = None then UnrecoverableInput else RecoveredInput) \<and>
    (\<forall>v ks. rv_parsed r = Some v \<and> doc_keys lib v = Some ks \<longrightarrow> heuristic_keys r = filter (\<lambda>k. k \<notin> set (confirmed_keys r)) ks)"
proof -
  have p: "take (last_safe_cut st) t @ closers_of (sc_stack st) = p" by (simp add: p_def patched_with_def)
  consider (blank) "py_strip p = []" | (bad) "py_strip p \<noteq> []" "loads_doc lib p = None" | (good) v where "py_strip p \<noteq> []" "loads_doc lib p = Some v"
    by blast
  then show ?thesis
    by cases (simp_all add: recover_json_def assms(1-3) Let_def p)
qed

text \<open>The recovery raises exactly when the text is not blank, does not parse and has a closing bracket without an
  open one, outside strings and bare tokens.  Otherwise a text that parses is returned as clean; and one that does
  not is cut at a position of the text, everything behind it is reported as dropped, it is closed with the
  brackets that are open at the end of the text, innermost first, the status is \<open>recovered\<close> exactly when that
  parses, and then the top-level keys are split into the confirmed ones and the heuristic rest.\<close>

theorem recover_raises_exactly:
  "case recover_json lib t of
      Inl e \<Rightarrow> py_strip t \<noteq> [] \<and> loads_doc lib t = None \<and> open_stack [] (brackets t) = None
    | Inr r \<Rightarrow>
        (rv_status r = CleanInput \<longleftrightarrow> py_strip t \<noteq> [] \<and> loads_doc lib t \<noteq> None) \<and>
        (rv_status r = CleanInput \<longrightarrow> rv_parsed r = loads_doc lib t \<and> dropped_tail r = []) \<and>
        (py_strip t \<noteq> [] \<and> loads_doc lib t = None \<longrightarrow>
          (\<exists>st k. open_stack [] (brackets t) = Some st \<and> k \<le> length t \<and> dropped_tail r = drop k t \<and>
            rv_parsed r = (if py_strip (patched_with t k st) = [] then None else loads_doc lib (patched_with t k st)) \<and>
            (rv_status r = RecoveredInput \<longleftrightarrow> rv_parsed r \<noteq> None) \<and>
            (\<forall>v ks. rv_parsed r = Some v \<and> doc_keys lib v = Some ks \<longrightarrow> heuristic_keys r = filter (\<lambda>k. k \<notin> set (confirmed_keys r)) ks)))"
proof (cases "py_strip t = [] \<or> loads_doc lib t \<noteq> None")
  case True
  then show ?thesis by (auto simp: recover_json_def)
next
  case False
  then have n: "py_strip t \<noteq> []" "loads_doc lib t = None" by auto
  have i: "scan_inv 0 new_scan" "sc_stack new_scan = []" "unread t 0 new_scan = brackets t"
    by (simp_all add: scan_inv_def new_scan_def stacks_parallel_def unread_def)
  note l = scan_loop_stack [OF _ i(1), of t lib, unfolded i(2,3), simplified]
  show ?thesis
  proof (cases "scan_loop lib t 0 new_scan")
    case (Inl e)
    then show ?thesis using l n by (simp add: recover_json_def)
  next
    case (Inr st)
    then have st: "open_stack [] (brackets t) = Some (sc_stack st)" "last_safe_cut st \<le> length t" using l by auto
    let ?p = "patched_with t (last_safe_cut st) (sc_stack st)"
    obtain r where r: "recover_json lib t = Inr r" "dropped_tail r = drop (last_safe_cut st) t"
        "rv_parsed r = (if py_strip ?p = [] then None else loads_doc lib ?p)"
        "rv_status r = (if rv_parsed r = None then UnrecoverableInput else RecoveredInput)"
        "\<forall>v ks. rv_parsed r = Some v \<and> doc_keys lib v = Some ks \<longrightarrow> heuristic_keys r = filter (\<lambda>k. k \<notin> set (confirmed_keys r)) ks"
      using recover_after_scan [OF n Inr] by blast
    show ?thesis
      unfolding r(1) sum.case r(4)
      by (intro conjI impI exI [of _ "sc_stack st"] exI [of _ "last_safe_cut st"]) (use r n st in \<open>auto split: if_splits\<close>)
  qed
qed

definition demo_reader :: "nat loads_lib" where
  "demo_reader = \<lparr>loads_doc = (\<lambda>x. if x = ''1'' then Some 1 else if x = ''[1]'' then Some 2 else None), doc_keys = (\<lambda>v. None), loads_str = Some\<rparr>"

text \<open>A cut array of numbers is recovered; an array nested in it makes it unrecoverable, although \<open>[1]\<close> is a clean prefix:
  the second list is closed too, behind the cut that is in front of it.  A closing bracket alone raises.\<close>

theorem recover_raises_exactly_witness:
  "\<exists>r. recover_json demo_reader ''[1,2'' = Inr r \<and> rv_status r = RecoveredInput \<and> rv_parsed r = Some 2 \<and>
     (\<exists>k st. dropped_tail r = drop k ''[1,2'' \<and> patched_with ''[1,2'' k st = ''[1]'')"
proof -
  have e: "map_sum id rv_parsed (recover_json demo_reader ''[1,2'') = Inr (Some 2)" by code_simp
  then obtain r where r: "recover_json demo_reader ''[1,2'' = Inr r" "rv_parsed r = Some 2"
    by (cases "recover_json demo_reader ''[1,2''") auto
  have n: "py_strip ''[1,2'' \<noteq> [] \<and> loads_doc demo_reader ''[1,2'' = None" by code_simp
  obtain st k where s: "dropped_tail r = drop k ''[1,2''" "rv_status r = RecoveredInput"
    "Some 2 = (if py_strip (patched_with ''[1,2'' k st) = [] then None else loads_doc demo_reader (patched_with ''[1,2'' k st))"
    using recover_raises_exactly [where lib = demo_reader and t = "''[1,2''", unfolded r(1) sum.case, THEN conjunct2, THEN conjunct2, THEN mp, OF n] r(2)
    by (metis option.discI)
  then have "patched_with ''[1,2'' k st = ''[1]''" by (simp add: demo_reader_def split: if_splits)
  then show ?thesis using r s by blast
qed

section \<open>What the documentation says otherwise\<close>

lemma nested_tail_unrecoverable:
  "map_sum id rv_status (recover_json demo_reader ''[1,[2'') = Inr UnrecoverableInput"
  by code_simp

lemma stray_closer_raises: "recover_json demo_reader ''}'' = Inl PopFromEmptyList"
  by code_simp

end
