(* ===== verification/Size_Limiter.thy ===== *)
theory Size_Limiter
  imports Utf8_Buffer Py_Json
begin

text \<open>
  The tool-result size limiter (\<open>tool-result-size-limiter/limiter.py\<close>).  A text is its list of code points;
  UTF-8 encoding and decoding are the models of \<open>Utf8_Buffer\<close>.  SHA-256 (as hexadecimal text) is a parameter.
\<close>

section \<open>Clipping\<close>

text \<open>The two loops: the index moves to the next byte that starts a character, forwards or backwards.\<close>

function clip_start :: "byte list \<Rightarrow> nat \<Rightarrow> nat" where
  "clip_start b start = (if start < length b \<and> is_cont (b ! start) then clip_start b (start + 1) else start)"
  by pat_completeness auto
termination by (relation "measure (\<lambda>(b, start). length b - start)") auto

declare clip_start.simps [simp del]

fun clip_end :: "byte list \<Rightarrow> nat \<Rightarrow> nat" where
  "clip_end b 0 = 0"
| "clip_end b (Suc e) = (if is_cont (b ! Suc e) then clip_end b e else Suc e)"

definition safe_utf8_clip :: "byte list \<Rightarrow> int \<Rightarrow> bool \<Rightarrow> byte list" where
  "safe_utf8_clip b n from_end =
     (if n \<le> 0 then []
      else if n \<ge> int (length b) then b
      else if from_end then drop (clip_start b (length b - nat n)) b
      else take (clip_end b (nat n)) b)"

section \<open>The sandwich\<close>

datatype limit_error = MaxBytesTooSmall int | HeadRatioOutOfRange rat | LimitDecodeError

record limit_result =
  lr_text :: "nat list"
  original_bytes :: nat
  output_bytes :: nat
  lr_truncated :: bool
  elided_bytes :: nat
  elided_sha256_prefix :: string

definition ascii_cps :: "string \<Rightarrow> nat list" where
  "ascii_cps s = map of_char s"

definition limit_marker :: "nat \<Rightarrow> nat \<Rightarrow> string \<Rightarrow> nat list" where
  "limit_marker elided_n original sha_prefix =
     [10, 0x2026] @ ascii_cps (''<TRUNCATED:'' @ dec elided_n @ '' bytes elided of '' @ dec original @ '' total, sha256='' @ sha_prefix @ ''>'') @ [0x2026, 10]"

definition head_budget :: "int \<Rightarrow> rat \<Rightarrow> int" where
  "head_budget max_bytes head_ratio = max 32 \<lfloor>of_int max_bytes * head_ratio\<rfloor>"

definition limit_tool_result :: "(byte list \<Rightarrow> string) \<Rightarrow> int \<Rightarrow> rat \<Rightarrow> nat list \<Rightarrow> limit_error + limit_result" where
  "limit_tool_result sha max_bytes head_ratio text' =
     (if max_bytes < 64 then Inl (MaxBytesTooSmall max_bytes)
      else if \<not> (0 < head_ratio \<and> head_ratio < 1) then Inl (HeadRatioOutOfRange head_ratio)
      else
        (let raw = utf8_encode text'; original = length raw in
         if int original \<le> max_bytes
         then Inr \<lparr>lr_text = text', original_bytes = original, output_bytes = original, lr_truncated = False,
           elided_bytes = 0, elided_sha256_prefix = []\<rparr>
         else
           (let head_bytes = safe_utf8_clip raw (head_budget max_bytes head_ratio) False;
                tail_budget = max 32 (max_bytes - int (length head_bytes) - 120);
                tail_bytes = safe_utf8_clip raw tail_budget True;
                elided_start = length head_bytes;
                elided_end = original - length tail_bytes;
                (tail_bytes, elided_end) = (if elided_end \<le> elided_start then ([], original) else (tail_bytes, elided_end));
                elided = drop elided_start (take elided_end raw);
                sha_prefix = take 12 (sha elided);
                marker = utf8_encode (limit_marker (length elided) original sha_prefix);
                out_b = head_bytes @ marker @ tail_bytes in
            (case utf8_decode out_b of
               None \<Rightarrow> Inl LimitDecodeError
             | Some t \<Rightarrow> Inr \<lparr>lr_text = t, original_bytes = original, output_bytes = length out_b, lr_truncated = True,
                 elided_bytes = length elided, elided_sha256_prefix = sha_prefix\<rparr>))))"

section \<open>Cuts between characters\<close>

text \<open>A byte that starts a character, or the end, is a boundary.\<close>

lemma boundary_cut:
  assumes "list_all valid_cp cs" "e \<le> length (utf8_encode cs)" "e = 0 \<or> e = length (utf8_encode cs) \<or> \<not> is_cont (utf8_encode cs ! e)"
  shows "\<exists>i\<le>length cs. take e (utf8_encode cs) = utf8_encode (take i cs) \<and> drop e (utf8_encode cs) = utf8_encode (drop i cs)"
  using assms
proof (induction cs arbitrary: e)
  case (Cons c cs)
  obtain b0 ks where c: "encode_cp c = b0 # ks" "list_all is_cont ks" using encode_cp_shape Cons.prems(1) by force
  show ?case
  proof (cases "e = 0")
    case True
    then show ?thesis by (intro exI [of _ 0]) simp
  next
    case False
    have "\<not> e < length (encode_cp c)"
    proof
      assume l: "e < length (encode_cp c)"
      then have "is_cont (utf8_encode (c # cs) ! e)"
        using False c by (cases e) (auto simp: nth_append list_all_length)
      then show False using Cons.prems(3) False l by simp
    qed
    then obtain e' where e: "e = length (encode_cp c) + e'" by (metis le_Suc_ex not_less)
    have "\<exists>i\<le>length cs. take e' (utf8_encode cs) = utf8_encode (take i cs) \<and> drop e' (utf8_encode cs) = utf8_encode (drop i cs)"
      using Cons.prems e False by (intro Cons.IH) (auto simp: nth_append)
    then obtain i where "i \<le> length cs" "take e' (utf8_encode cs) = utf8_encode (take i cs)" "drop e' (utf8_encode cs) = utf8_encode (drop i cs)"
      by blast
    then show ?thesis by (intro exI [of _ "Suc i"]) (simp add: e)
  qed
qed simp

lemma clip_end_stops: "clip_end b e \<le> e \<and> (clip_end b e = 0 \<or> \<not> is_cont (b ! clip_end b e))"
  by (induction e) auto

lemma clip_start_stops:
  "start \<le> length b \<Longrightarrow> start \<le> clip_start b start \<and> clip_start b start \<le> length b \<and>
     (clip_start b start = length b \<or> \<not> is_cont (b ! clip_start b start))"
proof (induction b start rule: clip_start.induct)
  case (1 b start)
  show ?case
  proof (cases "start < length b \<and> is_cont (b ! start)")
    case True
    then show ?thesis using 1 by (simp add: clip_start.simps [of b start])
  next
    case False
    then show ?thesis using 1(2) by (auto simp: clip_start.simps [of b start])
  qed
qed

lemma clip_head:
  assumes "list_all valid_cp cs"
  shows "\<exists>i\<le>length cs. safe_utf8_clip (utf8_encode cs) n False = utf8_encode (take i cs) \<and> int (length (utf8_encode (take i cs))) \<le> max 0 n"
proof -
  let ?b = "utf8_encode cs"
  let ?e = "if n \<le> 0 then 0 else if n \<ge> int (length ?b) then length ?b else clip_end ?b (nat n)"
  have s: "safe_utf8_clip ?b n False = take ?e ?b" by (simp add: safe_utf8_clip_def)
  have "\<exists>i\<le>length cs. take ?e ?b = utf8_encode (take i cs) \<and> drop ?e ?b = utf8_encode (drop i cs)"
    using clip_end_stops [of ?b "nat n"] by (intro boundary_cut assms) auto
  then obtain i where i: "i \<le> length cs" "take ?e ?b = utf8_encode (take i cs)" by blast
  have "int (length (take ?e ?b)) \<le> max 0 n" using clip_end_stops [of ?b "nat n"] by auto
  then show ?thesis using i s by metis
qed

lemma clip_tail:
  assumes "list_all valid_cp cs"
  shows "\<exists>j\<le>length cs. safe_utf8_clip (utf8_encode cs) n True = utf8_encode (drop j cs) \<and> int (length (utf8_encode (drop j cs))) \<le> max 0 n"
proof -
  let ?b = "utf8_encode cs"
  let ?e = "if n \<le> 0 then length ?b else if n \<ge> int (length ?b) then 0 else clip_start ?b (length ?b - nat n)"
  have c: "length ?b - nat n \<le> length ?b" by simp
  have s: "safe_utf8_clip ?b n True = drop ?e ?b" by (simp add: safe_utf8_clip_def)
  have "\<exists>j\<le>length cs. take ?e ?b = utf8_encode (take j cs) \<and> drop ?e ?b = utf8_encode (drop j cs)"
    using clip_start_stops [OF c] by (intro boundary_cut assms) auto
  then obtain j where j: "j \<le> length cs" "drop ?e ?b = utf8_encode (drop j cs)" by blast
  have "int (length (drop ?e ?b)) \<le> max 0 n" using clip_start_stops [OF c] by auto
  then show ?thesis using j s by metis
qed

lemma encode_take_drop: "utf8_encode (take i cs) @ utf8_encode (drop i cs) = utf8_encode cs"
  by (simp flip: utf8_encode_simps(3))

lemma encode_between:
  assumes "i \<le> j" "j \<le> length cs"
  shows "drop (length (utf8_encode (take i cs))) (take (length (utf8_encode (take j cs))) (utf8_encode cs)) = utf8_encode (drop i (take j cs))"
proof -
  have "take (length (utf8_encode (take j cs))) (utf8_encode cs) = utf8_encode (take j cs)"
    by (subst encode_take_drop [of j cs, symmetric]) simp
  also have "\<dots> = utf8_encode (take i (take j cs)) @ utf8_encode (drop i (take j cs))" by (rule encode_take_drop [symmetric])
  finally show ?thesis using assms by (simp add: min_absorb1)
qed

lemma encode_take_mono:
  assumes "j \<le> i"
  shows "length (utf8_encode (take j cs)) \<le> length (utf8_encode (take i cs))"
proof -
  have "take i cs = take j cs @ drop j (take i cs)" using assms append_take_drop_id [of j "take i cs"] by (simp add: min_absorb1)
  then have "utf8_encode (take i cs) = utf8_encode (take j cs) @ utf8_encode (drop j (take i cs))" by (metis utf8_encode_simps(3))
  then show ?thesis by simp
qed

section \<open>The marker\<close>

definition ascii_only :: "string \<Rightarrow> bool" where
  "ascii_only s \<longleftrightarrow> list_all (\<lambda>c. (of_char c :: nat) < 128) s"

lemma ascii_cps_encode: "ascii_only s \<Longrightarrow> list_all valid_cp (ascii_cps s) \<and> length (utf8_encode (ascii_cps s)) = length s"
  by (induction s) (auto simp: ascii_only_def ascii_cps_def valid_cp_def encode_cp_def)

lemma ascii_dec: "ascii_only (dec n)"
  using dec_digits [of n] by (auto simp: ascii_only_def list_all_iff is_digit_def)

lemma length_dec: "n < 10 ^ Suc k \<Longrightarrow> length (dec n) \<le> Suc k"
proof (induction k arbitrary: n)
  case 0
  then show ?case by (subst dec.simps) simp
next
  case (Suc k)
  show ?case
  proof (cases "n < 10")
    case True
    then show ?thesis by (subst dec.simps) simp
  next
    case False
    have "n div 10 < 10 ^ Suc k" using Suc.prems by (simp add: div_less_iff_less_mult mult.commute)
    then have "length (dec (n div 10)) \<le> Suc k" by (rule Suc.IH)
    then show ?thesis using False by (subst dec.simps) simp
  qed
qed

lemma marker_encode:
  assumes "ascii_only p" "length p = 12"
  shows "list_all valid_cp (limit_marker n m p)" "length (utf8_encode (limit_marker n m p)) = 64 + length (dec n) + length (dec m)"
proof -
  let ?s = "''<TRUNCATED:'' @ dec n @ '' bytes elided of '' @ dec m @ '' total, sha256='' @ p @ ''>''"
  have "ascii_only ?s" using assms(1) ascii_dec by (auto simp: ascii_only_def)
  note e = ascii_cps_encode [OF this]
  have m: "limit_marker n m p = [10, 0x2026] @ ascii_cps ?s @ [0x2026, 10]" by (simp add: limit_marker_def)
  show "list_all valid_cp (limit_marker n m p)" unfolding m using e by (simp add: valid_cp_def)
  have "length ?s = length (dec n) + length (dec m) + 56" using assms(2) by simp
  then show "length (utf8_encode (limit_marker n m p)) = 64 + length (dec n) + length (dec m)"
    unfolding m utf8_encode_simps(3) length_append using e by (simp add: encode_cp_def)
qed

section \<open>Properties\<close>

definition hex_digest :: "(byte list \<Rightarrow> string) \<Rightarrow> bool" where
  "hex_digest sha \<longleftrightarrow> (\<forall>b. 12 \<le> length (sha b) \<and> ascii_only (sha b))"

text \<open>What the output is, for the characters kept at the two ends.\<close>

definition sandwich :: "(byte list \<Rightarrow> string) \<Rightarrow> nat list \<Rightarrow> nat \<Rightarrow> nat \<Rightarrow> limit_result \<Rightarrow> bool" where
  "sandwich sha cs i j r \<longleftrightarrow> i \<le> j \<and> j \<le> length cs \<and> lr_truncated r \<and>
     (let elided = utf8_encode (drop i (take j cs)) in
      elided_bytes r = length elided \<and> elided_sha256_prefix r = take 12 (sha elided) \<and>
      lr_text r = take i cs @ limit_marker (length elided) (length (utf8_encode cs)) (take 12 (sha elided)) @ drop j cs)"

lemma limit_truncates:
  assumes "list_all valid_cp cs" "hex_digest sha" "64 \<le> m" "0 < q" "q < 1" "m < int (length (utf8_encode cs))"
  shows "\<exists>r i j. limit_tool_result sha m q cs = Inr r \<and> sandwich sha cs i j r \<and> original_bytes r = length (utf8_encode cs) \<and>
    output_bytes r = length (utf8_encode (lr_text r)) \<and> int (length (utf8_encode (take i cs))) \<le> head_budget m q \<and>
    int (length (utf8_encode (drop j cs))) \<le> max 32 (m - int (length (utf8_encode (take i cs))) - 120)"
proof -
  let ?raw = "utf8_encode cs"
  obtain i where i: "i \<le> length cs" "safe_utf8_clip ?raw (head_budget m q) False = utf8_encode (take i cs)"
    "int (length (utf8_encode (take i cs))) \<le> head_budget m q"
    using clip_head [OF assms(1), of "head_budget m q"] by (auto simp: head_budget_def)
  let ?h = "utf8_encode (take i cs)" and ?tb = "max 32 (m - int (length (utf8_encode (take i cs))) - 120)"
  obtain j0 where j0: "j0 \<le> length cs" "safe_utf8_clip ?raw ?tb True = utf8_encode (drop j0 cs)" "int (length (utf8_encode (drop j0 cs))) \<le> ?tb"
    using clip_tail [OF assms(1), of ?tb] by auto
  have len: "length ?raw - length (utf8_encode (drop j0 cs)) = length (utf8_encode (take j0 cs))"
    using arg_cong [OF encode_take_drop [of j0 cs], of length] by simp
  define over where "over \<longleftrightarrow> length (utf8_encode (take j0 cs)) \<le> length ?h"
  define j where "j = (if over then length cs else j0)"
  have ij: "i \<le> j" "j \<le> length cs" using i(1) j0(1) encode_take_mono [of j0 i cs] encode_take_mono [of i j0 cs]
    unfolding j_def over_def by (auto simp: not_le intro: ccontr)
  let ?el = "utf8_encode (drop i (take j cs))" 
  let ?mk = "limit_marker (length ?el) (length ?raw) (take 12 (sha ?el))"
  have p: "(if length (utf8_encode (take j0 cs)) \<le> length ?h then ([], length ?raw) else (utf8_encode (drop j0 cs), length (utf8_encode (take j0 cs))))
      = (utf8_encode (drop j cs), length (utf8_encode (take j cs)))"
    by (simp add: j_def over_def)
  have mk: "list_all valid_cp ?mk" using assms(2) by (intro marker_encode) (auto simp: hex_digest_def ascii_only_def list_all_iff dest: in_set_takeD)
  have "list_all valid_cp (take i cs @ ?mk @ drop j cs)" using assms(1) mk by (auto simp: list_all_iff dest: in_set_takeD in_set_dropD)
  note d = utf8_decode_encode [OF this, unfolded utf8_encode_simps(3)]
  have c: "(m < 64) = False" "(0 < q) = True" "(q < 1) = True" "(int (length ?raw) \<le> m) = False" using assms(3-6) by auto
  have "limit_tool_result sha m q cs = Inr \<lparr>lr_text = take i cs @ ?mk @ drop j cs, original_bytes = length ?raw,
      output_bytes = length (?h @ utf8_encode ?mk @ utf8_encode (drop j cs)), lr_truncated = True, elided_bytes = length ?el,
      elided_sha256_prefix = take 12 (sha ?el)\<rparr>"
    unfolding limit_tool_result_def by (simp only: Let_def c i(2) j0(2) len p prod.case encode_between [OF ij] d option.case if_False if_True
        simp_thms length_append)
  moreover have "int (length (utf8_encode (drop j cs))) \<le> ?tb" using j0(3) by (simp add: j_def)
  ultimately show ?thesis using i(3) ij by (intro exI conjI) (auto simp: sandwich_def Let_def)
qed

lemma dec_within: "n < 10 ^ 28 \<Longrightarrow> length (dec n) \<le> 28"
  using length_dec [of n 27] unfolding numeral_2_eq_2 by (simp only: eval_nat_numeral BitM.simps)

text \<open>C15. The limiter raises exactly for a budget below 64 or a ratio outside \<open>(0, 1)\<close>.  A text whose encoding fits is
  returned as it is; otherwise the result is the first \<open>i\<close> characters, the marker with the true counts and the
  digest of what was left out, and the characters from \<open>j\<close> on - whole characters, \<open>i \<le> j\<close>, so the result is valid
  UTF-8 and head, elided middle and tail make up the text.  The byte counts are those of the encodings, and the
  output is within the budget whenever the budget leaves 152 bytes beside the head.\<close>

theorem limited_text_is_sandwich:
  assumes "list_all valid_cp cs" "hex_digest sha"
  shows "case limit_tool_result sha m q cs of
      Inl e \<Rightarrow> m < 64 \<and> e = MaxBytesTooSmall m \<or> 64 \<le> m \<and> (q \<le> 0 \<or> 1 \<le> q) \<and> e = HeadRatioOutOfRange q
    | Inr r \<Rightarrow> 64 \<le> m \<and> 0 < q \<and> q < 1 \<and> original_bytes r = length (utf8_encode cs) \<and> output_bytes r = length (utf8_encode (lr_text r)) \<and>
        (if int (length (utf8_encode cs)) \<le> m then lr_text r = cs \<and> \<not> lr_truncated r
         else (\<exists>i j. sandwich sha cs i j r \<and> int (length (utf8_encode (take i cs))) \<le> head_budget m q) \<and>
           (head_budget m q + 152 \<le> m \<and> length (utf8_encode cs) < 10 ^ 28 \<longrightarrow> int (output_bytes r) \<le> m))"
proof (cases "64 \<le> m \<and> 0 < q \<and> q < 1 \<and> m < int (length (utf8_encode cs))")
  case False
  then consider "m < 64" | "64 \<le> m" "\<not> (0 < q \<and> q < 1)" | "64 \<le> m" "0 < q \<and> q < 1" "int (length (utf8_encode cs)) \<le> m" by linarith
  then show ?thesis by cases (simp_all add: limit_tool_result_def Let_def, linarith)
next
  case True
  let ?raw = "utf8_encode cs"
  obtain r i j where r: "limit_tool_result sha m q cs = Inr r" "sandwich sha cs i j r" "original_bytes r = length ?raw"
    "output_bytes r = length (utf8_encode (lr_text r))" "int (length (utf8_encode (take i cs))) \<le> head_budget m q"
    "int (length (utf8_encode (drop j cs))) \<le> max 32 (m - int (length (utf8_encode (take i cs))) - 120)"
    using limit_truncates [OF assms] True by blast
  let ?el = "utf8_encode (drop i (take j cs))"
  have el: "length ?el \<le> length ?raw"
  proof -
    have "i \<le> j" "j \<le> length cs" using r(2) by (simp_all add: sandwich_def Let_def)
    from encode_between [OF this, symmetric] show ?thesis by simp
  qed
  have "int (output_bytes r) \<le> m" if h: "head_budget m q + 152 \<le> m" "length ?raw < 10 ^ 28"
  proof -
    have "length (dec (length ?raw)) \<le> 28" by (rule dec_within [OF h(2)])
    moreover have "length (dec (length ?el)) \<le> 28" by (rule dec_within [OF le_less_trans [OF el h(2)]])
    moreover have "length (utf8_encode (limit_marker (length ?el) (length ?raw) (take 12 (sha ?el)))) = 64 + length (dec (length ?el)) + length (dec (length ?raw))"
      using assms(2) by (intro marker_encode) (auto simp: hex_digest_def ascii_only_def list_all_iff dest: in_set_takeD)
    moreover have "output_bytes r = length (utf8_encode (take i cs)) +
        length (utf8_encode (limit_marker (length ?el) (length ?raw) (take 12 (sha ?el)))) + length (utf8_encode (drop j cs))"
      using r(2,4) by (simp add: sandwich_def Let_def)
    ultimately show ?thesis using r(5,6) h(1) by linarith
  qed
  then show ?thesis unfolding r(1) sum.case using True r(2-5) by (intro conjI) (simp_all, blast)
qed

text \<open>Two-byte characters around both cuts: a budget of 402 bytes on 600.\<close>

theorem limited_text_is_sandwich_witness:
  "\<exists>r i j. limit_tool_result (\<lambda>b. replicate 64 CHR ''a'') 402 (1 / 2) (replicate 300 233) = Inr r \<and>
     sandwich (\<lambda>b. replicate 64 CHR ''a'') (replicate 300 233) i j r \<and> int (output_bytes r) \<le> 402"
proof -
  let ?sha = "\<lambda>b :: byte list. replicate 64 CHR ''a''" and ?cs = "replicate 300 (233 :: nat)"
  have v: "list_all valid_cp ?cs" by (simp add: list_all_length valid_cp_def)
  have h: "hex_digest ?sha" by (simp add: hex_digest_def ascii_only_def list_all_length)
  have l: "length (utf8_encode (replicate n 233)) = 2 * n" for n by (induction n) (simp_all add: encode_cp_def)
  have b: "head_budget 402 (1 / 2) = 201" by (simp add: head_budget_def)
  obtain r where r: "limit_tool_result ?sha 402 (1 / 2) ?cs = Inr r"
    using limited_text_is_sandwich [OF v h, of 402 "1 / 2"] by (cases "limit_tool_result ?sha 402 (1 / 2) ?cs") auto
  show ?thesis using limited_text_is_sandwich [OF v h, of 402 "1 / 2"] unfolding r by (auto simp: l b)
qed

section \<open>Small budgets\<close>

text \<open>The marker alone has at least 66 bytes, so below that every truncated output exceeds its budget.\<close>

lemma small_budget_exceeded:
  assumes "list_all valid_cp cs" "hex_digest sha" "64 \<le> m" "m < 66" "0 < q" "q < 1" "m < int (length (utf8_encode cs))"
  shows "\<exists>r. limit_tool_result sha m q cs = Inr r \<and> m < int (output_bytes r)"
proof -
  obtain r i j where r: "limit_tool_result sha m q cs = Inr r" "sandwich sha cs i j r" "output_bytes r = length (utf8_encode (lr_text r))"
    using limit_truncates [OF assms(1-3,5-7)] by blast
  let ?el = "utf8_encode (drop i (take j cs))"
  have "length (utf8_encode (limit_marker (length ?el) (length (utf8_encode cs)) (take 12 (sha ?el)))) =
      64 + length (dec (length ?el)) + length (dec (length (utf8_encode cs)))"
    using assms(2) by (intro marker_encode) (auto simp: hex_digest_def ascii_only_def list_all_iff dest: in_set_takeD)
  moreover have "0 < length (dec (length ?el))" "0 < length (dec (length (utf8_encode cs)))"
    using dec_nonempty unfolding length_greater_0_conv by blast+
  moreover have "output_bytes r \<ge> length (utf8_encode (limit_marker (length ?el) (length (utf8_encode cs)) (take 12 (sha ?el))))"
    using r(2,3) by (simp add: sandwich_def Let_def)
  ultimately have "66 \<le> output_bytes r" by linarith
  then show ?thesis using r(1) assms(4) by auto
qed

end
