(* ===== verification/Stream_Limiter.thy ===== *)
theory Stream_Limiter
  imports Token_Bucket
begin

text \<open>
  The per-session limiter of output tokens (\<open>streaming-token-rate-limiter/limiter.py\<close>): a token bucket
  with a cap on the session's total.  The caller passes the time and does the waiting.
\<close>

section \<open>The limiter\<close>

record stream_limiter =
  sl_capacity :: rat
  tokens_per_sec :: rat
  max_total_tokens :: int
  sl_tokens :: rat
  last_refill_s :: rat
  emitted_total :: int
  sl_initialized :: bool

datatype sl_error = CapacityNotPositive | RateNotPositive | TotalNotPositive | ChunkNotPositive int

definition new_stream_limiter :: "rat \<Rightarrow> rat \<Rightarrow> int \<Rightarrow> sl_error + stream_limiter" where
  "new_stream_limiter cap rate cap_total =
     (if cap \<le> 0 then Inl CapacityNotPositive
      else if rate \<le> 0 then Inl RateNotPositive
      else if cap_total \<le> 0 then Inl TotalNotPositive
      else Inr \<lparr>sl_capacity = cap, tokens_per_sec = rate, max_total_tokens = cap_total, sl_tokens = cap, last_refill_s = 0,
        emitted_total = 0, sl_initialized = False\<rparr>)"

definition sl_refill :: "rat \<Rightarrow> stream_limiter \<Rightarrow> stream_limiter" where
  "sl_refill now_s s =
     (if \<not> sl_initialized s then s\<lparr>last_refill_s := now_s, sl_initialized := True\<rparr>
      else
        (let elapsed = max 0 (now_s - last_refill_s s) in
         s\<lparr>sl_tokens := min (sl_capacity s) (sl_tokens s + elapsed * tokens_per_sec s), last_refill_s := now_s\<rparr>))"

datatype sl_verdict = Emit | Wait rat | Stop

definition sl_admit :: "int \<Rightarrow> rat \<Rightarrow> stream_limiter \<Rightarrow> (sl_error, sl_verdict, stream_limiter) outcome" where
  "sl_admit n_tokens now_s s =
     (if n_tokens \<le> 0 then (Inl (ChunkNotPositive n_tokens), s)
      else
        (let s = sl_refill now_s s in
         if emitted_total s \<ge> max_total_tokens s then (Inr Stop, s)
         else if emitted_total s + n_tokens > max_total_tokens s then (Inr Stop, s)
         else if sl_tokens s \<ge> of_int n_tokens
         then (Inr Emit, s\<lparr>sl_tokens := sl_tokens s - of_int n_tokens, emitted_total := emitted_total s + n_tokens\<rparr>)
         else (Inr (Wait ((of_int n_tokens - sl_tokens s) / tokens_per_sec s)), s)))"

record sl_state =
  tokens_available :: rat
  sl_emitted :: int
  remaining_session_budget :: int
  sl_capped :: bool

definition sl_state_of :: "stream_limiter \<Rightarrow> sl_state" where
  "sl_state_of s =
     \<lparr>tokens_available = py_round 6 (sl_tokens s), sl_emitted = emitted_total s,
      remaining_session_budget = max_total_tokens s - emitted_total s, sl_capped = (emitted_total s \<ge> max_total_tokens s)\<rparr>"

section \<open>The token-bucket contract\<close>

definition sl_ok :: "stream_limiter \<Rightarrow> bool" where
  "sl_ok s \<longleftrightarrow> 0 \<le> sl_tokens s \<and> sl_tokens s \<le> sl_capacity s \<and> 0 < tokens_per_sec s"

definition sl_granted :: "stream_limiter \<Rightarrow> rat \<times> int \<Rightarrow> rat" where
  "sl_granted s r = (if fst (sl_admit (snd r) (fst r) s) = Inr Emit then of_int (snd r) else 0)"

lemma sl_refill_ok:
  assumes "sl_ok s" "last_refill_s s \<le> t"
  shows "sl_ok (sl_refill t s) \<and> last_refill_s (sl_refill t s) = t \<and> sl_capacity (sl_refill t s) = sl_capacity s \<and>
    tokens_per_sec (sl_refill t s) = tokens_per_sec s \<and> max_total_tokens (sl_refill t s) = max_total_tokens s \<and>
    emitted_total (sl_refill t s) = emitted_total s \<and> sl_initialized (sl_refill t s) \<and>
    sl_tokens (sl_refill t s) \<le> sl_tokens s + (t - last_refill_s s) * tokens_per_sec s"
proof -
  have "0 \<le> (t - last_refill_s s) * tokens_per_sec s" using assms by (simp add: sl_ok_def)
  then show ?thesis using assms by (auto simp: sl_refill_def sl_ok_def Let_def)
qed

text \<open>The four outcomes.\<close>

lemma sl_admit_cases:
  obtains (bad) "n \<le> 0" "sl_admit n t s = (Inl (ChunkNotPositive n), s)"
  | (stopped) "0 < n" "emitted_total (sl_refill t s) + n > max_total_tokens (sl_refill t s)" "sl_admit n t s = (Inr Stop, sl_refill t s)"
  | (emits) "0 < n" "emitted_total (sl_refill t s) + n \<le> max_total_tokens (sl_refill t s)" "of_int n \<le> sl_tokens (sl_refill t s)"
      "sl_admit n t s = (Inr Emit, (sl_refill t s)\<lparr>sl_tokens := sl_tokens (sl_refill t s) - of_int n, emitted_total := emitted_total (sl_refill t s) + n\<rparr>)"
  | (waits) "0 < n" "emitted_total (sl_refill t s) + n \<le> max_total_tokens (sl_refill t s)" "sl_tokens (sl_refill t s) < of_int n"
      "sl_admit n t s = (Inr (Wait ((of_int n - sl_tokens (sl_refill t s)) / tokens_per_sec (sl_refill t s))), sl_refill t s)"
  by (cases "n \<le> 0"; cases "emitted_total (sl_refill t s) + n > max_total_tokens (sl_refill t s)";
      cases "of_int n \<le> sl_tokens (sl_refill t s)") (auto simp: sl_admit_def Let_def)

interpretation sl: token_bucket "\<lambda>s r. snd (sl_admit (snd r) (fst r) s)" sl_granted "\<lambda>r. True" fst
  sl_ok sl_tokens last_refill_s tokens_per_sec sl_capacity
proof unfold_locales
  fix s and r :: "rat \<times> int"
  show "tokens_per_sec (snd (sl_admit (snd r) (fst r) s)) = tokens_per_sec s" "sl_capacity (snd (sl_admit (snd r) (fst r) s)) = sl_capacity s"
    by (simp_all add: sl_admit_def sl_refill_def Let_def)
  assume "sl_ok s"
  then show "0 \<le> sl_tokens s \<and> sl_tokens s \<le> sl_capacity s \<and> 0 \<le> tokens_per_sec s" by (simp add: sl_ok_def)
next
  fix s and r :: "rat \<times> int"
  let ?s = "snd (sl_admit (snd r) (fst r) s)"
  assume a: "sl_ok s" "True" "last_refill_s s \<le> fst r"
  note r = sl_refill_ok [OF a(1,3)]
  have all: "sl_ok ?s \<and> (last_refill_s s \<le> last_refill_s ?s \<and> last_refill_s ?s \<le> fst r \<and> (sl_granted s r \<noteq> 0 \<longrightarrow> last_refill_s ?s = fst r)) \<and>
      sl_tokens ?s + sl_granted s r \<le> sl_capacity s \<and>
      sl_tokens ?s + sl_granted s r \<le> sl_tokens s + (last_refill_s ?s - last_refill_s s) * tokens_per_sec s"
    by (rule sl_admit_cases [of "snd r" "fst r" s]) (use a r in \<open>auto simp: sl_granted_def sl_ok_def\<close>)
  then show "sl_ok ?s" "last_refill_s s \<le> last_refill_s ?s \<and> last_refill_s ?s \<le> fst r \<and> (sl_granted s r \<noteq> 0 \<longrightarrow> last_refill_s ?s = fst r)"
    "sl_tokens ?s + sl_granted s r \<le> sl_capacity s"
    "sl_tokens ?s + sl_granted s r \<le> sl_tokens s + (last_refill_s ?s - last_refill_s s) * tokens_per_sec s"
    by blast+
qed

section \<open>The session cap\<close>

definition sl_run :: "stream_limiter \<Rightarrow> (rat \<times> int) list \<Rightarrow> stream_limiter" where
  "sl_run = final (\<lambda>s r. snd (sl_admit (snd r) (fst r) s))"

lemma sl_step_total:
  "emitted_total s \<le> max_total_tokens s \<Longrightarrow>
   let s' = snd (sl_admit (snd r) (fst r) s) in
   emitted_total s' \<le> max_total_tokens s' \<and> max_total_tokens s' = max_total_tokens s \<and> of_int (emitted_total s') = of_int (emitted_total s) + sl_granted s r"
  by (rule sl_admit_cases [of "snd r" "fst r" s])
     (auto simp: sl_granted_def sl_refill_def Let_def)

lemma sl_run_total:
  "emitted_total s \<le> max_total_tokens s \<Longrightarrow>
   emitted_total (sl_run s rs) \<le> max_total_tokens s \<and> max_total_tokens (sl_run s rs) = max_total_tokens s \<and>
   of_int (emitted_total (sl_run s rs)) = of_int (emitted_total s) + granted_total (\<lambda>s r. snd (sl_admit (snd r) (fst r) s)) sl_granted s rs"
proof (induction rs arbitrary: s)
  case (Cons r rs)
  show ?case using Cons.IH [of "snd (sl_admit (snd r) (fst r) s)"] sl_step_total [OF Cons.prems, of r]
    by (auto simp: sl_run_def Let_def)
qed (simp add: sl_run_def)

section \<open>Waiting\<close>

text \<open>After \<open>Wait d\<close> a chunk that fits the bucket is emitted from the time \<open>now + d\<close> on and not before.\<close>

lemma wait_is_exact:
  assumes "sl_ok s" "last_refill_s s \<le> t" "sl_admit n t s = (Inr (Wait d), s')" "of_int n \<le> sl_capacity s" "t \<le> u"
  shows "fst (sl_admit n u s') = Inr Emit \<longleftrightarrow> t + d \<le> u"
proof -
  note r = sl_refill_ok [OF assms(1,2)]
  have w: "0 < n" "emitted_total s' + n \<le> max_total_tokens s'" "d = (of_int n - sl_tokens s') / tokens_per_sec s'" "s' = sl_refill t s"
    by (rule sl_admit_cases [of n t s]; use assms(3) in simp)+
  have u: "sl_refill u s' = s'\<lparr>sl_tokens := min (sl_capacity s') (sl_tokens s' + (u - t) * tokens_per_sec s'), last_refill_s := u\<rparr>"
    using r w(4) assms(5) by (simp add: sl_refill_def Let_def)
  have "of_int n \<le> min (sl_capacity s') (sl_tokens s' + (u - t) * tokens_per_sec s') \<longleftrightarrow> t + (of_int n - sl_tokens s') / tokens_per_sec s' \<le> u"
    using r w(4) assms(4) by (intro refill_reaches) (simp_all add: sl_ok_def)
  moreover have "fst (sl_admit n u s') = Inr Emit \<longleftrightarrow> of_int n \<le> sl_tokens (sl_refill u s')"
    by (rule sl_admit_cases [of n u s']) (use w(1,2) u in auto)
  ultimately show ?thesis using w(3) by (simp add: u)
qed

text \<open>From a new limiter, with times that do not go back: what is emitted never exceeds the session's cap, over any
  window it is at most the capacity and what flows in during the window, and a chunk that fits the bucket and is
  told to wait is emitted exactly from the time the limiter computed.\<close>

theorem stream_limiter_holds:
  assumes "new_stream_limiter cap rate cap_total = Inr s" "sorted (0 # map fst (before @ r # rs))"
  shows "let s1 = sl_run s before; s2 = sl_run s1 (r # rs) in
    emitted_total s2 \<le> cap_total \<and>
    of_int (emitted_total s2 - emitted_total s1) \<le> cap + (last (map fst (r # rs)) - fst r) * rate \<and>
    (\<forall>n t u d s3. last (map fst (r # rs)) \<le> t \<and> t \<le> u \<and> of_int n \<le> cap \<and> sl_admit n t s2 = (Inr (Wait d), s3) \<longrightarrow>
      (fst (sl_admit n u s3) = Inr Emit \<longleftrightarrow> t + d \<le> u))"
proof -
  have s: "s = \<lparr>sl_capacity = cap, tokens_per_sec = rate, max_total_tokens = cap_total, sl_tokens = cap, last_refill_s = 0,
      emitted_total = 0, sl_initialized = False\<rparr>" "0 < cap" "0 < rate" "0 < cap_total"
    using assms(1) by (auto simp: new_stream_limiter_def split: if_splits)
  then have ok: "sl_ok s" by (simp add: sl_ok_def)
  have sd: "sorted (last_refill_s s # map fst (before @ r # rs))" using assms(2) s(1) by simp
  let ?s1 = "sl_run s before" and ?s2 = "sl_run (sl_run s before) (r # rs)"
  have f: "?s2 = sl_run s (before @ r # rs)" by (simp add: sl_run_def final_append)
  have tr: "list_all (\<lambda>r :: rat \<times> int. True) xs" for xs by (simp add: list.pred_True)
  note k = sl.session_keeps [OF ok tr sd, folded sl_run_def f]
  have tot: "emitted_total s \<le> max_total_tokens s" using s by simp
  note t1 = sl_run_total [OF tot, of before]
  have t2: "emitted_total ?s2 \<le> max_total_tokens ?s1 \<and> of_int (emitted_total ?s2) = of_int (emitted_total ?s1) +
      granted_total (\<lambda>s r. snd (sl_admit (snd r) (fst r) s)) sl_granted ?s1 (r # rs)"
    using sl_run_total [of ?s1 "r # rs"] t1 by simp
  have w: "granted_total (\<lambda>s r. snd (sl_admit (snd r) (fst r) s)) sl_granted ?s1 (r # rs) \<le> cap + (last (map fst (r # rs)) - fst r) * rate"
    using sl.windowed_session [OF ok tr sd] s(1) unfolding sl_run_def by simp
  have "fst (sl_admit n u s3) = Inr Emit \<longleftrightarrow> t + d \<le> u"
    if h: "last (map fst (r # rs)) \<le> t" "t \<le> u" "of_int n \<le> cap" "sl_admit n t ?s2 = (Inr (Wait d), s3)" for n t u d s3
  proof (rule wait_is_exact [OF _ _ h(4) _ h(2)])
    show "sl_ok ?s2" "last_refill_s ?s2 \<le> t" "of_int n \<le> sl_capacity ?s2" using k h s(1) by auto
  qed
  then show ?thesis using t1 t2 w s(1) by (auto simp: Let_def)
qed

theorem stream_limiter_holds_witness:
  "\<exists>s. new_stream_limiter 20 10 60 = Inr s \<and> emitted_total (sl_run (sl_run s [(0, 15)]) [(0, 5), (1 / 10, 5), (1, 5)]) \<le> 60"
proof -
  obtain s where s: "new_stream_limiter 20 10 60 = Inr s" by (simp add: new_stream_limiter_def)
  show ?thesis using stream_limiter_holds [OF s, of "[(0, 15)]" "(0, 5)" "[(1 / 10, 5), (1, 5)]"] s by (simp add: Let_def)
qed

section \<open>Two traps\<close>

text \<open>A chunk larger than the capacity is told to wait at every time, although it is within the session's budget.\<close>

lemma oversized_chunk_waits_forever:
  assumes "sl_ok s" "last_refill_s s \<le> t" "sl_capacity s < of_int n" "0 < n"
  shows "fst (sl_admit n t s) \<noteq> Inr Emit"
  by (rule sl_admit_cases [of n t s]) (use sl_refill_ok [OF assms(1,2)] assms(3,4) in \<open>auto simp: sl_ok_def\<close>)

text \<open>A clock that goes back moves the stamp back, and the time in between is credited again: at time 2 a full bucket is
  emptied; read at 1 and at 2 again, it holds another second's tokens.\<close>

lemma backward_clock_credits_twice:
  "\<exists>s. new_stream_limiter 10 10 60 = Inr s \<and>
     map (\<lambda>k. fst (sl_admit 10 2 (sl_run s (take k [(2, 10), (1, 10)])))) [1, 2] = [Inr (Wait 1), Inr Emit]"
  by (simp add: new_stream_limiter_def sl_run_def sl_admit_def sl_refill_def Let_def)

end
