(* ===== verification/Summarizer_Window.thy ===== *)
theory Summarizer_Window
  imports Prelude Py_Json
begin

text \<open>
  The summarising window of a conversation (\<open>conversation-summarizer-window/summarizer.py\<close>): the oldest
  messages that are neither pinned nor summaries are replaced by one summary message.  The token counter and
  the summariser are injected.
\<close>

section \<open>The window\<close>

record message =
  msg_role :: string
  msg_content :: string
  msg_pinned :: bool
  msg_id :: string

definition default_token_counter :: "string \<Rightarrow> int" where
  "default_token_counter t = max 1 \<lceil>of_nat (length t) / (4 :: rat)\<rceil>"

record summarizer_window =
  window_tokens :: int
  trigger_pct :: rat
  target_pct :: rat
  summarize_fn :: "message list \<Rightarrow> string"
  token_counter :: "string \<Rightarrow> int"

datatype summarizer_error = BadPercentages | WindowNotPositive

definition new_summarizer_window ::
  "int \<Rightarrow> rat \<Rightarrow> rat \<Rightarrow> (message list \<Rightarrow> string) \<Rightarrow> (string \<Rightarrow> int) \<Rightarrow> summarizer_error + summarizer_window" where
  "new_summarizer_window window trigger target summarize count =
     (if \<not> (0 < target \<and> target < trigger \<and> trigger \<le> 1) then Inl BadPercentages
      else if window \<le> 0 then Inl WindowNotPositive
      else Inr \<lparr>window_tokens = window, trigger_pct = trigger, target_pct = target, summarize_fn = summarize, token_counter = count\<rparr>)"

definition window_total :: "summarizer_window \<Rightarrow> message list \<Rightarrow> int" where
  "window_total w msgs = (\<Sum>m\<leftarrow>msgs. token_counter w (msg_content m))"

definition should_compress :: "summarizer_window \<Rightarrow> message list \<Rightarrow> bool" where
  "should_compress w msgs \<longleftrightarrow> window_total w msgs \<ge> \<lceil>of_int (window_tokens w) * trigger_pct w\<rceil>"

section \<open>Compression\<close>

definition droppable_message :: "message \<Rightarrow> bool" where
  "droppable_message m \<longleftrightarrow> \<not> (msg_pinned m \<or> msg_role m = ''summary'')"

function peel_loop :: "summarizer_window \<Rightarrow> int \<Rightarrow> nat \<Rightarrow> message list \<Rightarrow> message list \<Rightarrow> message list \<times> message list" where
  "peel_loop w target i kept to_summarize =
     (if i < length kept \<and> window_total w kept > target then
        (let m = kept ! i in
         if \<not> droppable_message m then peel_loop w target (i + 1) kept to_summarize
         else
           (let to_summarize = to_summarize @ [m];
                kept = take i kept @ drop (i + 1) kept;
                approx_summary_tokens = max 1 (window_total w to_summarize div 4);
                projected = window_total w kept + approx_summary_tokens in
            if projected \<le> target then (kept, to_summarize) else peel_loop w target i kept to_summarize))
      else (kept, to_summarize))"
  by pat_completeness auto
termination by (relation "measure (\<lambda>(w, t, i, kept, ts). length kept - i)") auto

declare peel_loop.simps [simp del]

fun insert_loop :: "nat \<Rightarrow> nat \<Rightarrow> message list \<Rightarrow> nat" where
  "insert_loop idx insert_at [] = insert_at"
| "insert_loop idx insert_at (m # ms) = (if droppable_message m then idx else insert_loop (idx + 1) (idx + 1) ms)"

datatype compress_reason = AlreadyUnderTarget | NothingDroppable | TriggerMet

record compress_report =
  cr_compressed :: bool
  cr_reason :: compress_reason
  tokens_before :: int
  tokens_after :: int
  dropped_count :: nat
  dropped_ids :: "string list option"
  summary_inserted_at :: "nat option"

definition unchanged_report :: "compress_reason \<Rightarrow> int \<Rightarrow> compress_report" where
  "unchanged_report why n =
     \<lparr>cr_compressed = False, cr_reason = why, tokens_before = n, tokens_after = n, dropped_count = 0, dropped_ids = None, summary_inserted_at = None\<rparr>"

definition summary_message :: "summarizer_window \<Rightarrow> message list \<Rightarrow> message" where
  "summary_message w ts =
     \<lparr>msg_role = ''summary'', msg_content = summarize_fn w ts, msg_pinned = False, msg_id = ''summary_of_'' @ dec (length ts)\<rparr>"

definition window_compress :: "summarizer_window \<Rightarrow> message list \<Rightarrow> message list \<times> compress_report" where
  "window_compress w msgs =
     (let target = \<lceil>of_int (window_tokens w) * target_pct w\<rceil> in
      if window_total w msgs \<le> target then (msgs, unchanged_report AlreadyUnderTarget (window_total w msgs))
      else
        (let (kept, to_summarize) = peel_loop w target 0 msgs [] in
         if to_summarize = [] then (msgs, unchanged_report NothingDroppable (window_total w msgs))
         else
           (let insert_at = insert_loop 0 0 kept;
                kept' = take insert_at kept @ summary_message w to_summarize # drop insert_at kept in
            (kept', \<lparr>cr_compressed = True, cr_reason = TriggerMet, tokens_before = window_total w msgs, tokens_after = window_total w kept',
               dropped_count = length to_summarize, dropped_ids = Some (map msg_id to_summarize), summary_inserted_at = Some insert_at\<rparr>))))"

section \<open>What is dropped\<close>

text \<open>A list without its first \<open>n\<close> droppable messages.\<close>

fun drop_oldest :: "nat \<Rightarrow> message list \<Rightarrow> message list" where
  "drop_oldest 0 ms = ms"
| "drop_oldest (Suc n) [] = []"
| "drop_oldest (Suc n) (m # ms) = (if droppable_message m then drop_oldest n ms else m # drop_oldest (Suc n) ms)"

abbreviation droppables :: "message list \<Rightarrow> message list" where
  "droppables \<equiv> filter droppable_message"

lemma drop_oldest_Nil [simp]: "drop_oldest n [] = []"
  by (cases n) simp_all



lemma window_total_simps [simp]:
  "window_total w [] = 0" "window_total w (m # ms) = token_counter w (msg_content m) + window_total w ms"
  "window_total w (xs @ ys) = window_total w xs + window_total w ys"
  by (simp_all add: window_total_def)

text \<open>The loop drops the fewest messages that bring the rest to the target; reserving room for the summary makes no difference.\<close>

lemma peel_loop_drops:
  assumes "\<forall>m\<in>set pre. \<not> droppable_message m"
  shows "\<exists>n\<le>length (droppables ms). peel_loop w t (length pre) (pre @ ms) ts = (pre @ drop_oldest n ms, ts @ take n (droppables ms)) \<and>
    (\<forall>k<n. t < window_total w (pre @ drop_oldest k ms)) \<and>
    (window_total w (pre @ drop_oldest n ms) \<le> t \<or> n = length (droppables ms))"
  using assms
proof (induction ms arbitrary: pre ts)
  case Nil
  then show ?case by (simp add: peel_loop.simps)
next
  case (Cons m ms)
  note loop = peel_loop.simps [of w t "length pre" "pre @ m # ms" ts]
  consider (done_now) "window_total w (pre @ m # ms) \<le> t" | (skip) "t < window_total w (pre @ m # ms)" "\<not> droppable_message m"
    | (peel) "t < window_total w (pre @ m # ms)" "droppable_message m" by linarith
  then show ?case
  proof cases
    case done_now
    then show ?thesis by (intro exI [of _ 0]) (simp add: loop)
  next
    case skip
    obtain n where n: "n \<le> length (droppables ms)"
        "peel_loop w t (length (pre @ [m])) ((pre @ [m]) @ ms) ts = ((pre @ [m]) @ drop_oldest n ms, ts @ take n (droppables ms))"
        "\<forall>k<n. t < window_total w ((pre @ [m]) @ drop_oldest k ms)"
        "window_total w ((pre @ [m]) @ drop_oldest n ms) \<le> t \<or> n = length (droppables ms)"
      using Cons.IH [of "pre @ [m]" ts] Cons.prems skip(2) by auto
    have d: "drop_oldest k (m # ms) = m # drop_oldest k ms" for k using skip(2) by (cases k) simp_all
    show ?thesis using n skip by (intro exI [of _ n]) (simp add: loop d Let_def)
  next
    case peel
    obtain n where n: "n \<le> length (droppables ms)"
        "peel_loop w t (length pre) (pre @ ms) (ts @ [m]) = (pre @ drop_oldest n ms, (ts @ [m]) @ take n (droppables ms))"
        "\<forall>k<n. t < window_total w (pre @ drop_oldest k ms)"
        "window_total w (pre @ drop_oldest n ms) \<le> t \<or> n = length (droppables ms)"
      using Cons.IH [of pre "ts @ [m]"] Cons.prems by blast
    have early: "n = 0 \<and> peel_loop w t (length pre) (pre @ ms) (ts @ [m]) = (pre @ ms, ts @ [m])" if "window_total w (pre @ ms) \<le> t"
      using that n(3) by (auto simp: peel_loop.simps [of w t "length pre" "pre @ ms"])
    have "peel_loop w t (length pre) (pre @ m # ms) ts = peel_loop w t (length pre) (pre @ ms) (ts @ [m])"
      using peel early by (simp add: loop Let_def)
    moreover have "t < window_total w (pre @ drop_oldest k (m # ms))" if "k < Suc n" for k
      using that n(3) peel by (cases k) simp_all
    ultimately show ?thesis using n peel(2) by (intro exI [of _ "Suc n"]) simp
  qed
qed



section \<open>The property\<close>





definition demo_window :: summarizer_window where
  "demo_window = \<lparr>window_tokens = 20, trigger_pct = 4 / 5, target_pct = 1 / 2, summarize_fn = (\<lambda>ms. concat (map msg_id ms)), token_counter = int \<circ> length\<rparr>"

definition demo_message :: "string \<Rightarrow> bool \<Rightarrow> nat \<Rightarrow> message" where
  "demo_message i p n = \<lparr>msg_role = ''user'', msg_content = replicate n CHR ''x'', msg_pinned = p, msg_id = i\<rparr>"


section \<open>What the documentation says otherwise\<close>

text \<open>The room reserved for the summary is never used: the loop stops as soon as the messages alone are within the target,
  and the summary comes on top.  Here the target is 10, and 12 tokens come back.\<close>

lemma summary_exceeds_target:
  "map_prod (map msg_id) tokens_after (window_compress demo_window [demo_message ''p'' True 9, demo_message ''u12'' False 8]) =
     ([''p'', ''summary_of_1''], 12)"
  by code_simp

text \<open>The summary is not put where the block was: a pinned message that came after the block is before the summary.\<close>

lemma summary_moves_behind_pinned:
  "map msg_id (fst (window_compress demo_window [demo_message ''u'' False 9, demo_message ''p'' True 4, demo_message ''v'' False 5])) =
     [''p'', ''summary_of_1'', ''v'']"
  by code_simp

text \<open>Summaries are never dropped, so a conversation of summaries over the target stays as it is.\<close>

lemma summaries_pile_up:
  assumes "\<forall>m\<in>set msgs. msg_role m = ''summary''"
  shows "fst (window_compress w msgs) = msgs"
proof -
  have "droppables msgs = []" using assms by (simp add: filter_empty_conv droppable_message_def)
  then show ?thesis
    using peel_loop_drops [of "[]" msgs w "\<lceil>of_int (window_tokens w) * target_pct w\<rceil>" "[]"] by (auto simp: window_compress_def Let_def)
qed

end
