(* ===== verification/Section_Trimmer.thy ===== *)
theory Section_Trimmer
  imports Prelude Py_Json "HOL-Library.Multiset" "HOL-Library.Product_Lexorder"
begin

text \<open>
  The priority-aware trimmer of prompt sections (\<open>prompt-token-budget-trimmer/trimmer.py\<close>).  The token
  counter is injected, and so is the text of the truncation marker (a function of the number it shows).
\<close>

section \<open>Words\<close>

function py_words :: "string \<Rightarrow> string list" where
  "py_words s =
     (let r = dropWhile py_space s in
      if r = [] then [] else takeWhile (\<lambda>c. \<not> py_space c) r # py_words (dropWhile (\<lambda>c. \<not> py_space c) r))"
  by pat_completeness auto
termination
proof (relation "measure length", simp)
  fix s r
  assume "r = dropWhile py_space s" "r \<noteq> []"
  then obtain c cs where "r = c # cs" "\<not> py_space c" "length r \<le> length s" by (metis hd_dropWhile length_dropWhile_le list.exhaust_sel)
  then show "(dropWhile (\<lambda>c. \<not> py_space c) r, s) \<in> measure length"
    using length_dropWhile_le [of "\<lambda>c. \<not> py_space c" cs] by simp
qed

declare py_words.simps [simp del]

fun py_join :: "string \<Rightarrow> string list \<Rightarrow> string" where
  "py_join sep [] = []"
| "py_join sep [w] = w"
| "py_join sep (w # v # ws) = w @ sep @ py_join sep (v # ws)"

definition default_count :: "string \<Rightarrow> int" where
  "default_count t = int (length (py_words t))"

section \<open>The trimmer\<close>

record labelled_section =
  sec_label :: string
  sec_text :: string
  priority :: int
  truncatable :: bool

record section_trimmer =
  trim_budget :: int
  trim_count :: "string \<Rightarrow> int"
  truncation_marker :: "int \<Rightarrow> string"

definition default_marker :: "int \<Rightarrow> string" where
  "default_marker n = ''[...truncated '' @ py_str_int n @ '' tokens]''"

datatype trimmer_error = BudgetNotPositive

definition new_trimmer :: "int \<Rightarrow> (string \<Rightarrow> int) \<Rightarrow> (int \<Rightarrow> string) \<Rightarrow> trimmer_error + section_trimmer" where
  "new_trimmer b counter marker =
     (if b \<le> 0 then Inl BudgetNotPositive else Inr \<lparr>trim_budget = b, trim_count = counter, truncation_marker = marker\<rparr>)"

definition truncate_head :: "string \<Rightarrow> int \<Rightarrow> string \<times> nat \<times> int" where
  "truncate_head t slack =
     (let words = py_words t; head_words = take (nat (max 0 (slack - 6))) words in
      (py_join '' '' head_words, length head_words, int (length words) - int (length head_words)))"

text \<open>The loop that shaves words off the head while the marker pushes the text over the slack.\<close>

fun shave_loop :: "section_trimmer \<Rightarrow> string \<Rightarrow> int \<Rightarrow> nat \<Rightarrow> string \<Rightarrow> string \<Rightarrow> string" where
  "shave_loop tr full slack 0 head new_text = new_text"
| "shave_loop tr full slack (Suc head_tokens) head new_text =
     (if trim_count tr new_text > slack then
        (let head = py_join '' '' (take head_tokens (py_words head)); dropped_tokens = trim_count tr full - int head_tokens in
         shave_loop tr full slack head_tokens head (py_strip (head @ CHR 0x0A # truncation_marker tr dropped_tokens)))
      else new_text)"

definition truncate_section :: "section_trimmer \<Rightarrow> int \<Rightarrow> labelled_section \<Rightarrow> labelled_section option" where
  "truncate_section tr slack s =
     (if truncatable s \<and> slack > 0 then
        (let (head, head_tokens, dropped_tokens) = truncate_head (sec_text s) slack in
         if head_tokens > 0 then
           (let new_text = shave_loop tr (sec_text s) slack head_tokens head (head @ CHR 0x0A # truncation_marker tr dropped_tokens);
                new_cost = trim_count tr new_text in
            if new_cost > 0 \<and> new_cost \<le> slack
            then Some \<lparr>sec_label = sec_label s, sec_text = new_text, priority = priority s, truncatable = True\<rparr>
            else None)
         else None)
      else None)"

record trim_state =
  ts_kept :: "(nat \<times> labelled_section) list"
  ts_dropped :: "string list"
  ts_truncated :: "string option"
  ts_used :: int

definition trim_step :: "section_trimmer \<Rightarrow> trim_state \<Rightarrow> nat \<times> labelled_section \<Rightarrow> trim_state" where
  "trim_step tr st x =
     (case x of (i, s) \<Rightarrow>
        (let cost = trim_count tr (sec_text s) in
         if ts_used st + cost \<le> trim_budget tr then st\<lparr>ts_kept := ts_kept st @ [(i, s)], ts_used := ts_used st + cost\<rparr>
         else
           (case truncate_section tr (trim_budget tr - ts_used st) s of
              Some new \<Rightarrow> st\<lparr>ts_kept := ts_kept st @ [(i, new)], ts_used := ts_used st + trim_count tr (sec_text new), ts_truncated := Some (sec_label s)\<rparr>
            | None \<Rightarrow> st\<lparr>ts_dropped := ts_dropped st @ [sec_label s]\<rparr>)))"

record trim_result =
  tr_sections :: "labelled_section list"
  kept_labels :: "string list"
  dropped_labels :: "string list"
  truncated_label :: "string option"
  tr_total_tokens :: int
  tr_budget :: int

definition assemble :: "string \<Rightarrow> trim_result \<Rightarrow> string" where
  "assemble joiner r = py_join joiner (map sec_text (tr_sections r))"

definition trim_order :: "labelled_section list \<Rightarrow> (nat \<times> labelled_section) list" where
  "trim_order secs = sort_key (\<lambda>(i, s). (- priority s, i)) (zip [0..<length secs] secs)"

definition trim_sections :: "section_trimmer \<Rightarrow> labelled_section list \<Rightarrow> trim_result" where
  "trim_sections tr secs =
     (let st = foldl (trim_step tr) \<lparr>ts_kept = [], ts_dropped = [], ts_truncated = None, ts_used = 0\<rparr> (trim_order secs);
          final_sections = map snd (sort_key fst (ts_kept st));
          labels = map sec_label final_sections;
          seen = set labels \<union> set (ts_dropped st) in
      \<lparr>tr_sections = final_sections, kept_labels = labels,
       dropped_labels = ts_dropped st @ filter (\<lambda>l. l \<notin> seen) (map sec_label secs),
       truncated_label = ts_truncated st, tr_total_tokens = ts_used st, tr_budget = trim_budget tr\<rparr>)"

section \<open>What becomes of one section\<close>

definition fate :: "section_trimmer \<Rightarrow> int \<Rightarrow> labelled_section \<Rightarrow> labelled_section option" where
  "fate tr slack s = (if trim_count tr (sec_text s) \<le> slack then Some s else truncate_section tr slack s)"

definition fate_cost :: "section_trimmer \<Rightarrow> labelled_section option \<Rightarrow> int" where
  "fate_cost tr x = (case x of None \<Rightarrow> 0 | Some s \<Rightarrow> trim_count tr (sec_text s))"

text \<open>The first words of a text and a marker line.\<close>

definition cut_text :: "section_trimmer \<Rightarrow> string \<Rightarrow> string \<Rightarrow> bool" where
  "cut_text tr t u \<longleftrightarrow>
     (\<exists>k n. k \<le> length (py_words t) \<and>
        (let cut = py_join '' '' (take k (py_words t)) @ CHR 0x0A # truncation_marker tr n in u = cut \<or> u = py_strip cut))"

lemma cut_textI:
  assumes "k \<le> length (py_words t)"
  shows "cut_text tr t (py_join '' '' (take k (py_words t)) @ CHR 0x0A # truncation_marker tr n)"
    "cut_text tr t (py_strip (py_join '' '' (take k (py_words t)) @ CHR 0x0A # truncation_marker tr n))"
  unfolding cut_text_def Let_def using assms by blast+

definition word :: "string \<Rightarrow> bool" where
  "word w \<longleftrightarrow> w \<noteq> [] \<and> (\<forall>c\<in>set w. \<not> py_space c)"

lemma word_py_words: "w \<in> set (py_words s) \<Longrightarrow> word w"
proof (induction s rule: py_words.induct)
  case (1 s)
  let ?r = "dropWhile py_space s"
  show ?case
  proof (cases "?r = []")
    case True
    then show ?thesis using "1.prems" by (simp add: py_words.simps [of s])
  next
    case False
    then have "takeWhile (\<lambda>c. \<not> py_space c) ?r \<noteq> []" using hd_dropWhile [OF False] by (cases ?r) auto
    then have "word (takeWhile (\<lambda>c. \<not> py_space c) ?r)" by (auto simp: word_def dest: set_takeWhileD)
    moreover have "w = takeWhile (\<lambda>c. \<not> py_space c) ?r \<or> w \<in> set (py_words (dropWhile (\<lambda>c. \<not> py_space c) ?r))"
      using "1.prems" unfolding py_words.simps [of s] Let_def if_not_P [OF False] by simp
    ultimately show ?thesis using "1.IH" [OF refl False] by blast
  qed
qed

lemma py_words_word: "word w \<Longrightarrow> py_words (w @ r) = (w @ takeWhile (\<lambda>c. \<not> py_space c) r) # py_words (dropWhile (\<lambda>c. \<not> py_space c) r)"
proof -
  assume w: "word w"
  then have "dropWhile py_space (w @ r) = w @ r" by (cases w) (auto simp: word_def)
  moreover have "takeWhile (\<lambda>c. \<not> py_space c) (w @ r) = w @ takeWhile (\<lambda>c. \<not> py_space c) r"
    "dropWhile (\<lambda>c. \<not> py_space c) (w @ r) = dropWhile (\<lambda>c. \<not> py_space c) r"
    using w by (auto simp: word_def takeWhile_append2 dropWhile_append2)
  ultimately show ?thesis using w by (simp add: py_words.simps [of "w @ r"] word_def Let_def)
qed

lemma py_words_space [simp]: "py_space c \<Longrightarrow> py_words (c # r) = py_words r"
  by (simp add: py_words.simps [of "c # r"] py_words.simps [of r])

lemma py_words_Nil [simp]: "py_words [] = []"
  by (simp add: py_words.simps)

lemma py_words_join: "\<forall>w\<in>set ws. word w \<Longrightarrow> py_words (py_join '' '' ws) = ws"
proof (induction "'' ''" ws rule: py_join.induct)
  case (2 w)
  then show ?case using py_words_word [of w "[]"] by simp
next
  case (3 w v ws)
  then show ?case using py_words_word [of w "'' '' @ py_join '' '' (v # ws)"] by (simp add: py_space_def)
qed simp

lemma shave_cut:
  assumes "\<forall>w\<in>set ws. word w" "ws = py_words t" "k \<le> length ws" "cut_text tr t u"
  shows "cut_text tr t (shave_loop tr full slack k (py_join '' '' (take k ws)) u)"
  using assms(3,4)
proof (induction k arbitrary: u)
  case (Suc k)
  have w: "py_words (py_join '' '' (take (Suc k) ws)) = take (Suc k) ws" using assms(1) by (intro py_words_join) (auto dest: in_set_takeD)
  have "cut_text tr t (py_strip (py_join '' '' (take k ws) @ CHR 0x0A # truncation_marker tr (trim_count tr full - int k)))"
    using Suc.prems(1) unfolding assms(2) by (intro cut_textI) simp
  then show ?case using Suc by (simp add: w Let_def min_absorb1)
qed simp

lemma truncate_section_Some:
  assumes "truncate_section tr slack s = Some x"
  shows "truncatable s \<and> sec_label x = sec_label s \<and> priority x = priority s \<and> truncatable x \<and> 0 < trim_count tr (sec_text x) \<and>
    trim_count tr (sec_text x) \<le> slack \<and> cut_text tr (sec_text s) (sec_text x)"
proof -
  define k where "k = nat (max 0 (slack - 6))"
  define ws where "ws = py_words (sec_text s)"
  define u where "u = py_join '' '' (take k ws) @ CHR 0x0A # truncation_marker tr (int (length ws) - int (length (take k ws)))"
  define v where "v = shave_loop tr (sec_text s) slack (length (take k ws)) (py_join '' '' (take k ws)) u"
  have x: "truncatable s" "x = \<lparr>sec_label = sec_label s, sec_text = v, priority = priority s, truncatable = True\<rparr>"
      "0 < trim_count tr v" "trim_count tr v \<le> slack"
    using assms unfolding truncate_section_def truncate_head_def Let_def prod.case k_def [symmetric] ws_def [symmetric] u_def [symmetric] v_def [symmetric]
    by (simp_all split: if_splits)
  have t: "take (length (take k ws)) ws = take k ws" by (simp add: min_def)
  have l: "length (take k ws) \<le> length ws" by simp
  have "cut_text tr (sec_text s) u"
    using cut_textI(1) [of "length (take k ws)" "sec_text s" tr] l unfolding u_def ws_def [symmetric] t by blast
  moreover have "\<forall>w\<in>set ws. word w" by (simp add: ws_def word_py_words)
  ultimately have "cut_text tr (sec_text s) v"
    using shave_cut [OF _ ws_def l, of tr u "sec_text s" slack] unfolding v_def t by blast
  then show ?thesis using x by simp
qed

section \<open>The loop\<close>

text \<open>The fates of a list of sections, each given what the earlier ones left.\<close>

fun fates :: "section_trimmer \<Rightarrow> int \<Rightarrow> (nat \<times> labelled_section) list \<Rightarrow> labelled_section option list" where
  "fates tr used [] = []"
| "fates tr used ((i, s) # xs) =
     (let x = fate tr (trim_budget tr - used) s in x # fates tr (used + fate_cost tr x) xs)"

definition kept_of :: "(nat \<times> labelled_section) list \<Rightarrow> labelled_section option list \<Rightarrow> (nat \<times> labelled_section) list" where
  "kept_of xs fs = concat (map2 (\<lambda>(i, s) f. case f of None \<Rightarrow> [] | Some x \<Rightarrow> [(i, x)]) xs fs)"

definition dropped_of :: "(nat \<times> labelled_section) list \<Rightarrow> labelled_section option list \<Rightarrow> string list" where
  "dropped_of xs fs = concat (map2 (\<lambda>(i, s) f. if f = None then [sec_label s] else []) xs fs)"

lemma length_fates [simp]: "length (fates tr used xs) = length xs"
  by (induction tr used xs rule: fates.induct) (simp_all add: Let_def)

lemma fate_within: "fate tr slack s = Some x \<Longrightarrow> trim_count tr (sec_text x) \<le> slack \<and> sec_label x = sec_label s"
  using truncate_section_Some [of tr slack s x] by (auto simp: fate_def split: if_splits)

lemma trim_step_fate:
  "trim_step tr st (i, s) =
     (let x = fate tr (trim_budget tr - ts_used st) s in
      st\<lparr>ts_kept := ts_kept st @ kept_of [(i, s)] [x], ts_dropped := ts_dropped st @ dropped_of [(i, s)] [x],
        ts_used := ts_used st + fate_cost tr x, ts_truncated := ts_truncated (trim_step tr st (i, s))\<rparr>)"
  by (auto simp: trim_step_def fate_def kept_of_def dropped_of_def fate_cost_def Let_def split: option.split)

lemma trim_loop:
  "ts_used st \<le> trim_budget tr \<Longrightarrow>
   let fs = fates tr (ts_used st) xs; end_st = foldl (trim_step tr) st xs in
   ts_kept end_st = ts_kept st @ kept_of xs fs \<and> ts_dropped end_st = ts_dropped st @ dropped_of xs fs \<and>
   ts_used end_st = ts_used st + (\<Sum>x\<leftarrow>fs. fate_cost tr x) \<and> ts_used end_st \<le> trim_budget tr"
proof (induction xs arbitrary: st)
  case Nil
  then show ?case by (simp add: kept_of_def dropped_of_def)
next
  case (Cons y ys)
  obtain i s where y: "y = (i, s)" by (cases y)
  let ?x = "fate tr (trim_budget tr - ts_used st) s"
  define st1 where "st1 = trim_step tr st (i, s)"
  have s1: "ts_kept st1 = ts_kept st @ kept_of [(i, s)] [?x]" "ts_dropped st1 = ts_dropped st @ dropped_of [(i, s)] [?x]"
      "ts_used st1 = ts_used st + fate_cost tr ?x"
    unfolding st1_def by (subst trim_step_fate, simp add: Let_def)+
  have "ts_used st1 \<le> trim_budget tr"
    using Cons.prems fate_within [of tr "trim_budget tr - ts_used st" s] unfolding s1(3) by (cases ?x) (auto simp: fate_cost_def)
  from Cons.IH [OF this] show ?case
    by (simp add: y s1 st1_def [symmetric] kept_of_def dropped_of_def Let_def)
qed

lemma nth_fates:
  "k < length xs \<Longrightarrow>
   fates tr used xs ! k = fate tr (trim_budget tr - (used + (\<Sum>x\<leftarrow>take k (fates tr used xs). fate_cost tr x))) (snd (xs ! k))"
proof (induction tr used xs arbitrary: k rule: fates.induct)
  case (2 tr used i s xs)
  then show ?case by (cases k) (simp_all add: Let_def add.assoc)
qed simp

section \<open>The order\<close>

definition order_of :: "labelled_section list \<Rightarrow> nat list" where
  "order_of secs = map fst (trim_order secs)"

lemma trim_order_mset: "mset (trim_order secs) = mset (zip [0..<length secs] secs)"
  by (simp add: trim_order_def)

lemma trim_order_nth: "trim_order secs = map (\<lambda>i. (i, secs ! i)) (order_of secs)"
proof -
  have "\<forall>x\<in>set (trim_order secs). x = (fst x, secs ! fst x)"
    unfolding mset_eq_setD [OF trim_order_mset] by (auto simp: in_set_zip)
  then show ?thesis unfolding order_of_def map_map comp_def by (simp add: map_idI)
qed

lemma order_perm: "mset (order_of secs) = mset [0..<length secs]"
  by (simp only: order_of_def mset_map trim_order_mset) (simp only: mset_map [symmetric] map_fst_zip length_upt minus_nat.diff_0)

text \<open>Higher priority comes first, and of equal priorities the earlier section.\<close>

lemma order_length [simp]: "length (order_of secs) = length secs"
  using arg_cong [OF order_perm, of size secs] by simp

lemma order_distinct: "distinct (order_of secs)"
  using mset_eq_imp_distinct_iff [OF order_perm] by simp

lemma order_sorted:
  assumes "k < l" "l < length secs"
  shows "let i = order_of secs ! k; j = order_of secs ! l in
    priority (secs ! j) < priority (secs ! i) \<or> priority (secs ! j) = priority (secs ! i) \<and> i < j"
proof -
  let ?key = "\<lambda>i. (- priority (secs ! i), i)"
  have "sorted (map (\<lambda>(i, s). (- priority s, i)) (trim_order secs))" by (simp add: trim_order_def)
  then have "sorted (map ?key (order_of secs))" unfolding trim_order_nth by (simp add: comp_def)
  then have "?key (order_of secs ! k) \<le> ?key (order_of secs ! l)"
    using assms sorted_nth_mono [of "map ?key (order_of secs)" k l] by simp
  moreover have "order_of secs ! k \<noteq> order_of secs ! l" using order_distinct [of secs] assms by (simp add: nth_eq_iff_index_eq)
  ultimately show ?thesis by (auto simp: Let_def)
qed

lemma kept_by_index:
  "kept_of (map (\<lambda>i. (i, secs ! i)) is) (map f is) = List.map_filter (\<lambda>i. map_option (Pair i) (f i)) is"
  "dropped_of (map (\<lambda>i. (i, secs ! i)) is) (map f is) = map (\<lambda>i. sec_label (secs ! i)) (filter (\<lambda>i. f i = None) is)"
  by (induction "is") (simp_all add: kept_of_def dropped_of_def map_filter_simps split: option.split)

lemma map_filter_index:
  "map fst (List.map_filter (\<lambda>i. map_option (Pair i) (f i)) is) = filter (\<lambda>i. f i \<noteq> None) is"
  "map snd (List.map_filter (\<lambda>i. map_option (Pair i) (f i)) is) = List.map_filter f is"
  by (induction "is") (auto simp: map_filter_simps split: option.split)

lemma sort_kept:
  assumes "mset xs = mset ys" "sorted ys"
  shows "sort_key fst (List.map_filter (\<lambda>i. map_option (Pair i) (f i)) xs) = List.map_filter (\<lambda>i. map_option (Pair i) (f i)) ys"
proof (rule sort_key_inj_key_eq)
  show "mset (List.map_filter (\<lambda>i. map_option (Pair i) (f i)) xs) = mset (List.map_filter (\<lambda>i. map_option (Pair i) (f i)) ys)"
    unfolding List.map_filter_def mset_map mset_filter assms(1) ..
  show "inj_on fst (set (List.map_filter (\<lambda>i. map_option (Pair i) (f i)) xs))"
    by (auto simp: List.map_filter_def inj_on_def)
  show "sorted (map fst (List.map_filter (\<lambda>i. map_option (Pair i) (f i)) ys))"
    unfolding map_filter_index by (intro sorted_wrt_filter assms(2))
qed

lemma map_of_zip_back: "distinct xs \<Longrightarrow> length ys = length xs \<Longrightarrow> map (\<lambda>i. the (map_of (zip xs ys) i)) xs = ys"
  by (rule nth_equalityI) (simp_all add: map_of_zip_nth)

text \<open>The result, by index.\<close>

lemma trim_by_index:
  assumes "0 < trim_budget tr"
  shows "\<exists>f. tr_sections (trim_sections tr secs) = List.map_filter f [0..<length secs] \<and>
    tr_total_tokens (trim_sections tr secs) = (\<Sum>i\<leftarrow>order_of secs. fate_cost tr (f i)) \<and> tr_total_tokens (trim_sections tr secs) \<le> trim_budget tr \<and>
    dropped_labels (trim_sections tr secs) = map (\<lambda>i. sec_label (secs ! i)) (filter (\<lambda>i. f i = None) (order_of secs)) \<and>
    (\<forall>k<length secs. f (order_of secs ! k) =
       fate tr (trim_budget tr - (\<Sum>i\<leftarrow>take k (order_of secs). fate_cost tr (f i))) (secs ! (order_of secs ! k)))"
proof -
  define fs where "fs = fates tr 0 (trim_order secs)"
  define f where "f = (\<lambda>i. the (map_of (zip (order_of secs) fs) i))"
  have l: "length fs = length (order_of secs)" by (simp add: fs_def order_of_def)
  have fs: "fs = map f (order_of secs)" unfolding f_def by (rule map_of_zip_back [OF order_distinct l, symmetric])
  define st where "st = foldl (trim_step tr) \<lparr>ts_kept = [], ts_dropped = [], ts_truncated = None, ts_used = 0\<rparr> (trim_order secs)"
  have fs': "fates tr 0 (trim_order secs) = map f (order_of secs)" using fs by (simp add: fs_def)
  have "ts_kept st = kept_of (trim_order secs) (map f (order_of secs)) \<and> ts_dropped st = dropped_of (trim_order secs) (map f (order_of secs)) \<and>
      ts_used st = (\<Sum>i\<leftarrow>order_of secs. fate_cost tr (f i)) \<and> ts_used st \<le> trim_budget tr"
    using trim_loop [of "\<lparr>ts_kept = [], ts_dropped = [], ts_truncated = None, ts_used = 0\<rparr>" tr "trim_order secs"] assms
    unfolding st_def [symmetric] Let_def by (simp add: fs' comp_def)
  then have st: "ts_kept st = List.map_filter (\<lambda>i. map_option (Pair i) (f i)) (order_of secs)"
      "ts_dropped st = map (\<lambda>i. sec_label (secs ! i)) (filter (\<lambda>i. f i = None) (order_of secs))"
      "ts_used st = (\<Sum>i\<leftarrow>order_of secs. fate_cost tr (f i))" "ts_used st \<le> trim_budget tr"
    by (simp_all add: trim_order_nth kept_by_index)
  have fate: "f (order_of secs ! k) = fate tr (trim_budget tr - (\<Sum>i\<leftarrow>take k (order_of secs). fate_cost tr (f i))) (secs ! (order_of secs ! k))"
    if "k < length secs" for k
    using that nth_fates [of k "trim_order secs" tr 0] unfolding fs' by (simp add: trim_order_nth take_map comp_def)
  have s: "map snd (sort_key fst (ts_kept st)) = List.map_filter f [0..<length secs]"
    unfolding st(1) sort_kept [OF order_perm sorted_upt] map_filter_index ..
  have seen: "sec_label x \<in> set (map sec_label (List.map_filter f [0..<length secs])) \<union> set (ts_dropped st)" if x: "x \<in> set secs" for x
  proof -
    obtain i where i: "i < length secs" "x = secs ! i" using x by (metis in_set_conv_nth)
    have "i \<in> set (order_of secs)" using i(1) mset_eq_setD [OF order_perm, of secs] by simp
    then obtain k where k: "k < length secs" "i = order_of secs ! k" by (metis in_set_conv_nth order_length)
    show ?thesis
    proof (cases "f i")
      case None
      then show ?thesis using \<open>i \<in> set (order_of secs)\<close> i(2) by (auto simp: st(2))
    next
      case (Some y)
      then have "sec_label y = sec_label x" using fate [OF k(1)] fate_within k(2) i(2) by metis
      then show ?thesis using Some i(1) by (auto simp: List.map_filter_def image_iff intro!: bexI [of _ i])
    qed
  qed
  then have e: "filter (\<lambda>l. l \<notin> set (map sec_label (List.map_filter f [0..<length secs])) \<union> set (ts_dropped st)) (map sec_label secs) = []"
    by (auto simp: filter_empty_conv)
  show ?thesis
    using st(2-4) fate unfolding trim_sections_def st_def [symmetric] Let_def s e by (intro exI [of _ f]) simp
qed

section \<open>The default counter and marker\<close>

lemma py_words_join_append: "\<forall>w\<in>set ws. word w \<Longrightarrow> py_space c \<Longrightarrow> py_words (py_join '' '' ws @ c # r) = ws @ py_words r"
proof (induction "'' ''" ws rule: py_join.induct)
  case (2 w)
  then show ?case using py_words_word [of w "c # r"] by simp
next
  case (3 w v ws)
  then show ?case using py_words_word [of w "'' '' @ py_join '' '' (v # ws) @ c # r"] by (simp add: py_space_def)
qed simp

lemma py_words_marker: "length (py_words (default_marker n)) = 3"
proof -
  have d: "\<not> py_space c" if "is_digit c" for c using that by (auto simp: is_digit_def py_space_def)
  have "\<forall>c\<in>set (dec k). \<not> py_space c" for k using dec_digits [of k] d by (auto simp: list_all_iff)
  then have "word (py_str_int n)" using dec_nonempty by (auto simp: word_def py_str_int_def py_space_def)
  then have "py_words (py_join '' '' [''[...truncated'', py_str_int n, ''tokens]'']) = [''[...truncated'', py_str_int n, ''tokens]'']"
    by (intro py_words_join) (auto simp: word_def py_space_def)
  then show ?thesis by (simp add: default_marker_def)
qed

lemma default_cut_count:
  assumes "6 < slack" "slack < default_count t"
  shows "default_count (py_join '' '' (take (nat (slack - 6)) (py_words t)) @ CHR 0x0A # default_marker n) = slack - 3"
proof -
  have "py_words (py_join '' '' (take (nat (slack - 6)) (py_words t)) @ CHR 0x0A # default_marker n) =
      take (nat (slack - 6)) (py_words t) @ py_words (default_marker n)"
    by (intro py_words_join_append) (auto simp: py_space_def dest: in_set_takeD word_py_words)
  then show ?thesis using assms by (simp add: default_count_def py_words_marker)
qed

lemma default_truncation:
  assumes "trim_count tr = default_count" "truncation_marker tr = default_marker" "slack < default_count (sec_text s)"
  shows "truncate_section tr slack s =
    (if truncatable s \<and> 6 < slack
     then Some \<lparr>sec_label = sec_label s, sec_text = py_join '' '' (take (nat (slack - 6)) (py_words (sec_text s))) @
         CHR 0x0A # default_marker (default_count (sec_text s) - (slack - 6)), priority = priority s, truncatable = True\<rparr>
     else None)"
proof (cases "truncatable s \<and> 6 < slack")
  case True
  define hd_words where "hd_words = take (nat (slack - 6)) (py_words (sec_text s))"
  define cut where "cut = py_join '' '' hd_words @ CHR 0x0A # default_marker (default_count (sec_text s) - (slack - 6))"
  have h: "truncate_head (sec_text s) slack = (py_join '' '' hd_words, nat (slack - 6), default_count (sec_text s) - (slack - 6))"
    using True assms(3) by (simp add: truncate_head_def hd_words_def default_count_def Let_def)
  have c: "default_count cut = slack - 3" unfolding cut_def hd_words_def using True assms(3) by (intro default_cut_count) simp_all
  obtain k where "nat (slack - 6) = Suc k" using True by (cases "nat (slack - 6)") auto
  then have "shave_loop tr (sec_text s) slack (nat (slack - 6)) (py_join '' '' hd_words) cut = cut" using c assms(1) by simp
  then show ?thesis using True c unfolding truncate_section_def h prod.case Let_def assms(1,2) hd_words_def [symmetric] cut_def [symmetric] by simp
next
  case False
  then show ?thesis by (auto simp: truncate_section_def truncate_head_def Let_def)
qed

section \<open>The property\<close>

text \<open>What may become of a section that meets some slack: it is kept whole if it fits; if not, it is dropped or replaced by some of
  its first words and a marker line that together fit.  With the default counter and marker it is decided which.\<close>

definition fair_fate :: "section_trimmer \<Rightarrow> int \<Rightarrow> labelled_section \<Rightarrow> labelled_section option \<Rightarrow> bool" where
  "fair_fate tr slack s x \<longleftrightarrow>
     (if trim_count tr (sec_text s) \<le> slack then x = Some s
      else (case x of None \<Rightarrow> True
            | Some y \<Rightarrow> truncatable s \<and> sec_label y = sec_label s \<and> trim_count tr (sec_text y) \<le> slack \<and> cut_text tr (sec_text s) (sec_text y)) \<and>
        (trim_count tr = default_count \<and> truncation_marker tr = default_marker \<longrightarrow>
          map_option sec_text x =
            (if truncatable s \<and> 6 < slack
             then Some (py_join '' '' (take (nat (slack - 6)) (py_words (sec_text s))) @ CHR 0x0A # default_marker (default_count (sec_text s) - (slack - 6)))
             else None)))"

lemma fate_fair: "fair_fate tr slack s (fate tr slack s)"
proof (cases "trim_count tr (sec_text s) \<le> slack")
  case True
  then show ?thesis by (simp add: fate_def fair_fate_def)
next
  case False
  then have t: "fate tr slack s = truncate_section tr slack s" by (simp add: fate_def)
  have "case truncate_section tr slack s of None \<Rightarrow> True
      | Some y \<Rightarrow> truncatable s \<and> sec_label y = sec_label s \<and> trim_count tr (sec_text y) \<le> slack \<and> cut_text tr (sec_text s) (sec_text y)"
  proof (cases "truncate_section tr slack s")
    case (Some y)
    show ?thesis unfolding Some option.case using truncate_section_Some [OF Some] by blast
  qed simp
  moreover have "map_option sec_text (truncate_section tr slack s) =
      (if truncatable s \<and> 6 < slack
       then Some (py_join '' '' (take (nat (slack - 6)) (py_words (sec_text s))) @ CHR 0x0A # default_marker (default_count (sec_text s) - (slack - 6)))
       else None)"
    if "trim_count tr = default_count \<and> truncation_marker tr = default_marker"
    using default_truncation [of tr slack s] that False by auto
  ultimately show ?thesis using False unfolding t fair_fate_def by simp
qed

text \<open>Sections are taken in the order of priority (the earlier first among equals), and every section meets the slack the
  ones before it left; its fate is fair.\<close>

lemma trim_fates:
  assumes "new_trimmer b c marker = Inr tr"
  shows "\<exists>f. let r = trim_sections tr secs; order = order_of secs; cost = (\<lambda>i. case f i of None \<Rightarrow> 0 | Some s \<Rightarrow> c (sec_text s)) in
    tr_sections r = List.map_filter f [0..<length secs] \<and> tr_total_tokens r = (\<Sum>i\<leftarrow>order. cost i) \<and> tr_total_tokens r \<le> b \<and>
    dropped_labels r = map (\<lambda>i. sec_label (secs ! i)) (filter (\<lambda>i. f i = None) order) \<and>
    mset order = mset [0..<length secs] \<and>
    (\<forall>k l. k < l \<and> l < length secs \<longrightarrow>
      priority (secs ! (order ! l)) < priority (secs ! (order ! k)) \<or>
      priority (secs ! (order ! l)) = priority (secs ! (order ! k)) \<and> order ! k < order ! l) \<and>
    (\<forall>k<length secs. fair_fate tr (b - (\<Sum>i\<leftarrow>take k order. cost i)) (secs ! (order ! k)) (f (order ! k)))"
proof -
  have tr: "trim_budget tr = b" "trim_count tr = c" "0 < b" using assms by (auto simp: new_trimmer_def split: if_splits)
  obtain f where f: "tr_sections (trim_sections tr secs) = List.map_filter f [0..<length secs]"
    "tr_total_tokens (trim_sections tr secs) = (\<Sum>i\<leftarrow>order_of secs. fate_cost tr (f i))" "tr_total_tokens (trim_sections tr secs) \<le> b"
    "dropped_labels (trim_sections tr secs) = map (\<lambda>i. sec_label (secs ! i)) (filter (\<lambda>i. f i = None) (order_of secs))"
    "\<forall>k<length secs. f (order_of secs ! k) =
       fate tr (b - (\<Sum>i\<leftarrow>take k (order_of secs). fate_cost tr (f i))) (secs ! (order_of secs ! k))"
    using trim_by_index [of tr secs] tr by auto
  have fair: "\<forall>k<length secs. fair_fate tr (b - (\<Sum>i\<leftarrow>take k (order_of secs). fate_cost tr (f i))) (secs ! (order_of secs ! k)) (f (order_of secs ! k))"
    using f(5) fate_fair by metis
  have ord: "\<forall>k l. k < l \<and> l < length secs \<longrightarrow>
      priority (secs ! (order_of secs ! l)) < priority (secs ! (order_of secs ! k)) \<or>
      priority (secs ! (order_of secs ! l)) = priority (secs ! (order_of secs ! k)) \<and> order_of secs ! k < order_of secs ! l"
    using order_sorted unfolding Let_def by blast
  show ?thesis
    unfolding Let_def
    by (rule exI [of _ f], intro conjI f(1,3,4) f(2) [unfolded fate_cost_def tr(2)] order_perm ord fair [unfolded fate_cost_def tr(2)])
qed

text \<open>While everything so far fits, what was used is what the sections taken so far cost.\<close>

lemma fair_prefix:
  assumes "\<forall>k<n. fair_fate tr (b - (\<Sum>i\<leftarrow>take k order. case f i of None \<Rightarrow> 0 | Some s \<Rightarrow> trim_count tr (sec_text s))) (secs ! (order ! k)) (f (order ! k))"
    "n \<le> length order" "\<forall>j\<le>k. (\<Sum>i\<leftarrow>take j order. trim_count tr (sec_text (secs ! i))) \<le> b" "k \<le> n"
  shows "(\<Sum>i\<leftarrow>take k order. case f i of None \<Rightarrow> 0 | Some s \<Rightarrow> trim_count tr (sec_text s)) = (\<Sum>i\<leftarrow>take k order. trim_count tr (sec_text (secs ! i))) \<and>
    (\<forall>j<k. f (order ! j) = Some (secs ! (order ! j)))"
  using assms(3,4)
proof (induction k)
  case (Suc k)
  then have ih: "(\<Sum>i\<leftarrow>take k order. case f i of None \<Rightarrow> 0 | Some s \<Rightarrow> trim_count tr (sec_text s)) = (\<Sum>i\<leftarrow>take k order. trim_count tr (sec_text (secs ! i)))"
    "\<forall>j<k. f (order ! j) = Some (secs ! (order ! j))" by auto
  have k: "k < n" "k < length order" using Suc.prems(2) assms(2) by simp_all
  have "(\<Sum>i\<leftarrow>take (Suc k) order. trim_count tr (sec_text (secs ! i))) \<le> b" using Suc.prems(1) by blast
  then have "trim_count tr (sec_text (secs ! (order ! k))) \<le> b - (\<Sum>i\<leftarrow>take k order. trim_count tr (sec_text (secs ! i)))"
    using k by (simp add: take_Suc_conv_app_nth)
  then have f: "f (order ! k) = Some (secs ! (order ! k))" using assms(1) k(1) ih(1) by (simp add: fair_fate_def)
  then show ?case using ih k by (auto simp: take_Suc_conv_app_nth less_Suc_eq)
qed simp

text \<open>C16. Sections are taken in the order of priority, the earlier first among equals.  As long as everything so far fits
  the budget, each is kept whole; the first that does not fit is dropped, unless it is truncatable, when some
  of its first words and a marker line that together fit what is left may stay.  Nothing is emitted but input sections
  and such cuts under their own labels, in the input order; the total is what they cost and within the budget, and
  exactly the labels of the others are dropped.  Which of the sections behind the first that does not fit are kept, and how
  long a cut is, are left out: there the code is not what its documents say.\<close>

theorem trim_sections_exact:
  assumes "new_trimmer b c marker = Inr tr"
  shows "\<exists>f. let r = trim_sections tr secs; order = order_of secs; need = (\<lambda>k. \<Sum>i\<leftarrow>take k order. c (sec_text (secs ! i))) in
    tr_sections r = List.map_filter f [0..<length secs] \<and>
    tr_total_tokens r = (\<Sum>i\<leftarrow>order. case f i of None \<Rightarrow> 0 | Some s \<Rightarrow> c (sec_text s)) \<and> tr_total_tokens r \<le> b \<and>
    dropped_labels r = map (\<lambda>i. sec_label (secs ! i)) (filter (\<lambda>i. f i = None) order) \<and>
    mset order = mset [0..<length secs] \<and>
    (\<forall>k l. k < l \<and> l < length secs \<longrightarrow>
      priority (secs ! (order ! l)) < priority (secs ! (order ! k)) \<or>
      priority (secs ! (order ! l)) = priority (secs ! (order ! k)) \<and> order ! k < order ! l) \<and>
    (\<forall>k<length secs. (\<forall>j\<le>Suc k. need j \<le> b) \<longrightarrow> f (order ! k) = Some (secs ! (order ! k))) \<and>
    (\<forall>k<length secs. (\<forall>j\<le>k. need j \<le> b) \<and> need (Suc k) > b \<longrightarrow>
      (case f (order ! k) of None \<Rightarrow> True
       | Some y \<Rightarrow> truncatable (secs ! (order ! k)) \<and> c (sec_text y) \<le> b - need k)) \<and>
    (\<forall>i<length secs. case f i of None \<Rightarrow> True
       | Some y \<Rightarrow> y = secs ! i \<or> truncatable (secs ! i) \<and> sec_label y = sec_label (secs ! i) \<and> cut_text tr (sec_text (secs ! i)) (sec_text y))"
proof -
  have tr: "trim_count tr = c" using assms by (auto simp: new_trimmer_def split: if_splits)
  let ?order = "order_of secs" and ?n = "length secs"
  let ?need = "\<lambda>k. \<Sum>i\<leftarrow>take k ?order. c (sec_text (secs ! i))"
  obtain f where f: "tr_sections (trim_sections tr secs) = List.map_filter f [0..<?n]"
    "tr_total_tokens (trim_sections tr secs) = (\<Sum>i\<leftarrow>?order. case f i of None \<Rightarrow> 0 | Some s \<Rightarrow> c (sec_text s))"
    "tr_total_tokens (trim_sections tr secs) \<le> b"
    "dropped_labels (trim_sections tr secs) = map (\<lambda>i. sec_label (secs ! i)) (filter (\<lambda>i. f i = None) ?order)"
    "mset ?order = mset [0..<?n]"
    "\<forall>k l. k < l \<and> l < ?n \<longrightarrow>
      priority (secs ! (?order ! l)) < priority (secs ! (?order ! k)) \<or>
      priority (secs ! (?order ! l)) = priority (secs ! (?order ! k)) \<and> ?order ! k < ?order ! l"
    "\<forall>k<?n. fair_fate tr (b - (\<Sum>i\<leftarrow>take k ?order. case f i of None \<Rightarrow> 0 | Some s \<Rightarrow> c (sec_text s))) (secs ! (?order ! k)) (f (?order ! k))"
    using trim_fates [OF assms, of secs] unfolding Let_def by blast
  have len: "length ?order = ?n" using f(5) by (metis length_upt minus_nat.diff_0 size_mset)
  note pre = fair_prefix [where tr = tr and b = b and order = ?order and f = f and secs = secs and n = ?n, unfolded tr, OF f(7) eq_imp_le [OF len [symmetric]]]
  have whole: "f (?order ! k) = Some (secs ! (?order ! k))" if "k < ?n" "\<forall>j\<le>Suc k. ?need j \<le> b" for k
    using pre [of "Suc k"] that by simp
  have first: "case f (?order ! k) of None \<Rightarrow> True
       | Some y \<Rightarrow> truncatable (secs ! (?order ! k)) \<and> c (sec_text y) \<le> b - ?need k"
    if "k < ?n" "\<forall>j\<le>k. ?need j \<le> b" "?need (Suc k) > b" for k
  proof -
    have u: "(\<Sum>i\<leftarrow>take k ?order. case f i of None \<Rightarrow> 0 | Some s \<Rightarrow> c (sec_text s)) = ?need k"
      using pre [of k] that(1,2) by simp
    have "\<not> c (sec_text (secs ! (?order ! k))) \<le> b - ?need k" using that(1,3) len by (simp add: take_Suc_conv_app_nth)
    moreover have "fair_fate tr (b - ?need k) (secs ! (?order ! k)) (f (?order ! k))"
      using f(7) [rule_format, OF that(1)] unfolding u .
    ultimately show ?thesis unfolding fair_fate_def tr by (cases "f (?order ! k)") simp_all
  qed
  have own: "case f i of None \<Rightarrow> True
       | Some y \<Rightarrow> y = secs ! i \<or> truncatable (secs ! i) \<and> sec_label y = sec_label (secs ! i) \<and> cut_text tr (sec_text (secs ! i)) (sec_text y)"
    if "i < ?n" for i
  proof -
    have "i \<in> set ?order" using f(5) that by (metis atLeast0LessThan lessThan_iff set_mset_mset set_upt)
    then obtain k where k: "k < ?n" "?order ! k = i" using len by (metis in_set_conv_nth)
    show ?thesis using f(7) [rule_format, OF k(1)] unfolding fair_fate_def k(2) by (cases "f i") (simp_all split: if_splits)
  qed
  show ?thesis unfolding Let_def
    by (rule exI [of _ f], intro conjI f(1-6) allI impI) (erule (1) whole, elim conjE, erule (2) first, erule own)
qed

definition demo_section :: "string \<Rightarrow> nat \<Rightarrow> int \<Rightarrow> bool \<Rightarrow> labelled_section" where
  "demo_section l n p t = \<lparr>sec_label = l, sec_text = py_join '' '' (replicate n ''w''), priority = p, truncatable = t\<rparr>"

definition demo_trimmer :: "int \<Rightarrow> section_trimmer" where
  "demo_trimmer b = \<lparr>trim_budget = b, trim_count = default_count, truncation_marker = default_marker\<rparr>"

theorem trim_sections_exact_witness:
  "tr_total_tokens (trim_sections (demo_trimmer 10) [demo_section ''a'' 3 1 False, demo_section ''b'' 12 5 True]) \<le> 10"
proof -
  have "new_trimmer 10 default_count default_marker = Inr (demo_trimmer 10)" by (simp add: new_trimmer_def demo_trimmer_def)
  from trim_sections_exact [OF this, of "[demo_section ''a'' 3 1 False, demo_section ''b'' 12 5 True]"]
  show ?thesis by (auto simp: Let_def)
qed

section \<open>What the documentation says otherwise\<close>

text \<open>Trimming does not stop at the first section that does not fit: a section of lower priority behind it is kept.\<close>

lemma lower_priority_survives:
  "kept_labels (trim_sections (demo_trimmer 1) [demo_section ''low'' 1 1 False, demo_section ''high'' 2 5 False]) = [''low'']"
  by code_simp

text \<open>The head is not sized to the slack: six tokens are set aside for a marker of three, and a slack of six is not used at all.\<close>

lemma truncation_wastes_slack:
  assumes "trim_count tr = default_count" "truncation_marker tr = default_marker" "slack < default_count (sec_text s)"
  shows "truncate_section tr slack s = Some x \<Longrightarrow> default_count (sec_text x) = slack - 3"
    and "slack \<le> 6 \<Longrightarrow> truncate_section tr slack s = None"
  using default_cut_count [OF _ assms(3)] unfolding default_truncation [OF assms] by (auto split: if_splits)

end
