(* ===== verification/Step_Budget.thy ===== *)
theory Step_Budget
  imports Prelude
begin

text \<open>
  The step-budget monitor with phases (\<open>agent-step-budget-monitor/monitor.py\<close>): every phase has its share of
  the steps, a soft warning and a hard cut.  The allocations are a dictionary that does not change after
  construction.
\<close>

section \<open>The monitor\<close>

record step_monitor =
  sb_total :: int
  sb_alloc :: "(string, int) dict"
  warn_at :: rat
  sb_spent :: "(string, int) dict"
  sb_warned :: "(string, bool) dict"

datatype step_error =
    TotalBudgetNotPositive
  | WarnAtOutOfRange
  | AllocationsSumTo int
  | AllocationNotPositiveFor string
  | UnknownPhase string
  | NegativeSteps
  | StepsExhausted string int int

fun bad_allocation :: "(string, int) dict \<Rightarrow> string option" where
  "bad_allocation [] = None"
| "bad_allocation ((p, a) # d) = (if a \<le> 0 then Some p else bad_allocation d)"

definition new_step_monitor :: "int \<Rightarrow> (string, int) dict \<Rightarrow> rat \<Rightarrow> step_error + step_monitor" where
  "new_step_monitor steps allocs warn =
     (if steps \<le> 0 then Inl TotalBudgetNotPositive
      else if \<not> (0 < warn \<and> warn \<le> 1) then Inl WarnAtOutOfRange
      else
        (let s = (\<Sum>(p, a)\<leftarrow>allocs. a) in
         if s \<noteq> steps then Inl (AllocationsSumTo s)
         else
           (case bad_allocation allocs of
              Some p \<Rightarrow> Inl (AllocationNotPositiveFor p)
            | None \<Rightarrow> Inr \<lparr>sb_total = steps, sb_alloc = allocs, warn_at = warn, sb_spent = map (\<lambda>(p, a). (p, 0)) allocs,
                sb_warned = map (\<lambda>(p, a). (p, False)) allocs\<rparr>)))"

definition phase_remaining :: "step_monitor \<Rightarrow> string \<Rightarrow> step_error + int" where
  "phase_remaining m p =
     (case dict_get (sb_alloc m) p of
        None \<Rightarrow> Inl (UnknownPhase p)
      | Some alloc \<Rightarrow> Inr (alloc - the (dict_get (sb_spent m) p)))"

record charge_result =
  ch_phase :: string
  charged :: int
  ch_remaining :: int
  warned :: bool

definition warn_threshold :: "rat \<Rightarrow> int \<Rightarrow> int" where
  "warn_threshold warn alloc = \<lfloor>of_int alloc * warn\<rfloor>"

definition charge_steps :: "step_monitor \<Rightarrow> string \<times> int \<Rightarrow> (step_error, charge_result, step_monitor) outcome" where
  "charge_steps m x =
     (case x of (p, n) \<Rightarrow>
        (case dict_get (sb_alloc m) p of
           None \<Rightarrow> (Inl (UnknownPhase p), m)
         | Some alloc \<Rightarrow>
             (if n < 0 then (Inl NegativeSteps, m)
              else if n = 0 then
                (map_sum id (\<lambda>r. \<lparr>ch_phase = p, charged = 0, ch_remaining = r, warned = False\<rparr>) (phase_remaining m p), m)
              else
                (let before = the (dict_get (sb_spent m) p); after = before + n in
                 if after > alloc then (Inl (StepsExhausted p n (alloc - before)), m\<lparr>sb_spent := dict_set p alloc (sb_spent m)\<rparr>)
                 else
                   (let m = m\<lparr>sb_spent := dict_set p after (sb_spent m)\<rparr>;
                        threshold = warn_threshold (warn_at m) alloc;
                        crossed_warn = (\<not> the (dict_get (sb_warned m) p) \<and> after \<ge> threshold);
                        m = (if crossed_warn then m\<lparr>sb_warned := dict_set p True (sb_warned m)\<rparr> else m) in
                    (Inr \<lparr>ch_phase = p, charged = n, ch_remaining = alloc - after, warned = crossed_warn\<rparr>, m))))))"

record phase_row =
  row_phase :: string
  allocated :: int
  spent :: int
  row_remaining :: int
  pct_used :: rat
  row_warned :: bool

record step_snapshot =
  snap_total :: int
  total_spent :: int
  total_remaining :: int
  snap_phases :: "phase_row list"

definition step_snapshot_of :: "step_monitor \<Rightarrow> step_snapshot" where
  "step_snapshot_of m =
     (let rows = map (\<lambda>(p, alloc). let s = the (dict_get (sb_spent m) p) in
            \<lparr>row_phase = p, allocated = alloc, spent = s, row_remaining = alloc - s, pct_used = of_int s / of_int alloc,
             row_warned = the (dict_get (sb_warned m) p)\<rparr>) (sb_alloc m);
          sum_spent = (\<Sum>(p, s)\<leftarrow>sb_spent m. s) in
      \<lparr>snap_total = sb_total m, total_spent = sum_spent, total_remaining = sb_total m - sum_spent, snap_phases = rows\<rparr>)"

section \<open>The history of a session\<close>

text \<open>What a phase was granted, and whether a charge of it was refused.\<close>

type_synonym charges = "((string \<times> int) \<times> (step_error + charge_result)) list"

definition granted_steps :: "string \<Rightarrow> charges \<Rightarrow> int" where
  "granted_steps p h = (\<Sum>(x, r)\<leftarrow>h. case r of Inr c \<Rightarrow> if fst x = p then charged c else 0 | Inl e \<Rightarrow> 0)"

definition phase_closed :: "string \<Rightarrow> charges \<Rightarrow> bool" where
  "phase_closed p h \<longleftrightarrow> (\<exists>(x, r)\<in>set h. fst x = p \<and> (case r of Inl (StepsExhausted q n k) \<Rightarrow> True | _ \<Rightarrow> False))"

definition expected_charge :: "(string, int) dict \<Rightarrow> rat \<Rightarrow> charges \<Rightarrow> string \<times> int \<Rightarrow> step_error + charge_result" where
  "expected_charge allocs warn h x =
     (case x of (p, n) \<Rightarrow>
        (case dict_get allocs p of
           None \<Rightarrow> Inl (UnknownPhase p)
         | Some alloc \<Rightarrow>
             (let left = (if phase_closed p h then 0 else alloc - granted_steps p h) in
              if n < 0 then Inl NegativeSteps
              else if n = 0 then Inr \<lparr>ch_phase = p, charged = 0, ch_remaining = left, warned = False\<rparr>
              else if left < n then Inl (StepsExhausted p n left)
              else Inr \<lparr>ch_phase = p, charged = n, ch_remaining = left - n,
                warned = (warn_threshold warn alloc \<le> granted_steps p h + n \<and> \<not> (0 < granted_steps p h \<and> warn_threshold warn alloc \<le> granted_steps p h))\<rparr>)))"

definition monitor_follows :: "step_monitor \<Rightarrow> charges \<Rightarrow> step_monitor \<Rightarrow> bool" where
  "monitor_follows m0 h m \<longleftrightarrow> sb_alloc m = sb_alloc m0 \<and> warn_at m = warn_at m0 \<and>
     (\<forall>p alloc. dict_get (sb_alloc m0) p = Some alloc \<longrightarrow>
        0 \<le> granted_steps p h \<and> granted_steps p h \<le> alloc \<and>
        dict_get (sb_spent m) p = Some (if phase_closed p h then alloc else granted_steps p h) \<and>
        dict_get (sb_warned m) p = Some (0 < granted_steps p h \<and> warn_threshold (warn_at m0) alloc \<le> granted_steps p h))"

lemma granted_append: "granted_steps p (h @ [(x, r)]) = granted_steps p h + (case r of Inr c \<Rightarrow> if fst x = p then charged c else 0 | Inl e \<Rightarrow> 0)"
  by (simp add: granted_steps_def)

lemma closed_append: "phase_closed p (h @ [(x, r)]) \<longleftrightarrow> phase_closed p h \<or> fst x = p \<and> (case r of Inl (StepsExhausted q n k) \<Rightarrow> True | _ \<Rightarrow> False)"
  by (auto simp: phase_closed_def)

lemma charge_follows:
  assumes "monitor_follows m0 h m" "charge_steps m x = (r, m')"
  shows "r = expected_charge (sb_alloc m0) (warn_at m0) h x \<and> monitor_follows m0 (h @ [(x, r)]) m'"
proof -
  obtain p n where x: "x = (p, n)" by (cases x)
  have m: "sb_alloc m = sb_alloc m0" "warn_at m = warn_at m0" using assms(1) by (simp_all add: monitor_follows_def)
  show ?thesis
  proof (cases "dict_get (sb_alloc m0) p")
    case None
    then have "r = Inl (UnknownPhase p)" "m' = m" using assms(2) by (simp_all add: x m charge_steps_def)
    then show ?thesis using assms(1) None by (auto simp: x expected_charge_def monitor_follows_def granted_append closed_append)
  next
    case (Some alloc)
    let ?g = "granted_steps p h" and ?thr = "warn_threshold (warn_at m0) alloc"
    have g: "0 \<le> ?g" "?g \<le> alloc" "dict_get (sb_spent m) p = Some (if phase_closed p h then alloc else ?g)"
        "dict_get (sb_warned m) p = Some (0 < ?g \<and> ?thr \<le> ?g)"
      using assms(1) Some by (auto simp: monitor_follows_def)
    consider (idle) "n \<le> 0" | (refuse) "0 < n" "(if phase_closed p h then 0 else alloc - ?g) < n"
      | (grant) "0 < n" "\<not> phase_closed p h" "?g + n \<le> alloc"
      by (cases "n \<le> 0"; cases "phase_closed p h"; cases "?g + n \<le> alloc") auto
    then show ?thesis
    proof cases
      case idle
      then have "r = expected_charge (sb_alloc m0) (warn_at m0) h x" "m' = m"
        using assms(2) Some g(3) by (auto simp: x m charge_steps_def expected_charge_def phase_remaining_def split: if_splits)
      then show ?thesis using assms(1) idle Some
        by (auto simp: x expected_charge_def monitor_follows_def granted_append closed_append)
    next
      case refuse
      then have "r = Inl (StepsExhausted p n (if phase_closed p h then 0 else alloc - ?g))" "m' = m\<lparr>sb_spent := dict_set p alloc (sb_spent m)\<rparr>"
        using assms(2) Some g(3) by (auto simp: x m charge_steps_def Let_def split: if_splits)
      then show ?thesis using assms(1) refuse Some
        by (auto simp: x expected_charge_def monitor_follows_def granted_append closed_append)
    next
      case grant
      then have "charge_steps m x = (Inr \<lparr>ch_phase = p, charged = n, ch_remaining = alloc - (?g + n), warned = (\<not> (0 < ?g \<and> ?thr \<le> ?g) \<and> ?thr \<le> ?g + n)\<rparr>,
          (let m = m\<lparr>sb_spent := dict_set p (?g + n) (sb_spent m)\<rparr> in
           if \<not> (0 < ?g \<and> ?thr \<le> ?g) \<and> ?thr \<le> ?g + n then m\<lparr>sb_warned := dict_set p True (sb_warned m)\<rparr> else m))"
        using Some g(3,4) by (simp add: x m charge_steps_def Let_def)
      then have r: "r = Inr \<lparr>ch_phase = p, charged = n, ch_remaining = alloc - (?g + n), warned = (\<not> (0 < ?g \<and> ?thr \<le> ?g) \<and> ?thr \<le> ?g + n)\<rparr>"
        and m': "m' = (let m = m\<lparr>sb_spent := dict_set p (?g + n) (sb_spent m)\<rparr> in
           if \<not> (0 < ?g \<and> ?thr \<le> ?g) \<and> ?thr \<le> ?g + n then m\<lparr>sb_warned := dict_set p True (sb_warned m)\<rparr> else m)"
        using assms(2) by simp_all
      have "r = expected_charge (sb_alloc m0) (warn_at m0) h x" using grant Some r by (auto simp: x expected_charge_def)
      moreover have "monitor_follows m0 (h @ [(x, r)]) m'"
      proof -
        have other: "granted_steps q (h @ [(x, r)]) = granted_steps q h + (if q = p then n else 0)" "phase_closed q (h @ [(x, r)]) = phase_closed q h" for q
          by (auto simp: x r granted_append closed_append)
        have pos: "0 < ?g + n" using g(1) grant(1) by linarith
        have s: "sb_alloc m' = sb_alloc m0" "warn_at m' = warn_at m0" "sb_spent m' = dict_set p (?g + n) (sb_spent m)"
          "sb_warned m' = (if \<not> (0 < ?g \<and> ?thr \<le> ?g) \<and> ?thr \<le> ?g + n then dict_set p True (sb_warned m) else sb_warned m)"
          using m by (simp_all add: m' Let_def)
        show ?thesis
          using assms(1) grant Some g pos unfolding monitor_follows_def other s by (auto split: if_splits)
      qed
      ultimately show ?thesis by blast
    qed
  qed
qed

lemma run_follows:
  assumes "monitor_follows m0 h m" "run charge_steps m xs = (rs, m')"
  shows "(\<forall>i<length xs. rs ! i = expected_charge (sb_alloc m0) (warn_at m0) (h @ take i (zip xs rs)) (xs ! i)) \<and>
    monitor_follows m0 (h @ zip xs rs) m'"
  using assms
proof (induction xs arbitrary: h m rs)
  case (Cons x xs)
  obtain r m1 where c: "charge_steps m x = (r, m1)" by (cases "charge_steps m x")
  obtain rs1 where rs: "rs = r # rs1" "run charge_steps m1 xs = (rs1, m')"
    using Cons.prems(2) c by (cases "run charge_steps m1 xs") auto
  note step = charge_follows [OF Cons.prems(1) c]
  have ih: "(\<forall>i<length xs. rs1 ! i = expected_charge (sb_alloc m0) (warn_at m0) ((h @ [(x, r)]) @ take i (zip xs rs1)) (xs ! i)) \<and>
      monitor_follows m0 ((h @ [(x, r)]) @ zip xs rs1) m'"
    by (rule Cons.IH [OF conjunct2 [OF step] rs(2)])
  show ?case unfolding rs
  proof (intro conjI allI impI)
    fix i assume i: "i < length (x # xs)"
    show "(r # rs1) ! i = expected_charge (sb_alloc m0) (warn_at m0) (h @ take i (zip (x # xs) (r # rs1))) ((x # xs) ! i)"
      using step ih i by (cases i) auto
  qed (use ih in simp)
qed simp

lemma new_monitor_follows:
  assumes "new_step_monitor steps allocs warn = Inr m" "dict_wf allocs"
  shows "monitor_follows m [] m \<and> sb_alloc m = allocs \<and> warn_at m = warn \<and> steps = (\<Sum>(p, a)\<leftarrow>allocs. a)"
proof -
  have pos: "bad_allocation d = None \<Longrightarrow> dict_get d p = Some a \<Longrightarrow> 0 < a" for d p a
    by (induction d rule: bad_allocation.induct) (auto split: if_splits)
  have get: "dict_get (map (\<lambda>(p, a). (p, c)) d) p = map_option (\<lambda>_. c) (dict_get d p)" for d p and c :: 'x
    by (induction d) auto
  show ?thesis using assms pos [of allocs]
    by (auto simp: new_step_monitor_def monitor_follows_def granted_steps_def phase_closed_def get Let_def less_imp_le split: if_splits option.splits)
qed

section \<open>The property\<close>

text \<open>Every charge of a session answers as the history says: an unknown phase and a negative number are rejected, a
  phase grants a charge exactly when what it granted so far leaves room and no charge of it was refused before, and
  it warns at the first grant that brings it to the threshold and at no other.  So no phase grants more than its
  allocation, and the monitor's remaining steps are those of the history.\<close>

theorem step_budget_exact:
  assumes "new_step_monitor steps allocs warn = Inr m" "dict_wf allocs" "run charge_steps m xs = (rs, m')"
  shows "(\<forall>i<length xs. rs ! i = expected_charge allocs warn (take i (zip xs rs)) (xs ! i)) \<and>
    (\<forall>p alloc. dict_get allocs p = Some alloc \<longrightarrow> 0 \<le> granted_steps p (zip xs rs) \<and> granted_steps p (zip xs rs) \<le> alloc \<and>
      phase_remaining m' p = Inr (if phase_closed p (zip xs rs) then 0 else alloc - granted_steps p (zip xs rs)))"
proof -
  have n: "monitor_follows m [] m" "sb_alloc m = allocs" "warn_at m = warn" using new_monitor_follows [OF assms(1,2)] by simp_all
  note f = run_follows [OF n(1) assms(3), unfolded append_Nil n(2,3)]
  have a: "sb_alloc m' = allocs" using f n(2) by (simp add: monitor_follows_def)
  have "0 \<le> granted_steps p (zip xs rs) \<and> granted_steps p (zip xs rs) \<le> alloc \<and>
      phase_remaining m' p = Inr (if phase_closed p (zip xs rs) then 0 else alloc - granted_steps p (zip xs rs))"
    if "dict_get allocs p = Some alloc" for p alloc
    using f that n(2) by (simp add: monitor_follows_def phase_remaining_def a)
  then show ?thesis using f by blast
qed

definition demo_allocs :: "(string, int) dict" where
  "demo_allocs = [(''plan'', 4), (''work'', 6)]"

theorem step_budget_exact_witness:
  "\<exists>m. new_step_monitor 10 demo_allocs (4 / 5) = Inr m \<and>
     (let rs = fst (run charge_steps m [(''plan'', 3), (''work'', 7), (''work'', 1)]) in granted_steps ''plan'' (zip [(''plan'', 3), (''work'', 7), (''work'', 1)] rs) \<le> 4)"
proof -
  obtain m where m: "new_step_monitor 10 demo_allocs (4 / 5) = Inr m" by (simp add: new_step_monitor_def demo_allocs_def)
  obtain rs m' where r: "run charge_steps m [(''plan'', 3), (''work'', 7), (''work'', 1)] = (rs, m')" by fastforce
  have "dict_get demo_allocs ''plan'' = Some 4" "dict_wf demo_allocs" by (simp_all add: demo_allocs_def dict_wf_def)
  then have "granted_steps ''plan'' (zip [(''plan'', 3), (''work'', 7), (''work'', 1)] rs) \<le> 4"
    using step_budget_exact [OF m _ r] by blast
  then show ?thesis using m r by simp
qed

section \<open>What the documentation says otherwise\<close>

text \<open>A phase that one large charge exhausts never warns; and with \<open>warn_at\<close> 1 the last step still does.\<close>

lemma exhausted_without_warning:
  "\<exists>m. new_step_monitor 10 demo_allocs (4 / 5) = Inr m \<and>
     fst (run charge_steps m [(''work'', 7), (''work'', 1)]) = [Inl (StepsExhausted ''work'' 7 6), Inl (StepsExhausted ''work'' 1 0)]"
  by (simp add: new_step_monitor_def demo_allocs_def charge_steps_def)

lemma full_threshold_warns:
  "\<exists>m. new_step_monitor 10 demo_allocs 1 = Inr m \<and>
     fst (charge_steps m (''plan'', 4)) = Inr \<lparr>ch_phase = ''plan'', charged = 4, ch_remaining = 0, warned = True\<rparr>"
  by (simp add: new_step_monitor_def demo_allocs_def charge_steps_def warn_threshold_def)

text \<open>The snapshot counts the steps that were refused as spent.\<close>

lemma snapshot_counts_refused:
  "\<exists>m. new_step_monitor 10 demo_allocs (4 / 5) = Inr m \<and> total_spent (step_snapshot_of (snd (charge_steps m (''work'', 7)))) = 6"
  by (simp add: new_step_monitor_def demo_allocs_def charge_steps_def step_snapshot_of_def)

end
