(* ===== verification/Rate_Meter.thy ===== *)
theory Rate_Meter
  imports Prelude
begin

text \<open>
  The rate meter of a token stream (\<open>streaming-token-rate-meter/meter.py\<close>).  Times are arguments, also where
  the code reads its injected clock.  The deque of samples has its oldest at the head.
\<close>

section \<open>The meter\<close>

record token_meter =
  window_s :: rat
  stall_threshold_s :: rat
  started_at :: "rat option"
  last_chunk_at :: "rat option"
  m_ttft_s :: "rat option"
  samples :: "(rat \<times> int) list"
  m_total :: int
  m_chunks :: nat
  m_max_gap :: rat
  m_last_gap :: "rat option"

datatype meter_error =
    MeterWindowNotPositive
  | StallThresholdNotPositive
  | StartedTwice
  | NotStarted
  | NegativeDelta
  | PrecedesStart rat rat
  | ClockWentBackwards

definition new_meter :: "rat \<Rightarrow> rat \<Rightarrow> meter_error + token_meter" where
  "new_meter w stall =
     (if w \<le> 0 then Inl MeterWindowNotPositive
      else if stall \<le> 0 then Inl StallThresholdNotPositive
      else Inr \<lparr>window_s = w, stall_threshold_s = stall, started_at = None, last_chunk_at = None, m_ttft_s = None, samples = [],
        m_total = 0, m_chunks = 0, m_max_gap = 0, m_last_gap = None\<rparr>)"

definition meter_start :: "rat \<Rightarrow> token_meter \<Rightarrow> (meter_error, unit, token_meter) outcome" where
  "meter_start at_s m = (if started_at m \<noteq> None then (Inl StartedTwice, m) else (Inr (), m\<lparr>started_at := Some at_s\<rparr>))"

definition count_sample :: "rat \<Rightarrow> rat \<Rightarrow> int \<Rightarrow> token_meter \<Rightarrow> token_meter" where
  "count_sample start now_s delta m =
     (if delta > 0 then
        m\<lparr>m_ttft_s := (if m_ttft_s m = None then Some (now_s - start) else m_ttft_s m), samples := samples m @ [(now_s, delta)],
          m_total := m_total m + delta\<rparr>
      else m)"

definition count_gap :: "rat \<Rightarrow> token_meter \<Rightarrow> token_meter" where
  "count_gap now_s m =
     (case last_chunk_at m of
        None \<Rightarrow> m
      | Some l \<Rightarrow> (let gap = now_s - l in m\<lparr>m_last_gap := Some gap, m_max_gap := (if gap > m_max_gap m then gap else m_max_gap m)\<rparr>))"

definition meter_observe :: "rat \<Rightarrow> int \<Rightarrow> token_meter \<Rightarrow> (meter_error, unit, token_meter) outcome" where
  "meter_observe now_s delta m =
     (case started_at m of
        None \<Rightarrow> (Inl NotStarted, m)
      | Some start \<Rightarrow>
          (if delta < 0 then (Inl NegativeDelta, m)
           else if now_s < start then (Inl (PrecedesStart now_s start), m)
           else if (case last_chunk_at m of None \<Rightarrow> False | Some l \<Rightarrow> now_s < l) then (Inl ClockWentBackwards, m)
           else
             (let m = count_gap now_s (count_sample start now_s delta m) in
              (Inr (), m\<lparr>last_chunk_at := Some now_s, m_chunks := m_chunks m + 1\<rparr>))))"

record rate_snapshot =
  elapsed_s :: rat
  rs_total_tokens :: int
  chunks_seen :: nat
  ttft_s :: "rat option"
  window_tokens_per_s :: rat
  last_gap_s :: "rat option"
  max_gap_s :: rat
  is_stalled :: bool
  cumulative_tokens_per_s :: rat

definition meter_snapshot :: "rat \<Rightarrow> token_meter \<Rightarrow> (meter_error, rate_snapshot, token_meter) outcome" where
  "meter_snapshot t m =
     (case started_at m of
        None \<Rightarrow> (Inl NotStarted, m)
      | Some start \<Rightarrow>
          (if t < start then (Inl (PrecedesStart t start), m)
           else
             (let cutoff = t - window_s m;
                  m = m\<lparr>samples := dropWhile (\<lambda>x. fst x < cutoff) (samples m)\<rparr>;
                  elapsed = t - start;
                  wps = of_int (\<Sum>x\<leftarrow>samples m. snd x) / window_s m;
                  stalled = (case last_chunk_at m of
                      Some l \<Rightarrow> t - l > stall_threshold_s m
                    | None \<Rightarrow> elapsed > stall_threshold_s m);
                  cum_wps = (if elapsed > 0 then of_int (m_total m) / elapsed else 0) in
              (Inr \<lparr>elapsed_s = py_round 6 elapsed, rs_total_tokens = m_total m, chunks_seen = m_chunks m,
                 ttft_s = map_option (py_round 6) (m_ttft_s m), window_tokens_per_s = py_round 6 wps,
                 last_gap_s = map_option (py_round 6) (m_last_gap m), max_gap_s = py_round 6 (m_max_gap m),
                 is_stalled = stalled, cumulative_tokens_per_s = py_round 6 cum_wps\<rparr>, m))))"

section \<open>Sessions\<close>

datatype meter_op = Observe rat int | TakeSnapshot rat

fun mop_time :: "meter_op \<Rightarrow> rat" where
  "mop_time (Observe t n) = t"
| "mop_time (TakeSnapshot t) = t"

fun meter_step :: "token_meter \<Rightarrow> meter_op \<Rightarrow> (meter_error, rate_snapshot option, token_meter) outcome" where
  "meter_step m (Observe t n) = map_prod (map_sum id (\<lambda>_. None)) id (meter_observe t n m)"
| "meter_step m (TakeSnapshot t) = map_prod (map_sum id Some) id (meter_snapshot t m)"

text \<open>What a snapshot should show, from the chunks seen so far: \<open>h\<close> has their times and tokens.\<close>

fun gaps :: "(rat \<times> int) list \<Rightarrow> rat list" where
  "gaps (x # y # h) = (fst y - fst x) # gaps (y # h)"
| "gaps h = []"

definition snapshot_spec :: "rat \<Rightarrow> rat \<Rightarrow> rat \<Rightarrow> (rat \<times> int) list \<Rightarrow> rat \<Rightarrow> rate_snapshot" where
  "snapshot_spec w stall start h t =
     \<lparr>elapsed_s = py_round 6 (t - start), rs_total_tokens = (\<Sum>x\<leftarrow>h. snd x), chunks_seen = length h,
      ttft_s = map_option (\<lambda>x. py_round 6 (fst x - start)) (find (\<lambda>x. snd x > 0) h),
      window_tokens_per_s = py_round 6 (of_int (\<Sum>x\<leftarrow>filter (\<lambda>x. t - w \<le> fst x) h. snd x) / w),
      last_gap_s = (if gaps h = [] then None else Some (py_round 6 (last (gaps h)))),
      max_gap_s = py_round 6 (Max (insert 0 (set (gaps h)))),
      is_stalled = (t - (if h = [] then start else fst (last h)) > stall),
      cumulative_tokens_per_s = py_round 6 (if t - start > 0 then of_int (\<Sum>x\<leftarrow>h. snd x) / (t - start) else 0)\<rparr>"

text \<open>The meter after the chunks \<open>h\<close>, when everything happened up to \<open>t\<close>.\<close>

definition meter_follows :: "rat \<Rightarrow> rat \<Rightarrow> rat \<Rightarrow> (rat \<times> int) list \<Rightarrow> rat \<Rightarrow> token_meter \<Rightarrow> bool" where
  "meter_follows w stall start h t m \<longleftrightarrow>
     0 < w \<and> window_s m = w \<and> stall_threshold_s m = stall \<and> started_at m = Some start \<and>
     sorted (start # map fst h @ [t]) \<and> list_all (\<lambda>x. 0 \<le> snd x) h \<and>
     last_chunk_at m = (if h = [] then None else Some (fst (last h))) \<and>
     m_ttft_s m = map_option (\<lambda>x. fst x - start) (find (\<lambda>x. snd x > 0) h) \<and>
     (\<exists>c\<le>t - w. samples m = filter (\<lambda>x. 0 < snd x \<and> c \<le> fst x) h) \<and>
     m_total m = (\<Sum>x\<leftarrow>h. snd x) \<and> m_chunks m = length h \<and>
     m_max_gap m = Max (insert 0 (set (gaps h))) \<and> m_last_gap m = (if gaps h = [] then None else Some (last (gaps h)))"

lemma gaps_snoc: "gaps (h @ [x]) = gaps h @ (if h = [] then [] else [fst x - fst (last h)])"
  by (induction h rule: gaps.induct) simp_all

lemma sum_positive: "list_all (\<lambda>x. 0 \<le> snd x) h \<Longrightarrow> (\<Sum>x\<leftarrow>filter (\<lambda>x. 0 < snd x \<and> P x) h. snd x) = (\<Sum>x\<leftarrow>filter P h. snd x :: int)"
  by (induction h) auto

lemma dropWhile_sorted: "sorted (map fst xs) \<Longrightarrow> dropWhile (\<lambda>x. fst x < (c :: rat)) xs = filter (\<lambda>x. c \<le> fst x) xs"
proof (induction xs)
  case (Cons x xs)
  show ?case
  proof (cases "fst x < c")
    case False
    then have "filter (\<lambda>x. c \<le> fst x) xs = xs" using Cons.prems by (auto simp: filter_id_conv)
    then show ?thesis using False by simp
  qed (use Cons in auto)
qed simp

lemma find_snoc: "find P (xs @ [x]) = (case find P xs of Some y \<Rightarrow> Some y | None \<Rightarrow> if P x then Some x else None)"
  by (induction xs) auto

text \<open>An observed chunk.\<close>

lemma observe_result:
  assumes "meter_follows w stall start h t0 m" "t0 \<le> t" "0 \<le> n"
  shows "meter_observe t n m =
    (Inr (), (count_gap t (count_sample start t n m))\<lparr>last_chunk_at := Some t, m_chunks := m_chunks (count_gap t (count_sample start t n m)) + 1\<rparr>)"
proof -
  have s: "started_at m = Some start" "start \<le> t" using assms by (auto simp: meter_follows_def)
  have "\<not> (case last_chunk_at m of None \<Rightarrow> False | Some l \<Rightarrow> t < l)"
  proof (cases "h = []")
    case False
    then have "fst (last h) \<le> t0" using assms(1) by (auto simp: meter_follows_def sorted_append)
    then show ?thesis using assms False by (simp add: meter_follows_def)
  qed (use assms in \<open>simp add: meter_follows_def\<close>)
  then show ?thesis using s assms(3) by (simp add: meter_observe_def Let_def)
qed

lemma observe_samples:
  assumes "meter_follows w stall start h t0 m" "t0 \<le> t"
  shows "\<exists>c\<le>t - w. samples (count_sample start t n m) = filter (\<lambda>x. 0 < snd x \<and> c \<le> fst x) (h @ [(t, n)])"
proof -
  obtain c where c: "c \<le> t0 - w" "samples m = filter (\<lambda>x. 0 < snd x \<and> c \<le> fst x) h" and w: "0 < w"
    using assms(1) by (auto simp: meter_follows_def)
  have "c \<le> t - w" "c \<le> t" using c(1) assms(2) w by linarith+
  then show ?thesis using c(2) by (intro exI [of _ c]) (simp add: count_sample_def)
qed

lemma observe_follows:
  assumes "meter_follows w stall start h t0 m" "t0 \<le> t" "0 \<le> n"
  shows "\<exists>m'. meter_observe t n m = (Inr (), m') \<and> meter_follows w stall start (h @ [(t, n)]) t m'"
proof (intro exI conjI)
  show "meter_observe t n m =
    (Inr (), (count_gap t (count_sample start t n m))\<lparr>last_chunk_at := Some t, m_chunks := m_chunks (count_gap t (count_sample start t n m)) + 1\<rparr>)"
    by (rule observe_result [OF assms])
  let ?m = "count_gap t (count_sample start t n m)"
  have keep: "samples ?m = samples (count_sample start t n m)" "m_ttft_s ?m = m_ttft_s (count_sample start t n m)"
      "m_total ?m = m_total (count_sample start t n m)" "window_s ?m = window_s m" "stall_threshold_s ?m = stall_threshold_s m"
      "started_at ?m = started_at m" "m_chunks ?m = m_chunks m"
    by (simp_all add: count_gap_def count_sample_def Let_def split: option.split)
  have gap: "m_max_gap ?m = Max (insert 0 (set (gaps (h @ [(t, n)]))))" "m_last_gap ?m = (if h = [] then m_last_gap m else Some (t - fst (last h)))"
  proof -
    define g where "g = Max (insert 0 (set (gaps h)))"
    have "Max (insert 0 (insert x (set (gaps h)))) = max x g" for x
      unfolding insert_commute [of 0] g_def by (rule Max_insert) simp_all
    then have mx: "Max (insert 0 (set (gaps (h @ [(t, n)])))) = (if h = [] then g else max (t - fst (last h)) g)"
      by (simp add: gaps_snoc g_def)
    have "last_chunk_at (count_sample start t n m) = (if h = [] then None else Some (fst (last h)))" "m_max_gap (count_sample start t n m) = g"
      "m_last_gap (count_sample start t n m) = m_last_gap m" using assms(1) by (simp_all add: count_sample_def meter_follows_def g_def)
    then show "m_max_gap ?m = Max (insert 0 (set (gaps (h @ [(t, n)]))))" "m_last_gap ?m = (if h = [] then m_last_gap m else Some (t - fst (last h)))"
      unfolding mx by (auto simp: count_gap_def max_def Let_def)
  qed
  have "sorted (start # map fst (h @ [(t, n)]) @ [t])" using assms(1,2) by (auto simp: meter_follows_def sorted_append)
  moreover have "m_ttft_s (count_sample start t n m) = map_option (\<lambda>x. fst x - start) (find (\<lambda>x. snd x > 0) (h @ [(t, n)]))"
    using assms(1) by (auto simp: meter_follows_def count_sample_def find_snoc split: option.split)
  moreover have "m_total (count_sample start t n m) = (\<Sum>x\<leftarrow>h @ [(t, n)]. snd x)"
    using assms(1,3) by (auto simp: meter_follows_def count_sample_def)
  ultimately show "meter_follows w stall start (h @ [(t, n)]) t (?m\<lparr>last_chunk_at := Some t, m_chunks := m_chunks ?m + 1\<rparr>)"
    using assms(1,3) observe_samples [OF assms(1,2), of n] gap unfolding meter_follows_def [of w stall start "h @ [(t, n)]"]
    by (simp add: keep meter_follows_def gaps_snoc)
qed

lemma snapshot_follows:
  assumes "meter_follows w stall start h t0 m" "t0 \<le> t"
  shows "\<exists>m'. meter_snapshot t m = (Inr (snapshot_spec w stall start h t), m') \<and> meter_follows w stall start h t m'"
proof -
  obtain c where c: "c \<le> t0 - w" "samples m = filter (\<lambda>x. 0 < snd x \<and> c \<le> fst x) h" using assms(1) by (auto simp: meter_follows_def)
  have m: "window_s m = w" "stall_threshold_s m = stall" "started_at m = Some start" "start \<le> t" "list_all (\<lambda>x. 0 \<le> snd x) h" "sorted (map fst h)"
    using assms by (auto simp: meter_follows_def sorted_append)
  have "sorted (map fst (samples m))" unfolding c(2) by (intro sorted_filter m(6))
  then have d: "dropWhile (\<lambda>x. fst x < t - w) (samples m) = filter (\<lambda>x. 0 < snd x \<and> t - w \<le> fst x) h"
    using c assms(2) by (auto simp: dropWhile_sorted intro!: filter_cong)
  have "meter_snapshot t m = (Inr (snapshot_spec w stall start h t), m\<lparr>samples := dropWhile (\<lambda>x. fst x < t - w) (samples m)\<rparr>)"
    using assms(1) m(4) sum_positive [OF m(5), of "\<lambda>x. t - w \<le> fst x"]
    by (auto simp: meter_snapshot_def snapshot_spec_def meter_follows_def d Let_def option.map_comp comp_def)
  moreover have "meter_follows w stall start h t (m\<lparr>samples := dropWhile (\<lambda>x. fst x < t - w) (samples m)\<rparr>)"
    using assms unfolding d by (auto simp: meter_follows_def sorted_append)
  ultimately show ?thesis by blast
qed

section \<open>The property\<close>

fun chunks_of :: "meter_op list \<Rightarrow> (rat \<times> int) list" where
  "chunks_of [] = []"
| "chunks_of (Observe t n # ops) = (t, n) # chunks_of ops"
| "chunks_of (TakeSnapshot t # ops) = chunks_of ops"

fun op_ok :: "meter_op \<Rightarrow> bool" where
  "op_ok (Observe t n) = (0 \<le> n)"
| "op_ok (TakeSnapshot t) = True"

lemma session_follows:
  assumes "meter_follows w stall start h t0 m" "sorted (t0 # map mop_time ops)" "list_all op_ok ops" "run meter_step m ops = (rs, m')"
  shows "all_ok rs \<and> meter_follows w stall start (h @ chunks_of ops) (last (t0 # map mop_time ops)) m'"
  using assms
proof (induction ops arbitrary: h t0 m rs)
  case (Cons x ops)
  obtain r m1 where s: "meter_step m x = (Inr r, m1)" "meter_follows w stall start (h @ chunks_of [x]) (mop_time x) m1"
  proof (cases x)
    case (Observe t n)
    then show thesis using observe_follows [OF Cons.prems(1), of t n] Cons.prems(2,3) that by auto
  next
    case (TakeSnapshot t)
    then show thesis using snapshot_follows [OF Cons.prems(1), of t] Cons.prems(2) that by auto
  qed
  obtain rs1 where rs: "rs = Inr r # rs1" "run meter_step m1 ops = (rs1, m')"
    using Cons.prems(4) s(1) by (cases "run meter_step m1 ops") auto
  have c: "h @ chunks_of (x # ops) = (h @ chunks_of [x]) @ chunks_of ops" by (cases x) simp_all
  show ?case using Cons.IH [OF s(2) _ _ rs(2)] Cons.prems(2,3) unfolding c rs(1) by simp
qed simp

text \<open>C18. With a clock that does not go back no call of a session fails, and every field of a snapshot but \<open>is_stalled\<close> is
  exactly the documented function of the chunks seen - the tokens of the window ending now, whatever snapshots were taken
  before, the time to the first token, the last and the largest gap, the totals and the mean rate, rounded to six places.
  The documents say three different things of \<open>is_stalled\<close>, so it is left open here.\<close>

theorem meter_snapshot_exact:
  assumes "new_meter w stall = Inr m0" "meter_start start m0 = (Inr (), m1)" "run meter_step m1 ops = (rs, m2)"
    and "sorted (start # map mop_time ops @ [t])" "list_all op_ok ops"
  shows "all_ok rs \<and> (\<exists>stalled. fst (meter_snapshot t m2) = Inr ((snapshot_spec w stall start (chunks_of ops) t)\<lparr>is_stalled := stalled\<rparr>))"
proof -
  have f: "meter_follows w stall start [] start m1"
    using assms(1,2) by (auto simp: new_meter_def meter_start_def meter_follows_def split: if_splits)
  have s: "sorted (start # map mop_time ops)" "last (start # map mop_time ops) \<le> t"
    using assms(4) last_in_set [of "start # map mop_time ops"] by (auto simp: sorted_append simp del: last.simps)
  note g = session_follows [OF f s(1) assms(5,3)]
  obtain m3 where "meter_snapshot t m2 = (Inr (snapshot_spec w stall start ([] @ chunks_of ops) t), m3)"
    using snapshot_follows [OF conjunct2 [OF g] s(2)] by blast
  then show ?thesis using g by (intro conjI exI [of _ "is_stalled (snapshot_spec w stall start (chunks_of ops) t)"]) simp_all
qed

definition demo_meter :: token_meter where
  "demo_meter = \<lparr>window_s = 1, stall_threshold_s = 2, started_at = Some 0, last_chunk_at = None, m_ttft_s = None, samples = [],
     m_total = 0, m_chunks = 0, m_max_gap = 0, m_last_gap = None\<rparr>"

lemma demo_meter_new: "\<exists>m0. new_meter 1 2 = Inr m0 \<and> meter_start 0 m0 = (Inr (), demo_meter)"
  by (simp add: new_meter_def meter_start_def demo_meter_def)

theorem meter_snapshot_exact_witness:
  "\<exists>stalled. fst (meter_snapshot 3 (snd (run meter_step demo_meter [Observe 1 5, TakeSnapshot 2, Observe 2 4]))) =
     Inr ((snapshot_spec 1 2 0 [(1, 5), (2, 4)] 3)\<lparr>is_stalled := stalled\<rparr>)"
proof -
  obtain m0 where m0: "new_meter 1 2 = Inr m0" "meter_start 0 m0 = (Inr (), demo_meter)" using demo_meter_new by blast
  show ?thesis using meter_snapshot_exact [OF m0 surjective_pairing, of "[Observe 1 5, TakeSnapshot 2, Observe 2 4]" 3] by simp
qed

section \<open>What the documentation says otherwise\<close>

text \<open>Chunks without tokens keep a stream from counting as stalled: no token arrives for five seconds, with a threshold of two.\<close>

lemma heartbeats_hide_stall:
  "map_sum id is_stalled (fst (meter_snapshot 6 (snd (run meter_step demo_meter [Observe 1 5, Observe 3 0, Observe 5 0])))) = Inr False"
  by (simp add: demo_meter_def meter_observe_def count_gap_def count_sample_def meter_snapshot_def Let_def)

text \<open>The flag is not about \<open>last_gap_s\<close>, as its field says: after a gap of five seconds it is false.\<close>

lemma stall_ignores_last_gap:
  "map_sum id (\<lambda>r. (is_stalled r, last_gap_s r)) (fst (meter_snapshot 6 (snd (run meter_step demo_meter [Observe 1 5, Observe 6 1])))) =
     Inr (False, Some 5)"
  by (simp add: demo_meter_def meter_observe_def count_gap_def count_sample_def meter_snapshot_def py_round_def half_even_def Let_def)

text \<open>The observer is not pure: a snapshot at a later time throws samples away that an earlier time should still count.\<close>

lemma later_snapshot_loses_samples:
  "map_sum id window_tokens_per_s (fst (meter_snapshot 1 (snd (run meter_step demo_meter [Observe 1 5, TakeSnapshot 3])))) = Inr 0"
  by (simp add: demo_meter_def meter_observe_def count_gap_def count_sample_def meter_snapshot_def py_round_def half_even_def Let_def)

end
