(* ===== verification/Loop_Detector.thy ===== *)
theory Loop_Detector
  imports Prelude
begin

text \<open>
  The detector of agent loops (\<open>agent-tool-call-loop-detector/template.py\<close>).  The canonical JSON text of the
  arguments is a parameter: only the equality of keys matters.
\<close>

section \<open>The detector\<close>

record 'a agent_call =
  ac_tool :: string
  ac_args :: 'a

definition call_key :: "('a \<Rightarrow> string) \<Rightarrow> 'a agent_call \<Rightarrow> string" where
  "call_key canonical_args c = ac_tool c @ ''::'' @ canonical_args (ac_args c)"

datatype loop_reason =
    InsufficientHistory nat
  | ExactRepeat string nat int
  | AbabCycle string string int
  | NoProgress string nat
  | NoLoop nat nat

datatype detector_error = MaxOfEmpty | TailIndexError

fun looped :: "loop_reason \<Rightarrow> bool" where
  "looped (ExactRepeat k n w) = True"
| "looped (AbabCycle a b l) = True"
| "looped (NoProgress k n) = True"
| "looped r = False"

text \<open>\<open>xs[-n:]\<close>.\<close>

definition from_end :: "'a list \<Rightarrow> int \<Rightarrow> 'a list" where
  "from_end xs n = (if n > 0 then drop (length xs - nat n) xs else if n = 0 then xs else drop (nat (- n)) xs)"

definition count_keys :: "string list \<Rightarrow> (string, nat) dict" where
  "count_keys keys = foldl (\<lambda>d k. dict_set k ((case dict_get d k of None \<Rightarrow> 0 | Some n \<Rightarrow> n) + 1) d) [] keys"

text \<open>\<open>max(counts.items(), key=...)\<close>: the first item with the greatest count.\<close>

fun max_item :: "string \<times> nat \<Rightarrow> (string \<times> nat) list \<Rightarrow> string \<times> nat" where
  "max_item x [] = x"
| "max_item x (y # ys) = max_item (if snd y > snd x then y else x) ys"

definition detect_loop :: "('a \<Rightarrow> string) \<Rightarrow> int \<Rightarrow> int \<Rightarrow> int \<Rightarrow> 'a agent_call list \<Rightarrow> detector_error + loop_reason" where
  "detect_loop canonical_args window repeat_threshold cycle_min_len history =
     (let calls = from_end history window in
      if int (length calls) < repeat_threshold then Inr (InsufficientHistory (length calls))
      else
        (let keys = map (call_key canonical_args) calls in
         case count_keys keys of
           [] \<Rightarrow> Inl MaxOfEmpty
         | it # items \<Rightarrow>
             (let (worst_key, worst_count) = max_item it items in
              if int worst_count \<ge> repeat_threshold then Inr (ExactRepeat worst_key worst_count window)
              else
                (let tail_keys = from_end keys cycle_min_len;
                     distinct_keys = remdups keys;
                     last_check = (if length distinct_keys = 1 \<and> int (length keys) \<ge> repeat_threshold
                       then NoProgress (hd distinct_keys) (length keys) else NoLoop (length distinct_keys) (length keys)) in
                 if int (length keys) \<ge> cycle_min_len then
                   (if length tail_keys < 2 then Inl TailIndexError
                    else
                      (let a = tail_keys ! 0; b = tail_keys ! 1 in
                       if a \<noteq> b \<and> list_all (\<lambda>i. tail_keys ! i = (if even i then a else b)) [0..<nat cycle_min_len]
                       then Inr (AbabCycle a b cycle_min_len) else Inr last_check))
                 else Inr last_check))))"

section \<open>Counting\<close>

lemma count_keys_get: "dict_get (count_keys keys) k = (if k \<in> set keys then Some (count_list keys k) else None)"
proof (induction keys rule: rev_induct)
  case (snoc x xs)
  then show ?case by (auto simp: count_keys_def)
qed (simp add: count_keys_def)

lemma count_keys_items: "dict_wf (count_keys keys) \<and> set (count_keys keys) = (\<lambda>k. (k, count_list keys k)) ` set keys"
proof -
  have wf: "dict_wf (count_keys keys)" by (induction keys rule: rev_induct) (simp_all add: count_keys_def)
  then have "(k, n) \<in> set (count_keys keys) \<longleftrightarrow> dict_get (count_keys keys) k = Some n" for k n
    by (simp add: dict_wf_def)
  then have "x \<in> set (count_keys keys) \<longleftrightarrow> x \<in> (\<lambda>k. (k, count_list keys k)) ` set keys" for x
    by (cases x) (auto simp: count_keys_get split: if_splits)
  then show ?thesis using wf by blast
qed

lemma max_item_greatest: "max_item x ys \<in> set (x # ys) \<and> (\<forall>y\<in>set (x # ys). snd y \<le> snd (max_item x ys))"
proof (induction ys arbitrary: x)
  case (Cons y ys)
  show ?case using Cons.IH [of "if snd y > snd x then y else x"] by (auto split: if_splits)
qed simp

lemma worst_item:
  assumes "count_keys keys = it # items" "max_item it items = (w, n)"
  shows "w \<in> set keys \<and> n = count_list keys w \<and> (\<forall>k. count_list keys k \<le> n)"
proof -
  have s: "set (it # items) = (\<lambda>k. (k, count_list keys k)) ` set keys" using count_keys_items [of keys] assms(1) by simp
  have "(w, n) \<in> set (it # items)" "\<forall>y\<in>set (it # items). snd y \<le> n" using max_item_greatest [of it items] assms(2) by auto
  then have w: "w \<in> set keys" "n = count_list keys w" and le: "\<forall>k\<in>set keys. count_list keys k \<le> n" unfolding s by auto
  have "count_list keys k \<le> n" for k using le by (cases "k \<in> set keys") (simp_all add: count_list_0_iff)
  then show ?thesis using w by blast
qed

lemma count_keys_empty: "count_keys keys = [] \<longleftrightarrow> keys = []"
proof -
  have "set (count_keys keys) = {} \<longleftrightarrow> set keys = {}" unfolding conjunct2 [OF count_keys_items] by simp
  then show ?thesis by simp
qed

section \<open>The property\<close>

definition alternating_tail :: "string list \<Rightarrow> nat \<Rightarrow> bool" where
  "alternating_tail keys n \<longleftrightarrow> n \<le> length keys \<and>
     (let t = drop (length keys - n) keys in t ! 0 \<noteq> t ! 1 \<and> (\<forall>i<n. t ! i = t ! (i mod 2)))"

lemma single_key:
  assumes "length (remdups keys) = 1"
  shows "\<exists>x. count_list keys x = length keys \<and> hd (remdups keys) = x"
proof -
  obtain x where x: "remdups keys = [x]" using assms by (metis One_nat_def length_0_conv length_Suc_conv)
  then have "\<forall>k\<in>set keys. k = x" by (metis empty_iff list.set(1) set_ConsD set_remdups)
  then have "count_list keys x = length keys" by (induction keys) auto
  then show ?thesis using x by simp
qed

lemma alternates_test:
  assumes "n \<le> length keys"
  shows "(let t = drop (length keys - n) keys in t ! 0 \<noteq> t ! 1 \<and> list_all (\<lambda>i. t ! i = (if even i then t ! 0 else t ! 1)) [0..<n]) \<longleftrightarrow> alternating_tail keys n"
proof -
  have pt: "(if even i then t ! 0 else t ! 1) = t ! (i mod 2)" for i :: nat and t :: "string list"
    by (cases "even i") (simp_all add: even_iff_mod_2_eq_zero odd_iff_mod_2_eq_one)
  have la: "list_all P [0..<n] \<longleftrightarrow> (\<forall>i<n. P i)" for P by (auto simp: list_all_iff)
  show ?thesis by (simp only: pt la alternating_tail_def Let_def assms simp_thms)
qed

lemma busy_single: "\<forall>k. count_list keys k \<le> n \<Longrightarrow> length (remdups keys) = 1 \<Longrightarrow> length keys \<le> n"
  using single_key by metis

text \<open>For a positive window and threshold and a cycle of at least two calls the detector returns: too short a history is
  reported as such; a repeat exactly when some call occurs often enough in the window, and then the call named is a
  most frequent one, with its count; else a cycle exactly when the last calls alternate between two; else no loop.
  The third signal, no progress, is never reported.\<close>

theorem detect_loop_exact:
  assumes "0 < window" "0 < thr" "2 \<le> cyc"
  shows "\<exists>w. let keys = map (call_key ca) (drop (length history - nat window) history) in
    (\<forall>k. count_list keys k \<le> count_list keys w) \<and>
    detect_loop ca window thr cyc history =
      Inr (if int (length keys) < thr then InsufficientHistory (length keys)
           else if \<exists>k. thr \<le> int (count_list keys k) then ExactRepeat w (count_list keys w) window
           else if alternating_tail keys (nat cyc) then AbabCycle (keys ! (length keys - nat cyc)) (keys ! (length keys - nat cyc + 1)) cyc
           else NoLoop (card (set keys)) (length keys))"
proof -
  define keys where "keys = map (call_key ca) (drop (length history - nat window) history)"
  have calls: "map (call_key ca) (from_end history window) = keys" "length (from_end history window) = length keys"
    using assms(1) by (simp_all add: from_end_def keys_def)
  show ?thesis
  proof (cases "count_keys keys")
    case Nil
    then have "keys = []" by (simp add: count_keys_empty)
    then show ?thesis using assms(2) calls by (simp add: detect_loop_def keys_def [symmetric])
  next
    case (Cons it items)
    obtain w n where m: "max_item it items = (w, n)" by (cases "max_item it items")
    note wn = worst_item [OF Cons m]
    define t where "t = from_end keys cyc"
    define plain where "plain = (if length (remdups keys) = 1 \<and> int (length keys) \<ge> thr
        then NoProgress (hd (remdups keys)) (length keys) else NoLoop (length (remdups keys)) (length keys))"
    have d: "detect_loop ca window thr cyc history =
        (if int (length keys) < thr then Inr (InsufficientHistory (length keys))
         else if thr \<le> int n then Inr (ExactRepeat w n window)
         else if cyc \<le> int (length keys) then
           (if length t < 2 then Inl TailIndexError
            else if t ! 0 \<noteq> t ! 1 \<and> list_all (\<lambda>i. t ! i = (if even i then t ! 0 else t ! 1)) [0..<nat cyc] then Inr (AbabCycle (t ! 0) (t ! 1) cyc)
            else Inr plain)
         else Inr plain)"
      unfolding detect_loop_def Let_def calls Cons list.case m prod.case t_def plain_def by simp
    have plain: "plain = NoLoop (card (set keys)) (length keys)" if "\<not> thr \<le> int n"
    proof -
      have "\<not> (length (remdups keys) = 1 \<and> int (length keys) \<ge> thr)" using busy_single [of keys n] wn that by fastforce
      then show ?thesis by (simp add: plain_def length_remdups_card_conv)
    qed
    have big: "(\<exists>k. thr \<le> int (count_list keys k)) \<longleftrightarrow> thr \<le> int n" using wn by (meson dual_order.trans of_nat_mono)
    have t: "t = drop (length keys - nat cyc) keys" using assms(3) by (simp add: t_def from_end_def)
    have alt: "t ! 0 \<noteq> t ! 1 \<and> list_all (\<lambda>i. t ! i = (if even i then t ! 0 else t ! 1)) [0..<nat cyc] \<longleftrightarrow> alternating_tail keys (nat cyc)"
      if "cyc \<le> int (length keys)"
      unfolding t using that alternates_test [of "nat cyc" keys, unfolded Let_def] by linarith
    have long: "\<not> length t < 2" "t ! 0 = keys ! (length keys - nat cyc)" "t ! 1 = keys ! (length keys - nat cyc + 1)" if "cyc \<le> int (length keys)"
      using that assms(3) by (simp_all add: t)
    have short: "\<not> alternating_tail keys (nat cyc)" if "\<not> cyc \<le> int (length keys)" using that by (auto simp: alternating_tail_def)
    show ?thesis
    proof (rule exI [of _ w])
      show "let keys = map (call_key ca) (drop (length history - nat window) history) in
        (\<forall>k. count_list keys k \<le> count_list keys w) \<and>
        detect_loop ca window thr cyc history =
          Inr (if int (length keys) < thr then InsufficientHistory (length keys)
               else if \<exists>k. thr \<le> int (count_list keys k) then ExactRepeat w (count_list keys w) window
               else if alternating_tail keys (nat cyc) then AbabCycle (keys ! (length keys - nat cyc)) (keys ! (length keys - nat cyc + 1)) cyc
               else NoLoop (card (set keys)) (length keys))"
        unfolding keys_def [symmetric] Let_def d big
      proof
        show "\<forall>k. count_list keys k \<le> count_list keys w" using wn by metis
      qed (use wn plain alt long short in \<open>cases "cyc \<le> int (length keys)"; simp\<close>)
    qed
  qed
qed

definition demo_agent_call :: "string \<Rightarrow> nat agent_call" where
  "demo_agent_call t = \<lparr>ac_tool = t, ac_args = 0\<rparr>"

theorem detect_loop_exact_witness:
  "\<exists>w n. detect_loop (\<lambda>n. ''{}'') 8 3 4 (map demo_agent_call [''a'', ''b'', ''a'', ''a'']) = Inr (ExactRepeat w n 8)"
proof -
  define keys where "keys = map (call_key (\<lambda>n. ''{}'')) (map demo_agent_call [''a'', ''b'', ''a'', ''a''])"
  have "3 \<le> int (count_list keys ''a::{}'')" by (simp add: keys_def demo_agent_call_def call_key_def)
  then have "\<exists>k. 3 \<le> int (count_list keys k)" by blast
  then show ?thesis
    using detect_loop_exact [of 8 3 4 "\<lambda>n. ''{}''" "map demo_agent_call [''a'', ''b'', ''a'', ''a'']"]
    by (auto simp: Let_def keys_def)
qed

section \<open>What the documentation says otherwise\<close>

text \<open>With a window below the threshold no loop is ever found.\<close>

lemma small_window_blind:
  assumes "0 < window" "window < thr"
  shows "\<exists>n. detect_loop ca window thr cyc history = Inr (InsufficientHistory n)"
proof -
  have "int (length (from_end history window)) < thr" using assms by (simp add: from_end_def)
  then show ?thesis by (simp add: detect_loop_def Let_def)
qed

text \<open>The third signal is never reported: one call all over the window is an exact repeat before it is looked for.\<close>

lemma no_progress_unreachable:
  assumes "0 < thr"
  shows "detect_loop ca window thr cyc history \<noteq> Inr (NoProgress k n)"
proof
  assume d: "detect_loop ca window thr cyc history = Inr (NoProgress k n)"
  define keys where "keys = map (call_key ca) (from_end history window)"
  obtain it items w m where c: "count_keys keys = it # items" "max_item it items = (w, m)"
    using d by (cases "count_keys keys"; cases "max_item (hd (count_keys keys)) (tl (count_keys keys))")
      (auto simp: detect_loop_def Let_def keys_def [symmetric] split: if_splits)
  have "\<not> thr \<le> int m" "length (remdups keys) = 1" "thr \<le> int (length keys)"
    using d c by (auto simp: detect_loop_def Let_def keys_def [symmetric] split: if_splits)
  then show False using busy_single [of keys m] worst_item [OF c] by fastforce
qed

end
