(* ===== verification/Latency_Picker.thy ===== *)
theory Latency_Picker
  imports Prelude "HOL-Library.Product_Lexorder"
begin

text \<open>
  The latency-aware model picker (\<open>latency-aware-model-picker/picker.py\<close>): rolling statistics of each rung and
  the choice among them.  The deques are lists with the oldest entry at the head.
\<close>

section \<open>Statistics\<close>

record rung_stats =
  st_window :: nat
  latencies_s :: "rat list"
  st_successes :: "nat list"

datatype picker_error =
    WindowTooSmall
  | BadLatency rat
  | BadCost string
  | P95BudgetNotPositive
  | FailureRateOutOfRange
  | MinObservationsTooSmall
  | NoRungs

definition deque_tail :: "nat \<Rightarrow> 'a list \<Rightarrow> 'a list" where
  "deque_tail n xs = drop (length xs - n) xs"

definition new_stats :: "nat \<Rightarrow> rat list \<Rightarrow> nat list \<Rightarrow> picker_error + rung_stats" where
  "new_stats window lat succ =
     (if window < 5 then Inl WindowTooSmall
      else Inr \<lparr>st_window = window, latencies_s = deque_tail window lat, st_successes = deque_tail window succ\<rparr>)"

definition default_stats :: rung_stats where
  "default_stats = \<lparr>st_window = 50, latencies_s = [], st_successes = []\<rparr>"

definition stats_observe :: "rat \<Rightarrow> bool \<Rightarrow> rung_stats \<Rightarrow> (picker_error, unit, rung_stats) outcome" where
  "stats_observe latency ok st =
     (if latency < 0 then (Inl (BadLatency latency), st)
      else (Inr (), st\<lparr>latencies_s := deque_tail (st_window st) (latencies_s st @ [latency]),
        st_successes := deque_tail (st_window st) (st_successes st @ [if ok then 1 else 0])\<rparr>))"

definition observations :: "rung_stats \<Rightarrow> nat" where
  "observations st = length (latencies_s st)"

definition rung_failure_rate :: "rung_stats \<Rightarrow> rat" where
  "rung_failure_rate st =
     (if st_successes st = [] then 0 else 1 - of_nat (sum_list (st_successes st)) / of_nat (length (st_successes st)))"

definition p95 :: "rung_stats \<Rightarrow> rat option" where
  "p95 st =
     (if latencies_s st = [] then None
      else
        (let s = sort (latencies_s st);
             idx = max 0 (min (int (length s) - 1) (\<lceil>19 / 20 * of_nat (length s) :: rat\<rceil> - 1)) in
         Some (s ! nat idx)))"

section \<open>Picking\<close>

record model_rung =
  rung_id :: string
  cost_per_call_usd :: rat

definition new_rung :: "string \<Rightarrow> rat \<Rightarrow> picker_error + model_rung" where
  "new_rung i cost = (if cost < 0 then Inl (BadCost i) else Inr \<lparr>rung_id = i, cost_per_call_usd = cost\<rparr>)"

record latency_policy =
  p95_budget_s :: rat
  max_failure_rate :: rat
  min_observations :: nat
  cold_defer_s :: rat

definition new_latency_policy :: "rat \<Rightarrow> rat \<Rightarrow> nat \<Rightarrow> rat \<Rightarrow> picker_error + latency_policy" where
  "new_latency_policy budget rate least cold =
     (if budget \<le> 0 then Inl P95BudgetNotPositive
      else if \<not> (0 \<le> rate \<and> rate < 1) then Inl FailureRateOutOfRange
      else if least < 1 then Inl MinObservationsTooSmall
      else Inr \<lparr>p95_budget_s = budget, max_failure_rate = rate, min_observations = least, cold_defer_s = cold\<rparr>)"

datatype pick_reason = WithinBudget | ColdRungSampled

datatype picked = Pick string pick_reason "rat option" rat nat | Defer rat

definition stats_for :: "(string, rung_stats) dict \<Rightarrow> model_rung \<Rightarrow> rung_stats" where
  "stats_for stats r = (case dict_get stats (rung_id r) of Some st \<Rightarrow> st | None \<Rightarrow> default_stats)"

datatype rung_class = ColdRung | UnhealthyRung rat | EligibleRung rat

text \<open>The body of the loop over the rungs; \<open>p95\<close> has a value where the code asserts it.\<close>

definition classify_rung :: "latency_policy \<Rightarrow> rung_stats \<Rightarrow> rung_class" where
  "classify_rung pol st =
     (if observations st < min_observations pol then ColdRung
      else if rung_failure_rate st > max_failure_rate pol then UnhealthyRung (the (p95 st))
      else if the (p95 st) > p95_budget_s pol then UnhealthyRung (the (p95 st))
      else EligibleRung (the (p95 st)))"

fun sort_rungs :: "latency_policy \<Rightarrow> (string, rung_stats) dict \<Rightarrow> model_rung list \<Rightarrow>
    (model_rung \<times> rung_stats \<times> rat) list \<times> model_rung list \<times> rat list" where
  "sort_rungs pol stats [] = ([], [], [])"
| "sort_rungs pol stats (r # rs) =
     (let (eligible, cold, unhealthy) = sort_rungs pol stats rs; st = stats_for stats r in
      case classify_rung pol st of
        ColdRung \<Rightarrow> (eligible, r # cold, unhealthy)
      | UnhealthyRung p \<Rightarrow> (eligible, cold, p # unhealthy)
      | EligibleRung p \<Rightarrow> ((r, st, p) # eligible, cold, unhealthy))"

definition order_index :: "model_rung list \<Rightarrow> (string, nat) dict" where
  "order_index rungs = foldl (\<lambda>d (i, r). dict_set (rung_id r) i d) [] (zip [0..<length rungs] rungs)"

definition rung_rank :: "model_rung list \<Rightarrow> model_rung \<times> rung_stats \<times> rat \<Rightarrow> rat \<times> rat \<times> nat" where
  "rung_rank rungs x = (case x of (r, st, p) \<Rightarrow> (p, cost_per_call_usd r, the (dict_get (order_index rungs) (rung_id r))))"

definition pick_rung :: "model_rung list \<Rightarrow> (string, rung_stats) dict \<Rightarrow> latency_policy \<Rightarrow> picker_error + picked" where
  "pick_rung rungs stats pol =
     (if rungs = [] then Inl NoRungs
      else
        (let (eligible, cold, unhealthy) = sort_rungs pol stats rungs in
         case sort_key (rung_rank rungs) eligible of
           (r, st, p) # _ \<Rightarrow> Inr (Pick (rung_id r) WithinBudget (Some p) (rung_failure_rate st) (observations st))
         | [] \<Rightarrow>
             (case cold of
                c # _ \<Rightarrow> (let st = stats_for stats c in Inr (Pick (rung_id c) ColdRungSampled (p95 st) (rung_failure_rate st) (observations st)))
              | [] \<Rightarrow> Inr (Defer (if unhealthy \<noteq> [] then Min (set unhealthy) else cold_defer_s pol)))))"

section \<open>The nearest rank\<close>

lemma sorted_split_count:
  assumes "sorted s" "k < length s"
  shows "k < length (filter (\<lambda>x. x \<le> s ! k) s)" "length (filter (\<lambda>x. x < s ! k) s) \<le> k"
proof -
  have split: "length (filter P s) = length (filter P (take i s)) + length (filter P (drop i s))" for P i
    by (metis append_take_drop_id filter_append length_append)
  have "\<forall>x\<in>set (take (Suc k) s). x \<le> s ! k" using assms by (auto simp: in_set_conv_nth less_Suc_eq_le sorted_iff_nth_mono)
  then have "length (filter (\<lambda>x. x \<le> s ! k) (take (Suc k) s)) = Suc k" using assms(2) by (simp add: filter_True)
  then show "k < length (filter (\<lambda>x. x \<le> s ! k) s)" using split [of _ "Suc k"] by simp
  have "\<forall>x\<in>set (drop k s). \<not> x < s ! k" using assms by (auto simp: in_set_conv_nth not_less sorted_iff_nth_mono)
  then have "filter (\<lambda>x. x < s ! k) (drop k s) = []" by (simp add: filter_empty_conv)
  then show "length (filter (\<lambda>x. x < s ! k) s) \<le> k" using split [of _ k] by (simp add: le_trans [OF length_filter_le])
qed

text \<open>At least nineteen twentieths of the window are within the p95, and fewer are strictly below it.\<close>

lemma p95_nearest_rank:
  assumes "p95 st = Some q"
  shows "q \<in> set (latencies_s st) \<and> 19 * observations st \<le> 20 * length (filter (\<lambda>x. x \<le> q) (latencies_s st)) \<and>
    20 * length (filter (\<lambda>x. x < q) (latencies_s st)) < 19 * observations st"
proof -
  define s where "s = sort (latencies_s st)"
  define n where "n = length s"
  have ne: "0 < n" and q: "q = s ! nat (max 0 (min (int n - 1) (\<lceil>19 / 20 * of_nat n :: rat\<rceil> - 1)))"
    using assms by (auto simp: p95_def s_def n_def Let_def split: if_splits)
  define c where "c = \<lceil>19 / 20 * of_nat n :: rat\<rceil>"
  have c: "19 * int n \<le> 20 * c" "20 * c < 19 * int n + 20" unfolding c_def by linarith+
  define k where "k = nat (c - 1)"
  have k: "int k = c - 1" "k < n" using c ne by (simp_all add: k_def)
  then have "q = s ! k" unfolding q c_def [symmetric] using c ne by (simp add: k_def)
  moreover note sorted_split_count [of s k, folded n_def]
  moreover have "length (filter P s) = length (filter P (latencies_s st))" for P
    by (simp add: s_def filter_sort)
  ultimately show ?thesis using c k nth_mem [of k s] by (auto simp: s_def n_def observations_def)
qed

section \<open>The property\<close>

definition rung_p95 :: "(string, rung_stats) dict \<Rightarrow> model_rung \<Rightarrow> rat" where
  "rung_p95 stats r = the (p95 (stats_for stats r))"

definition eligible_rung :: "latency_policy \<Rightarrow> (string, rung_stats) dict \<Rightarrow> model_rung \<Rightarrow> bool" where
  "eligible_rung pol stats r \<longleftrightarrow> observations (stats_for stats r) \<ge> min_observations pol \<and>
     rung_failure_rate (stats_for stats r) \<le> max_failure_rate pol \<and> rung_p95 stats r \<le> p95_budget_s pol"

definition cold_rung :: "latency_policy \<Rightarrow> (string, rung_stats) dict \<Rightarrow> model_rung \<Rightarrow> bool" where
  "cold_rung pol stats r \<longleftrightarrow> observations (stats_for stats r) < min_observations pol"

lemma sort_rungs_result:
  "sort_rungs pol stats rs =
     (map (\<lambda>r. (r, stats_for stats r, rung_p95 stats r)) (filter (eligible_rung pol stats) rs),
      filter (cold_rung pol stats) rs,
      map (rung_p95 stats) (filter (\<lambda>r. \<not> eligible_rung pol stats r \<and> \<not> cold_rung pol stats r) rs))"
  by (induction rs) (auto simp: classify_rung_def eligible_rung_def cold_rung_def rung_p95_def Let_def)

lemma order_index_distinct:
  assumes "distinct (map rung_id rungs)" "i < length rungs"
  shows "dict_get (order_index rungs) (rung_id (rungs ! i)) = Some i"
  using assms
proof (induction rungs rule: rev_induct)
  case (snoc r rs)
  show ?case
  proof (cases "i < length rs")
    case True
    then have "rung_id (rs ! i) \<in> rung_id ` set rs" by (intro imageI nth_mem)
    then have "rung_id (rs ! i) \<noteq> rung_id r" using snoc.prems(1) by auto
    then show ?thesis using snoc True by (simp add: order_index_def nth_append)
  next
    case False
    then have "i = length rs" using snoc.prems(2) by simp
    then show ?thesis by (simp add: order_index_def)
  qed
qed simp

lemma filter_of_find: "find P xs = Some x \<Longrightarrow> \<exists>ys. filter P xs = x # ys"
  by (induction xs) (auto split: if_splits)

text \<open>Picking fails exactly without rungs.  If some rung has enough observations, few enough failures and its p95 within the
  budget, such a rung is picked, and none of them has a lower p95, or the same p95 and a lower cost, or both the same
  and comes earlier.  Otherwise the first rung without enough observations is picked; and if every rung is unhealthy
  the wait is the least p95 of all of them.\<close>

theorem pick_rung_exact:
  assumes "distinct (map rung_id rungs)" "rungs \<noteq> []"
  shows "if \<exists>r\<in>set rungs. eligible_rung pol stats r
    then \<exists>i<length rungs. let w = rungs ! i in
      pick_rung rungs stats pol =
        Inr (Pick (rung_id w) WithinBudget (Some (rung_p95 stats w)) (rung_failure_rate (stats_for stats w)) (observations (stats_for stats w))) \<and>
      eligible_rung pol stats w \<and>
      (\<forall>j<length rungs. eligible_rung pol stats (rungs ! j) \<longrightarrow>
        (rung_p95 stats w, cost_per_call_usd w, i) \<le> (rung_p95 stats (rungs ! j), cost_per_call_usd (rungs ! j), j))
    else case find (cold_rung pol stats) rungs of
      Some c \<Rightarrow> pick_rung rungs stats pol =
        Inr (Pick (rung_id c) ColdRungSampled (p95 (stats_for stats c)) (rung_failure_rate (stats_for stats c)) (observations (stats_for stats c)))
    | None \<Rightarrow> pick_rung rungs stats pol = Inr (Defer (Min (rung_p95 stats ` set rungs)))"
proof -
  define xs where "xs = map (\<lambda>r. (r, stats_for stats r, rung_p95 stats r)) (filter (eligible_rung pol stats) rungs)"
  have pick: "pick_rung rungs stats pol =
      (case sort_key (rung_rank rungs) xs of
         (r, st, p) # _ \<Rightarrow> Inr (Pick (rung_id r) WithinBudget (Some p) (rung_failure_rate st) (observations st))
       | [] \<Rightarrow>
           (case filter (cold_rung pol stats) rungs of
              c # _ \<Rightarrow> Inr (Pick (rung_id c) ColdRungSampled (p95 (stats_for stats c)) (rung_failure_rate (stats_for stats c)) (observations (stats_for stats c)))
            | [] \<Rightarrow> Inr (Defer (let ps = map (rung_p95 stats) (filter (\<lambda>r. \<not> eligible_rung pol stats r \<and> \<not> cold_rung pol stats r) rungs) in
                if ps \<noteq> [] then Min (set ps) else cold_defer_s pol))))"
    unfolding pick_rung_def sort_rungs_result prod.case Let_def xs_def using assms(2) by (simp only: if_False)
  show ?thesis
  proof (cases "\<exists>r\<in>set rungs. eligible_rung pol stats r")
    case True
    then have "xs \<noteq> []" by (auto simp: xs_def filter_empty_conv)
    then obtain y ys where sk: "sort_key (rung_rank rungs) xs = y # ys" by (metis list.exhaust set_empty set_sort)
    then have y: "y \<in> set xs" "\<forall>x\<in>set xs. rung_rank rungs y \<le> rung_rank rungs x"
      using sorted_sort_key [of "rung_rank rungs" xs] set_sort [of "rung_rank rungs" xs] by auto
    then obtain i where i: "i < length rungs" "y = (rungs ! i, stats_for stats (rungs ! i), rung_p95 stats (rungs ! i))" "eligible_rung pol stats (rungs ! i)"
      by (auto simp: xs_def in_set_conv_nth)
    have rank: "rung_rank rungs (rungs ! j, st, p) = (p, cost_per_call_usd (rungs ! j), j)" if "j < length rungs" for j st p
      using that order_index_distinct [OF assms(1)] by (simp add: rung_rank_def)
    have least: "(rung_p95 stats (rungs ! i), cost_per_call_usd (rungs ! i), i) \<le> (rung_p95 stats (rungs ! j), cost_per_call_usd (rungs ! j), j)"
      if "j < length rungs" "eligible_rung pol stats (rungs ! j)" for j
    proof -
      have "(rungs ! j, stats_for stats (rungs ! j), rung_p95 stats (rungs ! j)) \<in> set xs" using that by (auto simp: xs_def)
      from y(2) [rule_format, OF this] show ?thesis unfolding i(2) rank [OF i(1)] rank [OF that(1)] .
    qed
    have "pick_rung rungs stats pol = Inr (Pick (rung_id (rungs ! i)) WithinBudget (Some (rung_p95 stats (rungs ! i)))
        (rung_failure_rate (stats_for stats (rungs ! i))) (observations (stats_for stats (rungs ! i))))"
      unfolding pick sk list.case i(2) prod.case ..
    then have "\<exists>i<length rungs. let w = rungs ! i in
      pick_rung rungs stats pol =
        Inr (Pick (rung_id w) WithinBudget (Some (rung_p95 stats w)) (rung_failure_rate (stats_for stats w)) (observations (stats_for stats w))) \<and>
      eligible_rung pol stats w \<and>
      (\<forall>j<length rungs. eligible_rung pol stats (rungs ! j) \<longrightarrow>
        (rung_p95 stats w, cost_per_call_usd w, i) \<le> (rung_p95 stats (rungs ! j), cost_per_call_usd (rungs ! j), j))"
      unfolding Let_def using i(1,3) least by blast
    then show ?thesis unfolding if_P [OF True] .
  next
    case False
    then have "xs = []" by (auto simp: xs_def filter_empty_conv)
    then have p: "pick_rung rungs stats pol = (case filter (cold_rung pol stats) rungs of
        c # _ \<Rightarrow> Inr (Pick (rung_id c) ColdRungSampled (p95 (stats_for stats c)) (rung_failure_rate (stats_for stats c)) (observations (stats_for stats c)))
      | [] \<Rightarrow> Inr (Defer (let ps = map (rung_p95 stats) (filter (\<lambda>r. \<not> eligible_rung pol stats r \<and> \<not> cold_rung pol stats r) rungs) in
          if ps \<noteq> [] then Min (set ps) else cold_defer_s pol)))" unfolding pick by simp
    show ?thesis unfolding if_not_P [OF False]
    proof (cases "find (cold_rung pol stats) rungs")
      case None
      then have c: "\<forall>r\<in>set rungs. \<not> cold_rung pol stats r" by (auto simp: find_None_iff)
      then have "filter (cold_rung pol stats) rungs = []" "filter (\<lambda>r. \<not> eligible_rung pol stats r \<and> \<not> cold_rung pol stats r) rungs = rungs"
        using False by (auto simp: filter_empty_conv filter_id_conv)
      then show "case find (cold_rung pol stats) rungs of
          Some c \<Rightarrow> pick_rung rungs stats pol =
            Inr (Pick (rung_id c) ColdRungSampled (p95 (stats_for stats c)) (rung_failure_rate (stats_for stats c)) (observations (stats_for stats c)))
        | None \<Rightarrow> pick_rung rungs stats pol = Inr (Defer (Min (rung_p95 stats ` set rungs)))"
        using p None assms(2) by (simp add: Let_def)
    next
      case (Some c)
      then obtain cs where "filter (cold_rung pol stats) rungs = c # cs" using filter_of_find [OF Some] by blast
      then show "case find (cold_rung pol stats) rungs of
          Some c \<Rightarrow> pick_rung rungs stats pol =
            Inr (Pick (rung_id c) ColdRungSampled (p95 (stats_for stats c)) (rung_failure_rate (stats_for stats c)) (observations (stats_for stats c)))
        | None \<Rightarrow> pick_rung rungs stats pol = Inr (Defer (Min (rung_p95 stats ` set rungs)))"
        using p Some by simp
    qed
  qed
qed

definition demo_rungs :: "model_rung list" where
  "demo_rungs = [\<lparr>rung_id = ''fast'', cost_per_call_usd = 1\<rparr>, \<lparr>rung_id = ''big'', cost_per_call_usd = 3\<rparr>]"

definition demo_latency_policy :: latency_policy where
  "demo_latency_policy = \<lparr>p95_budget_s = 2, max_failure_rate = 1 / 5, min_observations = 2, cold_defer_s = 1\<rparr>"

definition demo_stats :: "rat \<Rightarrow> (string, rung_stats) dict" where
  "demo_stats x = [(''fast'', \<lparr>st_window = 5, latencies_s = [1, 4], st_successes = [1, 1]\<rparr>), (''big'', \<lparr>st_window = 5, latencies_s = [x, 1], st_successes = [1, 1]\<rparr>)]"

theorem pick_rung_exact_witness:
  "\<exists>i<2. eligible_rung demo_latency_policy (demo_stats 2) (demo_rungs ! i) \<and>
     (\<exists>p q k. pick_rung demo_rungs (demo_stats 2) demo_latency_policy = Inr (Pick (rung_id (demo_rungs ! i)) WithinBudget p q k))"
proof -
  have "eligible_rung demo_latency_policy (demo_stats 2) (demo_rungs ! 1)"
    by (simp add: eligible_rung_def demo_latency_policy_def demo_stats_def demo_rungs_def stats_for_def observations_def rung_failure_rate_def rung_p95_def p95_def Let_def)
  then have e: "\<exists>r\<in>set demo_rungs. eligible_rung demo_latency_policy (demo_stats 2) r" by (auto simp: demo_rungs_def)
  have "distinct (map rung_id demo_rungs)" "demo_rungs \<noteq> []" "length demo_rungs = 2" by (simp_all add: demo_rungs_def)
  with pick_rung_exact [of demo_rungs demo_latency_policy "demo_stats 2"] e show ?thesis by (auto simp: Let_def)
qed

section \<open>What the documentation says otherwise\<close>

text \<open>The wait is the least p95 of all rungs, not of those that fail too often: with no failure at all and both rungs over budget it is
  the least of their p95s.  And \<open>cold_defer_s\<close> has no effect: a rung without data is picked, never waited for.\<close>

lemma over_budget_sets_wait: "pick_rung demo_rungs (demo_stats 3) demo_latency_policy = Inr (Defer 3)"
  by (simp add: pick_rung_def demo_rungs_def demo_stats_def demo_latency_policy_def stats_for_def classify_rung_def observations_def
      rung_failure_rate_def p95_def Let_def)

lemma cold_defer_unused: "pick_rung rungs stats (pol\<lparr>cold_defer_s := x\<rparr>) = pick_rung rungs stats pol"
proof -
  have "classify_rung (pol\<lparr>cold_defer_s := x\<rparr>) st = classify_rung pol st" for st by (simp add: classify_rung_def)
  then have s: "sort_rungs (pol\<lparr>cold_defer_s := x\<rparr>) stats rs = sort_rungs pol stats rs" for rs
    by (induction rs) simp_all
  obtain es cs us where e: "sort_rungs pol stats rungs = (es, cs, us)" by (cases "sort_rungs pol stats rungs")
  have "us \<noteq> []" if ne: "rungs \<noteq> []" "es = []" "cs = []"
  proof -
    obtain r where r: "r \<in> set rungs" using ne(1) by (cases rungs) auto
    have f: "filter (eligible_rung pol stats) rungs = []" "filter (cold_rung pol stats) rungs = []"
      "us = map (rung_p95 stats) (filter (\<lambda>r. \<not> eligible_rung pol stats r \<and> \<not> cold_rung pol stats r) rungs)"
      using e ne unfolding sort_rungs_result by simp_all
    have "r \<in> set (filter (\<lambda>r. \<not> eligible_rung pol stats r \<and> \<not> cold_rung pol stats r) rungs)" using r f(1,2) by (auto simp: filter_empty_conv)
    then show ?thesis unfolding f(3) by (metis empty_iff list.map_disc_iff list.set(1))
  qed
  moreover have "sort_key (rung_rank rungs) es = [] \<longleftrightarrow> es = []" by (metis set_empty set_sort)
  ultimately show ?thesis by (auto simp: pick_rung_def s e split: list.split)
qed

end
