(* ===== verification/Section_Order.thy ===== *)
theory Section_Order
  imports Prelude "HOL-Library.Multiset"
begin

text \<open>
  The canonicalizer of the section order of a prompt (\<open>prompt-section-order-canonicalizer/canonicalizer.py\<close>).
  The header pattern's matches in a text (start, end, the matched line and its second group) are a parameter;
  the unknown-section policy is a datatype, so the check of its spelling is its type.
\<close>

section \<open>Sections\<close>

record header_match =
  hm_start :: nat
  hm_end :: nat
  hm_line :: string
  hm_name :: string

record order_section =
  os_key :: string
  header_line :: "string option"
  os_body :: string

datatype order_error =
    EmptyCanonicalOrder
  | DuplicateOrderKeys
  | PreambleInOrder
  | DuplicateSection string
  | UnknownSections "string list"

datatype unknown_policy = RaiseUnknown | TailUnknown | DropUnknown

definition PREAMBLE_KEY :: string where
  "PREAMBLE_KEY = ''__preamble__''"

definition preamble_section :: "string \<Rightarrow> order_section" where
  "preamble_section t = \<lparr>os_key = PREAMBLE_KEY, header_line = None, os_body = t\<rparr>"

text \<open>The sections of the matches: each body ends where the next match starts.\<close>

fun header_sections :: "string \<Rightarrow> header_match list \<Rightarrow> order_section list" where
  "header_sections t [] = []"
| "header_sections t (m # ms) =
     (let body_end = (case ms of [] \<Rightarrow> length t | m' # _ \<Rightarrow> hm_start m') in
      \<lparr>os_key = ascii_lower (py_strip (hm_name m)), header_line = Some (hm_line m), os_body = drop (hm_end m) (take body_end t)\<rparr>
      # header_sections t ms)"

definition parse_sections :: "(string \<Rightarrow> header_match list) \<Rightarrow> string \<Rightarrow> order_section list" where
  "parse_sections finditer t =
     (case finditer t of
        [] \<Rightarrow> if py_strip t \<noteq> [] then [preamble_section t] else []
      | m # ms \<Rightarrow>
          (let preamble = take (hm_start m) t in
           (if hm_start m > 0 \<and> py_strip preamble \<noteq> [] then [preamble_section preamble] else []) @ header_sections t (m # ms)))"

section \<open>Canonicalization\<close>

record section_move =
  mv_key :: string
  from_index :: nat
  to_index :: nat

record canonicalize_result =
  co_text :: string
  co_sections :: "order_section list"
  co_moves :: "section_move list"
  unknown_keys :: "string list"
  dropped_keys :: "string list"
  co_summary :: "nat \<times> nat \<times> nat \<times> nat \<times> unknown_policy"

definition co_changed :: "canonicalize_result \<Rightarrow> bool" where
  "co_changed r \<longleftrightarrow> length (co_moves r) > 0 \<or> length (dropped_keys r) > 0"

fun first_duplicate_key :: "string set \<Rightarrow> string list \<Rightarrow> string option" where
  "first_duplicate_key seen [] = None"
| "first_duplicate_key seen (k # ks) = (if k \<in> seen then Some k else first_duplicate_key (insert k seen) ks)"

definition strip_newlines :: "string \<Rightarrow> string" where
  "strip_newlines t = rev (dropWhile (\<lambda>c. c = CHR 0x0A) (rev t))"

definition render_block :: "order_section \<Rightarrow> string" where
  "render_block s =
     (let body = strip_newlines (dropWhile (\<lambda>c. c = CHR 0x0A) (os_body s)); line = (case header_line s of Some l \<Rightarrow> l | None \<Rightarrow> []) in
      if body \<noteq> [] then line @ CHR 0x0A # body else line)"

fun join_blocks :: "string list \<Rightarrow> string" where
  "join_blocks [] = []"
| "join_blocks [b] = b"
| "join_blocks (b # c # bs) = b @ [CHR 0x0A, CHR 0x0A] @ join_blocks (c # bs)"

definition render_sections :: "order_section option \<Rightarrow> order_section list \<Rightarrow> string" where
  "render_sections preamble secs =
     (let parts = (case preamble of Some p \<Rightarrow> [strip_newlines (os_body p)] | None \<Rightarrow> []) @ map render_block secs in
      if parts = [] then [] else join_blocks parts @ [CHR 0x0A])"

definition body_sections :: "order_section list \<Rightarrow> order_section list" where
  "body_sections secs = filter (\<lambda>s. os_key s \<noteq> PREAMBLE_KEY) secs"

definition last_preamble :: "order_section list \<Rightarrow> order_section option" where
  "last_preamble secs = foldl (\<lambda>p s. if os_key s = PREAMBLE_KEY then Some s else p) None secs"

definition sections_by_key :: "order_section list \<Rightarrow> (string, order_section) dict" where
  "sections_by_key body = foldl (\<lambda>d s. dict_set (os_key s) s d) [] body"

definition index_by_key :: "order_section list \<Rightarrow> (string, nat) dict" where
  "index_by_key secs = foldl (\<lambda>d (i, s). dict_set (os_key s) i d) [] (zip [0..<length secs] secs)"

definition ordered_sections :: "string list \<Rightarrow> unknown_policy \<Rightarrow> order_section list \<Rightarrow> order_section list" where
  "ordered_sections order_lc policy body =
     List.map_filter (dict_get (sections_by_key body)) order_lc @
     (if policy = TailUnknown then filter (\<lambda>s. os_key s \<notin> set order_lc) body else [])"

definition section_moves :: "order_section list \<Rightarrow> order_section list \<Rightarrow> section_move list" where
  "section_moves body ordered =
     sort_key to_index (concat (map (\<lambda>s. case dict_get (index_by_key ordered) (os_key s) of
         None \<Rightarrow> []
       | Some to_i \<Rightarrow> (let from_i = the (dict_get (index_by_key body) (os_key s)) in
           if from_i \<noteq> to_i then [\<lparr>mv_key = os_key s, from_index = from_i, to_index = to_i\<rparr>] else [])) body))"

definition canonicalize_order ::
  "(string \<Rightarrow> header_match list) \<Rightarrow> string list \<Rightarrow> unknown_policy \<Rightarrow> string \<Rightarrow> order_error + canonicalize_result" where
  "canonicalize_order finditer order policy t =
     (if order = [] then Inl EmptyCanonicalOrder
      else if \<not> distinct order then Inl DuplicateOrderKeys
      else if PREAMBLE_KEY \<in> set order then Inl PreambleInOrder
      else
        (let order_lc = map ascii_lower order; sections = parse_sections finditer t; body = body_sections sections in
         case first_duplicate_key {} (map os_key body) of
           Some k \<Rightarrow> Inl (DuplicateSection k)
         | None \<Rightarrow>
             (let unknown = filter (\<lambda>k. k \<notin> set order_lc) (map os_key body) in
              if unknown \<noteq> [] \<and> policy = RaiseUnknown then Inl (UnknownSections unknown)
              else
                (let ordered = ordered_sections order_lc policy body; gone = (if policy = DropUnknown then unknown else []);
                     moves = section_moves body ordered in
                 Inr \<lparr>co_text = render_sections (last_preamble sections) ordered, co_sections = ordered, co_moves = moves,
                   unknown_keys = unknown, dropped_keys = gone,
                   co_summary = (length body, length moves, length unknown, length gone, policy)\<rparr>))))"

section \<open>What the order depends on\<close>

lemma first_duplicate_key_None: "first_duplicate_key seen ks = None \<longleftrightarrow> distinct ks \<and> set ks \<inter> seen = {}"
  by (induction ks arbitrary: seen) auto

lemma sections_by_key_map: "dict_get (sections_by_key body) = map_of (map (\<lambda>s. (os_key s, s)) (rev body))"
  by (induction body rule: rev_induct) (simp_all add: sections_by_key_def)

lemma sections_by_key_get:
  assumes "distinct (map os_key body)"
  shows "dict_get (sections_by_key body) k = Some s \<longleftrightarrow> s \<in> set body \<and> os_key s = k"
proof -
  have d: "distinct (map fst (map (\<lambda>s. (os_key s, s)) (rev body)))" using assms by (simp add: comp_def rev_map [symmetric])
  show ?thesis unfolding sections_by_key_map map_of_eq_Some_iff [OF d] by auto
qed

lemma sections_by_key_perm:
  assumes "distinct (map os_key body)" "mset body = mset body'"
  shows "dict_get (sections_by_key body) = dict_get (sections_by_key body')"
proof
  fix k
  have d: "distinct (map os_key body')"
    using assms by (metis distinct_map mset_eq_imp_distinct_iff set_mset_mset)
  have "set body = set body'" using assms(2) by (rule mset_eq_setD)
  then have "dict_get (sections_by_key body) k = Some s \<longleftrightarrow> dict_get (sections_by_key body') k = Some s" for s
    unfolding sections_by_key_get [OF assms(1)] sections_by_key_get [OF d] by simp
  then show "dict_get (sections_by_key body) k = dict_get (sections_by_key body') k" by (metis option.exhaust)
qed

lemma known_keys:
  assumes "distinct (map os_key body)"
  shows "map os_key (List.map_filter (dict_get (sections_by_key body)) ks) = filter (\<lambda>k. k \<in> os_key ` set body) ks"
proof (induction ks)
  case (Cons k ks)
  show ?case
  proof (cases "dict_get (sections_by_key body) k")
    case None
    then have "k \<notin> os_key ` set body" using sections_by_key_get [OF assms, of k] by auto
    then show ?thesis using Cons None by (simp add: map_filter_simps)
  next
    case (Some s)
    then have "os_key s = k" "k \<in> os_key ` set body" using sections_by_key_get [OF assms, of k s] by auto
    then show ?thesis using Cons Some by (simp add: map_filter_simps)
  qed
qed (simp add: map_filter_simps)

text \<open>Nothing is lost or doubled when the order has no key twice.\<close>

lemma ordered_sections_mset:
  assumes "distinct (map os_key body)" "distinct order_lc"
  shows "mset (ordered_sections order_lc policy body) = mset (filter (\<lambda>s. os_key s \<in> set order_lc \<or> policy = TailUnknown) body)"
proof -
  let ?known = "List.map_filter (dict_get (sections_by_key body)) order_lc"
  have "distinct (map os_key ?known)" unfolding known_keys [OF assms(1)] using assms(2) by simp
  then have "distinct ?known" unfolding distinct_map by blast
  moreover have "distinct (filter (\<lambda>s. os_key s \<in> set order_lc) body)" using assms(1) by (simp add: distinct_map)
  moreover have "set ?known = set (filter (\<lambda>s. os_key s \<in> set order_lc) body)"
  proof -
    have "s \<in> set ?known \<longleftrightarrow> (\<exists>k\<in>set order_lc. dict_get (sections_by_key body) k = Some s)" for s
      by (induction order_lc) (auto simp: map_filter_simps split: option.split)
    then show ?thesis unfolding sections_by_key_get [OF assms(1)] by auto
  qed
  ultimately have k: "mset ?known = mset (filter (\<lambda>s. os_key s \<in> set order_lc) body)" using set_eq_iff_mset_eq_distinct by blast
  have split: "mset body = mset (filter (\<lambda>s. os_key s \<in> set order_lc) body) + mset (filter (\<lambda>s. os_key s \<notin> set order_lc) body)"
    unfolding mset_filter by (rule multiset_partition)
  show ?thesis
  proof (cases "policy = TailUnknown")
    case True
    have "mset (ordered_sections order_lc policy body) = mset ?known + mset (filter (\<lambda>s. os_key s \<notin> set order_lc) body)"
      unfolding ordered_sections_def if_P [OF True] by (rule mset_append)
    then have "mset (ordered_sections order_lc policy body) = mset body" unfolding k split [symmetric] .
    moreover have "filter (\<lambda>s. os_key s \<in> set order_lc \<or> policy = TailUnknown) body = body" by (simp add: True)
    ultimately show ?thesis by simp
  next
    case False
    then have "ordered_sections order_lc policy body = ?known" by (simp add: ordered_sections_def)
    then show ?thesis using k False by (simp only: simp_thms)
  qed
qed

section \<open>The property\<close>

text \<open>The result without the log of moves, which tells how far the text was from it.\<close>

definition canonical_form :: "canonicalize_result \<Rightarrow> string \<times> order_section list \<times> string list \<times> string list" where
  "canonical_form r = (co_text r, co_sections r, unknown_keys r, dropped_keys r)"

text \<open>Two prompts with the same preamble whose sections are the same up to their order, those outside the declared order
  keeping theirs, have the same canonical form (or the same error).  When the declared keys differ also in lower
  case, the result has every section once, dropped ones apart, and known sections stand in the declared order.\<close>

theorem canonical_form_invariant:
  fixes t u :: string and finditer :: "string \<Rightarrow> header_match list"
  defines "bt \<equiv> body_sections (parse_sections finditer t)" and "bu \<equiv> body_sections (parse_sections finditer u)"
  assumes "last_preamble (parse_sections finditer t) = last_preamble (parse_sections finditer u)"
    and "mset bt = mset bu" "distinct (map os_key bt)"
    and "filter (\<lambda>s. os_key s \<notin> set (map ascii_lower order)) bt = filter (\<lambda>s. os_key s \<notin> set (map ascii_lower order)) bu"
  shows "map_sum id canonical_form (canonicalize_order finditer order policy t) = map_sum id canonical_form (canonicalize_order finditer order policy u) \<and>
    (\<forall>r. canonicalize_order finditer order policy t = Inr r \<and> distinct (map ascii_lower order) \<longrightarrow>
      mset (co_sections r) = mset (filter (\<lambda>s. os_key s \<in> set (map ascii_lower order) \<or> policy = TailUnknown) bt) \<and>
      filter (\<lambda>k. k \<in> set (map ascii_lower order)) (map os_key (co_sections r)) = filter (\<lambda>k. k \<in> os_key ` set bt) (map ascii_lower order))"
proof -
  let ?lc = "map ascii_lower order"
  have d: "distinct (map os_key bu)" using assms(4,5) by (metis distinct_map mset_eq_imp_distinct_iff set_mset_mset)
  have keys: "filter (\<lambda>k. k \<notin> set ?lc) (map os_key b) = map os_key (filter (\<lambda>s. os_key s \<notin> set ?lc) b)" for b
    by (simp add: filter_map comp_def)
  have unknown: "filter (\<lambda>k. k \<notin> set ?lc) (map os_key bt) = filter (\<lambda>k. k \<notin> set ?lc) (map os_key bu)"
    unfolding keys assms(6) ..
  have dup: "first_duplicate_key {} (map os_key bt) = None" "first_duplicate_key {} (map os_key bu) = None"
    using assms(5) d by (simp_all add: first_duplicate_key_None)
  have ord: "ordered_sections ?lc policy bt = ordered_sections ?lc policy bu"
    unfolding ordered_sections_def sections_by_key_perm [OF assms(5,4)] assms(6) ..
  have same: "map_sum id canonical_form (canonicalize_order finditer order policy t) = map_sum id canonical_form (canonicalize_order finditer order policy u)"
    unfolding canonicalize_order_def Let_def bt_def [symmetric] bu_def [symmetric] dup option.case unknown ord assms(3)
    by (simp add: canonical_form_def)
  have "mset (co_sections r) = mset (filter (\<lambda>s. os_key s \<in> set ?lc \<or> policy = TailUnknown) bt) \<and>
      filter (\<lambda>k. k \<in> set ?lc) (map os_key (co_sections r)) = filter (\<lambda>k. k \<in> os_key ` set bt) ?lc"
    if r: "canonicalize_order finditer order policy t = Inr r" and lc: "distinct ?lc" for r
  proof -
    have s: "co_sections r = ordered_sections ?lc policy bt"
      using r unfolding canonicalize_order_def Let_def bt_def [symmetric] dup option.case by (auto split: if_splits)
    have "filter (\<lambda>k. k \<in> set ?lc) (map os_key (List.map_filter (dict_get (sections_by_key bt)) ?lc)) = filter (\<lambda>k. k \<in> os_key ` set bt) ?lc"
      unfolding known_keys [OF assms(5)] by (simp only: filter_filter) (rule filter_cong, auto)
    then show ?thesis unfolding s using ordered_sections_mset [OF assms(5) lc]
      by (auto simp: ordered_sections_def filter_map comp_def filter_empty_conv)
  qed
  then show ?thesis using same by blast
qed

definition demo_match :: "nat \<Rightarrow> string \<Rightarrow> header_match" where
  "demo_match i h = \<lparr>hm_start = i, hm_end = i + 3, hm_line = ''# '' @ h, hm_name = h\<rparr>"

definition demo_finditer :: "string \<Rightarrow> header_match list" where
  "demo_finditer t = List.map_filter (\<lambda>i. if t ! i = CHR ''#'' then Some (demo_match i [t ! (i + 2)]) else None) [0..<length t]"

theorem canonical_form_invariant_witness:
  "map_sum id co_text (canonicalize_order demo_finditer [''a'', ''b''] TailUnknown ''# Bx# Ay'') =
   map_sum id co_text (canonicalize_order demo_finditer [''a'', ''b''] TailUnknown ''# Ay# Bx'')"
proof -
  let ?t = "parse_sections demo_finditer ''# Bx# Ay''" and ?u = "parse_sections demo_finditer ''# Ay# Bx''"
  have p: "last_preamble ?t = last_preamble ?u" by code_simp
  have b: "body_sections ?t = [\<lparr>os_key = ''b'', header_line = Some ''# B'', os_body = ''x''\<rparr>, \<lparr>os_key = ''a'', header_line = Some ''# A'', os_body = ''y''\<rparr>]"
    "body_sections ?u = [\<lparr>os_key = ''a'', header_line = Some ''# A'', os_body = ''y''\<rparr>, \<lparr>os_key = ''b'', header_line = Some ''# B'', os_body = ''x''\<rparr>]"
    by code_simp+
  have l: "map ascii_lower [''a'', ''b''] = [''a'', ''b'']" by code_simp
  have "map_sum id canonical_form (canonicalize_order demo_finditer [''a'', ''b''] TailUnknown ''# Bx# Ay'') =
      map_sum id canonical_form (canonicalize_order demo_finditer [''a'', ''b''] TailUnknown ''# Ay# Bx'')"
    by (rule canonical_form_invariant [THEN conjunct1, OF p]) (simp_all only: b l, simp_all add: add_mset_commute)
  then show ?thesis by (auto simp: canonical_form_def map_sum_def split: sum.splits)
qed

section \<open>What the documentation says otherwise\<close>

text \<open>The declared order is checked for duplicates before it is lower-cased, so two spellings of a key pass and the section is
  emitted twice.\<close>

lemma case_variants_double_section:
  "map_sum id co_text (canonicalize_order demo_finditer [''A'', ''a''] TailUnknown ''# Ay'') =
     Inr (''# A'' @ [CHR 0x0A] @ ''y'' @ [CHR 0x0A, CHR 0x0A] @ ''# A'' @ [CHR 0x0A] @ ''y'' @ [CHR 0x0A])"
  by code_simp

text \<open>A header whose text is the key of the preamble is taken for the preamble: its line disappears, and with it the text
  that stood before the first header.\<close>

lemma preamble_header_swallows_text:
  "map_sum id co_text (canonicalize_order
     (\<lambda>t. [\<lparr>hm_start = 2, hm_end = 16, hm_line = ''# __preamble__'', hm_name = ''__preamble__''\<rparr>]) [''a''] TailUnknown ''p.# __preamble__q'') =
     Inr [CHR ''q'', CHR 0x0A]"
  by code_simp

end
