(* ===== verification/Spec2Isabelle.thy ===== *)
theory Spec2Isabelle
  imports Prelude Reassembler Line_Buffer Utf8_Buffer Stop_Detector Debouncer Checksum_Finalizer Cancel_Token
    Sse_Replayer Sse_Cursor Sse_Resume Circuit_Breaker Embedding_Cache Py_Json Tool_Dedup Tool_Result_Cache
    Batching_Window Role_Validator Span_Detector Budget_Allocator Cost_Fence Turn_Pruner Tool_Call_Buffer Iteration_Cap Grant_Engine Coalescer Dedupe_Window Trace_Context Span_Recorder Merkle_Log Checkpointer
    Shared_Bucket Backpressure_Limiter Retry_Budget Deadline_Chain Keepalive_Detector Timeout_Ladder
    Repair_Loop Budget_Envelope Step_Checkpoint Once_Per_Key Idempotency_Store Idempotency_Cache Retry_Envelope Backoff
    Handoff_Store Arg_Coercer Batch_Coalescer Shadow_Runner Typo_Suggester Replay_Log Weighted_Router
    Tail_Recovery Size_Limiter Stream_Limiter Summarizer_Window Section_Trimmer Step_Budget Rate_Meter
    Loop_Detector Latency_Picker Section_Order
begin

text \<open>
  A verification library for the agent-runtime templates of this repository.

  \<^bold>\<open>The program.\<close>  \<open>src/templates\<close> is a catalogue of self-contained Python components for
  programs built around language models: stages of a streaming pipeline, reliability wrappers
  around tool calls, caches, validators of prompts and traces, budgets and logs.  Each component
  is a small state machine in one file with injected clocks and callables, meant to be copied
  next to a program.  A second, larger family (\<open>llm-output-*\<close>) are line-oriented text
  scanners.  This library models the components that keep state or decide, one theory each, and
  proves that they do what their modules promise.

  \<^bold>\<open>Modelling conventions.\<close>  A method that may raise is a function from the object's state and
  its arguments to an outcome (\<open>Inl\<close> the exception, \<open>Inr\<close> the value) and the state the object
  is left in, on the raising paths too (theory \<open>Prelude\<close>).  Every early return and every
  raise is a branch.  A dictionary is an association list in insertion order.  Clock readings
  and the results of injected pure callables are arguments; callables with effects act on a
  world.  Numbers: Python integers are \<open>int\<close>, floats are the exact rationals they denote
  (rounding of float arithmetic is not modelled; \<open>nan\<close>, the infinities and the overflow of \<open>float(i)\<close>
  are modelled where values of unknown origin are checked, in \<open>Arg_Coercer\<close>), bytes are 8-bit words.  Characters are the 256
  HOL characters.  Log and error texts are constructors that carry the data of the text.
  Parameters stand for SHA-256, for \<open>json.loads\<close> (where the proofs need it: the hypothesis
  that it reads back what \<open>json.dumps\<close>, modelled in \<open>Py_Json\<close>, wrote), for the random
  generator, and for the injected upstream functions.

  \<^bold>\<open>Shared theories.\<close>
  \<^item> \<open>Prelude\<close>: outcomes and sessions (\<open>run\<close>), Python values, \<open>find\<close> and slices,
    dictionaries, rounding; the interfaces \<open>invariant_object\<close> and \<open>lossless_stream\<close>.
  \<^item> \<open>Py_Json\<close>: compact \<open>json.dumps\<close>, with and without \<open>ensure_ascii\<close>, and that it is injective.
  \<^item> \<open>Cache_Interface\<close>: what a client may assume of a cache (\<open>cache_sound\<close>, \<open>cache_fresh\<close>),
    interpreted by the three caches.

  \<^bold>\<open>Streaming.\<close>
  \<^item> \<open>Reassembler\<close> (\<open>streaming-chunk-reassembler\<close>): chunks are handed out in order, once, and
    completely, in whatever order they arrive.
  \<^item> \<open>Line_Buffer\<close> (\<open>streaming-line-delimiter-buffer\<close>) and \<open>Utf8_Buffer\<close>
    (\<open>streaming-utf8-boundary-buffer\<close>): how the transport cuts the stream is invisible; a
    stream that ends inside a character is detected.
  \<^item> \<open>Stop_Detector\<close> (\<open>streaming-stop-sequence-detector\<close>): no stop sequence is missed or
    passed on, however it is split over chunks.
  \<^item> \<open>Debouncer\<close> (\<open>streaming-output-debouncer\<close>), \<open>Checksum_Finalizer\<close>
    (\<open>streaming-checksum-finalizer\<close>), \<open>Cancel_Token\<close> (\<open>streaming-cancellation-token\<close>),
    \<open>Tool_Call_Buffer\<close> (\<open>streaming-tool-call-buffer\<close>): lossless batching; digests only of
    finished streams; cleanups in reverse order and once; every call emitted exactly once.
  \<^item> \<open>Sse_Replayer\<close> (\<open>sse-event-replayer\<close>) and \<open>Sse_Cursor\<close> (\<open>sse-reconnect-cursor\<close>), and
    \<open>Sse_Resume\<close>, which states their contracts as locales (\<open>resumable_source\<close>,
    \<open>cursor_consumer\<close>), proves exactly-once delivery from the contracts and interprets
    them on the two models.
  \<^item> \<open>Keepalive_Detector\<close> (\<open>sse-keepalive-detector\<close>): the verdict is the documented function of
    the history.
  \<^item> \<open>Tail_Recovery\<close> (\<open>partial-json-tail-recovery\<close>): the scanner's stack is that of the brackets of the text;
    when recovery raises, and what it returns otherwise.
  \<^item> \<open>Rate_Meter\<close> (\<open>streaming-token-rate-meter\<close>): a snapshot is a function of the chunks seen.
  \<^item> \<open>Checkpointer\<close> (\<open>partial-output-checkpointer\<close>): recovery from a log that was cut at any
    character.

  \<^bold>\<open>Tool calls.\<close>
  \<^item> \<open>Circuit_Breaker\<close> (\<open>tool-call-circuit-breaker\<close>), \<open>Tool_Dedup\<close>
    (\<open>tool-call-deduplication\<close>), \<open>Tool_Result_Cache\<close> (\<open>tool-result-cache\<close>),
    \<open>Embedding_Cache\<close> (\<open>embedding-cache-eviction\<close>), \<open>Batching_Window\<close>
    (\<open>tool-call-batching-window\<close>), \<open>Dedupe_Window\<close> (\<open>request-dedupe-window\<close>),
    \<open>Grant_Engine\<close> (\<open>tool-permission-grant-envelope\<close>).
  \<^item> \<open>Token_Bucket\<close>: the contract of a token bucket as a locale, with the rate limit over sessions
    and over windows proved from it, interpreted by \<open>Shared_Bucket\<close>
    (\<open>rate-limit-token-bucket-shared\<close>), \<open>Backpressure_Limiter\<close>
    (\<open>tool-call-rate-limit-backpressure\<close>), \<open>Retry_Budget\<close> (\<open>retry-budget-tracker\<close>) and
    \<open>Stream_Limiter\<close> (\<open>streaming-token-rate-limiter\<close>).
    \<open>Shared_Bucket\<close> also models the processes that share the state file, system call by system
    call on a file system with inodes and locks: what is safe under every interleaving, and the
    condition under which the calls are sequential.
  \<^item> \<open>Deadline_Chain\<close> (\<open>deadline-propagation\<close>): reserves add up along a chain of calls;
    \<open>Timeout_Ladder\<close> (\<open>tool-call-timeout-laddered\<close>): the call returns in time whatever the tool
    does, from the timing guarantees of \<open>Event.wait\<close> (predicate \<open>punctual\<close>); what \<open>hard_timeout\<close> means
    is a finding.
  \<^item> \<open>Once_Per_Key\<close>: the contract of a wrapper that runs a call at most once per key, as a locale
    (what guards a key, for how long, and what it answers meanwhile), with the two session lemmas
    proved from it; interpreted by \<open>Idempotency_Store\<close> (\<open>idempotency-key-protocol\<close>),
    \<open>Idempotency_Cache\<close> (\<open>tool-call-idempotency-key\<close>) and the dedup table of \<open>Retry_Envelope\<close>
    (\<open>tool-call-retry-envelope\<close>, with its key derivation and failure classes).
  \<^item> \<open>Backoff\<close> (\<open>exponential-backoff-with-jitter\<close>): every delay lies in its strategy's interval, and
    truncation keeps the longest prefix within the budget.
  \<^item> \<open>Arg_Coercer\<close> (\<open>tool-call-argument-schema-coercer\<close>): a given value reaches the tool with
    the type and bounds of its field; coercion is idempotent when the schema's defaults fit.
  \<^item> \<open>Batch_Coalescer\<close> (\<open>embedding-batch-coalescer\<close>): clients and the worker thread under every
    interleaving; each future gets the vector of its own text, and after \<open>close\<close> every future is resolved.
  \<^item> \<open>Weighted_Router\<close> (\<open>weighted-model-router\<close>): rendezvous hashing; which edits of the
    configuration can move a key, and where to.
  \<^item> \<open>Size_Limiter\<close> (\<open>tool-result-size-limiter\<close>): whole characters at both cuts, true counts in the marker, and
    when the result is within the budget.
  \<^item> \<open>Latency_Picker\<close> (\<open>latency-aware-model-picker\<close>): the nearest-rank p95 and which rung is picked;
    \<open>Loop_Detector\<close> (\<open>agent-tool-call-loop-detector\<close>): which loops are reported, and which never are.
  \<^item> \<open>Typo_Suggester\<close> (\<open>tool-name-typo-suggester\<close>): the rotating rows compute the least number of edits
    of an alignment (inductive \<open>aligned\<close>), and the suggestion is the nearest name by the margin.
  \<^item> \<open>Replay_Log\<close> (\<open>tool-call-replay-log\<close>): recording and replaying refine queues of results per call.
  \<^item> \<open>Shadow_Runner\<close> (\<open>tool-call-shadow-execution\<close>): what is counted as agreement, and when
    promotion is allowed if production returned and the shadow did not time out.
  \<^item> \<open>Coalescer\<close> (\<open>request-coalescer\<close>): a step relation over arbitrary interleavings of
    threads, with the invariant by rule induction; safety and freedom from deadlock.

  \<^bold>\<open>Agents, prompts, traces, logs.\<close>
  \<^item> \<open>Iteration_Cap\<close> (\<open>agent-loop-iteration-cap\<close>, over callables that may raise, whose calls are
    counted by wrapping them, \<open>traced\<close>), \<open>Turn_Pruner\<close>
    (\<open>agent-conversation-turn-pruner\<close>), \<open>Budget_Allocator\<close>
    (\<open>prompt-token-budget-allocator\<close>), \<open>Cost_Fence\<close> (\<open>cost-budget-soft-fence\<close>, its
    persistence included),
    \<open>Role_Validator\<close> (\<open>prompt-message-role-sequence-validator\<close>), \<open>Budget_Envelope\<close>
    (\<open>agent-cost-budget-envelope\<close>: the caps hold over any session, degradations included).
  \<^item> \<open>Step_Budget\<close> (\<open>agent-step-budget-monitor\<close>), \<open>Section_Trimmer\<close>
    (\<open>prompt-token-budget-trimmer\<close>), \<open>Summarizer_Window\<close> (\<open>conversation-summarizer-window\<close>): what each
    charge answers; what becomes of each section; which messages are summarised and where the summary stands.
  \<^item> \<open>Section_Order\<close> (\<open>prompt-section-order-canonicalizer\<close>): prompts that differ in the order of their
    sections have the same canonical form, and no section is lost or doubled.
  \<^item> \<open>Repair_Loop\<close> (\<open>structured-output-repair-loop\<close>): the mini-validator decides the typing relation
    \<open>conforms\<close>; the loop ends against any model and its statuses mean what they say.
  \<^item> \<open>Step_Checkpoint\<close> (\<open>agent-checkpoint-resume\<close>): a mission cut any number of times never repeats
    a committed step nor skips one.
  \<^item> \<open>Handoff_Store\<close> (\<open>cross-tick-state-handoff\<close>): an inductive step relation over the system calls of
    concurrent processes that may die at any point; the committed state is that of the committed
    transactions run one after the other.
  \<^item> \<open>Span_Detector\<close> (\<open>agent-trace-span-orphan-detector\<close>), \<open>Trace_Context\<close> and
    \<open>Span_Recorder\<close> (\<open>tool-call-trace-id-propagator\<close>).
  \<^item> \<open>Merkle_Log\<close> (\<open>audit-trail-merkle-chain\<close>): tamper evidence and completeness of the
    hash chain.

  \<^bold>\<open>Recursion and fuel.\<close>  Loops are structural recursion or have a termination proof.  Fuel is
  used where the code's own recursion may not end or has an explicit bound: the ancestor walk of
  \<open>Span_Detector\<close> (fuel = number of spans, proved to be enough: a walk of that length has
  repeated a span), the tree walk of \<open>Span_Recorder\<close> (the interpreter's recursion limit;
  with unique ids the number of spans is proved to be enough, and with a repeated id no limit
  is), and the agent loop (fuel = \<open>max_iterations\<close>, which is the loop's own range).  The polling
  loops of \<open>Timeout_Ladder\<close> are \<open>partial_function (option)\<close>, and that they return is proved.  The
  attempts of \<open>Repair_Loop\<close> end by the measure \<open>max_attempts + 1 - attempt\<close>.

  \<^bold>\<open>Findings.\<close>  Where a module says one thing and its code does another, the theory holds a
  lemma with a concrete run that shows it (for example
  \<open>Line_Buffer.cap_rejects_line_with_torn_delimiter\<close>, \<open>Coalescer.error_counter_loses_update\<close>,
  \<open>Shared_Bucket.stale_lock_grants_twice\<close>,
  \<open>Cost_Fence.persistence_forgets_small_charges\<close>, \<open>Step_Checkpoint.torn_line_blocks_resume\<close>,
  \<open>Replay_Log.truncation_not_detected\<close>, \<open>Tail_Recovery.nested_tail_unrecoverable\<close>, \<open>Summarizer_Window.summary_exceeds_target\<close>, \<open>Loop_Detector.no_progress_unreachable\<close>,
  \<open>Batch_Coalescer.cancel_kills_worker\<close>, \<open>Shadow_Runner.timeout_counts_as_disagreement\<close>,
  \<open>Retry_Envelope.expired_reported_after_execution\<close>, \<open>Arg_Coercer.default_fills_required_untyped\<close>,
  \<open>Arg_Coercer.nan_passes_bounds\<close>, \<open>Step_Checkpoint.missing_log_not_fresh\<close>,
  \<open>Grant_Engine.tool_checked_before_revocation\<close>, \<open>Budget_Envelope.soft_cap_not_enforced\<close>,
  \<open>Timeout_Ladder.stuck_tool_awaited_past_hard\<close>, \<open>Iteration_Cap.negative_cooldown_refused\<close>,
  \<open>Span_Recorder.cyclic_spans_vanish\<close>, \<open>Merkle_Log.blank_line_breaks_verify\<close>), and the main
  theorems are stated with the condition under which the promise holds, and say nothing of the
  cases in which a document promises something else.

  \<^bold>\<open>Not modelled.\<close>  The text scanners (\<open>llm-output-*\<close>): regular-expression heuristics over
  source text without a specification beyond their patterns.  The remaining stateful templates
  (redactors, estimators, incremental parsers and others), which are candidates for the same treatment.  Command-line entry points, worked
  examples, shell scripts and documents.  Of the modelled files: file and process I/O, argument
  parsing, \<open>to_dict\<close> views that only copy fields (unless listed in the map), and exceptions
  raised inside injected callables other than those the code catches (\<open>Iteration_Cap\<close>, \<open>Idempotency_Store\<close>
  and others that say so represent them).
\<close>

end
